(* ===== verification/Go_Prelude.thy ===== *)
theory Go_Prelude
  imports Main "HOL-Library.Finite_Map" "HOL-Library.List_Lexorder" "HOL-Library.Char_ord"
    "HOL-Library.Product_Lexorder"
    "HOL-Library.Word" "HOL-Library.Multiset"
begin

text \<open>
  The Go runtime notions the gorapide packages share, and the generic facts about them.

  \<^item> A Go string is a byte sequence; \<^typ>\<open>string\<close> is a list of 8-bit characters, and the order
    of \<open>HOL-Library.List_Lexorder\<close> over \<open>HOL-Library.Char_ord\<close> is Go's bytewise order.
  \<^item> \<open>uint64\<close> is \<open>64 word\<close>, so \<open>+\<close> wraps as it does in Go.
  \<^item> A Go map is a finite map \<open>fmap\<close>; \<open>for k := range m\<close> visits the keys in some order, which
    the model fixes as the ascending one (\<open>map_keys\<close>).  Where the source ranges over a map it
    then sorts what it collected or computes an order-free result.
  \<^item> \<open>map[K]bool\<close> used as a set is an \<open>fset\<close> when the source ranges over it, a set otherwise.
  \<^item> \<open>sort.Search\<close> is the binary search of the Go library.
\<close>

type_synonym u64 = "64 word"
type_synonym i64 = "64 word"

abbreviation u64_max :: u64 where
  "u64_max \<equiv> - 1"

type_synonym event_id = string
type_synonym node_id = string

named_theorems go_defs \<open>definitions of small operations, for unfolding\<close>

section \<open>Errors\<close>

text \<open>
  The sentinel errors of the package; the formatted text of a wrapped error is not modelled.  A
  mutating operation returns the state it leaves together with an optional error.  Where it could
  also panic (a nil dereference, a write to a nil map) or loop for ever in a corrupted state, its
  result is an option, with \<^term>\<open>None\<close> for "does not return".
\<close>

datatype go_error =
    ErrEventExists | ErrEventNotFound | ErrCyclicCausal | ErrNoPath | ErrSelfCausal
  | ErrCauseMismatch | ErrCausalEquivalenceConflict
  | ErrInvalidEventTiming | ErrTimingNotRelated | ErrTimingCausality
  | ErrObservationConflict | ErrNonCanonicalValue | ErrInvalidCanonicalPoset
  | ErrInvalidSnapshotMerge | ErrInvalidRapideModuleValue | ErrInvalidRapideRecordValue
  | ErrOther string

section \<open>Maps\<close>

definition map_keys :: "('k::linorder, 'v) fmap \<Rightarrow> 'k list" where
  "map_keys m = sorted_list_of_fset (fmdom m)"

definition map_has :: "('k, 'v) fmap \<Rightarrow> 'k \<Rightarrow> bool" where
  "map_has m k \<longleftrightarrow> k |\<in>| fmdom m"

definition map_get :: "'v \<Rightarrow> ('k, 'v) fmap \<Rightarrow> 'k \<Rightarrow> 'v" where
  \<comment> \<open>\<open>m[k]\<close>: the zero value where the key is absent.\<close>
  "map_get zero m k = (case fmlookup m k of None \<Rightarrow> zero | Some v \<Rightarrow> v)"

lemma set_map_keys [simp]: "set (map_keys m) = fset (fmdom m)"
  by (simp add: map_keys_def sorted_list_of_fset.rep_eq)

lemma sorted_map_keys [simp]: "sorted (map_keys m)"
  by (simp add: map_keys_def sorted_list_of_fset.rep_eq)

lemma distinct_map_keys [simp]: "distinct (map_keys m)"
  by (simp add: map_keys_def sorted_list_of_fset.rep_eq)

lemma length_map_keys [simp]: "length (map_keys m) = fcard (fmdom m)"
  by (simp add: map_keys_def sorted_list_of_fset.rep_eq fcard.rep_eq)

lemma map_has_iff: "map_has m k \<longleftrightarrow> (\<exists>v. fmlookup m k = Some v)"
  by (simp add: map_has_def fmlookup_dom_iff)

lemma map_hasI [intro]: "fmlookup m k = Some v \<Longrightarrow> map_has m k"
  by (simp add: map_has_iff)

lemma map_has_fset: "map_has m k \<longleftrightarrow> k \<in> fset (fmdom m)"
  by (simp add: map_has_def)

lemma map_has_upd [simp]: "map_has (fmupd k v m) k' \<longleftrightarrow> k' = k \<or> map_has m k'"
  by (auto simp: map_has_def)

lemma map_has_empty [simp]: "\<not> map_has fmempty k"
  by (simp add: map_has_def)

lemma map_get_upd [simp]: "map_get z (fmupd k v m) k' = (if k' = k then v else map_get z m k')"
  by (auto simp: map_get_def)

lemma map_get_empty [simp]: "map_get z fmempty k = z"
  by (simp add: map_get_def)

lemma map_get_Some: "fmlookup m k = Some v \<Longrightarrow> map_get z m k = v"
  by (simp add: map_get_def)

lemma map_get_absent: "\<not> map_has m k \<Longrightarrow> map_get z m k = z"
  by (auto simp: map_get_def map_has_iff split: option.splits)

lemma map_lookup_absent: "\<not> map_has m k \<Longrightarrow> fmlookup m k = None"
  by (auto simp: map_has_iff)

section \<open>Sorted lists of keys\<close>

definition sort_ids :: "string list \<Rightarrow> string list" where
  \<comment> \<open>\<open>sort.Slice(ids, func(i, j int) bool { return ids[i] < ids[j] })\<close>\<close>
  "sort_ids ids = sort ids"

definition fset_ids :: "string fset \<Rightarrow> string list" where
  \<comment> \<open>the keys of a \<open>map[EventID]bool\<close>, collected and sorted\<close>
  "fset_ids s = sorted_list_of_fset s"

lemma set_fset_ids [simp]: "set (fset_ids s) = fset s"
  by (simp add: fset_ids_def sorted_list_of_fset.rep_eq)

lemma distinct_fset_ids [simp]: "distinct (fset_ids s)"
  by (simp add: fset_ids_def sorted_list_of_fset.rep_eq)

lemma sorted_fset_ids [simp]: "sorted (fset_ids s)"
  by (simp add: fset_ids_def sorted_list_of_fset.rep_eq)

lemma length_fset_ids: "length (fset_ids s) = fcard s"
  by (simp add: fset_ids_def sorted_list_of_fset.rep_eq fcard.rep_eq)

lemma sort_ids_simps [simp]:
  "set (sort_ids xs) = set xs" "sorted (sort_ids xs)" "length (sort_ids xs) = length xs"
  "distinct (sort_ids xs) = distinct xs"
  by (simp_all add: sort_ids_def)

lemma mset_sort_ids [simp]: "mset (sort_ids xs) = mset xs"
  by (simp add: sort_ids_def)

lemma sorted_distinct_set_eq:
  fixes xs ys :: "'a::linorder list"
  assumes "sorted xs" "distinct xs" "sorted ys" "distinct ys" "set xs = set ys"
  shows "xs = ys"
  using assms by (rule sorted_distinct_set_unique)

lemma sort_ids_sorted: "sorted xs \<Longrightarrow> sort_ids xs = xs"
  by (simp add: sort_ids_def sort_key_id_if_sorted)

lemma hd_sorted_least: "sorted xs \<Longrightarrow> x \<in> set xs \<Longrightarrow> hd xs \<le> x"
  by (cases xs) auto

section \<open>Joined strings\<close>

definition strings_join :: "string \<Rightarrow> string list \<Rightarrow> string" where
  "strings_join sep parts = (case parts of [] \<Rightarrow> [] | part # rest \<Rightarrow> part @ concat (map ((@) sep) rest))"

section \<open>Binary search\<close>

text \<open>
  \<open>sort.Search(n, f)\<close>: the loop keeps \<open>f(i-1) = false\<close> and \<open>f(j) = true\<close>; with \<open>i < j\<close> the
  midpoint is strictly below \<open>j\<close>.
\<close>

function search_loop :: "(nat \<Rightarrow> bool) \<Rightarrow> nat \<Rightarrow> nat \<Rightarrow> nat" where
  "search_loop f i j =
     (if i < j then
        (let h = (i + j) div 2
         in if \<not> f h then search_loop f (h + 1) j else search_loop f i h)
      else i)"
  by pat_completeness auto
termination
  by (relation "measure (\<lambda>(f, i, j). j - i)") auto

declare search_loop.simps [simp del]

definition sort_search :: "nat \<Rightarrow> (nat \<Rightarrow> bool) \<Rightarrow> nat" where
  "sort_search n f = search_loop f 0 n"

lemma search_loop_spec:
  assumes "i \<le> j" "j \<le> n" "\<forall>k < i. \<not> f k" "\<forall>k. j \<le> k \<longrightarrow> k < n \<longrightarrow> f k"
    and "\<forall>k l. k \<le> l \<longrightarrow> l < n \<longrightarrow> f k \<longrightarrow> f l"
  shows "search_loop f i j \<le> n \<and> (\<forall>k < search_loop f i j. \<not> f k)
    \<and> (\<forall>k. search_loop f i j \<le> k \<longrightarrow> k < n \<longrightarrow> f k)"
  using assms
proof (induction f i j rule: search_loop.induct)
  case (1 f i j)
  define h where "h = (i + j) div 2"
  show ?case
  proof (cases "i < j")
    case False
    then have "search_loop f i j = i" by (simp add: search_loop.simps [of f i j])
    with False "1.prems" show ?thesis by auto
  next
    case True
    then have h: "i \<le> h" "h < j" unfolding h_def by auto
    show ?thesis
    proof (cases "f h")
      case fh: True
      have "\<forall>k. h \<le> k \<longrightarrow> k < n \<longrightarrow> f k" using fh "1.prems"(5) by blast
      with "1.IH"(2) [OF True h_def] fh h "1.prems" show ?thesis
        using True by (simp add: search_loop.simps [of f i j] h_def)
    next
      case fh: False
      have "\<forall>k < h + 1. \<not> f k"
        using fh "1.prems"(2,5) h(2) by (metis Suc_eq_plus1 less_Suc_eq_le less_le_trans)
      with "1.IH"(1) [OF True h_def] fh h "1.prems" show ?thesis
        using True by (simp add: search_loop.simps [of f i j] h_def)
    qed
  qed
qed

lemma sort_search_spec:
  assumes "\<forall>k l. k \<le> l \<longrightarrow> l < n \<longrightarrow> f k \<longrightarrow> f l"
  shows "sort_search n f \<le> n" "\<forall>k < sort_search n f. \<not> f k"
    "\<forall>k. sort_search n f \<le> k \<longrightarrow> k < n \<longrightarrow> f k"
  using search_loop_spec [of 0 n n f] assms by (auto simp: sort_search_def)

lemma search_loop_le: "i \<le> j \<Longrightarrow> search_loop f i j \<le> j"
proof (induction f i j rule: search_loop.induct)
  case (1 f i j)
  define h where "h = (i + j) div 2"
  show ?case
  proof (cases "i < j")
    case True
    then have h: "i \<le> h" "h < j" unfolding h_def by auto
    show ?thesis
    proof (cases "f h")
      case fh: True
      from "1.IH"(2) [OF True h_def] fh h have "search_loop f i h \<le> h" by simp
      with True fh h show ?thesis by (simp add: search_loop.simps [of f i j] h_def [symmetric])
    next
      case False
      from "1.IH"(1) [OF True h_def] False h True show ?thesis
        by (simp add: search_loop.simps [of f i j] h_def [symmetric])
    qed
  qed (use "1.prems" search_loop.simps [of f i j] in simp)
qed

lemma search_loop_cong: "(\<And>k. k < j \<Longrightarrow> f k = g k) \<Longrightarrow> search_loop f i j = search_loop g i j"
proof (induction f i j rule: search_loop.induct)
  case (1 f i j)
  then show ?case
    by (auto simp: search_loop.simps [of f i j] search_loop.simps [of g i j] Let_def)
qed

lemma sort_search_le: "sort_search n f \<le> n"
  by (simp add: sort_search_def search_loop_le)

lemma sort_search_cong: "(\<And>k. k < n \<Longrightarrow> f k = g k) \<Longrightarrow> sort_search n f = sort_search n g"
  unfolding sort_search_def by (rule search_loop_cong)

text \<open>Searching a strictly increasing list of keys for the first entry not below \<open>x\<close>.\<close>

lemma sort_search_key:
  fixes ks :: "'a::linorder list" and x :: 'a
  assumes "sorted ks" "distinct ks"
  defines "i \<equiv> sort_search (length ks) (\<lambda>i. x \<le> ks ! i)"
  shows "x \<in> set ks \<longleftrightarrow> i < length ks \<and> ks ! i = x"
proof
  have mono: "\<forall>k l. k \<le> l \<longrightarrow> l < length ks \<longrightarrow> x \<le> ks ! k \<longrightarrow> x \<le> ks ! l"
    using assms(1) by (meson order_trans sorted_nth_mono)
  note spec = sort_search_spec [of "length ks" "\<lambda>i. x \<le> ks ! i", OF mono, folded i_def]
  assume "x \<in> set ks"
  then obtain k where k: "k < length ks" "ks ! k = x" by (auto simp: in_set_conv_nth)
  then have "i \<le> k" using spec(2) by (metis linorder_not_le order_refl)
  moreover have "x \<le> ks ! i" using spec(3) \<open>i \<le> k\<close> k by simp
  moreover have "ks ! i \<le> ks ! k" using assms(1) \<open>i \<le> k\<close> k(1) by (rule sorted_nth_mono)
  ultimately show "i < length ks \<and> ks ! i = x" using k by auto
qed auto

section \<open>Counters\<close>

lemma u64_succ_zero: "(x::u64) + 1 = 0 \<longleftrightarrow> x = u64_max"
  by (simp add: eq_neg_iff_add_eq_0)

lemma u64_unat_succ: "(x::u64) \<noteq> u64_max \<Longrightarrow> unat (x + 1) = Suc (unat x)"
  by (metis add.commute u64_succ_zero unatSuc)

lemma u64_less_succ: "(x::u64) \<noteq> u64_max \<Longrightarrow> x < x + 1"
  by (simp add: word_less_nat_alt u64_unat_succ)

lemma u64_succ_le: "(x::u64) < y \<Longrightarrow> x + 1 \<le> y"
  by (rule inc_le)

section \<open>Relations\<close>

lemma trancl_insert_iff:
  "(x, y) \<in> (insert (a, b) r)\<^sup>+ \<longleftrightarrow> (x, y) \<in> r\<^sup>+ \<or> (x, a) \<in> r\<^sup>* \<and> (b, y) \<in> r\<^sup>*"
  by (simp add: trancl_insert)

lemma acyclic_insert_iff: "acyclic (insert (a, b) r) \<longleftrightarrow> acyclic r \<and> (b, a) \<notin> r\<^sup>*"
  by (rule acyclic_insert)

end
