(* ===== verification/Go_Values.thy ===== *)
theory Go_Values
  imports Go_Prelude
begin

text \<open>
  The dynamic values of event parameters (Go's \<open>any\<close>) that the package distinguishes in its type
  switches, and the defensive copies of \<open>event_observation.go\<close>.

  Integers keep their Go width.  A float is its IEEE-754 bit pattern.  A \<open>map[string]any\<close> is the
  list of its entries in ascending key order (\<open>params_ok\<close>: strictly sorted keys); a nil map reads
  and copies as the empty one.  \<open>VOther\<close> stands for a value of any other Go type, by type name and by its
  class under \<open>reflect.DeepEqual\<close>: \<open>None\<close> for a value that is not equal to itself, such as a function or a
  structure with a NaN.
\<close>

datatype go_value =
    VNil
  | VBool bool
  | VTriv
  | VString string
  | VCharacter i64
  | VRapideString "i64 list"
  | VModule string
  | VRecord string "(string \<times> go_value) list"
  | VInt i64 | VInt8 "8 word" | VInt16 "16 word" | VInt32 "32 word" | VInt64 i64
  | VUint u64 | VUint8 "8 word" | VUint16 "16 word" | VUint32 "32 word" | VUint64 u64
  | VFloat32 "32 word" | VFloat64 "64 word"
  | VBytes string
  | VList "go_value list"
  | VMap "(string \<times> go_value) list"
  | VOther string "nat option"

type_synonym params = "(string \<times> go_value) list"

definition params_get :: "params \<Rightarrow> string \<Rightarrow> go_value option" where
  "params_get ps key = map_of ps key"

definition sorted_keys :: "(string \<times> 'a) list \<Rightarrow> bool" where
  "sorted_keys ps \<longleftrightarrow> sorted_wrt (<) (map fst ps)"

lemma sorted_keys_iff: "sorted_keys ps \<longleftrightarrow> sorted (map fst ps) \<and> distinct (map fst ps)"
  by (simp add: sorted_keys_def strict_sorted_iff)

lemma sorted_keys_Nil [simp]: "sorted_keys []"
  by (simp add: sorted_keys_def)

section \<open>Defensive copies\<close>

fun copyParamValue :: "go_value \<Rightarrow> go_value"
  and copyItems :: "go_value list \<Rightarrow> go_value list"
  and copyParams :: "params \<Rightarrow> params" where
  "copyParamValue (VBytes b) = VBytes b"
| "copyParamValue (VList items) = VList (copyItems items)"
| "copyParamValue (VMap m) = VMap (copyParams m)"
| "copyParamValue value = value"
| "copyItems [] = []"
| "copyItems (item # items) = copyParamValue item # copyItems items"
| "copyParams [] = []"
| "copyParams ((key, value) # rest) = (key, copyParamValue value) # copyParams rest"

text \<open>Values are immutable here, so a copy is equal to its original at every depth.\<close>

lemma copy_id [simp]: "copyParamValue v = v" "copyItems vs = vs" "copyParams ps = ps"
  by (induction v and vs and ps rule: copyParamValue_copyItems_copyParams.induct) auto

end
