(* ===== verification/Event_Timing.thy ===== *)
theory Event_Timing
  imports Go_Prelude
begin

text \<open>
  Rapide local-clock intervals, from \<open>event_timing.go\<close>: validation and canonical order
  (\<open>CanonicalizeEventTimings\<close>), lookup by binary search (\<open>Timing\<close> and its readers) and the
  two-pointer conflict scan of \<open>sharedTimingConflict\<close>.  The lemmas say when canonicalization
  succeeds, that its result is the sorted permutation of its input and a fixed point, and that the
  scan decides the conflict relation on canonical lists.
\<close>

record event_timing =
  et_clock :: string
  et_start :: u64
  et_finish :: u64

section \<open>Canonical intervals\<close>

fun validIntervals :: "event_timing list \<Rightarrow> bool" where
  \<comment> \<open>the validation loop; \<open>False\<close> stands for its early error return\<close>
  "validIntervals [] = True"
| "validIntervals (t # ts) =
     (if et_clock t = '''' then False
      else if et_finish t < et_start t then False
      else validIntervals ts)"

fun adjacentDuplicate :: "event_timing list \<Rightarrow> bool" where
  \<comment> \<open>the scan after the sort: some \<open>result[index-1].Clock == result[index].Clock\<close>\<close>
  "adjacentDuplicate (s # t # ts) = (et_clock s = et_clock t \<or> adjacentDuplicate (t # ts))"
| "adjacentDuplicate _ = False"

definition CanonicalizeEventTimings :: "event_timing list \<Rightarrow> go_error + event_timing list" where
  "CanonicalizeEventTimings timings =
     (if \<not> validIntervals timings then Inl ErrInvalidEventTiming
      else let result = sort_key et_clock timings
           in if adjacentDuplicate result then Inl ErrInvalidEventTiming else Inr result)"

text \<open>What a canonical list is: valid intervals, strictly increasing clock names.\<close>

definition valid_timing :: "event_timing \<Rightarrow> bool" where
  "valid_timing t \<longleftrightarrow> et_clock t \<noteq> '''' \<and> et_start t \<le> et_finish t"

definition canonical_timings :: "event_timing list \<Rightarrow> bool" where
  "canonical_timings ts \<longleftrightarrow>
     (\<forall>t \<in> set ts. valid_timing t) \<and> sorted (map et_clock ts) \<and> distinct (map et_clock ts)"

lemma validIntervals_iff: "validIntervals ts \<longleftrightarrow> (\<forall>t \<in> set ts. valid_timing t)"
  by (induction ts) (auto simp: valid_timing_def)

lemma adjacentDuplicate_iff:
  "sorted (map et_clock ts) \<Longrightarrow> adjacentDuplicate ts \<longleftrightarrow> \<not> distinct (map et_clock ts)"
proof (induction ts rule: adjacentDuplicate.induct)
  case (1 s t ts)
  have "et_clock s \<in> et_clock ` set ts \<Longrightarrow> et_clock s = et_clock t"
    using "1.prems" by (force intro: antisym)
  with "1" show ?case by auto
qed auto

lemma Canonicalize_ok_iff:
  "CanonicalizeEventTimings ts = Inr rs \<longleftrightarrow>
     (\<forall>t \<in> set ts. valid_timing t) \<and> distinct (map et_clock ts) \<and> rs = sort_key et_clock ts"
proof -
  have "distinct (map et_clock (sort_key et_clock ts)) \<longleftrightarrow> distinct (map et_clock ts)"
    by (metis distinct_sort map_map mset_map mset_sort mset_eq_imp_distinct_iff)
  then show ?thesis
    by (auto simp: CanonicalizeEventTimings_def validIntervals_iff Let_def adjacentDuplicate_iff)
qed

lemma Canonicalize_canonical:
  "CanonicalizeEventTimings ts = Inr rs \<Longrightarrow> canonical_timings rs \<and> mset rs = mset ts"
  unfolding Canonicalize_ok_iff canonical_timings_def
  by (metis mset_eq_imp_distinct_iff mset_map mset_sort set_sort sorted_sort_key)

lemma Canonicalize_error_iff:
  "(\<exists>e. CanonicalizeEventTimings ts = Inl e) \<longleftrightarrow>
     (\<exists>t \<in> set ts. \<not> valid_timing t) \<or> \<not> distinct (map et_clock ts)"
proof (cases "CanonicalizeEventTimings ts")
  case (Inl e)
  then have "CanonicalizeEventTimings ts \<noteq> Inr (sort_key et_clock ts)" by simp
  with Inl show ?thesis unfolding Canonicalize_ok_iff by blast
next
  case (Inr rs)
  then have "(\<forall>t \<in> set ts. valid_timing t) \<and> distinct (map et_clock ts)"
    by (auto simp: Canonicalize_ok_iff)
  with Inr show ?thesis by auto
qed

lemma Canonicalize_error_kind:
  "CanonicalizeEventTimings ts = Inl e \<Longrightarrow> e = ErrInvalidEventTiming"
  by (auto simp: CanonicalizeEventTimings_def Let_def split: if_splits)

lemma Canonicalize_fixpoint:
  "canonical_timings ts \<Longrightarrow> CanonicalizeEventTimings ts = Inr ts"
  by (simp add: Canonicalize_ok_iff canonical_timings_def sort_key_id_if_sorted)

lemma Canonicalize_perm:
  assumes "mset ts = mset us" "CanonicalizeEventTimings ts = Inr rs"
  shows "CanonicalizeEventTimings us = Inr rs"
proof -
  have d: "distinct (map et_clock us)" and v: "\<forall>t \<in> set us. valid_timing t"
    using assms by (auto simp: Canonicalize_ok_iff dest: mset_eq_setD)
      (metis mset_eq_imp_distinct_iff mset_map)
  have "sort_key et_clock us = sort_key et_clock ts"
    using assms(1) d by (intro sort_key_inj_key_eq) (auto simp: distinct_map)
  with d v assms show ?thesis by (auto simp: Canonicalize_ok_iff)
qed

section \<open>Lookup\<close>

text \<open>
  \<open>(*Event).Timing\<close> on the event's interval list: \<open>sort.Search\<close> for the first clock not below
  the requested one.  The nil-event and empty-clock guards are in the event-level wrapper.
\<close>

definition timingLookup :: "event_timing list \<Rightarrow> string \<Rightarrow> event_timing option" where
  "timingLookup ts clock =
     (let index = sort_search (length ts) (\<lambda>i. clock \<le> et_clock (ts ! i))
      in if index = length ts \<or> et_clock (ts ! index) \<noteq> clock then None else Some (ts ! index))"

lemma timingLookup_iff:
  assumes "canonical_timings ts"
  shows "timingLookup ts clock = Some t \<longleftrightarrow> t \<in> set ts \<and> et_clock t = clock"
proof -
  let ?ks = "map et_clock ts"
  define i where "i = sort_search (length ts) (\<lambda>i. clock \<le> et_clock (ts ! i))"
  define i' where "i' = sort_search (length ?ks) (\<lambda>i. clock \<le> ?ks ! i)"
  have sd: "sorted ?ks" "distinct ?ks" using assms by (auto simp: canonical_timings_def)
  have mono: "\<forall>k l. k \<le> l \<longrightarrow> l < length ts \<longrightarrow> clock \<le> et_clock (ts ! k) \<longrightarrow> clock \<le> et_clock (ts ! l)"
  proof (intro allI impI)
    fix k l
    assume "k \<le> l" "l < length ts" "clock \<le> et_clock (ts ! k)"
    then show "clock \<le> et_clock (ts ! l)"
      using sorted_nth_mono [OF sd(1), of k l] by simp
  qed
  note spec = sort_search_spec [of "length ts" "\<lambda>i. clock \<le> et_clock (ts ! i)", OF mono, folded i_def]
  have uniq: "\<And>t u. t \<in> set ts \<Longrightarrow> u \<in> set ts \<Longrightarrow> et_clock t = et_clock u \<Longrightarrow> t = u"
    using sd(2) by (auto simp: distinct_map dest: inj_onD)
  have found: "i < length ts \<and> et_clock (ts ! i) = clock" if t: "t \<in> set ts" "et_clock t = clock" for t
  proof -
    obtain k where k: "k < length ts" "ts ! k = t" using t by (auto simp: in_set_conv_nth)
    then have "i \<le> k" using spec(2) t by (metis linorder_not_le order_refl)
    then have "clock \<le> et_clock (ts ! i)" using spec(3) k by simp
    moreover have "et_clock (ts ! i) \<le> et_clock (ts ! k)"
      using sorted_nth_mono [OF sd(1) \<open>i \<le> k\<close>] \<open>i \<le> k\<close> k by simp
    ultimately show ?thesis using \<open>i \<le> k\<close> k t by auto
  qed
  have "timingLookup ts clock = (if i = length ts \<or> et_clock (ts ! i) \<noteq> clock then None else Some (ts ! i))"
    by (simp add: timingLookup_def i_def Let_def)
  then show ?thesis using found uniq spec(1) by (auto simp: le_less)
qed

lemma timingLookup_None_iff:
  "canonical_timings ts \<Longrightarrow> timingLookup ts clock = None \<longleftrightarrow> clock \<notin> et_clock ` set ts"
  by (metis (no_types, lifting) image_iff not_None_eq timingLookup_iff)

section \<open>Conflicts\<close>

text \<open>
  The loop of \<open>sharedTimingConflict\<close>: both indices advance over the clock-sorted lists, and a
  shared clock on which the earlier event finishes after the later one starts is a conflict.
\<close>

fun timingConflictLoop :: "event_timing list \<Rightarrow> event_timing list \<Rightarrow> bool" where
  "timingConflictLoop (b # bs) (a # as) =
     (if et_clock b < et_clock a then timingConflictLoop bs (a # as)
      else if et_clock b > et_clock a then timingConflictLoop (b # bs) as
      else if et_finish b > et_start a then True
      else timingConflictLoop bs as)"
| "timingConflictLoop _ _ = False"

definition timing_conflict :: "event_timing list \<Rightarrow> event_timing list \<Rightarrow> bool" where
  "timing_conflict bs as \<longleftrightarrow>
     (\<exists>b \<in> set bs. \<exists>a \<in> set as. et_clock b = et_clock a \<and> et_finish b > et_start a)"

lemma timing_conflict_Nil [simp]: "\<not> timing_conflict [] as" "\<not> timing_conflict bs []"
  by (auto simp: timing_conflict_def)

lemma canonical_timings_Cons:
  "canonical_timings (t # ts) \<longleftrightarrow>
     valid_timing t \<and> canonical_timings ts \<and> (\<forall>u \<in> set ts. et_clock t < et_clock u)"
  by (auto simp: canonical_timings_def less_le)

lemma timingConflictLoop_iff:
  "canonical_timings bs \<Longrightarrow> canonical_timings as \<Longrightarrow>
     timingConflictLoop bs as \<longleftrightarrow> timing_conflict bs as"
proof (induction bs as rule: timingConflictLoop.induct)
  case (1 b bs a as)
  consider "et_clock b < et_clock a" | "et_clock b > et_clock a" | "et_clock b = et_clock a"
    by (rule linorder_cases)
  then show ?case
  proof cases
    case 1
    then have "timing_conflict (b # bs) (a # as) = timing_conflict bs (a # as)"
      using "1.prems" by (auto simp: timing_conflict_def canonical_timings_Cons dest: less_trans)
    with 1 "1.IH"(1) "1.prems" show ?thesis by (simp add: canonical_timings_Cons)
  next
    case 2
    then have "timing_conflict (b # bs) (a # as) = timing_conflict (b # bs) as"
      using "1.prems" by (auto simp: timing_conflict_def canonical_timings_Cons dest: less_trans)
    with 2 less_not_sym [OF 2] "1.IH"(2) "1.prems" show ?thesis
      by (simp add: canonical_timings_Cons)
  next
    case 3
    then have "timing_conflict (b # bs) (a # as) \<longleftrightarrow>
        et_finish b > et_start a \<or> timing_conflict bs as"
      using "1.prems" by (auto simp: timing_conflict_def canonical_timings_Cons)
    with 3 "1.IH"(3) "1.prems" show ?thesis by (simp add: canonical_timings_Cons)
  qed
qed auto

end
