(* ===== verification/Vector_Clock.thy ===== *)
theory Vector_Clock
  imports Go_Prelude
begin

text \<open>
  Vector clocks, from \<open>event_vector.go\<close>.  A clock is a finite map from node to \<open>uint64\<close> counter; an
  absent node reads as 0 (\<open>vc_at\<close>).  The lemmas give each operation its meaning over \<open>vc_at\<close>:
  \<open>Merge\<close> is the pointwise maximum, \<open>Before\<close> the strict pointwise order.  The interface
  \<open>causal_clock\<close> collects the laws a distributed user relies on; the code's clocks provide it.
\<close>

type_synonym vector_clock = "(node_id, u64) fmap"

abbreviation vc_at :: "vector_clock \<Rightarrow> node_id \<Rightarrow> u64" where
  "vc_at \<equiv> map_get 0"

section \<open>The operations\<close>

definition vcIncrement :: "vector_clock \<Rightarrow> node_id \<Rightarrow> vector_clock" where
  "vcIncrement vc node = fmupd node (vc_at vc node + 1) vc"

definition vcMergeStep :: "vector_clock \<Rightarrow> node_id \<Rightarrow> vector_clock \<Rightarrow> vector_clock" where
  "vcMergeStep other k result =
     (let v = vc_at other k in if v > vc_at result k then fmupd k v result else result)"

definition vcMerge :: "vector_clock \<Rightarrow> vector_clock \<Rightarrow> vector_clock" where
  "vcMerge vc other = fold (vcMergeStep other) (map_keys other) vc"

definition vcBefore :: "vector_clock \<Rightarrow> vector_clock \<Rightarrow> bool" where
  "vcBefore vc other =
     (if fmdom vc = {||} \<and> fmdom other = {||} then False
      else if list_ex (\<lambda>k. vc_at vc k > vc_at other k) (map_keys vc) then False
      else list_ex (\<lambda>k. vc_at vc k < vc_at other k) (map_keys vc)
         \<or> list_ex (\<lambda>k. \<not> map_has vc k \<and> vc_at other k > 0) (map_keys other))"

definition vcEqual :: "vector_clock \<Rightarrow> vector_clock \<Rightarrow> bool" where
  "vcEqual vc other =
     (if fmdom vc = {||} \<and> fmdom other = {||} then True
      else if fcard (fmdom vc) \<noteq> fcard (fmdom other) then False
      else list_all (\<lambda>k. vc_at other k = vc_at vc k) (map_keys vc))"

definition vcConcurrent :: "vector_clock \<Rightarrow> vector_clock \<Rightarrow> bool" where
  "vcConcurrent vc other =
     (if vcEqual vc other then False else \<not> vcBefore vc other \<and> \<not> vcBefore other vc)"

definition vcClone :: "vector_clock option \<Rightarrow> vector_clock option" where
  \<comment> \<open>\<open>None\<close> is the nil map; copying every entry into a fresh map is the identity on values\<close>
  "vcClone vc = (case vc of None \<Rightarrow> None
     | Some m \<Rightarrow> Some (fold (\<lambda>k r. fmupd k (vc_at m k) r) (map_keys m) fmempty))"

section \<open>Their meaning\<close>

definition vc_le :: "vector_clock \<Rightarrow> vector_clock \<Rightarrow> bool" where
  "vc_le a b \<longleftrightarrow> (\<forall>k. vc_at a k \<le> vc_at b k)"

definition vc_same :: "vector_clock \<Rightarrow> vector_clock \<Rightarrow> bool" where
  "vc_same a b \<longleftrightarrow> (\<forall>k. vc_at a k = vc_at b k)"

lemma vcIncrement_at: "vc_at (vcIncrement vc n) k = (if k = n then vc_at vc n + 1 else vc_at vc k)"
  by (simp add: vcIncrement_def)

lemma vcMergeStep_at:
  "vc_at (vcMergeStep b k r) j = (if j = k then max (vc_at r k) (vc_at b k) else vc_at r j)"
  by (auto simp: vcMergeStep_def Let_def max_def)

lemma fold_vcMergeStep_at:
  "vc_at (fold (vcMergeStep b) ks r) j = (if j \<in> set ks then max (vc_at r j) (vc_at b j) else vc_at r j)"
  by (induction ks arbitrary: r) (auto simp: vcMergeStep_at)

lemma vcMerge_at: "vc_at (vcMerge a b) k = max (vc_at a k) (vc_at b k)"
  using map_get_absent [of b k 0]
  by (auto simp: vcMerge_def fold_vcMergeStep_at max_def map_has_fset)

lemma vcBefore_iff: "vcBefore a b \<longleftrightarrow> vc_le a b \<and> (\<exists>k. vc_at a k < vc_at b k)"
proof -
  have absent: "\<And>m k. k |\<notin>| fmdom m \<Longrightarrow> vc_at m k = 0"
    by (rule map_get_absent) (simp add: map_has_def)
  show ?thesis
    unfolding vcBefore_def vc_le_def list_ex_iff map_has_def set_map_keys
    using absent by (auto simp: not_less word_neq_0_conv)
      (metis absent fempty_iff less_irrefl word_gt_0 linorder_not_le word_coorder.extremum_strict)+
qed

lemma vcClone_id: "vcClone vc = vc"
proof (cases vc)
  case (Some m)
  have "fmlookup (fold (\<lambda>k r. fmupd k (vc_at m k) r) ks r) j
      = (if j \<in> set ks then Some (vc_at m j) else fmlookup r j)" for ks r j
    by (induction ks arbitrary: r) auto
  then have "fold (\<lambda>k r. fmupd k (vc_at m k) r) (map_keys m) fmempty = m"
    by (intro fmap_ext) (auto simp: map_get_def fmlookup_dom_iff split: option.splits)
  with Some show ?thesis by (simp add: vcClone_def)
qed (simp add: vcClone_def)

lemma vc_same_iff: "vc_same a b \<longleftrightarrow> vc_le a b \<and> vc_le b a"
  by (auto simp: vc_same_def vc_le_def intro: antisym)

lemma vcEqual_le: "vcEqual a b \<Longrightarrow> vc_le a b"
proof -
  assume "vcEqual a b"
  then have "\<And>k. k |\<in>| fmdom a \<Longrightarrow> vc_at b k = vc_at a k"
    by (auto simp: vcEqual_def list_all_iff split: if_splits)
  moreover have "\<And>k. k |\<notin>| fmdom a \<Longrightarrow> vc_at a k = 0"
    by (rule map_get_absent) (simp add: map_has_def)
  ultimately show ?thesis unfolding vc_le_def by (metis order_refl word_zero_le)
qed

text \<open>
  What \<open>Concurrent\<close> really decides: true incomparability, or equal readings stored with a different
  number of entries (an explicit zero entry counts in \<open>len\<close>).
\<close>

lemma vcConcurrent_iff:
  "vcConcurrent a b \<longleftrightarrow>
     (\<not> vc_le a b \<and> \<not> vc_le b a) \<or> (vc_same a b \<and> fcard (fmdom a) \<noteq> fcard (fmdom b))"
proof (cases "vc_same a b")
  case True
  then have "vcEqual a b \<longleftrightarrow> fcard (fmdom a) = fcard (fmdom b)"
    by (auto simp: vcEqual_def vc_same_def list_all_iff)
  moreover have "\<not> vcBefore a b" "\<not> vcBefore b a"
    using True by (auto simp: vcBefore_iff vc_same_def)
  ultimately show ?thesis using True by (auto simp: vcConcurrent_def vc_same_iff)
next
  case False
  have strict: "vcBefore c d \<longleftrightarrow> vc_le c d" if "\<not> vc_same c d" for c d
    using that by (auto simp: vcBefore_iff vc_same_def vc_le_def order.strict_iff_order)
  have "\<not> vc_same b a" using False by (simp add: vc_same_def eq_commute)
  with strict False have "vcBefore a b \<longleftrightarrow> vc_le a b" "vcBefore b a \<longleftrightarrow> vc_le b a" by auto
  with False vcEqual_le show ?thesis by (auto simp: vcConcurrent_def)
qed

text \<open>Clocks built by the operations carry no zero entry, and on those \<open>Concurrent\<close> is exact.\<close>

definition vc_positive :: "vector_clock \<Rightarrow> bool" where
  "vc_positive vc \<longleftrightarrow> (\<forall>k. map_has vc k \<longrightarrow> vc_at vc k \<noteq> 0)"

lemma vc_positive_empty [simp]: "vc_positive fmempty"
  by (simp add: vc_positive_def)

lemma vc_positive_Increment:
  "vc_positive vc \<Longrightarrow> vc_at vc n \<noteq> u64_max \<Longrightarrow> vc_positive (vcIncrement vc n)"
  by (auto simp: vc_positive_def vcIncrement_def simp: u64_succ_zero)

lemma vc_positive_fold:
  "vc_positive r \<Longrightarrow> vc_positive (fold (vcMergeStep b) ks r)"
proof (induction ks arbitrary: r)
  case (Cons k ks)
  then have "vc_positive (vcMergeStep b k r)"
    by (auto simp: vc_positive_def vcMergeStep_def Let_def)
  with Cons.IH show ?case by simp
qed simp

lemma vc_positive_Merge: "vc_positive a \<Longrightarrow> vc_positive (vcMerge a b)"
  by (simp add: vcMerge_def vc_positive_fold)

lemma vc_same_positive: "vc_same a b \<Longrightarrow> vc_positive a \<Longrightarrow> vc_positive b \<Longrightarrow> fmdom a = fmdom b"
  unfolding vc_same_def vc_positive_def map_has_def
  by (intro fsubset_antisym fsubsetI) (metis map_get_absent map_has_def)+

section \<open>The interface a distributed user relies on\<close>

text \<open>
  Happened-before over an abstract clock type: a strict order, a join that is the least clock
  above both, and a tick that moves strictly forward.
\<close>

locale causal_clock =
  fixes le :: "'c \<Rightarrow> 'c \<Rightarrow> bool" and before :: "'c \<Rightarrow> 'c \<Rightarrow> bool"
    and join :: "'c \<Rightarrow> 'c \<Rightarrow> 'c" and ok :: "'c \<Rightarrow> 'n \<Rightarrow> bool" and tick :: "'c \<Rightarrow> 'n \<Rightarrow> 'c"
  assumes le_refl: "le a a"
    and le_trans: "le a b \<Longrightarrow> le b c \<Longrightarrow> le a c"
    and before_iff: "before a b \<longleftrightarrow> le a b \<and> \<not> le b a"
    and join_le1: "le a (join a b)"
    and join_le2: "le b (join a b)"
    and join_least: "le a c \<Longrightarrow> le b c \<Longrightarrow> le (join a b) c"
    and tick_before: "ok a n \<Longrightarrow> before a (tick a n)"
begin

lemma strict_irrefl: "\<not> before a a"
  by (simp add: before_iff)

lemma strict_trans: "before a b \<Longrightarrow> before b c \<Longrightarrow> before a c"
  using before_iff le_trans by blast

lemma strict_asym: "before a b \<Longrightarrow> \<not> before b a"
  by (simp add: before_iff)

text \<open>Receiving a message: merge the sender's clock, then tick.  Both pasts precede the result.\<close>

lemma receive_after_both:
  assumes "ok (join a b) n"
  shows "before a (tick (join a b) n)" "before b (tick (join a b) n)"
  using tick_before [OF assms] join_le1 [of a b] join_le2 [of b a] le_trans
  by (auto simp: before_iff)

lemma join_absorb: "le a b \<Longrightarrow> le (join a b) b \<and> le b (join a b)"
  using join_least join_le2 le_refl by blast

lemma join_assoc_le: "le (join (join a b) c) (join a (join b c))"
  by (meson join_le1 join_le2 join_least le_trans)

end

interpretation vclock: causal_clock vc_le vcBefore vcMerge "\<lambda>a n. vc_at a n \<noteq> u64_max" vcIncrement
proof unfold_locales
  show "vcBefore a b \<longleftrightarrow> vc_le a b \<and> \<not> vc_le b a" for a b
    unfolding vcBefore_iff vc_le_def by (auto simp: not_le)
  show "vcBefore a (vcIncrement a n)" if "vc_at a n \<noteq> u64_max" for a n
  proof -
    have "vc_at a n < vc_at a n + 1"
      using that by (simp add: u64_less_succ)
    then show ?thesis by (auto simp: vcBefore_iff vc_le_def vcIncrement_at)
  qed
qed (auto simp: vc_le_def vcMerge_at intro: order_trans)

section \<open>Properties\<close>

text \<open>C9: \<open>Before\<close> is a strict partial order on vector clocks that agrees with the pointwise
  reading (absent nodes read as 0): irreflexive, transitive, and true exactly when every counter is
  at most the other's and some counter is smaller.\<close>

theorem vector_clock_before_strict_order:
  "\<not> vcBefore a a \<and> (vcBefore a b \<and> vcBefore b c \<longrightarrow> vcBefore a c)
   \<and> (vcBefore a b \<longleftrightarrow> (\<forall>k. vc_at a k \<le> vc_at b k) \<and> (\<exists>k. vc_at a k < vc_at b k))"
  using vclock.strict_irrefl vclock.strict_trans vcBefore_iff [of a b]
  by (auto simp: vc_le_def)

theorem vector_clock_before_strict_order_witness:
  "\<not> vcBefore (vcIncrement fmempty ''n'') (vcIncrement fmempty ''n'')
   \<and> vcBefore fmempty (vcIncrement (vcIncrement fmempty ''n'') ''m'')"
proof -
  have "vcBefore fmempty (vcIncrement fmempty ''n'')"
    "vcBefore (vcIncrement fmempty ''n'') (vcIncrement (vcIncrement fmempty ''n'') ''m'')"
    by code_simp+
  then show ?thesis
    using vector_clock_before_strict_order [of fmempty "vcIncrement fmempty ''n''"
        "vcIncrement (vcIncrement fmempty ''n'') ''m''"]
      vector_clock_before_strict_order [of "vcIncrement fmempty ''n''"]
    by blast
qed

text \<open>\<open>Merge\<close> is the least clock above both arguments, and after a receive (merge with the
  sender's clock, then increment the own counter, short of overflow) both the own and the sender's
  past are strictly before the result.\<close>

lemma vector_clock_receive:
  "vc_at (vcMerge a b) k = max (vc_at a k) (vc_at b k)
   \<and> (vc_at (vcMerge a b) n \<noteq> u64_max \<longrightarrow>
        vcBefore a (vcIncrement (vcMerge a b) n) \<and> vcBefore b (vcIncrement (vcMerge a b) n))"
  using vclock.receive_after_both by (simp add: vcMerge_at)

lemma vector_clock_receive_witness:
  "vcBefore (vcIncrement fmempty ''p'')
     (vcIncrement (vcMerge (vcIncrement fmempty ''p'') (vcIncrement fmempty ''q'')) ''p'')"
proof -
  have "vc_at (vcMerge (vcIncrement fmempty ''p'') (vcIncrement fmempty ''q'')) ''p'' \<noteq> u64_max"
    by code_simp
  then show ?thesis
    using vector_clock_receive [of "vcIncrement fmempty ''p''" "vcIncrement fmempty ''q''" "''p''" "''p''"]
    by blast
qed

text \<open>\<open>Concurrent\<close> holds for incomparable clocks, and also for two clocks with the same readings
  whose maps differ in size, that is, when one stores an explicit zero; on clocks without zero
  entries it is exactly incomparability.\<close>

lemma vector_clock_concurrent_exact:
  "(vcConcurrent a b \<longleftrightarrow> (\<not> vc_le a b \<and> \<not> vc_le b a)
      \<or> (vc_same a b \<and> fcard (fmdom a) \<noteq> fcard (fmdom b)))
   \<and> (vc_positive a \<and> vc_positive b \<longrightarrow>
        (vcConcurrent a b \<longleftrightarrow> \<not> vc_le a b \<and> \<not> vc_le b a))"
  using vcConcurrent_iff [of a b] vc_same_positive [of a b] by auto

lemma vector_clock_concurrent_exact_witness:
  "vcConcurrent (fmupd ''n'' 0 fmempty) fmempty
   \<and> vcConcurrent (vcIncrement fmempty ''p'') (vcIncrement fmempty ''q'')"
proof -
  have "vc_same (fmupd ''n'' 0 fmempty) fmempty"
    "fcard (fmdom (fmupd ''n'' (0::u64) fmempty)) \<noteq> fcard (fmdom (fmempty :: vector_clock))"
    by (auto simp: vc_same_def fcard_finsert_disjoint)
  moreover have "vc_positive (vcIncrement fmempty ''p'')" "vc_positive (vcIncrement fmempty ''q'')"
    by (rule vc_positive_Increment; simp)+
  moreover have "\<not> vc_le (vcIncrement fmempty ''p'') (vcIncrement fmempty ''q'')"
    "\<not> vc_le (vcIncrement fmempty ''q'') (vcIncrement fmempty ''p'')"
    by (auto simp: vc_le_def vcIncrement_at)
  ultimately show ?thesis
    using vector_clock_concurrent_exact [of "fmupd ''n'' 0 fmempty" fmempty]
      vector_clock_concurrent_exact [of "vcIncrement fmempty ''p''" "vcIncrement fmempty ''q''"]
    by blast
qed

end
