(* ===== verification/Event_Model.thy ===== *)
theory Event_Model
  imports Go_Values Event_Timing Vector_Clock
begin

text \<open>
  Events, from \<open>event.go\<close>, \<open>event_observation.go\<close> and the event-level part of
  \<open>event_timing.go\<close>: the record, its parameter and interval readers, freezing and cloning, the
  qualified observations of one occurrence and the views that activate one of them.

  The wall clock is an instant (nanoseconds); pointers are not modelled: a stored event is a value,
  and the aliasing the query functions document between a returned event and the store is out of
  the model.
\<close>

record clock_stamp =
  cs_lamport :: u64
  cs_wall :: int
  cs_vector :: "vector_clock option"

record observation =
  ob_name :: string
  ob_source :: string
  ob_params :: params

record event =
  ev_id :: event_id
  ev_name :: string
  ev_params :: params
  ev_clock :: clock_stamp
  ev_source :: string
  ev_timings :: "event_timing list"
  ev_observations :: "observation list"
  ev_immutable :: bool
  ev_expectedCauses :: "event_id list"
  ev_deterministic :: bool

definition clockBefore :: "clock_stamp \<Rightarrow> clock_stamp \<Rightarrow> bool" where
  "clockBefore c other \<longleftrightarrow> cs_lamport c < cs_lamport other"

definition Short :: "event_id \<Rightarrow> string" where
  "Short s = (if length s \<ge> 8 then take 8 s else s)"

definition ev_lamport :: "event \<Rightarrow> u64" where
  "ev_lamport e = cs_lamport (ev_clock e)"

definition set_lamport :: "u64 \<Rightarrow> event \<Rightarrow> event" where
  "set_lamport v e = e\<lparr>ev_clock := (ev_clock e)\<lparr>cs_lamport := v\<rparr>\<rparr>"

section \<open>Parameters\<close>

definition Param :: "event \<Rightarrow> string \<Rightarrow> go_value \<times> bool" where
  "Param e key = (case params_get (ev_params e) key of
      Some v \<Rightarrow> (v, True) | None \<Rightarrow> (VNil, False))"

definition ParamString :: "event \<Rightarrow> string \<Rightarrow> string" where
  "ParamString e key = (case params_get (ev_params e) key of
      None \<Rightarrow> ''''
    | Some v \<Rightarrow> (case v of VString s \<Rightarrow> s | _ \<Rightarrow> ''''))"

definition ParamInt :: "event \<Rightarrow> string \<Rightarrow> i64" where
  "ParamInt e key = (case params_get (ev_params e) key of
      None \<Rightarrow> 0
    | Some v \<Rightarrow> (case v of VInt i \<Rightarrow> i | VInt8 i \<Rightarrow> scast i | VInt16 i \<Rightarrow> scast i
        | VInt32 i \<Rightarrow> scast i | VInt64 i \<Rightarrow> i | _ \<Rightarrow> 0))"

section \<open>Construction, freezing, copying\<close>

definition copyObservations :: "observation list \<Rightarrow> observation list" where
  "copyObservations obs = map (\<lambda>ob.
     \<lparr>ob_name = ob_name ob, ob_source = ob_source ob, ob_params = copyParams (ob_params ob)\<rparr>) obs"

definition NewEvent :: "event_id \<Rightarrow> int \<Rightarrow> string \<Rightarrow> string \<Rightarrow> params \<Rightarrow> event" where
  \<comment> \<open>the random identifier and the wall clock reading are arguments\<close>
  "NewEvent uid now name source params =
     (let p = copyParams params
      in \<lparr>ev_id = uid, ev_name = name, ev_params = p,
          ev_clock = \<lparr>cs_lamport = 0, cs_wall = now, cs_vector = None\<rparr>,
          ev_source = source, ev_timings = [],
          ev_observations = [\<lparr>ob_name = name, ob_source = source, ob_params = copyParams p\<rparr>],
          ev_immutable = False, ev_expectedCauses = [], ev_deterministic = False\<rparr>)"

definition Freeze :: "event \<Rightarrow> event" where
  "Freeze e = e\<lparr>ev_immutable := True, ev_params := copyParams (ev_params e),
     ev_observations := copyObservations (ev_observations e), ev_timings := ev_timings e\<rparr>"

definition cloneEvent :: "event \<Rightarrow> event" where
  "cloneEvent e = e\<lparr>ev_params := copyParams (ev_params e),
     ev_observations := copyObservations (ev_observations e),
     ev_timings := ev_timings e, ev_expectedCauses := ev_expectedCauses e,
     ev_clock := (ev_clock e)\<lparr>cs_vector := vcClone (cs_vector (ev_clock e))\<rparr>\<rparr>"

definition snapshotEvent :: "event \<Rightarrow> event" where
  "snapshotEvent e = (if ev_deterministic e then cloneEvent e else e)"

lemma copyObservations_id [simp]: "copyObservations obs = obs"
  by (induction obs) (auto simp: copyObservations_def)

lemma cloneEvent_id [simp]: "cloneEvent e = e"
  by (simp add: cloneEvent_def vcClone_id)

lemma snapshotEvent_id [simp]: "snapshotEvent e = e"
  by (simp add: snapshotEvent_def)

lemma Freeze_simps [simp]:
  "ev_id (Freeze e) = ev_id e" "ev_name (Freeze e) = ev_name e" "ev_params (Freeze e) = ev_params e"
  "ev_clock (Freeze e) = ev_clock e" "ev_source (Freeze e) = ev_source e"
  "ev_timings (Freeze e) = ev_timings e" "ev_observations (Freeze e) = ev_observations e"
  "ev_immutable (Freeze e)" "ev_expectedCauses (Freeze e) = ev_expectedCauses e"
  "ev_deterministic (Freeze e) = ev_deterministic e" "ev_lamport (Freeze e) = ev_lamport e"
  by (simp_all add: Freeze_def ev_lamport_def)

lemma set_lamport_simps [simp]:
  "ev_id (set_lamport v e) = ev_id e" "ev_timings (set_lamport v e) = ev_timings e"
  "ev_immutable (set_lamport v e) = ev_immutable e" "ev_lamport (set_lamport v e) = v"
  "ev_name (set_lamport v e) = ev_name e" "ev_source (set_lamport v e) = ev_source e"
  "ev_params (set_lamport v e) = ev_params e"
  "ev_observations (set_lamport v e) = ev_observations e"
  "ev_expectedCauses (set_lamport v e) = ev_expectedCauses e"
  "ev_deterministic (set_lamport v e) = ev_deterministic e"
  "cs_wall (ev_clock (set_lamport v e)) = cs_wall (ev_clock e)"
  "cs_vector (ev_clock (set_lamport v e)) = cs_vector (ev_clock e)"
  by (simp_all add: set_lamport_def ev_lamport_def)

lemma set_lamport_same: "ev_lamport e = v \<Longrightarrow> set_lamport v e = e"
  by (auto simp: set_lamport_def ev_lamport_def)

section \<open>Event sets\<close>

type_synonym event_set = "event list"

definition esContains :: "event_set \<Rightarrow> event_id \<Rightarrow> bool" where
  "esContains es i = list_ex (\<lambda>e. ev_id e = i) es"

definition esIDs :: "event_set \<Rightarrow> event_id list" where
  "esIDs es = map ev_id es"

definition esFilter :: "event_set \<Rightarrow> (event \<Rightarrow> bool) \<Rightarrow> event_set" where
  "esFilter es fn = filter fn es"

definition esNames :: "event_set \<Rightarrow> string list" where
  "esNames es = map ev_name es"

definition sortEventSet :: "event_set \<Rightarrow> event_set" where
  \<comment> \<open>by ID, then source, then name\<close>
  "sortEventSet es = sort_key (\<lambda>e. (ev_id e, ev_source e, ev_name e)) es"

lemma sortEventSet_simps [simp]:
  "set (sortEventSet es) = set es" "mset (sortEventSet es) = mset es" "length (sortEventSet es) = length es"
  by (simp_all add: sortEventSet_def)

lemma sortEventSet_ids: "map ev_id (sortEventSet es) = sort (map ev_id es)"
proof (rule properties_for_sort [symmetric])
  have "sorted (map (\<lambda>e. (ev_id e, ev_source e, ev_name e)) (sortEventSet es))"
    unfolding sortEventSet_def by (rule sorted_sort_key)
  then show "sorted (map ev_id (sortEventSet es))"
    unfolding sorted_map by (rule sorted_wrt_mono_rel [rotated]) auto
  show "mset (map ev_id (sortEventSet es)) = mset (map ev_id es)" by simp
qed

section \<open>Intervals of an event\<close>

definition Timing :: "event option \<Rightarrow> string \<Rightarrow> event_timing option" where
  "Timing e clock = (case e of None \<Rightarrow> None
     | Some e \<Rightarrow> if clock = '''' then None else timingLookup (ev_timings e) clock)"

definition StartTime :: "event option \<Rightarrow> string \<Rightarrow> go_error + u64" where
  "StartTime e clock = (case Timing e clock of None \<Rightarrow> Inl ErrTimingNotRelated
     | Some t \<Rightarrow> Inr (et_start t))"

definition FinishTime :: "event option \<Rightarrow> string \<Rightarrow> go_error + u64" where
  "FinishTime e clock = (case Timing e clock of None \<Rightarrow> Inl ErrTimingNotRelated
     | Some t \<Rightarrow> Inr (et_finish t))"

definition eventLength :: "event option \<Rightarrow> string \<Rightarrow> go_error + u64" where
  "eventLength e clock = (case Timing e clock of None \<Rightarrow> Inl ErrTimingNotRelated
     | Some t \<Rightarrow> Inr (et_finish t - et_start t))"

definition sharedTimingConflict :: "event option \<Rightarrow> event option \<Rightarrow> bool" where
  \<comment> \<open>\<open>True\<close> is the error \<open>ErrTimingCausality\<close>; a nil event conflicts with nothing\<close>
  "sharedTimingConflict before after =
     (case (before, after) of
        (Some b, Some a) \<Rightarrow> timingConflictLoop (ev_timings b) (ev_timings a)
      | _ \<Rightarrow> False)"

lemma sharedTimingConflict_Nil [simp]:
  "ev_timings b = [] \<Longrightarrow> \<not> sharedTimingConflict (Some b) a"
  "ev_timings b = [] \<Longrightarrow> \<not> sharedTimingConflict a (Some b)"
  by (auto simp: sharedTimingConflict_def split: option.splits)

end
