(* ===== verification/Event_Observation.thy ===== *)
theory Event_Observation
  imports Event_Model
begin

text \<open>
  The qualified roles of one occurrence (\<open>event_observation.go\<close>): the sorted observations, the views
  that activate one of them, and \<open>reflect.DeepEqual\<close> on parameter maps, which differs from equality
  on floats (a NaN is not equal to itself, the two zeros are equal).
\<close>

section \<open>reflect.DeepEqual\<close>

unbundle bit_operations_syntax

definition float64_nan :: "64 word \<Rightarrow> bool" where
  "float64_nan b \<longleftrightarrow> (b AND 0x7FF0000000000000) = 0x7FF0000000000000 \<and> (b AND 0x000FFFFFFFFFFFFF) \<noteq> 0"

definition float64_eq :: "64 word \<Rightarrow> 64 word \<Rightarrow> bool" where
  "float64_eq a b \<longleftrightarrow> \<not> float64_nan a \<and> \<not> float64_nan b
     \<and> (a = b \<or> (a AND 0x7FFFFFFFFFFFFFFF) = 0 \<and> (b AND 0x7FFFFFFFFFFFFFFF) = 0)"

definition float32_nan :: "32 word \<Rightarrow> bool" where
  "float32_nan b \<longleftrightarrow> (b AND 0x7F800000) = 0x7F800000 \<and> (b AND 0x007FFFFF) \<noteq> 0"

definition float32_eq :: "32 word \<Rightarrow> 32 word \<Rightarrow> bool" where
  "float32_eq a b \<longleftrightarrow> \<not> float32_nan a \<and> \<not> float32_nan b
     \<and> (a = b \<or> (a AND 0x7FFFFFFF) = 0 \<and> (b AND 0x7FFFFFFF) = 0)"

fun deepEqualValue :: "go_value \<Rightarrow> go_value \<Rightarrow> bool"
  and deepEqualItems :: "go_value list \<Rightarrow> go_value list \<Rightarrow> bool"
  and deepEqualParams :: "params \<Rightarrow> params \<Rightarrow> bool" where
  "deepEqualValue (VFloat64 a) b = (case b of VFloat64 b \<Rightarrow> float64_eq a b | _ \<Rightarrow> False)"
| "deepEqualValue (VFloat32 a) b = (case b of VFloat32 b \<Rightarrow> float32_eq a b | _ \<Rightarrow> False)"
| "deepEqualValue (VList xs) b = (case b of VList ys \<Rightarrow> deepEqualItems xs ys | _ \<Rightarrow> False)"
| "deepEqualValue (VMap m) b = (case b of VMap n \<Rightarrow> deepEqualParams m n | _ \<Rightarrow> False)"
| "deepEqualValue (VOther t c) b = (case b of VOther t' c' \<Rightarrow> t = t' \<and> c \<noteq> None \<and> c = c' | _ \<Rightarrow> False)"
| "deepEqualValue a b = (a = b)"
| "deepEqualItems [] ys = (ys = [])"
| "deepEqualItems (x # xs) ys = (case ys of [] \<Rightarrow> False
     | y # ys \<Rightarrow> deepEqualValue x y \<and> deepEqualItems xs ys)"
| "deepEqualParams [] ps = (ps = [])"
| "deepEqualParams ((k, v) # rest) ps = (case ps of [] \<Rightarrow> False
     | (k', v') # ps \<Rightarrow> k = k' \<and> deepEqualValue v v' \<and> deepEqualParams rest ps)"

section \<open>Observations\<close>

definition observationLess :: "observation \<Rightarrow> observation \<Rightarrow> bool" where
  "observationLess a b =
     (if ob_source a \<noteq> ob_source b then ob_source a < ob_source b else ob_name a < ob_name b)"

definition sortObservations :: "observation list \<Rightarrow> observation list" where
  \<comment> \<open>the \<open>sort.Slice\<close> by \<open>observationLess\<close>; equal keys keep their order here\<close>
  "sortObservations obs = sort_key (\<lambda>ob. (ob_source ob, ob_name ob)) obs"

definition EventObservations :: "event \<Rightarrow> observation list" where
  "EventObservations e =
     (let observations = copyObservations (ev_observations e);
          observations = (if length observations = 0
            then [\<lparr>ob_name = ev_name e, ob_source = ev_source e, ob_params = copyParams (ev_params e)\<rparr>]
            else observations)
      in sortObservations observations)"

definition observationsNamed :: "event \<Rightarrow> string \<Rightarrow> observation list" where
  "observationsNamed e name =
     (if length (ev_observations e) = 0
      then (if ev_name e \<noteq> name then []
            else [\<lparr>ob_name = ev_name e, ob_source = ev_source e, ob_params = ev_params e\<rparr>])
      else filter (\<lambda>ob. ob_name ob = name) (ev_observations e))"

definition eventView :: "event \<Rightarrow> observation \<Rightarrow> event" where
  \<comment> \<open>the observation list is copied by \<open>copyObservationsSkipping\<close>, whose shared map is equal to a copy\<close>
  "eventView e observation =
     (let viewParams = copyParams (ob_params observation)
      in e\<lparr>ev_name := ob_name observation, ev_source := ob_source observation, ev_params := viewParams,
           ev_observations := copyObservations (ev_observations e), ev_timings := ev_timings e,
           ev_expectedCauses := ev_expectedCauses e,
           ev_clock := (ev_clock e)\<lparr>cs_vector := vcClone (cs_vector (ev_clock e))\<rparr>\<rparr>)"

definition ObservationViews :: "event option \<Rightarrow> event_set" where
  "ObservationViews e = (case e of None \<Rightarrow> []
     | Some e \<Rightarrow> map (eventView e) (EventObservations e))"

definition HasObservation :: "event \<Rightarrow> string \<Rightarrow> string \<Rightarrow> bool" where
  "HasObservation e source name =
     list_ex (\<lambda>ob. ob_source ob = source \<and> ob_name ob = name) (EventObservations e)"

definition isPrimaryObservation :: "event \<Rightarrow> observation \<Rightarrow> bool" where
  "isPrimaryObservation e ob \<longleftrightarrow> ob_name ob = ev_name e \<and> ob_source ob = ev_source e"

lemma sortObservations_simps [simp]:
  "set (sortObservations obs) = set obs" "length (sortObservations obs) = length obs"
  "mset (sortObservations obs) = mset obs"
  by (simp_all add: sortObservations_def)

lemma observationLess_iff: "observationLess a b \<longleftrightarrow> (ob_source a, ob_name a) < (ob_source b, ob_name b)"
  by (auto simp: observationLess_def)

lemma sortObservations_sorted:
  "sorted_wrt (\<lambda>a b. \<not> observationLess b a) (sortObservations obs)"
proof -
  have "sorted (map (\<lambda>ob. (ob_source ob, ob_name ob)) (sortObservations obs))"
    unfolding sortObservations_def by (rule sorted_sort_key)
  then show ?thesis by (simp only: sorted_map observationLess_iff not_less)
qed

lemma EventObservations_set:
  "set (EventObservations e) = (if ev_observations e = []
     then {\<lparr>ob_name = ev_name e, ob_source = ev_source e, ob_params = ev_params e\<rparr>}
     else set (ev_observations e))"
  by (simp add: EventObservations_def Let_def)

lemma EventObservations_nonempty [simp]: "EventObservations e \<noteq> []"
proof
  assume "EventObservations e = []"
  then have "set (EventObservations e) = {}" by simp
  then show False unfolding EventObservations_set by (simp split: if_splits)
qed

lemma HasObservation_iff:
  "HasObservation e source name \<longleftrightarrow>
     (\<exists>ob \<in> set (EventObservations e). ob_source ob = source \<and> ob_name ob = name)"
  by (simp add: HasObservation_def list_ex_iff)

lemma observationsNamed_set:
  "set (observationsNamed e name) = {ob \<in> set (EventObservations e). ob_name ob = name}"
  by (auto simp: observationsNamed_def EventObservations_set)

lemma eventView_simps [simp]:
  "ev_id (eventView e ob) = ev_id e" "ev_name (eventView e ob) = ob_name ob"
  "ev_source (eventView e ob) = ob_source ob" "ev_params (eventView e ob) = ob_params ob"
  "ev_timings (eventView e ob) = ev_timings e" "ev_observations (eventView e ob) = ev_observations e"
  "ev_lamport (eventView e ob) = ev_lamport e" "ev_clock (eventView e ob) = ev_clock e"
  by (simp_all add: eventView_def Let_def ev_lamport_def vcClone_id)

end
