(* ===== verification/Graph_Search.thy ===== *)
theory Graph_Search
  imports Go_Prelude
begin

text \<open>
  The breadth-first searches over causal-equivalence classes share two loop shapes
  (\<open>causal_equivalence.go\<close>): collecting everything reachable and testing for one target.  Their inner
  loops are defined here; the two interfaces state what a loop over a finite graph has to satisfy
  and prove once that it computes reachability.  The poset's forward and backward searches are the
  instances.
\<close>

definition edge_rel :: "('a \<Rightarrow> 'a list) \<Rightarrow> ('a \<times> 'a) set" where
  "edge_rel nbrs = {(a, b). b \<in> set (nbrs a)}"

lemma edge_rel_iff [simp]: "(a, b) \<in> edge_rel nbrs \<longleftrightarrow> b \<in> set (nbrs a)"
  by (simp add: edge_rel_def)

section \<open>The inner loops\<close>

definition pushUnseen :: "'a list \<Rightarrow> 'a fset \<times> 'a list \<Rightarrow> 'a fset \<times> 'a list" where
  \<comment> \<open>\<open>for neighbor in neighbors: if !result[neighbor] { result[neighbor] = true; enqueue }\<close>\<close>
  "pushUnseen neighbors st =
     fold (\<lambda>neighbor (result, queue).
        if neighbor |\<in>| result then (result, queue)
        else (finsert neighbor result, queue @ [neighbor])) neighbors st"

lemma pushUnseen_spec:
  "pushUnseen ns (r, q) = (r', q') \<Longrightarrow>
     fset r' = fset r \<union> set ns \<and> set q \<subseteq> set q' \<and> set q' \<subseteq> set q \<union> (set ns - fset r)
     \<and> set ns - fset r \<subseteq> set q' \<and> (r' = r \<longrightarrow> q' = q)"
proof (induction ns arbitrary: r q)
  case Nil
  then show ?case by (simp add: pushUnseen_def)
next
  case (Cons n ns)
  show ?case
  proof (cases "n |\<in>| r")
    case True
    with Cons.prems have "pushUnseen ns (r, q) = (r', q')" by (simp add: pushUnseen_def)
    from Cons.IH [OF this] True show ?thesis by auto
  next
    case False
    with Cons.prems have "pushUnseen ns (finsert n r, q @ [n]) = (r', q')"
      by (simp add: pushUnseen_def)
    from Cons.IH [OF this] False show ?thesis by auto
  qed
qed

section \<open>Collecting the reachable nodes\<close>

locale collect_search =
  fixes nbrs :: "'a \<Rightarrow> 'a list" and loop :: "'a fset \<Rightarrow> 'a list \<Rightarrow> 'a fset" and univ :: "'a set"
  assumes finite_univ: "finite univ"
    and nbrs_univ: "set (nbrs a) \<subseteq> univ"
    and loop_done: "loop result [] = result"
    and loop_step: "loop result (current # queue) =
          (case pushUnseen (nbrs current) (result, queue) of (r', q') \<Rightarrow> loop r' q')"
begin

lemma loop_collects:
  "set queue \<subseteq> fset result \<Longrightarrow>
   (\<And>a. a |\<in>| result \<Longrightarrow> a \<notin> set queue \<Longrightarrow> set (nbrs a) \<subseteq> fset result) \<Longrightarrow>
   fset (loop result queue) = (edge_rel nbrs)\<^sup>* `` fset result"
proof (induction "(card (univ - fset result), length queue)" arbitrary: result queue
    rule: wf_induct_rule [OF wf_lex_prod [OF wf_less_than wf_less_than]])
  case 1
  show ?case
  proof (cases queue)
    case Nil
    have "edge_rel nbrs `` fset result \<subseteq> fset result"
      using "1.prems"(2) Nil by fastforce
    then have "(edge_rel nbrs)\<^sup>* `` fset result = fset result"
      by (rule Image_closed_trancl)
    with Nil show ?thesis by (simp add: loop_done)
  next
    case (Cons current rest)
    obtain r' q' where push: "pushUnseen (nbrs current) (result, rest) = (r', q')"
      by (cases "pushUnseen (nbrs current) (result, rest)")
    note spec = pushUnseen_spec [OF push]
    have cur: "current |\<in>| result" using "1.prems"(1) Cons by simp
    have less: "((card (univ - fset r'), length q'), card (univ - fset result), length queue)
        \<in> less_than <*lex*> less_than"
    proof (cases "r' = result")
      case True
      with spec Cons show ?thesis by auto
    next
      case False
      then have "univ - fset r' \<subset> univ - fset result"
        using spec nbrs_univ [of current] by (auto simp: fset_inject [symmetric])
      then have "card (univ - fset r') < card (univ - fset result)"
        by (rule psubset_card_mono [rotated]) (use finite_univ in simp)
      then show ?thesis by simp
    qed
    have "fset (loop r' q') = (edge_rel nbrs)\<^sup>* `` fset r'"
    proof (rule "1.hyps" [OF less])
      show "set q' \<subseteq> fset r'" using spec "1.prems"(1) Cons by auto
      show "set (nbrs a) \<subseteq> fset r'" if "a |\<in>| r'" "a \<notin> set q'" for a
        using that spec "1.prems"(2) [of a] Cons by (cases "a = current") auto
    qed
    also have "\<dots> = (edge_rel nbrs)\<^sup>* `` fset result"
    proof -
      have "fset r' \<subseteq> (edge_rel nbrs)\<^sup>* `` fset result"
      proof
        fix x
        assume "x \<in> fset r'"
        with spec consider "x \<in> fset result" | "(current, x) \<in> edge_rel nbrs" by auto
        then show "x \<in> (edge_rel nbrs)\<^sup>* `` fset result"
          using cur by cases blast+
      qed
      then have "(edge_rel nbrs)\<^sup>* `` fset r' \<subseteq> (edge_rel nbrs)\<^sup>* `` fset result"
        by (auto intro: rtrancl_trans)
      with spec show ?thesis by blast
    qed
    finally show ?thesis using Cons push by (simp add: loop_step)
  qed
qed

lemma loop_reachable: "fset (loop {|start|} [start]) = {y. (start, y) \<in> (edge_rel nbrs)\<^sup>*}"
  by (subst loop_collects) auto

end

section \<open>Testing for a target\<close>

locale target_search =
  fixes nbrs :: "'a \<Rightarrow> 'a list" and target :: 'a
    and loop :: "'a fset \<Rightarrow> 'a list \<Rightarrow> bool" and univ :: "'a set"
  assumes finite_univ: "finite univ"
    and nbrs_univ: "set (nbrs a) \<subseteq> univ"
    and loop_done: "loop visited [] = False"
    and loop_step: "loop visited (current # queue) =
          (if current |\<in>| visited then loop visited queue
           else if target \<in> set (nbrs current) then True
           else loop (finsert current visited)
                  (queue @ filter (\<lambda>s. s |\<notin>| finsert current visited) (nbrs current)))"
begin

lemma loop_tests:
  "(\<And>a. a |\<in>| visited \<Longrightarrow> set (nbrs a) \<subseteq> fset visited \<union> set queue \<and> target \<notin> set (nbrs a)) \<Longrightarrow>
   loop visited queue \<longleftrightarrow> (\<exists>x \<in> fset visited \<union> set queue. (x, target) \<in> (edge_rel nbrs)\<^sup>+)"
proof (induction "(card ((univ \<union> set queue) - fset visited), length queue)" arbitrary: visited queue
    rule: wf_induct_rule [OF wf_lex_prod [OF wf_less_than wf_less_than]])
  case 1
  show ?case
  proof (cases queue)
    case Nil
    have "(x, target) \<notin> (edge_rel nbrs)\<^sup>+" if "x |\<in>| visited" for x
    proof
      assume "(x, target) \<in> (edge_rel nbrs)\<^sup>+"
      then obtain z where z: "(x, z) \<in> (edge_rel nbrs)\<^sup>*" "target \<in> set (nbrs z)"
        by (auto dest: tranclD2)
      have "edge_rel nbrs `` fset visited \<subseteq> fset visited" using "1.prems" Nil by fastforce
      then have "(edge_rel nbrs)\<^sup>* `` fset visited = fset visited" by (rule Image_closed_trancl)
      with z that have "z |\<in>| visited" by blast
      with z "1.prems" show False by blast
    qed
    with Nil show ?thesis by (simp add: loop_done)
  next
    case (Cons current rest)
    show ?thesis
    proof (cases "current |\<in>| visited")
      case True
      have "card ((univ \<union> set rest) - fset visited) \<le> card ((univ \<union> set queue) - fset visited)"
        by (rule card_mono) (use finite_univ Cons in auto)
      then have "loop visited rest \<longleftrightarrow>
          (\<exists>x \<in> fset visited \<union> set rest. (x, target) \<in> (edge_rel nbrs)\<^sup>+)"
        by (intro "1.hyps") (use "1.prems" Cons True in auto)
      then show ?thesis using Cons True by (auto simp: loop_step)
    next
      case False
      show ?thesis
      proof (cases "target \<in> set (nbrs current)")
        case True
        then have "(current, target) \<in> (edge_rel nbrs)\<^sup>+" by auto
        with Cons False True show ?thesis by (auto simp: loop_step)
      next
        case nt: False
        define v' where "v' = finsert current visited"
        define q' where "q' = rest @ filter (\<lambda>s. s |\<notin>| v') (nbrs current)"
        have "(univ \<union> set q') - fset v' \<subset> (univ \<union> set queue) - fset visited"
          using False Cons nbrs_univ [of current] by (auto simp: v'_def q'_def)
        then have "card ((univ \<union> set q') - fset v') < card ((univ \<union> set queue) - fset visited)"
          by (rule psubset_card_mono [rotated]) (use finite_univ in simp)
        then have "loop v' q' \<longleftrightarrow> (\<exists>x \<in> fset v' \<union> set q'. (x, target) \<in> (edge_rel nbrs)\<^sup>+)"
          by (intro "1.hyps") (use "1.prems" Cons nt in \<open>auto simp: v'_def q'_def\<close>)
        also have "\<dots> \<longleftrightarrow> (\<exists>x \<in> fset visited \<union> set queue. (x, target) \<in> (edge_rel nbrs)\<^sup>+)"
          using Cons by (auto simp: v'_def q'_def intro: trancl_into_trancl2)
        finally show ?thesis using Cons False nt by (simp add: loop_step v'_def q'_def)
      qed
    qed
  qed
qed

lemma loop_target: "loop {||} [start] \<longleftrightarrow> (start, target) \<in> (edge_rel nbrs)\<^sup>+"
  by (subst loop_tests) auto

end

end
