(* ===== verification/Poset_State.thy ===== *)
theory Poset_State
  imports Event_Observation Graph_Search
begin

text \<open>
  The state of \<open>Poset\<close> (\<open>poset.go\<close>) and the read-only class layer of \<open>causal_equivalence.go\<close>:
  representatives, members, the adjacency of a class, and the two breadth-first searches.  The
  searches are instances of the interfaces of \<open>Graph_Search\<close>, so they compute reachability over
  \<open>class_rel\<close> in every state.  Locks, and nil versus empty maps, are not modelled: posets come from
  \<open>NewPoset\<close>.
\<close>

record pending_edge =
  pe_from :: event_id
  pe_to :: event_id

record poset =
  events :: "(event_id, event) fmap"
  causalEdges :: "(event_id, event_id fset) fmap"
  reverseCausal :: "(event_id, event_id fset) fmap"
  causalClass :: "(event_id, event_id) fmap"
  classMembers :: "(event_id, event_id list) fmap"
  classRepairScans :: u64
  timedEvents :: int
  lamportCounter :: u64
  pendingEdges :: "pending_edge list"

definition NewPoset :: poset where
  "NewPoset = \<lparr>events = fmempty, causalEdges = fmempty, reverseCausal = fmempty,
     causalClass = fmempty, classMembers = fmempty, classRepairScans = 0, timedEvents = 0,
     lamportCounter = 0, pendingEdges = []\<rparr>"

abbreviation event_ids :: "poset \<Rightarrow> event_id list" where
  "event_ids p \<equiv> map_keys (events p)"

definition Event :: "poset \<Rightarrow> event_id \<Rightarrow> event option" where
  "Event p i = map_option snapshotEvent (fmlookup (events p) i)"

definition Len :: "poset \<Rightarrow> nat" where
  "Len p = fcard (fmdom (events p))"

definition PendingEdgeCount :: "poset \<Rightarrow> nat" where
  "PendingEdgeCount p = length (pendingEdges p)"

section \<open>Causal-equivalence classes\<close>

definition causalRepresentativeLocked :: "poset \<Rightarrow> event_id \<Rightarrow> event_id" where
  "causalRepresentativeLocked p i =
     (let representative = map_get '''' (causalClass p) i
      in if representative \<noteq> '''' then representative else i)"

abbreviation rep :: "poset \<Rightarrow> event_id \<Rightarrow> event_id" where
  "rep \<equiv> causalRepresentativeLocked"

definition causalClassMembersLocked :: "poset \<Rightarrow> event_id \<Rightarrow> event_id list" where
  "causalClassMembersLocked p i = map_get [] (classMembers p) (rep p i)"

definition causalClassRepresentativesLocked :: "poset \<Rightarrow> event_id list" where
  "causalClassRepresentativesLocked p = map_keys (classMembers p)"

definition nontrivialCausalClassesLocked :: "poset \<Rightarrow> event_id list list" where
  "nontrivialCausalClassesLocked p =
     filter (\<lambda>members. length members > 1)
       (map (causalClassMembersLocked p) (causalClassRepresentativesLocked p))"

definition causalEquivalencePairsLocked :: "poset \<Rightarrow> (event_id \<times> event_id) list" where
  "causalEquivalencePairsLocked p =
     concat (map (\<lambda>class. map (\<lambda>member. (hd class, member)) (tl class))
       (nontrivialCausalClassesLocked p))"

definition IsCausallyEquivalent :: "poset \<Rightarrow> event_id \<Rightarrow> event_id \<Rightarrow> bool" where
  "IsCausallyEquivalent p left right =
     (if \<not> map_has (events p) left then False
      else if \<not> map_has (events p) right then False
      else rep p left = rep p right)"

section \<open>Class adjacency\<close>

definition classNeighbours ::
    "poset \<Rightarrow> (event_id, event_id fset) fmap \<Rightarrow> event_id \<Rightarrow> event_id list" where
  \<comment> \<open>the common body of the two adjacency functions: the union over the class members, resolved to
    representatives, without the class itself, sorted\<close>
  "classNeighbours p edges representative =
     fset_ids (fold (\<lambda>member seen.
         fold (\<lambda>x seen. let candidate = rep p x
                 in if candidate \<noteq> representative then finsert candidate seen else seen)
           (fset_ids (map_get {||} edges member)) seen)
       (map_get [] (classMembers p) representative) {||})"

definition causalClassSuccessorsLocked :: "poset \<Rightarrow> event_id \<Rightarrow> event_id list" where
  "causalClassSuccessorsLocked p representative = classNeighbours p (causalEdges p) representative"

definition causalClassPredecessorsLocked :: "poset \<Rightarrow> event_id \<Rightarrow> event_id list" where
  "causalClassPredecessorsLocked p representative = classNeighbours p (reverseCausal p) representative"

lemma fold_candidates:
  "fset (fold (\<lambda>x seen. let c = f x in if c \<noteq> r then finsert c seen else seen) xs seen)
     = fset seen \<union> (f ` set xs - {r})"
  by (induction xs arbitrary: seen) (auto simp: Let_def)

lemma set_classNeighbours:
  "set (classNeighbours p edges r) =
     {rep p x |x m. m \<in> set (map_get [] (classMembers p) r) \<and> x |\<in>| map_get {||} edges m} - {r}"
proof -
  have "fset (fold (\<lambda>member seen.
         fold (\<lambda>x seen. let candidate = rep p x in if candidate \<noteq> r then finsert candidate seen else seen)
           (fset_ids (map_get {||} edges member)) seen) ms seen)
      = fset seen \<union> ({rep p x |x m. m \<in> set ms \<and> x |\<in>| map_get {||} edges m} - {r})" for ms seen
    by (induction ms arbitrary: seen) (auto simp: fold_candidates)
  then show ?thesis by (simp add: classNeighbours_def)
qed

lemma classNeighbours_sorted [simp]:
  "sorted (classNeighbours p edges r)" "distinct (classNeighbours p edges r)"
  by (simp_all add: classNeighbours_def)

text \<open>Whatever the state, neighbours come from one finite set, so every search ends.\<close>

definition neighbour_univ :: "poset \<Rightarrow> (event_id, event_id fset) fmap \<Rightarrow> event_id set" where
  "neighbour_univ p edges = rep p ` (\<Union>m \<in> fset (fmdom edges). fset (map_get {||} edges m))"

lemma finite_neighbour_univ [simp]: "finite (neighbour_univ p edges)"
  by (simp add: neighbour_univ_def)

lemma classNeighbours_univ: "set (classNeighbours p edges r) \<subseteq> neighbour_univ p edges"
proof -
  have "m |\<in>| fmdom edges" if "x |\<in>| map_get {||} edges m" for x m
    using that map_get_absent [of edges m "{||}"] by (auto simp: map_has_def)
  then show ?thesis by (auto simp: set_classNeighbours neighbour_univ_def)
qed

definition neighborsLocked :: "poset \<Rightarrow> bool \<Rightarrow> event_id \<Rightarrow> event_id list" where
  "neighborsLocked p forward current =
     (if forward then causalClassSuccessorsLocked p current
      else causalClassPredecessorsLocked p current)"

definition search_univ :: "poset \<Rightarrow> bool \<Rightarrow> event_id set" where
  "search_univ p forward = neighbour_univ p (if forward then causalEdges p else reverseCausal p)"

lemma search_univ_simps:
  "finite (search_univ p forward)" "set (neighborsLocked p forward c) \<subseteq> search_univ p forward"
  by (simp_all add: search_univ_def neighborsLocked_def causalClassSuccessorsLocked_def
      causalClassPredecessorsLocked_def classNeighbours_univ)

section \<open>The searches\<close>

function reachLoop :: "poset \<Rightarrow> bool \<Rightarrow> event_id fset \<Rightarrow> event_id list \<Rightarrow> event_id fset" where
  "reachLoop p forward result [] = result"
| "reachLoop p forward result (current # queue) =
     (case pushUnseen (neighborsLocked p forward current) (result, queue) of
        (r', q') \<Rightarrow> reachLoop p forward r' q')"
  by pat_completeness auto
termination
proof (relation "inv_image (less_than <*lex*> less_than)
    (\<lambda>(p, forward, result, queue). (card (search_univ p forward - fset result), length queue))")
  show "wf (inv_image (less_than <*lex*> less_than) (\<lambda>(p, forward, result, queue :: event_id list).
      (card (search_univ p forward - fset result), length queue)))"
    by (intro wf_inv_image wf_lex_prod wf_less_than)
next
  fix p forward result and current :: event_id and queue r' q'
  assume "(r', q') = pushUnseen (neighborsLocked p forward current) (result, queue)"
  note spec = pushUnseen_spec [OF this [symmetric]]
  show "((p, forward, r', q'), p, forward, result, current # queue)
      \<in> inv_image (less_than <*lex*> less_than) (\<lambda>(p, forward, result, queue).
          (card (search_univ p forward - fset result), length queue))"
  proof (cases "r' = result")
    case True
    with spec show ?thesis by auto
  next
    case False
    then have "search_univ p forward - fset r' \<subset> search_univ p forward - fset result"
      using spec search_univ_simps(2) [of p forward current] by (auto simp: fset_inject [symmetric])
    then have "card (search_univ p forward - fset r') < card (search_univ p forward - fset result)"
      by (rule psubset_card_mono [rotated]) (simp add: search_univ_simps)
    then show ?thesis by simp
  qed
qed

definition reachableCausalClassesLocked :: "poset \<Rightarrow> event_id \<Rightarrow> bool \<Rightarrow> event_id fset" where
  "reachableCausalClassesLocked p start forward =
     (let start = rep p start in reachLoop p forward {|start|} [start])"

function canReachLoop :: "poset \<Rightarrow> event_id \<Rightarrow> event_id fset \<Rightarrow> event_id list \<Rightarrow> bool" where
  "canReachLoop p target visited [] = False"
| "canReachLoop p target visited (current # queue) =
     (if current |\<in>| visited then canReachLoop p target visited queue
      else if target \<in> set (causalClassSuccessorsLocked p current) then True
      else canReachLoop p target (finsert current visited)
             (queue @ filter (\<lambda>s. s |\<notin>| finsert current visited)
                        (causalClassSuccessorsLocked p current)))"
  by pat_completeness auto
termination
proof (relation "inv_image (less_than <*lex*> less_than)
    (\<lambda>(p, target, visited, queue).
       (card ((search_univ p True \<union> set queue) - fset visited), length queue))")
  show "wf (inv_image (less_than <*lex*> less_than) (\<lambda>(p, target :: event_id, visited, queue).
      (card ((search_univ p True \<union> set queue) - fset visited), length queue)))"
    by (intro wf_inv_image wf_lex_prod wf_less_than)
next
  fix p :: poset and target current :: event_id and visited :: "event_id fset" and queue :: "event_id list"
  assume "current |\<in>| visited"
  have "card ((search_univ p True \<union> set queue) - fset visited)
      \<le> card ((search_univ p True \<union> set (current # queue)) - fset visited)"
    by (rule card_mono) (auto simp: search_univ_simps)
  then show "((p, target, visited, queue), p, target, visited, current # queue)
      \<in> inv_image (less_than <*lex*> less_than) (\<lambda>(p, target, visited, queue).
          (card ((search_univ p True \<union> set queue) - fset visited), length queue))"
    by auto
next
  fix p :: poset and target current :: event_id and visited :: "event_id fset" and queue :: "event_id list"
  assume nv: "current |\<notin>| visited"
  define ss where "ss = causalClassSuccessorsLocked p current"
  define v' where "v' = finsert current visited"
  have "set ss \<subseteq> search_univ p True"
    using search_univ_simps(2) [of p True current] by (simp add: ss_def neighborsLocked_def)
  then have "(search_univ p True \<union> set (queue @ filter (\<lambda>s. s |\<notin>| v') ss)) - fset v'
      \<subset> (search_univ p True \<union> set (current # queue)) - fset visited"
    using nv by (auto simp: v'_def)
  then have "card ((search_univ p True \<union> set (queue @ filter (\<lambda>s. s |\<notin>| v') ss)) - fset v')
      < card ((search_univ p True \<union> set (current # queue)) - fset visited)"
    by (rule psubset_card_mono [rotated]) (simp add: search_univ_simps)
  then show "((p, target, finsert current visited, queue @ filter (\<lambda>s. s |\<notin>| finsert current visited)
        (causalClassSuccessorsLocked p current)), p, target, visited, current # queue)
      \<in> inv_image (less_than <*lex*> less_than) (\<lambda>(p, target, visited, queue).
          (card ((search_univ p True \<union> set queue) - fset visited), length queue))"
    by (simp add: v'_def ss_def)
qed

definition canReachClassLocked :: "poset \<Rightarrow> event_id \<Rightarrow> event_id \<Rightarrow> bool" where
  "canReachClassLocked p start target =
     (let start = rep p start; target = rep p target
      in if start = target then False else canReachLoop p target {||} [start])"

definition canReachLocked :: "poset \<Rightarrow> event_id \<Rightarrow> event_id \<Rightarrow> bool" where
  "canReachLocked p start target = canReachClassLocked p start target"

section \<open>What the searches compute\<close>

interpretation reach: collect_search "neighborsLocked p forward" "reachLoop p forward" "search_univ p forward"
  for p forward
  by unfold_locales (simp_all add: search_univ_simps)

interpretation test: target_search "causalClassSuccessorsLocked p" target "canReachLoop p target"
    "search_univ p True" for p target
  using search_univ_simps [of p True]
  by unfold_locales (auto simp: neighborsLocked_def)

text \<open>The strict edges between classes, and the same relation read from the reverse index.\<close>

definition class_rel :: "poset \<Rightarrow> (event_id \<times> event_id) set" where
  "class_rel p = edge_rel (causalClassSuccessorsLocked p)"

definition class_rel_rev :: "poset \<Rightarrow> (event_id \<times> event_id) set" where
  "class_rel_rev p = edge_rel (causalClassPredecessorsLocked p)"

lemma class_rel_iff: "(a, b) \<in> class_rel p \<longleftrightarrow> b \<in> set (causalClassSuccessorsLocked p a)"
  by (simp add: class_rel_def)

lemma class_rel_rev_iff: "(a, b) \<in> class_rel_rev p \<longleftrightarrow> b \<in> set (causalClassPredecessorsLocked p a)"
  by (simp add: class_rel_rev_def)

lemma finite_class_rel: "finite (class_rel p)"
proof -
  have "class_rel p \<subseteq> fset (fmdom (classMembers p)) \<times> neighbour_univ p (causalEdges p)"
  proof (intro subrelI SigmaI)
    fix a b
    assume "(a, b) \<in> class_rel p"
    then have b: "b \<in> set (classNeighbours p (causalEdges p) a)"
      by (simp add: class_rel_iff causalClassSuccessorsLocked_def)
    then show "b \<in> neighbour_univ p (causalEdges p)" using classNeighbours_univ by blast
    from b have "map_get [] (classMembers p) a \<noteq> []" by (auto simp: set_classNeighbours)
    then show "a \<in> fset (fmdom (classMembers p))"
      using map_get_absent [of "classMembers p" a "[]"] by (auto simp: map_has_def)
  qed
  then show ?thesis by (rule finite_subset) simp
qed

lemma canReachClassLocked_iff:
  "canReachClassLocked p a b \<longleftrightarrow> rep p a \<noteq> rep p b \<and> (rep p a, rep p b) \<in> (class_rel p)\<^sup>+"
  by (simp add: canReachClassLocked_def Let_def test.loop_target class_rel_def
      del: canReachLoop.simps)

lemma reachableCausalClassesLocked_forward:
  "c |\<in>| reachableCausalClassesLocked p a True \<longleftrightarrow> (rep p a, c) \<in> (class_rel p)\<^sup>*"
proof -
  have "neighborsLocked p True = causalClassSuccessorsLocked p"
    by (rule ext) (simp add: neighborsLocked_def)
  then show ?thesis
    by (simp add: reachableCausalClassesLocked_def Let_def reach.loop_reachable class_rel_def
        del: reachLoop.simps)
qed

lemma reachableCausalClassesLocked_backward:
  "c |\<in>| reachableCausalClassesLocked p a False \<longleftrightarrow> (rep p a, c) \<in> (class_rel_rev p)\<^sup>*"
proof -
  have "neighborsLocked p False = causalClassPredecessorsLocked p"
    by (rule ext) (simp add: neighborsLocked_def)
  then show ?thesis
    by (simp add: reachableCausalClassesLocked_def Let_def reach.loop_reachable class_rel_rev_def
        del: reachLoop.simps)
qed

end
