(* ===== verification/Poset_Inv.thy ===== *)
theory Poset_Inv
  imports Poset_State
begin

text \<open>
  The well-formedness of a poset, the causal relation it denotes, and the frame conditions its
  operations share.

  \<^item> \<open>class_ok\<close>: \<open>causalClass\<close> names, for every stored event, the least member of its class, and
    \<open>classMembers\<close> is exactly its sorted inverse; no stored event has the empty ID.
  \<^item> \<open>edges_ok\<close>: both edge maps have one entry per event, mirror each other, and relate distinct
    representatives; the strict relation between classes is acyclic.
  \<^item> \<open>events_ok\<close>: the store is keyed by ID, frozen, canonically timed, and the timed count is exact.
  \<^item> \<open>timing_ok\<close>: no strictly ordered pair of occurrences conflicts on a shared clock.
  \<^item> \<open>uniform_ok\<close>: equivalent occurrences share their Lamport position; \<open>lamport_ok\<close>: it increases
    strictly along every strict edge (kept short of 64-bit overflow).
\<close>

abbreviation edges_of :: "poset \<Rightarrow> event_id \<Rightarrow> event_id fset" where
  "edges_of p \<equiv> map_get {||} (causalEdges p)"

abbreviation redges_of :: "poset \<Rightarrow> event_id \<Rightarrow> event_id fset" where
  "redges_of p \<equiv> map_get {||} (reverseCausal p)"

abbreviation stored :: "poset \<Rightarrow> event_id \<Rightarrow> bool" where
  "stored p \<equiv> map_has (events p)"

definition class_list :: "poset \<Rightarrow> event_id \<Rightarrow> event_id list" where
  "class_list p r = filter (\<lambda>i. rep p i = r) (event_ids p)"

definition class_ok :: "poset \<Rightarrow> bool" where
  "class_ok p \<longleftrightarrow> fmdom (causalClass p) = fmdom (events p) \<and> \<not> stored p ''''
     \<and> (\<forall>i. stored p i \<longrightarrow> stored p (rep p i) \<and> rep p (rep p i) = rep p i \<and> rep p i \<le> i
            \<and> fmlookup (causalClass p) i = Some (rep p i))
     \<and> (\<forall>r. fmlookup (classMembers p) r =
            (if stored p r \<and> rep p r = r then Some (class_list p r) else None))"

definition edges_shape :: "poset \<Rightarrow> bool" where
  "edges_shape p \<longleftrightarrow> fmdom (causalEdges p) = fmdom (events p) \<and> fmdom (reverseCausal p) = fmdom (events p)
     \<and> (\<forall>a b. b |\<in>| edges_of p a \<longleftrightarrow> a |\<in>| redges_of p b)
     \<and> (\<forall>a b. b |\<in>| edges_of p a \<longrightarrow> stored p a \<and> stored p b \<and> rep p a = a \<and> rep p b = b \<and> a \<noteq> b)"

definition edges_ok :: "poset \<Rightarrow> bool" where
  "edges_ok p \<longleftrightarrow> edges_shape p \<and> acyclic (class_rel p)"

definition timed_ids :: "poset \<Rightarrow> event_id set" where
  "timed_ids p = {i. \<exists>e. fmlookup (events p) i = Some e \<and> ev_timings e \<noteq> []}"

definition events_ok :: "poset \<Rightarrow> bool" where
  "events_ok p \<longleftrightarrow>
     (\<forall>i e. fmlookup (events p) i = Some e \<longrightarrow>
        ev_id e = i \<and> ev_immutable e \<and> canonical_timings (ev_timings e))
     \<and> timedEvents p = int (card (timed_ids p))"

definition lam :: "poset \<Rightarrow> event_id \<Rightarrow> u64" where
  "lam p i = (case fmlookup (events p) i of None \<Rightarrow> 0 | Some e \<Rightarrow> ev_lamport e)"

definition uniform_ok :: "poset \<Rightarrow> bool" where
  "uniform_ok p \<longleftrightarrow> (\<forall>i. stored p i \<longrightarrow> lam p i = lam p (rep p i))"

definition lamport_ok :: "poset \<Rightarrow> bool" where
  "lamport_ok p \<longleftrightarrow> (\<forall>(a, b) \<in> class_rel p. lam p a < lam p b)"

text \<open>Strict causal order between occurrences: their classes are strictly ordered.\<close>

definition before :: "poset \<Rightarrow> (event_id \<times> event_id) set" where
  "before p = {(a, b). stored p a \<and> stored p b \<and> (rep p a, rep p b) \<in> (class_rel p)\<^sup>+}"

definition timing_ok :: "poset \<Rightarrow> bool" where
  "timing_ok p \<longleftrightarrow> (\<forall>(a, b) \<in> before p.
     \<not> sharedTimingConflict (fmlookup (events p) a) (fmlookup (events p) b))"

definition poset_ok :: "poset \<Rightarrow> bool" where
  "poset_ok p \<longleftrightarrow> class_ok p \<and> edges_ok p \<and> events_ok p \<and> timing_ok p \<and> uniform_ok p"

section \<open>Consequences\<close>

lemma poset_okD:
  "poset_ok p \<Longrightarrow> class_ok p" "poset_ok p \<Longrightarrow> edges_ok p" "poset_ok p \<Longrightarrow> events_ok p"
  "poset_ok p \<Longrightarrow> timing_ok p" "poset_ok p \<Longrightarrow> uniform_ok p"
  by (simp_all add: poset_ok_def)

lemma stored_iff: "stored p i \<longleftrightarrow> i |\<in>| fmdom (events p)"
  by (simp add: map_has_def)

lemma stored_lookup: "stored p i \<longleftrightarrow> (\<exists>e. fmlookup (events p) i = Some e)"
  by (simp add: map_has_iff)

lemma class_okD:
  assumes "class_ok p"
  shows "fmdom (causalClass p) = fmdom (events p)" "\<not> stored p ''''"
    "stored p i \<Longrightarrow> stored p (rep p i)" "stored p i \<Longrightarrow> rep p (rep p i) = rep p i"
    "stored p i \<Longrightarrow> rep p i \<le> i" "stored p i \<Longrightarrow> fmlookup (causalClass p) i = Some (rep p i)"
    "fmlookup (classMembers p) r =
       (if stored p r \<and> rep p r = r then Some (class_list p r) else None)"
  using assms unfolding class_ok_def by blast+

lemmas rep_stored = class_okD(3) and rep_rep = class_okD(4)

lemma edges_shapeD:
  assumes "edges_shape p"
  shows "fmdom (causalEdges p) = fmdom (events p)" "fmdom (reverseCausal p) = fmdom (events p)"
    "a |\<in>| redges_of p b \<longleftrightarrow> b |\<in>| edges_of p a"
    "b |\<in>| edges_of p a \<Longrightarrow> stored p a \<and> stored p b \<and> rep p a = a \<and> rep p b = b \<and> a \<noteq> b"
  using assms unfolding edges_shape_def by blast+

lemma edges_okD:
  assumes "edges_ok p"
  shows "fmdom (causalEdges p) = fmdom (events p)" "fmdom (reverseCausal p) = fmdom (events p)"
    "a |\<in>| redges_of p b \<longleftrightarrow> b |\<in>| edges_of p a" "acyclic (class_rel p)"
    "b |\<in>| edges_of p a \<Longrightarrow> stored p a \<and> stored p b \<and> rep p a = a \<and> rep p b = b \<and> a \<noteq> b"
    "edges_shape p"
  using assms edges_shapeD unfolding edges_ok_def by blast+

lemmas redges_iff = edges_okD(3) and edges_stored = edges_okD(5)

lemma rep_absent: "class_ok p \<Longrightarrow> \<not> stored p i \<Longrightarrow> rep p i = i"
  using map_get_absent [of "causalClass p" i "''''"]
  by (simp add: class_okD(1) causalRepresentativeLocked_def map_has_def)

lemma set_class_list: "set (class_list p r) = {i. stored p i \<and> rep p i = r}"
  by (auto simp: class_list_def map_has_def)

lemma class_list_sorted [simp]: "sorted (class_list p r)" "distinct (class_list p r)"
  by (simp_all add: class_list_def sorted_wrt_filter)

lemma classMembers_get:
  "class_ok p \<Longrightarrow> map_get [] (classMembers p) r =
     (if stored p r \<and> rep p r = r then class_list p r else [])"
  by (simp add: map_get_def class_okD(7))

lemma causalClassMembersLocked_ok:
  "class_ok p \<Longrightarrow> stored p i \<Longrightarrow> causalClassMembersLocked p i = class_list p (rep p i)"
  by (simp add: causalClassMembersLocked_def classMembers_get rep_stored rep_rep)

lemma causalClassMembersLocked_absent:
  "class_ok p \<Longrightarrow> \<not> stored p i \<Longrightarrow> causalClassMembersLocked p i = []"
  by (simp add: causalClassMembersLocked_def classMembers_get rep_absent)

lemma representatives_ok:
  "class_ok p \<Longrightarrow> set (causalClassRepresentativesLocked p) = {r. stored p r \<and> rep p r = r}"
  unfolding causalClassRepresentativesLocked_def set_map_keys
  by (auto simp: class_okD(7) fmlookup_dom_iff split: if_splits)

text \<open>In a well-formed poset the class adjacency is the edge map itself.\<close>

lemma class_rel_shape:
  assumes "class_ok p" "edges_shape p"
  shows "(a, b) \<in> class_rel p \<longleftrightarrow> b |\<in>| edges_of p a"
proof
  assume "(a, b) \<in> class_rel p"
  then obtain m x where m: "m \<in> set (map_get [] (classMembers p) a)" and x: "x |\<in>| edges_of p m"
    and b: "b = rep p x"
    by (auto simp: class_rel_iff causalClassSuccessorsLocked_def set_classNeighbours)
  from m have "rep p m = a"
    using assms(1) by (auto simp: classMembers_get set_class_list split: if_splits)
  with edges_shapeD(4) [OF assms(2) x] x b show "b |\<in>| edges_of p a" by auto
next
  assume ab: "b |\<in>| edges_of p a"
  note st = edges_shapeD(4) [OF assms(2) ab]
  then have "a \<in> set (map_get [] (classMembers p) a)"
    using assms(1) by (simp add: classMembers_get set_class_list)
  with ab st show "(a, b) \<in> class_rel p"
    unfolding class_rel_iff causalClassSuccessorsLocked_def set_classNeighbours by force
qed

lemma class_rel_rev_shape:
  assumes "class_ok p" "edges_shape p"
  shows "(b, a) \<in> class_rel_rev p \<longleftrightarrow> b |\<in>| edges_of p a"
proof
  assume "(b, a) \<in> class_rel_rev p"
  then obtain m x where m: "m \<in> set (map_get [] (classMembers p) b)" and x: "x |\<in>| redges_of p m"
    and a: "a = rep p x"
    by (auto simp: class_rel_rev_iff causalClassPredecessorsLocked_def set_classNeighbours)
  from m have "rep p m = b"
    using assms(1) by (auto simp: classMembers_get set_class_list split: if_splits)
  moreover have "m |\<in>| edges_of p x" using x edges_shapeD(3) [OF assms(2)] by simp
  ultimately show "b |\<in>| edges_of p a" using edges_shapeD(4) [OF assms(2), of m x] a by auto
next
  assume ba: "b |\<in>| edges_of p a"
  note st = edges_shapeD(4) [OF assms(2) ba]
  then have "b \<in> set (map_get [] (classMembers p) b)"
    using assms(1) by (simp add: classMembers_get set_class_list)
  moreover have "a |\<in>| redges_of p b" using ba edges_shapeD(3) [OF assms(2)] by simp
  ultimately show "(b, a) \<in> class_rel_rev p"
    using st unfolding class_rel_rev_iff causalClassPredecessorsLocked_def set_classNeighbours by force
qed

lemma class_rel_edges:
  "class_ok p \<Longrightarrow> edges_ok p \<Longrightarrow> (a, b) \<in> class_rel p \<longleftrightarrow> b |\<in>| edges_of p a"
  "class_ok p \<Longrightarrow> edges_ok p \<Longrightarrow> (b, a) \<in> class_rel_rev p \<longleftrightarrow> b |\<in>| edges_of p a"
  by (simp_all add: class_rel_shape class_rel_rev_shape edges_okD(6))

lemma class_rel_rev_converse: "class_ok p \<Longrightarrow> edges_ok p \<Longrightarrow> class_rel_rev p = (class_rel p)\<inverse>"
  by (auto simp: class_rel_edges)

lemma class_rel_stored:
  "class_ok p \<Longrightarrow> edges_ok p \<Longrightarrow> (a, b) \<in> class_rel p \<Longrightarrow>
     stored p a \<and> stored p b \<and> rep p a = a \<and> rep p b = b \<and> a \<noteq> b"
  by (simp add: class_rel_edges edges_stored)

lemma trancl_class_rel_stored:
  assumes "class_ok p" "edges_ok p" "(a, b) \<in> (class_rel p)\<^sup>+"
  shows "stored p a \<and> stored p b \<and> rep p a = a \<and> rep p b = b"
  using assms(3)
  by (induction rule: trancl_induct) (use class_rel_stored [OF assms(1,2)] in blast)+

lemma before_iff_class_rel:
  "class_ok p \<Longrightarrow> edges_ok p \<Longrightarrow> stored p a \<Longrightarrow> stored p b \<Longrightarrow>
     (a, b) \<in> before p \<longleftrightarrow> (rep p a, rep p b) \<in> (class_rel p)\<^sup>+"
  by (simp add: before_def)

lemma before_trans: "(a, b) \<in> before p \<Longrightarrow> (b, c) \<in> before p \<Longrightarrow> (a, c) \<in> before p"
  by (auto simp: before_def)

lemma before_irrefl: "edges_ok p \<Longrightarrow> (a, a) \<notin> before p"
  by (auto simp: before_def edges_ok_def acyclic_def)

lemma before_not_equivalent: "edges_ok p \<Longrightarrow> (a, b) \<in> before p \<Longrightarrow> rep p a \<noteq> rep p b"
  by (auto simp: before_def edges_ok_def acyclic_def)

lemma finite_before: "finite (before p)"
  by (rule finite_subset [of _ "fset (fmdom (events p)) \<times> fset (fmdom (events p))"])
     (auto simp: before_def map_has_def)

section \<open>States that differ in Lamport positions only\<close>

definition same_shape :: "poset \<Rightarrow> poset \<Rightarrow> bool" where
  "same_shape p q \<longleftrightarrow> q\<lparr>events := events p\<rparr> = p
     \<and> (\<forall>i. map_option (set_lamport 0) (fmlookup (events q) i)
          = map_option (set_lamport 0) (fmlookup (events p) i))"

lemma same_shape_refl [simp]: "same_shape p p"
  by (simp add: same_shape_def)

lemma same_shape_trans: "same_shape p q \<Longrightarrow> same_shape q r \<Longrightarrow> same_shape p r"
  by (cases p; cases q; cases r) (auto simp: same_shape_def)

lemma same_shape_fields:
  assumes "same_shape p q"
  shows "causalEdges q = causalEdges p" "reverseCausal q = reverseCausal p"
    "causalClass q = causalClass p" "classMembers q = classMembers p"
    "timedEvents q = timedEvents p" "lamportCounter q = lamportCounter p"
    "pendingEdges q = pendingEdges p" "classRepairScans q = classRepairScans p"
  using assms by (cases p; cases q; auto simp: same_shape_def)+

lemma same_shape_event:
  assumes "same_shape p q"
  shows "fmlookup (events q) i = None \<longleftrightarrow> fmlookup (events p) i = None"
    "fmlookup (events q) i = Some e \<Longrightarrow>
       \<exists>e'. fmlookup (events p) i = Some e' \<and> set_lamport 0 e = set_lamport 0 e'"
proof -
  have eq: "map_option (set_lamport 0) (fmlookup (events q) i)
      = map_option (set_lamport 0) (fmlookup (events p) i)"
    using assms by (simp add: same_shape_def)
  then show "fmlookup (events q) i = None \<longleftrightarrow> fmlookup (events p) i = None"
    by (metis option.map_disc_iff)
  show "\<exists>e'. fmlookup (events p) i = Some e' \<and> set_lamport 0 e = set_lamport 0 e'"
    if "fmlookup (events q) i = Some e"
    using eq that by (cases "fmlookup (events p) i") auto
qed

lemma set_lamport_eqD:
  assumes "set_lamport 0 e = set_lamport 0 e'"
  shows "ev_id e = ev_id e'" "ev_timings e = ev_timings e'" "ev_immutable e = ev_immutable e'"
    "ev_name e = ev_name e'" "ev_source e = ev_source e'"
  using assms by (metis set_lamport_simps)+

lemma same_shape_sym: "same_shape p q \<Longrightarrow> same_shape q p"
  by (cases p; cases q) (auto simp: same_shape_def)

lemma same_shape_stored: "same_shape p q \<Longrightarrow> stored q = stored p"
  by (rule ext) (metis same_shape_event(1) map_has_iff not_None_eq)

lemma same_shape_dom: "same_shape p q \<Longrightarrow> fmdom (events q) = fmdom (events p)"
  using same_shape_stored [of p q] by (auto simp: fun_eq_iff map_has_def)

lemma same_shape_rep: "same_shape p q \<Longrightarrow> rep q = rep p"
  by (rule ext) (simp add: causalRepresentativeLocked_def same_shape_fields)

lemma same_shape_classNeighbours: "same_shape p q \<Longrightarrow> classNeighbours q = classNeighbours p"
  by (intro ext) (simp only: classNeighbours_def same_shape_fields(4) [of p q] same_shape_rep [of p q])

lemma same_shape_succs:
  assumes "same_shape p q"
  shows "causalClassSuccessorsLocked q = causalClassSuccessorsLocked p"
    "causalClassPredecessorsLocked q = causalClassPredecessorsLocked p"
    "causalClassMembersLocked q = causalClassMembersLocked p"
    "class_list q = class_list p"
  by (intro ext; simp add: causalClassSuccessorsLocked_def causalClassPredecessorsLocked_def
      causalClassMembersLocked_def class_list_def map_keys_def same_shape_fields [OF assms]
      same_shape_rep [OF assms] same_shape_dom [OF assms] same_shape_classNeighbours [OF assms])+

lemma same_shape_class_rel: "same_shape p q \<Longrightarrow> class_rel q = class_rel p"
  by (simp add: class_rel_def same_shape_succs)

lemma same_shape_timings:
  assumes "same_shape p q"
  shows "map_option ev_timings (fmlookup (events q) i) = map_option ev_timings (fmlookup (events p) i)"
  using same_shape_event [OF assms, of i]
  by (cases "fmlookup (events q) i") (auto dest: set_lamport_eqD(2))

lemma sharedTimingConflict_timings:
  "sharedTimingConflict b a =
     (case (map_option ev_timings b, map_option ev_timings a) of
        (Some bs, Some as) \<Rightarrow> timingConflictLoop bs as | _ \<Rightarrow> False)"
  by (cases b; cases a) (simp_all add: sharedTimingConflict_def)

lemma same_shape_conflict:
  assumes "same_shape p q"
  shows "sharedTimingConflict (fmlookup (events q) a) (fmlookup (events q) b)
       = sharedTimingConflict (fmlookup (events p) a) (fmlookup (events p) b)"
  by (simp only: sharedTimingConflict_timings same_shape_timings [OF assms])

lemma same_shape_before: "same_shape p q \<Longrightarrow> before q = before p"
  by (simp add: before_def same_shape_stored same_shape_rep same_shape_class_rel)

lemma same_shape_class_ok:
  assumes "same_shape p q"
  shows "class_ok q = class_ok p"
  by (simp only: class_ok_def same_shape_stored [OF assms] same_shape_rep [OF assms]
      same_shape_succs [OF assms] same_shape_fields [OF assms] same_shape_dom [OF assms])

lemma same_shape_edges_ok:
  assumes "same_shape p q"
  shows "edges_ok q = edges_ok p"
  by (simp only: edges_ok_def edges_shape_def same_shape_stored [OF assms] same_shape_rep [OF assms]
      same_shape_class_rel [OF assms] same_shape_fields [OF assms] same_shape_dom [OF assms])

lemma same_shape_timed_ids: "same_shape p q \<Longrightarrow> timed_ids q = timed_ids p"
proof -
  assume shape: "same_shape p q"
  have "timed_ids r = {i. \<exists>ts. map_option ev_timings (fmlookup (events r) i) = Some ts \<and> ts \<noteq> []}" for r
    by (auto simp: timed_ids_def)
  then show ?thesis by (simp only: same_shape_timings [OF shape])
qed

lemma same_shape_events_ok:
  assumes "same_shape p q" "events_ok p"
  shows "events_ok q"
  unfolding events_ok_def same_shape_timed_ids [OF assms(1)] same_shape_fields [OF assms(1)]
proof (intro conjI allI impI)
  fix i e
  assume "fmlookup (events q) i = Some e"
  then obtain e' where "fmlookup (events p) i = Some e'" "set_lamport 0 e = set_lamport 0 e'"
    using same_shape_event(2) [OF assms(1)] by blast
  with assms(2) show "ev_id e = i" "ev_immutable e" "canonical_timings (ev_timings e)"
    by (auto simp: events_ok_def dest: set_lamport_eqD)
qed (use assms(2) in \<open>simp add: events_ok_def\<close>)

lemma same_shape_timing_ok: "same_shape p q \<Longrightarrow> timing_ok q = timing_ok p"
  by (simp add: timing_ok_def same_shape_before same_shape_conflict)

lemma same_shape_poset_ok:
  "same_shape p q \<Longrightarrow> poset_ok p \<Longrightarrow> uniform_ok q \<Longrightarrow> poset_ok q"
  by (simp add: poset_ok_def same_shape_class_ok same_shape_edges_ok same_shape_events_ok
      same_shape_timing_ok)

end
