(* ===== verification/Poset_Insert.thy ===== *)
theory Poset_Insert
  imports Poset_Inv
begin

text \<open>
  Inserting occurrences (\<open>poset.go\<close>): class registration, the counted store write, \<open>AddEvent\<close> and
  the merge variant that keeps a remote Lamport position.  A fresh occurrence starts as a singleton
  class with no edges, so every invariant and the whole causal relation carry over.
\<close>

definition registerTrivialClassLocked :: "poset \<Rightarrow> event_id \<Rightarrow> poset" where
  "registerTrivialClassLocked p i =
     p\<lparr>causalClass := fmupd i i (causalClass p), classMembers := fmupd i [i] (classMembers p)\<rparr>"

definition ensureCausalClassesLocked :: "poset \<Rightarrow> poset" where
  "ensureCausalClassesLocked p =
     (if fcard (fmdom (causalClass p)) = fcard (fmdom (events p)) then p
      else fold (\<lambda>i p. if map_get '''' (causalClass p) i = '''' then registerTrivialClassLocked p i else p)
             (event_ids p) (p\<lparr>classRepairScans := classRepairScans p + 1\<rparr>))"

definition storeEventLocked :: "poset \<Rightarrow> event \<Rightarrow> poset" where
  "storeEventLocked p e =
     (let p = (case fmlookup (events p) (ev_id e) of
                 Some previous \<Rightarrow>
                   if ev_timings previous \<noteq> [] then p\<lparr>timedEvents := timedEvents p - 1\<rparr> else p
               | None \<Rightarrow> p);
          p = (if ev_timings e \<noteq> [] then p\<lparr>timedEvents := timedEvents p + 1\<rparr> else p)
      in p\<lparr>events := fmupd (ev_id e) e (events p)\<rparr>)"

definition insertOccurrence :: "poset \<Rightarrow> event \<Rightarrow> poset" where
  \<comment> \<open>the tail \<open>addEventLocked\<close> and \<open>mergeEventLocked\<close> share\<close>
  "insertOccurrence p e =
     (let p = ensureCausalClassesLocked p;
          p = storeEventLocked p e;
          p = p\<lparr>causalEdges := fmupd (ev_id e) {||} (causalEdges p)\<rparr>;
          p = p\<lparr>reverseCausal := fmupd (ev_id e) {||} (reverseCausal p)\<rparr>
      in registerTrivialClassLocked p (ev_id e))"

definition addEventLocked :: "poset \<Rightarrow> event option \<Rightarrow> poset \<times> go_error option" where
  "addEventLocked p ev = (case ev of
      None \<Rightarrow> (p, Some ErrEventNotFound)
    | Some e \<Rightarrow>
        if stored p (ev_id e) then (p, Some ErrEventExists)
        else (case CanonicalizeEventTimings (ev_timings e) of
            Inl err \<Rightarrow> (p, Some err)
          | Inr timings \<Rightarrow>
              let e = e\<lparr>ev_timings := timings\<rparr>;
                  p = p\<lparr>lamportCounter := lamportCounter p + 1\<rparr>;
                  e = set_lamport (lamportCounter p) e;
                  e = Freeze e;
                  e' = (if ev_deterministic e then cloneEvent e else e)
              in (insertOccurrence p e', None)))"

definition AddEvent :: "poset \<Rightarrow> event option \<Rightarrow> poset \<times> go_error option" where
  "AddEvent p ev = (case ev of
      None \<Rightarrow> (p, Some ErrEventNotFound)
    | Some e \<Rightarrow> if length (ev_expectedCauses e) > 0 then (p, Some ErrCauseMismatch)
                else addEventLocked p (Some e))"

definition mergeEventLocked :: "poset \<Rightarrow> event option \<Rightarrow> poset \<times> go_error option" where
  "mergeEventLocked p ev = (case ev of
      None \<Rightarrow> (p, Some ErrEventNotFound)
    | Some e \<Rightarrow>
        if stored p (ev_id e) then (p, Some ErrEventExists)
        else (case CanonicalizeEventTimings (ev_timings e) of
            Inl err \<Rightarrow> (p, Some err)
          | Inr timings \<Rightarrow>
              let e = Freeze (e\<lparr>ev_timings := timings\<rparr>);
                  p = insertOccurrence p e
              in (if ev_lamport e > lamportCounter p
                  then p\<lparr>lamportCounter := ev_lamport e\<rparr> else p, None)))"

section \<open>The shared tail\<close>

lemma ensure_ok [simp]: "class_ok p \<Longrightarrow> ensureCausalClassesLocked p = p"
  by (simp add: ensureCausalClassesLocked_def class_okD(1))

lemma storeEventLocked_fields [simp]:
  "events (storeEventLocked p e) = fmupd (ev_id e) e (events p)"
  "causalEdges (storeEventLocked p e) = causalEdges p"
  "reverseCausal (storeEventLocked p e) = reverseCausal p"
  "causalClass (storeEventLocked p e) = causalClass p"
  "classMembers (storeEventLocked p e) = classMembers p"
  "classRepairScans (storeEventLocked p e) = classRepairScans p"
  "lamportCounter (storeEventLocked p e) = lamportCounter p"
  "pendingEdges (storeEventLocked p e) = pendingEdges p"
  by (simp_all add: storeEventLocked_def Let_def split: option.splits)

lemma finite_timed_ids [simp]: "finite (timed_ids p)"
  by (rule finite_subset [of _ "fset (fmdom (events p))"])
     (auto simp: timed_ids_def fmlookup_dom_iff)

lemma storeEventLocked_timed:
  assumes "timedEvents p = int (card (timed_ids p))"
  shows "timedEvents (storeEventLocked p e) = int (card (timed_ids (storeEventLocked p e)))"
proof -
  have ids: "timed_ids (storeEventLocked p e) =
      (if ev_timings e \<noteq> [] then insert (ev_id e) (timed_ids p) else timed_ids p - {ev_id e})"
    by (auto simp: timed_ids_def split: if_splits)
  have te: "timedEvents (storeEventLocked p e) =
      timedEvents p - (if ev_id e \<in> timed_ids p then 1 else 0) + (if ev_timings e \<noteq> [] then 1 else 0)"
    by (auto simp: storeEventLocked_def Let_def timed_ids_def split: option.splits)
  have "ev_id e \<in> timed_ids p \<Longrightarrow> card (timed_ids p) \<ge> 1"
    by (simp add: Suc_le_eq card_gt_0_iff) auto
  then show ?thesis
    unfolding te ids assms by (simp add: card_insert_if insert_absorb of_nat_diff)
qed

lemma insertOccurrence_fields:
  assumes "class_ok p"
  shows "events (insertOccurrence p e) = fmupd (ev_id e) e (events p)"
    "causalEdges (insertOccurrence p e) = fmupd (ev_id e) {||} (causalEdges p)"
    "reverseCausal (insertOccurrence p e) = fmupd (ev_id e) {||} (reverseCausal p)"
    "causalClass (insertOccurrence p e) = fmupd (ev_id e) (ev_id e) (causalClass p)"
    "classMembers (insertOccurrence p e) = fmupd (ev_id e) [ev_id e] (classMembers p)"
    "classRepairScans (insertOccurrence p e) = classRepairScans p"
    "lamportCounter (insertOccurrence p e) = lamportCounter p"
    "pendingEdges (insertOccurrence p e) = pendingEdges p"
    "timedEvents (insertOccurrence p e) = timedEvents (storeEventLocked p e)"
  using assms by (simp_all add: insertOccurrence_def Let_def registerTrivialClassLocked_def)

lemma insertOccurrence_rep:
  "class_ok p \<Longrightarrow> ev_id e \<noteq> '''' \<Longrightarrow>
     rep (insertOccurrence p e) i = (if i = ev_id e then ev_id e else rep p i)"
  by (simp add: causalRepresentativeLocked_def insertOccurrence_fields Let_def)

lemma insertOccurrence_stored:
  "class_ok p \<Longrightarrow> stored (insertOccurrence p e) i \<longleftrightarrow> i = ev_id e \<or> stored p i"
  by (simp add: insertOccurrence_fields)

lemma edges_of_absent: "edges_ok p \<Longrightarrow> \<not> stored p i \<Longrightarrow> edges_of p i = {||} \<and> redges_of p i = {||}"
  using map_get_absent [of "causalEdges p" i "{||}"] map_get_absent [of "reverseCausal p" i "{||}"]
  by (simp add: edges_okD(1,2) map_has_def)

lemma insertOccurrence_edges:
  assumes "class_ok p" "edges_ok p" "\<not> stored p (ev_id e)"
  shows "edges_of (insertOccurrence p e) = edges_of p" "redges_of (insertOccurrence p e) = redges_of p"
  using edges_of_absent [OF assms(2,3)] by (auto simp: fun_eq_iff insertOccurrence_fields [OF assms(1)])

lemma insertOccurrence_class_rel:
  assumes "class_ok p" "edges_ok p" "\<not> stored p (ev_id e)" "ev_id e \<noteq> ''''"
  shows "class_rel (insertOccurrence p e) = class_rel p"
proof -
  let ?q = "insertOccurrence p e"
  have "(a, b) \<in> class_rel ?q \<longleftrightarrow> (a, b) \<in> class_rel p" for a b
  proof (cases "a = ev_id e")
    case True
    have "(ev_id e, b) \<notin> class_rel p"
      using class_rel_stored [OF assms(1,2)] assms(3) by blast
    moreover have "(ev_id e, b) \<notin> class_rel ?q"
      using edges_of_absent [OF assms(2,3)]
      by (simp add: class_rel_iff causalClassSuccessorsLocked_def set_classNeighbours
          insertOccurrence_edges [OF assms(1-3)] insertOccurrence_fields [OF assms(1)])
    ultimately show ?thesis using True by simp
  next
    case False
    have "rep ?q x = rep p x" if "x |\<in>| edges_of p m" for x m
      using that edges_stored [OF assms(2) that] assms by (auto simp: insertOccurrence_rep)
    then have "{rep ?q x |x m. m \<in> set (map_get [] (classMembers p) a) \<and> x |\<in>| edges_of p m}
        = {rep p x |x m. m \<in> set (map_get [] (classMembers p) a) \<and> x |\<in>| edges_of p m}"
      by metis
    moreover have "map_get [] (classMembers ?q) a = map_get [] (classMembers p) a"
      using False by (simp add: insertOccurrence_fields [OF assms(1)])
    ultimately show ?thesis
      by (simp only: class_rel_iff causalClassSuccessorsLocked_def set_classNeighbours
          insertOccurrence_edges [OF assms(1-3)])
  qed
  then show ?thesis by auto
qed

lemma insertOccurrence_before:
  assumes "class_ok p" "edges_ok p" "\<not> stored p (ev_id e)" "ev_id e \<noteq> ''''"
  shows "before (insertOccurrence p e) = before p"
proof -
  have new: "(rep (insertOccurrence p e) a, rep (insertOccurrence p e) b) \<notin> (class_rel p)\<^sup>+"
    if "a = ev_id e \<or> b = ev_id e" for a b
  proof
    assume "(rep (insertOccurrence p e) a, rep (insertOccurrence p e) b) \<in> (class_rel p)\<^sup>+"
    from trancl_class_rel_stored [OF assms(1,2) this] that assms show False
      by (auto simp: insertOccurrence_rep)
  qed
  have "(a, b) \<in> before (insertOccurrence p e) \<longleftrightarrow> (a, b) \<in> before p" for a b
  proof (cases "a = ev_id e \<or> b = ev_id e")
    case True
    with new [OF True] assms(3) show ?thesis
      by (auto simp: before_def insertOccurrence_class_rel [OF assms])
  next
    case False
    then show ?thesis
      by (simp add: before_def insertOccurrence_class_rel [OF assms]
          insertOccurrence_stored [OF assms(1)] insertOccurrence_rep [OF assms(1,4)])
  qed
  then show ?thesis by auto
qed

lemma insertOccurrence_class_ok:
  assumes "class_ok p" "\<not> stored p (ev_id e)" "ev_id e \<noteq> ''''"
  shows "class_ok (insertOccurrence p e)"
proof -
  let ?q = "insertOccurrence p e" and ?n = "ev_id e"
  note rep = insertOccurrence_rep [OF assms(1,3)] and st = insertOccurrence_stored [OF assms(1)]
  have old: "stored p i \<Longrightarrow> i \<noteq> ?n \<and> rep p i \<noteq> ?n" for i
    using assms rep_stored by metis
  have cl: "class_list ?q r = (if r = ?n then [?n] else class_list p r)" for r
  proof (rule sorted_distinct_set_eq)
    show "set (class_list ?q r) = set (if r = ?n then [?n] else class_list p r)"
      using old assms(2) by (auto simp: set_class_list rep st)
  qed auto
  show ?thesis
    unfolding class_ok_def
  proof (intro conjI allI impI)
    fix i assume i: "stored ?q i"
    show "stored ?q (rep ?q i)" "rep ?q (rep ?q i) = rep ?q i" "rep ?q i \<le> i"
      "fmlookup (causalClass ?q) i = Some (rep ?q i)"
      using i old [of i] class_okD(3-6) [OF assms(1), of i]
      by (auto simp: rep st insertOccurrence_fields [OF assms(1)])
  next
    fix r
    show "fmlookup (classMembers ?q) r =
        (if stored ?q r \<and> rep ?q r = r then Some (class_list ?q r) else None)"
      using class_okD(7) [OF assms(1), of r] old [of r]
      by (auto simp: rep st cl insertOccurrence_fields [OF assms(1)])
  qed (use assms class_okD(1,2) [OF assms(1)] in
      \<open>auto simp: insertOccurrence_fields [OF assms(1)] map_has_def\<close>)
qed

lemma insertOccurrence_edges_ok:
  assumes "class_ok p" "edges_ok p" "\<not> stored p (ev_id e)" "ev_id e \<noteq> ''''"
  shows "edges_ok (insertOccurrence p e)"
proof -
  have old: "stored p i \<Longrightarrow> i \<noteq> ev_id e" for i
    using assms by metis
  have "fmdom (causalEdges (insertOccurrence p e)) = fmdom (events (insertOccurrence p e))"
    "fmdom (reverseCausal (insertOccurrence p e)) = fmdom (events (insertOccurrence p e))"
    by (simp_all add: insertOccurrence_fields [OF assms(1)] edges_okD(1,2) [OF assms(2)])
  moreover have "stored (insertOccurrence p e) a \<and> stored (insertOccurrence p e) b
      \<and> rep (insertOccurrence p e) a = a \<and> rep (insertOccurrence p e) b = b \<and> a \<noteq> b"
    if "b |\<in>| edges_of p a" for a b
    using edges_okD(5) [OF assms(2) that] old
    by (auto simp: insertOccurrence_stored [OF assms(1)] insertOccurrence_rep [OF assms(1,4)])
  ultimately show ?thesis
    unfolding edges_ok_def edges_shape_def insertOccurrence_edges [OF assms(1-3)] insertOccurrence_class_rel [OF assms]
    using edges_okD(3,4) [OF assms(2)] by blast
qed

lemma insertOccurrence_events_ok:
  assumes "class_ok p" "events_ok p" "canonical_timings (ev_timings e)" "ev_immutable e"
  shows "events_ok (insertOccurrence p e)"
proof -
  have "timed_ids (insertOccurrence p e) = timed_ids (storeEventLocked p e)"
    by (simp add: timed_ids_def insertOccurrence_fields [OF assms(1)])
  with assms storeEventLocked_timed [of p e] show ?thesis
    by (auto simp: events_ok_def insertOccurrence_fields [OF assms(1)])
qed

lemma insertOccurrence_lam:
  "class_ok p \<Longrightarrow> lam (insertOccurrence p e) i = (if i = ev_id e then ev_lamport e else lam p i)"
  by (simp add: lam_def insertOccurrence_fields)

lemma insertOccurrence_timing_ok:
  assumes "class_ok p" "edges_ok p" "timing_ok p" "\<not> stored p (ev_id e)" "ev_id e \<noteq> ''''"
  shows "timing_ok (insertOccurrence p e)"
proof -
  have "a \<noteq> ev_id e \<and> b \<noteq> ev_id e" if "(a, b) \<in> before p" for a b
    using that assms(4) by (auto simp: before_def)
  with assms(3) show ?thesis
    unfolding timing_ok_def insertOccurrence_before [OF assms(1,2,4,5)]
    by (fastforce simp: insertOccurrence_fields [OF assms(1)])
qed

lemma insertOccurrence_uniform_ok:
  assumes "class_ok p" "uniform_ok p" "\<not> stored p (ev_id e)" "ev_id e \<noteq> ''''"
  shows "uniform_ok (insertOccurrence p e)"
proof -
  have old: "stored p i \<Longrightarrow> i \<noteq> ev_id e \<and> rep p i \<noteq> ev_id e" for i
    using assms rep_stored by metis
  then show ?thesis
    using assms(2) by (auto simp: uniform_ok_def insertOccurrence_lam [OF assms(1)]
        insertOccurrence_rep [OF assms(1,4)] insertOccurrence_stored [OF assms(1)])
qed

text \<open>The invariant and the frame of an insertion, in one statement.\<close>

lemma insertOccurrence_ok:
  assumes "poset_ok p" "\<not> stored p (ev_id e)" "ev_id e \<noteq> ''''"
    "canonical_timings (ev_timings e)" "ev_immutable e"
  shows "poset_ok (insertOccurrence p e)" "before (insertOccurrence p e) = before p"
    "lamport_ok p \<Longrightarrow> lamport_ok (insertOccurrence p e)"
proof -
  have ok: "class_ok p" "edges_ok p" "events_ok p" "timing_ok p" "uniform_ok p"
    using assms(1) by (simp_all add: poset_ok_def)
  show "poset_ok (insertOccurrence p e)"
    unfolding poset_ok_def
    using insertOccurrence_class_ok insertOccurrence_edges_ok insertOccurrence_events_ok
      insertOccurrence_timing_ok insertOccurrence_uniform_ok ok assms(2-5) by blast
  show "before (insertOccurrence p e) = before p"
    by (rule insertOccurrence_before [OF ok(1,2) assms(2,3)])
  show "lamport_ok (insertOccurrence p e)" if "lamport_ok p"
    using that class_rel_stored [OF ok(1,2)] assms(2)
    by (fastforce simp: lamport_ok_def insertOccurrence_class_rel [OF ok(1,2) assms(2,3)]
        insertOccurrence_lam [OF ok(1)])
qed

section \<open>AddEvent on well-formed posets\<close>

definition frozen_copy :: "poset \<Rightarrow> event \<Rightarrow> event_timing list \<Rightarrow> event" where
  \<comment> \<open>what \<open>addEventLocked\<close> stores\<close>
  "frozen_copy p e timings = Freeze (set_lamport (lamportCounter p + 1) (e\<lparr>ev_timings := timings\<rparr>))"

lemma frozen_copy_simps [simp]:
  "ev_id (frozen_copy p e ts) = ev_id e" "ev_timings (frozen_copy p e ts) = ts"
  "ev_immutable (frozen_copy p e ts)" "ev_lamport (frozen_copy p e ts) = lamportCounter p + 1"
  by (simp_all add: frozen_copy_def)

lemma poset_ok_counter [simp]:
  "poset_ok (p\<lparr>lamportCounter := n\<rparr>) = poset_ok p"
  "before (p\<lparr>lamportCounter := n\<rparr>) = before p" "lamport_ok (p\<lparr>lamportCounter := n\<rparr>) = lamport_ok p"
  "rep (p\<lparr>lamportCounter := n\<rparr>) = rep p" "class_rel (p\<lparr>lamportCounter := n\<rparr>) = class_rel p"
proof -
  have r: "rep (p\<lparr>lamportCounter := n\<rparr>) = rep p"
    by (rule ext) (simp add: causalRepresentativeLocked_def)
  have "classNeighbours (p\<lparr>lamportCounter := n\<rparr>) = classNeighbours p"
    unfolding classNeighbours_def [abs_def] r by simp
  then have c: "class_rel (p\<lparr>lamportCounter := n\<rparr>) = class_rel p"
    by (simp add: class_rel_def causalClassSuccessorsLocked_def [abs_def])
  have b: "before (p\<lparr>lamportCounter := n\<rparr>) = before p"
    by (simp add: before_def r c)
  have l: "lam (p\<lparr>lamportCounter := n\<rparr>) = lam p" by (rule ext) (simp add: lam_def)
  have cl: "class_list (p\<lparr>lamportCounter := n\<rparr>) = class_list p"
    by (rule ext) (simp add: class_list_def r)
  show "rep (p\<lparr>lamportCounter := n\<rparr>) = rep p" by (rule r)
  show "class_rel (p\<lparr>lamportCounter := n\<rparr>) = class_rel p" by (rule c)
  show "before (p\<lparr>lamportCounter := n\<rparr>) = before p" by (rule b)
  show "lamport_ok (p\<lparr>lamportCounter := n\<rparr>) = lamport_ok p" by (simp add: lamport_ok_def c l)
  show "poset_ok (p\<lparr>lamportCounter := n\<rparr>) = poset_ok p"
    by (simp add: poset_ok_def class_ok_def edges_ok_def edges_shape_def events_ok_def timing_ok_def
        uniform_ok_def timed_ids_def r c b l cl)
qed

lemma poset_ok_pending:
  "poset_ok (p\<lparr>pendingEdges := n\<rparr>) = poset_ok p"
  "before (p\<lparr>pendingEdges := n\<rparr>) = before p" "lamport_ok (p\<lparr>pendingEdges := n\<rparr>) = lamport_ok p"
  "rep (p\<lparr>pendingEdges := n\<rparr>) = rep p" "class_rel (p\<lparr>pendingEdges := n\<rparr>) = class_rel p"
proof -
  have r: "rep (p\<lparr>pendingEdges := n\<rparr>) = rep p"
    by (rule ext) (simp add: causalRepresentativeLocked_def)
  have "classNeighbours (p\<lparr>pendingEdges := n\<rparr>) = classNeighbours p"
    unfolding classNeighbours_def [abs_def] r by simp
  then have c: "class_rel (p\<lparr>pendingEdges := n\<rparr>) = class_rel p"
    by (simp add: class_rel_def causalClassSuccessorsLocked_def [abs_def])
  have b: "before (p\<lparr>pendingEdges := n\<rparr>) = before p"
    by (simp add: before_def r c)
  have l: "lam (p\<lparr>pendingEdges := n\<rparr>) = lam p" by (rule ext) (simp add: lam_def)
  have cl: "class_list (p\<lparr>pendingEdges := n\<rparr>) = class_list p"
    by (rule ext) (simp add: class_list_def r)
  show "rep (p\<lparr>pendingEdges := n\<rparr>) = rep p" by (rule r)
  show "class_rel (p\<lparr>pendingEdges := n\<rparr>) = class_rel p" by (rule c)
  show "before (p\<lparr>pendingEdges := n\<rparr>) = before p" by (rule b)
  show "lamport_ok (p\<lparr>pendingEdges := n\<rparr>) = lamport_ok p" by (simp add: lamport_ok_def c l)
  show "poset_ok (p\<lparr>pendingEdges := n\<rparr>) = poset_ok p"
    by (simp add: poset_ok_def class_ok_def edges_ok_def edges_shape_def events_ok_def timing_ok_def
        uniform_ok_def timed_ids_def r c b l cl)
qed

lemma addEventLocked_cases:
  "addEventLocked p (Some e) =
     (if stored p (ev_id e) then (p, Some ErrEventExists)
      else case CanonicalizeEventTimings (ev_timings e) of
          Inl err \<Rightarrow> (p, Some err)
        | Inr ts \<Rightarrow> (insertOccurrence (p\<lparr>lamportCounter := lamportCounter p + 1\<rparr>) (frozen_copy p e ts), None))"
  by (simp add: addEventLocked_def Let_def frozen_copy_def split: sum.splits)

lemma addEventLocked_error: "addEventLocked p ev = (q, Some err) \<Longrightarrow> q = p"
proof (cases ev)
  case None
  then show "addEventLocked p ev = (q, Some err) \<Longrightarrow> q = p" by (simp add: addEventLocked_def)
next
  case (Some e)
  then show "addEventLocked p ev = (q, Some err) \<Longrightarrow> q = p"
    by (auto simp: addEventLocked_cases split: if_splits sum.splits)
qed

lemma addEventLocked_ok:
  assumes "poset_ok p" "ev_id e \<noteq> ''''" "addEventLocked p (Some e) = (q, None)"
  obtains ts where "CanonicalizeEventTimings (ev_timings e) = Inr ts" "\<not> stored p (ev_id e)"
    "poset_ok q" "before q = before p" "class_rel q = class_rel p"
    "events q = fmupd (ev_id e) (frozen_copy p e ts) (events p)"
    "rep q = (\<lambda>i. if i = ev_id e then ev_id e else rep p i)" "pendingEdges q = pendingEdges p"
    "lamportCounter q = lamportCounter p + 1" "lamport_ok p \<longrightarrow> lamport_ok q"
proof -
  let ?p = "p\<lparr>lamportCounter := lamportCounter p + 1\<rparr>"
  from assms(3) obtain ts where ts: "CanonicalizeEventTimings (ev_timings e) = Inr ts"
    "\<not> stored p (ev_id e)" "q = insertOccurrence ?p (frozen_copy p e ts)"
    by (auto simp: addEventLocked_cases split: if_splits sum.splits)
  have p: "poset_ok ?p" using assms(1) by simp
  note ok = poset_okD [OF p]
  let ?e = "frozen_copy p e ts"
  have can: "canonical_timings (ev_timings ?e)" using Canonicalize_canonical [OF ts(1)] by simp
  have ns: "\<not> stored ?p (ev_id ?e)" "ev_id ?e \<noteq> ''''" using ts(2) assms(2) by simp_all
  note ins = insertOccurrence_ok [OF p ns can]
  have rq: "rep q = (\<lambda>i. if i = ev_id e then ev_id e else rep p i)"
    by (rule ext) (simp add: ts(3) insertOccurrence_rep [OF ok(1) ns(2)])
  show thesis
  proof (rule that [OF ts(1,2) _ _ _ _ rq])
    show "poset_ok q" "before q = before p" "lamport_ok p \<longrightarrow> lamport_ok q"
      using ins by (simp_all add: ts(3))
    show "class_rel q = class_rel p"
      using insertOccurrence_class_rel [OF ok(1,2) ns] by (simp add: ts(3))
    show "events q = fmupd (ev_id e) ?e (events p)" "pendingEdges q = pendingEdges p"
      "lamportCounter q = lamportCounter p + 1"
      by (simp_all add: ts(3) insertOccurrence_fields [OF ok(1)])
  qed
qed

lemma mergeEventLocked_cases:
  "mergeEventLocked p (Some e) =
     (if stored p (ev_id e) then (p, Some ErrEventExists)
      else case CanonicalizeEventTimings (ev_timings e) of
          Inl err \<Rightarrow> (p, Some err)
        | Inr ts \<Rightarrow>
            let q = insertOccurrence p (Freeze (e\<lparr>ev_timings := ts\<rparr>))
            in (q\<lparr>lamportCounter := max (lamportCounter q) (ev_lamport e)\<rparr>, None))"
  by (auto simp: mergeEventLocked_def Let_def ev_lamport_def max_def not_less split: sum.splits)

lemma NewPoset_ok: "poset_ok NewPoset" "\<not> stored NewPoset i" "lamport_ok NewPoset"
proof -
  have s: "\<not> stored NewPoset i" for i by (simp add: NewPoset_def map_has_def)
  have c: "class_ok NewPoset"
    by (auto simp: class_ok_def s) (simp_all add: NewPoset_def)
  have sh: "edges_shape NewPoset"
    by (simp add: edges_shape_def NewPoset_def map_get_def)
  have r: "class_rel NewPoset = {}"
    using class_rel_shape [OF c sh] by (auto simp: NewPoset_def map_get_def)
  have b: "before NewPoset = {}" by (simp add: before_def s)
  show "poset_ok NewPoset"
    using c sh by (simp add: poset_ok_def edges_ok_def r timing_ok_def b uniform_ok_def s events_ok_def
        timed_ids_def acyclic_def) (simp add: NewPoset_def)
  show "\<not> stored NewPoset i" by (rule s)
  show "lamport_ok NewPoset" by (simp add: lamport_ok_def r)
qed

section \<open>Properties\<close>

text \<open>C8: \<open>AddEvent\<close> on a well-formed poset, for an event with a nonempty ID.  It succeeds exactly
  for an unbound event with a new ID and valid intervals; an error leaves the poset untouched, and
  success stores the frozen, canonically timed event at the next Lamport position, keeps every
  invariant and the whole strict order.\<close>

theorem AddEvent_outcome:
  assumes "poset_ok p" "ev_id e \<noteq> ''''" "AddEvent p (Some e) = (q, r)"
  shows "(r = None \<longleftrightarrow> ev_expectedCauses e = [] \<and> \<not> stored p (ev_id e)
            \<and> (\<exists>ts. CanonicalizeEventTimings (ev_timings e) = Inr ts))
    \<and> (r \<noteq> None \<longrightarrow> q = p)
    \<and> (r = None \<longrightarrow> poset_ok q \<and> before q = before p \<and> (lamport_ok p \<longrightarrow> lamport_ok q)
          \<and> (\<exists>ts. CanonicalizeEventTimings (ev_timings e) = Inr ts
                \<and> events q = fmupd (ev_id e) (frozen_copy p e ts) (events p))
          \<and> lam q (ev_id e) = lamportCounter p + 1)"
proof (cases "ev_expectedCauses e = []")
  case False
  with assms(3) show ?thesis by (auto simp: AddEvent_def)
next
  case True
  then have add: "addEventLocked p (Some e) = (q, r)" using assms(3) by (simp add: AddEvent_def)
  show ?thesis
  proof (cases r)
    case (Some err)
    with add addEventLocked_error [of p "Some e" q err] show ?thesis
      by (auto simp: addEventLocked_cases split: if_splits sum.splits)
  next
    case None
    obtain ts where ts: "CanonicalizeEventTimings (ev_timings e) = Inr ts" "\<not> stored p (ev_id e)"
      "poset_ok q" "before q = before p" "events q = fmupd (ev_id e) (frozen_copy p e ts) (events p)"
      "lamport_ok p \<longrightarrow> lamport_ok q"
      by (rule addEventLocked_ok [OF assms(1,2) add [unfolded None]])
    then show ?thesis using None True by (auto simp: lam_def)
  qed
qed

text \<open>Two recorded occurrences, the smallest poset with something to order.\<close>

definition sample_event :: "event_id \<Rightarrow> event" where
  "sample_event i = (NewEvent i 0 ''tick'' ''src'' [])\<lparr>ev_id := i\<rparr>"

definition one_event :: poset where
  "one_event = fst (AddEvent NewPoset (Some (sample_event ''a'')))"

definition two_events :: poset where
  "two_events = fst (AddEvent one_event (Some (sample_event ''b'')))"

theorem AddEvent_outcome_witness:
  "snd (AddEvent NewPoset (Some (sample_event ''a''))) = None
   \<and> lam (fst (AddEvent NewPoset (Some (sample_event ''a'')))) ''a'' = 1
   \<and> poset_ok (fst (AddEvent NewPoset (Some (sample_event ''a''))))"
proof -
  have "snd (AddEvent NewPoset (Some (sample_event ''a''))) = None" by code_simp
  moreover have "ev_id (sample_event ''a'') = ''a''" by (simp add: sample_event_def)
  moreover have "lamportCounter NewPoset + 1 = 1" by (simp add: NewPoset_def)
  ultimately show ?thesis
    using AddEvent_outcome [OF NewPoset_ok(1), of "sample_event ''a''"] by (simp add: prod_eq_iff)
qed

lemma sample_event_run:
  "poset_ok p \<Longrightarrow> i \<noteq> '''' \<Longrightarrow> \<not> stored p i \<Longrightarrow>
     poset_ok (fst (AddEvent p (Some (sample_event i)))) \<and> stored (fst (AddEvent p (Some (sample_event i)))) i
     \<and> (lamport_ok p \<longrightarrow> lamport_ok (fst (AddEvent p (Some (sample_event i)))))"
proof -
  assume a: "poset_ok p" "i \<noteq> ''''" "\<not> stored p i"
  let ?e = "sample_event i"
  have e: "ev_id ?e = i" "ev_timings ?e = []" "ev_expectedCauses ?e = []"
    by (simp_all add: sample_event_def NewEvent_def Let_def)
  obtain q where q: "AddEvent p (Some ?e) = (q, None)" "addEventLocked p (Some ?e) = (q, None)"
    using a(3) by (simp add: AddEvent_def addEventLocked_cases e CanonicalizeEventTimings_def)
  obtain ts where "poset_ok q" "events q = fmupd (ev_id ?e) (frozen_copy p ?e ts) (events p)"
      "lamport_ok p \<longrightarrow> lamport_ok q"
    by (rule addEventLocked_ok [OF a(1) _ q(2)]) (use a(2) e in auto)
  then show ?thesis using q(1) by (simp add: map_has_def e)
qed

lemma two_events_ok: "poset_ok two_events" "lamport_ok two_events"
proof -
  have n: "\<not> stored one_event ''b''" by code_simp
  have "poset_ok one_event \<and> lamport_ok one_event"
    unfolding one_event_def by (simp add: sample_event_run NewPoset_ok)
  with n show "poset_ok two_events" "lamport_ok two_events"
    unfolding two_events_def by (simp_all add: sample_event_run)
qed

end
