(* ===== verification/Poset_Lamport.thy ===== *)
theory Poset_Lamport
  imports Poset_Insert "HOL-Library.Monad_Syntax"
begin

text \<open>
  Lamport positions of classes (\<open>causal_equivalence.go\<close>) and their propagation to descendants
  (\<open>propagateLamportLocked\<close> of \<open>poset.go\<close>).  Reading or writing a listed member that is not stored
  is a nil dereference, and in a corrupted state the worklist may never drain; both are \<^term>\<open>None\<close>.
  On a well-formed poset the propagation terminates: every enqueueing raises the position of a
  non-empty class, and positions are bounded by 64 bits.  What it leaves is ordered along every
  edge, unless a position reached the largest 64-bit value.
\<close>

fun maximumMemberLamport :: "poset \<Rightarrow> event_id list \<Rightarrow> u64 \<Rightarrow> u64 option" where
  "maximumMemberLamport p [] maximum = Some maximum"
| "maximumMemberLamport p (member # members) maximum =
     (case fmlookup (events p) member of
        None \<Rightarrow> None
      | Some e \<Rightarrow> maximumMemberLamport p members
                    (if ev_lamport e > maximum then ev_lamport e else maximum))"

definition maximumClassLamportLocked :: "poset \<Rightarrow> event_id \<Rightarrow> u64 option" where
  "maximumClassLamportLocked p representative =
     maximumMemberLamport p (causalClassMembersLocked p representative) 0"

fun setMembersLamport :: "poset \<Rightarrow> event_id list \<Rightarrow> u64 \<Rightarrow> poset option" where
  "setMembersLamport p [] v = Some p"
| "setMembersLamport p (member # members) v =
     (case fmlookup (events p) member of
        None \<Rightarrow> None
      | Some e \<Rightarrow> setMembersLamport (p\<lparr>events := fmupd member (set_lamport v e) (events p)\<rparr>) members v)"

definition setClassLamportLocked :: "poset \<Rightarrow> event_id \<Rightarrow> u64 \<Rightarrow> poset option" where
  "setClassLamportLocked p representative v =
     setMembersLamport p (causalClassMembersLocked p representative) v"

fun propagateSuccessors ::
    "poset \<Rightarrow> u64 \<Rightarrow> event_id list \<Rightarrow> event_id list \<Rightarrow> event_id fset
       \<Rightarrow> (poset \<times> event_id list \<times> event_id fset) option" where
  \<comment> \<open>the inner loop over the successors of the popped class\<close>
  "propagateSuccessors p currentLamport [] queue queued = Some (p, queue, queued)"
| "propagateSuccessors p currentLamport (succ # succs) queue queued =
     do {
       m \<leftarrow> maximumClassLamportLocked p succ;
       if currentLamport + 1 > m
       then do {
         p \<leftarrow> setClassLamportLocked p succ (currentLamport + 1);
         if succ |\<notin>| queued
         then propagateSuccessors p currentLamport succs (queue @ [succ]) (finsert succ queued)
         else propagateSuccessors p currentLamport succs queue queued
       }
       else propagateSuccessors p currentLamport succs queue queued
     }"

partial_function (option) propagateLoop ::
    "poset \<Rightarrow> event_id list \<Rightarrow> event_id fset \<Rightarrow> poset option" where
  "propagateLoop p queue queued =
     (case queue of
        [] \<Rightarrow> Some p
      | cur # queue \<Rightarrow>
          do {
            currentLamport \<leftarrow> maximumClassLamportLocked p cur;
            (p, queue, queued) \<leftarrow>
              propagateSuccessors p currentLamport (causalClassSuccessorsLocked p cur) queue
                (queued |-| {|cur|});
            propagateLoop p queue queued
          })"

declare propagateLoop.simps [code]

definition propagateLamportLocked :: "poset \<Rightarrow> event_id \<Rightarrow> poset option" where
  "propagateLamportLocked p i =
     (let i = causalRepresentativeLocked p i in propagateLoop p [i] {|i|})"

section \<open>One class\<close>

lemma maximumMemberLamport_Some:
  "\<forall>m \<in> set ms. stored p m \<Longrightarrow> maximumMemberLamport p ms v = Some (fold max (map (lam p) ms) v)"
proof (induction ms arbitrary: v)
  case (Cons m ms)
  then obtain e where e: "fmlookup (events p) m = Some e" by (auto simp: map_has_iff)
  then have "lam p m = ev_lamport e" by (simp add: lam_def)
  with Cons e show ?case by (auto simp: max_def not_less)
qed simp

lemma fold_max_const: "\<forall>x \<in> set xs. x = c \<Longrightarrow> fold max xs v = (if xs = [] then v else max c v)"
  for c :: "'a::linorder"
  by (induction xs arbitrary: v) (auto simp: max_def)

lemma class_list_nonempty: "class_ok p \<Longrightarrow> stored p i \<Longrightarrow> class_list p (rep p i) \<noteq> []"
  using set_class_list [of p "rep p i"] by force

lemma maximumClassLamport_ok:
  assumes "class_ok p" "uniform_ok p" "stored p r"
  shows "maximumClassLamportLocked p r = Some (lam p r)"
proof -
  have m: "causalClassMembersLocked p r = class_list p (rep p r)"
    using assms by (simp add: causalClassMembersLocked_ok)
  have "\<forall>x \<in> set (map (lam p) (class_list p (rep p r))). x = lam p r"
    using assms by (auto simp: set_class_list uniform_ok_def)
  then have "fold max (map (lam p) (class_list p (rep p r))) 0 = lam p r"
    using class_list_nonempty [OF assms(1,3)] by (subst fold_max_const [of _ "lam p r"]) auto
  then show ?thesis
    by (simp add: maximumClassLamportLocked_def m maximumMemberLamport_Some set_class_list)
qed

lemma setMembersLamport_Some:
  "\<forall>m \<in> set ms. stored p m \<Longrightarrow>
     \<exists>q. setMembersLamport p ms v = Some q \<and> same_shape p q
       \<and> (\<forall>i. lam q i = (if i \<in> set ms then v else lam p i))"
proof (induction ms arbitrary: p)
  case (Cons m ms)
  then obtain e where e: "fmlookup (events p) m = Some e" by (auto simp: map_has_iff)
  define p' where "p' = p\<lparr>events := fmupd m (set_lamport v e) (events p)\<rparr>"
  have shape: "same_shape p p'"
    using e by (auto simp: same_shape_def p'_def set_lamport_def)
  have lam': "lam p' i = (if i = m then v else lam p i)" for i
    by (simp add: lam_def p'_def)
  have "\<forall>m \<in> set ms. stored p' m"
    using Cons.prems by (simp add: same_shape_stored [OF shape])
  from Cons.IH [OF this] obtain q where q: "setMembersLamport p' ms v = Some q" "same_shape p' q"
    "\<forall>i. lam q i = (if i \<in> set ms then v else lam p' i)" by blast
  with e lam' same_shape_trans [OF shape q(2)] show ?case
    by (auto simp: p'_def [symmetric])
qed (simp add: same_shape_def)

lemma setClassLamport_ok:
  assumes "class_ok p" "uniform_ok p" "stored p r"
  obtains q where "setClassLamportLocked p r v = Some q" "same_shape p q" "uniform_ok q"
    "\<And>i. lam q i = (if stored p i \<and> rep p i = rep p r then v else lam p i)"
proof -
  have m: "causalClassMembersLocked p r = class_list p (rep p r)"
    using assms by (simp add: causalClassMembersLocked_ok)
  have "\<forall>m \<in> set (class_list p (rep p r)). stored p m" by (simp add: set_class_list)
  from setMembersLamport_Some [OF this, of v] obtain q where
    q: "setMembersLamport p (class_list p (rep p r)) v = Some q" "same_shape p q"
      "\<And>i. lam q i = (if i \<in> set (class_list p (rep p r)) then v else lam p i)"
    by blast
  have lq: "lam q i = (if stored p i \<and> rep p i = rep p r then v else lam p i)" for i
    using q(3) by (simp add: set_class_list)
  have u: "uniform_ok q"
    unfolding uniform_ok_def same_shape_stored [OF q(2)] same_shape_rep [OF q(2)]
  proof (intro allI impI)
    fix i
    assume i: "stored p i"
    note class_okD(3,4) [OF assms(1) i]
    moreover have "lam p i = lam p (rep p i)" using assms(2) i unfolding uniform_ok_def by blast
    ultimately show "lam q i = lam q (rep p i)" using i by (simp add: lq)
  qed
  have s: "setClassLamportLocked p r v = Some q" by (simp only: setClassLamportLocked_def m q(1))
  show thesis by (rule that [OF s q(2) u lq])
qed

section \<open>Termination measure and loop invariant\<close>

definition slack :: "poset \<Rightarrow> nat" where
  "slack p = (\<Sum>i \<in> fset (fmdom (events p)). unat (u64_max - lam p i))"

definition raised :: "poset \<Rightarrow> poset \<Rightarrow> bool" where
  "raised p q \<longleftrightarrow> same_shape p q \<and> uniform_ok q \<and> (\<forall>i. lam p i \<le> lam q i)"

lemma raised_trans: "raised p q \<Longrightarrow> raised q r \<Longrightarrow> raised p r"
  unfolding raised_def using same_shape_trans order_trans by blast

lemma raised_refl: "uniform_ok p \<Longrightarrow> raised p p"
  by (simp add: raised_def)

lemma unat_room: "unat (u64_max - (x::u64)) = unat u64_max - unat x"
  by (simp add: unat_sub word_order.extremum)

lemma slack_raised:
  assumes "raised p q"
  shows "slack q \<le> slack p" "stored p i \<Longrightarrow> lam p i < lam q i \<Longrightarrow> slack q < slack p"
proof -
  have dom: "fmdom (events q) = fmdom (events p)"
    using assms by (simp add: raised_def same_shape_dom)
  have le: "unat (u64_max - lam q i) \<le> unat (u64_max - lam p i)" for i
    using assms by (simp add: unat_room raised_def word_le_nat_alt diff_le_mono2)
  then show "slack q \<le> slack p" by (simp add: slack_def dom sum_mono)
  show "slack q < slack p" if "stored p i" "lam p i < lam q i"
    unfolding slack_def dom
  proof (rule sum_strict_mono_ex1)
    have "unat (lam p i) < unat (lam q i)" using that(2) by (simp add: word_less_nat_alt)
    moreover have "unat (lam q i) \<le> unat u64_max"
      by (simp add: word_le_nat_alt [symmetric] word_order.extremum)
    ultimately have "unat (u64_max - lam q i) < unat (u64_max - lam p i)"
      unfolding unat_room by linarith
    with that(1) show "\<exists>a \<in> fset (fmdom (events p)). unat (u64_max - lam q a) < unat (u64_max - lam p a)"
      by (auto simp: map_has_def)
  qed (use le in auto)
qed

definition ordered_upto :: "poset \<Rightarrow> (event_id \<times> event_id) set \<Rightarrow> bool" where
  \<comment> \<open>the only edges whose positions may be out of order are in the given set\<close>
  "ordered_upto p todo \<longleftrightarrow> (\<forall>(a, b) \<in> class_rel p. lam p a < lam p b \<or> (a, b) \<in> todo)"

definition loop_inv :: "poset \<Rightarrow> event_id list \<Rightarrow> event_id fset \<Rightarrow> bool" where
  "loop_inv p queue queued \<longleftrightarrow> class_ok p \<and> edges_ok p \<and> uniform_ok p
     \<and> fset queued = set queue \<and> distinct queue \<and> (\<forall>x \<in> set queue. stored p x \<and> rep p x = x)"

lemma raised_shape: "raised p q \<Longrightarrow> same_shape p q"
  by (simp add: raised_def)

lemma loop_inv_raised:
  "raised p q \<Longrightarrow> loop_inv p queue queued \<Longrightarrow> loop_inv q queue queued"
  by (simp add: loop_inv_def raised_def same_shape_class_ok [of p q] same_shape_edges_ok [of p q]
      same_shape_stored [of p q] same_shape_rep [of p q])

lemma raise_successor:
  assumes inv: "loop_inv p queue queued" and edge: "(cur, s) \<in> class_rel p" and c: "lam p cur = c"
    and up: "lam p s < c + 1"
  obtains q where "setClassLamportLocked p s (c + 1) = Some q" "raised p q" "slack q < slack p"
    "lam q cur = c" "maximumClassLamportLocked p s = Some (lam p s)"
    "c \<noteq> u64_max \<Longrightarrow> ordered_upto p (set queue \<times> UNIV \<union> {cur} \<times> set (s # ss)) \<Longrightarrow>
       ordered_upto q (insert s (set queue) \<times> UNIV \<union> {cur} \<times> set ss)"
proof -
  have ok: "class_ok p" "edges_ok p" "uniform_ok p" using inv by (simp_all add: loop_inv_def)
  note st = class_rel_stored [OF ok(1,2)]
  have s: "stored p s" "rep p s = s" "rep p cur = cur" "cur \<noteq> s" using st [OF edge] by auto
  obtain q where q: "setClassLamportLocked p s (c + 1) = Some q" "same_shape p q" "uniform_ok q"
    "\<And>i. lam q i = (if stored p i \<and> rep p i = rep p s then c + 1 else lam p i)"
    using setClassLamport_ok [OF ok(1,3) s(1)] by metis
  have mem: "lam p i = lam p s" if "stored p i" "rep p i = s" for i
    using ok(3) that unfolding uniform_ok_def by metis
  have "lam p i \<le> lam q i" for i
    using mem [of i] less_imp_le [OF up] s(2) by (simp add: q(4))
  then have r: "raised p q" using q(2,3) by (simp add: raised_def)
  have "slack q < slack p"
    by (rule slack_raised(2) [OF r s(1)]) (use up s in \<open>simp add: q(4)\<close>)
  moreover have "lam q cur = c" using s c by (simp add: q(4))
  moreover have "maximumClassLamportLocked p s = Some (lam p s)"
    by (rule maximumClassLamport_ok [OF ok(1,3) s(1)])
  moreover have "ordered_upto q (insert s (set queue) \<times> UNIV \<union> {cur} \<times> set ss)"
    if nmax: "c \<noteq> u64_max" and ord: "ordered_upto p (set queue \<times> UNIV \<union> {cur} \<times> set (s # ss))"
  proof -
    have "lam q a < lam q b \<or> (a, b) \<in> insert s (set queue) \<times> UNIV \<union> {cur} \<times> set ss"
      if ab: "(a, b) \<in> class_rel p" for a b
    proof (rule ccontr)
      assume no: "\<not> ?thesis"
      have lq: "lam q a = (if a = s then c + 1 else lam p a)" "lam q b = (if b = s then c + 1 else lam p b)"
        using st [OF ab] s(2) by (auto simp: q(4))
      have "lam p a < lam p b \<or> (a = cur \<and> b = s)"
        using ord ab no unfolding ordered_upto_def by auto
      then show False
        using no up c u64_less_succ [OF nmax] by (auto simp: lq split: if_splits)
    qed
    then show ?thesis by (auto simp: ordered_upto_def same_shape_class_rel [OF q(2)])
  qed
  ultimately show thesis using that q(1) r by blast
qed

lemma propagateSuccessors_ok:
  "\<lbrakk>loop_inv p queue queued; \<forall>s \<in> set succs. (cur, s) \<in> class_rel p; lam p cur = c\<rbrakk> \<Longrightarrow>
   \<exists>q queue' queued'. propagateSuccessors p c succs queue queued = Some (q, queue', queued')
     \<and> raised p q \<and> loop_inv q queue' queued' \<and> (queue' = queue \<or> slack q < slack p) \<and> lam q cur = c
     \<and> (c \<noteq> u64_max \<longrightarrow> ordered_upto p (set queue \<times> UNIV \<union> {cur} \<times> set succs) \<longrightarrow>
          ordered_upto q (set queue' \<times> UNIV))"
proof (induction succs arbitrary: p queue queued)
  case Nil
  then show ?case by (auto simp: raised_refl loop_inv_def)
next
  case (Cons s ss)
  have edge: "(cur, s) \<in> class_rel p" using Cons.prems(2) by simp
  have ok: "class_ok p" "edges_ok p" "uniform_ok p" using Cons.prems(1) by (simp_all add: loop_inv_def)
  have s: "stored p s" "rep p s = s" using class_rel_stored [OF ok(1,2) edge] by auto
  show ?case
  proof (cases "lam p s < c + 1")
    case True
    obtain p1 where p1: "setClassLamportLocked p s (c + 1) = Some p1" "raised p p1" "slack p1 < slack p"
      "lam p1 cur = c" "maximumClassLamportLocked p s = Some (lam p s)"
      "c \<noteq> u64_max \<Longrightarrow> ordered_upto p (set queue \<times> UNIV \<union> {cur} \<times> set (s # ss)) \<Longrightarrow>
         ordered_upto p1 (insert s (set queue) \<times> UNIV \<union> {cur} \<times> set ss)"
      using raise_successor [OF Cons.prems(1) edge Cons.prems(3) True, where ss = ss] by metis
    define qu where "qu = (if s |\<notin>| queued then queue @ [s] else queue)"
    define qd where "qd = (if s |\<notin>| queued then finsert s queued else queued)"
    have qs: "set qu = insert s (set queue)"
      using Cons.prems(1) by (auto simp: qu_def loop_inv_def)
    have "loop_inv p qu qd"
      using Cons.prems(1) s by (auto simp: loop_inv_def qu_def qd_def)
    then have inv1: "loop_inv p1 qu qd" by (rule loop_inv_raised [OF p1(2)])
    have succs1: "\<forall>s \<in> set ss. (cur, s) \<in> class_rel p1"
      using Cons.prems(2) by (simp add: same_shape_class_rel [OF raised_shape [OF p1(2)]])
    from Cons.IH [OF inv1 succs1 p1(4)] obtain q queue' queued' where
      q: "propagateSuccessors p1 c ss qu qd = Some (q, queue', queued')" "raised p1 q"
        "loop_inv q queue' queued'" "queue' = qu \<or> slack q < slack p1" "lam q cur = c"
        "c \<noteq> u64_max \<longrightarrow> ordered_upto p1 (set qu \<times> UNIV \<union> {cur} \<times> set ss) \<longrightarrow>
          ordered_upto q (set queue' \<times> UNIV)" by blast
    have "propagateSuccessors p c (s # ss) queue queued = Some (q, queue', queued')"
      using True p1(1,5) q(1) by (auto simp: qu_def qd_def)
    moreover have "slack q < slack p" using slack_raised(1) [OF q(2)] p1(3) by linarith
    ultimately show ?thesis
      using raised_trans [OF p1(2) q(2)] q(3,5,6) p1(6) qs by metis
  next
    case False
    have succs1: "\<forall>s \<in> set ss. (cur, s) \<in> class_rel p" using Cons.prems(2) by simp
    from Cons.IH [OF Cons.prems(1) succs1 Cons.prems(3)] obtain q queue' queued' where
      q: "propagateSuccessors p c ss queue queued = Some (q, queue', queued')" "raised p q"
        "loop_inv q queue' queued'" "queue' = queue \<or> slack q < slack p" "lam q cur = c"
        "c \<noteq> u64_max \<longrightarrow> ordered_upto p (set queue \<times> UNIV \<union> {cur} \<times> set ss) \<longrightarrow>
          ordered_upto q (set queue' \<times> UNIV)" by blast
    have step: "propagateSuccessors p c (s # ss) queue queued = Some (q, queue', queued')"
      using False q(1) by (simp add: maximumClassLamport_ok [OF ok(1,3) s(1)])
    have "ordered_upto p (set queue \<times> UNIV \<union> {cur} \<times> set ss)"
      if nmax: "c \<noteq> u64_max" and ord: "ordered_upto p (set queue \<times> UNIV \<union> {cur} \<times> set (s # ss))"
    proof -
      have "lam p cur < lam p s"
        using False u64_less_succ [OF nmax] Cons.prems(3) by simp
      with ord show ?thesis unfolding ordered_upto_def by fastforce
    qed
    with step q(2-6) show ?thesis by blast
  qed
qed

section \<open>The worklist terminates and restores the order\<close>

lemma propagateLoop_ok:
  "loop_inv p queue queued \<Longrightarrow>
   \<exists>q. propagateLoop p queue queued = Some q \<and> raised p q
     \<and> ((\<forall>i. stored p i \<longrightarrow> lam q i \<noteq> u64_max) \<longrightarrow> ordered_upto p (set queue \<times> UNIV) \<longrightarrow> lamport_ok q)"
proof (induction "(slack p, length queue)" arbitrary: p queue queued
    rule: wf_induct_rule [OF wf_lex_prod [OF wf_less_than wf_less_than]])
  case 1
  show ?case
  proof (cases queue)
    case Nil
    with "1.prems" show ?thesis
      by (auto simp: propagateLoop.simps loop_inv_def raised_refl ordered_upto_def lamport_ok_def)
  next
    case (Cons cur rest)
    have ok: "class_ok p" "edges_ok p" "uniform_ok p" and cur: "stored p cur"
      using "1.prems" Cons by (simp_all add: loop_inv_def)
    have inv: "loop_inv p rest (queued |-| {|cur|})"
      using "1.prems" Cons by (auto simp: loop_inv_def)
    have "\<forall>s \<in> set (causalClassSuccessorsLocked p cur). (cur, s) \<in> class_rel p"
      by (simp add: class_rel_iff)
    from propagateSuccessors_ok [OF inv this refl] obtain p1 queue' queued' where
      p1: "propagateSuccessors p (lam p cur) (causalClassSuccessorsLocked p cur) rest
             (queued |-| {|cur|}) = Some (p1, queue', queued')"
        "raised p p1" "loop_inv p1 queue' queued'" "queue' = rest \<or> slack p1 < slack p"
        "lam p1 cur = lam p cur"
        "lam p cur \<noteq> u64_max \<longrightarrow>
           ordered_upto p (set rest \<times> UNIV \<union> {cur} \<times> set (causalClassSuccessorsLocked p cur)) \<longrightarrow>
           ordered_upto p1 (set queue' \<times> UNIV)" by blast
    have "((slack p1, length queue'), slack p, length queue) \<in> less_than <*lex*> less_than"
      using p1(4) slack_raised(1) [OF p1(2)] Cons by auto
    from "1.hyps" [OF this p1(3)] obtain q where
      q: "propagateLoop p1 queue' queued' = Some q" "raised p1 q"
        "(\<forall>i. stored p1 i \<longrightarrow> lam q i \<noteq> u64_max) \<longrightarrow> ordered_upto p1 (set queue' \<times> UNIV) \<longrightarrow> lamport_ok q"
      by blast
    have "propagateLoop p queue queued = Some q"
      using p1(1) q(1)
      by (subst propagateLoop.simps) (simp add: Cons maximumClassLamport_ok [OF ok(1,3) cur])
    moreover have "lamport_ok q"
      if nmax: "\<forall>i. stored p i \<longrightarrow> lam q i \<noteq> u64_max" and ord: "ordered_upto p (set queue \<times> UNIV)"
    proof -
      have "lam p cur \<le> lam q cur" using p1(2) q(2) unfolding raised_def by (meson order_trans)
      with nmax cur have "lam p cur \<noteq> u64_max" by (metis word_order.extremum_uniqueI)
      moreover have "ordered_upto p (set rest \<times> UNIV \<union> {cur} \<times> set (causalClassSuccessorsLocked p cur))"
        using ord Cons unfolding ordered_upto_def by (auto simp: class_rel_iff)
      ultimately have "ordered_upto p1 (set queue' \<times> UNIV)" using p1(6) by blast
      with q(3) nmax show ?thesis by (simp add: same_shape_stored [OF raised_shape [OF p1(2)]])
    qed
    ultimately show ?thesis using raised_trans [OF p1(2) q(2)] by blast
  qed
qed

lemma propagateLamportLocked_ok:
  assumes "class_ok p" "edges_ok p" "uniform_ok p" "stored p i"
  obtains q where "propagateLamportLocked p i = Some q" "raised p q"
    "\<lbrakk>\<And>j. stored p j \<Longrightarrow> lam q j \<noteq> u64_max; ordered_upto p ({rep p i} \<times> UNIV)\<rbrakk> \<Longrightarrow> lamport_ok q"
proof -
  have "loop_inv p [rep p i] {|rep p i|}"
    using assms by (simp add: loop_inv_def rep_stored rep_rep)
  from propagateLoop_ok [OF this] that show thesis
    by (auto simp: propagateLamportLocked_def Let_def)
qed

end
