(* ===== verification/Poset_Causal.thy ===== *)
theory Poset_Causal
  imports Poset_Lamport
begin

text \<open>
  Adding strict causality (\<open>poset.go\<close>): the causal past and future as ID lists, the timing-closure
  check, \<open>AddCausal\<close>, \<open>AddEventWithCause\<close> and \<open>DrainPendingEdges\<close>.  The lemmas give the complete
  outcome of \<open>AddCausal\<close> on a well-formed poset, the relation it leaves, and the preservation of
  every invariant; \<open>AddEventWithCause\<close> is shown to be all-or-nothing although it adds the event
  before its edges.
\<close>

definition causalPredecessorIDsLocked :: "poset \<Rightarrow> event_id \<Rightarrow> event_id list" where
  "causalPredecessorIDsLocked p i =
     (let classes = reachableCausalClassesLocked p i False
      in sort_ids (filter (\<lambda>candidate. rep p candidate |\<in>| classes) (event_ids p)))"

definition causalSuccessorIDsLocked :: "poset \<Rightarrow> event_id \<Rightarrow> event_id list" where
  "causalSuccessorIDsLocked p i =
     (let classes = reachableCausalClassesLocked p i True
      in sort_ids (filter (\<lambda>candidate. rep p candidate |\<in>| classes) (event_ids p)))"

definition validateTimingClosureLocked :: "poset \<Rightarrow> event_id \<Rightarrow> event_id \<Rightarrow> go_error option" where
  "validateTimingClosureLocked p from to =
     (if timedEvents p = 0 then None
      else if list_ex (\<lambda>b. list_ex (\<lambda>a.
               sharedTimingConflict (fmlookup (events p) b) (fmlookup (events p) a))
             (causalSuccessorIDsLocked p to)) (causalPredecessorIDsLocked p from)
      then Some ErrTimingCausality else None)"

definition addCausalLocked ::
    "poset \<Rightarrow> event_id \<Rightarrow> event_id \<Rightarrow> (poset \<times> go_error option) option" where
  "addCausalLocked p from to =
     (if from = to then Some (p, Some ErrSelfCausal)
      else if \<not> stored p from then Some (p, Some ErrEventNotFound)
      else if \<not> stored p to then Some (p, Some ErrEventNotFound)
      else
        let p = ensureCausalClassesLocked p;
            from = causalRepresentativeLocked p from;
            to = causalRepresentativeLocked p to
        in if from = to then Some (p, Some ErrSelfCausal)
           else if to |\<in>| edges_of p from then Some (p, None)
           else if canReachLocked p to from then Some (p, Some ErrCyclicCausal)
           else (case validateTimingClosureLocked p from to of
               Some err \<Rightarrow> Some (p, Some err)
             | None \<Rightarrow> do {
                 successors \<leftarrow> fmlookup (causalEdges p) from;
                 predecessors \<leftarrow> fmlookup (reverseCausal p) to;
                 let p = p\<lparr>causalEdges := fmupd from (finsert to successors) (causalEdges p),
                           reverseCausal := fmupd to (finsert from predecessors) (reverseCausal p)\<rparr>;
                 lamportFrom \<leftarrow> maximumClassLamportLocked p from;
                 lamportTo \<leftarrow> maximumClassLamportLocked p to;
                 if lamportFrom + 1 > lamportTo
                 then do {
                   p \<leftarrow> setClassLamportLocked p to (lamportFrom + 1);
                   p \<leftarrow> propagateLamportLocked p to;
                   Some (p, None)
                 }
                 else Some (p, None)
               }))"

definition AddCausal :: "poset \<Rightarrow> event_id \<Rightarrow> event_id \<Rightarrow> (poset \<times> go_error option) option" where
  "AddCausal p from to = addCausalLocked p from to"

section \<open>Past, future and the timing closure\<close>

definition at_or_before :: "poset \<Rightarrow> event_id \<Rightarrow> event_id \<Rightarrow> bool" where
  \<comment> \<open>the causal preorder: equivalent or strictly before\<close>
  "at_or_before p a b \<longleftrightarrow> stored p a \<and> stored p b \<and> (rep p a, rep p b) \<in> (class_rel p)\<^sup>*"

lemma at_or_before_iff:
  "at_or_before p a b \<longleftrightarrow> stored p a \<and> stored p b \<and> (rep p a = rep p b \<or> (a, b) \<in> before p)"
  by (auto simp: at_or_before_def before_def rtrancl_eq_or_trancl)

lemma set_causalPredecessorIDs:
  assumes "class_ok p" "edges_ok p" "stored p i"
  shows "set (causalPredecessorIDsLocked p i) = {a. at_or_before p a i}"
  using assms
  by (auto simp: causalPredecessorIDsLocked_def Let_def reachableCausalClassesLocked_backward
      class_rel_rev_converse rtrancl_converse at_or_before_def map_has_def)

lemma set_causalSuccessorIDs:
  assumes "stored p i"
  shows "set (causalSuccessorIDsLocked p i) = {a. at_or_before p i a}"
  using assms
  by (auto simp: causalSuccessorIDsLocked_def Let_def reachableCausalClassesLocked_forward
      at_or_before_def map_has_def)

definition conflicting :: "poset \<Rightarrow> event_id \<Rightarrow> event_id \<Rightarrow> bool" where
  "conflicting p a b \<longleftrightarrow> sharedTimingConflict (fmlookup (events p) a) (fmlookup (events p) b)"

lemma no_timed_no_conflict:
  assumes "events_ok p" "timedEvents p = 0"
  shows "\<not> conflicting p a b"
proof -
  have "timed_ids p = {}" using assms by (simp add: events_ok_def)
  then have "fmlookup (events p) a = Some e \<Longrightarrow> ev_timings e = []" for e
    by (auto simp: timed_ids_def)
  then show ?thesis
    by (cases "fmlookup (events p) a") (auto simp: conflicting_def sharedTimingConflict_def split: option.splits)
qed

lemma validateTimingClosure_ok:
  assumes "class_ok p" "edges_ok p" "events_ok p" "stored p f" "stored p t"
  shows "validateTimingClosureLocked p f t =
    (if \<exists>a b. at_or_before p a f \<and> at_or_before p t b \<and> conflicting p a b
     then Some ErrTimingCausality else None)"
proof (cases "timedEvents p = 0")
  case True
  with no_timed_no_conflict [OF assms(3)] show ?thesis
    by (simp add: validateTimingClosureLocked_def)
next
  case False
  then show ?thesis
    by (auto simp: validateTimingClosureLocked_def list_ex_iff conflicting_def
        set_causalPredecessorIDs [OF assms(1,2,4)] set_causalSuccessorIDs [OF assms(5)])
qed

section \<open>One more edge\<close>

definition add_edge :: "poset \<Rightarrow> event_id \<Rightarrow> event_id \<Rightarrow> poset" where
  \<comment> \<open>the two map writes, for classes known to have an entry\<close>
  "add_edge p a b =
     p\<lparr>causalEdges := fmupd a (finsert b (edges_of p a)) (causalEdges p),
       reverseCausal := fmupd b (finsert a (redges_of p b)) (reverseCausal p)\<rparr>"

lemma add_edge_fields [simp]:
  "events (add_edge p a b) = events p" "causalClass (add_edge p a b) = causalClass p"
  "classMembers (add_edge p a b) = classMembers p" "timedEvents (add_edge p a b) = timedEvents p"
  "lamportCounter (add_edge p a b) = lamportCounter p"
  "pendingEdges (add_edge p a b) = pendingEdges p"
  "rep (add_edge p a b) = rep p" "lam (add_edge p a b) = lam p"
  "class_list (add_edge p a b) = class_list p"
  by (auto simp: add_edge_def fun_eq_iff causalRepresentativeLocked_def lam_def class_list_def)

lemma add_edge_ok:
  assumes ok: "class_ok p" "edges_ok p" "uniform_ok p"
    and ab: "stored p a" "stored p b" "rep p a = a" "rep p b = b" "a \<noteq> b" "(b, a) \<notin> (class_rel p)\<^sup>*"
  shows "class_ok (add_edge p a b)" "edges_ok (add_edge p a b)" "uniform_ok (add_edge p a b)"
    "class_rel (add_edge p a b) = insert (a, b) (class_rel p)"
proof -
  let ?q = "add_edge p a b"
  show c: "class_ok ?q" using ok(1) by (simp add: class_ok_def)
  show "uniform_ok ?q" using ok(3) by (simp add: uniform_ok_def)
  have e: "edges_of ?q x = (if x = a then finsert b (edges_of p a) else edges_of p x)"
    "redges_of ?q x = (if x = b then finsert a (redges_of p b) else redges_of p x)" for x
    by (simp_all add: add_edge_def)
  have "a |\<in>| fmdom (causalEdges p)" "b |\<in>| fmdom (reverseCausal p)"
    using ab edges_okD(1,2) [OF ok(2)] by (simp_all add: map_has_def)
  then have "fmdom (causalEdges ?q) = fmdom (events p)" "fmdom (reverseCausal ?q) = fmdom (events p)"
    using edges_okD(1,2) [OF ok(2)] by (auto simp: add_edge_def finsert_absorb)
  moreover have "y |\<in>| edges_of ?q x \<longleftrightarrow> x |\<in>| redges_of ?q y" for x y
    using edges_okD(3) [OF ok(2)] by (auto simp: e)
  moreover have "stored p x \<and> stored p y \<and> rep p x = x \<and> rep p y = y \<and> x \<noteq> y"
    if "y |\<in>| edges_of ?q x" for x y
    using that edges_okD(5) [OF ok(2), of y x] ab by (auto simp: e split: if_splits)
  ultimately have s: "edges_shape ?q" by (simp add: edges_shape_def)
  show r: "class_rel ?q = insert (a, b) (class_rel p)"
  proof -
    have "(x, y) \<in> class_rel ?q \<longleftrightarrow> (x, y) \<in> insert (a, b) (class_rel p)" for x y
      unfolding class_rel_shape [OF c s] by (auto simp: e class_rel_edges [OF ok(1,2)])
    then show ?thesis by auto
  qed
  show "edges_ok ?q"
    using s edges_okD(4) [OF ok(2)] ab(6) by (simp add: edges_ok_def r acyclic_insert)
qed

lemma before_add_edge:
  assumes "stored p a" "stored p b" "class_rel q = insert (rep p a, rep p b) (class_rel p)"
    "stored q = stored p" "rep q = rep p"
  shows "(x, y) \<in> before q \<longleftrightarrow> (x, y) \<in> before p \<or> at_or_before p x a \<and> at_or_before p b y"
  using assms(1,2) unfolding before_def at_or_before_def assms(3-5)
  by (auto simp: trancl_insert)

lemma before_add_edge_trancl:
  assumes "stored p a" "stored p b" "class_rel q = insert (rep p a, rep p b) (class_rel p)"
    "stored q = stored p" "rep q = rep p"
  shows "before p \<subseteq> before q" "(a, b) \<in> before q"
  using before_add_edge [OF assms] assms(1,2) by (auto simp: at_or_before_def)

section \<open>The outcome of AddCausal\<close>

text \<open>What \<open>AddCausal\<close> answers, stated over the causal order instead of the searches.\<close>

definition add_causal_outcome :: "poset \<Rightarrow> event_id \<Rightarrow> event_id \<Rightarrow> go_error option" where
  "add_causal_outcome p f t =
     (if f = t then Some ErrSelfCausal
      else if \<not> stored p f \<or> \<not> stored p t then Some ErrEventNotFound
      else if rep p f = rep p t then Some ErrSelfCausal
      else if (rep p f, rep p t) \<in> class_rel p then None
      else if (t, f) \<in> before p then Some ErrCyclicCausal
      else if \<exists>a b. at_or_before p a f \<and> at_or_before p t b \<and> conflicting p a b
        then Some ErrTimingCausality
      else None)"

text \<open>What a state after a successful \<open>AddCausal p f t\<close> looks like.\<close>

definition causal_added :: "poset \<Rightarrow> event_id \<Rightarrow> event_id \<Rightarrow> poset \<Rightarrow> bool" where
  "causal_added p f t q \<longleftrightarrow> poset_ok q \<and> stored q = stored p \<and> rep q = rep p
     \<and> class_rel q = insert (rep p f, rep p t) (class_rel p)
     \<and> (\<forall>i. lam p i \<le> lam q i)
     \<and> (\<forall>i. map_option (set_lamport 0) (fmlookup (events q) i)
            = map_option (set_lamport 0) (fmlookup (events p) i))
     \<and> lamportCounter q = lamportCounter p \<and> pendingEdges q = pendingEdges p
     \<and> (lamport_ok p \<and> (\<forall>i. stored p i \<longrightarrow> lam q i \<noteq> u64_max) \<longrightarrow> lamport_ok q)"

lemma at_or_before_rep:
  "class_ok p \<Longrightarrow> stored p f \<Longrightarrow> at_or_before p a (rep p f) \<longleftrightarrow> at_or_before p a f"
  "class_ok p \<Longrightarrow> stored p f \<Longrightarrow> at_or_before p (rep p f) a \<longleftrightarrow> at_or_before p f a"
  by (simp_all add: at_or_before_def rep_stored rep_rep)

lemma add_edge_timing_ok:
  assumes "poset_ok p" "stored p a" "stored p b" "class_rel q = insert (rep p a, rep p b) (class_rel p)"
    "stored q = stored p" "rep q = rep p"
    "\<And>x y. conflicting q x y = conflicting p x y"
    "\<And>x y. at_or_before p x a \<Longrightarrow> at_or_before p b y \<Longrightarrow> \<not> conflicting p x y"
  shows "timing_ok q"
  using poset_okD(4) [OF assms(1)] assms(7,8)
  unfolding timing_ok_def conflicting_def [symmetric]
  by (auto simp: before_add_edge [OF assms(2-6)])

lemma raised_after_edge:
  assumes "poset_ok p" "stored p a" "stored p b" "rep p a = a" "rep p b = b" "a \<noteq> b"
    "(b, a) \<notin> (class_rel p)\<^sup>*"
    "\<And>x y. at_or_before p x a \<Longrightarrow> at_or_before p b y \<Longrightarrow> \<not> conflicting p x y"
    "raised (add_edge p a b) q"
    "\<lbrakk>lamport_ok p; \<forall>i. stored p i \<longrightarrow> lam q i \<noteq> u64_max\<rbrakk> \<Longrightarrow> lamport_ok q"
  shows "causal_added p a b q"
proof -
  note ok = poset_okD [OF assms(1)]
  note e = add_edge_ok [OF ok(1,2,5) assms(2-7)]
  have shape: "same_shape (add_edge p a b) q" using assms(9) by (simp add: raised_def)
  have cr: "class_rel q = insert (rep p a, rep p b) (class_rel p)"
    using e(4) by (simp add: same_shape_class_rel [OF shape] assms(4,5))
  have rp: "rep q = rep p" using same_shape_rep [OF shape] by simp
  have st: "stored q = stored p" using same_shape_stored [OF shape] by simp
  have cf: "conflicting q x y = conflicting p x y" for x y
    using same_shape_conflict [OF shape] by (simp add: conflicting_def)
  have "events_ok (add_edge p a b)" using ok(3) by (simp add: events_ok_def timed_ids_def)
  then have "poset_ok q"
    unfolding poset_ok_def
    using e same_shape_class_ok [OF shape] same_shape_edges_ok [OF shape]
      same_shape_events_ok [OF shape] assms(9)
      add_edge_timing_ok [OF assms(1-3) cr st rp cf assms(8)]
    by (simp add: raised_def)
  moreover have "map_option (set_lamport 0) (fmlookup (events q) i)
      = map_option (set_lamport 0) (fmlookup (events p) i)" for i
    using shape by (simp add: same_shape_def)
  ultimately show ?thesis
    using assms(9,10) same_shape_fields(6,7) [OF shape]
    by (simp add: causal_added_def st rp cr raised_def)
qed

lemma addCausalLocked_new_edge:
  assumes p: "poset_ok p" and ab: "stored p a" "stored p b" "rep p a = a" "rep p b = b" "a \<noteq> b"
    "(b, a) \<notin> (class_rel p)\<^sup>*"
    and nc: "\<And>x y. at_or_before p x a \<Longrightarrow> at_or_before p b y \<Longrightarrow> \<not> conflicting p x y"
  defines "p1 \<equiv> add_edge p a b"
  obtains q where "do {
        lamportFrom \<leftarrow> maximumClassLamportLocked p1 a;
        lamportTo \<leftarrow> maximumClassLamportLocked p1 b;
        if lamportFrom + 1 > lamportTo
        then do { p2 \<leftarrow> setClassLamportLocked p1 b (lamportFrom + 1);
                  p3 \<leftarrow> propagateLamportLocked p2 b; Some (p3, None :: go_error option) }
        else Some (p1, None) } = Some (q, None)" "causal_added p a b q"
proof -
  note ok = poset_okD [OF p]
  note e = add_edge_ok [OF ok(1,2,5) ab, folded p1_def]
  have st1: "stored p1 a" "stored p1 b" "lam p1 = lam p" "rep p1 = rep p" "events p1 = events p"
    using ab by (simp_all add: p1_def)
  note mx = maximumClassLamport_ok [OF e(1,3) st1(1)] maximumClassLamport_ok [OF e(1,3) st1(2)]
  note finish = raised_after_edge [OF p ab nc, folded p1_def]
  have ordered: "ordered_upto p1 ({a} \<times> {b})" if "lamport_ok p"
    using that by (auto simp: ordered_upto_def e(4) lamport_ok_def st1)
  show thesis
  proof (cases "lam p a + 1 > lam p b")
    case False
    have "lam p a < lam p b" if "\<forall>i. stored p i \<longrightarrow> lam p i \<noteq> u64_max"
    proof -
      have "lam p a < lam p a + 1" using that ab(1) by (simp add: u64_less_succ)
      with False show ?thesis by simp
    qed
    then have "causal_added p a b p1"
      by (intro finish raised_refl e) (auto simp: lamport_ok_def e(4) st1)
    with False that mx show thesis by (simp add: st1)
  next
    case True
    obtain p2 where p2: "setClassLamportLocked p1 b (lam p a + 1) = Some p2" "same_shape p1 p2"
      "uniform_ok p2" "\<And>i. lam p2 i = (if stored p1 i \<and> rep p1 i = rep p1 b then lam p a + 1 else lam p1 i)"
      using setClassLamport_ok [OF e(1,3) st1(2)] by metis
    have mem: "lam p i = lam p b" if "stored p i" "rep p i = b" for i
      using ok(5) that unfolding uniform_ok_def by metis
    have r12: "raised p1 p2"
      using p2(2,3) mem less_imp_le [OF True] ab(4) by (simp add: raised_def p2(4) st1)
    have ok2: "class_ok p2" "edges_ok p2" "stored p2 b" "rep p2 b = b"
      using e(1,2) st1 ab by (simp_all add: same_shape_class_ok [OF p2(2)] same_shape_edges_ok [OF p2(2)]
          same_shape_stored [OF p2(2)] same_shape_rep [OF p2(2)])
    obtain p3 where p3: "propagateLamportLocked p2 b = Some p3" "raised p2 p3"
      "\<lbrakk>\<And>j. stored p2 j \<Longrightarrow> lam p3 j \<noteq> u64_max; ordered_upto p2 ({rep p2 b} \<times> UNIV)\<rbrakk> \<Longrightarrow> lamport_ok p3"
      using propagateLamportLocked_ok [OF ok2(1,2) p2(3) ok2(3)] by metis
    have "lamport_ok p3" if lo: "lamport_ok p" and nmax: "\<forall>i. stored p i \<longrightarrow> lam p3 i \<noteq> u64_max"
    proof (rule p3(3))
      show "lam p3 j \<noteq> u64_max" if "stored p2 j" for j
        using that nmax by (simp add: same_shape_stored [OF p2(2)] st1)
      have "lam p a \<le> lam p3 a"
        using raised_trans [OF r12 p3(2)] by (simp add: raised_def st1)
      then have "lam p a \<noteq> u64_max" using nmax ab(1) by (metis word_order.extremum_uniqueI)
      then have up: "lam p a < lam p a + 1" by (rule u64_less_succ)
      have "lam p2 x < lam p2 y \<or> x = b" if xy: "(x, y) \<in> class_rel p1" for x y
      proof -
        have xs: "stored p x" "rep p x = x" "stored p y" "rep p y = y"
          using class_rel_stored [OF e(1,2) xy] st1 by simp_all
        have "lam p x < lam p y \<or> (x, y) = (a, b)"
          using xy lo by (auto simp: e(4) lamport_ok_def)
        then show ?thesis using xs ab up True by (auto simp: p2(4) st1)
      qed
      then show "ordered_upto p2 ({rep p2 b} \<times> UNIV)"
        by (auto simp: ordered_upto_def same_shape_class_rel [OF p2(2)] ok2(4))
    qed
    then have "causal_added p a b p3" by (intro finish raised_trans [OF r12 p3(2)]) auto
    with True that mx p2(1) p3(1) show thesis by (simp add: st1)
  qed
qed

lemma causal_added_rep:
  "class_ok p \<Longrightarrow> stored p f \<Longrightarrow> stored p t \<Longrightarrow>
     causal_added p (rep p f) (rep p t) q \<longleftrightarrow> causal_added p f t q"
  by (simp add: causal_added_def rep_rep)

lemma addCausalLocked_ok:
  assumes p: "poset_ok p"
  obtains q where "addCausalLocked p f t = Some (q, add_causal_outcome p f t)"
    "add_causal_outcome p f t \<noteq> None \<Longrightarrow> q = p"
    "add_causal_outcome p f t = None \<Longrightarrow> causal_added p f t q"
proof -
  note ok = poset_okD [OF p]
  note defs = addCausalLocked_def add_causal_outcome_def Let_def ensure_ok [OF ok(1)]
  show thesis
  proof (cases "f = t \<or> \<not> stored p f \<or> \<not> stored p t \<or> rep p f = rep p t")
    case True
    then show thesis by (intro that [of p]) (auto simp: defs split: if_splits)
  next
    case False
    then have ft: "f \<noteq> t" "stored p f" "stored p t" "rep p f \<noteq> rep p t" by auto
    define a b where "a = rep p f" and "b = rep p t"
    have ab: "stored p a" "stored p b" "rep p a = a" "rep p b = b" "a \<noteq> b"
      using ft ok(1) by (simp_all add: a_def b_def rep_stored rep_rep)
    have edge: "b |\<in>| edges_of p a \<longleftrightarrow> (a, b) \<in> class_rel p"
      by (simp add: class_rel_edges [OF ok(1,2)])
    have reach: "canReachLocked p b a \<longleftrightarrow> (t, f) \<in> before p"
      using ft ab by (simp add: canReachLocked_def canReachClassLocked_iff before_def a_def b_def
          rep_rep [OF ok(1)] eq_commute)
    show thesis
    proof (cases "(a, b) \<in> class_rel p \<or> (t, f) \<in> before p")
      case True
      have "causal_added p f t p" if "(a, b) \<in> class_rel p"
        using that p by (simp add: causal_added_def insert_absorb a_def b_def)
      with True ft edge reach show thesis
        by (intro that [of p]) (auto simp: defs a_def b_def split: if_splits)
    next
      case nce: False
      have val: "validateTimingClosureLocked p a b =
          (if \<exists>x y. at_or_before p x f \<and> at_or_before p t y \<and> conflicting p x y
           then Some ErrTimingCausality else None)"
        using validateTimingClosure_ok [OF ok(1-3) ab(1,2)] at_or_before_rep [OF ok(1) ft(2)]
          at_or_before_rep [OF ok(1) ft(3)] by (simp add: a_def b_def)
      show thesis
      proof (cases "\<exists>x y. at_or_before p x f \<and> at_or_before p t y \<and> conflicting p x y")
        case True
        with ft edge reach nce val show thesis
          by (intro that [of p]) (auto simp: defs a_def b_def)
      next
        case nc: False
        have nba: "(b, a) \<notin> (class_rel p)\<^sup>*"
          using nce ft ab(5) by (auto simp: before_def a_def b_def rtrancl_eq_or_trancl)
        have nc': "\<And>x y. at_or_before p x a \<Longrightarrow> at_or_before p b y \<Longrightarrow> \<not> conflicting p x y"
          using nc at_or_before_rep [OF ok(1) ft(2)] at_or_before_rep [OF ok(1) ft(3)]
          by (auto simp: a_def b_def)
        have "map_has (causalEdges p) a" "map_has (reverseCausal p) b"
          using ab(1,2) edges_okD(1,2) [OF ok(2)] by (simp_all add: map_has_def)
        then obtain es rs where es: "fmlookup (causalEdges p) a = Some es"
          and rs: "fmlookup (reverseCausal p) b = Some rs"
          unfolding map_has_iff by blast
        have upd: "p\<lparr>causalEdges := fmupd a (finsert b es) (causalEdges p),
              reverseCausal := fmupd b (finsert a rs) (reverseCausal p)\<rparr> = add_edge p a b"
          using es rs by (simp add: add_edge_def map_get_Some)
        obtain q where q: "do {
              lamportFrom \<leftarrow> maximumClassLamportLocked (add_edge p a b) a;
              lamportTo \<leftarrow> maximumClassLamportLocked (add_edge p a b) b;
              if lamportFrom + 1 > lamportTo
              then do { p2 \<leftarrow> setClassLamportLocked (add_edge p a b) b (lamportFrom + 1);
                        p3 \<leftarrow> propagateLamportLocked p2 b; Some (p3, None :: go_error option) }
              else Some (add_edge p a b, None) } = Some (q, None)" "causal_added p a b q"
          by (rule addCausalLocked_new_edge [OF p ab nba nc'])
        have out: "add_causal_outcome p f t = None"
          using ft nce nc by (auto simp: add_causal_outcome_def a_def b_def)
        have "addCausalLocked p f t = Some (q, None)"
          using ft edge reach nce val nc es rs q(1) [folded upd]
          unfolding addCausalLocked_def Let_def ensure_ok [OF ok(1)] a_def [symmetric] b_def [symmetric]
          by simp
        moreover have "causal_added p f t q"
          using q(2) causal_added_rep [OF ok(1) ft(2,3)] by (simp add: a_def b_def)
        ultimately show thesis using that out by simp
      qed
    qed
  qed
qed

section \<open>Properties\<close>

text \<open>C1: On a well-formed poset \<open>AddCausal\<close> always returns, and its answer is the outcome the causal
  order dictates: a self edge, an unknown endpoint, a cycle or a clock conflict between the past of
  the source and the future of the target is rejected and changes nothing; everything else is
  accepted.\<close>

theorem AddCausal_outcome:
  assumes "poset_ok p"
  shows "\<exists>q. AddCausal p f t = Some (q, add_causal_outcome p f t)
    \<and> (add_causal_outcome p f t \<noteq> None \<longrightarrow> q = p)"
  using addCausalLocked_ok [OF assms, of f t] unfolding AddCausal_def by metis

theorem AddCausal_outcome_witness:
  "(\<exists>q. AddCausal two_events ''a'' ''a'' = Some (q, Some ErrSelfCausal) \<and> q = two_events)
   \<and> map_option snd (AddCausal two_events ''a'' ''b'') = Some None"
proof -
  have "add_causal_outcome two_events ''a'' ''a'' = Some ErrSelfCausal"
    by (simp add: add_causal_outcome_def)
  moreover have "map_option snd (AddCausal two_events ''a'' ''b'') = Some None" by code_simp
  ultimately show ?thesis
    using AddCausal_outcome [OF two_events_ok(1), of "''a''" "''a''"] by auto
qed

text \<open>C2: A successful \<open>AddCausal\<close> extends the strict order by exactly the pairs the new edge
  implies (everything at or before the source precedes everything at or after the target), keeps the
  events apart from their Lamport positions, which only rise, and every invariant; Lamport positions
  increase along the order again unless one reached the 64-bit maximum.\<close>

theorem AddCausal_extends_order:
  assumes "poset_ok p" "AddCausal p f t = Some (q, None)"
  shows "poset_ok q \<and> before q = before p \<union> {(x, y). at_or_before p x f \<and> at_or_before p t y}
    \<and> (f, t) \<in> before q
    \<and> (\<forall>i. lam p i \<le> lam q i \<and> map_option (set_lamport 0) (fmlookup (events q) i)
              = map_option (set_lamport 0) (fmlookup (events p) i))
    \<and> (lamport_ok p \<and> (\<forall>i. stored p i \<longrightarrow> lam q i \<noteq> u64_max) \<longrightarrow> lamport_ok q)"
proof -
  have out: "add_causal_outcome p f t = None" and ca: "causal_added p f t q"
    using addCausalLocked_ok [OF assms(1), of f t] assms(2) unfolding AddCausal_def by (metis option.inject prod.inject)+
  from out have st: "stored p f" "stored p t" by (auto simp: add_causal_outcome_def split: if_splits)
  note d = ca [unfolded causal_added_def]
  have "before q = before p \<union> {(x, y). at_or_before p x f \<and> at_or_before p t y}"
    using before_add_edge [OF st, of q] d by auto
  moreover have "(f, t) \<in> before q" using before_add_edge_trancl(2) [OF st, of q] d by simp
  ultimately show ?thesis using d by simp
qed

definition ordered_events :: poset where
  "ordered_events = (case AddCausal two_events ''a'' ''b'' of Some (q, _) \<Rightarrow> q | None \<Rightarrow> two_events)"

lemma ordered_events_run: "AddCausal two_events ''a'' ''b'' = Some (ordered_events, None)"
proof -
  have "map_option snd (AddCausal two_events ''a'' ''b'') = Some None" by code_simp
  then show ?thesis by (auto simp: ordered_events_def)
qed

theorem AddCausal_extends_order_witness:
  "(''a'', ''b'') \<in> before ordered_events \<and> lamport_ok ordered_events"
proof -
  have "list_all (\<lambda>i. lam ordered_events i \<noteq> u64_max) (event_ids two_events)" by code_simp
  then have "\<forall>i. stored two_events i \<longrightarrow> lam ordered_events i \<noteq> u64_max"
    by (auto simp: list_all_iff map_has_def)
  then show ?thesis
    using AddCausal_extends_order [OF two_events_ok(1) ordered_events_run] two_events_ok(2) by blast
qed

lemma ordered_events_ok: "poset_ok ordered_events" "lamport_ok ordered_events"
proof -
  obtain q where q: "addCausalLocked two_events ''a'' ''b'' = Some (q, add_causal_outcome two_events ''a'' ''b'')"
    "add_causal_outcome two_events ''a'' ''b'' = None \<longrightarrow> causal_added two_events ''a'' ''b'' q"
    using addCausalLocked_ok [OF two_events_ok(1), of "''a''" "''b''"] by metis
  with ordered_events_run have ca: "causal_added two_events ''a'' ''b'' ordered_events"
    by (simp add: AddCausal_def)
  have "list_all (\<lambda>i. lam ordered_events i \<noteq> u64_max) (event_ids two_events)" by code_simp
  then have "\<forall>i. stored two_events i \<longrightarrow> lam ordered_events i \<noteq> u64_max"
    by (auto simp: list_all_iff map_has_def)
  with ca two_events_ok(2) show "poset_ok ordered_events" "lamport_ok ordered_events"
    by (simp_all add: causal_added_def)
qed

text \<open>C6: Lamport propagation returns on every well-formed poset (the worklist loop terminates, also
  when a position is about to wrap), raises positions only, keeps the classes uniform and, where no
  position reached the 64-bit maximum, restores the order along all edges that leave the given
  class.\<close>

theorem propagateLamport_returns:
  assumes "poset_ok p" "stored p r" "rep p r = r"
  shows "\<exists>q. propagateLamportLocked p r = Some q \<and> same_shape p q \<and> uniform_ok q
    \<and> (\<forall>i. lam p i \<le> lam q i)
    \<and> ((\<forall>(x, y) \<in> class_rel p. x \<noteq> r \<longrightarrow> lam p x < lam p y) \<and> (\<forall>j. stored p j \<longrightarrow> lam q j \<noteq> u64_max)
         \<longrightarrow> lamport_ok q)"
proof -
  note ok = poset_okD [OF assms(1)]
  obtain q where q: "propagateLamportLocked p r = Some q" "raised p q"
    "\<lbrakk>\<And>j. stored p j \<Longrightarrow> lam q j \<noteq> u64_max; ordered_upto p ({rep p r} \<times> UNIV)\<rbrakk> \<Longrightarrow> lamport_ok q"
    using propagateLamportLocked_ok [OF ok(1,2,5) assms(2)] by metis
  have "lamport_ok q" if "\<forall>(x, y) \<in> class_rel p. x \<noteq> r \<longrightarrow> lam p x < lam p y"
    "\<forall>j. stored p j \<longrightarrow> lam q j \<noteq> u64_max"
    using that by (intro q(3)) (auto simp: ordered_upto_def assms(3))
  with q(1,2) show ?thesis by (simp add: raised_def)
qed

theorem propagateLamport_returns_witness:
  "\<exists>q. propagateLamportLocked ordered_events ''a'' = Some q \<and> lam ordered_events ''b'' \<le> lam q ''b''"
proof -
  have "stored ordered_events ''a''" "rep ordered_events ''a'' = ''a''" by code_simp+
  with propagateLamport_returns [OF ordered_events_ok(1)] show ?thesis by blast
qed

end
