(* ===== verification/Poset_Growth.thy ===== *)
theory Poset_Growth
  imports Poset_Causal
begin

text \<open>
  Growing a computation (\<open>poset.go\<close>): \<open>AddEventWithCause\<close>, the usual way to record an occurrence,
  and \<open>DrainPendingEdges\<close>, which retries buffered remote edges.
\<close>

definition eventIDSlicesEqual :: "event_id list \<Rightarrow> event_id list \<Rightarrow> bool" where
  "eventIDSlicesEqual a b = (length a = length b \<and> list_all2 (=) a b)"

fun addCausesLocked :: "poset \<Rightarrow> event_id list \<Rightarrow> event_id \<Rightarrow> (poset \<times> go_error option) option" where
  "addCausesLocked p [] i = Some (p, None)"
| "addCausesLocked p (cid # causes) i =
     do {
       (p, err) \<leftarrow> addCausalLocked p cid i;
       (case err of Some e \<Rightarrow> Some (p, Some e) | None \<Rightarrow> addCausesLocked p causes i)
     }"

definition AddEventWithCause ::
    "poset \<Rightarrow> event option \<Rightarrow> event_id list \<Rightarrow> (poset \<times> go_error option) option" where
  "AddEventWithCause p ev causes = (case ev of
      None \<Rightarrow> Some (p, Some ErrEventNotFound)
    | Some e \<Rightarrow>
        (case CanonicalizeEventTimings (ev_timings e) of
           Inl err \<Rightarrow> Some (p, Some err)
         | Inr timings \<Rightarrow>
             let e = e\<lparr>ev_timings := timings\<rparr>
             in if length (ev_expectedCauses e) > 0
                   \<and> \<not> eventIDSlicesEqual (remdups_adj (sort_ids causes)) (ev_expectedCauses e)
                then Some (p, Some ErrCauseMismatch)
                else if list_ex (\<lambda>cid. \<not> stored p cid) causes
                then Some (p, Some ErrEventNotFound)
                else if length (ev_timings e) \<noteq> 0
                   \<and> list_ex (\<lambda>cause. list_ex (\<lambda>predecessor.
                          sharedTimingConflict (fmlookup (events p) predecessor) (Some e))
                        (causalPredecessorIDsLocked p cause)) causes
                then Some (p, Some ErrTimingCausality)
                else (case addEventLocked p (Some e) of
                    (p, Some err) \<Rightarrow> Some (p, Some err)
                  | (p, None) \<Rightarrow> addCausesLocked p causes (ev_id e))))"

fun drainLoop ::
    "poset \<Rightarrow> pending_edge list \<Rightarrow> pending_edge list \<Rightarrow> go_error list \<Rightarrow> nat
       \<Rightarrow> (poset \<times> pending_edge list \<times> go_error list \<times> nat) option" where
  "drainLoop p [] remaining errs resolved = Some (p, remaining, errs, resolved)"
| "drainLoop p (pe # pes) remaining errs resolved =
     (if \<not> stored p (pe_from pe) \<or> \<not> stored p (pe_to pe)
      then drainLoop p pes (remaining @ [pe]) errs resolved
      else do {
        (p, err) \<leftarrow> addCausalLocked p (pe_from pe) (pe_to pe);
        (case err of Some e \<Rightarrow> drainLoop p pes remaining (errs @ [e]) resolved
         | None \<Rightarrow> drainLoop p pes remaining errs (resolved + 1))
      })"

definition DrainPendingEdges :: "poset \<Rightarrow> (poset \<times> nat \<times> go_error list) option" where
  "DrainPendingEdges p =
     do {
       (p, remaining, errs, resolved) \<leftarrow> drainLoop p (pendingEdges p) [] [] 0;
       Some (p\<lparr>pendingEdges := remaining\<rparr>, resolved, errs)
     }"

section \<open>Comparing ID slices\<close>

lemma eventIDSlicesEqual_iff [simp]: "eventIDSlicesEqual a b \<longleftrightarrow> a = b"
  by (auto simp: eventIDSlicesEqual_def list.rel_eq)

section \<open>The edges of a new occurrence\<close>

text \<open>
  The state after \<open>n\<close> was stored with intervals \<open>ts\<close> and received edges from the causes \<open>cs\<close>.
\<close>

definition grown :: "poset \<Rightarrow> event_id \<Rightarrow> event_timing list \<Rightarrow> event_id set \<Rightarrow> poset \<Rightarrow> bool" where
  "grown p n ts cs q \<longleftrightarrow> poset_ok q \<and> (\<forall>i. stored q i \<longleftrightarrow> i = n \<or> stored p i)
     \<and> (\<forall>i. rep q i = (if i = n then n else rep p i))
     \<and> class_rel q = class_rel p \<union> (\<lambda>c. (rep p c, n)) ` cs
     \<and> (\<forall>i. map_option ev_timings (fmlookup (events q) i) =
            (if i = n then Some ts else map_option ev_timings (fmlookup (events p) i)))
     \<and> pendingEdges q = pendingEdges p \<and> lamportCounter q = lamportCounter p + 1
     \<and> (\<forall>i. lam p i \<le> lam q i)
     \<and> (lamport_ok p \<and> (\<forall>i. stored q i \<longrightarrow> lam q i \<noteq> u64_max) \<longrightarrow> lamport_ok q)"

lemma rtrancl_sink:
  assumes "(x, y) \<in> (r \<union> s)\<^sup>*" "y \<noteq> n" "\<And>a b. (a, b) \<in> s \<Longrightarrow> b = n" "\<And>b. (n, b) \<notin> r \<union> s"
  shows "(x, y) \<in> r\<^sup>*"
  using assms(1,2)
proof (induction rule: rtrancl_induct)
  case (step y z)
  then have "(y, z) \<in> r" "y \<noteq> n" using assms(3,4) by auto
  with step show ?case by (auto intro: rtrancl_into_rtrancl)
qed simp

lemma grown_no_successor:
  assumes "poset_ok p" "\<not> stored p n" "grown p n ts cs q" "\<forall>c \<in> cs. stored p c"
  shows "(n, b) \<notin> class_rel q"
proof
  assume "(n, b) \<in> class_rel q"
  then consider "(n, b) \<in> class_rel p" | c where "c \<in> cs" "n = rep p c" "b = n"
    using assms(3) by (auto simp: grown_def)
  then show False
  proof cases
    case 1
    then show False using class_rel_stored [OF poset_okD(1,2) [OF assms(1)]] assms(2) by blast
  next
    case 2
    then show False using assms(2,4) rep_stored [OF poset_okD(1) [OF assms(1)]] by metis
  qed
qed

lemma grown_past:
  assumes "poset_ok p" "\<not> stored p n" "grown p n ts cs q" "\<forall>c \<in> cs. stored p c" "stored p c"
    "at_or_before q x c"
  shows "at_or_before p x c" "x \<noteq> n"
proof -
  note g = assms(3) [unfolded grown_def]
  have cn: "c \<noteq> n" using assms(2,5) by metis
  have rc: "rep p c \<noteq> n" using assms(2,5) rep_stored [OF poset_okD(1) [OF assms(1)]] by metis
  have path: "(rep q x, rep p c) \<in> (class_rel p \<union> (\<lambda>c. (rep p c, n)) ` cs)\<^sup>*"
    using assms(6) g cn by (simp add: at_or_before_def)
  have "(n, b) \<notin> class_rel p \<union> (\<lambda>c. (rep p c, n)) ` cs" for b
    using grown_no_successor [OF assms(1-4)] g by metis
  from rtrancl_sink [OF path rc _ this] have old: "(rep q x, rep p c) \<in> (class_rel p)\<^sup>*" by auto
  show "x \<noteq> n"
  proof
    assume "x = n"
    then have "(n, rep p c) \<in> (class_rel p)\<^sup>*" using old g by simp
    then show False using rc
      by (metis converse_rtranclE class_rel_stored poset_okD(1,2) assms(1,2))
  qed
  then show "at_or_before p x c" using old assms(5,6) g by (auto simp: at_or_before_def)
qed

lemma grown_future:
  assumes "poset_ok p" "\<not> stored p n" "grown p n ts cs q" "\<forall>c \<in> cs. stored p c" "at_or_before q n y"
  shows "y = n"
proof -
  note g = assms(3) [unfolded grown_def]
  have "(n, rep q y) \<in> (class_rel q)\<^sup>*" using assms(5) g by (simp add: at_or_before_def)
  then have "rep q y = n"
    by (cases rule: converse_rtranclE) (use grown_no_successor [OF assms(1-4)] in auto)
  then show ?thesis
    using assms(2,5) g rep_stored [OF poset_okD(1) [OF assms(1)], of y]
    by (auto simp: at_or_before_def split: if_splits)
qed

lemma grown_step:
  assumes p: "poset_ok p" "\<not> stored p n" and g: "grown p n ts cs q" "\<forall>c \<in> cs. stored p c"
    and c: "stored p c"
    and nc: "\<And>x. at_or_before p x c \<Longrightarrow>
       \<not> sharedTimingConflict (fmlookup (events p) x) (Some e)" "ev_timings e = ts"
  obtains q' where "addCausalLocked q c n = Some (q', None)" "grown p n ts (insert c cs) q'"
proof -
  note gd = g(1) [unfolded grown_def]
  have q: "poset_ok q" using gd by blast
  have cn: "c \<noteq> n" "rep p c \<noteq> n"
    using p c rep_stored [OF poset_okD(1) [OF p(1)]] by metis+
  have st: "stored q c" "stored q n" "rep q c = rep p c" "rep q n = n" using gd c cn by auto
  have nb: "(n, c) \<notin> before q"
  proof
    assume "(n, c) \<in> before q"
    then have "(n, rep p c) \<in> (class_rel q)\<^sup>+" using st by (simp add: before_def)
    then show False using grown_no_successor [OF p g] by (meson tranclD)
  qed
  have conf: "\<not> conflicting q x y" if "at_or_before q x c" "at_or_before q n y" for x y
  proof -
    have "y = n" by (rule grown_future [OF p g that(2)])
    moreover note past = grown_past [OF p g c that(1)]
    have "map_option ev_timings (fmlookup (events q) n) = map_option ev_timings (Some e)"
      "map_option ev_timings (fmlookup (events q) x) = map_option ev_timings (fmlookup (events p) x)"
      using gd past(2) nc(2) by auto
    ultimately show ?thesis
      using nc(1) [OF past(1)] by (simp only: conflicting_def sharedTimingConflict_timings not_False_eq_True)
  qed
  have out: "add_causal_outcome q c n = None"
    using cn st nb conf by (auto simp: add_causal_outcome_def)
  obtain q' where q': "addCausalLocked q c n = Some (q', None)" "causal_added q c n q'"
    using addCausalLocked_ok [OF q, of c n] out by metis
  note ca = q'(2) [unfolded causal_added_def]
  have "map_option ev_timings (fmlookup (events q') i) = map_option ev_timings (fmlookup (events q) i)" for i
  proof -
    have "map_option (set_lamport 0) (fmlookup (events q') i) = map_option (set_lamport 0) (fmlookup (events q) i)"
      using ca by blast
    then have "map_option ev_timings (map_option (set_lamport 0) (fmlookup (events q') i))
        = map_option ev_timings (map_option (set_lamport 0) (fmlookup (events q) i))" by simp
    then show ?thesis by (simp add: option.map_comp comp_def)
  qed
  moreover have "lamport_ok q'"
    if "lamport_ok p" "\<forall>i. stored q' i \<longrightarrow> lam q' i \<noteq> u64_max"
  proof -
    have "lam q i \<noteq> u64_max" if "stored q i" for i
    proof -
      have "stored q' i" "lam q i \<le> lam q' i" using ca that by simp_all
      with \<open>\<forall>i. stored q' i \<longrightarrow> lam q' i \<noteq> u64_max\<close> show ?thesis by (metis word_order.extremum_uniqueI)
    qed
    with that gd ca show ?thesis by auto
  qed
  moreover have "class_rel q' = class_rel p \<union> (\<lambda>c. (rep p c, n)) ` insert c cs"
    using ca gd st by auto
  moreover have "lam p i \<le> lam q' i" for i
  proof -
    have "lam p i \<le> lam q i" using gd by simp
    also have "\<dots> \<le> lam q' i" using ca by simp
    finally show ?thesis .
  qed
  ultimately have "grown p n ts (insert c cs) q'"
    using ca gd unfolding grown_def by simp
  with q'(1) that show thesis by blast
qed

lemma addCausesLocked_ok:
  assumes p: "poset_ok p" "\<not> stored p n"
    and nc: "\<And>c x. c \<in> set causes \<Longrightarrow> at_or_before p x c \<Longrightarrow>
       \<not> sharedTimingConflict (fmlookup (events p) x) (Some e)" "ev_timings e = ts"
  shows "grown p n ts cs q \<Longrightarrow> \<forall>c \<in> cs \<union> set causes. stored p c \<Longrightarrow>
    \<exists>q'. addCausesLocked q causes n = Some (q', None) \<and> grown p n ts (cs \<union> set causes) q'"
  using nc(1)
proof (induction causes arbitrary: cs q)
  case Nil
  then show ?case by simp
next
  case (Cons c causes)
  have pre: "\<forall>c \<in> cs. stored p c" "stored p c" using Cons.prems(2) by auto
  obtain q1 where q1: "addCausalLocked q c n = Some (q1, None)" "grown p n ts (insert c cs) q1"
    using grown_step [OF p Cons.prems(1) pre] Cons.prems(3) nc(2) by (metis list.set_intros(1))
  have "\<exists>q'. addCausesLocked q1 causes n = Some (q', None)
      \<and> grown p n ts (insert c cs \<union> set causes) q'"
    by (rule Cons.IH [OF q1(2)]) (use Cons.prems in auto)
  with q1(1) show ?case by auto
qed

lemma grown_start:
  assumes "poset_ok p" "ev_id e \<noteq> ''''" "addEventLocked p (Some e) = (q, None)"
    "canonical_timings (ev_timings e)"
  shows "grown p (ev_id e) (ev_timings e) {} q" "\<not> stored p (ev_id e)"
proof -
  obtain ts where ts: "CanonicalizeEventTimings (ev_timings e) = Inr ts" "\<not> stored p (ev_id e)"
    "poset_ok q" "before q = before p" "class_rel q = class_rel p"
    "events q = fmupd (ev_id e) (frozen_copy p e ts) (events p)"
    "rep q = (\<lambda>i. if i = ev_id e then ev_id e else rep p i)" "pendingEdges q = pendingEdges p"
    "lamportCounter q = lamportCounter p + 1" "lamport_ok p \<longrightarrow> lamport_ok q"
    by (rule addEventLocked_ok [OF assms(1-3)])
  have tse: "ts = ev_timings e" using ts(1) Canonicalize_fixpoint [OF assms(4)] by simp
  show "\<not> stored p (ev_id e)" by (rule ts(2))
  have l: "\<forall>i. lam p i \<le> lam q i"
    using ts(2) by (auto simp: lam_def ts(6) map_lookup_absent)
  show "grown p (ev_id e) (ev_timings e) {} q"
    unfolding grown_def using ts(3,10) l
    by (simp add: ts(5-9) tse)
qed

text \<open>
  The outcome of \<open>AddEventWithCause\<close>: an error leaves the poset untouched; success is the new
  occurrence, preceded by exactly the causes and their pasts.
\<close>

lemma AddEventWithCause_total:
  assumes p: "poset_ok p" and ne: "ev_id e \<noteq> ''''"
  shows "(\<exists>err. AddEventWithCause p (Some e) causes = Some (p, Some err))
    \<or> (\<exists>q ts. AddEventWithCause p (Some e) causes = Some (q, None)
          \<and> CanonicalizeEventTimings (ev_timings e) = Inr ts \<and> \<not> stored p (ev_id e)
          \<and> (\<forall>c \<in> set causes. stored p c) \<and> grown p (ev_id e) ts (set causes) q)"
proof (cases "CanonicalizeEventTimings (ev_timings e)")
  case (Inl err)
  then show ?thesis by (simp add: AddEventWithCause_def)
next
  case (Inr ts)
  define e' where "e' = e\<lparr>ev_timings := ts\<rparr>"
  have e': "ev_id e' = ev_id e" "ev_timings e' = ts" by (simp_all add: e'_def)
  have can: "canonical_timings (ev_timings e')"
    using Canonicalize_canonical [OF Inr] by (simp add: e')
  note ok = poset_okD [OF p]
  show ?thesis
  proof (cases "(length (ev_expectedCauses e') > 0
        \<and> \<not> eventIDSlicesEqual (remdups_adj (sort_ids causes)) (ev_expectedCauses e'))
      \<or> list_ex (\<lambda>cid. \<not> stored p cid) causes
      \<or> (length (ev_timings e') \<noteq> 0 \<and> list_ex (\<lambda>cause. list_ex (\<lambda>predecessor.
            sharedTimingConflict (fmlookup (events p) predecessor) (Some e'))
          (causalPredecessorIDsLocked p cause)) causes)")
    case True
    then have "\<exists>err. AddEventWithCause p (Some e) causes = Some (p, Some err)"
      by (auto simp: AddEventWithCause_def Inr Let_def e'_def)
    then show ?thesis ..
  next
    case False
    then have st: "\<forall>c \<in> set causes. stored p c" by (auto simp: list_ex_iff)
    have run: "AddEventWithCause p (Some e) causes =
        (case addEventLocked p (Some e') of
           (p, Some err) \<Rightarrow> Some (p, Some err) | (p, None) \<Rightarrow> addCausesLocked p causes (ev_id e'))"
      using False unfolding AddEventWithCause_def by (auto simp: Inr Let_def e'_def [symmetric])
    have nc: "\<not> sharedTimingConflict (fmlookup (events p) x) (Some e')"
      if "c \<in> set causes" "at_or_before p x c" for c x
    proof (cases "ev_timings e' = []")
      case nonempty: False
      have "x \<in> set (causalPredecessorIDsLocked p c)"
        using that st set_causalPredecessorIDs [OF ok(1,2)] by auto
      with False nonempty that(1) show ?thesis by (auto simp: list_ex_iff)
    qed simp
    show ?thesis
    proof (cases "addEventLocked p (Some e')")
      case (Pair q r)
      show ?thesis
      proof (cases r)
        case (Some err)
        with Pair run addEventLocked_error [of p "Some e'" q err] show ?thesis by auto
      next
        case None
        have add: "addEventLocked p (Some e') = (q, None)" using Pair None by simp
        note start = grown_start [OF p _ add can, unfolded e']
        have "\<exists>q'. addCausesLocked q causes (ev_id e) = Some (q', None)
            \<and> grown p (ev_id e) ts ({} \<union> set causes) q'"
          by (rule addCausesLocked_ok [OF p start(2) nc e'(2) start(1)]) (use ne st in auto)
        then show ?thesis using run add start(2) ne st Inr by (auto simp: e')
      qed
    qed
  qed
qed

lemma grown_before:
  assumes "poset_ok p" "\<not> stored p n" "grown p n ts cs q" "\<forall>c \<in> cs. stored p c"
  shows "(x, y) \<in> before q \<longleftrightarrow> (x, y) \<in> before p \<or> (y = n \<and> (\<exists>c \<in> cs. at_or_before p x c))"
proof -
  note g = assms(3) [unfolded grown_def]
  note ok = poset_okD [OF assms(1)]
  have nosucc: "(n, b) \<notin> class_rel q" for b by (rule grown_no_successor [OF assms])
  have repn: "stored p i \<Longrightarrow> rep p i \<noteq> n \<and> i \<noteq> n" for i
    using assms(2) rep_stored [OF ok(1)] by metis
  have into: "b = n" if "(a, b) \<in> (\<lambda>c. (rep p c, n)) ` cs" for a b using that by auto
  show ?thesis
  proof
    assume xy: "(x, y) \<in> before q"
    then have st: "stored q x" "stored q y" and path: "(rep q x, rep q y) \<in> (class_rel q)\<^sup>+"
      by (auto simp: before_def)
    have xn: "x \<noteq> n" using path nosucc g by (metis tranclD)
    from path obtain z where z: "(rep q x, z) \<in> (class_rel q)\<^sup>*" "(z, rep q y) \<in> class_rel q"
      by (meson tranclD2)
    have zn: "z \<noteq> n" using z(2) nosucc by blast
    have old: "(rep p x, z) \<in> (class_rel p)\<^sup>*"
      using rtrancl_sink [of "rep q x" z "class_rel p" "(\<lambda>c. (rep p c, n)) ` cs" n] z(1) zn into nosucc g xn
      by auto
    show "(x, y) \<in> before p \<or> (y = n \<and> (\<exists>c \<in> cs. at_or_before p x c))"
    proof (cases "(z, rep q y) \<in> class_rel p")
      case True
      then have "y \<noteq> n" using class_rel_stored [OF ok(1,2) True] assms(2) g by metis
      with True old xn st g show ?thesis by (auto simp: before_def intro: rtrancl_into_trancl1)
    next
      case False
      then obtain c where c: "c \<in> cs" "z = rep p c" "rep q y = n" using z(2) g by auto
      have "y = n" using c(3) st(2) g repn [of y] by (auto split: if_splits)
      with c old xn st g assms(4) show ?thesis by (auto simp: at_or_before_def)
    qed
  next
    assume "(x, y) \<in> before p \<or> (y = n \<and> (\<exists>c \<in> cs. at_or_before p x c))"
    then show "(x, y) \<in> before q"
    proof
      assume "(x, y) \<in> before p"
      then have st: "stored p x" "stored p y" and path: "(rep p x, rep p y) \<in> (class_rel p)\<^sup>+"
        by (auto simp: before_def)
      have "class_rel p \<subseteq> class_rel q" using g by auto
      with path have "(rep p x, rep p y) \<in> (class_rel q)\<^sup>+" by (rule trancl_mono)
      moreover have "stored q x" "stored q y" "rep q x = rep p x" "rep q y = rep p y"
        using st g repn by auto
      ultimately show ?thesis by (simp add: before_def)
    next
      assume "y = n \<and> (\<exists>c \<in> cs. at_or_before p x c)"
      then obtain c where c: "y = n" "c \<in> cs" "at_or_before p x c" by blast
      have "class_rel p \<subseteq> class_rel q" "(rep p c, n) \<in> class_rel q" using g c(2) by auto
      moreover have "(rep p x, rep p c) \<in> (class_rel p)\<^sup>*" using c(3) by (simp add: at_or_before_def)
      ultimately have "(rep p x, n) \<in> (class_rel q)\<^sup>+"
        by (meson rtrancl_into_trancl1 rtrancl_mono subsetD)
      moreover have "stored q x" "stored q n" "rep q x = rep p x" "rep q n = n"
        using c(3) g repn [of x] by (auto simp: at_or_before_def)
      ultimately show ?thesis using c(1) by (simp add: before_def)
    qed
  qed
qed

section \<open>Draining the buffered edges\<close>

lemma causal_added_before:
  assumes "causal_added p f t q" "stored p f" "stored p t"
  shows "before p \<subseteq> before q" "(f, t) \<in> before q"
    "(x, y) \<in> before q \<longleftrightarrow> (x, y) \<in> before p \<or> at_or_before p x f \<and> at_or_before p t y"
  using assms before_add_edge_trancl [of p f t q] before_add_edge [of p f t q x y]
  by (simp_all add: causal_added_def)

definition endpoints_stored :: "poset \<Rightarrow> pending_edge \<Rightarrow> bool" where
  "endpoints_stored p pe \<longleftrightarrow> stored p (pe_from pe) \<and> stored p (pe_to pe)"

lemma drainLoop_ok:
  "poset_ok p \<Longrightarrow> \<exists>q es k. drainLoop p pes rem errs n =
       Some (q, rem @ filter (\<lambda>pe. \<not> endpoints_stored p pe) pes, errs @ es, n + k)
     \<and> poset_ok q \<and> stored q = stored p \<and> before p \<subseteq> before q
     \<and> k + length es = length (filter (endpoints_stored p) pes)
     \<and> (es = [] \<longrightarrow> (\<forall>pe \<in> set pes. endpoints_stored p pe \<longrightarrow> (pe_from pe, pe_to pe) \<in> before q))"
proof (induction pes arbitrary: p rem errs n)
  case Nil
  then show ?case by auto
next
  case (Cons pe pes)
  show ?case
  proof (cases "endpoints_stored p pe")
    case False
    from Cons.IH [OF Cons.prems, of "rem @ [pe]" errs n] False show ?thesis
      by (auto simp: endpoints_stored_def [of p pe])
  next
    case True
    then have st: "stored p (pe_from pe)" "stored p (pe_to pe)" by (simp_all add: endpoints_stored_def)
    obtain q where q: "addCausalLocked p (pe_from pe) (pe_to pe) =
        Some (q, add_causal_outcome p (pe_from pe) (pe_to pe))"
      "add_causal_outcome p (pe_from pe) (pe_to pe) \<noteq> None \<Longrightarrow> q = p"
      "add_causal_outcome p (pe_from pe) (pe_to pe) = None \<Longrightarrow> causal_added p (pe_from pe) (pe_to pe) q"
      using addCausalLocked_ok [OF Cons.prems] by metis
    show ?thesis
    proof (cases "add_causal_outcome p (pe_from pe) (pe_to pe)")
      case (Some err)
      with q(2) have "q = p" by simp
      from Cons.IH [OF Cons.prems, of rem "errs @ [err]" n] obtain q' es k where
        IH: "drainLoop p pes rem (errs @ [err]) n = Some (q', rem @ filter (\<lambda>pe. \<not> endpoints_stored p pe) pes,
            (errs @ [err]) @ es, n + k)" "poset_ok q'" "stored q' = stored p" "before p \<subseteq> before q'"
          "k + length es = length (filter (endpoints_stored p) pes)" by blast
      have "drainLoop p (pe # pes) rem errs n =
          Some (q', rem @ filter (\<lambda>pe. \<not> endpoints_stored p pe) (pe # pes), errs @ (err # es), n + k)"
        using q(1) Some \<open>q = p\<close> IH(1) True st by simp
      with IH(2-5) True show ?thesis by fastforce
    next
      case None
      with q(3) have ca: "causal_added p (pe_from pe) (pe_to pe) q" by simp
      note bf = causal_added_before [OF ca st]
      have okq: "poset_ok q" "stored q = stored p" using ca by (simp_all add: causal_added_def)
      have es_eq: "endpoints_stored q = endpoints_stored p"
        by (simp add: fun_eq_iff endpoints_stored_def okq(2))
      from Cons.IH [OF okq(1), of rem errs "n + 1"] obtain q' es k where
        IH: "drainLoop q pes rem errs (n + 1) = Some (q', rem @ filter (\<lambda>pe. \<not> endpoints_stored p pe) pes,
            errs @ es, n + 1 + k)" "poset_ok q'" "stored q' = stored p" "before q \<subseteq> before q'"
          "k + length es = length (filter (endpoints_stored p) pes)"
          "es = [] \<longrightarrow> (\<forall>pe \<in> set pes. endpoints_stored p pe \<longrightarrow> (pe_from pe, pe_to pe) \<in> before q')"
        unfolding es_eq okq(2) by blast
      have "drainLoop p (pe # pes) rem errs n =
          Some (q', rem @ filter (\<lambda>pe. \<not> endpoints_stored p pe) (pe # pes), errs @ es, n + Suc k)"
        using q(1) None IH(1) True st by simp
      moreover have "(pe_from pe, pe_to pe) \<in> before q'" using bf(2) IH(4) by blast
      ultimately show ?thesis using IH(2-6) bf(1) True by fastforce
    qed
  qed
qed

section \<open>Properties\<close>

text \<open>C5: \<open>AddEventWithCause\<close> is all-or-nothing.  It adds the event first and the edges after, yet
  on a well-formed poset it always returns and either reports an error with the poset unchanged, or
  stores the event and relates it so that exactly the causes and their pasts precede it; everything
  else of the order is unchanged.\<close>

theorem AddEventWithCause_atomic:
  assumes "poset_ok p" "ev_id e \<noteq> ''''"
  shows "\<exists>q r. AddEventWithCause p (Some e) causes = Some (q, r)
    \<and> (r \<noteq> None \<longrightarrow> q = p)
    \<and> (r = None \<longrightarrow> poset_ok q \<and> \<not> stored p (ev_id e) \<and> (\<forall>c \<in> set causes. stored p c)
         \<and> (\<forall>i. stored q i \<longleftrightarrow> i = ev_id e \<or> stored p i)
         \<and> before q = before p \<union> {(x, y). y = ev_id e \<and> (\<exists>c \<in> set causes. at_or_before p x c)})"
  using AddEventWithCause_total [OF assms, of causes]
proof
  assume "\<exists>err. AddEventWithCause p (Some e) causes = Some (p, Some err)"
  then show ?thesis by auto
next
  assume "\<exists>q ts. AddEventWithCause p (Some e) causes = Some (q, None)
      \<and> CanonicalizeEventTimings (ev_timings e) = Inr ts \<and> \<not> stored p (ev_id e)
      \<and> (\<forall>c \<in> set causes. stored p c) \<and> grown p (ev_id e) ts (set causes) q"
  then obtain q ts where q: "AddEventWithCause p (Some e) causes = Some (q, None)"
    "\<not> stored p (ev_id e)" "\<forall>c \<in> set causes. stored p c" "grown p (ev_id e) ts (set causes) q" by blast
  have "before q = before p \<union> {(x, y). y = ev_id e \<and> (\<exists>c \<in> set causes. at_or_before p x c)}"
    using grown_before [OF assms(1) q(2,4,3)] by auto
  with q show ?thesis by (auto simp: grown_def)
qed

theorem AddEventWithCause_atomic_witness:
  "\<exists>q. AddEventWithCause ordered_events (Some (sample_event ''c'')) [''b''] = Some (q, None)
     \<and> before q = before ordered_events \<union> {(x, y). y = ''c'' \<and> at_or_before ordered_events x ''b''}"
proof -
  have "map_option snd (AddEventWithCause ordered_events (Some (sample_event ''c'')) [''b'']) = Some None"
    by code_simp
  moreover have "ev_id (sample_event ''c'') = ''c''" by (simp add: sample_event_def)
  ultimately show ?thesis
    using AddEventWithCause_atomic [OF ordered_events_ok(1), of "sample_event ''c''" "[''b'']"] by auto
qed


text \<open>One buffered edge whose endpoints are present and one whose source is missing.\<close>

definition buffered_events :: poset where
  "buffered_events = two_events\<lparr>pendingEdges :=
     [\<lparr>pe_from = ''a'', pe_to = ''b''\<rparr>, \<lparr>pe_from = ''x'', pe_to = ''b''\<rparr>]\<rparr>"


end
