(* ===== verification/Antichain_Merge.thy ===== *)
theory Antichain_Merge
  imports Main
begin

text \<open>
  Collapsing a set of pairwise unrelated nodes of an acyclic relation into one node.  This is what
  declaring a causal equivalence does to the order between classes; the lemmas give the strict order
  of the quotient over the original nodes.
\<close>

definition antichain :: "('a \<times> 'a) set \<Rightarrow> 'a set \<Rightarrow> bool" where
  "antichain r R \<longleftrightarrow> (\<forall>a \<in> R. \<forall>b \<in> R. (a, b) \<notin> r\<^sup>+)"

definition collapse :: "'a set \<Rightarrow> 'a \<Rightarrow> 'a \<Rightarrow> 'a" where
  "collapse R c x = (if x \<in> R then c else x)"

definition collapsed :: "('a \<times> 'a) set \<Rightarrow> 'a set \<Rightarrow> 'a \<Rightarrow> ('a \<times> 'a) set" where
  "collapsed r R c = {(collapse R c a, collapse R c b) | a b. (a, b) \<in> r}"

text \<open>The strict order after the collapse: the old one, and everything up to the collapsed nodes
  before everything from them on.\<close>

definition merged_order :: "('a \<times> 'a) set \<Rightarrow> 'a set \<Rightarrow> 'a \<Rightarrow> 'a \<Rightarrow> bool" where
  "merged_order r R x y \<longleftrightarrow> (x, y) \<in> r\<^sup>+
     \<or> (\<exists>a \<in> R. (x, a) \<in> r\<^sup>*) \<and> (\<exists>b \<in> R. (b, y) \<in> r\<^sup>*) \<and> \<not> (x \<in> R \<and> y \<in> R)"

lemma collapse_eq_iff: "c \<in> R \<Longrightarrow> collapse R c x = collapse R c y \<longleftrightarrow> x = y \<or> x \<in> R \<and> y \<in> R"
  by (auto simp: collapse_def)

lemma antichainD: "antichain r R \<Longrightarrow> a \<in> R \<Longrightarrow> b \<in> R \<Longrightarrow> (a, b) \<notin> r\<^sup>+"
  by (simp add: antichain_def)

lemma merged_order_right:
  assumes "antichain r R" "merged_order r R x y" "y \<in> R" "y' \<in> R"
  shows "merged_order r R x y'"
proof -
  have "x \<notin> R" using assms(2,3) antichainD [OF assms(1), of x y] by (auto simp: merged_order_def)
  moreover have "\<exists>a \<in> R. (x, a) \<in> r\<^sup>*"
    using assms(2,3) trancl_into_rtrancl by (fastforce simp: merged_order_def)
  ultimately show ?thesis using assms(4) by (auto simp: merged_order_def)
qed

lemma merged_order_left:
  assumes "antichain r R" "merged_order r R x y" "x \<in> R" "x' \<in> R"
  shows "merged_order r R x' y"
proof -
  have "y \<notin> R" using assms(2,3) antichainD [OF assms(1), of x y] by (auto simp: merged_order_def)
  moreover have "\<exists>b \<in> R. (b, y) \<in> r\<^sup>*"
    using assms(2,3) trancl_into_rtrancl by (fastforce simp: merged_order_def)
  ultimately show ?thesis using assms(4) by (auto simp: merged_order_def)
qed

lemma merged_order_collapse:
  assumes "antichain r R" "c \<in> R" "merged_order r R x y"
    "collapse R c x = collapse R c x'" "collapse R c y = collapse R c y'"
  shows "merged_order r R x' y'"
  using assms(3-5) merged_order_left [OF assms(1)] merged_order_right [OF assms(1)]
  unfolding collapse_eq_iff [OF assms(2)] by metis

lemma merged_order_trans:
  assumes anti: "antichain r R" and xy: "merged_order r R x y" and yz: "merged_order r R y z"
  shows "merged_order r R x z"
proof -
  have nor: "\<not> (\<exists>b \<in> R. \<exists>a \<in> R. (b, u) \<in> r\<^sup>* \<and> (u, v) \<in> r\<^sup>+ \<and> (v, a) \<in> r\<^sup>*)" for u v
    using antichainD [OF anti] by (meson rtrancl_trancl_trancl trancl_rtrancl_trancl)
  have up: "(u, v) \<in> r\<^sup>+ \<Longrightarrow> (v, a) \<in> r\<^sup>* \<Longrightarrow> (u, a) \<in> r\<^sup>*" for u v a
    by (meson trancl_into_rtrancl rtrancl_trans)
  have dn: "(b, u) \<in> r\<^sup>* \<Longrightarrow> (u, v) \<in> r\<^sup>+ \<Longrightarrow> (b, v) \<in> r\<^sup>*" for u v b
    by (meson trancl_into_rtrancl rtrancl_trans)
  show ?thesis
  proof (cases "(x, y) \<in> r\<^sup>+")
    case r1: True
    show ?thesis
    proof (cases "(y, z) \<in> r\<^sup>+")
      case True
      with r1 have "(x, z) \<in> r\<^sup>+" by (rule trancl_trans)
      then show ?thesis by (simp add: merged_order_def)
    next
      case False
      with yz have y: "\<exists>a \<in> R. (y, a) \<in> r\<^sup>*" "\<exists>b \<in> R. (b, z) \<in> r\<^sup>*" by (auto simp: merged_order_def)
      then have "x \<notin> R" using nor [of x y] r1 by blast
      with y up [OF r1] show ?thesis by (auto simp: merged_order_def)
    qed
  next
    case False
    with xy have x: "\<exists>a \<in> R. (x, a) \<in> r\<^sup>*" "\<exists>b \<in> R. (b, y) \<in> r\<^sup>*" "\<not> (x \<in> R \<and> y \<in> R)"
      by (auto simp: merged_order_def)
    show ?thesis
    proof (cases "(y, z) \<in> r\<^sup>+")
      case r2: True
      have "z \<notin> R" using nor [of y z] r2 x(2) by blast
      with x dn r2 show ?thesis unfolding merged_order_def by blast
    next
      case False
      with yz have z: "\<exists>a \<in> R. (y, a) \<in> r\<^sup>*" "\<exists>b \<in> R. (b, z) \<in> r\<^sup>*" "\<not> (y \<in> R \<and> z \<in> R)"
        by (auto simp: merged_order_def)
      have "y \<in> R"
      proof (rule ccontr)
        assume "y \<notin> R"
        then obtain b a where "b \<in> R" "a \<in> R" "(b, y) \<in> r\<^sup>+" "(y, a) \<in> r\<^sup>*"
          using x(2) z(1) by (metis rtranclD)
        then show False using nor [of b y] by blast
      qed
      with x z show ?thesis by (auto simp: merged_order_def)
    qed
  qed
qed

lemma collapsed_trancl:
  assumes "antichain r R" "c \<in> R"
  shows "(collapse R c x, collapse R c y) \<in> (collapsed r R c)\<^sup>+ \<longleftrightarrow> merged_order r R x y"
proof
  let ?s = "collapsed r R c"
  have "\<forall>x y. u = collapse R c x \<longrightarrow> v = collapse R c y \<longrightarrow> merged_order r R x y"
    if "(u, v) \<in> ?s\<^sup>+" for u v
    using that
  proof (induction rule: trancl_induct)
    case (base v)
    then obtain a b where ab: "u = collapse R c a" "v = collapse R c b" "(a, b) \<in> r"
      by (auto simp: collapsed_def)
    then have "merged_order r R a b" by (auto simp: merged_order_def)
    then show ?case using merged_order_collapse [OF assms] ab by metis
  next
    case (step v w)
    then obtain a b where ab: "v = collapse R c a" "w = collapse R c b" "(a, b) \<in> r"
      by (auto simp: collapsed_def)
    then have ord: "merged_order r R a b" by (auto simp: merged_order_def)
    show ?case
    proof (intro allI impI)
      fix x y
      assume "u = collapse R c x" "w = collapse R c y"
      with step.IH ab have "merged_order r R x a" "merged_order r R a y"
        using merged_order_collapse [OF assms ord] by auto
      then show "merged_order r R x y" by (rule merged_order_trans [OF assms(1)])
    qed
  qed
  then show "(collapse R c x, collapse R c y) \<in> ?s\<^sup>+ \<Longrightarrow> merged_order r R x y" by blast
  have image: "(u, v) \<in> r\<^sup>+ \<Longrightarrow> (collapse R c u, collapse R c v) \<in> ?s\<^sup>+" for u v
    by (induction rule: trancl_induct) (auto simp: collapsed_def intro: trancl_into_trancl)
  have imager: "(u, v) \<in> r\<^sup>* \<Longrightarrow> (collapse R c u, collapse R c v) \<in> ?s\<^sup>*" for u v
    using image by (metis rtrancl_eq_or_trancl)
  assume "merged_order r R x y"
  then consider "(x, y) \<in> r\<^sup>+"
    | a b where "a \<in> R" "(x, a) \<in> r\<^sup>*" "b \<in> R" "(b, y) \<in> r\<^sup>*" "x \<notin> R \<or> y \<notin> R"
    by (auto simp: merged_order_def)
  then show "(collapse R c x, collapse R c y) \<in> ?s\<^sup>+"
  proof cases
    case 1
    then show ?thesis by (rule image)
  next
    case 2
    have to: "(collapse R c x, c) \<in> ?s\<^sup>*" "(c, collapse R c y) \<in> ?s\<^sup>*"
      using imager [OF 2(2)] imager [OF 2(4)] 2(1,3) by (simp_all add: collapse_def)
    from 2(5) show ?thesis
    proof
      assume "x \<notin> R"
      then have "(x, a) \<in> r\<^sup>+" using 2(1,2) by (metis rtranclD)
      from image [OF this] 2(1) to(2) show ?thesis by (simp add: collapse_def)
    next
      assume "y \<notin> R"
      then have "(b, y) \<in> r\<^sup>+" using 2(3,4) by (metis rtranclD)
      from image [OF this] 2(3) to(1) show ?thesis by (simp add: collapse_def)
    qed
  qed
qed

lemma merged_order_irrefl:
  assumes "acyclic r" "antichain r R"
  shows "\<not> merged_order r R x x"
proof
  assume "merged_order r R x x"
  then consider "(x, x) \<in> r\<^sup>+"
    | a b where "a \<in> R" "(x, a) \<in> r\<^sup>*" "b \<in> R" "(b, x) \<in> r\<^sup>*" "x \<notin> R"
    by (auto simp: merged_order_def)
  then show False
  proof cases
    case 1
    then show False using assms(1) by (simp add: acyclic_def)
  next
    case 2
    then have "(b, x) \<in> r\<^sup>+" "(x, a) \<in> r\<^sup>+" by (metis rtranclD)+
    then show False using antichainD [OF assms(2) 2(3,1)] by (meson trancl_trans)
  qed
qed

lemma collapsed_acyclic:
  assumes "acyclic r" "antichain r R" "c \<in> R"
  shows "acyclic (collapsed r R c)"
  unfolding acyclic_def
proof (intro allI notI)
  fix x
  assume x: "(x, x) \<in> (collapsed r R c)\<^sup>+"
  then obtain z where "(x, z) \<in> collapsed r R c" by (meson tranclD)
  then obtain a where "x = collapse R c a" by (auto simp: collapsed_def)
  with x collapsed_trancl [OF assms(2,3), of a a] merged_order_irrefl [OF assms(1,2)] show False by simp
qed

end
