(* ===== verification/Poset_Equiv.thy ===== *)
theory Poset_Equiv
  imports Poset_Growth Antichain_Merge
begin

text \<open>
  Declaring causal equivalence (\<open>causal_equivalence.go\<close>): the merge of classes, its timing check,
  the normalization of the edge maps and the public operations.  A merge collapses an antichain of
  classes, so \<open>Antichain_Merge\<close> gives the order it leaves.  A write through a missing inner map (a
  Go panic) is \<^term>\<open>None\<close>.
\<close>

section \<open>Operations\<close>

definition mergedIDs :: "poset \<Rightarrow> event_id fset \<Rightarrow> event_id list" where
  \<comment> \<open>the sorted \<open>merged\<close> map\<close>
  "mergedIDs p participating = sort_ids (filter (\<lambda>i. rep p i |\<in>| participating) (event_ids p))"

definition outsideClasses :: "poset \<Rightarrow> event_id fset \<Rightarrow> bool \<Rightarrow> event_id fset" where
  \<comment> \<open>the \<open>predecessors\<close> (\<open>forward = False\<close>) or \<open>successors\<close> map, collected class by class\<close>
  "outsideClasses p participating forward =
     fold (\<lambda>representative acc.
         fold (\<lambda>c acc. if c |\<in>| participating then acc
                   else fold finsert (causalClassMembersLocked p c) acc)
           (fset_ids (reachableCausalClassesLocked p representative forward)) acc)
       (fset_ids participating) {||}"

definition sortedCausalEquivalenceIDs :: "event_id fset \<Rightarrow> event_id list" where
  "sortedCausalEquivalenceIDs ids = fset_ids ids"

definition validateCausalEquivalenceTimingLocked :: "poset \<Rightarrow> event_id fset \<Rightarrow> go_error option" where
  "validateCausalEquivalenceTimingLocked p participating =
     (let orderedPredecessors = sortedCausalEquivalenceIDs (outsideClasses p participating False);
          orderedMerged = mergedIDs p participating;
          orderedSuccessors = sortedCausalEquivalenceIDs (outsideClasses p participating True);
          conflict = (\<lambda>b a. sharedTimingConflict (fmlookup (events p) b) (fmlookup (events p) a))
      in if list_ex (\<lambda>b. list_ex (conflict b) orderedMerged
                  \<or> list_ex (conflict b) orderedSuccessors) orderedPredecessors
         then Some ErrTimingCausality
         else if list_ex (\<lambda>b. list_ex (conflict b) orderedSuccessors) orderedMerged
         then Some ErrTimingCausality
         else None)"

fun absorbClasses ::
    "poset \<Rightarrow> event_id fset \<Rightarrow> event_id \<Rightarrow> event_id list \<Rightarrow> event_id list \<Rightarrow> u64
       \<Rightarrow> poset \<times> event_id list \<times> u64" where
  \<comment> \<open>repoints every member of a participating class and collects members and maximum\<close>
  "absorbClasses p representatives representative [] members maximum = (p, members, maximum)"
| "absorbClasses p representatives representative (i # ids) members maximum =
     (if rep p i |\<in>| representatives
      then absorbClasses (p\<lparr>causalClass := fmupd i representative (causalClass p)\<rparr>)
             representatives representative ids (members @ [i])
             (if lam p i > maximum then lam p i else maximum)
      else absorbClasses p representatives representative ids members maximum)"

fun levelClass :: "poset \<Rightarrow> event_id \<Rightarrow> u64 \<Rightarrow> event_id list \<Rightarrow> poset" where
  "levelClass p representative maximum [] = p"
| "levelClass p representative maximum (i # ids) =
     (let p = (if rep p i = representative
               then (case fmlookup (events p) i of
                       Some e \<Rightarrow> p\<lparr>events := fmupd i (set_lamport maximum e) (events p)\<rparr>
                     | None \<Rightarrow> p)
               else p)
      in levelClass p representative maximum ids)"

fun normalizeSuccessors ::
    "poset \<Rightarrow> event_id \<Rightarrow> event_id list \<Rightarrow> (event_id, event_id fset) fmap \<Rightarrow> (event_id, event_id fset) fmap
       \<Rightarrow> ((event_id, event_id fset) fmap \<times> (event_id, event_id fset) fmap) option" where
  "normalizeSuccessors p fromRepresentative [] forward reverse = Some (forward, reverse)"
| "normalizeSuccessors p fromRepresentative (to # tos) forward reverse =
     (let toRepresentative = rep p to
      in if fromRepresentative = toRepresentative
         then normalizeSuccessors p fromRepresentative tos forward reverse
         else do {
           fs \<leftarrow> fmlookup forward fromRepresentative;
           rs \<leftarrow> fmlookup reverse toRepresentative;
           normalizeSuccessors p fromRepresentative tos
             (fmupd fromRepresentative (finsert toRepresentative fs) forward)
             (fmupd toRepresentative (finsert fromRepresentative rs) reverse)
         })"

fun normalizeSources ::
    "poset \<Rightarrow> event_id list \<Rightarrow> (event_id, event_id fset) fmap \<Rightarrow> (event_id, event_id fset) fmap
       \<Rightarrow> ((event_id, event_id fset) fmap \<times> (event_id, event_id fset) fmap) option" where
  "normalizeSources p [] forward reverse = Some (forward, reverse)"
| "normalizeSources p (from # froms) forward reverse =
     do {
       (forward, reverse) \<leftarrow>
         normalizeSuccessors p (rep p from) (fset_ids (map_get {||} (causalEdges p) from)) forward reverse;
       normalizeSources p froms forward reverse
     }"

definition normalizeCausalEdgesLocked :: "poset \<Rightarrow> poset option" where
  "normalizeCausalEdgesLocked p =
     (let empty = fold (\<lambda>i m. fmupd i {||} m) (event_ids p) fmempty
      in do {
        (forward, reverse) \<leftarrow> normalizeSources p (map_keys (causalEdges p)) empty empty;
        Some (p\<lparr>causalEdges := forward, reverseCausal := reverse\<rparr>)
      })"

fun strictlyRelatedPair :: "poset \<Rightarrow> event_id list \<Rightarrow> bool" where
  "strictlyRelatedPair p [] = False"
| "strictlyRelatedPair p (left # rest) =
     (list_ex (\<lambda>right. canReachClassLocked p left right \<or> canReachClassLocked p right left) rest
      \<or> strictlyRelatedPair p rest)"

definition addCausalEquivalenceClassLocked ::
    "poset \<Rightarrow> event_id list \<Rightarrow> (poset \<times> go_error option) option" where
  "addCausalEquivalenceClassLocked p ids =
     (if length ids = 0 then Some (p, Some ErrEventNotFound)
      else
        let p = ensureCausalClassesLocked p
        in if list_ex (\<lambda>i. \<not> stored p i) ids then Some (p, Some ErrEventNotFound)
           else
             let representatives = fset_of_list (map (rep p) ids);
                 ordered = fset_ids representatives
             in if strictlyRelatedPair p ordered then Some (p, Some ErrCausalEquivalenceConflict)
                else if length ordered = 1 then Some (p, None)
                else (case validateCausalEquivalenceTimingLocked p representatives of
                    Some err \<Rightarrow> Some (p, Some err)
                  | None \<Rightarrow>
                      let representative = hd ordered;
                          (p, members, maximumLamport) =
                            absorbClasses p representatives representative (event_ids p) [] 0;
                          p = levelClass p representative maximumLamport (event_ids p);
                          members = sort_ids members;
                          p = fold (\<lambda>old p. if old \<noteq> representative
                                then p\<lparr>classMembers := fmdrop old (classMembers p)\<rparr> else p) ordered p;
                          p = p\<lparr>classMembers := fmupd representative members (classMembers p)\<rparr>
                      in do {
                        p \<leftarrow> normalizeCausalEdgesLocked p;
                        p \<leftarrow> propagateLamportLocked p representative;
                        Some (p, None)
                      }))"

definition AddCausalEquivalenceClass ::
    "poset \<Rightarrow> event_id list \<Rightarrow> (poset \<times> go_error option) option" where
  "AddCausalEquivalenceClass p ids = addCausalEquivalenceClassLocked p ids"

definition AddCausalEquivalent ::
    "poset \<Rightarrow> event_id \<Rightarrow> event_id \<Rightarrow> (poset \<times> go_error option) option" where
  "AddCausalEquivalent p left right = AddCausalEquivalenceClass p [left, right]"

definition CausalEquivalenceClass :: "poset \<Rightarrow> event_id \<Rightarrow> event option list" where
  \<comment> \<open>a listed member that is not stored is the nil pointer\<close>
  "CausalEquivalenceClass p i =
     (if \<not> stored p i then []
      else map (\<lambda>member. map_option snapshotEvent (fmlookup (events p) member))
             (causalClassMembersLocked p i))"

section \<open>The members an equivalence puts before and after one another\<close>

definition merges :: "poset \<Rightarrow> event_id list \<Rightarrow> event_id \<Rightarrow> bool" where
  "merges p ids x \<longleftrightarrow> stored p x \<and> (\<exists>i \<in> set ids. rep p x = rep p i)"

definition equated_pairs :: "poset \<Rightarrow> event_id list \<Rightarrow> (event_id \<times> event_id) set" where
  \<comment> \<open>what becomes strictly ordered: everything up to one of the occurrences before everything from
    one of them on, except the occurrences of the new class among themselves\<close>
  "equated_pairs p ids = {(x, y). (\<exists>i \<in> set ids. at_or_before p x i) \<and> (\<exists>j \<in> set ids. at_or_before p j y)
     \<and> \<not> (merges p ids x \<and> merges p ids y)}"

definition equivalence_outcome :: "poset \<Rightarrow> event_id list \<Rightarrow> go_error option" where
  "equivalence_outcome p ids =
     (if ids = [] \<or> (\<exists>i \<in> set ids. \<not> stored p i) then Some ErrEventNotFound
      else if \<exists>i \<in> set ids. \<exists>j \<in> set ids. (i, j) \<in> before p then Some ErrCausalEquivalenceConflict
      else if \<forall>i \<in> set ids. rep p i = rep p (hd ids) then None
      else if \<exists>(x, y) \<in> equated_pairs p ids. conflicting p x y then Some ErrTimingCausality
      else None)"

lemma set_mergedIDs: "set (mergedIDs p R) = {i. stored p i \<and> rep p i |\<in>| R}"
  by (auto simp: mergedIDs_def map_has_def)

lemma fset_fold_finsert: "fset (fold finsert xs s) = set xs \<union> fset s"
  by (induction xs arbitrary: s) auto

lemma fset_fold_members:
  "fset (fold (\<lambda>c acc. if P c then acc else fold finsert (f c) acc) xs s)
     = (\<Union>c \<in> {c \<in> set xs. \<not> P c}. set (f c)) \<union> fset s"
  by (induction xs arbitrary: s) (auto simp: fset_fold_finsert)

lemma fset_fold_Union:
  assumes "\<And>x acc. fset (g x acc) = h x \<union> fset acc"
  shows "fset (fold g xs s) = (\<Union>x \<in> set xs. h x) \<union> fset s"
  by (induction xs arbitrary: s) (auto simp: assms)

lemma fset_outsideClasses:
  "fset (outsideClasses p R fwd) =
     (\<Union>r \<in> fset R. \<Union>c \<in> {c. c |\<in>| reachableCausalClassesLocked p r fwd \<and> c |\<notin>| R}.
        set (causalClassMembersLocked p c))"
  unfolding outsideClasses_def
  by (subst fset_fold_Union [where h = "\<lambda>r. \<Union>c \<in> {c. c |\<in>| reachableCausalClassesLocked p r fwd \<and> c |\<notin>| R}.
        set (causalClassMembersLocked p c)"]) (simp_all add: fset_fold_members)

lemma merges_iff: "merges p ids x \<longleftrightarrow> stored p x \<and> rep p x \<in> rep p ` set ids"
  by (auto simp: merges_def)

lemma set_outside:
  assumes p: "class_ok p" "edges_ok p" and st: "\<forall>i \<in> set ids. stored p i"
  defines "R \<equiv> fset_of_list (map (rep p) ids)"
  shows "fset (outsideClasses p R False) = {x. (\<exists>i \<in> set ids. at_or_before p x i) \<and> \<not> merges p ids x}"
    "fset (outsideClasses p R True) = {x. (\<exists>i \<in> set ids. at_or_before p i x) \<and> \<not> merges p ids x}"
proof -
  have R: "fset R = rep p ` set ids" by (simp add: R_def fset_of_list.rep_eq)
  have mem: "x \<in> set (causalClassMembersLocked p c) \<longleftrightarrow> stored p x \<and> rep p x = c"
    if "c \<in> rep p ` set ids \<or> (\<exists>r. (c, r) \<in> class_rel p \<or> (r, c) \<in> class_rel p)" for x c
  proof -
    have "stored p c \<and> rep p c = c"
      using that st class_rel_stored [OF p] rep_stored [OF p(1)] rep_rep [OF p(1)] by auto
    then show ?thesis by (auto simp: causalClassMembersLocked_ok [OF p(1)] set_class_list)
  qed
  have rr: "rep p (rep p i) = rep p i" if "i \<in> set ids" for i
    using st that rep_rep [OF p(1)] by blast
  have conv: "(r, c) \<in> (class_rel_rev p)\<^sup>* \<longleftrightarrow> (c, r) \<in> (class_rel p)\<^sup>*" for r c
    by (simp add: class_rel_rev_converse [OF p] rtrancl_converse)
  show "fset (outsideClasses p R False) = {x. (\<exists>i \<in> set ids. at_or_before p x i) \<and> \<not> merges p ids x}"
  proof (rule set_eqI)
    fix x
    have "x \<in> fset (outsideClasses p R False) \<longleftrightarrow> (\<exists>i \<in> set ids. \<exists>c. (c, rep p i) \<in> (class_rel p)\<^sup>*
        \<and> c \<notin> rep p ` set ids \<and> x \<in> set (causalClassMembersLocked p c))"
      by (auto simp: fset_outsideClasses R reachableCausalClassesLocked_backward conv rr)
    also have "\<dots> \<longleftrightarrow> (\<exists>i \<in> set ids. \<exists>c. (c, rep p i) \<in> (class_rel p)\<^sup>*
        \<and> c \<notin> rep p ` set ids \<and> stored p x \<and> rep p x = c)"
      using mem by (metis converse_rtranclE imageI)
    finally show "x \<in> fset (outsideClasses p R False) \<longleftrightarrow>
        x \<in> {x. (\<exists>i \<in> set ids. at_or_before p x i) \<and> \<not> merges p ids x}"
      using st by (auto simp: at_or_before_def merges_iff)
  qed
  show "fset (outsideClasses p R True) = {x. (\<exists>i \<in> set ids. at_or_before p i x) \<and> \<not> merges p ids x}"
  proof (rule set_eqI)
    fix x
    have "x \<in> fset (outsideClasses p R True) \<longleftrightarrow> (\<exists>i \<in> set ids. \<exists>c. (rep p i, c) \<in> (class_rel p)\<^sup>*
        \<and> c \<notin> rep p ` set ids \<and> x \<in> set (causalClassMembersLocked p c))"
      by (auto simp: fset_outsideClasses R reachableCausalClassesLocked_forward rr)
    also have "\<dots> \<longleftrightarrow> (\<exists>i \<in> set ids. \<exists>c. (rep p i, c) \<in> (class_rel p)\<^sup>*
        \<and> c \<notin> rep p ` set ids \<and> stored p x \<and> rep p x = c)"
      using mem by (metis rtranclE imageI)
    finally show "x \<in> fset (outsideClasses p R True) \<longleftrightarrow>
        x \<in> {x. (\<exists>i \<in> set ids. at_or_before p i x) \<and> \<not> merges p ids x}"
      using st by (auto simp: at_or_before_def merges_iff)
  qed
qed

lemma equated_pairs_cases:
  assumes "edges_ok p" "class_ok p" "\<forall>i \<in> set ids. \<forall>j \<in> set ids. (i, j) \<notin> before p"
  shows "(x, y) \<in> equated_pairs p ids \<longleftrightarrow>
    (\<exists>i \<in> set ids. at_or_before p x i) \<and> (\<exists>j \<in> set ids. at_or_before p j y)
    \<and> (\<not> merges p ids x \<or> \<not> merges p ids y)"
  by (auto simp: equated_pairs_def)

lemma merges_at_or_before:
  "\<forall>i \<in> set ids. stored p i \<Longrightarrow> merges p ids x \<Longrightarrow>
     (\<exists>i \<in> set ids. at_or_before p x i) \<and> (\<exists>i \<in> set ids. at_or_before p i x)"
  unfolding merges_def at_or_before_def by (metis rtrancl.rtrancl_refl)

lemma validateCausalEquivalence_ok:
  assumes p: "class_ok p" "edges_ok p" and st: "\<forall>i \<in> set ids. stored p i"
  shows "validateCausalEquivalenceTimingLocked p (fset_of_list (map (rep p) ids)) =
    (if \<exists>(x, y) \<in> equated_pairs p ids. conflicting p x y then Some ErrTimingCausality else None)"
proof -
  let ?R = "fset_of_list (map (rep p) ids)"
  define U D M where "U = {x. (\<exists>i \<in> set ids. at_or_before p x i) \<and> \<not> merges p ids x}"
    and "D = {x. (\<exists>i \<in> set ids. at_or_before p i x) \<and> \<not> merges p ids x}"
    and "M = {x. merges p ids x}"
  have m: "set (mergedIDs p ?R) = M"
    by (auto simp: set_mergedIDs merges_iff fset_of_list.rep_eq M_def)
  have sets: "set (sortedCausalEquivalenceIDs (outsideClasses p ?R False)) = U"
    "set (sortedCausalEquivalenceIDs (outsideClasses p ?R True)) = D"
    using set_outside [OF p st] by (simp_all add: sortedCausalEquivalenceIDs_def U_def D_def)
  have "(\<exists>(x, y) \<in> equated_pairs p ids. conflicting p x y) \<longleftrightarrow>
      (\<exists>x \<in> U. \<exists>y \<in> M \<union> D. conflicting p x y) \<or> (\<exists>x \<in> M. \<exists>y \<in> D. conflicting p x y)"
    using merges_at_or_before [OF st] unfolding equated_pairs_def U_def D_def M_def by blast
  then show ?thesis
    unfolding validateCausalEquivalenceTimingLocked_def Let_def list_ex_iff sets m
    by (auto simp: conflicting_def [symmetric])
qed

lemma strictlyRelatedPair_iff:
  "strictlyRelatedPair p xs \<longleftrightarrow> (\<exists>x \<in> set xs. \<exists>y \<in> set xs. x \<noteq> y \<and> canReachClassLocked p x y)"
  if "distinct xs"
  using that
proof (induction xs)
  case (Cons a xs)
  then have "strictlyRelatedPair p xs \<longleftrightarrow> (\<exists>x \<in> set xs. \<exists>y \<in> set xs. x \<noteq> y \<and> canReachClassLocked p x y)"
    "a \<notin> set xs" by simp_all
  moreover from this(2) have "\<And>y. y \<in> set xs \<Longrightarrow> (a \<noteq> y) = True" "\<And>y. y \<in> set xs \<Longrightarrow> (y \<noteq> a) = True" by blast+
  ultimately show ?case by (simp add: list_ex_iff bex_disj_distrib disj_ac cong: bex_cong)
qed simp

section \<open>Absorbing the classes\<close>

lemma absorbClasses_ok:
  assumes "distinct is" "'''' \<notin> set is" "r \<noteq> ''''"
  shows "absorbClasses p R r is ms v =
    (p\<lparr>causalClass := fold (\<lambda>i m. fmupd i r m) (filter (\<lambda>i. rep p i |\<in>| R) is) (causalClass p)\<rparr>,
     ms @ filter (\<lambda>i. rep p i |\<in>| R) is,
     fold max (map (lam p) (filter (\<lambda>i. rep p i |\<in>| R) is)) v)"
  using assms
proof (induction "is" arbitrary: p ms v)
  case (Cons i "is")
  let ?p = "p\<lparr>causalClass := fmupd i r (causalClass p)\<rparr>"
  have other: "rep ?p j = rep p j" if "j \<in> set is" for j
    using that Cons.prems(1) by (auto simp: causalRepresentativeLocked_def)
  have l: "lam ?p = lam p" by (simp add: lam_def fun_eq_iff)
  have f: "filter (\<lambda>i. rep ?p i |\<in>| R) is = filter (\<lambda>i. rep p i |\<in>| R) is"
    by (rule filter_cong [OF refl]) (simp add: other)
  have mx: "(if lam p i > v then lam p i else v) = max (lam p i) v" by (auto simp: max_def)
  show ?case
  proof (cases "rep p i |\<in>| R")
    case True
    then show ?thesis using Cons.IH [of ?p "ms @ [i]" "max (lam p i) v"] Cons.prems
      by (simp add: f l mx)
  next
    case False
    then show ?thesis using Cons.IH [of p ms v] Cons.prems by simp
  qed
qed simp

lemma fold_fmupd_const:
  "fmlookup (fold (\<lambda>i m. fmupd i v m) is m) j = (if j \<in> set is then Some v else fmlookup m j)"
  by (induction "is" arbitrary: m) auto

lemma fold_fmupd_dom: "fmdom (fold (\<lambda>i m. fmupd i v m) is m) = fmdom m |\<union>| fset_of_list is"
  by (induction "is" arbitrary: m) auto

lemma levelClass_ok:
  "same_shape p (levelClass p r v is)
   \<and> (\<forall>i. lam (levelClass p r v is) i =
        (if i \<in> set is \<and> stored p i \<and> rep p i = r then v else lam p i))"
proof (induction "is" arbitrary: p)
  case (Cons i "is")
  show ?case
  proof (cases "rep p i = r \<and> stored p i")
    case False
    then have "levelClass p r v (i # is) = levelClass p r v is"
      by (auto simp: Let_def map_has_iff split: option.splits)
    then show ?thesis using Cons.IH [of p] False by auto
  next
    case True
    then obtain e where e: "fmlookup (events p) i = Some e" by (auto simp: map_has_iff)
    define p' where "p' = p\<lparr>events := fmupd i (set_lamport v e) (events p)\<rparr>"
    have run: "levelClass p r v (i # is) = levelClass p' r v is"
      using True e by (simp add: Let_def p'_def)
    have shape: "same_shape p p'"
      using e by (auto simp: same_shape_def p'_def set_lamport_def)
    have lam': "lam p' j = (if j = i then v else lam p j)" for j
      by (simp add: lam_def p'_def)
    show ?thesis
      unfolding run using Cons.IH [of p'] same_shape_trans [OF shape] True lam'
      by (simp add: same_shape_stored [OF shape] same_shape_rep [OF shape])
  qed
qed simp

section \<open>Normalizing the edge maps\<close>

definition edge_in :: "(event_id, event_id fset) fmap \<Rightarrow> event_id \<Rightarrow> event_id \<Rightarrow> bool" where
  "edge_in m x y \<longleftrightarrow> y |\<in>| map_get {||} m x"

lemma edge_in_upd:
  "fmlookup m c = Some s \<Longrightarrow> edge_in (fmupd c (finsert t s) m) x y \<longleftrightarrow> edge_in m x y \<or> (x = c \<and> y = t)"
  by (auto simp: edge_in_def map_get_Some)

definition normalized_to ::
    "event_id fset \<Rightarrow> (event_id \<Rightarrow> event_id \<Rightarrow> bool) \<Rightarrow> (event_id, event_id fset) fmap \<Rightarrow> (event_id, event_id fset) fmap
       \<Rightarrow> ((event_id, event_id fset) fmap \<times> (event_id, event_id fset) fmap) option \<Rightarrow> bool" where
  \<comment> \<open>the run succeeded, kept the keys \<open>D\<close>, and added the edges \<open>P\<close> to both maps\<close>
  "normalized_to D P f g res \<longleftrightarrow> (\<exists>f' g'. res = Some (f', g') \<and> fmdom f' = D \<and> fmdom g' = D
     \<and> (\<forall>x y. edge_in f' x y \<longleftrightarrow> edge_in f x y \<or> P x y)
     \<and> (\<forall>x y. edge_in g' x y \<longleftrightarrow> edge_in g x y \<or> P y x))"

lemma normalized_to_cong:
  "normalized_to D P f g res \<Longrightarrow> (\<And>x y. P x y \<longleftrightarrow> Q x y) \<Longrightarrow> normalized_to D Q f g res"
  by (simp add: normalized_to_def)

lemma normalized_to_step:
  assumes "normalized_to D P f' g' res" "\<And>x y. edge_in f' x y \<longleftrightarrow> edge_in f x y \<or> Q x y"
    "\<And>x y. edge_in g' x y \<longleftrightarrow> edge_in g x y \<or> Q y x"
  shows "normalized_to D (\<lambda>x y. Q x y \<or> P x y) f g res"
  using assms(1) unfolding normalized_to_def assms(2,3) disj_assoc by blast

lemma normalizeSuccessors_ok:
  assumes "\<forall>t \<in> set tos. rep p t |\<in>| D" "c |\<in>| D" "fmdom f = D" "fmdom g = D"
  shows "normalized_to D (\<lambda>x y. x = c \<and> y \<noteq> c \<and> y \<in> rep p ` set tos) f g (normalizeSuccessors p c tos f g)"
  using assms
proof (induction tos arbitrary: f g)
  case Nil
  then show ?case by (simp add: normalized_to_def)
next
  case (Cons t tos)
  have tos: "\<forall>t \<in> set tos. rep p t |\<in>| D" using Cons.prems(1) by simp
  show ?case
  proof (cases "c = rep p t")
    case True
    then have run: "normalizeSuccessors p c (t # tos) f g = normalizeSuccessors p c tos f g" by simp
    show ?thesis
      unfolding run by (rule normalized_to_cong [OF Cons.IH [OF tos Cons.prems(2-4)]]) (use True in auto)
  next
    case False
    have "c |\<in>| fmdom f" "rep p t |\<in>| fmdom g" using Cons.prems by auto
    then obtain fs rs where fs: "fmlookup f c = Some fs" and rs: "fmlookup g (rep p t) = Some rs"
      by (auto simp: fmlookup_dom_iff)
    let ?f = "fmupd c (finsert (rep p t) fs) f" and ?g = "fmupd (rep p t) (finsert c rs) g"
    have dom: "fmdom ?f = D" "fmdom ?g = D"
      using Cons.prems by (auto simp: finsert_absorb)
    have run: "normalizeSuccessors p c (t # tos) f g = normalizeSuccessors p c tos ?f ?g"
      using False fs rs by (simp add: Let_def)
    have up: "edge_in ?f x y \<longleftrightarrow> edge_in f x y \<or> (x = c \<and> y = rep p t)"
      "edge_in ?g x y \<longleftrightarrow> edge_in g x y \<or> (y = c \<and> x = rep p t)" for x y
      using edge_in_upd [OF fs] edge_in_upd [OF rs] by auto
    show ?thesis
      unfolding run
      by (rule normalized_to_cong [OF normalized_to_step [OF Cons.IH [OF tos Cons.prems(2) dom] up]])
        (use False in auto)
  qed
qed

lemma normalizeSources_ok:
  assumes "\<forall>s \<in> set ss. rep p s |\<in>| D \<and> (\<forall>t. edge_in (causalEdges p) s t \<longrightarrow> rep p t |\<in>| D)"
    "fmdom f = D" "fmdom g = D"
  shows "normalized_to D (\<lambda>x y. x \<noteq> y \<and> (\<exists>s \<in> set ss. \<exists>t. edge_in (causalEdges p) s t \<and> x = rep p s \<and> y = rep p t))
    f g (normalizeSources p ss f g)"
  using assms
proof (induction ss arbitrary: f g)
  case Nil
  then show ?case by (simp add: normalized_to_def)
next
  case (Cons s ss)
  let ?tos = "fset_ids (map_get {||} (causalEdges p) s)"
  have tos: "\<forall>t \<in> set ?tos. rep p t |\<in>| D" using Cons.prems(1) by (simp add: edge_in_def)
  have "normalized_to D (\<lambda>x y. x = rep p s \<and> y \<noteq> rep p s \<and> y \<in> rep p ` set ?tos) f g
      (normalizeSuccessors p (rep p s) ?tos f g)"
    by (rule normalizeSuccessors_ok [OF tos]) (use Cons.prems in auto)
  then obtain f' g' where r: "normalizeSuccessors p (rep p s) ?tos f g = Some (f', g')"
    "fmdom f' = D" "fmdom g' = D"
    and r4: "\<forall>x y. edge_in f' x y \<longleftrightarrow> edge_in f x y \<or> (x = rep p s \<and> y \<noteq> rep p s \<and> y \<in> rep p ` set ?tos)"
    and r5: "\<forall>x y. edge_in g' x y \<longleftrightarrow> edge_in g x y \<or> (y = rep p s \<and> x \<noteq> rep p s \<and> x \<in> rep p ` set ?tos)"
    unfolding normalized_to_def by (elim exE conjE)
  have run: "normalizeSources p (s # ss) f g = normalizeSources p ss f' g'" using r(1) by simp
  have ss: "\<forall>s \<in> set ss. rep p s |\<in>| D \<and> (\<forall>t. edge_in (causalEdges p) s t \<longrightarrow> rep p t |\<in>| D)"
    using Cons.prems(1) by simp
  have tos_iff: "y \<in> rep p ` set ?tos \<longleftrightarrow> (\<exists>t. edge_in (causalEdges p) s t \<and> y = rep p t)" for y
    by (auto simp: edge_in_def)
  show ?case
    unfolding run
    by (rule normalized_to_cong [OF normalized_to_step [OF Cons.IH [OF ss r(2,3)] r4 [rule_format] r5 [rule_format]]])
      (unfold tos_iff list.set bex_simps, blast)
qed

lemma edge_in_dom: "edge_in m x y \<Longrightarrow> x |\<in>| fmdom m"
  using map_get_absent [of m x "{||}"] by (auto simp: edge_in_def map_has_def)

lemma normalizeCausalEdges_ok:
  assumes "\<forall>s. s |\<in>| fmdom (causalEdges p) \<longrightarrow> stored p (rep p s)"
    "\<forall>s t. edge_in (causalEdges p) s t \<longrightarrow> stored p (rep p t)"
  obtains f g where "normalizeCausalEdgesLocked p = Some (p\<lparr>causalEdges := f, reverseCausal := g\<rparr>)"
    "fmdom f = fmdom (events p)" "fmdom g = fmdom (events p)"
    "\<forall>x y. edge_in f x y \<longleftrightarrow> x \<noteq> y \<and> (\<exists>s t. edge_in (causalEdges p) s t \<and> x = rep p s \<and> y = rep p t)"
    "\<forall>x y. edge_in g x y \<longleftrightarrow> edge_in f y x"
proof -
  define m :: "(event_id, event_id fset) fmap" where "m = fold (\<lambda>i m. fmupd i {||} m) (event_ids p) fmempty"
  have dom: "fmdom m = fmdom (events p)"
    by (rule fset_inject [THEN iffD1]) (simp add: m_def fold_fmupd_dom fset_of_list.rep_eq)
  have none: "\<not> edge_in m x y" for x y
    by (simp add: edge_in_def m_def map_get_def fold_fmupd_const)
  have pre: "\<forall>s \<in> set (map_keys (causalEdges p)). rep p s |\<in>| fmdom (events p)
      \<and> (\<forall>t. edge_in (causalEdges p) s t \<longrightarrow> rep p t |\<in>| fmdom (events p))"
    using assms by (simp add: map_has_def)
  note norm = normalizeSources_ok [OF pre dom dom, unfolded normalized_to_def]
  from norm obtain f g where r: "normalizeSources p (map_keys (causalEdges p)) m m = Some (f, g)"
    "fmdom f = fmdom (events p)" "fmdom g = fmdom (events p)"
    and rf: "\<forall>x y. edge_in f x y \<longleftrightarrow> edge_in m x y \<or> (x \<noteq> y \<and> (\<exists>s \<in> set (map_keys (causalEdges p)). \<exists>t.
        edge_in (causalEdges p) s t \<and> x = rep p s \<and> y = rep p t))"
    and rg: "\<forall>x y. edge_in g x y \<longleftrightarrow> edge_in m x y \<or> (y \<noteq> x \<and> (\<exists>s \<in> set (map_keys (causalEdges p)). \<exists>t.
        edge_in (causalEdges p) s t \<and> y = rep p s \<and> x = rep p t))"
    by (elim exE conjE)
  have keys: "(\<exists>s \<in> set (map_keys (causalEdges p)). \<exists>t. edge_in (causalEdges p) s t \<and> P s t)
      \<longleftrightarrow> (\<exists>s t. edge_in (causalEdges p) s t \<and> P s t)" for P
    using edge_in_dom [of "causalEdges p"] by auto
  have f: "\<forall>x y. edge_in f x y \<longleftrightarrow> x \<noteq> y \<and> (\<exists>s t. edge_in (causalEdges p) s t \<and> x = rep p s \<and> y = rep p t)"
    using rf unfolding keys by (simp add: none)
  have g: "\<forall>x y. edge_in g x y \<longleftrightarrow> edge_in f y x"
    using rg unfolding keys by (simp add: none f)
  have run: "normalizeCausalEdgesLocked p = Some (p\<lparr>causalEdges := f, reverseCausal := g\<rparr>)"
    using r(1) by (simp add: normalizeCausalEdgesLocked_def Let_def m_def [symmetric])
  show thesis by (rule that [OF run r(2,3) f g])
qed

section \<open>The merged state\<close>

lemma fold_drop_members:
  "fold (\<lambda>old p. if old \<noteq> r then p\<lparr>classMembers := fmdrop old (classMembers p)\<rparr> else p) xs p
     = p\<lparr>classMembers := fold (\<lambda>old m. if old \<noteq> r then fmdrop old m else m) xs (classMembers p)\<rparr>"
  by (induction xs arbitrary: p) auto

lemma fold_drop_lookup:
  "fmlookup (fold (\<lambda>old m. if old \<noteq> r then fmdrop old m else m) xs m) j
     = (if j \<in> set xs \<and> j \<noteq> r then None else fmlookup m j)"
  by (induction xs arbitrary: m) auto

definition with_merged_class :: "poset \<Rightarrow> event_id fset \<Rightarrow> event_id \<Rightarrow> poset" where
  \<comment> \<open>the state before the edges are normalized\<close>
  "with_merged_class p R r =
     (let ordered = fset_ids R;
          (p, members, v) = absorbClasses p R r (event_ids p) [] 0;
          p = levelClass p r v (event_ids p);
          p = fold (\<lambda>old p. if old \<noteq> r
                then p\<lparr>classMembers := fmdrop old (classMembers p)\<rparr> else p) ordered p
      in p\<lparr>classMembers := fmupd r (sort_ids members) (classMembers p)\<rparr>)"

lemma fold_max_upper:
  fixes v :: "'a::linorder"
  shows "x = v \<or> x \<in> set xs \<Longrightarrow> x \<le> fold max xs v"
proof (induction xs arbitrary: v x)
  case (Cons a xs)
  have "v \<le> fold max xs (max a v)" "a \<le> fold max xs (max a v)"
    using Cons.IH [of "max a v" "max a v"] by (auto intro: order_trans [rotated])
  moreover have "x \<in> set xs \<Longrightarrow> x \<le> fold max xs (max a v)" by (rule Cons.IH) simp
  ultimately show ?case using Cons.prems by auto
qed simp

lemma with_merged_class_ok:
  assumes p: "class_ok p" and R: "\<forall>c. c |\<in>| R \<longrightarrow> stored p c \<and> rep p c = c"
    and r: "r |\<in>| R" "\<forall>c. c |\<in>| R \<longrightarrow> r \<le> c"
  defines "q \<equiv> with_merged_class p R r"
  obtains v where "class_ok q" "stored q = stored p" "causalEdges q = causalEdges p"
    "reverseCausal q = reverseCausal p" "\<forall>i. rep q i = collapse (fset R) r (rep p i)"
    "\<forall>i. map_option (set_lamport 0) (fmlookup (events q) i) = map_option (set_lamport 0) (fmlookup (events p) i)"
    "\<forall>i. lam q i = (if stored p i \<and> rep p i |\<in>| R then v else lam p i)"
    "\<forall>i. stored p i \<and> rep p i |\<in>| R \<longrightarrow> lam p i \<le> v"
    "timedEvents q = timedEvents p" "lamportCounter q = lamportCounter p"
    "pendingEdges q = pendingEdges p"
proof -
  define ms where "ms = filter (\<lambda>i. rep p i |\<in>| R) (event_ids p)"
  define v where "v = fold max (map (lam p) ms) 0"
  define p1 where "p1 = p\<lparr>causalClass := fold (\<lambda>i m. fmupd i r m) ms (causalClass p)\<rparr>"
  define p2 where "p2 = levelClass p1 r v (event_ids p)"
  have re: "r \<noteq> ''''" "'''' \<notin> set (event_ids p)"
    using class_okD(2) [OF p] R r(1) by (auto simp: map_has_def)
  have abs: "absorbClasses p R r (event_ids p) [] 0 = (p1, ms, v)"
    using absorbClasses_ok [OF distinct_map_keys re(2,1)] by (simp add: p1_def ms_def v_def)
  have ev1: "events p1 = events p" by (simp add: p1_def)
  have q: "q = p2\<lparr>classMembers := fmupd r (sort_ids ms)
      (fold (\<lambda>old m. if old \<noteq> r then fmdrop old m else m) (fset_ids R) (classMembers p2))\<rparr>"
    by (simp add: q_def with_merged_class_def Let_def abs fold_drop_members p2_def ev1)
  have set_ms: "set ms = {i. stored p i \<and> rep p i |\<in>| R}" by (auto simp: ms_def map_has_def)
  have shape: "same_shape p1 p2" and lam2: "\<And>i. lam p2 i = (if i \<in> set (event_ids p) \<and> stored p1 i \<and> rep p1 i = r then v else lam p1 i)"
    using levelClass_ok [of p1 r v "event_ids p"] by (simp_all add: p2_def)
  note f = same_shape_fields [OF shape]
  have rep1: "rep p1 i = collapse (fset R) r (rep p i)" for i
  proof (cases "i \<in> set ms")
    case True
    then show ?thesis using re(1)
      by (simp add: causalRepresentativeLocked_def p1_def map_get_def fold_fmupd_const set_ms collapse_def)
  next
    case False
    then have "rep p1 i = rep p i"
      by (simp add: causalRepresentativeLocked_def p1_def map_get_def fold_fmupd_const)
    moreover have "rep p i |\<notin>| R"
      using False rep_absent [OF p, of i] R by (auto simp: set_ms)
    ultimately show ?thesis by (simp add: collapse_def)
  qed
  have rq: "rep q i = collapse (fset R) r (rep p i)" for i
  proof -
    have "rep q i = rep p2 i" by (simp add: q causalRepresentativeLocked_def)
    then show ?thesis by (simp add: same_shape_rep [OF shape] rep1)
  qed
  have st: "stored q = stored p" using same_shape_stored [OF shape] by (simp add: q p1_def)
  have dom: "fmdom (events q) = fmdom (events p)" using same_shape_dom [OF shape] by (simp add: q p1_def)
  have lq: "lam q i = (if stored p i \<and> rep p i |\<in>| R then v else lam p i)" for i
  proof -
    have "lam q i = lam p2 i" by (simp add: lam_def q)
    moreover have "lam p1 i = lam p i" "stored p1 i = stored p i" by (simp_all add: lam_def p1_def)
    moreover have "rep p1 i = r \<longleftrightarrow> rep p i |\<in>| R" using r(1) by (auto simp: rep1 collapse_def)
    ultimately show ?thesis by (auto simp: lam2 map_has_def)
  qed
  have up: "lam p i \<le> v" if "stored p i" "rep p i |\<in>| R" for i
    using that unfolding v_def by (intro fold_max_upper) (auto simp: set_ms)
  have ids: "event_ids q = event_ids p" by (simp add: map_keys_def dom)
  have cl: "class_list q c = (if c = r then ms else if c |\<in>| R then [] else class_list p c)" for c
    using r(1) unfolding class_list_def ids rq ms_def
    by (auto simp: collapse_def filter_empty_conv intro!: filter_cong)
  have look: "fmlookup (classMembers q) c =
      (if c = r then Some ms else if c |\<in>| R then None else fmlookup (classMembers p) c)" for c
    by (simp add: q fold_drop_lookup f p1_def ms_def sort_ids_sorted sorted_wrt_filter)
  have cmem: "fmlookup (classMembers q) c = (if stored q c \<and> rep q c = c then Some (class_list q c) else None)" for c
  proof (cases "c |\<in>| R")
    case True
    then have "stored p c" "rep q c = r" using R by (simp_all add: rq collapse_def)
    with True show ?thesis by (auto simp: look cl st)
  next
    case False
    then have "c \<noteq> r" "rep q c = c \<longleftrightarrow> rep p c = c" using r(1) by (auto simp: rq collapse_def)
    with False show ?thesis by (simp add: look st cl class_okD(7) [OF p])
  qed
  have cc: "fmdom (causalClass q) = fmdom (events q)"
  proof -
    have "fset (fmdom (causalClass q)) = fset (fmdom (events p))"
      by (auto simp: q f p1_def fold_fmupd_dom class_okD(1) [OF p] fset_of_list.rep_eq set_ms map_has_def)
    then show ?thesis unfolding dom fset_inject .
  qed
  have cclass: "fmlookup (causalClass q) i = (if i \<in> set ms then Some r else fmlookup (causalClass p) i)" for i
    by (simp add: q f p1_def fold_fmupd_const)
  have each: "stored q (rep q i) \<and> rep q (rep q i) = rep q i \<and> rep q i \<le> i
      \<and> fmlookup (causalClass q) i = Some (rep q i)" if "stored q i" for i
  proof -
    have i: "stored p i" using that st by simp
    note k = class_okD(3-6) [OF p i]
    have "stored p r" "rep p r = r" using R r(1) by auto
    moreover have "fmlookup (causalClass q) i = Some (rep q i)"
      using k(4) i by (simp add: cclass set_ms rq collapse_def)
    ultimately show ?thesis
      using k r i by (auto simp: st rq collapse_def intro: order_trans)
  qed
  have cq: "class_ok q"
    unfolding class_ok_def using cc class_okD(2) [OF p] each cmem by (simp add: st)
  have ev: "map_option (set_lamport 0) (fmlookup (events q) i) = map_option (set_lamport 0) (fmlookup (events p) i)" for i
    using shape by (simp add: same_shape_def q p1_def)
  show thesis
    by (rule that [of v]) (use cq st rq ev lq up f in \<open>simp_all add: q p1_def\<close>)
qed

lemma normalized_shape:
  fixes f g q1
  defines "q2 \<equiv> q1\<lparr>causalEdges := f, reverseCausal := g\<rparr>"
  assumes p: "class_ok p" "edges_ok p" and anti: "antichain (class_rel p) R" and r: "r \<in> R"
    and q1: "class_ok q1" "causalEdges q1 = causalEdges p" "\<forall>i. rep q1 i = collapse R r (rep p i)"
      "stored q1 = stored p"
    and f: "fmdom f = fmdom (events q1)" "fmdom g = fmdom (events q1)"
      "\<forall>x y. edge_in f x y \<longleftrightarrow> x \<noteq> y \<and> (\<exists>s t. edge_in (causalEdges q1) s t \<and> x = rep q1 s \<and> y = rep q1 t)"
      "\<forall>x y. edge_in g x y \<longleftrightarrow> edge_in f y x"
  shows "class_ok q2" "edges_ok q2" "class_rel q2 = collapsed (class_rel p) R r"
proof -
  have rep2: "rep q2 = rep q1" by (simp add: q2_def causalRepresentativeLocked_def fun_eq_iff)
  have cl: "class_list q2 = class_list q1" by (simp add: fun_eq_iff class_list_def rep2) (simp add: q2_def)
  have ev: "events q2 = events q1" "causalClass q2 = causalClass q1" "classMembers q2 = classMembers q1"
    by (simp_all add: q2_def)
  show c: "class_ok q2" using q1(1) unfolding class_ok_def rep2 cl ev .
  have e: "edge_in (causalEdges p) s t \<longleftrightarrow> (s, t) \<in> class_rel p" for s t
    by (simp add: class_rel_edges [OF p] edge_in_def)
  have st: "stored p s" "stored p t" "rep p s = s" "rep p t = t" if "(s, t) \<in> class_rel p" for s t
    using class_rel_stored [OF p that] by simp_all
  have ne: "collapse R r s \<noteq> collapse R r t" if "(s, t) \<in> class_rel p" for s t
  proof
    assume "collapse R r s = collapse R r t"
    then have "s = t \<or> s \<in> R \<and> t \<in> R" unfolding collapse_eq_iff [OF r] .
    then show False
      using that class_rel_stored [OF p that] antichainD [OF anti, of s t] by auto
  qed
  have ef: "edge_in f x y \<longleftrightarrow> (x, y) \<in> collapsed (class_rel p) R r" for x y
  proof
    assume "edge_in f x y"
    then obtain s t where "edge_in (causalEdges q1) s t" "x = rep q1 s" "y = rep q1 t"
      using f(3) [THEN spec, THEN spec, of x y] by blast
    then have "(s, t) \<in> class_rel p" "x = rep q1 s" "y = rep q1 t" by (simp_all add: e [symmetric] q1(2))
    with st show "(x, y) \<in> collapsed (class_rel p) R r" by (auto simp: collapsed_def q1(3))
  next
    assume "(x, y) \<in> collapsed (class_rel p) R r"
    then obtain s t where s: "(s, t) \<in> class_rel p" "x = collapse R r s" "y = collapse R r t"
      by (auto simp: collapsed_def)
    then have "edge_in (causalEdges q1) s t \<and> x = rep q1 s \<and> y = rep q1 t" "x \<noteq> y"
      using st [OF s(1)] ne [OF s(1)] by (simp_all add: q1(2,3) e)
    then show "edge_in f x y" using f(3) [THEN spec, THEN spec, of x y] by blast
  qed
  have ends: "stored q2 x \<and> stored q2 y \<and> rep q2 x = x \<and> rep q2 y = y \<and> x \<noteq> y" if fxy: "edge_in f x y" for x y
  proof -
    obtain s t where s: "edge_in (causalEdges q1) s t" "x = rep q1 s" "y = rep q1 t" "x \<noteq> y"
      using fxy f(3) [THEN spec, THEN spec, of x y] by blast
    then have "(s, t) \<in> class_rel p" by (simp add: e [symmetric] q1(2))
    then have "stored q1 s" "stored q1 t" using st by (simp_all add: q1(4))
    then show ?thesis using class_okD(3,4) [OF q1(1)] s(4) unfolding s(2,3) by (simp only: rep2 ev) simp
  qed
  have sh: "edges_shape q2"
    unfolding edges_shape_def
  proof (intro conjI allI impI)
    show "fmdom (causalEdges q2) = fmdom (events q2)" "fmdom (reverseCausal q2) = fmdom (events q2)"
      using f(1,2) by (simp_all add: q2_def)
    show "b |\<in>| edges_of q2 a \<longleftrightarrow> a |\<in>| redges_of q2 b" for a b
      using f(4) [THEN spec, THEN spec, of b a] by (simp add: edge_in_def q2_def)
  qed (use ends in \<open>simp_all add: edge_in_def q2_def\<close>)
  have "(x, y) \<in> class_rel q2 \<longleftrightarrow> (x, y) \<in> collapsed (class_rel p) R r" for x y
    using ef [of x y] unfolding class_rel_shape [OF c sh] by (simp add: edge_in_def q2_def)
  then show cr: "class_rel q2 = collapsed (class_rel p) R r" by auto
  show "edges_ok q2"
    using sh collapsed_acyclic [OF _ anti r] edges_okD(4) [OF p(2)] by (simp add: edges_ok_def cr)
qed

lemma equated_merged_order:
  assumes p: "class_ok p" "edges_ok p" and st: "\<forall>i \<in> set ids. stored p i" and xy: "stored p x" "stored p y"
  shows "merged_order (class_rel p) (rep p ` set ids) (rep p x) (rep p y) \<longleftrightarrow>
    (x, y) \<in> before p \<union> equated_pairs p ids"
proof -
  have "(\<exists>a \<in> rep p ` set ids. (rep p x, a) \<in> (class_rel p)\<^sup>*) \<longleftrightarrow> (\<exists>i \<in> set ids. at_or_before p x i)"
    "(\<exists>a \<in> rep p ` set ids. (a, rep p y) \<in> (class_rel p)\<^sup>*) \<longleftrightarrow> (\<exists>i \<in> set ids. at_or_before p i y)"
    using st xy by (auto simp: at_or_before_def)
  moreover have "rep p x \<in> rep p ` set ids \<longleftrightarrow> merges p ids x" "rep p y \<in> rep p ` set ids \<longleftrightarrow> merges p ids y"
    using xy by (auto simp: merges_iff)
  ultimately show ?thesis
    using xy by (simp add: merged_order_def equated_pairs_def before_def)
qed

text \<open>What a state after a successful merge of the classes of \<open>ids\<close> looks like.\<close>

definition classes_merged :: "poset \<Rightarrow> event_id list \<Rightarrow> poset \<Rightarrow> bool" where
  "classes_merged p ids q \<longleftrightarrow> poset_ok q \<and> stored q = stored p
     \<and> (\<forall>i j. stored p i \<and> stored p j \<longrightarrow>
          (rep q i = rep q j \<longleftrightarrow> rep p i = rep p j \<or> (merges p ids i \<and> merges p ids j)))
     \<and> before q = before p \<union> equated_pairs p ids
     \<and> (\<forall>i. lam p i \<le> lam q i)
     \<and> (\<forall>i. map_option (set_lamport 0) (fmlookup (events q) i)
            = map_option (set_lamport 0) (fmlookup (events p) i))
     \<and> lamportCounter q = lamportCounter p \<and> pendingEdges q = pendingEdges p
     \<and> (lamport_ok p \<and> (\<forall>i. stored p i \<longrightarrow> lam q i \<noteq> u64_max) \<longrightarrow> lamport_ok q)"

lemma before_stored: "(x, y) \<in> before p \<Longrightarrow> stored p x \<and> stored p y"
  by (simp add: before_def)

lemma equated_stored: "(x, y) \<in> equated_pairs p ids \<Longrightarrow> stored p x \<and> stored p y"
  by (auto simp: equated_pairs_def at_or_before_def)

lemma events_ok_similar:
  assumes "events_ok p" "timedEvents q = timedEvents p"
    "\<forall>i. map_option (set_lamport 0) (fmlookup (events q) i) = map_option (set_lamport 0) (fmlookup (events p) i)"
  shows "events_ok q"
    "\<And>x y. conflicting q x y = conflicting p x y"
proof -
  define p' where "p' = q\<lparr>events := events p\<rparr>"
  have shape: "same_shape p' q" using assms(3) by (simp add: same_shape_def p'_def)
  have "events_ok p'" using assms(1,2) by (simp add: events_ok_def timed_ids_def p'_def)
  then show "events_ok q" by (rule same_shape_events_ok [OF shape])
  show "conflicting q x y = conflicting p x y" for x y
    using same_shape_conflict [OF shape] by (simp add: conflicting_def p'_def)
qed

lemma fset_ids_least: "R \<noteq> {||} \<Longrightarrow> hd (fset_ids R) |\<in>| R \<and> (\<forall>c. c |\<in>| R \<longrightarrow> hd (fset_ids R) \<le> c)"
proof -
  assume "R \<noteq> {||}"
  then have ne: "fset_ids R \<noteq> []" by (metis bot_fset.rep_eq fset_inject list.set(1) set_fset_ids)
  then have "hd (fset_ids R) \<in> set (fset_ids R)" by (rule hd_in_set)
  then show ?thesis using hd_sorted_least [OF sorted_fset_ids, of _ R] by simp
qed

lemma merge_run:
  assumes p: "poset_ok p" and ids: "ids \<noteq> []" "\<forall>i \<in> set ids. stored p i"
    and nb: "\<forall>i \<in> set ids. \<forall>j \<in> set ids. (i, j) \<notin> before p"
    and nc: "\<forall>x y. (x, y) \<in> equated_pairs p ids \<longrightarrow> \<not> conflicting p x y"
  defines "R \<equiv> fset_of_list (map (rep p) ids)"
  defines "r \<equiv> hd (fset_ids R)"
  obtains q2 q where "normalizeCausalEdgesLocked (with_merged_class p R r) = Some q2"
    "propagateLamportLocked q2 r = Some q" "classes_merged p ids q"
proof -
  note ok = poset_okD [OF p]
  have fR: "fset R = rep p ` set ids" by (simp add: R_def fset_of_list.rep_eq)
  have inR: "c |\<in>| R \<longleftrightarrow> c \<in> rep p ` set ids" for c by (simp add: fR [symmetric])
  have R: "\<forall>c. c |\<in>| R \<longrightarrow> stored p c \<and> rep p c = c"
    using ids(2) class_okD(3,4) [OF ok(1)] by (auto simp: inR)
  have "R \<noteq> {||}" using fR ids(1) by (metis bot_fset.rep_eq image_is_empty set_empty)
  note r = fset_ids_least [OF this, folded r_def]
  have anti: "antichain (class_rel p) (fset R)"
    using nb ids(2) unfolding antichain_def fR before_def by auto
  obtain v where q1: "class_ok (with_merged_class p R r)" "stored (with_merged_class p R r) = stored p"
    "causalEdges (with_merged_class p R r) = causalEdges p"
    "reverseCausal (with_merged_class p R r) = reverseCausal p"
    "\<forall>i. rep (with_merged_class p R r) i = collapse (fset R) r (rep p i)"
    "\<forall>i. map_option (set_lamport 0) (fmlookup (events (with_merged_class p R r)) i)
       = map_option (set_lamport 0) (fmlookup (events p) i)"
    "\<forall>i. lam (with_merged_class p R r) i = (if stored p i \<and> rep p i |\<in>| R then v else lam p i)"
    "\<forall>i. stored p i \<and> rep p i |\<in>| R \<longrightarrow> lam p i \<le> v"
    "timedEvents (with_merged_class p R r) = timedEvents p"
    "lamportCounter (with_merged_class p R r) = lamportCounter p"
    "pendingEdges (with_merged_class p R r) = pendingEdges p"
    by (rule with_merged_class_ok [OF ok(1) R conjunct1 [OF r] conjunct2 [OF r]])
  define q1 where "q1 = with_merged_class p R r"
  note q1 = q1 [folded q1_def]
  have e: "edge_in (causalEdges p) s t \<longleftrightarrow> (s, t) \<in> class_rel p" for s t
    by (simp add: class_rel_edges [OF ok(1,2)] edge_in_def)
  have pre: "\<forall>s. s |\<in>| fmdom (causalEdges q1) \<longrightarrow> stored q1 (rep q1 s)"
    "\<forall>s t. edge_in (causalEdges q1) s t \<longrightarrow> stored q1 (rep q1 t)"
  proof -
    show "\<forall>s. s |\<in>| fmdom (causalEdges q1) \<longrightarrow> stored q1 (rep q1 s)"
      using class_okD(3) [OF q1(1)] by (simp add: q1(2,3) edges_okD(1) [OF ok(2)] map_has_def)
    show "\<forall>s t. edge_in (causalEdges q1) s t \<longrightarrow> stored q1 (rep q1 t)"
      using class_okD(3) [OF q1(1)] class_rel_stored [OF ok(1,2)] by (simp add: q1(2,3) e)
  qed
  obtain f g where fg: "normalizeCausalEdgesLocked q1 = Some (q1\<lparr>causalEdges := f, reverseCausal := g\<rparr>)"
    "fmdom f = fmdom (events q1)" "fmdom g = fmdom (events q1)"
    "\<forall>x y. edge_in f x y \<longleftrightarrow> x \<noteq> y \<and> (\<exists>s t. edge_in (causalEdges q1) s t \<and> x = rep q1 s \<and> y = rep q1 t)"
    "\<forall>x y. edge_in g x y \<longleftrightarrow> edge_in f y x"
    by (rule normalizeCausalEdges_ok [OF pre])
  define q2 where "q2 = q1\<lparr>causalEdges := f, reverseCausal := g\<rparr>"
  have fields: "events q2 = events q1" "stored q2 = stored p" "rep q2 = rep q1" "lam q2 = lam q1"
    "timedEvents q2 = timedEvents p" "lamportCounter q2 = lamportCounter p" "pendingEdges q2 = pendingEdges p"
    using q1 by (simp_all add: q2_def causalRepresentativeLocked_def lam_def fun_eq_iff)
  note q2 = normalized_shape [OF ok(1,2) anti conjunct1 [OF r] q1(1,3,5,2) fg(2-5), folded q2_def]
  have u2: "uniform_ok q2"
    unfolding uniform_ok_def
  proof (intro allI impI)
    fix i assume "stored q2 i"
    then have i: "stored p i" unfolding fields(2) .
    note k = class_okD(3,4) [OF ok(1) i]
    have "lam p i = lam p (rep p i)" using ok(5) i unfolding uniform_ok_def by blast
    then show "lam q2 i = lam q2 (rep q2 i)"
      using i k R r by (simp add: fields q1(5,7) collapse_def)
  qed
  have r2: "stored q2 r" "rep q2 r = r"
    unfolding fields(2,3) using R r by (simp_all add: q1(5) collapse_def)
  obtain q where q: "propagateLamportLocked q2 r = Some q" "raised q2 q"
    "\<lbrakk>\<And>j. stored q2 j \<Longrightarrow> lam q j \<noteq> u64_max; ordered_upto q2 ({rep q2 r} \<times> UNIV)\<rbrakk> \<Longrightarrow> lamport_ok q"
    using propagateLamportLocked_ok [OF q2(1,2) u2 r2(1)] by metis
  note shape = raised_shape [OF q(2)]
  have rq: "rep q i = collapse (fset R) r (rep p i)" for i
    by (simp add: same_shape_rep [OF shape] fields q1(5))
  have stq: "stored q = stored p" unfolding same_shape_stored [OF shape] by (rule fields(2))
  have bq: "before q = before p \<union> equated_pairs p ids"
  proof -
    have "(x, y) \<in> before q \<longleftrightarrow> (x, y) \<in> before p \<union> equated_pairs p ids" for x y
    proof (cases "stored p x \<and> stored p y")
      case True
      have "(x, y) \<in> before q \<longleftrightarrow> merged_order (class_rel p) (fset R) (rep p x) (rep p y)"
        using True collapsed_trancl [OF anti conjunct1 [OF r]]
        by (simp add: before_def stq rq same_shape_class_rel [OF shape] q2(3))
      then show ?thesis
        using equated_merged_order [OF ok(1,2) ids(2)] True by (simp add: fR)
    next
      case False
      then show ?thesis using before_stored [of x y p] equated_stored [of x y p ids] before_stored [of x y q] stq by auto
    qed
    then show ?thesis by auto
  qed
  have same: "\<forall>i. map_option (set_lamport 0) (fmlookup (events q) i) = map_option (set_lamport 0) (fmlookup (events p) i)"
    using shape by (simp add: same_shape_def fields q1(6))
  have te: "timedEvents q = timedEvents p" "lamportCounter q = lamportCounter p" "pendingEdges q = pendingEdges p"
    using same_shape_fields [OF shape] by (simp_all add: fields)
  note ev = events_ok_similar [OF ok(3) te(1) same]
  have "timing_ok q"
    using ok(4) nc unfolding timing_ok_def conflicting_def [symmetric] ev(2) bq by auto
  then have pq: "poset_ok q"
    unfolding poset_ok_def
    using ev(1) same_shape_class_ok [OF shape] same_shape_edges_ok [OF shape] q2 q(2) by (simp add: raised_def)
  have up: "lam p i \<le> lam q2 i" for i
    using q1(7,8) by (simp add: fields)
  have up': "lam p i \<le> lam q i" for i
    using up [of i] q(2) unfolding raised_def by (meson order_trans)
  have lo: "lamport_ok q" if lp: "lamport_ok p" and nm: "\<forall>i. stored p i \<longrightarrow> lam q i \<noteq> u64_max"
  proof (rule q(3))
    show "lam q j \<noteq> u64_max" if "stored q2 j" for j
      using nm that unfolding fields(2) by blast
    have "lam q2 x < lam q2 y \<or> x = r" if "(x, y) \<in> class_rel q2" for x y
    proof -
      obtain s t where st: "(s, t) \<in> class_rel p" "x = collapse (fset R) r s" "y = collapse (fset R) r t"
        using \<open>(x, y) \<in> class_rel q2\<close> by (auto simp: q2(3) collapsed_def)
      note k = class_rel_stored [OF ok(1,2) st(1)]
      have lst: "lam p s < lam p t" using lp st(1) by (auto simp: lamport_ok_def)
      show ?thesis
      proof (cases "s |\<in>| R")
        case True
        then show ?thesis by (simp add: st(2) collapse_def)
      next
        case False
        then have "lam q2 x = lam p s" using k by (simp add: st(2) collapse_def fields q1(7))
        moreover have "lam p t \<le> lam q2 y"
        proof (cases "t |\<in>| R")
          case True
          then have "lam p t \<le> v" using q1(8) k by auto
          then show ?thesis using True R r by (simp add: st(3) collapse_def fields q1(7))
        next
          case False
          then show ?thesis using up [of t] by (simp add: st(3) collapse_def)
        qed
        ultimately show ?thesis using lst by auto
      qed
    qed
    then show "ordered_upto q2 ({rep q2 r} \<times> UNIV)" by (auto simp: ordered_upto_def r2(2))
  qed
  have eqv: "rep q i = rep q j \<longleftrightarrow> rep p i = rep p j \<or> (merges p ids i \<and> merges p ids j)"
    if "stored p i" "stored p j" for i j
    using that unfolding rq collapse_eq_iff [OF conjunct1 [OF r]] unfolding fR by (simp add: merges_iff)
  have cm: "classes_merged p ids q"
    unfolding classes_merged_def using pq stq eqv bq up' same te lo by simp
  show thesis by (rule that [of q2 q]) (use fg(1) q(1) cm in \<open>simp_all add: q1_def [symmetric] q2_def\<close>)
qed

lemma equated_same_class:
  assumes acyc: "acyclic (class_rel p)" and same: "\<forall>i \<in> set ids. rep p i = rep p (hd ids)"
  shows "equated_pairs p ids \<subseteq> before p"
proof (rule subrelI)
  fix x y
  assume "(x, y) \<in> equated_pairs p ids"
  then obtain i j where ij: "i \<in> set ids" "at_or_before p x i" "j \<in> set ids" "at_or_before p j y"
    "\<not> (merges p ids x \<and> merges p ids y)" by (auto simp: equated_pairs_def)
  then have eq: "rep p i = rep p j" using same by metis
  have path: "(rep p x, rep p y) \<in> (class_rel p)\<^sup>*" "stored p x" "stored p y"
    using ij(2,4) eq by (auto simp: at_or_before_def intro: rtrancl_trans)
  have "rep p x \<noteq> rep p y"
  proof
    assume xy: "rep p x = rep p y"
    show False
    proof (cases "rep p x = rep p i")
      case True
      then show False using ij path xy by (auto simp: merges_def)
    next
      case False
      then have "(rep p x, rep p i) \<in> (class_rel p)\<^sup>+" "(rep p i, rep p y) \<in> (class_rel p)\<^sup>*"
        using ij(2,4) eq by (auto simp: at_or_before_def rtrancl_eq_or_trancl)
      then have "(rep p x, rep p x) \<in> (class_rel p)\<^sup>+" using xy by (metis trancl_rtrancl_trancl)
      then show False using acyc by (simp add: acyclic_def)
    qed
  qed
  then show "(x, y) \<in> before p" using path by (simp add: before_def rtrancl_eq_or_trancl)
qed

lemma addCausalEquivalence_unfold:
  assumes "class_ok p" "ids \<noteq> []" "\<forall>i \<in> set ids. stored p i"
  defines "R \<equiv> fset_of_list (map (rep p) ids)"
  shows "addCausalEquivalenceClassLocked p ids =
    (if strictlyRelatedPair p (fset_ids R) then Some (p, Some ErrCausalEquivalenceConflict)
     else if length (fset_ids R) = 1 then Some (p, None)
     else case validateCausalEquivalenceTimingLocked p R of
         Some err \<Rightarrow> Some (p, Some err)
       | None \<Rightarrow> do {
           q \<leftarrow> normalizeCausalEdgesLocked (with_merged_class p R (hd (fset_ids R)));
           q \<leftarrow> propagateLamportLocked q (hd (fset_ids R));
           Some (q, None)
         })"
proof -
  have l: "length ids \<noteq> 0" "\<not> list_ex (\<lambda>i. \<not> stored p i) ids"
    using assms(2,3) by (simp_all add: list_ex_iff)
  show ?thesis
    unfolding addCausalEquivalenceClassLocked_def Let_def ensure_ok [OF assms(1)] R_def [symmetric]
      with_merged_class_def if_not_P [OF l(1)] if_not_P [OF l(2)]
    by (simp only: split_def)
qed

lemma related_classes:
  assumes p: "class_ok p" "edges_ok p" and st: "\<forall>i \<in> set ids. stored p i"
  defines "R \<equiv> fset_of_list (map (rep p) ids)"
  shows "strictlyRelatedPair p (fset_ids R) \<longleftrightarrow> (\<exists>i \<in> set ids. \<exists>j \<in> set ids. (i, j) \<in> before p)"
proof -
  have fR: "fset R = rep p ` set ids" by (simp add: R_def fset_of_list.rep_eq)
  have pair: "rep p i \<noteq> rep p j \<and> canReachClassLocked p (rep p i) (rep p j) \<longleftrightarrow> (i, j) \<in> before p"
    if "stored p i" "stored p j" for i j
    using that before_not_equivalent [OF p(2), of i j]
    by (auto simp: canReachClassLocked_iff before_def rep_rep [OF p(1)])
  have "strictlyRelatedPair p (fset_ids R) \<longleftrightarrow>
      (\<exists>i \<in> set ids. \<exists>j \<in> set ids. rep p i \<noteq> rep p j \<and> canReachClassLocked p (rep p i) (rep p j))"
    unfolding strictlyRelatedPair_iff [OF distinct_fset_ids] set_fset_ids fR by blast
  also have "\<dots> \<longleftrightarrow> (\<exists>i \<in> set ids. \<exists>j \<in> set ids. (i, j) \<in> before p)"
    using pair st by (intro bex_cong refl) blast
  finally show ?thesis .
qed

lemma single_class:
  assumes "ids \<noteq> []"
  shows "length (fset_ids (fset_of_list (map (rep p) ids))) = 1 \<longleftrightarrow> (\<forall>i \<in> set ids. rep p i = rep p (hd ids))"
proof -
  have "length (fset_ids (fset_of_list (map (rep p) ids))) = card (rep p ` set ids)"
    by (simp add: length_fset_ids fcard.rep_eq fset_of_list.rep_eq)
  moreover have "card (rep p ` set ids) = 1 \<longleftrightarrow> (\<forall>i \<in> set ids. rep p i = rep p (hd ids))"
  proof
    assume "card (rep p ` set ids) = 1"
    then obtain c where "rep p ` set ids = {c}" by (auto simp: card_1_singleton_iff)
    then show "\<forall>i \<in> set ids. rep p i = rep p (hd ids)" using assms by (metis hd_in_set imageI singletonD)
  next
    assume "\<forall>i \<in> set ids. rep p i = rep p (hd ids)"
    then have "rep p ` set ids = (\<lambda>i. rep p (hd ids)) ` set ids" by (intro image_cong) auto
    also have "\<dots> = {rep p (hd ids)}" using assms by (simp add: image_constant_conv)
    finally show "card (rep p ` set ids) = 1" by simp
  qed
  ultimately show ?thesis by simp
qed

lemma addCausalEquivalence_ok:
  assumes p: "poset_ok p"
  obtains q where "addCausalEquivalenceClassLocked p ids = Some (q, equivalence_outcome p ids)"
    "equivalence_outcome p ids \<noteq> None \<longrightarrow> q = p" "equivalence_outcome p ids = None \<longrightarrow> classes_merged p ids q"
proof -
  note ok = poset_okD [OF p]
  show thesis
  proof (cases "ids = [] \<or> (\<exists>i \<in> set ids. \<not> stored p i)")
    case True
    then have "addCausalEquivalenceClassLocked p ids = Some (p, Some ErrEventNotFound)"
      unfolding addCausalEquivalenceClassLocked_def Let_def ensure_ok [OF ok(1)] list_ex_iff
      by (metis length_0_conv)
    moreover have "equivalence_outcome p ids = Some ErrEventNotFound"
      using True by (simp only: equivalence_outcome_def if_True)
    ultimately show thesis by (intro that [of p]) simp_all
  next
    case False
    then have ids: "ids \<noteq> []" "\<forall>i \<in> set ids. stored p i" by auto
    define rel same conf where "rel \<longleftrightarrow> (\<exists>i \<in> set ids. \<exists>j \<in> set ids. (i, j) \<in> before p)"
      and "same \<longleftrightarrow> (\<forall>i \<in> set ids. rep p i = rep p (hd ids))"
      and "conf \<longleftrightarrow> (\<exists>(x, y) \<in> equated_pairs p ids. conflicting p x y)"
    have out: "equivalence_outcome p ids =
        (if rel then Some ErrCausalEquivalenceConflict else if same then None
         else if conf then Some ErrTimingCausality else None)"
      unfolding equivalence_outcome_def if_not_P [OF False] rel_def same_def conf_def ..
    note run = addCausalEquivalence_unfold [OF ok(1) ids, unfolded related_classes [OF ok(1,2) ids(2)]
        single_class [OF ids(1)] validateCausalEquivalence_ok [OF ok(1,2) ids(2)],
        folded rel_def same_def conf_def]
    consider "rel" | "\<not> rel" "same" | "\<not> rel" "\<not> same" "conf" | "\<not> rel" "\<not> same" "\<not> conf" by blast
    then show thesis
    proof cases
      case 1
      then show thesis using run out by (intro that [of p]) simp_all
    next
      case 2
      have sub: "equated_pairs p ids \<subseteq> before p"
        using equated_same_class [OF edges_okD(4) [OF ok(2)]] 2 by (simp add: same_def)
      have "rep p i = rep p j" if "merges p ids i" "merges p ids j" for i j
        using that 2(2) unfolding merges_def same_def by metis
      then have "classes_merged p ids p"
        using p sub by (auto simp: classes_merged_def)
      with 2 show thesis using run out by (intro that [of p]) simp_all
    next
      case 3
      then show thesis using run out by (intro that [of p]) simp_all
    next
      case 4
      have nc: "\<forall>x y. (x, y) \<in> equated_pairs p ids \<longrightarrow> \<not> conflicting p x y"
        using 4(3) by (auto simp: conf_def)
      have nb: "\<forall>i \<in> set ids. \<forall>j \<in> set ids. (i, j) \<notin> before p"
        using 4(1) by (auto simp: rel_def)
      obtain q2 q where q: "normalizeCausalEdgesLocked
            (with_merged_class p (fset_of_list (map (rep p) ids)) (hd (fset_ids (fset_of_list (map (rep p) ids))))) = Some q2"
        "propagateLamportLocked q2 (hd (fset_ids (fset_of_list (map (rep p) ids)))) = Some q" "classes_merged p ids q"
        by (rule merge_run [OF p ids nb nc])
      with 4 show thesis using run out by (intro that [of q]) simp_all
    qed
  qed
qed

section \<open>Properties\<close>

text \<open>C4: \<open>AddCausalEquivalenceClass\<close> is atomic and total on a well-formed poset.  It always
  returns; its answer is \<open>ErrEventNotFound\<close> for an empty list or an unknown occurrence,
  \<open>ErrCausalEquivalenceConflict\<close> exactly when two of the occurrences are strictly ordered,
  \<open>ErrTimingCausality\<close> exactly when a pair the merge would newly order conflicts on a shared clock
  (unless all are equivalent already), and every error leaves the poset untouched.\<close>

theorem AddCausalEquivalenceClass_outcome:
  assumes "poset_ok p"
  shows "\<exists>q. AddCausalEquivalenceClass p ids = Some (q, equivalence_outcome p ids)
    \<and> (equivalence_outcome p ids \<noteq> None \<longrightarrow> q = p)"
  using addCausalEquivalence_ok [OF assms, of ids] unfolding AddCausalEquivalenceClass_def by metis

theorem AddCausalEquivalenceClass_outcome_witness:
  "\<exists>q. AddCausalEquivalenceClass ordered_events [''a'', ''b''] = Some (q, Some ErrCausalEquivalenceConflict)
     \<and> q = ordered_events"
proof -
  have st: "stored ordered_events ''a''" "stored ordered_events ''b''"
    and rel: "rep ordered_events ''a'' = ''a''" "rep ordered_events ''b'' = ''b''" by code_simp+
  have "canReachClassLocked ordered_events ''a'' ''b''" by code_simp
  then have "(''a'', ''b'') \<in> before ordered_events"
    using st rel by (simp add: canReachClassLocked_iff before_def)
  then have "equivalence_outcome ordered_events [''a'', ''b''] = Some ErrCausalEquivalenceConflict"
    using st by (simp add: equivalence_outcome_def)
  then show ?thesis
    using AddCausalEquivalenceClass_outcome [OF ordered_events_ok(1), of "[''a'', ''b'']"] by simp
qed

text \<open>C3: After a successful \<open>AddCausalEquivalent left right\<close> the two occurrences are equivalent, the
  other equivalences are unchanged apart from the members of the two classes joining, and the strict
  order is the old one plus everything up to one of the two before everything after one of them.  The
  poset stays well-formed, in particular acyclic and clock-consistent, no Lamport position drops, and
  the positions are ordered again unless one reached the 64-bit maximum.\<close>

theorem AddCausalEquivalent_merges:
  assumes "poset_ok p" "AddCausalEquivalent p l r = Some (q, None)"
  shows "poset_ok q \<and> IsCausallyEquivalent q l r
    \<and> (\<forall>i j. stored p i \<and> stored p j \<longrightarrow>
          (rep q i = rep q j \<longleftrightarrow> rep p i = rep p j \<or> (merges p [l, r] i \<and> merges p [l, r] j)))
    \<and> before q = before p \<union> equated_pairs p [l, r]
    \<and> (\<forall>i. lam p i \<le> lam q i)
    \<and> (lamport_ok p \<and> (\<forall>i. stored p i \<longrightarrow> lam q i \<noteq> u64_max) \<longrightarrow> lamport_ok q)"
proof -
  have out: "equivalence_outcome p [l, r] = None" and cm: "classes_merged p [l, r] q"
    using addCausalEquivalence_ok [OF assms(1), of "[l, r]"] assms(2)
    unfolding AddCausalEquivalent_def AddCausalEquivalenceClass_def by (metis option.inject prod.inject)+
  from out have st: "stored p l" "stored p r" by (auto simp: equivalence_outcome_def split: if_splits)
  have "rep q l = rep q r"
    using cm st by (auto simp: classes_merged_def merges_def)
  moreover have "stored q l" "stored q r" using cm st by (simp_all add: classes_merged_def)
  ultimately have "IsCausallyEquivalent q l r" by (simp add: IsCausallyEquivalent_def)
  with cm show ?thesis by (simp add: classes_merged_def)
qed

definition three_events :: poset where
  "three_events = fst (AddEvent ordered_events (Some (sample_event ''c'')))"

definition equated_events :: poset where
  "equated_events = (case AddCausalEquivalent three_events ''b'' ''c'' of Some (q, _) \<Rightarrow> q | None \<Rightarrow> NewPoset)"

lemma three_events_ok: "poset_ok three_events" "lamport_ok three_events"
proof -
  have "\<not> stored ordered_events ''c''" by code_simp
  then show "poset_ok three_events" "lamport_ok three_events"
    unfolding three_events_def by (simp_all add: sample_event_run ordered_events_ok)
qed

lemma equated_events_run: "AddCausalEquivalent three_events ''b'' ''c'' = Some (equated_events, None)"
proof -
  have "map_option snd (AddCausalEquivalent three_events ''b'' ''c'') = Some None" by code_simp
  then show ?thesis by (auto simp: equated_events_def)
qed

lemma equated_events_ok: "poset_ok equated_events"
proof -
  obtain q where q: "addCausalEquivalenceClassLocked three_events [''b'', ''c''] =
      Some (q, equivalence_outcome three_events [''b'', ''c''])"
    "equivalence_outcome three_events [''b'', ''c''] = None \<longrightarrow> classes_merged three_events [''b'', ''c''] q"
    using addCausalEquivalence_ok [OF three_events_ok(1), of "[''b'', ''c'']"] by metis
  with equated_events_run have "classes_merged three_events [''b'', ''c''] equated_events"
    by (simp add: AddCausalEquivalent_def AddCausalEquivalenceClass_def)
  then show ?thesis by (simp add: classes_merged_def)
qed

theorem AddCausalEquivalent_merges_witness:
  "IsCausallyEquivalent equated_events ''b'' ''c''
   \<and> before equated_events = before three_events \<union> equated_pairs three_events [''b'', ''c'']"
  using AddCausalEquivalent_merges [OF three_events_ok(1) equated_events_run] by blast

text \<open>The empty event ID is accepted as an occurrence but is also the mark of an absent class
  entry, so equating it with another occurrence reports success and leaves the two inequivalent: the
  guarantee above needs the nonempty IDs that well-formedness asks for.\<close>

lemma empty_event_id_is_not_equated:
  "let p = fst (AddEvent one_event (Some (sample_event '''')))
   in snd (AddEvent one_event (Some (sample_event ''''))) = None
      \<and> (\<exists>q. AddCausalEquivalent p '''' ''a'' = Some (q, None) \<and> \<not> IsCausallyEquivalent q '''' ''a'')"
proof -
  define p where "p = fst (AddEvent one_event (Some (sample_event '''')))"
  have "map_option (\<lambda>(q, r). (r, IsCausallyEquivalent q '''' ''a'')) (AddCausalEquivalent p '''' ''a'')
      = Some (None, False)" unfolding p_def by code_simp
  moreover have "snd (AddEvent one_event (Some (sample_event ''''))) = None" by code_simp
  ultimately show ?thesis by (auto simp: p_def [symmetric] Let_def)
qed

end
