(* ===== verification/Poset_Query.thy ===== *)
theory Poset_Query
  imports Poset_Equiv
begin

text \<open>
  The read-only queries of \<open>poset.go\<close> and their interface names in \<open>store.go\<close>.  Each answers over the
  causal order \<open>before\<close> of the previous theories: by set comprehension over the stored IDs, in
  ascending order, with the stored events.  A listed class member that is not stored (impossible in a
  well-formed poset) would be a nil event, here \<^term>\<open>None\<close>.
\<close>

section \<open>Operations\<close>

definition Events :: "poset \<Rightarrow> event_set" where
  "Events p = sortEventSet (map (\<lambda>i. snapshotEvent (the (fmlookup (events p) i))) (event_ids p))"

definition EventsByName :: "poset \<Rightarrow> string \<Rightarrow> event_set" where
  "EventsByName p name =
     sortEventSet (concat (map (\<lambda>i.
       let e = the (fmlookup (events p) i)
       in map (\<lambda>ob. if \<not> ev_deterministic e \<and> isPrimaryObservation e ob then e else eventView e ob)
            (observationsNamed e name)) (event_ids p)))"

definition IsCausallyBefore :: "poset \<Rightarrow> event_id \<Rightarrow> event_id \<Rightarrow> bool" where
  "IsCausallyBefore p a b =
     (if a = b then False
      else if \<not> stored p a then False
      else if \<not> stored p b then False
      else canReachLocked p a b)"

definition IsCausallyIndependent :: "poset \<Rightarrow> event_id \<Rightarrow> event_id \<Rightarrow> bool" where
  "IsCausallyIndependent p a b =
     (if a = b then False
      else if \<not> stored p a then False
      else if \<not> stored p b then False
      else if rep p a = rep p b then False
      else \<not> canReachLocked p a b \<and> \<not> canReachLocked p b a)"

fun memberEvents :: "poset \<Rightarrow> event_id list \<Rightarrow> event_set option" where
  \<comment> \<open>\<open>snapshotEvent(p.events[member])\<close> for every listed member\<close>
  "memberEvents p [] = Some []"
| "memberEvents p (member # members) =
     do {
       e \<leftarrow> fmlookup (events p) member;
       es \<leftarrow> memberEvents p members;
       Some (snapshotEvent e # es)
     }"

definition DirectCauses :: "poset \<Rightarrow> event_id \<Rightarrow> event_set option" where
  "DirectCauses p i =
     (if \<not> stored p i then Some []
      else map_option sortEventSet (memberEvents p
        (concat (map (causalClassMembersLocked p) (causalClassPredecessorsLocked p (rep p i))))))"

definition DirectEffects :: "poset \<Rightarrow> event_id \<Rightarrow> event_set option" where
  "DirectEffects p i =
     (if \<not> stored p i then Some []
      else map_option sortEventSet (memberEvents p
        (concat (map (causalClassMembersLocked p) (causalClassSuccessorsLocked p (rep p i))))))"

definition selectEvents :: "poset \<Rightarrow> (event_id \<Rightarrow> bool) \<Rightarrow> event_set" where
  \<comment> \<open>the loop over \<open>p.events\<close> that keeps the events whose ID satisfies a test, then sorts\<close>
  "selectEvents p keep =
     sortEventSet (map (\<lambda>i. snapshotEvent (the (fmlookup (events p) i))) (filter keep (event_ids p)))"

definition CausalAncestors :: "poset \<Rightarrow> event_id \<Rightarrow> event_set" where
  "CausalAncestors p i =
     (if \<not> stored p i then []
      else let classes = reachableCausalClassesLocked p i False |-| {|rep p i|}
           in selectEvents p (\<lambda>candidate. rep p candidate |\<in>| classes))"

definition CausalDescendants :: "poset \<Rightarrow> event_id \<Rightarrow> event_set" where
  "CausalDescendants p i =
     (if \<not> stored p i then []
      else let classes = reachableCausalClassesLocked p i True |-| {|rep p i|}
           in selectEvents p (\<lambda>candidate. rep p candidate |\<in>| classes))"

definition CausalChain :: "poset \<Rightarrow> event_id \<Rightarrow> event_id \<Rightarrow> go_error + event_set" where
  "CausalChain p from to =
     (if \<not> stored p from then Inl ErrEventNotFound
      else if \<not> stored p to then Inl ErrEventNotFound
      else if \<not> canReachLocked p from to then Inl ErrNoPath
      else
        let forwardReachable = reachableCausalClassesLocked p from True;
            backwardReachable = reachableCausalClassesLocked p to False
        in Inr (selectEvents p (\<lambda>i. rep p i |\<in>| forwardReachable \<and> rep p i |\<in>| backwardReachable)))"

definition collectReachableLocked ::
    "poset \<Rightarrow> event_id \<Rightarrow> event_id fset \<Rightarrow> bool \<Rightarrow> event_id fset" where
  "collectReachableLocked p start visited forward =
     (let classes = reachableCausalClassesLocked p start forward
      in fold (\<lambda>i visited. if rep p i |\<in>| classes then finsert i visited else visited)
           (event_ids p) visited)"

definition Roots :: "poset \<Rightarrow> event_set" where
  "Roots p = selectEvents p (\<lambda>i. length (causalClassPredecessorsLocked p (rep p i)) = 0)"

definition Leaves :: "poset \<Rightarrow> event_set" where
  "Leaves p = selectEvents p (\<lambda>i. length (causalClassSuccessorsLocked p (rep p i)) = 0)"

text \<open>The interface methods of \<open>store.go\<close>.\<close>

definition Add :: "poset \<Rightarrow> event option \<Rightarrow> poset \<times> go_error option" where
  "Add p e = AddEvent p e"

definition Get :: "poset \<Rightarrow> event_id \<Rightarrow> event option" where
  "Get p i = Event p i"

definition All :: "poset \<Rightarrow> event_set" where
  "All p = Events p"

definition ByName :: "poset \<Rightarrow> string \<Rightarrow> event_set" where
  "ByName p name = EventsByName p name"

definition AddEdge :: "poset \<Rightarrow> event_id \<Rightarrow> event_id \<Rightarrow> (poset \<times> go_error option) option" where
  "AddEdge p from to = AddCausal p from to"

definition AddEquivalent :: "poset \<Rightarrow> event_id \<Rightarrow> event_id \<Rightarrow> (poset \<times> go_error option) option" where
  "AddEquivalent p left right = AddCausalEquivalent p left right"

definition DirectPredecessors :: "poset \<Rightarrow> event_id \<Rightarrow> event_id list option" where
  "DirectPredecessors p i = map_option (map ev_id) (DirectCauses p i)"

definition DirectSuccessors :: "poset \<Rightarrow> event_id \<Rightarrow> event_id list option" where
  "DirectSuccessors p i = map_option (map ev_id) (DirectEffects p i)"

definition HasPath :: "poset \<Rightarrow> event_id \<Rightarrow> event_id \<Rightarrow> bool" where
  "HasPath p from to = IsCausallyBefore p from to"

section \<open>Answers over the causal order\<close>

lemma IsCausallyBefore_iff:
  assumes "edges_ok p"
  shows "IsCausallyBefore p a b \<longleftrightarrow> (a, b) \<in> before p"
  using before_irrefl [OF assms, of a] before_not_equivalent [OF assms, of a b]
  by (auto simp: IsCausallyBefore_def canReachLocked_def canReachClassLocked_iff before_def)

lemma IsCausallyEquivalent_iff: "IsCausallyEquivalent p a b \<longleftrightarrow> stored p a \<and> stored p b \<and> rep p a = rep p b"
  by (simp add: IsCausallyEquivalent_def)

lemma IsCausallyIndependent_iff:
  "IsCausallyIndependent p a b \<longleftrightarrow> stored p a \<and> stored p b \<and> rep p a \<noteq> rep p b
     \<and> (a, b) \<notin> before p \<and> (b, a) \<notin> before p"
  by (auto simp: IsCausallyIndependent_def canReachLocked_def canReachClassLocked_iff before_def)

text \<open>A list of events that is exactly the stored events with the given IDs, in ID order.\<close>

definition lists_events :: "poset \<Rightarrow> event_set \<Rightarrow> (event_id \<Rightarrow> bool) \<Rightarrow> bool" where
  "lists_events p es P \<longleftrightarrow> map ev_id es = filter P (event_ids p)
     \<and> (\<forall>e \<in> set es. fmlookup (events p) (ev_id e) = Some e)"

lemma stored_event:
  assumes "events_ok p" "i |\<in>| fmdom (events p)"
  obtains e where "fmlookup (events p) i = Some e" "ev_id e = i"
  using assms by (auto simp: events_ok_def fmlookup_dom_iff)

lemma selectEvents_lists:
  assumes "events_ok p"
  shows "lists_events p (selectEvents p P) P"
proof -
  let ?get = "\<lambda>i. snapshotEvent (the (fmlookup (events p) i))"
  have get: "\<exists>e. ?get i = e \<and> ev_id e = i \<and> fmlookup (events p) i = Some e" if "i \<in> set (event_ids p)" for i
  proof -
    from that have "i |\<in>| fmdom (events p)" by simp
    then obtain e where "fmlookup (events p) i = Some e" "ev_id e = i" by (rule stored_event [OF assms])
    then show ?thesis by simp
  qed
  have ids: "map ev_id (map ?get (filter P (event_ids p))) = filter P (event_ids p)"
    unfolding map_map by (rule map_idI) (use get in fastforce)
  have "map ev_id (selectEvents p P) = filter P (event_ids p)"
    unfolding selectEvents_def sortEventSet_ids ids by (simp add: sort_key_id_if_sorted sorted_wrt_filter)
  moreover have "fmlookup (events p) (ev_id e) = Some e" if "e \<in> set (selectEvents p P)" for e
  proof -
    from that obtain i where "i \<in> set (event_ids p)" "e = ?get i"
      by (auto simp: selectEvents_def simp del: snapshotEvent_id set_map_keys)
    with get [of i] show ?thesis by auto
  qed
  ultimately show ?thesis by (simp add: lists_events_def)
qed

lemma Events_lists: "events_ok p \<Longrightarrow> lists_events p (Events p) (\<lambda>_. True)"
  using selectEvents_lists [of p "\<lambda>_. True"] by (simp add: Events_def selectEvents_def)

lemma lists_events_cong:
  "lists_events p es P \<Longrightarrow> (\<And>i. stored p i \<Longrightarrow> P i \<longleftrightarrow> Q i) \<Longrightarrow> lists_events p es Q"
  unfolding lists_events_def by (auto simp: map_has_def intro!: filter_cong)

lemma memberEvents_Some:
  assumes "events_ok p" "\<forall>m \<in> set ms. stored p m"
  shows "\<exists>es. memberEvents p ms = Some es \<and> map ev_id es = ms
    \<and> (\<forall>e \<in> set es. fmlookup (events p) (ev_id e) = Some e)"
  using assms(2)
proof (induction ms)
  case (Cons m ms)
  then have "m |\<in>| fmdom (events p)" by (simp add: map_has_def)
  then obtain e where "fmlookup (events p) m = Some e" "ev_id e = m"
    by (rule stored_event [OF assms(1)])
  with Cons show ?case by auto
qed simp

lemma class_members_concat:
  assumes "class_ok p" "distinct cs" "\<forall>c \<in> set cs. stored p c \<and> rep p c = c"
  shows "distinct (concat (map (causalClassMembersLocked p) cs))"
    "set (concat (map (causalClassMembersLocked p) cs)) = {i. stored p i \<and> rep p i \<in> set cs}"
proof -
  have mem: "causalClassMembersLocked p c = class_list p c" if "c \<in> set cs" for c
    using assms that by (simp add: causalClassMembersLocked_ok)
  then have eq: "map (causalClassMembersLocked p) cs = map (class_list p) cs" by simp
  show "distinct (concat (map (causalClassMembersLocked p) cs))"
    unfolding eq using assms(2)
  proof (induction cs)
    case (Cons c cs)
    then show ?case by (auto simp: set_class_list)
  qed simp
  show "set (concat (map (causalClassMembersLocked p) cs)) = {i. stored p i \<and> rep p i \<in> set cs}"
    unfolding eq by (auto simp: set_class_list)
qed

lemma member_query:
  assumes "class_ok p" "events_ok p" "distinct cs" "\<forall>c \<in> set cs. stored p c \<and> rep p c = c"
  shows "\<exists>es. map_option sortEventSet (memberEvents p (concat (map (causalClassMembersLocked p) cs))) = Some es
    \<and> lists_events p es (\<lambda>i. rep p i \<in> set cs)"
proof -
  let ?ms = "concat (map (causalClassMembersLocked p) cs)"
  note ms = class_members_concat [OF assms(1,3,4)]
  obtain es where es: "memberEvents p ?ms = Some es" "map ev_id es = ?ms"
    "\<forall>e \<in> set es. fmlookup (events p) (ev_id e) = Some e"
  proof -
    have "\<forall>m \<in> set ?ms. stored p m" unfolding ms(2) by simp
    from memberEvents_Some [OF assms(2) this] that show thesis by blast
  qed
  have "sort ?ms = filter (\<lambda>i. rep p i \<in> set cs) (event_ids p)"
    by (rule sorted_distinct_set_eq) (use ms in \<open>auto simp: sorted_wrt_filter map_has_def\<close>)
  then show ?thesis using es by (auto simp: lists_events_def sortEventSet_ids)
qed

lemma reach_backward:
  assumes "class_ok p" "edges_ok p" "stored p i" "stored p a"
  shows "rep p a |\<in>| reachableCausalClassesLocked p i False |-| {|rep p i|} \<longleftrightarrow> (a, i) \<in> before p"
    "rep p a |\<in>| reachableCausalClassesLocked p i False \<longleftrightarrow> at_or_before p a i"
    "rep p a |\<in>| reachableCausalClassesLocked p i True |-| {|rep p i|} \<longleftrightarrow> (i, a) \<in> before p"
    "rep p a |\<in>| reachableCausalClassesLocked p i True \<longleftrightarrow> at_or_before p i a"
proof -
  have ne: "(rep p a, rep p i) \<in> (class_rel p)\<^sup>+ \<Longrightarrow> rep p a \<noteq> rep p i"
    "(rep p i, rep p a) \<in> (class_rel p)\<^sup>+ \<Longrightarrow> rep p a \<noteq> rep p i"
    using edges_okD(4) [OF assms(2)] by (auto simp: acyclic_def)
  show "rep p a |\<in>| reachableCausalClassesLocked p i False |-| {|rep p i|} \<longleftrightarrow> (a, i) \<in> before p"
    "rep p a |\<in>| reachableCausalClassesLocked p i False \<longleftrightarrow> at_or_before p a i"
    "rep p a |\<in>| reachableCausalClassesLocked p i True |-| {|rep p i|} \<longleftrightarrow> (i, a) \<in> before p"
    "rep p a |\<in>| reachableCausalClassesLocked p i True \<longleftrightarrow> at_or_before p i a"
    using ne assms(3,4)
    by (auto simp: reachableCausalClassesLocked_backward reachableCausalClassesLocked_forward
        class_rel_rev_converse [OF assms(1,2)] rtrancl_converse trancl_converse before_def at_or_before_def rtrancl_eq_or_trancl)
qed

lemma ancestors_lists:
  assumes "poset_ok p"
  shows "lists_events p (CausalAncestors p i) (\<lambda>a. (a, i) \<in> before p)"
    "lists_events p (CausalDescendants p i) (\<lambda>a. (i, a) \<in> before p)"
proof -
  note ok = poset_okD [OF assms]
  have none: "lists_events p [] (\<lambda>a. (a, i) \<in> before p)" "lists_events p [] (\<lambda>a. (i, a) \<in> before p)"
    if "\<not> stored p i" using that by (simp_all add: lists_events_def before_def)
  show "lists_events p (CausalAncestors p i) (\<lambda>a. (a, i) \<in> before p)"
    using none reach_backward(1) [OF ok(1,2)]
      lists_events_cong [OF selectEvents_lists [OF ok(3)], of _ "\<lambda>a. (a, i) \<in> before p"]
    by (cases "stored p i") (simp_all add: CausalAncestors_def Let_def)
  show "lists_events p (CausalDescendants p i) (\<lambda>a. (i, a) \<in> before p)"
    using none reach_backward(3) [OF ok(1,2)]
      lists_events_cong [OF selectEvents_lists [OF ok(3)], of _ "\<lambda>a. (i, a) \<in> before p"]
    by (cases "stored p i") (simp_all add: CausalDescendants_def Let_def)
qed

lemma chain_lists:
  assumes "poset_ok p" "stored p f" "stored p t"
  shows "lists_events p (selectEvents p (\<lambda>i. rep p i |\<in>| reachableCausalClassesLocked p f True
      \<and> rep p i |\<in>| reachableCausalClassesLocked p t False)) (\<lambda>x. at_or_before p f x \<and> at_or_before p x t)"
  using poset_okD [OF assms(1)] assms(2,3)
  by (intro lists_events_cong [OF selectEvents_lists]) (simp_all add: reach_backward)

lemma class_predecessors:
  assumes "class_ok p" "edges_ok p"
  shows "c \<in> set (causalClassPredecessorsLocked p r) \<longleftrightarrow> (c, r) \<in> class_rel p"
  using class_rel_rev_iff [of r c p] class_rel_rev_converse [OF assms] by auto

lemma direct_lists:
  assumes "poset_ok p" "stored p i"
  shows "\<exists>es. DirectCauses p i = Some es \<and> lists_events p es (\<lambda>a. (rep p a, rep p i) \<in> class_rel p)"
    "\<exists>es. DirectEffects p i = Some es \<and> lists_events p es (\<lambda>a. (rep p i, rep p a) \<in> class_rel p)"
proof -
  note ok = poset_okD [OF assms(1)]
  have st: "\<forall>c \<in> set (causalClassPredecessorsLocked p r). stored p c \<and> rep p c = c"
    "\<forall>c \<in> set (causalClassSuccessorsLocked p r). stored p c \<and> rep p c = c" for r
    using class_rel_stored [OF ok(1,2)] by (auto simp: class_predecessors [OF ok(1,2)] class_rel_iff [symmetric])
  have d: "distinct (causalClassPredecessorsLocked p r)" "distinct (causalClassSuccessorsLocked p r)" for r
    by (simp_all add: causalClassPredecessorsLocked_def causalClassSuccessorsLocked_def)
  show "\<exists>es. DirectCauses p i = Some es \<and> lists_events p es (\<lambda>a. (rep p a, rep p i) \<in> class_rel p)"
    using member_query [OF ok(1,3) d(1) st(1)] assms(2)
    by (simp add: DirectCauses_def class_predecessors [OF ok(1,2)])
  show "\<exists>es. DirectEffects p i = Some es \<and> lists_events p es (\<lambda>a. (rep p i, rep p a) \<in> class_rel p)"
    using member_query [OF ok(1,3) d(2) st(2)] assms(2)
    by (simp add: DirectEffects_def class_rel_iff [symmetric])
qed

lemma roots_lists:
  assumes "poset_ok p"
  shows "lists_events p (Roots p) (\<lambda>i. \<forall>x. (x, i) \<notin> before p)"
    "lists_events p (Leaves p) (\<lambda>i. \<forall>x. (i, x) \<notin> before p)"
proof -
  note ok = poset_okD [OF assms]
  have cr: "(x, y) \<in> class_rel p \<Longrightarrow> (x, y) \<in> before p" for x y
    using class_rel_stored [OF ok(1,2), of x y] by (auto simp: before_def)
  have rep: "(rep p x, rep p y) \<in> before p \<longleftrightarrow> (x, y) \<in> before p" if "stored p x" "stored p y" for x y
    using that by (simp add: before_def rep_stored [OF ok(1)] rep_rep [OF ok(1)])
  have pre: "causalClassPredecessorsLocked p (rep p i) = [] \<longleftrightarrow> (\<forall>x. (x, i) \<notin> before p)" if i: "stored p i" for i
  proof
    assume none: "causalClassPredecessorsLocked p (rep p i) = []"
    show "\<forall>x. (x, i) \<notin> before p"
    proof (intro allI notI)
      fix x assume "(x, i) \<in> before p"
      then obtain c where "(c, rep p i) \<in> class_rel p" by (auto simp: before_def elim: tranclE)
      then show False using none class_predecessors [OF ok(1,2)] by (metis list.set_cases list.distinct(1))
    qed
  next
    assume none: "\<forall>x. (x, i) \<notin> before p"
    have "(c, rep p i) \<notin> class_rel p" for c
      using none rep i class_rel_stored [OF ok(1,2), of c "rep p i"] cr by metis
    then have "set (causalClassPredecessorsLocked p (rep p i)) = {}"
      by (intro equals0I) (simp add: class_predecessors [OF ok(1,2)])
    then show "causalClassPredecessorsLocked p (rep p i) = []" by simp
  qed
  have suc: "causalClassSuccessorsLocked p (rep p i) = [] \<longleftrightarrow> (\<forall>x. (i, x) \<notin> before p)" if i: "stored p i" for i
  proof
    assume none: "causalClassSuccessorsLocked p (rep p i) = []"
    show "\<forall>x. (i, x) \<notin> before p"
    proof (intro allI notI)
      fix x assume "(i, x) \<in> before p"
      then obtain c where "(rep p i, c) \<in> class_rel p" by (auto simp: before_def dest: tranclD)
      then show False using none by (simp add: class_rel_iff)
    qed
  next
    assume none: "\<forall>x. (i, x) \<notin> before p"
    have "(rep p i, c) \<notin> class_rel p" for c
      using none rep i class_rel_stored [OF ok(1,2), of "rep p i" c] cr by metis
    then have "set (causalClassSuccessorsLocked p (rep p i)) = {}"
      by (intro equals0I) (simp add: class_rel_iff [symmetric])
    then show "causalClassSuccessorsLocked p (rep p i) = []" by simp
  qed
  show "lists_events p (Roots p) (\<lambda>i. \<forall>x. (x, i) \<notin> before p)"
    unfolding Roots_def by (rule lists_events_cong [OF selectEvents_lists [OF ok(3)]]) (simp add: pre)
  show "lists_events p (Leaves p) (\<lambda>i. \<forall>x. (i, x) \<notin> before p)"
    unfolding Leaves_def by (rule lists_events_cong [OF selectEvents_lists [OF ok(3)]]) (simp add: suc)
qed

lemma collectReachable_set:
  "fset (collectReachableLocked p start visited forward) =
     fset visited \<union> {i. stored p i \<and> rep p i |\<in>| reachableCausalClassesLocked p start forward}"
proof -
  have "fset (fold (\<lambda>i visited. if P i then finsert i visited else visited) is visited)
      = fset visited \<union> {i \<in> set is. P i}" for P and "is" :: "event_id list"
    by (induction "is" arbitrary: visited) auto
  then show ?thesis by (auto simp: collectReachableLocked_def Let_def map_has_def)
qed

section \<open>Properties\<close>

text \<open>C12: On a well-formed poset the three relations the queries decide partition the pairs of distinct
  stored occurrences: exactly one of before, after, equivalent and independent holds; before is a
  strict order, equivalence an equivalence relation, and before respects it.\<close>

theorem causal_queries_partition:
  assumes "poset_ok p" "stored p a" "stored p b" "a \<noteq> b"
  shows "length (filter id [IsCausallyBefore p a b, IsCausallyBefore p b a,
      IsCausallyEquivalent p a b, IsCausallyIndependent p a b]) = 1
    \<and> (IsCausallyBefore p a b \<longleftrightarrow> (a, b) \<in> before p)
    \<and> (\<forall>c. IsCausallyBefore p a b \<and> IsCausallyBefore p b c \<longrightarrow> IsCausallyBefore p a c)
    \<and> (\<forall>c. IsCausallyEquivalent p a c \<and> IsCausallyBefore p c b \<longrightarrow> IsCausallyBefore p a b)"
proof -
  note ok = poset_okD [OF assms(1)]
  note iff = IsCausallyBefore_iff [OF ok(2)] IsCausallyEquivalent_iff IsCausallyIndependent_iff
  have asym: "(a, b) \<in> before p \<Longrightarrow> (b, a) \<notin> before p"
    using before_trans before_irrefl [OF ok(2)] by metis
  have ne: "(x, y) \<in> before p \<Longrightarrow> rep p x \<noteq> rep p y" for x y
    by (rule before_not_equivalent [OF ok(2)])
  have cong: "rep p a = rep p c \<Longrightarrow> (c, b) \<in> before p \<Longrightarrow> (a, b) \<in> before p" for c
    using assms(2) by (simp add: before_def)
  have one: "length (filter id [x, y, e, e' \<and> \<not> e \<and> \<not> x \<and> \<not> y]) = 1"
    if "\<not> (x \<and> y)" "\<not> (x \<and> e)" "\<not> (y \<and> e)" "e'" for x y e e'
    using that by (cases x; cases y; cases e; simp)
  have "length (filter id [IsCausallyBefore p a b, IsCausallyBefore p b a,
      IsCausallyEquivalent p a b, IsCausallyIndependent p a b]) = 1"
    using one [of "(a, b) \<in> before p" "(b, a) \<in> before p" "rep p a = rep p b" True] asym ne [of a b] ne [of b a]
      assms(2,3) unfolding iff by (simp only: simp_thms) metis
  moreover have "\<forall>c. IsCausallyBefore p a b \<and> IsCausallyBefore p b c \<longrightarrow> IsCausallyBefore p a c"
    unfolding iff using before_trans by blast
  moreover have "\<forall>c. IsCausallyEquivalent p a c \<and> IsCausallyBefore p c b \<longrightarrow> IsCausallyBefore p a b"
    unfolding iff using cong by blast
  ultimately show ?thesis using iff(1) by blast
qed

theorem causal_queries_partition_witness:
  "IsCausallyBefore equated_events ''a'' ''c'' \<and> \<not> IsCausallyIndependent equated_events ''a'' ''c''"
proof -
  have "stored equated_events ''a''" "stored equated_events ''c''" by code_simp+
  moreover have "IsCausallyBefore equated_events ''a'' ''c''" by code_simp
  ultimately show ?thesis
    using causal_queries_partition [OF equated_events_ok, of "''a''" "''c''"]
    by (auto split: if_splits)
qed

text \<open>C13: \<open>CausalAncestors\<close> and \<open>CausalDescendants\<close> return, in ID order and each once, exactly the
  stored events strictly before, respectively after, the given occurrence: not the occurrence itself
  and not its equivalents, and nothing for an unknown ID.\<close>

theorem ancestors_and_descendants_exact:
  assumes "poset_ok p"
  shows "lists_events p (CausalAncestors p i) (\<lambda>a. (a, i) \<in> before p)
    \<and> lists_events p (CausalDescendants p i) (\<lambda>a. (i, a) \<in> before p)"
  using ancestors_lists [OF assms] by blast

theorem ancestors_and_descendants_exact_witness:
  "lists_events equated_events (CausalAncestors equated_events ''c'') (\<lambda>a. (a, ''c'') \<in> before equated_events)
   \<and> esIDs (CausalAncestors equated_events ''c'') = [''a''] \<and> esIDs (CausalDescendants equated_events ''a'') = [''b'', ''c'']"
proof -
  have "esIDs (CausalAncestors equated_events ''c'') = [''a'']"
    "esIDs (CausalDescendants equated_events ''a'') = [''b'', ''c'']" by code_simp+
  with ancestors_and_descendants_exact [OF equated_events_ok] show ?thesis by blast
qed

text \<open>C14: \<open>CausalChain from to\<close> fails with \<open>ErrEventNotFound\<close> for an unknown endpoint and with
  \<open>ErrNoPath\<close> exactly when the first is not strictly before the second; otherwise it returns the
  occurrences between them, the endpoints and everything equivalent to them included.\<close>

theorem CausalChain_exact:
  assumes "poset_ok p"
  shows "(case CausalChain p f t of
      Inl err \<Rightarrow> err = ErrEventNotFound \<and> (\<not> stored p f \<or> \<not> stored p t)
                 \<or> err = ErrNoPath \<and> stored p f \<and> stored p t \<and> (f, t) \<notin> before p
    | Inr es \<Rightarrow> (f, t) \<in> before p
                 \<and> lists_events p es (\<lambda>x. at_or_before p f x \<and> at_or_before p x t))"
proof -
  note ok = poset_okD [OF assms]
  have "canReachLocked p f t \<longleftrightarrow> (f, t) \<in> before p" if "stored p f" "stored p t"
    using that before_not_equivalent [OF ok(2), of f t]
    by (auto simp: canReachLocked_def canReachClassLocked_iff before_def)
  then show ?thesis
    using chain_lists [OF assms] by (auto simp: CausalChain_def Let_def)
qed

theorem CausalChain_exact_witness:
  "(\<exists>es. CausalChain equated_events ''a'' ''c'' = Inr es \<and> esIDs es = [''a'', ''b'', ''c''])
   \<and> (''a'', ''c'') \<in> before equated_events"
proof -
  have run: "map_sum id esIDs (CausalChain equated_events ''a'' ''c'') = Inr [''a'', ''b'', ''c'']" by code_simp
  then obtain es where "CausalChain equated_events ''a'' ''c'' = Inr es" "esIDs es = [''a'', ''b'', ''c'']"
    by (cases "CausalChain equated_events ''a'' ''c''") auto
  with CausalChain_exact [OF equated_events_ok, of "''a''" "''c''"] show ?thesis by auto
qed

text \<open>\<open>DirectPredecessors\<close> and \<open>DirectSuccessors\<close> always return on a well-formed poset, with
  mirror answers: \<open>a\<close> is a direct predecessor of \<open>b\<close> exactly when \<open>b\<close> is a direct successor of \<open>a\<close>,
  and only if \<open>a\<close> is before \<open>b\<close>; every occurrence with something before it has a direct predecessor.\<close>

lemma direct_neighbours_exact:
  assumes "poset_ok p" "stored p a" "stored p b"
  shows "\<exists>ps ss. DirectPredecessors p b = Some ps \<and> DirectSuccessors p a = Some ss
    \<and> sorted ps \<and> distinct ps \<and> sorted ss \<and> distinct ss
    \<and> (a \<in> set ps \<longleftrightarrow> b \<in> set ss) \<and> (\<forall>x \<in> set ps. (x, b) \<in> before p)
    \<and> ((\<exists>x. (x, b) \<in> before p) \<longrightarrow> ps \<noteq> [])"
proof -
  note ok = poset_okD [OF assms(1)]
  obtain cs where cs: "DirectCauses p b = Some cs" "lists_events p cs (\<lambda>a. (rep p a, rep p b) \<in> class_rel p)"
    using direct_lists(1) [OF assms(1,3)] by blast
  obtain es where es: "DirectEffects p a = Some es" "lists_events p es (\<lambda>b. (rep p a, rep p b) \<in> class_rel p)"
    using direct_lists(2) [OF assms(1,2)] by blast
  have "\<exists>x. stored p x \<and> (rep p x, rep p b) \<in> class_rel p" if "(y, b) \<in> before p" for y
  proof -
    from that obtain c where c: "(c, rep p b) \<in> class_rel p" by (auto simp: before_def elim: tranclE)
    with class_rel_stored [OF ok(1,2) c] show ?thesis by auto
  qed
  then have ne: "filter (\<lambda>a. (rep p a, rep p b) \<in> class_rel p) (event_ids p) \<noteq> []" if "\<exists>y. (y, b) \<in> before p"
    using that by (force simp: filter_empty_conv map_has_def)
  have "(x, b) \<in> before p" if "stored p x" "(rep p x, rep p b) \<in> class_rel p" for x
    using that assms(3) by (auto simp: before_def)
  then show ?thesis
    using cs es assms(2,3) ne
    by (auto simp: DirectPredecessors_def DirectSuccessors_def lists_events_def sorted_wrt_filter map_has_def)
qed

lemma direct_neighbours_exact_witness:
  "DirectPredecessors equated_events ''c'' = Some [''a''] \<and> (''a'', ''c'') \<in> before equated_events"
proof -
  have "stored equated_events ''a''" "stored equated_events ''c''" by code_simp+
  moreover have "DirectPredecessors equated_events ''c'' = Some [''a'']" by code_simp
  ultimately show ?thesis
    using direct_neighbours_exact [OF equated_events_ok, of "''a''" "''c''"] by auto
qed

end
