(* ===== verification/Poset_Observation.thy ===== *)
theory Poset_Observation
  imports Poset_Query
begin

text \<open>
  \<open>AddObservation\<close> and \<open>AddObservationWithTimings\<close> (\<open>event_observation.go\<close>): a stored occurrence
  becomes visible through another role and may gain intervals, checked against its causal past and
  future.  The order and the Lamport positions do not change.
\<close>

fun mergeObservedTimings ::
    "event \<Rightarrow> event_timing list \<Rightarrow> event_timing list \<Rightarrow> go_error + event_timing list" where
  "mergeObservedTimings e [] merged = Inr merged"
| "mergeObservedTimings e (timing # timings) merged =
     (case Timing (Some e) (et_clock timing) of
        Some existing \<Rightarrow>
          if existing \<noteq> timing then Inl ErrInvalidEventTiming
          else mergeObservedTimings e timings merged
      | None \<Rightarrow> mergeObservedTimings e timings (merged @ [timing]))"

fun matchingObservation :: "observation list \<Rightarrow> observation \<Rightarrow> observation option" where
  \<comment> \<open>the first existing observation with the same role\<close>
  "matchingObservation [] ob = None"
| "matchingObservation (existing # rest) ob =
     (if ob_source existing \<noteq> ob_source ob \<or> ob_name existing \<noteq> ob_name ob
      then matchingObservation rest ob else Some existing)"

definition AddObservationWithTimings ::
    "poset \<Rightarrow> event_id \<Rightarrow> observation \<Rightarrow> event_timing list \<Rightarrow> poset \<times> (go_error + event)" where
  "AddObservationWithTimings p i observation timings =
     (if ob_name observation = '''' then (p, Inl (ErrOther ''observation name is empty''))
      else case fmlookup (events p) i of
        None \<Rightarrow> (p, Inl ErrEventNotFound)
      | Some e \<Rightarrow>
        (case mergeObservedTimings e timings (ev_timings e) of
           Inl err \<Rightarrow> (p, Inl err)
         | Inr merged \<Rightarrow>
        (case CanonicalizeEventTimings merged of
           Inl err \<Rightarrow> (p, Inl err)
         | Inr mergedTimings \<Rightarrow>
           let candidate = (cloneEvent e)\<lparr>ev_timings := mergedTimings\<rparr>
           in if list_ex (\<lambda>predecessor. predecessor \<noteq> i
                  \<and> sharedTimingConflict (fmlookup (events p) predecessor) (Some candidate))
                (causalPredecessorIDsLocked p i)
              then (p, Inl ErrTimingCausality)
              else if list_ex (\<lambda>successor. successor \<noteq> i
                  \<and> sharedTimingConflict (Some candidate) (fmlookup (events p) successor))
                (causalSuccessorIDsLocked p i)
              then (p, Inl ErrTimingCausality)
              else
                let observation = observation\<lparr>ob_params := copyParams (ob_params observation)\<rparr>;
                    observations = EventObservations e
                in case matchingObservation observations observation of
                     Some existing \<Rightarrow>
                       if \<not> deepEqualParams (ob_params existing) (ob_params observation)
                       then (p, Inl ErrObservationConflict)
                       else let updated = Freeze (e\<lparr>ev_timings := mergedTimings\<rparr>)
                            in (storeEventLocked p updated, Inr (eventView updated existing))
                   | None \<Rightarrow>
                       let observations = sortObservations (observations @ [observation]);
                           updated = Freeze (e\<lparr>ev_observations := observations, ev_timings := mergedTimings\<rparr>)
                       in (storeEventLocked p updated, Inr (eventView updated observation)))))"

definition AddObservation :: "poset \<Rightarrow> event_id \<Rightarrow> observation \<Rightarrow> poset \<times> (go_error + event)" where
  "AddObservation p i observation = AddObservationWithTimings p i observation []"

section \<open>Replacing one stored event\<close>

lemma storeEventLocked_replace:
  assumes p: "poset_ok p" and st: "stored p (ev_id e)"
    and e: "ev_lamport e = lam p (ev_id e)" "ev_immutable e" "canonical_timings (ev_timings e)"
    and nb: "\<And>x. (x, ev_id e) \<in> before p \<Longrightarrow> \<not> sharedTimingConflict (fmlookup (events p) x) (Some e)"
    and na: "\<And>y. (ev_id e, y) \<in> before p \<Longrightarrow> \<not> sharedTimingConflict (Some e) (fmlookup (events p) y)"
  defines "q \<equiv> storeEventLocked p e"
  shows "poset_ok q" "before q = before p" "lam q = lam p" "rep q = rep p" "class_rel q = class_rel p"
    "stored q = stored p"
proof -
  note ok = poset_okD [OF p]
  have ev: "events q = fmupd (ev_id e) e (events p)" by (simp add: q_def)
  have dom: "fmdom (events q) = fmdom (events p)"
    using st by (auto simp: ev map_has_def finsert_absorb)
  show st': "stored q = stored p" by (simp add: fun_eq_iff map_has_def dom)
  show r: "rep q = rep p" by (simp add: fun_eq_iff causalRepresentativeLocked_def q_def)
  show l: "lam q = lam p" using e(1) by (auto simp: fun_eq_iff lam_def ev)
  have cl: "class_list q = class_list p" by (simp add: fun_eq_iff class_list_def r map_keys_def dom)
  have "classNeighbours q = classNeighbours p"
    unfolding classNeighbours_def [abs_def] r by (simp add: q_def)
  then show c: "class_rel q = class_rel p"
    by (simp add: class_rel_def causalClassSuccessorsLocked_def [abs_def]) (simp add: q_def)
  show b: "before q = before p" by (simp only: before_def st' r c)
  have f: "causalClass q = causalClass p" "classMembers q = classMembers p"
    "causalEdges q = causalEdges p" "reverseCausal q = reverseCausal p" by (simp_all add: q_def)
  have "class_ok q" using ok(1) unfolding class_ok_def st' r cl f dom .
  moreover have "edges_ok q" using ok(2) unfolding edges_ok_def edges_shape_def st' r c f dom .
  moreover have "events_ok q"
    using ok(3) e(2,3) storeEventLocked_timed [of p e] unfolding events_ok_def q_def by auto
  moreover have "uniform_ok q" using ok(5) unfolding uniform_ok_def st' l r .
  moreover have "timing_ok q"
    unfolding timing_ok_def b
  proof clarify
    fix x y
    assume xy: "(x, y) \<in> before p" and conf: "sharedTimingConflict (fmlookup (events q) x) (fmlookup (events q) y)"
    have old: "\<not> sharedTimingConflict (fmlookup (events p) x) (fmlookup (events p) y)"
      using ok(4) xy by (auto simp: timing_ok_def)
    have "x \<noteq> y" using xy before_irrefl [OF ok(2)] by blast
    then show False using conf old nb [of x] na [of y] xy by (auto simp: ev split: if_splits)
  qed
  ultimately show "poset_ok q" by (simp add: poset_ok_def)
qed

lemma matchingObservation_Some:
  "matchingObservation obs ob = Some existing \<Longrightarrow>
     existing \<in> set obs \<and> ob_source existing = ob_source ob \<and> ob_name existing = ob_name ob"
  by (induction obs) (auto split: if_splits)

lemma matchingObservation_None:
  "matchingObservation obs ob = None \<longleftrightarrow>
     (\<forall>existing \<in> set obs. ob_source existing \<noteq> ob_source ob \<or> ob_name existing \<noteq> ob_name ob)"
  by (induction obs) auto

lemma mergeObservedTimings_eq:
  assumes "canonical_timings (ev_timings e)"
  shows "mergeObservedTimings e ts acc =
    (if \<exists>t \<in> set ts. \<exists>u \<in> set (ev_timings e). et_clock u = et_clock t \<and> u \<noteq> t then Inl ErrInvalidEventTiming
     else Inr (acc @ filter (\<lambda>t. t \<notin> set (ev_timings e)) ts))"
proof (induction ts arbitrary: acc)
  case (Cons t ts)
  show ?case
  proof (cases "Timing (Some e) (et_clock t)")
    case None
    then have "et_clock t \<notin> et_clock ` set (ev_timings e)"
      using assms by (auto simp: Timing_def timingLookup_None_iff canonical_timings_def valid_timing_def split: if_splits)
    then have "t \<notin> set (ev_timings e)" "\<not> (\<exists>u \<in> set (ev_timings e). et_clock u = et_clock t \<and> u \<noteq> t)" by (force, metis image_eqI)
    then show ?thesis using None Cons.IH by auto
  next
    case (Some existing)
    then have ex: "existing \<in> set (ev_timings e)" "et_clock existing = et_clock t"
      using assms by (auto simp: Timing_def timingLookup_iff split: if_splits)
    have uniq: "u = existing" if "u \<in> set (ev_timings e)" "et_clock u = et_clock t" for u
      using that ex assms inj_onD [of et_clock "set (ev_timings e)" u existing] by (auto simp: canonical_timings_def distinct_map)
    show ?thesis
    proof (cases "existing = t")
      case True
      then have "\<not> (\<exists>u \<in> set (ev_timings e). et_clock u = et_clock t \<and> u \<noteq> t)" using uniq by blast
      then show ?thesis using Some True ex Cons.IH by auto
    next
      case False
      then show ?thesis using Some ex by auto
    qed
  qed
qed simp

text \<open>What the two successful exits share: the stored event keeps its identity and clock.\<close>

lemma observation_update_ok:
  fixes obs :: "observation list"
  assumes p: "poset_ok p" and e: "fmlookup (events p) i = Some e" and mt: "canonical_timings mt"
    and pre: "\<not> list_ex (\<lambda>x. x \<noteq> i \<and> sharedTimingConflict (fmlookup (events p) x) (Some (e\<lparr>ev_timings := mt\<rparr>)))
        (causalPredecessorIDsLocked p i)"
    and suc: "\<not> list_ex (\<lambda>y. y \<noteq> i \<and> sharedTimingConflict (Some (e\<lparr>ev_timings := mt\<rparr>)) (fmlookup (events p) y))
        (causalSuccessorIDsLocked p i)"
  defines "u \<equiv> Freeze (e\<lparr>ev_observations := obs, ev_timings := mt\<rparr>)"
  defines "q \<equiv> storeEventLocked p u"
  shows "poset_ok q" "before q = before p" "lam q = lam p" "rep q = rep p" "stored q = stored p"
    "events q = fmupd i u (events p)"
proof -
  note ok = poset_okD [OF p]
  have st: "stored p i" and id: "ev_id e = i" using e ok(3) by (auto simp: map_has_iff events_ok_def)
  have u: "ev_id u = i" "ev_lamport u = lam p i" "ev_immutable u" "ev_timings u = mt"
    using e id by (simp_all add: u_def lam_def) (simp add: ev_lamport_def)
  have same: "sharedTimingConflict x (Some u) = sharedTimingConflict x (Some (e\<lparr>ev_timings := mt\<rparr>))"
    "sharedTimingConflict (Some u) x = sharedTimingConflict (Some (e\<lparr>ev_timings := mt\<rparr>)) x" for x
    by (simp_all add: sharedTimingConflict_timings u)
  have nb: "\<not> sharedTimingConflict (fmlookup (events p) x) (Some u)" if "(x, ev_id u) \<in> before p" for x
  proof -
    have "x \<in> set (causalPredecessorIDsLocked p i)" "x \<noteq> i"
      using that u before_irrefl [OF ok(2)] before_stored [of x i p]
      by (auto simp: set_causalPredecessorIDs [OF ok(1,2) st] at_or_before_iff)
    with pre show ?thesis by (auto simp: list_ex_iff same)
  qed
  have na: "\<not> sharedTimingConflict (Some u) (fmlookup (events p) y)" if "(ev_id u, y) \<in> before p" for y
  proof -
    have "y \<in> set (causalSuccessorIDsLocked p i)" "y \<noteq> i"
      using that u before_irrefl [OF ok(2)] before_stored [of i y p]
      by (auto simp: set_causalSuccessorIDs [OF st] at_or_before_iff)
    with suc show ?thesis by (auto simp: list_ex_iff same)
  qed
  have a: "stored p (ev_id u)" "ev_lamport u = lam p (ev_id u)" "canonical_timings (ev_timings u)"
    using st u mt by simp_all
  note r = storeEventLocked_replace [OF p a(1,2) u(3) a(3) nb na, folded q_def]
  show "poset_ok q" by (rule r(1))
  show "before q = before p" by (rule r(2))
  show "lam q = lam p" by (rule r(3))
  show "rep q = rep p" by (rule r(4))
  show "stored q = stored p" by (rule r(6))
  show "events q = fmupd i u (events p)" by (simp add: q_def u)
qed

section \<open>The outcome\<close>

definition intervals_agree :: "event \<Rightarrow> event_timing list \<Rightarrow> bool" where
  \<comment> \<open>valid intervals, none of which contradicts one of the event, and at most one new one for each clock\<close>
  "intervals_agree e ts \<longleftrightarrow> (\<forall>t \<in> set ts. valid_timing t \<and> (\<forall>u \<in> set (ev_timings e). et_clock u = et_clock t \<longrightarrow> u = t))
     \<and> distinct (map et_clock (filter (\<lambda>t. t \<notin> set (ev_timings e)) ts))"

definition overlaps_order :: "poset \<Rightarrow> event_id \<Rightarrow> event_timing list \<Rightarrow> bool" where
  \<comment> \<open>another occurrence of the past finishes after the given intervals start, or one of the future starts before
    they finish; members of the class count as both\<close>
  "overlaps_order p i ts \<longleftrightarrow>
     (\<exists>x d. x \<noteq> i \<and> at_or_before p x i \<and> fmlookup (events p) x = Some d \<and> timing_conflict (ev_timings d) ts)
     \<or> (\<exists>y d. y \<noteq> i \<and> at_or_before p i y \<and> fmlookup (events p) y = Some d \<and> timing_conflict ts (ev_timings d))"

definition role_of :: "event \<Rightarrow> string \<Rightarrow> string \<Rightarrow> observation option" where
  "role_of e source name = find (\<lambda>role. ob_source role = source \<and> ob_name role = name) (EventObservations e)"

definition observation_outcome :: "poset \<Rightarrow> event_id \<Rightarrow> observation \<Rightarrow> event_timing list \<Rightarrow> go_error option" where
  "observation_outcome p i ob ts =
     (if ob_name ob = '''' then Some (ErrOther ''observation name is empty'')
      else case fmlookup (events p) i of None \<Rightarrow> Some ErrEventNotFound
      | Some e \<Rightarrow>
          if \<not> intervals_agree e ts then Some ErrInvalidEventTiming
          else if overlaps_order p i (ev_timings e @ ts) then Some ErrTimingCausality
          else (case role_of e (ob_source ob) (ob_name ob) of None \<Rightarrow> None
            | Some role \<Rightarrow> if deepEqualParams (ob_params role) (ob_params ob) then None else Some ErrObservationConflict))"

definition observed_event :: "event \<Rightarrow> observation \<Rightarrow> event_timing list \<Rightarrow> event \<Rightarrow> event \<Rightarrow> bool" where
  \<comment> \<open>the stored event gains the new intervals and, unless it has the role already, the role; the view
    activates that role\<close>
  "observed_event e ob ts u view \<longleftrightarrow>
     u = Freeze (e\<lparr>ev_observations := ev_observations u, ev_timings := ev_timings u\<rparr>)
     \<and> canonical_timings (ev_timings u) \<and> set (ev_timings u) = set (ev_timings e) \<union> set ts
     \<and> (case role_of e (ob_source ob) (ob_name ob) of
          Some role \<Rightarrow> ev_observations u = ev_observations e \<and> view = eventView u role
        | None \<Rightarrow> mset (ev_observations u) = add_mset ob (mset (EventObservations e))
            \<and> sorted_wrt (\<lambda>a b. \<not> observationLess b a) (ev_observations u) \<and> view = eventView u ob)"

definition observed :: "poset \<Rightarrow> event_id \<Rightarrow> observation \<Rightarrow> event_timing list \<Rightarrow> poset \<Rightarrow> event \<Rightarrow> bool" where
  \<comment> \<open>the state and the view after a successful call\<close>
  "observed p i ob ts q view \<longleftrightarrow> poset_ok q \<and> stored q = stored p \<and> before q = before p \<and> rep q = rep p \<and> lam q = lam p
     \<and> (\<exists>e u. fmlookup (events p) i = Some e \<and> events q = fmupd i u (events p) \<and> observed_event e ob ts u view)"

lemma role_of_matching: "role_of e (ob_source ob) (ob_name ob) = matchingObservation (EventObservations e) ob"
proof -
  have "find (\<lambda>role. ob_source role = ob_source ob \<and> ob_name role = ob_name ob) obs = matchingObservation obs ob" for obs
    by (induction obs) auto
  then show ?thesis by (simp add: role_of_def)
qed

lemma timing_conflict_set: "set as = set as' \<Longrightarrow> timing_conflict bs as = timing_conflict bs as'"
    "set as = set as' \<Longrightarrow> timing_conflict as bs = timing_conflict as' bs"
  by (simp_all add: timing_conflict_def)

lemma merged_timings:
  assumes "canonical_timings (ev_timings e)"
  shows "(case mergeObservedTimings e ts (ev_timings e) of Inl err \<Rightarrow> Inl err | Inr merged \<Rightarrow> CanonicalizeEventTimings merged) =
    (if intervals_agree e ts then Inr (sort_key et_clock (ev_timings e @ filter (\<lambda>t. t \<notin> set (ev_timings e)) ts))
     else Inl ErrInvalidEventTiming)"
proof -
  let ?new = "filter (\<lambda>t. t \<notin> set (ev_timings e)) ts"
  let ?clash = "\<exists>t \<in> set ts. \<exists>u \<in> set (ev_timings e). et_clock u = et_clock t \<and> u \<noteq> t"
  have "(\<forall>t \<in> set (ev_timings e @ ?new). valid_timing t) \<and> distinct (map et_clock (ev_timings e @ ?new)) \<longleftrightarrow> intervals_agree e ts"
    if "\<not> ?clash"
  proof -
    have "et_clock ` set (ev_timings e) \<inter> et_clock ` set ?new = {}" using that by fastforce
    moreover have "(\<forall>t \<in> set ?new. valid_timing t) \<longleftrightarrow> (\<forall>t \<in> set ts. valid_timing t)"
      using assms by (auto simp: canonical_timings_def)
    ultimately show ?thesis using assms that by (auto simp: intervals_agree_def canonical_timings_def)
  qed
  moreover have "\<not> intervals_agree e ts" if ?clash using that by (auto simp: intervals_agree_def)
  moreover have "CanonicalizeEventTimings ms = (if (\<forall>t \<in> set ms. valid_timing t) \<and> distinct (map et_clock ms)
      then Inr (sort_key et_clock ms) else Inl ErrInvalidEventTiming)" for ms
    using Canonicalize_ok_iff [of ms] Canonicalize_error_kind [of ms] by (cases "CanonicalizeEventTimings ms") auto
  ultimately show ?thesis unfolding mergeObservedTimings_eq [OF assms] by simp
qed

lemma overlap_checks:
  assumes p: "poset_ok p" and st: "stored p i" and mt: "canonical_timings mt"
  shows "list_ex (\<lambda>x. x \<noteq> i \<and> sharedTimingConflict (fmlookup (events p) x) (Some (c\<lparr>ev_timings := mt\<rparr>))) (causalPredecessorIDsLocked p i)
     \<or> list_ex (\<lambda>y. y \<noteq> i \<and> sharedTimingConflict (Some (c\<lparr>ev_timings := mt\<rparr>)) (fmlookup (events p) y)) (causalSuccessorIDsLocked p i)
     \<longleftrightarrow> overlaps_order p i mt"
proof -
  note ok = poset_okD [OF p]
  have can: "canonical_timings (ev_timings d)" if "fmlookup (events p) x = Some d" for x d
    using ok(3) that by (auto simp: events_ok_def)
  have "sharedTimingConflict (fmlookup (events p) x) (Some (c\<lparr>ev_timings := mt\<rparr>)) \<longleftrightarrow>
      (\<exists>d. fmlookup (events p) x = Some d \<and> timing_conflict (ev_timings d) mt)"
    "sharedTimingConflict (Some (c\<lparr>ev_timings := mt\<rparr>)) (fmlookup (events p) x) \<longleftrightarrow>
      (\<exists>d. fmlookup (events p) x = Some d \<and> timing_conflict mt (ev_timings d))" for x
    by (auto simp: sharedTimingConflict_def timingConflictLoop_iff can mt split: option.splits)
  then show ?thesis
    by (auto simp: list_ex_iff set_causalPredecessorIDs [OF ok(1,2) st] set_causalSuccessorIDs [OF st] overlaps_order_def)
qed

lemma AddObservationWithTimings_run:
  assumes p: "poset_ok p" and run: "AddObservationWithTimings p i ob ts = (q, r)"
  shows "case observation_outcome p i ob ts of Some err \<Rightarrow> q = p \<and> r = Inl err
    | None \<Rightarrow> \<exists>view. r = Inr view \<and> observed p i ob ts q view"
proof (cases "ob_name ob = '''' \<or> fmlookup (events p) i = None")
  case True
  then show ?thesis using run by (auto simp: AddObservationWithTimings_def observation_outcome_def)
next
  case False
  then obtain e where e: "fmlookup (events p) i = Some e" and name: "ob_name ob \<noteq> ''''" by auto
  have can: "canonical_timings (ev_timings e)" and id: "ev_id e = i" using e poset_okD(3) [OF p] by (auto simp: events_ok_def)
  have st: "stored p i" using e by (simp add: map_has_iff)
  let ?sorted = "sort_key et_clock (ev_timings e @ filter (\<lambda>t. t \<notin> set (ev_timings e)) ts)"
  show ?thesis
  proof (cases "intervals_agree e ts")
    case False
    then show ?thesis using run e name merged_timings [OF can, of ts]
      by (auto simp: AddObservationWithTimings_def observation_outcome_def split: sum.splits)
  next
    case True
    then obtain merged where m: "mergeObservedTimings e ts (ev_timings e) = Inr merged" "CanonicalizeEventTimings merged = Inr ?sorted"
      using merged_timings [OF can, of ts] by (auto split: sum.splits)
    define mt where "mt = ?sorted"
    have cm: "canonical_timings mt" unfolding mt_def using Canonicalize_canonical [OF m(2)] by simp
    have tm: "set mt = set (ev_timings e) \<union> set ts" by (auto simp: mt_def)
    have same: "overlaps_order p i (ev_timings e @ ts) = overlaps_order p i mt"
      using tm by (simp add: overlaps_order_def timing_conflict_def)
    let ?c = "e\<lparr>ev_timings := mt\<rparr>"
    let ?pre = "list_ex (\<lambda>x. x \<noteq> i \<and> sharedTimingConflict (fmlookup (events p) x) (Some ?c)) (causalPredecessorIDsLocked p i)"
    let ?suc = "list_ex (\<lambda>y. y \<noteq> i \<and> sharedTimingConflict (Some ?c) (fmlookup (events p) y)) (causalSuccessorIDsLocked p i)"
    have checks: "?pre \<or> ?suc \<longleftrightarrow> overlaps_order p i mt" by (rule overlap_checks [OF p st cm])
    show ?thesis
    proof (cases "overlaps_order p i mt")
      case True
      then show ?thesis using run e name m \<open>intervals_agree e ts\<close> checks
        by (auto simp: AddObservationWithTimings_def observation_outcome_def Let_def same mt_def [symmetric] split: if_splits)
    next
      case no: False
      then have free: "\<not> ?pre" "\<not> ?suc" using checks by blast+
      note ok = observation_update_ok [OF p e cm free]
      show ?thesis
      proof (cases "matchingObservation (EventObservations e) ob")
        case (Some role)
        show ?thesis
        proof (cases "deepEqualParams (ob_params role) (ob_params ob)")
          case False
          then show ?thesis using run e name m \<open>intervals_agree e ts\<close> no free Some same
            by (auto simp: AddObservationWithTimings_def observation_outcome_def Let_def mt_def [symmetric] role_of_matching)
        next
          case True
          define u where "u = Freeze (e\<lparr>ev_timings := mt\<rparr>)"
          have u_eq: "u = Freeze (e\<lparr>ev_observations := ev_observations e, ev_timings := mt\<rparr>)" by (simp add: u_def)
          have qr: "q = storeEventLocked p u" "r = Inr (eventView u role)"
            using run e name m free Some True
            by (auto simp: AddObservationWithTimings_def Let_def u_def mt_def [symmetric])
          note f = ok [of "ev_observations e", folded u_eq]
          have "observed_event e ob ts u (eventView u role)"
            using Some cm tm by (simp add: observed_event_def role_of_matching u_def)
          then have "observed p i ob ts q (eventView u role)" unfolding observed_def qr(1) using f e by blast
          then show ?thesis using qr(2) e name \<open>intervals_agree e ts\<close> no Some True
            by (simp add: observation_outcome_def same role_of_matching)
        qed
      next
        case None
        define obs where "obs = sortObservations (EventObservations e @ [ob])"
        define u where "u = Freeze (e\<lparr>ev_observations := obs, ev_timings := mt\<rparr>)"
        have qr: "q = storeEventLocked p u" "r = Inr (eventView u ob)"
          using run e name m free None
          by (auto simp: AddObservationWithTimings_def Let_def u_def obs_def mt_def [symmetric])
        note f = ok [of obs, folded u_def]
        have "observed_event e ob ts u (eventView u ob)"
          using None cm tm sortObservations_sorted [of "EventObservations e @ [ob]"]
          by (simp add: observed_event_def role_of_matching u_def obs_def)
        then have "observed p i ob ts q (eventView u ob)" unfolding observed_def qr(1) using f e by blast
        then show ?thesis using qr(2) e name \<open>intervals_agree e ts\<close> no None
          by (simp add: observation_outcome_def same role_of_matching)
      qed
    qed
  qed
qed

lemma AddObservationWithTimings_cases:
  assumes "poset_ok p" "AddObservationWithTimings p i ob ts = (q, r)"
  shows "(\<exists>err. r = Inl err \<and> q = p) \<or> (\<exists>view. r = Inr view \<and> observed p i ob ts q view)"
  using AddObservationWithTimings_run [OF assms] by (cases "observation_outcome p i ob ts") auto

section \<open>Properties\<close>

text \<open>C24: The outcome of \<open>AddObservationWithTimings\<close> on a well-formed poset.  It fails with exactly the
  documented error: an empty name, a missing occurrence, an interval that is invalid, contradicts one of the
  occurrence or repeats a clock, an overlap with the causal past or future, or an existing role with the same
  source and name whose parameters are not deeply equal; an error changes nothing.  Success replaces the stored
  event by itself with the canonical union of the intervals and, unless it has the role, with the given role and
  its parameters added to its roles in order, returns the view of that event under the role, and leaves every
  other event, the order, the classes and the Lamport positions as they were, with every invariant intact.\<close>

theorem AddObservation_outcome:
  assumes "poset_ok p" "AddObservationWithTimings p i ob ts = (q, r)"
  shows "case observation_outcome p i ob ts of Some err \<Rightarrow> q = p \<and> r = Inl err
    | None \<Rightarrow> \<exists>view. r = Inr view \<and> observed p i ob ts q view"
  by (rule AddObservationWithTimings_run [OF assms])

definition sample_role :: observation where
  "sample_role = \<lparr>ob_name = ''seen'', ob_source = ''monitor'', ob_params = []\<rparr>"

definition sample_interval :: "u64 \<Rightarrow> u64 \<Rightarrow> event_timing" where
  "sample_interval s f = \<lparr>et_clock = ''clk'', et_start = s, et_finish = f\<rparr>"

theorem AddObservation_outcome_witness:
  "\<exists>q view. AddObservationWithTimings equated_events ''b'' sample_role [sample_interval 3 5] = (q, Inr view)
     \<and> before q = before equated_events \<and> ev_name view = ''seen''"
proof -
  have "\<not> isl (snd (AddObservationWithTimings equated_events ''b'' sample_role [sample_interval 3 5]))"
    by code_simp
  then obtain q view where run: "AddObservationWithTimings equated_events ''b'' sample_role [sample_interval 3 5] = (q, Inr view)"
    by (metis prod.collapse sum.collapse(2))
  then have "observed equated_events ''b'' sample_role [sample_interval 3 5] q view"
    using AddObservation_outcome [OF equated_events_ok run] by (auto split: option.splits)
  moreover from this obtain e u where "observed_event e sample_role [sample_interval 3 5] u view" by (auto simp: observed_def)
  then have "ev_name view = ''seen''"
    by (auto simp: observed_event_def sample_role_def role_of_def find_Some_iff split: option.splits)
  ultimately show ?thesis using run by (auto simp: observed_def)
qed

text \<open>Whether two equivalent occurrences may overlap on a clock depends on the order of the calls.
  Recording both intervals first and equating after is accepted, as the merge compares no members of
  the new class; equating first makes the second interval a timing conflict, because the observation
  check counts the other members of the class as its past and future.\<close>

lemma equivalent_overlap_depends_on_call_order:
  "let timed = fst (AddObservationWithTimings two_events ''a'' sample_role [sample_interval 0 10]);
       late = fst (AddObservationWithTimings timed ''b'' sample_role [sample_interval 5 6])
   in map_option snd (AddCausalEquivalent late ''a'' ''b'') = Some None
    \<and> (\<exists>q. AddCausalEquivalent timed ''a'' ''b'' = Some (q, None)
          \<and> snd (AddObservationWithTimings q ''b'' sample_role [sample_interval 5 6]) = Inl ErrTimingCausality)"
proof -
  define timed where "timed = fst (AddObservationWithTimings two_events ''a'' sample_role [sample_interval 0 10])"
  define late where "late = fst (AddObservationWithTimings timed ''b'' sample_role [sample_interval 5 6])"
  have "map_option snd (AddCausalEquivalent late ''a'' ''b'') = Some None"
    unfolding late_def timed_def by code_simp
  moreover have "map_option (\<lambda>(q, r). (r, map_sum id ev_id (snd (AddObservationWithTimings q ''b'' sample_role [sample_interval 5 6]))))
      (AddCausalEquivalent timed ''a'' ''b'') = Some (None, Inl ErrTimingCausality)"
    unfolding timed_def by code_simp
  moreover have "x = Inl err" if "map_sum id ev_id x = Inl err" for x :: "go_error + event" and err
    using that by (cases x) auto
  ultimately show ?thesis
    unfolding Let_def timed_def [symmetric] late_def [symmetric] by auto
qed

end
