(* ===== verification/Store_Interface.thy ===== *)
theory Store_Interface
  imports Poset_Observation
begin

text \<open>
  The store and query interfaces of \<open>store.go\<close> as locales.  \<open>causal_preorder\<close> is what
  \<open>CausalPreorderQuerier\<close> promises of a state: a strict order, an equivalence and their agreement.
  \<open>growing_store\<close> adds the mutating calls of \<open>CausalPreorderReadWriter\<close>: a call always returns, keeps
  the state valid and never retracts an answer.  The client lemmas, about whole runs of calls, are
  proved inside; the poset of \<open>poset.go\<close> is the provider, of the queries here and of the calls in
  \<open>Poset_Runs\<close>, from the step lemmas of this theory.
\<close>

section \<open>The interfaces\<close>

locale causal_preorder =
  fixes ok :: "'s \<Rightarrow> bool" and has :: "'s \<Rightarrow> 'i \<Rightarrow> bool"
    and strict :: "'s \<Rightarrow> 'i \<Rightarrow> 'i \<Rightarrow> bool" and equal :: "'s \<Rightarrow> 'i \<Rightarrow> 'i \<Rightarrow> bool"
  assumes strict_has: "strict s a b \<Longrightarrow> has s a \<and> has s b"
    and irreflexive: "ok s \<Longrightarrow> \<not> strict s a a"
    and transitive: "ok s \<Longrightarrow> strict s a b \<Longrightarrow> strict s b c \<Longrightarrow> strict s a c"
    and equal_refl: "has s a \<Longrightarrow> equal s a a"
    and equal_sym: "equal s a b \<Longrightarrow> equal s b a"
    and equal_trans: "equal s a b \<Longrightarrow> equal s b c \<Longrightarrow> equal s a c"
    and left_cong: "ok s \<Longrightarrow> equal s a a' \<Longrightarrow> strict s a' b \<Longrightarrow> strict s a b"
    and right_cong: "ok s \<Longrightarrow> equal s b b' \<Longrightarrow> strict s a b' \<Longrightarrow> strict s a b"
begin

lemma asymmetric: "ok s \<Longrightarrow> strict s a b \<Longrightarrow> \<not> strict s b a"
  using irreflexive transitive by blast

lemma strict_not_equal: "ok s \<Longrightarrow> strict s a b \<Longrightarrow> \<not> equal s a b \<and> \<not> equal s b a"
  using irreflexive left_cong equal_sym by metis

text \<open>At or before: the published preorder.\<close>

lemma preorder_trans:
  "ok s \<Longrightarrow> equal s a b \<or> strict s a b \<Longrightarrow> equal s b c \<or> strict s b c \<Longrightarrow> equal s a c \<or> strict s a c"
  using transitive equal_trans left_cong right_cong equal_sym by metis

lemma preorder_antisym:
  "ok s \<Longrightarrow> equal s a b \<or> strict s a b \<Longrightarrow> equal s b a \<or> strict s b a \<Longrightarrow> equal s a b"
  using asymmetric strict_not_equal by metis

end

fun runCalls :: "('c \<Rightarrow> 's \<Rightarrow> ('s \<times> 'r) option) \<Rightarrow> 'c list \<Rightarrow> 's \<Rightarrow> 's option" where
  \<comment> \<open>a client that issues the calls one after another, whatever they answer\<close>
  "runCalls call [] s = Some s"
| "runCalls call (c # cs) s = (case call c s of None \<Rightarrow> None | Some (s', _) \<Rightarrow> runCalls call cs s')"

locale growing_store = causal_preorder ok has strict equal
  for ok :: "'s \<Rightarrow> bool" and has :: "'s \<Rightarrow> 'i \<Rightarrow> bool"
    and strict :: "'s \<Rightarrow> 'i \<Rightarrow> 'i \<Rightarrow> bool" and equal :: "'s \<Rightarrow> 'i \<Rightarrow> 'i \<Rightarrow> bool" +
  fixes valid :: "'c \<Rightarrow> bool" and call :: "'c \<Rightarrow> 's \<Rightarrow> ('s \<times> 'r) option"
  assumes call_returns: "ok s \<Longrightarrow> valid c \<Longrightarrow> \<exists>s' r. call c s = Some (s', r)"
    and call_ok: "ok s \<Longrightarrow> valid c \<Longrightarrow> call c s = Some (s', r) \<Longrightarrow> ok s'"
    and call_has: "ok s \<Longrightarrow> valid c \<Longrightarrow> call c s = Some (s', r) \<Longrightarrow> has s a \<Longrightarrow> has s' a"
    and call_strict: "ok s \<Longrightarrow> valid c \<Longrightarrow> call c s = Some (s', r) \<Longrightarrow> strict s a b \<Longrightarrow> strict s' a b"
    and call_equal: "ok s \<Longrightarrow> valid c \<Longrightarrow> call c s = Some (s', r) \<Longrightarrow> equal s a b \<Longrightarrow> equal s' a b"
begin

lemma run_ok:
  "ok s \<Longrightarrow> \<forall>c \<in> set cs. valid c \<Longrightarrow>
     \<exists>s'. runCalls call cs s = Some s' \<and> ok s'
        \<and> (\<forall>a. has s a \<longrightarrow> has s' a) \<and> (\<forall>a b. strict s a b \<longrightarrow> strict s' a b)
        \<and> (\<forall>a b. equal s a b \<longrightarrow> equal s' a b)"
proof (induction cs arbitrary: s)
  case (Cons c cs)
  then obtain s1 r where call: "call c s = Some (s1, r)" using call_returns by (metis list.set_intros(1))
  have c: "valid c" using Cons.prems(2) by simp
  have "ok s1" by (rule call_ok [OF Cons.prems(1) c call])
  then obtain s2 where s2: "runCalls call cs s1 = Some s2" "ok s2" "\<forall>a. has s1 a \<longrightarrow> has s2 a"
    "\<forall>a b. strict s1 a b \<longrightarrow> strict s2 a b" "\<forall>a b. equal s1 a b \<longrightarrow> equal s2 a b"
    using Cons.IH [of s1] Cons.prems(2) by auto
  then show ?case
    using call call_has [OF Cons.prems(1) c call] call_strict [OF Cons.prems(1) c call]
      call_equal [OF Cons.prems(1) c call] by auto
qed simp

text \<open>No later call reverses an established order or dissolves it into an equivalence.\<close>

lemma never_reversed:
  assumes "ok s" "\<forall>c \<in> set cs. valid c" "runCalls call cs s = Some s'" "strict s a b"
  shows "strict s' a b \<and> \<not> strict s' b a \<and> \<not> equal s' a b"
  using run_ok [OF assms(1,2)] assms(3,4) asymmetric strict_not_equal by fastforce

end

section \<open>The poset as provider\<close>

definition lam_safe :: "poset \<Rightarrow> bool" where
  \<comment> \<open>as long as no position reached the 64-bit maximum, positions increase along the order\<close>
  "lam_safe p \<longleftrightarrow> ((\<forall>i. stored p i \<longrightarrow> lam p i \<noteq> u64_max) \<longrightarrow> lamport_ok p)"

definition store_ok :: "poset \<Rightarrow> bool" where
  "store_ok p \<longleftrightarrow> poset_ok p \<and> lam_safe p"

definition extends :: "poset \<Rightarrow> poset \<Rightarrow> bool" where
  "extends p q \<longleftrightarrow> (\<forall>i. stored p i \<longrightarrow> stored q i) \<and> before p \<subseteq> before q
     \<and> (\<forall>a b. IsCausallyEquivalent p a b \<longrightarrow> IsCausallyEquivalent q a b)"

lemma extends_refl [simp]: "extends p p"
  by (simp add: extends_def)

lemma extends_trans: "extends p q \<Longrightarrow> extends q r \<Longrightarrow> extends p r"
  unfolding extends_def by blast

lemma lam_safe_step:
  assumes "lam_safe p" "\<And>i. stored p i \<Longrightarrow> stored q i" "\<And>i. lam p i \<le> lam q i"
    "lamport_ok p \<Longrightarrow> \<forall>i. stored q i \<longrightarrow> lam q i \<noteq> u64_max \<Longrightarrow> lamport_ok q"
  shows "lam_safe q"
  unfolding lam_safe_def
proof
  assume nm: "\<forall>i. stored q i \<longrightarrow> lam q i \<noteq> u64_max"
  have "lam p i \<noteq> u64_max" if "stored p i" for i
    using nm assms(2) [OF that] assms(3) [of i] by (metis word_order.extremum_uniqueI)
  then have "lamport_ok p" using assms(1) by (simp add: lam_safe_def)
  then show "lamport_ok q" using nm assms(4) by blast
qed

lemma store_okD: "store_ok p \<Longrightarrow> poset_ok p" "store_ok p \<Longrightarrow> lam_safe p"
  by (simp_all add: store_ok_def)

lemma addCausal_step:
  assumes "store_ok p" "addCausalLocked p f t = Some (q, r)"
  shows "store_ok q" "extends p q" "stored q = stored p"
proof -
  obtain q' where q': "addCausalLocked p f t = Some (q', add_causal_outcome p f t)"
    "add_causal_outcome p f t \<noteq> None \<Longrightarrow> q' = p"
    "add_causal_outcome p f t = None \<Longrightarrow> causal_added p f t q'"
    using addCausalLocked_ok [OF store_okD(1) [OF assms(1)], of f t] by metis
  have "q' = q" using q'(1) assms(2) by simp
  have "store_ok q \<and> extends p q \<and> stored q = stored p"
  proof (cases "add_causal_outcome p f t")
    case (Some err)
    then show ?thesis using q'(2) \<open>q' = q\<close> assms(1) by simp
  next
    case None
    then have ca: "causal_added p f t q" using q'(3) \<open>q' = q\<close> by simp
    note d = ca [unfolded causal_added_def]
    from None have st: "stored p f" "stored p t" by (auto simp: add_causal_outcome_def split: if_splits)
    have "lam_safe q"
      by (rule lam_safe_step [OF store_okD(2) [OF assms(1)]]) (use d in auto)
    moreover have "extends p q"
      using causal_added_before(1) [OF ca st] d by (auto simp: extends_def IsCausallyEquivalent_iff)
    ultimately show ?thesis using d by (simp add: store_ok_def)
  qed
  then show "store_ok q" "extends p q" "stored q = stored p" by simp_all
qed

lemma drainLoop_step:
  "drainLoop p pes rest errs n = Some (q, rest', errs', n') \<Longrightarrow> store_ok p \<Longrightarrow> store_ok q \<and> extends p q"
proof (induction p pes rest errs n rule: drainLoop.induct)
  case (2 p pe pes rest errs n)
  show ?case
  proof (cases "\<not> stored p (pe_from pe) \<or> \<not> stored p (pe_to pe)")
    case True
    with 2 show ?thesis by (auto split: if_splits)
  next
    case False
    with 2(4) obtain p1 r where r: "addCausalLocked p (pe_from pe) (pe_to pe) = Some (p1, r)"
      by (cases "addCausalLocked p (pe_from pe) (pe_to pe)") auto
    note s = addCausal_step [OF 2(5) r]
    have "store_ok q \<and> extends p1 q"
    proof (cases r)
      case None
      with 2(2,3) [OF False r refl] 2(4) False r s(1) show ?thesis by auto
    next
      case (Some err)
      with 2(2,3) [OF False r refl] 2(4) False r s(1) show ?thesis by auto
    qed
    with s(2) extends_trans show ?thesis by blast
  qed
qed simp

lemma lamport_ok_before:
  assumes "poset_ok p"
  shows "lamport_ok p \<longleftrightarrow> (\<forall>a b. (a, b) \<in> before p \<longrightarrow> lam p a < lam p b)"
proof
  note ok = poset_okD [OF assms]
  assume lo: "lamport_ok p"
  have path: "(x, y) \<in> (class_rel p)\<^sup>+ \<Longrightarrow> lam p x < lam p y" for x y
    by (induction rule: trancl_induct) (use lo in \<open>auto simp: lamport_ok_def intro: order.strict_trans\<close>)
  have "lam p a < lam p b" if "(a, b) \<in> before p" for a b
  proof -
    from that have ab: "stored p a" "stored p b" "(rep p a, rep p b) \<in> (class_rel p)\<^sup>+" by (auto simp: before_def)
    then have "lam p a = lam p (rep p a)" "lam p b = lam p (rep p b)"
      using ok(5) unfolding uniform_ok_def by blast+
    with path [OF ab(3)] show ?thesis by simp
  qed
  then show "\<forall>a b. (a, b) \<in> before p \<longrightarrow> lam p a < lam p b" by blast
next
  note ok = poset_okD [OF assms]
  assume bf: "\<forall>a b. (a, b) \<in> before p \<longrightarrow> lam p a < lam p b"
  have "(a, b) \<in> before p" if "(a, b) \<in> class_rel p" for a b
    using class_rel_stored [OF ok(1,2) that] that by (auto simp: before_def)
  with bf show "lamport_ok p" by (auto simp: lamport_ok_def)
qed

lemma addEvent_step:
  assumes "store_ok p" "ev_id e \<noteq> ''''" "AddEvent p (Some e) = (q, r)"
  shows "store_ok q" "extends p q"
proof -
  have "store_ok q \<and> extends p q"
  proof (cases "r = None \<and> ev_expectedCauses e = []")
    case True
    then have add: "addEventLocked p (Some e) = (q, None)" using assms(3) by (simp add: AddEvent_def)
    obtain ts where ts: "\<not> stored p (ev_id e)" "poset_ok q" "before q = before p" "class_rel q = class_rel p"
      "events q = fmupd (ev_id e) (frozen_copy p e ts) (events p)"
      "rep q = (\<lambda>i. if i = ev_id e then ev_id e else rep p i)" "lamport_ok p \<longrightarrow> lamport_ok q"
      by (rule addEventLocked_ok [OF store_okD(1) [OF assms(1)] assms(2) add])
    have l: "lam p i \<le> lam q i" for i using ts(1) by (auto simp: lam_def ts(5) map_lookup_absent)
    have "lam_safe q"
      by (rule lam_safe_step [OF store_okD(2) [OF assms(1)] _ l]) (use ts in \<open>auto simp: ts(5)\<close>)
    moreover have "extends p q"
      using ts(1,3) by (auto simp: extends_def IsCausallyEquivalent_iff ts(5,6))
    ultimately show ?thesis using ts(2) by (simp add: store_ok_def)
  next
    case False
    then have "q = p"
      using assms(3) addEventLocked_error [of p "Some e" q] by (auto simp: AddEvent_def split: if_splits)
    with assms(1) show ?thesis by simp
  qed
  then show "store_ok q" "extends p q" by simp_all
qed

lemma addEventWithCause_step:
  assumes "store_ok p" "ev_id e \<noteq> ''''"
  shows "\<exists>q r. AddEventWithCause p (Some e) causes = Some (q, r) \<and> store_ok q \<and> extends p q"
  using AddEventWithCause_total [OF store_okD(1) [OF assms(1)] assms(2), of causes]
proof
  assume "\<exists>err. AddEventWithCause p (Some e) causes = Some (p, Some err)"
  with assms(1) show ?thesis by auto
next
  assume "\<exists>q ts. AddEventWithCause p (Some e) causes = Some (q, None)
      \<and> CanonicalizeEventTimings (ev_timings e) = Inr ts \<and> \<not> stored p (ev_id e)
      \<and> (\<forall>c \<in> set causes. stored p c) \<and> grown p (ev_id e) ts (set causes) q"
  then obtain q ts where q: "AddEventWithCause p (Some e) causes = Some (q, None)"
    "\<not> stored p (ev_id e)" "\<forall>c \<in> set causes. stored p c" "grown p (ev_id e) ts (set causes) q" by blast
  note g = q(4) [unfolded grown_def]
  have "lam_safe q"
    by (rule lam_safe_step [OF store_okD(2) [OF assms(1)]]) (use g in auto)
  moreover have "before p \<subseteq> before q"
    using grown_before [OF store_okD(1) [OF assms(1)] q(2,4,3)] by auto
  then have "extends p q"
    using g q(2) by (auto simp: extends_def IsCausallyEquivalent_iff)
  ultimately show ?thesis using q(1) g by (auto simp: store_ok_def)
qed

lemma addEquivalent_step:
  assumes "store_ok p"
  shows "\<exists>q r. AddEquivalent p a b = Some (q, r) \<and> store_ok q \<and> extends p q"
proof -
  obtain q where q: "addCausalEquivalenceClassLocked p [a, b] = Some (q, equivalence_outcome p [a, b])"
    "equivalence_outcome p [a, b] \<noteq> None \<longrightarrow> q = p"
    "equivalence_outcome p [a, b] = None \<longrightarrow> classes_merged p [a, b] q"
    using addCausalEquivalence_ok [OF store_okD(1) [OF assms], of "[a, b]"] by metis
  have "store_ok q \<and> extends p q"
  proof (cases "equivalence_outcome p [a, b]")
    case None
    then have cm: "classes_merged p [a, b] q" using q(3) by simp
    note d = cm [unfolded classes_merged_def]
    have "lam_safe q"
      by (rule lam_safe_step [OF store_okD(2) [OF assms]]) (use d in auto)
    moreover have "extends p q" using d by (auto simp: extends_def IsCausallyEquivalent_iff)
    ultimately show ?thesis using d by (simp add: store_ok_def)
  qed (use q(2) assms in simp)
  with q(1) show ?thesis
    by (auto simp: AddEquivalent_def AddCausalEquivalent_def AddCausalEquivalenceClass_def)
qed

lemma observe_step:
  assumes "store_ok p" "AddObservationWithTimings p i ob ts = (q, r)"
  shows "store_ok q \<and> extends p q"
  using AddObservationWithTimings_cases [OF store_okD(1) [OF assms(1)] assms(2)]
proof
  assume "\<exists>err. r = Inl err \<and> q = p"
  with assms(1) show ?thesis by auto
next
  assume "\<exists>view. r = Inr view \<and> observed p i ob ts q view"
  then have d: "poset_ok q" "stored q = stored p" "before q = before p" "rep q = rep p" "lam q = lam p"
    by (auto simp: observed_def)
  then have "lamport_ok q \<longleftrightarrow> lamport_ok p"
    using lamport_ok_before [OF d(1)] lamport_ok_before [OF store_okD(1) [OF assms(1)]] by simp
  then show ?thesis
    using assms(1) d by (auto simp: store_ok_def lam_safe_def extends_def IsCausallyEquivalent_iff)
qed

lemma drain_step:
  assumes "store_ok p"
  shows "\<exists>q k errs. DrainPendingEdges p = Some (q, k, errs) \<and> store_ok q \<and> extends p q"
proof -
  obtain q rest errs n where run: "drainLoop p (pendingEdges p) [] [] 0 = Some (q, rest, errs, n)"
    using drainLoop_ok [OF store_okD(1) [OF assms], of "pendingEdges p" "[]" "[]" 0] by auto
  note d = drainLoop_step [OF run assms]
  let ?q = "q\<lparr>pendingEdges := rest\<rparr>"
  have "lam ?q = lam q" by (simp add: lam_def fun_eq_iff)
  then have "store_ok ?q" using d by (auto simp: store_ok_def lam_safe_def poset_ok_pending)
  moreover have "extends p ?q" using d by (simp add: extends_def IsCausallyEquivalent_iff poset_ok_pending)
  ultimately show ?thesis using run by (simp add: DrainPendingEdges_def)
qed

interpretation poset_order: causal_preorder store_ok stored "\<lambda>p a b. (a, b) \<in> before p" IsCausallyEquivalent
proof unfold_locales
  fix p a b c
  show "(a, b) \<in> before p \<Longrightarrow> stored p a \<and> stored p b" by (simp add: before_def)
  show "store_ok p \<Longrightarrow> (a, a) \<notin> before p"
    using before_irrefl poset_okD(2) by (auto simp: store_ok_def)
  show "store_ok p \<Longrightarrow> (a, b) \<in> before p \<Longrightarrow> (b, c) \<in> before p \<Longrightarrow> (a, c) \<in> before p"
    by (rule before_trans)
qed (auto simp: IsCausallyEquivalent_iff before_def)

lemma NewPoset_store_ok: "store_ok NewPoset"
  by (simp add: store_ok_def lam_safe_def NewPoset_ok)

end
