(* ===== verification/Kahn.thy ===== *)
theory Kahn
  imports Go_Prelude
begin

text \<open>
  Kahn's algorithm as \<open>TopologicalSort\<close>, \<open>topoSortLocked\<close> and \<open>causalDepthsLocked\<close> run it: in-degrees
  in a map, a ready queue kept in ascending order, and successors released when their in-degree drops
  to zero.  The loop ends on every input, cyclic or not, because a node is released only when its
  positive in-degree vanishes.  The interface \<open>kahn_graph\<close> states what the adjacency must satisfy;
  inside it the visited order is shown distinct, topologically sorted and complete exactly for an
  acyclic graph.
\<close>

fun releaseSuccessors :: "'a list \<Rightarrow> ('a, int) fmap \<Rightarrow> 'a list \<Rightarrow> ('a, int) fmap \<times> 'a list" where
  "releaseSuccessors [] inDegree queue = (inDegree, queue)"
| "releaseSuccessors (succ # succs) inDegree queue =
     (let inDegree = fmupd succ (map_get 0 inDegree succ - 1) inDegree
      in if map_get 0 inDegree succ = 0 then releaseSuccessors succs inDegree (queue @ [succ])
         else releaseSuccessors succs inDegree queue)"

definition waiting :: "('a, int) fmap \<Rightarrow> 'a set" where
  "waiting d = {k. map_get 0 d k > 0}"

lemma finite_waiting [simp]: "finite (waiting d)"
proof (rule finite_subset)
  show "waiting d \<subseteq> fset (fmdom d)"
    using map_get_absent [of d _ "0 :: int"] by (force simp: waiting_def map_has_def)
qed simp

lemma releaseSuccessors_measure:
  "releaseSuccessors ss d q = (d', q') \<Longrightarrow> card (waiting d') + length q' \<le> card (waiting d) + length q"
proof (induction ss d q rule: releaseSuccessors.induct)
  case (2 s ss d q)
  let ?d = "fmupd s (map_get 0 d s - 1) d"
  have sub: "waiting ?d \<subseteq> waiting d" by (auto simp: waiting_def split: if_splits)
  show ?case
  proof (cases "map_get 0 ?d s = 0")
    case True
    then have "waiting ?d = waiting d - {s}" "s \<in> waiting d" by (auto simp: waiting_def split: if_splits)
    then have "card (waiting d) = Suc (card (waiting ?d))"
      by (metis card_Suc_Diff1 finite_waiting)
    with 2(1) [OF refl True] 2(3) True show ?thesis by (simp add: Let_def)
  next
    case False
    have "card (waiting ?d) \<le> card (waiting d)" by (rule card_mono [OF finite_waiting sub])
    with 2(2) [OF refl False] 2(3) False show ?thesis by (simp add: Let_def)
  qed
qed simp

function kahnLoop ::
    "('a::linorder \<Rightarrow> 'a list) \<Rightarrow> ('a, int) fmap \<Rightarrow> 'a list \<Rightarrow> 'a list \<Rightarrow> 'a list" where
  "kahnLoop succs inDegree [] visited = visited"
| "kahnLoop succs inDegree (cur # queue) visited =
     (case releaseSuccessors (succs cur) inDegree queue of
        (inDegree', queue') \<Rightarrow> kahnLoop succs inDegree' (sort queue') (visited @ [cur]))"
  by pat_completeness auto
termination
proof (relation "measure (\<lambda>(succs, d, queue, visited). card (waiting d) + length queue)")
  fix succs :: "'a \<Rightarrow> 'a list" and d cur queue visited d' queue'
  assume "(d', queue') = releaseSuccessors (succs cur) d queue"
  from releaseSuccessors_measure [OF this [symmetric]]
  show "((succs, d', sort queue', visited @ [cur]), succs, d, cur # queue, visited)
      \<in> measure (\<lambda>(succs, d, queue, visited). card (waiting d) + length queue)" by simp
qed simp

definition inDegrees :: "('a \<Rightarrow> 'a list) \<Rightarrow> 'a list \<Rightarrow> ('a, int) fmap" where
  "inDegrees preds nodes = fold (\<lambda>r d. fmupd r (int (length (preds r))) d) nodes fmempty"

definition kahnOrder :: "('a \<Rightarrow> 'a list) \<Rightarrow> ('a \<Rightarrow> 'a list) \<Rightarrow> 'a::linorder list \<Rightarrow> 'a list" where
  "kahnOrder succs preds nodes =
     (let inDegree = inDegrees preds nodes;
          queue = filter (\<lambda>i. map_get 0 inDegree i = 0) nodes
      in kahnLoop succs inDegree (sort queue) [])"

lemma releaseSuccessors_spec:
  assumes "distinct ss"
  shows "releaseSuccessors ss d q = (d', q') \<Longrightarrow>
    (\<forall>x. map_get 0 d' x = map_get 0 d x - (if x \<in> set ss then 1 else 0))
    \<and> q' = q @ filter (\<lambda>s. map_get 0 d s = 1) ss"
  using assms
proof (induction ss arbitrary: d q)
  case (Cons s ss)
  let ?d = "fmupd s (map_get 0 d s - 1) d"
  have other: "filter (\<lambda>s. map_get 0 ?d s = 1) ss = filter (\<lambda>s. map_get 0 d s = 1) ss"
    using Cons.prems(2) by (auto intro!: filter_cong)
  show ?case
  proof (cases "map_get 0 d s = 1")
    case True
    then have "releaseSuccessors ss ?d (q @ [s]) = (d', q')" using Cons.prems(1) by (simp add: Let_def)
    from Cons.IH [OF this] Cons.prems(2) True show ?thesis unfolding other by auto
  next
    case False
    then have "releaseSuccessors ss ?d q = (d', q')" using Cons.prems(1) by (simp add: Let_def)
    from Cons.IH [OF this] Cons.prems(2) False show ?thesis unfolding other by auto
  qed
qed simp

lemma inDegrees_get: "distinct nodes \<Longrightarrow>
   map_get 0 (inDegrees preds nodes) x = (if x \<in> set nodes then int (length (preds x)) else 0)"
proof -
  have "map_get 0 (fold (\<lambda>r d. fmupd r (int (length (preds r))) d) ns d) x
      = (if x \<in> set ns then int (length (preds x)) else map_get 0 d x)" for ns d
    by (induction ns arbitrary: d) auto
  then show ?thesis by (simp add: inDegrees_def)
qed

text \<open>A list in which every node follows its predecessors.\<close>

fun topo_sorted :: "('a \<Rightarrow> 'a list) \<Rightarrow> 'a set \<Rightarrow> 'a list \<Rightarrow> bool" where
  "topo_sorted preds seen [] = True"
| "topo_sorted preds seen (x # xs) = (set (preds x) \<subseteq> seen \<and> topo_sorted preds (insert x seen) xs)"

lemma topo_sorted_snoc:
  "topo_sorted preds seen (xs @ [x]) \<longleftrightarrow> topo_sorted preds seen xs \<and> set (preds x) \<subseteq> seen \<union> set xs"
  by (induction xs arbitrary: seen) auto

lemma topo_sorted_nth:
  "topo_sorted preds seen xs \<Longrightarrow> i < length xs \<Longrightarrow> set (preds (xs ! i)) \<subseteq> seen \<union> set (take i xs)"
proof (induction xs arbitrary: seen i)
  case (Cons x xs)
  then show ?case by (cases i) fastforce+
qed simp

locale kahn_graph =
  fixes succs preds :: "'a::linorder \<Rightarrow> 'a list" and nodes :: "'a list"
  assumes mirror: "y \<in> set (succs x) \<longleftrightarrow> x \<in> set (preds y)"
    and distinct_succs: "distinct (succs x)"
    and distinct_preds: "distinct (preds x)"
    and succs_nodes: "x \<in> set nodes \<Longrightarrow> set (succs x) \<subseteq> set nodes"
    and preds_nodes: "x \<in> set nodes \<Longrightarrow> set (preds x) \<subseteq> set nodes"
    and distinct_nodes: "distinct nodes"
begin

definition edges :: "('a \<times> 'a) set" where
  "edges = {(x, y). y \<in> set nodes \<and> x \<in> set (preds y)}"

definition inv :: "('a, int) fmap \<Rightarrow> 'a list \<Rightarrow> 'a list \<Rightarrow> bool" where
  "inv d queue visited \<longleftrightarrow> distinct (visited @ queue) \<and> set (visited @ queue) \<subseteq> set nodes
     \<and> (\<forall>x \<in> set nodes. map_get 0 d x = int (card (set (preds x) - set visited)))
     \<and> set queue = {x \<in> set nodes. x \<notin> set visited \<and> set (preds x) \<subseteq> set visited}
     \<and> topo_sorted preds {} visited"

lemma inv_step:
  assumes "inv d (cur # queue) visited" "releaseSuccessors (succs cur) d queue = (d', queue')"
  shows "inv d' (sort queue') (visited @ [cur])"
proof -
  note i = assms(1) [unfolded inv_def]
  note r = releaseSuccessors_spec [OF distinct_succs assms(2)]
  have cur: "cur \<in> set nodes" "cur \<notin> set visited" "set (preds cur) \<subseteq> set visited" "cur \<notin> set queue"
    using i by auto
  have d: "map_get 0 d x = int (card (set (preds x) - set visited))" if "x \<in> set nodes" for x
    using i that by blast
  have deg: "map_get 0 d' x = int (card (set (preds x) - set (visited @ [cur])))" if x: "x \<in> set nodes" for x
  proof (cases "x \<in> set (succs cur)")
    case True
    then have c: "cur \<in> set (preds x) - set visited" using mirror cur(2) by simp
    have "card (set (preds x) - set (visited @ [cur])) = card (set (preds x) - set visited - {cur})"
      by (rule arg_cong [of _ _ card]) auto
    also have "\<dots> = card (set (preds x) - set visited) - 1" using c by simp
    finally have "int (card (set (preds x) - set (visited @ [cur]))) = int (card (set (preds x) - set visited)) - 1"
      using c by (metis card_gt_0_iff empty_iff finite_Diff finite_set int_ops(6) less_eq_Suc_le not_less of_nat_1 One_nat_def of_nat_diff)
    then show ?thesis using r d [OF x] True by simp
  next
    case False
    then have "cur \<notin> set (preds x)" using mirror by simp
    then have "set (preds x) - set (visited @ [cur]) = set (preds x) - set visited" by auto
    then show ?thesis using r d [OF x] False by simp
  qed
  have one: "map_get 0 d x = 1 \<longleftrightarrow> set (preds x) - set visited = {cur}" if "x \<in> set (succs cur)" for x
  proof -
    have x: "x \<in> set nodes" using that succs_nodes [OF cur(1)] by blast
    have "cur \<in> set (preds x) - set visited" using that mirror cur(2) by simp
    then have "card (set (preds x) - set visited) = 1 \<longleftrightarrow> set (preds x) - set visited = {cur}"
      by (metis One_nat_def card.empty card_1_singletonE card.insert empty_iff finite.emptyI singletonD)
    then show ?thesis using d [OF x] by simp
  qed
  have queue': "set queue' = set queue \<union> {x \<in> set (succs cur). set (preds x) - set visited = {cur}}"
    using r one by auto
  have q_eq: "set queue = {x \<in> set nodes. x \<notin> set visited \<and> x \<noteq> cur \<and> set (preds x) \<subseteq> set visited}"
    using i by auto
  have self: "cur \<notin> set (succs cur)" using cur mirror by blast
  have new_notin: "x \<notin> set visited \<and> x \<noteq> cur \<and> x \<notin> set queue"
    if "x \<in> set (succs cur)" "set (preds x) - set visited = {cur}" for x
  proof -
    have "\<not> set (preds x) \<subseteq> set visited" using that(2) by auto
    moreover have "x \<in> set visited \<Longrightarrow> set (preds x) \<subseteq> set visited"
    proof -
      assume "x \<in> set visited"
      then obtain k where "k < length visited" "visited ! k = x" by (auto simp: in_set_conv_nth)
      then show "set (preds x) \<subseteq> set visited"
        using topo_sorted_nth [of preds "{}" visited k] i set_take_subset [of k visited] by auto
    qed
    ultimately show ?thesis using that self q_eq by auto
  qed
  have "set (sort queue') = {x \<in> set nodes. x \<notin> set (visited @ [cur]) \<and> set (preds x) \<subseteq> set (visited @ [cur])}"
  proof -
    have "x \<in> set queue' \<longleftrightarrow> x \<in> set nodes \<and> x \<notin> set (visited @ [cur]) \<and> set (preds x) \<subseteq> set (visited @ [cur])" for x
    proof
      assume "x \<in> set queue'"
      then show "x \<in> set nodes \<and> x \<notin> set (visited @ [cur]) \<and> set (preds x) \<subseteq> set (visited @ [cur])"
        using q_eq new_notin succs_nodes [OF cur(1)] unfolding queue' by auto
    next
      assume x: "x \<in> set nodes \<and> x \<notin> set (visited @ [cur]) \<and> set (preds x) \<subseteq> set (visited @ [cur])"
      show "x \<in> set queue'"
      proof (cases "cur \<in> set (preds x)")
        case True
        then have "set (preds x) - set visited = {cur}" "x \<in> set (succs cur)" using x cur(2) mirror by auto
        then show ?thesis unfolding queue' by blast
      next
        case False
        then have "set (preds x) \<subseteq> set visited" using x by auto
        then show ?thesis unfolding queue' q_eq using x by auto
      qed
    qed
    then show ?thesis by auto
  qed
  moreover have "distinct queue'"
    using r i new_notin one distinct_succs [of cur] by auto
  moreover have "topo_sorted preds {} (visited @ [cur])"
    using i cur(3) by (simp add: topo_sorted_snoc)
  ultimately show ?thesis
    unfolding inv_def using i deg new_notin succs_nodes [OF cur(1)]
    by (auto simp: queue' q_eq)
qed

lemma inv_done:
  "inv d queue visited \<Longrightarrow> s = succs \<Longrightarrow> \<exists>d'. inv d' [] (kahnLoop s d queue visited)"
proof (induction s d queue visited rule: kahnLoop.induct)
  case (2 s d cur queue visited)
  obtain d' queue' where r: "releaseSuccessors (s cur) d queue = (d', queue')"
    by (cases "releaseSuccessors (s cur) d queue")
  have "inv d' (sort queue') (visited @ [cur])"
    by (rule inv_step [OF 2(2)]) (use r 2(3) in simp)
  from 2(1) [OF r [symmetric] this 2(3)] r show ?case by simp
qed auto

lemma inv_start:
  "inv (inDegrees preds nodes) (sort (filter (\<lambda>i. map_get 0 (inDegrees preds nodes) i = 0) nodes)) []"
  using distinct_nodes
  by (auto simp: inv_def inDegrees_get distinct_card [OF distinct_preds])

lemma order_inv: "\<exists>d. inv d [] (kahnOrder succs preds nodes)"
  using inv_done [OF inv_start] by (simp add: kahnOrder_def Let_def)

lemma order_distinct: "distinct (kahnOrder succs preds nodes)"
  and order_nodes: "set (kahnOrder succs preds nodes) \<subseteq> set nodes"
  and order_topo: "topo_sorted preds {} (kahnOrder succs preds nodes)"
  and order_closed: "x \<in> set nodes \<Longrightarrow> set (preds x) \<subseteq> set (kahnOrder succs preds nodes) \<Longrightarrow>
        x \<in> set (kahnOrder succs preds nodes)"
  using order_inv by (auto simp: inv_def)

lemma order_before:
  assumes "(x, y) \<in> edges" "y \<in> set (kahnOrder succs preds nodes)"
  shows "\<exists>i j. i < j \<and> j < length (kahnOrder succs preds nodes)
    \<and> kahnOrder succs preds nodes ! i = x \<and> kahnOrder succs preds nodes ! j = y"
proof -
  obtain j where j: "j < length (kahnOrder succs preds nodes)" "kahnOrder succs preds nodes ! j = y"
    using assms(2) by (auto simp: in_set_conv_nth)
  have "x \<in> set (take j (kahnOrder succs preds nodes))"
    using topo_sorted_nth [OF order_topo j(1)] assms(1) j(2) by (auto simp: edges_def)
  then obtain i where "i < j" "kahnOrder succs preds nodes ! i = x"
    using j(1) by (auto simp: in_set_conv_nth)
  with j show ?thesis by blast
qed

lemma finite_edges: "finite edges"
proof (rule finite_subset)
  show "edges \<subseteq> set nodes \<times> set nodes" using preds_nodes by (auto simp: edges_def)
qed simp

lemma order_complete:
  assumes "acyclic edges"
  shows "set (kahnOrder succs preds nodes) = set nodes"
proof (rule antisym [OF order_nodes], rule ccontr)
  assume "\<not> set nodes \<subseteq> set (kahnOrder succs preds nodes)"
  then obtain x where x: "x \<in> set nodes - set (kahnOrder succs preds nodes)" by blast
  have "wf edges" by (rule finite_acyclic_wf [OF finite_edges assms])
  then obtain z where z: "z \<in> set nodes - set (kahnOrder succs preds nodes)"
    "\<And>y. (y, z) \<in> edges \<Longrightarrow> y \<notin> set nodes - set (kahnOrder succs preds nodes)"
    using x by (rule wfE_min) blast
  have "set (preds z) \<subseteq> set (kahnOrder succs preds nodes)"
    using z preds_nodes [of z] by (auto simp: edges_def)
  with order_closed z(1) show False by blast
qed

lemma complete_acyclic:
  assumes "set (kahnOrder succs preds nodes) = set nodes"
  shows "acyclic edges"
proof -
  define pos where "pos x = (THE i. i < length (kahnOrder succs preds nodes) \<and> kahnOrder succs preds nodes ! i = x)" for x
  have pos: "pos (kahnOrder succs preds nodes ! i) = i" if "i < length (kahnOrder succs preds nodes)" for i
    unfolding pos_def using that nth_eq_iff_index_eq [OF order_distinct] by (intro the_equality) auto
  have "edges \<subseteq> inv_image less_than pos"
  proof clarify
    fix x y assume xy: "(x, y) \<in> edges"
    then have "y \<in> set (kahnOrder succs preds nodes)" using assms by (simp add: edges_def)
    then obtain i j where "i < j" "j < length (kahnOrder succs preds nodes)"
      "kahnOrder succs preds nodes ! i = x" "kahnOrder succs preds nodes ! j = y"
      using order_before [OF xy] by blast
    then show "(x, y) \<in> inv_image less_than pos" using pos [of i] pos [of j] by auto
  qed
  then have "wf edges" by (rule wf_subset [OF wf_inv_image [OF wf_less_than]])
  then show ?thesis by (rule wf_acyclic)
qed

lemma order_length_iff: "length (kahnOrder succs preds nodes) = length nodes \<longleftrightarrow> acyclic edges"
proof
  assume "length (kahnOrder succs preds nodes) = length nodes"
  then have "card (set (kahnOrder succs preds nodes)) = card (set nodes)"
    by (simp only: distinct_card [OF order_distinct] distinct_card [OF distinct_nodes])
  then have "set (kahnOrder succs preds nodes) = set nodes"
    by (rule card_subset_eq [OF finite_set order_nodes])
  then show "acyclic edges" by (rule complete_acyclic)
next
  assume "acyclic edges"
  then have "card (set (kahnOrder succs preds nodes)) = card (set nodes)"
    by (simp only: order_complete)
  then show "length (kahnOrder succs preds nodes) = length nodes"
    by (simp only: distinct_card [OF order_distinct] distinct_card [OF distinct_nodes])
qed

end

end
