(* ===== verification/Poset_Topo.thy ===== *)
theory Poset_Topo
  imports Store_Interface Kahn
begin

text \<open>
  Layers of the causal order: \<open>TopologicalSort\<close> (\<open>poset.go\<close>), its unlocked twin and
  \<open>maxDepthLocked\<close> (\<open>poset_debug.go\<close>), and \<open>causalDepthsLocked\<close> (\<open>canonical.go\<close>).  The graph of
  classes of a well-formed poset is an instance of \<open>kahn_graph\<close>.  The binary min-heap of
  \<open>causalDepthsLocked\<close> always pops the least ready ID, so the ready set is a sorted list here too.
\<close>

section \<open>Operations\<close>

definition classOrder :: "poset \<Rightarrow> event_id list" where
  \<comment> \<open>the order in which the classes leave the ready queue\<close>
  "classOrder p = kahnOrder (causalClassSuccessorsLocked p) (causalClassPredecessorsLocked p)
     (causalClassRepresentativesLocked p)"

definition TopologicalSort :: "poset \<Rightarrow> event option list" where
  \<comment> \<open>each class that leaves the queue contributes its members\<close>
  "TopologicalSort p = concat (map (\<lambda>cur.
     map (\<lambda>member. map_option snapshotEvent (fmlookup (events p) member)) (causalClassMembersLocked p cur))
     (classOrder p))"

definition topoSortLocked :: "poset \<Rightarrow> event option list" where
  "topoSortLocked p = concat (map (\<lambda>cur.
     map (fmlookup (events p)) (causalClassMembersLocked p cur)) (classOrder p))"

definition classDepth :: "poset \<Rightarrow> (event_id, u64) fmap \<Rightarrow> event_id \<Rightarrow> u64" where
  "classDepth p classDepths current =
     fold (\<lambda>predecessor depth.
         let candidate = map_get 0 classDepths predecessor + 1
         in if candidate > depth then candidate else depth)
       (causalClassPredecessorsLocked p current) 1"

function depthLoop ::
    "poset \<Rightarrow> (event_id, int) fmap \<Rightarrow> event_id list \<Rightarrow> (event_id, u64) fmap \<Rightarrow> nat
       \<Rightarrow> (event_id, u64) fmap \<times> nat" where
  "depthLoop p inDegree [] classDepths visited = (classDepths, visited)"
| "depthLoop p inDegree (current # ready) classDepths visited =
     (case releaseSuccessors (causalClassSuccessorsLocked p current) inDegree ready of
        (inDegree', ready') \<Rightarrow>
          depthLoop p inDegree' (sort ready')
            (fmupd current (classDepth p classDepths current) classDepths) (visited + 1))"
  by pat_completeness auto
termination
proof (relation "measure (\<lambda>(p, d, ready, depths, visited). card (waiting d) + length ready)")
  fix p d current ready depths and visited :: nat and d' ready'
  assume "(d', ready') = releaseSuccessors (causalClassSuccessorsLocked p current) d ready"
  from releaseSuccessors_measure [OF this [symmetric]]
  show "((p, d', sort ready', fmupd current (classDepth p depths current) depths, visited + 1),
      p, d, current # ready, depths, visited)
    \<in> measure (\<lambda>(p, d, ready, depths, visited). card (waiting d) + length ready)" by simp
qed simp

definition causalDepthsLocked :: "poset \<Rightarrow> go_error + (event_id, u64) fmap" where
  "causalDepthsLocked p =
     (let representatives = causalClassRepresentativesLocked p;
          inDegree = inDegrees (causalClassPredecessorsLocked p) representatives;
          ready = sort (filter (\<lambda>i. map_get 0 inDegree i = 0) representatives);
          (classDepths, visited) = depthLoop p inDegree ready fmempty 0
      in if visited \<noteq> length representatives then Inl (ErrOther ''causal graph contains a cycle'')
         else Inr (fold (\<lambda>i depths. fmupd i (map_get 0 classDepths (rep p i)) depths) (event_ids p) fmempty))"

definition maxDepthLocked :: "poset \<Rightarrow> i64" where
  \<comment> \<open>\<open>int(depth)\<close> keeps the bits, the comparison is signed\<close>
  "maxDepthLocked p =
     (if fcard (fmdom (events p)) = 0 then 0
      else case causalDepthsLocked p of
        Inl _ \<Rightarrow> 0
      | Inr depths \<Rightarrow> fold (\<lambda>i maxD. let depth = map_get 0 depths i
                          in if maxD <s depth then depth else maxD) (map_keys depths) 1)"

section \<open>The class graph\<close>

definition shaped :: "poset \<Rightarrow> poset" where
  \<comment> \<open>a poset with consistent classes and edges, itself whenever it has them\<close>
  "shaped p = (if class_ok p \<and> edges_shape p then p else NewPoset)"

lemma shaped_ok: "class_ok (shaped p) \<and> edges_shape (shaped p)"
  using poset_okD(1,2) [OF NewPoset_ok(1)] edges_okD(6) by (simp add: shaped_def)

interpretation class_graph: kahn_graph "causalClassSuccessorsLocked (shaped p)"
  "causalClassPredecessorsLocked (shaped p)" "causalClassRepresentativesLocked (shaped p)"
proof unfold_locales
  note ok = conjunct1 [OF shaped_ok [of p]] conjunct2 [OF shaped_ok [of p]]
  note edge = class_rel_shape [OF ok] class_rel_rev_shape [OF ok]
  fix x y
  show "y \<in> set (causalClassSuccessorsLocked (shaped p) x) \<longleftrightarrow> x \<in> set (causalClassPredecessorsLocked (shaped p) y)"
    using edge [of x y] edge(2) [of y x] by (simp add: class_rel_iff class_rel_rev_iff)
  show "distinct (causalClassSuccessorsLocked (shaped p) x)" "distinct (causalClassPredecessorsLocked (shaped p) x)"
    by (simp_all add: causalClassSuccessorsLocked_def causalClassPredecessorsLocked_def)
  show "set (causalClassSuccessorsLocked (shaped p) x) \<subseteq> set (causalClassRepresentativesLocked (shaped p))"
    using edge(1) [of x] edges_shapeD(4) [OF ok(2)] by (auto simp: representatives_ok [OF ok(1)] class_rel_iff)
  show "set (causalClassPredecessorsLocked (shaped p) x) \<subseteq> set (causalClassRepresentativesLocked (shaped p))"
    using edge(2) [of x] edges_shapeD(4) [OF ok(2)] by (auto simp: representatives_ok [OF ok(1)] class_rel_rev_iff)
  show "distinct (causalClassRepresentativesLocked (shaped p))"
    by (simp add: causalClassRepresentativesLocked_def)
qed

lemma class_graph_edges: "class_graph.edges p = class_rel (shaped p)"
proof -
  note ok = conjunct1 [OF shaped_ok [of p]] conjunct2 [OF shaped_ok [of p]]
  have "(x, y) \<in> class_graph.edges p \<longleftrightarrow> (x, y) \<in> class_rel (shaped p)" for x y
    using class_rel_shape [OF ok, of x y] class_rel_rev_shape [OF ok, of y x] edges_shapeD(4) [OF ok(2), of y x]
    by (auto simp: class_graph.edges_def class_rel_rev_iff representatives_ok [OF ok(1)])
  then show ?thesis by auto
qed

lemma classOrder_ok:
  assumes "class_ok p" "edges_shape p"
  shows "distinct (classOrder p)" "set (classOrder p) \<subseteq> {r. stored p r \<and> rep p r = r}"
    "topo_sorted (causalClassPredecessorsLocked p) {} (classOrder p)"
    "length (classOrder p) = length (causalClassRepresentativesLocked p) \<longleftrightarrow> acyclic (class_rel p)"
    "acyclic (class_rel p) \<Longrightarrow> set (classOrder p) = {r. stored p r \<and> rep p r = r}"
proof -
  have s: "shaped p = p" using assms by (simp add: shaped_def)
  note facts = class_graph.order_distinct [of p] class_graph.order_nodes [of p] class_graph.order_topo [of p]
    class_graph.order_length_iff [of p, unfolded class_graph_edges]
    class_graph.order_complete [of p, unfolded class_graph_edges]
  note facts = facts [unfolded s, folded classOrder_def, unfolded representatives_ok [OF assms(1)]]
  show "distinct (classOrder p)" by (rule facts(1))
  show "set (classOrder p) \<subseteq> {r. stored p r \<and> rep p r = r}" by (rule facts(2))
  show "topo_sorted (causalClassPredecessorsLocked p) {} (classOrder p)" by (rule facts(3))
  show "length (classOrder p) = length (causalClassRepresentativesLocked p) \<longleftrightarrow> acyclic (class_rel p)"
    by (rule facts(4))
  show "acyclic (class_rel p) \<Longrightarrow> set (classOrder p) = {r. stored p r \<and> rep p r = r}" by (rule facts(5))
qed

text \<open>Positions in a topological order respect the strict order of the classes.\<close>

lemma topo_sorted_trancl:
  assumes "topo_sorted preds {} xs" "\<And>x y. (x, y) \<in> r \<Longrightarrow> x \<in> set (preds y)" "(x, y) \<in> r\<^sup>+"
    "j < length xs" "xs ! j = y"
  shows "\<exists>i < j. xs ! i = x"
  using assms(3-5)
proof (induction arbitrary: j rule: trancl_induct)
  case (base y)
  then have "x \<in> set (take j xs)" using topo_sorted_nth [OF assms(1) base(2)] assms(2) by auto
  then show ?case using base(2) by (auto simp: in_set_conv_nth)
next
  case (step y z)
  then have "y \<in> set (take j xs)" using topo_sorted_nth [OF assms(1) step.prems(1)] assms(2) by auto
  then obtain k where "k < j" "xs ! k = y" using step.prems(1) by (auto simp: in_set_conv_nth)
  moreover from this obtain i where "i < k" "xs ! i = x"
    using step.IH [of k] step.prems(1) by auto
  ultimately show ?case by (auto intro!: exI [of _ i])
qed

lemma class_rel_preds: "class_ok p \<Longrightarrow> edges_shape p \<Longrightarrow>
   x \<in> set (causalClassPredecessorsLocked p y) \<longleftrightarrow> (x, y) \<in> class_rel p"
  by (simp add: class_rel_rev_iff [symmetric] class_rel_shape class_rel_rev_shape)

text \<open>The IDs in topological order: the members of each class in turn.\<close>

definition idOrder :: "poset \<Rightarrow> event_id list" where
  "idOrder p = concat (map (class_list p) (classOrder p))"

lemma topoSort_ids:
  assumes "class_ok p" "edges_shape p" "events_ok p"
  shows "topoSortLocked p = map (fmlookup (events p)) (idOrder p)"
    "TopologicalSort p = map (fmlookup (events p)) (idOrder p)"
    "\<forall>i \<in> set (idOrder p). \<exists>e. fmlookup (events p) i = Some e \<and> ev_id e = i"
    "distinct (idOrder p)"
proof -
  have sub: "set (classOrder p) \<subseteq> {r. stored p r \<and> rep p r = r}" by (rule classOrder_ok [OF assms(1,2)])
  have mem: "\<forall>c \<in> set (classOrder p). causalClassMembersLocked p c = class_list p c"
    using sub by (auto simp: causalClassMembersLocked_ok [OF assms(1)])
  have m: "map (\<lambda>cur. map f (causalClassMembersLocked p cur)) (classOrder p)
      = map (\<lambda>cur. map f (class_list p cur)) (classOrder p)" for f :: "event_id \<Rightarrow> event option"
    using mem by simp
  have id: "map_option snapshotEvent x = x" for x by (cases x) simp_all
  show "topoSortLocked p = map (fmlookup (events p)) (idOrder p)"
    "TopologicalSort p = map (fmlookup (events p)) (idOrder p)"
    unfolding topoSortLocked_def TopologicalSort_def idOrder_def m id by (simp_all add: map_concat comp_def)
  show "\<forall>i \<in> set (idOrder p). \<exists>e. fmlookup (events p) i = Some e \<and> ev_id e = i"
    using assms(3) by (auto simp: idOrder_def set_class_list map_has_iff events_ok_def)
  have "distinct cs \<Longrightarrow> distinct (concat (map (class_list p) cs))" for cs
    by (induction cs) (auto simp: set_class_list)
  then show "distinct (idOrder p)" unfolding idOrder_def using classOrder_ok(1) [OF assms(1,2)] .
qed

lemma idOrder_before:
  assumes "class_ok p" "edges_ok p" "(a, b) \<in> before p"
  shows "\<exists>us vs. idOrder p = us @ vs \<and> a \<in> set us \<and> b \<in> set vs"
proof -
  note sh = edges_okD(6) [OF assms(2)] and ac = edges_okD(4) [OF assms(2)]
  note co = classOrder_ok [OF assms(1) sh]
  from assms(3) have ab: "stored p a" "stored p b" "(rep p a, rep p b) \<in> (class_rel p)\<^sup>+"
    by (auto simp: before_def)
  have "rep p b \<in> set (classOrder p)"
    using co(5) [OF ac] ab(2) rep_stored [OF assms(1)] rep_rep [OF assms(1)] by simp
  then obtain j where j: "j < length (classOrder p)" "classOrder p ! j = rep p b"
    by (auto simp: in_set_conv_nth)
  have step: "(x, y) \<in> class_rel p \<Longrightarrow> x \<in> set (causalClassPredecessorsLocked p y)" for x y
    by (simp add: class_rel_preds [OF assms(1) sh])
  obtain i where i: "i < j" "classOrder p ! i = rep p a"
    using topo_sorted_trancl [OF co(3) step ab(3) j] by blast
  have "rep p a \<in> set (take j (classOrder p))" using i j(1) by (auto simp: in_set_conv_nth)
  moreover have "rep p b \<in> set (drop j (classOrder p))"
    using j by (metis Cons_nth_drop_Suc list.set_intros(1))
  moreover have "idOrder p = concat (map (class_list p) (take j (classOrder p)))
      @ concat (map (class_list p) (drop j (classOrder p)))"
    unfolding idOrder_def concat_append [symmetric] map_append [symmetric] append_take_drop_id ..
  moreover have "a \<in> set (class_list p (rep p a))" "b \<in> set (class_list p (rep p b))"
    using ab by (simp_all add: set_class_list)
  ultimately show ?thesis by fastforce
qed

lemma idOrder_all:
  assumes "class_ok p" "edges_ok p"
  shows "set (idOrder p) = {i. stored p i}"
  using classOrder_ok(5) [OF assms(1) edges_okD(6) [OF assms(2)] edges_okD(4) [OF assms(2)]]
    rep_stored [OF assms(1)] rep_rep [OF assms(1)]
  by (auto simp: idOrder_def set_class_list)

section \<open>Depths\<close>

lemma kahnLoop_acc: "kahnLoop s d q (u @ v) = u @ kahnLoop s d q v"
proof (induction s d q v rule: kahnLoop.induct)
  case (2 s d cur queue v)
  obtain d' q' where r: "releaseSuccessors (s cur) d queue = (d', q')"
    by (cases "releaseSuccessors (s cur) d queue")
  from 2 [OF r [symmetric]] r show ?case by simp
qed simp

lemma depthLoop_fold:
  "depthLoop p d ready M n =
     (fold (\<lambda>c M. fmupd c (classDepth p M c) M) (kahnLoop (causalClassSuccessorsLocked p) d ready []) M,
      n + length (kahnLoop (causalClassSuccessorsLocked p) d ready []))"
proof (induction p d ready M n rule: depthLoop.induct)
  case (2 p d cur ready M n)
  obtain d' r' where r: "releaseSuccessors (causalClassSuccessorsLocked p cur) d ready = (d', r')"
    by (cases "releaseSuccessors (causalClassSuccessorsLocked p cur) d ready")
  have "kahnLoop (causalClassSuccessorsLocked p) d' (sort r') [cur]
      = [cur] @ kahnLoop (causalClassSuccessorsLocked p) d' (sort r') []"
    using kahnLoop_acc [of _ _ _ "[cur]" "[]"] by simp
  with 2 [OF r [symmetric]] r show ?case by simp
qed simp

definition classDepths :: "poset \<Rightarrow> (event_id, u64) fmap" where
  "classDepths p = fold (\<lambda>c M. fmupd c (classDepth p M c) M) (classOrder p) fmempty"

lemma causalDepths_unfold:
  "causalDepthsLocked p =
     (if length (classOrder p) \<noteq> length (causalClassRepresentativesLocked p)
      then Inl (ErrOther ''causal graph contains a cycle'')
      else Inr (fold (\<lambda>i depths. fmupd i (map_get 0 (classDepths p) (rep p i)) depths) (event_ids p) fmempty))"
  by (simp add: causalDepthsLocked_def Let_def depthLoop_fold classDepths_def classOrder_def kahnOrder_def)

text \<open>Along a topological order the map of depths satisfies its defining equation.\<close>

lemma classDepth_cong:
  "(\<And>x. x \<in> set (causalClassPredecessorsLocked p c) \<Longrightarrow> map_get 0 M x = map_get 0 M' x) \<Longrightarrow>
     classDepth p M c = classDepth p M' c"
  unfolding classDepth_def by (intro fold_cong refl) (simp add: Let_def)

lemma depth_fold_eq:
  assumes "topo_sorted (causalClassPredecessorsLocked p) seen cs" "distinct cs" "set cs \<inter> seen = {}"
    "c \<in> set cs"
  shows "map_get 0 (fold (\<lambda>c M. fmupd c (classDepth p M c) M) cs M) c
      = classDepth p (fold (\<lambda>c M. fmupd c (classDepth p M c) M) cs M) c"
proof -
  let ?step = "\<lambda>c M. fmupd c (classDepth p M c) M"
  have frame: "x \<notin> set ds \<Longrightarrow> map_get 0 (fold ?step ds M) x = map_get 0 M x" for x ds M
    by (induction ds arbitrary: M) auto
  show ?thesis
    using assms
  proof (induction cs arbitrary: seen M)
    case (Cons a cs)
    show ?case
    proof (cases "c = a")
      case True
      have "map_get 0 (fold ?step cs (?step a M)) a = classDepth p M a"
        using Cons.prems(2) by (subst frame) auto
      moreover have "classDepth p M a = classDepth p (fold ?step cs (?step a M)) a"
      proof (rule classDepth_cong)
        fix x assume "x \<in> set (causalClassPredecessorsLocked p a)"
        then have "x \<in> seen" using Cons.prems(1) by auto
        then have "x \<notin> set cs" "x \<noteq> a" using Cons.prems(3) by auto
        then show "map_get 0 M x = map_get 0 (fold ?step cs (?step a M)) x" by (subst frame) auto
      qed
      ultimately show ?thesis using True by simp
    next
      case False
      have "topo_sorted (causalClassPredecessorsLocked p) (insert a seen) cs" "set cs \<inter> insert a seen = {}"
        using Cons.prems by auto
      from Cons.IH [OF this(1) _ this(2)] False Cons.prems(2,4) show ?thesis by simp
    qed
  qed simp
qed

lemma classDepths_eq:
  assumes "class_ok p" "edges_ok p" "stored p c" "rep p c = c"
  shows "map_get 0 (classDepths p) c = classDepth p (classDepths p) c"
proof -
  note co = classOrder_ok [OF assms(1) edges_okD(6) [OF assms(2)]]
  have "c \<in> set (classOrder p)" using co(5) [OF edges_okD(4) [OF assms(2)]] assms(3,4) by simp
  from depth_fold_eq [OF co(3,1) _ this] show ?thesis unfolding classDepths_def by simp
qed

lemma acyclic_relpow_bound:
  assumes "acyclic r" "finite N" "r \<subseteq> N \<times> N" "y \<in> N" "(x, y) \<in> r ^^ n"
  shows "n < card N"
proof -
  from assms(5) obtain f where f: "f 0 = x" "f n = y" "\<forall>i < n. (f i, f (Suc i)) \<in> r"
    by (auto simp: relpow_fun_conv)
  have path: "i < j \<Longrightarrow> j \<le> n \<Longrightarrow> (f i, f j) \<in> r\<^sup>+" for i j
  proof (induction j)
    case (Suc j)
    then have "(f j, f (Suc j)) \<in> r" using f(3) by simp
    with Suc show ?case by (cases "i = j") (auto intro: trancl_into_trancl)
  qed simp
  have "f i \<noteq> f j" if "i < j" "j \<le> n" for i j
    using path [OF that] assms(1) by (metis acyclic_def)
  then have "inj_on f {..n}" by (auto simp: inj_on_def) (metis nat_neq_iff)
  then have "card (f ` {..n}) = Suc n" by (simp add: card_image)
  moreover have "f ` {..n} \<subseteq> N"
  proof (intro image_subsetI)
    fix i assume "i \<in> {..n}"
    moreover have "(f i, f (Suc i)) \<in> r" if "i < n" using f(3) that by blast
    ultimately show "f i \<in> N" using f(2) assms(3,4) by (cases "i = n") auto
  qed
  ultimately show ?thesis using card_mono [OF assms(2)] by (metis Suc_le_eq)
qed

lemma fold_candidate_max:
  fixes f :: "'a \<Rightarrow> 'b::linorder"
  defines "g \<equiv> \<lambda>x d. let c = f x in if c > d then c else d"
  shows "v \<le> fold g xs v \<and> (\<forall>x \<in> set xs. f x \<le> fold g xs v)
    \<and> (fold g xs v = v \<or> (\<exists>x \<in> set xs. fold g xs v = f x))"
proof (induction xs arbitrary: v)
  case (Cons a xs)
  have "v \<le> g a v" "f a \<le> g a v" "g a v = v \<or> g a v = f a" by (auto simp: g_def Let_def)
  with Cons [of "g a v"] show ?case by (auto intro: order_trans)
qed simp

definition longest_chain :: "poset \<Rightarrow> event_id \<Rightarrow> nat \<Rightarrow> bool" where
  \<comment> \<open>\<open>n\<close> is the number of classes on a longest strict chain that ends in the class of \<open>i\<close>\<close>
  "longest_chain p i n \<longleftrightarrow> n > 0 \<and> (\<exists>x. (x, rep p i) \<in> class_rel p ^^ (n - 1))
     \<and> (\<forall>m x. (x, rep p i) \<in> class_rel p ^^ m \<longrightarrow> m < n)"

lemma classDepth_longest:
  assumes ok: "class_ok p" "edges_ok p" and small: "fcard (fmdom (events p)) < 2 ^ 64"
  shows "stored p c \<Longrightarrow> rep p c = c \<Longrightarrow> longest_chain p c (unat (map_get 0 (classDepths p) c))"
proof (induction c rule: wf_induct_rule [OF finite_acyclic_wf [OF finite_class_rel edges_okD(4) [OF ok(2)]]])
  case (1 c)
  let ?D = "\<lambda>x. map_get 0 (classDepths p) x"
  let ?N = "fset (fmdom (events p))"
  let ?ps = "causalClassPredecessorsLocked p c"
  have RN: "class_rel p \<subseteq> ?N \<times> ?N" using class_rel_stored [OF ok] by (force simp: map_has_def)
  have cN: "c \<in> ?N" using 1(2) by (simp add: map_has_def)
  have pre: "x \<in> set ?ps \<longleftrightarrow> (x, c) \<in> class_rel p" for x
    by (rule class_rel_preds [OF ok(1) edges_okD(6) [OF ok(2)]])
  have IH: "longest_chain p x (unat (?D x))" if "(x, c) \<in> class_rel p" for x
    using 1(1) [OF that] class_rel_stored [OF ok that] by simp
  have bound: "unat (?D x + 1) = Suc (unat (?D x))" if "(x, c) \<in> class_rel p" for x
  proof -
    from IH [OF that] class_rel_stored [OF ok that] obtain y
      where y: "(y, x) \<in> class_rel p ^^ (unat (?D x) - 1)" "unat (?D x) > 0"
      by (auto simp: longest_chain_def)
    have "(y, c) \<in> class_rel p ^^ Suc (unat (?D x) - 1)" by (rule relpow_Suc_I [OF y(1) that])
    from acyclic_relpow_bound [OF edges_okD(4) [OF ok(2)] finite_fset RN cN this]
    have "unat (?D x) < card ?N" using y(2) by simp
    then have "unat (?D x) < 2 ^ 64 - 1" using small by (simp add: fcard.rep_eq)
    then have "?D x \<noteq> u64_max" by (auto simp: unsigned_minus_1_eq_mask mask_eq_exp_minus_1)
    then show ?thesis by (rule u64_unat_succ)
  qed
  define M where "M = classDepth p (classDepths p) c"
  have eq: "?D c = M" unfolding M_def by (rule classDepths_eq [OF ok 1(2,3)])
  note mx = fold_candidate_max [where f = "\<lambda>x. ?D x + 1" and xs = ?ps and v = 1, folded classDepth_def M_def]
  have M1: "1 \<le> unat M" using mx by (simp add: word_le_nat_alt)
  have up: "Suc (unat (?D x)) \<le> unat M" if "(x, c) \<in> class_rel p" for x
    using mx that bound [OF that] pre by (metis word_le_nat_alt)
  have "\<exists>x. (x, c) \<in> class_rel p ^^ (unat M - 1)"
  proof (cases "M = 1")
    case True
    then show ?thesis by auto
  next
    case False
    then obtain x where x: "(x, c) \<in> class_rel p" "M = ?D x + 1" using mx pre by auto
    from IH [OF x(1)] class_rel_stored [OF ok x(1)] obtain y
      where y: "(y, x) \<in> class_rel p ^^ (unat (?D x) - 1)" "unat (?D x) > 0"
      by (auto simp: longest_chain_def)
    have "(y, c) \<in> class_rel p ^^ Suc (unat (?D x) - 1)" by (rule relpow_Suc_I [OF y(1) x(1)])
    moreover have "unat M - 1 = Suc (unat (?D x) - 1)" using bound [OF x(1)] x(2) y(2) by simp
    ultimately show ?thesis by metis
  qed
  moreover have "m < unat M" if "(x, c) \<in> class_rel p ^^ m" for m x
  proof (cases m)
    case 0
    then show ?thesis using M1 by simp
  next
    case (Suc k)
    with that have "(x, c) \<in> class_rel p ^^ Suc k" by simp
    then obtain y where y: "(x, y) \<in> class_rel p ^^ k" "(y, c) \<in> class_rel p"
      by (rule relpow_Suc_E)
    then have "k < unat (?D y)"
      using IH [OF y(2)] class_rel_stored [OF ok y(2)] by (auto simp: longest_chain_def)
    then show ?thesis using up [OF y(2)] Suc by simp
  qed
  ultimately show ?case using M1 1(3) eq by (simp add: longest_chain_def)
qed

section \<open>Properties\<close>

text \<open>C25: On a well-formed poset \<open>TopologicalSort\<close> returns every stored event exactly once, never a nil
  pointer, and each occurrence after everything strictly before it.\<close>

theorem TopologicalSort_sound:
  assumes "poset_ok p"
  shows "\<exists>ids. TopologicalSort p = map (fmlookup (events p)) ids \<and> distinct ids \<and> set ids = {i. stored p i}
    \<and> (\<forall>a b. IsCausallyBefore p a b \<longrightarrow> (\<exists>us vs. ids = us @ vs \<and> a \<in> set us \<and> b \<in> set vs))"
proof -
  note ok = poset_okD [OF assms]
  note ids = topoSort_ids [OF ok(1) edges_okD(6) [OF ok(2)] ok(3)]
  show ?thesis
    using ids(2,4) idOrder_all [OF ok(1,2)] idOrder_before [OF ok(1,2)]
    by (auto simp: IsCausallyBefore_iff [OF ok(2)])
qed

theorem TopologicalSort_sound_witness:
  "map (map_option ev_id) (TopologicalSort equated_events) = [Some ''a'', Some ''b'', Some ''c'']
   \<and> (\<exists>ids. TopologicalSort equated_events = map (fmlookup (events equated_events)) ids \<and> distinct ids)"
proof -
  have "map (map_option ev_id) (TopologicalSort equated_events) = [Some ''a'', Some ''b'', Some ''c'']"
    by code_simp
  with TopologicalSort_sound [OF equated_events_ok] show ?thesis by blast
qed

text \<open>The topological sort decides acyclicity: whenever the class index and the edge maps are
  consistent, cyclic or not, the loop ends, and it yields all stored events exactly when the strict
  relation has no cycle.  This is the cycle check of \<open>Validate\<close>.\<close>

lemma topological_sort_decides_acyclicity:
  assumes "class_ok p" "edges_shape p"
  shows "length (topoSortLocked p) = Len p \<longleftrightarrow> acyclic (class_rel p)"
proof -
  have sub: "set (classOrder p) \<subseteq> {r. stored p r \<and> rep p r = r}" and d: "distinct (classOrder p)"
    by (rule classOrder_ok [OF assms])+
  have mem: "map (causalClassMembersLocked p) (classOrder p) = map (class_list p) (classOrder p)"
    using sub by (auto simp: causalClassMembersLocked_ok [OF assms(1)])
  have "length (topoSortLocked p) = length (concat (map (causalClassMembersLocked p) (classOrder p)))"
    by (simp add: topoSortLocked_def length_concat comp_def)
  also have "\<dots> = length (idOrder p)" by (simp add: idOrder_def mem)
  also have "\<dots> = card (set (idOrder p))"
  proof -
    have "distinct cs \<Longrightarrow> distinct (concat (map (class_list p) cs))" for cs
      by (induction cs) (auto simp: set_class_list)
    from this [OF d] show ?thesis unfolding idOrder_def by (rule distinct_card [symmetric])
  qed
  finally have len: "length (topoSortLocked p) = card (set (idOrder p))" .
  have ids: "set (idOrder p) = {i. stored p i \<and> rep p i \<in> set (classOrder p)}"
    by (auto simp: idOrder_def set_class_list)
  have L: "Len p = card {i. stored p i}" by (simp add: Len_def fcard.rep_eq map_has_def)
  have fin: "finite {i. stored p i}" by (simp add: map_has_def)
  have "card (set (idOrder p)) = card {i. stored p i} \<longleftrightarrow> set (idOrder p) = {i. stored p i}"
    using card_subset_eq [OF fin, of "set (idOrder p)"] ids by auto
  also have "\<dots> \<longleftrightarrow> set (classOrder p) = {r. stored p r \<and> rep p r = r}"
  proof
    assume a: "set (idOrder p) = {i. stored p i}"
    have "r \<in> set (classOrder p)" if "stored p r" "rep p r = r" for r
      using a that ids by (metis (mono_tags, lifting) mem_Collect_eq)
    then show "set (classOrder p) = {r. stored p r \<and> rep p r = r}" using sub by blast
  next
    assume "set (classOrder p) = {r. stored p r \<and> rep p r = r}"
    then show "set (idOrder p) = {i. stored p i}"
      unfolding ids using rep_stored [OF assms(1)] rep_rep [OF assms(1)] by blast
  qed
  also have "\<dots> \<longleftrightarrow> acyclic (class_rel p)"
  proof
    assume "set (classOrder p) = {r. stored p r \<and> rep p r = r}"
    then have "set (classOrder p) = set (causalClassRepresentativesLocked p)"
      by (simp add: representatives_ok [OF assms(1)])
    then have "length (classOrder p) = length (causalClassRepresentativesLocked p)"
      using distinct_card [OF d] distinct_card [of "causalClassRepresentativesLocked p"]
      by (simp add: causalClassRepresentativesLocked_def)
    then show "acyclic (class_rel p)" using classOrder_ok(4) [OF assms] by simp
  qed (rule classOrder_ok(5) [OF assms])
  finally show ?thesis using len L by simp
qed

text \<open>Two occurrences in a cycle, a state no operation produces.\<close>

definition cyclic_events :: poset where
  "cyclic_events = add_edge ordered_events ''b'' ''a''"

lemma topological_sort_decides_acyclicity_witness:
  "length (topoSortLocked cyclic_events) = 0 \<and> Len cyclic_events = 2 \<and> \<not> acyclic (class_rel cyclic_events)"
proof -
  note ok = poset_okD [OF ordered_events_ok(1)]
  have r: "rep cyclic_events = rep ordered_events" "class_list cyclic_events = class_list ordered_events"
    and f: "events cyclic_events = events ordered_events" "causalClass cyclic_events = causalClass ordered_events"
      "classMembers cyclic_events = classMembers ordered_events"
    by (simp_all add: cyclic_events_def)
  have c: "class_ok cyclic_events" using ok(1) unfolding class_ok_def r f .
  have st: "stored ordered_events ''a''" "stored ordered_events ''b''" "rep ordered_events ''a'' = ''a''"
    "rep ordered_events ''b'' = ''b''" by code_simp+
  have e: "edges_of cyclic_events x = (if x = ''b'' then finsert ''a'' (edges_of ordered_events ''b'') else edges_of ordered_events x)"
    "redges_of cyclic_events x = (if x = ''a'' then finsert ''b'' (redges_of ordered_events ''a'') else redges_of ordered_events x)" for x
    by (simp_all add: cyclic_events_def add_edge_def)
  have "fmdom (causalEdges cyclic_events) = fmdom (events cyclic_events)"
    "fmdom (reverseCausal cyclic_events) = fmdom (events cyclic_events)"
    using st(1,2) edges_okD(1,2) [OF ok(2)] unfolding f
    by (auto simp: cyclic_events_def add_edge_def map_has_def finsert_absorb)
  then have s: "edges_shape cyclic_events"
    using edges_okD(3,5) [OF ok(2)] st unfolding edges_shape_def r f by (auto simp: e)
  have "length (topoSortLocked cyclic_events) = 0" "Len cyclic_events = 2" by code_simp+
  with topological_sort_decides_acyclicity [OF c s] show ?thesis by simp
qed

text \<open>C33: \<open>causalDepthsLocked\<close> succeeds on every well-formed poset with fewer than \<open>2^64\<close> events and
  gives each occurrence the number of classes on a longest strict chain ending in its class.\<close>

theorem causalDepths_longest_chain:
  assumes "poset_ok p" "Len p < 2 ^ 64"
  shows "\<exists>depths. causalDepthsLocked p = Inr depths
    \<and> (\<forall>i. stored p i \<longrightarrow> longest_chain p i (unat (map_get 0 depths i)))"
proof -
  note ok = poset_okD [OF assms(1)]
  have small: "fcard (fmdom (events p)) < 2 ^ 64" using assms(2) by (simp add: Len_def)
  let ?depths = "fold (\<lambda>i depths. fmupd i (map_get 0 (classDepths p) (rep p i)) depths) (event_ids p) fmempty"
  have "length (classOrder p) = length (causalClassRepresentativesLocked p)"
    using classOrder_ok(4) [OF ok(1) edges_okD(6) [OF ok(2)]] edges_okD(4) [OF ok(2)] by simp
  then have run: "causalDepthsLocked p = Inr ?depths" by (simp add: causalDepths_unfold)
  have get: "map_get 0 (fold (\<lambda>i m. fmupd i (g i) m) is m) j = (if j \<in> set is then g j else map_get 0 m j)"
    for g :: "event_id \<Rightarrow> u64" and "is" m j by (induction "is" arbitrary: m) auto
  have "longest_chain p i (unat (map_get 0 ?depths i))" if "stored p i" for i
    using classDepth_longest [OF ok(1,2) small rep_stored [OF ok(1) that] rep_rep [OF ok(1) that]] that
    by (simp add: get map_has_def longest_chain_def rep_rep [OF ok(1)])
  with run show ?thesis by blast
qed

theorem causalDepths_longest_chain_witness:
  "\<exists>depths. causalDepthsLocked equated_events = Inr depths \<and> map_get 0 depths ''c'' = 2
     \<and> longest_chain equated_events ''c'' 2"
proof -
  have "Len equated_events = 3" "stored equated_events ''c''" by code_simp+
  then have "Len equated_events < 2 ^ 64" "stored equated_events ''c''" by simp_all
  moreover have "map_sum id (\<lambda>m. unat (map_get 0 m ''c'')) (causalDepthsLocked equated_events) = Inr 2"
    by code_simp
  ultimately obtain depths where "causalDepthsLocked equated_events = Inr depths"
      "unat (map_get 0 depths ''c'') = 2" "longest_chain equated_events ''c'' (unat (map_get 0 depths ''c''))"
    using causalDepths_longest_chain [OF equated_events_ok] by fastforce
  moreover from this(2) have "map_get 0 depths ''c'' = 2" by (simp add: word_unat_eq_iff)
  ultimately show ?thesis by auto
qed

end
