(* ===== verification/Go_Text.thy ===== *)
theory Go_Text
  imports Go_Prelude
begin

text \<open>
  The text conversions of the Go library that the canonical encodings rest on: UTF-8 (\<open>utf8.ValidString\<close>,
  ranging over a string, \<open>string(runes)\<close>), decimal and hexadecimal numbers (\<open>strconv\<close>), hexadecimal
  and unpadded base-64 bytes, and big-endian words.  For each pair the lemmas give the round trip and,
  where the code relies on it, that the decoder accepts nothing else.
\<close>

abbreviation byte :: "char \<Rightarrow> nat" where
  "byte \<equiv> of_char"

abbreviation chr :: "nat \<Rightarrow> char" where
  "chr \<equiv> char_of"

lemma byte_bound [simp]: "byte c < 256"
  by (rule nat_of_char_less_256)

lemma byte_chr: "n < 256 \<Longrightarrow> byte (chr n) = n"
  by (simp add: of_char_of take_bit_eq_mod)

lemma byte_inj: "byte c = byte d \<longleftrightarrow> c = d"
  by simp

section \<open>UTF-8\<close>

definition scalar_value :: "nat \<Rightarrow> bool" where
  "scalar_value r \<longleftrightarrow> r < 0xD800 \<or> 0xDFFF < r \<and> r \<le> 0x10FFFF"

definition encodeRune :: "nat \<Rightarrow> string" where
  \<comment> \<open>the bytes of one rune of \<open>string(runes)\<close>, for a scalar value\<close>
  "encodeRune r =
     (if r < 0x80 then [chr r]
      else if r < 0x800 then [chr (0xC0 + r div 64), chr (0x80 + r mod 64)]
      else if r < 0x10000
      then [chr (0xE0 + r div 4096), chr (0x80 + r div 64 mod 64), chr (0x80 + r mod 64)]
      else [chr (0xF0 + r div 262144), chr (0x80 + r div 4096 mod 64), chr (0x80 + r div 64 mod 64),
            chr (0x80 + r mod 64)])"

definition continues :: "nat \<Rightarrow> nat \<Rightarrow> nat \<Rightarrow> bool" where
  "continues lo hi b \<longleftrightarrow> lo \<le> b \<and> b \<le> hi"

fun decodeRune :: "string \<Rightarrow> (nat \<times> string) option" where
  \<comment> \<open>one step of the table-driven decoder; \<open>None\<close> for a malformed prefix\<close>
  "decodeRune [] = None"
| "decodeRune (c # s) =
     (let b = byte c in
      if b < 0x80 then Some (b, s)
      else if b < 0xC2 \<or> 0xF4 < b then None
      else if b < 0xE0 then
        (case s of c1 # t \<Rightarrow>
           if continues 0x80 0xBF (byte c1) then Some ((b - 0xC0) * 64 + (byte c1 - 0x80), t) else None
         | _ \<Rightarrow> None)
      else if b < 0xF0 then
        (case s of c1 # c2 # t \<Rightarrow>
           if continues (if b = 0xE0 then 0xA0 else 0x80) (if b = 0xED then 0x9F else 0xBF) (byte c1)
              \<and> continues 0x80 0xBF (byte c2)
           then Some ((b - 0xE0) * 4096 + (byte c1 - 0x80) * 64 + (byte c2 - 0x80), t) else None
         | _ \<Rightarrow> None)
      else
        (case s of c1 # c2 # c3 # t \<Rightarrow>
           if continues (if b = 0xF0 then 0x90 else 0x80) (if b = 0xF4 then 0x8F else 0xBF) (byte c1)
              \<and> continues 0x80 0xBF (byte c2) \<and> continues 0x80 0xBF (byte c3)
           then Some ((b - 0xF0) * 262144 + (byte c1 - 0x80) * 4096 + (byte c2 - 0x80) * 64
             + (byte c3 - 0x80), t) else None
         | _ \<Rightarrow> None))"

text \<open>The base-64 digits of a rune, as equations without division.\<close>

lemma digits64:
  fixes r :: nat
  obtains a b c d where "r = a * 262144 + b * 4096 + c * 64 + d" "b < 64" "c < 64" "d < 64"
    "r mod 64 = d" "r div 64 = a * 4096 + b * 64 + c" "r div 64 mod 64 = c" "r div 4096 = a * 64 + b"
    "r div 4096 mod 64 = b" "r div 262144 = a"
proof
  have q: "r div 64 div 64 = r div 4096" "r div 4096 div 64 = r div 262144"
    by (simp_all add: div_mult2_eq [symmetric])
  have "r = r div 64 * 64 + r mod 64" "r div 64 = r div 4096 * 64 + r div 64 mod 64"
    "r div 4096 = r div 262144 * 64 + r div 4096 mod 64"
    using div_mult_mod_eq [of "r div 64" 64] div_mult_mod_eq [of "r div 4096" 64] by (simp_all add: q)
  then show "r = r div 262144 * 262144 + r div 4096 mod 64 * 4096 + r div 64 mod 64 * 64 + r mod 64"
    "r div 64 = r div 262144 * 4096 + r div 4096 mod 64 * 64 + r div 64 mod 64"
    "r div 4096 = r div 262144 * 64 + r div 4096 mod 64" by linarith+
qed simp_all

lemma decode_encodeRune:
  assumes "scalar_value r"
  shows "decodeRune (encodeRune r @ s) = Some (r, s)"
proof -
  obtain a b c d where r: "r = a * 262144 + b * 4096 + c * 64 + d" "b < 64" "c < 64" "d < 64"
    and dm: "r mod 64 = d" "r div 64 = a * 4096 + b * 64 + c" "r div 64 mod 64 = c"
    "r div 4096 = a * 64 + b" "r div 4096 mod 64 = b" "r div 262144 = a"
    by (rule digits64)
  consider "r < 0x80" | "0x80 \<le> r" "r < 0x800" | "0x800 \<le> r" "r < 0x10000" | "0x10000 \<le> r" by linarith
  then show ?thesis
  proof cases
    case 1
    then show ?thesis by (simp add: encodeRune_def byte_chr Let_def)
  next
    case 2
    then have "a = 0" "b = 0" using r by linarith+
    then have "2 \<le> c" "c < 32" using 2 r by linarith+
    with 2 r(1,4) dm(1,2) show ?thesis
      by (simp add: encodeRune_def byte_chr Let_def continues_def)
  next
    case 3
    then have a: "a = 0" using r by linarith
    then have "b < 16" "b = 0 \<Longrightarrow> 32 \<le> c" "b = 13 \<Longrightarrow> c \<le> 31"
      using 3 r assms unfolding scalar_value_def by linarith+
    moreover have "c \<le> 63" "d \<le> 63" using r by linarith+
    ultimately show ?thesis
      using 3 r(1) dm(1,3,4) unfolding a by (simp add: encodeRune_def byte_chr Let_def continues_def)
  next
    case 4
    then have "a \<le> 4" "a = 0 \<Longrightarrow> 16 \<le> b" "a = 4 \<Longrightarrow> b \<le> 15"
      using r assms unfolding scalar_value_def by linarith+
    moreover have "b \<le> 63" "c \<le> 63" "d \<le> 63" using r by linarith+
    ultimately show ?thesis
      using 4 r(1) dm(1,3,5,6) by (simp add: encodeRune_def byte_chr Let_def continues_def)
  qed
qed

lemma byte_eqI: "n = byte c \<Longrightarrow> chr n = c"
  by simp

text \<open>Reading the low six bits off a sum of digits.\<close>

lemma low6:
  fixes x b :: nat
  assumes "0x80 \<le> b" "b \<le> 0xBF"
  shows "(x * 64 + (b - 0x80)) mod 64 = b - 0x80" "(x * 64 + (b - 0x80)) div 64 = x"
proof -
  have "b - 0x80 < 64" using assms by linarith
  then show "(x * 64 + (b - 0x80)) mod 64 = b - 0x80" "(x * 64 + (b - 0x80)) div 64 = x"
    by simp_all
qed

lemma low6':
  fixes x y b :: nat
  assumes "0x80 \<le> b" "b \<le> 0xBF"
  shows "(x * 4096 + y * 64 + (b - 0x80)) mod 64 = b - 0x80"
    "(x * 4096 + y * 64 + (b - 0x80)) div 64 = x * 64 + y"
  using low6 [OF assms, of "x * 64 + y"] by (simp_all only: distrib_right mult.assoc) simp_all

lemma low6'':
  fixes x y z b :: nat
  assumes "0x80 \<le> b" "b \<le> 0xBF"
  shows "(x * 262144 + y * 4096 + z * 64 + (b - 0x80)) mod 64 = b - 0x80"
    "(x * 262144 + y * 4096 + z * 64 + (b - 0x80)) div 64 = x * 4096 + y * 64 + z"
  using low6 [OF assms, of "x * 4096 + y * 64 + z"] by (simp_all only: distrib_right mult.assoc) simp_all

lemma encode_decodeRune:
  assumes "decodeRune s = Some (r, t)"
  shows "scalar_value r \<and> s = encodeRune r @ t"
proof (cases s)
  case Nil
  with assms show ?thesis by simp
next
  case (Cons c u)
  let ?b = "byte c"
  note dec = assms [unfolded Cons decodeRune.simps Let_def]
  consider "?b < 0x80" | "0xC2 \<le> ?b" "?b < 0xE0" | "0xE0 \<le> ?b" "?b < 0xF0" | "0xF0 \<le> ?b" "?b \<le> 0xF4"
    using dec by (fastforce split: if_splits)
  then show ?thesis
  proof cases
    case 1
    with dec Cons show ?thesis by (auto simp: encodeRune_def scalar_value_def)
  next
    case 2
    with dec obtain c1 where c1: "u = c1 # t" "0x80 \<le> byte c1" "byte c1 \<le> 0xBF"
      and r: "r = (?b - 0xC0) * 64 + (byte c1 - 0x80)"
      by (auto simp: continues_def split: list.splits if_splits)
    have "r div 64 = ?b - 0xC0" "r mod 64 = byte c1 - 0x80" unfolding r by (simp_all only: low6 [OF c1(2,3)])
    moreover have "0x80 \<le> r" "r < 0x800" using 2 c1(2,3) unfolding r by linarith+
    ultimately show ?thesis using 2 c1 Cons by (simp add: encodeRune_def scalar_value_def byte_eqI)
  next
    case 3
    with dec obtain c1 c2 where c: "u = c1 # c2 # t" "(if ?b = 0xE0 then 0xA0 else 0x80) \<le> byte c1"
        "byte c1 \<le> (if ?b = 0xED then 0x9F else 0xBF)" "0x80 \<le> byte c2" "byte c2 \<le> 0xBF"
      and r: "r = (?b - 0xE0) * 4096 + (byte c1 - 0x80) * 64 + (byte c2 - 0x80)"
      by (auto simp: continues_def split: list.splits if_splits)
    have b1: "0x80 \<le> byte c1" "byte c1 \<le> 0xBF" using c(2,3) by (auto split: if_splits)
    have "r div 64 = (?b - 0xE0) * 64 + (byte c1 - 0x80)" "r mod 64 = byte c2 - 0x80"
      unfolding r by (simp_all only: low6 [OF c(4,5)] low6' [OF c(4,5)])
    moreover have "((?b - 0xE0) * 64 + (byte c1 - 0x80)) mod 64 = byte c1 - 0x80"
      "((?b - 0xE0) * 64 + (byte c1 - 0x80)) div 64 = ?b - 0xE0" by (rule low6 [OF b1])+
    moreover have "r div 4096 = r div 64 div 64" by (simp add: div_mult2_eq [symmetric])
    moreover have "0x800 \<le> r \<and> r < 0x10000 \<and> scalar_value r"
    proof -
      obtain x y z where e: "?b = 0xE0 + x" "byte c1 = 0x80 + y" "byte c2 = 0x80 + z"
        using 3 b1 c(4) by (metis le_Suc_ex)
      have edge: "x = 0 \<Longrightarrow> 32 \<le> y" "x = 13 \<Longrightarrow> y \<le> 31" using c(2,3) unfolding e by simp_all
      have size: "x < 16" "y < 64" "z < 64" using 3 b1 c(5) unfolding e by linarith+
      have sum: "r = x * 4096 + y * 64 + z" unfolding r e by simp
      consider "x = 0" | "0 < x" "x \<le> 12" | "x = 13" | "14 \<le> x" by linarith
      then show ?thesis
      proof cases
        case 1
        with edge(1) size sum show ?thesis unfolding scalar_value_def by linarith
      next
        case 3
        with edge(2) size sum show ?thesis unfolding scalar_value_def by linarith
      next
        case 4
        then have "57344 \<le> r" "r < 65536" using size sum by linarith+
        then show ?thesis unfolding scalar_value_def by linarith
      qed (use size sum in \<open>unfold scalar_value_def, linarith\<close>)
    qed
    ultimately show ?thesis using 3 c(1,4) b1 Cons by (simp add: encodeRune_def byte_eqI)
  next
    case 4
    with dec obtain c1 c2 c3 where c: "u = c1 # c2 # c3 # t" "(if ?b = 0xF0 then 0x90 else 0x80) \<le> byte c1"
        "byte c1 \<le> (if ?b = 0xF4 then 0x8F else 0xBF)" "0x80 \<le> byte c2" "byte c2 \<le> 0xBF"
        "0x80 \<le> byte c3" "byte c3 \<le> 0xBF"
      and r: "r = (?b - 0xF0) * 262144 + (byte c1 - 0x80) * 4096 + (byte c2 - 0x80) * 64 + (byte c3 - 0x80)"
      by (auto simp: continues_def split: list.splits if_splits)
    have b1: "0x80 \<le> byte c1" "byte c1 \<le> 0xBF" using c(2,3) by (auto split: if_splits)
    let ?q = "(?b - 0xF0) * 4096 + (byte c1 - 0x80) * 64 + (byte c2 - 0x80)"
    have q: "r div 64 = ?q" "r mod 64 = byte c3 - 0x80"
      unfolding r by (simp_all only: low6'' [OF c(6,7)])
    have q': "r div 4096 = (?b - 0xF0) * 64 + (byte c1 - 0x80)" "r div 64 mod 64 = byte c2 - 0x80"
      using low6' [OF c(4,5)] div_mult2_eq [of r 64 64] by (simp_all only: q) simp_all
    have q'': "r div 262144 = ?b - 0xF0" "r div 4096 mod 64 = byte c1 - 0x80"
      using low6 [OF b1] div_mult2_eq [of r 4096 64] by (simp_all only: q') simp_all
    have big: "0x10000 \<le> r \<and> r \<le> 0x10FFFF"
    proof -
      obtain w x y z where e: "?b = 0xF0 + w" "byte c1 = 0x80 + x" "byte c2 = 0x80 + y" "byte c3 = 0x80 + z"
        using 4 b1 c(4,6) by (metis le_Suc_ex)
      have edge: "w = 0 \<Longrightarrow> 16 \<le> x" "w = 4 \<Longrightarrow> x \<le> 15" using c(2,3) unfolding e by simp_all
      have size: "w \<le> 4" "x < 64" "y < 64" "z < 64" using 4 b1 c(5,7) unfolding e by linarith+
      have sum: "r = w * 262144 + x * 4096 + y * 64 + z" unfolding r e by simp
      consider "w = 0" | "0 < w" "w \<le> 3" | "w = 4" using size by linarith
      then show ?thesis
      proof cases
        case 1
        with edge(1) size sum show ?thesis by linarith
      next
        case 3
        with edge(2) size sum show ?thesis by linarith
      qed (use size sum in linarith)
    qed
    have "encodeRune r = [chr (0xF0 + (?b - 0xF0)), chr (0x80 + (byte c1 - 0x80)),
        chr (0x80 + (byte c2 - 0x80)), chr (0x80 + (byte c3 - 0x80))]"
      using big unfolding encodeRune_def q(2) q'(2) q'' by simp
    also have "\<dots> = [c, c1, c2, c3]" using 4 b1 c(4,6) by simp
    finally show ?thesis using big c(1) Cons by (simp add: scalar_value_def)
  qed
qed

text \<open>Whole strings: the scalar values a valid string spells.\<close>

lemma decodeRune_shorter: "decodeRune s = Some (r, t) \<Longrightarrow> length t < length s"
  using encode_decodeRune [of s r t] by (auto simp: encodeRune_def)

function decodeRunes :: "string \<Rightarrow> nat list option" where
  "decodeRunes s =
     (if s = [] then Some []
      else case decodeRune s of None \<Rightarrow> None
        | Some (r, t) \<Rightarrow> map_option ((#) r) (decodeRunes t))"
  by pat_completeness auto
termination
  by (relation "measure length") (auto dest: decodeRune_shorter)

declare decodeRunes.simps [simp del]

definition encodeRunes :: "nat list \<Rightarrow> string" where
  "encodeRunes rs = concat (map encodeRune rs)"

definition ValidString :: "string \<Rightarrow> bool" where
  "ValidString s = (decodeRunes s \<noteq> None)"

lemma encodeRunes_simps [simp]: "encodeRunes [] = []" "encodeRunes (r # rs) = encodeRune r @ encodeRunes rs"
  by (simp_all add: encodeRunes_def)

lemma encodeRune_nonempty [simp]: "encodeRune r \<noteq> []"
  by (simp add: encodeRune_def)

lemma decode_encodeRunes: "(\<forall>r \<in> set rs. scalar_value r) \<Longrightarrow> decodeRunes (encodeRunes rs) = Some rs"
  by (induction rs) (simp_all add: decodeRunes.simps [of "encodeRune _ @ _"] decodeRunes.simps [of "[]"] decode_encodeRune)

lemma encode_decodeRunes: "decodeRunes s = Some rs \<Longrightarrow> (\<forall>r \<in> set rs. scalar_value r) \<and> s = encodeRunes rs"
proof (induction s arbitrary: rs rule: decodeRunes.induct)
  case (1 s)
  show ?case
  proof (cases "s = []")
    case True
    with "1.prems" show ?thesis by (simp add: decodeRunes.simps [of "[]"])
  next
    case False
    with "1.prems" obtain r t us where d: "decodeRune s = Some (r, t)" "decodeRunes t = Some us" "rs = r # us"
      by (auto simp: decodeRunes.simps [of s] split: option.splits)
    from "1.IH" [OF False d(1) refl d(2)] encode_decodeRune [OF d(1)] d(3) show ?thesis by simp
  qed
qed

lemma ValidString_iff: "ValidString s \<longleftrightarrow> (\<exists>rs. (\<forall>r \<in> set rs. scalar_value r) \<and> s = encodeRunes rs)"
  using encode_decodeRunes decode_encodeRunes unfolding ValidString_def by fastforce

section \<open>Decimal numbers\<close>

definition digit :: "nat \<Rightarrow> char" where
  "digit n = chr (48 + n)"

function decimal :: "nat \<Rightarrow> string" where
  "decimal n = (if n < 10 then [digit n] else decimal (n div 10) @ [digit (n mod 10)])"
  by pat_completeness auto
termination
  by (relation "measure id") auto

declare decimal.simps [simp del]

definition is_digit :: "char \<Rightarrow> bool" where
  "is_digit c \<longleftrightarrow> 48 \<le> byte c \<and> byte c \<le> 57"

definition parseDecimal :: "string \<Rightarrow> nat option" where
  "parseDecimal s =
     (if s = [] \<or> \<not> list_all is_digit s then None
      else Some (foldl (\<lambda>n c. n * 10 + (byte c - 48)) 0 s))"

definition FormatUint :: "u64 \<Rightarrow> string" where
  "FormatUint x = decimal (unat x)"

definition ParseUint :: "string \<Rightarrow> u64 option" where
  \<comment> \<open>\<open>strconv.ParseUint(s, 10, 64)\<close>: digits only, no overflow\<close>
  "ParseUint s = (case parseDecimal s of None \<Rightarrow> None
     | Some n \<Rightarrow> if n < 2 ^ 64 then Some (of_nat n) else None)"

definition FormatInt :: "i64 \<Rightarrow> string" where
  "FormatInt x = (if sint x < 0 then CHR ''-'' # decimal (nat (- sint x)) else decimal (nat (sint x)))"

definition ParseInt :: "string \<Rightarrow> i64 option" where
  \<comment> \<open>\<open>strconv.ParseInt(s, 10, 64)\<close>: an optional sign, digits, no overflow\<close>
  "ParseInt s =
     (let negative = (s \<noteq> [] \<and> hd s = CHR ''-'');
          digits = (if s \<noteq> [] \<and> (hd s = CHR ''-'' \<or> hd s = CHR ''+'') then tl s else s)
      in case parseDecimal digits of None \<Rightarrow> None
         | Some n \<Rightarrow> if negative then (if n \<le> 2 ^ 63 then Some (of_int (- int n)) else None)
                     else (if n < 2 ^ 63 then Some (of_nat n) else None))"

lemma byte_digit: "n < 10 \<Longrightarrow> byte (digit n) = 48 + n"
  by (simp add: digit_def byte_chr)

lemma decimal_digits: "decimal n \<noteq> [] \<and> list_all is_digit (decimal n)
    \<and> foldl (\<lambda>n c. n * 10 + (byte c - 48)) 0 (decimal n) = n"
proof (induction n rule: decimal.induct)
  case (1 n)
  show ?case
  proof (cases "n < 10")
    case True
    then show ?thesis by (simp add: decimal.simps [of n] byte_digit is_digit_def)
  next
    case False
    then show ?thesis using 1 by (simp add: decimal.simps [of n] byte_digit is_digit_def)
  qed
qed

lemma parse_decimal [simp]: "parseDecimal (decimal n) = Some n"
  using decimal_digits [of n] by (simp add: parseDecimal_def)

lemma u64_bound: "unat (x::u64) < 2 ^ 64"
  by (rule order.strict_trans2 [OF unsigned_less]) simp

lemma Parse_FormatUint [simp]: "ParseUint (FormatUint x) = Some x"
proof -
  have "unat x < 2 ^ 64" using u64_bound [of x] by simp
  then show ?thesis by (simp add: ParseUint_def FormatUint_def)
qed

lemma decimal_hd: "\<exists>c cs. decimal n = c # cs \<and> is_digit c"
  using decimal_digits [of n] by (cases "decimal n") auto

lemma decimal_not_sign: "hd (decimal n) \<noteq> CHR ''-'' \<and> hd (decimal n) \<noteq> CHR ''+''"
  using decimal_hd [of n] by (auto simp: is_digit_def)

lemma Parse_FormatInt [simp]: "ParseInt (FormatInt x) = Some x"
proof -
  have b: "- (2 ^ 63) \<le> sint x" "sint x < 2 ^ 63"
    using sint_greater_eq [of x] sint_less [of x] by simp_all
  show ?thesis
  proof (cases "sint x < 0")
    case True
    then have "ParseInt (FormatInt x) = Some (word_of_int (- int (nat (- sint x))))"
      using b by (simp add: ParseInt_def FormatInt_def Let_def nat_le_iff)
    then show ?thesis using True by simp
  next
    case False
    then have "nat (sint x) < 2 ^ 63" using b by (simp add: nat_less_iff)
    then have "ParseInt (FormatInt x) = Some (of_nat (nat (sint x)))"
      using False decimal_not_sign [of "nat (sint x)"] by (simp add: ParseInt_def FormatInt_def Let_def)
    then show ?thesis using False by simp
  qed
qed

lemma FormatUint_inj: "FormatUint x = FormatUint y \<longleftrightarrow> x = y"
  by (metis Parse_FormatUint option.inject)

section \<open>Hexadecimal bytes\<close>

definition hexDigit :: "nat \<Rightarrow> char" where
  "hexDigit n = (if n < 10 then chr (48 + n) else chr (87 + n))"

definition hexValue :: "char \<Rightarrow> nat option" where
  "hexValue c =
     (let b = byte c in
      if 48 \<le> b \<and> b \<le> 57 then Some (b - 48)
      else if 97 \<le> b \<and> b \<le> 102 then Some (b - 87)
      else if 65 \<le> b \<and> b \<le> 70 then Some (b - 55) else None)"

definition hexEncode :: "string \<Rightarrow> string" where
  "hexEncode bs = concat (map (\<lambda>c. [hexDigit (byte c div 16), hexDigit (byte c mod 16)]) bs)"

fun hexDecode :: "string \<Rightarrow> string option" where
  \<comment> \<open>\<open>hex.DecodeString\<close>: both letter cases, an even number of digits\<close>
  "hexDecode [] = Some []"
| "hexDecode [c] = None"
| "hexDecode (c # d # s) =
     (case (hexValue c, hexValue d) of
        (Some h, Some l) \<Rightarrow> map_option ((#) (chr (h * 16 + l))) (hexDecode s)
      | _ \<Rightarrow> None)"

lemma hexValue_digit: "n < 16 \<Longrightarrow> hexValue (hexDigit n) = Some n"
  by (auto simp: hexValue_def hexDigit_def byte_chr Let_def)

lemma hexEncode_simps [simp]: "hexEncode [] = []"
  "hexEncode (c # bs) = hexDigit (byte c div 16) # hexDigit (byte c mod 16) # hexEncode bs"
  by (simp_all add: hexEncode_def)

lemma hexEncode_length [simp]: "length (hexEncode bs) = 2 * length bs"
  by (induction bs) auto

lemma hexDecode_encode [simp]: "hexDecode (hexEncode bs) = Some bs"
proof (induction bs)
  case (Cons c bs)
  have "byte c div 16 < 16" using byte_bound [of c] by linarith
  moreover have "byte c div 16 * 16 + byte c mod 16 = byte c" by simp
  ultimately show ?case using Cons by (simp add: hexValue_digit)
qed simp

lemma hexEncode_inj: "hexEncode a = hexEncode b \<longleftrightarrow> a = b"
  by (metis hexDecode_encode option.inject)

text \<open>\<open>fmt.Sprintf("%016x", bits)\<close> and \<open>strconv.ParseUint(text, 16, 64)\<close> on sixteen digits.\<close>

fun hexPad :: "nat \<Rightarrow> nat \<Rightarrow> string" where
  "hexPad 0 n = []"
| "hexPad (Suc k) n = hexPad k (n div 16) @ [hexDigit (n mod 16)]"

definition FormatHex16 :: "u64 \<Rightarrow> string" where
  "FormatHex16 x = hexPad 16 (unat x)"

fun hexNumber :: "nat \<Rightarrow> string \<Rightarrow> nat option" where
  "hexNumber n [] = Some n"
| "hexNumber n (c # s) = (case hexValue c of None \<Rightarrow> None | Some h \<Rightarrow> hexNumber (n * 16 + h) s)"

definition ParseHex :: "string \<Rightarrow> u64 option" where
  \<comment> \<open>\<open>strconv.ParseUint(s, 16, 64)\<close>\<close>
  "ParseHex s = (if s = [] then None else case hexNumber 0 s of None \<Rightarrow> None
     | Some n \<Rightarrow> if n < 2 ^ 64 then Some (of_nat n) else None)"

lemma hexPad_length [simp]: "length (hexPad k n) = k"
  by (induction k arbitrary: n) auto

lemma hexNumber_append: "hexNumber n (s @ t) = (case hexNumber n s of None \<Rightarrow> None | Some m \<Rightarrow> hexNumber m t)"
  by (induction s arbitrary: n) (auto split: option.splits)

lemma hexNumber_pad: "hexNumber m (hexPad k n) = Some (m * 16 ^ k + n mod 16 ^ k)"
proof (induction k arbitrary: m n)
  case (Suc k)
  have "n mod 16 ^ Suc k = n div 16 mod 16 ^ k * 16 + n mod 16"
    by (metis mod_mult2_eq mult.commute power_Suc)
  then show ?case by (simp add: Suc hexNumber_append hexValue_digit algebra_simps)
qed simp

lemma Parse_FormatHex16 [simp]: "ParseHex (FormatHex16 x) = Some x" "length (FormatHex16 x) = 16"
proof -
  have b: "unat x < 2 ^ 64" using u64_bound [of x] by simp
  then have "unat x mod 16 ^ 16 = unat x" by simp
  moreover have "hexPad 16 (unat x) \<noteq> []" using hexPad_length [of 16 "unat x"] by (metis list.size(3) zero_neq_numeral)
  ultimately show "ParseHex (FormatHex16 x) = Some x"
    using b by (simp add: ParseHex_def FormatHex16_def hexNumber_pad)
qed (simp add: FormatHex16_def)

section \<open>Big-endian words\<close>

fun bigEndian :: "nat \<Rightarrow> nat \<Rightarrow> string" where
  "bigEndian 0 n = []"
| "bigEndian (Suc k) n = bigEndian k (n div 256) @ [chr (n mod 256)]"

definition PutUint64 :: "u64 \<Rightarrow> string" where
  \<comment> \<open>\<open>binary.BigEndian.PutUint64\<close> into a fresh array of eight bytes\<close>
  "PutUint64 x = bigEndian 8 (unat x)"

lemma bigEndian_length [simp]: "length (bigEndian k n) = k"
  by (induction k arbitrary: n) auto

lemma bigEndian_inj: "m < 256 ^ k \<Longrightarrow> n < 256 ^ k \<Longrightarrow> bigEndian k m = bigEndian k n \<Longrightarrow> m = n"
proof (induction k arbitrary: m n)
  case (Suc k)
  then have "bigEndian k (m div 256) = bigEndian k (n div 256)" "chr (m mod 256) = chr (n mod 256)" by simp_all
  then have "m div 256 = n div 256" "m mod 256 = n mod 256"
    using Suc.IH [of "m div 256" "n div 256"] Suc.prems(1,2) by (simp_all add: less_mult_imp_div_less mult.commute)
  then show ?case by (metis div_mult_mod_eq)
qed simp

lemma PutUint64_length [simp]: "length (PutUint64 x) = 8"
  by (simp add: PutUint64_def)

lemma PutUint64_inj: "PutUint64 x = PutUint64 y \<longleftrightarrow> x = y"
proof -
  have "unat x < 256 ^ 8" "unat y < 256 ^ 8" using u64_bound [of x] u64_bound [of y] by simp_all
  then show ?thesis using bigEndian_inj [of "unat x" 8 "unat y"]
    by (auto simp: PutUint64_def word_unat_eq_iff)
qed

lemma PutUint64_prefix: "PutUint64 x @ s = PutUint64 y @ t \<longleftrightarrow> x = y \<and> s = t"
  by (simp add: append_eq_append_conv PutUint64_inj)

section \<open>Base 64\<close>

text \<open>\<open>base64.RawStdEncoding\<close>: groups of three bytes as four letters, no padding.  The decoder skips
  line breaks and ignores the unused low bits of a short last group.\<close>

definition letter64 :: "nat \<Rightarrow> char" where
  "letter64 n =
     (if n < 26 then chr (65 + n) else if n < 52 then chr (71 + n) else if n < 62 then chr (n - 4)
      else if n = 62 then CHR ''+'' else CHR ''/'')"

definition value64 :: "char \<Rightarrow> nat option" where
  "value64 c =
     (let b = byte c in
      if 65 \<le> b \<and> b \<le> 90 then Some (b - 65)
      else if 97 \<le> b \<and> b \<le> 122 then Some (b - 71)
      else if 48 \<le> b \<and> b \<le> 57 then Some (b + 4)
      else if c = CHR ''+'' then Some 62 else if c = CHR ''/'' then Some 63 else None)"

fun base64Encode :: "string \<Rightarrow> string" where
  "base64Encode [] = []"
| "base64Encode [a] = [letter64 (byte a div 4), letter64 (byte a mod 4 * 16)]"
| "base64Encode [a, b] =
     [letter64 (byte a div 4), letter64 (byte a mod 4 * 16 + byte b div 16), letter64 (byte b mod 16 * 4)]"
| "base64Encode (a # b # c # s) =
     letter64 (byte a div 4) # letter64 (byte a mod 4 * 16 + byte b div 16)
       # letter64 (byte b mod 16 * 4 + byte c div 64) # letter64 (byte c mod 64) # base64Encode s"

fun base64Groups :: "nat list \<Rightarrow> string option" where
  "base64Groups [] = Some []"
| "base64Groups [w] = None"
| "base64Groups [w, x] = Some [chr (w * 4 + x div 16)]"
| "base64Groups [w, x, y] = Some [chr (w * 4 + x div 16), chr (x mod 16 * 16 + y div 4)]"
| "base64Groups (w # x # y # z # s) =
     map_option (\<lambda>t. chr (w * 4 + x div 16) # chr (x mod 16 * 16 + y div 4) # chr (y mod 4 * 64 + z) # t)
       (base64Groups s)"

definition base64Decode :: "string \<Rightarrow> string option" where
  "base64Decode s =
     (let letters = filter (\<lambda>c. c \<noteq> chr 10 \<and> c \<noteq> chr 13) s
      in if list_all (\<lambda>c. value64 c \<noteq> None) letters
         then base64Groups (map (the \<circ> value64) letters) else None)"

lemma byte_letter64: "n < 64 \<Longrightarrow> byte (letter64 n) =
    (if n < 26 then 65 + n else if n < 52 then 71 + n else if n < 62 then n - 4 else if n = 62 then 43 else 47)"
  by (simp add: letter64_def byte_chr)

lemma value_letter64:
  assumes "n < 64"
  shows "value64 (letter64 n) = Some n"
proof -
  consider "n < 26" | "26 \<le> n" "n < 52" | "52 \<le> n" "n < 62" | "n = 62" | "n = 63" using assms by linarith
  then show ?thesis
  proof cases
    case 3
    then have "n - 4 < 256" "48 \<le> n - 4" "n - 4 \<le> 57" by linarith+
    with 3 show ?thesis by (simp add: letter64_def value64_def Let_def byte_chr)
  qed (simp_all add: letter64_def value64_def Let_def byte_chr)
qed

lemma letter64_not_break: "n < 64 \<Longrightarrow> letter64 n \<noteq> chr 10 \<and> letter64 n \<noteq> chr 13"
  using byte_letter64 [of n] by (auto simp: byte_chr split: if_splits)

lemma base64Encode_letters: "\<exists>ns. base64Encode s = map letter64 ns \<and> (\<forall>n \<in> set ns. n < 64) \<and> base64Groups ns = Some s"
proof (induction s rule: base64Encode.induct)
  case 1
  show ?case by (intro exI [of _ "[]"]) simp
next
  case (2 a)
  have "byte a < 256" by simp
  then have "byte a div 4 < 64" "byte a mod 4 < 4" by linarith+
  moreover have "byte a div 4 * 4 + byte a mod 4 = byte a" by simp
  ultimately show ?case
    by (intro exI [of _ "[byte a div 4, byte a mod 4 * 16]"]) auto
next
  case (3 a b)
  have "byte a < 256" "byte b < 256" by simp_all
  moreover have "byte a div 4 < 64" "byte a mod 4 < 4" "byte b mod 16 < 16" "byte b div 16 < 16" using calculation by linarith+
  moreover have "byte a div 4 * 4 + byte a mod 4 = byte a" "byte b div 16 * 16 + byte b mod 16 = byte b" by simp_all
  ultimately show ?case
    by (intro exI [of _ "[byte a div 4, byte a mod 4 * 16 + byte b div 16, byte b mod 16 * 4]"]) auto
next
  case (4 a b c s)
  then obtain ns where ns: "base64Encode s = map letter64 ns" "\<forall>n \<in> set ns. n < 64" "base64Groups ns = Some s" by blast
  have "byte a < 256" "byte b < 256" "byte c < 256" by simp_all
  moreover have "byte a div 4 < 64" "byte a mod 4 < 4" "byte b mod 16 < 16" "byte b div 16 < 16" "byte c div 64 < 4" "byte c mod 64 < 64"
    using calculation by linarith+
  moreover have "byte a div 4 * 4 + byte a mod 4 = byte a" "byte b div 16 * 16 + byte b mod 16 = byte b"
    "byte c div 64 * 64 + byte c mod 64 = byte c" by simp_all
  ultimately show ?case using ns
    by (intro exI [of _ "byte a div 4 # (byte a mod 4 * 16 + byte b div 16) # (byte b mod 16 * 4 + byte c div 64)
        # byte c mod 64 # ns"]) auto
qed

lemma base64Decode_encode [simp]: "base64Decode (base64Encode s) = Some s"
proof -
  obtain ns where ns: "base64Encode s = map letter64 ns" "\<forall>n \<in> set ns. n < 64" "base64Groups ns = Some s"
    using base64Encode_letters by blast
  have "filter (\<lambda>c. c \<noteq> chr 10 \<and> c \<noteq> chr 13) (map letter64 ns) = map letter64 ns"
    using ns(2) letter64_not_break by (intro filter_True) auto
  moreover have "map (the \<circ> value64) (map letter64 ns) = ns"
    using ns(2) by (induction ns) (auto simp: value_letter64)
  ultimately show ?thesis
    using ns by (auto simp: base64Decode_def list_all_iff value_letter64)
qed

end
