(* ===== verification/Float_Semantics.thy ===== *)
theory Float_Semantics
  imports Go_Text Complex_Main
begin

text \<open>
  Binary64 values as bit patterns, and \<open>float_semantics.go\<close>: arithmetic, comparison, floor, absolute
  value and integer conversion through exact rationals, rounded once.

  A finite magnitude (a pattern without its sign bit) is an integral multiple of \<open>2^-1074\<close>; the
  lemmas count in these units.  A \<open>big.Rat\<close> is a numerator and a positive denominator, not reduced;
  nothing here depends on the reduction.  \<open>big.Rat.Float64\<close> is rounding to nearest, ties to even.
\<close>

type_synonym f64 = "64 word"

section \<open>Bit patterns\<close>

definition f64_negative :: "f64 \<Rightarrow> bool" where
  "f64_negative b \<longleftrightarrow> 2 ^ 63 \<le> unat b"

definition f64_magnitude :: "f64 \<Rightarrow> nat" where
  "f64_magnitude b = unat b mod 2 ^ 63"

abbreviation inf_magnitude :: nat where
  "inf_magnitude \<equiv> 2047 * 2 ^ 52"

definition IsNaN :: "f64 \<Rightarrow> bool" where
  "IsNaN b \<longleftrightarrow> f64_magnitude b > inf_magnitude"

definition IsInf :: "f64 \<Rightarrow> bool" where
  "IsInf b \<longleftrightarrow> f64_magnitude b = inf_magnitude"

definition f64_finite :: "f64 \<Rightarrow> bool" where
  "f64_finite b \<longleftrightarrow> f64_magnitude b < inf_magnitude"

definition mag_significand :: "nat \<Rightarrow> nat" where
  "mag_significand g = (if g < 2 ^ 52 then g else 2 ^ 52 + g mod 2 ^ 52)"

definition mag_shift :: "nat \<Rightarrow> nat" where
  "mag_shift g = g div 2 ^ 52 - 1"

definition mag_units :: "nat \<Rightarrow> nat" where
  \<comment> \<open>the value of a finite magnitude, in units of \<open>2^-1074\<close>\<close>
  "mag_units g = mag_significand g * 2 ^ mag_shift g"

definition unit_scale :: real where
  "unit_scale = 2 ^ 1074"

definition f64_value :: "f64 \<Rightarrow> real" where
  "f64_value b = (if f64_negative b then - real (mag_units (f64_magnitude b))
     else real (mag_units (f64_magnitude b))) / unit_scale"

definition canonicalFloat64 :: "f64 \<Rightarrow> go_error + f64" where
  "canonicalFloat64 value =
     (if IsNaN value \<or> IsInf value then Inl ErrNonCanonicalValue
      else if f64_magnitude value = 0 then Inr 0
      else Inr value)"

section \<open>Exact rationals\<close>

type_synonym big_rat = "int \<times> int"

definition SetFloat64 :: "f64 \<Rightarrow> big_rat" where
  "SetFloat64 b =
     (let g = f64_magnitude b; n = mag_significand g * 2 ^ (mag_shift g - 1074)
      in (if f64_negative b then - int n else int n, 2 ^ (1074 - mag_shift g)))"

fun bitLen :: "nat \<Rightarrow> nat" where
  "bitLen n = (if n = 0 then 0 else Suc (bitLen (n div 2)))"

declare bitLen.simps [simp del]

definition roundExponent :: "nat \<Rightarrow> nat \<Rightarrow> int" where
  \<comment> \<open>the unit \<open>2^e\<close> of a 53-bit significand for \<open>n / d\<close>, at least the least subnormal\<close>
  "roundExponent n d =
     (let e = int (bitLen n) - int (bitLen d) - 53;
          fits = n * 2 ^ nat (- (e + 53)) < d * 2 ^ nat (e + 53)
      in max (if fits then e else e + 1) (- 1074))"

definition roundMagnitude :: "nat \<Rightarrow> nat \<Rightarrow> nat" where
  \<comment> \<open>the magnitude nearest to \<open>n / d\<close>, ties to even\<close>
  "roundMagnitude n d =
     (if n = 0 then 0 else
      let e = roundExponent n d;
          N = n * 2 ^ nat (- e); D = d * 2 ^ nat e;
          q = N div D; r = N mod D
      in nat (e + 1074) * 2 ^ 52 + (if D < 2 * r \<or> D = 2 * r \<and> odd q then q + 1 else q))"

definition ratFloat64 :: "big_rat \<Rightarrow> f64" where
  "ratFloat64 x =
     (let g = min (roundMagnitude (nat \<bar>fst x\<bar>) (nat (snd x))) inf_magnitude
      in of_nat (if fst x < 0 then 2 ^ 63 + g else g))"

definition ratCmp :: "big_rat \<Rightarrow> big_rat \<Rightarrow> int" where
  "ratCmp x y = sgn (fst x * snd y - fst y * snd x)"

fun ratOp :: "string \<Rightarrow> big_rat \<Rightarrow> big_rat \<Rightarrow> go_error + big_rat" where
  \<comment> \<open>the operator switch of \<open>RapideFloat64Arithmetic\<close>\<close>
  "ratOp operator (a, b) (c, d) =
     (if operator = ''+'' then Inr (a * d + c * b, b * d)
      else if operator = ''-'' then Inr (a * d - c * b, b * d)
      else if operator = ''*'' then Inr (a * c, b * d)
      else if operator = ''/'' then
        (if c = 0 then Inl (ErrOther ''division by zero'')
         else Inr (if c < 0 then (- (a * d), b * (- c)) else (a * d, b * c)))
      else Inl (ErrOther ''unsupported Float arithmetic operator''))"

section \<open>Operations\<close>

definition RapideFloat64Arithmetic :: "string \<Rightarrow> f64 \<Rightarrow> f64 \<Rightarrow> go_error + f64" where
  "RapideFloat64Arithmetic operator left right =
     (case canonicalFloat64 left of Inl err \<Rightarrow> Inl err
      | Inr canonicalLeft \<Rightarrow>
     (case canonicalFloat64 right of Inl err \<Rightarrow> Inl err
      | Inr canonicalRight \<Rightarrow>
     (case ratOp operator (SetFloat64 canonicalLeft) (SetFloat64 canonicalRight) of Inl err \<Rightarrow> Inl err
      | Inr result \<Rightarrow> canonicalFloat64 (ratFloat64 result))))"

definition RapideFloat64Compare :: "string \<Rightarrow> f64 \<Rightarrow> f64 \<Rightarrow> go_error + bool" where
  "RapideFloat64Compare operator left right =
     (case canonicalFloat64 left of Inl err \<Rightarrow> Inl err
      | Inr canonicalLeft \<Rightarrow>
     (case canonicalFloat64 right of Inl err \<Rightarrow> Inl err
      | Inr canonicalRight \<Rightarrow>
        let comparison = ratCmp (SetFloat64 canonicalLeft) (SetFloat64 canonicalRight) in
        if operator = ''='' then Inr (comparison = 0)
        else if operator = ''/='' then Inr (comparison \<noteq> 0)
        else if operator = ''<'' then Inr (comparison < 0)
        else if operator = ''<='' then Inr (comparison \<le> 0)
        else if operator = ''>'' then Inr (comparison > 0)
        else if operator = ''>='' then Inr (comparison \<ge> 0)
        else Inl (ErrOther ''unsupported Float comparison operator'')))"

definition RapideFloat64Floor :: "f64 \<Rightarrow> go_error + i64" where
  "RapideFloat64Floor value =
     (case canonicalFloat64 value of Inl err \<Rightarrow> Inl err
      | Inr canonical \<Rightarrow>
        let (num, denom) = SetFloat64 canonical; result = num div denom
        in if - (2 ^ 63) \<le> result \<and> result < 2 ^ 63 then Inr (word_of_int result)
           else Inl (ErrOther ''outside the signed 64-bit Integer range''))"

definition RapideFloat64Abs :: "f64 \<Rightarrow> go_error + f64" where
  \<comment> \<open>clearing bit 63 of the pattern\<close>
  "RapideFloat64Abs value =
     (case canonicalFloat64 value of Inl err \<Rightarrow> Inl err
      | Inr canonical \<Rightarrow> Inr (of_nat (unat canonical mod 2 ^ 63)))"

definition RapideIntegerToFloat :: "i64 \<Rightarrow> go_error + f64" where
  "RapideIntegerToFloat value = canonicalFloat64 (ratFloat64 (sint value, 1))"

section \<open>Rounding\<close>

lemma bitLen_bounds: "0 < n \<Longrightarrow> n < 2 ^ bitLen n \<and> 2 ^ bitLen n \<le> 2 * n"
proof (induction n rule: bitLen.induct)
  case (1 n)
  show ?case
  proof (cases "n = 1")
    case True
    then show ?thesis by (simp add: bitLen.simps)
  next
    case False
    then have "0 < n div 2" using "1.prems" by simp
    with 1 have "n div 2 < 2 ^ bitLen (n div 2)" "2 ^ bitLen (n div 2) \<le> 2 * (n div 2)" by simp_all
    moreover have "n = 2 * (n div 2) + n mod 2" "n mod 2 < 2" by simp_all
    ultimately have "n < 2 * 2 ^ bitLen (n div 2)" "2 * 2 ^ bitLen (n div 2) \<le> 2 * n" by linarith+
    then show ?thesis using "1.prems" by (simp add: bitLen.simps [of n])
  qed
qed

lemma bitLen_real:
  assumes "0 < n"
  shows "real n < 2 powi int (bitLen n)" "2 powi (int (bitLen n) - 1) \<le> real n"
proof -
  have "real n < real (2 ^ bitLen n)" "real (2 ^ bitLen n) \<le> real (2 * n)"
    using bitLen_bounds [OF assms] by (simp_all only: of_nat_less_iff of_nat_le_iff)
  then show "real n < 2 powi int (bitLen n)" "2 powi (int (bitLen n) - 1) \<le> real n"
    by (simp_all add: power_int_diff)
qed

lemma scale_powi: "real (n * 2 ^ nat (- e)) / real (d * 2 ^ nat e) = real n / real d / 2 powi e"
  by (cases "0 \<le> e") (simp_all add: power_int_def field_simps)

lemma roundExponent_spec:
  assumes "0 < n" "0 < d"
  defines "e \<equiv> roundExponent n d" and "x \<equiv> real n / real d"
  shows "- 1074 \<le> e" "x < 2 powi (53 + e)" "e > - 1074 \<Longrightarrow> 2 powi (52 + e) \<le> x"
proof -
  define e0 where "e0 = int (bitLen n) - int (bitLen d) - 53"
  define fits where "fits \<longleftrightarrow> n * 2 ^ nat (- (e0 + 53)) < d * 2 ^ nat (e0 + 53)"
  have e: "e = max (if fits then e0 else e0 + 1) (- 1074)"
    by (simp add: e_def roundExponent_def e0_def fits_def)
  have "fits \<longleftrightarrow> real (n * 2 ^ nat (- (e0 + 53))) < real (d * 2 ^ nat (e0 + 53))"
    by (simp only: fits_def of_nat_less_iff)
  also have "\<dots> \<longleftrightarrow> real (n * 2 ^ nat (- (e0 + 53))) / real (d * 2 ^ nat (e0 + 53)) < 1"
    using assms(2) by (subst divide_less_eq_1_pos) simp_all
  also have "\<dots> \<longleftrightarrow> x < 2 powi (e0 + 53)"
    unfolding scale_powi x_def by (simp add: divide_less_eq mult.commute)
  finally have f: "fits \<longleftrightarrow> x < 2 powi (e0 + 53)" .
  note n = bitLen_real [OF assms(1)] and d = bitLen_real [OF assms(2)]
  have "x < 2 powi int (bitLen n) / 2 powi (int (bitLen d) - 1)"
    unfolding x_def using n(1) d(2) assms(2) by (intro frac_less) auto
  also have "\<dots> = 2 powi (int (bitLen n) - (int (bitLen d) - 1))" by (rule power_int_diff [symmetric]) simp
  also have "int (bitLen n) - (int (bitLen d) - 1) = e0 + 54" by (simp add: e0_def)
  finally have up: "x < 2 powi (e0 + 54)" .
  have e52: "e0 + 52 = int (bitLen n) - 1 - int (bitLen d)" by (simp add: e0_def)
  have "2 powi (int (bitLen n) - 1 - int (bitLen d)) = 2 powi (int (bitLen n) - 1) / (2 powi int (bitLen d) :: real)"
    by (rule power_int_diff) simp
  then have "2 powi (e0 + 52) = 2 powi (int (bitLen n) - 1) / (2 powi int (bitLen d) :: real)"
    unfolding e52 .
  also have "\<dots> \<le> x" unfolding x_def using n(2) d(1) assms(2) by (intro frac_le) auto
  finally have low: "2 powi (e0 + 52) \<le> x" .
  have mono: "a \<le> b \<Longrightarrow> (2::real) powi a \<le> 2 powi b" for a b by (simp add: power_int_increasing)
  show "- 1074 \<le> e" by (simp add: e)
  show "x < 2 powi (53 + e)"
  proof (cases fits)
    case True
    then have "x < 2 powi (e0 + 53)" using f by simp
    then show ?thesis by (rule less_le_trans) (rule mono, simp add: e True)
  next
    case False
    show ?thesis by (rule less_le_trans [OF up]) (rule mono, simp add: e False)
  qed
  show "2 powi (52 + e) \<le> x" if "e > - 1074"
  proof (cases fits)
    case True
    then have "52 + e = e0 + 52" using that by (simp add: e max_def split: if_splits)
    then show ?thesis using low by (simp only:)
  next
    case False
    then have "52 + e = e0 + 53" using that by (simp add: e max_def split: if_splits)
    then show ?thesis using False f by (simp only: not_less)
  qed
qed

text \<open>Rounding a quotient of naturals to the nearest integer.\<close>

definition roundHalfEven :: "nat \<Rightarrow> nat \<Rightarrow> nat" where
  "roundHalfEven N D = (let q = N div D; r = N mod D in
     if D < 2 * r \<or> D = 2 * r \<and> odd q then q + 1 else q)"

lemma div_mod_real:
  assumes "0 < D"
  shows "real N / real D = real (N div D) + real (N mod D) / real D"
proof -
  have "real N = real (N div D * D + N mod D)" by simp
  then show ?thesis using assms by (simp only: of_nat_add of_nat_mult add_divide_distrib) simp
qed

lemma roundHalfEven_near:
  assumes "0 < D"
  shows "\<bar>real N / real D - real (roundHalfEven N D)\<bar> \<le> 1 / 2"
proof -
  have "real N / real D = real (N div D) + real (N mod D) / real D"
    by (rule div_mod_real [OF assms])
  moreover have "N mod D < D" using assms by simp
  ultimately show ?thesis
    using assms by (auto simp: roundHalfEven_def Let_def abs_le_iff field_simps)
qed

lemma roundHalfEven_tie:
  assumes "0 < D" "\<bar>real N / real D - real (roundHalfEven N D)\<bar> = 1 / 2"
  shows "even (roundHalfEven N D)"
proof -
  define f where "f = real (N mod D) / real D"
  have f: "0 \<le> f" "f < 1" using assms(1) by (simp_all add: f_def)
  have "real N / real D = real (N div D) + f" unfolding f_def by (rule div_mod_real [OF assms(1)])
  moreover have "roundHalfEven N D = N div D \<or> roundHalfEven N D = N div D + 1"
    by (simp add: roundHalfEven_def Let_def)
  ultimately have "f = 1 / 2" using assms(2) f by (auto simp: abs_if split: if_splits)
  then have "real (2 * (N mod D)) = real D" using assms(1) by (simp add: f_def field_simps)
  then have "2 * (N mod D) = D" by (simp only: of_nat_eq_iff)
  then show ?thesis by (auto simp: roundHalfEven_def Let_def)
qed

lemma nearest_integer:
  fixes y :: real
  assumes "\<bar>y - of_int m\<bar> \<le> 1 / 2"
  shows "\<bar>y - of_int m\<bar> \<le> \<bar>y - of_int j\<bar>"
proof (cases "j = m")
  case False
  then have "1 \<le> \<bar>real_of_int m - of_int j\<bar>" by linarith
  with assms show ?thesis by linarith
qed simp

text \<open>The unit \<open>2^k\<close> and significand \<open>m\<close> of a rounded magnitude, against the exact value in units.\<close>

lemma powi_units:
  assumes "- 1074 \<le> e"
  shows "2 powi e * unit_scale = 2 ^ nat (e + 1074)"
proof -
  have "2 powi e * unit_scale = 2 powi e * 2 powi 1074" by (simp add: unit_scale_def power_int_def)
  also have "\<dots> = 2 powi (e + 1074)" by (rule power_int_add [symmetric]) simp
  also have "\<dots> = 2 ^ nat (e + 1074)" using assms by (simp add: power_int_def)
  finally show ?thesis .
qed

lemma unit_scale_pos [simp]: "0 < unit_scale"
  by (simp add: unit_scale_def)

lemma mag_units_compose:
  assumes "m \<le> 2 ^ 53" "0 < k \<Longrightarrow> 2 ^ 52 \<le> m"
  shows "mag_units (k * 2 ^ 52 + m) = m * 2 ^ k"
proof -
  have split: "m < 2 ^ 52 \<and> k = 0 \<or> (2 ^ 52 \<le> m \<and> m - 2 ^ 52 < 2 ^ 52) \<or> m = 2 ^ 53"
    using assms by (cases "k = 0") auto
  then consider "m < 2 ^ 52" "k = 0" | j where "m = 2 ^ 52 + j" "j < 2 ^ 52" | "m = 2 ^ 53"
    by (metis le_add_diff_inverse)
  then show ?thesis
  proof cases
    case 1
    then show ?thesis by (simp add: mag_units_def mag_significand_def mag_shift_def)
  next
    case 2
    then have "(k * 2 ^ 52 + m) div 2 ^ 52 = k + 1" "(k * 2 ^ 52 + m) mod 2 ^ 52 = j"
      by (simp_all add: div_add1_eq)
    then show ?thesis using 2 by (simp add: mag_units_def mag_significand_def mag_shift_def)
  next
    case 3
    then have "(k * 2 ^ 52 + m) div 2 ^ 52 = k + 2" "(k * 2 ^ 52 + m) mod 2 ^ 52 = 0" by simp_all
    then show ?thesis using 3 by (simp add: mag_units_def mag_significand_def mag_shift_def)
  qed
qed

lemma mag_units_grid:
  "2 ^ k dvd mag_units h \<or> mag_units h < 2 ^ (52 + k)"
proof (cases "k \<le> mag_shift h")
  case True
  then show ?thesis by (simp add: mag_units_def le_imp_power_dvd)
next
  case False
  have "mag_significand h < 2 ^ 53" by (simp add: mag_significand_def)
  then have "mag_units h < 2 ^ 53 * 2 ^ mag_shift h" by (simp add: mag_units_def)
  also have "\<dots> = 2 ^ (53 + mag_shift h)" by (simp add: power_add)
  also have "\<dots> \<le> 2 ^ (52 + k)" using False by (intro power_increasing) simp_all
  finally show ?thesis by simp
qed

lemma unshift:
  fixes X :: real
  shows "X < 2 ^ (a + k) \<Longrightarrow> X / 2 ^ k < 2 ^ a" "2 ^ (a + k) \<le> X \<Longrightarrow> 2 ^ a \<le> X / 2 ^ k"
  by (simp_all add: power_add divide_less_eq le_divide_eq)

lemma roundMagnitude_parts:
  assumes "0 < n" "0 < d"
  obtains k m :: nat where "roundMagnitude n d = k * 2 ^ 52 + m" "m \<le> 2 ^ 53" "0 < k \<Longrightarrow> 2 ^ 52 \<le> m"
    "0 < k \<Longrightarrow> 2 ^ (52 + k) \<le> real n / real d * unit_scale" "real n / real d * unit_scale < 2 ^ (53 + k)"
    "\<bar>real n / real d * unit_scale / 2 ^ k - real m\<bar> \<le> 1 / 2"
    "\<bar>real n / real d * unit_scale / 2 ^ k - real m\<bar> = 1 / 2 \<Longrightarrow> even m"
proof -
  define e where "e = roundExponent n d"
  define N D where "N = n * 2 ^ nat (- e)" and "D = d * 2 ^ nat e"
  define k where "k = nat (e + 1074)"
  define m where "m = roundHalfEven N D"
  let ?x = "real n / real d"
  note spec = roundExponent_spec [OF assms, folded e_def]
  have D: "0 < D" using assms by (simp add: D_def)
  have y: "real N / real D = ?x * unit_scale / 2 ^ k"
    unfolding N_def D_def scale_powi k_def powi_units [OF spec(1), symmetric]
    by (simp add: less_imp_neq [OF unit_scale_pos, symmetric])
  have pw: "2 powi (j + e) * unit_scale = (2::real) ^ (nat j + k)" if "0 \<le> j" for j
    using powi_units [of "j + e"] spec(1) that by (simp add: k_def nat_add_distrib [symmetric] add.commute add.left_commute)
  have up: "?x * unit_scale < 2 ^ (53 + k)"
    using mult_strict_right_mono [OF spec(2) unit_scale_pos] pw [of 53] by simp
  have low: "2 ^ (52 + k) \<le> ?x * unit_scale" if "0 < k"
    using mult_right_mono [OF spec(3) less_imp_le [OF unit_scale_pos]] pw [of 52] that by (simp add: k_def)
  have near: "\<bar>real N / real D - real m\<bar> \<le> 1 / 2" unfolding m_def by (rule roundHalfEven_near [OF D])
  have tie: "\<bar>real N / real D - real m\<bar> = 1 / 2 \<Longrightarrow> even m"
    unfolding m_def by (rule roundHalfEven_tie [OF D])
  have "real N / real D < 2 ^ 53" using up unfolding y by (rule unshift)
  then have "real m < 2 ^ 53 + 1" using near by linarith
  then have "real m < real (2 ^ 53 + 1)" by simp
  then have m53: "m \<le> 2 ^ 53" by (simp only: of_nat_less_iff)
  have m52: "2 ^ 52 \<le> m" if "0 < k"
  proof -
    have "2 ^ 52 \<le> real N / real D" using low [OF that] unfolding y by (rule unshift)
    then have "2 ^ 52 < real m + 1" using near by linarith
    then have "real (2 ^ 52) < real (m + 1)" by simp
    then show ?thesis by (simp only: of_nat_less_iff)
  qed
  have "roundMagnitude n d = k * 2 ^ 52 + m"
    using assms by (simp add: roundMagnitude_def roundHalfEven_def Let_def e_def N_def D_def k_def m_def)
  from that [OF this m53 m52 low up near [unfolded y] tie [unfolded y]] show thesis .
qed

text \<open>No magnitude is nearer to the quotient than the rounded one.\<close>

lemma roundMagnitude_nearest:
  fixes n d h :: nat
  assumes "0 < d"
  defines "X \<equiv> real n / real d * unit_scale"
  shows "\<bar>X - real (mag_units (roundMagnitude n d))\<bar> \<le> \<bar>X - real (mag_units h)\<bar>"
proof (cases "n = 0")
  case True
  then show ?thesis by (simp add: X_def roundMagnitude_def mag_units_def mag_significand_def)
next
  case False
  then obtain k m where g: "roundMagnitude n d = k * 2 ^ 52 + m" "m \<le> 2 ^ 53" "0 < k \<Longrightarrow> 2 ^ 52 \<le> m"
    and low: "0 < k \<Longrightarrow> 2 ^ (52 + k) \<le> X" and near: "\<bar>X / 2 ^ k - real m\<bar> \<le> 1 / 2"
    using roundMagnitude_parts [of n d] assms unfolding X_def by blast
  have grid: "\<bar>X - real (m * 2 ^ k)\<bar> \<le> \<bar>X - of_int j * 2 ^ k\<bar>" for j
  proof -
    have s: "X - y * 2 ^ k = (X / 2 ^ k - y) * 2 ^ k" for y :: real by (simp add: field_simps)
    have "\<bar>X / 2 ^ k - of_int (int m)\<bar> \<le> \<bar>X / 2 ^ k - of_int j\<bar>"
      by (rule nearest_integer) (use near in simp)
    then have "\<bar>X / 2 ^ k - real m\<bar> * 2 ^ k \<le> \<bar>X / 2 ^ k - of_int j\<bar> * 2 ^ k" by simp
    then show ?thesis using s [of "real m"] s [of "of_int j"] by (simp add: abs_mult)
  qed
  have "\<bar>X - real (m * 2 ^ k)\<bar> \<le> \<bar>X - real (mag_units h)\<bar>"
  proof (cases "2 ^ k dvd mag_units h")
    case True
    then obtain j where "mag_units h = 2 ^ k * j" by (elim dvdE)
    then show ?thesis using grid [of "int j"] by (simp add: mult.commute)
  next
    case False
    then have k: "0 < k" by (cases k) auto
    from False mag_units_grid [of k h] have "mag_units h < 2 ^ (52 + k)" by simp
    then have "real (mag_units h) < real (2 ^ (52 + k))" by (simp only: of_nat_less_iff)
    then have "\<bar>X - of_int (2 ^ 52) * 2 ^ k\<bar> \<le> \<bar>X - real (mag_units h)\<bar>"
      using low [OF k] by (simp add: power_add)
    with grid [of "2 ^ 52"] show ?thesis by linarith
  qed
  then show ?thesis using g mag_units_compose [of m k] by simp
qed

text \<open>Rounding overflows exactly from half a unit above the largest finite value.\<close>

definition overflow_threshold :: real where
  "overflow_threshold = 2 ^ 1024 - 2 ^ 970"

lemma overflow_threshold_pos: "0 < overflow_threshold"
proof -
  have "(2::real) ^ 970 < 2 ^ 1024" by (intro power_strict_increasing) simp_all
  then show ?thesis unfolding overflow_threshold_def by (simp only: diff_gt_0_iff_gt)
qed

lemma two_powers:
  "(2::real) ^ 1024 * 2 ^ 1074 = 2 ^ 2045 * 2 ^ 53" "(2::real) ^ 970 * 2 ^ 1074 = 2 ^ 2044"
  "(2::real) ^ 2045 = 2 * 2 ^ 2044"
proof -
  have e: "a + b = c + d \<Longrightarrow> (2::real) ^ a * 2 ^ b = 2 ^ c * 2 ^ d" for a b c d
    unfolding power_add [symmetric] by (rule arg_cong)
  show "(2::real) ^ 1024 * 2 ^ 1074 = 2 ^ 2045 * 2 ^ 53" by (rule e) simp
  show "(2::real) ^ 970 * 2 ^ 1074 = 2 ^ 2044" using e [of 970 1074 2044 0] by (simp only: power_0 mult_1_right)
  show "(2::real) ^ 2045 = 2 * 2 ^ 2044" using e [of 2045 0 1 2044] by (simp only: power_0 mult_1_right power_one_right)
qed

lemma overflow_units: "overflow_threshold \<le> x \<longleftrightarrow> 2 ^ 2045 * (2 ^ 53 - 1 / 2) \<le> x * unit_scale"
proof -
  define B C where "B = (2::real) ^ 2045" and "C = (2::real) ^ 2044"
  note p = two_powers [folded B_def C_def]
  have "B * 2 ^ 53 - C = B * (2 ^ 53 - 1 / 2)" unfolding p(3) by (simp add: algebra_simps)
  then have eq: "overflow_threshold * unit_scale = B * (2 ^ 53 - 1 / 2)"
    unfolding overflow_threshold_def unit_scale_def left_diff_distrib p(1,2) .
  show ?thesis unfolding B_def [symmetric] eq [symmetric]
    by (rule mult_le_cancel_right_pos [OF unit_scale_pos, symmetric])
qed

lemma roundMagnitude_overflow:
  assumes "0 < d"
  shows "inf_magnitude \<le> roundMagnitude n d \<longleftrightarrow> overflow_threshold \<le> real n / real d"
proof (cases "n = 0")
  case True
  have "roundMagnitude n d < inf_magnitude" using True by (simp add: roundMagnitude_def)
  with overflow_threshold_pos True show ?thesis by simp
next
  case False
  define X where "X = real n / real d * unit_scale"
  define B where "B = (2::real) ^ 2045"
  have B: "0 < B" by (simp add: B_def)
  have T: "overflow_threshold \<le> real n / real d \<longleftrightarrow> B * (2 ^ 53 - 1 / 2) \<le> X"
    unfolding X_def B_def by (rule overflow_units)
  from False obtain k m where g: "roundMagnitude n d = k * 2 ^ 52 + m" "m \<le> 2 ^ 53" "0 < k \<Longrightarrow> 2 ^ 52 \<le> m"
    and low: "0 < k \<Longrightarrow> 2 ^ (52 + k) \<le> X" and up: "X < 2 ^ (53 + k)" and near: "\<bar>X / 2 ^ k - real m\<bar> \<le> 1 / 2"
    and tie: "\<bar>X / 2 ^ k - real m\<bar> = 1 / 2 \<Longrightarrow> even m"
    using roundMagnitude_parts [of n d] assms unfolding X_def by blast
  consider "k < 2045" | "k = 2045" | "2045 < k" by linarith
  then show ?thesis
  proof cases
    case 1
    then have "roundMagnitude n d < inf_magnitude" using g by simp
    moreover have "X < B * (2 ^ 53 - 1 / 2)"
    proof -
      have "(2::real) ^ (53 + k) \<le> 2 ^ (2045 + 52)" using 1 by (intro power_increasing) simp_all
      then have "X < B * 2 ^ 52" using up unfolding B_def power_add [of _ 2045] by (rule less_le_trans [rotated])
      also have "\<dots> \<le> B * (2 ^ 53 - 1 / 2)" using B by (intro mult_left_mono) simp_all
      finally show ?thesis .
    qed
    ultimately show ?thesis unfolding T by (simp only: not_less [symmetric] not_True_eq_False simp_thms)
  next
    case 2
    have "inf_magnitude \<le> roundMagnitude n d \<longleftrightarrow> 2 ^ 53 \<le> m" using 2 g by simp
    also have "\<dots> \<longleftrightarrow> 2 ^ 53 - 1 / 2 \<le> X / 2 ^ k"
    proof
      assume "2 ^ 53 \<le> m"
      then have "real m = 2 ^ 53" using g(2) by simp
      then show "2 ^ 53 - 1 / 2 \<le> X / 2 ^ k" using near by linarith
    next
      assume h: "2 ^ 53 - 1 / 2 \<le> X / 2 ^ k"
      show "2 ^ 53 \<le> m"
      proof (rule ccontr)
        assume "\<not> 2 ^ 53 \<le> m"
        then have "m \<le> 2 ^ 53 - 1" by simp
        then have "real m \<le> real (2 ^ 53 - 1)" by (simp only: of_nat_le_iff)
        then have "real m \<le> 2 ^ 53 - 1" by simp
        then have half: "\<bar>X / 2 ^ k - real m\<bar> = 1 / 2" and "real m = 2 ^ 53 - 1" using near h by linarith+
        then have "real m = real (2 ^ 53 - 1)" by simp
        then have "m = 2 ^ 53 - 1" by (simp only: of_nat_eq_iff)
        then have "odd m" by simp
        with tie [OF half] show False by blast
      qed
    qed
    also have "\<dots> \<longleftrightarrow> B * (2 ^ 53 - 1 / 2) \<le> X" 
      unfolding 2 B_def [symmetric] using B by (simp add: pos_le_divide_eq mult.commute)
    finally show ?thesis unfolding T .
  next
    case 3
    then have "inf_magnitude \<le> roundMagnitude n d" using g by simp
    moreover have "B * (2 ^ 53 - 1 / 2) \<le> X"
    proof -
      have "(2::real) ^ (2045 + 53) \<le> 2 ^ (52 + k)" using 3 by (intro power_increasing) simp_all
      then have "B * 2 ^ 53 \<le> X" unfolding B_def power_add [of _ 2045] by (rule order_trans) (use 3 in \<open>simp add: low\<close>)
      moreover have "B * (2 ^ 53 - 1 / 2) \<le> B * 2 ^ 53" using B by (intro mult_left_mono) simp_all
      ultimately show ?thesis by (rule order_trans [rotated])
    qed
    ultimately show ?thesis unfolding T by blast
  qed
qed

section \<open>Values\<close>

lemma f64_bits: "unat (b::f64) < 2 ^ 64"
  by (rule u64_bound)

lemma f64_magnitude_of_nat:
  "g < 2 ^ 63 \<Longrightarrow> f64_magnitude (of_nat g) = g \<and> \<not> f64_negative (of_nat g)"
  "g < 2 ^ 63 \<Longrightarrow> f64_magnitude (of_nat (2 ^ 63 + g)) = g \<and> f64_negative (of_nat (2 ^ 63 + g))"
proof -
  have u: "k < 2 ^ 64 \<Longrightarrow> unat (of_nat k :: f64) = k" for k by (simp add: unsigned_of_nat take_bit_eq_mod)
  show "g < 2 ^ 63 \<Longrightarrow> f64_magnitude (of_nat g) = g \<and> \<not> f64_negative (of_nat g)"
    "g < 2 ^ 63 \<Longrightarrow> f64_magnitude (of_nat (2 ^ 63 + g)) = g \<and> f64_negative (of_nat (2 ^ 63 + g))"
    unfolding f64_magnitude_def f64_negative_def using u [of g] u [of "2 ^ 63 + g"] by (simp_all del: of_nat_add)
qed

lemma f64_finite_iff: "f64_finite b \<longleftrightarrow> \<not> IsNaN b \<and> \<not> IsInf b"
  by (auto simp: f64_finite_def IsNaN_def IsInf_def)

lemma canonicalFloat64_cases:
  "canonicalFloat64 b = (if f64_finite b then Inr (if f64_magnitude b = 0 then 0 else b) else Inl ErrNonCanonicalValue)"
  by (simp add: canonicalFloat64_def f64_finite_iff)

lemma f64_value_zero: "f64_magnitude b = 0 \<Longrightarrow> f64_value b = 0"
  by (simp add: f64_value_def mag_units_def mag_significand_def)

lemma f64_zero [simp]: "f64_magnitude 0 = 0" "f64_value 0 = 0" "f64_finite 0" "\<not> f64_negative 0"
  by (simp_all add: f64_value_zero f64_magnitude_def f64_finite_def f64_negative_def)

lemma canonicalFloat64_Inr:
  "canonicalFloat64 b = Inr c \<Longrightarrow> f64_finite b \<and> f64_finite c \<and> f64_value c = f64_value b"
  by (auto simp: canonicalFloat64_cases f64_value_zero split: if_splits)

lemma canonicalFloat64_idem: "canonicalFloat64 b = Inr c \<Longrightarrow> canonicalFloat64 c = Inr c"
  by (auto simp: canonicalFloat64_cases split: if_splits)

definition rat_value :: "big_rat \<Rightarrow> real" where
  "rat_value x = of_int (fst x) / of_int (snd x)"

lemma SetFloat64_value: "rat_value (SetFloat64 b) = f64_value b" "0 < snd (SetFloat64 b)"
proof -
  let ?g = "f64_magnitude b"
  let ?k = "mag_shift ?g"
  have "(2::real) ^ (?k - 1074) / 2 ^ (1074 - ?k) = 2 ^ ?k / unit_scale"
  proof (cases "?k \<le> 1074")
    case True
    then have u: "unit_scale = 2 ^ ?k * 2 ^ (1074 - ?k)" by (simp add: unit_scale_def flip: power_add)
    have "2 ^ ?k / unit_scale = 1 / 2 ^ (1074 - ?k)" unfolding u by simp
    then show ?thesis using True by simp
  next
    case False
    then have "?k = (?k - 1074) + 1074" by simp
    then have "(2::real) ^ ?k = 2 ^ (?k - 1074) * unit_scale" unfolding unit_scale_def by (metis power_add)
    then show ?thesis using False by (simp add: less_imp_neq [OF unit_scale_pos, symmetric])
  qed
  then have "real (mag_significand ?g) * 2 ^ (?k - 1074) / 2 ^ (1074 - ?k) = real (mag_units ?g) / unit_scale"
    by (simp add: mag_units_def) (metis times_divide_eq_right)
  then show "rat_value (SetFloat64 b) = f64_value b"
    by (simp add: rat_value_def SetFloat64_def Let_def f64_value_def)
  show "0 < snd (SetFloat64 b)" by (simp add: SetFloat64_def Let_def)
qed

definition exact_op :: "string \<Rightarrow> real \<Rightarrow> real \<Rightarrow> real" where
  "exact_op operator x y =
     (if operator = ''+'' then x + y else if operator = ''-'' then x - y
      else if operator = ''*'' then x * y else x / y)"

lemma ratOp_value:
  assumes "ratOp operator x y = Inr z" "0 < snd x" "0 < snd y"
  shows "0 < snd z \<and> rat_value z = exact_op operator (rat_value x) (rat_value y)"
proof -
  obtain a b c d where xy: "x = (a, b)" "y = (c, d)" by (cases x, cases y) auto
  have bd: "0 < b" "0 < d" using assms xy by simp_all
  consider "operator = ''+''" | "operator = ''-''" | "operator = ''*''" | "operator = ''/''" "c \<noteq> 0"
    using assms(1) unfolding xy by (auto split: if_splits)
  then show ?thesis
  proof cases
    case 4
    then show ?thesis using assms(1) bd unfolding xy
      by (auto simp: rat_value_def exact_op_def field_simps zero_less_mult_iff mult_less_0_iff split: if_splits)
  qed (use assms(1) bd xy in \<open>auto simp: rat_value_def exact_op_def field_simps\<close>)
qed

lemma ratFloat64_magnitude:
  fixes n d :: int
  assumes "0 < d"
  defines "g \<equiv> min (roundMagnitude (nat \<bar>n\<bar>) (nat d)) inf_magnitude"
  shows "f64_magnitude (ratFloat64 (n, d)) = g" "f64_negative (ratFloat64 (n, d)) \<longleftrightarrow> n < 0"
proof -
  have "g < 2 ^ 63" by (simp add: g_def min_def)
  then show "f64_magnitude (ratFloat64 (n, d)) = g" "f64_negative (ratFloat64 (n, d)) \<longleftrightarrow> n < 0"
    unfolding ratFloat64_def Let_def fst_conv snd_conv g_def [symmetric]
    using f64_magnitude_of_nat [of g] by (simp_all split: if_splits del: of_nat_add)
qed

lemma signed_near:
  fixes X G v w s :: real
  assumes "\<bar>X - G\<bar> \<le> \<bar>X - v\<bar>" "0 \<le> X" "0 \<le> v" "w = v \<or> w = - v" "s = 1 \<or> s = - 1"
  shows "\<bar>s * X - s * G\<bar> \<le> \<bar>s * X - w\<bar>"
proof -
  have "\<bar>s * X - s * G\<bar> = \<bar>X - G\<bar>" using assms(5) by auto
  moreover have "\<bar>X - v\<bar> \<le> \<bar>s * X - w\<bar>" using assms(2-5) by (elim disjE) simp_all
  ultimately show ?thesis using assms(1) by linarith
qed

lemma abs_rescale:
  fixes u x h :: real
  assumes "0 < u"
  shows "\<bar>x * u - h\<bar> = \<bar>x - h / u\<bar> * u"
proof -
  have "x * u - h = (x - h / u) * u" using assms by (simp add: left_diff_distrib)
  then show ?thesis using assms by (simp add: abs_mult)
qed

text \<open>Rounding a rational: overflow from the threshold on, otherwise a nearest finite value.\<close>

lemma ratFloat64_nearest:
  assumes "0 < snd x"
  shows "f64_finite (ratFloat64 x) \<longleftrightarrow> \<bar>rat_value x\<bar> < overflow_threshold"
    "f64_finite (ratFloat64 x) \<Longrightarrow> \<bar>rat_value x - f64_value (ratFloat64 x)\<bar> \<le> \<bar>rat_value x - f64_value y\<bar>"
proof -
  obtain n d where x: "x = (n, d)" by (cases x)
  let ?g = "roundMagnitude (nat \<bar>n\<bar>) (nat d)"
  let ?X = "real (nat \<bar>n\<bar>) / real (nat d)"
  have d: "0 < d" "0 < nat d" using assms x by simp_all
  have abs: "\<bar>rat_value x\<bar> = ?X" using d by (simp add: x rat_value_def)
  note mag = ratFloat64_magnitude [OF d(1), of n, folded x]
  have fin: "f64_finite (ratFloat64 x) \<longleftrightarrow> ?g < inf_magnitude" 
    using mag(1) by (auto simp: f64_finite_def min_def split: if_splits)
  with roundMagnitude_overflow [OF d(2), of "nat \<bar>n\<bar>"]
  show "f64_finite (ratFloat64 x) \<longleftrightarrow> \<bar>rat_value x\<bar> < overflow_threshold" unfolding abs by (simp only: not_le [symmetric])
  assume "f64_finite (ratFloat64 x)"
  then have g: "f64_magnitude (ratFloat64 x) = ?g" unfolding fin using mag(1) by (simp only: min_absorb1 less_imp_le)
  define s :: real where "s = (if n < 0 then - 1 else 1)"
  have sv: "rat_value x = s * ?X" "f64_value (ratFloat64 x) = s * (real (mag_units ?g) / unit_scale)"
    using mag(2) g abs d by (simp_all add: s_def f64_value_def x rat_value_def)
  define v where "v = real (mag_units (f64_magnitude y)) / unit_scale"
  have v: "0 \<le> v" "f64_value y = v \<or> f64_value y = - v"
    by (simp_all add: v_def f64_value_def less_imp_le)
  have scale: "\<bar>?X * unit_scale - real h\<bar> = \<bar>?X - real h / unit_scale\<bar> * unit_scale" for h
    by (rule abs_rescale [OF unit_scale_pos])
  have "\<bar>?X - real (mag_units ?g) / unit_scale\<bar> * unit_scale \<le> \<bar>?X - v\<bar> * unit_scale"
    using roundMagnitude_nearest [OF d(2), of "nat \<bar>n\<bar>" "f64_magnitude y"] unfolding scale v_def .
  then have near: "\<bar>?X - real (mag_units ?g) / unit_scale\<bar> \<le> \<bar>?X - v\<bar>"
    by (simp only: mult_le_cancel_right_pos unit_scale_pos)
  have X: "0 \<le> ?X" by simp
  show "\<bar>rat_value x - f64_value (ratFloat64 x)\<bar> \<le> \<bar>rat_value x - f64_value y\<bar>"
    unfolding sv by (rule signed_near [OF near X v]) (simp add: s_def)
qed

lemma frac_less_eq_cross:
  fixes a b c d :: real
  assumes "0 < b" "0 < d"
  shows "a / b < c / d \<longleftrightarrow> a * d < c * b"
  using assms by (simp add: field_simps)

section \<open>Properties\<close>

definition supported_operator :: "string \<Rightarrow> bool" where
  "supported_operator operator \<longleftrightarrow> operator \<in> {''+'', ''-'', ''*'', ''/''}"

text \<open>C28: On two finite operands and a supported operator (a non-zero divisor for \<open>/\<close>) the result of
  \<open>RapideFloat64Arithmetic\<close> is a finite value no other finite value is nearer to the exact real result
  than, and the only error is an exact result of magnitude at least \<open>2^1024 - 2^970\<close>.\<close>

theorem RapideFloat64Arithmetic_nearest:
  assumes "f64_finite l" "f64_finite r" "supported_operator operator" "operator = ''/'' \<Longrightarrow> f64_value r \<noteq> 0"
  shows "case RapideFloat64Arithmetic operator l r of
      Inl err \<Rightarrow> overflow_threshold \<le> \<bar>exact_op operator (f64_value l) (f64_value r)\<bar>
    | Inr z \<Rightarrow> f64_finite z \<and> \<bar>exact_op operator (f64_value l) (f64_value r)\<bar> < overflow_threshold
        \<and> (\<forall>y. \<bar>exact_op operator (f64_value l) (f64_value r) - f64_value z\<bar>
             \<le> \<bar>exact_op operator (f64_value l) (f64_value r) - f64_value y\<bar>)"
proof -
  obtain cl cr where c: "canonicalFloat64 l = Inr cl" "canonicalFloat64 r = Inr cr"
    using assms(1,2) by (simp add: canonicalFloat64_cases)
  note v = canonicalFloat64_Inr [OF c(1)] canonicalFloat64_Inr [OF c(2)]
  note rl = SetFloat64_value [of cl] and rr = SetFloat64_value [of cr]
  obtain z where z: "ratOp operator (SetFloat64 cl) (SetFloat64 cr) = Inr z"
  proof -
    have "fst (SetFloat64 cr) \<noteq> 0" if "operator = ''/''"
      using assms(4) [OF that] v rr by (auto simp: rat_value_def)
    then have "\<exists>z. ratOp operator (SetFloat64 cl) (SetFloat64 cr) = Inr z" using assms(3)
      by (cases "SetFloat64 cl", cases "SetFloat64 cr") (auto simp: supported_operator_def)
    with that show thesis by blast
  qed
  note q = ratOp_value [OF z rl(2) rr(2), unfolded rl(1) rr(1)]
  note near = ratFloat64_nearest [OF conjunct1 [OF q]]
  have run: "RapideFloat64Arithmetic operator l r = canonicalFloat64 (ratFloat64 z)"
    by (simp add: RapideFloat64Arithmetic_def c z)
  show ?thesis
  proof (cases "f64_finite (ratFloat64 z)")
    case True
    then obtain y where y: "canonicalFloat64 (ratFloat64 z) = Inr y" by (simp add: canonicalFloat64_cases)
    show ?thesis using canonicalFloat64_Inr [OF y] near q v True unfolding run y by simp
  next
    case False
    then show ?thesis using near(1) q v unfolding run canonicalFloat64_cases by simp
  qed
qed

text \<open>Evaluation rules for concrete operands.\<close>

lemma bitLen_numeral: "bitLen (numeral n) = Suc (bitLen (numeral n div 2))" "bitLen 0 = 0"
  "bitLen 1 = 1" "bitLen (Suc 0) = 1"
  by (simp_all add: bitLen.simps)

lemmas float_eval = canonicalFloat64_def IsNaN_def IsInf_def f64_magnitude_def f64_negative_def
  SetFloat64_def mag_significand_def mag_shift_def ratFloat64_def roundMagnitude_def
  roundExponent_def bitLen_numeral

text \<open>One tenth and two tenths, whose sum rounds above three tenths.\<close>

theorem RapideFloat64Arithmetic_nearest_witness:
  "RapideFloat64Arithmetic ''+'' 0x3FB999999999999A 0x3FC999999999999A = Inr 0x3FD3333333333334
   \<and> \<bar>f64_value 0x3FB999999999999A + f64_value 0x3FC999999999999A - f64_value 0x3FD3333333333334\<bar>
     \<le> \<bar>f64_value 0x3FB999999999999A + f64_value 0x3FC999999999999A - f64_value 0x3FD3333333333333\<bar>"
proof -
  have run: "RapideFloat64Arithmetic ''+'' 0x3FB999999999999A 0x3FC999999999999A = Inr 0x3FD3333333333334"
    by (simp add: RapideFloat64Arithmetic_def float_eval)
  have "f64_finite 0x3FB999999999999A" "f64_finite 0x3FC999999999999A" "supported_operator ''+''"
    by (simp_all add: f64_finite_def f64_magnitude_def supported_operator_def)
  from RapideFloat64Arithmetic_nearest [OF this] run show ?thesis by (simp add: exact_op_def)
qed

text \<open>\<open>RapideFloat64Compare\<close> decides the order of the exact values: on finite operands each
  supported operator is the corresponding comparison of real numbers, so the two zeros are equal.\<close>

lemma RapideFloat64Compare_exact:
  assumes "f64_finite l" "f64_finite r"
  shows "RapideFloat64Compare ''='' l r = Inr (f64_value l = f64_value r)
    \<and> RapideFloat64Compare ''/='' l r = Inr (f64_value l \<noteq> f64_value r)
    \<and> RapideFloat64Compare ''<'' l r = Inr (f64_value l < f64_value r)
    \<and> RapideFloat64Compare ''<='' l r = Inr (f64_value l \<le> f64_value r)
    \<and> RapideFloat64Compare ''>'' l r = Inr (f64_value l > f64_value r)
    \<and> RapideFloat64Compare ''>='' l r = Inr (f64_value l \<ge> f64_value r)"
proof -
  obtain cl cr where c: "canonicalFloat64 l = Inr cl" "canonicalFloat64 r = Inr cr"
    using assms by (simp add: canonicalFloat64_cases)
  obtain a b where ab: "SetFloat64 cl = (a, b)" by (cases "SetFloat64 cl")
  obtain a' b' where ab': "SetFloat64 cr = (a', b')" by (cases "SetFloat64 cr")
  have pos: "0 < b" "0 < b'" using SetFloat64_value(2) [of cl] SetFloat64_value(2) [of cr] ab ab' by simp_all
  have v: "f64_value l = of_int a / of_int b" "f64_value r = of_int a' / of_int b'"
    using SetFloat64_value(1) [of cl] SetFloat64_value(1) [of cr] ab ab' canonicalFloat64_Inr [OF c(1)]
      canonicalFloat64_Inr [OF c(2)] by (simp_all add: rat_value_def)
  have lt: "f64_value l < f64_value r \<longleftrightarrow> a * b' < a' * b" and gt: "f64_value r < f64_value l \<longleftrightarrow> a' * b < a * b'"
    using pos unfolding v by (simp_all add: frac_less_eq_cross flip: of_int_mult)
  have run: "RapideFloat64Compare operator l r = (let comparison = sgn (a * b' - a' * b) in
        if operator = ''='' then Inr (comparison = 0)
        else if operator = ''/='' then Inr (comparison \<noteq> 0)
        else if operator = ''<'' then Inr (comparison < 0)
        else if operator = ''<='' then Inr (comparison \<le> 0)
        else if operator = ''>'' then Inr (comparison > 0)
        else if operator = ''>='' then Inr (comparison \<ge> 0)
        else Inl (ErrOther ''unsupported Float comparison operator''))" for operator
    by (simp add: RapideFloat64Compare_def c ab ab' ratCmp_def)
  consider "a * b' < a' * b" | "a' * b < a * b'" | "a * b' = a' * b" by linarith
  then show ?thesis
  proof cases
    case 1
    then show ?thesis using lt by (simp add: run Let_def sgn_if)
  next
    case 2
    then show ?thesis using gt by (simp add: run Let_def sgn_if)
  next
    case 3
    then have "f64_value l = f64_value r" using lt gt by linarith
    with 3 show ?thesis by (simp add: run Let_def)
  qed
qed

lemma RapideFloat64Compare_exact_witness:
  "RapideFloat64Compare ''<'' 0xBFE0000000000000 0x3FE0000000000000 = Inr True
   \<and> f64_value 0xBFE0000000000000 < f64_value 0x3FE0000000000000"
proof -
  have run: "RapideFloat64Compare ''<'' 0xBFE0000000000000 0x3FE0000000000000 = Inr True"
    by (simp add: RapideFloat64Compare_def ratCmp_def float_eval)
  have "f64_finite 0xBFE0000000000000" "f64_finite 0x3FE0000000000000"
    by (simp_all add: f64_finite_def f64_magnitude_def)
  from RapideFloat64Compare_exact [OF this] run show ?thesis by simp
qed

text \<open>\<open>RapideFloat64Floor\<close> returns the floor of the exact value of a finite operand, negative
  fractions rounding down, exactly when it is a signed 64-bit integer, and errs otherwise.\<close>

lemma RapideFloat64Floor_exact:
  assumes "f64_finite b"
  shows "RapideFloat64Floor b =
    (if - (2 ^ 63) \<le> \<lfloor>f64_value b\<rfloor> \<and> \<lfloor>f64_value b\<rfloor> < 2 ^ 63 then Inr (word_of_int \<lfloor>f64_value b\<rfloor>)
     else Inl (ErrOther ''outside the signed 64-bit Integer range''))"
proof -
  obtain c where c: "canonicalFloat64 b = Inr c" using assms by (simp add: canonicalFloat64_cases)
  obtain n d where nd: "SetFloat64 c = (n, d)" by (cases "SetFloat64 c")
  have "f64_value b = of_int n / of_int d"
    using SetFloat64_value(1) [of c] nd canonicalFloat64_Inr [OF c] by (simp add: rat_value_def)
  then have "\<lfloor>f64_value b\<rfloor> = n div d" by (simp add: floor_divide_of_int_eq)
  then show ?thesis by (simp add: RapideFloat64Floor_def c nd Let_def)
qed

lemma RapideFloat64Floor_exact_witness:
  "RapideFloat64Floor 0xBFE0000000000000 = Inr (- 1) \<and> \<lfloor>f64_value 0xBFE0000000000000\<rfloor> = - 1"
proof -
  have run: "RapideFloat64Floor 0xBFE0000000000000 = Inr (- 1)"
    by (simp add: RapideFloat64Floor_def float_eval)
  have "f64_finite 0xBFE0000000000000" by (simp add: f64_finite_def f64_magnitude_def)
  note spec = RapideFloat64Floor_exact [OF this]
  let ?f = "\<lfloor>f64_value 0xBFE0000000000000\<rfloor>"
  have self: "sint (word_of_int k :: i64) = k" if "- (2 ^ 63) \<le> k" "k < 2 ^ 63" for k
    using that by (simp add: signed_of_int signed_take_bit_int_eq_self)
  have pick: "Inr a = (if P then Inr b else Inl e) \<Longrightarrow> P \<and> a = b" for a b :: i64 and e :: go_error and P
    by (cases P) simp_all
  from pick [OF spec [unfolded run]] have f: "- (2 ^ 63) \<le> ?f" "?f < 2 ^ 63" "- 1 = (word_of_int ?f :: i64)"
    by blast+
  have "?f = sint (- 1 :: i64)" unfolding f(3) by (rule self [OF f(1,2), symmetric])
  then have "?f = - 1" by simp
  with run show ?thesis by simp
qed

lemma RapideFloat64Abs_exact:
  assumes "f64_finite b"
  shows "\<exists>r. RapideFloat64Abs b = Inr r \<and> f64_finite r \<and> f64_value r = \<bar>f64_value b\<bar>"
proof -
  obtain c where c: "canonicalFloat64 b = Inr c" using assms by (simp add: canonicalFloat64_cases)
  let ?g = "unat c mod 2 ^ 63"
  have g: "?g < 2 ^ 63" by simp
  have "f64_magnitude (of_nat ?g) = f64_magnitude c" "\<not> f64_negative (of_nat ?g)"
    using f64_magnitude_of_nat(1) [OF g] by (simp_all add: f64_magnitude_def [of c])
  then have "f64_value (of_nat ?g) = \<bar>f64_value c\<bar>" "f64_finite (of_nat ?g) = f64_finite c"
    by (simp_all add: f64_value_def f64_finite_def less_imp_le)
  then show ?thesis using canonicalFloat64_Inr [OF c] by (simp add: RapideFloat64Abs_def c)
qed

lemma RapideIntegerToFloat_nearest:
  "\<exists>z. RapideIntegerToFloat i = Inr z \<and> f64_finite z
     \<and> (\<forall>y. \<bar>of_int (sint i) - f64_value z\<bar> \<le> \<bar>of_int (sint i) - f64_value y\<bar>)"
proof -
  have "- (2 ^ 63) \<le> sint i" "sint i < 2 ^ 63" using sint_greater_eq [of i] sint_less [of i] by simp_all
  then have "\<bar>sint i\<bar> \<le> 2 ^ 63" by linarith
  then have "\<bar>real_of_int (sint i)\<bar> \<le> 2 ^ 63" by (metis of_int_abs of_int_le_iff of_int_numeral of_int_power)
  also have "(2::real) ^ 63 < overflow_threshold"
  proof -
    have "(2::real) ^ 63 \<le> 2 ^ 970" "(2::real) * 2 ^ 970 < 2 ^ 1024"
      unfolding power_Suc [symmetric] by (rule power_increasing power_strict_increasing; simp)+
    then show ?thesis unfolding overflow_threshold_def by (simp only: less_diff_eq mult_2)
  qed
  finally have "f64_finite (ratFloat64 (sint i, 1))"
    using ratFloat64_nearest(1) [of "(sint i, 1)"] by (simp add: rat_value_def)
  then obtain z where z: "RapideIntegerToFloat i = Inr z" "canonicalFloat64 (ratFloat64 (sint i, 1)) = Inr z"
    by (simp add: RapideIntegerToFloat_def canonicalFloat64_cases)
  show ?thesis using z(1) canonicalFloat64_Inr [OF z(2)] ratFloat64_nearest(2) [of "(sint i, 1)"]
    by (simp add: rat_value_def)
qed

end
