(* ===== verification/Rapide_Values.thy ===== *)
theory Rapide_Values
  imports Go_Values Float_Semantics
begin

text \<open>
  The deterministic value algebra (\<open>deterministic_event.go\<close>, \<open>rapide_string.go\<close>, \<open>module_value.go\<close>,
  \<open>rapide_record_value.go\<close>, \<open>value_semantics.go\<close>): identifiers, the Rapide string, module and record
  values, and \<open>canonicalValueCopy\<close>, which normalizes every parameter value or rejects it.

  An error keeps its sentinel; a map is scanned in key order, so where several entries are malformed
  the first one decides, while the source reports an arbitrary one.
\<close>

section \<open>Identifiers\<close>

definition is_upper :: "char \<Rightarrow> bool" where
  "is_upper c \<longleftrightarrow> CHR ''A'' \<le> c \<and> c \<le> CHR ''Z''"

definition is_lower :: "char \<Rightarrow> bool" where
  "is_lower c \<longleftrightarrow> CHR ''a'' \<le> c \<and> c \<le> CHR ''z''"

definition to_lower :: "char \<Rightarrow> char" where
  "to_lower c = (if is_upper c then chr (byte c + 32) else c)"

definition identifierStart :: "char \<Rightarrow> bool" where
  "identifierStart c \<longleftrightarrow> c = CHR ''_'' \<or> is_upper c \<or> is_lower c"

definition canonicalRapideIdentifier :: "string \<Rightarrow> go_error + string" where
  \<comment> \<open>the byte loop accepts a letter or underscore, then letters, digits and underscores\<close>
  "canonicalRapideIdentifier name =
     (if name = [] then Inl (ErrOther ''identifier is empty'')
      else if \<not> identifierStart (hd name) \<or> \<not> list_all (\<lambda>c. identifierStart c \<or> is_digit c) (tl name)
      then Inl (ErrOther ''identifier is outside the current ASCII lexical profile'')
      else Inr (map to_lower name))"

lemma char_le_byte: "c \<le> d \<longleftrightarrow> byte c \<le> byte d"
  by (simp add: less_eq_char_def)

lemma to_lower_idem [simp]: "to_lower (to_lower c) = to_lower c"
  by (auto simp: to_lower_def is_upper_def char_le_byte byte_chr)

lemma to_lower_start: "identifierStart c \<Longrightarrow> identifierStart (to_lower c)"
  by (auto simp: to_lower_def identifierStart_def is_upper_def is_lower_def char_le_byte byte_chr)

lemma to_lower_digit: "is_digit c \<Longrightarrow> to_lower c = c"
  by (auto simp: to_lower_def is_digit_def is_upper_def char_le_byte)

lemma canonicalRapideIdentifier_idem:
  assumes "canonicalRapideIdentifier n = Inr m"
  shows "canonicalRapideIdentifier m = Inr m" "m \<noteq> []"
proof -
  have n: "n \<noteq> []" "identifierStart (hd n)" "list_all (\<lambda>c. identifierStart c \<or> is_digit c) (tl n)"
    and m: "m = map to_lower n"
    using assms by (auto simp: canonicalRapideIdentifier_def split: if_splits)
  have "list_all (\<lambda>c. identifierStart c \<or> is_digit c) (tl m)"
    using n(3) unfolding m map_tl [symmetric] list_all_iff by (auto dest: to_lower_start simp: to_lower_digit)
  moreover have "identifierStart (hd m)" using n(1,2) by (simp add: m hd_map to_lower_start)
  moreover have "map to_lower m = m" by (simp add: m)
  ultimately show "canonicalRapideIdentifier m = Inr m" "m \<noteq> []"
    using n(1) by (simp_all add: canonicalRapideIdentifier_def m)
qed

section \<open>Strings of character codes\<close>

definition code_scalar :: "i64 \<Rightarrow> bool" where
  \<comment> \<open>the code is neither negative nor beyond the last scalar value nor a surrogate\<close>
  "code_scalar code \<longleftrightarrow> \<not> (sint code < 0 \<or> sint code > 0x10FFFF \<or> sint code \<ge> 0xD800 \<and> sint code \<le> 0xDFFF)"

definition canonicalRapideString :: "i64 list \<Rightarrow> go_value" where
  "canonicalRapideString codes =
     (if list_all code_scalar codes then VString (encodeRunes (map (\<lambda>code. nat (sint code)) codes))
      else VRapideString codes)"

definition CanonicalRapideStringCodes :: "go_value \<Rightarrow> go_error + i64 list" where
  "CanonicalRapideStringCodes value = (case value of
      VString s \<Rightarrow> (case decodeRunes s of None \<Rightarrow> Inl ErrNonCanonicalValue | Some rs \<Rightarrow> Inr (map of_nat rs))
    | VRapideString codes \<Rightarrow> Inr codes
    | _ \<Rightarrow> Inl ErrNonCanonicalValue)"

lemma code_scalar_nat: "code_scalar code \<Longrightarrow> scalar_value (nat (sint code)) \<and> of_nat (nat (sint code)) = code"
  by (auto simp: code_scalar_def scalar_value_def nat_less_iff)

lemma scalar_code: "scalar_value r \<Longrightarrow> code_scalar (of_nat r) \<and> nat (sint (of_nat r :: i64)) = r"
proof -
  assume r: "scalar_value r"
  then have "r < 2 ^ 63" by (auto simp: scalar_value_def)
  then have "sint (of_nat r :: i64) = int r" by (simp add: signed_of_nat signed_take_bit_int_eq_self)
  with r show ?thesis by (auto simp: code_scalar_def scalar_value_def)
qed

text \<open>The two denotations of a string are exchanged without loss.\<close>

lemma canonicalRapideString_codes: "CanonicalRapideStringCodes (canonicalRapideString codes) = Inr codes"
proof (cases "list_all code_scalar codes")
  case True
  then have "\<forall>r \<in> set (map (\<lambda>code. nat (sint code)) codes). scalar_value r"
    by (auto simp: list_all_iff code_scalar_nat)
  moreover have "map of_nat (map (\<lambda>code. nat (sint code)) codes) = codes"
    using True by (induction codes) (auto simp: code_scalar_nat)
  ultimately show ?thesis
    using True by (simp add: canonicalRapideString_def CanonicalRapideStringCodes_def decode_encodeRunes)
qed (simp add: canonicalRapideString_def CanonicalRapideStringCodes_def)

section \<open>Modules\<close>

definition rapideModuleIdentityPrefix :: string where
  "rapideModuleIdentityPrefix = ''mod1-''"

definition ParseRapideModuleValue :: "string \<Rightarrow> go_error + string" where
  "ParseRapideModuleValue identity =
     (if take (length rapideModuleIdentityPrefix) identity \<noteq> rapideModuleIdentityPrefix
      then Inl ErrInvalidRapideModuleValue
      else let hexDigest = drop (length rapideModuleIdentityPrefix) identity
           in case hexDecode hexDigest of None \<Rightarrow> Inl ErrInvalidRapideModuleValue
              | Some decoded \<Rightarrow> if length decoded \<noteq> 32 \<or> hexEncode decoded \<noteq> hexDigest
                  then Inl ErrInvalidRapideModuleValue else Inr identity)"

definition SameRapideModule :: "string \<Rightarrow> string \<Rightarrow> bool" where
  "SameRapideModule left right \<longleftrightarrow> left \<noteq> '''' \<and> left = right"

definition canonicalRapideModuleValue :: "string \<Rightarrow> go_error + string" where
  "canonicalRapideModuleValue identity =
     (case ParseRapideModuleValue identity of Inl err \<Rightarrow> Inl err | Inr parsed \<Rightarrow> Inr parsed)"

lemma ParseRapideModuleValue_Inr: "ParseRapideModuleValue i = Inr j \<longleftrightarrow>
    j = i \<and> (\<exists>d. length d = 32 \<and> i = rapideModuleIdentityPrefix @ hexEncode d)"
proof
  assume p: "ParseRapideModuleValue i = Inr j"
  let ?n = "length rapideModuleIdentityPrefix"
  from p obtain d where t: "take ?n i = rapideModuleIdentityPrefix" and "j = i"
    and d: "length d = 32" "hexEncode d = drop ?n i"
    by (auto simp: ParseRapideModuleValue_def Let_def split: if_splits option.splits)
  moreover have "i = rapideModuleIdentityPrefix @ hexEncode d"
    using append_take_drop_id [of ?n i] unfolding t d(2) by simp
  ultimately show "j = i \<and> (\<exists>d. length d = 32 \<and> i = rapideModuleIdentityPrefix @ hexEncode d)" by blast
qed (auto simp: ParseRapideModuleValue_def Let_def)

lemma ParseRapideModuleValue_id: "ParseRapideModuleValue i = Inr j \<Longrightarrow> j = i"
  by (simp add: ParseRapideModuleValue_Inr)

lemma ParseRapideModuleValue_idem: "ParseRapideModuleValue i = Inr j \<Longrightarrow> ParseRapideModuleValue j = Inr j"
  using ParseRapideModuleValue_id by blast

lemma canonicalRapideModuleValue_eq: "canonicalRapideModuleValue = ParseRapideModuleValue"
  by (rule ext) (simp add: canonicalRapideModuleValue_def split: sum.splits)

section \<open>Canonical copies\<close>

definition widenFloat32 :: "32 word \<Rightarrow> f64" where
  \<comment> \<open>the conversion \<open>float64(value)\<close> on bit patterns; it is exact\<close>
  "widenFloat32 b =
     (let n = unat b mod 2 ^ 31; e = n div 2 ^ 23; f = n mod 2 ^ 23;
          g = (if e = 255 then 2047 * 2 ^ 52 + f * 2 ^ 29
               else if e > 0 then (e + 896) * 2 ^ 52 + f * 2 ^ 29
               else if f = 0 then 0
               else (bitLen f + 873) * 2 ^ 52 + (f * 2 ^ (53 - bitLen f) - 2 ^ 52))
      in of_nat (if 2 ^ 31 \<le> unat b then 2 ^ 63 + g else g))"

fun canonicalValueCopy :: "go_value \<Rightarrow> go_error + go_value"
  and canonicalItems :: "go_value list \<Rightarrow> go_error + go_value list"
  and canonicalParams :: "params \<Rightarrow> go_error + params"
  and canonicalRecordFields :: "string option \<Rightarrow> params \<Rightarrow> go_error + params" where
  "canonicalValueCopy VNil = Inr VNil"
| "canonicalValueCopy (VBool b) = Inr (VBool b)"
| "canonicalValueCopy VTriv = Inr VTriv"
| "canonicalValueCopy (VString s) = (if \<not> ValidString s then Inl ErrNonCanonicalValue else Inr (VString s))"
| "canonicalValueCopy (VCharacter c) = Inr (VCharacter c)"
| "canonicalValueCopy (VRapideString codes) = Inr (canonicalRapideString codes)"
| "canonicalValueCopy (VModule m) =
     (case canonicalRapideModuleValue m of Inl err \<Rightarrow> Inl err | Inr m \<Rightarrow> Inr (VModule m))"
| "canonicalValueCopy (VRecord m fields) =
     (case canonicalRapideModuleValue m of Inl err \<Rightarrow> Inl ErrInvalidRapideRecordValue
      | Inr m \<Rightarrow> (case canonicalRecordFields None fields of Inl err \<Rightarrow> Inl err
        | Inr fields \<Rightarrow> Inr (VRecord m fields)))"
| "canonicalValueCopy (VInt i) = Inr (VInt64 i)"
| "canonicalValueCopy (VInt8 i) = Inr (VInt64 (scast i))"
| "canonicalValueCopy (VInt16 i) = Inr (VInt64 (scast i))"
| "canonicalValueCopy (VInt32 i) = Inr (VInt64 (scast i))"
| "canonicalValueCopy (VInt64 i) = Inr (VInt64 i)"
| "canonicalValueCopy (VUint u) = Inr (VUint64 u)"
| "canonicalValueCopy (VUint8 u) = Inr (VUint64 (ucast u))"
| "canonicalValueCopy (VUint16 u) = Inr (VUint64 (ucast u))"
| "canonicalValueCopy (VUint32 u) = Inr (VUint64 (ucast u))"
| "canonicalValueCopy (VUint64 u) = Inr (VUint64 u)"
| "canonicalValueCopy (VFloat32 f) =
     (case canonicalFloat64 (widenFloat32 f) of Inl err \<Rightarrow> Inl err | Inr f \<Rightarrow> Inr (VFloat64 f))"
| "canonicalValueCopy (VFloat64 f) =
     (case canonicalFloat64 f of Inl err \<Rightarrow> Inl err | Inr f \<Rightarrow> Inr (VFloat64 f))"
| "canonicalValueCopy (VBytes b) = Inr (VBytes b)"
| "canonicalValueCopy (VList items) =
     (case canonicalItems items of Inl err \<Rightarrow> Inl err | Inr items \<Rightarrow> Inr (VList items))"
| "canonicalValueCopy (VMap m) =
     (case canonicalParams m of Inl err \<Rightarrow> Inl err | Inr m \<Rightarrow> Inr (VMap m))"
| "canonicalValueCopy (VOther t c) = Inl ErrNonCanonicalValue"
| "canonicalItems [] = Inr []"
| "canonicalItems (item # items) =
     (case canonicalValueCopy item of Inl err \<Rightarrow> Inl err
      | Inr canonical \<Rightarrow> (case canonicalItems items of Inl err \<Rightarrow> Inl err
        | Inr result \<Rightarrow> Inr (canonical # result)))"
| "canonicalParams [] = Inr []"
| "canonicalParams ((key, value) # rest) =
     (if \<not> ValidString key then Inl ErrNonCanonicalValue
      else case canonicalValueCopy value of Inl err \<Rightarrow> Inl err
      | Inr canonical \<Rightarrow> (case canonicalParams rest of Inl err \<Rightarrow> Inl err
        | Inr result \<Rightarrow> Inr ((key, canonical) # result)))"
| "canonicalRecordFields previous [] = Inr []"
| "canonicalRecordFields previous ((field, value) # rest) =
     (if canonicalRapideIdentifier field \<noteq> Inr field
         \<or> (case previous of None \<Rightarrow> False | Some p \<Rightarrow> field \<le> p)
      then Inl ErrInvalidRapideRecordValue
      else case canonicalValueCopy value of Inl err \<Rightarrow> Inl ErrInvalidRapideRecordValue
      | Inr canonical \<Rightarrow> (case canonicalRecordFields (Some field) rest of Inl err \<Rightarrow> Inl err
        | Inr result \<Rightarrow> Inr ((field, canonical) # result)))"

definition CanonicalizeParams :: "params \<Rightarrow> go_error + params" where
  "CanonicalizeParams ps = canonicalParams ps"

definition canonicalRapideRecordValue :: "string \<Rightarrow> params \<Rightarrow> go_error + string \<times> params" where
  "canonicalRapideRecordValue m fields =
     (case canonicalValueCopy (VRecord m fields) of Inr (VRecord m' fields') \<Rightarrow> Inr (m', fields')
      | Inr _ \<Rightarrow> Inl ErrInvalidRapideRecordValue | Inl err \<Rightarrow> Inl err)"

lemma canonicalRapideString_canonical:
  "canonicalValueCopy (canonicalRapideString codes) = Inr (canonicalRapideString codes)"
proof (cases "list_all code_scalar codes")
  case True
  then have "\<forall>r \<in> set (map (\<lambda>code. nat (sint code)) codes). scalar_value r"
    by (auto simp: list_all_iff code_scalar_nat)
  then have "ValidString (encodeRunes (map (\<lambda>code. nat (sint code)) codes))" unfolding ValidString_iff by blast
  with True show ?thesis by (simp add: canonicalRapideString_def)
qed (simp add: canonicalRapideString_def)

text \<open>A canonical copy is its own canonical copy; lists, maps and records keep their length and keys.\<close>

lemma canonicalValueCopy_idem:
  "canonicalValueCopy v = Inr w \<Longrightarrow> canonicalValueCopy w = Inr w"
  "canonicalItems vs = Inr ws \<Longrightarrow> canonicalItems ws = Inr ws \<and> length ws = length vs"
  "canonicalParams ps = Inr qs \<Longrightarrow> canonicalParams qs = Inr qs \<and> map fst qs = map fst ps"
  "canonicalRecordFields previous fs = Inr gs \<Longrightarrow> canonicalRecordFields previous gs = Inr gs \<and> map fst gs = map fst fs"
proof (induction v and vs and ps and previous fs arbitrary: w and ws and qs and gs
    rule: canonicalValueCopy_canonicalItems_canonicalParams_canonicalRecordFields.induct)
  case (7 m)
  then show ?case
    by (auto simp: canonicalRapideModuleValue_eq dest: ParseRapideModuleValue_idem split: sum.splits)
next
  case (8 m fields)
  then show ?case
    by (auto simp: canonicalRapideModuleValue_eq dest: ParseRapideModuleValue_idem split: sum.splits)
next
  case (19 f)
  then show ?case by (auto dest: canonicalFloat64_idem split: sum.splits)
next
  case (20 f)
  then show ?case by (auto dest: canonicalFloat64_idem split: sum.splits)
qed (auto simp: canonicalRapideString_canonical split: sum.splits if_splits)

lemma CanonicalizeParams_idem: "CanonicalizeParams ps = Inr qs \<Longrightarrow> CanonicalizeParams qs = Inr qs"
  by (simp add: CanonicalizeParams_def canonicalValueCopy_idem)

section \<open>Predefined types\<close>

definition CanonicalValuesEqual :: "go_value \<Rightarrow> go_value \<Rightarrow> go_error + bool" where
  \<comment> \<open>\<open>reflect.DeepEqual\<close> on canonical values, whose floats are finite with one zero, is equality\<close>
  "CanonicalValuesEqual left right =
     (case canonicalValueCopy left of Inl err \<Rightarrow> Inl err
      | Inr canonicalLeft \<Rightarrow> (case canonicalValueCopy right of Inl err \<Rightarrow> Inl err
        | Inr canonicalRight \<Rightarrow> Inr (canonicalLeft = canonicalRight)))"

definition IsSupportedPredefinedType :: "string \<Rightarrow> bool" where
  "IsSupportedPredefinedType name \<longleftrightarrow>
     name \<in> {''Triv'', ''Boolean'', ''Integer'', ''Natural'', ''Positive'', ''Float'', ''Character'', ''String''}"

definition CanonicalValueMatchesPredefinedType :: "go_value \<Rightarrow> string \<Rightarrow> bool" where
  "CanonicalValueMatchesPredefinedType value name =
     (case canonicalValueCopy value of Inl err \<Rightarrow> False
      | Inr canonical \<Rightarrow>
        if name = ''Triv'' then canonical = VTriv
        else if name = ''Boolean'' then (case canonical of VBool _ \<Rightarrow> True | _ \<Rightarrow> False)
        else if name = ''Integer'' then (case canonical of VInt64 _ \<Rightarrow> True | _ \<Rightarrow> False)
        else if name = ''Natural'' then (case canonical of VInt64 i \<Rightarrow> 0 \<le> sint i | _ \<Rightarrow> False)
        else if name = ''Positive'' then (case canonical of VInt64 i \<Rightarrow> 1 \<le> sint i | _ \<Rightarrow> False)
        else if name = ''Float'' then (case canonical of VFloat64 _ \<Rightarrow> True | _ \<Rightarrow> False)
        else if name = ''Character'' then (case canonical of VCharacter _ \<Rightarrow> True | _ \<Rightarrow> False)
        else if name = ''String'' then (case canonical of VString _ \<Rightarrow> True | VRapideString _ \<Rightarrow> True | _ \<Rightarrow> False)
        else False)"

section \<open>Properties\<close>

text \<open>The two denotations of a Rapide string are exchanged without loss: every code sequence is
  read back from its canonical value, and every valid Go string from its codes.\<close>

lemma rapide_string_roundtrip:
  "CanonicalRapideStringCodes (canonicalRapideString codes) = Inr codes
   \<and> (CanonicalRapideStringCodes (VString s) = Inr codes \<longrightarrow> canonicalRapideString codes = VString s)"
proof (intro conjI impI)
  show "CanonicalRapideStringCodes (canonicalRapideString codes) = Inr codes"
    by (rule canonicalRapideString_codes)
  assume "CanonicalRapideStringCodes (VString s) = Inr codes"
  then obtain rs where rs: "decodeRunes s = Some rs" "codes = map of_nat rs"
    by (auto simp: CanonicalRapideStringCodes_def split: option.splits)
  from encode_decodeRunes [OF rs(1)] have sv: "\<forall>r \<in> set rs. scalar_value r" and s: "s = encodeRunes rs" by simp_all
  have "list_all code_scalar codes" using sv by (auto simp: rs(2) list_all_iff scalar_code)
  moreover have "map (\<lambda>code. nat (sint code)) codes = rs"
    using sv unfolding rs(2) by (induction rs) (auto simp: scalar_code)
  ultimately show "canonicalRapideString codes = VString s" by (simp add: canonicalRapideString_def s)
qed

text \<open>The codes of a two-byte letter and a lone surrogate.\<close>

lemma rapide_string_roundtrip_witness:
  "canonicalRapideString [0xE9] = VString [chr 0xC3, chr 0xA9]
   \<and> CanonicalRapideStringCodes (canonicalRapideString [0xD800]) = Inr [0xD800]"
proof -
  have "scalar_value 0xE9" by (simp add: scalar_value_def)
  from decode_encodeRunes [of "[0xE9]"] this
  have "decodeRunes (encodeRunes [0xE9]) = Some [0xE9]" by simp
  then have "CanonicalRapideStringCodes (VString [chr 0xC3, chr 0xA9]) = Inr [0xE9]"
    by (simp add: CanonicalRapideStringCodes_def encodeRune_def)
  with rapide_string_roundtrip [of "[0xE9]" "[chr 0xC3, chr 0xA9]"] rapide_string_roundtrip [of "[0xD800]"]
  show ?thesis by blast
qed

text \<open>Of which base type a Go value is, and the integer it holds, read off the value as it comes.\<close>

fun base_type :: "go_value \<Rightarrow> string option" where
  "base_type VTriv = Some ''Triv''"
| "base_type (VBool b) = Some ''Boolean''"
| "base_type (VInt i) = Some ''Integer''"
| "base_type (VInt8 i) = Some ''Integer''"
| "base_type (VInt16 i) = Some ''Integer''"
| "base_type (VInt32 i) = Some ''Integer''"
| "base_type (VInt64 i) = Some ''Integer''"
| "base_type (VFloat32 f) = (if f64_finite (widenFloat32 f) then Some ''Float'' else None)"
| "base_type (VFloat64 f) = (if f64_finite f then Some ''Float'' else None)"
| "base_type (VCharacter c) = Some ''Character''"
| "base_type (VString s) = (if ValidString s then Some ''String'' else None)"
| "base_type (VRapideString codes) = Some ''String''"
| "base_type _ = None"

fun go_integer :: "go_value \<Rightarrow> int option" where
  "go_integer (VInt i) = Some (sint i)"
| "go_integer (VInt8 i) = Some (sint i)"
| "go_integer (VInt16 i) = Some (sint i)"
| "go_integer (VInt32 i) = Some (sint i)"
| "go_integer (VInt64 i) = Some (sint i)"
| "go_integer _ = None"

text \<open>C29: The predefined types classify the values as they come, so no Go width leaks.  A value belongs to
  at most one of the six base types: all signed integers to Integer, finite floats to Float, valid Go strings
  and Rapide strings to String; Natural and Positive are the signed integers at least 0 and 1.  Unsigned
  integers, modules, containers, invalid strings, infinities and values outside the algebra belong to none,
  and no other name has members.\<close>

theorem predefined_types_classify:
  "CanonicalValueMatchesPredefinedType v name \<longleftrightarrow> base_type v = Some name
     \<or> (\<exists>n. go_integer v = Some n \<and> (name = ''Natural'' \<and> 0 \<le> n \<or> name = ''Positive'' \<and> 1 \<le> n))"
proof (cases v)
  case (VRapideString codes)
  then show ?thesis by (auto simp: CanonicalValueMatchesPredefinedType_def canonicalRapideString_def)
next
  case (VFloat32 f)
  then show ?thesis by (auto simp: CanonicalValueMatchesPredefinedType_def canonicalFloat64_cases)
next
  case (VFloat64 f)
  then show ?thesis by (auto simp: CanonicalValueMatchesPredefinedType_def canonicalFloat64_cases)
qed (auto simp: CanonicalValueMatchesPredefinedType_def sint_up_scast is_up split: sum.splits option.splits)

end
