(* ===== verification/Snapshot_Model.thy ===== *)
theory Snapshot_Model
  imports Store_Interface Rapide_Values
begin

text \<open>
  Snapshots of a poset (\<open>merge.go\<close>, \<open>export.go\<close>): the exported form of an event, full and incremental
  snapshots, the deep copy, and the conversion of an exported event back into an event.

  \<open>Time.Format\<close> and \<open>time.Parse\<close> with the layout \<open>RFC3339Nano\<close> are arguments (\<open>formatTime\<close>,
  \<open>parseTime\<close>): the calendar of the Go library is outside the model.  What the snapshots rely on is the
  documented round trip of the layout, \<open>parseTime (formatTime t) = Some t\<close>.
\<close>

section \<open>The exported forms\<close>

record event_export =
  ex_id :: string
  ex_name :: string
  ex_params :: params
  ex_source :: string
  ex_lamport :: u64
  ex_wallTime :: string
  ex_vectorClock :: "(string, u64) fmap option"
  ex_timings :: "event_timing list"

record snapshot =
  sn_nodeID :: node_id
  sn_events :: "event_export list"
  sn_causalEquivalences :: "string list list"
  sn_causalEdges :: "string list list"
  sn_highWater :: u64

section \<open>Creating snapshots\<close>

definition sortEventIDsByLamport :: "poset \<Rightarrow> event_id list \<Rightarrow> event_id list" where
  \<comment> \<open>by Lamport position, then by ID; the IDs are stored ones\<close>
  "sortEventIDsByLamport p ids = sort_key (\<lambda>i. (lam p i, i)) ids"

definition sortedEventIDs :: "poset \<Rightarrow> event_id list" where
  "sortedEventIDs p = sortEventIDsByLamport p (event_ids p)"

definition sortedSuccessors :: "poset \<Rightarrow> event_id \<Rightarrow> event_id list" where
  "sortedSuccessors p from = sortEventIDsByLamport p (fset_ids (edges_of p from))"

definition sortedPredecessors :: "poset \<Rightarrow> event_id \<Rightarrow> event_id list" where
  "sortedPredecessors p i = sortEventIDsByLamport p (fset_ids (redges_of p i))"

definition exportEvent :: "(int \<Rightarrow> string) \<Rightarrow> event \<Rightarrow> event_export" where
  "exportEvent formatTime e =
     \<lparr>ex_id = ev_id e, ex_name = ev_name e, ex_params = copyParams (ev_params e), ex_source = ev_source e,
      ex_lamport = cs_lamport (ev_clock e), ex_wallTime = formatTime (cs_wall (ev_clock e)),
      ex_vectorClock = cs_vector (ev_clock e), ex_timings = ev_timings e\<rparr>"

definition exportEvents :: "(int \<Rightarrow> string) \<Rightarrow> poset \<Rightarrow> event_id list \<Rightarrow> event_export list" where
  "exportEvents formatTime p ids =
     List.map_filter (\<lambda>i. map_option (exportEvent formatTime) (fmlookup (events p) i)) ids"

definition CreateSnapshot :: "(int \<Rightarrow> string) \<Rightarrow> poset \<Rightarrow> node_id \<Rightarrow> snapshot" where
  "CreateSnapshot formatTime p nodeID =
     (let ids = sortEventIDsByLamport p (event_ids p)
      in \<lparr>sn_nodeID = nodeID, sn_events = exportEvents formatTime p ids,
          sn_causalEquivalences = nontrivialCausalClassesLocked p,
          sn_causalEdges = concat (map (\<lambda>fromID. map (\<lambda>toID. [fromID, toID]) (sortedSuccessors p fromID)) ids),
          sn_highWater = lamportCounter p\<rparr>)"

definition CreateIncrementalSnapshot :: "(int \<Rightarrow> string) \<Rightarrow> poset \<Rightarrow> node_id \<Rightarrow> u64 \<Rightarrow> snapshot" where
  "CreateIncrementalSnapshot formatTime p nodeID sinceHighWater =
     (let included = filter (\<lambda>i. lam p i \<ge> sinceHighWater) (event_ids p);
          ids = sortEventIDsByLamport p included
      in \<lparr>sn_nodeID = nodeID, sn_events = exportEvents formatTime p ids,
          sn_causalEquivalences =
            filter (\<lambda>class. list_all (\<lambda>member. member \<in> set included) class) (nontrivialCausalClassesLocked p),
          sn_causalEdges = concat (map (\<lambda>fromID. map (\<lambda>toID. [fromID, toID])
            (filter (\<lambda>toID. toID \<in> set included) (sortedSuccessors p fromID))) ids),
          sn_highWater = lamportCounter p\<rparr>)"

section \<open>Copying a snapshot\<close>

fun cloneExports :: "event_export list \<Rightarrow> go_error + event_export list" where
  "cloneExports [] = Inr []"
| "cloneExports (exported # rest) =
     (case CanonicalizeParams (ex_params exported) of Inl err \<Rightarrow> Inl err
      | Inr ps \<Rightarrow> (case CanonicalizeEventTimings (ex_timings exported) of Inl err \<Rightarrow> Inl err
        | Inr timings \<Rightarrow> map_sum id ((#) (exported\<lparr>ex_params := ps, ex_timings := timings\<rparr>)) (cloneExports rest)))"

definition CloneSnapshot :: "snapshot option \<Rightarrow> go_error + snapshot" where
  "CloneSnapshot snap = (case snap of
      None \<Rightarrow> Inl (ErrOther ''snapshot is nil'')
    | Some s \<Rightarrow> (case cloneExports (sn_events s) of Inl err \<Rightarrow> Inl err
        | Inr exports \<Rightarrow> Inr \<lparr>sn_nodeID = sn_nodeID s, sn_events = exports,
            sn_causalEquivalences = sn_causalEquivalences s, sn_causalEdges = sn_causalEdges s,
            sn_highWater = sn_highWater s\<rparr>))"

section \<open>From an exported event to an event\<close>

definition eventFromSnapshotExport :: "(string \<Rightarrow> int option) \<Rightarrow> event_export \<Rightarrow> go_error + event" where
  "eventFromSnapshotExport parseTime exported =
     (if \<not> ValidString (ex_id exported) then Inl (ErrOther ''event ID is not valid UTF-8'')
      else if ex_name exported = '''' then Inl (ErrOther ''event name is empty'')
      else if \<not> ValidString (ex_name exported) then Inl (ErrOther ''event name is not valid UTF-8'')
      else if \<not> ValidString (ex_source exported) then Inl (ErrOther ''event source is not valid UTF-8'')
      else case parseTime (ex_wallTime exported) of None \<Rightarrow> Inl (ErrOther ''invalid wall_time'')
      | Some wallTime \<Rightarrow> (case CanonicalizeParams (ex_params exported) of Inl err \<Rightarrow> Inl err
      | Inr ps \<Rightarrow> (case CanonicalizeEventTimings (ex_timings exported) of Inl err \<Rightarrow> Inl err
      | Inr timings \<Rightarrow>
        (let event = \<lparr>ev_id = ex_id exported, ev_name = ex_name exported, ev_params = ps,
              ev_clock = \<lparr>cs_lamport = ex_lamport exported, cs_wall = wallTime, cs_vector = ex_vectorClock exported\<rparr>,
              ev_source = ex_source exported, ev_timings = timings,
              ev_observations = [\<lparr>ob_name = ex_name exported, ob_source = ex_source exported,
                ob_params = copyParams ps\<rparr>],
              ev_immutable = False, ev_expectedCauses = [], ev_deterministic = False\<rparr>
         in case ex_vectorClock exported of None \<Rightarrow> Inr event
            | Some vector \<Rightarrow>
                if list_ex (\<lambda>key. key = '''' \<or> \<not> ValidString key) (map_keys vector)
                then Inl (ErrOther ''vector clock node ID is empty or invalid UTF-8'') else Inr event))))"

definition snapshotEventConflict :: "event \<Rightarrow> event \<Rightarrow> go_error option" where
  \<comment> \<open>deep equality of canonical parameters is equality of the values\<close>
  "snapshotEventConflict existing candidate =
     (if ev_name existing \<noteq> ev_name candidate then Some (ErrOther ''existing event name conflicts'')
      else if ev_source existing \<noteq> ev_source candidate then Some (ErrOther ''existing event source conflicts'')
      else case CanonicalizeParams (ev_params existing) of Inl err \<Rightarrow> Some err
      | Inr existingParams \<Rightarrow>
        if existingParams \<noteq> ev_params candidate then Some (ErrOther ''existing event parameters conflict'')
        else (case CanonicalizeEventTimings (ev_timings existing) of Inl err \<Rightarrow> Some err
        | Inr existingTimings \<Rightarrow>
          if existingTimings \<noteq> ev_timings candidate then Some (ErrOther ''existing event Rapide timings conflict'')
          else if cs_wall (ev_clock existing) \<noteq> cs_wall (ev_clock candidate)
          then Some (ErrOther ''existing event wall_time conflicts'')
          else None))"

section \<open>Edges\<close>

definition pendingEdgeExists :: "pending_edge list \<Rightarrow> event_id \<Rightarrow> event_id \<Rightarrow> bool" where
  "pendingEdgeExists edges from to = list_ex (\<lambda>edge. pe_from edge = from \<and> pe_to edge = to) edges"

definition snapshotEdgeKey :: "string list \<Rightarrow> string" where
  "snapshotEdgeKey edge = decimal (length edge) @ '':''
     @ concat (map (\<lambda>endpoint. decimal (length endpoint) @ '':'' @ endpoint) edge)"

text \<open>The key is self-delimiting, so distinct edges have distinct keys.\<close>

lemma decimal_colon_prefix:
  assumes "decimal m @ CHR '':'' # s = decimal n @ CHR '':'' # t"
  shows "m = n \<and> s = t"
proof -
  have no: "\<forall>c \<in> set (decimal k). c \<noteq> CHR '':''" for k
    using decimal_digits [of k] by (auto simp: list_all_iff is_digit_def less_eq_char_def)
  have "takeWhile (\<lambda>c. c \<noteq> CHR '':'') (decimal k @ CHR '':'' # u) = decimal k"
    "dropWhile (\<lambda>c. c \<noteq> CHR '':'') (decimal k @ CHR '':'' # u) = CHR '':'' # u" for k u
    using no [of k] by (simp_all add: takeWhile_append2 dropWhile_append2)
  then have "decimal m = decimal n \<and> s = t" using assms by (metis list.inject)
  then show ?thesis by (metis parse_decimal option.inject)
qed

lemma endpoints_prefix:
  "length a = length b \<Longrightarrow>
     concat (map (\<lambda>endpoint. decimal (length endpoint) @ '':'' @ endpoint) a)
       = concat (map (\<lambda>endpoint. decimal (length endpoint) @ '':'' @ endpoint) b) \<Longrightarrow> a = b"
proof (induction a b rule: list_induct2)
  case (Cons x xs y ys)
  then have "decimal (length x) @ CHR '':'' # (x @ concat (map (\<lambda>endpoint. decimal (length endpoint) @ '':'' @ endpoint) xs))
      = decimal (length y) @ CHR '':'' # (y @ concat (map (\<lambda>endpoint. decimal (length endpoint) @ '':'' @ endpoint) ys))"
    by simp
  from decimal_colon_prefix [OF this] Cons.IH show ?case by (auto dest: append_eq_append_conv [THEN iffD1, rotated])
qed simp

lemma snapshotEdgeKey_inj: "snapshotEdgeKey a = snapshotEdgeKey b \<longleftrightarrow> a = b"
proof
  assume "snapshotEdgeKey a = snapshotEdgeKey b"
  then have "length a = length b
      \<and> concat (map (\<lambda>endpoint. decimal (length endpoint) @ '':'' @ endpoint) a)
        = concat (map (\<lambda>endpoint. decimal (length endpoint) @ '':'' @ endpoint) b)"
    unfolding snapshotEdgeKey_def by (intro decimal_colon_prefix) simp
  then show "a = b" using endpoints_prefix [of a b] by blast
qed simp

end
