(* ===== verification/Poset_Replica.thy ===== *)
theory Poset_Replica
  imports Store_Interface
begin

text \<open>
  Rebuilding a poset from its content.  A replica holds a part of the occurrences, equivalences and
  strict pairs of an original.  Declaring one of the original's classes (before any edge) or strict pairs
  on a replica always succeeds and gives a larger replica; once all classes and edges are in, the replica
  carries the order of the original.  Snapshots, exports and canonical encodings are restored this way.
\<close>

definition same_content :: "poset \<Rightarrow> poset \<Rightarrow> bool" where
  \<comment> \<open>the same events but for their Lamport positions\<close>
  "same_content p q \<longleftrightarrow> (\<forall>i. map_option (set_lamport 0) (fmlookup (events q) i)
     = map_option (set_lamport 0) (fmlookup (events p) i))"

definition replica :: "poset \<Rightarrow> poset \<Rightarrow> bool" where
  "replica p q \<longleftrightarrow> poset_ok q \<and> (\<forall>i. stored q i \<longrightarrow> stored p i) \<and> before q \<subseteq> before p
     \<and> (\<forall>i j. IsCausallyEquivalent q i j \<longrightarrow> IsCausallyEquivalent p i j)
     \<and> (\<forall>i e. fmlookup (events q) i = Some e \<longrightarrow>
          (\<exists>d. fmlookup (events p) i = Some d \<and> ev_timings d = ev_timings e))"

lemma same_content_refl [simp]: "same_content p p"
  by (simp add: same_content_def)

lemma same_content_trans: "same_content p q \<Longrightarrow> same_content q r \<Longrightarrow> same_content p r"
  by (simp add: same_content_def)

lemma same_content_event:
  assumes "same_content p q" "fmlookup (events q) i = Some e"
  obtains d where "fmlookup (events p) i = Some d" "set_lamport 0 d = set_lamport 0 e"
proof -
  have "map_option (set_lamport 0) (fmlookup (events p) i) = Some (set_lamport 0 e)"
    using assms(1) [unfolded same_content_def, rule_format, of i] assms(2) by simp
  then show thesis using that by (cases "fmlookup (events p) i") auto
qed

lemma same_content_timings: "set_lamport 0 d = set_lamport 0 e \<Longrightarrow> ev_timings d = ev_timings e"
  by (metis set_lamport_simps(2))

lemma replica_start: "replica p NewPoset"
proof -
  have "stored NewPoset = (\<lambda>_. False)" by (simp add: NewPoset_ok fun_eq_iff)
  then have "before NewPoset = {}" "\<not> IsCausallyEquivalent NewPoset i j" for i j
    by (simp_all add: before_def IsCausallyEquivalent_iff)
  then show ?thesis by (auto simp: replica_def NewPoset_ok) (simp add: NewPoset_def)
qed

text \<open>How a replica grows.\<close>

lemma replica_step:
  assumes "replica p q" "poset_ok r" "stored r = stored q" "same_content q r" "before r \<subseteq> before p"
    and "\<And>i j. IsCausallyEquivalent r i j \<Longrightarrow> IsCausallyEquivalent p i j"
  shows "replica p r"
proof -
  have "\<exists>d. fmlookup (events p) i = Some d \<and> ev_timings d = ev_timings e" if "fmlookup (events r) i = Some e" for i e
    using same_content_event [OF assms(4) that] assms(1) same_content_timings by (metis replica_def)
  with assms show ?thesis by (simp add: replica_def)
qed

lemma replica_class:
  assumes "replica p q" "before q = {}" "ids \<noteq> []" "\<forall>i \<in> set ids. stored q i"
    and "\<forall>i \<in> set ids. \<forall>j \<in> set ids. IsCausallyEquivalent p i j"
  obtains r where "addCausalEquivalenceClassLocked q ids = Some (r, None)" "replica p r" "before r = {}"
    "stored r = stored q" "same_content q r" "pendingEdges r = pendingEdges q" "lamportCounter r = lamportCounter q"
    "\<forall>i \<in> set ids. \<forall>j \<in> set ids. IsCausallyEquivalent r i j" "extends q r"
proof -
  have q: "poset_ok q" using assms(1) by (simp add: replica_def)
  have same: "at_or_before q x y \<Longrightarrow> stored q x \<and> stored q y \<and> rep q x = rep q y" for x y
    using assms(2) by (simp add: at_or_before_iff)
  have "(x, y) \<notin> equated_pairs q ids" for x y
  proof
    assume "(x, y) \<in> equated_pairs q ids"
    then obtain i j where "i \<in> set ids" "at_or_before q x i" "j \<in> set ids" "at_or_before q j y"
      "\<not> (merges q ids x \<and> merges q ids y)" unfolding equated_pairs_def by blast
    with same [of x i] same [of j y] show False unfolding merges_def by metis
  qed
  then have "equated_pairs q ids = {}" by auto
  then have out: "equivalence_outcome q ids = None"
    using assms(2-4) by (auto simp: equivalence_outcome_def)
  obtain r where r: "addCausalEquivalenceClassLocked q ids = Some (r, None)" "classes_merged q ids r"
    using addCausalEquivalence_ok [OF q, of ids] out by metis
  note d = r(2) [unfolded classes_merged_def]
  have br: "before r = {}" using d assms(2) \<open>equated_pairs q ids = {}\<close> by simp
  have eqv: "IsCausallyEquivalent r i j \<longleftrightarrow> IsCausallyEquivalent q i j \<or> merges q ids i \<and> merges q ids j" for i j
    using d by (auto simp: IsCausallyEquivalent_iff merges_def)
  have sub: "IsCausallyEquivalent p i j" if "IsCausallyEquivalent r i j" for i j
  proof -
    have lift: "IsCausallyEquivalent q a b \<Longrightarrow> IsCausallyEquivalent p a b" for a b
      using assms(1) by (simp add: replica_def)
    have near: "\<exists>k \<in> set ids. IsCausallyEquivalent p i k" if "merges q ids i" for i
    proof -
      from that obtain k where "k \<in> set ids" "IsCausallyEquivalent q i k"
        using assms(4) unfolding merges_def IsCausallyEquivalent_iff by blast
      with lift show ?thesis by blast
    qed
    from that consider "IsCausallyEquivalent q i j" | "merges q ids i" "merges q ids j" unfolding eqv by blast
    then show ?thesis
    proof cases
      case 2
      then obtain k l where "k \<in> set ids" "IsCausallyEquivalent p i k" "l \<in> set ids" "IsCausallyEquivalent p j l"
        using near by blast
      moreover from this have "IsCausallyEquivalent p k l" using assms(5) by blast
      ultimately show ?thesis unfolding IsCausallyEquivalent_iff by metis
    qed (rule lift)
  qed
  have sc: "same_content q r" using d by (simp add: same_content_def)
  have "replica p r"
    by (rule replica_step [OF assms(1) _ _ sc _ sub]) (use d br in auto)
  moreover have "\<forall>i \<in> set ids. \<forall>j \<in> set ids. IsCausallyEquivalent r i j"
    using assms(4) by (auto simp: eqv merges_def)
  moreover have "extends q r" using d br assms(2) by (auto simp: extends_def eqv)
  ultimately show thesis using that [of r] r(1) br sc d by simp
qed

lemma conflicting_timings:
  assumes "replica p q" "conflicting q a b"
  shows "conflicting p a b"
proof -
  obtain e f where ef: "fmlookup (events q) a = Some e" "fmlookup (events q) b = Some f"
    using assms(2) by (auto simp: conflicting_def sharedTimingConflict_def split: option.splits)
  then obtain d g where "fmlookup (events p) a = Some d" "ev_timings d = ev_timings e"
    "fmlookup (events p) b = Some g" "ev_timings g = ev_timings f"
    using assms(1) by (meson replica_def)
  with ef assms(2) show ?thesis by (simp add: conflicting_def sharedTimingConflict_def)
qed

lemma replica_edge:
  assumes "poset_ok p" "replica p q" "(f, t) \<in> before p" "stored q f" "stored q t"
  obtains r where "addCausalLocked q f t = Some (r, None)" "replica p r" "stored r = stored q" "same_content q r"
    "pendingEdges r = pendingEdges q" "lamportCounter r = lamportCounter q" "(f, t) \<in> before r" "extends q r"
proof -
  note ok = poset_okD [OF assms(1)]
  have q: "poset_ok q" using assms(2) by (simp add: replica_def)
  have up: "at_or_before p x y" if "at_or_before q x y" for x y
  proof -
    have "stored p x" "stored p y" using that assms(2) by (simp_all add: at_or_before_iff replica_def)
    moreover have "rep p x = rep p y \<or> (x, y) \<in> before p"
      using that assms(2) unfolding at_or_before_iff replica_def IsCausallyEquivalent_iff by blast
    ultimately show ?thesis by (simp add: at_or_before_iff)
  qed
  have across: "(x, y) \<in> before p" if "at_or_before p x f" "at_or_before p t y" for x y
  proof -
    have "(rep p x, rep p f) \<in> (class_rel p)\<^sup>*" "(rep p f, rep p t) \<in> (class_rel p)\<^sup>+" "(rep p t, rep p y) \<in> (class_rel p)\<^sup>*"
      and "stored p x" "stored p y"
      using that assms(3) by (simp_all add: at_or_before_def before_def)
    then have "(rep p x, rep p y) \<in> (class_rel p)\<^sup>+"
      by (meson rtrancl_trancl_trancl trancl_rtrancl_trancl)
    then show ?thesis using \<open>stored p x\<close> \<open>stored p y\<close> by (simp add: before_def)
  qed
  have ft: "rep q f \<noteq> rep q t" "f \<noteq> t"
  proof -
    have "\<not> IsCausallyEquivalent p f t"
      using before_not_equivalent [OF ok(2) assms(3)] by (simp add: IsCausallyEquivalent_iff)
    then show "rep q f \<noteq> rep q t" using assms(2,4,5) unfolding replica_def IsCausallyEquivalent_iff by blast
    then show "f \<noteq> t" by auto
  qed
  have acyc: "(t, f) \<notin> before q"
  proof
    assume "(t, f) \<in> before q"
    then have "(t, f) \<in> before p" using assms(2) by (auto simp: replica_def)
    then show False using before_trans [OF assms(3)] before_irrefl [OF ok(2)] by blast
  qed
  have "\<not> conflicting q a b" if "at_or_before q a f" "at_or_before q t b" for a b
    using conflicting_timings [OF assms(2), of a b] across [OF up [OF that(1)] up [OF that(2)]] ok(4)
    unfolding timing_ok_def conflicting_def by blast
  then have out: "add_causal_outcome q f t = None"
    using ft acyc assms(4,5) unfolding add_causal_outcome_def by (simp del: split_paired_Ex) blast
  obtain r where r: "addCausalLocked q f t = Some (r, None)" "causal_added q f t r"
    using addCausalLocked_ok [OF q, of f t] out by metis
  note d = r(2) [unfolded causal_added_def] and b = causal_added_before [OF r(2) assms(4,5)]
  have sc: "same_content q r" using d by (simp add: same_content_def)
  have "before r \<subseteq> before p"
  proof (rule subrelI)
    fix x y
    assume "(x, y) \<in> before r"
    then have "(x, y) \<in> before q \<or> at_or_before q x f \<and> at_or_before q t y" by (simp add: b(3))
    then show "(x, y) \<in> before p" using assms(2) across [OF up up] by (auto simp: replica_def)
  qed
  moreover have dr: "poset_ok r" "stored r = stored q" "rep r = rep q" "pendingEdges r = pendingEdges q"
    "lamportCounter r = lamportCounter q" using d by simp_all
  moreover from dr have eqv: "IsCausallyEquivalent r = IsCausallyEquivalent q"
    by (simp add: fun_eq_iff IsCausallyEquivalent_iff)
  ultimately have "replica p r"
    using assms(2) by (intro replica_step [OF assms(2) _ _ sc]) (simp_all add: replica_def)
  moreover have "extends q r" using dr eqv b(1) by (simp add: extends_def)
  ultimately show thesis by (intro that [OF r(1)]) (simp_all add: dr b(2) sc)
qed

text \<open>A replica with all occurrences, classes and edges has the order of the original.\<close>

lemma replica_complete:
  assumes "poset_ok p" "replica p q" "stored q = stored p"
    and "\<And>i j. IsCausallyEquivalent p i j \<Longrightarrow> IsCausallyEquivalent q i j"
    and "\<And>a b. (a, b) \<in> class_rel p \<Longrightarrow> (a, b) \<in> before q"
  shows "before q = before p" "IsCausallyEquivalent q = IsCausallyEquivalent p"
proof -
  note ok = poset_okD [OF assms(1)]
  have oq: "edges_ok q" "class_ok q" using assms(2) by (simp_all add: replica_def poset_ok_def)
  show eqv: "IsCausallyEquivalent q = IsCausallyEquivalent p"
    using assms(2,4) by (auto simp: replica_def fun_eq_iff)
  have path: "(x, y) \<in> (class_rel p)\<^sup>+ \<Longrightarrow> (x, y) \<in> before q" for x y
    by (induction rule: trancl_induct) (use assms(5) before_trans in blast)+
  have "(a, b) \<in> before q" if ab: "(a, b) \<in> before p" for a b
  proof -
    have st: "stored p a" "stored p b" using ab by (auto simp: before_def)
    have "(rep p a, rep p b) \<in> (class_rel p)\<^sup>+" using ab by (simp add: before_def)
    then have "(rep p a, rep p b) \<in> before q" by (rule path)
    moreover have "IsCausallyEquivalent q a (rep p a)" "IsCausallyEquivalent q b (rep p b)"
      unfolding eqv using st by (simp_all add: IsCausallyEquivalent_iff rep_stored [OF ok(1)] rep_rep [OF ok(1)])
    ultimately show ?thesis by (auto simp: before_def IsCausallyEquivalent_iff)
  qed
  then show "before q = before p" using assms(2) by (auto simp: replica_def)
qed

end
