(* ===== verification/Snapshot_Merge.thy ===== *)
theory Snapshot_Merge
  imports Snapshot_Model Poset_Replica
begin

text \<open>
  \<open>MergeSnapshot\<close> (\<open>merge.go\<close>): events, then causal-equivalence classes, then edges, each section sorted
  and applied item by item, with the issues collected on the way.

  The three loops of the source have one shape: an item is added, skipped or (an edge) buffered, with
  at most one issue at its position.  \<open>runSection\<close> is that loop, and the locale \<open>merge_section\<close> is its
  contract: a step that always returns, keeps an invariant and only moves the state forward.
\<close>

section \<open>Sections\<close>

datatype merge_outcome = Added | Skipped | Pending

record merge_issue =
  is_section :: string
  is_index :: int
  is_object :: string
  is_cause :: go_error

record merge_result =
  mr_eventsAdded :: nat
  mr_eventsSkipped :: nat
  mr_equivalencesAdded :: nat
  mr_equivalencesSkipped :: nat
  mr_edgesAdded :: nat
  mr_edgesSkipped :: nat
  mr_edgesPending :: nat

fun runSection :: "string \<Rightarrow> ('x \<Rightarrow> string) \<Rightarrow> ('s \<Rightarrow> 'x \<Rightarrow> ('s \<times> merge_outcome \<times> go_error option) option)
    \<Rightarrow> int \<Rightarrow> 'x list \<Rightarrow> 's \<Rightarrow> ('s \<times> merge_outcome list \<times> merge_issue list) option" where
  "runSection name object step position [] s = Some (s, [], [])"
| "runSection name object step position (x # xs) s =
     do {
       (s, outcome, cause) \<leftarrow> step s x;
       (s, outcomes, issues) \<leftarrow> runSection name object step (position + 1) xs s;
       Some (s, outcome # outcomes, (case cause of None \<Rightarrow> []
         | Some c \<Rightarrow> [\<lparr>is_section = name, is_index = position, is_object = object x, is_cause = c\<rparr>]) @ issues)
     }"

definition newSnapshotMergeError :: "merge_issue list \<Rightarrow> merge_issue list option" where
  \<comment> \<open>two issues never agree on section, object and index, so the text of the cause decides nothing\<close>
  "newSnapshotMergeError issues =
     (if issues = [] then None
      else Some (sort_key (\<lambda>issue. (is_section issue, is_object issue, is_index issue)) issues))"

abbreviation NUL :: string where
  "NUL \<equiv> [CHR 0x00]"

section \<open>Events\<close>

definition mergeEvent :: "(string \<Rightarrow> int option) \<Rightarrow> (string \<Rightarrow> nat) \<Rightarrow> poset \<times> string list \<Rightarrow> event_export
    \<Rightarrow> ((poset \<times> string list) \<times> merge_outcome \<times> go_error option) option" where
  \<comment> \<open>the body of the event loop; the second component is \<open>reportedDuplicate\<close>\<close>
  "mergeEvent parseTime counts st ee = (case st of (p, reported) \<Rightarrow> Some (
     if ex_id ee = '''' then (st, Skipped, Some (ErrOther ''event ID is empty''))
     else if counts (ex_id ee) > 1 then
       (if ex_id ee \<notin> set reported
        then ((p, ex_id ee # reported), Skipped, Some (ErrOther ''event ID occurs several times in one snapshot''))
        else (st, Skipped, None))
     else case eventFromSnapshotExport parseTime ee of Inl err \<Rightarrow> (st, Skipped, Some err)
     | Inr event \<Rightarrow> (case fmlookup (events p) (ex_id ee) of
         Some existing \<Rightarrow> (st, Skipped, snapshotEventConflict existing event)
       | None \<Rightarrow> (case mergeEventLocked p (Some event) of
           (p, Some err) \<Rightarrow> ((p, reported), Skipped, Some err)
         | (p, None) \<Rightarrow> ((p, reported), Added, None)))))"

section \<open>Causal equivalences\<close>

fun memberProblem :: "poset \<Rightarrow> string list \<Rightarrow> string option \<Rightarrow> string list \<Rightarrow> go_error option" where
  \<comment> \<open>the member loop, with the members of earlier classes and the previous member\<close>
  "memberProblem p seen previous [] = None"
| "memberProblem p seen previous (member # members) =
     (if member = '''' \<or> \<not> ValidString member then Some (ErrOther ''member is empty or not valid UTF-8'')
      else if previous = Some member then Some (ErrOther ''event occurs more than once in one class'')
      else if member \<in> set seen then Some (ErrOther ''event occurs in multiple classes'')
      else if \<not> stored p member then Some (ErrOther ''event is absent'')
      else memberProblem p seen (Some member) members)"

definition mergeEquivalence :: "poset \<times> string list \<times> string list \<Rightarrow> string list
    \<Rightarrow> ((poset \<times> string list \<times> string list) \<times> merge_outcome \<times> go_error option) option" where
  \<comment> \<open>the body of the equivalence loop; the state carries \<open>seenEquivalentMembers\<close> and \<open>seenEquivalences\<close>\<close>
  "mergeEquivalence st members = (case st of (p, seenMembers, seenClasses) \<Rightarrow>
     if length members < 2 then Some (st, Skipped, Some (ErrOther ''class must contain at least two event IDs''))
     else
       let problem = memberProblem p seenMembers None members; key = strings_join NUL members
       in if key \<in> set seenClasses then Some (st, Skipped, problem)
          else if problem \<noteq> None then Some ((p, seenMembers, key # seenClasses), Skipped, problem)
          else if list_all (\<lambda>member. rep p member = rep p (hd members)) (tl members)
          then Some ((p, members @ seenMembers, key # seenClasses), Skipped, None)
          else do {
            (p, err) \<leftarrow> addCausalEquivalenceClassLocked p members;
            Some ((p, members @ seenMembers, key # seenClasses), if err = None then Added else Skipped, err)
          })"

section \<open>Edges\<close>

definition mergeEdge :: "poset \<times> string list \<Rightarrow> string list
    \<Rightarrow> ((poset \<times> string list) \<times> merge_outcome \<times> go_error option) option" where
  \<comment> \<open>the body of the edge loop; the second component is \<open>seenEdges\<close>\<close>
  "mergeEdge st edge = (case st of (p, seenEdges) \<Rightarrow>
     if length edge \<noteq> 2 then Some (st, Skipped, Some (ErrOther ''causal edge must contain exactly two event IDs''))
     else
       let from = edge ! 0; to = edge ! 1; key = snapshotEdgeKey edge
       in if from = '''' \<or> to = '''' then Some (st, Skipped, Some (ErrOther ''causal edge endpoint is empty''))
          else if \<not> ValidString from \<or> \<not> ValidString to
          then Some (st, Skipped, Some (ErrOther ''causal edge endpoint is not valid UTF-8''))
          else if from = to then Some (st, Skipped, Some ErrSelfCausal)
          else if key \<in> set seenEdges then Some (st, Skipped, None)
          else if \<not> stored p from \<or> \<not> stored p to then
            (if pendingEdgeExists (pendingEdges p) from to then Some ((p, key # seenEdges), Skipped, None)
             else Some ((p\<lparr>pendingEdges := pendingEdges p @ [\<lparr>pe_from = from, pe_to = to\<rparr>]\<rparr>, key # seenEdges),
                    Pending, None))
          else if rep p from = rep p to then Some ((p, key # seenEdges), Skipped, Some ErrSelfCausal)
          else if rep p to |\<in>| edges_of p (rep p from) then Some ((p, key # seenEdges), Skipped, None)
          else do {
            (p, err) \<leftarrow> addCausalLocked p from to;
            Some ((p, key # seenEdges), if err = None then Added else Skipped, err)
          })"

section \<open>The whole merge\<close>

definition merge_counts :: "merge_outcome list \<Rightarrow> merge_outcome list \<Rightarrow> merge_outcome list \<Rightarrow> merge_result" where
  "merge_counts evs classes edges =
     \<lparr>mr_eventsAdded = count_list evs Added, mr_eventsSkipped = count_list evs Skipped,
      mr_equivalencesAdded = count_list classes Added, mr_equivalencesSkipped = count_list classes Skipped,
      mr_edgesAdded = count_list edges Added, mr_edgesSkipped = count_list edges Skipped,
      mr_edgesPending = count_list edges Pending\<rparr>"

definition MergeSnapshot :: "(string \<Rightarrow> int option) \<Rightarrow> poset \<Rightarrow> snapshot option
    \<Rightarrow> (poset \<times> (go_error + merge_result \<times> merge_issue list option)) option" where
  \<comment> \<open>each sort is stable, so the original index breaks ties\<close>
  "MergeSnapshot parseTime p snap = (case snap of
      None \<Rightarrow> Some (p, Inl ErrInvalidSnapshotMerge)
    | Some snap \<Rightarrow>
      let sortedEvents = sort_key (\<lambda>ee. (ex_lamport ee, ex_id ee)) (sn_events snap);
          counts = count_list (map ex_id (sn_events snap));
          maxLamport = fold max (map ex_lamport (sn_events snap)) 0;
          highWater = (if sn_highWater snap < maxLamport
            then [\<lparr>is_section = ''snapshot'', is_index = -1, is_object = ''high_water'',
                   is_cause = ErrOther ''value is below maximum event Lamport''\<rparr>] else []);
          sortedEquivalences = sort_key (strings_join NUL) (map sort_ids (sn_causalEquivalences snap));
          sortedEdges = sort_key snapshotEdgeKey (sn_causalEdges snap)
      in do {
        ((p, _), evs, eventIssues) \<leftarrow> runSection ''event'' ex_id (mergeEvent parseTime counts) 0 sortedEvents (p, []);
        ((p, _), classes, classIssues) \<leftarrow>
          runSection ''causal-equivalence'' (strings_join '' =c '') mergeEquivalence 0 sortedEquivalences (p, [], []);
        ((p, _), edges, edgeIssues) \<leftarrow> runSection ''edge'' (strings_join '' -> '') mergeEdge 0 sortedEdges (p, []);
        Some (if sn_highWater snap > lamportCounter p then p\<lparr>lamportCounter := sn_highWater snap\<rparr> else p,
          Inr (merge_counts evs classes edges,
            newSnapshotMergeError (highWater @ eventIssues @ classIssues @ edgeIssues)))
      })"

section \<open>The contract of a section\<close>

locale merge_section =
  fixes step :: "'s \<Rightarrow> 'x \<Rightarrow> ('s \<times> merge_outcome \<times> go_error option) option"
    and good :: "'s \<Rightarrow> bool" and later :: "'s \<Rightarrow> 's \<Rightarrow> bool" and allowed :: "merge_outcome set"
    and plain :: "'x \<Rightarrow> bool" and silent :: "'s \<Rightarrow> bool" and holds :: "'s \<Rightarrow> 'x \<Rightarrow> bool"
  assumes later_refl: "later s s" and later_trans: "later s t \<Longrightarrow> later t u \<Longrightarrow> later s u"
    and step_returns: "good s \<Longrightarrow> \<exists>t out cause. step s x = Some (t, out, cause) \<and> good t \<and> later s t \<and> out \<in> allowed"
    and step_silent: "good s \<Longrightarrow> silent s \<Longrightarrow> plain x \<Longrightarrow> step s x = Some (t, out, None) \<Longrightarrow> silent t \<and> holds t x"
    and holds_later: "holds s x \<Longrightarrow> later s t \<Longrightarrow> holds t x"
begin

lemma run_ok:
  "good s \<Longrightarrow> \<exists>t outs issues. runSection name object step position xs s = Some (t, outs, issues)
     \<and> good t \<and> later s t \<and> length outs = length xs \<and> set outs \<subseteq> allowed
     \<and> (issues = [] \<longrightarrow> silent s \<longrightarrow> (\<forall>x \<in> set xs. plain x) \<longrightarrow> silent t \<and> (\<forall>x \<in> set xs. holds t x))"
proof (induction xs arbitrary: s position)
  case (Cons x xs)
  obtain u out cause where u: "step s x = Some (u, out, cause)" "good u" "later s u" "out \<in> allowed"
    using step_returns [OF Cons.prems] by blast
  obtain t outs issues where t: "runSection name object step (position + 1) xs u = Some (t, outs, issues)"
    "good t" "later u t" "length outs = length xs" "set outs \<subseteq> allowed"
    "issues = [] \<longrightarrow> silent u \<longrightarrow> (\<forall>x \<in> set xs. plain x) \<longrightarrow> silent t \<and> (\<forall>x \<in> set xs. holds t x)"
    using Cons.IH [OF u(2)] by blast
  have "silent t \<and> (\<forall>x \<in> set (x # xs). holds t x)"
    if "issues = []" "cause = None" "silent s" "\<forall>x \<in> set (x # xs). plain x"
    using step_silent [OF Cons.prems that(3) _ u(1) [unfolded that(2)]] that t(6) holds_later [OF _ t(3)] by auto
  with u t later_trans [OF u(3) t(3)] show ?case by (auto split: option.splits)
qed (simp add: later_refl)

end

section \<open>The three sections as providers\<close>

lemma lam_safe_counter [simp]: "lam_safe (p\<lparr>lamportCounter := n\<rparr>) = lam_safe p"
proof -
  have "lam (p\<lparr>lamportCounter := n\<rparr>) = lam p" by (simp add: lam_def fun_eq_iff)
  then show ?thesis by (simp add: lam_safe_def)
qed

lemma lam_safe_pending [simp]: "lam_safe (p\<lparr>pendingEdges := n\<rparr>) = lam_safe p"
proof -
  have "lam (p\<lparr>pendingEdges := n\<rparr>) = lam p" by (simp add: lam_def fun_eq_iff)
  then show ?thesis by (simp add: lam_safe_def poset_ok_pending)
qed

lemma store_ok_updates [simp]:
  "store_ok (p\<lparr>lamportCounter := n\<rparr>) = store_ok p" "store_ok (p\<lparr>pendingEdges := es\<rparr>) = store_ok p"
  by (simp_all add: store_ok_def poset_ok_pending)

lemma extends_updates [simp]:
  "extends p (q\<lparr>lamportCounter := n\<rparr>) = extends p q" "extends p (q\<lparr>pendingEdges := es\<rparr>) = extends p q"
  by (simp_all add: extends_def IsCausallyEquivalent_iff poset_ok_pending)

lemma mergeEventLocked_step:
  assumes "store_ok p" "ev_id e \<noteq> ''''" "\<not> stored p (ev_id e)" "canonical_timings (ev_timings e)"
  defines "q \<equiv> (insertOccurrence p (Freeze e))
      \<lparr>lamportCounter := max (lamportCounter (insertOccurrence p (Freeze e))) (ev_lamport e)\<rparr>"
  shows "mergeEventLocked p (Some e) = (q, None)" "store_ok q" "extends p q"
    "events q = fmupd (ev_id e) (Freeze e) (events p)" "before q = before p"
    "rep q = (\<lambda>i. if i = ev_id e then ev_id e else rep p i)" "pendingEdges q = pendingEdges p"
proof -
  note p = store_okD [OF assms(1)]
  note ok = poset_okD [OF p(1)]
  have same: "e\<lparr>ev_timings := ev_timings e\<rparr> = e" by simp
  show "mergeEventLocked p (Some e) = (q, None)"
    using assms(3) by (simp add: mergeEventLocked_cases Canonicalize_fixpoint [OF assms(4)] same q_def Let_def)
  let ?e = "Freeze e"
  have pre: "\<not> stored p (ev_id ?e)" "ev_id ?e \<noteq> ''''" "canonical_timings (ev_timings ?e)" "ev_immutable ?e"
    using assms(2-4) by simp_all
  note ins = insertOccurrence_ok [OF p(1) pre]
  note f = insertOccurrence_fields [OF ok(1), of ?e]
  show ev: "events q = fmupd (ev_id e) (Freeze e) (events p)" and "pendingEdges q = pendingEdges p"
    by (simp_all add: q_def f)
  show r: "rep q = (\<lambda>i. if i = ev_id e then ev_id e else rep p i)"
    using insertOccurrence_rep [OF ok(1) pre(2)] by (auto simp: q_def)
  show b: "before q = before p" using ins(2) by (simp add: q_def)
  have st: "stored q i \<longleftrightarrow> i = ev_id e \<or> stored p i" for i by (simp add: ev)
  have l: "lam p i \<le> lam q i" for i using assms(3) by (auto simp: lam_def ev map_lookup_absent)
  have "lam_safe q"
    by (rule lam_safe_step [OF p(2) _ l]) (use st ins(3) in \<open>auto simp: q_def\<close>)
  then show "store_ok q" using ins(1) by (simp add: store_ok_def q_def)
  show "extends p q" using st b assms(3) by (auto simp: extends_def IsCausallyEquivalent_iff r)
qed

lemma eventFromSnapshotExport_Inr:
  assumes "eventFromSnapshotExport parseTime ee = Inr e"
  shows "ev_id e = ex_id ee" "ev_name e = ex_name ee" "ev_source e = ex_source ee" "ev_lamport e = ex_lamport ee"
    "CanonicalizeParams (ex_params ee) = Inr (ev_params e)" "CanonicalizeEventTimings (ex_timings ee) = Inr (ev_timings e)"
    "parseTime (ex_wallTime ee) = Some (cs_wall (ev_clock e))" "cs_vector (ev_clock e) = ex_vectorClock ee"
    "canonical_timings (ev_timings e)"
  using assms Canonicalize_canonical
  by (auto simp: eventFromSnapshotExport_def ev_lamport_def Let_def split: if_splits option.splits sum.splits)

text \<open>The contents of events survive every step, but for the Lamport positions.\<close>

definition keeps :: "poset \<Rightarrow> poset \<Rightarrow> bool" where
  "keeps p q \<longleftrightarrow> (\<forall>i e. fmlookup (events p) i = Some e \<longrightarrow>
     (\<exists>f. fmlookup (events q) i = Some f \<and> set_lamport 0 f = set_lamport 0 e))"

lemma keeps_refl [simp]: "keeps p p"
  by (simp add: keeps_def)

lemma keeps_trans: "keeps p q \<Longrightarrow> keeps q r \<Longrightarrow> keeps p r"
  unfolding keeps_def by metis

lemma same_content_keeps: "same_content p q \<Longrightarrow> keeps p q"
proof -
  assume c: "same_content p q"
  have "\<exists>f. fmlookup (events q) i = Some f \<and> set_lamport 0 f = set_lamport 0 e" if "fmlookup (events p) i = Some e" for i e
    using c [unfolded same_content_def, rule_format, of i] that by (cases "fmlookup (events q) i") auto
  then show ?thesis by (simp add: keeps_def)
qed

lemma keeps_counter [simp]: "keeps p (q\<lparr>lamportCounter := n\<rparr>) = keeps p q" "keeps p (q\<lparr>pendingEdges := es\<rparr>) = keeps p q"
  by (simp_all add: keeps_def)

lemma same_content_counter [simp]: "same_content p (q\<lparr>lamportCounter := n\<rparr>) = same_content p q"
    "same_content p (q\<lparr>pendingEdges := es\<rparr>) = same_content p q"
  by (simp_all add: same_content_def)

definition agrees :: "(string \<Rightarrow> int option) \<Rightarrow> event_export \<Rightarrow> event \<Rightarrow> bool" where
  \<comment> \<open>an event has the exported name, source, parameters, intervals and time, up to their canonical forms\<close>
  "agrees parseTime ee f \<longleftrightarrow> ev_name f = ex_name ee \<and> ev_source f = ex_source ee
     \<and> (\<exists>ps. CanonicalizeParams (ex_params ee) = Inr ps \<and> CanonicalizeParams (ev_params f) = Inr ps)
     \<and> (\<exists>ts. CanonicalizeEventTimings (ex_timings ee) = Inr ts \<and> CanonicalizeEventTimings (ev_timings f) = Inr ts)
     \<and> parseTime (ex_wallTime ee) = Some (cs_wall (ev_clock f))"

definition taken_from :: "(string \<Rightarrow> int option) \<Rightarrow> event_export \<Rightarrow> event \<Rightarrow> bool" where
  \<comment> \<open>an event is the exported one in canonical form, with its one role\<close>
  "taken_from parseTime ee f \<longleftrightarrow> ev_id f = ex_id ee \<and> ev_name f = ex_name ee \<and> ev_source f = ex_source ee
     \<and> CanonicalizeParams (ex_params ee) = Inr (ev_params f) \<and> CanonicalizeEventTimings (ex_timings ee) = Inr (ev_timings f)
     \<and> parseTime (ex_wallTime ee) = Some (cs_wall (ev_clock f)) \<and> cs_vector (ev_clock f) = ex_vectorClock ee
     \<and> ev_observations f = [\<lparr>ob_name = ex_name ee, ob_source = ex_source ee, ob_params = ev_params f\<rparr>]"

lemma taken_agrees: "taken_from parseTime ee f \<Longrightarrow> agrees parseTime ee f"
proof -
  assume t: "taken_from parseTime ee f"
  then have "CanonicalizeParams (ev_params f) = Inr (ev_params f)" "canonical_timings (ev_timings f)"
    using CanonicalizeParams_idem Canonicalize_canonical by (auto simp: taken_from_def)
  then show ?thesis using t Canonicalize_fixpoint by (auto simp: agrees_def taken_from_def)
qed

lemma set_lamport_fields:
  assumes "set_lamport 0 e = set_lamport 0 f"
  shows "ev_id e = ev_id f" "ev_name e = ev_name f" "ev_source e = ev_source f" "ev_params e = ev_params f"
    "ev_timings e = ev_timings f" "ev_observations e = ev_observations f"
    "cs_wall (ev_clock e) = cs_wall (ev_clock f)" "cs_vector (ev_clock e) = cs_vector (ev_clock f)"
  using assms by (metis set_lamport_simps)+

lemma agrees_lamport: "agrees parseTime ee e \<Longrightarrow> set_lamport 0 f = set_lamport 0 e \<Longrightarrow> agrees parseTime ee f"
  using set_lamport_fields [of f e] by (simp add: agrees_def)

lemma taken_lamport: "taken_from parseTime ee e \<Longrightarrow> set_lamport 0 f = set_lamport 0 e \<Longrightarrow> taken_from parseTime ee f"
  using set_lamport_fields [of f e] by (simp add: taken_from_def)

lemma import_taken: "eventFromSnapshotExport parseTime ee = Inr e \<Longrightarrow> taken_from parseTime ee (Freeze e)"
proof -
  assume e: "eventFromSnapshotExport parseTime ee = Inr e"
  then have "ev_observations e = [\<lparr>ob_name = ex_name ee, ob_source = ex_source ee, ob_params = ev_params e\<rparr>]"
    by (auto simp: eventFromSnapshotExport_def Let_def split: if_splits option.splits sum.splits)
  then show ?thesis using eventFromSnapshotExport_Inr [OF e] by (simp add: taken_from_def)
qed

lemma no_conflict_agrees:
  assumes "eventFromSnapshotExport parseTime ee = Inr e" "snapshotEventConflict existing e = None"
  shows "agrees parseTime ee existing"
  using assms(2) eventFromSnapshotExport_Inr [OF assms(1)]
  by (auto simp: snapshotEventConflict_def agrees_def split: if_splits sum.splits)

definition import_holds :: "(string \<Rightarrow> int option) \<Rightarrow> poset \<times> string list \<Rightarrow> event_export \<Rightarrow> bool" where
  "import_holds parseTime s ee \<longleftrightarrow> (\<exists>f. fmlookup (events (fst s)) (ex_id ee) = Some f \<and> agrees parseTime ee f)"

definition import_later :: "poset \<times> string list \<Rightarrow> poset \<times> string list \<Rightarrow> bool" where
  "import_later s t \<longleftrightarrow> extends (fst s) (fst t) \<and> keeps (fst s) (fst t)"

lemma mergeEvent_cases:
  assumes "store_ok p"
  shows "\<exists>q reported' out cause. mergeEvent parseTime counts (p, reported) ee = Some ((q, reported'), out, cause)
    \<and> store_ok q \<and> import_later (p, reported) (q, reported') \<and> out \<in> {Added, Skipped}
    \<and> (reported = [] \<and> cause = None \<longrightarrow> reported' = [] \<and> import_holds parseTime (q, reported') ee)
    \<and> (\<forall>i f. fmlookup (events q) i = Some f \<longrightarrow> fmlookup (events p) i = Some f \<or> taken_from parseTime ee f)"
proof (cases "ex_id ee = '''' \<or> counts (ex_id ee) > 1 \<or> isl (eventFromSnapshotExport parseTime ee)")
  case True
  then show ?thesis using assms by (cases "eventFromSnapshotExport parseTime ee") (auto simp: mergeEvent_def import_later_def)
next
  case False
  then obtain e where e: "eventFromSnapshotExport parseTime ee = Inr e" by (cases "eventFromSnapshotExport parseTime ee") auto
  note i = eventFromSnapshotExport_Inr [OF e]
  show ?thesis
  proof (cases "fmlookup (events p) (ex_id ee)")
    case (Some existing)
    then have "mergeEvent parseTime counts (p, reported) ee = Some ((p, reported), Skipped, snapshotEventConflict existing e)"
      using False e by (simp add: mergeEvent_def)
    moreover have "import_holds parseTime (p, reported) ee" if "snapshotEventConflict existing e = None"
      using Some no_conflict_agrees [OF e that] by (simp add: import_holds_def)
    ultimately show ?thesis using assms by (auto simp: import_later_def import_holds_def)
  next
    case None
    define q where "q = (insertOccurrence p (Freeze e))
      \<lparr>lamportCounter := max (lamportCounter (insertOccurrence p (Freeze e))) (ev_lamport e)\<rparr>"
    have pre: "ev_id e \<noteq> ''''" "\<not> stored p (ev_id e)" using False None i(1) by (auto simp: map_has_iff)
    note m = mergeEventLocked_step [OF assms pre i(9), folded q_def]
    have "mergeEvent parseTime counts (p, reported) ee = Some ((q, reported), Added, None)"
      using False e None m(1) by (simp add: mergeEvent_def)
    moreover have "keeps p q" using None i(1) by (auto simp: keeps_def m(4))
    moreover have "import_holds parseTime (q, reported) ee"
      using taken_agrees [OF import_taken [OF e]] i(1) by (simp add: import_holds_def m(4))
    moreover have "fmlookup (events p) j = Some f \<or> taken_from parseTime ee f" if "fmlookup (events q) j = Some f" for j f
      using that import_taken [OF e] by (auto simp: m(4) split: if_splits)
    ultimately show ?thesis using m(2,3) by (auto simp: import_later_def import_holds_def)
  qed
qed

interpretation event_section: merge_section "mergeEvent parseTime counts" "store_ok \<circ> fst"
  import_later "{Added, Skipped}" "\<lambda>_. True" "\<lambda>s. snd s = []" "import_holds parseTime"
proof unfold_locales
  fix s t u :: "poset \<times> string list" and ee :: event_export and out
  show "import_later s s" by (simp add: import_later_def)
  show "import_later s t \<Longrightarrow> import_later t u \<Longrightarrow> import_later s u"
    using extends_trans keeps_trans unfolding import_later_def by blast
  show "import_holds parseTime s ee \<Longrightarrow> import_later s t \<Longrightarrow> import_holds parseTime t ee"
    unfolding import_holds_def import_later_def keeps_def using agrees_lamport by metis
  obtain p reported where s: "s = (p, reported)" by (cases s)
  assume "(store_ok \<circ> fst) s"
  then have p: "store_ok p" by (simp add: s)
  note run = mergeEvent_cases [OF p, of parseTime counts reported ee]
  show "\<exists>t out cause. mergeEvent parseTime counts s ee = Some (t, out, cause) \<and> (store_ok \<circ> fst) t
      \<and> import_later s t \<and> out \<in> {Added, Skipped}"
    using run by (auto simp: s)
  assume "snd s = []" "mergeEvent parseTime counts s ee = Some (t, out, None)"
  then show "snd t = [] \<and> import_holds parseTime t ee" using run by (auto simp: s)
qed

text \<open>Where the events come from.\<close>

lemma event_section_origin:
  "runSection name object (mergeEvent parseTime counts) position xs s = Some (t, outs, issues) \<Longrightarrow> store_ok (fst s) \<Longrightarrow>
     fmlookup (events (fst t)) i = Some f \<Longrightarrow> fmlookup (events (fst s)) i = Some f \<or> (\<exists>ee \<in> set xs. taken_from parseTime ee f)"
proof (induction xs arbitrary: s position outs issues)
  case (Cons x xs)
  obtain p reported where s: "s = (p, reported)" by (cases s)
  have p: "store_ok p" using Cons.prems(2) by (simp add: s)
  obtain q reported' out cause where step: "mergeEvent parseTime counts (p, reported) x = Some ((q, reported'), out, cause)"
      "store_ok q" "\<forall>i f. fmlookup (events q) i = Some f \<longrightarrow> fmlookup (events p) i = Some f \<or> taken_from parseTime x f"
    using mergeEvent_cases [OF p, of parseTime counts reported x] by blast
  from Cons.prems(1) obtain outs' issues' where
    "runSection name object (mergeEvent parseTime counts) (position + 1) xs (q, reported') = Some (t, outs', issues')"
    by (auto simp: s step(1) bind_eq_Some_conv)
  from Cons.IH [OF this _ Cons.prems(3)] step(2,3) show ?case by (auto simp: s)
qed simp

lemma addEquivalenceClass_step:
  assumes "store_ok p"
  shows "\<exists>q. addCausalEquivalenceClassLocked p ids = Some (q, equivalence_outcome p ids) \<and> store_ok q \<and> extends p q
     \<and> stored q = stored p \<and> pendingEdges q = pendingEdges p \<and> same_content p q
     \<and> (equivalence_outcome p ids = None \<longrightarrow> (\<forall>i \<in> set ids. \<forall>j \<in> set ids. IsCausallyEquivalent q i j))"
proof -
  obtain q where q: "addCausalEquivalenceClassLocked p ids = Some (q, equivalence_outcome p ids)"
    "equivalence_outcome p ids \<noteq> None \<longrightarrow> q = p" "equivalence_outcome p ids = None \<longrightarrow> classes_merged p ids q"
    using addCausalEquivalence_ok [OF store_okD(1) [OF assms]] by metis
  show ?thesis
  proof (cases "equivalence_outcome p ids")
    case None
    then have cm: "classes_merged p ids q" using q(3) by simp
    note d = cm [unfolded classes_merged_def]
    from None have st: "\<forall>i \<in> set ids. stored p i" by (auto simp: equivalence_outcome_def split: if_splits)
    have "lam_safe q"
      by (rule lam_safe_step [OF store_okD(2) [OF assms]]) (use d in auto)
    moreover have "extends p q" using d by (auto simp: extends_def IsCausallyEquivalent_iff)
    moreover have "IsCausallyEquivalent q i j" if "i \<in> set ids" "j \<in> set ids" for i j
      using d st that by (auto simp: IsCausallyEquivalent_iff merges_def)
    moreover have "same_content p q" using d by (simp add: same_content_def)
    ultimately show ?thesis using d q(1) by (auto simp: store_ok_def)
  qed (use q assms in simp)
qed

lemma nul_concat_inj:
  "\<forall>x \<in> set xs. c \<notin> set x \<Longrightarrow> \<forall>y \<in> set ys. c \<notin> set y \<Longrightarrow>
     concat (map ((#) c) xs) = concat (map ((#) c) ys) \<Longrightarrow> xs = ys"
proof (induction xs arbitrary: ys)
  case (Cons x xs)
  then obtain y ys' where ys: "ys = y # ys'" by (cases ys) auto
  have split: "takeWhile (\<lambda>d. d \<noteq> c) (z @ concat (map ((#) c) zs)) = z"
    "dropWhile (\<lambda>d. d \<noteq> c) (z @ concat (map ((#) c) zs)) = concat (map ((#) c) zs)" if "c \<notin> set z" for z zs
  proof -
    have "\<forall>d \<in> set z. d \<noteq> c" using that by metis
    then show "takeWhile (\<lambda>d. d \<noteq> c) (z @ concat (map ((#) c) zs)) = z"
      "dropWhile (\<lambda>d. d \<noteq> c) (z @ concat (map ((#) c) zs)) = concat (map ((#) c) zs)"
      by (cases zs; simp add: takeWhile_append2 dropWhile_append2)+
  qed
  have eq: "x @ concat (map ((#) c) xs) = y @ concat (map ((#) c) ys')" using Cons.prems(3) ys by simp
  have c: "c \<notin> set x" "c \<notin> set y" using Cons.prems(1,2) ys by simp_all
  have "x = y" using split(1) [OF c(1), of xs] split(1) [OF c(2), of ys'] eq by simp
  moreover have "xs = ys'"
    by (rule Cons.IH) (use Cons.prems(1,2) ys split(2) [OF c(1), of xs] split(2) [OF c(2), of ys'] eq in simp_all)
  ultimately show ?case by (simp add: ys)
qed (auto simp: Cons_eq_append_conv split: list.splits dest: sym)

definition nul_free :: "string list \<Rightarrow> bool" where
  "nul_free parts \<longleftrightarrow> (\<forall>part \<in> set parts. CHR 0x00 \<notin> set part)"

text \<open>Joining with a NUL byte separates lists of texts without one.\<close>

lemma strings_join_inj:
  assumes "nul_free a" "nul_free b" "a \<noteq> []" "b \<noteq> []" "strings_join NUL a = strings_join NUL b"
  shows "a = b"
proof -
  obtain x xs y ys where ab: "a = x # xs" "b = y # ys" using assms(3,4) by (cases a; cases b) auto
  have "concat (map ((#) (CHR 0x00)) a) = concat (map ((#) (CHR 0x00)) b)"
    using assms(5) map_cong [OF refl, of _ "(@) NUL" "(#) (CHR 0x00)"] by (simp add: strings_join_def ab)
  then show ?thesis
    using nul_concat_inj [of a "CHR 0x00" b] assms(1,2) by (simp add: nul_free_def)
qed

lemma memberProblem_None:
  "memberProblem p seen previous ms = None \<Longrightarrow> \<forall>m \<in> set ms. m \<noteq> '''' \<and> ValidString m \<and> m \<notin> set seen \<and> stored p m"
proof (induction p seen previous ms rule: memberProblem.induct)
  case (2 p seen previous member members)
  from "2.prems" have c: "\<not> (member = '''' \<or> \<not> ValidString member)" "previous \<noteq> Some member" "member \<notin> set seen"
    "\<not> \<not> stored p member" "memberProblem p seen (Some member) members = None"
    by (simp_all split: if_split_asm)
  from "2.IH" [OF c] c show ?case by simp
qed simp

definition classes_seen :: "poset \<times> string list \<times> string list \<Rightarrow> bool" where
  "classes_seen st \<longleftrightarrow> (case st of (p, seenMembers, seenClasses) \<Rightarrow>
     \<forall>key \<in> set seenClasses. \<exists>ms. key = strings_join NUL ms \<and> nul_free ms \<and> ms \<noteq> [] \<and> set ms \<subseteq> set seenMembers)"

definition class_holds :: "poset \<times> string list \<times> string list \<Rightarrow> string list \<Rightarrow> bool" where
  "class_holds st ms \<longleftrightarrow> (\<forall>i \<in> set ms. \<forall>j \<in> set ms. IsCausallyEquivalent (fst st) i j)"

definition class_later :: "poset \<times> string list \<times> string list \<Rightarrow> poset \<times> string list \<times> string list \<Rightarrow> bool" where
  "class_later s t \<longleftrightarrow> extends (fst s) (fst t) \<and> stored (fst t) = stored (fst s)
     \<and> pendingEdges (fst t) = pendingEdges (fst s) \<and> same_content (fst s) (fst t)"

lemma mergeEquivalence_cases:
  assumes "store_ok p"
  shows "\<exists>q m c out cause. mergeEquivalence (p, seenMembers, seenClasses) ms = Some ((q, m, c), out, cause)
    \<and> store_ok q \<and> class_later (p, seenMembers, seenClasses) (q, m, c) \<and> out \<in> {Added, Skipped}
    \<and> (cause = None \<longrightarrow> ms \<noteq> [] \<and> memberProblem p seenMembers None ms = None
         \<and> (strings_join NUL ms \<in> set seenClasses
            \<or> m = ms @ seenMembers \<and> c = strings_join NUL ms # seenClasses \<and> class_holds (q, m, c) ms))"
proof -
  consider "length ms < 2"
    | "length ms \<ge> 2" "strings_join NUL ms \<in> set seenClasses"
    | "length ms \<ge> 2" "strings_join NUL ms \<notin> set seenClasses" "memberProblem p seenMembers None ms \<noteq> None"
    | "length ms \<ge> 2" "strings_join NUL ms \<notin> set seenClasses" "memberProblem p seenMembers None ms = None"
      "list_all (\<lambda>member. rep p member = rep p (hd ms)) (tl ms)"
    | "length ms \<ge> 2" "strings_join NUL ms \<notin> set seenClasses" "memberProblem p seenMembers None ms = None"
      "\<not> list_all (\<lambda>member. rep p member = rep p (hd ms)) (tl ms)"
    by linarith
  then show ?thesis
  proof cases
    case 4
    from 4(1) obtain m rest where ms: "ms = m # rest" by (cases ms) auto
    have "\<forall>i \<in> set ms. stored p i \<and> rep p i = rep p m"
      using memberProblem_None [OF 4(3)] 4(4) by (auto simp: ms list_all_iff)
    then have "class_holds (p, ms @ seenMembers, strings_join NUL ms # seenClasses) ms"
      by (simp add: class_holds_def IsCausallyEquivalent_iff)
    with 4 ms assms show ?thesis by (simp add: mergeEquivalence_def class_later_def Let_def)
  next
    case 5
    obtain q where q: "addCausalEquivalenceClassLocked p ms = Some (q, equivalence_outcome p ms)" "store_ok q"
      "extends p q" "stored q = stored p" "pendingEdges q = pendingEdges p" "same_content p q"
      "equivalence_outcome p ms = None \<longrightarrow> (\<forall>i \<in> set ms. \<forall>j \<in> set ms. IsCausallyEquivalent q i j)"
      using addEquivalenceClass_step [OF assms] by blast
    from 5(1) have "ms \<noteq> []" by auto
    with 5 q show ?thesis by (simp add: mergeEquivalence_def class_later_def class_holds_def Let_def)
  qed (use assms in \<open>auto simp: mergeEquivalence_def class_later_def Let_def\<close>)
qed

interpretation class_section: merge_section mergeEquivalence "store_ok \<circ> fst" class_later "{Added, Skipped}"
  nul_free classes_seen class_holds
proof unfold_locales
  fix s t u :: "poset \<times> string list \<times> string list" and ms :: "string list" and out
  show "class_later s s" by (simp add: class_later_def)
  show "class_later s t \<Longrightarrow> class_later t u \<Longrightarrow> class_later s u"
    using extends_trans same_content_trans by (auto simp: class_later_def)
  show "class_holds s ms \<Longrightarrow> class_later s t \<Longrightarrow> class_holds t ms"
    by (auto simp: class_holds_def class_later_def extends_def)
  obtain p seenMembers seenClasses where s: "s = (p, seenMembers, seenClasses)" by (cases s)
  assume "(store_ok \<circ> fst) s"
  then have p: "store_ok p" by (simp add: s)
  note run = mergeEquivalence_cases [OF p, of seenMembers seenClasses ms]
  show "\<exists>t out cause. mergeEquivalence s ms = Some (t, out, cause) \<and> (store_ok \<circ> fst) t
      \<and> class_later s t \<and> out \<in> {Added, Skipped}"
    using run by (auto simp: s)
  assume seen: "classes_seen s" and plain: "nul_free ms" and step: "mergeEquivalence s ms = Some (t, out, None)"
  have new: "ms \<noteq> []" "memberProblem p seenMembers None ms = None" using run step by (auto simp: s)
  have "strings_join NUL ms \<notin> set seenClasses"
  proof
    assume "strings_join NUL ms \<in> set seenClasses"
    then obtain ns where "strings_join NUL ms = strings_join NUL ns" "nul_free ns" "ns \<noteq> []" "set ns \<subseteq> set seenMembers"
      using seen by (auto simp: classes_seen_def s)
    with strings_join_inj [OF plain _ new(1)] have "set ms \<subseteq> set seenMembers" by blast
    with memberProblem_None [OF new(2)] new(1) show False by (cases ms) auto
  qed
  with run step have t: "snd t = (ms @ seenMembers, strings_join NUL ms # seenClasses)" "class_holds t ms"
    by (auto simp: s)
  then show "classes_seen t \<and> class_holds t ms"
    using seen plain new(1) by (cases t) (fastforce simp: classes_seen_def s)
qed

lemma addCausal_content:
  assumes "poset_ok p" "addCausalLocked p f t = Some (q, res)"
  shows "same_content p q"
proof -
  obtain q' where q': "addCausalLocked p f t = Some (q', add_causal_outcome p f t)"
    "add_causal_outcome p f t \<noteq> None \<Longrightarrow> q' = p" "add_causal_outcome p f t = None \<Longrightarrow> causal_added p f t q'"
    using addCausalLocked_ok [OF assms(1), of f t] by metis
  have "q' = q" using q'(1) assms(2) by simp
  then show ?thesis using q'(2,3) by (cases "add_causal_outcome p f t") (auto simp: causal_added_def same_content_def)
qed

definition edge_holds :: "poset \<times> string list \<Rightarrow> string list \<Rightarrow> bool" where
  "edge_holds st edge \<longleftrightarrow> length edge = 2 \<and> ((edge ! 0, edge ! 1) \<in> before (fst st)
     \<or> pendingEdgeExists (pendingEdges (fst st)) (edge ! 0) (edge ! 1))"

definition edge_later :: "poset \<times> string list \<Rightarrow> poset \<times> string list \<Rightarrow> bool" where
  "edge_later s t \<longleftrightarrow> extends (fst s) (fst t) \<and> stored (fst t) = stored (fst s)
     \<and> same_content (fst s) (fst t) \<and> (\<exists>more. pendingEdges (fst t) = pendingEdges (fst s) @ more)"

definition edges_seen :: "poset \<times> string list \<Rightarrow> bool" where
  "edges_seen st \<longleftrightarrow> (\<forall>key \<in> set (snd st). \<exists>edge. key = snapshotEdgeKey edge \<and> edge_holds st edge)"

lemma edge_later_trans:
  assumes "edge_later s t" "edge_later t u"
  shows "edge_later s u"
proof -
  obtain a b where "pendingEdges (fst t) = pendingEdges (fst s) @ a" "pendingEdges (fst u) = pendingEdges (fst t) @ b"
    using assms by (auto simp: edge_later_def)
  then have "pendingEdges (fst u) = pendingEdges (fst s) @ (a @ b)" by simp
  with assms show ?thesis unfolding edge_later_def using extends_trans same_content_trans by metis
qed

lemma edge_holds_later: "edge_holds s x \<Longrightarrow> edge_later s t \<Longrightarrow> edge_holds t x"
  by (auto simp: edge_holds_def edge_later_def extends_def pendingEdgeExists_def)

lemma pending_update_rep [simp]: "rep (p\<lparr>pendingEdges := es\<rparr>) = rep p" "before (p\<lparr>pendingEdges := es\<rparr>) = before p"
  by (simp_all add: poset_ok_pending)

lemma mergeEdge_cases:
  assumes "store_ok p"
  shows "\<exists>q seen out cause. mergeEdge (p, seenEdges) edge = Some ((q, seen), out, cause)
    \<and> store_ok q \<and> edge_later (p, seenEdges) (q, seen)
    \<and> (cause = None \<longrightarrow> (seen = seenEdges \<and> snapshotEdgeKey edge \<in> set seenEdges)
         \<or> (seen = snapshotEdgeKey edge # seenEdges \<and> edge_holds (q, seen) edge))"
proof (cases "length edge = 2")
  case False
  with assms show ?thesis by (simp add: mergeEdge_def edge_later_def)
next
  case True
  then obtain src dst where edge: "edge = [src, dst]"
    by (auto simp: length_Suc_conv numeral_2_eq_2)
  note p = store_okD(1) [OF assms]
  note ok = poset_okD [OF p]
  define key where "key = snapshotEdgeKey [src, dst]"
  note guards = mergeEdge_def Let_def edge key_def [symmetric]
  have refl: "edge_later (p, seenEdges) (p, seen)" for seen by (simp add: edge_later_def)
  consider "src = '''' \<or> dst = '''' \<or> \<not> ValidString src \<or> \<not> ValidString dst \<or> src = dst \<or> key \<in> set seenEdges"
    | "src \<noteq> ''''" "dst \<noteq> ''''" "ValidString src" "ValidString dst" "src \<noteq> dst" "key \<notin> set seenEdges"
    by blast
  then show ?thesis
  proof cases
    case 1
    then have "\<exists>cause. mergeEdge (p, seenEdges) edge = Some ((p, seenEdges), Skipped, cause)
        \<and> (cause = None \<longrightarrow> key \<in> set seenEdges)"
      by (cases "src = '''' \<or> dst = ''''"; cases "\<not> ValidString src \<or> \<not> ValidString dst"; cases "src = dst";
          simp add: guards)
    then show ?thesis using assms refl by (auto simp: edge key_def)
  next
    case 2
    consider "\<not> stored p src \<or> \<not> stored p dst"
      | "stored p src" "stored p dst" "rep p src = rep p dst"
      | "stored p src" "stored p dst" "rep p src \<noteq> rep p dst" "rep p dst |\<in>| edges_of p (rep p src)"
      | "stored p src" "stored p dst" "rep p src \<noteq> rep p dst" "rep p dst |\<notin>| edges_of p (rep p src)"
      by blast
    then show ?thesis
    proof cases
      case a: 1
      let ?q = "p\<lparr>pendingEdges := pendingEdges p @ [\<lparr>pe_from = src, pe_to = dst\<rparr>]\<rparr>"
      have "edge_later (p, seenEdges) (?q, key # seenEdges)" by (simp add: edge_later_def)
      moreover have "edge_holds (?q, key # seenEdges) [src, dst]"
        by (simp add: edge_holds_def pendingEdgeExists_def)
      moreover have "edge_holds (p, key # seenEdges) [src, dst]" if "pendingEdgeExists (pendingEdges p) src dst"
        using that by (simp add: edge_holds_def)
      ultimately show ?thesis
        using 2 a assms refl by (cases "pendingEdgeExists (pendingEdges p) src dst") (simp_all add: guards)
    next
      case b: 2
      then show ?thesis using 2 assms refl by (simp add: guards)
    next
      case c: 3
      have "(rep p src, rep p dst) \<in> class_rel p" using c(4) class_rel_edges(1) [OF ok(1,2)] by blast
      then have "(src, dst) \<in> before p" using c(1,2) by (auto simp: before_def)
      then show ?thesis using 2 c assms refl by (simp add: guards edge_holds_def)
    next
      case d: 4
      obtain q where q: "addCausalLocked p src dst = Some (q, add_causal_outcome p src dst)"
        "add_causal_outcome p src dst \<noteq> None \<Longrightarrow> q = p" "add_causal_outcome p src dst = None \<Longrightarrow> causal_added p src dst q"
        using addCausalLocked_ok [OF p, of src dst] by metis
      note step = addCausal_step [OF assms q(1)]
      have "pendingEdges q = pendingEdges p"
        using q(2,3) by (cases "add_causal_outcome p src dst") (simp_all add: causal_added_def)
      then have "edge_later (p, seenEdges) (q, key # seenEdges)" using step addCausal_content [OF p q(1)] by (simp add: edge_later_def)
      moreover have "(src, dst) \<in> before q" if "add_causal_outcome p src dst = None"
        using causal_added_before(2) [OF q(3) [OF that] d(1,2)] .
      ultimately show ?thesis using 2 d q(1) step(1) by (simp add: guards edge_holds_def)
    qed
  qed
qed

interpretation edge_section: merge_section mergeEdge "store_ok \<circ> fst" edge_later UNIV "\<lambda>_. True" edges_seen edge_holds
proof unfold_locales
  fix s t u :: "poset \<times> string list" and edge :: "string list" and out
  show "edge_later s s" by (simp add: edge_later_def)
  show "edge_later s t \<Longrightarrow> edge_later t u \<Longrightarrow> edge_later s u" by (rule edge_later_trans)
  show "edge_holds s edge \<Longrightarrow> edge_later s t \<Longrightarrow> edge_holds t edge" by (rule edge_holds_later)
  obtain p seenEdges where s: "s = (p, seenEdges)" by (cases s)
  assume "(store_ok \<circ> fst) s"
  then have p: "store_ok p" by (simp add: s)
  note run = mergeEdge_cases [OF p, of seenEdges edge]
  show "\<exists>t out cause. mergeEdge s edge = Some (t, out, cause) \<and> (store_ok \<circ> fst) t \<and> edge_later s t \<and> out \<in> UNIV"
    using run by (auto simp: s)
  assume seen: "edges_seen s" and step: "mergeEdge s edge = Some (t, out, None)"
  from run step have t: "edge_later s t" "(snd t = seenEdges \<and> snapshotEdgeKey edge \<in> set seenEdges)
      \<or> (snd t = snapshotEdgeKey edge # seenEdges \<and> edge_holds t edge)"
    by (auto simp: s)
  have old: "\<exists>edge. key = snapshotEdgeKey edge \<and> edge_holds t edge" if "key \<in> set seenEdges" for key
    using seen that edge_holds_later [OF _ t(1)] by (fastforce simp: edges_seen_def s)
  then have "edge_holds t edge" using t(2) snapshotEdgeKey_inj by metis
  moreover from this have "edges_seen t" using t(2) old by (auto simp: edges_seen_def)
  ultimately show "edges_seen t \<and> edge_holds t edge" by simp
qed

section \<open>Properties\<close>

lemma merge_counts_sum:
  assumes "set evs \<subseteq> {Added, Skipped}" "set classes \<subseteq> {Added, Skipped}"
  shows "mr_eventsAdded (merge_counts evs classes edges) + mr_eventsSkipped (merge_counts evs classes edges) = length evs"
    "mr_equivalencesAdded (merge_counts evs classes edges) + mr_equivalencesSkipped (merge_counts evs classes edges)
       = length classes"
    "mr_edgesAdded (merge_counts evs classes edges) + mr_edgesSkipped (merge_counts evs classes edges)
       + mr_edgesPending (merge_counts evs classes edges) = length edges"
proof -
  have two: "set xs \<subseteq> {Added, Skipped} \<Longrightarrow> count_list xs Added + count_list xs Skipped = length xs" for xs
    by (induction xs) auto
  have "count_list xs Added + count_list xs Skipped + count_list xs Pending = length xs" for xs
  proof (induction xs)
    case (Cons x xs)
    then show ?case by (cases x) simp_all
  qed simp
  with two assms show "mr_eventsAdded (merge_counts evs classes edges) + mr_eventsSkipped (merge_counts evs classes edges) = length evs"
    "mr_equivalencesAdded (merge_counts evs classes edges) + mr_equivalencesSkipped (merge_counts evs classes edges)
       = length classes"
    "mr_edgesAdded (merge_counts evs classes edges) + mr_edgesSkipped (merge_counts evs classes edges)
       + mr_edgesPending (merge_counts evs classes edges) = length edges"
    by (simp_all add: merge_counts_def)
qed

definition integrated :: "(string \<Rightarrow> int option) \<Rightarrow> poset \<Rightarrow> snapshot \<Rightarrow> bool" where
  \<comment> \<open>everything the snapshot says holds, an edge with a missing endpoint being buffered\<close>
  "integrated parseTime q snap \<longleftrightarrow>
     (\<forall>ee \<in> set (sn_events snap). \<exists>f. fmlookup (events q) (ex_id ee) = Some f \<and> agrees parseTime ee f)
     \<and> (\<forall>class \<in> set (sn_causalEquivalences snap). \<forall>i \<in> set class. \<forall>j \<in> set class. IsCausallyEquivalent q i j)
     \<and> (\<forall>edge \<in> set (sn_causalEdges snap). length edge = 2 \<and> ((edge ! 0, edge ! 1) \<in> before q
          \<or> pendingEdgeExists (pendingEdges q) (edge ! 0) (edge ! 1)))"

lemma integrated_counter [simp]: "integrated parseTime (q\<lparr>lamportCounter := n\<rparr>) snap = integrated parseTime q snap"
  by (simp add: integrated_def IsCausallyEquivalent_iff)

text \<open>The three sections, each with what its contract gives.\<close>

lemma class_section_run:
  assumes "store_ok p1"
  obtains p2 r2 o2 i2 where "runSection ''causal-equivalence'' (strings_join '' =c '') mergeEquivalence 0 classes (p1, [], [])
      = Some ((p2, r2), o2, i2)" "store_ok p2" "extends p1 p2" "length o2 = length classes" "set o2 \<subseteq> {Added, Skipped}"
    "i2 = [] \<longrightarrow> (\<forall>ms \<in> set classes. nul_free ms) \<longrightarrow> (\<forall>ms \<in> set classes. class_holds (p2, r2) ms)" "same_content p1 p2"
proof -
  have "classes_seen (p1, [], [])" by (simp add: classes_seen_def)
  with class_section.run_ok [of "(p1, [], [])" "''causal-equivalence''" "strings_join '' =c ''" 0 classes] assms
  obtain t o2 i2 where "runSection ''causal-equivalence'' (strings_join '' =c '') mergeEquivalence 0 classes (p1, [], [])
      = Some (t, o2, i2)" "store_ok (fst t)" "class_later (p1, [], []) t" "length o2 = length classes"
    "set o2 \<subseteq> {Added, Skipped}"
    "i2 = [] \<longrightarrow> (\<forall>ms \<in> set classes. nul_free ms) \<longrightarrow> (\<forall>ms \<in> set classes. class_holds t ms)"
    by (metis comp_apply fst_conv)
  then show thesis by (intro that [of "fst t" "snd t" o2 i2]) (simp_all add: class_later_def)
qed

lemma edge_section_run:
  assumes "store_ok p2"
  obtains p3 r3 o3 i3 where "runSection ''edge'' (strings_join '' -> '') mergeEdge 0 edges (p2, []) = Some ((p3, r3), o3, i3)"
    "store_ok p3" "extends p2 p3" "length o3 = length edges" "i3 = [] \<longrightarrow> (\<forall>edge \<in> set edges. edge_holds (p3, r3) edge)"
    "same_content p2 p3"
proof -
  have "edges_seen (p2, [])" by (simp add: edges_seen_def)
  with edge_section.run_ok [of "(p2, [])" "''edge''" "strings_join '' -> ''" 0 edges] assms
  obtain t o3 i3 where "runSection ''edge'' (strings_join '' -> '') mergeEdge 0 edges (p2, []) = Some (t, o3, i3)"
    "store_ok (fst t)" "edge_later (p2, []) t" "length o3 = length edges"
    "i3 = [] \<longrightarrow> (\<forall>edge \<in> set edges. edge_holds t edge)"
    by (metis comp_apply fst_conv)
  then show thesis by (intro that [of "fst t" "snd t" o3 i3]) (simp_all add: edge_later_def)
qed

text \<open>The snapshot holds once the three sections have run in silence.\<close>

lemma integrated_after:
  assumes "\<forall>ee \<in> set (sn_events snap). import_holds parseTime (p1, r1) ee" and ext: "extends p2 p3"
    and kept: "same_content p1 p2" "same_content p2 p3"
    and "\<forall>ms \<in> set (sort_key k (map sort_ids (sn_causalEquivalences snap))). class_holds (p2, r2) ms"
    and "\<forall>edge \<in> set (sort_key l (sn_causalEdges snap)). edge_holds (p3, r3) edge"
  shows "integrated parseTime p3 snap"
proof -
  have k: "keeps p1 p3" using same_content_trans [OF kept] by (rule same_content_keeps)
  have "\<exists>f. fmlookup (events p3) (ex_id ee) = Some f \<and> agrees parseTime ee f" if ee: "ee \<in> set (sn_events snap)" for ee
  proof -
    obtain e where "fmlookup (events p1) (ex_id ee) = Some e" "agrees parseTime ee e"
      using assms(1) ee by (auto simp: import_holds_def)
    moreover from this obtain f where "fmlookup (events p3) (ex_id ee) = Some f" "set_lamport 0 f = set_lamport 0 e"
      using k unfolding keeps_def by blast
    ultimately show ?thesis using agrees_lamport by blast
  qed
  moreover have "\<forall>class \<in> set (sn_causalEquivalences snap). \<forall>i \<in> set class. \<forall>j \<in> set class. IsCausallyEquivalent p3 i j"
    using assms(5) ext by (auto simp: class_holds_def extends_def)
  ultimately show ?thesis using assms(6) by (simp add: integrated_def edge_holds_def)
qed

definition imported :: "(string \<Rightarrow> int option) \<Rightarrow> poset \<Rightarrow> snapshot \<Rightarrow> poset \<Rightarrow> bool" where
  \<comment> \<open>every new event is one of the snapshot\<close>
  "imported parseTime p snap q \<longleftrightarrow> (\<forall>i f. fmlookup (events q) i = Some f \<and> \<not> stored p i \<longrightarrow>
     (\<exists>ee \<in> set (sn_events snap). taken_from parseTime ee f))"

lemma merge_outcome:
  assumes "store_ok p"
  obtains q result issues where "MergeSnapshot parseTime p (Some snap) = Some (q, Inr (result, issues))"
    "store_ok q" "extends p q" "keeps p q" "imported parseTime p snap q" "sn_highWater snap \<le> lamportCounter q"
    "mr_eventsAdded result + mr_eventsSkipped result = length (sn_events snap)"
    "mr_equivalencesAdded result + mr_equivalencesSkipped result = length (sn_causalEquivalences snap)"
    "mr_edgesAdded result + mr_edgesSkipped result + mr_edgesPending result = length (sn_causalEdges snap)"
    "issues = None \<Longrightarrow> \<forall>class \<in> set (sn_causalEquivalences snap). nul_free class \<Longrightarrow> integrated parseTime q snap"
proof -
  define exports where "exports = sort_key (\<lambda>ee. (ex_lamport ee, ex_id ee)) (sn_events snap)"
  define classes where "classes = sort_key (strings_join NUL) (map sort_ids (sn_causalEquivalences snap))"
  define edges where "edges = sort_key snapshotEdgeKey (sn_causalEdges snap)"
  let ?counts = "count_list (map ex_id (sn_events snap))"
  obtain p1 r1 o1 i1 where e: "runSection ''event'' ex_id (mergeEvent parseTime ?counts) 0 exports (p, []) = Some ((p1, r1), o1, i1)"
    "store_ok p1" "import_later (p, []) (p1, r1)" "length o1 = length exports" "set o1 \<subseteq> {Added, Skipped}"
    "i1 = [] \<longrightarrow> (\<forall>ee \<in> set exports. import_holds parseTime (p1, r1) ee)"
    using event_section.run_ok [of "(p, [])" "''event''" ex_id parseTime ?counts 0 exports] assms
    by (metis comp_apply fst_conv snd_conv surj_pair)
  have old: "extends p p1" "keeps p p1" using e(3) by (simp_all add: import_later_def)
  obtain p2 r2 o2 i2 where c: "runSection ''causal-equivalence'' (strings_join '' =c '') mergeEquivalence 0 classes (p1, [], [])
      = Some ((p2, r2), o2, i2)" "store_ok p2" "extends p1 p2" "length o2 = length classes" "set o2 \<subseteq> {Added, Skipped}"
    "i2 = [] \<longrightarrow> (\<forall>ms \<in> set classes. nul_free ms) \<longrightarrow> (\<forall>ms \<in> set classes. class_holds (p2, r2) ms)" "same_content p1 p2"
    by (rule class_section_run [OF e(2)])
  obtain p3 r3 o3 i3 where d: "runSection ''edge'' (strings_join '' -> '') mergeEdge 0 edges (p2, []) = Some ((p3, r3), o3, i3)"
    "store_ok p3" "extends p2 p3" "length o3 = length edges" "i3 = [] \<longrightarrow> (\<forall>edge \<in> set edges. edge_holds (p3, r3) edge)"
    "same_content p2 p3"
    by (rule edge_section_run [OF c(2)])
  define hw where "hw = (if sn_highWater snap < fold max (map ex_lamport (sn_events snap)) 0
      then [\<lparr>is_section = ''snapshot'', is_index = -1, is_object = ''high_water'',
             is_cause = ErrOther ''value is below maximum event Lamport''\<rparr>] else [])"
  define q where "q = (if sn_highWater snap > lamportCounter p3 then p3\<lparr>lamportCounter := sn_highWater snap\<rparr> else p3)"
  have run: "MergeSnapshot parseTime p (Some snap) =
      Some (q, Inr (merge_counts o1 o2 o3, newSnapshotMergeError (hw @ i1 @ i2 @ i3)))"
    using e(1) c(1) d(1)
    by (cases r2) (simp add: MergeSnapshot_def Let_def exports_def [symmetric] classes_def [symmetric] edges_def [symmetric]
        hw_def [symmetric] q_def)
  have kept: "same_content p1 p3" using c(7) d(6) by (rule same_content_trans)
  have q: "store_ok q" "extends p q" "sn_highWater snap \<le> lamportCounter q" "keeps p q"
    using d(2) extends_trans [OF old(1) extends_trans [OF c(3) d(3)]] keeps_trans [OF old(2) same_content_keeps [OF kept]]
    by (auto simp: q_def)
  have "imported parseTime p snap q"
    unfolding imported_def
  proof clarify
    fix i f
    assume f: "fmlookup (events q) i = Some f" "\<not> stored p i"
    then have "fmlookup (events p3) i = Some f" by (simp add: q_def split: if_splits)
    then obtain g where g: "fmlookup (events p1) i = Some g" "set_lamport 0 g = set_lamport 0 f"
      by (rule same_content_event [OF kept])
    have "fmlookup (events p) i \<noteq> Some g" using f(2) by (auto simp: map_has_iff)
    then obtain ee where "ee \<in> set exports" "taken_from parseTime ee g"
      using event_section_origin [OF e(1)] assms g(1) by auto
    then show "\<exists>ee \<in> set (sn_events snap). taken_from parseTime ee f"
      using taken_lamport [OF _ g(2) [symmetric]] by (auto simp: exports_def)
  qed
  moreover have "integrated parseTime q snap"
    if none: "newSnapshotMergeError (hw @ i1 @ i2 @ i3) = None" and nf: "\<forall>class \<in> set (sn_causalEquivalences snap). nul_free class"
  proof -
    from none have nil: "i1 = []" "i2 = []" "i3 = []" by (simp_all add: newSnapshotMergeError_def split: if_splits)
    have "\<forall>ms \<in> set classes. nul_free ms" using nf by (auto simp: classes_def nul_free_def)
    then have "integrated parseTime p3 snap"
      using e(6) c(6,7) d(5,6) nil d(3) by (intro integrated_after [of snap parseTime p1 r1 p2]) (auto simp: exports_def classes_def edges_def)
    then show ?thesis by (simp add: q_def)
  qed
  ultimately show thesis using run q merge_counts_sum [OF e(5) c(5), of o3] e(4) c(4) d(4)
    by (intro that) (simp_all add: exports_def classes_def edges_def)
qed


text \<open>A snapshot of three occurrences, two of them equivalent, merged into an empty poset.\<close>

definition sample_snapshot :: snapshot where
  "sample_snapshot = CreateSnapshot (\<lambda>_. ''noon'') equated_events ''n1''"


section \<open>The high-water mark\<close>

text \<open>
  Lamport propagation raises events without raising \<open>lamportCounter\<close>, which \<open>CreateSnapshot\<close> takes for its
  mark.
\<close>

lemma fold_max_less: "m < fold max xs (n :: u64) \<longleftrightarrow> m < n \<or> (\<exists>x \<in> set xs. m < x)"
  by (induction xs arbitrary: n) (auto simp: less_max_iff_disj)

lemma exported_positions:
  assumes "poset_ok p"
  shows "set (map ex_lamport (sn_events (CreateSnapshot formatTime p nodeID))) = {lam p i | i. stored p i}"
proof -
  have one: "ex_lamport (exportEvent formatTime e) = lam p i" if "fmlookup (events p) i = Some e" for i e
    using that by (simp add: lam_def exportEvent_def ev_lamport_def)
  have "set (map ex_lamport (exportEvents formatTime p ids)) = lam p ` set ids" if "\<forall>i \<in> set ids. stored p i" for ids
    using that
  proof (induction ids)
    case (Cons i ids)
    then obtain e where "fmlookup (events p) i = Some e" by (auto simp: map_has_iff)
    with Cons one show ?case by (simp add: exportEvents_def List.map_filter_simps)
  qed (simp add: exportEvents_def List.map_filter_simps)
  from this [of "sortEventIDsByLamport p (event_ids p)"]
  have "set (map ex_lamport (exportEvents formatTime p (sortEventIDsByLamport p (event_ids p)))) = lam p ` {i. stored p i}"
    by (simp add: sortEventIDsByLamport_def map_has_def)
  then show ?thesis by (auto simp: CreateSnapshot_def Let_def)
qed

lemma section_name:
  "runSection name object step position xs s = Some (t, outs, issues) \<Longrightarrow> \<forall>issue \<in> set issues. is_section issue = name"
proof (induction xs arbitrary: s position outs issues)
  case (Cons x xs)
  then show ?case by (fastforce simp: bind_eq_Some_conv split: option.splits)
qed simp

lemma mark_issue_iff:
  assumes "MergeSnapshot parseTime p (Some snap) = Some (q, Inr (result, issues))"
  shows "(\<exists>list. issues = Some list \<and> (\<exists>issue \<in> set list. is_section issue = ''snapshot''))
    \<longleftrightarrow> sn_highWater snap < fold max (map ex_lamport (sn_events snap)) 0"
proof -
  define hw where "hw = (if sn_highWater snap < fold max (map ex_lamport (sn_events snap)) 0
      then [\<lparr>is_section = ''snapshot'', is_index = -1, is_object = ''high_water'',
             is_cause = ErrOther ''value is below maximum event Lamport''\<rparr>] else [])"
  obtain i1 i2 i3 where i: "issues = newSnapshotMergeError (hw @ i1 @ i2 @ i3)"
      "\<forall>issue \<in> set i1. is_section issue = ''event''" "\<forall>issue \<in> set i2. is_section issue = ''causal-equivalence''"
      "\<forall>issue \<in> set i3. is_section issue = ''edge''"
    using assms
    by (simp add: MergeSnapshot_def Let_def hw_def [symmetric] bind_eq_Some_conv split: prod.splits)
      (elim exE conjE, drule section_name, drule section_name, drule section_name, metis)
  then have "(\<exists>list. issues = Some list \<and> (\<exists>issue \<in> set list. is_section issue = ''snapshot'')) \<longleftrightarrow> hw \<noteq> []"
    by (auto simp: newSnapshotMergeError_def hw_def set_insort_key)
  then show ?thesis by (simp add: hw_def)
qed

definition raised_events :: poset where
  "raised_events = (case AddCausal two_events ''b'' ''a'' of Some (q, _) \<Rightarrow> q | None \<Rightarrow> NewPoset)"

text \<open>C32: Whatever the receiver holds, merging a poset's own snapshot raises the issue of the high-water mark
  exactly when some event's Lamport position is above the poset's \<open>lamportCounter\<close>, which propagation does
  not raise.\<close>

theorem own_snapshot_is_reported:
  assumes "poset_ok p" "store_ok r"
  shows "\<exists>q result issues. MergeSnapshot parseTime r (Some (CreateSnapshot formatTime p nodeID)) = Some (q, Inr (result, issues))
    \<and> ((\<exists>list. issues = Some list \<and> (\<exists>issue \<in> set list. is_section issue = ''snapshot''))
       \<longleftrightarrow> (\<exists>i. stored p i \<and> lamportCounter p < lam p i))"
proof -
  let ?snap = "CreateSnapshot formatTime p nodeID"
  obtain q result issues where run: "MergeSnapshot parseTime r (Some ?snap) = Some (q, Inr (result, issues))"
    using merge_outcome [OF assms(2)] by metis
  have "lamportCounter p < fold max (map ex_lamport (sn_events ?snap)) 0 \<longleftrightarrow> (\<exists>i. stored p i \<and> lamportCounter p < lam p i)"
    unfolding fold_max_less exported_positions [OF assms(1)] by auto
  moreover have "sn_highWater ?snap = lamportCounter p" by (simp add: CreateSnapshot_def Let_def)
  ultimately show ?thesis using run mark_issue_iff [OF run] by simp
qed

text \<open>After \<open>AddEvent a\<close>, \<open>AddEvent b\<close>, \<open>AddCausal b a\<close> the position of \<open>a\<close> is 3 and the counter 2, so an
  empty poset reports the snapshot.\<close>

theorem own_snapshot_is_reported_witness:
  "lam raised_events ''a'' = 3 \<and> lamportCounter raised_events = 2
   \<and> (\<exists>q result list. MergeSnapshot (\<lambda>_. Some 0) NewPoset (Some (CreateSnapshot (\<lambda>_. ''noon'') raised_events ''n1''))
        = Some (q, Inr (result, Some list)) \<and> (\<exists>issue \<in> set list. is_section issue = ''snapshot''))"
proof -
  have l: "lam raised_events ''a'' = 3" "lamportCounter raised_events = 2" "stored raised_events ''a''" by code_simp+
  obtain q where q: "AddCausal two_events ''b'' ''a'' = Some (q, add_causal_outcome two_events ''b'' ''a'')"
      "add_causal_outcome two_events ''b'' ''a'' \<noteq> None \<Longrightarrow> q = two_events"
      "add_causal_outcome two_events ''b'' ''a'' = None \<Longrightarrow> causal_added two_events ''b'' ''a'' q"
    using addCausalLocked_ok [OF two_events_ok(1), of "''b''" "''a''"] unfolding AddCausal_def by metis
  then have "poset_ok q" using two_events_ok(1) unfolding causal_added_def by blast
  then have "poset_ok raised_events" by (simp add: raised_events_def q(1))
  moreover have "\<exists>i. stored raised_events i \<and> lamportCounter raised_events < lam raised_events i"
    using l by (intro exI [of _ "''a''"]) simp
  ultimately show ?thesis
    using own_snapshot_is_reported [OF _ NewPoset_store_ok, of raised_events "\<lambda>_. Some 0" "\<lambda>_. ''noon''" "''n1''"] l
    by blast
qed

end
