(* ===== verification/Poset_Runs.thy ===== *)
theory Poset_Runs
  imports Snapshot_Merge
begin

text \<open>
  Whole runs of the calls that grow a poset: the writers of \<open>store.go\<close>, the n-ary equivalence, observations,
  the drain of buffered edges and the merge of received snapshots.  The poset is a \<open>growing_store\<close>, so the
  client lemmas of that interface hold of every run.  \<open>UnmarshalJSON\<close> is not among the calls: it replaces the
  whole poset.  New occurrences must have a nonempty ID; \<open>MergeSnapshot\<close> refuses the empty one itself, but
  \<open>AddEvent\<close> does not, and an empty ID breaks the index of causal classes.
\<close>

section \<open>The calls\<close>

datatype store_call =
    CallAdd "event option"
  | CallAddWithCause "event option" "event_id list"
  | CallAddEdge event_id event_id
  | CallAddEquivalent event_id event_id
  | CallAddEquivalenceClass "event_id list"
  | CallObserve event_id observation "event_timing list"
  | CallDrain
  | CallMerge "snapshot option"

definition answered :: "(poset \<times> go_error option) option \<Rightarrow> (poset \<times> go_error list) option" where
  "answered outcome = map_option (map_prod id (\<lambda>r. case r of None \<Rightarrow> [] | Some err \<Rightarrow> [err])) outcome"

fun perform :: "(string \<Rightarrow> int option) \<Rightarrow> store_call \<Rightarrow> poset \<Rightarrow> (poset \<times> go_error list) option" where
  "perform parseTime (CallAdd ev) p = answered (Some (Add p ev))"
| "perform parseTime (CallAddWithCause ev causes) p = answered (AddEventWithCause p ev causes)"
| "perform parseTime (CallAddEdge f t) p = answered (AddEdge p f t)"
| "perform parseTime (CallAddEquivalent l r) p = answered (AddEquivalent p l r)"
| "perform parseTime (CallAddEquivalenceClass ids) p = answered (AddCausalEquivalenceClass p ids)"
| "perform parseTime (CallObserve i ob ts) p =
     (case AddObservationWithTimings p i ob ts of (q, r) \<Rightarrow> Some (q, case r of Inl err \<Rightarrow> [err] | Inr _ \<Rightarrow> []))"
| "perform parseTime CallDrain p = map_option (\<lambda>(q, _, errs). (q, errs)) (DrainPendingEdges p)"
| "perform parseTime (CallMerge snap) p = map_option (map_prod id (\<lambda>r. case r of Inl err \<Rightarrow> [err]
     | Inr (_, issues) \<Rightarrow> (case issues of None \<Rightarrow> [] | Some issues \<Rightarrow> map is_cause issues))) (MergeSnapshot parseTime p snap)"

fun names_events :: "store_call \<Rightarrow> bool" where
  \<comment> \<open>a new occurrence has a nonempty ID, as \<open>NewEventID\<close> provides\<close>
  "names_events (CallAdd (Some e)) = (ev_id e \<noteq> '''')"
| "names_events (CallAddWithCause (Some e) _) = (ev_id e \<noteq> '''')"
| "names_events _ = True"

section \<open>The poset as a growing store\<close>

lemma perform_step:
  assumes "store_ok p" "names_events c"
  shows "\<exists>q r. perform parseTime c p = Some (q, r) \<and> store_ok q \<and> extends p q"
proof (cases c)
  case (CallAdd ev)
  show ?thesis
  proof (cases ev)
    case (Some e)
    obtain q r where run: "AddEvent p (Some e) = (q, r)" by (cases "AddEvent p (Some e)")
    with addEvent_step [OF assms(1) _ run] assms(2) CallAdd Some show ?thesis by (simp add: Add_def answered_def)
  qed (use assms(1) CallAdd in \<open>simp add: Add_def AddEvent_def answered_def\<close>)
next
  case (CallAddWithCause ev causes)
  show ?thesis
  proof (cases ev)
    case (Some e)
    with addEventWithCause_step [OF assms(1), of e causes] assms(2) CallAddWithCause show ?thesis
      by (auto simp: answered_def)
  qed (use assms(1) CallAddWithCause in \<open>simp add: AddEventWithCause_def answered_def\<close>)
next
  case (CallAddEdge f t)
  obtain q r where run: "addCausalLocked p f t = Some (q, r)"
    using addCausalLocked_ok [OF store_okD(1) [OF assms(1)], of f t] by metis
  with addCausal_step [OF assms(1) run] CallAddEdge show ?thesis by (simp add: AddEdge_def AddCausal_def answered_def)
next
  case (CallAddEquivalent a b)
  with addEquivalent_step [OF assms(1), of a b] show ?thesis by (auto simp: answered_def)
next
  case (CallAddEquivalenceClass ids)
  with addEquivalenceClass_step [OF assms(1), of ids] show ?thesis
    by (auto simp: answered_def AddCausalEquivalenceClass_def)
next
  case (CallObserve i ob ts)
  obtain q r where run: "AddObservationWithTimings p i ob ts = (q, r)"
    by (cases "AddObservationWithTimings p i ob ts")
  with observe_step [OF assms(1) run] CallObserve show ?thesis by simp
next
  case CallDrain
  with drain_step [OF assms(1)] show ?thesis by auto
next
  case (CallMerge snap)
  show ?thesis
  proof (cases snap)
    case (Some s)
    obtain q result issues where "MergeSnapshot parseTime p (Some s) = Some (q, Inr (result, issues))"
        "store_ok q" "extends p q"
      using merge_outcome [OF assms(1), of parseTime s] by metis
    then show ?thesis by (simp add: CallMerge Some)
  qed (use assms(1) CallMerge in \<open>simp add: MergeSnapshot_def\<close>)
qed

interpretation poset_store: growing_store store_ok stored "\<lambda>p a b. (a, b) \<in> before p"
  IsCausallyEquivalent names_events "perform parseTime"
proof unfold_locales
  fix p q r c
  assume p: "store_ok p" "names_events c"
  show "\<exists>q r. perform parseTime c p = Some (q, r)" using perform_step [OF p] by blast
  assume run: "perform parseTime c p = Some (q, r)"
  have e: "store_ok q" "extends p q" using perform_step [OF p, of parseTime] run by auto
  show "store_ok q" by (rule e(1))
  show "stored p a \<Longrightarrow> stored q a" "(a, b) \<in> before p \<Longrightarrow> (a, b) \<in> before q"
    "IsCausallyEquivalent p a b \<Longrightarrow> IsCausallyEquivalent q a b" for a b
    using e(2) by (auto simp: extends_def)
qed

section \<open>Properties\<close>

text \<open>C10: Every run of the calls that grow a poset (add, add with causes, add an edge, declare two or many
  occurrences equivalent, observe, drain, merge a snapshot) from an empty poset returns, whatever the calls
  answer, provided no call adds an event with the empty ID; it leaves a well-formed poset: an acyclic strict
  order between consistent classes, canonical frozen events, no clock conflict along the order, and Lamport
  positions that increase along it unless one reached the 64-bit maximum.\<close>

theorem reachable_posets_well_formed:
  assumes "\<forall>c \<in> set cs. names_events c"
  shows "\<exists>q. runCalls (perform parseTime) cs NewPoset = Some q \<and> poset_ok q
    \<and> (\<forall>a. \<not> IsCausallyBefore q a a)
    \<and> ((\<forall>i. stored q i \<longrightarrow> lam q i \<noteq> u64_max) \<longrightarrow>
         (\<forall>a b. IsCausallyBefore q a b \<longrightarrow> lam q a < lam q b))"
proof -
  obtain q where q: "runCalls (perform parseTime) cs NewPoset = Some q" "store_ok q"
    using poset_store.run_ok [OF NewPoset_store_ok assms, of parseTime] by blast
  note p = store_okD(1) [OF q(2)]
  note ok = poset_okD [OF p]
  have "\<forall>a. \<not> IsCausallyBefore q a a" by (simp add: IsCausallyBefore_def)
  moreover have "(\<forall>i. stored q i \<longrightarrow> lam q i \<noteq> u64_max) \<longrightarrow>
         (\<forall>a b. IsCausallyBefore q a b \<longrightarrow> lam q a < lam q b)"
    using store_okD(2) [OF q(2)] lamport_ok_before [OF p]
    by (auto simp: lam_safe_def IsCausallyBefore_iff [OF ok(2)])
  ultimately show ?thesis using q(1) p by blast
qed

definition sample_calls :: "store_call list" where
  "sample_calls = [CallAdd (Some (sample_event ''a'')), CallAddWithCause (Some (sample_event ''b'')) [''a''],
     CallAdd (Some (sample_event ''c'')), CallMerge (Some sample_snapshot), CallAddEquivalent ''b'' ''c'', CallAddEdge ''c'' ''a'',
     CallObserve ''c'' sample_role [sample_interval 1 2], CallDrain]"

theorem reachable_posets_well_formed_witness:
  "\<exists>q. runCalls (perform (\<lambda>_. Some 0)) sample_calls NewPoset = Some q \<and> poset_ok q \<and> IsCausallyBefore q ''a'' ''c''
     \<and> lam q ''a'' < lam q ''c''"
proof -
  have v: "\<forall>c \<in> set sample_calls. names_events c"
    by (simp add: sample_calls_def sample_event_def)
  obtain q where q: "runCalls (perform (\<lambda>_. Some 0)) sample_calls NewPoset = Some q" "poset_ok q"
    "(\<forall>i. stored q i \<longrightarrow> lam q i \<noteq> u64_max) \<longrightarrow> (\<forall>a b. IsCausallyBefore q a b \<longrightarrow> lam q a < lam q b)"
    using reachable_posets_well_formed [OF v, of "\<lambda>_. Some 0"] by blast
  have run: "map_option (\<lambda>q. (IsCausallyBefore q ''a'' ''c'', list_all (\<lambda>i. lam q i \<noteq> u64_max) (event_ids q)))
      (runCalls (perform (\<lambda>_. Some 0)) sample_calls NewPoset) = Some (True, True)" by code_simp
  then have "IsCausallyBefore q ''a'' ''c''" "\<forall>i. stored q i \<longrightarrow> lam q i \<noteq> u64_max"
    using q(1) by (auto simp: list_all_iff map_has_def)
  with q show ?thesis by blast
qed

text \<open>C11: From a well-formed poset, as every run of C10 leaves it, and after any further run of the calls that
  grow a poset, none of which adds an event with the empty ID, a strict precedence a client established still holds, the reverse does not, and the two occurrences are not
  equivalent; stored occurrences stay stored and equivalences stay.\<close>

theorem causal_knowledge_is_stable:
  assumes "store_ok p" "\<forall>c \<in> set cs. names_events c"
  shows "\<exists>q. runCalls (perform parseTime) cs p = Some q
    \<and> (\<forall>a b. (a, b) \<in> before p \<longrightarrow> (a, b) \<in> before q \<and> (b, a) \<notin> before q \<and> \<not> IsCausallyEquivalent q a b)
    \<and> (\<forall>a. stored p a \<longrightarrow> stored q a)
    \<and> (\<forall>a b. IsCausallyEquivalent p a b \<longrightarrow> IsCausallyEquivalent q a b)"
proof -
  obtain q where q: "runCalls (perform parseTime) cs p = Some q" "\<forall>a. stored p a \<longrightarrow> stored q a"
    "\<forall>a b. IsCausallyEquivalent p a b \<longrightarrow> IsCausallyEquivalent q a b"
    using poset_store.run_ok [OF assms, of parseTime] by blast
  with poset_store.never_reversed [OF assms q(1)] show ?thesis by blast
qed

theorem causal_knowledge_is_stable_witness:
  "\<exists>q. runCalls (perform (\<lambda>_. Some 0)) [CallAddEdge ''b'' ''a'', CallAddEquivalent ''a'' ''b''] ordered_events = Some q
     \<and> (''a'', ''b'') \<in> before q \<and> \<not> IsCausallyEquivalent q ''a'' ''b''"
proof -
  have ok: "store_ok ordered_events" by (simp add: store_ok_def lam_safe_def ordered_events_ok)
  have "IsCausallyBefore ordered_events ''a'' ''b''" by code_simp
  then have "(''a'', ''b'') \<in> before ordered_events"
    using IsCausallyBefore_iff [OF poset_okD(2) [OF ordered_events_ok(1)]] by blast
  with causal_knowledge_is_stable [OF ok, of "[CallAddEdge ''b'' ''a'', CallAddEquivalent ''a'' ''b'']" "\<lambda>_. Some 0"]
  show ?thesis by auto
qed

end
