(* ===== verification/Canonical_Encoding.thy ===== *)
theory Canonical_Encoding
  imports Event_Model Rapide_Values
begin

text \<open>
  The canonical byte encoding of values (\<open>deterministic_event.go\<close>): causes as a normalized set and
  \<open>writeCanonicalValue\<close> with its helpers.  The encodings of canonical values are uniquely decodable
  (\<open>write_unique\<close>).  A length field is 64 bits wide; \<open>sized\<close> says that no string or list of a value is as
  long as \<open>2^64\<close>, as in any Go heap.
\<close>

section \<open>Causes\<close>

fun normalizeLoop :: "event_id list \<Rightarrow> event_id list \<Rightarrow> go_error + event_id list" where
  "normalizeLoop written [] = Inr written"
| "normalizeLoop written (cause # rest) =
     (if cause = '''' then Inl (ErrOther ''deterministic cause ID is empty'')
      else if written \<noteq> [] \<and> last written = cause then normalizeLoop written rest
      else normalizeLoop (written @ [cause]) rest)"

definition normalizeCauses :: "event_id list \<Rightarrow> go_error + event_id list" where
  "normalizeCauses causes = normalizeLoop [] (sort_ids causes)"

lemma sorted_last_max: "sorted xs \<Longrightarrow> x \<in> set xs \<Longrightarrow> x \<le> last xs"
  by (induction xs) auto

lemma normalizeLoop_spec:
  "sorted (written @ xs) \<Longrightarrow> distinct written \<Longrightarrow> normalizeLoop written xs = Inr ys \<Longrightarrow>
     '''' \<notin> set xs \<and> sorted ys \<and> distinct ys \<and> set ys = set written \<union> set xs"
proof (induction written xs rule: normalizeLoop.induct)
  case (2 written cause rest)
  have ne: "cause \<noteq> ''''" using "2.prems"(3) by (auto split: if_splits)
  show ?case
  proof (cases "written \<noteq> [] \<and> last written = cause")
    case True
    then have "cause \<in> set written" by auto
    moreover have "sorted (written @ rest)" using "2.prems"(1) by (auto simp: sorted_append)
    ultimately show ?thesis using 2 True ne by auto
  next
    case False
    have "cause \<notin> set written"
    proof
      assume c: "cause \<in> set written"
      then have ne: "written \<noteq> []" by auto
      then have "last written \<le> cause" using "2.prems"(1) by (auto simp: sorted_append)
      moreover have "cause \<le> last written"
        using "2.prems"(1) c by (intro sorted_last_max) (simp_all add: sorted_append)
      ultimately show False using False ne by auto
    qed
    then show ?thesis using 2 False ne by (auto simp: sorted_append)
  qed
qed simp

lemma normalizeCauses_spec:
  "normalizeCauses cs = Inr ds \<Longrightarrow> '''' \<notin> set cs \<and> sorted ds \<and> distinct ds \<and> set ds = set cs"
  using normalizeLoop_spec [of "[]" "sort_ids cs" ds] by (simp add: normalizeCauses_def)

lemma normalizeLoop_total: "'''' \<notin> set xs \<Longrightarrow> \<exists>ys. normalizeLoop written xs = Inr ys"
  by (induction written xs rule: normalizeLoop.induct) auto

lemma normalizeLoop_error: "'''' \<in> set xs \<Longrightarrow> \<exists>err. normalizeLoop written xs = Inl err"
  by (induction written xs rule: normalizeLoop.induct) auto

text \<open>The result is the one sorted enumeration of the set of causes.\<close>

lemma normalizeCauses_eq:
  "normalizeCauses cs = (if '''' \<in> set cs then Inl (ErrOther ''deterministic cause ID is empty'')
     else Inr (sorted_list_of_set (set cs)))"
proof (cases "'''' \<in> set cs")
  case True
  then obtain err where err: "normalizeCauses cs = Inl err"
    using normalizeLoop_error [of "sort_ids cs" "[]"] by (auto simp: normalizeCauses_def)
  have "normalizeLoop w xs = Inl err \<Longrightarrow> err = ErrOther ''deterministic cause ID is empty''" for w xs
    by (induction w xs rule: normalizeLoop.induct) (auto split: if_splits)
  with err True show ?thesis by (simp add: normalizeCauses_def)
next
  case False
  then obtain ds where "normalizeCauses cs = Inr ds"
    using normalizeLoop_total [of "sort_ids cs" "[]"] by (auto simp: normalizeCauses_def)
  with normalizeCauses_spec [OF this] False show ?thesis
    by (auto intro: sorted_distinct_set_eq)
qed

lemma normalizeCauses_idem: "normalizeCauses cs = Inr ds \<Longrightarrow> normalizeCauses ds = Inr ds"
  by (auto simp: normalizeCauses_eq split: if_splits)

section \<open>The canonical encoding\<close>

definition writeCanonicalString :: "string \<Rightarrow> string" where
  "writeCanonicalString value = PutUint64 (of_nat (length value)) @ value"

definition writeCanonicalFloat64 :: "f64 \<Rightarrow> go_error + string" where
  "writeCanonicalFloat64 value =
     (if IsNaN value \<or> IsInf value then Inl ErrNonCanonicalValue
      else Inr (CHR ''f'' # PutUint64 (if f64_magnitude value = 0 then 0 else value)))"

text \<open>The number of value nodes, which a canonical copy keeps: the measure of the recursive encoders.\<close>

fun nodes :: "go_value \<Rightarrow> nat" and nodesItems :: "go_value list \<Rightarrow> nat" and nodesParams :: "params \<Rightarrow> nat" where
  "nodes (VList items) = Suc (nodesItems items)"
| "nodes (VMap ps) = Suc (nodesParams ps)"
| "nodes (VRecord m fs) = Suc (nodesParams fs)"
| "nodes _ = 1"
| "nodesItems [] = 0"
| "nodesItems (item # items) = Suc (nodes item + nodesItems items)"
| "nodesParams [] = 0"
| "nodesParams ((k, v) # rest) = Suc (nodes v + nodesParams rest)"

lemma nodes_copy:
  "canonicalValueCopy v = Inr w \<Longrightarrow> nodes w = nodes v"
  "canonicalItems vs = Inr ws \<Longrightarrow> nodesItems ws = nodesItems vs"
  "canonicalParams ps = Inr qs \<Longrightarrow> nodesParams qs = nodesParams ps"
  "canonicalRecordFields previous fs = Inr gs \<Longrightarrow> nodesParams gs = nodesParams fs"
proof (induction v and vs and ps and previous fs arbitrary: w and ws and qs and gs
    rule: canonicalValueCopy_canonicalItems_canonicalParams_canonicalRecordFields.induct)
qed (auto simp: canonicalRapideString_def split: sum.splits if_splits)

lemma canonicalRapideRecordValue_Inr:
  "canonicalRapideRecordValue m fs = Inr (m', fs') \<longleftrightarrow>
     canonicalValueCopy (VRecord m fs) = Inr (VRecord m' fs')"
  by (auto simp: canonicalRapideRecordValue_def split: sum.splits)

lemma nodes_record [termination_simp]:
  "canonicalRapideRecordValue m fs = Inr (m', fs') \<Longrightarrow> nodesParams fs' = nodesParams fs"
  unfolding canonicalRapideRecordValue_Inr by (drule nodes_copy(1)) simp

function writeCanonicalValue :: "go_value \<Rightarrow> go_error + string"
  and writeItems :: "go_value list \<Rightarrow> go_error + string"
  and writeFields :: "params \<Rightarrow> go_error + string" where
  "writeCanonicalValue value = (case value of
      VNil \<Rightarrow> Inr ''0''
    | VBool b \<Rightarrow> Inr (''b'' @ [chr (if b then 1 else 0)])
    | VTriv \<Rightarrow> Inr ''t''
    | VString s \<Rightarrow> Inr (''s'' @ writeCanonicalString s)
    | VCharacter code \<Rightarrow> Inr (''c'' @ PutUint64 code)
    | VRapideString codes \<Rightarrow>
        Inr (''S'' @ PutUint64 (of_nat (length codes)) @ concat (map PutUint64 codes))
    | VModule m \<Rightarrow> (case canonicalRapideModuleValue m of Inl err \<Rightarrow> Inl err
        | Inr canonical \<Rightarrow> Inr (''o'' @ writeCanonicalString canonical))
    | VRecord m fs \<Rightarrow> (case canonicalRapideRecordValue m fs of Inl err \<Rightarrow> Inl err
        | Inr (owner, fs) \<Rightarrow>
            map_sum id (\<lambda>bytes. ''r'' @ writeCanonicalString owner @ PutUint64 (of_nat (length fs)) @ bytes)
              (writeFields fs))
    | VInt i \<Rightarrow> Inr (''i'' @ PutUint64 i)
    | VInt8 i \<Rightarrow> Inr (''i'' @ PutUint64 (scast i))
    | VInt16 i \<Rightarrow> Inr (''i'' @ PutUint64 (scast i))
    | VInt32 i \<Rightarrow> Inr (''i'' @ PutUint64 (scast i))
    | VInt64 i \<Rightarrow> Inr (''i'' @ PutUint64 i)
    | VUint u \<Rightarrow> Inr (''u'' @ PutUint64 u)
    | VUint8 u \<Rightarrow> Inr (''u'' @ PutUint64 (ucast u))
    | VUint16 u \<Rightarrow> Inr (''u'' @ PutUint64 (ucast u))
    | VUint32 u \<Rightarrow> Inr (''u'' @ PutUint64 (ucast u))
    | VUint64 u \<Rightarrow> Inr (''u'' @ PutUint64 u)
    | VFloat32 f \<Rightarrow> writeCanonicalFloat64 (widenFloat32 f)
    | VFloat64 f \<Rightarrow> writeCanonicalFloat64 f
    | VBytes b \<Rightarrow> Inr (''x'' @ PutUint64 (of_nat (length b)) @ b)
    | VList items \<Rightarrow>
        map_sum id (\<lambda>bytes. ''l'' @ PutUint64 (of_nat (length items)) @ bytes) (writeItems items)
    | VMap m \<Rightarrow> map_sum id (\<lambda>bytes. ''m'' @ PutUint64 (of_nat (length m)) @ bytes) (writeFields m)
    | VOther t c \<Rightarrow> Inl ErrNonCanonicalValue)"
| "writeItems [] = Inr []"
| "writeItems (item # items) = (case writeCanonicalValue item of Inl err \<Rightarrow> Inl err
     | Inr bytes \<Rightarrow> map_sum id ((@) bytes) (writeItems items))"
| "writeFields [] = Inr []"
| "writeFields ((key, value) # rest) = (case writeCanonicalValue value of Inl err \<Rightarrow> Inl err
     | Inr bytes \<Rightarrow> map_sum id (\<lambda>more. writeCanonicalString key @ bytes @ more) (writeFields rest))"
  by pat_completeness auto
termination
  by (relation "measure (case_sum nodes (case_sum nodesItems nodesParams))")
    (auto simp: nodes_record)

declare writeCanonicalValue.simps [simp del]

lemma write_simps [simp]:
  "writeCanonicalValue VNil = Inr ''0''" "writeCanonicalValue (VBool b) = Inr (''b'' @ [chr (if b then 1 else 0)])"
  "writeCanonicalValue VTriv = Inr ''t''" "writeCanonicalValue (VString t) = Inr (''s'' @ writeCanonicalString t)"
  "writeCanonicalValue (VCharacter code) = Inr (''c'' @ PutUint64 code)"
  "writeCanonicalValue (VRapideString codes) =
     Inr (''S'' @ PutUint64 (of_nat (length codes)) @ concat (map PutUint64 codes))"
  "writeCanonicalValue (VModule m) = map_sum id (\<lambda>m. ''o'' @ writeCanonicalString m) (ParseRapideModuleValue m)"
  "writeCanonicalValue (VInt i) = Inr (''i'' @ PutUint64 i)" "writeCanonicalValue (VInt64 i) = Inr (''i'' @ PutUint64 i)"
  "writeCanonicalValue (VInt8 i8) = Inr (''i'' @ PutUint64 (scast i8))"
  "writeCanonicalValue (VInt16 i16) = Inr (''i'' @ PutUint64 (scast i16))"
  "writeCanonicalValue (VInt32 i32) = Inr (''i'' @ PutUint64 (scast i32))"
  "writeCanonicalValue (VUint u) = Inr (''u'' @ PutUint64 u)" "writeCanonicalValue (VUint64 u) = Inr (''u'' @ PutUint64 u)"
  "writeCanonicalValue (VUint8 i8) = Inr (''u'' @ PutUint64 (ucast i8))"
  "writeCanonicalValue (VUint16 i16) = Inr (''u'' @ PutUint64 (ucast i16))"
  "writeCanonicalValue (VUint32 i32) = Inr (''u'' @ PutUint64 (ucast i32))"
  "writeCanonicalValue (VFloat32 f32) = writeCanonicalFloat64 (widenFloat32 f32)"
  "writeCanonicalValue (VFloat64 f) = writeCanonicalFloat64 f"
  "writeCanonicalValue (VBytes t) = Inr (''x'' @ PutUint64 (of_nat (length t)) @ t)"
  "writeCanonicalValue (VList items) =
     map_sum id (\<lambda>bytes. ''l'' @ PutUint64 (of_nat (length items)) @ bytes) (writeItems items)"
  "writeCanonicalValue (VMap ps) = map_sum id (\<lambda>bytes. ''m'' @ PutUint64 (of_nat (length ps)) @ bytes) (writeFields ps)"
  "writeCanonicalValue (VOther t c) = Inl ErrNonCanonicalValue"
  by (simp_all add: writeCanonicalValue.simps canonicalRapideModuleValue_eq split: sum.splits)

lemma write_record [simp]:
  "canonicalValueCopy (VRecord m fs) = Inr (VRecord m' fs') \<Longrightarrow>
     writeCanonicalValue (VRecord m fs) =
       map_sum id (\<lambda>bytes. ''r'' @ writeCanonicalString m' @ PutUint64 (of_nat (length fs')) @ bytes) (writeFields fs')"
  unfolding canonicalRapideRecordValue_Inr [symmetric] by (simp add: writeCanonicalValue.simps)

lemma writeCanonicalFloat64_canonical:
  "writeCanonicalFloat64 f = map_sum id (\<lambda>f. CHR ''f'' # PutUint64 f) (canonicalFloat64 f)"
  by (simp add: writeCanonicalFloat64_def canonicalFloat64_def)

text \<open>Every canonical value has an encoding.\<close>

lemma write_total:
  "canonicalValueCopy v = Inr v \<Longrightarrow> \<exists>a. writeCanonicalValue v = Inr a"
  "canonicalItems vs = Inr vs \<Longrightarrow> \<exists>a. writeItems vs = Inr a"
  "canonicalParams ps = Inr ps \<Longrightarrow> \<exists>a. writeFields ps = Inr a"
  "canonicalRecordFields previous fs = Inr fs \<Longrightarrow> \<exists>a. writeFields fs = Inr a"
proof (induction v and vs and ps and previous fs
    rule: canonicalValueCopy_canonicalItems_canonicalParams_canonicalRecordFields.induct)
  case (8 m fs)
  then obtain a where "canonicalRecordFields None fs = Inr fs" "writeFields fs = Inr a"
    by (auto split: sum.splits)
  with 8 show ?case by simp
qed (auto simp: canonicalRapideModuleValue_eq writeCanonicalFloat64_canonical split: sum.splits if_splits)

text \<open>Unique decoding.\<close>

fun sized :: "go_value \<Rightarrow> bool" and sizedItems :: "go_value list \<Rightarrow> bool" and sizedFields :: "params \<Rightarrow> bool" where
  "sized (VString s) = (length s < 2 ^ 64)"
| "sized (VRapideString codes) = (length codes < 2 ^ 64)"
| "sized (VModule m) = (length m < 2 ^ 64)"
| "sized (VRecord m fs) = (length m < 2 ^ 64 \<and> length fs < 2 ^ 64 \<and> sizedFields fs)"
| "sized (VBytes b) = (length b < 2 ^ 64)"
| "sized (VList items) = (length items < 2 ^ 64 \<and> sizedItems items)"
| "sized (VMap ps) = (length ps < 2 ^ 64 \<and> sizedFields ps)"
| "sized _ = True"
| "sizedItems [] = True"
| "sizedItems (item # items) = (sized item \<and> sizedItems items)"
| "sizedFields [] = True"
| "sizedFields ((k, v) # rest) = (length k < 2 ^ 64 \<and> sized v \<and> sizedFields rest)"

lemma of_nat_u64_inj:
  assumes "m < 2 ^ 64" "n < 2 ^ 64"
  shows "(of_nat m :: u64) = of_nat n \<longleftrightarrow> m = n"
proof -
  have u: "k < 2 ^ 64 \<Longrightarrow> unat (of_nat k :: u64) = k" for k by (simp add: unsigned_of_nat take_bit_eq_mod)
  from u [OF assms(1)] u [OF assms(2)] show ?thesis by metis
qed

lemma PutUint64_length_prefix:
  "length xs < 2 ^ 64 \<Longrightarrow> length ys < 2 ^ 64 \<Longrightarrow>
     PutUint64 (of_nat (length xs)) @ s = PutUint64 (of_nat (length ys)) @ t \<longleftrightarrow> length xs = length ys \<and> s = t"
  by (simp add: PutUint64_prefix of_nat_u64_inj)

lemma writeString_prefix:
  "length a < 2 ^ 64 \<Longrightarrow> length b < 2 ^ 64 \<Longrightarrow>
     writeCanonicalString a @ s = writeCanonicalString b @ t \<longleftrightarrow> a = b \<and> s = t"
  unfolding writeCanonicalString_def append_assoc by (simp only: PutUint64_length_prefix) auto

lemma codes_prefix:
  "length xs = length ys \<Longrightarrow> concat (map PutUint64 xs) @ s = concat (map PutUint64 ys) @ t \<longleftrightarrow> xs = ys \<and> s = t"
  by (induction xs ys rule: list_induct2) (auto simp: PutUint64_prefix)

lemma sum_map_Inr: "map_sum id f x = Inr y \<longleftrightarrow> (\<exists>z. x = Inr z \<and> y = f z)"
  by (cases x) auto

lemmas prefix_simps = PutUint64_prefix of_nat_u64_inj writeString_prefix codes_prefix

lemma canonical_shape:
  assumes "canonicalValueCopy w = Inr w"
  obtains "w = VNil" | b where "w = VBool b" | "w = VTriv" | s where "w = VString s" | c where "w = VCharacter c"
    | codes where "w = VRapideString codes" | m where "w = VModule m" "ParseRapideModuleValue m = Inr m"
    | m fs where "w = VRecord m fs" "canonicalRecordFields None fs = Inr fs"
        "writeCanonicalValue (VRecord m fs) =
           map_sum id (\<lambda>bytes. ''r'' @ writeCanonicalString m @ PutUint64 (of_nat (length fs)) @ bytes) (writeFields fs)"
    | i where "w = VInt64 i" | u where "w = VUint64 u" | f where "w = VFloat64 f" "canonicalFloat64 f = Inr f"
    | b where "w = VBytes b" | items where "w = VList items" "canonicalItems items = Inr items"
    | m where "w = VMap m" "canonicalParams m = Inr m"
proof (cases w)
  case (VRecord m fs)
  with assms have "canonicalRecordFields None fs = Inr fs" by (auto split: sum.splits)
  with VRecord write_record assms that(8) show thesis by blast
qed (use assms that in \<open>auto simp: canonicalRapideModuleValue_eq split: sum.splits if_splits\<close>)

lemma write_unique:
  "canonicalValueCopy w = Inr w \<Longrightarrow> sized w \<Longrightarrow> canonicalValueCopy v = Inr v \<Longrightarrow> sized v \<Longrightarrow>
     writeCanonicalValue v = Inr a \<Longrightarrow> writeCanonicalValue w = Inr b \<Longrightarrow> a @ s = b @ t \<Longrightarrow> v = w \<and> s = t"
  "canonicalItems vs = Inr vs \<Longrightarrow> sizedItems vs \<Longrightarrow> canonicalItems ws = Inr ws \<Longrightarrow> sizedItems ws \<Longrightarrow>
     length vs = length ws \<Longrightarrow>
     writeItems vs = Inr a \<Longrightarrow> writeItems ws = Inr b \<Longrightarrow> a @ s = b @ t \<Longrightarrow> vs = ws \<and> s = t"
  "canonicalParams ps = Inr ps \<Longrightarrow> sizedFields ps \<Longrightarrow> canonicalParams qs = Inr qs \<Longrightarrow> sizedFields qs \<Longrightarrow>
     length ps = length qs \<Longrightarrow>
     writeFields ps = Inr a \<Longrightarrow> writeFields qs = Inr b \<Longrightarrow> a @ s = b @ t \<Longrightarrow> ps = qs \<and> s = t"
  "canonicalRecordFields p fs = Inr fs \<Longrightarrow> sizedFields fs \<Longrightarrow> canonicalRecordFields q gs = Inr gs \<Longrightarrow>
     sizedFields gs \<Longrightarrow> length fs = length gs \<Longrightarrow>
     writeFields fs = Inr a \<Longrightarrow> writeFields gs = Inr b \<Longrightarrow> a @ s = b @ t \<Longrightarrow> fs = gs \<and> s = t"
proof (induction v and vs and ps and p fs arbitrary: w a b s t and ws a b s t and qs a b s t and q gs a b s t
    rule: canonicalValueCopy_canonicalItems_canonicalParams_canonicalRecordFields.induct)
  case (8 m fs)
  note prems = "8.prems"
  from prems(3) have fs: "canonicalRapideModuleValue m = Inr m" "canonicalRecordFields None fs = Inr fs"
    by (auto split: sum.splits)
  note IH = "8.IH" [OF fs(1) fs(2)]
  from prems(3,5) obtain x where x: "writeFields fs = Inr x"
    "a = ''r'' @ writeCanonicalString m @ PutUint64 (of_nat (length fs)) @ x"
    by (auto simp: sum_map_Inr)
  from prems(1) show ?case
  proof (cases rule: canonical_shape)
    case (8 n gs)
    from prems(1,6) 8(1) obtain y where "writeFields gs = Inr y"
      "b = ''r'' @ writeCanonicalString n @ PutUint64 (of_nat (length gs)) @ y"
      by (auto simp: sum_map_Inr)
    then show ?thesis using IH [OF _ 8(2), of x y s t] x prems(2,4,7) 8(1) by (auto simp: prefix_simps)
  qed (use prems x in \<open>auto simp: sum_map_Inr writeCanonicalFloat64_canonical\<close>)
next
  case (22 items)
  note prems = "22.prems"
  from prems(3) have can: "canonicalItems items = Inr items" by (auto split: sum.splits)
  from prems(5) obtain x where x: "writeItems items = Inr x"
    "a = ''l'' @ PutUint64 (of_nat (length items)) @ x" by (auto simp: sum_map_Inr)
  from prems(1) show ?case
  proof (cases rule: canonical_shape)
    case (13 js)
    from prems(6) obtain y where y: "writeItems js = Inr y"
      "b = ''l'' @ PutUint64 (of_nat (length js)) @ y" unfolding 13 by (auto simp: sum_map_Inr)
    have sz: "sizedItems items" "sizedItems js" "length items = length js" and eq: "x @ s = y @ t"
      using prems(2,4,7) 13(1) x(2) y(2) by (simp_all add: prefix_simps)
    from "22.IH" [OF can sz(1) 13(2) sz(2,3) x(1) y(1) eq] show ?thesis unfolding 13 by simp
  qed (insert prems(6,7) x(2), simp_all add: sum_map_Inr writeCanonicalFloat64_canonical, auto)
next
  case (23 ps)
  note prems = "23.prems"
  from prems(3) have can: "canonicalParams ps = Inr ps" by (auto split: sum.splits)
  from prems(5) obtain x where x: "writeFields ps = Inr x"
    "a = ''m'' @ PutUint64 (of_nat (length ps)) @ x" by (auto simp: sum_map_Inr)
  from prems(1) show ?case
  proof (cases rule: canonical_shape)
    case (14 qs)
    from prems(6) obtain y where y: "writeFields qs = Inr y"
      "b = ''m'' @ PutUint64 (of_nat (length qs)) @ y" unfolding 14 by (auto simp: sum_map_Inr)
    have sz: "sizedFields ps" "sizedFields qs" "length ps = length qs" and eq: "x @ s = y @ t"
      using prems(2,4,7) 14(1) x(2) y(2) by (simp_all add: prefix_simps)
    from "23.IH" [OF can sz(1) 14(2) sz(2,3) x(1) y(1) eq] show ?thesis unfolding 14 by simp
  qed (insert prems(6,7) x(2), simp_all add: sum_map_Inr writeCanonicalFloat64_canonical, auto)
next
  case (26 item items)
  note prems = "26.prems"
  from prems(1) have can: "canonicalValueCopy item = Inr item" "canonicalItems items = Inr items"
    by (auto split: sum.splits)
  from prems(6) obtain x y where x: "writeCanonicalValue item = Inr x" "writeItems items = Inr y" "a = x @ y"
    by (auto simp: sum_map_Inr split: sum.splits)
  obtain i js where ws: "ws = i # js" using prems(5) by (cases ws) auto
  from prems(3) have can': "canonicalValueCopy i = Inr i" "canonicalItems js = Inr js"
    unfolding ws by (auto split: sum.splits)
  from prems(7) obtain x' y' where x': "writeCanonicalValue i = Inr x'" "writeItems js = Inr y'" "b = x' @ y'"
    unfolding ws by (auto simp: sum_map_Inr split: sum.splits)
  from prems(2,4,5) have sz: "sized item" "sized i" "sizedItems items" "sizedItems js" "length items = length js"
    unfolding ws by simp_all
  have eq: "x @ y @ s = x' @ y' @ t" using prems(8) x(3) x'(3) by simp
  from "26.IH"(1) [OF can'(1) sz(2) can(1) sz(1) x(1) x'(1) eq] have "item = i" "y @ s = y' @ t" by simp_all
  with "26.IH"(2) [OF can(1) can(2) sz(3) can'(2) sz(4,5) x(2) x'(2)] show ?case unfolding ws by simp
next
  case (28 k item rest)
  note prems = "28.prems"
  from prems(1) have can: "ValidString k" "canonicalValueCopy item = Inr item" "canonicalParams rest = Inr rest"
    by (auto split: sum.splits if_splits)
  from prems(6) obtain x y where x: "writeCanonicalValue item = Inr x" "writeFields rest = Inr y"
    "a = writeCanonicalString k @ x @ y"
    by (auto simp: sum_map_Inr split: sum.splits)
  obtain k' i js where qs: "qs = (k', i) # js" using prems(5) by (cases qs) auto
  from prems(3) have can': "canonicalValueCopy i = Inr i" "canonicalParams js = Inr js"
    unfolding qs by (auto split: sum.splits if_splits)
  from prems(7) obtain x' y' where x': "writeCanonicalValue i = Inr x'" "writeFields js = Inr y'"
    "b = writeCanonicalString k' @ x' @ y'"
    unfolding qs by (auto simp: sum_map_Inr split: sum.splits)
  from prems(2,4,5) have sz: "length k < 2 ^ 64" "length k' < 2 ^ 64" "sized item" "sized i"
    "sizedFields rest" "sizedFields js" "length rest = length js"
    unfolding qs by simp_all
  have "writeCanonicalString k @ x @ y @ s = writeCanonicalString k' @ x' @ y' @ t"
    using prems(8) x(3) x'(3) by simp
  then have eq: "k = k'" "x @ y @ s = x' @ y' @ t" unfolding writeString_prefix [OF sz(1,2)] by simp_all
  have nv: "\<not> \<not> ValidString k" using can(1) by simp
  from "28.IH"(1) [OF nv can'(1) sz(4) can(2) sz(3) x(1) x'(1) eq(2)] have "item = i" "y @ s = y' @ t" by simp_all
  with "28.IH"(2) [OF nv can(2) can(3) sz(5) can'(2) sz(6,7) x(2) x'(2)] eq(1) show ?case unfolding qs by simp
next
  case (30 p k item rest)
  note prems = "30.prems"
  from prems(1) have can: "\<not> (canonicalRapideIdentifier k \<noteq> Inr k \<or> (case p of None \<Rightarrow> False | Some p \<Rightarrow> k \<le> p))"
      "canonicalValueCopy item = Inr item" "canonicalRecordFields (Some k) rest = Inr rest"
    by (auto split: sum.splits if_splits)
  from prems(6) obtain x y where x: "writeCanonicalValue item = Inr x" "writeFields rest = Inr y"
    "a = writeCanonicalString k @ x @ y"
    by (auto simp: sum_map_Inr split: sum.splits)
  obtain k' i js where gs: "gs = (k', i) # js" using prems(5) by (cases gs) auto
  from prems(3) have can': "canonicalValueCopy i = Inr i" "canonicalRecordFields (Some k') js = Inr js"
    unfolding gs by (auto split: sum.splits if_splits)
  from prems(7) obtain x' y' where x': "writeCanonicalValue i = Inr x'" "writeFields js = Inr y'"
    "b = writeCanonicalString k' @ x' @ y'"
    unfolding gs by (auto simp: sum_map_Inr split: sum.splits)
  from prems(2,4,5) have sz: "length k < 2 ^ 64" "length k' < 2 ^ 64" "sized item" "sized i"
    "sizedFields rest" "sizedFields js" "length rest = length js"
    unfolding gs by simp_all
  have "writeCanonicalString k @ x @ y @ s = writeCanonicalString k' @ x' @ y' @ t"
    using prems(8) x(3) x'(3) by simp
  then have eq: "k = k'" "x @ y @ s = x' @ y' @ t" unfolding writeString_prefix [OF sz(1,2)] by simp_all
  from "30.IH"(1) [OF can(1) can'(1) sz(4) can(2) sz(3) x(1) x'(1) eq(2)] have "item = i" "y @ s = y' @ t" by simp_all
  with "30.IH"(2) [OF can(1) can(2) can(3) sz(5) can'(2) sz(6,7) x(2) x'(2)] eq(1) show ?case unfolding gs by simp
qed (simp; fail | erule canonical_shape; simp add: prefix_simps sum_map_Inr writeCanonicalFloat64_canonical; fail
     | erule canonical_shape; auto simp: prefix_simps sum_map_Inr writeCanonicalFloat64_canonical split: sum.splits if_splits)+

end
