(* ===== verification/Deterministic_Event.thy ===== *)
theory Deterministic_Event
  imports Canonical_Encoding
begin

text \<open>
  Content-derived identities of events and modules (\<open>deterministic_event.go\<close>, \<open>module_value.go\<close>): the
  buffers that are hashed and the constructors.

  The hash is an argument: \<open>sha256\<close> maps a byte string to its digest.  Equal identities mean equal
  content unless two different buffers collide under it; the theorems name the colliding buffers.
\<close>

section \<open>Event identities\<close>

record event_provenance =
  pv_profile :: string
  pv_model :: string
  pv_instance :: string
  pv_observationSource :: string
  pv_action :: string
  pv_occurrence :: string
  pv_causes :: "event_id list"
  pv_timings :: "event_timing list"

definition writeNames :: "event_provenance \<Rightarrow> string" where
  "writeNames p = writeCanonicalString (pv_profile p) @ writeCanonicalString (pv_model p)
     @ writeCanonicalString (pv_instance p) @ writeCanonicalString (pv_action p)
     @ writeCanonicalString (pv_occurrence p)"

definition writeCauses :: "event_id list \<Rightarrow> string" where
  "writeCauses causes = PutUint64 (of_nat (length causes)) @ concat (map writeCanonicalString causes)"

definition writeTimings :: "event_timing list \<Rightarrow> string" where
  "writeTimings timings = PutUint64 (of_nat (length timings)) @ concat (map (\<lambda>t.
     writeCanonicalString (et_clock t) @ PutUint64 (et_start t) @ PutUint64 (et_finish t)) timings)"

definition eventBytes :: "event_provenance \<Rightarrow> params \<Rightarrow> go_error + string" where
  \<comment> \<open>the buffer \<open>deriveEventID\<close> hashes\<close>
  "eventBytes p ps =
     (case normalizeCauses (pv_causes p) of Inl err \<Rightarrow> Inl err
      | Inr causes \<Rightarrow> (case writeCanonicalValue (VMap ps) of Inl err \<Rightarrow> Inl err
        | Inr bytes \<Rightarrow> Inr (''gorapide:event:v1'' @ writeNames p @ writeCauses causes @ bytes)))"

definition timedEventBytes :: "event_provenance \<Rightarrow> params \<Rightarrow> go_error + string" where
  \<comment> \<open>the buffer \<open>deriveTimedEventID\<close> hashes\<close>
  "timedEventBytes p ps =
     (case normalizeCauses (pv_causes p) of Inl err \<Rightarrow> Inl err
      | Inr causes \<Rightarrow> (case CanonicalizeEventTimings (pv_timings p) of Inl err \<Rightarrow> Inl err
        | Inr timings \<Rightarrow> (case writeCanonicalValue (VMap ps) of Inl err \<Rightarrow> Inl err
          | Inr bytes \<Rightarrow>
              Inr (''gorapide:event:v2'' @ writeNames p @ writeCauses causes @ writeTimings timings @ bytes))))"

definition deriveTimedEventID :: "(string \<Rightarrow> string) \<Rightarrow> event_provenance \<Rightarrow> params \<Rightarrow> go_error + event_id" where
  "deriveTimedEventID sha256 p ps =
     map_sum id (\<lambda>bytes. ''evt2-'' @ hexEncode (sha256 bytes)) (timedEventBytes p ps)"

definition deriveEventID :: "(string \<Rightarrow> string) \<Rightarrow> event_provenance \<Rightarrow> params \<Rightarrow> go_error + event_id" where
  "deriveEventID sha256 p ps =
     (if length (pv_timings p) \<noteq> 0 then deriveTimedEventID sha256 p ps
      else map_sum id (\<lambda>bytes. ''evt1-'' @ hexEncode (sha256 bytes)) (eventBytes p ps))"

definition NewDeterministicEvent ::
    "(string \<Rightarrow> string) \<Rightarrow> event_provenance \<Rightarrow> params \<Rightarrow> go_error + event" where
  "NewDeterministicEvent sha256 p ps =
     (if pv_profile p = '''' then Inl (ErrOther ''profile is empty'')
      else if pv_instance p = '''' then Inl (ErrOther ''instance is empty'')
      else if pv_action p = '''' then Inl (ErrOther ''action is empty'')
      else if pv_occurrence p = '''' then Inl (ErrOther ''occurrence is empty'')
      else case canonicalParams ps of Inl err \<Rightarrow> Inl err
      | Inr canonical \<Rightarrow> (case normalizeCauses (pv_causes p) of Inl err \<Rightarrow> Inl err
      | Inr causes \<Rightarrow> (case CanonicalizeEventTimings (pv_timings p) of Inl err \<Rightarrow> Inl err
      | Inr timings \<Rightarrow>
          let p = p\<lparr>pv_causes := causes, pv_timings := timings\<rparr>
          in case deriveEventID sha256 p canonical of Inl err \<Rightarrow> Inl err
             | Inr i \<Rightarrow>
               let observationSource = (if pv_observationSource p = '''' then pv_instance p else pv_observationSource p)
               in Inr \<lparr>ev_id = i, ev_name = pv_action p, ev_params = canonical,
                    ev_clock = \<lparr>cs_lamport = 0, cs_wall = 0, cs_vector = None\<rparr>,
                    ev_source = observationSource, ev_timings = timings,
                    ev_observations = [\<lparr>ob_name = pv_action p, ob_source = observationSource,
                      ob_params = copyParams canonical\<rparr>],
                    ev_immutable = False, ev_expectedCauses = causes, ev_deterministic = True\<rparr>)))"

text \<open>What determines the identity of an occurrence.\<close>

definition same_occurrence :: "event_provenance \<Rightarrow> event \<Rightarrow> event_provenance \<Rightarrow> event \<Rightarrow> bool" where
  "same_occurrence p e q f \<longleftrightarrow> pv_profile p = pv_profile q \<and> pv_model p = pv_model q
     \<and> pv_instance p = pv_instance q \<and> pv_action p = pv_action q \<and> pv_occurrence p = pv_occurrence q
     \<and> set (pv_causes p) = set (pv_causes q) \<and> ev_timings e = ev_timings f \<and> ev_params e = ev_params f"

definition hashedBytes :: "event_provenance \<Rightarrow> params \<Rightarrow> go_error + string" where
  "hashedBytes p ps = (if pv_timings p = [] then eventBytes p ps else timedEventBytes p ps)"

definition sized_names :: "event_provenance \<Rightarrow> bool" where
  "sized_names p \<longleftrightarrow> length (pv_profile p) < 2 ^ 64 \<and> length (pv_model p) < 2 ^ 64
     \<and> length (pv_instance p) < 2 ^ 64 \<and> length (pv_action p) < 2 ^ 64 \<and> length (pv_occurrence p) < 2 ^ 64
     \<and> length (pv_causes p) < 2 ^ 64 \<and> (\<forall>c \<in> set (pv_causes p). length c < 2 ^ 64)
     \<and> length (pv_timings p) < 2 ^ 64 \<and> (\<forall>t \<in> set (pv_timings p). length (et_clock t) < 2 ^ 64)"

lemma writeNames_prefix:
  assumes "sized_names p" "sized_names q"
  shows "writeNames p @ s = writeNames q @ t \<longleftrightarrow> pv_profile p = pv_profile q \<and> pv_model p = pv_model q
     \<and> pv_instance p = pv_instance q \<and> pv_action p = pv_action q \<and> pv_occurrence p = pv_occurrence q \<and> s = t"
  using assms unfolding writeNames_def append_assoc sized_names_def by (simp add: writeString_prefix)

lemma concat_prefix:
  assumes "length xs = length ys" "\<forall>x \<in> set xs. P x" "\<forall>y \<in> set ys. P y"
    and "\<And>x y s t. P x \<Longrightarrow> P y \<Longrightarrow> f x @ s = f y @ t \<Longrightarrow> x = y \<and> s = t" "concat (map f xs) @ s = concat (map f ys) @ t"
  shows "xs = ys \<and> s = t"
  using assms(1-3,5)
proof (induction xs ys rule: list_induct2)
  case (Cons x xs y ys)
  then have "f x @ concat (map f xs) @ s = f y @ concat (map f ys) @ t" by simp
  from assms(4) [OF _ _ this] Cons show ?case by simp
qed simp

lemma writeCauses_prefix:
  assumes "length cs < 2 ^ 64" "length ds < 2 ^ 64" "\<forall>c \<in> set cs. length c < 2 ^ 64" "\<forall>d \<in> set ds. length d < 2 ^ 64"
    "writeCauses cs @ s = writeCauses ds @ t"
  shows "cs = ds \<and> s = t"
proof -
  from assms(1,2,5) have l: "length cs = length ds"
    and e: "concat (map writeCanonicalString cs) @ s = concat (map writeCanonicalString ds) @ t"
    by (auto simp: writeCauses_def prefix_simps)
  show ?thesis by (rule concat_prefix [OF l assms(3,4) _ e]) (simp add: writeString_prefix)
qed

lemma writeTimings_prefix:
  assumes "length ts < 2 ^ 64" "length us < 2 ^ 64" "\<forall>t \<in> set ts. length (et_clock t) < 2 ^ 64"
    "\<forall>u \<in> set us. length (et_clock u) < 2 ^ 64" "writeTimings ts @ s = writeTimings us @ t"
  shows "ts = us \<and> s = t"
proof -
  let ?w = "\<lambda>t. writeCanonicalString (et_clock t) @ PutUint64 (et_start t) @ PutUint64 (et_finish t)"
  from assms(1,2,5) have l: "length ts = length us"
    and e: "concat (map ?w ts) @ s = concat (map ?w us) @ t"
    by (auto simp: writeTimings_def prefix_simps)
  show ?thesis
    by (rule concat_prefix [OF l assms(3,4) _ e]) (simp add: prefix_simps)
qed

lemma normalizeCauses_sized:
  assumes "normalizeCauses (pv_causes p) = Inr ds" "sized_names p"
  shows "length ds < 2 ^ 64" "\<forall>d \<in> set ds. length d < 2 ^ 64"
proof -
  note spec = normalizeCauses_spec [OF assms(1)]
  have "length ds = card (set (pv_causes p))" using spec distinct_card by metis
  also have "\<dots> \<le> length (pv_causes p)" by (rule card_length)
  finally show "length ds < 2 ^ 64" using assms(2) by (simp add: sized_names_def)
  show "\<forall>d \<in> set ds. length d < 2 ^ 64" using spec assms(2) by (simp add: sized_names_def)
qed

lemma canonicalize_sized:
  assumes "CanonicalizeEventTimings ts = Inr us"
  shows "length us = length ts" "set us = set ts"
  using Canonicalize_canonical [OF assms] by (metis mset_eq_length, metis mset_eq_setD)

lemma Canonicalize_idem:
  "CanonicalizeEventTimings ts = Inr us \<Longrightarrow> CanonicalizeEventTimings us = Inr us"
  using Canonicalize_canonical [of ts us]
  by (auto simp: Canonicalize_ok_iff canonical_timings_def sort_key_id_if_sorted)

text \<open>A successful construction, by its parts.\<close>

lemma NewDeterministicEvent_parts:
  assumes "NewDeterministicEvent sha p ps = Inr e"
  obtains causes bytes where "canonicalParams ps = Inr (ev_params e)" "normalizeCauses (pv_causes p) = Inr causes"
    "CanonicalizeEventTimings (pv_timings p) = Inr (ev_timings e)" "ev_expectedCauses e = causes"
    "hashedBytes p (ev_params e) = Inr bytes"
    "ev_id e = (if pv_timings p = [] then ''evt1-'' else ''evt2-'') @ hexEncode (sha bytes)"
proof -
  obtain canonical causes timings i where
    c: "canonicalParams ps = Inr canonical" "normalizeCauses (pv_causes p) = Inr causes"
      "CanonicalizeEventTimings (pv_timings p) = Inr timings"
      "deriveEventID sha (p\<lparr>pv_causes := causes, pv_timings := timings\<rparr>) canonical = Inr i"
    and e: "ev_id e = i" "ev_params e = canonical" "ev_timings e = timings" "ev_expectedCauses e = causes"
    using assms unfolding NewDeterministicEvent_def Let_def
    by (force split: if_splits sum.splits)
  let ?p = "p\<lparr>pv_causes := causes, pv_timings := timings\<rparr>"
  have nil: "timings = [] \<longleftrightarrow> pv_timings p = []"
    using canonicalize_sized(1) [OF c(3)] by (metis length_0_conv)
  have "writeNames ?p = writeNames p" by (simp add: writeNames_def)
  then have "hashedBytes ?p canonical = hashedBytes p canonical"
    using c(2,3) normalizeCauses_idem [OF c(2)] Canonicalize_idem [OF c(3)] nil
    by (simp add: hashedBytes_def eventBytes_def timedEventBytes_def split: sum.splits)
  moreover obtain bytes where "hashedBytes ?p canonical = Inr bytes"
    "i = (if timings = [] then ''evt1-'' else ''evt2-'') @ hexEncode (sha bytes)"
    using c(4) by (auto simp: deriveEventID_def deriveTimedEventID_def hashedBytes_def sum_map_Inr split: if_splits)
  ultimately show thesis using that [of causes bytes] c e nil by simp
qed

lemma hashedBytes_unique:
  assumes sz: "sized_names p" "sized_names q" "sized (VMap ps)" "sized (VMap qs)"
    and can: "canonicalParams ps = Inr ps" "canonicalParams qs = Inr qs"
    and eq: "hashedBytes p ps = Inr b" "hashedBytes q qs = Inr b"
    and nt: "pv_timings p = [] \<longleftrightarrow> pv_timings q = []"
    and ts: "CanonicalizeEventTimings (pv_timings p) = Inr ts" "CanonicalizeEventTimings (pv_timings q) = Inr us"
  shows "pv_profile p = pv_profile q \<and> pv_model p = pv_model q \<and> pv_instance p = pv_instance q
    \<and> pv_action p = pv_action q \<and> pv_occurrence p = pv_occurrence q
    \<and> set (pv_causes p) = set (pv_causes q) \<and> ts = us \<and> ps = qs"
proof -
  obtain cs ds x y where cs: "normalizeCauses (pv_causes p) = Inr cs" "normalizeCauses (pv_causes q) = Inr ds"
    and xy: "writeCanonicalValue (VMap ps) = Inr x" "writeCanonicalValue (VMap qs) = Inr y"
    using eq by (auto simp: hashedBytes_def eventBytes_def timedEventBytes_def split: sum.splits if_splits)
  have cz: "length cs < 2 ^ 64" "length ds < 2 ^ 64" "\<forall>c \<in> set cs. length c < 2 ^ 64" "\<forall>d \<in> set ds. length d < 2 ^ 64"
    by (rule normalizeCauses_sized [OF cs(1) sz(1)] normalizeCauses_sized [OF cs(2) sz(2)])+
  have tz: "length ts < 2 ^ 64" "length us < 2 ^ 64" "\<forall>t \<in> set ts. length (et_clock t) < 2 ^ 64"
    "\<forall>u \<in> set us. length (et_clock u) < 2 ^ 64"
    using canonicalize_sized [OF ts(1)] canonicalize_sized [OF ts(2)] sz(1,2) by (simp_all add: sized_names_def)
  define mid where "mid = (\<lambda>ts. if pv_timings p = [] then [] else writeTimings ts)"
  have "writeNames p @ writeCauses cs @ mid ts @ x = writeNames q @ writeCauses ds @ mid us @ y"
    using eq nt cs ts xy by (auto simp: hashedBytes_def eventBytes_def timedEventBytes_def mid_def split: if_splits)
  then have names: "pv_profile p = pv_profile q" "pv_model p = pv_model q" "pv_instance p = pv_instance q"
      "pv_action p = pv_action q" "pv_occurrence p = pv_occurrence q"
    and rest: "writeCauses cs @ mid ts @ x = writeCauses ds @ mid us @ y"
    unfolding writeNames_prefix [OF sz(1,2)] by simp_all
  from writeCauses_prefix [OF cz rest] have c: "cs = ds" and rest: "mid ts @ x = mid us @ y" by simp_all
  have t: "ts = us \<and> x = y"
  proof (cases "pv_timings p = []")
    case True
    then have "ts = []" "us = []"
      using nt canonicalize_sized(1) [OF ts(1)] canonicalize_sized(1) [OF ts(2)] by simp_all
    then show ?thesis using rest True by (simp add: mid_def)
  next
    case False
    then show ?thesis using writeTimings_prefix [OF tz] rest by (simp add: mid_def)
  qed
  have "VMap ps = VMap qs"
    using write_unique(1) [of "VMap qs" "VMap ps" x y "[]" "[]"] sz(3,4) can xy t by simp
  moreover have "set (pv_causes p) = set (pv_causes q)"
    using c normalizeCauses_spec [OF cs(1)] normalizeCauses_spec [OF cs(2)] by simp
  ultimately show ?thesis using names t by simp
qed

text \<open>The two constructions of module identities.\<close>

record module_provenance =
  mp_profile :: string
  mp_model :: string
  mp_parent :: string
  mp_generator :: string
  mp_occurrence :: string
  mp_causes :: "event_id list"

definition moduleBytes :: "module_provenance \<Rightarrow> event_id list \<Rightarrow> string" where
  \<comment> \<open>the buffer \<open>NewRapideModuleValue\<close> hashes\<close>
  "moduleBytes p causes = ''gorapide:rapide-module-allocation:v1'' @ writeCanonicalString (mp_profile p)
     @ writeCanonicalString (mp_model p) @ writeCanonicalString (mp_parent p)
     @ writeCanonicalString (mp_generator p) @ writeCanonicalString (mp_occurrence p) @ writeCauses causes"

definition NewRapideModuleValue :: "(string \<Rightarrow> string) \<Rightarrow> module_provenance \<Rightarrow> go_error + string" where
  "NewRapideModuleValue sha256 p =
     (if mp_profile p = '''' then Inl ErrInvalidRapideModuleValue
      else if mp_model p = '''' then Inl ErrInvalidRapideModuleValue
      else if mp_parent p = '''' then Inl ErrInvalidRapideModuleValue
      else if mp_generator p = '''' then Inl ErrInvalidRapideModuleValue
      else if mp_occurrence p = '''' then Inl ErrInvalidRapideModuleValue
      else case normalizeCauses (mp_causes p) of Inl err \<Rightarrow> Inl ErrInvalidRapideModuleValue
      | Inr causes \<Rightarrow> Inr (rapideModuleIdentityPrefix @ hexEncode (sha256 (moduleBytes p causes))))"

lemma NewRapideModuleValue_parses:
  assumes "\<And>x. length (sha256 x) = 32" "NewRapideModuleValue sha256 p = Inr m"
  shows "ParseRapideModuleValue m = Inr m"
  using assms by (auto simp: NewRapideModuleValue_def ParseRapideModuleValue_Inr split: if_splits sum.splits)

section \<open>Properties\<close>

text \<open>C26: The identity of a deterministic event is its content: two constructions with the same names,
  set of causes, canonical intervals and canonical parameters get the same ID whatever the order and
  repetition of the causes and the widths of the numbers; and the same ID means the same content, unless
  the two different hashed buffers collide.\<close>

theorem deterministic_identity_is_content:
  assumes "NewDeterministicEvent sha256 p ps = Inr e" "NewDeterministicEvent sha256 q qs = Inr f"
    and "sized_names p" "sized_names q" "sized (VMap (ev_params e))" "sized (VMap (ev_params f))"
  shows "(same_occurrence p e q f \<longrightarrow> ev_id e = ev_id f)
    \<and> (ev_id e = ev_id f \<longrightarrow> same_occurrence p e q f
        \<or> (\<exists>a b. hashedBytes p (ev_params e) = Inr a \<and> hashedBytes q (ev_params f) = Inr b
             \<and> a \<noteq> b \<and> sha256 a = sha256 b))"
proof -
  obtain cs a where e: "canonicalParams ps = Inr (ev_params e)" "normalizeCauses (pv_causes p) = Inr cs"
    "CanonicalizeEventTimings (pv_timings p) = Inr (ev_timings e)" "hashedBytes p (ev_params e) = Inr a"
    "ev_id e = (if pv_timings p = [] then ''evt1-'' else ''evt2-'') @ hexEncode (sha256 a)"
    by (rule NewDeterministicEvent_parts [OF assms(1)]) blast
  obtain ds b where f: "canonicalParams qs = Inr (ev_params f)" "normalizeCauses (pv_causes q) = Inr ds"
    "CanonicalizeEventTimings (pv_timings q) = Inr (ev_timings f)" "hashedBytes q (ev_params f) = Inr b"
    "ev_id f = (if pv_timings q = [] then ''evt1-'' else ''evt2-'') @ hexEncode (sha256 b)"
    by (rule NewDeterministicEvent_parts [OF assms(2)]) blast
  have nil: "pv_timings p = [] \<longleftrightarrow> ev_timings e = []" "pv_timings q = [] \<longleftrightarrow> ev_timings f = []"
    using canonicalize_sized(1) [OF e(3)] canonicalize_sized(1) [OF f(3)] by (metis length_0_conv)+
  have "ev_id e = ev_id f" if "same_occurrence p e q f"
  proof -
    have "cs = ds" using e(2) f(2) that by (auto simp: same_occurrence_def normalizeCauses_eq split: if_splits)
    moreover have "writeNames p = writeNames q" using that by (simp add: same_occurrence_def writeNames_def)
    ultimately have "a = b" using e(2-4) f(2-4) that nil
      by (auto simp: same_occurrence_def hashedBytes_def eventBytes_def timedEventBytes_def split: if_splits sum.splits)
    then show ?thesis using e(5) f(5) nil that by (simp add: same_occurrence_def)
  qed
  moreover have "same_occurrence p e q f" if "ev_id e = ev_id f" "a = b"
  proof -
    have nt: "pv_timings p = [] \<longleftrightarrow> pv_timings q = []" using that(1) e(5) f(5) by (auto split: if_splits)
    note can = canonicalValueCopy_idem(3) [OF e(1)] canonicalValueCopy_idem(3) [OF f(1)]
    show ?thesis
      using hashedBytes_unique [OF assms(3-6) conjunct1 [OF can(1)] conjunct1 [OF can(2)] e(4) f(4) [folded that(2)] nt e(3) f(3)]
      by (simp add: same_occurrence_def)
  qed
  moreover have "sha256 a = sha256 b" if "ev_id e = ev_id f"
    using that e(5) f(5) by (auto simp: hexEncode_inj split: if_splits)
  ultimately show ?thesis using e(4) f(4) by blast
qed

text \<open>Two spellings of one occurrence, hashed by a stand-in digest: the causes are repeated and
  permuted, the parameter is a narrow integer once.\<close>

definition sample_provenance :: "event_id list \<Rightarrow> event_provenance" where
  "sample_provenance causes = \<lparr>pv_profile = ''p'', pv_model = ''m'', pv_instance = ''i'',
     pv_observationSource = '''', pv_action = ''act'', pv_occurrence = ''1'', pv_causes = causes, pv_timings = []\<rparr>"

theorem deterministic_identity_is_content_witness:
  "\<exists>e f. NewDeterministicEvent (take 32) (sample_provenance [''b'', ''a'', ''b'']) [(''n'', VInt8 5)] = Inr e
     \<and> NewDeterministicEvent (take 32) (sample_provenance [''a'', ''b'']) [(''n'', VInt 5)] = Inr f
     \<and> ev_id e = ev_id f \<and> ev_params e = [(''n'', VInt64 5)]"
proof -
  have v: "ValidString ''n''" by (simp add: ValidString_def decodeRunes.simps)
  have c: "canonicalParams [(''n'', VInt8 5)] = Inr [(''n'', VInt64 5)]"
    "canonicalParams [(''n'', VInt 5)] = Inr [(''n'', VInt64 5)]"
    by (simp_all add: v)
  have n: "normalizeCauses [''b'', ''a'', ''b''] = Inr [''a'', ''b'']" "normalizeCauses [''a'', ''b''] = Inr [''a'', ''b'']"
    by code_simp+
  have t: "CanonicalizeEventTimings [] = Inr []" by (simp add: CanonicalizeEventTimings_def)
  let ?p = "sample_provenance [''b'', ''a'', ''b'']" and ?q = "sample_provenance [''a'', ''b'']"
  have "NewDeterministicEvent (take 32) ?p [(''n'', VInt8 5)] \<noteq> Inl err" for err
    by (simp add: NewDeterministicEvent_def sample_provenance_def v n t Let_def deriveEventID_def eventBytes_def)
  then obtain e where e: "NewDeterministicEvent (take 32) ?p [(''n'', VInt8 5)] = Inr e"
    by (cases "NewDeterministicEvent (take 32) ?p [(''n'', VInt8 5)]") auto
  have "NewDeterministicEvent (take 32) ?q [(''n'', VInt 5)] \<noteq> Inl err" for err
    by (simp add: NewDeterministicEvent_def sample_provenance_def v n t Let_def deriveEventID_def eventBytes_def)
  then obtain f where f: "NewDeterministicEvent (take 32) ?q [(''n'', VInt 5)] = Inr f"
    by (cases "NewDeterministicEvent (take 32) ?q [(''n'', VInt 5)]") auto
  have p: "ev_params e = [(''n'', VInt64 5)]" "ev_params f = [(''n'', VInt64 5)]"
    "ev_timings e = []" "ev_timings f = []"
  proof -
    have "canonicalParams [(''n'', VInt8 5)] = Inr (ev_params e)" "CanonicalizeEventTimings (pv_timings ?p) = Inr (ev_timings e)"
      by (rule NewDeterministicEvent_parts [OF e]; assumption)+
    moreover have "canonicalParams [(''n'', VInt 5)] = Inr (ev_params f)" "CanonicalizeEventTimings (pv_timings ?q) = Inr (ev_timings f)"
      by (rule NewDeterministicEvent_parts [OF f]; assumption)+
    ultimately show "ev_params e = [(''n'', VInt64 5)]" "ev_params f = [(''n'', VInt64 5)]"
      "ev_timings e = []" "ev_timings f = []"
      unfolding c by (simp_all add: t sample_provenance_def)
  qed
  have s: "sized_names ?p" "sized_names ?q" "sized (VMap [(''n'', VInt64 5)])"
    by (simp_all add: sized_names_def sample_provenance_def)
  have "same_occurrence ?p e ?q f" by (auto simp: same_occurrence_def sample_provenance_def p)
  with deterministic_identity_is_content [OF e f s(1,2)] s(3) p(1,2) have "ev_id e = ev_id f" by simp
  with e f p show ?thesis by blast
qed

end
