(* ===== verification/Record_Values.thy ===== *)
theory Record_Values
  imports Deterministic_Event
begin

text \<open>
  Record-literal modules (\<open>rapide_record_value.go\<close>): normalization of the field initializers, allocation
  and selection.  A record value is its module identity with its name-sorted fields.
\<close>

type_synonym record_value = "string \<times> params"

fun normalizeFieldsLoop :: "string list \<Rightarrow> params \<Rightarrow> go_error + params" where
  \<comment> \<open>the loop over the initializers, with the names seen so far\<close>
  "normalizeFieldsLoop seen [] = Inr []"
| "normalizeFieldsLoop seen ((field, value) # rest) =
     (case canonicalRapideIdentifier field of Inl err \<Rightarrow> Inl err
      | Inr name \<Rightarrow>
        if name \<in> set seen then Inl (ErrOther ''duplicate field'')
        else case canonicalValueCopy value of Inl err \<Rightarrow> Inl err
        | Inr value \<Rightarrow> (case normalizeFieldsLoop (name # seen) rest of Inl err \<Rightarrow> Inl err
          | Inr normalized \<Rightarrow> Inr ((name, value) # normalized)))"

definition normalizeRapideRecordFields :: "params \<Rightarrow> go_error + params" where
  "normalizeRapideRecordFields initializers =
     map_sum id (sort_key fst) (normalizeFieldsLoop [] initializers)"

definition NewRapideRecordValue ::
    "(string \<Rightarrow> string) \<Rightarrow> module_provenance \<Rightarrow> params \<Rightarrow> go_error + record_value" where
  "NewRapideRecordValue sha256 provenance initializers =
     (case normalizeRapideRecordFields initializers of Inl err \<Rightarrow> Inl ErrInvalidRapideRecordValue
      | Inr normalized \<Rightarrow> (case NewRapideModuleValue sha256 provenance of Inl err \<Rightarrow> Inl ErrInvalidRapideRecordValue
        | Inr m \<Rightarrow> Inr (m, normalized)))"

definition RecordIdentity :: "record_value \<Rightarrow> string" where
  "RecordIdentity value = fst value"

definition SameRapideRecord :: "record_value \<Rightarrow> record_value \<Rightarrow> bool" where
  "SameRapideRecord left right = SameRapideModule (fst left) (fst right)"

definition FieldNames :: "record_value \<Rightarrow> string list" where
  "FieldNames value = map fst (snd value)"

definition Field :: "record_value \<Rightarrow> string \<Rightarrow> go_error + go_value \<times> bool" where
  "Field value name =
     (case canonicalRapideIdentifier name of Inl err \<Rightarrow> Inl ErrInvalidRapideRecordValue
      | Inr canonical \<Rightarrow>
        let fs = snd value; index = sort_search (length fs) (\<lambda>i. canonical \<le> fst (fs ! i))
        in if index = length fs \<or> fst (fs ! index) \<noteq> canonical then Inr (VNil, False)
           else case canonicalValueCopy (snd (fs ! index)) of Inl err \<Rightarrow> Inl ErrInvalidRapideRecordValue
             | Inr result \<Rightarrow> Inr (result, True))"

section \<open>Normalization\<close>

lemma normalizeFieldsLoop_spec:
  "normalizeFieldsLoop seen fs = Inr gs \<Longrightarrow> distinct (map fst gs) \<and> set (map fst gs) \<inter> set seen = {}
     \<and> (\<forall>(n, w) \<in> set gs. canonicalRapideIdentifier n = Inr n \<and> canonicalValueCopy w = Inr w)
     \<and> (\<forall>n w. (n, w) \<in> set gs \<longleftrightarrow>
          (\<exists>f v. (f, v) \<in> set fs \<and> canonicalRapideIdentifier f = Inr n \<and> canonicalValueCopy v = Inr w))"
proof (induction seen fs arbitrary: gs rule: normalizeFieldsLoop.induct)
  case (2 seen f v rest)
  from "2.prems" obtain n w hs where n: "canonicalRapideIdentifier f = Inr n" "n \<notin> set seen"
    "canonicalValueCopy v = Inr w" "normalizeFieldsLoop (n # seen) rest = Inr hs" "gs = (n, w) # hs"
    by (auto split: sum.splits if_splits)
  note IH = "2.IH" [OF n(1,2,3,4)]
  have "canonicalRapideIdentifier n = Inr n" "canonicalValueCopy w = Inr w"
    using canonicalRapideIdentifier_idem(1) [OF n(1)] canonicalValueCopy_idem(1) [OF n(3)] .
  then show ?case using IH n by auto
qed simp

lemma normalizeRapideRecordFields_spec:
  assumes "normalizeRapideRecordFields fs = Inr gs"
  shows "sorted (map fst gs)" "distinct (map fst gs)"
    "\<forall>(n, w) \<in> set gs. canonicalRapideIdentifier n = Inr n \<and> canonicalValueCopy w = Inr w"
    "(n, w) \<in> set gs \<longleftrightarrow>
       (\<exists>f v. (f, v) \<in> set fs \<and> canonicalRapideIdentifier f = Inr n \<and> canonicalValueCopy v = Inr w)"
proof -
  obtain hs where hs: "normalizeFieldsLoop [] fs = Inr hs" "gs = sort_key fst hs"
    using assms by (auto simp: normalizeRapideRecordFields_def sum_map_Inr)
  note spec = normalizeFieldsLoop_spec [OF hs(1)]
  show "sorted (map fst gs)" unfolding hs(2) by (rule sorted_sort_key)
  have "mset (map fst gs) = mset (map fst hs)" by (simp add: hs(2))
  then show "distinct (map fst gs)" using spec mset_eq_imp_distinct_iff by blast
  show "\<forall>(n, w) \<in> set gs. canonicalRapideIdentifier n = Inr n \<and> canonicalValueCopy w = Inr w"
    "(n, w) \<in> set gs \<longleftrightarrow>
       (\<exists>f v. (f, v) \<in> set fs \<and> canonicalRapideIdentifier f = Inr n \<and> canonicalValueCopy v = Inr w)"
    using spec by (simp_all add: hs(2))
qed

text \<open>A normalized field table passes the checks of a canonical record.\<close>

lemma canonicalRecordFields_sorted:
  "sorted (map fst gs) \<Longrightarrow> distinct (map fst gs) \<Longrightarrow>
     \<forall>(n, w) \<in> set gs. canonicalRapideIdentifier n = Inr n \<and> canonicalValueCopy w = Inr w \<Longrightarrow>
     (case previous of None \<Rightarrow> True | Some p \<Rightarrow> \<forall>n \<in> set (map fst gs). p < n) \<Longrightarrow>
     canonicalRecordFields previous gs = Inr gs"
proof (induction gs arbitrary: previous)
  case (Cons g gs)
  obtain n w where g: "g = (n, w)" by (cases g)
  have "\<forall>m \<in> set (map fst gs). n < m" using Cons.prems(1,2) by (auto simp: g less_le)
  with Cons.IH [of "Some n"] Cons.prems have "canonicalRecordFields (Some n) gs = Inr gs" by (simp add: g)
  then show ?case using Cons.prems by (auto simp: g split: option.splits)
qed simp

lemma Field_lookup:
  assumes "sorted (map fst gs)" "distinct (map fst gs)" "canonicalRapideIdentifier name = Inr c"
    "\<forall>(n, w) \<in> set gs. canonicalValueCopy w = Inr w"
  shows "Field (m, gs) name = (case map_of gs c of None \<Rightarrow> Inr (VNil, False) | Some w \<Rightarrow> Inr (w, True))"
proof -
  let ?i = "sort_search (length gs) (\<lambda>i. c \<le> fst (gs ! i))"
  have "sort_search (length (map fst gs)) (\<lambda>i. c \<le> map fst gs ! i) = ?i"
    unfolding length_map by (rule sort_search_cong) simp
  note found = sort_search_key [OF assms(1,2), of c, unfolded this]
  have found: "c \<in> set (map fst gs) \<longleftrightarrow> ?i < length gs \<and> fst (gs ! ?i) = c"
    unfolding found by (cases "?i < length gs") simp_all
  show ?thesis
  proof (cases "c \<in> set (map fst gs)")
    case True
    then have i: "?i < length gs" "fst (gs ! ?i) = c" unfolding found by blast+
    then have "(c, snd (gs ! ?i)) \<in> set gs" by (metis nth_mem prod.collapse)
    moreover from this have "map_of gs c = Some (snd (gs ! ?i))" using assms(2) by simp
    ultimately show ?thesis using i assms(3,4) by (auto simp: Field_def Let_def)
  next
    case False
    then have "\<not> (?i < length gs \<and> fst (gs ! ?i) = c)" unfolding found .
    then have "?i = length gs \<or> fst (gs ! ?i) \<noteq> c" 
      using sort_search_le [of "length gs" "\<lambda>i. c \<le> fst (gs ! i)"] by auto
    moreover have "map_of gs c = None" using False by (simp add: map_of_eq_None_iff)
    ultimately show ?thesis using assms(3) by (auto simp: Field_def Let_def)
  qed
qed

text \<open>When normalization succeeds, independently of the order of the initializers.\<close>

definition field_name :: "string \<Rightarrow> string" where
  "field_name f = (case canonicalRapideIdentifier f of Inr n \<Rightarrow> n | Inl _ \<Rightarrow> [])"

definition field_value :: "go_value \<Rightarrow> go_value" where
  "field_value v = (case canonicalValueCopy v of Inr w \<Rightarrow> w | Inl _ \<Rightarrow> VNil)"

lemma normalizeFieldsLoop_iff:
  "normalizeFieldsLoop seen fs = Inr gs \<longleftrightarrow>
     (\<forall>(f, v) \<in> set fs. canonicalRapideIdentifier f = Inr (field_name f) \<and> canonicalValueCopy v = Inr (field_value v))
     \<and> distinct (map (field_name \<circ> fst) fs) \<and> (field_name \<circ> fst) ` set fs \<inter> set seen = {}
     \<and> gs = map (\<lambda>(f, v). (field_name f, field_value v)) fs"
proof (induction seen fs arbitrary: gs rule: normalizeFieldsLoop.induct)
  case (2 seen f v rest)
  show ?case
  proof (cases "\<exists>n w. canonicalRapideIdentifier f = Inr n \<and> n \<notin> set seen \<and> canonicalValueCopy v = Inr w")
    case True
    then obtain n w where n: "canonicalRapideIdentifier f = Inr n" "n \<notin> set seen" "canonicalValueCopy v = Inr w"
      by blast
    have fv: "field_name f = n" "field_value v = w" using n by (simp_all add: field_name_def field_value_def)
    have run: "normalizeFieldsLoop seen ((f, v) # rest) = Inr gs \<longleftrightarrow>
        (\<exists>hs. normalizeFieldsLoop (n # seen) rest = Inr hs \<and> gs = (n, w) # hs)"
      using n by (auto split: sum.splits)
    show ?thesis unfolding run "2.IH" [OF n] using n fv by (auto simp: comp_def)
  next
    case False
    then have "normalizeFieldsLoop seen ((f, v) # rest) \<noteq> Inr gs" by (auto split: sum.splits if_splits)
    moreover have "\<not> (canonicalRapideIdentifier f = Inr (field_name f) \<and> field_name f \<notin> set seen
        \<and> canonicalValueCopy v = Inr (field_value v))"
      using False by blast
    ultimately show ?thesis by auto
  qed
qed auto

lemma normalizeRapideRecordFields_perm:
  assumes "normalizeRapideRecordFields fs = Inr gs" "mset hs = mset fs"
  shows "normalizeRapideRecordFields hs = Inr gs"
proof -
  let ?g = "\<lambda>(f, v). (field_name f, field_value v)"
  obtain is' where fs: "normalizeFieldsLoop [] fs = Inr is'" "gs = sort_key fst is'"
    using assms(1) by (auto simp: normalizeRapideRecordFields_def sum_map_Inr)
  have st: "set hs = set fs" using assms(2) by (rule mset_eq_setD)
  have "mset (map (field_name \<circ> fst) hs) = mset (map (field_name \<circ> fst) fs)" using assms(2) by simp
  then have d: "distinct (map (field_name \<circ> fst) hs)"
    using fs(1) unfolding normalizeFieldsLoop_iff by (metis mset_eq_imp_distinct_iff)
  then have run: "normalizeFieldsLoop [] hs = Inr (map ?g hs)"
    using fs(1) unfolding normalizeFieldsLoop_iff st by simp
  have gs: "gs = sort_key fst (map ?g fs)" using fs unfolding normalizeFieldsLoop_iff by simp
  have keys: "map fst (map ?g fs) = map (field_name \<circ> fst) fs" for fs by (induction fs) auto
  have dk: "distinct (map fst (sort_key fst (map ?g hs)))" "distinct (map fst (sort_key fst (map ?g fs)))"
  proof -
    have e: "distinct (map fst (sort_key fst xs)) = distinct (map fst xs)" for xs :: params
      by (metis mset_eq_imp_distinct_iff mset_map mset_sort)
    show "distinct (map fst (sort_key fst (map ?g hs)))" using d unfolding e keys .
    show "distinct (map fst (sort_key fst (map ?g fs)))"
      using fs(1) unfolding e keys normalizeFieldsLoop_iff by simp
  qed
  have sg: "set (sort_key fst (map ?g hs)) = set (sort_key fst (map ?g fs))" using st by simp
  have inj: "inj_on fst (set (sort_key fst (map ?g hs)) \<union> set (sort_key fst (map ?g fs)))"
    using dk(1) unfolding sg [symmetric] Un_absorb by (simp only: distinct_map)
  have "sort_key fst (map ?g hs) = sort_key fst (map ?g fs)"
    by (rule map_sorted_distinct_set_unique [OF inj sorted_sort_key dk(1) sorted_sort_key dk(2) sg])
  then show ?thesis by (simp add: normalizeRapideRecordFields_def run gs)
qed

section \<open>Properties\<close>

text \<open>A record literal selects what it was given: the value is a canonical record, selection by any
  spelling of a field's name returns the canonical copy of its initializer, an absent name is reported
  without a value, and the order of the initializers does not matter.\<close>

lemma record_literal_selects:
  assumes "\<And>x. length (sha256 x) = 32" "NewRapideRecordValue sha256 provenance fs = Inr (m, gs)"
  shows "canonicalValueCopy (VRecord m gs) = Inr (VRecord m gs)
    \<and> (\<forall>name c f v. canonicalRapideIdentifier name = Inr c \<and> (f, v) \<in> set fs \<and> canonicalRapideIdentifier f = Inr c
        \<longrightarrow> (\<exists>w. canonicalValueCopy v = Inr w \<and> Field (m, gs) name = Inr (w, True)))
    \<and> (\<forall>name c. canonicalRapideIdentifier name = Inr c \<and> (\<forall>(f, v) \<in> set fs. canonicalRapideIdentifier f \<noteq> Inr c)
        \<longrightarrow> Field (m, gs) name = Inr (VNil, False))
    \<and> (\<forall>hs. mset hs = mset fs \<longrightarrow> NewRapideRecordValue sha256 provenance hs = Inr (m, gs))"
proof (intro conjI allI impI)
  have norm: "normalizeRapideRecordFields fs = Inr gs" and m: "NewRapideModuleValue sha256 provenance = Inr m"
    using assms(2) by (auto simp: NewRapideRecordValue_def split: sum.splits)
  note spec = normalizeRapideRecordFields_spec [OF norm]
  show "canonicalValueCopy (VRecord m gs) = Inr (VRecord m gs)"
    using NewRapideModuleValue_parses [OF assms(1) m] canonicalRecordFields_sorted [OF spec(1-3), of None]
    by (simp add: canonicalRapideModuleValue_eq)
  have copies: "\<forall>(n, w) \<in> set gs. canonicalValueCopy w = Inr w" using spec(3) by auto
  note lookup = Field_lookup [OF spec(1,2) _ copies, of _ _ m]
  show "NewRapideRecordValue sha256 provenance hs = Inr (m, gs)" if "mset hs = mset fs" for hs
    using normalizeRapideRecordFields_perm [OF norm that] m by (simp add: NewRapideRecordValue_def)
  fix name c
  show "\<exists>w. canonicalValueCopy v = Inr w \<and> Field (m, gs) name = Inr (w, True)"
    if h: "canonicalRapideIdentifier name = Inr c \<and> (f, v) \<in> set fs \<and> canonicalRapideIdentifier f = Inr c" for f v
  proof -
    obtain hs where "normalizeFieldsLoop [] fs = Inr hs"
      using norm by (auto simp: normalizeRapideRecordFields_def sum_map_Inr)
    then obtain w where w: "canonicalValueCopy v = Inr w" using h unfolding normalizeFieldsLoop_iff by blast
    then have "(c, w) \<in> set gs" using h spec(4) by blast
    then have "map_of gs c = Some w" using spec(2) by simp
    then show ?thesis using lookup [of name c] h w by simp
  qed
  assume h: "canonicalRapideIdentifier name = Inr c \<and> (\<forall>(f, v) \<in> set fs. canonicalRapideIdentifier f \<noteq> Inr c)"
  then have "c \<notin> fst ` set gs" using spec(4) by force
  then have "map_of gs c = None" by (simp add: map_of_eq_None_iff)
  then show "Field (m, gs) name = Inr (VNil, False)" using lookup [of name c] h by simp
qed

definition sample_module_provenance :: module_provenance where
  "sample_module_provenance = \<lparr>mp_profile = ''p'', mp_model = ''m'', mp_parent = ''q'', mp_generator = ''g'',
     mp_occurrence = ''1'', mp_causes = []\<rparr>"

lemma record_literal_selects_witness:
  "\<exists>m gs. NewRapideRecordValue (\<lambda>x. replicate 32 CHR ''h'') sample_module_provenance
       [(''Y'', VBool True), (''x'', VInt8 3)] = Inr (m, gs)
     \<and> Field (m, gs) ''X'' = Inr (VInt64 3, True) \<and> Field (m, gs) ''z'' = Inr (VNil, False)"
proof -
  let ?fs = "[(''Y'', VBool True), (''x'', VInt8 3)]"
  have ids: "canonicalRapideIdentifier ''Y'' = Inr ''y''" "canonicalRapideIdentifier ''x'' = Inr ''x''"
    "canonicalRapideIdentifier ''X'' = Inr ''x''" "canonicalRapideIdentifier ''z'' = Inr ''z''"
    by code_simp+
  obtain gs where gs: "normalizeRapideRecordFields ?fs = Inr gs"
    by (simp add: normalizeRapideRecordFields_def ids)
  have "normalizeCauses [] = Inr []" by code_simp
  then obtain m where "NewRapideModuleValue (\<lambda>x. replicate 32 CHR ''h'') sample_module_provenance = Inr m"
    by (simp add: NewRapideModuleValue_def sample_module_provenance_def)
  with gs have run: "NewRapideRecordValue (\<lambda>x. replicate 32 CHR ''h'') sample_module_provenance ?fs = Inr (m, gs)"
    by (simp add: NewRapideRecordValue_def)
  have len: "length (replicate 32 CHR ''h'') = 32" by simp
  note sel = record_literal_selects [OF len run]
  have "\<exists>w. canonicalValueCopy (VInt8 3) = Inr w \<and> Field (m, gs) ''X'' = Inr (w, True)"
    using sel ids by (metis list.set_intros(1,2))
  moreover have "Field (m, gs) ''z'' = Inr (VNil, False)" using sel ids by simp
  ultimately show ?thesis using run by auto
qed

end
