(* ===== verification/Canonical_Value.thy ===== *)
theory Canonical_Value
  imports Record_Values
begin

text \<open>
  The typed representation of canonical values (\<open>canonical.go\<close>): \<open>toCanonicalValue\<close> and
  \<open>fromCanonicalValue\<close>, parameter lists and timings.  The lemmas give the round trip from a value through
  its representation: it yields the canonical copy, except that the decoder rejects the empty
  parameter name, which the encoder accepts.
\<close>

datatype canonical_value = CanonicalValue
  (cv_kind: string) (cv_text: string) (cv_bool: bool) (cv_items: "canonical_value list")
  (cv_fields: "(string \<times> canonical_value) list")

abbreviation cv_leaf :: "string \<Rightarrow> string \<Rightarrow> canonical_value" where
  "cv_leaf kind txt \<equiv> CanonicalValue kind txt False [] []"

section \<open>Encoding\<close>

lemma nodes_copy_measure [termination_simp]:
  "canonicalValueCopy v = Inr (VList items) \<Longrightarrow> nodesItems items < nodes v"
  "canonicalValueCopy v = Inr (VMap ps) \<Longrightarrow> nodesParams ps < nodes v"
  "canonicalValueCopy v = Inr (VRecord m fs) \<Longrightarrow> nodesParams fs < nodes v"
  by (drule nodes_copy(1), simp)+

function toCanonicalValue :: "go_value \<Rightarrow> go_error + canonical_value"
  and toItems :: "go_value list \<Rightarrow> go_error + canonical_value list"
  and toFields :: "params \<Rightarrow> go_error + (string \<times> canonical_value) list" where
  "toCanonicalValue value = (case canonicalValueCopy value of Inl err \<Rightarrow> Inl err
     | Inr value \<Rightarrow> (case value of
        VNil \<Rightarrow> Inr (cv_leaf ''null'' [])
      | VBool b \<Rightarrow> Inr (CanonicalValue ''bool'' [] b [] [])
      | VTriv \<Rightarrow> Inr (cv_leaf ''triv'' [])
      | VString s \<Rightarrow> Inr (cv_leaf ''string'' s)
      | VCharacter code \<Rightarrow> Inr (cv_leaf ''character'' (FormatInt code))
      | VRapideString codes \<Rightarrow> Inr (CanonicalValue ''string-codes'' [] False
          (map (\<lambda>code. cv_leaf ''character'' (FormatInt code)) codes) [])
      | VModule m \<Rightarrow> Inr (cv_leaf ''module'' m)
      | VRecord m fs \<Rightarrow> map_sum id (CanonicalValue ''record'' m False []) (toFields fs)
      | VInt64 i \<Rightarrow> Inr (cv_leaf ''integer'' (FormatInt i))
      | VUint64 u \<Rightarrow> Inr (cv_leaf ''unsigned'' (FormatUint u))
      | VFloat64 f \<Rightarrow> Inr (cv_leaf ''float64'' (FormatHex16 f))
      | VBytes b \<Rightarrow> Inr (cv_leaf ''bytes'' (base64Encode b))
      | VList items \<Rightarrow> map_sum id (\<lambda>items. CanonicalValue ''list'' [] False items []) (toItems items)
      | VMap m \<Rightarrow> map_sum id (CanonicalValue ''object'' [] False []) (toFields m)
      | _ \<Rightarrow> Inl ErrNonCanonicalValue))"
| "toItems [] = Inr []"
| "toItems (item # items) = (case toCanonicalValue item of Inl err \<Rightarrow> Inl err
     | Inr canonical \<Rightarrow> map_sum id ((#) canonical) (toItems items))"
| "toFields [] = Inr []"
| "toFields ((key, value) # rest) = (case toCanonicalValue value of Inl err \<Rightarrow> Inl err
     | Inr canonical \<Rightarrow> map_sum id ((#) (key, canonical)) (toFields rest))"
  by pat_completeness auto
termination
  by (relation "measure (case_sum nodes (case_sum nodesItems nodesParams))")
    (auto simp: nodes_copy_measure)

declare toCanonicalValue.simps [simp del]

definition EncodeCanonicalValue :: "go_value \<Rightarrow> go_error + canonical_value" where
  "EncodeCanonicalValue value = toCanonicalValue value"

definition CanonicalizeParameters :: "params \<Rightarrow> go_error + (string \<times> canonical_value) list" where
  \<comment> \<open>the entries of a parameter map are listed in key order\<close>
  "CanonicalizeParameters ps = (case canonicalParams ps of Inl err \<Rightarrow> Inl err | Inr ps \<Rightarrow> toFields ps)"

section \<open>Decoding\<close>

fun fromCanonicalValue :: "canonical_value \<Rightarrow> go_error + go_value"
  and fromItems :: "canonical_value list \<Rightarrow> go_error + go_value list"
  and fromCodes :: "canonical_value list \<Rightarrow> go_error + i64 list"
  and fromRecordFields :: "string option \<Rightarrow> (string \<times> canonical_value) list \<Rightarrow> go_error + params"
  and fromFields :: "string option \<Rightarrow> (string \<times> canonical_value) list \<Rightarrow> go_error + params" where
  "fromCanonicalValue (CanonicalValue kind txt b items fs) =
     (if kind = ''null'' then Inr VNil
      else if kind = ''bool'' then Inr (VBool b)
      else if kind = ''triv'' then Inr VTriv
      else if kind = ''string'' then Inr (VString txt)
      else if kind = ''character'' then
        (case ParseInt txt of None \<Rightarrow> Inl (ErrOther ''invalid Character code'') | Some i \<Rightarrow> Inr (VCharacter i))
      else if kind = ''string-codes'' then map_sum id VRapideString (fromCodes items)
      else if kind = ''module'' then map_sum id VModule (ParseRapideModuleValue txt)
      else if kind = ''record'' then
        (case ParseRapideModuleValue txt of Inl err \<Rightarrow> Inl err
         | Inr m \<Rightarrow> (case fromRecordFields None fs of Inl err \<Rightarrow> Inl err
           | Inr fs \<Rightarrow> canonicalValueCopy (VRecord m fs)))
      else if kind = ''integer'' then
        (case ParseInt txt of None \<Rightarrow> Inl (ErrOther ''invalid integer'') | Some i \<Rightarrow> Inr (VInt64 i))
      else if kind = ''unsigned'' then
        (case ParseUint txt of None \<Rightarrow> Inl (ErrOther ''invalid unsigned integer'') | Some u \<Rightarrow> Inr (VUint64 u))
      else if kind = ''float64'' then
        (case ParseHex txt of None \<Rightarrow> Inl (ErrOther ''invalid float64 bits'')
         | Some bits \<Rightarrow> if length txt \<noteq> 16 then Inl (ErrOther ''invalid float64 bits'')
             else if IsNaN bits \<or> IsInf bits then Inl (ErrOther ''invalid non-finite float64'')
             else Inr (VFloat64 bits))
      else if kind = ''bytes'' then
        (case base64Decode txt of None \<Rightarrow> Inl (ErrOther ''invalid base64 bytes'') | Some b \<Rightarrow> Inr (VBytes b))
      else if kind = ''list'' then map_sum id VList (fromItems items)
      else if kind = ''object'' then map_sum id VMap (fromFields None fs)
      else Inl (ErrOther ''unknown canonical value kind''))"
| "fromItems [] = Inr []"
| "fromItems (item # items) = (case fromCanonicalValue item of Inl err \<Rightarrow> Inl err
     | Inr decoded \<Rightarrow> map_sum id ((#) decoded) (fromItems items))"
| "fromCodes [] = Inr []"
| "fromCodes (item # items) = (case fromCanonicalValue item of Inl err \<Rightarrow> Inl err
     | Inr decoded \<Rightarrow> (case decoded of
          VCharacter code \<Rightarrow> map_sum id ((#) code) (fromCodes items)
        | _ \<Rightarrow> Inl (ErrOther ''String item is not a Character'')))"
| "fromRecordFields previous [] = Inr []"
| "fromRecordFields previous ((field, value) # rest) =
     (if canonicalRapideIdentifier field \<noteq> Inr field
         \<or> (case previous of None \<Rightarrow> False | Some p \<Rightarrow> field \<le> p)
      then Inl (ErrOther ''Record fields are invalid, noncanonical, duplicate, or unordered'')
      else case fromCanonicalValue value of Inl err \<Rightarrow> Inl err
      | Inr decoded \<Rightarrow> map_sum id ((#) (field, decoded)) (fromRecordFields (Some field) rest))"
| "fromFields previous [] = Inr []"
| "fromFields previous ((field, value) # rest) =
     (if field = [] \<or> (case previous of None \<Rightarrow> False | Some p \<Rightarrow> field \<le> p)
      then Inl (ErrOther ''object fields are empty, duplicate, or unordered'')
      else case fromCanonicalValue value of Inl err \<Rightarrow> Inl err
      | Inr decoded \<Rightarrow> map_sum id ((#) (field, decoded)) (fromFields (Some field) rest))"

fun decodeParameters :: "string option \<Rightarrow> (string \<times> canonical_value) list \<Rightarrow> go_error + params" where
  \<comment> \<open>the loop of \<open>DecodeCanonicalParameters\<close>, with the name of the previous parameter\<close>
  "decodeParameters previous [] = Inr []"
| "decodeParameters previous ((name, value) # rest) =
     (if name = [] then Inl (ErrOther ''canonical parameter has an empty name'')
      else if (case previous of None \<Rightarrow> False | Some p \<Rightarrow> name \<le> p)
      then Inl (ErrOther ''canonical parameters are not strictly ordered'')
      else case fromCanonicalValue value of Inl err \<Rightarrow> Inl err
      | Inr decoded \<Rightarrow> map_sum id ((#) (name, decoded)) (decodeParameters (Some name) rest))"

definition DecodeCanonicalParameters :: "(string \<times> canonical_value) list \<Rightarrow> go_error + params" where
  "DecodeCanonicalParameters ps = decodeParameters None ps"

text \<open>A parameter list decodes like the fields of an object, but for the error values.\<close>

lemma decodeParameters_Inr: "decodeParameters previous ps = Inr qs \<longleftrightarrow> fromFields previous ps = Inr qs"
  by (induction previous ps arbitrary: qs rule: decodeParameters.induct)
    (auto simp: sum_map_Inr split: sum.splits)

lemma DecodeCanonicalParameters_Inr: "DecodeCanonicalParameters ps = Inr qs \<longleftrightarrow> fromFields None ps = Inr qs"
  by (simp add: DecodeCanonicalParameters_def decodeParameters_Inr)

section \<open>Round trips\<close>

lemma to_leaf [simp]:
  "toCanonicalValue VNil = Inr (cv_leaf ''null'' [])" "toCanonicalValue (VBool b) = Inr (CanonicalValue ''bool'' [] b [] [])"
  "toCanonicalValue VTriv = Inr (cv_leaf ''triv'' [])"
  "toCanonicalValue (VCharacter code) = Inr (cv_leaf ''character'' (FormatInt code))"
  "toCanonicalValue (VInt64 i) = Inr (cv_leaf ''integer'' (FormatInt i))"
  "toCanonicalValue (VUint64 u) = Inr (cv_leaf ''unsigned'' (FormatUint u))"
  "toCanonicalValue (VBytes bs) = Inr (cv_leaf ''bytes'' (base64Encode bs))"
  by (simp_all add: toCanonicalValue.simps)

text \<open>The representation depends on the canonical copy only.\<close>

lemma to_copy: "canonicalValueCopy v = Inr w \<Longrightarrow> toCanonicalValue v = toCanonicalValue w"
  by (simp add: toCanonicalValue.simps canonicalValueCopy_idem)

lemma to_copy_error: "canonicalValueCopy v = Inl err \<Longrightarrow> toCanonicalValue v = Inl err"
  by (simp add: toCanonicalValue.simps)

lemma to_Inr_copy: "toCanonicalValue v = Inr c \<Longrightarrow> \<exists>w. canonicalValueCopy v = Inr w"
  by (cases "canonicalValueCopy v") (simp_all add: to_copy_error)

text \<open>Keys as the decoder wants them: non-empty and strictly increasing.\<close>

fun decodable :: "go_value \<Rightarrow> bool"
  and decodableItems :: "go_value list \<Rightarrow> bool"
  and decodableFields :: "params \<Rightarrow> bool" where
  "decodable (VList items) = decodableItems items"
| "decodable (VMap ps) = ('''' \<notin> set (map fst ps) \<and> sorted_keys ps \<and> decodableFields ps)"
| "decodable (VRecord m fs) = decodableFields fs"
| "decodable _ = True"
| "decodableItems [] = True"
| "decodableItems (item # items) = (decodable item \<and> decodableItems items)"
| "decodableFields [] = True"
| "decodableFields ((k, v) # rest) = (decodable v \<and> decodableFields rest)"

lemma fromCodes_map [simp]: "fromCodes (map (\<lambda>code. cv_leaf ''character'' (FormatInt code)) codes) = Inr codes"
  by (induction codes) auto

lemma canonical_string_codes:
  "canonicalValueCopy (VRapideString codes) = Inr (VRapideString codes) \<Longrightarrow> canonicalRapideString codes = VRapideString codes"
  by simp

definition keys_after :: "string option \<Rightarrow> params \<Rightarrow> bool" where
  "keys_after previous ps \<longleftrightarrow> '''' \<notin> set (map fst ps) \<and> sorted_keys ps
     \<and> (case previous of None \<Rightarrow> True | Some p \<Rightarrow> \<forall>k \<in> set (map fst ps). p < k)"

lemma from_to:
  "canonicalValueCopy v = Inr v \<Longrightarrow>
     \<exists>c. toCanonicalValue v = Inr c \<and> (decodable v \<longrightarrow> fromCanonicalValue c = Inr v)"
  "canonicalItems vs = Inr vs \<Longrightarrow>
     \<exists>cs. toItems vs = Inr cs \<and> (decodableItems vs \<longrightarrow> fromItems cs = Inr vs)"
  "canonicalParams ps = Inr ps \<Longrightarrow>
     \<exists>cs. toFields ps = Inr cs
       \<and> (\<forall>previous. decodableFields ps \<and> keys_after previous ps \<longrightarrow> fromFields previous cs = Inr ps)"
  "canonicalRecordFields previous fs = Inr fs \<Longrightarrow>
     \<exists>cs. toFields fs = Inr cs \<and> (decodableFields fs \<longrightarrow> fromRecordFields previous cs = Inr fs)"
proof (induction v and vs and ps and previous fs
    rule: canonicalValueCopy_canonicalItems_canonicalParams_canonicalRecordFields.induct)
  case (8 m fs)
  from "8.prems" have fs: "ParseRapideModuleValue m = Inr m" "canonicalRecordFields None fs = Inr fs"
    by (auto simp: canonicalRapideModuleValue_eq split: sum.splits)
  have cm: "canonicalRapideModuleValue m = Inr m" using fs(1) by (simp add: canonicalRapideModuleValue_eq)
  from "8.IH" [OF cm fs(2)] obtain cs where cs: "toFields fs = Inr cs"
    "decodableFields fs \<longrightarrow> fromRecordFields None cs = Inr fs" by blast
  have "toCanonicalValue (VRecord m fs) = Inr (CanonicalValue ''record'' m False [] cs)"
    using "8.prems" cs by (simp add: toCanonicalValue.simps)
  then show ?case using "8.prems" cs fs by simp
next
  case (22 items)
  from "22.prems" have items: "canonicalItems items = Inr items" by (auto split: sum.splits)
  from "22.IH" [OF items] obtain cs where "toItems items = Inr cs" "decodableItems items \<longrightarrow> fromItems cs = Inr items"
    by blast
  with "22.prems" show ?case by (simp add: toCanonicalValue.simps)
next
  case (23 ps)
  from "23.prems" have ps: "canonicalParams ps = Inr ps" by (auto split: sum.splits)
  from "23.IH" [OF ps] obtain cs where cs: "toFields ps = Inr cs"
    "\<forall>previous. decodableFields ps \<and> keys_after previous ps \<longrightarrow> fromFields previous cs = Inr ps"
    by blast
  with "23.prems" have "toCanonicalValue (VMap ps) = Inr (CanonicalValue ''object'' [] False [] cs)"
    by (simp add: toCanonicalValue.simps)
  moreover have "decodable (VMap ps) \<Longrightarrow> keys_after None ps \<and> decodableFields ps" by (simp add: keys_after_def)
  ultimately show ?case using cs(2) by auto
next
  case (26 item items)
  from "26.prems" have c: "canonicalValueCopy item = Inr item" "canonicalItems items = Inr items"
    by (auto split: sum.splits)
  from "26.IH"(1) [OF c(1)] "26.IH"(2) [OF c] show ?case by auto
next
  case (28 k v rest)
  from "28.prems" have c: "\<not> \<not> ValidString k" "canonicalValueCopy v = Inr v" "canonicalParams rest = Inr rest"
    by (auto split: sum.splits if_splits)
  from "28.IH"(1) [OF c(1,2)] obtain x where x: "toCanonicalValue v = Inr x" "decodable v \<longrightarrow> fromCanonicalValue x = Inr v"
    by blast
  from "28.IH"(2) [OF c] obtain xs where xs: "toFields rest = Inr xs"
    "\<forall>previous. decodableFields rest \<and> keys_after previous rest \<longrightarrow> fromFields previous xs = Inr rest"
    by blast
  have "keys_after previous ((k, v) # rest) \<Longrightarrow> k \<noteq> [] \<and> (case previous of None \<Rightarrow> True | Some p \<Rightarrow> p < k)
      \<and> keys_after (Some k) rest" for previous
    by (auto simp: keys_after_def sorted_keys_def split: option.splits)
  with x xs show ?case by (fastforce split: option.splits)
next
  case (30 previous k v rest)
  from "30.prems" have c: "\<not> (canonicalRapideIdentifier k \<noteq> Inr k \<or> (case previous of None \<Rightarrow> False | Some p \<Rightarrow> k \<le> p))"
      "canonicalValueCopy v = Inr v" "canonicalRecordFields (Some k) rest = Inr rest"
    by (auto split: sum.splits if_splits)
  from "30.IH"(1) [OF c(1,2)] "30.IH"(2) [OF c] c(1) show ?case by auto
qed (auto simp: toCanonicalValue.simps canonicalRapideModuleValue_eq canonicalFloat64_def split: sum.splits if_splits)

end
