(* ===== verification/Go_Json.thy ===== *)
theory Go_Json
  imports Go_Text
begin

text \<open>
  The strings of \<open>json.Marshal\<close>: quoted, with the library's escapes (control characters, quotes, the
  three characters unsafe in HTML and the two line separators), every malformed byte replaced by an
  escaped replacement character.  The encoding of a valid string can be read back from any prefix of a
  longer text (\<open>jsonString_prefix\<close>).
\<close>

definition jsonHex :: "nat \<Rightarrow> string" where
  "jsonHex r = [CHR 0x5C, CHR ''u'', hexDigit (r div 4096), hexDigit (r div 256 mod 16),
     hexDigit (r div 16 mod 16), hexDigit (r mod 16)]"

definition jsonRune :: "nat \<Rightarrow> string" where
  "jsonRune r =
     (if r = 34 then [CHR 0x5C, CHR 0x22]
      else if r = 92 then [CHR 0x5C, CHR 0x5C]
      else if r = 8 then [CHR 0x5C, CHR ''b'']
      else if r = 12 then [CHR 0x5C, CHR ''f'']
      else if r = 10 then [CHR 0x5C, CHR ''n'']
      else if r = 13 then [CHR 0x5C, CHR ''r'']
      else if r = 9 then [CHR 0x5C, CHR ''t'']
      else if r < 32 \<or> r = 60 \<or> r = 62 \<or> r = 38 \<or> r = 0x2028 \<or> r = 0x2029 then jsonHex r
      else encodeRune r)"

text \<open>The scan of a string: its runes, with \<^term>\<open>None\<close> for a malformed byte.\<close>

function jsonUnits :: "string \<Rightarrow> nat option list" where
  "jsonUnits s =
     (if s = [] then []
      else case decodeRune s of None \<Rightarrow> None # jsonUnits (tl s)
        | Some (r, t) \<Rightarrow> Some r # jsonUnits t)"
  by pat_completeness auto
termination
  by (relation "measure length") (auto dest: decodeRune_shorter)

declare jsonUnits.simps [simp del]

definition jsonUnit :: "nat option \<Rightarrow> string" where
  "jsonUnit u = (case u of None \<Rightarrow> jsonHex 0xFFFD | Some r \<Rightarrow> jsonRune r)"

definition jsonString :: "string \<Rightarrow> string" where
  "jsonString s = [CHR 0x22] @ concat (map jsonUnit (jsonUnits s)) @ [CHR 0x22]"

section \<open>Unique decoding\<close>

definition escaped :: "nat \<Rightarrow> bool" where
  "escaped r \<longleftrightarrow> r < 32 \<or> r = 34 \<or> r = 92 \<or> r = 60 \<or> r = 62 \<or> r = 38 \<or> r = 0x2028 \<or> r = 0x2029"

lemma jsonRune_raw: "\<not> escaped r \<Longrightarrow> jsonRune r = encodeRune r"
  by (auto simp: jsonRune_def escaped_def)

lemma jsonRune_escaped: "escaped r \<Longrightarrow> \<exists>x. jsonRune r = CHR 0x5C # x"
  by (auto simp: jsonRune_def escaped_def jsonHex_def)

lemma decode_backslash: "decodeRune (CHR 0x5C # x) = Some (92, x)" "decodeRune (CHR 0x22 # x) = Some (34, x)"
  by simp_all

lemma hexDigit_inj: "a < 16 \<Longrightarrow> b < 16 \<Longrightarrow> hexDigit a = hexDigit b \<longleftrightarrow> a = b"
  by (metis hexValue_digit option.inject)

lemma jsonHex_inj:
  assumes "a < 65536" "b < 65536" "jsonHex a @ s = jsonHex b @ t"
  shows "a = b \<and> s = t"
proof -
  have q: "c < 65536 \<Longrightarrow> c div 4096 < 16" for c :: nat by linarith
  have d: "a div 4096 = b div 4096" "a div 256 mod 16 = b div 256 mod 16" "a div 16 mod 16 = b div 16 mod 16"
    "a mod 16 = b mod 16" and "s = t"
    using assms(3) q [OF assms(1)] q [OF assms(2)] by (simp_all add: jsonHex_def hexDigit_inj)
  moreover have "c = c div 4096 * 4096 + c div 256 mod 16 * 256 + c div 16 mod 16 * 16 + c mod 16" for c :: nat
  proof -
    have "c div 16 = c div 256 * 16 + c div 16 mod 16" "c div 256 = c div 4096 * 16 + c div 256 mod 16"
      using div_mult_mod_eq [of "c div 16" 16] div_mult_mod_eq [of "c div 256" 16]
      by (simp_all add: div_mult2_eq [symmetric])
    then show ?thesis using div_mult_mod_eq [of c 16] by linarith
  qed
  ultimately show ?thesis by metis
qed

text \<open>The six two-character escapes and the hexadecimal ones are told apart by the second character.\<close>

lemma jsonRune_hex_or_short:
  assumes "escaped r"
  shows "jsonRune r = jsonHex r \<and> r < 65536
    \<or> (\<exists>c. jsonRune r = [CHR 0x5C, c] \<and> (c, r) \<in> {(CHR 0x22, 34), (CHR 0x5C, 92), (CHR ''b'', 8),
        (CHR ''f'', 12), (CHR ''n'', 10), (CHR ''r'', 13), (CHR ''t'', 9)})"
  using assms unfolding jsonRune_def escaped_def by auto

lemma jsonUnit_inj_escaped:
  assumes "escaped a" "escaped b" "jsonRune a @ s = jsonRune b @ t"
  shows "a = b \<and> s = t"
  using jsonRune_hex_or_short [OF assms(1)] jsonRune_hex_or_short [OF assms(2)]
proof (elim disjE exE conjE)
  assume "jsonRune a = jsonHex a" "a < 65536" "jsonRune b = jsonHex b" "b < 65536"
  then show ?thesis using jsonHex_inj [of a b s t] assms(3) by simp
qed (use assms(3) in \<open>auto simp: jsonHex_def\<close>)

lemma jsonUnit_prefix:
  assumes "\<forall>r. u = Some r \<longrightarrow> scalar_value r" "\<forall>r. v = Some r \<longrightarrow> scalar_value r"
    "jsonUnit u @ s = jsonUnit v @ t"
  shows "u = v \<and> s = t"
proof -
  have hex: "jsonHex 0xFFFD @ s \<noteq> jsonRune r @ t \<and> jsonRune r @ s \<noteq> jsonHex 0xFFFD @ t" if "scalar_value r" for r s t
  proof (cases "escaped r")
    case True
    then have ne: "r \<noteq> 0xFFFD" by (auto simp: escaped_def)
    consider "jsonRune r = jsonHex r" "r < 65536" | c where "jsonRune r = [CHR 0x5C, c]" "c \<noteq> CHR ''u''"
      using jsonRune_hex_or_short [OF True] by fastforce
    then show ?thesis
    proof cases
      case 1
      have "(65533::nat) < 65536" by simp
      from jsonHex_inj [OF this 1(2), of s t] jsonHex_inj [OF 1(2) this, of s t] ne
      show ?thesis unfolding 1(1) by blast
    next
      case 2
      then show ?thesis by (simp add: jsonHex_def)
    qed
  next
    case False
    then have "r \<noteq> 92" by (auto simp: escaped_def)
    moreover have "decodeRune (jsonHex 0xFFFD @ x) = Some (92, tl (jsonHex 0xFFFD @ x))" for x
      by (simp add: jsonHex_def)
    ultimately show ?thesis
      using decode_encodeRune [OF that] unfolding jsonRune_raw [OF False] by (metis option.inject prod.inject)
  qed
  have mixed: "jsonRune a @ s \<noteq> jsonRune b @ t" if m: "escaped a" "\<not> escaped b" "scalar_value b" for a b s t
  proof
    assume e: "jsonRune a @ s = jsonRune b @ t"
    obtain x where x: "jsonRune a = CHR 0x5C # x" using jsonRune_escaped [OF m(1)] by blast
    have "decodeRune (jsonRune b @ t) = Some (b, t)"
      unfolding jsonRune_raw [OF m(2)] by (rule decode_encodeRune [OF m(3)])
    then have "b = 92" unfolding e [symmetric] x using decode_backslash(1) [of "x @ s"] by simp
    with m(2) show False by (simp add: escaped_def)
  qed
  show ?thesis
  proof (cases u; cases v)
    fix a b
    assume ab: "u = Some a" "v = Some b"
    then have sv: "scalar_value a" "scalar_value b" and e: "jsonRune a @ s = jsonRune b @ t"
      using assms by (simp_all add: jsonUnit_def)
    consider "escaped a" "escaped b" | "escaped a" "\<not> escaped b" | "\<not> escaped a" "escaped b" | "\<not> escaped a" "\<not> escaped b"
      by blast
    then show ?thesis
    proof cases
      case 1
      then show ?thesis using jsonUnit_inj_escaped [OF 1 e] ab by simp
    next
      case 4
      then have "encodeRune a @ s = encodeRune b @ t" using e by (simp add: jsonRune_raw)
      then have "Some (a, s) = Some (b, t)" by (metis decode_encodeRune sv)
      then show ?thesis using ab by simp
    next
      case 2
      with mixed [OF 2 sv(2)] e show ?thesis by blast
    next
      case 3
      with mixed [OF 3(2,1) sv(1)] e show ?thesis by metis
    qed
  qed (use hex assms in \<open>auto simp: jsonUnit_def jsonHex_def\<close>)
qed

lemma jsonUnit_not_quote:
  assumes "\<forall>r. u = Some r \<longrightarrow> scalar_value r"
  shows "jsonUnit u @ s \<noteq> CHR 0x22 # t"
proof (cases u)
  case (Some r)
  show ?thesis
  proof (cases "escaped r")
    case True
    then obtain x where "jsonRune r = CHR 0x5C # x" using jsonRune_escaped by blast
    then show ?thesis by (simp add: Some jsonUnit_def)
  next
    case False
    then have "r \<noteq> 34" by (auto simp: escaped_def)
    moreover have "decodeRune (jsonRune r @ s) = Some (r, s)"
      unfolding jsonRune_raw [OF False] using assms Some by (intro decode_encodeRune) simp
    ultimately show ?thesis by (auto simp: Some jsonUnit_def)
  qed
qed (simp add: jsonUnit_def jsonHex_def)

lemma jsonUnits_scalar: "Some r \<in> set (jsonUnits s) \<Longrightarrow> scalar_value r"
proof (induction s rule: jsonUnits.induct)
  case (1 s)
  then show ?case
    by (auto simp: jsonUnits.simps [of s] dest: encode_decodeRune split: if_splits option.splits)
qed

lemma jsonUnits_prefix:
  assumes "\<forall>u \<in> set us. \<forall>r. u = Some r \<longrightarrow> scalar_value r" "\<forall>u \<in> set vs. \<forall>r. u = Some r \<longrightarrow> scalar_value r"
    "concat (map jsonUnit us) @ CHR 0x22 # s = concat (map jsonUnit vs) @ CHR 0x22 # t"
  shows "us = vs \<and> s = t"
  using assms
proof (induction us arbitrary: vs)
  case Nil
  show ?case
  proof (cases vs)
    case (Cons v vs')
    then show ?thesis using Nil jsonUnit_not_quote [of v "concat (map jsonUnit vs') @ CHR 0x22 # t" s] by auto
  qed (use Nil in simp)
next
  case (Cons u us)
  show ?case
  proof (cases vs)
    case Nil
    then show ?thesis using Cons.prems jsonUnit_not_quote [of u] by simp
  next
    case vs: (Cons v vs')
    then have "jsonUnit u @ concat (map jsonUnit us) @ CHR 0x22 # s = jsonUnit v @ concat (map jsonUnit vs') @ CHR 0x22 # t"
      using Cons.prems(3) by simp
    from jsonUnit_prefix [OF _ _ this] Cons.prems(1,2) vs
    have "u = v" "concat (map jsonUnit us) @ CHR 0x22 # s = concat (map jsonUnit vs') @ CHR 0x22 # t" by simp_all
    with Cons.IH [of vs'] Cons.prems(1,2) vs show ?thesis by simp
  qed
qed

text \<open>The units of a valid string are its runes, and determine it.\<close>

lemma jsonUnits_valid: "jsonUnits s = map Some rs \<Longrightarrow> decodeRunes s = Some rs"
proof (induction s arbitrary: rs rule: jsonUnits.induct)
  case (1 s)
  show ?case
  proof (cases "s = []")
    case True
    with "1.prems" show ?thesis by (simp add: jsonUnits.simps [of "[]"] decodeRunes.simps [of "[]"])
  next
    case False
    with "1.prems" obtain r t where d: "decodeRune s = Some (r, t)" "Some r # jsonUnits t = map Some rs"
      by (auto simp: jsonUnits.simps [of s] split: option.splits)
    then obtain us where "rs = r # us" "jsonUnits t = map Some us" by auto
    with "1.IH"(2) [OF False d(1) refl] d(1) False show ?thesis by (simp add: decodeRunes.simps [of s])
  qed
qed

lemma valid_jsonUnits: "decodeRunes s = Some rs \<Longrightarrow> jsonUnits s = map Some rs"
proof (induction s arbitrary: rs rule: decodeRunes.induct)
  case (1 s)
  show ?case
  proof (cases "s = []")
    case True
    with "1.prems" show ?thesis by (simp add: jsonUnits.simps [of "[]"] decodeRunes.simps [of "[]"])
  next
    case False
    with "1.prems" obtain r t us where d: "decodeRune s = Some (r, t)" "decodeRunes t = Some us" "rs = r # us"
      by (auto simp: decodeRunes.simps [of s] split: option.splits)
    with "1.IH" [OF False d(1) refl d(2)] False show ?thesis by (simp add: jsonUnits.simps [of s])
  qed
qed

text \<open>A valid string is determined by any text that starts with its JSON form.\<close>

lemma jsonString_prefix:
  assumes "ValidString b"
  shows "jsonString a @ s = jsonString b @ t \<longleftrightarrow> a = b \<and> s = t"
proof
  assume e: "jsonString a @ s = jsonString b @ t"
  obtain rs where rs: "decodeRunes b = Some rs" using assms by (auto simp: ValidString_def)
  have "jsonUnits a = jsonUnits b \<and> s = t"
    by (rule jsonUnits_prefix) (use e in \<open>auto simp: jsonString_def dest: jsonUnits_scalar\<close>)
  then have "jsonUnits a = map Some rs" "s = t" using valid_jsonUnits [OF rs] by simp_all
  then have "decodeRunes a = Some rs" "s = t" by (simp_all add: jsonUnits_valid)
  then show "a = b \<and> s = t" using rs encode_decodeRunes by metis
qed simp

end
