(* ===== verification/Canonical_Json.thy ===== *)
theory Canonical_Json
  imports Canonical_Value Go_Json
begin

text \<open>
  The JSON text of canonical values, as \<open>json.Marshal\<close> writes the tagged structs of \<open>canonical.go\<close>, and
  \<open>DecodeCanonicalValue\<close>, which accepts a representation only when re-encoding the decoded value gives
  the same text.  The text determines the representation, so the accepted representations are exactly
  those the encoder produces.
\<close>

section \<open>Marshalling\<close>

fun jsonValue :: "canonical_value \<Rightarrow> string"
  and jsonItems :: "canonical_value list \<Rightarrow> string"
  and jsonFields :: "(string \<times> canonical_value) list \<Rightarrow> string" where
  "jsonValue (CanonicalValue kind txt b items fs) =
     ''{\"kind\":'' @ jsonString kind
       @ (if txt = [] then [] else '',\"text\":'' @ jsonString txt)
       @ (if \<not> b then [] else '',\"bool\":true'')
       @ (if items = [] then [] else '',\"items\":['' @ jsonItems items @ '']'')
       @ (if fs = [] then [] else '',\"fields\":['' @ jsonFields fs @ '']'')
       @ ''}''"
| "jsonItems [] = []"
| "jsonItems (item # items) = jsonValue item @ (if items = [] then [] else '','' @ jsonItems items)"
| "jsonFields [] = []"
| "jsonFields ((name, value) # rest) =
     ''{\"name\":'' @ jsonString name @ '',\"value\":'' @ jsonValue value @ ''}''
       @ (if rest = [] then [] else '','' @ jsonFields rest)"

fun valid_texts :: "canonical_value \<Rightarrow> bool"
  and valid_items :: "canonical_value list \<Rightarrow> bool"
  and valid_fields :: "(string \<times> canonical_value) list \<Rightarrow> bool" where
  "valid_texts (CanonicalValue kind txt b items fs) \<longleftrightarrow>
     ValidString kind \<and> ValidString txt \<and> valid_items items \<and> valid_fields fs"
| "valid_items [] = True"
| "valid_items (item # items) = (valid_texts item \<and> valid_items items)"
| "valid_fields [] = True"
| "valid_fields ((name, value) # rest) = (ValidString name \<and> valid_texts value \<and> valid_fields rest)"

text \<open>An optional member is present on both sides or on neither: what follows starts differently.\<close>

definition textPart :: "string \<Rightarrow> string" where
  "textPart txt = (if txt = [] then [] else '',\"text\":'' @ jsonString txt)"

definition boolPart :: "bool \<Rightarrow> string" where
  "boolPart b = (if \<not> b then [] else '',\"bool\":true'')"

definition itemsPart :: "canonical_value list \<Rightarrow> string" where
  "itemsPart items = (if items = [] then [] else '',\"items\":['' @ jsonItems items @ '']'')"

definition fieldsPart :: "(string \<times> canonical_value) list \<Rightarrow> string" where
  "fieldsPart fs = (if fs = [] then [] else '',\"fields\":['' @ jsonFields fs @ '']'')"

lemmas part_defs = textPart_def boolPart_def itemsPart_def fieldsPart_def

lemma jsonValue_parts:
  "jsonValue (CanonicalValue kind txt b items fs) @ s =
     ''{\"kind\":'' @ jsonString kind @ textPart txt @ boolPart b @ itemsPart items @ fieldsPart fs @ ''}'' @ s"
  by (simp add: part_defs)

lemma textPart_prefix:
  assumes "textPart x @ boolPart b @ itemsPart i @ fieldsPart f @ ''}'' @ s
      = textPart x' @ boolPart b' @ itemsPart i' @ fieldsPart f' @ ''}'' @ t" "ValidString x'"
  shows "x = x' \<and> boolPart b @ itemsPart i @ fieldsPart f @ ''}'' @ s
      = boolPart b' @ itemsPart i' @ fieldsPart f' @ ''}'' @ t"
proof (cases "x = []"; cases "x' = []")
  assume "x \<noteq> []" "x' \<noteq> []"
  with assms show ?thesis by (simp add: textPart_def jsonString_prefix)
qed (use assms(1) in \<open>simp_all add: part_defs split: if_splits\<close>)

lemma boolPart_prefix:
  assumes "boolPart b @ itemsPart i @ fieldsPart f @ ''}'' @ s = boolPart b' @ itemsPart i' @ fieldsPart f' @ ''}'' @ t"
  shows "b = b' \<and> itemsPart i @ fieldsPart f @ ''}'' @ s = itemsPart i' @ fieldsPart f' @ ''}'' @ t"
  using assms by (cases b; cases b') (simp_all add: part_defs split: if_splits)

lemma itemsPart_prefix:
  assumes "itemsPart i @ fieldsPart f @ ''}'' @ s = itemsPart i' @ fieldsPart f' @ ''}'' @ t"
    "\<And>s t. i \<noteq> [] \<Longrightarrow> i' \<noteq> [] \<Longrightarrow> jsonItems i @ '']'' @ s = jsonItems i' @ '']'' @ t \<Longrightarrow> i = i' \<and> s = t"
  shows "i = i' \<and> fieldsPart f @ ''}'' @ s = fieldsPart f' @ ''}'' @ t"
proof (cases "i = []"; cases "i' = []")
  assume "i \<noteq> []" "i' \<noteq> []"
  with assms show ?thesis by (simp add: itemsPart_def)
qed (use assms(1) in \<open>simp_all add: part_defs split: if_splits\<close>)

lemma fieldsPart_prefix:
  assumes "fieldsPart f @ ''}'' @ s = fieldsPart f' @ ''}'' @ t"
    "\<And>s t. f \<noteq> [] \<Longrightarrow> f' \<noteq> [] \<Longrightarrow> jsonFields f @ '']'' @ s = jsonFields f' @ '']'' @ t \<Longrightarrow> f = f' \<and> s = t"
  shows "f = f' \<and> s = t"
proof (cases "f = []"; cases "f' = []")
  assume "f \<noteq> []" "f' \<noteq> []"
  with assms(1) have "jsonFields f @ '']'' @ ''}'' @ s = jsonFields f' @ '']'' @ ''}'' @ t" by (simp add: fieldsPart_def)
  from assms(2) [OF \<open>f \<noteq> []\<close> \<open>f' \<noteq> []\<close> this] show ?thesis by simp
qed (use assms(1) in \<open>simp_all add: part_defs split: if_splits\<close>)

lemma json_prefix:
  "valid_texts d \<Longrightarrow> jsonValue c @ s = jsonValue d @ t \<Longrightarrow> c = d \<and> s = t"
  "valid_items ds \<Longrightarrow> cs \<noteq> [] \<Longrightarrow> ds \<noteq> [] \<Longrightarrow> jsonItems cs @ '']'' @ s = jsonItems ds @ '']'' @ t \<Longrightarrow> cs = ds \<and> s = t"
  "valid_fields gs \<Longrightarrow> fs \<noteq> [] \<Longrightarrow> gs \<noteq> [] \<Longrightarrow> jsonFields fs @ '']'' @ s = jsonFields gs @ '']'' @ t \<Longrightarrow> fs = gs \<and> s = t"
proof (induction c and cs and fs arbitrary: d s t and ds s t and gs s t
    rule: jsonValue_jsonItems_jsonFields.induct)
  case (1 k x b i f)
  obtain k' x' b' i' f' where d: "d = CanonicalValue k' x' b' i' f'" by (cases d)
  with "1.prems"(1) have v: "ValidString k'" "ValidString x'" "valid_items i'" "valid_fields f'" by simp_all
  from "1.prems"(2) have "jsonString k @ textPart x @ boolPart b @ itemsPart i @ fieldsPart f @ ''}'' @ s
      = jsonString k' @ textPart x' @ boolPart b' @ itemsPart i' @ fieldsPart f' @ ''}'' @ t"
    unfolding d jsonValue_parts by simp
  then have k: "k = k'" and r: "textPart x @ boolPart b @ itemsPart i @ fieldsPart f @ ''}'' @ s
      = textPart x' @ boolPart b' @ itemsPart i' @ fieldsPart f' @ ''}'' @ t"
    unfolding jsonString_prefix [OF v(1)] by simp_all
  from textPart_prefix [OF r v(2)] have x: "x = x'" and r: "boolPart b @ itemsPart i @ fieldsPart f @ ''}'' @ s
      = boolPart b' @ itemsPart i' @ fieldsPart f' @ ''}'' @ t" by simp_all
  from boolPart_prefix [OF r] have b: "b = b'"
    and r: "itemsPart i @ fieldsPart f @ ''}'' @ s = itemsPart i' @ fieldsPart f' @ ''}'' @ t" by simp_all
  have ii: "i \<noteq> [] \<Longrightarrow> i' \<noteq> [] \<Longrightarrow> jsonItems i @ '']'' @ s = jsonItems i' @ '']'' @ t \<Longrightarrow> i = i' \<and> s = t" for s t
    by (rule "1.IH"(1) [OF _ v(3)])
  from itemsPart_prefix [OF r ii] have i: "i = i'"
    and r: "fieldsPart f @ ''}'' @ s = fieldsPart f' @ ''}'' @ t" by simp_all
  have ff: "f \<noteq> [] \<Longrightarrow> f' \<noteq> [] \<Longrightarrow> jsonFields f @ '']'' @ s = jsonFields f' @ '']'' @ t \<Longrightarrow> f = f' \<and> s = t" for s t
    by (rule "1.IH"(2) [OF _ v(4)])
  from fieldsPart_prefix [OF r ff] k x b i show ?case unfolding d by simp
next
  case (3 item items)
  obtain item' items' where ds: "ds = item' # items'" using "3.prems"(3) by (cases ds) auto
  then have v: "valid_texts item'" "valid_items items'" using "3.prems"(1) by simp_all
  have e: "jsonValue item @ (if items = [] then [] else '','' @ jsonItems items) @ '']'' @ s
      = jsonValue item' @ (if items' = [] then [] else '','' @ jsonItems items') @ '']'' @ t"
    using "3.prems"(4) unfolding ds by simp
  from "3.IH"(1) [OF v(1) e] have i: "item = item'"
    and r: "(if items = [] then [] else '','' @ jsonItems items) @ '']'' @ s
      = (if items' = [] then [] else '','' @ jsonItems items') @ '']'' @ t" by simp_all
  show ?case
  proof (cases "items = []"; cases "items' = []")
    assume ne: "items \<noteq> []" "items' \<noteq> []"
    with r have "jsonItems items @ '']'' @ s = jsonItems items' @ '']'' @ t" by simp
    from "3.IH"(2) [OF ne(1) v(2) ne this] i show ?thesis unfolding ds by simp
  qed (use r i ds in simp_all)
next
  case (5 n v rest)
  obtain n' v' rest' where gs: "gs = (n', v') # rest'" using "5.prems"(3) by (cases gs) auto
  then have w: "ValidString n'" "valid_texts v'" "valid_fields rest'" using "5.prems"(1) by simp_all
  have "jsonString n @ '',\"value\":'' @ jsonValue v @ ''}'' @ (if rest = [] then [] else '','' @ jsonFields rest) @ '']'' @ s
      = jsonString n' @ '',\"value\":'' @ jsonValue v' @ ''}'' @ (if rest' = [] then [] else '','' @ jsonFields rest') @ '']'' @ t"
    using "5.prems"(4) unfolding gs by simp
  then have n: "n = n'" and r: "jsonValue v @ ''}'' @ (if rest = [] then [] else '','' @ jsonFields rest) @ '']'' @ s
      = jsonValue v' @ ''}'' @ (if rest' = [] then [] else '','' @ jsonFields rest') @ '']'' @ t"
    unfolding jsonString_prefix [OF w(1)] by simp_all
  from "5.IH"(1) [OF w(2) r] have v: "v = v'"
    and r: "(if rest = [] then [] else '','' @ jsonFields rest) @ '']'' @ s
      = (if rest' = [] then [] else '','' @ jsonFields rest') @ '']'' @ t" by simp_all
  show ?case
  proof (cases "rest = []"; cases "rest' = []")
    assume ne: "rest \<noteq> []" "rest' \<noteq> []"
    with r have "jsonFields rest @ '']'' @ s = jsonFields rest' @ '']'' @ t" by simp
    from "5.IH"(2) [OF ne(1) w(3) ne this] n v show ?thesis unfolding gs by simp
  qed (use r n v gs in simp_all)
qed simp_all

section \<open>Decoding normal forms only\<close>

definition DecodeCanonicalValue :: "canonical_value \<Rightarrow> go_error + go_value" where
  "DecodeCanonicalValue value =
     (case fromCanonicalValue value of Inl err \<Rightarrow> Inl err
      | Inr decoded \<Rightarrow> (case toCanonicalValue decoded of Inl err \<Rightarrow> Inl err
        | Inr reencoded \<Rightarrow>
            if jsonValue value \<noteq> jsonValue reencoded
            then Inl (ErrOther ''canonical value is not in its unique normalized form'')
            else Inr decoded))"

lemma ascii_valid: "list_all (\<lambda>c. byte c < 128) s \<Longrightarrow> ValidString s"
proof -
  assume "list_all (\<lambda>c. byte c < 128) s"
  then have "decodeRunes s = Some (map byte s)"
    by (induction s) (simp_all add: decodeRunes.simps [of "_ # _"] decodeRunes.simps [of "[]"])
  then show ?thesis by (simp add: ValidString_def)
qed

lemma decimal_ascii: "list_all (\<lambda>c. byte c < 128) (decimal n)"
  using decimal_digits [of n] by (auto simp: list_all_iff is_digit_def)

lemma FormatInt_valid: "ValidString (FormatInt i)"
  by (rule ascii_valid) (simp add: FormatInt_def decimal_ascii)

lemma FormatUint_valid: "ValidString (FormatUint u)"
  by (rule ascii_valid) (simp add: FormatUint_def decimal_ascii)

lemma hexDigit_ascii: "n < 16 \<Longrightarrow> byte (hexDigit n) < 128"
  by (simp add: hexDigit_def byte_chr)

lemma FormatHex16_valid: "ValidString (FormatHex16 f)"
proof (rule ascii_valid)
  have "list_all (\<lambda>c. byte c < 128) (hexPad k n)" for k n
    by (induction k arbitrary: n) (simp_all add: hexDigit_ascii)
  then show "list_all (\<lambda>c. byte c < 128) (FormatHex16 f)" by (simp add: FormatHex16_def)
qed

lemma hexEncode_ascii: "list_all (\<lambda>c. byte c < 128) (hexEncode s)"
proof (induction s)
  case (Cons c s)
  have "byte c div 16 < 16" using byte_bound [of c] by linarith
  with Cons show ?case by (simp add: hexDigit_ascii)
qed simp

lemma module_valid: "ParseRapideModuleValue m = Inr m \<Longrightarrow> ValidString m"
  by (auto simp: ParseRapideModuleValue_Inr rapideModuleIdentityPrefix_def hexEncode_ascii intro!: ascii_valid)

lemma base64_valid: "ValidString (base64Encode b)"
proof (rule ascii_valid)
  obtain ns where ns: "base64Encode b = map letter64 ns" "\<forall>n \<in> set ns. n < 64"
    using base64Encode_letters by blast
  then show "list_all (\<lambda>c. byte c < 128) (base64Encode b)" by (auto simp: list_all_iff byte_letter64)
qed

lemma identifierStart_ascii: "identifierStart c \<or> is_digit c \<Longrightarrow> byte c < 128"
  by (auto simp: identifierStart_def is_upper_def is_lower_def is_digit_def char_le_byte)

lemma identifier_valid: "canonicalRapideIdentifier k = Inr k \<Longrightarrow> ValidString k"
proof (rule ascii_valid)
  assume "canonicalRapideIdentifier k = Inr k"
  then have k: "k \<noteq> []" "identifierStart (hd k)" "list_all (\<lambda>c. identifierStart c \<or> is_digit c) (tl k)"
    unfolding canonicalRapideIdentifier_def by (simp_all split: if_split_asm)
  have "byte (hd k) < 128" "list_all (\<lambda>c. byte c < 128) (tl k)"
    using k(2,3) by (auto simp: list_all_iff intro: identifierStart_ascii)
  then show "list_all (\<lambda>c. byte c < 128) k" using k(1) by (cases k) simp_all
qed

lemma kinds_valid [simp]:
  "ValidString ''null''" "ValidString ''bool''" "ValidString ''triv''" "ValidString ''string''" "ValidString ''character''"
  "ValidString ''string-codes''" "ValidString ''module''" "ValidString ''record''" "ValidString ''integer''"
  "ValidString ''unsigned''" "ValidString ''float64''" "ValidString ''bytes''" "ValidString ''list''" "ValidString ''object''"
  "ValidString []"
  by (rule ascii_valid; simp)+

text \<open>The representation of a canonical value has valid texts throughout.\<close>

lemma to_valid:
  "canonicalValueCopy v = Inr v \<Longrightarrow> toCanonicalValue v = Inr c \<Longrightarrow> valid_texts c"
  "canonicalItems vs = Inr vs \<Longrightarrow> toItems vs = Inr cs \<Longrightarrow> valid_items cs"
  "canonicalParams ps = Inr ps \<Longrightarrow> toFields ps = Inr fs' \<Longrightarrow> valid_fields fs'"
  "canonicalRecordFields previous fs = Inr fs \<Longrightarrow> toFields fs = Inr gs' \<Longrightarrow> valid_fields gs'"
proof (induction v and vs and ps and previous fs arbitrary: c and cs and fs' and gs'
    rule: canonicalValueCopy_canonicalItems_canonicalParams_canonicalRecordFields.induct)
  case (6 codes)
  have "valid_items (map (\<lambda>code. cv_leaf ''character'' (FormatInt code)) codes)"
    by (induction codes) (simp_all add: FormatInt_valid)
  with 6 show ?case by (auto simp: toCanonicalValue.simps)
next
  case (8 m fs)
  then show ?case
    by (auto simp: toCanonicalValue.simps canonicalRapideModuleValue_eq module_valid sum_map_Inr split: sum.splits)
next
  case (26 item items)
  from "26.prems"(1) have c: "canonicalValueCopy item = Inr item" "canonicalItems items = Inr items"
    by (auto split: sum.splits)
  from "26.prems"(2) obtain x xs where x: "toCanonicalValue item = Inr x" "toItems items = Inr xs" "cs = x # xs"
    by (auto simp: sum_map_Inr split: sum.splits)
  from "26.IH"(1) [OF c(1) x(1)] "26.IH"(2) [OF c x(2)] show ?case by (simp add: x(3))
next
  case (28 k v rest)
  from "28.prems"(1) have c: "\<not> \<not> ValidString k" "canonicalValueCopy v = Inr v" "canonicalParams rest = Inr rest"
    by (auto split: sum.splits if_splits)
  from "28.prems"(2) obtain x xs where x: "toCanonicalValue v = Inr x" "toFields rest = Inr xs" "fs' = (k, x) # xs"
    by (auto simp: sum_map_Inr split: sum.splits)
  from "28.IH"(1) [OF c(1,2) x(1)] "28.IH"(2) [OF c x(2)] c(1) show ?case by (simp add: x(3))
next
  case (30 previous k v rest)
  from "30.prems"(1) have c: "\<not> (canonicalRapideIdentifier k \<noteq> Inr k \<or> (case previous of None \<Rightarrow> False | Some p \<Rightarrow> k \<le> p))"
      "canonicalValueCopy v = Inr v" "canonicalRecordFields (Some k) rest = Inr rest"
    by (auto split: sum.splits if_splits)
  from "30.prems"(2) obtain x xs where x: "toCanonicalValue v = Inr x" "toFields rest = Inr xs" "gs' = (k, x) # xs"
    by (auto simp: sum_map_Inr split: sum.splits)
  have "ValidString k" using c(1) identifier_valid by blast
  with "30.IH"(1) [OF c(1,2) x(1)] "30.IH"(2) [OF c x(2)] show ?case by (simp add: x(3))
qed (fastforce simp: toCanonicalValue.simps FormatInt_valid FormatUint_valid FormatHex16_valid base64_valid module_valid
      canonicalRapideModuleValue_eq sum_map_Inr split: sum.splits if_splits)+

text \<open>What the decoder accepts of an encoder's output had decodable keys.\<close>

lemma from_to_conv:
  "canonicalValueCopy v = Inr v \<Longrightarrow> toCanonicalValue v = Inr c \<Longrightarrow> fromCanonicalValue c = Inr u \<Longrightarrow> decodable v"
  "canonicalItems vs = Inr vs \<Longrightarrow> toItems vs = Inr cs \<Longrightarrow> fromItems cs = Inr us \<Longrightarrow> decodableItems vs"
  "canonicalParams ps = Inr ps \<Longrightarrow> toFields ps = Inr fs' \<Longrightarrow> fromFields q fs' = Inr qs \<Longrightarrow>
     decodableFields ps \<and> keys_after q ps"
  "canonicalRecordFields previous fs = Inr fs \<Longrightarrow> toFields fs = Inr gs' \<Longrightarrow> fromRecordFields previous gs' = Inr rs \<Longrightarrow>
     decodableFields fs"
proof (induction v and vs and ps and previous fs arbitrary: c u and cs us and fs' q qs and gs' rs
    rule: canonicalValueCopy_canonicalItems_canonicalParams_canonicalRecordFields.induct)
  case (8 m fs)
  then show ?case
    by (auto simp: toCanonicalValue.simps canonicalRapideModuleValue_eq sum_map_Inr split: sum.splits)
next
  case (23 ps)
  then show ?case by (auto simp: toCanonicalValue.simps sum_map_Inr keys_after_def split: sum.splits)
next
  case (28 k v rest)
  from "28.prems"(1) have c: "\<not> \<not> ValidString k" "canonicalValueCopy v = Inr v" "canonicalParams rest = Inr rest"
    by (auto split: sum.splits if_splits)
  from "28.prems"(2) obtain x xs where x: "toCanonicalValue v = Inr x" "toFields rest = Inr xs" "fs' = (k, x) # xs"
    by (auto simp: sum_map_Inr split: sum.splits)
  from "28.prems"(3) obtain y ys where y: "fromCanonicalValue x = Inr y" "fromFields (Some k) xs = Inr ys"
    "k \<noteq> []" "\<not> (case q of None \<Rightarrow> False | Some p \<Rightarrow> k \<le> p)"
    unfolding x(3) by (auto simp: sum_map_Inr split: sum.splits if_splits)
  from "28.IH"(1) [OF c(1,2) x(1) y(1)] "28.IH"(2) [OF c x(2) y(2)] y(3,4)
  show ?case by (auto simp: keys_after_def sorted_keys_def split: option.splits)
next
  case (27)
  then show ?case by (simp add: keys_after_def sorted_keys_def split: option.splits)
next
  case (26 item items)
  from "26.prems"(1) have c: "canonicalValueCopy item = Inr item" "canonicalItems items = Inr items"
    by (auto split: sum.splits)
  from "26.prems"(2) obtain x xs where x: "toCanonicalValue item = Inr x" "toItems items = Inr xs" "cs = x # xs"
    by (auto simp: sum_map_Inr split: sum.splits)
  from "26.prems"(3) obtain y ys where y: "fromCanonicalValue x = Inr y" "fromItems xs = Inr ys"
    unfolding x(3) by (auto simp: sum_map_Inr split: sum.splits)
  from "26.IH"(1) [OF c(1) x(1) y(1)] "26.IH"(2) [OF c x(2) y(2)] show ?case by simp
next
  case (30 previous k v rest)
  from "30.prems"(1) have c: "\<not> (canonicalRapideIdentifier k \<noteq> Inr k \<or> (case previous of None \<Rightarrow> False | Some p \<Rightarrow> k \<le> p))"
      "canonicalValueCopy v = Inr v" "canonicalRecordFields (Some k) rest = Inr rest"
    by (auto split: sum.splits if_splits)
  from "30.prems"(2) obtain x xs where x: "toCanonicalValue v = Inr x" "toFields rest = Inr xs" "gs' = (k, x) # xs"
    by (auto simp: sum_map_Inr split: sum.splits)
  from "30.prems"(3) obtain y ys where y: "fromCanonicalValue x = Inr y" "fromRecordFields (Some k) xs = Inr ys"
    unfolding x(3) by (auto simp: sum_map_Inr split: sum.splits if_splits)
  from "30.IH"(1) [OF c(1,2) x(1) y(1)] "30.IH"(2) [OF c x(2) y(2)] show ?case by simp
qed (fastforce simp: toCanonicalValue.simps sum_map_Inr keys_after_def split: sum.splits if_splits)+

section \<open>Properties\<close>

text \<open>C27: \<open>DecodeCanonicalValue\<close> inverts \<open>EncodeCanonicalValue\<close> and accepts nothing else: it decodes a
  representation to a value exactly when the value is its own canonical copy, no object in it has the
  empty name, and the representation is the one the encoder produces for it.\<close>

theorem DecodeCanonicalValue_iff:
  "DecodeCanonicalValue c = Inr v \<longleftrightarrow>
     canonicalValueCopy v = Inr v \<and> decodable v \<and> EncodeCanonicalValue v = Inr c"
proof
  assume h: "canonicalValueCopy v = Inr v \<and> decodable v \<and> EncodeCanonicalValue v = Inr c"
  then obtain c' where "toCanonicalValue v = Inr c'" "fromCanonicalValue c' = Inr v" using from_to(1) by blast
  with h show "DecodeCanonicalValue c = Inr v" by (simp add: DecodeCanonicalValue_def EncodeCanonicalValue_def)
next
  assume "DecodeCanonicalValue c = Inr v"
  then obtain c' where f: "fromCanonicalValue c = Inr v" "toCanonicalValue v = Inr c'" and j: "jsonValue c = jsonValue c'"
    by (auto simp: DecodeCanonicalValue_def split: sum.splits if_splits)
  obtain w where w: "canonicalValueCopy v = Inr w" using to_Inr_copy [OF f(2)] by blast
  note ww = canonicalValueCopy_idem(1) [OF w]
  have tw: "toCanonicalValue w = Inr c'" using f(2) to_copy [OF w] by simp
  have "jsonValue c @ [] = jsonValue c' @ []" using j by simp
  from json_prefix(1) [OF to_valid(1) [OF ww tw] this] have c: "c = c'" by simp
  have dw: "decodable w" by (rule from_to_conv(1) [OF ww tw f(1) [unfolded c]])
  with from_to(1) [OF ww] tw f(1) c have "v = w" by auto
  with ww dw tw c show "canonicalValueCopy v = Inr v \<and> decodable v \<and> EncodeCanonicalValue v = Inr c"
    by (simp add: EncodeCanonicalValue_def)
qed

text \<open>C30: Encoding a parameter map and decoding the result gives back its canonical form exactly when no
  name in it is empty, neither a parameter's nor a key of a map inside a parameter (maps being listed in key
  order); otherwise the decoder fails on what the encoder accepted.\<close>

theorem parameters_decode_iff_named:
  assumes "sorted_keys ps" "CanonicalizeParameters ps = Inr cs"
  shows "\<exists>qs. canonicalParams ps = Inr qs
    \<and> (case DecodeCanonicalParameters cs of Inr rs \<Rightarrow> rs = qs \<and> decodable (VMap qs) | Inl err \<Rightarrow> \<not> decodable (VMap qs))"
proof -
  obtain qs where qs: "canonicalParams ps = Inr qs" "toFields qs = Inr cs"
    using assms(2) by (auto simp: CanonicalizeParameters_def split: sum.splits)
  have sk: "sorted_keys qs" using assms(1) canonicalValueCopy_idem(3) [OF qs(1)] by (simp add: sorted_keys_def)
  have idem: "canonicalParams qs = Inr qs" using canonicalValueCopy_idem(3) [OF qs(1)] by simp
  have good: "fromFields None cs = Inr qs" if "decodable (VMap qs)"
    using from_to(3) [OF idem] that qs(2) by (auto simp: keys_after_def)
  have bad: "decodable (VMap qs)" if "fromFields None cs = Inr rs" for rs
    using from_to_conv(3) [OF idem qs(2) that] by (simp add: keys_after_def)
  show ?thesis
  proof (cases "DecodeCanonicalParameters cs")
    case (Inl err)
    then have "fromFields None cs \<noteq> Inr qs" using DecodeCanonicalParameters_Inr [of cs qs] by simp
    then show ?thesis using Inl qs(1) good by auto
  next
    case (Inr rs)
    then have "fromFields None cs = Inr rs" by (simp add: DecodeCanonicalParameters_Inr)
    then show ?thesis using Inr qs(1) good bad by auto
  qed
qed

text \<open>A parameter with the empty name and one whose value has an empty key are encoded but not decoded.\<close>

theorem parameters_decode_iff_named_witness:
  "CanonicalizeParameters [('''', VNil)] = Inr [('''', cv_leaf ''null'' [])]
   \<and> isl (DecodeCanonicalParameters [('''', cv_leaf ''null'' [])])
   \<and> (\<exists>cs. CanonicalizeParameters [(''x'', VMap [('''', VNil)])] = Inr cs \<and> isl (DecodeCanonicalParameters cs))
   \<and> (\<exists>cs. CanonicalizeParameters [(''x'', VInt8 7)] = Inr cs \<and> DecodeCanonicalParameters cs = Inr [(''x'', VInt64 7)])"
proof -
  have x: "ValidString ''x''" by (rule ascii_valid) simp
  have empty: "CanonicalizeParameters [('''', VNil)] = Inr [('''', cv_leaf ''null'' [])]"
    by (simp add: CanonicalizeParameters_def)
  obtain cs where nested: "CanonicalizeParameters [(''x'', VMap [('''', VNil)])] = Inr cs"
    using x by (simp add: CanonicalizeParameters_def toCanonicalValue.simps)
  obtain ds where good: "CanonicalizeParameters [(''x'', VInt8 7)] = Inr ds"
    using x by (simp add: CanonicalizeParameters_def toCanonicalValue.simps)
  show ?thesis
    using parameters_decode_iff_named [OF _ empty] parameters_decode_iff_named [OF _ nested]
      parameters_decode_iff_named [OF _ good] empty nested good x
    by (auto simp: sorted_keys_def split: sum.splits)
qed

end
