(* ===== verification/Snapshot_Transfer.thy ===== *)
theory Snapshot_Transfer
  imports Snapshot_Merge Poset_Replica
begin

text \<open>
  A full snapshot merged into an empty poset gives a replica with the same occurrences, classes and strict
  order.  The events section builds the replica, and \<open>replica_class\<close> and \<open>replica_edge\<close> carry the other two.
\<close>

section \<open>Sections without issues\<close>

text \<open>An invariant over the items still to come, whose every step is free of issues.\<close>

lemma runSection_quiet:
  assumes "\<And>x rest s. I (x # rest) s \<Longrightarrow> \<exists>t out. step s x = Some (t, out, None) \<and> I rest t"
  shows "I xs s \<Longrightarrow> \<exists>t outs. runSection name object step position xs s = Some (t, outs, []) \<and> I [] t"
proof (induction xs arbitrary: s position)
  case (Cons x xs)
  obtain t out where t: "step s x = Some (t, out, None)" "I xs t" using assms [OF Cons.prems] by blast
  obtain u outs where "runSection name object step (position + 1) xs t = Some (u, outs, [])" "I [] u"
    using Cons.IH [OF t(2)] by blast
  with t show ?case by simp
qed simp

section \<open>Exportable events\<close>

definition exportable :: "(int \<Rightarrow> string) \<Rightarrow> (string \<Rightarrow> int option) \<Rightarrow> event \<Rightarrow> bool" where
  \<comment> \<open>an event \<open>MergeSnapshot\<close> takes back: valid texts, canonical parameters, a time that survives formatting\<close>
  "exportable formatTime parseTime e \<longleftrightarrow> ValidString (ev_id e) \<and> CHR 0x00 \<notin> set (ev_id e)
     \<and> ev_name e \<noteq> '''' \<and> ValidString (ev_name e) \<and> ValidString (ev_source e)
     \<and> CanonicalizeParams (ev_params e) = Inr (ev_params e)
     \<and> parseTime (formatTime (cs_wall (ev_clock e))) = Some (cs_wall (ev_clock e))
     \<and> (case cs_vector (ev_clock e) of None \<Rightarrow> True
        | Some vector \<Rightarrow> (\<forall>key \<in> fset (fmdom vector). key \<noteq> '''' \<and> ValidString key))"

definition transferred :: "event \<Rightarrow> event \<Rightarrow> bool" where
  \<comment> \<open>what a receiver keeps of an event\<close>
  "transferred d e \<longleftrightarrow> ev_id e = ev_id d \<and> ev_name e = ev_name d \<and> ev_source e = ev_source d
     \<and> ev_params e = ev_params d \<and> ev_timings e = ev_timings d
     \<and> cs_wall (ev_clock e) = cs_wall (ev_clock d) \<and> cs_vector (ev_clock e) = cs_vector (ev_clock d)"

definition receives :: "poset \<Rightarrow> poset \<Rightarrow> bool" where
  "receives p q \<longleftrightarrow> replica p q \<and> pendingEdges q = []
     \<and> (\<forall>i e. fmlookup (events q) i = Some e \<longrightarrow> (\<exists>d. fmlookup (events p) i = Some d \<and> transferred d e))"

lemma transferred_timings: "transferred d e \<Longrightarrow> ev_timings d = ev_timings e"
  by (simp add: transferred_def)

lemma transferred_set_lamport: "transferred d e \<Longrightarrow> set_lamport 0 e = set_lamport 0 f \<Longrightarrow> transferred d f"
proof -
  assume t: "transferred d e" and s: "set_lamport 0 e = set_lamport 0 f"
  from s have "ev_id e = ev_id f" "ev_name e = ev_name f" "ev_source e = ev_source f" "ev_params e = ev_params f"
    "ev_timings e = ev_timings f" "cs_wall (ev_clock e) = cs_wall (ev_clock f)" "cs_vector (ev_clock e) = cs_vector (ev_clock f)"
    by (metis set_lamport_simps)+
  with t show ?thesis by (simp add: transferred_def)
qed

lemma receives_step:
  assumes "receives p q" "replica p r" "same_content q r" "pendingEdges r = pendingEdges q"
  shows "receives p r"
proof -
  have "\<exists>d. fmlookup (events p) i = Some d \<and> transferred d f" if f: "fmlookup (events r) i = Some f" for i f
  proof -
    obtain e where e: "fmlookup (events q) i = Some e" "set_lamport 0 e = set_lamport 0 f"
      by (rule same_content_event [OF assms(3) f])
    with assms(1) obtain d where "fmlookup (events p) i = Some d" "transferred d e" by (auto simp: receives_def)
    with transferred_set_lamport [OF _ e(2)] show ?thesis by blast
  qed
  with assms show ?thesis by (simp add: receives_def)
qed

lemma import_export:
  assumes "exportable formatTime parseTime d" "canonical_timings (ev_timings d)"
  obtains e where "eventFromSnapshotExport parseTime (exportEvent formatTime d) = Inr e" "transferred d e"
    "ev_lamport e = ev_lamport d"
proof -
  have "\<not> list_ex (\<lambda>key. key = '''' \<or> \<not> ValidString key) (map_keys vector)" if "cs_vector (ev_clock d) = Some vector" for vector
    using assms(1) that by (auto simp: exportable_def list_ex_iff)
  then obtain e where e: "eventFromSnapshotExport parseTime (exportEvent formatTime d) = Inr e"
    using assms(1) Canonicalize_fixpoint [OF assms(2)]
    by (cases "cs_vector (ev_clock d)") (auto simp: eventFromSnapshotExport_def exportEvent_def exportable_def Let_def)
  note i = eventFromSnapshotExport_Inr [OF e]
  have "transferred d e"
    using i assms(1) Canonicalize_fixpoint [OF assms(2)] by (simp add: transferred_def exportEvent_def exportable_def)
  moreover have "ev_lamport e = ev_lamport d" using i(4) by (simp add: exportEvent_def ev_lamport_def)
  ultimately show thesis using that e by blast
qed

lemma transferred_no_conflict:
  assumes "transferred d e" "transferred d f" "CanonicalizeParams (ev_params d) = Inr (ev_params d)"
    "canonical_timings (ev_timings d)"
  shows "snapshotEventConflict e f = None"
  using assms Canonicalize_fixpoint [OF assms(4)] by (simp add: snapshotEventConflict_def transferred_def)

section \<open>Events\<close>

lemma exportEvents_ids:
  assumes "events_ok p" "\<forall>i \<in> set ids. stored p i"
  shows "map ex_id (exportEvents formatTime p ids) = ids"
    "ee \<in> set (exportEvents formatTime p ids) \<Longrightarrow>
       \<exists>d. fmlookup (events p) (ev_id d) = Some d \<and> ee = exportEvent formatTime d \<and> ev_id d \<in> set ids"
proof -
  have ev: "\<exists>d. fmlookup (events p) i = Some d \<and> ev_id d = i" if "stored p i" for i
    using that assms(1) by (auto simp: map_has_iff events_ok_def)
  show "map ex_id (exportEvents formatTime p ids) = ids"
    using assms(2)
  proof (induction ids)
    case (Cons i ids)
    then obtain d where "fmlookup (events p) i = Some d" "ev_id d = i" using ev by auto
    with Cons show ?case by (simp add: exportEvents_def List.map_filter_simps exportEvent_def)
  qed (simp add: exportEvents_def List.map_filter_simps)
  assume "ee \<in> set (exportEvents formatTime p ids)"
  then obtain i d where "i \<in> set ids" "fmlookup (events p) i = Some d" "ee = exportEvent formatTime d"
    by (auto simp: exportEvents_def List.map_filter_def split: option.splits)
  moreover from this have "ev_id d = i" using assms(1) by (auto simp: events_ok_def)
  ultimately show "\<exists>d. fmlookup (events p) (ev_id d) = Some d \<and> ee = exportEvent formatTime d \<and> ev_id d \<in> set ids" by blast
qed

definition events_left :: "(int \<Rightarrow> string) \<Rightarrow> poset \<Rightarrow> event_export list \<Rightarrow> poset \<times> string list \<Rightarrow> bool" where
  "events_left formatTime p rest s \<longleftrightarrow> store_ok (fst s) \<and> receives p (fst s) \<and> before (fst s) = {}
     \<and> (\<forall>i. rep (fst s) i = i) \<and> snd s = []
     \<and> (\<forall>ee \<in> set rest. \<exists>d. fmlookup (events p) (ev_id d) = Some d \<and> ee = exportEvent formatTime d)"

lemma events_left_step:
  assumes p: "poset_ok p" "\<And>i d. fmlookup (events p) i = Some d \<Longrightarrow> exportable formatTime parseTime d"
    and counts: "\<And>i. counts i \<le> (1::nat)" and left: "events_left formatTime p (ee # rest) s"
  shows "\<exists>t out. mergeEvent parseTime counts s ee = Some (t, out, None) \<and> events_left formatTime p rest t"
proof -
  note ok = poset_okD [OF p(1)]
  obtain q where s: "s = (q, [])" using left by (cases s) (simp add: events_left_def)
  have q: "store_ok q" "receives p q" "before q = {}" "\<forall>i. rep q i = i" using left by (simp_all add: events_left_def s)
  obtain d where d: "fmlookup (events p) (ev_id d) = Some d" "ee = exportEvent formatTime d"
    using left by (auto simp: events_left_def)
  have can: "canonical_timings (ev_timings d)" using ok(3) d(1) by (auto simp: events_ok_def)
  have st: "stored p (ev_id d)" using d(1) by blast
  then have ne: "ev_id d \<noteq> ''''" using class_okD(2) [OF ok(1)] by metis
  obtain e where e: "eventFromSnapshotExport parseTime ee = Inr e" "transferred d e" "ev_lamport e = ev_lamport d"
    using import_export [OF p(2) [OF d(1)] can] d(2) by metis
  have id: "ex_id ee = ev_id d" by (simp add: d(2) exportEvent_def)
  have step: "mergeEvent parseTime counts s ee = Some (case fmlookup (events q) (ev_id d) of
      Some existing \<Rightarrow> ((q, []), Skipped, snapshotEventConflict existing e)
    | None \<Rightarrow> (case mergeEventLocked q (Some e) of
        (p, Some err) \<Rightarrow> ((p, []), Skipped, Some err) | (p, None) \<Rightarrow> ((p, []), Added, None)))"
    using ne counts [of "ev_id d"] by (simp add: mergeEvent_def s id e(1))
  show ?thesis
  proof (cases "fmlookup (events q) (ev_id d)")
    case (Some existing)
    then have "transferred d existing" using q(2) d(1) by (fastforce simp: receives_def)
    then have "snapshotEventConflict existing e = None"
      using transferred_no_conflict [OF _ e(2) _ can] p(2) [OF d(1)] by (simp add: exportable_def)
    with step Some left show ?thesis by (simp add: events_left_def s)
  next
    case None
    have ei: "ev_id e = ev_id d" and et: "canonical_timings (ev_timings e)"
      using e(2) can by (simp_all add: transferred_def)
    have pre: "ev_id e \<noteq> ''''" "\<not> stored q (ev_id e)" using ne None ei by (simp_all add: map_has_iff)
    note m = mergeEventLocked_step [OF q(1) pre et]
    define r where "r = (insertOccurrence q (Freeze e))
      \<lparr>lamportCounter := max (lamportCounter (insertOccurrence q (Freeze e))) (ev_lamport e)\<rparr>"
    note m = m [folded r_def]
    have rr: "\<forall>i. rep r i = i" using m(6) q(4) by simp
    have te: "transferred d (Freeze e)" using e(2) by (simp add: transferred_def)
    have ev: "\<exists>g. fmlookup (events p) i = Some g \<and> transferred g f" if "fmlookup (events r) i = Some f" for i f
      using that q(2) d(1) te ei by (auto simp: m(4) receives_def split: if_splits)
    have str: "stored p i" if "stored r i" for i using ev that by (auto simp: map_has_iff)
    have "replica p r"
      unfolding replica_def
    proof (intro conjI allI impI)
      show "poset_ok r" using m(2) by (simp add: store_ok_def)
      show "before r \<subseteq> before p" using m(5) q(3) by simp
      show "IsCausallyEquivalent p i j" if "IsCausallyEquivalent r i j" for i j
        using that str rr by (auto simp: IsCausallyEquivalent_iff)
      show "\<exists>g. fmlookup (events p) i = Some g \<and> ev_timings g = ev_timings f" if "fmlookup (events r) i = Some f" for i f
        using ev [OF that] transferred_timings by blast
    qed (rule str)
    then have "events_left formatTime p rest (r, [])"
      using m(2,5,7) q(2,3) rr ev left by (simp add: events_left_def receives_def)
    then show ?thesis using step None m(1) by simp
  qed
qed

section \<open>Classes\<close>

lemma memberProblem_clear:
  "distinct ms \<Longrightarrow> \<forall>m \<in> set ms. m \<noteq> '''' \<and> ValidString m \<and> m \<notin> set seen \<and> stored p m \<and> previous \<noteq> Some m \<Longrightarrow>
     memberProblem p seen previous ms = None"
proof (induction ms arbitrary: previous)
  case (Cons m ms)
  have "memberProblem p seen (Some m) ms = None" by (rule Cons.IH) (use Cons.prems in auto)
  with Cons.prems show ?case by simp
qed simp

lemma nontrivial_classes:
  assumes "class_ok p" "ms \<in> set (nontrivialCausalClassesLocked p)"
  obtains r where "stored p r" "rep p r = r" "ms = class_list p r" "length ms > 1"
  using assms by (auto simp: nontrivialCausalClassesLocked_def representatives_ok causalClassMembersLocked_ok)

lemma nontrivial_classes_disjoint:
  assumes "class_ok p" "a \<in> set (nontrivialCausalClassesLocked p)" "b \<in> set (nontrivialCausalClassesLocked p)"
  shows "a = b \<or> set a \<inter> set b = {}"
proof -
  obtain r s where "a = class_list p r" "b = class_list p s" by (metis nontrivial_classes [OF assms(1)] assms(2,3))
  then show ?thesis by (cases "r = s") (auto simp: set_class_list)
qed

lemma nontrivial_distinct:
  assumes "class_ok p"
  shows "distinct (nontrivialCausalClassesLocked p)"
proof -
  have "inj_on (causalClassMembersLocked p) {r. stored p r \<and> rep p r = r}"
  proof (rule inj_onI)
    fix r s
    assume rs: "r \<in> {r. stored p r \<and> rep p r = r}" "s \<in> {r. stored p r \<and> rep p r = r}"
      and eq: "causalClassMembersLocked p r = causalClassMembersLocked p s"
    then have "class_list p r = class_list p s" by (simp add: causalClassMembersLocked_ok [OF assms])
    moreover have "r \<in> set (class_list p r)" using rs(1) by (simp add: set_class_list)
    ultimately show "r = s" using rs by (simp add: set_class_list)
  qed
  then have "distinct (map (causalClassMembersLocked p) (causalClassRepresentativesLocked p))"
    by (simp add: distinct_map representatives_ok [OF assms]) (simp add: causalClassRepresentativesLocked_def)
  then show ?thesis by (simp add: nontrivialCausalClassesLocked_def distinct_filter)
qed

definition classes_left :: "poset \<Rightarrow> string list list \<Rightarrow> poset \<times> string list \<times> string list \<Rightarrow> bool" where
  "classes_left p rest st \<longleftrightarrow> (case st of (q, seenMembers, seenClasses) \<Rightarrow>
     receives p q \<and> stored q = stored p \<and> before q = {}
     \<and> (\<forall>ms \<in> set rest. set ms \<inter> set seenMembers = {} \<and> strings_join NUL ms \<notin> set seenClasses)
     \<and> set rest \<subseteq> set (nontrivialCausalClassesLocked p) \<and> distinct rest)"

lemma classes_left_step:
  assumes p: "poset_ok p" "\<And>i. stored p i \<Longrightarrow> ValidString i \<and> CHR 0x00 \<notin> set i"
    and left: "classes_left p (ms # rest) st"
  shows "\<exists>t out. mergeEquivalence st ms = Some (t, out, None) \<and> classes_left p rest t"
proof -
  note ok = poset_okD [OF p(1)]
  obtain q seenMembers seenClasses where st: "st = (q, seenMembers, seenClasses)" by (cases st)
  have q: "receives p q" "stored q = stored p" "before q = {}"
    and fresh: "set ms \<inter> set seenMembers = {}" "strings_join NUL ms \<notin> set seenClasses"
    and sub: "set (ms # rest) \<subseteq> set (nontrivialCausalClassesLocked p)" and dist: "ms \<notin> set rest" "distinct rest"
    using left by (simp_all add: classes_left_def st)
  have "ms \<in> set (nontrivialCausalClassesLocked p)" using sub by simp
  then obtain r where r: "stored p r" "rep p r = r" "ms = class_list p r" "length ms > 1"
    by (rule nontrivial_classes [OF ok(1)])
  have mem: "set ms = {i. stored p i \<and> rep p i = r}" by (simp add: r(3) set_class_list)
  have nf: "nul_free xs" if xs: "xs \<in> set (nontrivialCausalClassesLocked p)" for xs
  proof -
    obtain s where "xs = class_list p s" by (rule nontrivial_classes [OF ok(1) xs])
    then show ?thesis using p(2) by (simp add: nul_free_def set_class_list)
  qed
  have clear: "memberProblem q seenMembers None ms = None"
  proof (rule memberProblem_clear)
    show "distinct ms" by (simp add: r(3))
    show "\<forall>m \<in> set ms. m \<noteq> '''' \<and> ValidString m \<and> m \<notin> set seenMembers \<and> stored q m \<and> None \<noteq> Some m"
    proof
      fix m
      assume m: "m \<in> set ms"
      then have "stored p m" by (simp add: mem)
      moreover from this have "m \<noteq> ''''" using class_okD(2) [OF ok(1)] by metis
      moreover have "m \<notin> set seenMembers" using m fresh(1) by blast
      ultimately show "m \<noteq> '''' \<and> ValidString m \<and> m \<notin> set seenMembers \<and> stored q m \<and> None \<noteq> Some m"
        using p(2) by (simp add: q(2))
    qed
  qed
  have after: "classes_left p rest (q', ms @ seenMembers, strings_join NUL ms # seenClasses)"
    if "receives p q'" "stored q' = stored p" "before q' = {}" for q'
  proof -
    have "set xs \<inter> set ms = {} \<and> strings_join NUL xs \<noteq> strings_join NUL ms" if "xs \<in> set rest" for xs
    proof -
      have both: "xs \<in> set (nontrivialCausalClassesLocked p)" "ms \<in> set (nontrivialCausalClassesLocked p)"
        using sub that by auto
      have "xs \<noteq> ms" using dist that by auto
      moreover have "xs \<noteq> []" by (rule nontrivial_classes [OF ok(1) both(1)]) auto
      moreover have "ms \<noteq> []" using r(4) by auto
      moreover note nontrivial_classes_disjoint [OF ok(1) both] strings_join_inj [OF nf [OF both(1)] nf [OF both(2)]]
      ultimately show ?thesis by blast
    qed
    moreover have "\<forall>xs \<in> set rest. set xs \<inter> set seenMembers = {} \<and> strings_join NUL xs \<notin> set seenClasses"
      using left by (simp add: classes_left_def st)
    ultimately show ?thesis
      using that dist(2) sub by (simp add: classes_left_def Int_Un_distrib)
  qed
  show ?thesis
  proof (cases "list_all (\<lambda>member. rep q member = rep q (hd ms)) (tl ms)")
    case True
    have "mergeEquivalence st ms = Some ((q, ms @ seenMembers, strings_join NUL ms # seenClasses), Skipped, None)"
      using True r(4) fresh(2) clear by (simp add: mergeEquivalence_def st Let_def)
    with after [OF q] show ?thesis by blast
  next
    case False
    have ne: "ms \<noteq> []" using r(4) by auto
    have in_q: "\<forall>i \<in> set ms. stored q i" by (simp add: mem q(2))
    have eqv: "\<forall>i \<in> set ms. \<forall>j \<in> set ms. IsCausallyEquivalent p i j" by (simp add: mem IsCausallyEquivalent_iff)
    have "replica p q" using q(1) by (simp add: receives_def)
    then obtain q' where q': "addCausalEquivalenceClassLocked q ms = Some (q', None)" "replica p q'" "before q' = {}"
      "stored q' = stored q" "same_content q q'" "pendingEdges q' = pendingEdges q"
      by (rule replica_class [OF _ q(3) ne in_q eqv])
    have "mergeEquivalence st ms = Some ((q', ms @ seenMembers, strings_join NUL ms # seenClasses), Added, None)"
      using False r(4) fresh(2) clear q'(1) by (simp add: mergeEquivalence_def st Let_def)
    moreover have "classes_left p rest (q', ms @ seenMembers, strings_join NUL ms # seenClasses)"
      using receives_step [OF q(1) q'(2,5,6)] q'(3,4) q(2) by (intro after) simp_all
    ultimately show ?thesis by blast
  qed
qed

section \<open>Edges\<close>

definition edges_left :: "poset \<Rightarrow> string list list \<Rightarrow> poset \<times> string list \<Rightarrow> bool" where
  "edges_left p rest st \<longleftrightarrow> receives p (fst st) \<and> stored (fst st) = stored p
     \<and> (\<forall>edge \<in> set rest. \<exists>a b. edge = [a, b] \<and> (a, b) \<in> class_rel p)"

lemma edges_left_step:
  assumes p: "poset_ok p" "\<And>i. stored p i \<Longrightarrow> ValidString i \<and> CHR 0x00 \<notin> set i"
    and left: "edges_left p (edge # rest) st"
  shows "\<exists>t out. mergeEdge st edge = Some (t, out, None) \<and> edges_left p rest t"
proof -
  note ok = poset_okD [OF p(1)]
  obtain q seen where st: "st = (q, seen)" by (cases st)
  obtain a b where edge: "edge = [a, b]" "(a, b) \<in> class_rel p" using left by (auto simp: edges_left_def)
  have q: "receives p q" "stored q = stored p" "replica p q" using left by (simp_all add: edges_left_def st receives_def)
  have ab: "stored p a" "stored p b" "rep p a = a" "rep p b = b" "a \<noteq> b"
    using class_rel_stored [OF ok(1,2) edge(2)] by simp_all
  then have ne: "a \<noteq> []" "b \<noteq> []" using class_okD(2) [OF ok(1)] by metis+
  have "\<not> IsCausallyEquivalent p a b" using ab by (simp add: IsCausallyEquivalent_iff)
  then have "\<not> IsCausallyEquivalent q a b" using q(3) unfolding replica_def by blast
  then have neq: "rep q a \<noteq> rep q b" using ab q(2) by (simp add: IsCausallyEquivalent_iff)
  have guards: "ValidString a" "ValidString b" using p(2) ab by simp_all
  define key where "key = snapshotEdgeKey [a, b]"
  have same: "edges_left p rest (q, x)" for x using left by (simp add: edges_left_def st)
  consider "key \<in> set seen" | "key \<notin> set seen" "rep q b |\<in>| edges_of q (rep q a)"
    | "key \<notin> set seen" "rep q b |\<notin>| edges_of q (rep q a)" by blast
  then show ?thesis
  proof cases
    case 3
    have "(a, b) \<in> before p" using edge(2) ab by (auto simp: before_def)
    then obtain r where r: "addCausalLocked q a b = Some (r, None)" "replica p r" "stored r = stored q"
      "same_content q r" "pendingEdges r = pendingEdges q"
      using replica_edge [OF p(1) q(3)] ab(1,2) q(2) by metis
    have "edges_left p rest (r, key # seen)"
      using receives_step [OF q(1) r(2,4,5)] r(3) q(2) left by (simp add: edges_left_def)
    with 3 r(1) ab ne guards neq q(2) show ?thesis
      by (simp add: mergeEdge_def st edge(1) Let_def key_def [symmetric])
  qed (use ab ne guards neq q(2) same in \<open>simp_all add: mergeEdge_def st edge(1) Let_def key_def [symmetric]\<close>)
qed

section \<open>The transfer\<close>

lemma exportable_texts:
  assumes "poset_ok p" "\<forall>i e. fmlookup (events p) i = Some e \<longrightarrow> exportable formatTime parseTime e" "stored p i"
  shows "ValidString i \<and> CHR 0x00 \<notin> set i"
  using assms poset_okD(3) [OF assms(1)] by (auto simp: map_has_iff events_ok_def exportable_def)

lemma set_sorted_by_lamport [simp]: "set (sortEventIDsByLamport p ids) = set ids"
  by (simp add: sortEventIDsByLamport_def)

lemma distinct_sorted_by_lamport [simp]: "distinct (sortEventIDsByLamport p ids) = distinct ids"
  by (simp add: sortEventIDsByLamport_def)

lemma snapshot_edges:
  assumes "poset_ok p"
  shows "set (sn_causalEdges (CreateSnapshot formatTime p nodeID)) = {[a, b] |a b. (a, b) \<in> class_rel p}"
proof -
  note ok = poset_okD [OF assms]
  have "b |\<in>| edges_of p a \<longleftrightarrow> (a, b) \<in> class_rel p" for a b
    by (simp add: class_rel_edges(1) [OF ok(1,2)])
  moreover have "(a, b) \<in> class_rel p \<Longrightarrow> stored p a" for a b using class_rel_stored [OF ok(1,2)] by blast
  ultimately have "set (sn_causalEdges (CreateSnapshot formatTime p nodeID))
      = (\<Union>a \<in> {a. stored p a}. (\<lambda>b. [a, b]) ` {b. (a, b) \<in> class_rel p})"
    by (auto simp: CreateSnapshot_def Let_def sortedSuccessors_def map_has_def image_iff)
  also have "\<dots> = {[a, b] |a b. (a, b) \<in> class_rel p}"
    using class_rel_stored [OF ok(1,2)] by blast
  finally show ?thesis .
qed

lemma distinct_count_list: "distinct xs \<Longrightarrow> count_list xs x \<le> 1"
  by (induction xs) (auto simp: count_list_0_iff)

lemma fold_max_bound: "\<forall>x \<in> set xs. x \<le> (c::'a::linorder) \<Longrightarrow> z \<le> c \<Longrightarrow> fold max xs z \<le> c"
  by (induction xs arbitrary: z) auto

lemma new_poset_left:
  assumes "\<forall>ee \<in> set exports. \<exists>d. fmlookup (events p) (ev_id d) = Some d \<and> ee = exportEvent formatTime d"
  shows "events_left formatTime p exports (NewPoset, [])"
proof -
  have "before NewPoset = {}" by (simp add: before_def NewPoset_ok)
  moreover have "rep NewPoset i = i" for i by (simp add: causalRepresentativeLocked_def NewPoset_def)
  moreover have "receives p NewPoset" using replica_start by (simp add: receives_def) (simp add: NewPoset_def)
  ultimately show ?thesis using assms by (simp add: events_left_def NewPoset_store_ok)
qed

text \<open>The three sections, for the snapshot of a poset merged into an empty one.\<close>

lemma transfer_events:
  fixes nodeID :: node_id
  assumes p: "poset_ok p" and ex: "\<forall>i e. fmlookup (events p) i = Some e \<longrightarrow> exportable formatTime parseTime e"
  defines "exports \<equiv> sn_events (CreateSnapshot formatTime p nodeID)"
  obtains q outs where "runSection ''event'' ex_id (mergeEvent parseTime (count_list (map ex_id exports))) 0
      (sort_key (\<lambda>ee. (ex_lamport ee, ex_id ee)) exports) (NewPoset, []) = Some ((q, []), outs, [])"
    "receives p q" "before q = {}" "stored q = stored p"
    "\<forall>x \<in> set (map ex_lamport exports). \<exists>i. x = lam p i"
proof -
  note ok = poset_okD [OF p]
  let ?ids = "sortEventIDsByLamport p (event_ids p)"
  have ids: "\<forall>i \<in> set ?ids. stored p i" by (simp add: map_has_def)
  have "exports = exportEvents formatTime p ?ids" by (simp add: exports_def CreateSnapshot_def Let_def)
  note exps = exportEvents_ids [OF ok(3) ids, where formatTime = formatTime, folded this]
  define counts where "counts = count_list (map ex_id exports)"
  define run where "run = runSection ''event'' ex_id (mergeEvent parseTime counts) 0
      (sort_key (\<lambda>ee. (ex_lamport ee, ex_id ee)) exports) (NewPoset, [])"
  have "distinct (map ex_id exports)" unfolding exps(1) by simp
  then have counts: "counts i \<le> 1" for i
    unfolding counts_def by (rule distinct_count_list)
  have start: "events_left formatTime p (sort_key (\<lambda>ee. (ex_lamport ee, ex_id ee)) exports) (NewPoset, [])"
    using exps(2) by (intro new_poset_left) auto
  have step: "\<exists>t out. mergeEvent parseTime counts s ee = Some (t, out, None) \<and> events_left formatTime p rest t"
    if left: "events_left formatTime p (ee # rest) s" for ee rest s
    using ex by (intro events_left_step [OF p _ counts left]) blast
  have "\<exists>t outs. run = Some (t, outs, []) \<and> events_left formatTime p [] t"
    unfolding run_def by (rule runSection_quiet [where I = "events_left formatTime p" and step = "mergeEvent parseTime counts", OF step start])
  then obtain t outs where t: "run = Some (t, outs, [])" "events_left formatTime p [] t" by blast
  then obtain q where q: "t = (q, [])" "receives p q" "before q = {}" by (cases t) (simp add: events_left_def)
  have "\<forall>ee \<in> set exports. stored q (ex_id ee)"
    using event_section.run_ok [of "(NewPoset, [])" "''event''" ex_id parseTime counts 0
        "sort_key (\<lambda>ee. (ex_lamport ee, ex_id ee)) exports"] NewPoset_store_ok t(1) q(1)
    by (auto simp: run_def import_holds_def map_has_iff)
  then have "\<forall>j \<in> set (map ex_id exports). stored q j" by simp
  then have "stored p i \<Longrightarrow> stored q i" for i unfolding exps(1) by (simp add: map_has_def)
  then have "stored q = stored p" using q(2) by (auto simp: fun_eq_iff receives_def replica_def)
  moreover have "\<exists>i. x = lam p i" if x: "x \<in> set (map ex_lamport exports)" for x
  proof -
    obtain d where "fmlookup (events p) (ev_id d) = Some d" "x = ev_lamport d"
      using x exps(2) by (force simp: exportEvent_def ev_lamport_def)
    then have "x = lam p (ev_id d)" by (simp add: lam_def)
    then show ?thesis ..
  qed
  ultimately show thesis using that t(1) q by (simp add: run_def counts_def)
qed

lemma transfer_classes:
  fixes nodeID :: node_id
  assumes p: "poset_ok p" "\<And>i. stored p i \<Longrightarrow> ValidString i \<and> CHR 0x00 \<notin> set i"
    and q: "receives p q" "before q = {}" "stored q = stored p"
  obtains r b outs where "runSection ''causal-equivalence'' (strings_join '' =c '') mergeEquivalence 0
      (sort_key (strings_join NUL) (map sort_ids (sn_causalEquivalences (CreateSnapshot formatTime p nodeID)))) (q, [], [])
        = Some ((r, b), outs, [])" "receives p r" "stored r = stored p"
proof -
  note ok = poset_okD [OF p(1)]
  define classes where "classes = sort_key (strings_join NUL) (map sort_ids (nontrivialCausalClassesLocked p))"
  have "map sort_ids (nontrivialCausalClassesLocked p) = nontrivialCausalClassesLocked p"
  proof (rule map_idI)
    fix ms
    assume "ms \<in> set (nontrivialCausalClassesLocked p)"
    then show "sort_ids ms = ms" by (rule nontrivial_classes [OF ok(1)]) (simp add: sort_ids_sorted)
  qed
  then have start: "classes_left p classes (q, [], [])"
    using q nontrivial_distinct [OF ok(1)] by (simp add: classes_left_def classes_def)
  obtain t outs where t: "runSection ''causal-equivalence'' (strings_join '' =c '') mergeEquivalence 0 classes (q, [], [])
      = Some (t, outs, [])" "classes_left p [] t"
    using runSection_quiet [where I = "classes_left p" and step = mergeEquivalence, OF classes_left_step [OF p] start]
    by blast
  then obtain r b where "t = (r, b)" "receives p r" "stored r = stored p" by (cases t) (auto simp: classes_left_def)
  with t(1) that show thesis by (simp add: classes_def CreateSnapshot_def Let_def)
qed

lemma transfer_edges:
  fixes nodeID :: node_id
  assumes p: "poset_ok p" "\<And>i. stored p i \<Longrightarrow> ValidString i \<and> CHR 0x00 \<notin> set i"
    and q: "receives p q" "stored q = stored p"
  obtains r b outs where "runSection ''edge'' (strings_join '' -> '') mergeEdge 0
      (sort_key snapshotEdgeKey (sn_causalEdges (CreateSnapshot formatTime p nodeID))) (q, []) = Some ((r, b), outs, [])"
    "receives p r"
proof -
  let ?edges = "sort_key snapshotEdgeKey (sn_causalEdges (CreateSnapshot formatTime p nodeID))"
  have "\<forall>edge \<in> set ?edges. \<exists>a b. edge = [a, b] \<and> (a, b) \<in> class_rel p"
    using snapshot_edges [OF p(1), of formatTime nodeID] by auto
  then have start: "edges_left p ?edges (q, [])" using q by (simp add: edges_left_def)
  obtain t outs where "runSection ''edge'' (strings_join '' -> '') mergeEdge 0 ?edges (q, []) = Some (t, outs, [])"
    "edges_left p [] t"
    using runSection_quiet [where I = "edges_left p" and step = mergeEdge, OF edges_left_step [OF p] start] by blast
  then show thesis using that [of "fst t" "snd t" outs] by (simp add: edges_left_def)
qed

text \<open>The merge of a poset's own snapshot raises no issue and receives everything.\<close>

lemma transfer_run:
  fixes nodeID :: node_id
  assumes p: "poset_ok p" and ex: "\<forall>i e. fmlookup (events p) i = Some e \<longrightarrow> exportable formatTime parseTime e"
    and mark: "\<forall>i. lam p i \<le> lamportCounter p"
  defines "snap \<equiv> CreateSnapshot formatTime p nodeID"
  obtains q result where "MergeSnapshot parseTime NewPoset (Some snap) = Some (q, Inr (result, None))" "receives p q"
proof -
  note texts = exportable_texts [OF p ex]
  obtain p1 o1 where e: "runSection ''event'' ex_id (mergeEvent parseTime (count_list (map ex_id (sn_events snap)))) 0
      (sort_key (\<lambda>ee. (ex_lamport ee, ex_id ee)) (sn_events snap)) (NewPoset, []) = Some ((p1, []), o1, [])"
    "receives p p1" "before p1 = {}" "stored p1 = stored p"
    "\<forall>x \<in> set (map ex_lamport (sn_events snap)). \<exists>i. x = lam p i"
    unfolding snap_def by (rule transfer_events [OF p ex])
  obtain p2 b2 o2 where c: "runSection ''causal-equivalence'' (strings_join '' =c '') mergeEquivalence 0
      (sort_key (strings_join NUL) (map sort_ids (sn_causalEquivalences snap))) (p1, [], []) = Some ((p2, b2), o2, [])"
    "receives p p2" "stored p2 = stored p"
    unfolding snap_def by (rule transfer_classes [OF p texts e(2-4)])
  obtain p3 b3 o3 where d: "runSection ''edge'' (strings_join '' -> '') mergeEdge 0
      (sort_key snapshotEdgeKey (sn_causalEdges snap)) (p2, []) = Some ((p3, b3), o3, [])" "receives p p3"
    unfolding snap_def by (rule transfer_edges [OF p texts c(2,3)])
  have "fold max (map ex_lamport (sn_events snap)) 0 \<le> lamportCounter p"
    using e(5) mark by (intro fold_max_bound) auto
  then have hw: "\<not> sn_highWater snap < fold max (map ex_lamport (sn_events snap)) 0"
    by (simp add: not_less) (simp add: snap_def CreateSnapshot_def Let_def)
  define q where "q = (if sn_highWater snap > lamportCounter p3 then p3\<lparr>lamportCounter := sn_highWater snap\<rparr> else p3)"
  have run: "MergeSnapshot parseTime NewPoset (Some snap) = Some (q, Inr (merge_counts o1 o2 o3, None))"
    using e(1) c(1) d(1) hw by (cases b2) (simp add: MergeSnapshot_def Let_def q_def newSnapshotMergeError_def)
  have "receives p q"
    using d(2) by (auto simp: q_def receives_def replica_def IsCausallyEquivalent_iff)
  with run that show thesis by blast
qed

section \<open>The receiver\<close>

lemma class_in_snapshot:
  assumes ok: "class_ok p" and eq: "IsCausallyEquivalent p i j" "i \<noteq> j"
  obtains ms where "ms \<in> set (nontrivialCausalClassesLocked p)" "i \<in> set ms" "j \<in> set ms"
proof
  have ij: "stored p i" "stored p j" "rep p i = rep p j" using eq(1) by (simp_all add: IsCausallyEquivalent_iff)
  then have mem: "i \<in> set (class_list p (rep p i))" "j \<in> set (class_list p (rep p i))" by (simp_all add: set_class_list)
  then have "card {i, j} \<le> card (set (class_list p (rep p i)))" by (intro card_mono) auto
  then have "1 < length (class_list p (rep p i))" using eq(2) by (simp add: distinct_card)
  then show "causalClassMembersLocked p (rep p i) \<in> set (nontrivialCausalClassesLocked p)"
    using ij ok by (auto simp: nontrivialCausalClassesLocked_def representatives_ok causalClassMembersLocked_ok rep_stored rep_rep)
  show "i \<in> set (causalClassMembersLocked p (rep p i))" "j \<in> set (causalClassMembersLocked p (rep p i))"
    using mem ij ok by (simp_all add: causalClassMembersLocked_ok rep_stored rep_rep)
qed

lemma snapshot_ids:
  assumes "poset_ok p"
  shows "map ex_id (sn_events (CreateSnapshot formatTime p nodeID)) = sortEventIDsByLamport p (event_ids p)"
  using exportEvents_ids(1) [OF poset_okD(3) [OF assms]] by (simp add: CreateSnapshot_def Let_def map_has_def)

lemma integrated_replica:
  assumes p: "poset_ok p" and q: "receives p q" and snap: "integrated parseTime q (CreateSnapshot formatTime p nodeID)"
  shows "stored q = stored p" "before q = before p" "IsCausallyEquivalent q = IsCausallyEquivalent p"
proof -
  note ok = poset_okD [OF p]
  have "\<forall>i \<in> set (map ex_id (sn_events (CreateSnapshot formatTime p nodeID))). stored q i"
    using snap by (auto simp: integrated_def map_has_iff)
  then have "stored p i \<Longrightarrow> stored q i" for i by (simp add: snapshot_ids [OF p] map_has_def)
  then show st: "stored q = stored p" using q by (auto simp: fun_eq_iff receives_def replica_def)
  have classes: "IsCausallyEquivalent q i j" if eq: "IsCausallyEquivalent p i j" for i j
  proof (cases "i = j")
    case True
    then show ?thesis using eq st by (simp add: IsCausallyEquivalent_iff)
  next
    case False
    obtain ms where "ms \<in> set (nontrivialCausalClassesLocked p)" "i \<in> set ms" "j \<in> set ms"
      by (rule class_in_snapshot [OF ok(1) eq False])
    then show ?thesis using snap by (simp add: integrated_def CreateSnapshot_def Let_def)
  qed
  have edges: "(a, b) \<in> before q" if ab: "(a, b) \<in> class_rel p" for a b
  proof -
    have "[a, b] \<in> set (sn_causalEdges (CreateSnapshot formatTime p nodeID))" using snapshot_edges [OF p] ab by blast
    then have "(a, b) \<in> before q \<or> pendingEdgeExists (pendingEdges q) a b" using snap by (auto simp: integrated_def)
    then show ?thesis using q by (simp add: receives_def pendingEdgeExists_def)
  qed
  have "replica p q" using q by (simp add: receives_def)
  then show "before q = before p" "IsCausallyEquivalent q = IsCausallyEquivalent p"
    using replica_complete [OF p _ st classes edges] by blast+
qed

lemma snapshot_nul_free:
  assumes p: "poset_ok p" and ex: "\<forall>i e. fmlookup (events p) i = Some e \<longrightarrow> exportable formatTime parseTime e"
  shows "\<forall>ms \<in> set (sn_causalEquivalences (CreateSnapshot formatTime p nodeID)). nul_free ms"
proof
  fix ms
  assume "ms \<in> set (sn_causalEquivalences (CreateSnapshot formatTime p nodeID))"
  then have "ms \<in> set (nontrivialCausalClassesLocked p)" by (simp add: CreateSnapshot_def Let_def)
  then obtain r where "ms = class_list p r" by (rule nontrivial_classes [OF poset_okD(1) [OF p]])
  then show "nul_free ms" using exportable_texts [OF p ex] by (simp add: nul_free_def set_class_list)
qed

lemma snapshot_received:
  fixes nodeID :: node_id
  assumes p: "poset_ok p" and ex: "\<forall>i e. fmlookup (events p) i = Some e \<longrightarrow> exportable formatTime parseTime e"
    and mark: "\<forall>i. lam p i \<le> lamportCounter p"
  obtains q result where
    "MergeSnapshot parseTime NewPoset (Some (CreateSnapshot formatTime p nodeID)) = Some (q, Inr (result, None))"
    "receives p q" "store_ok q" "stored q = stored p" "before q = before p" "IsCausallyEquivalent q = IsCausallyEquivalent p"
proof -
  let ?snap = "CreateSnapshot formatTime p nodeID"
  obtain q result where q: "MergeSnapshot parseTime NewPoset (Some ?snap) = Some (q, Inr (result, None))" "receives p q"
    by (rule transfer_run [OF p ex mark])
  have whole: "store_ok q" "integrated parseTime q ?snap"
    using q(1) snapshot_nul_free [OF p ex] by (auto intro: merge_outcome [OF NewPoset_store_ok, of parseTime ?snap])
  show thesis by (rule that [OF q whole(1) integrated_replica [OF p q(2) whole(2)]])
qed

text \<open>A coordinator sends a copy; the copy of an own snapshot is the snapshot itself.\<close>

lemma cloneExports_same:
  "\<forall>ee \<in> set exports. CanonicalizeParams (ex_params ee) = Inr (ex_params ee) \<and> canonical_timings (ex_timings ee) \<Longrightarrow>
     cloneExports exports = Inr exports"
  by (induction exports) (simp_all add: Canonicalize_fixpoint)

lemma clone_own_snapshot:
  assumes p: "poset_ok p" and ex: "\<forall>i e. fmlookup (events p) i = Some e \<longrightarrow> exportable formatTime parseTime e"
  shows "CloneSnapshot (Some (CreateSnapshot formatTime p nodeID)) = Inr (CreateSnapshot formatTime p nodeID)"
proof -
  let ?ids = "sortEventIDsByLamport p (event_ids p)"
  note ok = poset_okD [OF p]
  have ids: "\<forall>i \<in> set ?ids. stored p i" by (simp add: map_has_def)
  have "cloneExports (exportEvents formatTime p ?ids) = Inr (exportEvents formatTime p ?ids)"
  proof (intro cloneExports_same ballI)
    fix ee
    assume "ee \<in> set (exportEvents formatTime p ?ids)"
    then obtain d where d: "fmlookup (events p) (ev_id d) = Some d" "ee = exportEvent formatTime d"
      using exportEvents_ids(2) [OF ok(3) ids] by blast
    have "exportable formatTime parseTime d" "canonical_timings (ev_timings d)" using ex ok(3) d(1) by (auto simp: events_ok_def)
    then show "CanonicalizeParams (ex_params ee) = Inr (ex_params ee) \<and> canonical_timings (ex_timings ee)"
      by (simp add: d(2) exportEvent_def exportable_def)
  qed
  then show ?thesis by (simp add: CloneSnapshot_def CreateSnapshot_def Let_def)
qed

text \<open>C34: Merging the full snapshot of a poset into an empty one, as a joining node does, succeeds
  without an issue and yields a receiver with the same occurrences, the same causal classes and the same strict
  order, each event with the name, source, parameters, timings, wall time and vector clock it had.  The
  hypotheses are the sender's invariant, that its texts and values have a canonical form and its times
  survive formatting, and that no Lamport time exceeds its counter.\<close>

theorem snapshot_transfer:
  fixes nodeID :: node_id
  assumes p: "poset_ok p" and ex: "\<forall>i e. fmlookup (events p) i = Some e \<longrightarrow> exportable formatTime parseTime e"
    and mark: "\<forall>i. lam p i \<le> lamportCounter p"
  shows "\<exists>q result. MergeSnapshot parseTime NewPoset (Some (CreateSnapshot formatTime p nodeID)) = Some (q, Inr (result, None))
    \<and> store_ok q \<and> stored q = stored p \<and> before q = before p \<and> IsCausallyEquivalent q = IsCausallyEquivalent p
    \<and> (\<forall>i e. fmlookup (events q) i = Some e \<longrightarrow> (\<exists>d. fmlookup (events p) i = Some d \<and> transferred d e))"
proof -
  obtain q result where "MergeSnapshot parseTime NewPoset (Some (CreateSnapshot formatTime p nodeID)) = Some (q, Inr (result, None))"
    "receives p q" "store_ok q" "stored q = stored p" "before q = before p" "IsCausallyEquivalent q = IsCausallyEquivalent p"
    by (rule snapshot_received [OF p ex mark])
  then show ?thesis by (auto simp: receives_def)
qed

lemma sample_exportable:
  "\<forall>i e. fmlookup (events equated_events) i = Some e \<longrightarrow> exportable (\<lambda>_. ''noon'') (\<lambda>_. Some 0) e"
  "\<forall>i. lam equated_events i \<le> lamportCounter equated_events"
proof -
  have "\<forall>i \<in> set (event_ids equated_events). case fmlookup (events equated_events) i of None \<Rightarrow> True
      | Some e \<Rightarrow> exportable (\<lambda>_. ''noon'') (\<lambda>_. Some 0) e \<and> lam equated_events i \<le> lamportCounter equated_events"
    by code_simp
  then show "\<forall>i e. fmlookup (events equated_events) i = Some e \<longrightarrow> exportable (\<lambda>_. ''noon'') (\<lambda>_. Some 0) e"
    "\<forall>i. lam equated_events i \<le> lamportCounter equated_events"
    by (auto simp: lam_def fmlookup_dom_iff split: option.splits)
qed

theorem snapshot_transfer_witness:
  "\<exists>q result. MergeSnapshot (\<lambda>_. Some 0) NewPoset (Some (CreateSnapshot (\<lambda>_. ''noon'') equated_events ''n''))
      = Some (q, Inr (result, None)) \<and> IsCausallyEquivalent q ''b'' ''c''"
proof -
  have "IsCausallyEquivalent equated_events ''b'' ''c''" by code_simp
  then show ?thesis
    using snapshot_transfer [OF equated_events_ok sample_exportable, of "''n''"] by auto
qed

end
