(* ===== verification/Dsync_Transport.thy ===== *)
theory Dsync_Transport
  imports Snapshot_Model
begin

text \<open>
  The in-memory transport of \<open>dsync/mem_transport.go\<close>.  \<open>Send\<close> and \<open>Close\<close> are split at their lock regions
  and channel operations, and an \<open>net_action\<close> is one such region of one call, so a list of actions is an
  interleaving of any number of calls.  A blocked region has no successor (\<open>None\<close>).  Sending on a closed
  channel and closing it twice panic in Go; here they set \<open>panicked\<close>.

  The condition variable \<open>sendCond\<close> is the list of the calls of \<open>Close\<close> asleep in \<open>Wait\<close>: such a call takes no
  region until the last active send broadcasts.

  The abstract specification is a FIFO channel per node (\<open>channel_step\<close>), which every action refines.  That
  \<open>Close\<close> returns is stated of infinite runs that are weakly fair to the calls.
\<close>

section \<open>State\<close>

record mem_transport =
  mt_inbox :: "snapshot list"
  mt_inboxClosed :: bool
  mt_closing :: bool
  mt_closed :: bool
  mt_activeSends :: int

datatype send_frame =
    Checked node_id snapshot nat \<comment> \<open>after the checks of the arguments and of the sender\<close>
  | Entering node_id snapshot nat \<comment> \<open>the peer was found and the snapshot copied\<close>
  | Selecting node_id snapshot nat \<comment> \<open>blocked in the \<open>select\<close>\<close>
  | Leaving node_id "go_error option" \<comment> \<open>before the deferred decrement\<close>
  | Returned "go_error option"

record mem_network =
  transports :: "(node_id, mem_transport) fmap"
  sends :: "send_frame list" \<comment> \<open>the calls of \<open>Send\<close> made so far\<close>
  closers :: "node_id list" \<comment> \<open>the calls of \<open>Close\<close> in the loop that waits for active sends\<close>
  sleeping :: "node_id list" \<comment> \<open>those of them asleep in \<open>sendCond.Wait\<close>\<close>
  cancelled :: "nat list" \<comment> \<open>the contexts that are done\<close>
  panicked :: bool

definition inbox_capacity :: nat where "inbox_capacity = 256"

definition NewMemNetwork :: mem_network where
  "NewMemNetwork = \<lparr>transports = fmempty, sends = [], closers = [], sleeping = [], cancelled = [], panicked = False\<rparr>"

definition NewMemTransport :: mem_transport where
  "NewMemTransport = \<lparr>mt_inbox = [], mt_inboxClosed = False, mt_closing = False, mt_closed = False, mt_activeSends = 0\<rparr>"

definition Transport :: "mem_network \<Rightarrow> node_id \<Rightarrow> mem_network \<times> mem_transport" where
  "Transport s nodeID = (case fmlookup (transports s) nodeID of
      Some t \<Rightarrow> (s, t)
    | None \<Rightarrow> (s\<lparr>transports := fmupd nodeID NewMemTransport (transports s)\<rparr>, NewMemTransport))"

definition put_transport :: "node_id \<Rightarrow> mem_transport \<Rightarrow> mem_network \<Rightarrow> mem_network" where
  "put_transport n t s = s\<lparr>transports := fmupd n t (transports s)\<rparr>"

section \<open>Regions of a send\<close>

definition sendChecks :: "mem_network \<Rightarrow> node_id option \<Rightarrow> nat option \<Rightarrow> node_id \<Rightarrow> snapshot option \<Rightarrow> send_frame" where
  \<comment> \<open>the sender is \<open>None\<close> when the transport or its network is nil\<close>
  "sendChecks s sender ctx target snap = (case sender of
      None \<Rightarrow> Returned (Some (ErrOther ''dsync: sender transport or network is nil''))
    | Some self \<Rightarrow> (case ctx of
        None \<Rightarrow> Returned (Some (ErrOther ''dsync: send context is nil''))
      | Some ctx \<Rightarrow> (case snap of
          None \<Rightarrow> Returned (Some (ErrOther ''dsync: snapshot is nil''))
        | Some snap \<Rightarrow> (case fmlookup (transports s) self of
            None \<Rightarrow> Returned (Some (ErrOther ''dsync: sender transport or network is nil''))
          | Some t \<Rightarrow> if mt_closed t
              then Returned (Some (ErrOther (''dsync: sender '' @ self @ '' transport is closed'')))
              else Checked target snap ctx))))"

definition sendLookup :: "mem_network \<Rightarrow> node_id \<Rightarrow> snapshot \<Rightarrow> nat \<Rightarrow> send_frame" where
  "sendLookup s target snap ctx = (case fmlookup (transports s) target of
      None \<Rightarrow> Returned (Some (ErrOther (''dsync: unknown peer '' @ target)))
    | Some _ \<Rightarrow> (case CloneSnapshot (Some snap) of
        Inl err \<Rightarrow> Returned (Some err)
      | Inr owned \<Rightarrow> Entering target owned ctx))"

definition sendEnter :: "mem_transport \<Rightarrow> node_id \<Rightarrow> snapshot \<Rightarrow> nat \<Rightarrow> mem_transport \<times> send_frame" where
  "sendEnter peer target owned ctx =
     (if mt_closed peer then (peer, Returned (Some (ErrOther (''dsync: peer '' @ target @ '' transport is closed''))))
      else (peer\<lparr>mt_activeSends := mt_activeSends peer + 1\<rparr>, Selecting target owned ctx))"

datatype select_case = CaseInbox | CaseDone | CaseClosing

definition sendSelect :: "mem_network \<Rightarrow> mem_transport \<Rightarrow> node_id \<Rightarrow> snapshot \<Rightarrow> nat \<Rightarrow> select_case
    \<Rightarrow> (mem_transport \<times> send_frame) option" where
  \<comment> \<open>a case is chosen only when its channel is ready; the inbox is open here\<close>
  "sendSelect s peer target owned ctx which = (case which of
      CaseInbox \<Rightarrow> if length (mt_inbox peer) < inbox_capacity
        then Some (peer\<lparr>mt_inbox := mt_inbox peer @ [owned]\<rparr>, Leaving target None) else None
    | CaseDone \<Rightarrow> if ctx \<in> set (cancelled s)
        then Some (peer, Leaving target (Some (ErrOther ''context canceled''))) else None
    | CaseClosing \<Rightarrow> if mt_closing peer
        then Some (peer, Leaving target (Some (ErrOther (''dsync: peer '' @ target @ '' transport closed during send''))))
        else None)"

definition sendLeave :: "mem_network \<Rightarrow> node_id \<Rightarrow> mem_transport \<Rightarrow> mem_network" where
  \<comment> \<open>the last active send wakes the calls asleep in \<open>Wait\<close>\<close>
  "sendLeave s target peer =
     (let peer = peer\<lparr>mt_activeSends := mt_activeSends peer - 1\<rparr>;
          s = put_transport target peer s
      in if mt_activeSends peer = 0 then s\<lparr>sleeping := removeAll target (sleeping s)\<rparr> else s)"

section \<open>Actions\<close>

datatype net_action =
    Open node_id
  | Cancel nat
  | Send "node_id option" "nat option" node_id "snapshot option"
  | Continue nat select_case \<comment> \<open>the next region of the call with this number\<close>
  | Receive node_id
  | Close node_id
  | FinishClose node_id

datatype net_label = Quiet | Offered node_id snapshot | Took node_id snapshot

definition put_frame :: "nat \<Rightarrow> send_frame \<Rightarrow> mem_network \<Rightarrow> mem_network" where
  "put_frame k f s = s\<lparr>sends := (sends s)[k := f]\<rparr>"

fun continueSend :: "mem_network \<Rightarrow> nat \<Rightarrow> select_case \<Rightarrow> send_frame \<Rightarrow> (net_label \<times> mem_network) option" where
  "continueSend s k which (Checked target snap ctx) = Some (Quiet, put_frame k (sendLookup s target snap ctx) s)"
| "continueSend s k which (Entering target owned ctx) =
     (case fmlookup (transports s) target of None \<Rightarrow> None
      | Some peer \<Rightarrow> (case sendEnter peer target owned ctx of
          (peer', f) \<Rightarrow> Some (Quiet, put_frame k f (put_transport target peer' s))))"
| "continueSend s k which (Selecting target owned ctx) =
     (case fmlookup (transports s) target of None \<Rightarrow> None
      | Some peer \<Rightarrow>
          if which = CaseInbox \<and> mt_inboxClosed peer then Some (Quiet, s\<lparr>panicked := True\<rparr>)
          else (case sendSelect s peer target owned ctx which of None \<Rightarrow> None
            | Some (peer', f) \<Rightarrow> Some (if which = CaseInbox then Offered target owned else Quiet,
                put_frame k f (put_transport target peer' s))))"
| "continueSend s k which (Leaving target result) =
     (case fmlookup (transports s) target of None \<Rightarrow> None
      | Some peer \<Rightarrow> Some (Quiet, put_frame k (Returned result) (sendLeave s target peer)))"
| "continueSend s k which (Returned result) = None"

definition awaitSends :: "mem_network \<Rightarrow> node_id \<Rightarrow> mem_transport \<Rightarrow> mem_network" where
  \<comment> \<open>the loop test of \<open>Close\<close> and what follows it, under the lock: to sleep, or to close the inbox\<close>
  "awaitSends s n t =
     (if mt_activeSends t \<noteq> 0 then s\<lparr>sleeping := n # sleeping s\<rparr>
      else if mt_inboxClosed t then s\<lparr>panicked := True\<rparr>
      else (put_transport n (t\<lparr>mt_inboxClosed := True\<rparr>) s)\<lparr>closers := remove1 n (closers s)\<rparr>)"

definition closeCall :: "mem_network \<Rightarrow> node_id \<Rightarrow> mem_network option" where
  \<comment> \<open>a second call returns at once\<close>
  "closeCall s n = (case fmlookup (transports s) n of None \<Rightarrow> None
    | Some t \<Rightarrow> Some (if mt_closed t then s
        else let t = t\<lparr>mt_closed := True, mt_closing := True\<rparr>
          in awaitSends ((put_transport n t s)\<lparr>closers := n # closers s\<rparr>) n t))"

definition finishClose :: "mem_network \<Rightarrow> node_id \<Rightarrow> mem_network option" where
  \<comment> \<open>a woken call holds the lock again and goes back to the loop test\<close>
  "finishClose s n = (case fmlookup (transports s) n of None \<Rightarrow> None
    | Some t \<Rightarrow> if n \<notin> set (closers s) \<or> n \<in> set (sleeping s) then None else Some (awaitSends s n t))"

definition receiveOne :: "mem_network \<Rightarrow> node_id \<Rightarrow> (net_label \<times> mem_network) option" where
  \<comment> \<open>a closed and empty inbox yields the zero value; the receiver learns it is closed\<close>
  "receiveOne s n = (case fmlookup (transports s) n of None \<Rightarrow> None
    | Some t \<Rightarrow> (case mt_inbox t of
        snap # rest \<Rightarrow> Some (Took n snap, put_transport n (t\<lparr>mt_inbox := rest\<rparr>) s)
      | [] \<Rightarrow> if mt_inboxClosed t then Some (Quiet, s) else None))"

fun net_act :: "net_action \<Rightarrow> mem_network \<Rightarrow> (net_label \<times> mem_network) option" where
  "net_act (Open n) s = Some (Quiet, fst (Transport s n))"
| "net_act (Cancel ctx) s = Some (Quiet, s\<lparr>cancelled := ctx # cancelled s\<rparr>)"
| "net_act (Send sender ctx target snap) s = Some (Quiet, s\<lparr>sends := sends s @ [sendChecks s sender ctx target snap]\<rparr>)"
| "net_act (Continue k which) s = (if k < length (sends s) then continueSend s k which (sends s ! k) else None)"
| "net_act (Receive n) s = receiveOne s n"
| "net_act (Close n) s = map_option (Pair Quiet) (closeCall s n)"
| "net_act (FinishClose n) s = map_option (Pair Quiet) (finishClose s n)"

fun net_run :: "net_action list \<Rightarrow> mem_network \<Rightarrow> (net_label list \<times> mem_network) option" where
  "net_run [] s = Some ([], s)"
| "net_run (a # as) s = (case net_act a s of None \<Rightarrow> None
     | Some (l, t) \<Rightarrow> map_option (apfst ((#) l)) (net_run as t))"

section \<open>The abstract channels\<close>

record channels =
  queue :: "node_id \<Rightarrow> snapshot list"
  shut :: "node_id \<Rightarrow> bool"

inductive channel_step :: "channels \<Rightarrow> net_label \<Rightarrow> channels \<Rightarrow> bool" where
  idle: "channel_step c Quiet c"
| offer: "channel_step c (Offered n x) (c\<lparr>queue := (queue c)(n := queue c n @ [x])\<rparr>)"
    if "\<not> shut c n" "length (queue c n) < inbox_capacity"
| take: "channel_step c (Took n x) (c\<lparr>queue := (queue c)(n := xs)\<rparr>)" if "queue c n = x # xs"
| shut: "channel_step c Quiet (c\<lparr>shut := (shut c)(n := True)\<rparr>)" if "\<not> shut c n"

inductive_cases channel_offeredE: "channel_step c (Offered n x) d"
inductive_cases channel_tookE: "channel_step c (Took n x) d"
inductive_cases channel_quietE: "channel_step c Quiet d"

inductive channel_run :: "channels \<Rightarrow> net_label list \<Rightarrow> channels \<Rightarrow> bool" where
  stop: "channel_run c [] c"
| more: "channel_run c (l # ls) e" if "channel_step c l d" "channel_run d ls e"

definition abs_net :: "mem_network \<Rightarrow> channels" where
  "abs_net s = \<lparr>queue = (\<lambda>n. case fmlookup (transports s) n of None \<Rightarrow> [] | Some t \<Rightarrow> mt_inbox t),
     shut = (\<lambda>n. case fmlookup (transports s) n of None \<Rightarrow> False | Some t \<Rightarrow> mt_inboxClosed t)\<rparr>"

section \<open>What a channel promises\<close>

fun offered :: "node_id \<Rightarrow> net_label list \<Rightarrow> snapshot list" where
  "offered n [] = []"
| "offered n (Offered m x # ls) = (if m = n then x # offered n ls else offered n ls)"
| "offered n (_ # ls) = offered n ls"

fun took :: "node_id \<Rightarrow> net_label list \<Rightarrow> snapshot list" where
  "took n [] = []"
| "took n (Took m x # ls) = (if m = n then x # took n ls else took n ls)"
| "took n (_ # ls) = took n ls"

lemma channel_run_fifo: "channel_run c ls d \<Longrightarrow> queue c n @ offered n ls = took n ls @ queue d n"
proof (induction rule: channel_run.induct)
  case (more c l d ls e)
  from more(1,3) show ?case by (cases rule: channel_step.cases) auto
qed simp

lemma channel_step_bounded:
  "channel_step c l d \<Longrightarrow> length (queue c n) \<le> inbox_capacity \<Longrightarrow> length (queue d n) \<le> inbox_capacity"
  by (cases rule: channel_step.cases) auto

lemma channel_run_bounded:
  "channel_run c ls d \<Longrightarrow> length (queue c n) \<le> inbox_capacity \<Longrightarrow> length (queue d n) \<le> inbox_capacity"
  by (induction rule: channel_run.induct) (simp_all add: channel_step_bounded)

section \<open>The invariant\<close>

fun active_at :: "node_id \<Rightarrow> send_frame \<Rightarrow> bool" where
  "active_at n (Selecting m _ _) = (m = n)"
| "active_at n (Leaving m _) = (m = n)"
| "active_at n _ = False"

fun frame_known :: "(node_id, mem_transport) fmap \<Rightarrow> send_frame \<Rightarrow> bool" where
  "frame_known ts (Entering n _ _) = map_has ts n"
| "frame_known ts (Selecting n _ _) = map_has ts n"
| "frame_known ts (Leaving n _) = map_has ts n"
| "frame_known ts _ = True"

definition active :: "mem_network \<Rightarrow> node_id \<Rightarrow> nat" where
  "active s n = length (filter (active_at n) (sends s))"

definition transport_ok :: "nat \<Rightarrow> bool \<Rightarrow> mem_transport \<Rightarrow> bool" where
  "transport_ok inflight waiting t \<longleftrightarrow> mt_activeSends t = int inflight \<and> mt_closing t = mt_closed t
     \<and> (waiting \<longleftrightarrow> mt_closed t \<and> \<not> mt_inboxClosed t)
     \<and> (mt_inboxClosed t \<longrightarrow> mt_closed t \<and> inflight = 0) \<and> length (mt_inbox t) \<le> inbox_capacity"

definition net_ok :: "mem_network \<Rightarrow> bool" where
  "net_ok s \<longleftrightarrow> \<not> panicked s \<and> distinct (closers s) \<and> (\<forall>f \<in> set (sends s). frame_known (transports s) f)
     \<and> (\<forall>n. fmlookup (transports s) n = None \<longrightarrow> n \<notin> set (closers s) \<and> active s n = 0)
     \<and> (\<forall>n t. fmlookup (transports s) n = Some t \<longrightarrow> transport_ok (active s n) (n \<in> set (closers s)) t)"

lemma NewMemNetwork_ok: "net_ok NewMemNetwork"
  by (simp add: net_ok_def NewMemNetwork_def active_def)

lemma net_okD:
  assumes "net_ok s"
  shows "\<not> panicked s" "distinct (closers s)" "f \<in> set (sends s) \<Longrightarrow> frame_known (transports s) f"
    "fmlookup (transports s) n = Some t \<Longrightarrow> transport_ok (active s n) (n \<in> set (closers s)) t"
    "fmlookup (transports s) n = None \<Longrightarrow> n \<notin> set (closers s) \<and> active s n = 0"
  using assms by (simp_all add: net_ok_def)

lemma length_filter_update:
  "k < length xs \<Longrightarrow> length (filter P (xs[k := y])) + (if P (xs ! k) then 1 else 0)
     = length (filter P xs) + (if P y then 1 else 0)"
proof (induction xs arbitrary: k)
  case (Cons x xs)
  then show ?case by (cases k) auto
qed simp

text \<open>The invariant after a change of one transport and one frame.\<close>

lemma frame_known_update: "frame_known ts f \<Longrightarrow> frame_known (fmupd n t ts) f"
  by (cases f) (auto simp: map_has_def)

lemma net_ok_put:
  assumes s: "net_ok s" "fmlookup (transports s) n = Some t" "k < length (sends s)" "sends s ! k = f"
    and known: "frame_known (transports s) f'" and only: "\<And>m. active_at m f \<or> active_at m f' \<Longrightarrow> m = n"
    and ok: "\<And>inflight. transport_ok (inflight + (if active_at n f then 1 else 0)) (n \<in> set (closers s)) t \<Longrightarrow>
        transport_ok (inflight + (if active_at n f' then 1 else 0)) (n \<in> set (closers s)) t'"
  shows "net_ok (put_frame k f' (put_transport n t' s))"
proof -
  let ?u = "put_frame k f' (put_transport n t' s)"
  have act: "active ?u m + (if active_at m f then 1 else 0) = active s m + (if active_at m f' then 1 else 0)" for m
    using length_filter_update [OF s(3), of "active_at m" f'] s(4)
    by (simp add: active_def put_frame_def put_transport_def)
  have same: "active ?u m = active s m" if "m \<noteq> n" for m
    using act [of m] only that by (auto split: if_splits)
  obtain inflight where inflight: "active s n = inflight + (if active_at n f then 1 else 0)"
    "active ?u n = inflight + (if active_at n f' then 1 else 0)"
  proof (cases "active_at n f")
    case True
    then have "active s n \<noteq> 0" using s(3,4) by (auto simp: active_def filter_empty_conv)
    then show thesis using act [of n] True that [of "active s n - 1"] by auto
  next
    case False
    then show thesis using act [of n] that [of "active s n"] by auto
  qed
  have "transport_ok (active ?u n) (n \<in> set (closers s)) t'"
    using ok [of inflight] net_okD(4) [OF s(1,2)] inflight by simp
  moreover have "\<forall>g \<in> set (sends ?u). frame_known (transports ?u) g"
    using net_okD(3) [OF s(1)] known
    by (auto simp: put_frame_def put_transport_def intro: frame_known_update dest!: set_update_subset_insert [THEN subsetD])
  ultimately show ?thesis
    using s(1) same by (simp add: net_ok_def put_frame_def [of k f'] put_transport_def)
qed

text \<open>A change of one transport alone.\<close>

lemma frames_known_put: "\<forall>f \<in> set fs. frame_known ts f \<Longrightarrow> \<forall>f \<in> set fs. frame_known (fmupd n t ts) f"
  by (auto intro: frame_known_update)

lemma net_ok_transport:
  assumes s: "net_ok s" and ok: "transport_ok (active s n) (n \<in> set (closers s)) t'"
  shows "net_ok (put_transport n t' s)"
  using s ok frames_known_put [of "sends s" "transports s" n t']
  by (auto simp: net_ok_def put_transport_def active_def)

lemma net_ok_frame:
  assumes s: "net_ok s" "k < length (sends s)" "frame_known (transports s) f"
    and only: "\<And>m. \<not> active_at m (sends s ! k) \<and> \<not> active_at m f"
  shows "net_ok (put_frame k f s)"
proof -
  have act: "active (put_frame k f s) m = active s m" for m
    using length_filter_update [OF s(2), of "active_at m" f] only by (simp add: active_def put_frame_def)
  have "\<forall>g \<in> set (sends (put_frame k f s)). frame_known (transports s) g"
    using net_okD(3) [OF s(1)] s(3) by (auto simp: put_frame_def dest!: set_update_subset_insert [THEN subsetD])
  then show ?thesis using s(1) act by (simp add: net_ok_def put_frame_def [of k f])
qed

lemma known_transport:
  assumes "net_ok s" "k < length (sends s)" "sends s ! k = f" "\<And>ts. frame_known ts f = map_has ts n"
  obtains t where "fmlookup (transports s) n = Some t" "transport_ok (active s n) (n \<in> set (closers s)) t"
    "active_at n f \<Longrightarrow> \<not> mt_inboxClosed t"
proof -
  have f: "f \<in> set (sends s)" using assms(2,3) by auto
  then have "map_has (transports s) n" using net_okD(3) [OF assms(1)] assms(4) by blast
  then obtain t where t: "fmlookup (transports s) n = Some t" by (auto simp: map_has_iff)
  have t_ok: "transport_ok (active s n) (n \<in> set (closers s)) t" by (rule net_okD(4) [OF assms(1) t])
  have "active_at n f \<Longrightarrow> active s n \<noteq> 0" using f by (auto simp: active_def filter_empty_conv)
  then have "active_at n f \<Longrightarrow> \<not> mt_inboxClosed t" using t_ok by (simp add: transport_ok_def)
  then show thesis by (rule that [OF t t_ok])
qed

lemma net_ok_sleeping [simp]: "net_ok (s\<lparr>sleeping := ns\<rparr>) = net_ok s"
  by (simp add: net_ok_def active_def)

lemma sendLeave_put:
  "\<exists>ns. put_frame k f (sendLeave s n t)
     = (put_frame k f (put_transport n (t\<lparr>mt_activeSends := mt_activeSends t - 1\<rparr>) s))\<lparr>sleeping := ns\<rparr>"
  by (cases s) (auto simp: sendLeave_def put_frame_def put_transport_def Let_def)

section \<open>Every action\<close>

text \<open>An action keeps the invariant and is a step, or no step, of the abstract channels.\<close>

lemma abs_net_put:
  "abs_net (put_frame k f s) = abs_net s"
  "fmlookup (transports s) n = Some t \<Longrightarrow> mt_inbox t' = mt_inbox t \<Longrightarrow> mt_inboxClosed t' = mt_inboxClosed t \<Longrightarrow>
     abs_net (put_transport n t' s) = abs_net s"
  "fmlookup (transports s) n = Some t \<Longrightarrow> mt_inboxClosed t' = mt_inboxClosed t \<Longrightarrow>
     abs_net (put_transport n t' s) = (abs_net s)\<lparr>queue := (queue (abs_net s))(n := mt_inbox t')\<rparr>"
  by (auto simp: abs_net_def put_frame_def put_transport_def fun_eq_iff)

lemma abs_net_at:
  "fmlookup (transports s) n = Some t \<Longrightarrow> queue (abs_net s) n = mt_inbox t \<and> shut (abs_net s) n = mt_inboxClosed t"
  by (simp add: abs_net_def)

lemma frame_not_active:
  "\<not> active_at m (sendChecks s sender c to source)" "\<not> active_at m (sendLookup s target snap ctx)"
  "frame_known ts (sendChecks s sender c to source)" "frame_known (transports s) (sendLookup s target snap ctx)"
  by (auto simp: sendChecks_def sendLookup_def map_has_iff split: option.splits sum.splits)

lemma abs_net_frames [simp]:
  "abs_net (s\<lparr>sends := fs\<rparr>) = abs_net s" "abs_net (s\<lparr>closers := ns\<rparr>) = abs_net s"
  "abs_net (s\<lparr>cancelled := cs\<rparr>) = abs_net s" "abs_net (s\<lparr>sleeping := ms\<rparr>) = abs_net s"
  by (simp_all add: abs_net_def)

lemma send_step:
  assumes s: "net_ok s" "k < length (sends s)" "continueSend s k which (sends s ! k) = Some (l, t)"
  shows "net_ok t \<and> channel_step (abs_net s) l (abs_net t)"
proof (cases "sends s ! k")
  case (Checked target snap ctx)
  then have "t = put_frame k (sendLookup s target snap ctx) s" "l = Quiet" using s(3) by simp_all
  then show ?thesis
    using net_ok_frame [OF s(1,2) frame_not_active(4)] Checked by (simp add: frame_not_active abs_net_put channel_step.idle)
next
  case (Entering target owned ctx)
  then obtain peer where peer: "fmlookup (transports s) target = Some peer"
    "transport_ok (active s target) (target \<in> set (closers s)) peer"
    by (rule known_transport [OF s(1,2), of _ target]) simp_all
  let ?f = "snd (sendEnter peer target owned ctx)" and ?t = "fst (sendEnter peer target owned ctx)"
  have t: "t = put_frame k ?f (put_transport target ?t s)" "l = Quiet"
    using s(3) Entering peer(1) by (simp_all split: prod.splits)
  have "net_ok t"
    unfolding t(1) by (rule net_ok_put [OF s(1) peer(1) s(2) Entering])
      (use peer in \<open>auto simp: sendEnter_def transport_ok_def map_has_iff\<close>)
  moreover have "abs_net t = abs_net s"
    unfolding t(1) abs_net_put(1) by (rule abs_net_put(2) [OF peer(1)]) (simp_all add: sendEnter_def)
  ultimately show ?thesis by (simp add: t(2) channel_step.idle)
next
  case (Selecting target owned ctx)
  then obtain peer where peer: "fmlookup (transports s) target = Some peer"
    "transport_ok (active s target) (target \<in> set (closers s)) peer" "\<not> mt_inboxClosed peer"
    by (rule known_transport [OF s(1,2), of _ target]) simp_all
  obtain peer' f where sel: "sendSelect s peer target owned ctx which = Some (peer', f)"
    using s(3) Selecting peer(1,3) by (auto split: option.splits)
  have t: "t = put_frame k f (put_transport target peer' s)" "l = (if which = CaseInbox then Offered target owned else Quiet)"
    using s(3) Selecting peer(1,3) sel by simp_all
  have "net_ok t"
    unfolding t(1) by (rule net_ok_put [OF s(1) peer(1) s(2) Selecting])
      (use peer sel in \<open>auto simp: sendSelect_def transport_ok_def map_has_iff split: select_case.splits if_splits\<close>)
  moreover have "channel_step (abs_net s) l (abs_net t)"
    using sel abs_net_at [OF peer(1)] peer(3) abs_net_put(3) [OF peer(1), of peer'] abs_net_put(2) [OF peer(1), of peer']
      channel_step.offer [of "abs_net s" target owned]
    by (auto simp: t abs_net_put(1) sendSelect_def intro: channel_step.idle split: select_case.splits if_splits)
  ultimately show ?thesis ..
next
  case (Leaving target result)
  then obtain peer where peer: "fmlookup (transports s) target = Some peer"
    "transport_ok (active s target) (target \<in> set (closers s)) peer" "\<not> mt_inboxClosed peer"
    by (rule known_transport [OF s(1,2), of _ target]) simp_all
  let ?peer = "peer\<lparr>mt_activeSends := mt_activeSends peer - 1\<rparr>"
  obtain ns where t: "t = (put_frame k (Returned result) (put_transport target ?peer s))\<lparr>sleeping := ns\<rparr>" "l = Quiet"
    using s(3) Leaving peer(1) sendLeave_put [of k "Returned result" s target peer] by auto
  have "net_ok (put_frame k (Returned result) (put_transport target ?peer s))"
    by (rule net_ok_put [OF s(1) peer(1) s(2) Leaving]) (auto simp: transport_ok_def)
  then have "net_ok t" by (simp add: t(1))
  moreover have "abs_net t = abs_net s"
    using abs_net_put(2) [OF peer(1), of ?peer] by (simp add: t(1) abs_net_put(1))
  ultimately show ?thesis by (simp add: t(2) channel_step.idle)
qed (use s(3) in simp)

lemma net_ok_call:
  assumes "net_ok s" "\<And>m. \<not> active_at m f" "frame_known (transports s) f"
  shows "net_ok (s\<lparr>sends := sends s @ [f]\<rparr>)"
  using assms by (auto simp: net_ok_def active_def)

lemma open_step:
  assumes "net_ok s"
  shows "net_ok (fst (Transport s n)) \<and> abs_net (fst (Transport s n)) = abs_net s"
proof (cases "fmlookup (transports s) n")
  case None
  then have "net_ok (put_transport n NewMemTransport s)"
    using net_okD(5) [OF assms None] by (intro net_ok_transport [OF assms]) (simp add: transport_ok_def NewMemTransport_def)
  moreover have "abs_net (put_transport n NewMemTransport s) = abs_net s"
    using None by (auto simp: abs_net_def put_transport_def NewMemTransport_def fun_eq_iff)
  ultimately show ?thesis using None by (simp add: Transport_def put_transport_def)
qed (use assms in \<open>simp add: Transport_def\<close>)

lemma receive_step:
  assumes s: "net_ok s" "receiveOne s n = Some (l, t)"
  shows "net_ok t \<and> channel_step (abs_net s) l (abs_net t)"
proof -
  obtain peer where peer: "fmlookup (transports s) n = Some peer" using s(2) by (auto simp: receiveOne_def split: option.splits)
  note ok = net_okD(4) [OF s(1) peer]
  show ?thesis
  proof (cases "mt_inbox peer")
    case Nil
    then show ?thesis using s peer by (auto simp: receiveOne_def channel_step.idle split: if_splits)
  next
    case (Cons snap rest)
    then have t: "t = put_transport n (peer\<lparr>mt_inbox := rest\<rparr>) s" "l = Took n snap" using s(2) peer by (simp_all add: receiveOne_def)
    have "net_ok t" unfolding t(1) using ok Cons by (intro net_ok_transport [OF s(1)]) (simp add: transport_ok_def)
    moreover have "abs_net t = (abs_net s)\<lparr>queue := (queue (abs_net s))(n := rest)\<rparr>"
      unfolding t(1) using abs_net_put(3) [OF peer, of "peer\<lparr>mt_inbox := rest\<rparr>"] by simp
    ultimately show ?thesis using abs_net_at [OF peer] Cons by (simp add: t(2) channel_step.take)
  qed
qed

lemma net_ok_closers:
  assumes s: "net_ok s" "distinct cs" "\<And>m. m \<noteq> n \<Longrightarrow> m \<in> set cs \<longleftrightarrow> m \<in> set (closers s)"
    and ok: "transport_ok (active s n) (n \<in> set cs) t'"
  shows "net_ok ((put_transport n t' s)\<lparr>closers := cs\<rparr>)"
proof -
  have "active ((put_transport n t' s)\<lparr>closers := cs\<rparr>) m = active s m" for m
    by (simp add: active_def put_transport_def)
  then show ?thesis
    using s(2,3) ok net_okD(1,4,5) [OF s(1)] frames_known_put [of "sends s" "transports s" n t'] net_okD(3) [OF s(1)]
    unfolding net_ok_def by (simp add: put_transport_def)
qed

lemma await_step:
  assumes s: "net_ok s" "n \<in> set (closers s)" and peer: "fmlookup (transports s) n = Some peer"
  shows "net_ok (awaitSends s n peer)" "channel_step (abs_net s) Quiet (abs_net (awaitSends s n peer))"
    "active s n = 0 \<Longrightarrow> shut (abs_net (awaitSends s n peer)) n"
proof -
  note ok = net_okD(4) [OF s(1) peer]
  have open_inbox: "\<not> mt_inboxClosed peer" and count: "mt_activeSends peer = int (active s n)"
    using ok s(2) by (simp_all add: transport_ok_def)
  let ?t = "peer\<lparr>mt_inboxClosed := True\<rparr>"
  let ?u = "(put_transport n ?t s)\<lparr>closers := remove1 n (closers s)\<rparr>"
  have u: "net_ok ?u" if "active s n = 0"
    using ok that net_okD(2) [OF s(1)] s(2) by (intro net_ok_closers [OF s(1)]) (simp_all add: transport_ok_def)
  have a: "abs_net ?u = (abs_net s)\<lparr>shut := (shut (abs_net s))(n := True)\<rparr>"
    using peer by (auto simp: abs_net_def put_transport_def fun_eq_iff)
  show "net_ok (awaitSends s n peer)" using s(1) u open_inbox count by (simp add: awaitSends_def)
  show "channel_step (abs_net s) Quiet (abs_net (awaitSends s n peer))"
    using abs_net_at [OF peer] open_inbox a by (auto simp: awaitSends_def intro: channel_step.idle channel_step.shut)
  show "active s n = 0 \<Longrightarrow> shut (abs_net (awaitSends s n peer)) n"
    using open_inbox count by (simp add: awaitSends_def a del: abs_net_frames)
qed

lemma close_waits:
  assumes s: "net_ok s" "fmlookup (transports s) n = Some peer" "\<not> mt_closed peer"
  defines "t \<equiv> peer\<lparr>mt_closed := True, mt_closing := True\<rparr>"
  defines "u \<equiv> (put_transport n t s)\<lparr>closers := n # closers s\<rparr>"
  shows "closeCall s n = Some (awaitSends u n t)" "net_ok u" "abs_net u = abs_net s" "n \<in> set (closers u)"
    "fmlookup (transports u) n = Some t" "sends u = sends s" "sleeping u = sleeping s" "set (closers s) \<subseteq> set (closers u)"
proof -
  note ok = net_okD(4) [OF s(1,2)]
  show "closeCall s n = Some (awaitSends u n t)" using s(2,3) by (simp add: closeCall_def Let_def t_def u_def)
  have "n \<notin> set (closers s)" "\<not> mt_inboxClosed peer" using ok s(3) by (auto simp: transport_ok_def)
  then show "net_ok u"
    unfolding u_def t_def using ok net_okD(2) [OF s(1)] by (intro net_ok_closers [OF s(1)]) (simp_all add: transport_ok_def)
  show "abs_net u = abs_net s" using abs_net_put(2) [OF s(2), of t] by (simp add: u_def t_def)
qed (auto simp: u_def put_transport_def)

lemma close_step:
  assumes s: "net_ok s" "closeCall s n = Some t"
  shows "net_ok t \<and> channel_step (abs_net s) Quiet (abs_net t)"
proof -
  obtain peer where peer: "fmlookup (transports s) n = Some peer" using s(2) by (auto simp: closeCall_def split: option.splits)
  show ?thesis
  proof (cases "mt_closed peer")
    case True
    then show ?thesis using s peer by (simp add: closeCall_def channel_step.idle)
  next
    case False
    note u = close_waits [OF s(1) peer False]
    show ?thesis using await_step(1,2) [OF u(2,4,5)] u(1,3) s(2) by simp
  qed
qed

lemma finish_step:
  assumes s: "net_ok s" "finishClose s n = Some t"
  shows "net_ok t \<and> channel_step (abs_net s) Quiet (abs_net t)"
proof -
  obtain peer where "fmlookup (transports s) n = Some peer" "n \<in> set (closers s)" "t = awaitSends s n peer"
    using s(2) by (auto simp: finishClose_def split: option.splits if_splits)
  with await_step(1,2) [OF s(1)] show ?thesis by simp
qed

lemma net_act_step:
  assumes "net_ok s" "net_act a s = Some (l, t)"
  shows "net_ok t \<and> channel_step (abs_net s) l (abs_net t)"
proof (cases a)
  case (Open n)
  then show ?thesis using open_step [OF assms(1), of n] assms(2) by (auto intro: channel_step.idle)
next
  case (Cancel ctx)
  then show ?thesis using assms by (auto simp: net_ok_def active_def intro: channel_step.idle)
next
  case (Send sender c to source)
  then show ?thesis
    using assms(2) net_ok_call [OF assms(1) frame_not_active(1,3)] by (auto intro: channel_step.idle)
next
  case (Continue k which)
  then show ?thesis using assms send_step by (auto split: if_splits)
next
  case (Receive n)
  then show ?thesis using assms receive_step by simp
next
  case (Close n)
  then show ?thesis using assms(2) close_step [OF assms(1)] by auto
next
  case (FinishClose n)
  then show ?thesis using assms(2) finish_step [OF assms(1)] by auto
qed

lemma net_run_refines: "net_ok s \<Longrightarrow> net_run as s = Some (ls, t) \<Longrightarrow> net_ok t \<and> channel_run (abs_net s) ls (abs_net t)"
proof (induction as arbitrary: s ls)
  case Nil
  then show ?case by (auto intro: channel_run.stop)
next
  case (Cons a as)
  from Cons.prems(2) obtain l u ms where "net_act a s = Some (l, u)" "net_run as u = Some (ms, t)" "ls = l # ms"
    by (auto split: option.splits)
  moreover from this(1) have u: "net_ok u" "channel_step (abs_net s) l (abs_net u)" using net_act_step [OF Cons.prems(1)] by blast+
  ultimately show ?case using Cons.IH [OF u(1)] by (simp add: channel_run.more [OF u(2)])
qed

text \<open>C35: Every interleaving of \<open>Transport\<close>, \<open>Send\<close>, \<open>Receive\<close>, \<open>Close\<close> and cancellations on a new
  network refines one FIFO channel per node: the labels of the run are a run of the abstract channels, what a
  node took followed by what its inbox still holds is exactly what was sent to it, in order, and the inbox
  never exceeds its capacity.  No call ever sends on a closed channel or closes one twice, the panics that
  \<open>activeSends\<close> and the condition variable are there to avoid.\<close>

theorem transport_refines_channels:
  assumes "net_run as NewMemNetwork = Some (ls, s)"
  shows "channel_run (abs_net NewMemNetwork) ls (abs_net s) \<and> \<not> panicked s
    \<and> offered n ls = took n ls @ queue (abs_net s) n \<and> length (queue (abs_net s) n) \<le> inbox_capacity"
proof -
  have run: "net_ok s" "channel_run (abs_net NewMemNetwork) ls (abs_net s)"
    using net_run_refines [OF NewMemNetwork_ok assms] by simp_all
  moreover have "queue (abs_net NewMemNetwork) n = []" by (simp add: abs_net_def NewMemNetwork_def)
  ultimately show ?thesis
    using channel_run_fifo [OF run(2), of n] channel_run_bounded [OF run(2), of n] net_okD(1) by simp
qed

text \<open>A send that overlaps the closing of its target: the snapshot is accepted and still received.\<close>

definition empty_snapshot :: snapshot where
  "empty_snapshot = \<lparr>sn_nodeID = ''a'', sn_events = [], sn_causalEquivalences = [], sn_causalEdges = [], sn_highWater = 0\<rparr>"

definition overlapping_close :: "net_action list" where
  "overlapping_close = [Open ''a'', Open ''b'', Send (Some ''a'') (Some 0) ''b'' (Some empty_snapshot), Continue 0 CaseInbox,
     Continue 0 CaseInbox, Close ''b'', Continue 0 CaseInbox, Continue 0 CaseInbox, FinishClose ''b'', Receive ''b'']"

theorem transport_refines_channels_witness:
  "\<exists>ls s. net_run overlapping_close NewMemNetwork = Some (ls, s) \<and> offered ''b'' ls = [empty_snapshot]
     \<and> took ''b'' ls @ queue (abs_net s) ''b'' = [empty_snapshot] \<and> \<not> panicked s"
proof -
  have run: "map_option (\<lambda>(ls, _). offered ''b'' ls) (net_run overlapping_close NewMemNetwork) = Some [empty_snapshot]"
    by code_simp
  then obtain ls s where "net_run overlapping_close NewMemNetwork = Some (ls, s)" "offered ''b'' ls = [empty_snapshot]"
    by auto
  then show ?thesis using transport_refines_channels [of overlapping_close ls s "''b''"] by auto
qed

section \<open>Sleeping calls are woken\<close>

definition sleepers_ok :: "mem_network \<Rightarrow> bool" where
  \<comment> \<open>a call of \<open>Close\<close> sleeps only while a send is active at its node\<close>
  "sleepers_ok s \<longleftrightarrow> (\<forall>n \<in> set (sleeping s). n \<in> set (closers s) \<and> active s n \<noteq> 0)"

lemma active_put:
  "k < length (sends s) \<Longrightarrow> active (put_frame k f (put_transport m t s)) n + (if active_at n (sends s ! k) then 1 else 0)
     = active s n + (if active_at n f then 1 else 0)"
  using length_filter_update [of k "sends s" "active_at n" f] by (simp add: active_def put_frame_def put_transport_def)

lemma sends_awaitSends [simp]: "sends (awaitSends s n t) = sends s"
  by (simp add: awaitSends_def put_transport_def)

lemma fields_put [simp]:
  "sleeping (put_frame k f (put_transport m t s)) = sleeping s" "closers (put_frame k f (put_transport m t s)) = closers s"
  by (simp_all add: put_frame_def put_transport_def)

lemma sleepers_await:
  assumes "net_ok s" "sleepers_ok s" "n \<in> set (closers s)" "fmlookup (transports s) n = Some peer"
  shows "sleepers_ok (awaitSends s n peer)"
proof -
  have count: "mt_activeSends peer = int (active s n)" using net_okD(4) [OF assms(1,4)] by (simp add: transport_ok_def)
  have "active (awaitSends s n peer) m = active s m" for m by (simp add: active_def)
  moreover have "m \<in> set (closers (awaitSends s n peer))" if "m \<in> set (closers s)" "active s m \<noteq> 0" for m
    using that count by (cases "m = n") (auto simp: awaitSends_def put_transport_def)
  moreover have "m = n \<and> active s n \<noteq> 0 \<or> m \<in> set (sleeping s)" if "m \<in> set (sleeping (awaitSends s n peer))" for m
    using that count by (auto simp: awaitSends_def put_transport_def split: if_splits)
  ultimately show ?thesis using assms(2,3) unfolding sleepers_ok_def by metis
qed

lemma sleepers_send:
  assumes s: "net_ok s" "sleepers_ok s" "k < length (sends s)" "continueSend s k which (sends s ! k) = Some (l, t)"
  shows "sleepers_ok t"
proof -
  have more: "sleepers_ok (put_frame k f (put_transport m peer s))" if "\<And>n. active_at n (sends s ! k) \<Longrightarrow> active_at n f" for f m peer
  proof -
    have "active s n \<le> active (put_frame k f (put_transport m peer s)) n" for n
      using active_put [OF s(3), of f m peer n] that [of n] by (simp split: if_splits)
    then have "active s n \<noteq> 0 \<Longrightarrow> active (put_frame k f (put_transport m peer s)) n \<noteq> 0" for n
      by (metis le_zero_eq)
    then show ?thesis using s(2) by (simp add: sleepers_ok_def)
  qed
  show ?thesis
  proof (cases "sends s ! k")
    case (Checked target snap ctx)
    have "active (put_frame k (sendLookup s target snap ctx) s) n = active s n" for n
      using length_filter_update [OF s(3), of "active_at n" "sendLookup s target snap ctx"] Checked
      by (simp add: active_def put_frame_def frame_not_active)
    then show ?thesis using s(2,4) Checked by (auto simp: sleepers_ok_def put_frame_def)
  next
    case (Entering target owned ctx)
    then obtain peer where "fmlookup (transports s) target = Some peer" using s(4) by (auto split: option.splits)
    then show ?thesis using s(4) Entering more by (auto split: prod.splits)
  next
    case (Selecting target owned ctx)
    then obtain peer where peer: "fmlookup (transports s) target = Some peer" "\<not> mt_inboxClosed peer"
      by (rule known_transport [OF s(1,3), of _ target]) simp_all
    then obtain peer' f where sel: "sendSelect s peer target owned ctx which = Some (peer', f)"
        "t = put_frame k f (put_transport target peer' s)"
      using s(4) Selecting by (auto split: option.splits)
    then show ?thesis using more [of f] Selecting by (auto simp: sendSelect_def split: select_case.splits if_splits)
  next
    case (Leaving target result)
    then obtain peer where peer: "fmlookup (transports s) target = Some peer"
      "transport_ok (active s target) (target \<in> set (closers s)) peer" "active_at target (Leaving target result) \<Longrightarrow> \<not> mt_inboxClosed peer"
      by (rule known_transport [OF s(1,3), of _ target]) simp_all
    let ?p = "peer\<lparr>mt_activeSends := mt_activeSends peer - 1\<rparr>"
    let ?u = "put_frame k (Returned result) (put_transport target ?p s)"
    have act: "active ?u n + (if n = target then 1 else 0) = active s n" for n
      using active_put [OF s(3), of "Returned result" target ?p n] Leaving by auto
    have count: "mt_activeSends ?p = int (active ?u target)" using peer(2) act [of target] by (simp add: transport_ok_def)
    have t: "t = (if active ?u target = 0 then ?u\<lparr>sleeping := removeAll target (sleeping s)\<rparr> else ?u)"
      using s(4) Leaving peer(1) count by (auto simp: sendLeave_def Let_def put_frame_def put_transport_def)
    have "n \<in> set (closers s) \<and> active ?u n \<noteq> 0" if "n \<in> set (sleeping t)" for n
    proof -
      have n: "n \<in> set (sleeping s)" "active ?u target = 0 \<longrightarrow> n \<noteq> target" using that t by (auto split: if_splits)
      then show ?thesis using s(2) act [of n] by (cases "n = target") (auto simp: sleepers_ok_def)
    qed
    moreover have "active t n = active ?u n" "closers t = closers s" for n by (auto simp: t active_def)
    ultimately show ?thesis by (simp add: sleepers_ok_def)
  qed (use s(4) in simp)
qed

lemma sleepers_step:
  assumes s: "net_ok s" "sleepers_ok s" "net_act a s = Some (l, t)"
  shows "sleepers_ok t"
proof (cases a)
  case (Continue k which)
  then show ?thesis using s sleepers_send by (auto split: if_splits)
next
  case (Close n)
  then obtain peer where peer: "fmlookup (transports s) n = Some peer" using s(3) by (auto simp: closeCall_def split: option.splits)
  show ?thesis
  proof (cases "mt_closed peer")
    case False
    note u = close_waits [OF s(1) peer False]
    have "sleepers_ok ((put_transport n (peer\<lparr>mt_closed := True, mt_closing := True\<rparr>) s)\<lparr>closers := n # closers s\<rparr>)"
      using s(2) u(6,7,8) unfolding sleepers_ok_def active_def by auto
    then show ?thesis using sleepers_await [OF u(2) _ u(4,5)] u(1) s(3) Close by simp
  qed (use s peer Close in \<open>simp add: closeCall_def\<close>)
next
  case (FinishClose n)
  then show ?thesis using s sleepers_await by (auto simp: finishClose_def split: option.splits if_splits)
next
  case (Send sender ctx target snap)
  then show ?thesis using s(2,3) by (auto simp: sleepers_ok_def active_def)
qed (use s(2,3) in \<open>auto simp: sleepers_ok_def active_def Transport_def receiveOne_def put_transport_def
  split: option.splits list.splits if_splits\<close>)

section \<open>Close returns\<close>

text \<open>How many regions the sends counted at a node have left.\<close>

fun frame_rank :: "node_id \<Rightarrow> send_frame \<Rightarrow> nat" where
  "frame_rank n (Selecting m _ _) = (if m = n then 2 else 0)"
| "frame_rank n (Leaving m _) = (if m = n then 1 else 0)"
| "frame_rank n _ = 0"

definition rank :: "node_id \<Rightarrow> mem_network \<Rightarrow> nat" where
  "rank n s = sum_list (map (frame_rank n) (sends s))"

lemma sum_list_map_update:
  "k < length xs \<Longrightarrow> sum_list (map f (xs[k := y])) + f (xs ! k) = sum_list (map f xs) + (f y :: nat)"
proof (induction xs arbitrary: k)
  case (Cons x xs)
  then show ?case by (cases k) (auto simp: algebra_simps)
qed simp

lemma rank_put:
  "k < length (sends s) \<Longrightarrow> rank n (put_frame k f (put_transport m t s)) + frame_rank n (sends s ! k) = rank n s + frame_rank n f"
  "k < length (sends s) \<Longrightarrow> rank n (put_frame k f s) + frame_rank n (sends s ! k) = rank n s + frame_rank n f"
  by (simp_all add: rank_def put_frame_def put_transport_def sum_list_map_update)

lemma rank_bound: "rank n s \<le> 2 * active s n"
proof -
  have "sum_list (map (frame_rank n) fs) \<le> 2 * length (filter (active_at n) fs)" for fs
  proof (induction fs)
    case (Cons f fs)
    then show ?case by (cases f) auto
  qed simp
  then show ?thesis by (simp add: rank_def active_def)
qed

lemma frame_rank_new [simp]: "frame_rank n (sendChecks s sender c to source) = 0" "frame_rank n (sendLookup s target snap ctx) = 0"
  by (auto simp: sendChecks_def sendLookup_def split: option.splits sum.splits)

text \<open>Once a node is closing, no action of any call adds to what its active sends have left.\<close>

lemma rank_send:
  assumes "net_ok s" "n \<in> set (closers s)" "k < length (sends s)" "continueSend s k which (sends s ! k) = Some (l, t)"
  shows "rank n t \<le> rank n s" "active_at n (sends s ! k) \<Longrightarrow> rank n t < rank n s"
proof -
  have "rank n t \<le> rank n s \<and> (active_at n (sends s ! k) \<longrightarrow> rank n t < rank n s)"
  proof (cases "sends s ! k")
    case (Checked target snap ctx)
    then show ?thesis using assms(4) rank_put(2) [OF assms(3), of n "sendLookup s target snap ctx"] by simp
  next
    case (Entering target owned ctx)
    then obtain peer where peer: "fmlookup (transports s) target = Some peer" using assms(4) by (auto split: option.splits)
    have "frame_rank n (snd (sendEnter peer target owned ctx)) = 0"
      using net_okD(4) [OF assms(1) peer] assms(2) by (auto simp: sendEnter_def transport_ok_def)
    then show ?thesis using assms(4) Entering peer rank_put(1) [OF assms(3), of n "snd (sendEnter peer target owned ctx)"]
      by (auto split: prod.splits)
  next
    case (Selecting target owned ctx)
    then obtain peer where peer: "fmlookup (transports s) target = Some peer" "\<not> mt_inboxClosed peer"
      by (rule known_transport [OF assms(1,3), of _ target]) simp_all
    have "rank n (put_frame k f (put_transport target peer' s)) + (if target = n then 1 else 0) \<le> rank n s"
      if f: "sendSelect s peer target owned ctx which = Some (peer', f)" for f peer'
      using rank_put(1) [OF assms(3), of n f target peer'] Selecting f
      by (auto simp: sendSelect_def split: select_case.splits if_splits)
    then show ?thesis using assms(4) Selecting peer by (fastforce split: if_splits option.splits)
  next
    case (Leaving target result)
    then obtain peer where peer: "fmlookup (transports s) target = Some peer" using assms(4) by (auto split: option.splits)
    obtain ns where "t = (put_frame k (Returned result)
        (put_transport target (peer\<lparr>mt_activeSends := mt_activeSends peer - 1\<rparr>) s))\<lparr>sleeping := ns\<rparr>"
      using assms(4) Leaving peer sendLeave_put [of k "Returned result" s target peer] by auto
    then show ?thesis
      using Leaving rank_put(1) [OF assms(3), of n "Returned result" target "peer\<lparr>mt_activeSends := mt_activeSends peer - 1\<rparr>"]
      by (simp add: rank_def split: if_splits)
  qed (use assms(4) in simp)
  then show "rank n t \<le> rank n s" "active_at n (sends s ! k) \<Longrightarrow> rank n t < rank n s" by simp_all
qed

text \<open>The other actions leave the sends that were made, but for those they append.\<close>

lemma sends_act:
  assumes "net_act a s = Some (l, t)" "\<And>k which. a \<noteq> Continue k which"
  obtains fs where "sends t = sends s @ fs" "\<forall>f \<in> set fs. \<forall>n. frame_rank n f = 0"
proof (cases a)
  case (Send sender ctx target snap)
  then show thesis using assms(1) that [of "[sendChecks s sender ctx target snap]"] by auto
qed (use assms that [of "[]"] in \<open>auto simp: Transport_def receiveOne_def closeCall_def finishClose_def put_transport_def Let_def
  split: option.splits list.splits if_splits\<close>)

lemma sends_other:
  assumes "net_act (Continue m which) s = Some (l, t)" "k \<noteq> m" "k < length (sends s)"
  shows "k < length (sends t) \<and> sends t ! k = sends s ! k"
  using assms
  by (cases "sends s ! m") (auto simp: put_frame_def put_transport_def sendLeave_def Let_def
      split: if_splits option.splits prod.splits)

lemma rank_act:
  assumes "net_ok s" "n \<in> set (closers s)" "net_act a s = Some (l, t)"
  shows "rank n t \<le> rank n s"
proof (cases "\<exists>k which. a = Continue k which")
  case True
  then show ?thesis using assms rank_send(1) by (auto split: if_splits)
next
  case False
  then obtain fs where "sends t = sends s @ fs" "\<forall>f \<in> set fs. \<forall>n. frame_rank n f = 0"
    using sends_act [OF assms(3)] by metis
  then show ?thesis by (simp add: rank_def sum_list_eq_0_iff [THEN iffD2])
qed

lemma rank_zero: "rank n s = 0 \<longleftrightarrow> active s n = 0"
proof -
  have "frame_rank n f = 0 \<longleftrightarrow> \<not> active_at n f" for f by (cases f) auto
  then show ?thesis by (simp add: rank_def active_def filter_empty_conv)
qed

text \<open>An active send goes on by itself, without room in the inbox and without a cancelled context.\<close>

lemma active_enabled:
  assumes s: "net_ok s" "n \<in> set (closers s)" and k: "k < length (sends s)" "active_at n (sends s ! k)"
  shows "net_act (Continue k CaseClosing) s \<noteq> None"
proof -
  have "map_has (transports s) n"
    using net_okD(3) [OF s(1) nth_mem [OF k(1)]] k(2) by (cases "sends s ! k") auto
  then obtain peer where peer: "fmlookup (transports s) n = Some peer" by (auto simp: map_has_iff)
  then have "mt_closing peer" using net_okD(4) [OF s(1) peer] s(2) by (simp add: transport_ok_def)
  then show ?thesis using k peer by (cases "sends s ! k") (auto simp: sendSelect_def)
qed

text \<open>A call of \<open>Close\<close> without active sends is awake, and its next region closes the inbox.\<close>

lemma idle_enabled:
  assumes "net_ok s" "sleepers_ok s" "n \<in> set (closers s)" "active s n = 0"
  obtains t where "net_act (FinishClose n) s = Some (Quiet, t)" "shut (abs_net t) n"
proof -
  obtain peer where peer: "fmlookup (transports s) n = Some peer"
    using net_okD(5) [OF assms(1)] assms(3) by fastforce
  have "n \<notin> set (sleeping s)" using assms(2,4) by (auto simp: sleepers_ok_def)
  then have "net_act (FinishClose n) s = Some (Quiet, awaitSends s n peer)"
    using assms(3) peer by (simp add: finishClose_def)
  then show thesis using await_step(3) [OF assms(1,3) peer assms(4)] that by blast
qed

text \<open>A call of \<open>Close\<close> leaves its loop only with the inbox closed.\<close>

lemma await_closers:
  assumes "net_ok s" "n \<in> set (closers s)" "fmlookup (transports s) n = Some peer" "m \<in> set (closers s)"
  shows "m \<in> set (closers (awaitSends s n peer)) \<or> shut (abs_net (awaitSends s n peer)) m"
proof (cases "active s n = 0 \<and> m = n")
  case True
  then show ?thesis using await_step(3) [OF assms(1-3)] by simp
next
  case False
  have "mt_activeSends peer = int (active s n)" using net_okD(4) [OF assms(1,3)] by (simp add: transport_ok_def)
  then show ?thesis using False assms(4) by (auto simp: awaitSends_def put_transport_def in_set_remove1)
qed

lemma closers_act:
  assumes s: "net_ok s" "m \<in> set (closers s)" "net_act a s = Some (l, t)"
  shows "m \<in> set (closers t) \<or> shut (abs_net t) m"
proof (cases a)
  case (Continue k which)
  have "closers t = closers s"
    using s(3) Continue sendLeave_put
    by (cases "sends s ! k") (auto simp: put_frame_def put_transport_def sendLeave_def Let_def
        split: if_splits option.splits prod.splits)
  then show ?thesis using s(2) by simp
next
  case (Close n)
  then obtain peer where peer: "fmlookup (transports s) n = Some peer" using s(3) by (auto simp: closeCall_def split: option.splits)
  show ?thesis
  proof (cases "mt_closed peer")
    case False
    note u = close_waits [OF s(1) peer False]
    show ?thesis using await_closers [OF u(2,4,5), of m] u(1,8) s(2,3) Close by auto
  qed (use s peer Close in \<open>simp add: closeCall_def\<close>)
next
  case (FinishClose n)
  then show ?thesis using s await_closers by (auto simp: finishClose_def split: option.splits if_splits)
qed (use s(2,3) in \<open>auto simp: Transport_def receiveOne_def put_transport_def split: option.splits list.splits if_splits\<close>)

lemma shut_done: "net_ok s \<Longrightarrow> shut (abs_net s) n \<Longrightarrow> n \<notin> set (closers s)"
  by (auto simp: abs_net_def transport_ok_def dest: net_okD(4) split: option.splits)

text \<open>Calling \<open>Close\<close> of a node leaves it closing, or closed already.\<close>

lemma close_starts:
  assumes s: "net_ok s" "net_act (Close n) s = Some (l, t)"
  shows "n \<in> set (closers t) \<or> shut (abs_net t) n"
proof -
  obtain peer where peer: "fmlookup (transports s) n = Some peer" using s(2) by (auto simp: closeCall_def split: option.splits)
  show ?thesis
  proof (cases "mt_closed peer")
    case True
    then have "t = s" using s(2) peer by (simp add: closeCall_def)
    then show ?thesis using net_okD(4) [OF s(1) peer] True abs_net_at [OF peer] by (auto simp: transport_ok_def)
  next
    case False
    note u = close_waits [OF s(1) peer False]
    show ?thesis using await_closers [OF u(2,4,5,4)] u(1) s(2) by simp
  qed
qed

section \<open>Progress under weak fairness\<close>

datatype net_call = SendCall nat | CloseCall node_id

fun belongs :: "net_call \<Rightarrow> net_action \<Rightarrow> bool" where
  \<comment> \<open>the regions of a call after its first\<close>
  "belongs (SendCall k) (Continue m which) = (m = k)"
| "belongs (CloseCall n) (FinishClose m) = (m = n)"
| "belongs _ _ = False"

definition fair_run :: "(nat \<Rightarrow> net_action) \<Rightarrow> (nat \<Rightarrow> mem_network) \<Rightarrow> bool" where
  \<comment> \<open>an infinite interleaving from a new network; a call that can go on from some point on does so\<close>
  "fair_run acts states \<longleftrightarrow> states 0 = NewMemNetwork
     \<and> (\<forall>i. \<exists>l. net_act (acts i) (states i) = Some (l, states (Suc i)))
     \<and> (\<forall>c i. (\<forall>j \<ge> i. \<exists>a. belongs c a \<and> net_act a (states j) \<noteq> None) \<longrightarrow> (\<exists>j \<ge> i. belongs c (acts j)))"

text \<open>A measure that never grows and that some helpful process lowers: under fairness the goal is reached.\<close>

lemma fair_descent:
  fixes r :: "nat \<Rightarrow> nat"
  assumes "P i" and keep: "\<And>i. P i \<Longrightarrow> Q (Suc i) \<or> P (Suc i) \<and> r (Suc i) \<le> r i"
    and helper: "\<And>i. P i \<Longrightarrow> \<exists>p. helps p i"
    and stay: "\<And>p i. P i \<Longrightarrow> helps p i \<Longrightarrow> Q (Suc i) \<or> r (Suc i) < r i \<or> helps p (Suc i) \<and> \<not> goes p i"
    and fair: "\<And>p i. (\<forall>j \<ge> i. P j \<and> helps p j) \<Longrightarrow> \<exists>j \<ge> i. goes p j"
  shows "\<exists>j > i. Q j"
  using \<open>P i\<close>
proof (induction "r i" arbitrary: i rule: less_induct)
  case less
  show ?case
  proof (rule ccontr)
    assume none: "\<not> ?case"
    obtain p where p: "helps p i" using helper [OF less.prems] by blast
    have no_fall: "\<not> (P j \<and> r j < r i)" if "j \<ge> i" for j
      using less.hyps [of j] none that by (meson order_le_less_trans)
    have same: "P j \<and> helps p j \<and> r j = r i" if "j \<ge> i" for j
      using that
    proof (induction j rule: dec_induct)
      case (step j)
      have "\<not> Q (Suc j)" using none step.hyps by auto
      then show ?case using keep [of j] stay [of j p] no_fall [of "Suc j"] step by fastforce
    qed (use less.prems p in simp)
    then obtain j where j: "j \<ge> i" "goes p j" using fair by meson
    have "\<not> Q (Suc j)" using none j(1) by auto
    then show False using stay [of j p] j same [of j] same [of "Suc j"] by auto
  qed
qed

lemma fair_run_ok:
  assumes "fair_run acts states"
  shows "net_ok (states i) \<and> sleepers_ok (states i)"
proof (induction i)
  case 0
  then show ?case using assms NewMemNetwork_ok by (simp add: fair_run_def sleepers_ok_def NewMemNetwork_def)
next
  case (Suc i)
  then show ?case using assms net_act_step sleepers_step by (metis fair_run_def)
qed

text \<open>The call that brings a closing node nearer: one of its active sends, or without any the call of \<open>Close\<close>.\<close>

fun helpful :: "node_id \<Rightarrow> mem_network \<Rightarrow> net_call \<Rightarrow> bool" where
  "helpful n s (SendCall k) = (k < length (sends s) \<and> active_at n (sends s ! k))"
| "helpful n s (CloseCall m) = (m = n \<and> active s n = 0)"

lemma helpful_exists: "\<exists>c. helpful n s c"
proof (cases "active s n = 0")
  case False
  then obtain k where "k < length (sends s)" "active_at n (sends s ! k)"
    by (auto simp: active_def filter_empty_conv in_set_conv_nth)
  then show ?thesis by (intro exI [of _ "SendCall k"]) simp
qed (auto intro!: exI [of _ "CloseCall n"])

lemma helpful_able:
  assumes s: "net_ok s" "sleepers_ok s" "n \<in> set (closers s)" "helpful n s c"
  shows "\<exists>a. belongs c a \<and> net_act a s \<noteq> None"
proof (cases c)
  case (SendCall k)
  then show ?thesis using s active_enabled [of s n k] by (intro exI [of _ "Continue k CaseClosing"]) simp
next
  case (CloseCall m)
  then obtain t where "net_act (FinishClose n) s = Some (Quiet, t)" "m = n" using idle_enabled [OF s(1-3)] s(4) by auto
  then show ?thesis using CloseCall by (intro exI [of _ "FinishClose n"]) simp
qed

lemma helpful_step:
  assumes s: "net_ok s" "sleepers_ok s" "n \<in> set (closers s)" "helpful n s c" "net_act a s = Some (l, t)"
  shows "shut (abs_net t) n \<or> rank n t < rank n s \<or> helpful n t c \<and> \<not> belongs c a"
proof (cases c)
  case (SendCall k)
  then have k: "k < length (sends s)" "active_at n (sends s ! k)" using s(4) by simp_all
  consider which where "a = Continue k which" | m which where "a = Continue m which" "m \<noteq> k"
    | "\<And>m which. a \<noteq> Continue m which" by metis
  then show ?thesis
  proof cases
    case 1
    then show ?thesis using rank_send(2) [OF s(1,3) k(1) _ k(2)] s(5) k(1) by auto
  next
    case 2
    then show ?thesis using sends_other [OF s(5) [unfolded 2(1)] _ k(1)] k SendCall by auto
  next
    case 3
    then obtain fs where "sends t = sends s @ fs" using sends_act [OF s(5)] by metis
    moreover have "\<not> belongs c a" using 3 SendCall by (cases a) auto
    ultimately show ?thesis using k SendCall by (simp add: nth_append)
  qed
next
  case (CloseCall m)
  then have idle: "active s n = 0" "m = n" using s(4) by simp_all
  then have "active t n = 0" using rank_act [OF s(1,3,5)] rank_zero [of n s] rank_zero [of n t] by simp
  moreover have "shut (abs_net t) n" if "belongs c a"
  proof -
    have "a = FinishClose n" using that CloseCall idle(2) by (cases a) auto
    then show ?thesis using idle_enabled [OF s(1-3) idle(1)] s(5) by auto
  qed
  ultimately show ?thesis using CloseCall idle(2) by auto
qed

text \<open>C36: \<open>Close\<close> always returns.  In every infinite interleaving of calls on a new network in which a call that
  can go on from some point on eventually does, each call of \<open>Close\<close> is followed by a moment at which the inbox
  of its node is closed and no call of \<open>Close\<close> of the node waits any more.  No receiver need make room and no
  context be cancelled; the waiting call sleeps on the condition variable until the last active send wakes it.\<close>

theorem close_returns:
  assumes "fair_run acts states" "acts i = Close n"
  shows "\<exists>j > i. shut (abs_net (states j)) n \<and> n \<notin> set (closers (states j))"
proof -
  note run = assms(1) [unfolded fair_run_def]
  have ok: "net_ok (states j)" "sleepers_ok (states j)" for j using fair_run_ok [OF assms(1)] by simp_all
  obtain l where l: "net_act (acts j) (states j) = Some (l j, states (Suc j))" for j using run by metis
  define P where "P j \<longleftrightarrow> n \<in> set (closers (states j))" for j
  define Q where "Q j \<longleftrightarrow> shut (abs_net (states j)) n" for j
  have "P (Suc i) \<or> Q (Suc i)" using close_starts [OF ok(1) [of i]] l [of i] assms(2) unfolding P_def Q_def by metis
  moreover have "\<exists>j > Suc i. Q j" if "P (Suc i)"
  proof (rule fair_descent [where P = P and Q = Q and i = "Suc i" and r = "\<lambda>j. rank n (states j)" and helps = "\<lambda>c j. helpful n (states j) c"
        and goes = "\<lambda>c j. belongs c (acts j)", OF that])
    fix j c
    show "Q (Suc j) \<or> P (Suc j) \<and> rank n (states (Suc j)) \<le> rank n (states j)" if "P j"
      using closers_act [OF ok(1) _ l] rank_act [OF ok(1) _ l] that unfolding P_def Q_def by blast
    show "\<exists>c. helpful n (states j) c" by (rule helpful_exists)
    show "Q (Suc j) \<or> rank n (states (Suc j)) < rank n (states j) \<or> helpful n (states (Suc j)) c \<and> \<not> belongs c (acts j)"
      if "P j" "helpful n (states j) c"
      using helpful_step [OF ok _ that(2) l] that(1) by (simp add: P_def Q_def)
    assume "\<forall>j' \<ge> j. P j' \<and> helpful n (states j') c"
    then have "\<forall>j' \<ge> j. \<exists>a. belongs c a \<and> net_act a (states j') \<noteq> None"
      using helpful_able [OF ok] unfolding P_def by blast
    then show "\<exists>j' \<ge> j. belongs c (acts j')" using run by blast
  qed
  ultimately obtain j where "j > i" "Q j" by (meson Suc_lessD lessI)
  then show ?thesis using shut_done [OF ok(1)] unfolding Q_def by blast
qed

text \<open>The sample run, followed by calls of \<open>Transport\<close> that change nothing.\<close>

fun states_of :: "(nat \<Rightarrow> net_action) \<Rightarrow> nat \<Rightarrow> mem_network" where
  "states_of acts 0 = NewMemNetwork"
| "states_of acts (Suc i) = (case net_act (acts i) (states_of acts i) of None \<Rightarrow> states_of acts i | Some (l, t) \<Rightarrow> t)"

definition sample_acts :: "nat \<Rightarrow> net_action" where
  "sample_acts i = (if i < length overlapping_close then overlapping_close ! i else Open ''a'')"

theorem close_returns_witness:
  "sample_acts 5 = Close ''b'' \<and> sleeping (states_of sample_acts 6) = [''b'']
     \<and> (\<exists>j > 5. shut (abs_net (states_of sample_acts j)) ''b'' \<and> ''b'' \<notin> set (closers (states_of sample_acts j)))"
proof -
  have start: "sample_acts 5 = Close ''b''" "sleeping (states_of sample_acts 6) = [''b'']" by code_simp+
  have prefix: "\<forall>i \<in> set [0..<10]. net_act (sample_acts i) (states_of sample_acts i) \<noteq> None" by code_simp
  define s where "s = states_of sample_acts 10"
  have final: "net_act (Open ''a'') s = Some (Quiet, s)" "length (sends s) = 1" "sends s ! 0 = Returned None" "closers s = []"
    unfolding s_def by code_simp+
  have later: "states_of sample_acts j = s" if "j \<ge> 10" for j
    using that
  proof (induction j rule: dec_induct)
    case (step j)
    have "sample_acts j = Open ''a''" using step.hyps by (simp add: sample_acts_def overlapping_close_def)
    then show ?case using step.IH final(1) by simp
  qed (simp add: s_def)
  have stuck: "net_act a s = None" if "belongs c a" for c a
    using that final(2-4) by (cases "(c, a)" rule: belongs.cases) (auto simp: finishClose_def split: option.splits)
  have moves: "\<exists>l. net_act (sample_acts i) (states_of sample_acts i) = Some (l, states_of sample_acts (Suc i))" for i
  proof (cases "i < 10")
    case True
    then show ?thesis using prefix by (auto split: option.splits)
  next
    case False
    then have "sample_acts i = Open ''a''" by (simp add: sample_acts_def overlapping_close_def)
    then show ?thesis using False later [of i] final(1) by simp
  qed
  have "\<exists>j' \<ge> j. belongs c (sample_acts j')"
    if "\<forall>j' \<ge> j. \<exists>a. belongs c a \<and> net_act a (states_of sample_acts j') \<noteq> None" for c j
    using that [rule_format, of "max j 10"] later [of "max j 10"] stuck by fastforce
  then have "fair_run sample_acts (states_of sample_acts)" using moves unfolding fair_run_def by simp
  then show ?thesis using close_returns start by blast
qed

end
