(* ===== verification/Dsync_Coordinator.thy ===== *)
theory Dsync_Coordinator
  imports Snapshot_Transfer Dsync_Transport
begin

text \<open>
  The coordinator of \<open>dsync/coordinator.go\<close>: its configuration, the issues it retains, the push of a snapshot
  to every peer and the merge of a received one.  A coordinator reaches its transport only through
  \<open>Send\<close>, so the push is proved in the locale \<open>snapshot_transport\<close>, which the in-memory transport interprets.

  A nil coordinator is \<open>None\<close>.  Quoting (\<open>%q\<close>) and the texts of the causes (\<open>phrase\<close>) are parameters, and so is
  the formatting of times.  A cause holds what its text is made of: a failed send its target and snapshot, a
  merge its poset, snapshot and issues, and a drain error the edge and the poset it was tried on, so causes with
  different texts are different causes.
\<close>

section \<open>Issues\<close>

datatype sync_cause =
    SyncError go_error
  | SyncSend node_id snapshot go_error
  | SyncMerge poset snapshot "merge_issue list"
  | SyncDrain poset pending_edge go_error

record coordinator_issue =
  ci_operation :: string
  ci_peer :: node_id
  ci_snapshotNode :: node_id
  ci_cause :: "sync_cause option"

record coordinator =
  co_nodeID :: node_id
  co_poset :: "poset option"
  co_transport :: bool \<comment> \<open>whether a transport is set\<close>
  co_peers :: "node_id list"
  co_interval :: int
  co_started :: bool
  co_stopped :: bool
  co_stopCh :: bool \<comment> \<open>whether the channel was closed\<close>
  co_issues :: "(string, coordinator_issue) fmap"

definition causeText :: "(sync_cause \<Rightarrow> string) \<Rightarrow> sync_cause option \<Rightarrow> string" where
  "causeText phrase cause = (case cause of None \<Rightarrow> ''<nil>'' | Some cause \<Rightarrow> phrase cause)"

definition issueError :: "(string \<Rightarrow> string) \<Rightarrow> (sync_cause \<Rightarrow> string) \<Rightarrow> coordinator_issue \<Rightarrow> string" where
  "issueError quote phrase issue =
     (let location = ci_operation issue;
          location = (if ci_peer issue \<noteq> '''' then location @ '' peer '' @ quote (ci_peer issue) else location);
          location = (if ci_snapshotNode issue \<noteq> '''' then location @ '' snapshot '' @ quote (ci_snapshotNode issue)
            else location)
      in location @ '': '' @ causeText phrase (ci_cause issue))"

definition sortedCoordinatorIssues :: "(sync_cause \<Rightarrow> string) \<Rightarrow> coordinator_issue list \<Rightarrow> coordinator_issue list" where
  "sortedCoordinatorIssues phrase issues =
     sort_key (\<lambda>issue. (ci_operation issue, ci_peer issue, ci_snapshotNode issue, causeText phrase (ci_cause issue))) issues"

definition recordIssues :: "(string \<Rightarrow> string) \<Rightarrow> (sync_cause \<Rightarrow> string) \<Rightarrow> coordinator option \<Rightarrow> coordinator_issue list
    \<Rightarrow> coordinator option \<times> coordinator_issue list option" where
  \<comment> \<open>the error of the call lists the issues it recorded\<close>
  "recordIssues quote phrase c issues =
     (if issues = [] then (c, None)
      else let c = map_option (\<lambda>c. c\<lparr>co_issues :=
                 fold (\<lambda>issue m. if ci_cause issue \<noteq> None then fmupd (issueError quote phrase issue) issue m else m)
                   issues (co_issues c)\<rparr>) c;
               filtered = filter (\<lambda>issue. ci_cause issue \<noteq> None) issues
           in (c, if filtered = [] then None else Some (sortedCoordinatorIssues phrase filtered)))"

definition Issues :: "(sync_cause \<Rightarrow> string) \<Rightarrow> coordinator option \<Rightarrow> coordinator_issue list" where
  "Issues phrase c = (case c of
      None \<Rightarrow> [\<lparr>ci_operation = ''coordinator'', ci_peer = '''', ci_snapshotNode = '''',
        ci_cause = Some (SyncError (ErrOther ''coordinator is nil''))\<rparr>]
    | Some c \<Rightarrow> sortedCoordinatorIssues phrase (List.map_filter (fmlookup (co_issues c)) (map_keys (co_issues c))))"

definition LegacyError :: "(sync_cause \<Rightarrow> string) \<Rightarrow> coordinator option \<Rightarrow> coordinator_issue list option" where
  "LegacyError phrase c = (let issues = Issues phrase c in if issues = [] then None else Some issues)"

section \<open>Configuration\<close>

definition NewCoordinator :: "node_id \<Rightarrow> poset option \<Rightarrow> bool \<Rightarrow> int option \<Rightarrow> coordinator" where
  \<comment> \<open>the last argument is that of \<open>WithInterval\<close>, in nanoseconds\<close>
  "NewCoordinator nodeID poset transport interval =
     \<lparr>co_nodeID = nodeID, co_poset = poset, co_transport = transport, co_peers = [],
      co_interval = (case interval of None \<Rightarrow> 5000000000 | Some d \<Rightarrow> d),
      co_started = False, co_stopped = False, co_stopCh = False, co_issues = fmempty\<rparr>"

definition coordinatorFailure :: "string \<Rightarrow> go_error" where
  "coordinatorFailure msg = ErrOther (''distributed synchronization coordinator failed: '' @ msg)"

definition AddPeerChecked :: "coordinator option \<Rightarrow> node_id \<Rightarrow> coordinator option \<times> go_error option" where
  "AddPeerChecked c peer = (case c of
      None \<Rightarrow> (None, Some (coordinatorFailure ''coordinator is nil''))
    | Some c \<Rightarrow>
        if peer = '''' then (Some c, Some (coordinatorFailure ''peer ID is empty''))
        else if peer \<in> set (co_peers c) then (Some c, None)
        else (Some (c\<lparr>co_peers := sort (co_peers c @ [peer])\<rparr>), None))"

definition AddPeer :: "(string \<Rightarrow> string) \<Rightarrow> (sync_cause \<Rightarrow> string) \<Rightarrow> coordinator option \<Rightarrow> node_id \<Rightarrow> coordinator option" where
  "AddPeer quote phrase c peer = (case AddPeerChecked c peer of
      (c, None) \<Rightarrow> c
    | (c, Some err) \<Rightarrow> fst (recordIssues quote phrase c
        [\<lparr>ci_operation = ''add-peer'', ci_peer = peer, ci_snapshotNode = '''', ci_cause = Some (SyncError err)\<rparr>]))"

definition RemovePeer :: "coordinator \<Rightarrow> node_id \<Rightarrow> coordinator" where
  "RemovePeer c peer = c\<lparr>co_peers := remove1 peer (co_peers c)\<rparr>"

definition startChecks :: "coordinator option \<Rightarrow> bool \<Rightarrow> (go_error option) option" where
  \<comment> \<open>the first locked region: \<open>None\<close> when the start goes on; the flag says whether the context is not nil\<close>
  "startChecks c ctx = (case c of
      None \<Rightarrow> Some (Some (coordinatorFailure ''coordinator is nil''))
    | Some c \<Rightarrow>
        if \<not> ctx then Some (Some (coordinatorFailure ''start context is nil''))
        else if co_started c then Some None
        else if co_stopped c then Some (Some (coordinatorFailure (''coordinator '' @ co_nodeID c @ '' was already stopped'')))
        else if co_nodeID c = '''' then Some (Some (coordinatorFailure ''coordinator node ID is empty''))
        else if co_poset c = None then Some (Some (coordinatorFailure (''coordinator '' @ co_nodeID c @ '' poset is nil'')))
        else if \<not> co_transport c then Some (Some (coordinatorFailure (''coordinator '' @ co_nodeID c @ '' transport is nil'')))
        else if co_interval c \<le> 0
        then Some (Some (coordinatorFailure (''coordinator '' @ co_nodeID c @ '' interval is not positive'')))
        else None)"

definition startCommit :: "coordinator \<Rightarrow> coordinator \<times> go_error option" where
  \<comment> \<open>the second locked region, which may see a start or stop that came between\<close>
  "startCommit c =
     (if co_started c then (c, None)
      else if co_stopped c then (c, Some (coordinatorFailure (''coordinator '' @ co_nodeID c @ '' was already stopped'')))
      else (c\<lparr>co_started := True\<rparr>, None))"

definition StartChecked :: "coordinator option \<Rightarrow> bool \<Rightarrow> bool \<Rightarrow> coordinator option \<times> go_error option" where
  \<comment> \<open>without a call between the regions; the last flag says whether the receive channel is not nil\<close>
  "StartChecked c ctx receive = (case startChecks c ctx of
      Some result \<Rightarrow> (c, result)
    | None \<Rightarrow> (case c of None \<Rightarrow> (None, None)
      | Some c \<Rightarrow>
          if \<not> receive then (Some c, Some (coordinatorFailure (''coordinator '' @ co_nodeID c @ '' receive channel is nil'')))
          else apfst Some (startCommit c)))"

definition Start :: "(string \<Rightarrow> string) \<Rightarrow> (sync_cause \<Rightarrow> string) \<Rightarrow> coordinator option \<Rightarrow> bool \<Rightarrow> bool \<Rightarrow> coordinator option" where
  "Start quote phrase c ctx receive = (case StartChecked c ctx receive of
      (c, None) \<Rightarrow> c
    | (c, Some err) \<Rightarrow> fst (recordIssues quote phrase c
        [\<lparr>ci_operation = ''start'', ci_peer = '''', ci_snapshotNode = '''', ci_cause = Some (SyncError err)\<rparr>]))"

definition Stop :: "coordinator option \<Rightarrow> coordinator option" where
  \<comment> \<open>the cancellation of the loops is \<open>co_stopCh\<close> too\<close>
  "Stop c = map_option (\<lambda>c. c\<lparr>co_stopped := True, co_stopCh := True\<rparr>) c"

section \<open>Pushing and merging\<close>

fun pushPeers :: "('n \<Rightarrow> node_id \<Rightarrow> snapshot \<Rightarrow> ('n \<times> go_error option) option) \<Rightarrow> ('n \<Rightarrow> bool) \<Rightarrow> node_id \<Rightarrow> snapshot
    \<Rightarrow> node_id list \<Rightarrow> coordinator_issue list \<Rightarrow> 'n \<Rightarrow> ('n \<times> coordinator_issue list) option" where
  "pushPeers send cancel self snap [] issues s = Some (s, issues)"
| "pushPeers send cancel self snap (peer # peers) issues s = do {
     (s, result) \<leftarrow> send s peer snap;
     (case result of None \<Rightarrow> pushPeers send cancel self snap peers issues s
      | Some err \<Rightarrow>
          if cancel s then Some (s, issues)
          else pushPeers send cancel self snap peers (issues @ [\<lparr>ci_operation = ''push'', ci_peer = peer,
            ci_snapshotNode = self, ci_cause = Some (SyncSend peer snap err)\<rparr>]) s)
   }"

definition pushOnce :: "(string \<Rightarrow> string) \<Rightarrow> (sync_cause \<Rightarrow> string) \<Rightarrow> (int \<Rightarrow> string)
    \<Rightarrow> ('n \<Rightarrow> node_id \<Rightarrow> snapshot \<Rightarrow> ('n \<times> go_error option) option) \<Rightarrow> ('n \<Rightarrow> bool) \<Rightarrow> bool \<Rightarrow> coordinator option \<Rightarrow> 'n
    \<Rightarrow> ('n \<times> coordinator option \<times> coordinator_issue list option) option" where
  "pushOnce quote phrase formatTime send cancel ctx c s =
     (let fail = (\<lambda>msg. Some (s, recordIssues quote phrase c
            [\<lparr>ci_operation = ''push'', ci_peer = '''', ci_snapshotNode = '''', ci_cause = Some (SyncError (ErrOther msg))\<rparr>]))
      in case c of None \<Rightarrow> fail ''coordinator, poset, or transport is nil''
       | Some co \<Rightarrow> (case co_poset co of None \<Rightarrow> fail ''coordinator, poset, or transport is nil''
         | Some p \<Rightarrow>
             if \<not> co_transport co then fail ''coordinator, poset, or transport is nil''
             else if \<not> ctx then fail ''context is nil''
             else map_option (\<lambda>(s, issues). (s, recordIssues quote phrase c issues))
               (pushPeers send cancel (co_nodeID co) (CreateSnapshot formatTime p (co_nodeID co)) (sort (co_peers co)) [] s)))"

fun drainCauses :: "poset \<Rightarrow> pending_edge list \<Rightarrow> sync_cause list option" where
  \<comment> \<open>the errors of \<open>DrainPendingEdges\<close>, each with the edge and the poset it is about\<close>
  "drainCauses p [] = Some []"
| "drainCauses p (pe # pes) =
     (if \<not> stored p (pe_from pe) \<or> \<not> stored p (pe_to pe) then drainCauses p pes
      else do {
        (q, err) \<leftarrow> addCausalLocked p (pe_from pe) (pe_to pe);
        causes \<leftarrow> drainCauses q pes;
        Some ((case err of None \<Rightarrow> [] | Some e \<Rightarrow> [SyncDrain p pe e]) @ causes)
      })"

definition mergeReceivedSnapshot :: "(string \<Rightarrow> string) \<Rightarrow> (sync_cause \<Rightarrow> string) \<Rightarrow> (string \<Rightarrow> int option) \<Rightarrow> coordinator option
    \<Rightarrow> snapshot option \<Rightarrow> (coordinator option \<times> coordinator_issue list option) option" where
  "mergeReceivedSnapshot quote phrase parseTime c snap =
     (case c of Some co \<Rightarrow> (case co_poset co of
        Some p \<Rightarrow> do {
          let snapshotNode = (case snap of None \<Rightarrow> '''' | Some snap \<Rightarrow> sn_nodeID snap);
          let issue = (\<lambda>operation cause. \<lparr>ci_operation = operation, ci_peer = '''', ci_snapshotNode = snapshotNode,
                ci_cause = Some cause\<rparr>);
          (q, merged) \<leftarrow> MergeSnapshot parseTime p snap;
          (case snap of
             None \<Rightarrow> Some (recordIssues quote phrase (Some (co\<lparr>co_poset := Some q\<rparr>))
               (case merged of Inl err \<Rightarrow> [issue ''merge'' (SyncError err)] | Inr _ \<Rightarrow> []))
           | Some snap \<Rightarrow> do {
               let issues = (case merged of Inl err \<Rightarrow> [issue ''merge'' (SyncError err)]
                 | Inr (_, None) \<Rightarrow> [] | Inr (_, Some list) \<Rightarrow> [issue ''merge'' (SyncMerge p snap list)]);
               drainErrors \<leftarrow> drainCauses q (pendingEdges q);
               (q, _, _) \<leftarrow> DrainPendingEdges q;
               Some (recordIssues quote phrase (Some (co\<lparr>co_poset := Some q\<rparr>))
                 (issues @ map (issue ''drain'') (sort_key phrase drainErrors)))
             })
        }
      | None \<Rightarrow> Some (recordIssues quote phrase c [\<lparr>ci_operation = ''merge'', ci_peer = '''', ci_snapshotNode = '''',
            ci_cause = Some (SyncError (ErrOther ''coordinator or poset is nil''))\<rparr>]))
    | None \<Rightarrow> Some (recordIssues quote phrase c [\<lparr>ci_operation = ''merge'', ci_peer = '''', ci_snapshotNode = '''',
          ci_cause = Some (SyncError (ErrOther ''coordinator or poset is nil''))\<rparr>]))"

text \<open>The loops run on the cases their \<open>select\<close> takes; the flag tells whether the loop goes on.\<close>

datatype loop_case = LoopDone \<comment> \<open>the context or the stop channel\<close> | LoopTick | LoopClosed | LoopSnapshot "snapshot option"

fun pushLoop :: "(string \<Rightarrow> string) \<Rightarrow> (sync_cause \<Rightarrow> string) \<Rightarrow> (int \<Rightarrow> string)
    \<Rightarrow> ('n \<Rightarrow> node_id \<Rightarrow> snapshot \<Rightarrow> ('n \<times> go_error option) option) \<Rightarrow> ('n \<Rightarrow> bool) \<Rightarrow> loop_case list
    \<Rightarrow> coordinator option \<Rightarrow> 'n \<Rightarrow> ('n \<times> coordinator option \<times> bool) option" where
  "pushLoop quote phrase formatTime send cancel [] c s = Some (s, c, True)"
| "pushLoop quote phrase formatTime send cancel (LoopTick # rest) c s =
     (if cancel s then Some (s, c, False)
      else do { (s, c, _) \<leftarrow> pushOnce quote phrase formatTime send cancel True c s;
                pushLoop quote phrase formatTime send cancel rest c s })"
| "pushLoop quote phrase formatTime send cancel (_ # rest) c s = Some (s, c, False)"

fun receiveLoop :: "(string \<Rightarrow> string) \<Rightarrow> (sync_cause \<Rightarrow> string) \<Rightarrow> (string \<Rightarrow> int option) \<Rightarrow> (loop_case \<times> bool) list
    \<Rightarrow> coordinator option \<Rightarrow> (coordinator option \<times> bool) option" where
  \<comment> \<open>the flag of a case says whether the context is done by then\<close>
  "receiveLoop quote phrase parseTime [] c = Some (c, True)"
| "receiveLoop quote phrase parseTime ((LoopSnapshot snap, finished) # rest) c =
     (if finished then Some (c, False)
      else do { (c, _) \<leftarrow> mergeReceivedSnapshot quote phrase parseTime c snap;
                receiveLoop quote phrase parseTime rest c })"
| "receiveLoop quote phrase parseTime (_ # rest) c = Some (c, False)"

section \<open>Received snapshots\<close>

text \<open>The causes are the errors of the drain, one each and in order.\<close>

fun drain_error :: "sync_cause \<Rightarrow> go_error" where
  "drain_error (SyncDrain p pe err) = err"
| "drain_error cause = ErrOther ''not a drain error''"

lemma drainCauses_errors:
  "drainLoop p pes rem errs n = Some (q, rem', errs', n') \<Longrightarrow>
     \<exists>causes. drainCauses p pes = Some causes \<and> errs' = errs @ map drain_error causes"
proof (induction p pes rem errs n rule: drainLoop.induct)
  case (2 p pe pes rem errs n)
  show ?case
  proof (cases "\<not> stored p (pe_from pe) \<or> \<not> stored p (pe_to pe)")
    case True
    then show ?thesis using 2 by simp
  next
    case False
    then obtain p1 err where step: "addCausalLocked p (pe_from pe) (pe_to pe) = Some (p1, err)"
      using "2.prems" by (auto simp: bind_eq_Some_conv)
    have "\<exists>causes. drainCauses p1 pes = Some causes
        \<and> errs' = (case err of None \<Rightarrow> errs | Some e \<Rightarrow> errs @ [e]) @ map drain_error causes"
      using "2.IH"(2,3) [OF False step] "2.prems" False step by (cases err) auto
    then show ?thesis using False step by (cases err) auto
  qed
qed simp

lemma drain_content: "drainLoop p pes rem errs n = Some (q, rem', errs', n') \<Longrightarrow> store_ok p \<Longrightarrow> same_content p q"
proof (induction p pes rem errs n rule: drainLoop.induct)
  case (2 p pe pes rem errs n)
  show ?case
  proof (cases "\<not> stored p (pe_from pe) \<or> \<not> stored p (pe_to pe)")
    case True
    then show ?thesis using 2 by simp
  next
    case False
    then obtain p1 err where step: "addCausalLocked p (pe_from pe) (pe_to pe) = Some (p1, err)"
      using "2.prems"(1) by (auto simp: bind_eq_Some_conv)
    have p1: "store_ok p1" "same_content p p1"
      using addCausal_step [OF "2.prems"(2) step] addCausal_content [OF store_okD(1) [OF "2.prems"(2)] step] by blast+
    have "same_content p1 q"
      using "2.IH"(2,3) [OF False step] "2.prems"(1) p1(1) False step by (cases err) auto
    with p1(2) show ?thesis by (rule same_content_trans)
  qed
qed simp

lemma drain_outcome:
  assumes p: "store_ok p"
  obtains q k es causes where "DrainPendingEdges p = Some (q, k, es)" "store_ok q" "extends p q" "same_content p q"
    "stored q = stored p" "drainCauses p (pendingEdges p) = Some causes" "es = map drain_error causes"
    "pendingEdges q = filter (\<lambda>pe. \<not> endpoints_stored p pe) (pendingEdges p)"
    "es = [] \<Longrightarrow> \<forall>pe \<in> set (pendingEdges p). endpoints_stored p pe \<longrightarrow> (pe_from pe, pe_to pe) \<in> before q"
proof -
  let ?rest = "filter (\<lambda>pe. \<not> endpoints_stored p pe) (pendingEdges p)"
  obtain r es k where r: "drainLoop p (pendingEdges p) [] [] 0 = Some (r, [] @ ?rest, [] @ es, 0 + k)"
    "stored r = stored p"
    "es = [] \<longrightarrow> (\<forall>pe \<in> set (pendingEdges p). endpoints_stored p pe \<longrightarrow> (pe_from pe, pe_to pe) \<in> before r)"
    using drainLoop_ok [OF store_okD(1) [OF p], of "pendingEdges p" "[]" "[]" 0] by blast
  have "store_ok r \<and> extends p r" "same_content p r" using drainLoop_step [OF r(1) p] drain_content [OF r(1) p] .
  moreover obtain causes where "drainCauses p (pendingEdges p) = Some causes" "es = map drain_error causes"
    using drainCauses_errors [OF r(1)] by auto
  ultimately show thesis
    using r by (intro that [of "r\<lparr>pendingEdges := ?rest\<rparr>" k es causes]) (simp_all add: DrainPendingEdges_def)
qed

definition received :: "(string \<Rightarrow> int option) \<Rightarrow> poset \<Rightarrow> snapshot \<Rightarrow> bool" where
  \<comment> \<open>everything the snapshot says holds; an edge still waits only while an endpoint is missing\<close>
  "received parseTime q snap \<longleftrightarrow>
     (\<forall>ee \<in> set (sn_events snap). \<exists>f. fmlookup (events q) (ex_id ee) = Some f \<and> agrees parseTime ee f)
     \<and> (\<forall>class \<in> set (sn_causalEquivalences snap). \<forall>i \<in> set class. \<forall>j \<in> set class. IsCausallyEquivalent q i j)
     \<and> (\<forall>edge \<in> set (sn_causalEdges snap). \<exists>from to. edge = [from, to] \<and> ((from, to) \<in> before q
          \<or> pendingEdgeExists (pendingEdges q) from to \<and> \<not> (stored q from \<and> stored q to)))"

lemma received_after_drain:
  assumes "integrated parseTime p snap" "extends p q" "stored q = stored p" "same_content p q"
    "pendingEdges q = filter (\<lambda>pe. \<not> endpoints_stored p pe) (pendingEdges p)"
    "\<forall>pe \<in> set (pendingEdges p). endpoints_stored p pe \<longrightarrow> (pe_from pe, pe_to pe) \<in> before q"
  shows "received parseTime q snap"
proof -
  have "\<exists>from to. edge = [from, to] \<and> ((from, to) \<in> before q
      \<or> pendingEdgeExists (pendingEdges q) from to \<and> \<not> (stored q from \<and> stored q to))"
    if edge: "edge \<in> set (sn_causalEdges snap)" for edge
  proof -
    have len: "length edge = 2"
      and holds: "(edge ! 0, edge ! 1) \<in> before p \<or> pendingEdgeExists (pendingEdges p) (edge ! 0) (edge ! 1)"
      using assms(1) edge by (auto simp: integrated_def)
    from len obtain a b where ab: "edge = [a, b]" by (auto simp: numeral_2_eq_2 length_Suc_conv)
    then consider "(a, b) \<in> before p" | pe where "pe \<in> set (pendingEdges p)" "pe_from pe = a" "pe_to pe = b"
      using holds by (auto simp: pendingEdgeExists_def list_ex_iff)
    then show ?thesis
    proof cases
      case 1
      then show ?thesis using ab assms(2) by (auto simp: extends_def)
    next
      case 2
      then show ?thesis
        using ab assms(3,5,6) by (cases "endpoints_stored p pe")
          (auto simp: endpoints_stored_def pendingEdgeExists_def list_ex_iff)
    qed
  qed
  moreover have "\<exists>f. fmlookup (events q) (ex_id ee) = Some f \<and> agrees parseTime ee f" if "ee \<in> set (sn_events snap)" for ee
    using assms(1) that same_content_keeps [OF assms(4)] agrees_lamport unfolding integrated_def keeps_def by metis
  ultimately show ?thesis using assms(1,2) by (auto simp: received_def integrated_def extends_def)
qed

lemma recorded_issues:
  assumes "recordIssues quote phrase (Some c) issues = (c', err)"
  obtains co where "c' = Some co" "co_poset co = co_poset c" "co_peers co = co_peers c" "co_nodeID co = co_nodeID c"
    "co_started co = co_started c" "co_stopped co = co_stopped c"
  using assms by (auto simp: recordIssues_def Let_def split: if_splits)

lemma fold_record_keeps:
  "key |\<in>| fmdom m \<Longrightarrow> key |\<in>| fmdom (fold (\<lambda>issue m. if keep issue then fmupd (f issue) issue m else m) issues m)"
  by (induction issues arbitrary: m) auto

lemma fold_record_has:
  "issue \<in> set issues \<Longrightarrow> keep issue \<Longrightarrow>
     f issue |\<in>| fmdom (fold (\<lambda>issue m. if keep issue then fmupd (f issue) issue m else m) issues m)"
  by (induction issues arbitrary: m) (auto intro: fold_record_keeps)

text \<open>What the call reports is retained, and nothing retained before is lost.\<close>

lemma recordIssues_retained:
  assumes "recordIssues quote phrase (Some c) issues = (Some co, err)"
  shows "err = Some list \<Longrightarrow> issue \<in> set list \<Longrightarrow> issue \<in> set issues \<and> map_has (co_issues co) (issueError quote phrase issue)"
    "map_has (co_issues c) key \<Longrightarrow> map_has (co_issues co) key"
    "err = None \<Longrightarrow> \<forall>issue \<in> set issues. ci_cause issue \<noteq> None \<Longrightarrow> issues = []"
proof -
  have co: "issues \<noteq> [] \<Longrightarrow> co_issues co =
      fold (\<lambda>issue m. if ci_cause issue \<noteq> None then fmupd (issueError quote phrase issue) issue m else m) issues (co_issues c)"
    using assms by (auto simp: recordIssues_def Let_def)
  assume e: "err = Some list" "issue \<in> set list"
  then have "issue \<in> set issues" "ci_cause issue \<noteq> None" "issues \<noteq> []"
    using assms by (auto simp: recordIssues_def sortedCoordinatorIssues_def Let_def split: if_splits)
  moreover have "map_has (co_issues co) (issueError quote phrase issue)"
    unfolding co [OF calculation(3)] map_has_def using calculation(1,2)
    by (intro fold_record_has [of issue issues "\<lambda>issue. ci_cause issue \<noteq> None" "issueError quote phrase"])
  ultimately show "issue \<in> set issues \<and> map_has (co_issues co) (issueError quote phrase issue)" by blast
next
  show "map_has (co_issues c) key \<Longrightarrow> map_has (co_issues co) key"
    using assms by (auto simp: recordIssues_def Let_def map_has_def intro: fold_record_keeps split: if_splits)
  show "err = None \<Longrightarrow> \<forall>issue \<in> set issues. ci_cause issue \<noteq> None \<Longrightarrow> issues = []"
    using assms by (cases issues) (auto simp: recordIssues_def Let_def split: if_splits)
qed

lemma imported_later:
  assumes "imported parseTime p snap q" "same_content q r"
  shows "imported parseTime p snap r"
  unfolding imported_def
proof clarify
  fix i f
  assume f: "fmlookup (events r) i = Some f" "\<not> stored p i"
  obtain g where g: "fmlookup (events q) i = Some g" "set_lamport 0 g = set_lamport 0 f"
    by (rule same_content_event [OF assms(2) f(1)])
  then show "\<exists>ee \<in> set (sn_events snap). taken_from parseTime ee f"
    using assms(1) f(2) taken_lamport [OF _ g(2) [symmetric]] unfolding imported_def by blast
qed

lemma merge_received:
  assumes c: "co_poset c = Some p" and p: "store_ok p"
  obtains co q err where "mergeReceivedSnapshot quote phrase parseTime (Some c) (Some snap) = Some (Some co, err)"
    "co_poset co = Some q" "store_ok q" "extends p q" "keeps p q" "imported parseTime p snap q"
    "err = None \<Longrightarrow> \<forall>class \<in> set (sn_causalEquivalences snap). nul_free class \<Longrightarrow> received parseTime q snap"
    "\<And>issues issue. err = Some issues \<Longrightarrow> issue \<in> set issues \<Longrightarrow>
       ci_snapshotNode issue = sn_nodeID snap \<and> map_has (co_issues co) (issueError quote phrase issue)"
    "\<And>key. map_has (co_issues c) key \<Longrightarrow> map_has (co_issues co) key"
proof -
  obtain p1 result problems where m: "MergeSnapshot parseTime p (Some snap) = Some (p1, Inr (result, problems))"
    "store_ok p1" "extends p p1" "keeps p p1" "imported parseTime p snap p1"
    "problems = None \<Longrightarrow> \<forall>class \<in> set (sn_causalEquivalences snap). nul_free class \<Longrightarrow> integrated parseTime p1 snap"
    by (rule merge_outcome [OF p, of parseTime snap]) blast
  obtain q k es causes where d: "DrainPendingEdges p1 = Some (q, k, es)" "store_ok q" "extends p1 q" "same_content p1 q"
    "stored q = stored p1" "drainCauses p1 (pendingEdges p1) = Some causes" "es = map drain_error causes"
    "pendingEdges q = filter (\<lambda>pe. \<not> endpoints_stored p1 pe) (pendingEdges p1)"
    "es = [] \<Longrightarrow> \<forall>pe \<in> set (pendingEdges p1). endpoints_stored p1 pe \<longrightarrow> (pe_from pe, pe_to pe) \<in> before q"
    by (rule drain_outcome [OF m(2)]) blast
  define issue where "issue = (\<lambda>operation cause. \<lparr>ci_operation = operation, ci_peer = '''' :: node_id,
    ci_snapshotNode = sn_nodeID snap, ci_cause = Some cause\<rparr>)"
  define issues where "issues = (case problems of None \<Rightarrow> [] | Some list \<Rightarrow> [issue ''merge'' (SyncMerge p snap list)])
    @ map (issue ''drain'') (sort_key phrase causes)"
  obtain c' err where rec: "recordIssues quote phrase (Some (c\<lparr>co_poset := Some q\<rparr>)) issues = (c', err)" by fastforce
  obtain co where co: "c' = Some co" "co_poset co = Some q" by (rule recorded_issues [OF rec]) simp
  note kept = recordIssues_retained [OF rec [unfolded co(1)]]
  have run: "mergeReceivedSnapshot quote phrase parseTime (Some c) (Some snap) = Some (Some co, err)"
    using rec co(1) by (cases problems) (simp_all add: mergeReceivedSnapshot_def c m(1) d(1,6) issues_def issue_def)
  have cause: "ci_cause i \<noteq> None \<and> ci_snapshotNode i = sn_nodeID snap" if "i \<in> set issues" for i
    using that by (auto simp: issues_def issue_def split: option.splits)
  have whole: "received parseTime q snap" if "err = None" and nf: "\<forall>class \<in> set (sn_causalEquivalences snap). nul_free class"
  proof -
    have "issues = []" using kept(3) that(1) cause by blast
    then have "problems = None" "length (sort_key phrase causes) = 0" by (auto simp: issues_def split: option.splits)
    then have "problems = None" "es = []" by (simp_all add: d(7))
    then show ?thesis using received_after_drain [OF m(6) d(3,5,4,8) d(9)] nf by blast
  qed
  show thesis
  proof (rule that [OF run co(2) d(2) extends_trans [OF m(3) d(3)] _ _ whole])
    show "keeps p q" by (rule keeps_trans [OF m(4) same_content_keeps [OF d(4)]])
    show "imported parseTime p snap q" by (rule imported_later [OF m(5) d(4)])
    show "ci_snapshotNode i = sn_nodeID snap \<and> map_has (co_issues co) (issueError quote phrase i)"
      if "err = Some list" "i \<in> set list" for list i
      using kept(1) [OF that] cause by blast
    show "map_has (co_issues c) key \<Longrightarrow> map_has (co_issues co) key" for key using kept(2) [of key] by simp
  qed
qed

text \<open>C37: A received snapshot is never lost in silence.  Merging it into a well-formed poset always returns; the
  poset keeps its invariant, forgets nothing, keeps the contents of its events and gains only events of the
  snapshot.  Every issue the call reports names the snapshot's node and is retained for \<open>Issues\<close>, as is every
  issue retained before.  If it reports none, and no class of the snapshot lists an ID with a NUL byte (the
  byte \<open>MergeSnapshot\<close> joins the keys of classes with), then every event of the snapshot is stored with the
  contents it was exported with, its classes are equivalent and its edges are in the strict order, an edge
  waiting only while an endpoint is missing.\<close>

theorem mergeReceivedSnapshot_outcome:
  assumes "co_poset c = Some p" "store_ok p"
  shows "\<exists>co q err. mergeReceivedSnapshot quote phrase parseTime (Some c) (Some snap) = Some (Some co, err)
    \<and> co_poset co = Some q \<and> store_ok q \<and> extends p q \<and> keeps p q \<and> imported parseTime p snap q
    \<and> (err = None \<and> (\<forall>class \<in> set (sn_causalEquivalences snap). nul_free class) \<longrightarrow> received parseTime q snap)
    \<and> (\<forall>issues. err = Some issues \<longrightarrow> (\<forall>issue \<in> set issues.
          ci_snapshotNode issue = sn_nodeID snap \<and> map_has (co_issues co) (issueError quote phrase issue)))
    \<and> (\<forall>key. map_has (co_issues c) key \<longrightarrow> map_has (co_issues co) key)"
  by (rule merge_received [OF assms, of quote phrase parseTime snap]) blast

text \<open>A snapshot with two events and an edge between them, merged by a coordinator that knows neither.\<close>

definition sample_coordinator :: coordinator where
  "sample_coordinator = NewCoordinator ''b'' (Some NewPoset) True None"

theorem mergeReceivedSnapshot_outcome_witness:
  "\<exists>co q. mergeReceivedSnapshot (\<lambda>s. s) (\<lambda>_. '''') (\<lambda>_. Some 0) (Some sample_coordinator) (Some sample_snapshot) = Some (Some co, None)
     \<and> co_poset co = Some q \<and> received (\<lambda>_. Some 0) q sample_snapshot"
proof -
  have run: "map_option snd (mergeReceivedSnapshot (\<lambda>s. s) (\<lambda>_. '''') (\<lambda>_. Some 0) (Some sample_coordinator) (Some sample_snapshot))
      = Some None" by code_simp
  have "\<forall>class \<in> set (sn_causalEquivalences sample_snapshot). nul_free class"
    unfolding nul_free_def by code_simp
  moreover have "co_poset sample_coordinator = Some NewPoset" by (simp add: sample_coordinator_def NewCoordinator_def)
  ultimately show ?thesis
    using mergeReceivedSnapshot_outcome [of sample_coordinator NewPoset "\<lambda>s. s" "\<lambda>_. ''''" "\<lambda>_. Some 0" sample_snapshot]
      NewPoset_store_ok run by auto
qed

text \<open>Any sequence of snapshots leaves a well-formed poset that forgot nothing.\<close>

lemma receiveLoop_ok:
  "co_poset c = Some p \<Longrightarrow> store_ok p \<Longrightarrow> \<forall>snap. (LoopSnapshot snap, False) \<in> set turns \<longrightarrow> snap \<noteq> None \<Longrightarrow>
     \<exists>co q on. receiveLoop quote phrase parseTime turns (Some c) = Some (Some co, on) \<and> co_poset co = Some q
       \<and> store_ok q \<and> extends p q"
proof (induction turns arbitrary: c p)
  case (Cons turn turns)
  show ?case
  proof (cases "\<exists>snap. turn = (LoopSnapshot (Some snap), False)")
    case True
    then obtain snap where turn: "turn = (LoopSnapshot (Some snap), False)" by blast
    obtain co q err where co: "mergeReceivedSnapshot quote phrase parseTime (Some c) (Some snap) = Some (Some co, err)"
      "co_poset co = Some q" "store_ok q" "extends p q"
      by (rule merge_received [OF Cons.prems(1,2), of quote phrase parseTime snap]) blast
    obtain co' q' on where "receiveLoop quote phrase parseTime turns (Some co) = Some (Some co', on)" "co_poset co' = Some q'"
      "store_ok q'" "extends q q'"
      using Cons.IH [OF co(2,3)] Cons.prems(3) by auto
    then show ?thesis using turn co(1) extends_trans [OF co(4)] by auto
  next
    case False
    obtain what finished where turn: "turn = (what, finished)" by (cases turn)
    then show ?thesis using False Cons.prems by (cases what) auto
  qed
qed auto

text \<open>After a stop a second start reports success although nothing runs any more.\<close>

lemma start_after_stop:
  assumes "co_started c"
  shows "StartChecked (Stop (Some c)) True True = (Stop (Some c), None) \<and> co_stopCh (the (Stop (Some c)))"
  using assms by (simp add: StartChecked_def startChecks_def Stop_def)

section \<open>The push over a transport\<close>

text \<open>
  What a coordinator needs of \<open>Transport\<close> while its context is not done: a send to an available peer appends a
  copy of the snapshot to that peer's inbox; a send to a peer that refuses returns an error and touches no
  inbox; either leaves the other peers as they were.
\<close>

locale snapshot_transport =
  fixes good :: "'n \<Rightarrow> bool" and available :: "'n \<Rightarrow> node_id \<Rightarrow> bool" and refusing :: "'n \<Rightarrow> node_id \<Rightarrow> bool"
    and done_ctx :: "'n \<Rightarrow> bool" and inbox :: "'n \<Rightarrow> node_id \<Rightarrow> snapshot list"
    and send :: "'n \<Rightarrow> node_id \<Rightarrow> snapshot \<Rightarrow> ('n \<times> go_error option) option"
  assumes send_available: "good s \<Longrightarrow> \<not> done_ctx s \<Longrightarrow> available s to \<Longrightarrow> CloneSnapshot (Some snap) = Inr owned \<Longrightarrow>
      \<exists>t. send s to snap = Some (t, None) \<and> good t \<and> \<not> done_ctx t \<and> inbox t = (inbox s)(to := inbox s to @ [owned])
        \<and> (\<forall>m. m \<noteq> to \<longrightarrow> (available s m \<longrightarrow> available t m) \<and> (refusing s m \<longrightarrow> refusing t m))"
    and send_refusing: "good s \<Longrightarrow> \<not> done_ctx s \<Longrightarrow> refusing s to \<Longrightarrow>
      \<exists>t err. send s to snap = Some (t, Some err) \<and> good t \<and> \<not> done_ctx t \<and> inbox t = inbox s
        \<and> (\<forall>m. m \<noteq> to \<longrightarrow> (available s m \<longrightarrow> available t m) \<and> (refusing s m \<longrightarrow> refusing t m))"
    and not_both: "available s to \<Longrightarrow> \<not> refusing s to"
begin

lemma push_reaches:
  assumes clone: "CloneSnapshot (Some snap) = Inr owned"
  shows "good s \<Longrightarrow> \<not> done_ctx s \<Longrightarrow> distinct peers \<Longrightarrow> \<forall>m \<in> set peers. available s m \<or> refusing s m \<Longrightarrow>
    \<exists>t more. pushPeers send done_ctx self snap peers issues s = Some (t, issues @ more) \<and> good t
      \<and> inbox t = (\<lambda>m. if m \<in> set peers \<and> available s m then inbox s m @ [owned] else inbox s m)
      \<and> map ci_peer more = filter (refusing s) peers
      \<and> (\<forall>issue \<in> set more. ci_operation issue = ''push'' \<and> ci_snapshotNode issue = self \<and> ci_cause issue \<noteq> None)"
proof (induction peers arbitrary: s issues)
  case (Cons peer peers)
  have rest: "\<exists>t more. pushPeers send done_ctx self snap peers is u = Some (t, is @ more) \<and> good t
      \<and> inbox t = (\<lambda>m. if m \<in> set peers \<and> available s m then inbox u m @ [owned] else inbox u m)
      \<and> map ci_peer more = filter (refusing s) peers
      \<and> (\<forall>issue \<in> set more. ci_operation issue = ''push'' \<and> ci_snapshotNode issue = self \<and> ci_cause issue \<noteq> None)"
    if u: "good u" "\<not> done_ctx u"
      "\<forall>m. m \<noteq> peer \<longrightarrow> (available s m \<longrightarrow> available u m) \<and> (refusing s m \<longrightarrow> refusing u m)" for u "is"
  proof -
    have same: "available u m = available s m \<and> refusing u m = refusing s m" if "m \<in> set peers" for m
      using that u(3) Cons.prems(3,4) not_both by (metis distinct.simps(2) list.set_intros(2))
    then have "filter (refusing u) peers = filter (refusing s) peers" by (intro filter_cong) auto
    then show ?thesis
      using Cons.IH [OF u(1,2), of "is"] same Cons.prems(3,4) by (auto simp: fun_eq_iff cong: conj_cong)
  qed
  show ?case
  proof (cases "available s peer")
    case True
    obtain u where u: "send s peer snap = Some (u, None)" "good u" "\<not> done_ctx u"
      "inbox u = (inbox s)(peer := inbox s peer @ [owned])"
      "\<forall>m. m \<noteq> peer \<longrightarrow> (available s m \<longrightarrow> available u m) \<and> (refusing s m \<longrightarrow> refusing u m)"
      using send_available [OF Cons.prems(1,2) True clone] by blast
    obtain t more where "pushPeers send done_ctx self snap peers issues u = Some (t, issues @ more)" "good t"
      "inbox t = (\<lambda>m. if m \<in> set peers \<and> available s m then inbox u m @ [owned] else inbox u m)"
      "map ci_peer more = filter (refusing s) peers"
      "\<forall>issue \<in> set more. ci_operation issue = ''push'' \<and> ci_snapshotNode issue = self \<and> ci_cause issue \<noteq> None"
      using rest [OF u(2,3,5)] by blast
    then show ?thesis using u(1,4) True not_both [OF True] Cons.prems(3) by (auto simp: fun_eq_iff)
  next
    case False
    then obtain u err where u: "send s peer snap = Some (u, Some err)" "good u" "\<not> done_ctx u" "inbox u = inbox s"
      "\<forall>m. m \<noteq> peer \<longrightarrow> (available s m \<longrightarrow> available u m) \<and> (refusing s m \<longrightarrow> refusing u m)"
      using send_refusing [OF Cons.prems(1,2)] Cons.prems(4) by (metis list.set_intros(1))
    let ?issue = "\<lparr>ci_operation = ''push'', ci_peer = peer, ci_snapshotNode = self, ci_cause = Some (SyncSend peer snap err)\<rparr>"
    obtain t more where "pushPeers send done_ctx self snap peers (issues @ [?issue]) u = Some (t, (issues @ [?issue]) @ more)"
      "good t" "inbox t = (\<lambda>m. if m \<in> set peers \<and> available s m then inbox u m @ [owned] else inbox u m)"
      "map ci_peer more = filter (refusing s) peers"
      "\<forall>issue \<in> set more. ci_operation issue = ''push'' \<and> ci_snapshotNode issue = self \<and> ci_cause issue \<noteq> None"
      using rest [OF u(2,3,5)] by blast
    moreover have "refusing s peer" using False Cons.prems(4) by simp
    ultimately show ?thesis using u(1,3,4) False
      by (intro exI [of _ t] exI [of _ "?issue # more"]) (auto simp: fun_eq_iff)
  qed
qed simp

lemma pushOnce_reaches:
  assumes "good s" "\<not> done_ctx s" "co_poset c = Some p" "co_transport c" "distinct (co_peers c)"
    and "\<forall>m \<in> set (co_peers c). available s m \<or> refusing s m"
    and clone: "CloneSnapshot (Some (CreateSnapshot formatTime p (co_nodeID c))) = Inr owned"
  shows "\<exists>t c' err. pushOnce quote phrase formatTime send done_ctx True (Some c) s = Some (t, Some c', err) \<and> good t
    \<and> inbox t = (\<lambda>m. if m \<in> set (co_peers c) \<and> available s m then inbox s m @ [owned] else inbox s m)
    \<and> map ci_peer (case err of None \<Rightarrow> [] | Some issues \<Rightarrow> issues) = filter (refusing s) (sort (co_peers c))
    \<and> (\<forall>issues. err = Some issues \<longrightarrow> (\<forall>issue \<in> set issues. map_has (co_issues c') (issueError quote phrase issue)))"
proof -
  obtain t more where m: "pushPeers send done_ctx (co_nodeID c) (CreateSnapshot formatTime p (co_nodeID c)) (sort (co_peers c)) [] s
      = Some (t, more)" "good t"
    "inbox t = (\<lambda>m. if m \<in> set (co_peers c) \<and> available s m then inbox s m @ [owned] else inbox s m)"
    "map ci_peer more = filter (refusing s) (sort (co_peers c))"
    "\<forall>issue \<in> set more. ci_operation issue = ''push'' \<and> ci_snapshotNode issue = co_nodeID c \<and> ci_cause issue \<noteq> None"
    using push_reaches [OF clone assms(1,2), of "sort (co_peers c)" "co_nodeID c" "[]"] assms(5,6) by auto
  obtain c'' err where rec: "recordIssues quote phrase (Some c) more = (c'', err)" by fastforce
  obtain c' where c': "c'' = Some c'" by (rule recorded_issues [OF rec])
  have "sorted_wrt (<) (map ci_peer more)"
    unfolding m(4) using assms(5) by (simp add: sorted_wrt_filter strict_sorted_iff)
  then have "sorted (map (\<lambda>issue. (ci_operation issue, ci_peer issue, ci_snapshotNode issue, causeText phrase (ci_cause issue))) more)"
    using m(5) by (auto simp: sorted_wrt_map less_prod_def intro!: sorted_wrt_mono_rel [where P = "\<lambda>x y. ci_peer x < ci_peer y"])
  then have "sortedCoordinatorIssues phrase more = more"
    by (simp add: sortedCoordinatorIssues_def sort_key_id_if_sorted)
  moreover have "filter (\<lambda>issue. ci_cause issue \<noteq> None) more = more" using m(5) by (simp add: filter_id_conv)
  ultimately have "(case err of None \<Rightarrow> [] | Some issues \<Rightarrow> issues) = more"
    using rec by (cases "more = []") (auto simp: recordIssues_def Let_def)
  moreover have "pushOnce quote phrase formatTime send done_ctx True (Some c) s = Some (t, Some c', err)"
    using m(1) assms(3,4) rec c' by (simp add: pushOnce_def)
  ultimately show ?thesis
    using m(2-4) recordIssues_retained(1) [OF rec [unfolded c']] by (intro exI [of _ t] exI [of _ c'] exI [of _ err]) auto
qed

end

section \<open>The in-memory transport as provider\<close>

text \<open>One call of \<open>Send\<close> on its own: its regions in sequence.  Its \<open>select\<close> takes any of the ready cases; Go
  chooses at random, and \<open>pick\<close> is that choice.\<close>

definition readyCases :: "nat \<Rightarrow> mem_network \<Rightarrow> select_case list" where
  "readyCases k s = filter (\<lambda>which. net_act (Continue k which) s \<noteq> None) [CaseInbox, CaseDone, CaseClosing]"

fun driveSend :: "nat \<Rightarrow> (mem_network \<Rightarrow> nat) \<Rightarrow> nat \<Rightarrow> mem_network \<Rightarrow> (mem_network \<times> go_error option) option" where
  \<comment> \<open>\<open>None\<close> when the call blocks\<close>
  "driveSend 0 pick k s = None"
| "driveSend (Suc fuel) pick k s = (case sends s ! k of
     Returned result \<Rightarrow> Some (s, result)
   | _ \<Rightarrow> (let ready = readyCases k s in
       if ready = [] then None
       else (case net_act (Continue k (ready ! (pick s mod length ready))) s of
           None \<Rightarrow> None | Some (_, t) \<Rightarrow> driveSend fuel pick k t)))"

definition memSend :: "(mem_network \<Rightarrow> nat) \<Rightarrow> node_id \<Rightarrow> nat \<Rightarrow> mem_network \<Rightarrow> node_id \<Rightarrow> snapshot
    \<Rightarrow> (mem_network \<times> go_error option) option" where
  \<comment> \<open>a send has at most four regions after its checks\<close>
  "memSend pick self ctx s target snap = (case net_act (Send (Some self) (Some ctx) target (Some snap)) s of
     None \<Rightarrow> None | Some (_, t) \<Rightarrow> driveSend 5 pick (length (sends s)) t)"

definition node_open :: "mem_network \<Rightarrow> node_id \<Rightarrow> bool" where
  "node_open s n \<longleftrightarrow> (\<exists>t. fmlookup (transports s) n = Some t \<and> \<not> mt_closed t)"

definition peer_open :: "node_id \<Rightarrow> mem_network \<Rightarrow> node_id \<Rightarrow> bool" where
  \<comment> \<open>the sender is open, and the peer is open and has room\<close>
  "peer_open self s to \<longleftrightarrow> node_open s self \<and> (\<exists>t. fmlookup (transports s) to = Some t \<and> \<not> mt_closed t
     \<and> length (mt_inbox t) < inbox_capacity)"

definition peer_refuses :: "node_id \<Rightarrow> mem_network \<Rightarrow> node_id \<Rightarrow> bool" where
  \<comment> \<open>the sender is open, and the peer is unknown or closed\<close>
  "peer_refuses self s to \<longleftrightarrow> node_open s self \<and> \<not> node_open s to"

lemma chosen_ready: "readyCases k s \<noteq> [] \<Longrightarrow> net_act (Continue k (readyCases k s ! (i mod length (readyCases k s)))) s \<noteq> None"
proof -
  assume "readyCases k s \<noteq> []"
  then have "readyCases k s ! (i mod length (readyCases k s)) \<in> set (readyCases k s)" by simp
  then show ?thesis unfolding readyCases_def set_filter mem_Collect_eq by blast
qed

text \<open>A region with one outcome, whatever is chosen.\<close>

lemma drive_step:
  assumes "\<And>result. sends s ! k \<noteq> Returned result" "net_act (Continue k which) s = Some (l, t)"
    and "\<And>other l' t'. net_act (Continue k other) s = Some (l', t') \<Longrightarrow> t' = t"
  shows "driveSend (Suc fuel) pick k s = driveSend fuel pick k t"
proof -
  have ready: "readyCases k s \<noteq> []"
    using assms(2) by (cases which) (simp_all add: readyCases_def del: net_act.simps)
  obtain l' t' where "net_act (Continue k (readyCases k s ! (pick s mod length (readyCases k s)))) s = Some (l', t')"
    using chosen_ready [OF ready, of "pick s"] by (cases "net_act (Continue k (readyCases k s ! (pick s mod length (readyCases k s)))) s")
      (auto simp del: net_act.simps)
  note next_step = this assms(3) [OF this]
  show ?thesis
  proof (cases "sends s ! k")
    case (Returned result)
    then show ?thesis using assms(1) by blast
  qed (use ready next_step in \<open>simp_all add: Let_def del: net_act.simps\<close>)
qed

lemma driveSend_ok: "driveSend fuel pick k s = Some (t, r) \<Longrightarrow> net_ok s \<Longrightarrow> net_ok t \<and> cancelled t = cancelled s"
proof (induction fuel arbitrary: s)
  case (Suc fuel)
  show ?case
  proof (cases "\<exists>result. sends s ! k = Returned result")
    case True
    then show ?thesis using Suc.prems by auto
  next
    case False
    then obtain which l u where u: "net_act (Continue k which) s = Some (l, u)" "driveSend fuel pick k u = Some (t, r)"
      using Suc.prems(1) by (auto simp: Let_def simp del: net_act.simps split: send_frame.splits option.splits prod.splits if_splits)
    have "net_ok u" using net_act_step [OF Suc.prems(2) u(1)] ..
    moreover have "cancelled u = cancelled s"
      using u(1) by (cases "sends s ! k") (auto simp: put_frame_def put_transport_def sendLeave_def Let_def
          split: if_splits option.splits prod.splits)
    ultimately show ?thesis using Suc.IH [OF u(2)] by simp
  qed
qed simp

lemma fields_frame [simp]:
  "transports (put_frame k f s) = transports s" "length (sends (put_frame k f s)) = length (sends s)"
  "k < length (sends s) \<Longrightarrow> sends (put_frame k f s) ! k = f" "cancelled (put_frame k f s) = cancelled s"
  "sends (put_transport n t s) = sends s" "cancelled (put_transport n t s) = cancelled s"
  "transports (put_transport n t s) = fmupd n t (transports s)"
  "transports (sendLeave s n t) = fmupd n (t\<lparr>mt_activeSends := mt_activeSends t - 1\<rparr>) (transports s)"
  "sends (sendLeave s n t) = sends s" "cancelled (sendLeave s n t) = cancelled s"
  by (simp_all add: put_frame_def put_transport_def sendLeave_def Let_def)

lemma drive_returned: "sends s ! k = Returned result \<Longrightarrow> driveSend (Suc fuel) pick k s = Some (s, result)"
  by simp

text \<open>A send to an open peer with room, with a context that is not done: only the inbox is ready.\<close>

lemma drive_available:
  assumes k: "k < length (sends s)" "sends s ! k = Checked to snap ctx" and clone: "CloneSnapshot (Some snap) = Inr owned"
    and y: "fmlookup (transports s) to = Some y" "\<not> mt_closed y" "\<not> mt_closing y" "\<not> mt_inboxClosed y"
      "length (mt_inbox y) < inbox_capacity"
    and ctx: "ctx \<notin> set (cancelled s)"
  obtains t where "driveSend 5 pick k s = Some (t, None)"
    "transports t = fmupd to (y\<lparr>mt_inbox := mt_inbox y @ [owned]\<rparr>) (transports s)"
proof -
  define s1 where "s1 = put_frame k (Entering to owned ctx) s"
  define y2 where "y2 = y\<lparr>mt_activeSends := mt_activeSends y + 1\<rparr>"
  define s2 where "s2 = put_frame k (Selecting to owned ctx) (put_transport to y2 s1)"
  define y3 where "y3 = y2\<lparr>mt_inbox := mt_inbox y2 @ [owned]\<rparr>"
  define s3 where "s3 = put_frame k (Leaving to None) (put_transport to y3 s2)"
  define s4 where "s4 = put_frame k (Returned None) (sendLeave s3 to y3)"
  have "driveSend (Suc 4) pick k s = driveSend 4 pick k s1"
    by (rule drive_step [where which = CaseInbox and l = Quiet]) (use k y clone in \<open>simp_all add: s1_def sendLookup_def\<close>)
  also have "\<dots> = driveSend (Suc 3) pick k s1" by simp
  also have "\<dots> = driveSend 3 pick k s2"
    by (rule drive_step [where which = CaseInbox and l = Quiet])
      (use k y in \<open>simp_all add: s1_def s2_def y2_def sendEnter_def put_frame_def put_transport_def\<close>)
  also have "\<dots> = driveSend (Suc 2) pick k s2" by simp
  also have "\<dots> = driveSend 2 pick k s3"
  proof (rule drive_step [where which = CaseInbox and l = "Offered to owned"])
    show "sends s2 ! k \<noteq> Returned result" for result using k by (simp add: s1_def s2_def)
    show "net_act (Continue k CaseInbox) s2 = Some (Offered to owned, s3)"
      using k y by (simp add: s1_def s2_def s3_def y2_def y3_def sendSelect_def)
    show "t' = s3" if "net_act (Continue k which) s2 = Some (l', t')" for which l' t'
      using that k y ctx by (cases which) (simp_all add: s1_def s2_def s3_def y2_def y3_def sendSelect_def)
  qed
  also have "\<dots> = driveSend (Suc 1) pick k s3" by (simp only: numeral_2_eq_2 One_nat_def)
  also have "\<dots> = driveSend 1 pick k s4"
    by (rule drive_step [where which = CaseInbox and l = Quiet]) (use k y in \<open>simp_all add: s1_def s2_def s3_def s4_def y3_def\<close>)
  also have "\<dots> = Some (s4, None)" using k by (simp add: s1_def s2_def s3_def s4_def)
  finally have "driveSend 5 pick k s = Some (s4, None)" by simp
  moreover have "transports s4 = fmupd to (y\<lparr>mt_inbox := mt_inbox y @ [owned]\<rparr>) (transports s)"
    by (simp add: s1_def s2_def s3_def s4_def y2_def y3_def)
  ultimately show thesis by (rule that)
qed

text \<open>A send to an unknown or closed peer reports it, and a copy that fails is an error too.\<close>

lemma drive_refused:
  assumes k: "k < length (sends s)" "sends s ! k = Checked to snap ctx"
    and peer: "\<And>y. fmlookup (transports s) to = Some y \<Longrightarrow> mt_closed y"
  obtains t err where "driveSend 5 pick k s = Some (t, Some err)" "transports t = transports s"
proof -
  define s1 where "s1 = put_frame k (sendLookup s to snap ctx) s"
  have first: "driveSend (Suc 4) pick k s = driveSend 4 pick k s1"
    by (rule drive_step [where which = CaseInbox and l = Quiet]) (use k in \<open>simp_all add: s1_def\<close>)
  have at: "sends s1 ! k = sendLookup s to snap ctx" "k < length (sends s1)" "transports s1 = transports s"
    using k by (simp_all add: s1_def)
  show thesis
  proof (cases "\<exists>err. sendLookup s to snap ctx = Returned (Some err)")
    case True
    then obtain err where "sends s1 ! k = Returned (Some err)" using at(1) by auto
    then have "driveSend 4 pick k s1 = Some (s1, Some err)" using drive_returned [of s1 k "Some err" 3 pick] by simp
    then show thesis using first that [of s1 err] at(3) by simp
  next
    case False
    then obtain y owned where y: "fmlookup (transports s) to = Some y" "sends s1 ! k = Entering to owned ctx"
      using at(1) by (auto simp: sendLookup_def split: option.splits sum.splits)
    let ?f = "Returned (Some (ErrOther (''dsync: peer '' @ to @ '' transport is closed'')))"
    define s2 where "s2 = put_frame k ?f (put_transport to y s1)"
    have "driveSend (Suc 3) pick k s1 = driveSend 3 pick k s2"
      by (rule drive_step [where which = CaseInbox and l = Quiet]) (use y peer at in \<open>simp_all add: s2_def sendEnter_def\<close>)
    moreover have "driveSend (Suc 2) pick k s2 = Some (s2, Some (ErrOther (''dsync: peer '' @ to @ '' transport is closed'')))"
      by (rule drive_returned) (use at in \<open>simp add: s2_def\<close>)
    moreover have "transports s2 = transports s"
    proof (rule fmap_ext)
      show "fmlookup (transports s2) m = fmlookup (transports s) m" for m using y(1) at(3) by (auto simp: s2_def)
    qed
    ultimately show thesis using first that [of s2] by simp
  qed
qed

lemma memSend_step:
  assumes s: "net_ok s" "node_open s self"
  obtains u where "net_act (Send (Some self) (Some ctx) to (Some snap)) s = Some (Quiet, u)" "net_ok u"
    "u = s\<lparr>sends := sends s @ [Checked to snap ctx]\<rparr>"
proof -
  let ?u = "s\<lparr>sends := sends s @ [Checked to snap ctx]\<rparr>"
  have u: "net_act (Send (Some self) (Some ctx) to (Some snap)) s = Some (Quiet, ?u)"
    using s(2) by (auto simp: sendChecks_def node_open_def)
  then show thesis using net_act_step [OF s(1) u] by (intro that [of ?u]) simp_all
qed

lemma memSend_available:
  assumes s: "net_ok s" "ctx \<notin> set (cancelled s)" "peer_open self s to" "CloneSnapshot (Some snap) = Inr owned"
  shows "\<exists>t. memSend pick self ctx s to snap = Some (t, None) \<and> net_ok t \<and> ctx \<notin> set (cancelled t)
    \<and> queue (abs_net t) = (queue (abs_net s))(to := queue (abs_net s) to @ [owned])
    \<and> (\<forall>m. m \<noteq> to \<longrightarrow> (peer_open self s m \<longrightarrow> peer_open self t m) \<and> (peer_refuses self s m \<longrightarrow> peer_refuses self t m))"
proof -
  obtain y where y: "fmlookup (transports s) to = Some y" "\<not> mt_closed y" "length (mt_inbox y) < inbox_capacity"
    and self: "node_open s self" using s(3) by (auto simp: peer_open_def)
  have y': "\<not> mt_closing y" "\<not> mt_inboxClosed y" using net_okD(4) [OF s(1) y(1)] y(2) by (auto simp: transport_ok_def)
  obtain u where u: "net_act (Send (Some self) (Some ctx) to (Some snap)) s = Some (Quiet, u)" "net_ok u"
      "u = s\<lparr>sends := sends s @ [Checked to snap ctx]\<rparr>"
    by (rule memSend_step [OF s(1) self])
  obtain t where t: "driveSend 5 pick (length (sends s)) u = Some (t, None)"
    "transports t = fmupd to (y\<lparr>mt_inbox := mt_inbox y @ [owned]\<rparr>) (transports u)"
    by (rule drive_available [of "length (sends s)" u to snap ctx owned y pick]) (use u(3) s(2,4) y y' in simp_all)
  have "memSend pick self ctx s to snap = Some (t, None)" using u(1) t(1) by (simp add: memSend_def)
  moreover have "queue (abs_net t) = (queue (abs_net s))(to := queue (abs_net s) to @ [owned])"
    using y(1) t(2) u(3) by (auto simp: abs_net_def fun_eq_iff)
  moreover have "node_open t m \<longleftrightarrow> node_open s m" for m using y(1,2) t(2) u(3) by (auto simp: node_open_def)
  then have "\<forall>m. m \<noteq> to \<longrightarrow> (peer_open self s m \<longrightarrow> peer_open self t m) \<and> (peer_refuses self s m \<longrightarrow> peer_refuses self t m)"
    using t(2) u(3) by (auto simp: peer_open_def peer_refuses_def)
  ultimately show ?thesis using driveSend_ok [OF t(1) u(2)] s(2) u(3) by auto
qed

lemma memSend_refused:
  assumes s: "net_ok s" "ctx \<notin> set (cancelled s)" "peer_refuses self s to"
  shows "\<exists>t err. memSend pick self ctx s to snap = Some (t, Some err) \<and> net_ok t \<and> ctx \<notin> set (cancelled t)
    \<and> queue (abs_net t) = queue (abs_net s)
    \<and> (\<forall>m. m \<noteq> to \<longrightarrow> (peer_open self s m \<longrightarrow> peer_open self t m) \<and> (peer_refuses self s m \<longrightarrow> peer_refuses self t m))"
proof -
  have self: "node_open s self" and closed: "\<And>y. fmlookup (transports s) to = Some y \<Longrightarrow> mt_closed y"
    using s(3) by (auto simp: peer_refuses_def node_open_def)
  obtain u where u: "net_act (Send (Some self) (Some ctx) to (Some snap)) s = Some (Quiet, u)" "net_ok u"
      "u = s\<lparr>sends := sends s @ [Checked to snap ctx]\<rparr>"
    by (rule memSend_step [OF s(1) self])
  obtain t err where t: "driveSend 5 pick (length (sends s)) u = Some (t, Some err)" "transports t = transports u"
    by (rule drive_refused [of "length (sends s)" u to snap ctx pick]) (use u(3) closed in simp_all)
  have same: "transports t = transports s" using t(2) u(3) by simp
  then have "peer_open self t = peer_open self s" "peer_refuses self t = peer_refuses self s" "queue (abs_net t) = queue (abs_net s)"
    by (simp_all add: fun_eq_iff peer_open_def peer_refuses_def node_open_def abs_net_def)
  moreover have "memSend pick self ctx s to snap = Some (t, Some err)" using u(1) t(1) by (simp add: memSend_def)
  ultimately show ?thesis using driveSend_ok [OF t(1) u(2)] s(2) u(3) by auto
qed

interpretation mem: snapshot_transport net_ok "peer_open self" "peer_refuses self" "\<lambda>s. ctx \<in> set (cancelled s)"
  "\<lambda>s. queue (abs_net s)" "memSend pick self ctx"
proof unfold_locales
  fix s to snap owned
  assume "net_ok s" "ctx \<notin> set (cancelled s)"
  note ok = this
  show "\<exists>t. memSend pick self ctx s to snap = Some (t, None) \<and> net_ok t \<and> ctx \<notin> set (cancelled t)
      \<and> queue (abs_net t) = (queue (abs_net s))(to := queue (abs_net s) to @ [owned])
      \<and> (\<forall>m. m \<noteq> to \<longrightarrow> (peer_open self s m \<longrightarrow> peer_open self t m) \<and> (peer_refuses self s m \<longrightarrow> peer_refuses self t m))"
    if "peer_open self s to" "CloneSnapshot (Some snap) = Inr owned"
    using ok that by (rule memSend_available)
  show "\<exists>t err. memSend pick self ctx s to snap = Some (t, Some err) \<and> net_ok t \<and> ctx \<notin> set (cancelled t)
      \<and> queue (abs_net t) = queue (abs_net s)
      \<and> (\<forall>m. m \<noteq> to \<longrightarrow> (peer_open self s m \<longrightarrow> peer_open self t m) \<and> (peer_refuses self s m \<longrightarrow> peer_refuses self t m))"
    if "peer_refuses self s to"
    using ok that by (rule memSend_refused)
next
  fix s to
  show "peer_open self s to \<Longrightarrow> \<not> peer_refuses self s to" by (auto simp: peer_open_def peer_refuses_def node_open_def)
qed

section \<open>A joining node\<close>

lemma drain_nothing: "pendingEdges p = [] \<Longrightarrow> DrainPendingEdges p = Some (p, 0, [])"
  by (simp add: DrainPendingEdges_def)

lemma merge_own_snapshot:
  assumes "poset_ok p" "\<forall>i e. fmlookup (events p) i = Some e \<longrightarrow> exportable formatTime parseTime e"
    and "\<forall>i. lam p i \<le> lamportCounter p" and c: "co_poset c = Some NewPoset"
  obtains co q where
    "mergeReceivedSnapshot quote phrase parseTime (Some c) (Some (CreateSnapshot formatTime p nodeID)) = Some (Some co, None)"
    "co_poset co = Some q" "store_ok q" "stored q = stored p" "before q = before p"
    "IsCausallyEquivalent q = IsCausallyEquivalent p"
    "\<forall>i e. fmlookup (events q) i = Some e \<longrightarrow> (\<exists>d. fmlookup (events p) i = Some d \<and> transferred d e)"
proof -
  obtain q result where
    m: "MergeSnapshot parseTime NewPoset (Some (CreateSnapshot formatTime p nodeID)) = Some (q, Inr (result, None))"
      "receives p q" "store_ok q" "stored q = stored p" "before q = before p" "IsCausallyEquivalent q = IsCausallyEquivalent p"
    by (rule snapshot_received [OF assms(1-3)])
  have none: "pendingEdges q = []" using m(2) by (simp add: receives_def)
  have "mergeReceivedSnapshot quote phrase parseTime (Some c) (Some (CreateSnapshot formatTime p nodeID))
      = Some (Some (c\<lparr>co_poset := Some q\<rparr>), None)"
    using m(1) none by (simp add: mergeReceivedSnapshot_def c recordIssues_def drain_nothing Let_def)
  then show thesis using m(2-6) by (intro that [of "c\<lparr>co_poset := Some q\<rparr>" q]) (auto simp: receives_def)
qed

text \<open>C38: One push brings a joining node up to date.  In any reachable state of the in-memory network, with a
  context that is not done and the sender open, when each registered peer either is open and has room or is
  unknown or closed, the push of a coordinator, run without a call of another node in between, returns whatever
  \<open>select\<close> would choose.  It puts one snapshot into the inbox of every open peer and of no other node, and it
  reports and retains one issue for each of the other peers, in order.  A joining coordinator that merges the
  snapshot into an empty poset reports no issue and holds exactly the sender's occurrences, classes and strict
  order, each event with its contents.  The sender's poset must be well-formed, its texts and values must have
  a canonical form and its times survive formatting (\<open>exportable\<close>), and no Lamport position may exceed its
  counter, which propagation does not raise.\<close>

theorem joining_node_converges:
  assumes net: "net_run as NewMemNetwork = Some (ls, s)" and ctx: "ctx \<notin> set (cancelled s)"
    and sender: "co_poset a = Some p" "co_transport a" "distinct (co_peers a)"
    and peers: "\<forall>m \<in> set (co_peers a). peer_open (co_nodeID a) s m \<or> peer_refuses (co_nodeID a) s m"
    and p: "poset_ok p" "\<forall>i e. fmlookup (events p) i = Some e \<longrightarrow> exportable formatTime parseTime e"
      "\<forall>i. lam p i \<le> lamportCounter p"
    and joining: "co_poset c = Some NewPoset"
  shows "\<exists>t a' err snap co q.
    pushOnce quote phrase formatTime (memSend pick (co_nodeID a) ctx) (\<lambda>s. ctx \<in> set (cancelled s)) True (Some a) s = Some (t, Some a', err)
    \<and> queue (abs_net t) = (\<lambda>m. if m \<in> set (co_peers a) \<and> peer_open (co_nodeID a) s m then queue (abs_net s) m @ [snap]
          else queue (abs_net s) m)
    \<and> map ci_peer (case err of None \<Rightarrow> [] | Some issues \<Rightarrow> issues) = filter (peer_refuses (co_nodeID a) s) (sort (co_peers a))
    \<and> (\<forall>issues. err = Some issues \<longrightarrow> (\<forall>issue \<in> set issues. map_has (co_issues a') (issueError quote phrase issue)))
    \<and> mergeReceivedSnapshot quote phrase parseTime (Some c) (Some snap) = Some (Some co, None)
    \<and> co_poset co = Some q \<and> store_ok q \<and> stored q = stored p \<and> before q = before p
    \<and> IsCausallyEquivalent q = IsCausallyEquivalent p
    \<and> (\<forall>i e. fmlookup (events q) i = Some e \<longrightarrow> (\<exists>d. fmlookup (events p) i = Some d \<and> transferred d e))"
proof -
  have "net_ok s" using net_run_refines [OF NewMemNetwork_ok net] by simp
  note push = mem.pushOnce_reaches [OF this ctx sender peers clone_own_snapshot [OF p(1,2), of "co_nodeID a"],
      where quote = quote and phrase = phrase and pick = pick]
  obtain co q where
    "mergeReceivedSnapshot quote phrase parseTime (Some c) (Some (CreateSnapshot formatTime p (co_nodeID a))) = Some (Some co, None)"
    "co_poset co = Some q" "store_ok q" "stored q = stored p" "before q = before p"
    "IsCausallyEquivalent q = IsCausallyEquivalent p"
    "\<forall>i e. fmlookup (events q) i = Some e \<longrightarrow> (\<exists>d. fmlookup (events p) i = Some d \<and> transferred d e)"
    by (rule merge_own_snapshot [OF p joining])
  with push show ?thesis by blast
qed

text \<open>One peer is open and one is unknown.\<close>

definition sending_coordinator :: coordinator where
  "sending_coordinator = (NewCoordinator ''a'' (Some equated_events) True None)\<lparr>co_peers := [''b'', ''c'']\<rparr>"

definition open_network :: mem_network where
  "open_network = (case net_run [Open ''a'', Open ''b''] NewMemNetwork of Some (ls, s) \<Rightarrow> s | None \<Rightarrow> NewMemNetwork)"

theorem joining_node_converges_witness:
  "\<exists>t a' issues snap co q.
    pushOnce (\<lambda>s. s) (\<lambda>_. '''') (\<lambda>_. ''noon'') (memSend (\<lambda>_. 7) ''a'' 0) (\<lambda>s. 0 \<in> set (cancelled s)) True
        (Some sending_coordinator) open_network = Some (t, Some a', Some issues)
    \<and> map ci_peer issues = [''c''] \<and> queue (abs_net t) ''b'' = [snap]
    \<and> mergeReceivedSnapshot (\<lambda>s. s) (\<lambda>_. '''') (\<lambda>_. Some 0) (Some sample_coordinator) (Some snap) = Some (Some co, None)
    \<and> co_poset co = Some q \<and> IsCausallyEquivalent q ''b'' ''c''"
proof -
  have s: "open_network = NewMemNetwork\<lparr>transports := fmupd ''b'' NewMemTransport (fmupd ''a'' NewMemTransport fmempty)\<rparr>"
    and run: "net_run [Open ''a'', Open ''b''] NewMemNetwork = Some ([Quiet, Quiet], open_network)"
    by (simp_all add: open_network_def Transport_def NewMemNetwork_def)
  have a: "co_poset sending_coordinator = Some equated_events" "co_transport sending_coordinator"
    "co_peers sending_coordinator = [''b'', ''c'']" "co_nodeID sending_coordinator = ''a''"
    by (simp_all add: sending_coordinator_def NewCoordinator_def)
  have b: "peer_open ''a'' open_network ''b''" "\<not> peer_refuses ''a'' open_network ''b''" "peer_refuses ''a'' open_network ''c''"
    by (simp_all add: s peer_open_def peer_refuses_def node_open_def NewMemTransport_def inbox_capacity_def NewMemNetwork_def)
  have pre: "0 \<notin> set (cancelled open_network)" "distinct (co_peers sending_coordinator)"
    "\<forall>m \<in> set (co_peers sending_coordinator). peer_open (co_nodeID sending_coordinator) open_network m
        \<or> peer_refuses (co_nodeID sending_coordinator) open_network m"
    using b by (simp_all add: a s NewMemNetwork_def)
  have c: "co_poset sample_coordinator = Some NewPoset" by (simp add: sample_coordinator_def NewCoordinator_def)
  have "queue (abs_net open_network) ''b'' = []" by (simp add: s abs_net_def NewMemTransport_def)
  moreover have "IsCausallyEquivalent equated_events ''b'' ''c''" by code_simp
  moreover have "sort [''b'', ''c''] = [''b'', ''c'']" by code_simp
  ultimately obtain t a' err snap co q where
    "pushOnce (\<lambda>s. s) (\<lambda>_. '''') (\<lambda>_. ''noon'') (memSend (\<lambda>_. 7) ''a'' 0) (\<lambda>s. 0 \<in> set (cancelled s)) True
        (Some sending_coordinator) open_network = Some (t, Some a', err)"
    "queue (abs_net t) ''b'' = [snap]" "map ci_peer (case err of None \<Rightarrow> [] | Some issues \<Rightarrow> issues) = [''c'']"
    "mergeReceivedSnapshot (\<lambda>s. s) (\<lambda>_. '''') (\<lambda>_. Some 0) (Some sample_coordinator) (Some snap) = Some (Some co, None)"
    "co_poset co = Some q" "IsCausallyEquivalent q ''b'' ''c''"
    using joining_node_converges [OF run pre(1) a(1,2) pre(2,3) equated_events_ok sample_exportable c,
        where quote = "\<lambda>s. s" and phrase = "\<lambda>_. ''''" and pick = "\<lambda>_. 7"] b
    by (auto simp: a)
  then show ?thesis by (cases err) auto
qed

end
