(* ===== verification/Augmented_Computation.thy ===== *)
theory Augmented_Computation
  imports Kahn Graph_Search Snapshot_Merge Canonical_Value
begin

text \<open>
  The graph of event occurrences and Ref operations of \<open>arch/consistent_cut.go\<close>: registration, validation
  with its topological order, and the searches and closures over the validated graph.  Go iterates the maps in
  no fixed order; the model iterates them in key order, on which no result depends.  Nil receivers are not
  modelled.
\<close>

section \<open>State\<close>

record state_operation =
  so_id :: string
  so_componentID :: string
  so_name :: string
  so_sequence :: u64
  so_kind :: string
  so_version :: u64
  so_value :: canonical_value
  so_predecessor :: string
  so_valueSource :: string
  so_owner :: string
  so_causes :: "string list"
  so_dependencies :: "string list"
  so_successors :: "string list"

datatype occurrence_kind = EventOccurrence | RefOperation

record occurrence =
  oc_id :: string
  oc_kind :: occurrence_kind
  oc_initial :: bool
  oc_operation :: "state_operation option"

record augmented =
  au_nodes :: "(string, occurrence) fmap"
  au_edges :: "(string, string fset) fmap"

record validated =
  va_nodes :: "(string, occurrence) fmap"
  va_predecessors :: "(string, string list) fmap"
  va_successors :: "(string, string list) fmap"
  va_topological :: "string list"

definition ErrInvalidAugmentedComputation :: go_error where
  "ErrInvalidAugmentedComputation = ErrOther ''invalid augmented Rapide computation''"

definition NewAugmentedComputation :: augmented where
  "NewAugmentedComputation = \<lparr>au_nodes = fmempty, au_edges = fmempty\<rparr>"

section \<open>Registration\<close>

definition malformedOperation :: "occurrence \<Rightarrow> bool" where
  "malformedOperation oc = (case oc_operation oc of
      None \<Rightarrow> True
    | Some op \<Rightarrow> so_id op \<noteq> oc_id oc \<or> so_componentID op = '''' \<or> so_name op = '''' \<or> so_owner op = ''''
        \<or> so_kind op \<notin> {''create'', ''dereference'', ''assign''}
        \<or> (so_kind op = ''create'' \<and> so_version op \<noteq> 0) \<or> (so_kind op \<noteq> ''create'' \<and> oc_initial oc))"

definition addOccurrence :: "augmented \<Rightarrow> occurrence \<Rightarrow> augmented \<times> go_error option" where
  "addOccurrence c oc =
     (if oc_id oc = '''' \<or> CHR 0x00 \<in> set (oc_id oc) then (c, Some ErrInvalidAugmentedComputation)
      else if map_has (au_nodes c) (oc_id oc) then (c, Some ErrInvalidAugmentedComputation)
      else if oc_kind oc = RefOperation \<and> malformedOperation oc then (c, Some ErrInvalidAugmentedComputation)
      else (c\<lparr>au_nodes := fmupd (oc_id oc) oc (au_nodes c)\<rparr>, None))"

definition AddEventOccurrence :: "augmented \<Rightarrow> string \<Rightarrow> augmented \<times> go_error option" where
  "AddEventOccurrence c i =
     addOccurrence c \<lparr>oc_id = i, oc_kind = EventOccurrence, oc_initial = False, oc_operation = None\<rparr>"

definition AddRefOperation :: "augmented \<Rightarrow> state_operation \<Rightarrow> bool \<Rightarrow> augmented \<times> go_error option" where
  "AddRefOperation c op initial =
     addOccurrence c \<lparr>oc_id = so_id op, oc_kind = RefOperation, oc_initial = initial, oc_operation = Some op\<rparr>"

definition registered :: "(string, occurrence) fmap \<Rightarrow> string \<Rightarrow> bool" where
  \<comment> \<open>the ID of the entry is not empty; a missing entry has the zero value\<close>
  "registered entries i = (case fmlookup entries i of None \<Rightarrow> False | Some oc \<Rightarrow> oc_id oc \<noteq> '''')"

definition AddCausalDependency :: "augmented \<Rightarrow> string \<Rightarrow> string \<Rightarrow> augmented \<times> go_error option" where
  "AddCausalDependency c prior later =
     (if \<not> registered (au_nodes c) prior \<or> \<not> registered (au_nodes c) later then (c, Some ErrInvalidAugmentedComputation)
      else if prior = later then (c, Some ErrInvalidAugmentedComputation)
      else (c\<lparr>au_edges := fmupd prior (finsert later (map_get {||} (au_edges c) prior)) (au_edges c)\<rparr>, None))"

section \<open>Validation\<close>

fun writeCanonical :: "string list \<Rightarrow> string list \<Rightarrow> string list" where
  "writeCanonical written [] = written"
| "writeCanonical written (value # rest) =
     (if value = '''' \<or> written \<noteq> [] \<and> last written = value then writeCanonical written rest
      else writeCanonical (written @ [value]) rest)"

definition canonicalStrings :: "string list \<Rightarrow> string list" where
  "canonicalStrings values = writeCanonical [] (sort values)"

record edge_maps =
  em_keys :: "string fset"
  em_predecessors :: "(string, string list) fmap"
  em_successors :: "(string, string list) fmap"

fun addEdges :: "(string, occurrence) fmap \<Rightarrow> (string \<times> string) list \<Rightarrow> edge_maps \<Rightarrow> go_error + edge_maps" where
  "addEdges entries [] m = Inr m"
| "addEdges entries ((prior, later) # rest) m =
     (if \<not> registered entries prior \<or> \<not> registered entries later \<or> prior = later then Inl ErrInvalidAugmentedComputation
      else let key = strings_join NUL [prior, later]
           in if key |\<in>| em_keys m then addEdges entries rest m
              else addEdges entries rest \<lparr>em_keys = finsert key (em_keys m),
                em_predecessors = fmupd later (map_get [] (em_predecessors m) later @ [prior]) (em_predecessors m),
                em_successors = fmupd prior (map_get [] (em_successors m) prior @ [later]) (em_successors m)\<rparr>)"

definition operationEdges :: "state_operation \<Rightarrow> (string \<times> string) list" where
  "operationEdges op =
     map (\<lambda>prior. (prior, so_id op)) (filter (\<lambda>prior. prior \<noteq> '''')
       (so_causes op @ so_dependencies op @ [so_predecessor op, so_valueSource op]))
     @ map (Pair (so_id op)) (so_successors op)"

definition recordedEdges :: "augmented \<Rightarrow> (string \<times> string) list" where
  "recordedEdges c =
     concat (map (\<lambda>prior. map (Pair prior) (fset_ids (map_get {||} (au_edges c) prior))) (map_keys (au_edges c)))
     @ concat (map (\<lambda>i. case fmlookup (au_nodes c) i of None \<Rightarrow> [] | Some oc \<Rightarrow>
         (case oc_operation oc of None \<Rightarrow> [] | Some op \<Rightarrow> operationEdges op)) (map_keys (au_nodes c)))"

definition canonicalNeighbours :: "string list \<Rightarrow> (string, string list) fmap \<Rightarrow> (string, string list) fmap" where
  "canonicalNeighbours ids m = fold (\<lambda>i m. fmupd i (canonicalStrings (map_get [] m i)) m) ids m"

definition validate :: "augmented \<Rightarrow> go_error + validated" where
  "validate c =
     (if map_keys (au_nodes c) = [] then Inl ErrInvalidAugmentedComputation
      else case addEdges (au_nodes c) (recordedEdges c)
          \<lparr>em_keys = {||}, em_predecessors = fmempty, em_successors = fmempty\<rparr> of
        Inl err \<Rightarrow> Inl err
      | Inr m \<Rightarrow>
          let ids = map_keys (au_nodes c);
              predecessors = canonicalNeighbours ids (em_predecessors m);
              successors = canonicalNeighbours ids (em_successors m);
              topological = kahnOrder (map_get [] successors) (map_get [] predecessors) ids
          in if length topological \<noteq> length ids then Inl ErrInvalidAugmentedComputation
             else Inr \<lparr>va_nodes = au_nodes c, va_predecessors = predecessors, va_successors = successors,
               va_topological = topological\<rparr>)"

section \<open>Searches over the validated graph\<close>

definition neighbour_univ :: "(string, string list) fmap \<Rightarrow> string set" where
  "neighbour_univ m = (\<Union>x \<in> fset (fmdom m). set (map_get [] m x))"

lemma neighbour_univ: "finite (neighbour_univ m)" "set (map_get [] m x) \<subseteq> neighbour_univ m"
proof -
  show "finite (neighbour_univ m)" by (simp add: neighbour_univ_def)
  have "x |\<notin>| fmdom m \<Longrightarrow> map_get [] m x = []" by (simp add: map_get_def fmdom_notD)
  then show "set (map_get [] m x) \<subseteq> neighbour_univ m"
    by (cases "x |\<in>| fmdom m") (auto simp: neighbour_univ_def)
qed

function reachSearch :: "(string, string list) fmap \<Rightarrow> string \<Rightarrow> string fset \<Rightarrow> string list \<Rightarrow> bool" where
  "reachSearch m later seen [] = False"
| "reachSearch m later seen (current # queue) =
     (if later \<in> set (map_get [] m current) then True
      else case pushUnseen (map_get [] m current) (seen, queue) of (seen', queue') \<Rightarrow> reachSearch m later seen' queue')"
  by pat_completeness auto
termination
proof (relation "inv_image (less_than <*lex*> less_than)
    (\<lambda>(m, later, seen, queue). (card (neighbour_univ m - fset seen), length queue))")
  show "wf (inv_image (less_than <*lex*> less_than) (\<lambda>(m, later :: string, seen, queue :: string list).
      (card (neighbour_univ m - fset seen), length queue)))"
    by (intro wf_inv_image wf_lex_prod wf_less_than)
next
  fix m :: "(string, string list) fmap" and later :: string and seen and current :: string and queue seen' queue'
  assume "(seen', queue') = pushUnseen (map_get [] m current) (seen, queue)"
  note spec = pushUnseen_spec [OF this [symmetric]]
  show "((m, later, seen', queue'), m, later, seen, current # queue)
      \<in> inv_image (less_than <*lex*> less_than) (\<lambda>(m, later, seen, queue). (card (neighbour_univ m - fset seen), length queue))"
  proof (cases "seen' = seen")
    case True
    with spec show ?thesis by auto
  next
    case False
    then have "neighbour_univ m - fset seen' \<subset> neighbour_univ m - fset seen"
      using spec neighbour_univ(2) [of m current] by (auto simp: fset_inject [symmetric])
    then have "card (neighbour_univ m - fset seen') < card (neighbour_univ m - fset seen)"
      by (rule psubset_card_mono [rotated]) (simp add: neighbour_univ(1))
    then show ?thesis by simp
  qed
qed

definition reachable :: "validated \<Rightarrow> string \<Rightarrow> string \<Rightarrow> bool" where
  "reachable v prior later =
     (if prior = later then True else reachSearch (va_successors v) later {|prior|} [prior])"

text \<open>The recursive closures, with the calls still to be made as a list: a call for a node that is already in
  the result returns at once, any other adds the node and calls itself for the neighbours first.\<close>

function closureCalls :: "(string, string list) fmap \<Rightarrow> string list \<Rightarrow> string fset \<Rightarrow> string fset" where
  "closureCalls m [] result = result"
| "closureCalls m (i # calls) result =
     (if i |\<in>| result then closureCalls m calls result
      else closureCalls m (map_get [] m i @ calls) (finsert i result))"
  by pat_completeness auto
termination
proof (relation "inv_image (less_than <*lex*> less_than)
    (\<lambda>(m, calls, result). (card ((neighbour_univ m \<union> set calls) - fset result), length calls))")
  show "wf (inv_image (less_than <*lex*> less_than) (\<lambda>(m, calls, result).
      (card ((neighbour_univ m \<union> set calls) - fset result), length calls)))"
    by (intro wf_inv_image wf_lex_prod wf_less_than)
next
  fix m :: "(string, string list) fmap" and i :: string and calls and result :: "string fset"
  assume "i |\<in>| result"
  then have "card ((neighbour_univ m \<union> set calls) - fset result) \<le> card ((neighbour_univ m \<union> set (i # calls)) - fset result)"
    by (intro card_mono) (auto simp: neighbour_univ(1))
  then show "((m, calls, result), m, i # calls, result) \<in> inv_image (less_than <*lex*> less_than)
      (\<lambda>(m, calls, result). (card ((neighbour_univ m \<union> set calls) - fset result), length calls))"
    by auto
next
  fix m :: "(string, string list) fmap" and i :: string and calls and result :: "string fset"
  assume i: "i |\<notin>| result"
  have "(neighbour_univ m \<union> set (map_get [] m i @ calls)) - fset (finsert i result)
      \<subset> (neighbour_univ m \<union> set (i # calls)) - fset result"
    using i neighbour_univ(2) [of m i] by auto
  then have "card ((neighbour_univ m \<union> set (map_get [] m i @ calls)) - fset (finsert i result))
      < card ((neighbour_univ m \<union> set (i # calls)) - fset result)"
    by (rule psubset_card_mono [rotated]) (simp add: neighbour_univ(1))
  then show "((m, map_get [] m i @ calls, finsert i result), m, i # calls, result) \<in> inv_image (less_than <*lex*> less_than)
      (\<lambda>(m, calls, result). (card ((neighbour_univ m \<union> set calls) - fset result), length calls))"
    by simp
qed

definition addPredecessorClosure :: "validated \<Rightarrow> string \<Rightarrow> string fset \<Rightarrow> string fset" where
  "addPredecessorClosure v i result = closureCalls (va_predecessors v) [i] result"

definition addSuccessorClosure :: "validated \<Rightarrow> string \<Rightarrow> string fset \<Rightarrow> string fset" where
  "addSuccessorClosure v i result = closureCalls (va_successors v) [i] result"

section \<open>What they compute\<close>

definition nbr_rel :: "(string, string list) fmap \<Rightarrow> (string \<times> string) set" where
  "nbr_rel m = {(a, b). b \<in> set (map_get [] m a)}"

lemma closureCalls_spec:
  "(\<And>a. a |\<in>| result \<Longrightarrow> set (map_get [] m a) \<subseteq> fset result \<union> set calls) \<Longrightarrow>
     fset (closureCalls m calls result) = (nbr_rel m)\<^sup>* `` (fset result \<union> set calls)"
proof (induction m calls result rule: closureCalls.induct)
  case (1 m result)
  then have "nbr_rel m `` fset result \<subseteq> fset result" by (auto simp: nbr_rel_def)
  then show ?case by (simp add: Image_closed_trancl)
next
  case (2 m i calls result)
  show ?case
  proof (cases "i |\<in>| result")
    case True
    then have "fset result \<union> set (i # calls) = fset result \<union> set calls" by auto
    moreover have "fset (closureCalls m calls result) = (nbr_rel m)\<^sup>* `` (fset result \<union> set calls)"
      by (rule "2.IH"(1) [OF True]) (use "2.prems" True in auto)
    ultimately show ?thesis using True by simp
  next
    case False
    have "fset (closureCalls m (map_get [] m i @ calls) (finsert i result))
        = (nbr_rel m)\<^sup>* `` (fset (finsert i result) \<union> set (map_get [] m i @ calls))"
      by (rule "2.IH"(2) [OF False]) (use "2.prems" in auto)
    moreover have "(nbr_rel m)\<^sup>* `` set (map_get [] m i) \<subseteq> (nbr_rel m)\<^sup>* `` {i}"
      by (auto simp: nbr_rel_def intro: converse_rtrancl_into_rtrancl)
    ultimately show ?thesis using False by auto
  qed
qed

lemma reachSearch_spec:
  "set queue \<subseteq> fset seen \<Longrightarrow>
   (\<And>a. a |\<in>| seen \<Longrightarrow> a \<notin> set queue \<Longrightarrow> set (map_get [] m a) \<subseteq> fset seen \<and> later \<notin> set (map_get [] m a)) \<Longrightarrow>
     reachSearch m later seen queue \<longleftrightarrow> (\<exists>x \<in> fset seen. (x, later) \<in> (nbr_rel m)\<^sup>+)"
proof (induction m later seen queue rule: reachSearch.induct)
  case (1 m later seen)
  have "(x, later) \<notin> (nbr_rel m)\<^sup>+" if "x |\<in>| seen" for x
  proof
    assume "(x, later) \<in> (nbr_rel m)\<^sup>+"
    then obtain z where z: "(x, z) \<in> (nbr_rel m)\<^sup>*" "later \<in> set (map_get [] m z)"
      by (auto simp: nbr_rel_def dest: tranclD2)
    have "nbr_rel m `` fset seen \<subseteq> fset seen" using 1 by (auto simp: nbr_rel_def)
    then have "(nbr_rel m)\<^sup>* `` fset seen = fset seen" by (rule Image_closed_trancl)
    with z that have "z |\<in>| seen" by blast
    with z 1 show False by auto
  qed
  then show ?case by auto
next
  case (2 m later seen current queue)
  have mem: "current |\<in>| seen" using "2.prems"(1) by simp
  show ?case
  proof (cases "later \<in> set (map_get [] m current)")
    case True
    then have "(current, later) \<in> (nbr_rel m)\<^sup>+" by (auto simp: nbr_rel_def)
    with True mem show ?thesis by auto
  next
    case False
    obtain s q where push: "pushUnseen (map_get [] m current) (seen, queue) = (s, q)" by fastforce
    note spec = pushUnseen_spec [OF push]
    have "reachSearch m later s q \<longleftrightarrow> (\<exists>x \<in> fset s. (x, later) \<in> (nbr_rel m)\<^sup>+)"
    proof (rule "2.IH" [OF False push [symmetric]])
      show "set q \<subseteq> fset s" using spec "2.prems"(1) by auto
      show "set (map_get [] m a) \<subseteq> fset s \<and> later \<notin> set (map_get [] m a)" if "a |\<in>| s" "a \<notin> set q" for a
        using that spec "2.prems"(2) [of a] False by (cases "a = current") auto
    qed
    moreover have "(\<exists>x \<in> fset s. (x, later) \<in> (nbr_rel m)\<^sup>+) \<longleftrightarrow> (\<exists>x \<in> fset seen. (x, later) \<in> (nbr_rel m)\<^sup>+)"
      using spec mem by (auto simp: nbr_rel_def intro: trancl_into_trancl2)
    ultimately show ?thesis using False push by simp
  qed
qed

section \<open>Canonical lists\<close>

lemma writeCanonical_spec:
  "sorted xs \<Longrightarrow> sorted written \<Longrightarrow> distinct written \<Longrightarrow> \<forall>w \<in> set written. \<forall>x \<in> set xs. w \<le> x \<Longrightarrow>
     set (writeCanonical written xs) = set written \<union> (set xs - {''''})
     \<and> distinct (writeCanonical written xs) \<and> sorted (writeCanonical written xs)"
proof (induction written xs rule: writeCanonical.induct)
  case (2 written x rest)
  show ?case
  proof (cases "x = '''' \<or> written \<noteq> [] \<and> last written = x")
    case True
    then have "x = '''' \<or> x \<in> set written" using last_in_set by blast
    with 2 True show ?thesis by auto
  next
    case False
    have "x \<notin> set written"
    proof
      assume x: "x \<in> set written"
      then have "written \<noteq> []" by auto
      then have "x \<le> last written" "last written \<le> x"
        using x "2.prems"(2,4) last_in_set [of written]
        by (auto simp: sorted_iff_nth_mono in_set_conv_nth last_conv_nth)
      then show False using False \<open>written \<noteq> []\<close> by auto
    qed
    then show ?thesis using 2 False by (auto simp: sorted_append)
  qed
qed simp

lemma canonicalStrings_spec [simp]:
  "set (canonicalStrings xs) = set xs - {''''}" "distinct (canonicalStrings xs)" "sorted (canonicalStrings xs)"
  using writeCanonical_spec [of "sort xs" "[]"] by (simp_all add: canonicalStrings_def)

lemma canonicalNeighbours_get:
  "distinct ids \<Longrightarrow> map_get [] (canonicalNeighbours ids m) i =
     (if i \<in> set ids then canonicalStrings (map_get [] m i) else map_get [] m i)"
proof (induction ids arbitrary: m)
  case (Cons j ids)
  then show ?case by (auto simp: canonicalNeighbours_def)
qed (simp add: canonicalNeighbours_def)

section \<open>Well-formed computations\<close>

definition computation_ok :: "augmented \<Rightarrow> bool" where
  "computation_ok c \<longleftrightarrow> (\<forall>i oc. fmlookup (au_nodes c) i = Some oc \<longrightarrow> oc_id oc = i \<and> i \<noteq> '''' \<and> CHR 0x00 \<notin> set i
     \<and> (\<forall>op. oc_operation oc = Some op \<longrightarrow> oc_kind oc = RefOperation \<and> so_id op = i))"

lemma NewAugmentedComputation_ok: "computation_ok NewAugmentedComputation"
  by (simp add: computation_ok_def NewAugmentedComputation_def)

lemma AddEventOccurrence_ok: "computation_ok c \<Longrightarrow> computation_ok (fst (AddEventOccurrence c i))"
  by (auto simp: computation_ok_def AddEventOccurrence_def addOccurrence_def)

lemma AddRefOperation_ok: "computation_ok c \<Longrightarrow> computation_ok (fst (AddRefOperation c op initial))"
  by (auto simp: computation_ok_def AddRefOperation_def addOccurrence_def malformedOperation_def)

lemma AddCausalDependency_ok: "computation_ok c \<Longrightarrow> computation_ok (fst (AddCausalDependency c i j))"
  by (simp add: computation_ok_def AddCausalDependency_def)

lemma registered_iff: "computation_ok c \<Longrightarrow> registered (au_nodes c) i \<longleftrightarrow> map_has (au_nodes c) i"
  by (auto simp: computation_ok_def registered_def map_has_iff split: option.splits)

lemma has_nul_free: "computation_ok c \<Longrightarrow> map_has (au_nodes c) i \<Longrightarrow> i \<noteq> '''' \<and> CHR 0x00 \<notin> set i"
  by (auto simp: computation_ok_def map_has_iff)

text \<open>The edges entered so far, seen from both sides.\<close>

definition entered :: "(string \<times> string) set \<Rightarrow> edge_maps \<Rightarrow> bool" where
  "entered E m \<longleftrightarrow> fset (em_keys m) = (\<lambda>(a, b). strings_join NUL [a, b]) ` E
     \<and> (\<forall>a b. a \<in> set (map_get [] (em_predecessors m) b) \<longleftrightarrow> (a, b) \<in> E)
     \<and> (\<forall>a b. b \<in> set (map_get [] (em_successors m) a) \<longleftrightarrow> (a, b) \<in> E)"

lemma join_pair_inj:
  "CHR 0x00 \<notin> set a \<Longrightarrow> CHR 0x00 \<notin> set b \<Longrightarrow> CHR 0x00 \<notin> set c \<Longrightarrow> CHR 0x00 \<notin> set d \<Longrightarrow>
     strings_join NUL [a, b] = strings_join NUL [c, d] \<Longrightarrow> (a, b) = (c, d)"
  using strings_join_inj [of "[a, b]" "[c, d]"] by (simp add: nul_free_def)

lemma addEdges_spec:
  assumes c: "computation_ok c"
  shows "addEdges (au_nodes c) es m = Inr m' \<Longrightarrow> entered E m \<Longrightarrow>
     \<forall>(a, b) \<in> E. map_has (au_nodes c) a \<and> map_has (au_nodes c) b \<and> a \<noteq> b \<Longrightarrow>
     entered (E \<union> set es) m' \<and> (\<forall>(a, b) \<in> E \<union> set es. map_has (au_nodes c) a \<and> map_has (au_nodes c) b \<and> a \<noteq> b)"
proof (induction es arbitrary: m E)
  case (Cons e es)
  obtain a b where e: "e = (a, b)" by (cases e)
  have ab: "map_has (au_nodes c) a" "map_has (au_nodes c) b" "a \<noteq> b"
    using Cons.prems(1) by (auto simp: e registered_iff [OF c] split: if_splits)
  let ?key = "strings_join NUL [a, b]"
  have key: "?key |\<in>| em_keys m \<longleftrightarrow> (a, b) \<in> E"
  proof -
    have "(x, y) = (a, b)" if "(x, y) \<in> E" "strings_join NUL [x, y] = ?key" for x y
    proof (rule join_pair_inj [OF _ _ _ _ that(2)])
      show "CHR 0x00 \<notin> set x" "CHR 0x00 \<notin> set y" using that(1) Cons.prems(3) has_nul_free [OF c] by blast+
      show "CHR 0x00 \<notin> set a" "CHR 0x00 \<notin> set b" using ab has_nul_free [OF c] by blast+
    qed
    moreover have "?key |\<in>| em_keys m \<longleftrightarrow> (\<exists>x y. (x, y) \<in> E \<and> strings_join NUL [x, y] = ?key)"
    proof -
      have "fset (em_keys m) = (\<lambda>(x, y). strings_join NUL [x, y]) ` E" using Cons.prems(2) by (simp add: entered_def)
      then have "?key |\<in>| em_keys m \<longleftrightarrow> (\<exists>e \<in> E. ?key = (\<lambda>(x, y). strings_join NUL [x, y]) e)" by (simp only: image_iff)
      then show ?thesis by (metis (no_types, lifting) case_prod_conv surj_pair)
    qed
    ultimately show ?thesis by blast
  qed
  have ins: "\<forall>(x, y) \<in> insert (a, b) E. map_has (au_nodes c) x \<and> map_has (au_nodes c) y \<and> x \<noteq> y"
    using ab Cons.prems(3) by auto
  show ?case
  proof (cases "?key |\<in>| em_keys m")
    case True
    then have "addEdges (au_nodes c) es m = Inr m'" "insert (a, b) E = E"
      using Cons.prems(1) ab key by (auto simp: e registered_iff [OF c])
    moreover from this(2) have "E \<union> set (e # es) = E \<union> set es" by (auto simp: e)
    ultimately show ?thesis using Cons.IH [OF _ Cons.prems(2,3)] by simp
  next
    case False
    define n where "n = \<lparr>em_keys = finsert ?key (em_keys m),
      em_predecessors = fmupd b (map_get [] (em_predecessors m) b @ [a]) (em_predecessors m),
      em_successors = fmupd a (map_get [] (em_successors m) a @ [b]) (em_successors m)\<rparr>"
    have run: "addEdges (au_nodes c) es n = Inr m'"
      using Cons.prems(1) ab False by (simp add: e registered_iff [OF c] Let_def n_def)
    have "entered (insert (a, b) E) n"
      unfolding entered_def
    proof (intro conjI allI)
      show "fset (em_keys n) = (\<lambda>(a, b). strings_join NUL [a, b]) ` insert (a, b) E"
        using Cons.prems(2) by (simp add: entered_def n_def)
      show "x \<in> set (map_get [] (em_predecessors n) y) \<longleftrightarrow> (x, y) \<in> insert (a, b) E"
        "y \<in> set (map_get [] (em_successors n) x) \<longleftrightarrow> (x, y) \<in> insert (a, b) E" for x y
        using Cons.prems(2) by (auto simp: entered_def n_def)
    qed
    then show ?thesis using Cons.IH [OF run _ ins] by (simp add: e)
  qed
qed auto

section \<open>Validated computations\<close>

definition depends :: "validated \<Rightarrow> (string \<times> string) set" where
  \<comment> \<open>pairs of an occurrence and one that depends on it directly\<close>
  "depends v = {(a, b). a \<in> set (map_get [] (va_predecessors v) b)}"

definition validated_ok :: "validated \<Rightarrow> bool" where
  "validated_ok v \<longleftrightarrow> set (va_topological v) = fset (fmdom (va_nodes v)) \<and> distinct (va_topological v)
     \<and> topo_sorted (map_get [] (va_predecessors v)) {} (va_topological v) \<and> acyclic (depends v)
     \<and> (\<forall>a b. b \<in> set (map_get [] (va_successors v) a) \<longleftrightarrow> (a, b) \<in> depends v)
     \<and> (\<forall>a b. (a, b) \<in> depends v \<longrightarrow> map_has (va_nodes v) a \<and> map_has (va_nodes v) b)
     \<and> (\<forall>i. map_has (va_nodes v) i \<longrightarrow> i \<noteq> '''' \<and> CHR 0x00 \<notin> set i)"

lemma validate_ok:
  assumes c: "computation_ok c" and v: "validate c = Inr v"
  shows "validated_ok v" "va_nodes v = au_nodes c" "depends v = set (recordedEdges c)"
proof -
  let ?ids = "map_keys (au_nodes c)"
  obtain m where m: "addEdges (au_nodes c) (recordedEdges c)
      \<lparr>em_keys = {||}, em_predecessors = fmempty, em_successors = fmempty\<rparr> = Inr m"
    using v by (auto simp: validate_def split: if_splits sum.splits)
  define preds where "preds = canonicalNeighbours ?ids (em_predecessors m)"
  define succs where "succs = canonicalNeighbours ?ids (em_successors m)"
  have v': "v = \<lparr>va_nodes = au_nodes c, va_predecessors = preds, va_successors = succs,
      va_topological = kahnOrder (map_get [] succs) (map_get [] preds) ?ids\<rparr>"
    and len: "length (kahnOrder (map_get [] succs) (map_get [] preds) ?ids) = length ?ids"
    using v m by (auto simp: validate_def Let_def preds_def succs_def split: if_splits)
  have ent: "entered (set (recordedEdges c)) m"
    "\<forall>(a, b) \<in> set (recordedEdges c). map_has (au_nodes c) a \<and> map_has (au_nodes c) b \<and> a \<noteq> b"
    using addEdges_spec [OF c m, of "{}"] by (simp_all add: entered_def)
  have raw: "\<forall>a b. a \<in> set (map_get [] (em_predecessors m) b) \<longleftrightarrow> (a, b) \<in> set (recordedEdges c)"
    "\<forall>a b. b \<in> set (map_get [] (em_successors m) a) \<longleftrightarrow> (a, b) \<in> set (recordedEdges c)"
    using ent(1) by (simp_all add: entered_def)
  have ne: "a \<noteq> '''' \<and> b \<noteq> ''''" if "(a, b) \<in> set (recordedEdges c)" for a b
    using ent(2) that has_nul_free [OF c] by blast
  have p: "a \<in> set (map_get [] preds b) \<longleftrightarrow> (a, b) \<in> set (recordedEdges c)" for a b
    by (cases "b \<in> set ?ids") (simp_all add: preds_def canonicalNeighbours_get raw, use ne in blast)
  have s: "b \<in> set (map_get [] succs a) \<longleftrightarrow> (a, b) \<in> set (recordedEdges c)" for a b
    by (cases "a \<in> set ?ids") (simp_all add: succs_def canonicalNeighbours_get raw, use ne in blast)
  have here: "map_has (au_nodes c) a" "map_has (au_nodes c) b" "a \<noteq> b" if "(a, b) \<in> set (recordedEdges c)" for a b
    using ent(2) that by blast+
  have empty: "map_get [] preds i = []" "map_get [] succs i = []" if "\<not> map_has (au_nodes c) i" for i
  proof -
    have "a \<notin> set (map_get [] preds i)" "a \<notin> set (map_get [] succs i)" for a
      using that here [of a i] here [of i a] unfolding p s by blast+
    then show "map_get [] preds i = []" "map_get [] succs i = []" by (metis list.set_intros(1) neq_Nil_conv)+
  qed
  have dis: "distinct (map_get [] preds i) \<and> distinct (map_get [] succs i)" for i
    using empty by (cases "map_has (au_nodes c) i") (simp_all add: preds_def succs_def canonicalNeighbours_get map_has_def)
  have graph: "kahn_graph (map_get [] succs) (map_get [] preds) ?ids"
  proof unfold_locales
    fix x y
    show "y \<in> set (map_get [] succs x) \<longleftrightarrow> x \<in> set (map_get [] preds y)" by (simp add: p s)
    show "distinct (map_get [] succs x)" "distinct (map_get [] preds x)" using dis by simp_all
    show "set (map_get [] succs x) \<subseteq> set ?ids" "set (map_get [] preds x) \<subseteq> set ?ids"
      using here by (auto simp: p s map_has_def [symmetric])
  qed simp
  have dep: "depends v = set (recordedEdges c)" using p by (auto simp: depends_def v')
  have edges: "kahn_graph.edges (map_get [] preds) ?ids = depends v"
    unfolding kahn_graph.edges_def [OF graph] dep using here by (auto simp: p map_has_def [symmetric])
  have acyc: "acyclic (depends v)" using kahn_graph.order_length_iff [OF graph] len edges by simp
  then have all: "set (va_topological v) = fset (fmdom (au_nodes c))"
    using kahn_graph.order_complete [OF graph] edges by (simp add: v')
  show "va_nodes v = au_nodes c" "depends v = set (recordedEdges c)" using dep by (simp_all add: v')
  show "validated_ok v"
    unfolding validated_ok_def
  proof (intro conjI allI impI)
    show "distinct (va_topological v)" "topo_sorted (map_get [] (va_predecessors v)) {} (va_topological v)"
      using kahn_graph.order_distinct [OF graph] kahn_graph.order_topo [OF graph] by (simp_all add: v')
    show "b \<in> set (map_get [] (va_successors v) a) \<longleftrightarrow> (a, b) \<in> depends v" for a b
      unfolding dep using s by (simp add: v')
    show "map_has (va_nodes v) a" "map_has (va_nodes v) b" if "(a, b) \<in> depends v" for a b
      using here [of a b] that unfolding dep by (simp_all add: v')
    show "i \<noteq> ''''" "CHR 0x00 \<notin> set i" if "map_has (va_nodes v) i" for i using that has_nul_free [OF c] by (simp_all add: v')
  qed (use all acyc in \<open>simp_all add: v'\<close>)
qed

text \<open>The searches in terms of the dependence order.\<close>

lemma nbr_depends:
  assumes "validated_ok v"
  shows "nbr_rel (va_successors v) = depends v" "nbr_rel (va_predecessors v) = (depends v)\<inverse>"
  using assms by (auto simp: nbr_rel_def validated_ok_def depends_def)

lemma reachable_iff: "validated_ok v \<Longrightarrow> reachable v a b \<longleftrightarrow> (a, b) \<in> (depends v)\<^sup>*"
  using reachSearch_spec [of "[a]" "{|a|}" "va_successors v" b] by (simp add: reachable_def nbr_depends rtrancl_eq_or_trancl)

end
