(* ===== verification/Consistent_Cuts.thy ===== *)
theory Consistent_Cuts
  imports Augmented_Computation
begin

text \<open>
  The enumeration of consistent cuts of \<open>arch/consistent_cut.go\<close>: for every maximal event of a match, all
  prefix-closed sets of occurrences that contain the match and avoid the event's strict future, each with the
  Ref state it reaches.  JSON encoding and the digest of an encoding are parameters.
\<close>

section \<open>The Ref state at a cut\<close>

record cut_state_record =
  cr_componentID :: string
  cr_name :: string
  cr_operationID :: string
  cr_version :: u64
  cr_value :: canonical_value

record cut_limits =
  cl_maxCuts :: u64
  cl_maxOptional :: u64

record cut_witness =
  cw_digest :: string
  cw_anchors :: "string list"
  cw_occurrences :: "string list"
  cw_state :: "cut_state_record list"

definition ErrConsistentCutLimit :: go_error where
  "ErrConsistentCutLimit = ErrOther ''consistent-members exploration limit exceeded''"

fun stateLoop :: "validated \<Rightarrow> string list \<Rightarrow> string list \<Rightarrow> (string, state_operation) fmap
    \<Rightarrow> go_error + (string, state_operation) fmap" where
  "stateLoop v inCut [] latest = Inr latest"
| "stateLoop v inCut (i # rest) latest =
     (case Option.bind (fmlookup (va_nodes v) i) oc_operation of
        None \<Rightarrow> stateLoop v inCut rest latest
      | Some op \<Rightarrow>
          if i \<notin> set inCut \<or> so_kind op \<noteq> ''create'' \<and> so_kind op \<noteq> ''assign'' then stateLoop v inCut rest latest
          else let key = strings_join NUL [so_componentID op, so_name op]
            in (case fmlookup latest key of
                  Some prior \<Rightarrow> if so_version op \<le> so_version prior then Inl ErrInvalidAugmentedComputation
                    else if so_version op \<noteq> so_version prior + 1 then Inl ErrInvalidAugmentedComputation
                    else stateLoop v inCut rest (fmupd key op latest)
                | None \<Rightarrow> stateLoop v inCut rest (fmupd key op latest)))"

definition stateAt :: "validated \<Rightarrow> string list \<Rightarrow> go_error + cut_state_record list" where
  "stateAt v occurrences =
     (case stateLoop v occurrences (va_topological v) fmempty of
        Inl err \<Rightarrow> Inl err
      | Inr latest \<Rightarrow> Inr (sort_key (\<lambda>r. (cr_componentID r, cr_name r))
          (map (\<lambda>op. \<lparr>cr_componentID = so_componentID op, cr_name = so_name op, cr_operationID = so_id op,
              cr_version = so_version op, cr_value = so_value op\<rparr>)
            (List.map_filter (fmlookup latest) (map_keys latest)))))"

section \<open>Enumeration\<close>

type_synonym cut_table = "(string, string list \<times> string fset) fmap"

definition recordCut :: "u64 \<Rightarrow> string \<Rightarrow> string fset \<Rightarrow> cut_table \<Rightarrow> go_error + cut_table" where
  "recordCut maxCuts anchor selected byKey =
     (let occurrences = fset_ids selected; key = strings_join NUL occurrences
      in case fmlookup byKey key of
        None \<Rightarrow> if of_nat (fcard (fmdom byKey)) \<ge> maxCuts then Inl ErrConsistentCutLimit
          else Inr (fmupd key (occurrences, {|anchor|}) byKey)
      | Some (occurrences, anchors) \<Rightarrow> Inr (fmupd key (occurrences, finsert anchor anchors) byKey))"

fun enumerate :: "validated \<Rightarrow> u64 \<Rightarrow> string fset \<Rightarrow> string fset \<Rightarrow> string \<Rightarrow> string list \<Rightarrow> string fset \<Rightarrow> cut_table
    \<Rightarrow> go_error + cut_table" where
  "enumerate v maxCuts base forbidden anchor [] selected byKey = recordCut maxCuts anchor selected byKey"
| "enumerate v maxCuts base forbidden anchor (i # rest) selected byKey =
     (if i |\<in>| base \<or> i |\<in>| forbidden then enumerate v maxCuts base forbidden anchor rest selected byKey
      else case enumerate v maxCuts base forbidden anchor rest selected byKey of
        Inl err \<Rightarrow> Inl err
      | Inr byKey \<Rightarrow>
          if list_ex (\<lambda>predecessor. predecessor |\<notin>| selected) (map_get [] (va_predecessors v) i) then Inr byKey
          else enumerate v maxCuts base forbidden anchor rest (finsert i selected) byKey)"

definition strictFuture :: "validated \<Rightarrow> string \<Rightarrow> string fset" where
  "strictFuture v anchor = addSuccessorClosure v anchor {||} |-| {|anchor|}"

fun cutsFrom :: "validated \<Rightarrow> cut_limits \<Rightarrow> string fset \<Rightarrow> string list \<Rightarrow> cut_table \<Rightarrow> go_error + cut_table" where
  "cutsFrom v limits base [] byKey = Inr byKey"
| "cutsFrom v limits base (anchor # anchors) byKey =
     (let forbidden = strictFuture v anchor
      in if list_ex (\<lambda>i. i |\<in>| forbidden) (fset_ids base) then cutsFrom v limits base anchors byKey
         else let optional = of_nat (length (filter (\<lambda>i. i |\<notin>| base \<and> i |\<notin>| forbidden) (va_topological v))) :: u64
           in if optional > cl_maxOptional limits then Inl ErrConsistentCutLimit
              else case enumerate v (cl_maxCuts limits) base forbidden anchor (va_topological v) base byKey of
                Inl err \<Rightarrow> Inl err
              | Inr byKey \<Rightarrow> cutsFrom v limits base anchors byKey)"

definition maximumEvents :: "validated \<Rightarrow> string list \<Rightarrow> string list" where
  "maximumEvents v matched =
     filter (\<lambda>candidate. \<not> list_ex (\<lambda>other. candidate \<noteq> other \<and> reachable v candidate other) matched) matched"

definition initialNode :: "validated \<Rightarrow> string \<Rightarrow> bool" where
  "initialNode v i = (case fmlookup (va_nodes v) i of None \<Rightarrow> False | Some oc \<Rightarrow> oc_initial oc)"

definition baseCut :: "validated \<Rightarrow> string list \<Rightarrow> string fset" where
  "baseCut v matched =
     (let base = fold (addPredecessorClosure v) matched {||}
      in fold (addPredecessorClosure v) (filter (initialNode v) (map_keys (va_nodes v))) base)"

fun witnessesOf :: "(string list \<Rightarrow> string list \<Rightarrow> cut_state_record list \<Rightarrow> string) \<Rightarrow> validated
    \<Rightarrow> (string list \<times> string fset) list \<Rightarrow> go_error + cut_witness list" where
  "witnessesOf digest v [] = Inr []"
| "witnessesOf digest v ((occurrences, anchors) # cuts) =
     (case stateAt v occurrences of
        Inl err \<Rightarrow> Inl err
      | Inr state \<Rightarrow>
          let witness = \<lparr>cw_digest = digest (fset_ids anchors) occurrences state, cw_anchors = fset_ids anchors,
            cw_occurrences = occurrences, cw_state = state\<rparr>
          in map_sum id ((#) witness) (witnessesOf digest v cuts))"

definition ConsistentCutStateWitnesses :: "(string list \<Rightarrow> string list \<Rightarrow> cut_state_record list \<Rightarrow> string)
    \<Rightarrow> (cut_witness \<Rightarrow> string) \<Rightarrow> augmented \<Rightarrow> string list \<Rightarrow> cut_limits \<Rightarrow> go_error + cut_witness list" where
  \<comment> \<open>\<open>digest\<close> is that of the encoded witness content, \<open>encode\<close> the encoding that orders the result\<close>
  "ConsistentCutStateWitnesses digest encode c matchEventIDs limits =
     (if cl_maxCuts limits = 0 \<or> cl_maxOptional limits = 0 then Inl ErrInvalidAugmentedComputation
      else case validate c of Inl err \<Rightarrow> Inl err
      | Inr v \<Rightarrow>
          let matched = canonicalStrings matchEventIDs
          in if matched = [] then Inl ErrInvalidAugmentedComputation
             else if list_ex (\<lambda>i. case fmlookup (va_nodes v) i of None \<Rightarrow> True | Some oc \<Rightarrow> oc_kind oc \<noteq> EventOccurrence) matched
             then Inl ErrInvalidAugmentedComputation
             else case cutsFrom v limits (baseCut v matched) (maximumEvents v matched) fmempty of Inl err \<Rightarrow> Inl err
             | Inr byKey \<Rightarrow> map_sum id (sort_key encode)
                 (witnessesOf digest v (List.map_filter (fmlookup byKey) (map_keys byKey))))"

section \<open>The state is the last write of each Ref\<close>

definition refKey :: "state_operation \<Rightarrow> string" where
  "refKey op = strings_join NUL [so_componentID op, so_name op]"

definition stateRecord :: "state_operation \<Rightarrow> cut_state_record" where
  "stateRecord op = \<lparr>cr_componentID = so_componentID op, cr_name = so_name op, cr_operationID = so_id op,
     cr_version = so_version op, cr_value = so_value op\<rparr>"

fun writes :: "validated \<Rightarrow> string list \<Rightarrow> string list \<Rightarrow> state_operation list" where
  \<comment> \<open>the creations and assignments of the cut in the given order\<close>
  "writes v inCut [] = []"
| "writes v inCut (i # rest) = (case Option.bind (fmlookup (va_nodes v) i) oc_operation of
     None \<Rightarrow> writes v inCut rest
   | Some op \<Rightarrow> if i \<in> set inCut \<and> so_kind op \<in> {''create'', ''assign''} then op # writes v inCut rest
       else writes v inCut rest)"

definition ref_writes :: "string \<Rightarrow> state_operation list \<Rightarrow> state_operation list" where
  "ref_writes key ops = filter (\<lambda>op. refKey op = key) ops"

lemma stateLoop_last:
  "stateLoop v inCut xs latest = Inr m \<Longrightarrow>
     fmlookup m key = (if ref_writes key (writes v inCut xs) = [] then fmlookup latest key
       else Some (last (ref_writes key (writes v inCut xs))))"
proof (induction xs arbitrary: latest)
  case (Cons i rest)
  show ?case
  proof (cases "Option.bind (fmlookup (va_nodes v) i) oc_operation")
    case None
    then show ?thesis using Cons by simp
  next
    case (Some op)
    show ?thesis
    proof (cases "i \<notin> set inCut \<or> so_kind op \<noteq> ''create'' \<and> so_kind op \<noteq> ''assign''")
      case True
      then have "stateLoop v inCut rest latest = Inr m" using Cons.prems Some by simp
      then show ?thesis using Cons.IH True Some by auto
    next
      case False
      then have "stateLoop v inCut rest (fmupd (refKey op) op latest) = Inr m"
        using Cons.prems Some by (auto simp: refKey_def Let_def split: option.splits if_splits)
      then show ?thesis using Cons.IH False Some by (auto simp: ref_writes_def)
    qed
  qed
qed (simp add: ref_writes_def)

lemma stateAt_last:
  assumes "stateAt v inCut = Inr st"
  shows "set st = {stateRecord (last ops) |key ops. ops = ref_writes key (writes v inCut (va_topological v)) \<and> ops \<noteq> []}"
proof -
  obtain m where m: "stateLoop v inCut (va_topological v) fmempty = Inr m"
    "st = sort_key (\<lambda>r. (cr_componentID r, cr_name r)) (map stateRecord (List.map_filter (fmlookup m) (map_keys m)))"
    using assms by (auto simp: stateAt_def stateRecord_def [abs_def] split: sum.splits)
  have "set (List.map_filter (fmlookup m) (map_keys m)) = {op. \<exists>key. fmlookup m key = Some op}"
    by (force simp: List.map_filter_def fmlookup_dom_iff)
  then have "set st = stateRecord ` {op. \<exists>key. fmlookup m key = Some op}" by (simp add: m(2))
  also have "{op. \<exists>key. fmlookup m key = Some op}
      = {last ops |key ops. ops = ref_writes key (writes v inCut (va_topological v)) \<and> ops \<noteq> []}"
    by (auto simp: stateLoop_last [OF m(1)] split: if_splits)
  finally show ?thesis by blast
qed

section \<open>Prefix-closed sets\<close>

definition past_closed :: "validated \<Rightarrow> string set \<Rightarrow> bool" where
  "past_closed v S \<longleftrightarrow> (\<forall>(a, b) \<in> depends v. b \<in> S \<longrightarrow> a \<in> S)"

lemma past_closed_rtrancl: "(a, b) \<in> (depends v)\<^sup>* \<Longrightarrow> past_closed v S \<Longrightarrow> b \<in> S \<Longrightarrow> a \<in> S"
  by (induction rule: converse_rtrancl_induct) (auto simp: past_closed_def)

lemma addPredecessorClosure_spec:
  assumes "validated_ok v" "past_closed v (fset result)"
  shows "fset (addPredecessorClosure v i result) = fset result \<union> {a. (a, i) \<in> (depends v)\<^sup>*}"
    "past_closed v (fset (addPredecessorClosure v i result))"
proof -
  have "set (map_get [] (va_predecessors v) a) \<subseteq> fset result \<union> set [i]" if "a |\<in>| result" for a
    using assms(2) that by (auto simp: past_closed_def depends_def)
  note closureCalls_spec [OF this, unfolded nbr_depends(2) [OF assms(1)]]
  then have "fset (addPredecessorClosure v i result) = ((depends v)\<inverse>)\<^sup>* `` (fset result \<union> {i})"
    by (simp add: addPredecessorClosure_def del: closureCalls.simps)
  then show spec: "fset (addPredecessorClosure v i result) = fset result \<union> {a. (a, i) \<in> (depends v)\<^sup>*}"
    using past_closed_rtrancl [OF _ assms(2)] by (auto simp: rtrancl_converse)
  show "past_closed v (fset (addPredecessorClosure v i result))"
    using assms(2) unfolding spec past_closed_def by (auto intro: converse_rtrancl_into_rtrancl)
qed

lemma fold_closure_spec:
  assumes v: "validated_ok v"
  shows "past_closed v (fset result) \<Longrightarrow>
     fset (fold (addPredecessorClosure v) ids result) = fset result \<union> {a. \<exists>i \<in> set ids. (a, i) \<in> (depends v)\<^sup>*}
     \<and> past_closed v (fset (fold (addPredecessorClosure v) ids result))"
proof (induction ids arbitrary: result)
  case (Cons i ids)
  note c = addPredecessorClosure_spec [OF v Cons.prems, of i]
  show ?case using Cons.IH [OF c(2)] c(1) by auto
qed simp

definition required :: "validated \<Rightarrow> string list \<Rightarrow> string set" where
  "required v matched = set matched \<union> {i. initialNode v i}"

lemma baseCut_spec:
  assumes v: "validated_ok v"
  shows "fset (baseCut v matched) = {a. \<exists>i \<in> required v matched. (a, i) \<in> (depends v)\<^sup>*}"
    "past_closed v (fset (baseCut v matched))"
proof -
  have ini: "set (filter (initialNode v) (map_keys (va_nodes v))) = {i. initialNode v i}"
    by (auto simp: initialNode_def fmlookup_dom_iff split: option.splits)
  have "past_closed v (fset {||})" by (simp add: past_closed_def)
  note f = fold_closure_spec [OF v this, of matched]
  note g = fold_closure_spec [OF v conjunct2 [OF f], of "filter (initialNode v) (map_keys (va_nodes v))"]
  show "past_closed v (fset (baseCut v matched))" unfolding baseCut_def Let_def by (rule conjunct2 [OF g])
  show "fset (baseCut v matched) = {a. \<exists>i \<in> required v matched. (a, i) \<in> (depends v)\<^sup>*}"
    using f g unfolding ini baseCut_def Let_def required_def by auto
qed

lemma strictFuture_spec:
  assumes v: "validated_ok v"
  shows "fset (strictFuture v a) = {b. (a, b) \<in> (depends v)\<^sup>+}"
proof -
  have "fset (addSuccessorClosure v a {||}) = (depends v)\<^sup>* `` {a}"
    using closureCalls_spec [of "{||}" "va_successors v" "[a]", unfolded nbr_depends(1) [OF v]]
    by (simp add: addSuccessorClosure_def del: closureCalls.simps)
  moreover have "acyclic (depends v)" using v by (simp add: validated_ok_def)
  ultimately show ?thesis by (auto simp: strictFuture_def acyclic_def rtrancl_eq_or_trancl)
qed

section \<open>The enumeration is exact\<close>

text \<open>The sets the recursion visits, and what they are when the list is topologically sorted.\<close>

fun extensions :: "validated \<Rightarrow> string set \<Rightarrow> string list \<Rightarrow> string set \<Rightarrow> string set set" where
  "extensions v fixed [] S = {S}"
| "extensions v fixed (i # rest) S =
     (if i \<in> fixed then extensions v fixed rest S
      else extensions v fixed rest S
        \<union> (if set (map_get [] (va_predecessors v) i) \<subseteq> S then extensions v fixed rest (insert i S) else {}))"

lemma extensions_spec:
  "topo_sorted (map_get [] (va_predecessors v)) seen rest \<Longrightarrow> distinct rest \<Longrightarrow> seen \<inter> set rest = {} \<Longrightarrow>
     S \<inter> set rest \<subseteq> fixed \<Longrightarrow>
     T \<in> extensions v fixed rest S \<longleftrightarrow> S \<subseteq> T \<and> T - S \<subseteq> set rest - fixed
       \<and> (\<forall>x \<in> T - S. set (map_get [] (va_predecessors v) x) \<subseteq> T)"
proof (induction rest arbitrary: seen S)
  case (Cons i rest)
  let ?preds = "map_get [] (va_predecessors v)"
  have step: "topo_sorted ?preds (insert i seen) rest" "distinct rest" "insert i seen \<inter> set rest = {}" "set (?preds i) \<subseteq> seen"
    using Cons.prems by auto
  show ?case
  proof (cases "i \<in> fixed")
    case True
    then have "set (i # rest) - fixed = set rest - fixed" "S \<inter> set rest \<subseteq> fixed" using Cons.prems(4) by auto
    then show ?thesis using Cons.IH [OF step(1-3), of S] True by simp
  next
    case False
    have i: "i \<notin> S" "i \<notin> set rest" "i \<notin> seen" using False Cons.prems by auto
    have room: "S \<inter> set rest \<subseteq> fixed" "insert i S \<inter> set rest \<subseteq> fixed" using Cons.prems(4) i by auto
    note skip = Cons.IH [OF step(1-3) room(1)] and add = Cons.IH [OF step(1-3) room(2)]
    show ?thesis
    proof (cases "i \<in> T")
      case True
      then have "T \<in> extensions v fixed (i # rest) S \<longleftrightarrow> set (?preds i) \<subseteq> S \<and> T \<in> extensions v fixed rest (insert i S)"
        using skip i False by simp blast
      also have "\<dots> \<longleftrightarrow> S \<subseteq> T \<and> T - S \<subseteq> set (i # rest) - fixed \<and> (\<forall>x \<in> T - S. set (?preds x) \<subseteq> T)"
      proof
        assume "set (?preds i) \<subseteq> S \<and> T \<in> extensions v fixed rest (insert i S)"
        then have l: "set (?preds i) \<subseteq> S" "insert i S \<subseteq> T" "T - insert i S \<subseteq> set rest - fixed"
          "\<forall>x \<in> T - insert i S. set (?preds x) \<subseteq> T"
          unfolding add by blast+
        have "set (?preds x) \<subseteq> T" if "x \<in> T - S" for x using l that by (cases "x = i") blast+
        moreover have "T - S \<subseteq> set (i # rest) - fixed" using l(3) False unfolding list.set by blast
        ultimately show "S \<subseteq> T \<and> T - S \<subseteq> set (i # rest) - fixed \<and> (\<forall>x \<in> T - S. set (?preds x) \<subseteq> T)"
          using l(2) by blast
      next
        assume r: "S \<subseteq> T \<and> T - S \<subseteq> set (i # rest) - fixed \<and> (\<forall>x \<in> T - S. set (?preds x) \<subseteq> T)"
        have pre: "set (?preds i) \<subseteq> T" using r True i(1) by blast
        have "T \<inter> seen \<subseteq> S" using r Cons.prems(3) by blast
        then have "set (?preds i) \<subseteq> S" using pre step(4) by blast
        moreover have "T - insert i S \<subseteq> set rest - fixed" using r unfolding list.set by blast
        moreover have "\<forall>x \<in> T - insert i S. set (?preds x) \<subseteq> T" "insert i S \<subseteq> T" using r True by blast+
        ultimately show "set (?preds i) \<subseteq> S \<and> T \<in> extensions v fixed rest (insert i S)" unfolding add by blast
      qed
      finally show ?thesis .
    next
      case out: False
      then have "T \<notin> extensions v fixed rest (insert i S)" using add by blast
      moreover have "T - S \<subseteq> set (i # rest) - fixed \<longleftrightarrow> T - S \<subseteq> set rest - fixed" using out by auto
      ultimately show ?thesis using False skip by simp
    qed
  qed
qed auto

text \<open>A table lists each cut once, under its joined key.\<close>

definition table_ok :: "cut_table \<Rightarrow> bool" where
  "table_ok byKey \<longleftrightarrow> (\<forall>key members anchors. fmlookup byKey key = Some (members, anchors) \<longrightarrow>
     nul_free members \<and> sorted members \<and> distinct members \<and> members \<noteq> [] \<and> key = strings_join NUL members \<and> anchors \<noteq> {||})"

definition cuts_of :: "cut_table \<Rightarrow> (string set \<times> string) set" where
  "cuts_of byKey = {(S, a). \<exists>key members anchors. fmlookup byKey key = Some (members, anchors) \<and> set members = S \<and> a |\<in>| anchors}"

lemma table_unique:
  assumes "table_ok byKey" "fmlookup byKey k = Some (members, A)" "fmlookup byKey l = Some (members', B)" "set members = set members'"
  shows "k = l"
  using assms by (metis sorted_distinct_set_unique table_ok_def)

lemma recordCut_spec:
  assumes t: "table_ok byKey" and S: "selected \<noteq> {||}" "\<And>i. i |\<in>| selected \<Longrightarrow> CHR 0x00 \<notin> set i"
    and run: "recordCut maxCuts anchor selected byKey = Inr byKey'"
  shows "table_ok byKey'" "cuts_of byKey' = insert (fset selected, anchor) (cuts_of byKey)"
proof -
  let ?members = "fset_ids selected" let ?key = "strings_join NUL ?members"
  have members: "nul_free ?members" "sorted ?members" "distinct ?members" "?members \<noteq> []"
    using S by (auto simp: nul_free_def dest: arg_cong [of _ _ set])
  obtain anchors where b: "byKey' = fmupd ?key (?members, finsert anchor anchors) byKey"
    and old: "fmlookup byKey ?key = None \<and> anchors = {||} \<or> fmlookup byKey ?key = Some (?members, anchors)"
  proof (cases "fmlookup byKey ?key")
    case None
    then show thesis using run by (intro that [of "{||}"]) (auto simp: recordCut_def Let_def split: if_splits)
  next
    case (Some e)
    then obtain c A where e: "fmlookup byKey ?key = Some (c, A)" by (cases e) auto
    then have c: "nul_free c" "c \<noteq> []" "strings_join NUL ?members = strings_join NUL c" using t by (auto simp: table_ok_def)
    have "?members = c" by (rule strings_join_inj [OF members(1) c(1) members(4) c(2,3)])
    then show thesis using run e by (intro that [of A]) (auto simp: recordCut_def Let_def)
  qed
  show "table_ok byKey'" unfolding b using t members by (auto simp: table_ok_def)
  have "(U, a) \<in> cuts_of byKey' \<longleftrightarrow> (U, a) \<in> insert (fset selected, anchor) (cuts_of byKey)" for U a
  proof
    assume "(U, a) \<in> cuts_of byKey'"
    then obtain k c A where "fmlookup byKey' k = Some (c, A)" "set c = U" "a |\<in>| A" by (auto simp: cuts_of_def)
    then show "(U, a) \<in> insert (fset selected, anchor) (cuts_of byKey)"
      unfolding b using old by (auto simp: cuts_of_def split: if_splits)
  next
    assume "(U, a) \<in> insert (fset selected, anchor) (cuts_of byKey)"
    then consider "U = fset selected" "a = anchor" | k c A where "fmlookup byKey k = Some (c, A)" "set c = U" "a |\<in>| A"
      by (auto simp: cuts_of_def)
    then show "(U, a) \<in> cuts_of byKey'"
    proof cases
      case 1
      then show ?thesis unfolding b cuts_of_def by (auto intro!: exI [of _ ?key])
    next
      case 2
      then show ?thesis
      proof (cases "k = ?key")
        case True
        then show ?thesis using 2 old unfolding b cuts_of_def by (auto intro!: exI [of _ ?key])
      next
        case False
        then show ?thesis using 2 unfolding b cuts_of_def by (auto intro!: exI [of _ k])
      qed
    qed
  qed
  then show "cuts_of byKey' = insert (fset selected, anchor) (cuts_of byKey)" by auto
qed

lemma enumerate_spec:
  "table_ok byKey \<Longrightarrow> selected \<noteq> {||} \<Longrightarrow> \<forall>i \<in> fset selected \<union> set rest. CHR 0x00 \<notin> set i \<Longrightarrow>
     enumerate v maxCuts base forbidden anchor rest selected byKey = Inr byKey' \<Longrightarrow>
     table_ok byKey' \<and> cuts_of byKey' = cuts_of byKey
       \<union> (\<lambda>S. (S, anchor)) ` extensions v (fset base \<union> fset forbidden) rest (fset selected)"
proof (induction rest arbitrary: selected byKey byKey')
  case Nil
  then show ?case using recordCut_spec [OF Nil(1,2), of maxCuts anchor byKey'] by auto
next
  case (Cons i rest)
  show ?case
  proof (cases "i |\<in>| base \<or> i |\<in>| forbidden")
    case True
    then show ?thesis using Cons.IH [OF Cons.prems(1,2), of byKey'] Cons.prems(3,4) by auto
  next
    case False
    obtain mid where mid: "enumerate v maxCuts base forbidden anchor rest selected byKey = Inr mid"
      using Cons.prems(4) False by (auto split: sum.splits)
    have m: "table_ok mid" "cuts_of mid = cuts_of byKey
        \<union> (\<lambda>S. (S, anchor)) ` extensions v (fset base \<union> fset forbidden) rest (fset selected)"
      using Cons.IH [OF Cons.prems(1,2) _ mid] Cons.prems(3) by auto
    show ?thesis
    proof (cases "set (map_get [] (va_predecessors v) i) \<subseteq> fset selected")
      case True
      then have "enumerate v maxCuts base forbidden anchor rest (finsert i selected) mid = Inr byKey'"
        using Cons.prems(4) False mid by (auto simp: list_ex_iff split: if_splits)
      then show ?thesis using Cons.IH [OF m(1), of "finsert i selected"] Cons.prems(3) False True m(2)
        by (auto simp: image_Un)
    next
      case sub: False
      then have "byKey' = mid" using Cons.prems(4) False mid by (auto simp: list_ex_iff split: if_splits)
      then show ?thesis using m False sub by auto
    qed
  qed
qed

section \<open>All anchors\<close>

definition occurrences_of :: "validated \<Rightarrow> string set" where
  "occurrences_of v = fset (fmdom (va_nodes v))"

definition open_cuts :: "validated \<Rightarrow> string fset \<Rightarrow> string \<Rightarrow> string set set" where
  "open_cuts v base a = {S. fset base \<subseteq> S \<and> S \<subseteq> occurrences_of v \<and> past_closed v S \<and> (\<forall>b \<in> S. (a, b) \<notin> (depends v)\<^sup>+)}"

lemma anchor_extensions:
  assumes v: "validated_ok v" and base: "past_closed v (fset base)" "fset base \<subseteq> occurrences_of v"
    and valid: "fset base \<inter> fset (strictFuture v a) = {}"
  shows "extensions v (fset base \<union> fset (strictFuture v a)) (va_topological v) (fset base) = open_cuts v base a"
proof (intro set_eqI)
  fix T
  note t = v [unfolded validated_ok_def]
  have nodes: "set (va_topological v) = occurrences_of v" using t by (simp add: occurrences_of_def)
  have preds: "x \<in> set (map_get [] (va_predecessors v) y) \<longleftrightarrow> (x, y) \<in> depends v" for x y by (simp add: depends_def)
  have "T \<in> extensions v (fset base \<union> fset (strictFuture v a)) (va_topological v) (fset base) \<longleftrightarrow>
      fset base \<subseteq> T \<and> T - fset base \<subseteq> occurrences_of v - (fset base \<union> fset (strictFuture v a))
      \<and> (\<forall>x \<in> T - fset base. set (map_get [] (va_predecessors v) x) \<subseteq> T)"
    unfolding nodes [symmetric] by (rule extensions_spec [of v "{}"]) (use t in auto)
  also have "T - fset base \<subseteq> occurrences_of v - (fset base \<union> fset (strictFuture v a)) \<longleftrightarrow>
      T - fset base \<subseteq> occurrences_of v \<and> T \<inter> fset (strictFuture v a) = {}" using valid by blast
  also have "fset base \<subseteq> T \<and> (T - fset base \<subseteq> occurrences_of v \<and> T \<inter> fset (strictFuture v a) = {})
      \<and> (\<forall>x \<in> T - fset base. set (map_get [] (va_predecessors v) x) \<subseteq> T) \<longleftrightarrow> T \<in> open_cuts v base a"
  proof -
    have "(\<forall>x \<in> T - fset base. set (map_get [] (va_predecessors v) x) \<subseteq> T) \<longleftrightarrow> past_closed v T" if "fset base \<subseteq> T"
      using base(1) that preds unfolding past_closed_def by blast
    moreover have "T \<inter> fset (strictFuture v a) = {} \<longleftrightarrow> (\<forall>b \<in> T. (a, b) \<notin> (depends v)\<^sup>+)"
      unfolding strictFuture_spec [OF v] by blast
    ultimately show ?thesis using base(2) unfolding open_cuts_def by blast
  qed
  finally show "T \<in> extensions v (fset base \<union> fset (strictFuture v a)) (va_topological v) (fset base) \<longleftrightarrow> T \<in> open_cuts v base a" .
qed

lemma occurrence_nul_free: "validated_ok v \<Longrightarrow> i \<in> occurrences_of v \<Longrightarrow> CHR 0x00 \<notin> set i"
  by (simp add: validated_ok_def occurrences_of_def map_has_def)

lemma cutsFrom_spec:
  assumes v: "validated_ok v" and base: "past_closed v (fset base)" "fset base \<subseteq> occurrences_of v" "base \<noteq> {||}"
  shows "table_ok byKey \<Longrightarrow> cutsFrom v limits base anchors byKey = Inr byKey' \<Longrightarrow>
    table_ok byKey' \<and> cuts_of byKey' = cuts_of byKey \<union> {(S, a). a \<in> set anchors \<and> S \<in> open_cuts v base a}"
proof (induction anchors arbitrary: byKey)
  case (Cons a anchors)
  let ?forbidden = "strictFuture v a"
  show ?case
  proof (cases "fset base \<inter> fset ?forbidden = {}")
    case False
    then obtain i where i: "i |\<in>| base" "i |\<in>| ?forbidden" by blast
    then have "open_cuts v base a = {}" unfolding open_cuts_def using strictFuture_spec [OF v, of a] by blast
    moreover have "cutsFrom v limits base anchors byKey = Inr byKey'"
      using Cons.prems(2) i by (auto simp: list_ex_iff Let_def split: if_splits)
    ultimately show ?thesis using Cons.IH [OF Cons.prems(1)] by auto
  next
    case True
    have no: "\<not> list_ex (\<lambda>i. i |\<in>| ?forbidden) (fset_ids base)" using True by (auto simp: list_ex_iff)
    then obtain mid where mid: "enumerate v (cl_maxCuts limits) base ?forbidden a (va_topological v) base byKey = Inr mid"
      "cutsFrom v limits base anchors mid = Inr byKey'"
      using Cons.prems(2) by (simp add: Let_def split: if_splits sum.splits)
    have "\<forall>i \<in> fset base \<union> set (va_topological v). CHR 0x00 \<notin> set i"
      using v base(2) occurrence_nul_free [OF v] by (auto simp: validated_ok_def occurrences_of_def)
    then have m: "table_ok mid" "cuts_of mid = cuts_of byKey \<union> (\<lambda>S. (S, a)) ` open_cuts v base a"
      using enumerate_spec [OF Cons.prems(1) base(3) _ mid(1)] anchor_extensions [OF v base(1,2) True] by simp_all
    then show ?thesis using Cons.IH [OF m(1) mid(2)] by auto
  qed
qed simp

section \<open>The witnesses\<close>

definition consistent_cut :: "validated \<Rightarrow> string set \<Rightarrow> string set \<Rightarrow> string \<Rightarrow> bool" where
  \<comment> \<open>a prefix-closed set with the whole match and every initial node, cut at an event of the match\<close>
  "consistent_cut v matched S a \<longleftrightarrow> a \<in> matched \<and> matched \<subseteq> S \<and> {i. initialNode v i} \<subseteq> S \<and> S \<subseteq> occurrences_of v
     \<and> past_closed v S \<and> (\<forall>b \<in> S. (a, b) \<notin> (depends v)\<^sup>+)"

lemma maximal_cuts:
  assumes v: "validated_ok v" and m: "set matched \<subseteq> occurrences_of v"
  shows "a \<in> set (maximumEvents v matched) \<and> S \<in> open_cuts v (baseCut v matched) a \<longleftrightarrow> consistent_cut v (set matched) S a"
proof -
  have base: "fset (baseCut v matched) \<subseteq> S \<longleftrightarrow> set matched \<subseteq> S \<and> {i. initialNode v i} \<subseteq> S" if "past_closed v S"
    using past_closed_rtrancl [OF _ that] unfolding baseCut_spec(1) [OF v] required_def by blast
  have "a \<in> set (maximumEvents v matched) \<longleftrightarrow> a \<in> set matched \<and> (\<forall>b \<in> set matched. a \<noteq> b \<longrightarrow> (a, b) \<notin> (depends v)\<^sup>*)"
    by (auto simp: maximumEvents_def list_ex_iff reachable_iff [OF v])
  moreover have "(\<forall>b \<in> set matched. a \<noteq> b \<longrightarrow> (a, b) \<notin> (depends v)\<^sup>*)"
    if "set matched \<subseteq> S" "\<forall>b \<in> S. (a, b) \<notin> (depends v)\<^sup>+"
    using that by (auto simp: rtrancl_eq_or_trancl)
  ultimately show ?thesis using base unfolding open_cuts_def consistent_cut_def by blast
qed

lemma witnessesOf_spec:
  "witnessesOf digest v members = Inr ws \<Longrightarrow>
     map (\<lambda>w. (cw_occurrences w, cw_anchors w)) ws = map (\<lambda>(c, A). (c, fset_ids A)) members
     \<and> (\<forall>w \<in> set ws. stateAt v (cw_occurrences w) = Inr (cw_state w))"
proof (induction members arbitrary: ws)
  case (Cons m members)
  obtain c A where m: "m = (c, A)" by (cases m)
  from Cons.prems obtain st rest where st: "stateAt v c = Inr st" "witnessesOf digest v members = Inr rest"
    "ws = \<lparr>cw_digest = digest (fset_ids A) c st, cw_anchors = fset_ids A, cw_occurrences = c, cw_state = st\<rparr> # rest"
    by (cases "stateAt v c"; cases "witnessesOf digest v members") (auto simp: m Let_def)
  then show ?case using Cons.IH [OF st(2)] by (simp add: m)
qed simp

definition table_entries :: "cut_table \<Rightarrow> (string list \<times> string fset) list" where
  "table_entries byKey = List.map_filter (fmlookup byKey) (map_keys byKey)"

lemma table_entries:
  "set (table_entries byKey) = {e. \<exists>key. fmlookup byKey key = Some e}"
  "table_ok byKey \<Longrightarrow> distinct (map fst (table_entries byKey))"
proof -
  have all: "table_entries byKey = map (\<lambda>k. the (fmlookup byKey k)) (map_keys byKey)"
  proof -
    have "List.map_filter (fmlookup byKey) ks = map (\<lambda>k. the (fmlookup byKey k)) ks" if "set ks \<subseteq> fset (fmdom byKey)" for ks
      using that by (induction ks) (auto simp: List.map_filter_simps fmlookup_dom_iff)
    then show ?thesis by (simp add: table_entries_def)
  qed
  show "set (table_entries byKey) = {e. \<exists>key. fmlookup byKey key = Some e}"
    by (force simp: all fmlookup_dom_iff image_iff)
  assume t: "table_ok byKey"
  have "inj_on (\<lambda>k. fst (the (fmlookup byKey k))) (fset (fmdom byKey))"
  proof (rule inj_onI)
    fix k l
    assume kl: "k \<in> fset (fmdom byKey)" "l \<in> fset (fmdom byKey)" "fst (the (fmlookup byKey k)) = fst (the (fmlookup byKey l))"
    then obtain c A B where "fmlookup byKey k = Some (c, A)" "fmlookup byKey l = Some (c, B)"
      by (auto simp: fmlookup_dom_iff)
    then show "k = l" using table_unique [OF t] by blast
  qed
  then show "distinct (map fst (table_entries byKey))" by (simp add: all distinct_map comp_def)
qed

lemma table_cut:
  assumes t: "table_ok byKey"
  shows "(\<exists>e \<in> set (table_entries byKey). set (fst e) = S \<and> fset (snd e) = A) \<longleftrightarrow> A \<noteq> {} \<and> A = {a. (S, a) \<in> cuts_of byKey}"
proof -
  have at: "{a. (S, a) \<in> cuts_of byKey} = fset B" if k: "fmlookup byKey k = Some (c, B)" "set c = S" for k c B
  proof -
    have "(S, a) \<in> cuts_of byKey \<longleftrightarrow> a |\<in>| B" for a
    proof
      assume "(S, a) \<in> cuts_of byKey"
      then obtain l d C where l: "fmlookup byKey l = Some (d, C)" "set d = S" "a |\<in>| C" unfolding cuts_of_def by blast
      have "l = k" by (rule table_unique [OF t l(1) k(1)]) (simp add: l(2) k(2))
      then show "a |\<in>| B" using l(1,3) k(1) by simp
    next
      assume "a |\<in>| B"
      then show "(S, a) \<in> cuts_of byKey" using k unfolding cuts_of_def by blast
    qed
    then show ?thesis by blast
  qed
  have ne: "fset B \<noteq> {}" if "fmlookup byKey k = Some (c, B)" for k c B
    using t that unfolding table_ok_def by fastforce
  show ?thesis
  proof
    assume "\<exists>e \<in> set (table_entries byKey). set (fst e) = S \<and> fset (snd e) = A"
    then obtain e where "e \<in> set (table_entries byKey)" "set (fst e) = S" "fset (snd e) = A" by blast
    then obtain k c B where k: "fmlookup byKey k = Some (c, B)" "set c = S" "fset B = A"
      unfolding table_entries(1) by (cases e) auto
    show "A \<noteq> {} \<and> A = {a. (S, a) \<in> cuts_of byKey}" using at [OF k(1,2)] ne [OF k(1)] k(3) by simp
  next
    assume A: "A \<noteq> {} \<and> A = {a. (S, a) \<in> cuts_of byKey}"
    then obtain a where "(S, a) \<in> cuts_of byKey" by blast
    then obtain k c B where k: "fmlookup byKey k = Some (c, B)" "set c = S" unfolding cuts_of_def by blast
    then have "(c, B) \<in> set (table_entries byKey)" unfolding table_entries(1) by blast
    moreover have "fset B = A" using A at [OF k] by simp
    ultimately show "\<exists>e \<in> set (table_entries byKey). set (fst e) = S \<and> fset (snd e) = A" using k(2) by (intro bexI [of _ "(c, B)"]) auto
  qed
qed

lemma occurrences_past_closed: "validated_ok v \<Longrightarrow> past_closed v (occurrences_of v)"
  by (auto simp: validated_ok_def past_closed_def occurrences_of_def map_has_def)

lemma cut_table_exact:
  assumes v: "validated_ok v" and m: "set matched \<subseteq> occurrences_of v" "matched \<noteq> []"
    and run: "cutsFrom v limits (baseCut v matched) (maximumEvents v matched) fmempty = Inr byKey"
  shows "table_ok byKey" "(S, a) \<in> cuts_of byKey \<longleftrightarrow> consistent_cut v (set matched) S a"
proof -
  have "required v matched \<subseteq> occurrences_of v"
    using m(1) by (auto simp: required_def initialNode_def occurrences_of_def fmlookup_dom_iff split: option.splits)
  then have sub: "fset (baseCut v matched) \<subseteq> occurrences_of v"
    using past_closed_rtrancl [OF _ occurrences_past_closed [OF v]] unfolding baseCut_spec(1) [OF v] by blast
  have "set matched \<subseteq> fset (baseCut v matched)" unfolding baseCut_spec(1) [OF v] required_def by blast
  then have ne: "baseCut v matched \<noteq> {||}" using m(2) by auto
  have empty: "table_ok fmempty" "cuts_of fmempty = {}" by (simp_all add: table_ok_def cuts_of_def)
  note spec = cutsFrom_spec [OF v baseCut_spec(2) [OF v] sub ne empty(1) run]
  then show "table_ok byKey" ..
  show "(S, a) \<in> cuts_of byKey \<longleftrightarrow> consistent_cut v (set matched) S a"
    using spec maximal_cuts [OF v m(1)] by (simp add: empty(2))
qed

lemma cut_witnesses_run:
  assumes "ConsistentCutStateWitnesses digest encode c ids limits = Inr ws"
  obtains v byKey ws' where "validate c = Inr v" "canonicalStrings ids \<noteq> []" "set (canonicalStrings ids) \<subseteq> occurrences_of v"
    "cutsFrom v limits (baseCut v (canonicalStrings ids)) (maximumEvents v (canonicalStrings ids)) fmempty = Inr byKey"
    "witnessesOf digest v (table_entries byKey) = Inr ws'" "ws = sort_key encode ws'"
proof -
  let ?m = "canonicalStrings ids"
  obtain v where v: "validate c = Inr v"
    using assms by (cases "validate c") (auto simp: ConsistentCutStateWitnesses_def split: if_splits)
  have g: "?m \<noteq> []"
      "\<not> list_ex (\<lambda>i. case fmlookup (va_nodes v) i of None \<Rightarrow> True | Some oc \<Rightarrow> oc_kind oc \<noteq> EventOccurrence) ?m"
    and r: "(case cutsFrom v limits (baseCut v ?m) (maximumEvents v ?m) fmempty of Inl err \<Rightarrow> Inl err
      | Inr byKey \<Rightarrow> map_sum id (sort_key encode) (witnessesOf digest v (table_entries byKey))) = Inr ws"
    unfolding table_entries_def
    using assms by (simp_all add: ConsistentCutStateWitnesses_def v Let_def split: if_split_asm)
  obtain byKey where k: "cutsFrom v limits (baseCut v ?m) (maximumEvents v ?m) fmempty = Inr byKey"
    using r by (cases "cutsFrom v limits (baseCut v ?m) (maximumEvents v ?m) fmempty") simp_all
  obtain ws' where w: "witnessesOf digest v (table_entries byKey) = Inr ws'" "ws = sort_key encode ws'"
    using r k by (cases "witnessesOf digest v (table_entries byKey)") auto
  have "set ?m \<subseteq> occurrences_of v"
    using g(2) unfolding list_ex_iff occurrences_of_def by (force simp: fmlookup_dom_iff split: option.splits)
  then show thesis by (rule that [OF v g(1) _ k w])
qed

text \<open>C39: \<open>ConsistentCutStateWitnesses\<close> enumerates consistent cuts exactly.  When it succeeds on a registered
  computation, its witnesses are in one-to-one correspondence with the prefix-closed sets of occurrences that
  contain the whole match and every initial Ref creation and in which at least one matched event has nothing
  strictly after it; the anchors of a witness are exactly those events, and its state records the last
  creation or assignment of every Ref written in the cut.\<close>

theorem consistent_cuts_exact:
  assumes c: "computation_ok c" and run: "ConsistentCutStateWitnesses digest encode c ids limits = Inr ws"
  shows "\<exists>v. validate c = Inr v
    \<and> (\<forall>S A. (\<exists>w \<in> set ws. set (cw_occurrences w) = S \<and> set (cw_anchors w) = A)
          \<longleftrightarrow> A \<noteq> {} \<and> A = {a. consistent_cut v (set ids - {''''}) S a})
    \<and> distinct (map (\<lambda>w. set (cw_occurrences w)) ws)
    \<and> (\<forall>w \<in> set ws. sorted (cw_occurrences w)
          \<and> set (cw_state w) = {stateRecord (last ops) |key ops.
              ops = ref_writes key (writes v (cw_occurrences w) (va_topological v)) \<and> ops \<noteq> []})"
proof -
  let ?m = "canonicalStrings ids"
  obtain v byKey ws' where v: "validate c = Inr v" and m: "?m \<noteq> []" "set ?m \<subseteq> occurrences_of v"
    and table: "cutsFrom v limits (baseCut v ?m) (maximumEvents v ?m) fmempty = Inr byKey"
    and ws: "witnessesOf digest v (table_entries byKey) = Inr ws'" "ws = sort_key encode ws'"
    by (rule cut_witnesses_run [OF run])
  note exact = cut_table_exact [OF validate_ok(1) [OF c v] m(2,1) table] and spec = witnessesOf_spec [OF ws(1)]
  have cuts: "(\<exists>w \<in> set ws. set (cw_occurrences w) = S \<and> set (cw_anchors w) = A) \<longleftrightarrow>
      A \<noteq> {} \<and> A = {a. consistent_cut v (set ids - {''''}) S a}" for S A
  proof -
    have "(\<lambda>w. (cw_occurrences w, cw_anchors w)) ` set ws = (\<lambda>(c, A). (c, fset_ids A)) ` set (table_entries byKey)"
      using arg_cong [OF conjunct1 [OF spec], of set] by (simp add: ws(2))
    then have "(\<exists>p \<in> (\<lambda>w. (cw_occurrences w, cw_anchors w)) ` set ws. set (fst p) = S \<and> set (snd p) = A) \<longleftrightarrow>
        (\<exists>p \<in> (\<lambda>(c, A). (c, fset_ids A)) ` set (table_entries byKey). set (fst p) = S \<and> set (snd p) = A)" by simp
    then have "(\<exists>w \<in> set ws. set (cw_occurrences w) = S \<and> set (cw_anchors w) = A) \<longleftrightarrow>
        (\<exists>e \<in> set (table_entries byKey). set (fst e) = S \<and> fset (snd e) = A)" by (simp add: split_def)
    then show ?thesis unfolding table_cut [OF exact(1)] exact(2) by simp
  qed
  have occ: "map cw_occurrences ws' = map fst (table_entries byKey)"
    using arg_cong [OF conjunct1 [OF spec], of "map fst"] by (simp add: comp_def split_def)
  have sorted: "sorted (cw_occurrences w) \<and> distinct (cw_occurrences w)" if "w \<in> set ws'" for w
  proof -
    have "cw_occurrences w \<in> set (map fst (table_entries byKey))" using that unfolding occ [symmetric] by simp
    then show ?thesis using exact(1) by (auto simp: table_entries(1) table_ok_def)
  qed
  have "distinct (map cw_occurrences ws')" unfolding occ by (rule table_entries(2) [OF exact(1)])
  then have "distinct (map (\<lambda>w. set (cw_occurrences w)) ws')"
    unfolding distinct_map using sorted by (fastforce simp: inj_on_def intro: sorted_distinct_set_unique)
  moreover have "mset (map (\<lambda>w. set (cw_occurrences w)) ws) = mset (map (\<lambda>w. set (cw_occurrences w)) ws')"
    by (simp add: ws(2))
  ultimately have dist: "distinct (map (\<lambda>w. set (cw_occurrences w)) ws)" using mset_eq_imp_distinct_iff by blast
  have state: "sorted (cw_occurrences w) \<and> set (cw_state w) = {stateRecord (last ops) |key ops.
      ops = ref_writes key (writes v (cw_occurrences w) (va_topological v)) \<and> ops \<noteq> []}" if w: "w \<in> set ws" for w
  proof
    have w': "w \<in> set ws'" using w by (simp add: ws(2))
    show "sorted (cw_occurrences w)" using sorted [OF w'] ..
    have "stateAt v (cw_occurrences w) = Inr (cw_state w)" using spec w' by blast
    then show "set (cw_state w) = {stateRecord (last ops) |key ops.
      ops = ref_writes key (writes v (cw_occurrences w) (va_topological v)) \<and> ops \<noteq> []}" by (rule stateAt_last)
  qed
  show ?thesis
    by (intro exI [of _ v] conjI allI ballI)
      (rule v cuts dist state [THEN conjunct1] state [THEN conjunct2], assumption?)+
qed

text \<open>Two occurrences after a common one and a Ref created initially; the match is one of the two.\<close>

definition sample_operation :: state_operation where
  "sample_operation = \<lparr>so_id = ''r'', so_componentID = ''m'', so_name = ''x'', so_sequence = 0, so_kind = ''create'',
     so_version = 0, so_value = cv_leaf ''nil'' '''',
     so_predecessor = '''', so_valueSource = '''', so_owner = ''m'', so_causes = [], so_dependencies = [], so_successors = [''a'']\<rparr>"

definition sample_computation :: augmented where
  "sample_computation =
     (let c = fst (AddRefOperation NewAugmentedComputation sample_operation True);
          c = fold (\<lambda>i c. fst (AddEventOccurrence c i)) [''a'', ''b'', ''c''] c
      in fst (AddCausalDependency (fst (AddCausalDependency c ''a'' ''b'')) ''a'' ''c''))"

lemma sample_computation_ok: "computation_ok sample_computation"
  unfolding sample_computation_def Let_def
  by (intro AddCausalDependency_ok) (simp add: AddEventOccurrence_ok AddRefOperation_ok NewAugmentedComputation_ok)

theorem consistent_cuts_exact_witness:
  "\<exists>ws v. ConsistentCutStateWitnesses (\<lambda>_ _ _. '''') cw_digest sample_computation [''b''] \<lparr>cl_maxCuts = 9, cl_maxOptional = 9\<rparr> = Inr ws
     \<and> validate sample_computation = Inr v \<and> length ws = 2
     \<and> consistent_cut v {''b''} {''a'', ''b'', ''r''} ''b'' \<and> consistent_cut v {''b''} {''a'', ''b'', ''c'', ''r''} ''b''"
proof -
  let ?limits = "\<lparr>cl_maxCuts = 9, cl_maxOptional = 9\<rparr>"
  have "(case ConsistentCutStateWitnesses (\<lambda>_ _ _. '''') cw_digest sample_computation [''b''] ?limits of Inl _ \<Rightarrow> []
      | Inr ws \<Rightarrow> map (\<lambda>w. (cw_occurrences w, cw_anchors w)) ws)
      = [([''a'', ''b'', ''c'', ''r''], [''b'']), ([''a'', ''b'', ''r''], [''b''])]"
    by code_simp
  then obtain ws where ws: "ConsistentCutStateWitnesses (\<lambda>_ _ _. '''') cw_digest sample_computation [''b''] ?limits = Inr ws"
    "map (\<lambda>w. (cw_occurrences w, cw_anchors w)) ws = [([''a'', ''b'', ''c'', ''r''], [''b'']), ([''a'', ''b'', ''r''], [''b''])]"
    by (auto split: sum.splits)
  obtain v where v: "validate sample_computation = Inr v"
    "\<forall>S A. (\<exists>w \<in> set ws. set (cw_occurrences w) = S \<and> set (cw_anchors w) = A)
       \<longleftrightarrow> A \<noteq> {} \<and> A = {a. consistent_cut v (set [''b''] - {''''}) S a}"
    using consistent_cuts_exact [OF sample_computation_ok ws(1)] by blast
  have "length ws = 2" using arg_cong [OF ws(2), of length] by simp
  moreover have "\<exists>w \<in> set ws. set (cw_occurrences w) = {''a'', ''b'', ''r''} \<and> set (cw_anchors w) = {''b''}"
    "\<exists>w \<in> set ws. set (cw_occurrences w) = {''a'', ''b'', ''c'', ''r''} \<and> set (cw_anchors w) = {''b''}"
    using ws(2) by auto
  then have "{''b''} = {a. consistent_cut v {''b''} {''a'', ''b'', ''r''} a}"
    "{''b''} = {a. consistent_cut v {''b''} {''a'', ''b'', ''c'', ''r''} a}"
    using v(2) by auto
  ultimately show ?thesis using ws(1) v(1) by blast
qed

end
