(* ===== verification/Rapide_Lexer.thy ===== *)
theory Rapide_Lexer
  imports Go_Prelude
begin

text \<open>
  The lexer of \<open>rapide/lexer.go\<close>.  A source is a string of bytes; the position (\<open>offset\<close>, \<open>line\<close>, \<open>column\<close>)
  moves by \<open>advanceByte\<close> only.  Every scanner of the main switch is a function of its own, and the main loop
  ends because each of them advances.
\<close>

section \<open>Tokens\<close>

datatype token_kind = tokenEOF | tokenIdentifier | tokenLParen | tokenRParen | tokenColon | tokenSemicolon | tokenComma
  | tokenDot | tokenPipe | tokenAgent | tokenQuestion | tokenBang | tokenInteger | tokenFloat | tokenCharacter | tokenString
  | tokenPlus | tokenMinus | tokenAmpersand | tokenStar | tokenSlash | tokenAssign | tokenDollar | tokenEqual | tokenNotEqual
  | tokenLess | tokenLessOrEqual | tokenGreater | tokenGreaterOrEqual | tokenSequence | tokenImmediateSequence
  | tokenIndependent | tokenDisjoint | tokenEquivalent | tokenLBracket | tokenRBracket | tokenApostrophe

record position =
  po_offset :: nat
  po_line :: nat
  po_column :: nat

record token =
  tk_kind :: token_kind
  tk_lexeme :: string
  tk_position :: position

record syntax_error =
  se_position :: position
  se_message :: string

record lexer =
  lx_source :: string
  lx_offset :: nat
  lx_line :: nat
  lx_column :: nat

section \<open>Reading\<close>

definition position_of :: "lexer \<Rightarrow> position" where
  "position_of current = \<lparr>po_offset = lx_offset current, po_line = lx_line current, po_column = lx_column current\<rparr>"

definition advanceByte :: "lexer \<Rightarrow> lexer" where
  "advanceByte current =
     (if lx_offset current \<ge> length (lx_source current) then current
      else let current = (if lx_source current ! lx_offset current = CHR 0x0A
          then current\<lparr>lx_line := lx_line current + 1, lx_column := 1\<rparr>
          else current\<lparr>lx_column := lx_column current + 1\<rparr>)
        in current\<lparr>lx_offset := lx_offset current + 1\<rparr>)"

definition peekByte :: "lexer \<Rightarrow> nat \<Rightarrow> char" where
  "peekByte current distance =
     (let index = lx_offset current + distance
      in if index \<ge> length (lx_source current) then CHR 0x00 else lx_source current ! index)"

definition errorAt :: "position \<Rightarrow> string \<Rightarrow> syntax_error" where
  "errorAt position message = \<lparr>se_position = position, se_message = message\<rparr>"

definition isIdentifierStart :: "char \<Rightarrow> bool" where
  "isIdentifierStart c \<longleftrightarrow> c = CHR ''_'' \<or> (CHR ''A'' \<le> c \<and> c \<le> CHR ''Z'') \<or> (CHR ''a'' \<le> c \<and> c \<le> CHR ''z'')"

definition isDigit :: "char \<Rightarrow> bool" where
  "isDigit c \<longleftrightarrow> CHR ''0'' \<le> c \<and> c \<le> CHR ''9''"

definition isIdentifierContinue :: "char \<Rightarrow> bool" where
  "isIdentifierContinue c \<longleftrightarrow> isIdentifierStart c \<or> isDigit c"

definition isCharacterLiteralLetter :: "char \<Rightarrow> bool" where
  "isCharacterLiteralLetter c \<longleftrightarrow> (CHR ''A'' \<le> c \<and> c \<le> CHR ''Z'') \<or> (CHR ''a'' \<le> c \<and> c \<le> CHR ''z'')"

definition isSpace :: "char \<Rightarrow> bool" where
  "isSpace c \<longleftrightarrow> c = CHR '' '' \<or> c = CHR 0x09 \<or> c = CHR 0x0D \<or> c = CHR 0x0A"

lemma advanceByte_simps [simp]:
  "lx_source (advanceByte current) = lx_source current"
  "lx_offset current < length (lx_source current) \<Longrightarrow> lx_offset (advanceByte current) = lx_offset current + 1"
  "length (lx_source current) \<le> lx_offset current \<Longrightarrow> advanceByte current = current"
  by (simp_all add: advanceByte_def Let_def)

text \<open>Loops that advance while the next byte has a property.\<close>

function advanceWhile :: "(char \<Rightarrow> bool) \<Rightarrow> lexer \<Rightarrow> lexer" where
  "advanceWhile P current =
     (if lx_offset current < length (lx_source current) \<and> P (lx_source current ! lx_offset current)
      then advanceWhile P (advanceByte current) else current)"
  by pat_completeness auto
termination
  by (relation "measure (\<lambda>(P, current). length (lx_source current) - lx_offset current)") auto

declare advanceWhile.simps [simp del]

lemma advanceWhile_source [simp]: "lx_source (advanceWhile P current) = lx_source current"
proof (induction P current rule: advanceWhile.induct)
  case (1 P current)
  then show ?case by (subst advanceWhile.simps) simp
qed

lemma advanceWhile_offset: "lx_offset current \<le> lx_offset (advanceWhile P current)"
proof (induction P current rule: advanceWhile.induct)
  case (1 P current)
  then show ?case by (subst advanceWhile.simps) force
qed

function skipSpaceAndComments :: "lexer \<Rightarrow> lexer" where
  "skipSpaceAndComments current =
     (if lx_offset current < length (lx_source current)
      then let c = lx_source current ! lx_offset current
        in if c = CHR ''-'' \<and> peekByte current 1 = CHR ''-''
           then skipSpaceAndComments (advanceWhile (\<lambda>c. c \<noteq> CHR 0x0A) current)
           else if isSpace c then skipSpaceAndComments (advanceByte current)
           else current
      else current)"
  by pat_completeness auto
termination
proof (relation "measure (\<lambda>current. length (lx_source current) - lx_offset current)")
  fix current :: lexer and c
  assume c: "lx_offset current < length (lx_source current)" "c = lx_source current ! lx_offset current"
    "c = CHR ''-'' \<and> peekByte current 1 = CHR ''-''"
  have "lx_source current ! lx_offset current = CHR ''-''" using c(2,3) by simp
  then have "advanceWhile (\<lambda>c. c \<noteq> CHR 0x0A) current = advanceWhile (\<lambda>c. c \<noteq> CHR 0x0A) (advanceByte current)"
    using c(1) by (subst advanceWhile.simps) simp
  then have "lx_offset current < lx_offset (advanceWhile (\<lambda>c. c \<noteq> CHR 0x0A) current)"
    using advanceWhile_offset [of "advanceByte current" "\<lambda>c. c \<noteq> CHR 0x0A"] c(1) by simp
  then show "(advanceWhile (\<lambda>c. c \<noteq> CHR 0x0A) current, current)
      \<in> measure (\<lambda>current. length (lx_source current) - lx_offset current)"
    using c(1) by simp
qed auto

declare skipSpaceAndComments.simps [simp del]

section \<open>Scanners\<close>

text \<open>The text between two offsets, and the token that ends here.\<close>

definition slice :: "lexer \<Rightarrow> nat \<Rightarrow> string" where
  "slice current start = drop start (take (lx_offset current) (lx_source current))"

definition escapeForms :: string where
  "escapeForms = [CHR 0x5C] @ ''n, '' @ [CHR 0x5C, CHR 0x5C] @ '', '' @ [CHR 0x5C, CHR 0x27] @ '', or '' @ [CHR 0x5C] @ ''N''"

definition quoteByte :: "char \<Rightarrow> string" where
  \<comment> \<open>the verb \<open>%q\<close> on a byte below 0x80\<close>
  "quoteByte c =
     (let hex = (\<lambda>n. ''0123456789abcdef'' ! n)
      in CHR 0x27 # (if c = CHR 0x5C \<or> c = CHR 0x27 then [CHR 0x5C, c]
        else if c = CHR 0x07 then [CHR 0x5C, CHR ''a''] else if c = CHR 0x08 then [CHR 0x5C, CHR ''b'']
        else if c = CHR 0x0C then [CHR 0x5C, CHR ''f''] else if c = CHR 0x0A then [CHR 0x5C, CHR ''n'']
        else if c = CHR 0x0D then [CHR 0x5C, CHR ''r''] else if c = CHR 0x09 then [CHR 0x5C, CHR ''t'']
        else if c = CHR 0x0B then [CHR 0x5C, CHR ''v'']
        else if c < CHR 0x20 \<or> c = CHR 0x7F
        then [CHR 0x5C, CHR ''x'', hex (of_char c div 16), hex (of_char c mod 16)] else [c]) @ [CHR 0x27])"

definition scanIdentifier :: "lexer \<Rightarrow> token \<times> lexer" where
  "scanIdentifier start =
     (let current = advanceWhile isIdentifierContinue (advanceByte start)
      in (\<lparr>tk_kind = tokenIdentifier, tk_lexeme = slice current (lx_offset start), tk_position = position_of start\<rparr>, current))"

definition scanNumber :: "lexer \<Rightarrow> syntax_error + token \<times> lexer" where
  "scanNumber start =
     (let number = (\<lambda>kind current. (\<lparr>tk_kind = kind, tk_lexeme = slice current (lx_offset start), tk_position = position_of start\<rparr>, current));
          current = advanceWhile isDigit (advanceByte start)
      in if peekByte current 0 = CHR ''.'' \<and> isDigit (peekByte current 1)
         then let current = advanceWhile isDigit (advanceByte current)
           in if peekByte current 0 = CHR ''e'' \<or> peekByte current 0 = CHR ''E''
              then let current = advanceByte current;
                  current = (if peekByte current 0 = CHR ''+'' \<or> peekByte current 0 = CHR ''-'' then advanceByte current else current)
                in if \<not> isDigit (peekByte current 0)
                   then Inl (errorAt (position_of start) ''floating-point exponent requires at least one decimal digit'')
                   else Inr (number tokenFloat (advanceWhile isDigit current))
              else Inr (number tokenFloat current)
         else Inr (number tokenInteger current))"

fun delimiterFollows :: "string \<Rightarrow> bool" where
  \<comment> \<open>the first byte that is no space is an opening parenthesis\<close>
  "delimiterFollows [] = False"
| "delimiterFollows (c # cs) = (if isSpace c then delimiterFollows cs else c = CHR ''('')"

definition apostropheIntroducesDelimiter :: "lexer \<Rightarrow> bool" where
  "apostropheIntroducesDelimiter current =
     (if delimiterFollows (drop (lx_offset current + 1) (lx_source current)) then True
      else if lx_offset current = 0 then False
      else let previous = lx_source current ! (lx_offset current - 1)
        in isIdentifierContinue previous \<or> previous = CHR '')'' \<or> previous = CHR '']'')"

definition closeCharacter :: "lexer \<Rightarrow> nat \<Rightarrow> lexer \<Rightarrow> syntax_error + token \<times> lexer" where
  "closeCharacter start content current =
     (if peekByte current 0 \<noteq> CHR 0x27
      then Inl (errorAt (position_of current) ''character literal must contain exactly one published character form'')
      else Inr (\<lparr>tk_kind = tokenCharacter, tk_lexeme = slice current content, tk_position = position_of start\<rparr>,
        advanceByte current))"

definition scanCharacter :: "lexer \<Rightarrow> syntax_error + token \<times> lexer" where
  "scanCharacter start =
     (if apostropheIntroducesDelimiter start
      then Inr (\<lparr>tk_kind = tokenApostrophe, tk_lexeme = [CHR 0x27], tk_position = position_of start\<rparr>, advanceByte start)
      else let content = advanceByte start;
          close = closeCharacter start (lx_offset content)
        in if lx_offset content \<ge> length (lx_source content) \<or> peekByte content 0 = CHR 0x0D \<or> peekByte content 0 = CHR 0x0A
           then Inl (errorAt (position_of start) ''unterminated character literal'')
           else if peekByte content 0 = CHR 0x5C
           then let current = advanceByte content; escape = peekByte current 0
             in if escape = CHR ''n'' \<or> escape = CHR 0x5C \<or> escape = CHR 0x27 then close (advanceByte current)
                else if isDigit escape then close (advanceWhile isDigit current)
                else Inl (errorAt (position_of current) (''character literal has an unsupported escape; expected '' @ escapeForms))
           else if isCharacterLiteralLetter (peekByte content 0) then close (advanceByte content)
           else Inl (errorAt (position_of content) 
             (''direct character literal must be an ASCII English letter; use '' @ [CHR 0x5C] @ ''N for another code'')))"

function scanStringContent :: "position \<Rightarrow> lexer \<Rightarrow> syntax_error + lexer" where
  \<comment> \<open>up to the closing quote or the end of the source\<close>
  "scanStringContent position current =
     (if lx_offset current < length (lx_source current) \<and> peekByte current 0 \<noteq> CHR 0x22
      then let c = peekByte current 0
        in if c = CHR 0x0D \<or> c = CHR 0x0A then Inl (errorAt position ''unterminated string literal'')
           else if c = CHR 0x5C
           then let current = advanceByte current; escape = peekByte current 0
             in if escape = CHR ''n'' \<or> escape = CHR 0x5C \<or> escape = CHR 0x27
                then scanStringContent position (advanceByte current)
                else if isDigit escape then scanStringContent position (advanceWhile isDigit current)
                else Inl (errorAt (position_of current) (''string literal has an unsupported escape; expected '' @ escapeForms))
           else if c < CHR 0x20 \<or> c \<ge> CHR 0x80
           then Inl (errorAt (position_of current)
             ''string literal contains a character outside the current printable ASCII subset'')
           else scanStringContent position (advanceByte current)
      else Inr current)"
  by pat_completeness auto

lemma advanceByte_left:
  "length (lx_source (advanceByte current)) - lx_offset (advanceByte current) \<le> length (lx_source current) - lx_offset current"
  by (cases "lx_offset current < length (lx_source current)") auto

lemma advanceWhile_left:
  "length (lx_source (advanceWhile P current)) - lx_offset (advanceWhile P current) \<le> length (lx_source current) - lx_offset current"
  using advanceWhile_offset [of current P] by simp

termination scanStringContent
proof (relation "measure (\<lambda>(position, current). length (lx_source current) - lx_offset current)")
  fix position and current current' :: lexer
  assume "lx_offset current < length (lx_source current) \<and> peekByte current 0 \<noteq> CHR 0x22" "current' = advanceByte current"
  then have "length (lx_source current') - lx_offset current' < length (lx_source current) - lx_offset current" by auto
  then show "((position, advanceByte current'), position, current)
      \<in> measure (\<lambda>(position, current). length (lx_source current) - lx_offset current)"
    "((position, advanceWhile isDigit current'), position, current)
      \<in> measure (\<lambda>(position, current). length (lx_source current) - lx_offset current)"
    using advanceByte_left [of current'] advanceWhile_left [of isDigit current'] by simp_all
qed auto

declare scanStringContent.simps [simp del]

definition scanString :: "lexer \<Rightarrow> syntax_error + token \<times> lexer" where
  "scanString start =
     (let content = advanceByte start
      in case scanStringContent (position_of start) content of
        Inl err \<Rightarrow> Inl err
      | Inr current \<Rightarrow>
          if lx_offset current \<ge> length (lx_source current)
          then Inl (errorAt (position_of start) ''unterminated string literal'')
          else Inr (\<lparr>tk_kind = tokenString, tk_lexeme = slice current (lx_offset content), tk_position = position_of start\<rparr>,
            advanceByte current))"

text \<open>A token of fixed spelling.\<close>

definition symbol :: "lexer \<Rightarrow> token_kind \<Rightarrow> string \<Rightarrow> syntax_error + token \<times> lexer" where
  "symbol start kind lexeme =
     Inr (\<lparr>tk_kind = kind, tk_lexeme = lexeme, tk_position = position_of start\<rparr>, (advanceByte ^^ length lexeme) start)"

definition scanSymbol :: "lexer \<Rightarrow> syntax_error + token \<times> lexer" where
  "scanSymbol start =
     (let c = peekByte start 0; second = peekByte start 1; third = peekByte start 2
      in if c = CHR ''('' then symbol start tokenLParen ''(''
         else if c = CHR '')'' then symbol start tokenRParen '')''
         else if c = CHR ''['' then symbol start tokenLBracket ''[''
         else if c = CHR '']'' then symbol start tokenRBracket '']''
         else if c = CHR '':'' then if second = CHR ''='' then symbol start tokenAssign '':='' else symbol start tokenColon '':''
         else if c = CHR '';'' then symbol start tokenSemicolon '';''
         else if c = CHR '','' then symbol start tokenComma '',''
         else if c = CHR ''.'' then symbol start tokenDot ''.''
         else if c = CHR ''?'' then symbol start tokenQuestion ''?''
         else if c = CHR ''!'' then symbol start tokenBang ''!''
         else if c = CHR ''$'' then symbol start tokenDollar ''$''
         else if c = CHR ''+'' then symbol start tokenPlus ''+''
         else if c = CHR ''&'' then symbol start tokenAmpersand ''&''
         else if c = CHR ''-'' then if second = CHR ''>'' then symbol start tokenSequence ''->'' else symbol start tokenMinus ''-''
         else if c = CHR ''*'' then symbol start tokenStar ''*''
         else if c = CHR ''/'' then if second = CHR ''='' then symbol start tokenNotEqual ''/='' else symbol start tokenSlash ''/''
         else if c = CHR ''='' then if second = CHR ''>'' then symbol start tokenPipe ''=>'' else symbol start tokenEqual ''=''
         else if c = CHR ''<''
         then if second = CHR ''='' \<and> third = CHR ''>'' then symbol start tokenEquivalent ''<=>''
           else if second = CHR ''='' then symbol start tokenLessOrEqual ''<='' else symbol start tokenLess ''<''
         else if c = CHR ''>'' then if second = CHR ''='' then symbol start tokenGreaterOrEqual ''>='' else symbol start tokenGreater ''>''
         else if c = CHR ''|''
         then if second = CHR ''|'' then if third = CHR ''>'' then symbol start tokenAgent ''||>'' else symbol start tokenIndependent ''||''
           else if second = CHR ''>'' then symbol start tokenImmediateSequence ''|>''
           else Inl (errorAt (position_of start) (''unexpected '|'; expected '|>', '||', or '||>'' @ [CHR 0x27]))
         else if c = CHR ''~'' then symbol start tokenDisjoint ''~''
         else if c \<ge> CHR 0x80
         then Inl (errorAt (position_of start) ''non-ASCII identifiers are outside the current Rapide lexical subset'')
         else Inl (errorAt (position_of start) (''unexpected character '' @ quoteByte c)))"

definition scanToken :: "lexer \<Rightarrow> syntax_error + token \<times> lexer" where
  "scanToken start =
     (let c = peekByte start 0
      in if isIdentifierStart c then Inr (scanIdentifier start)
         else if isDigit c then scanNumber start
         else if c = CHR 0x27 then scanCharacter start
         else if c = CHR 0x22 then scanString start
         else scanSymbol start)"

section \<open>The main loop\<close>

definition advances :: "lexer \<Rightarrow> lexer \<Rightarrow> bool" where
  "advances a b \<longleftrightarrow> lx_source b = lx_source a \<and> lx_offset a < lx_offset b"

lemma advances_byte: "lx_offset a < length (lx_source a) \<Longrightarrow> advances a (advanceByte a)"
  by (simp add: advances_def)

lemma advanceByte_offset: "lx_offset a \<le> lx_offset (advanceByte a)"
  by (cases "lx_offset a < length (lx_source a)") auto

lemma advances_then [simp]:
  "advances a b \<Longrightarrow> advances a (advanceByte b)" "advances a b \<Longrightarrow> advances a (advanceWhile P b)"
  using advanceByte_offset [of b] advanceWhile_offset [of b P] by (auto simp: advances_def)

lemma skip_source [simp]: "lx_source (skipSpaceAndComments current) = lx_source current"
proof (induction current rule: skipSpaceAndComments.induct)
  case (1 current)
  then show ?case by (subst skipSpaceAndComments.simps) (simp add: Let_def)
qed

lemma skip_offset: "lx_offset current \<le> lx_offset (skipSpaceAndComments current)"
proof (induction current rule: skipSpaceAndComments.induct)
  case (1 current)
  then show ?case
    using advanceWhile_offset [of current "\<lambda>c. c \<noteq> CHR 0x0A"] advanceByte_offset [of current]
    by (subst skipSpaceAndComments.simps) (fastforce simp: Let_def)
qed

lemma scanStringContent_step:
  assumes "scanStringContent position current = Inr b"
  shows "b = current \<or> lx_offset current < length (lx_source current)
     \<and> (\<exists>after. advances current after \<and> scanStringContent position after = Inr b)"
proof (cases "lx_offset current < length (lx_source current)")
  case True
  then show ?thesis
    using assms advances_byte [OF True] by (subst (asm) scanStringContent.simps) (auto simp: Let_def split: if_splits)
next
  case False
  then show ?thesis using assms by (subst (asm) scanStringContent.simps) simp
qed

lemma advances_trans: "advances a b \<Longrightarrow> advances b c \<Longrightarrow> advances a c"
  by (simp add: advances_def)

lemma scanStringContent_advances:
  "advances a current \<Longrightarrow> scanStringContent position current = Inr b \<Longrightarrow> advances a b"
proof (induction "length (lx_source current) - lx_offset current" arbitrary: current rule: less_induct)
  case less
  from scanStringContent_step [OF less.prems(2)] show ?case
  proof
    assume "lx_offset current < length (lx_source current) \<and> (\<exists>after. advances current after \<and> scanStringContent position after = Inr b)"
    then obtain n where n: "lx_offset current < length (lx_source current)" "advances current n" "scanStringContent position n = Inr b"
      by blast
    then have "length (lx_source n) - lx_offset n < length (lx_source current) - lx_offset current"
      by (simp add: advances_def diff_less_mono2)
    then show ?thesis using less.hyps [OF _ advances_trans [OF less.prems(1) n(2)] n(3)] by blast
  qed (use less.prems in simp)
qed

lemma symbol_advances:
  "lx_offset start < length (lx_source start) \<Longrightarrow> symbol start kind (c # cs) = Inr (t, b) \<Longrightarrow> advances start b"
proof -
  assume s: "lx_offset start < length (lx_source start)" and b: "symbol start kind (c # cs) = Inr (t, b)"
  have "advances start ((advanceByte ^^ Suc n) start)" for n
    by (induction n) (use s advances_byte in auto)
  with b show ?thesis by (auto simp: symbol_def simp del: funpow.simps)
qed

lemma scanToken_advances:
  assumes start: "lx_offset start < length (lx_source start)" and run: "scanToken start = Inr (t, b)"
  shows "advances start b"
proof -
  let ?c = "peekByte start 0"
  note byte = advances_byte [OF start]
  consider "isIdentifierStart ?c" | "\<not> isIdentifierStart ?c" "isDigit ?c"
    | "\<not> isIdentifierStart ?c" "\<not> isDigit ?c" "?c = CHR 0x27" | "\<not> isIdentifierStart ?c" "\<not> isDigit ?c" "?c = CHR 0x22"
    | "scanSymbol start = Inr (t, b)"
    using run by (auto simp: scanToken_def Let_def split: if_splits)
  then show ?thesis
  proof cases
    case 1
    then show ?thesis using run byte by (auto simp: scanToken_def Let_def scanIdentifier_def)
  next
    case 2
    then have "scanNumber start = Inr (t, b)" using run by (simp add: scanToken_def Let_def)
    then show ?thesis using byte by (auto simp: scanNumber_def Let_def split: if_splits)
  next
    case 3
    then have "scanCharacter start = Inr (t, b)" using run by (simp add: scanToken_def Let_def)
    then show ?thesis using byte by (auto simp: scanCharacter_def closeCharacter_def Let_def split: if_splits)
  next
    case 4
    then have "scanString start = Inr (t, b)" using run by (simp add: scanToken_def Let_def)
    then show ?thesis using scanStringContent_advances [OF byte] by (auto simp: scanString_def Let_def split: if_splits sum.splits)
  next
    case 5
    then show ?thesis using symbol_advances [OF start]
      unfolding scanSymbol_def Let_def by (auto split: if_splits)
  qed
qed

function lexLoop :: "lexer \<Rightarrow> token list \<Rightarrow> syntax_error + token list" where
  "lexLoop current tokens =
     (let current = skipSpaceAndComments current
      in if lx_offset current \<ge> length (lx_source current)
         then Inr (tokens @ [\<lparr>tk_kind = tokenEOF, tk_lexeme = '''', tk_position = position_of current\<rparr>])
         else case scanToken current of Inl err \<Rightarrow> Inl err | Inr (t, current) \<Rightarrow> lexLoop current (tokens @ [t]))"
  by pat_completeness auto
termination
proof (relation "measure (\<lambda>(current, tokens). length (lx_source current) - lx_offset current)")
  fix current start b :: lexer and tokens result t
  assume "start = skipSpaceAndComments current" "\<not> length (lx_source start) \<le> lx_offset start"
    "scanToken start = Inr result" "(t, b) = result"
  then have "advances start b" "lx_source start = lx_source current" "lx_offset current \<le> lx_offset start"
    "lx_offset start < length (lx_source start)"
    using scanToken_advances [of start t b] skip_offset [of current] by auto
  then show "((b, tokens @ [t]), current, tokens) \<in> measure (\<lambda>(current, tokens). length (lx_source current) - lx_offset current)"
    by (auto simp: advances_def)
qed simp

declare lexLoop.simps [simp del]

definition lex :: "string \<Rightarrow> syntax_error + token list" where
  "lex source = lexLoop \<lparr>lx_source = source, lx_offset = 0, lx_line = 1, lx_column = 1\<rparr> []"

section \<open>Positions\<close>

text \<open>The state of a lexer after \<open>n\<close> bytes: every position is a function of the offset.\<close>

definition position_at :: "string \<Rightarrow> nat \<Rightarrow> position" where
  "position_at source n = \<lparr>po_offset = n, po_line = 1 + length (filter (\<lambda>c. c = CHR 0x0A) (take n source)),
     po_column = 1 + length (takeWhile (\<lambda>c. c \<noteq> CHR 0x0A) (rev (take n source)))\<rparr>"

definition lexer_at :: "string \<Rightarrow> nat \<Rightarrow> lexer" where
  "lexer_at source n = \<lparr>lx_source = source, lx_offset = n, lx_line = po_line (position_at source n),
     lx_column = po_column (position_at source n)\<rparr>"

lemma lexer_at_simps [simp]:
  "lx_source (lexer_at source n) = source" "lx_offset (lexer_at source n) = n"
  "position_of (lexer_at source n) = position_at source n"
  by (simp_all add: lexer_at_def position_of_def position_at_def)

lemma advanceByte_at [simp]: "n < length source \<Longrightarrow> advanceByte (lexer_at source n) = lexer_at source (Suc n)"
  by (simp add: advanceByte_def lexer_at_def position_at_def Let_def take_Suc_conv_app_nth)

lemma lex_start: "lex source = lexLoop (lexer_at source 0) []"
  by (simp add: lex_def lexer_at_def position_at_def)

definition text_between :: "string \<Rightarrow> nat \<Rightarrow> nat \<Rightarrow> string" where
  "text_between source n m = take (m - n) (drop n source)"

lemma text_between_simps [simp]: "text_between source n n = []"
  by (simp add: text_between_def)

lemma text_between_split: "n \<le> k \<Longrightarrow> k \<le> m \<Longrightarrow> text_between source n m = text_between source n k @ text_between source k m"
  using take_add [of "k - n" "m - k" "drop n source"] by (simp add: text_between_def)

lemma text_between_Suc: "n < length source \<Longrightarrow> n < m \<Longrightarrow> text_between source n m = source ! n # text_between source (Suc n) m"
  by (simp add: text_between_def Cons_nth_drop_Suc [symmetric] take_Cons' Suc_diff_Suc [symmetric])

lemma length_text_between [simp]: "m \<le> length source \<Longrightarrow> length (text_between source n m) = m - n"
  by (simp add: text_between_def)

lemma slice_at [simp]: "slice (lexer_at source m) n = text_between source n m"
  by (simp add: slice_def text_between_def drop_take)

lemma advanceWhile_at:
  "n \<le> length source \<Longrightarrow> \<exists>m. advanceWhile P (lexer_at source n) = lexer_at source m \<and> n \<le> m \<and> m \<le> length source
     \<and> (\<forall>c \<in> set (text_between source n m). P c) \<and> (m < length source \<longrightarrow> \<not> P (source ! m))"
proof (induction "length source - n" arbitrary: n)
  case 0
  then show ?case by (subst advanceWhile.simps) auto
next
  case (Suc k)
  then have n: "n < length source" by simp
  show ?case
  proof (cases "P (source ! n)")
    case True
    have "k = length source - Suc n" "Suc n \<le> length source" using Suc.hyps(2) by simp_all
    from Suc.hyps(1) [OF this] obtain m where m: "advanceWhile P (lexer_at source (Suc n)) = lexer_at source m" "Suc n \<le> m"
      "m \<le> length source" "\<forall>c \<in> set (text_between source (Suc n) m). P c" "m < length source \<longrightarrow> \<not> P (source ! m)" by blast
    have "advanceWhile P (lexer_at source n) = lexer_at source m" using n True m(1) by (subst advanceWhile.simps) simp
    moreover have "\<forall>c \<in> set (text_between source n m). P c" using text_between_Suc [OF n, of m] m(2,4) True by simp
    ultimately show ?thesis using m(2,3,5) by (intro exI [of _ m]) simp
  next
    case False
    then show ?thesis using n by (subst advanceWhile.simps) auto
  qed
qed

lemma advanceWhile_atE:
  assumes "n \<le> length source"
  obtains m where "advanceWhile P (lexer_at source n) = lexer_at source m" "n \<le> m" "m \<le> length source"
    "\<forall>c \<in> set (text_between source n m). P c" "m < length source \<longrightarrow> \<not> P (source ! m)"
  using advanceWhile_at [OF assms, of P] by blast

lemma peekByte_at:
  "peekByte (lexer_at source n) k = c \<Longrightarrow> c \<noteq> CHR 0x00 \<Longrightarrow> n + k < length source \<and> source ! (n + k) = c"
  by (auto simp: peekByte_def Let_def split: if_splits)

lemma peekByte_in [simp]: "n + k < length source \<Longrightarrow> peekByte (lexer_at source n) k = source ! (n + k)"
  by (simp add: peekByte_def)

section \<open>Space and comments\<close>

fun blank :: "bool \<Rightarrow> string \<Rightarrow> bool" where
  \<comment> \<open>spaces and comments only; the flag says whether a comment is open, which its line ends\<close>
  "blank comment [] = True"
| "blank True (c # cs) = blank (c \<noteq> CHR 0x0A) cs"
| "blank False (c # cs) = (if isSpace c then blank False cs
     else case cs of [] \<Rightarrow> False | d # ds \<Rightarrow> c = CHR ''-'' \<and> d = CHR ''-'' \<and> blank True ds)"

lemma blank_comment:
  "\<forall>c \<in> set u. c \<noteq> CHR 0x0A \<Longrightarrow> v = [] \<or> hd v = CHR 0x0A \<Longrightarrow> blank False v \<Longrightarrow> blank True (u @ v)"
proof (induction u)
  case Nil
  then show ?case by (cases v) (auto simp: isSpace_def)
qed simp

lemma skip_comment:
  assumes n: "n < length source" "source ! n = CHR ''-''" "peekByte (lexer_at source n) 1 = CHR ''-''"
  obtains k where "skipSpaceAndComments (lexer_at source n) = skipSpaceAndComments (lexer_at source k)" "n < k" "k \<le> length source"
    "\<And>m. k \<le> m \<Longrightarrow> m \<le> length source \<Longrightarrow> blank False (text_between source k m) \<Longrightarrow> blank False (text_between source n m)"
proof -
  have dash: "Suc n < length source" "source ! Suc n = CHR ''-''" using peekByte_at [OF n(3)] by simp_all
  obtain k where k: "advanceWhile (\<lambda>c. c \<noteq> CHR 0x0A) (lexer_at source n) = lexer_at source k" "n \<le> k" "k \<le> length source"
    "\<forall>c \<in> set (text_between source n k). c \<noteq> CHR 0x0A" "k < length source \<longrightarrow> \<not> source ! k \<noteq> CHR 0x0A"
    by (rule advanceWhile_atE [OF less_imp_le [OF n(1)], of "\<lambda>c. c \<noteq> CHR 0x0A"])
  have "k \<noteq> n" "k \<noteq> Suc n" using k(5) n dash by auto
  then have far: "Suc (Suc n) \<le> k" using k(2) by simp
  show thesis
  proof (rule that [of k])
    show "skipSpaceAndComments (lexer_at source n) = skipSpaceAndComments (lexer_at source k)"
      by (subst skipSpaceAndComments.simps) (simp add: Let_def n(1,2) n(3) [simplified] k(1))
    show "n < k" "k \<le> length source" using far k(3) by simp_all
    fix m
    assume m: "k \<le> m" "m \<le> length source" "blank False (text_between source k m)"
    have "text_between source n m = CHR ''-'' # text_between source (Suc n) m"
      using text_between_Suc [OF n(1), of m] n(2) far m(1) by simp
    also have "text_between source (Suc n) m = CHR ''-'' # text_between source (Suc (Suc n)) m"
      using text_between_Suc [OF dash(1), of m] dash(2) far m(1) by simp
    also have "text_between source (Suc (Suc n)) m = text_between source (Suc (Suc n)) k @ text_between source k m"
      by (rule text_between_split [OF far m(1)])
    finally have split: "text_between source n m
      = CHR ''-'' # CHR ''-'' # text_between source (Suc (Suc n)) k @ text_between source k m" .
    have "text_between source n k = text_between source n (Suc (Suc n)) @ text_between source (Suc (Suc n)) k"
      by (rule text_between_split) (use far in simp_all)
    then have "\<forall>c \<in> set (text_between source (Suc (Suc n)) k). c \<noteq> CHR 0x0A" using k(4) by simp
    moreover have "text_between source k m = [] \<or> hd (text_between source k m) = CHR 0x0A"
      using k(5) m(1,2) text_between_Suc [of k source m] by (cases "k = m") simp_all
    ultimately have "blank True (text_between source (Suc (Suc n)) k @ text_between source k m)"
      using m(3) by (rule blank_comment)
    then show "blank False (text_between source n m)" unfolding split by (simp add: isSpace_def)
  qed
qed

lemma skip_at:
  "n \<le> length source \<Longrightarrow> \<exists>m. skipSpaceAndComments (lexer_at source n) = lexer_at source m \<and> n \<le> m \<and> m \<le> length source
     \<and> blank False (text_between source n m)"
proof (induction "length source - n" arbitrary: n rule: less_induct)
  case less
  consider "n = length source" | "n < length source" "source ! n = CHR ''-''" "peekByte (lexer_at source n) 1 = CHR ''-''"
    | "n < length source" "\<not> (source ! n = CHR ''-'' \<and> peekByte (lexer_at source n) 1 = CHR ''-'')" "isSpace (source ! n)"
    | "n < length source" "\<not> (source ! n = CHR ''-'' \<and> peekByte (lexer_at source n) 1 = CHR ''-'')" "\<not> isSpace (source ! n)"
    using less.prems by fastforce
  then show ?case
  proof cases
    case 1
    then have "skipSpaceAndComments (lexer_at source n) = lexer_at source n" by (subst skipSpaceAndComments.simps) simp
    then show ?thesis using 1 by (intro exI [of _ n]) simp
  next
    case 2
    obtain k where k: "skipSpaceAndComments (lexer_at source n) = skipSpaceAndComments (lexer_at source k)" "n < k"
      "k \<le> length source"
      "\<And>m. k \<le> m \<Longrightarrow> m \<le> length source \<Longrightarrow> blank False (text_between source k m) \<Longrightarrow> blank False (text_between source n m)"
      by (rule skip_comment [OF 2]) (rule that)
    have "length source - k < length source - n" using k(2) 2(1) by simp
    from less.hyps [OF this k(3)] obtain m where "skipSpaceAndComments (lexer_at source k) = lexer_at source m" "k \<le> m"
      "m \<le> length source" "blank False (text_between source k m)" by blast
    then show ?thesis using k(1,2,4) by (intro exI [of _ m]) simp
  next
    case 3
    have "length source - Suc n < length source - n" "Suc n \<le> length source" using 3(1) by simp_all
    from less.hyps [OF this] obtain m where m: "skipSpaceAndComments (lexer_at source (Suc n)) = lexer_at source m" "Suc n \<le> m"
      "m \<le> length source" "blank False (text_between source (Suc n) m)" by blast
    have "skipSpaceAndComments (lexer_at source n) = lexer_at source m"
      using 3 m(1) by (subst skipSpaceAndComments.simps) (auto simp: Let_def)
    moreover have "blank False (text_between source n m)" using text_between_Suc [OF 3(1), of m] m(2,4) 3(3) by simp
    ultimately show ?thesis using m(2,3) by (intro exI [of _ m]) simp
  next
    case 4
    then have "skipSpaceAndComments (lexer_at source n) = lexer_at source n"
      by (subst skipSpaceAndComments.simps) (auto simp: Let_def)
    then show ?thesis using 4(1) by (intro exI [of _ n]) simp
  qed
qed

section \<open>What a token spells\<close>

fun spelling :: "token_kind \<Rightarrow> string option" where
  "spelling tokenLParen = Some ''(''"
| "spelling tokenRParen = Some '')''"
| "spelling tokenLBracket = Some ''[''"
| "spelling tokenRBracket = Some '']''"
| "spelling tokenColon = Some '':''"
| "spelling tokenAssign = Some '':=''"
| "spelling tokenSemicolon = Some '';''"
| "spelling tokenComma = Some '',''"
| "spelling tokenDot = Some ''.''"
| "spelling tokenQuestion = Some ''?''"
| "spelling tokenBang = Some ''!''"
| "spelling tokenDollar = Some ''$''"
| "spelling tokenPlus = Some ''+''"
| "spelling tokenAmpersand = Some ''&''"
| "spelling tokenMinus = Some ''-''"
| "spelling tokenSequence = Some ''->''"
| "spelling tokenStar = Some ''*''"
| "spelling tokenSlash = Some ''/''"
| "spelling tokenNotEqual = Some ''/=''"
| "spelling tokenEqual = Some ''=''"
| "spelling tokenPipe = Some ''=>''"
| "spelling tokenLess = Some ''<''"
| "spelling tokenLessOrEqual = Some ''<=''"
| "spelling tokenEquivalent = Some ''<=>''"
| "spelling tokenGreater = Some ''>''"
| "spelling tokenGreaterOrEqual = Some ''>=''"
| "spelling tokenImmediateSequence = Some ''|>''"
| "spelling tokenIndependent = Some ''||''"
| "spelling tokenAgent = Some ''||>''"
| "spelling tokenDisjoint = Some ''~''"
| "spelling tokenApostrophe = Some [CHR 0x27]"
| "spelling _ = None"

definition digits :: "string \<Rightarrow> bool" where
  "digits cs \<longleftrightarrow> cs \<noteq> [] \<and> (\<forall>c \<in> set cs. isDigit c)"

definition float_text :: "string \<Rightarrow> bool" where
  "float_text cs \<longleftrightarrow> (\<exists>whole fraction exponent. cs = whole @ ''.'' @ fraction @ exponent \<and> digits whole \<and> digits fraction
     \<and> (exponent = [] \<or> (\<exists>e sign power. exponent = e # sign @ power \<and> e \<in> {CHR ''e'', CHR ''E''}
           \<and> sign \<in> {'''', ''+'', ''-''} \<and> digits power)))"

definition character_text :: "string \<Rightarrow> bool" where
  \<comment> \<open>a letter, an escaped letter or a decimal code\<close>
  "character_text cs \<longleftrightarrow> (\<exists>c. cs = [c] \<and> isCharacterLiteralLetter c)
     \<or> (\<exists>c \<in> {CHR ''n'', CHR 0x5C, CHR 0x27}. cs = [CHR 0x5C, c]) \<or> (\<exists>code. cs = CHR 0x5C # code \<and> digits code)"

fun string_text :: "string \<Rightarrow> bool" where
  \<comment> \<open>printable characters, no quote, and every backslash begins an escape\<close>
  "string_text [] = True"
| "string_text (c # cs) = (if c = CHR 0x5C
     then case cs of [] \<Rightarrow> False | d # ds \<Rightarrow> (d \<in> {CHR ''n'', CHR 0x5C, CHR 0x27} \<or> isDigit d) \<and> string_text ds
     else CHR 0x20 \<le> c \<and> c < CHR 0x80 \<and> c \<noteq> CHR 0x22 \<and> string_text cs)"

definition shape :: "token_kind \<Rightarrow> string \<Rightarrow> bool" where
  \<comment> \<open>the lexemes of a kind\<close>
  "shape kind lexeme = (case kind of
      tokenIdentifier \<Rightarrow> lexeme \<noteq> [] \<and> isIdentifierStart (hd lexeme) \<and> (\<forall>c \<in> set lexeme. isIdentifierContinue c)
    | tokenInteger \<Rightarrow> digits lexeme
    | tokenFloat \<Rightarrow> float_text lexeme
    | tokenCharacter \<Rightarrow> character_text lexeme
    | tokenString \<Rightarrow> string_text lexeme
    | tokenEOF \<Rightarrow> False
    | kind \<Rightarrow> spelling kind = Some lexeme)"

definition token_text :: "token \<Rightarrow> string" where
  \<comment> \<open>a token as it stands in the source; the lexeme of a literal leaves out its quotes\<close>
  "token_text t = (if tk_kind t = tokenCharacter then CHR 0x27 # tk_lexeme t @ [CHR 0x27]
     else if tk_kind t = tokenString then CHR 0x22 # tk_lexeme t @ [CHR 0x22] else tk_lexeme t)"

definition scanned :: "string \<Rightarrow> nat \<Rightarrow> token \<Rightarrow> lexer \<Rightarrow> bool" where
  "scanned source n t b \<longleftrightarrow> (\<exists>m. b = lexer_at source m \<and> n < m \<and> m \<le> length source \<and> token_text t = text_between source n m
     \<and> tk_position t = position_at source n \<and> shape (tk_kind t) (tk_lexeme t))"

lemma scanIdentifier_scanned:
  assumes n: "n < length source" "isIdentifierStart (source ! n)" and run: "scanIdentifier (lexer_at source n) = (t, b)"
  shows "scanned source n t b"
proof -
  obtain m where m: "advanceWhile isIdentifierContinue (lexer_at source (Suc n)) = lexer_at source m" "Suc n \<le> m" "m \<le> length source"
    "\<forall>c \<in> set (text_between source (Suc n) m). isIdentifierContinue c"
    using advanceWhile_atE [of "Suc n" source isIdentifierContinue] n(1) by (metis Suc_leI)
  note whole = text_between_Suc [OF n(1), of m]
  show ?thesis
    unfolding scanned_def
    using run n m whole by (intro exI [of _ m])
      (auto simp: scanIdentifier_def Let_def token_text_def shape_def isIdentifierContinue_def)
qed

lemma isDigit_NUL [simp]: "\<not> isDigit (CHR 0x00)"
  by (simp add: isDigit_def)

lemma digit_run:
  assumes n: "n < length source" "isDigit (source ! n)"
  obtains m where "advanceWhile isDigit (lexer_at source n) = lexer_at source m"
    "advanceWhile isDigit (lexer_at source (Suc n)) = lexer_at source m" "n < m" "m \<le> length source"
    "digits (text_between source n m)"
proof -
  obtain m where m: "advanceWhile isDigit (lexer_at source (Suc n)) = lexer_at source m" "Suc n \<le> m" "m \<le> length source"
    "\<forall>c \<in> set (text_between source (Suc n) m). isDigit c"
    using advanceWhile_atE [of "Suc n" source isDigit] n(1) by (metis Suc_leI)
  have "advanceWhile isDigit (lexer_at source n) = lexer_at source m"
    using n m(1) by (subst advanceWhile.simps) simp
  moreover have "digits (text_between source n m)" using text_between_Suc [OF n(1), of m] m(2,4) n(2) by (simp add: digits_def)
  ultimately show thesis using that m(1-3) by simp
qed

lemma peek_digit: "isDigit (peekByte (lexer_at source n) k) \<Longrightarrow> n + k < length source \<and> isDigit (source ! (n + k))"
  using peekByte_at [of source n k] by (metis isDigit_NUL)

lemma text_between_one: "n < length source \<Longrightarrow> text_between source n (Suc n) = [source ! n]"
  using text_between_Suc [of n source "Suc n"] by simp

lemma exponent_scanned:
  assumes f: "peekByte (lexer_at source f) 0 = e" "e \<in> {CHR ''e'', CHR ''E''}"
    and sgn: "x = (if peekByte (lexer_at source (Suc f)) 0 = CHR ''+'' \<or> peekByte (lexer_at source (Suc f)) 0 = CHR ''-''
        then Suc (Suc f) else Suc f)" and digit: "isDigit (peekByte (lexer_at source x) 0)"
  obtains g where "advanceWhile isDigit (lexer_at source x) = lexer_at source g" "f < g" "g \<le> length source"
    "\<exists>sign power. text_between source f g = e # sign @ power \<and> sign \<in> {'''', ''+'', ''-''} \<and> digits power"
proof -
  have fl: "f < length source" "source ! f = e" using peekByte_at [OF f(1)] f(2) by auto
  have xl: "x < length source" "isDigit (source ! x)" using peek_digit [OF digit] by simp_all
  obtain g where g: "advanceWhile isDigit (lexer_at source x) = lexer_at source g" "x < g" "g \<le> length source"
    "digits (text_between source x g)" using digit_run [OF xl] by metis
  have "f < x" by (simp add: sgn)
  have "text_between source f g = e # text_between source (Suc f) x @ text_between source x g"
    using text_between_Suc [OF fl(1), of g] text_between_split [of "Suc f" x g source] fl(2) \<open>f < x\<close> g(2) by simp
  moreover have "text_between source (Suc f) x \<in> {'''', ''+'', ''-''}"
    using sgn peekByte_at [of source "Suc f" 0] text_between_one [of "Suc f" source] by (auto split: if_splits)
  ultimately show thesis using that [OF g(1)] g(2-4) \<open>f < x\<close> by auto
qed

lemma scanNumber_scanned:
  assumes n: "n < length source" "isDigit (source ! n)" and run: "scanNumber (lexer_at source n) = Inr (t, b)"
  shows "scanned source n t b"
proof -
  obtain m where m: "advanceWhile isDigit (lexer_at source (Suc n)) = lexer_at source m" "n < m" "m \<le> length source"
    "digits (text_between source n m)" using digit_run [OF n] by metis
  show ?thesis
  proof (cases "peekByte (lexer_at source m) 0 = CHR ''.'' \<and> isDigit (peekByte (lexer_at source m) 1)")
    case False
    then have "t = \<lparr>tk_kind = tokenInteger, tk_lexeme = text_between source n m, tk_position = position_at source n\<rparr>"
      "b = lexer_at source m" using run n m(1) by (auto simp: scanNumber_def Let_def)
    then show ?thesis unfolding scanned_def using m by (intro exI [of _ m]) (simp add: token_text_def shape_def)
  next
    case True
    then have dot: "m < length source" "source ! m = CHR ''.''" "Suc m < length source" "isDigit (source ! Suc m)"
      using peekByte_at [of source m 0] peek_digit [of source m 1] by auto
    obtain f where f: "advanceWhile isDigit (lexer_at source (Suc m)) = lexer_at source f" "Suc m < f" "f \<le> length source"
      "digits (text_between source (Suc m) f)" using digit_run [OF dot(3,4)] by metis
    have point: "text_between source n g = text_between source n m @ ''.'' @ text_between source (Suc m) f @ text_between source f g"
      if "f \<le> g" for g
      using text_between_split [of n m g source] text_between_Suc [OF dot(1), of g] text_between_split [of "Suc m" f g source]
        m(2) f(2) that dot(2) by simp
    define number where "number g = \<lparr>tk_kind = tokenFloat, tk_lexeme = text_between source n g, tk_position = position_at source n\<rparr>" for g
    have fin: "scanned source n (number g) (lexer_at source g)"
      if g: "f \<le> g" "g \<le> length source" and tail: "text_between source f g = [] \<or> (\<exists>e sign power.
        text_between source f g = e # sign @ power \<and> e \<in> {CHR ''e'', CHR ''E''} \<and> sign \<in> {'''', ''+'', ''-''} \<and> digits power)" for g
    proof -
      have "float_text (text_between source n g)"
        unfolding float_text_def point [OF g(1)] using m(4) f(4) tail by blast
      then show ?thesis unfolding scanned_def using m(2) f(2) g
        by (intro exI [of _ g]) (simp add: number_def token_text_def shape_def)
    qed
    show ?thesis
    proof (cases "peekByte (lexer_at source f) 0 = CHR ''e'' \<or> peekByte (lexer_at source f) 0 = CHR ''E''")
      case False
      then have "t = number f" "b = lexer_at source f"
        using run n m(1) f(1) True dot by (auto simp: scanNumber_def Let_def number_def)
      then show ?thesis using fin [of f] f(3) by simp
    next
      case exp: True
      then have fl: "f < length source" using peekByte_at [of source f 0] by auto
      define x where "x = (if peekByte (lexer_at source (Suc f)) 0 = CHR ''+'' \<or> peekByte (lexer_at source (Suc f)) 0 = CHR ''-''
        then Suc (Suc f) else Suc f)"
      have step: "(if peekByte (lexer_at source (Suc f)) 0 = CHR ''+'' \<or> peekByte (lexer_at source (Suc f)) 0 = CHR ''-''
          then advanceByte (lexer_at source (Suc f)) else lexer_at source (Suc f)) = lexer_at source x"
        using peekByte_at [of source "Suc f" 0] by (auto simp: x_def)
      have run': "(if \<not> isDigit (peekByte (lexer_at source x) 0)
          then Inl (errorAt (position_at source n) ''floating-point exponent requires at least one decimal digit'')
          else Inr (\<lparr>tk_kind = tokenFloat, tk_lexeme = slice (advanceWhile isDigit (lexer_at source x)) n,
            tk_position = position_at source n\<rparr>, advanceWhile isDigit (lexer_at source x))) = Inr (t, b)"
        using run True exp
        unfolding scanNumber_def Let_def advanceByte_at [OF n(1)] m(1) advanceByte_at [OF dot(1)] f(1) advanceByte_at [OF fl] step
        by (simp only: if_True simp_thms lexer_at_simps)
      then have digit: "isDigit (peekByte (lexer_at source x) 0)" by (auto split: if_splits)
      obtain g where g: "advanceWhile isDigit (lexer_at source x) = lexer_at source g" "f < g" "g \<le> length source"
        "\<exists>sign power. text_between source f g = peekByte (lexer_at source f) 0 # sign @ power \<and> sign \<in> {'''', ''+'', ''-''} \<and> digits power"
        by (rule exponent_scanned [OF refl _ x_def digit]) (use exp in auto)
      have "t = number g" "b = lexer_at source g" using run' digit g(1) by (simp_all add: number_def)
      then show ?thesis using fin [of g] g(2-4) exp by auto
    qed
  qed
qed

section \<open>Character and string literals, symbols\<close>

lemma character_closed:
  assumes content: "Suc n < length source" "source ! n = CHR 0x27"
    and m: "Suc n < m" "m \<le> length source" "character_text (text_between source (Suc n) m)"
    and quote: "peekByte (lexer_at source m) 0 = CHR 0x27"
    and t: "t = \<lparr>tk_kind = tokenCharacter, tk_lexeme = text_between source (Suc n) m, tk_position = position_at source n\<rparr>"
    and b: "b = advanceByte (lexer_at source m)"
  shows "scanned source n t b"
proof -
  have q: "m < length source" "source ! m = CHR 0x27" using peekByte_at [OF quote] by simp_all
  have "text_between source n (Suc m) = CHR 0x27 # text_between source (Suc n) (Suc m)"
    using text_between_Suc [of n source "Suc m"] content m(1) by simp
  also have "text_between source (Suc n) (Suc m) = text_between source (Suc n) m @ [CHR 0x27]"
    using text_between_split [of "Suc n" m "Suc m" source] m(1) q by (simp add: text_between_one)
  finally have "token_text t = text_between source n (Suc m)" by (simp add: t token_text_def)
  then show ?thesis unfolding scanned_def
    using m q by (intro exI [of _ "Suc m"]) (simp add: t b shape_def)
qed

lemma apostrophe_scanned:
  assumes "n < length source" "source ! n = CHR 0x27"
  shows "scanned source n \<lparr>tk_kind = tokenApostrophe, tk_lexeme = [CHR 0x27], tk_position = position_at source n\<rparr>
    (advanceByte (lexer_at source n))"
  unfolding scanned_def
  using assms by (intro exI [of _ "Suc n"]) (simp add: token_text_def shape_def text_between_one)

lemma scanCharacter_run:
  assumes n: "n < length source" "source ! n = CHR 0x27" and no: "\<not> apostropheIntroducesDelimiter (lexer_at source n)"
    and run: "scanCharacter (lexer_at source n) = Inr (t, b)"
  defines "close \<equiv> closeCharacter (lexer_at source n) (Suc n)"
    and "c \<equiv> peekByte (lexer_at source (Suc n)) 0" and "d \<equiv> peekByte (lexer_at source (Suc (Suc n))) 0"
  shows "Suc n < length source"
    and "c = CHR 0x5C \<and> d \<in> {CHR ''n'', CHR 0x5C, CHR 0x27} \<and> close (advanceByte (lexer_at source (Suc (Suc n)))) = Inr (t, b)
      \<or> c = CHR 0x5C \<and> isDigit d \<and> close (advanceWhile isDigit (lexer_at source (Suc (Suc n)))) = Inr (t, b)
      \<or> isCharacterLiteralLetter c \<and> close (advanceByte (lexer_at source (Suc n))) = Inr (t, b)"
proof -
  show inside: "Suc n < length source"
  proof (rule ccontr)
    assume "\<not> Suc n < length source"
    then show False using run unfolding scanCharacter_def Let_def if_not_P [OF no] advanceByte_at [OF n(1)] by simp
  qed
  have run': "(if c = CHR 0x0D \<or> c = CHR 0x0A then Inl (errorAt (position_at source n) ''unterminated character literal'')
     else if c = CHR 0x5C
     then if d = CHR ''n'' \<or> d = CHR 0x5C \<or> d = CHR 0x27 then close (advanceByte (lexer_at source (Suc (Suc n))))
       else if isDigit d then close (advanceWhile isDigit (lexer_at source (Suc (Suc n))))
       else Inl (errorAt (position_at source (Suc (Suc n)))
         (''character literal has an unsupported escape; expected '' @ escapeForms))
     else if isCharacterLiteralLetter c then close (advanceByte (lexer_at source (Suc n)))
     else Inl (errorAt (position_at source (Suc n))
       (''direct character literal must be an ASCII English letter; use '' @ [CHR 0x5C] @ ''N for another code''))) = Inr (t, b)"
    using run inside
    unfolding scanCharacter_def Let_def if_not_P [OF no] advanceByte_at [OF n(1)] advanceByte_at [OF inside] lexer_at_simps
      close_def c_def d_def by simp
  show "c = CHR 0x5C \<and> d \<in> {CHR ''n'', CHR 0x5C, CHR 0x27} \<and> close (advanceByte (lexer_at source (Suc (Suc n)))) = Inr (t, b)
      \<or> c = CHR 0x5C \<and> isDigit d \<and> close (advanceWhile isDigit (lexer_at source (Suc (Suc n)))) = Inr (t, b)
      \<or> isCharacterLiteralLetter c \<and> close (advanceByte (lexer_at source (Suc n))) = Inr (t, b)"
    using run' by (simp split: if_splits)
qed

lemma scanCharacter_scanned:
  assumes n: "n < length source" "source ! n = CHR 0x27" and run: "scanCharacter (lexer_at source n) = Inr (t, b)"
  shows "scanned source n t b"
proof (cases "apostropheIntroducesDelimiter (lexer_at source n)")
  case True
  then show ?thesis using run apostrophe_scanned [OF n] by (auto simp: scanCharacter_def)
next
  case False
  have inside: "Suc n < length source" by (rule scanCharacter_run(1) [OF n False run])
  let ?close = "closeCharacter (lexer_at source n) (Suc n)" and ?c = "peekByte (lexer_at source (Suc n)) 0" and ?d = "peekByte (lexer_at source (Suc (Suc n))) 0"
  have closed: "scanned source n t b"
    if "?close (lexer_at source m) = Inr (t, b)" "Suc n < m" "m \<le> length source" "character_text (text_between source (Suc n) m)" for m
    by (rule character_closed [OF inside n(2) that(2-4)]) (use that(1) in \<open>auto simp: closeCharacter_def split: if_splits\<close>)
  consider (code) "?c = CHR 0x5C" "isDigit ?d"
      "?close (advanceWhile isDigit (lexer_at source (Suc (Suc n)))) = Inr (t, b)"
    | (escape) "?c = CHR 0x5C" "?d \<in> {CHR ''n'', CHR 0x5C, CHR 0x27}"
      "?close (advanceByte (lexer_at source (Suc (Suc n)))) = Inr (t, b)"
    | (letter) "isCharacterLiteralLetter ?c" "?close (advanceByte (lexer_at source (Suc n))) = Inr (t, b)"
    using scanCharacter_run(2) [OF n False run]
  proof (elim disjE conjE)
  qed (rule that(2) that(1) that(3); assumption)+
  then show ?thesis
  proof cases
    case code
    then have far: "Suc (Suc n) < length source" "isDigit (source ! Suc (Suc n))"
      using peek_digit [of source "Suc (Suc n)" 0] by simp_all
    obtain m where m: "advanceWhile isDigit (lexer_at source (Suc (Suc n))) = lexer_at source m" "Suc (Suc n) < m"
      "m \<le> length source" "digits (text_between source (Suc (Suc n)) m)" using digit_run [OF far] by metis
    have "text_between source (Suc n) m = CHR 0x5C # text_between source (Suc (Suc n)) m"
      using text_between_Suc [OF inside, of m] m(2) code(1) inside by simp
    then have "character_text (text_between source (Suc n) m)" using m(4) by (simp add: character_text_def)
    then show ?thesis using closed [OF code(3) [unfolded m(1)] _ m(3)] m(2) by simp
  next
    case escape
    obtain d where d: "?d = d" "d \<in> {CHR ''n'', CHR 0x5C, CHR 0x27}" using escape(2) by simp
    then have far: "Suc (Suc n) < length source" "source ! Suc (Suc n) = d"
      using peekByte_at [OF d(1)] by auto
    have "text_between source (Suc n) (Suc (Suc (Suc n))) = [CHR 0x5C, d]"
      using text_between_Suc [OF inside, of "Suc (Suc (Suc n))"] far escape(1) inside by (simp add: text_between_one)
    then have "character_text (text_between source (Suc n) (Suc (Suc (Suc n))))" using d(2) by (auto simp: character_text_def)
    then show ?thesis using closed [OF escape(3) [unfolded advanceByte_at [OF far(1)]]] far(1) by simp
  next
    case letter
    then have "character_text (text_between source (Suc n) (Suc (Suc n)))"
      using inside by (simp add: character_text_def text_between_one)
    then show ?thesis using closed [OF letter(2) [unfolded advanceByte_at [OF inside]]] inside by simp
  qed
qed

lemma string_text_digits: "\<forall>c \<in> set u. isDigit c \<Longrightarrow> string_text v \<Longrightarrow> string_text (u @ v)"
proof (induction u)
  case (Cons c u)
  have "CHR 0x20 \<le> c" "c \<noteq> CHR 0x22" "c \<noteq> CHR 0x5C" "c < CHR 0x80"
    using Cons.prems(1) by (auto simp: isDigit_def less_char_def less_eq_char_def)
  then show ?case using Cons by simp
qed simp

lemma string_escape:
  assumes n: "n < length source" "source ! n = CHR 0x5C" "Suc n < m" "m \<le> length source"
    and d: "source ! Suc n \<in> {CHR ''n'', CHR 0x5C, CHR 0x27} \<or> isDigit (source ! Suc n)"
    and rest: "string_text (text_between source (Suc (Suc n)) m)"
  shows "string_text (text_between source n m)"
  using text_between_Suc [OF n(1), of m] text_between_Suc [of "Suc n" source m] n d rest by auto

lemma scanStringContent_at:
  assumes "n \<le> length source" "scanStringContent position (lexer_at source n) = Inr b"
  shows "\<exists>m. b = lexer_at source m \<and> n \<le> m \<and> m \<le> length source \<and> string_text (text_between source n m)
    \<and> (m < length source \<longrightarrow> source ! m = CHR 0x22)"
  using assms
proof (induction "length source - n" arbitrary: n rule: less_induct)
  case less
  show ?case
  proof (cases "n < length source \<and> source ! n \<noteq> CHR 0x22")
    case False
    then have "b = lexer_at source n" using less.prems by (subst (asm) scanStringContent.simps) (auto split: if_splits)
    then show ?thesis using False less.prems(1) by (intro exI [of _ n]) auto
  next
    case True
    let ?d = "peekByte (lexer_at source (Suc n)) 0"
    have n: "n < length source" "source ! n \<noteq> CHR 0x22" using True by simp_all
    consider (escape) "source ! n = CHR 0x5C" "?d = CHR ''n'' \<or> ?d = CHR 0x5C \<or> ?d = CHR 0x27"
        "scanStringContent position (advanceByte (lexer_at source (Suc n))) = Inr b"
      | (code) "source ! n = CHR 0x5C" "isDigit ?d"
        "scanStringContent position (advanceWhile isDigit (lexer_at source (Suc n))) = Inr b"
      | (plain) "source ! n \<noteq> CHR 0x5C" "CHR 0x20 \<le> source ! n" "source ! n < CHR 0x80"
        "scanStringContent position (lexer_at source (Suc n)) = Inr b"
      using less.prems(2) n by (subst (asm) scanStringContent.simps) (auto simp: Let_def not_less not_le split: if_splits)
    then show ?thesis
    proof cases
      case escape
      then obtain e where e: "?d = e" "e \<in> {CHR ''n'', CHR 0x5C, CHR 0x27}" by simp
      then have d: "Suc n < length source" "source ! Suc n = e" using peekByte_at [OF e(1)] by auto
      have "length source - Suc (Suc n) < length source - n" "Suc (Suc n) \<le> length source" using d(1) by simp_all
      from less.hyps [OF this] escape(3) d(1) obtain m where m: "b = lexer_at source m" "Suc (Suc n) \<le> m" "m \<le> length source"
        "string_text (text_between source (Suc (Suc n)) m)" "m < length source \<longrightarrow> source ! m = CHR 0x22" by auto
      have "string_text (text_between source n m)"
        by (rule string_escape [OF n(1) escape(1) _ m(3) _ m(4)]) (use m(2) e(2) d(2) in auto)
      then show ?thesis using m by (intro exI [of _ m]) simp
    next
      case code
      then have d: "Suc n < length source" "isDigit (source ! Suc n)" using peek_digit [of source "Suc n" 0] by simp_all
      obtain k where k: "advanceWhile isDigit (lexer_at source (Suc n)) = lexer_at source k" "Suc n < k" "k \<le> length source"
        "digits (text_between source (Suc n) k)" using digit_run [OF d] by metis
      have "length source - k < length source - n" using k(2) n(1) by simp
      from less.hyps [OF this k(3)] code(3) k(1) obtain m where m: "b = lexer_at source m" "k \<le> m" "m \<le> length source"
        "string_text (text_between source k m)" "m < length source \<longrightarrow> source ! m = CHR 0x22" by auto
      have "text_between source (Suc n) k = source ! Suc n # text_between source (Suc (Suc n)) k"
        using text_between_Suc [OF d(1) k(2)] .
      then have "\<forall>c \<in> set (text_between source (Suc (Suc n)) k). isDigit c" using k(4) by (simp add: digits_def)
      then have "string_text (text_between source (Suc (Suc n)) k @ text_between source k m)" using m(4) by (rule string_text_digits)
      then have rest: "string_text (text_between source (Suc (Suc n)) m)"
        using text_between_split [of "Suc (Suc n)" k m source] k(2) m(2) by simp
      have "string_text (text_between source n m)"
        by (rule string_escape [OF n(1) code(1) _ m(3) disjI2 [OF d(2)] rest]) (use k(2) m(2) in simp)
      then show ?thesis using m k(2) by (intro exI [of _ m]) simp
    next
      case plain
      have "length source - Suc n < length source - n" "Suc n \<le> length source" using n(1) by simp_all
      from less.hyps [OF this plain(4)] obtain m where m: "b = lexer_at source m" "Suc n \<le> m" "m \<le> length source"
        "string_text (text_between source (Suc n) m)" "m < length source \<longrightarrow> source ! m = CHR 0x22" by blast
      have "string_text (text_between source n m)" using text_between_Suc [OF n(1), of m] m(2,4) plain n(2) by simp
      then show ?thesis using m by (intro exI [of _ m]) simp
    qed
  qed
qed

lemma scanString_scanned:
  assumes n: "n < length source" "source ! n = CHR 0x22" and run: "scanString (lexer_at source n) = Inr (t, b)"
  shows "scanned source n t b"
proof -
  obtain c where c: "scanStringContent (position_at source n) (lexer_at source (Suc n)) = Inr c"
    and c': "lx_offset c < length (lx_source c)" "b = advanceByte c"
      "t = \<lparr>tk_kind = tokenString, tk_lexeme = slice c (Suc n), tk_position = position_at source n\<rparr>"
    using run n by (auto simp: scanString_def Let_def not_le split: sum.splits if_splits)
  obtain m where m: "c = lexer_at source m" "Suc n \<le> m" "m \<le> length source" "string_text (text_between source (Suc n) m)"
    "m < length source \<longrightarrow> source ! m = CHR 0x22"
    using scanStringContent_at [OF _ c] n(1) by auto
  have q: "m < length source" "source ! m = CHR 0x22" using c'(1) m(1,5) by simp_all
  have "text_between source n (Suc m) = CHR 0x22 # text_between source (Suc n) (Suc m)"
    using text_between_Suc [of n source "Suc m"] n m(2) by simp
  also have "text_between source (Suc n) (Suc m) = text_between source (Suc n) m @ [CHR 0x22]"
    using text_between_split [of "Suc n" m "Suc m" source] m(2) q by (simp add: text_between_one)
  finally have "token_text t = text_between source n (Suc m)" by (simp add: c'(3) m(1) token_text_def)
  then show ?thesis unfolding scanned_def
    using m q c' by (intro exI [of _ "Suc m"]) (simp add: shape_def)
qed

lemma spelling_shape: "spelling kind = Some lexeme \<Longrightarrow> shape kind lexeme \<and> kind \<noteq> tokenCharacter \<and> kind \<noteq> tokenString \<and> kind \<noteq> tokenEOF"
  by (cases kind) (simp_all add: shape_def)

lemma advance_times: "n + k \<le> length source \<Longrightarrow> (advanceByte ^^ k) (lexer_at source n) = lexer_at source (n + k)"
  by (induction k) simp_all

lemma peeked_text:
  "map (peekByte (lexer_at source n)) [0..<length cs] = cs \<Longrightarrow> CHR 0x00 \<notin> set cs \<Longrightarrow> n \<le> length source
   \<Longrightarrow> n + length cs \<le> length source \<and> text_between source n (n + length cs) = cs"
proof (induction cs rule: rev_induct)
  case (snoc c cs)
  then have c: "peekByte (lexer_at source n) (length cs) = c" "c \<noteq> CHR 0x00"
    and cs: "n + length cs \<le> length source" "text_between source n (n + length cs) = cs" by auto
  have "n + length cs < length source" "source ! (n + length cs) = c" using peekByte_at [OF c] by simp_all
  then show ?case
    using text_between_split [of n "n + length cs" "n + length (cs @ [c])" source] cs(2) by (simp add: text_between_one)
qed simp

lemma symbol_scanned:
  assumes run: "symbol (lexer_at source n) kind lexeme = Inr (t, b)" and n: "n \<le> length source"
    and kind: "spelling kind = Some lexeme" and peek: "map (peekByte (lexer_at source n)) [0..<length lexeme] = lexeme"
    and proper: "lexeme \<noteq> []" "CHR 0x00 \<notin> set lexeme"
  shows "scanned source n t b"
proof -
  note there = peeked_text [OF peek proper(2) n]
  have "t = \<lparr>tk_kind = kind, tk_lexeme = lexeme, tk_position = position_at source n\<rparr>" "b = lexer_at source (n + length lexeme)"
    using run there advance_times [of n "length lexeme" source] by (simp_all add: symbol_def)
  then show ?thesis unfolding scanned_def
    using there spelling_shape [OF kind] proper(1) by (intro exI [of _ "n + length lexeme"]) (simp add: token_text_def)
qed

lemma upt_small: "[0..<Suc 0] = [0::nat]" "[0..<2] = [0, 1::nat]" "[0..<3] = [0, 1, 2::nat]"
  by (simp_all add: upt_rec)

lemma symbols_scanned:
  assumes n: "n < length source"
  shows "symbol (lexer_at source n) kind [c] = Inr (t, b) \<Longrightarrow> spelling kind = Some [c]
      \<Longrightarrow> peekByte (lexer_at source n) 0 = c \<Longrightarrow> c \<noteq> CHR 0x00 \<Longrightarrow> scanned source n t b"
    and "symbol (lexer_at source n) kind [c, d] = Inr (t, b) \<Longrightarrow> spelling kind = Some [c, d]
      \<Longrightarrow> peekByte (lexer_at source n) 0 = c \<Longrightarrow> c \<noteq> CHR 0x00 \<Longrightarrow> peekByte (lexer_at source n) 1 = d
      \<Longrightarrow> d \<noteq> CHR 0x00 \<Longrightarrow> scanned source n t b"
    and "symbol (lexer_at source n) kind [c, d, e] = Inr (t, b) \<Longrightarrow> spelling kind = Some [c, d, e]
      \<Longrightarrow> peekByte (lexer_at source n) 0 = c \<Longrightarrow> c \<noteq> CHR 0x00 \<Longrightarrow> peekByte (lexer_at source n) 1 = d
      \<Longrightarrow> d \<noteq> CHR 0x00 \<Longrightarrow> peekByte (lexer_at source n) 2 = e \<Longrightarrow> e \<noteq> CHR 0x00 \<Longrightarrow> scanned source n t b"
  by (erule symbol_scanned; use n in \<open>simp add: upt_small numeral_2_eq_2 [symmetric] numeral_3_eq_3 [symmetric]\<close>)+

lemma scanSymbol_scanned:
  assumes n: "n < length source" and run: "scanSymbol (lexer_at source n) = Inr (t, b)"
  shows "scanned source n t b"
  using run unfolding scanSymbol_def Let_def by (auto split: if_splits elim!: symbols_scanned [OF n])

lemma scanToken_scanned:
  assumes n: "n < length source" and run: "scanToken (lexer_at source n) = Inr (t, b)"
  shows "scanned source n t b"
proof -
  have c: "peekByte (lexer_at source n) 0 = source ! n" using n by simp
  show ?thesis
    using run scanIdentifier_scanned [OF n] scanNumber_scanned [OF n] scanCharacter_scanned [OF n] scanString_scanned [OF n]
      scanSymbol_scanned [OF n]
    unfolding scanToken_def Let_def c by (auto split: if_splits)
qed

section \<open>The tokens tile the source\<close>

fun tiles :: "string \<Rightarrow> nat \<Rightarrow> token list \<Rightarrow> string list \<Rightarrow> bool" where
  \<comment> \<open>from an offset on, gaps and tokens alternate to the end of the source\<close>
  "tiles source n (t # tokens) (gap # gaps) \<longleftrightarrow> (let m = n + length gap
     in m \<le> length source \<and> text_between source n m = gap \<and> blank False gap \<and> tk_position t = position_at source m
        \<and> (if m = length source then t = \<lparr>tk_kind = tokenEOF, tk_lexeme = '''', tk_position = position_at source m\<rparr> \<and> tokens = [] \<and> gaps = []
           else shape (tk_kind t) (tk_lexeme t) \<and> m + length (token_text t) \<le> length source
             \<and> text_between source m (m + length (token_text t)) = token_text t
             \<and> tiles source (m + length (token_text t)) tokens gaps))"
| "tiles source n _ _ \<longleftrightarrow> False"

lemma lexLoop_tiles:
  "n \<le> length source \<Longrightarrow> lexLoop (lexer_at source n) before = Inr tokens
   \<Longrightarrow> \<exists>ts gaps. tokens = before @ ts \<and> tiles source n ts gaps"
proof (induction "length source - n" arbitrary: n before rule: less_induct)
  case less
  obtain m where m: "skipSpaceAndComments (lexer_at source n) = lexer_at source m" "n \<le> m" "m \<le> length source"
    "blank False (text_between source n m)" using skip_at [OF less.prems(1)] by blast
  have len: "n + length (text_between source n m) = m" using m(2,3) by simp
  show ?case
  proof (cases "m = length source")
    case True
    let ?t = "\<lparr>tk_kind = tokenEOF, tk_lexeme = '''', tk_position = position_at source m\<rparr>"
    have "tokens = before @ [?t]" using less.prems(2) m(1) True by (subst (asm) lexLoop.simps) simp
    moreover have "tiles source n [?t] [text_between source n m]" using True m by (simp add: len)
    ultimately show ?thesis by blast
  next
    case False
    then have inside: "m < length source" using m(3) by simp
    obtain t b where t: "scanToken (lexer_at source m) = Inr (t, b)" "lexLoop b (before @ [t]) = Inr tokens"
      using less.prems(2) m(1) inside by (subst (asm) lexLoop.simps) (auto split: sum.splits)
    obtain k where k: "b = lexer_at source k" "m < k" "k \<le> length source" "token_text t = text_between source m k"
      "tk_position t = position_at source m" "shape (tk_kind t) (tk_lexeme t)"
      using scanToken_scanned [OF inside t(1)] unfolding scanned_def by blast
    have "length source - k < length source - n" using k(2,3) m(2) inside by simp
    from less.hyps [OF this k(3) t(2) [unfolded k(1)]]
    obtain ts gaps where ts: "tokens = (before @ [t]) @ ts" "tiles source k ts gaps" by blast
    have "m + length (token_text t) = k" using k(2-4) by simp
    then have "tiles source n (t # ts) (text_between source n m # gaps)"
      using inside m k ts(2) by (simp add: len)
    then show ?thesis using ts(1) by (intro exI [of _ "t # ts"] exI [of _ "text_between source n m # gaps"]) simp
  qed
qed

definition assemble :: "string list \<Rightarrow> token list \<Rightarrow> string" where
  "assemble gaps tokens = concat (map2 (\<lambda>gap t. gap @ token_text t) gaps tokens)"

lemma assemble_Cons [simp]: "assemble (gap # gaps) (t # tokens) = gap @ token_text t @ assemble gaps tokens"
  by (simp add: assemble_def)

lemma assemble_Nil [simp]: "assemble [] tokens = []" "assemble gaps [] = []"
  by (simp_all add: assemble_def)

lemma tiles_whole:
  "tiles source n tokens gaps \<Longrightarrow> length gaps = length tokens \<and> drop n source = assemble gaps tokens
     \<and> (\<forall>gap \<in> set gaps. blank False gap) \<and> (\<forall>t \<in> set (butlast tokens). shape (tk_kind t) (tk_lexeme t))
     \<and> tokens \<noteq> [] \<and> last tokens = \<lparr>tk_kind = tokenEOF, tk_lexeme = '''', tk_position = position_at source (length source)\<rparr>"
proof (induction source n tokens gaps rule: tiles.induct)
  case (1 source n t tokens gap gaps)
  define m where "m = n + length gap"
  have m: "m \<le> length source" "text_between source n m = gap" "blank False gap" using 1(2) by (simp_all add: Let_def m_def)
  have split: "drop n source = gap @ drop m source"
    using m(2) append_take_drop_id [of "m - n" "drop n source"] by (simp add: text_between_def m_def add.commute)
  show ?case
  proof (cases "m = length source")
    case True
    then have "t = \<lparr>tk_kind = tokenEOF, tk_lexeme = '''', tk_position = position_at source m\<rparr>" "tokens = []" "gaps = []"
      using 1(2) by (simp_all add: Let_def m_def)
    then show ?thesis using True m split by (simp add: token_text_def)
  next
    case False
    define k where "k = m + length (token_text t)"
    have k: "shape (tk_kind t) (tk_lexeme t)" "k \<le> length source" "text_between source m k = token_text t" "tiles source k tokens gaps"
      using 1(2) False unfolding m_def k_def by (simp_all add: Let_def)
    have "drop m source = token_text t @ drop k source"
      using k(3) append_take_drop_id [of "k - m" "drop m source"] by (simp add: text_between_def k_def add.commute)
    then show ?thesis using 1(1) [OF m_def _ k(4) [unfolded k_def]] False split m(3) k by (simp add: k_def)
  qed
qed simp_all

lemma tiles_position:
  "tiles source n tokens gaps \<Longrightarrow> i < length tokens
   \<Longrightarrow> tk_position (tokens ! i) = position_at source (n + length (assemble (take i gaps) (take i tokens)) + length (gaps ! i))"
proof (induction source n tokens gaps arbitrary: i rule: tiles.induct)
  case (1 source n t tokens gap gaps)
  show ?case
  proof (cases i)
    case 0
    then show ?thesis using 1(2) by (simp add: Let_def)
  next
    case (Suc j)
    define m k where "m = n + length gap" and "k = m + length (token_text t)"
    have k: "m \<noteq> length source" "tiles source k tokens gaps" "j < length tokens"
      using 1(2,3) Suc unfolding m_def k_def by (auto simp: Let_def split: if_splits)
    show ?thesis using 1(1) [OF m_def k(1) k(2) [unfolded k_def] k(3)] Suc by (simp add: m_def k_def add.assoc)
  qed
qed simp_all

text \<open>C40:
  The lexer loses nothing and misplaces nothing.  Whenever \<open>lex\<close> accepts a source, the source is the
  concatenation of the texts of the tokens, each after a gap of space and comments only; the position of every
  token is the offset, line and column where its text begins; every lexeme has the form of its kind (the fixed
  spelling, an identifier, digits, a float, a character or string content); and one end-of-file token at the end
  of the source closes the list.\<close>
theorem lex_tiles_source:
  assumes "lex source = Inr tokens"
  shows "\<exists>gaps. length gaps = length tokens \<and> source = assemble gaps tokens \<and> (\<forall>gap \<in> set gaps. blank False gap)
    \<and> (\<forall>i < length tokens. tk_position (tokens ! i)
          = position_at source (length (assemble (take i gaps) (take i tokens) @ gaps ! i)))
    \<and> (\<forall>t \<in> set (butlast tokens). shape (tk_kind t) (tk_lexeme t)) \<and> tokens \<noteq> []
    \<and> last tokens = \<lparr>tk_kind = tokenEOF, tk_lexeme = '''', tk_position = position_at source (length source)\<rparr>"
proof -
  obtain gaps where tiles: "tiles source 0 tokens gaps"
    using lexLoop_tiles [of 0 source "[]"] assms by (auto simp: lex_start)
  show ?thesis
    using tiles_whole [OF tiles] tiles_position [OF tiles] by (intro exI [of _ gaps]) simp
qed

definition sample_source :: string where
  "sample_source = ''x:=1.5e+2 -- sum'' @ [CHR 0x0A] @ ''||> T'' @ [CHR 0x27] @ ''(E)'' @ [CHR 0x22] @ ''a'' @ [CHR 0x5C] @ ''n'' @ [CHR 0x22]"

lemma sample_tokens:
  "map_sum id (map (\<lambda>t. (tk_kind t, tk_lexeme t, po_line (tk_position t), po_column (tk_position t)))) (lex sample_source)
   = Inr [(tokenIdentifier, ''x'', 1, 1), (tokenAssign, '':='', 1, 2), (tokenFloat, ''1.5e+2'', 1, 4), (tokenAgent, ''||>'', 2, 1),
      (tokenIdentifier, ''T'', 2, 5), (tokenApostrophe, [CHR 0x27], 2, 6), (tokenLParen, ''('', 2, 7), (tokenIdentifier, ''E'', 2, 8),
      (tokenRParen, '')'', 2, 9), (tokenString, ''a'' @ [CHR 0x5C] @ ''n'', 2, 10), (tokenEOF, '''', 2, 15)]"
  by code_simp

theorem lex_tiles_source_witness:
  "\<exists>tokens gaps. lex sample_source = Inr tokens \<and> length tokens = 11 \<and> sample_source = assemble gaps tokens
    \<and> (\<forall>gap \<in> set gaps. blank False gap)"
proof -
  obtain tokens where t: "lex sample_source = Inr tokens" "length tokens = 11"
    using sample_tokens by (cases "lex sample_source") (auto dest: arg_cong [where f = length])
  then show ?thesis using lex_tiles_source [OF t(1)] by blast
qed

end
