(* ===== verification/Visible_Poset.thy ===== *)
theory Visible_Poset
  imports Poset_Query Go_Text
begin

text \<open>
  The reading interface of the pattern language (\<open>PosetReader\<close> of \<open>pattern/pattern.go\<close>) and its two
  providers: the poset itself and \<open>pattern/projection.go\<close>, the visible-poset view that keeps some of the
  events and inherits causality through the hidden ones.  \<open>causal_view\<close> is the contract of the
  interface; both providers are interpreted.
\<close>

section \<open>The interface\<close>

record poset_reader =
  rd_All :: event_set
  rd_ByName :: "string \<Rightarrow> event_set"
  rd_Len :: nat
  rd_IsCausallyBefore :: "event_id \<Rightarrow> event_id \<Rightarrow> bool"
  rd_IsCausallyIndependent :: "event_id \<Rightarrow> event_id \<Rightarrow> bool"
  rd_IsCausallyEquivalent :: "(event_id \<Rightarrow> event_id \<Rightarrow> bool) option"
    \<comment> \<open>\<open>causalEquivalenceReader\<close>, when the reader implements it\<close>
  rd_ModuleValueForSource :: "(string \<Rightarrow> string \<Rightarrow> string option) option"
    \<comment> \<open>\<open>ModuleSourceResolver\<close>, when the reader implements it: the identity of the module behind a source\<close>

definition reader_ids :: "poset_reader \<Rightarrow> event_id set" where
  "reader_ids r = ev_id ` set (rd_All r)"

definition reader_of :: "poset \<Rightarrow> poset_reader" where
  \<comment> \<open>the poset as a reader; it resolves no module sources\<close>
  "reader_of p = \<lparr>rd_All = All p, rd_ByName = ByName p, rd_Len = Len p, rd_IsCausallyBefore = IsCausallyBefore p,
     rd_IsCausallyIndependent = IsCausallyIndependent p, rd_IsCausallyEquivalent = Some (IsCausallyEquivalent p),
     rd_ModuleValueForSource = None\<rparr>"

section \<open>Projections\<close>

record projection =
  pj_source :: poset_reader
  pj_all :: event_set
  pj_views :: event_set
  pj_visible :: "event_id fset"

definition projectionViewKey :: "event \<Rightarrow> string" where
  "projectionViewKey e = decimal (length (ev_id e)) @ '':'' @ ev_id e @ decimal (length (ev_source e)) @ '':'' @ ev_source e
     @ decimal (length (ev_name e)) @ '':'' @ ev_name e"

fun projectionViews :: "event_id set \<Rightarrow> event_set \<Rightarrow> (string \<rightharpoonup> event) \<Rightarrow> go_error + event_set" where
  \<comment> \<open>the loop over the visible events, with \<open>seenViews\<close>\<close>
  "projectionViews sourceIDs [] seenViews = Inr []"
| "projectionViews sourceIDs (e # rest) seenViews =
     (if ev_id e = [] then Inl (ErrOther ''visible event is nil or unidentified'')
      else if ev_id e \<notin> sourceIDs then Inl (ErrOther ''event is absent from source'')
      else case seenViews (projectionViewKey e) of
        Some previous \<Rightarrow> if ev_params previous \<noteq> ev_params e then Inl (ErrOther ''conflicting view'')
          else projectionViews sourceIDs rest seenViews
      | None \<Rightarrow> (case projectionViews sourceIDs rest (seenViews(projectionViewKey e \<mapsto> snapshotEvent e)) of
            Inl err \<Rightarrow> Inl err
          | Inr views \<Rightarrow> Inr (snapshotEvent e # views)))"

fun firstByID :: "event_id fset \<Rightarrow> event_set \<Rightarrow> event_set" where
  \<comment> \<open>the loop over the sorted views that keeps one event per ID\<close>
  "firstByID seen [] = []"
| "firstByID seen (e # rest) =
     (if ev_id e |\<in>| seen then firstByID seen rest else snapshotEvent e # firstByID (finsert (ev_id e) seen) rest)"

definition NewProjection :: "poset_reader \<Rightarrow> event_set \<Rightarrow> go_error + projection" where
  "NewProjection source visible =
     (let sourceIDs = ev_id ` {e \<in> set (rd_All source). ev_id e \<noteq> []}
      in case projectionViews sourceIDs visible Map.empty of
        Inl err \<Rightarrow> Inl err
      | Inr views \<Rightarrow>
          let views = sort_key projectionViewKey views
          in Inr \<lparr>pj_source = source, pj_all = sort_key ev_id (firstByID {||} views), pj_views = views,
               pj_visible = fset_of_list (map ev_id views)\<rparr>)"

definition projectionAll :: "projection \<Rightarrow> event_set" where
  "projectionAll pj = map snapshotEvent (pj_all pj)"

definition projectionByName :: "projection \<Rightarrow> string \<Rightarrow> event_set" where
  "projectionByName pj name = map snapshotEvent (filter (\<lambda>e. ev_name e = name) (pj_views pj))"

definition projectionBefore :: "projection \<Rightarrow> event_id \<Rightarrow> event_id \<Rightarrow> bool" where
  "projectionBefore pj a b \<longleftrightarrow> a |\<in>| pj_visible pj \<and> b |\<in>| pj_visible pj \<and> rd_IsCausallyBefore (pj_source pj) a b"

definition sourceCausallyEquivalent :: "poset_reader \<Rightarrow> event_id \<Rightarrow> event_id \<Rightarrow> bool" where
  "sourceCausallyEquivalent source a b = (case rd_IsCausallyEquivalent source of Some reader \<Rightarrow> reader a b | None \<Rightarrow> a = b)"

definition projectionEquivalent :: "projection \<Rightarrow> event_id \<Rightarrow> event_id \<Rightarrow> bool" where
  "projectionEquivalent pj a b \<longleftrightarrow> a |\<in>| pj_visible pj \<and> b |\<in>| pj_visible pj \<and> sourceCausallyEquivalent (pj_source pj) a b"

definition projectionIndependent :: "projection \<Rightarrow> event_id \<Rightarrow> event_id \<Rightarrow> bool" where
  "projectionIndependent pj a b \<longleftrightarrow> a |\<in>| pj_visible pj \<and> b |\<in>| pj_visible pj \<and> rd_IsCausallyIndependent (pj_source pj) a b"

definition projectionAncestors :: "projection \<Rightarrow> event_id \<Rightarrow> event_set" where
  "projectionAncestors pj i = (if i |\<notin>| pj_visible pj then []
     else map snapshotEvent (filter (\<lambda>e. rd_IsCausallyBefore (pj_source pj) (ev_id e) i) (pj_all pj)))"

definition projectionDescendants :: "projection \<Rightarrow> event_id \<Rightarrow> event_set" where
  "projectionDescendants pj i = (if i |\<notin>| pj_visible pj then []
     else map snapshotEvent (filter (\<lambda>e. rd_IsCausallyBefore (pj_source pj) i (ev_id e)) (pj_all pj)))"

definition projectionChain :: "projection \<Rightarrow> event_id \<Rightarrow> event_id \<Rightarrow> go_error + event_set" where
  "projectionChain pj a b =
     (if a |\<notin>| pj_visible pj then Inl ErrEventNotFound
      else if b |\<notin>| pj_visible pj then Inl ErrEventNotFound
      else if \<not> rd_IsCausallyBefore (pj_source pj) a b then Inl ErrNoPath
      else Inr (map snapshotEvent (filter (\<lambda>e. ev_id e = a \<or> ev_id e = b
        \<or> (rd_IsCausallyBefore (pj_source pj) a (ev_id e) \<and> rd_IsCausallyBefore (pj_source pj) (ev_id e) b)) (pj_all pj))))"

definition projectionRoots :: "projection \<Rightarrow> event_set" where
  "projectionRoots pj = map snapshotEvent (filter (\<lambda>e. length (projectionAncestors pj (ev_id e)) = 0) (pj_all pj))"

definition projectionLeaves :: "projection \<Rightarrow> event_set" where
  "projectionLeaves pj = map snapshotEvent (filter (\<lambda>e. length (projectionDescendants pj (ev_id e)) = 0) (pj_all pj))"

definition projectionSort :: "projection \<Rightarrow> event_set" where
  \<comment> \<open>by the number of visible ancestors, then by ID\<close>
  "projectionSort pj = sort_key (\<lambda>e. (length (projectionAncestors pj (ev_id e)), ev_id e)) (projectionAll pj)"

definition projection_reader :: "projection \<Rightarrow> poset_reader" where
  "projection_reader pj = \<lparr>rd_All = projectionAll pj, rd_ByName = projectionByName pj, rd_Len = length (pj_all pj),
     rd_IsCausallyBefore = projectionBefore pj, rd_IsCausallyIndependent = projectionIndependent pj,
     rd_IsCausallyEquivalent = Some (projectionEquivalent pj), rd_ModuleValueForSource = None\<rparr>"

lemmas reader_simps [simp] = reader_of_def projection_reader_def

section \<open>The contract\<close>

definition reader_laws :: "poset_reader \<Rightarrow> bool" where
  "reader_laws r \<longleftrightarrow>
     (\<forall>a b. rd_IsCausallyBefore r a b \<longrightarrow> a \<in> reader_ids r \<and> b \<in> reader_ids r)
   \<and> (\<forall>a. \<not> rd_IsCausallyBefore r a a)
   \<and> (\<forall>a b c. rd_IsCausallyBefore r a b \<longrightarrow> rd_IsCausallyBefore r b c \<longrightarrow> rd_IsCausallyBefore r a c)
   \<and> (\<forall>a b. rd_IsCausallyIndependent r a b \<longrightarrow> a \<noteq> b \<and> a \<in> reader_ids r \<and> b \<in> reader_ids r
        \<and> \<not> rd_IsCausallyBefore r a b \<and> rd_IsCausallyIndependent r b a)
   \<and> distinct (map ev_id (rd_All r)) \<and> rd_Len r = length (rd_All r)
   \<and> (\<forall>name. \<forall>e \<in> set (rd_ByName r name). ev_id e \<in> reader_ids r)"

locale causal_view =
  fixes ok :: "'s \<Rightarrow> bool" and view :: "'s \<Rightarrow> poset_reader"
  assumes before_listed: "ok s \<Longrightarrow> rd_IsCausallyBefore (view s) a b \<Longrightarrow> a \<in> reader_ids (view s) \<and> b \<in> reader_ids (view s)"
    and before_irrefl: "ok s \<Longrightarrow> \<not> rd_IsCausallyBefore (view s) a a"
    and before_trans: "ok s \<Longrightarrow> rd_IsCausallyBefore (view s) a b \<Longrightarrow> rd_IsCausallyBefore (view s) b c
      \<Longrightarrow> rd_IsCausallyBefore (view s) a c"
    and independent: "ok s \<Longrightarrow> rd_IsCausallyIndependent (view s) a b
      \<Longrightarrow> a \<noteq> b \<and> a \<in> reader_ids (view s) \<and> b \<in> reader_ids (view s) \<and> \<not> rd_IsCausallyBefore (view s) a b
        \<and> rd_IsCausallyIndependent (view s) b a"
    and listed_once: "ok s \<Longrightarrow> distinct (map ev_id (rd_All (view s))) \<and> rd_Len (view s) = length (rd_All (view s))"
    and named_listed: "ok s \<Longrightarrow> e \<in> set (rd_ByName (view s) name) \<Longrightarrow> ev_id e \<in> reader_ids (view s)"
begin

lemma laws: "ok s \<Longrightarrow> reader_laws (view s)"
  unfolding reader_laws_def
  using before_listed before_irrefl before_trans independent listed_once named_listed by blast

lemma before_asym: "ok s \<Longrightarrow> rd_IsCausallyBefore (view s) a b \<Longrightarrow> \<not> rd_IsCausallyBefore (view s) b a"
  using before_irrefl before_trans by blast

lemma Len_ids: "ok s \<Longrightarrow> rd_Len (view s) = card (reader_ids (view s))"
  using listed_once [of s] distinct_card [of "map ev_id (rd_All (view s))"] by (simp add: reader_ids_def)

text \<open>A finite set of listed occurrences has a first one, and every one is preceded by a first one or is first.\<close>

lemma finite_ids: "finite (reader_ids (view s))"
  by (simp add: reader_ids_def)

lemma minimal:
  assumes "ok s" "finite A" "a \<in> A"
  shows "\<exists>m \<in> A. \<forall>b \<in> A. \<not> rd_IsCausallyBefore (view s) b m"
  using assms(2,3)
proof (induction A arbitrary: a rule: finite_remove_induct)
  case (remove A)
  show ?case
  proof (cases "\<exists>b \<in> A. rd_IsCausallyBefore (view s) b a")
    case False
    then show ?thesis using remove.prems by blast
  next
    case True
    then obtain b where b: "b \<in> A" "rd_IsCausallyBefore (view s) b a" by blast
    then have "b \<in> A - {a}" using before_irrefl [OF assms(1)] by blast
    then obtain m where m: "m \<in> A - {a}" "\<forall>c \<in> A - {a}. \<not> rd_IsCausallyBefore (view s) c m"
      using remove.IH [OF remove.prems] by blast
    have "\<not> rd_IsCausallyBefore (view s) a m"
      using b m \<open>b \<in> A - {a}\<close> before_trans [OF assms(1) b(2)] by blast
    then show ?thesis using m by blast
  qed
qed simp

end

interpretation readers: causal_view reader_laws "\<lambda>r. r"
proof
  fix s a b c name e
  assume "reader_laws s"
  note law = this [unfolded reader_laws_def]
  show "rd_IsCausallyBefore s a b \<Longrightarrow> a \<in> reader_ids s \<and> b \<in> reader_ids s" "\<not> rd_IsCausallyBefore s a a"
    "rd_IsCausallyIndependent s a b \<Longrightarrow> a \<noteq> b \<and> a \<in> reader_ids s \<and> b \<in> reader_ids s \<and> \<not> rd_IsCausallyBefore s a b
        \<and> rd_IsCausallyIndependent s b a"
    "distinct (map ev_id (rd_All s)) \<and> rd_Len s = length (rd_All s)"
    "e \<in> set (rd_ByName s name) \<Longrightarrow> ev_id e \<in> reader_ids s"
    using law by simp_all
  show "rd_IsCausallyBefore s a b \<Longrightarrow> rd_IsCausallyBefore s b c \<Longrightarrow> rd_IsCausallyBefore s a c"
    using law by blast
qed

section \<open>The poset as provider\<close>

lemma eventView_id: "ev_id (eventView e ob) = ev_id e"
  by (simp add: eventView_def Let_def)

lemma poset_reader_ids: "poset_ok p \<Longrightarrow> reader_ids (reader_of p) = {i. stored p i}"
  using Events_lists [of p] unfolding lists_events_def
  by (auto simp: reader_ids_def All_def poset_ok_def map_has_fset simp flip: set_map)

lemma ByName_stored:
  assumes "poset_ok p" "e \<in> set (ByName p name)"
  shows "stored p (ev_id e)"
proof -
  have ok: "events_ok p" using assms(1) by (simp add: poset_ok_def)
  obtain i ob e' where i: "i \<in> set (event_ids p)" "e' = the (fmlookup (events p) i)" "e = e' \<or> e = eventView e' ob"
    using assms(2) by (auto simp: ByName_def EventsByName_def Let_def split: if_splits)
  obtain e'' where "fmlookup (events p) i = Some e''" "ev_id e'' = i" using i(1) by (auto intro: stored_event [OF ok, of i])
  then show ?thesis using i by (auto simp: eventView_id map_has_iff)
qed

interpretation poset_view: causal_view poset_ok reader_of
proof
  fix p :: poset and a b c name e
  assume p: "poset_ok p"
  then have e: "edges_ok p" "events_ok p" by (simp_all add: poset_ok_def)
  note ids = poset_reader_ids [OF p]
  have before: "IsCausallyBefore p x y \<longleftrightarrow> (x, y) \<in> before p" for x y by (rule IsCausallyBefore_iff [OF e(1)])
  have stored: "IsCausallyBefore p x y \<Longrightarrow> stored p x \<and> stored p y" for x y
    by (simp add: IsCausallyBefore_def split: if_splits)
  show "rd_IsCausallyBefore (reader_of p) a b \<Longrightarrow> a \<in> reader_ids (reader_of p) \<and> b \<in> reader_ids (reader_of p)"
    unfolding ids using stored by simp
  show "\<not> rd_IsCausallyBefore (reader_of p) a a" by (simp add: IsCausallyBefore_def)
  show "rd_IsCausallyBefore (reader_of p) a b \<Longrightarrow> rd_IsCausallyBefore (reader_of p) b c \<Longrightarrow> rd_IsCausallyBefore (reader_of p) a c"
    using before_trans [of _ _ p] by (auto simp: before)
  show "rd_IsCausallyIndependent (reader_of p) a b
      \<Longrightarrow> a \<noteq> b \<and> a \<in> reader_ids (reader_of p) \<and> b \<in> reader_ids (reader_of p) \<and> \<not> rd_IsCausallyBefore (reader_of p) a b
        \<and> rd_IsCausallyIndependent (reader_of p) b a"
    unfolding ids by (auto simp: before IsCausallyIndependent_iff)
  show "distinct (map ev_id (rd_All (reader_of p))) \<and> rd_Len (reader_of p) = length (rd_All (reader_of p))"
  proof -
    have ids: "map ev_id (Events p) = event_ids p" using Events_lists [OF e(2)] by (simp add: lists_events_def)
    have "length (Events p) = length (event_ids p)" unfolding ids [symmetric] by simp
    then show ?thesis by (simp add: ids All_def Len_def)
  qed
  show "e \<in> set (rd_ByName (reader_of p) name) \<Longrightarrow> ev_id e \<in> reader_ids (reader_of p)"
    unfolding ids using ByName_stored [OF p] by simp
qed

section \<open>The projection as provider\<close>

definition projection_ok :: "projection \<Rightarrow> bool" where
  "projection_ok pj \<longleftrightarrow> reader_laws (pj_source pj) \<and> distinct (map ev_id (pj_all pj))
     \<and> ev_id ` set (pj_all pj) = fset (pj_visible pj) \<and> ev_id ` set (pj_views pj) = fset (pj_visible pj)
     \<and> fset (pj_visible pj) \<subseteq> reader_ids (pj_source pj)"

lemma projection_reader_ids: "projection_ok pj \<Longrightarrow> reader_ids (projection_reader pj) = fset (pj_visible pj)"
  by (simp add: projection_ok_def reader_ids_def projectionAll_def image_image)

interpretation projection_view: causal_view projection_ok projection_reader
proof
  fix pj :: projection and a b c name e
  assume pj: "projection_ok pj"
  then have src: "reader_laws (pj_source pj)" by (simp add: projection_ok_def)
  note ids = projection_reader_ids [OF pj]
  show "rd_IsCausallyBefore (projection_reader pj) a b
      \<Longrightarrow> a \<in> reader_ids (projection_reader pj) \<and> b \<in> reader_ids (projection_reader pj)"
    unfolding ids by (simp add: projectionBefore_def)
  show "\<not> rd_IsCausallyBefore (projection_reader pj) a a"
    using readers.before_irrefl [OF src] by (simp add: projectionBefore_def)
  show "rd_IsCausallyBefore (projection_reader pj) a b \<Longrightarrow> rd_IsCausallyBefore (projection_reader pj) b c
      \<Longrightarrow> rd_IsCausallyBefore (projection_reader pj) a c"
    using readers.before_trans [OF src] by (auto simp: projectionBefore_def)
  show "rd_IsCausallyIndependent (projection_reader pj) a b
      \<Longrightarrow> a \<noteq> b \<and> a \<in> reader_ids (projection_reader pj) \<and> b \<in> reader_ids (projection_reader pj)
        \<and> \<not> rd_IsCausallyBefore (projection_reader pj) a b \<and> rd_IsCausallyIndependent (projection_reader pj) b a"
    unfolding ids using readers.independent [OF src] by (auto simp: projectionBefore_def projectionIndependent_def)
  show "distinct (map ev_id (rd_All (projection_reader pj)))
      \<and> rd_Len (projection_reader pj) = length (rd_All (projection_reader pj))"
    using pj by (simp add: projection_ok_def projectionAll_def comp_def)
  show "e \<in> set (rd_ByName (projection_reader pj) name) \<Longrightarrow> ev_id e \<in> reader_ids (projection_reader pj)"
    unfolding ids using pj by (auto simp: projection_ok_def projectionByName_def)
qed

text \<open>A length in front of a colon can be read back, so the key of a view determines its ID, source and name.\<close>

lemma colon_no_digit: "\<not> is_digit (CHR '':'')" by (simp add: is_digit_def)

lemma decimal_all_digits: "\<forall>c \<in> set (decimal k). is_digit c" using decimal_digits [of k] by (simp add: list_all_iff)

lemma decimal_until_colon: "takeWhile is_digit (decimal k @ CHR '':'' # u) = decimal k"
    using decimal_all_digits [of k] colon_no_digit by (simp add: takeWhile_append2)

lemma decimal_inj: "decimal n = decimal m \<Longrightarrow> n = m"
  by (metis option.inject parse_decimal)

lemma decimal_prefix: "decimal n @ CHR '':'' # s = decimal m @ CHR '':'' # t \<longleftrightarrow> n = m \<and> s = t"
proof
  assume eq: "decimal n @ CHR '':'' # s = decimal m @ CHR '':'' # t"
  have "decimal n = decimal m" using arg_cong [OF eq, of "takeWhile is_digit"] by (simp only: decimal_until_colon)
  then have nm: "n = m" by (rule decimal_inj)
  then show "n = m \<and> s = t" using eq unfolding nm by blast
qed blast

lemma projectionViewKey_iff:
  "projectionViewKey e = projectionViewKey f \<longleftrightarrow> ev_id e = ev_id f \<and> ev_source e = ev_source f \<and> ev_name e = ev_name f"
  by (auto simp: projectionViewKey_def decimal_prefix)

text \<open>The loops of \<open>NewProjection\<close>.\<close>

lemma projectionViews_Inr:
  "projectionViews ids es seen = Inr views \<Longrightarrow> \<forall>k previous. seen k = Some previous \<longrightarrow> projectionViewKey previous = k
   \<Longrightarrow> ev_id ` set es \<subseteq> ids \<and> set views \<subseteq> set es \<and> ev_id ` set es \<subseteq> ev_id ` (set views \<union> ran seen)"
proof (induction ids es seen arbitrary: views rule: projectionViews.induct)
  case (2 ids e rest seen)
  have e: "ev_id e \<in> ids" "ev_id e \<noteq> []" using "2.prems"(1) by (simp_all split: if_splits)
  show ?case
  proof (cases "seen (projectionViewKey e)")
    case None
    then obtain vs where vs: "projectionViews ids rest (seen(projectionViewKey e \<mapsto> snapshotEvent e)) = Inr vs" "views = e # vs"
      using "2.prems"(1) e by (auto split: sum.splits)
    have ran: "ran (seen(projectionViewKey e \<mapsto> e)) = insert e (ran seen)" using None by (rule ran_map_upd)
    have seen: "\<forall>k previous. (seen(projectionViewKey e \<mapsto> snapshotEvent e)) k = Some previous \<longrightarrow> projectionViewKey previous = k"
      using "2.prems"(2) by simp
    have "\<not> ev_id e \<notin> ids" using e(1) by simp
    note ih = "2.IH"(1) [OF e(2) this None vs(1) seen, unfolded snapshotEvent_id ran]
    show ?thesis using ih e(1) vs(2) by auto
  next
    case (Some previous)
    then have vs: "projectionViews ids rest seen = Inr views" "ev_params previous = ev_params e"
      using "2.prems"(1) e by (auto split: if_splits)
    have "ev_id e = ev_id previous" using Some "2.prems"(2) projectionViewKey_iff by metis
    moreover have "previous \<in> ran seen" using Some by (auto simp: ran_def)
    ultimately have "ev_id e \<in> ev_id ` (set views \<union> ran seen)" by blast
    then show ?thesis using "2.IH"(2) [OF e(2) _ Some _ vs(1) "2.prems"(2)] e vs(2) by auto
  qed
qed simp

lemma firstByID_ids:
  "ev_id ` set (firstByID seen es) = ev_id ` set es - fset seen \<and> distinct (map ev_id (firstByID seen es))
   \<and> set (firstByID seen es) \<subseteq> set es"
  by (induction seen es rule: firstByID.induct) auto

lemma NewProjection_Inr:
  assumes src: "reader_laws source" and pj: "NewProjection source visible = Inr pj"
  shows "projection_ok pj" "pj_source pj = source" "fset (pj_visible pj) = ev_id ` set visible"
    "set (pj_views pj) \<subseteq> set visible" "sorted (map ev_id (pj_all pj))" "set (pj_all pj) \<subseteq> set visible"
proof -
  let ?ids = "ev_id ` {e \<in> set (rd_All source). ev_id e \<noteq> []}"
  obtain views where views: "projectionViews ?ids visible Map.empty = Inr views"
    and "pj = \<lparr>pj_source = source, pj_all = sort_key ev_id (firstByID {||} (sort_key projectionViewKey views)),
      pj_views = sort_key projectionViewKey views, pj_visible = fset_of_list (map ev_id (sort_key projectionViewKey views))\<rparr>"
    using pj by (auto simp: NewProjection_def Let_def split: sum.splits)
  then have pj_eq: "pj_source pj = source" "pj_all pj = sort_key ev_id (firstByID {||} (sort_key projectionViewKey views))"
      "pj_views pj = sort_key projectionViewKey views" "fset (pj_visible pj) = ev_id ` set views"
    by (simp_all add: fset_of_list.rep_eq)
  have v: "ev_id ` set visible \<subseteq> ?ids" "set views \<subseteq> set visible" "ev_id ` set visible \<subseteq> ev_id ` set views"
    using projectionViews_Inr [OF views] by auto
  have first: "ev_id ` set (pj_all pj) = ev_id ` set views" "distinct (map ev_id (pj_all pj))" "set (pj_all pj) \<subseteq> set views"
    using firstByID_ids [of "{||}" "sort_key projectionViewKey views"] by (simp_all add: pj_eq distinct_map)
  show "fset (pj_visible pj) = ev_id ` set visible" unfolding pj_eq using v(2,3) by blast
  then have "fset (pj_visible pj) \<subseteq> reader_ids source" using v(1) by (auto simp: reader_ids_def)
  then show "projection_ok pj" using src first by (simp add: projection_ok_def pj_eq)
  show "pj_source pj = source" "set (pj_views pj) \<subseteq> set visible" "sorted (map ev_id (pj_all pj))" "set (pj_all pj) \<subseteq> set visible"
    using v(2) first(3) by (simp_all add: pj_eq)
qed

section \<open>Exactness\<close>

lemma map_snapshotEvent [simp]: "map snapshotEvent es = es"
  by (simp add: map_idI)

lemma ids_of_filter: "A = {e \<in> B. P (ev_id e)} \<Longrightarrow> ev_id ` A = {i \<in> ev_id ` B. P i}"
  by auto

lemma projection_queries:
  assumes pj: "projection_ok pj"
  shows "ev_id ` set (projectionAncestors pj i) = {a. projectionBefore pj a i}"
    "ev_id ` set (projectionDescendants pj i) = {a. projectionBefore pj i a}"
    "distinct (map ev_id (projectionAncestors pj i))"
proof -
  have all: "ev_id ` set (pj_all pj) = fset (pj_visible pj)" "distinct (map ev_id (pj_all pj))"
    using pj by (simp_all add: projection_ok_def)
  have sets: "set (projectionAncestors pj i)
      = {e \<in> set (pj_all pj). i |\<in>| pj_visible pj \<and> rd_IsCausallyBefore (pj_source pj) (ev_id e) i}"
    "set (projectionDescendants pj i)
      = {e \<in> set (pj_all pj). i |\<in>| pj_visible pj \<and> rd_IsCausallyBefore (pj_source pj) i (ev_id e)}"
    by (auto simp: projectionAncestors_def projectionDescendants_def)
  show "ev_id ` set (projectionAncestors pj i) = {a. projectionBefore pj a i}"
    "ev_id ` set (projectionDescendants pj i) = {a. projectionBefore pj i a}"
    using ids_of_filter [OF sets(1)] ids_of_filter [OF sets(2)] unfolding all(1) by (auto simp: projectionBefore_def)
  show "distinct (map ev_id (projectionAncestors pj i))"
    using all(2) by (simp add: projectionAncestors_def comp_def distinct_map inj_on_def)
qed

lemma projectionChain_cases:
  assumes pj: "projection_ok pj"
  shows "projectionChain pj a b =
    (if a |\<notin>| pj_visible pj \<or> b |\<notin>| pj_visible pj then Inl ErrEventNotFound
     else if \<not> projectionBefore pj a b then Inl ErrNoPath
     else Inr (filter (\<lambda>e. ev_id e \<in> {a, b} \<union> {c. projectionBefore pj a c \<and> projectionBefore pj c b}) (projectionAll pj)))"
proof -
  have "ev_id e |\<in>| pj_visible pj" if "e \<in> set (pj_all pj)" for e
    using pj that unfolding projection_ok_def by blast
  then show ?thesis
    by (auto simp: projectionChain_def projectionBefore_def projectionAll_def intro!: filter_cong)
qed

lemma projectionAncestors_grow:
  assumes pj: "projection_ok pj" and ab: "projectionBefore pj a b"
  shows "length (projectionAncestors pj a) < length (projectionAncestors pj b)"
proof -
  have card: "length (projectionAncestors pj i) = card {c. projectionBefore pj c i}" for i
    using projection_queries(1,3) [OF pj, of i] distinct_card [of "map ev_id (projectionAncestors pj i)"] by simp
  have fin: "finite {c. projectionBefore pj c b}"
    by (rule finite_subset [of _ "fset (pj_visible pj)"]) (auto simp: projectionBefore_def)
  have "{c. projectionBefore pj c a} \<subset> {c. projectionBefore pj c b}"
  proof
    show "{c. projectionBefore pj c a} \<subseteq> {c. projectionBefore pj c b}"
      using projection_view.before_trans [OF pj, simplified] ab by blast
    show "{c. projectionBefore pj c a} \<noteq> {c. projectionBefore pj c b}"
      using projection_view.before_irrefl [OF pj, of a] ab by auto
  qed
  then show ?thesis unfolding card by (rule psubset_card_mono [OF fin])
qed

lemma projectionSort_linear:
  assumes pj: "projection_ok pj"
  shows "sorted_wrt (\<lambda>e f. \<not> projectionBefore pj (ev_id f) (ev_id e)) (projectionSort pj)"
proof -
  let ?key = "\<lambda>e. (length (projectionAncestors pj (ev_id e)), ev_id e)"
  have "sorted_wrt (\<lambda>e f. ?key e \<le> ?key f) (projectionSort pj)"
    using sorted_sort_key [of ?key "projectionAll pj"] unfolding projectionSort_def sorted_map .
  moreover have "\<not> projectionBefore pj (ev_id f) (ev_id e)" if "?key e \<le> ?key f" for e f
    using that projectionAncestors_grow [OF pj, of "ev_id f" "ev_id e"] by auto
  ultimately show ?thesis by (rule sorted_wrt_mono_rel [rotated])
qed

lemma projection_extremal:
  assumes pj: "projection_ok pj"
  shows "ev_id ` set (projectionRoots pj) = {i. i |\<in>| pj_visible pj \<and> (\<forall>a. \<not> projectionBefore pj a i)}"
    "ev_id ` set (projectionLeaves pj) = {i. i |\<in>| pj_visible pj \<and> (\<forall>a. \<not> projectionBefore pj i a)}"
proof -
  have all: "ev_id ` set (pj_all pj) = fset (pj_visible pj)" using pj by (simp add: projection_ok_def)
  have none: "es = [] \<longleftrightarrow> ev_id ` set es = {}" for es :: event_set by simp
  have sets: "set (projectionRoots pj) = {e \<in> set (pj_all pj). \<forall>a. \<not> projectionBefore pj a (ev_id e)}"
    "set (projectionLeaves pj) = {e \<in> set (pj_all pj). \<forall>a. \<not> projectionBefore pj (ev_id e) a}"
    using projection_queries(1,2) [OF pj]
    by (simp_all add: projectionRoots_def projectionLeaves_def none del: image_is_empty)
  show "ev_id ` set (projectionRoots pj) = {i. i |\<in>| pj_visible pj \<and> (\<forall>a. \<not> projectionBefore pj a i)}"
    "ev_id ` set (projectionLeaves pj) = {i. i |\<in>| pj_visible pj \<and> (\<forall>a. \<not> projectionBefore pj i a)}"
    using ids_of_filter [OF sets(1)] ids_of_filter [OF sets(2)] unfolding all by simp_all
qed

text \<open>C23: A projection is exactly the visible part of its source.  \<open>NewProjection\<close> over any causal reader yields a
  causal reader again; it lists each visible occurrence once, in ID order, and for two visible occurrences
  before, independent and equivalent are what the source says, so that causality through hidden occurrences is
  kept.  Ancestors, descendants, roots and leaves are those of this restricted order, and the sort is a linear
  extension of it.  A chain lists its endpoints and the visible occurrences strictly between them; it is an
  error for a hidden endpoint and for unordered ones.\<close>

theorem projection_exact:
  assumes src: "reader_laws source" and new: "NewProjection source visible = Inr pj"
  defines "V \<equiv> ev_id ` set visible"
  shows "reader_laws (projection_reader pj)
    \<and> set (map ev_id (projectionAll pj)) = V \<and> sorted (map ev_id (projectionAll pj)) \<and> distinct (map ev_id (projectionAll pj))
    \<and> (\<forall>a b. projectionBefore pj a b \<longleftrightarrow> a \<in> V \<and> b \<in> V \<and> rd_IsCausallyBefore source a b)
    \<and> (\<forall>a b. projectionIndependent pj a b \<longleftrightarrow> a \<in> V \<and> b \<in> V \<and> rd_IsCausallyIndependent source a b)
    \<and> (\<forall>a b. projectionEquivalent pj a b \<longleftrightarrow> a \<in> V \<and> b \<in> V
        \<and> (case rd_IsCausallyEquivalent source of None \<Rightarrow> a = b | Some equivalent \<Rightarrow> equivalent a b))
    \<and> (\<forall>i. ev_id ` set (projectionAncestors pj i) = {a. projectionBefore pj a i}
        \<and> ev_id ` set (projectionDescendants pj i) = {a. projectionBefore pj i a})
    \<and> (\<forall>a b. projectionChain pj a b = (if a \<notin> V \<or> b \<notin> V then Inl ErrEventNotFound
        else if \<not> rd_IsCausallyBefore source a b then Inl ErrNoPath
        else Inr (filter (\<lambda>e. ev_id e \<in> {a, b} \<union> {c. projectionBefore pj a c \<and> projectionBefore pj c b}) (projectionAll pj))))
    \<and> ev_id ` set (projectionRoots pj) = {i \<in> V. \<forall>a. \<not> projectionBefore pj a i}
    \<and> ev_id ` set (projectionLeaves pj) = {i \<in> V. \<forall>a. \<not> projectionBefore pj i a}
    \<and> mset (projectionSort pj) = mset (projectionAll pj)
    \<and> sorted_wrt (\<lambda>e f. \<not> projectionBefore pj (ev_id f) (ev_id e)) (projectionSort pj)"
proof -
  note pj = NewProjection_Inr [OF src new]
  have all: "map ev_id (projectionAll pj) = map ev_id (pj_all pj)" by (simp add: projectionAll_def)
  have ids: "set (map ev_id (projectionAll pj)) = V" "distinct (map ev_id (projectionAll pj))"
    using pj(1,3) unfolding all by (simp_all add: projection_ok_def V_def)
  have vis: "i |\<in>| pj_visible pj \<longleftrightarrow> i \<in> V" for i unfolding V_def pj(3) [symmetric] by simp
  have rel: "projectionBefore pj a b \<longleftrightarrow> a \<in> V \<and> b \<in> V \<and> rd_IsCausallyBefore source a b"
    "projectionIndependent pj a b \<longleftrightarrow> a \<in> V \<and> b \<in> V \<and> rd_IsCausallyIndependent source a b"
    "projectionEquivalent pj a b \<longleftrightarrow> a \<in> V \<and> b \<in> V
        \<and> (case rd_IsCausallyEquivalent source of None \<Rightarrow> a = b | Some equivalent \<Rightarrow> equivalent a b)" for a b
    by (simp_all add: projectionBefore_def projectionIndependent_def projectionEquivalent_def sourceCausallyEquivalent_def
        vis pj(2) split: option.splits)
  have chain: "projectionChain pj a b = (if a \<notin> V \<or> b \<notin> V then Inl ErrEventNotFound
        else if \<not> rd_IsCausallyBefore source a b then Inl ErrNoPath
        else Inr (filter (\<lambda>e. ev_id e \<in> {a, b} \<union> {c. projectionBefore pj a c \<and> projectionBefore pj c b}) (projectionAll pj)))" for a b
    by (auto simp: projectionChain_cases [OF pj(1)] vis rel(1) intro!: filter_cong)
  have ext: "ev_id ` set (projectionRoots pj) = {i \<in> V. \<forall>a. \<not> projectionBefore pj a i}"
    "ev_id ` set (projectionLeaves pj) = {i \<in> V. \<forall>a. \<not> projectionBefore pj i a}"
    unfolding projection_extremal [OF pj(1)] vis by simp_all
  have sort: "mset (projectionSort pj) = mset (projectionAll pj)" by (simp add: projectionSort_def)
  have listing: "sorted (map ev_id (projectionAll pj))" using pj(5) unfolding all .
  show ?thesis
    by (intro conjI allI) (fact projection_view.laws [OF pj(1)] ids listing rel chain ext sort projection_queries [OF pj(1)]
        projectionSort_linear [OF pj(1)])+
qed

definition hidden_b :: event_set where
  "hidden_b = filter (\<lambda>e. ev_id e \<noteq> ''b'') (All equated_events)"

theorem projection_exact_witness:
  "\<exists>pj. NewProjection (reader_of equated_events) hidden_b = Inr pj \<and> map ev_id (projectionAll pj) = [''a'', ''c'']
    \<and> projectionBefore pj ''a'' ''c'' \<and> \<not> projectionBefore pj ''a'' ''b''"
proof -
  have "map_sum id (map ev_id \<circ> pj_all) (NewProjection (reader_of equated_events) hidden_b) = Inr [''a'', ''c'']" by code_simp
  then obtain pj where pj: "NewProjection (reader_of equated_events) hidden_b = Inr pj" "map ev_id (pj_all pj) = [''a'', ''c'']"
    by (cases "NewProjection (reader_of equated_events) hidden_b") auto
  have "IsCausallyBefore equated_events ''a'' ''c''" "map ev_id hidden_b = [''a'', ''c'']" by code_simp+
  then have "rd_IsCausallyBefore (reader_of equated_events) ''a'' ''c''" "ev_id ` set hidden_b = {''a'', ''c''}"
    by (simp, metis list.set(1,2) set_map)
  then show ?thesis
    using projection_exact [OF poset_view.laws [OF equated_events_ok] pj(1)] pj by (simp add: projectionAll_def)
qed

text \<open>Over everything the chain of a projection is not that of its source: \<open>Poset.CausalChain\<close> lists the occurrences
  equivalent to an endpoint, the projection does not.\<close>

lemma projection_chain_differs:
  "map_option (map ev_id) (case CausalChain equated_events ''a'' ''b'' of Inl _ \<Rightarrow> None | Inr es \<Rightarrow> Some es)
     = Some [''a'', ''b'', ''c'']
   \<and> (case NewProjection (reader_of equated_events) (All equated_events) of
        Inr pj \<Rightarrow> map_sum id (map ev_id) (projectionChain pj ''a'' ''b'') = Inr [''a'', ''b'']
      | Inl _ \<Rightarrow> False)"
  by code_simp

end
