(* ===== verification/Pattern_Match.thy ===== *)
theory Pattern_Match
  imports Visible_Poset Canonical_Json
begin

text \<open>
  The deterministic core of the event pattern language (\<open>pattern/\<close>): basic patterns with filters and
  placeholder bindings, the binary relations, disjunction and conjunction, iterations and integer ranges,
  and \<open>MatchWithBindings\<close>, which evaluates them to matches in canonical order.  The texts of the
  errors are not modelled.  \<open>where\<close> conditions, Rapide timing forms and the wall-clock forms are left out.
\<close>

section \<open>Patterns\<close>

datatype pattern_error = ErrOpaquePattern | ErrInvalidBinding | ErrInvalidIteration | ErrInvalidNamedIteration
  | ErrInvalidUniversalQualification | ErrInvalidMatchSelection | ErrValue go_error

record placeholder =
  ph_name :: string
  ph_typ :: string

record basic_pattern =
  bp_name :: string
  bp_parameterFilters :: "(string \<times> go_value) list"
  bp_sourceFilters :: "string list"
  bp_sourceBind :: "placeholder option"
  bp_parameterBinds :: "(string \<times> placeholder option) list"
  bp_predicates :: "(event \<Rightarrow> bool) list"

type_synonym iteration_relation = string

definition validIterationRelation :: "iteration_relation \<Rightarrow> bool" where
  "validIterationRelation relation \<longleftrightarrow> relation \<in> {''follows'', ''immediate-follows'', ''independent'', ''disjoint'', ''union'', ''and'', ''or''}"

datatype pattern =
    is_nil: NilPattern
  | BasicPattern basic_pattern
  | SeqPattern pattern pattern
  | ImmSeqPattern pattern pattern
  | IndependentPattern pattern pattern
  | DisjointPattern pattern pattern
  | UnionPattern pattern pattern
  | JoinPattern pattern pattern
  | OrPattern "pattern list"
  | AndPattern "pattern list"
  | IterationPattern pattern iteration_relation int int
  | NamedRangePattern pattern placeholder iteration_relation i64 i64
  | UniversalRangePattern pattern placeholder iteration_relation i64 i64
  | NotPattern pattern
  | EmptyPattern

section \<open>Basic patterns\<close>

definition MatchAny :: basic_pattern where
  "MatchAny = \<lparr>bp_name = '''', bp_parameterFilters = [], bp_sourceFilters = [], bp_sourceBind = None, bp_parameterBinds = [],
     bp_predicates = []\<rparr>"

definition MatchEvent :: "string \<Rightarrow> basic_pattern" where
  "MatchEvent name = MatchAny\<lparr>bp_name := name\<rparr>"

definition basicMatches :: "basic_pattern \<Rightarrow> event \<Rightarrow> bool" where
  \<comment> \<open>\<open>matches\<close>\<close>
  "basicMatches basic e \<longleftrightarrow>
     list_all (\<lambda>(key, filter_value). case Param e key of (value, ok) \<Rightarrow> ok \<and> CanonicalValuesEqual value filter_value = Inr True)
       (bp_parameterFilters basic)
   \<and> list_all (\<lambda>source. ev_source e = source) (bp_sourceFilters basic)
   \<and> list_all (\<lambda>pred. pred e) (bp_predicates basic)"

definition filterError :: "string \<times> go_value \<Rightarrow> bool" where
  "filterError = (\<lambda>(key, value). key = [] \<or> (case CanonicalizeParameters [(''value'', value)] of Inl _ \<Rightarrow> True | Inr _ \<Rightarrow> False))"

definition bindError :: "string \<times> placeholder option \<Rightarrow> bool" where
  "bindError = (\<lambda>(key, placeholder). key = [] \<or> (case placeholder of None \<Rightarrow> True
     | Some ph \<Rightarrow> ph_name ph = [] \<or> ph_typ ph \<noteq> [] \<and> \<not> IsSupportedPredefinedType (ph_typ ph)))"

definition basicKeyError :: "basic_pattern \<Rightarrow> bool" where
  \<comment> \<open>\<open>deterministicBasicKey\<close> returns an error\<close>
  "basicKeyError basic \<longleftrightarrow> bp_predicates basic \<noteq> [] \<or> list_ex filterError (bp_parameterFilters basic)
     \<or> (case bp_sourceBind basic of None \<Rightarrow> False
        | Some ph \<Rightarrow> ph_name ph = [] \<or> ph_typ ph = [] \<or> IsSupportedPredefinedType (ph_typ ph))
     \<or> list_ex bindError (bp_parameterBinds basic)"

section \<open>Bindings and matches\<close>

type_synonym bindings = "(string \<times> go_value) list"

record match_result =
  mr_events :: event_set
  mr_bindings :: bindings

definition canonicalBindingValue :: "go_value \<Rightarrow> go_error + go_value" where
  "canonicalBindingValue value = (case CanonicalizeParams [(''value'', value)] of Inl err \<Rightarrow> Inl err
     | Inr parameters \<Rightarrow> Inr (case params_get parameters ''value'' of Some v \<Rightarrow> v | None \<Rightarrow> VNil))"

definition Lookup :: "bindings \<Rightarrow> string \<Rightarrow> go_value option" where
  \<comment> \<open>\<open>sort.Search\<close> over the sorted names, then a defensive copy\<close>
  "Lookup bs name = (let index = sort_search (length bs) (\<lambda>i. name \<le> fst (bs ! i))
     in if index = length bs \<or> fst (bs ! index) \<noteq> name then None
        else case canonicalBindingValue (snd (bs ! index)) of Inl err \<Rightarrow> None | Inr copy \<Rightarrow> Some copy)"

fun mergeLoop :: "bindings \<Rightarrow> (string, go_value) fmap \<Rightarrow> pattern_error + (string, go_value) fmap option" where
  \<comment> \<open>the loop over both environments; \<^term>\<open>None\<close> when two assignments differ\<close>
  "mergeLoop [] vals = Inr (Some vals)"
| "mergeLoop ((name, value) # rest) vals =
     (if name = [] then Inl ErrInvalidBinding
      else case canonicalBindingValue value of Inl err \<Rightarrow> Inl ErrInvalidBinding
      | Inr canonical \<Rightarrow> (case fmlookup vals name of
          Some previous \<Rightarrow> (case CanonicalValuesEqual previous canonical of Inl err \<Rightarrow> Inl (ErrValue err)
            | Inr equal \<Rightarrow> if \<not> equal then Inr None else mergeLoop rest vals)
        | None \<Rightarrow> mergeLoop rest (fmupd name canonical vals)))"

definition mergeBindings :: "bindings \<Rightarrow> bindings \<Rightarrow> pattern_error + bindings option" where
  "mergeBindings left right = (case mergeLoop (left @ right) fmempty of Inl err \<Rightarrow> Inl err
     | Inr None \<Rightarrow> Inr None
     | Inr (Some vals) \<Rightarrow> Inr (Some (map (\<lambda>name. (name, map_get VNil vals name)) (map_keys vals))))"

section \<open>Canonical order\<close>

definition matchEventKey :: "event \<Rightarrow> go_error + string" where
  "matchEventKey e = (case CanonicalizeParameters (ev_params e) of Inl err \<Rightarrow> Inl err
     | Inr parameters \<Rightarrow> Inr (''{\"id\":'' @ jsonString (ev_id e) @ '',\"source\":'' @ jsonString (ev_source e)
         @ '',\"name\":'' @ jsonString (ev_name e) @ '',\"params\":['' @ jsonFields parameters @ '']}''))"

fun keyed :: "('a \<Rightarrow> 'e + string) \<Rightarrow> 'a list \<Rightarrow> 'e + (string \<times> 'a) list" where
  "keyed key [] = Inr []"
| "keyed key (x # xs) = (case key x of Inl err \<Rightarrow> Inl err
     | Inr k \<Rightarrow> (case keyed key xs of Inl err \<Rightarrow> Inl err | Inr ks \<Rightarrow> Inr ((k, x) # ks)))"

definition sortMatchEvents :: "event_set \<Rightarrow> go_error + event_set" where
  "sortMatchEvents es = (case keyed matchEventKey es of Inl err \<Rightarrow> Inl err | Inr ks \<Rightarrow> Inr (map snd (sort_key fst ks)))"

fun uniqueIDs :: "event_id set \<Rightarrow> event_set \<Rightarrow> event_id list option" where
  \<comment> \<open>the IDs of the events, each once; \<^term>\<open>None\<close> for an unidentified event\<close>
  "uniqueIDs seen [] = Some []"
| "uniqueIDs seen (e # es) = (if ev_id e = [] then None
     else if ev_id e \<in> seen then uniqueIDs seen es
     else map_option ((#) (ev_id e)) (uniqueIDs (insert (ev_id e) seen) es))"

fun encodeBindings :: "bindings \<Rightarrow> go_error + (string \<times> canonical_value) list" where
  "encodeBindings [] = Inr []"
| "encodeBindings ((name, value) # rest) = (case CanonicalizeParameters [(''value'', value)] of Inl err \<Rightarrow> Inl err
     | Inr parameters \<Rightarrow> (case encodeBindings rest of Inl err \<Rightarrow> Inl err
        | Inr encoded \<Rightarrow> Inr ((name, snd (hd parameters)) # encoded)))"

definition jsonBinding :: "string \<times> canonical_value \<Rightarrow> string" where
  "jsonBinding = (\<lambda>(name, value). ''{\"placeholder\":'' @ jsonString name @ '',\"value\":'' @ jsonValue value @ ''}'')"

definition jsonMatch :: "event_id list \<Rightarrow> (string \<times> canonical_value) list \<Rightarrow> string" where
  \<comment> \<open>\<open>json.Marshal\<close> of a \<open>CanonicalMatch\<close>\<close>
  "jsonMatch ids encoded = ''{\"events\":['' @ strings_join '','' (map jsonString ids)
     @ ''],\"bindings\":['' @ strings_join '','' (map jsonBinding encoded) @ '']}''"

definition matchResultKey :: "match_result \<Rightarrow> pattern_error + string" where
  "matchResultKey result =
     (case uniqueIDs {} (mr_events result) of None \<Rightarrow> Inl (ErrValue (ErrOther ''match contains a nil or unidentified event''))
      | Some ids \<Rightarrow> (case mergeBindings [] (mr_bindings result) of Inl err \<Rightarrow> Inl err
        | Inr None \<Rightarrow> Inl (ErrValue (ErrOther ''match contains conflicting assignments''))
        | Inr (Some bs) \<Rightarrow> (case encodeBindings bs of Inl err \<Rightarrow> Inl (ErrValue err)
          | Inr encoded \<Rightarrow> Inr (jsonMatch (sort_ids ids) encoded))))"

fun dropRepeats :: "string option \<Rightarrow> (string \<times> 'a) list \<Rightarrow> 'a list" where
  \<comment> \<open>the writing loop of \<open>sortMatchResults\<close>\<close>
  "dropRepeats previous [] = []"
| "dropRepeats previous ((k, x) # rest) =
     (if previous = Some k then dropRepeats previous rest else x # dropRepeats (Some k) rest)"

definition sortMatchResults :: "match_result list \<Rightarrow> pattern_error + match_result list" where
  "sortMatchResults results = (case keyed matchResultKey results of Inl err \<Rightarrow> Inl err
     | Inr ks \<Rightarrow> Inr (dropRepeats None (sort_key fst ks)))"

fun sortParts :: "match_result list \<Rightarrow> go_error + match_result list" where
  \<comment> \<open>the first loop of \<open>canonicalizeMatchResults\<close>\<close>
  "sortParts [] = Inr []"
| "sortParts (result # rest) = (case sortMatchEvents (mr_events result) of Inl err \<Rightarrow> Inl err
     | Inr es \<Rightarrow> (case sortParts rest of Inl err \<Rightarrow> Inl err
        | Inr results \<Rightarrow> Inr (\<lparr>mr_events = es, mr_bindings = sort_key fst (mr_bindings result)\<rparr> # results)))"

definition canonicalizeMatchResults :: "match_result list \<Rightarrow> pattern_error + match_result list" where
  "canonicalizeMatchResults results = (case sortParts results of Inl err \<Rightarrow> Inl ErrInvalidBinding
     | Inr results \<Rightarrow> (case sortMatchResults results of Inl err \<Rightarrow> Inl ErrInvalidBinding | Inr results \<Rightarrow> Inr results))"

section \<open>Relations between matches\<close>

fun mergeInto :: "event_id set \<Rightarrow> event_set \<Rightarrow> event_set" where
  "mergeInto seen [] = []"
| "mergeInto seen (e # es) = (if ev_id e \<in> seen then mergeInto seen es else e # mergeInto (insert (ev_id e) seen) es)"

definition mergeEventSets :: "event_set \<Rightarrow> event_set \<Rightarrow> event_set" where
  "mergeEventSets a b = mergeInto {} (a @ b)"

definition allCausallyBefore :: "poset_reader \<Rightarrow> event_set \<Rightarrow> event_set \<Rightarrow> bool" where
  "allCausallyBefore r a b \<longleftrightarrow> list_all (\<lambda>e1. list_all (\<lambda>e2. rd_IsCausallyBefore r (ev_id e1) (ev_id e2)) b) a"

definition hasIntervening :: "poset_reader \<Rightarrow> event_set \<Rightarrow> event_set \<Rightarrow> event_set \<Rightarrow> bool" where
  "hasIntervening r s1 s2 everything \<longleftrightarrow>
     list_ex (\<lambda>w. ev_id w \<notin> ev_id ` set s1 \<and> ev_id w \<notin> ev_id ` set s2
       \<and> list_ex (\<lambda>e1. rd_IsCausallyBefore r (ev_id e1) (ev_id w)
           \<and> list_ex (\<lambda>e2. rd_IsCausallyBefore r (ev_id w) (ev_id e2)) s2) s1) everything"

definition allIndependent :: "poset_reader \<Rightarrow> event_set \<Rightarrow> event_set \<Rightarrow> bool" where
  "allIndependent r s1 s2 \<longleftrightarrow> list_all (\<lambda>e1. list_all (\<lambda>e2. rd_IsCausallyIndependent r (ev_id e1) (ev_id e2)) s2) s1"

definition eventSetsDisjoint :: "event_set \<Rightarrow> event_set \<Rightarrow> bool" where
  "eventSetsDisjoint left right \<longleftrightarrow> list_all (\<lambda>e. ev_id e \<notin> ev_id ` set left) right"

definition eventSetKey :: "event_set \<Rightarrow> string" where
  "eventSetKey es = strings_join ''|'' (sort (map (\<lambda>e. decimal (length (ev_id e)) @ '':'' @ ev_id e) es))"

definition iterationRelationHolds :: "iteration_relation \<Rightarrow> poset_reader \<Rightarrow> event_set \<Rightarrow> event_set \<Rightarrow> bool" where
  "iterationRelationHolds relation r left right =
     (if relation = ''follows'' then allCausallyBefore r left right
      else if relation = ''immediate-follows'' then allCausallyBefore r left right \<and> \<not> hasIntervening r left right (rd_All r)
      else if relation = ''independent'' then allIndependent r left right
      else if relation = ''disjoint'' then eventSetsDisjoint left right
      else if relation = ''union'' then True
      else if relation = ''and'' then eventSetKey left = eventSetKey right
      else if relation = ''or'' then True else False)"

definition iterationRelationIsIdempotent :: "iteration_relation \<Rightarrow> bool" where
  "iterationRelationIsIdempotent relation \<longleftrightarrow> relation = ''union'' \<or> relation = ''and'' \<or> relation = ''or''"

text \<open>The nested loops over the matches of both operands; \<open>merge\<close> gives the events of a combined match.\<close>

fun pairRow :: "(event_set \<Rightarrow> event_set \<Rightarrow> bool) \<Rightarrow> (event_set \<Rightarrow> event_set \<Rightarrow> event_set) \<Rightarrow> match_result \<Rightarrow> match_result list
    \<Rightarrow> pattern_error + match_result list" where
  "pairRow relation merge left [] = Inr []"
| "pairRow relation merge left (right # rights) =
     (if \<not> relation (mr_events left) (mr_events right) then pairRow relation merge left rights
      else case mergeBindings (mr_bindings left) (mr_bindings right) of Inl err \<Rightarrow> Inl err
      | Inr None \<Rightarrow> pairRow relation merge left rights
      | Inr (Some bs) \<Rightarrow> (case pairRow relation merge left rights of Inl err \<Rightarrow> Inl err
          | Inr results \<Rightarrow> Inr (\<lparr>mr_events = merge (mr_events left) (mr_events right), mr_bindings = bs\<rparr> # results)))"

fun pairMatches :: "(event_set \<Rightarrow> event_set \<Rightarrow> bool) \<Rightarrow> (event_set \<Rightarrow> event_set \<Rightarrow> event_set) \<Rightarrow> match_result list \<Rightarrow> match_result list
    \<Rightarrow> pattern_error + match_result list" where
  "pairMatches relation merge [] rights = Inr []"
| "pairMatches relation merge (left # lefts) rights =
     (case pairRow relation merge left rights of Inl err \<Rightarrow> Inl err
      | Inr row \<Rightarrow> (case pairMatches relation merge lefts rights of Inl err \<Rightarrow> Inl err | Inr rows \<Rightarrow> Inr (row @ rows)))"

definition combineIterationMatches :: "poset_reader \<Rightarrow> iteration_relation \<Rightarrow> match_result list \<Rightarrow> match_result list
    \<Rightarrow> pattern_error + match_result list" where
  "combineIterationMatches r relation lefts rights =
     (if relation = ''or'' then Inr (lefts @ rights)
      else pairMatches (iterationRelationHolds relation r)
        (if relation = ''and'' then (\<lambda>left right. left) else mergeEventSets) lefts rights)"

section \<open>Iterations\<close>

definition matchResultsContainOnlyEmptyComputations :: "match_result list \<Rightarrow> bool" where
  "matchResultsContainOnlyEmptyComputations results \<longleftrightarrow> results \<noteq> [] \<and> list_all (\<lambda>m. mr_events m = []) results"

definition sameMatchResults :: "match_result list \<Rightarrow> match_result list \<Rightarrow> bool" where
  "sameMatchResults left right \<longleftrightarrow> length left = length right
     \<and> list_all (\<lambda>(a, b). case matchResultKey a of Inl err \<Rightarrow> False | Inr key \<Rightarrow> matchResultKey b = Inr key) (zip left right)"

function iterationLoop :: "poset_reader \<Rightarrow> iteration_relation \<Rightarrow> int \<Rightarrow> int \<Rightarrow> match_result list \<Rightarrow> int \<Rightarrow> int \<Rightarrow> match_result list
    \<Rightarrow> match_result list \<Rightarrow> pattern_error + match_result list" where
  "iterationLoop r relation minimum maximum inner limit n current results =
     (if n > limit then Inr results
      else let results = (if n \<ge> minimum \<and> (maximum < 0 \<or> n \<le> maximum) then results @ current else results)
        in if n = limit \<or> current = [] then Inr results
           else case combineIterationMatches r relation current inner of Inl err \<Rightarrow> Inl err
           | Inr combined \<Rightarrow> (case canonicalizeMatchResults combined of Inl err \<Rightarrow> Inl err
             | Inr again \<Rightarrow>
                 if (iterationRelationIsIdempotent relation \<or> matchResultsContainOnlyEmptyComputations current)
                     \<and> sameMatchResults current again
                 then Inr (if n < minimum \<and> (maximum < 0 \<or> minimum \<le> maximum) then results @ again else results)
                 else iterationLoop r relation minimum maximum inner limit (n + 1) again results))"
  by pat_completeness auto
termination
  by (relation "measure (\<lambda>(r, relation, minimum, maximum, inner, limit, n, current, results). nat (limit + 1 - n))") auto

declare iterationLoop.simps [simp del]

definition emptyMatch :: match_result where
  "emptyMatch = \<lparr>mr_events = [], mr_bindings = []\<rparr>"

definition iterationCeiling :: "poset_reader \<Rightarrow> int \<Rightarrow> int" where
  "iterationCeiling r maximum = (if maximum < 0 then (if int (rd_Len r) < 1 then 1 else int (rd_Len r)) else maximum)"

definition iterateInner :: "poset_reader \<Rightarrow> iteration_relation \<Rightarrow> int \<Rightarrow> int \<Rightarrow> match_result list \<Rightarrow> pattern_error + match_result list" where
  \<comment> \<open>\<open>matchIterationWithBindings\<close> from the matches of the inner pattern on\<close>
  "iterateInner r relation minimum maximum inner =
     (case canonicalizeMatchResults inner of Inl err \<Rightarrow> Inl err
      | Inr inner \<Rightarrow>
          let results = (if minimum = 0 then [emptyMatch] else [])
          in if inner = [] then Inr results
             else case iterationLoop r relation minimum maximum inner (iterationCeiling r maximum) 1 inner results of
               Inl err \<Rightarrow> Inl err
             | Inr results \<Rightarrow> canonicalizeMatchResults results)"

definition validIteration :: "iteration_relation \<Rightarrow> int \<Rightarrow> int \<Rightarrow> bool" where
  "validIteration relation minimum maximum \<longleftrightarrow>
     \<not> (minimum < 0 \<or> (maximum \<ge> 0 \<and> maximum < minimum) \<or> \<not> validIterationRelation relation)"

definition IterateRange :: "pattern \<Rightarrow> iteration_relation \<Rightarrow> int \<Rightarrow> int \<Rightarrow> pattern option" where
  \<comment> \<open>\<^term>\<open>None\<close> for a panic\<close>
  "IterateRange p relation minimum maximum =
     (if is_nil p then None
      else if minimum < 0 \<or> maximum < minimum then None
      else if \<not> validIterationRelation relation then None
      else Some (IterationPattern p relation minimum maximum))"

definition IterateZeroOrMore :: "pattern \<Rightarrow> iteration_relation \<Rightarrow> pattern option" where
  "IterateZeroOrMore p relation =
     (if is_nil p then None else if \<not> validIterationRelation relation then None
      else Some (IterationPattern p relation 0 (-1)))"

definition IterateOneOrMore :: "pattern \<Rightarrow> iteration_relation \<Rightarrow> pattern option" where
  "IterateOneOrMore p relation =
     (if is_nil p then None else if \<not> validIterationRelation relation then None
      else Some (IterationPattern p relation 1 (-1)))"

section \<open>Integer ranges\<close>

definition namedRangeCardinality :: "i64 \<Rightarrow> i64 \<Rightarrow> nat option" where
  "namedRangeCardinality first last_value =
     (if sint last_value < sint first then Some 0
      else if unat (last_value - first) \<ge> 256 then None
      else Some (unat (last_value - first) + 1))"

definition validUniversalRange :: "i64 \<Rightarrow> i64 \<Rightarrow> bool" where
  "validUniversalRange first last_value = (if sint last_value < sint first then False else unat (last_value - first) < 256)"

definition equalFold :: "string \<Rightarrow> string \<Rightarrow> bool" where
  \<comment> \<open>\<open>strings.EqualFold\<close> with an ASCII text whose letters have no other foldings\<close>
  "equalFold a b \<longleftrightarrow> map to_lower a = map to_lower b"

definition addPlaceholderType :: "placeholder \<Rightarrow> (string, string) fmap \<Rightarrow> pattern_error + (string, string) fmap" where
  "addPlaceholderType ph types =
     (case fmlookup types (ph_name ph) of
        Some prior \<Rightarrow>
          if prior \<noteq> [] \<and> ph_typ ph \<noteq> [] \<and> prior \<noteq> ph_typ ph then Inl ErrOpaquePattern
          else if prior = [] then Inr (fmupd (ph_name ph) (ph_typ ph) types) else Inr types
      | None \<Rightarrow> Inr (fmupd (ph_name ph) (ph_typ ph) types))"

fun addPlaceholderTypes :: "placeholder list \<Rightarrow> (string, string) fmap \<Rightarrow> pattern_error + (string, string) fmap" where
  "addPlaceholderTypes [] types = Inr types"
| "addPlaceholderTypes (ph # phs) types = (case addPlaceholderType ph types of Inl err \<Rightarrow> Inl err
     | Inr types \<Rightarrow> addPlaceholderTypes phs types)"

definition basicPlaceholders :: "basic_pattern \<Rightarrow> placeholder list" where
  "basicPlaceholders basic = (case bp_sourceBind basic of None \<Rightarrow> [] | Some ph \<Rightarrow> [ph])
     @ List.map_filter snd (bp_parameterBinds basic)"

definition localPlaceholders :: "placeholder \<Rightarrow> (string, string) fmap \<Rightarrow> placeholder list" where
  \<comment> \<open>the placeholders of a range's pattern but for the range's own\<close>
  "localPlaceholders ph types = map (\<lambda>name. \<lparr>ph_name = name, ph_typ = map_get [] types name\<rparr>) (map_keys (fmdrop (ph_name ph) types))"

fun collectBoundPlaceholderTypes :: "pattern \<Rightarrow> (string, string) fmap \<Rightarrow> pattern_error + (string, string) fmap"
  and collectAllTypes :: "pattern list \<Rightarrow> (string, string) fmap \<Rightarrow> pattern_error + (string, string) fmap" where
  "collectBoundPlaceholderTypes (BasicPattern basic) types = addPlaceholderTypes (basicPlaceholders basic) types"
| "collectBoundPlaceholderTypes (SeqPattern p1 p2) types =
     (case collectBoundPlaceholderTypes p1 types of Inl err \<Rightarrow> Inl err | Inr types \<Rightarrow> collectBoundPlaceholderTypes p2 types)"
| "collectBoundPlaceholderTypes (ImmSeqPattern p1 p2) types =
     (case collectBoundPlaceholderTypes p1 types of Inl err \<Rightarrow> Inl err | Inr types \<Rightarrow> collectBoundPlaceholderTypes p2 types)"
| "collectBoundPlaceholderTypes (IndependentPattern p1 p2) types =
     (case collectBoundPlaceholderTypes p1 types of Inl err \<Rightarrow> Inl err | Inr types \<Rightarrow> collectBoundPlaceholderTypes p2 types)"
| "collectBoundPlaceholderTypes (DisjointPattern p1 p2) types =
     (case collectBoundPlaceholderTypes p1 types of Inl err \<Rightarrow> Inl err | Inr types \<Rightarrow> collectBoundPlaceholderTypes p2 types)"
| "collectBoundPlaceholderTypes (UnionPattern p1 p2) types =
     (case collectBoundPlaceholderTypes p1 types of Inl err \<Rightarrow> Inl err | Inr types \<Rightarrow> collectBoundPlaceholderTypes p2 types)"
| "collectBoundPlaceholderTypes (OrPattern subs) types = collectAllTypes subs types"
| "collectBoundPlaceholderTypes (AndPattern subs) types = collectAllTypes subs types"
| "collectBoundPlaceholderTypes (IterationPattern p relation minimum maximum) types = collectBoundPlaceholderTypes p types"
| "collectBoundPlaceholderTypes (NamedRangePattern p iter relation first last_value) types =
     (case collectBoundPlaceholderTypes p fmempty of Inl err \<Rightarrow> Inl err
      | Inr locals \<Rightarrow>
          (case fmlookup locals (ph_name iter) of
            Some boundType \<Rightarrow> if boundType \<noteq> [] \<and> \<not> equalFold boundType ''Integer'' then Inl ErrOpaquePattern
              else addPlaceholderTypes (localPlaceholders iter locals) types
          | None \<Rightarrow> addPlaceholderTypes (localPlaceholders iter locals) types))"
| "collectBoundPlaceholderTypes (UniversalRangePattern p ph relation first last_value) types =
     (case collectBoundPlaceholderTypes p fmempty of Inl err \<Rightarrow> Inl err
      | Inr locals \<Rightarrow>
          (case fmlookup locals (ph_name ph) of
            None \<Rightarrow> Inl ErrOpaquePattern
          | Some boundType \<Rightarrow> if boundType \<noteq> [] \<and> \<not> equalFold boundType ''Integer'' then Inl ErrOpaquePattern
              else addPlaceholderTypes (localPlaceholders ph locals) types))"
| "collectBoundPlaceholderTypes _ types = Inr types"
| "collectAllTypes [] types = Inr types"
| "collectAllTypes (p # ps) types = (case collectBoundPlaceholderTypes p types of Inl err \<Rightarrow> Inl err
     | Inr types \<Rightarrow> collectAllTypes ps types)"

definition validateNamedRangeIteration :: "pattern \<Rightarrow> placeholder \<Rightarrow> iteration_relation \<Rightarrow> i64 \<Rightarrow> i64 \<Rightarrow> pattern_error option" where
  "validateNamedRangeIteration p iter relation first last_value =
     (if is_nil p \<or> ph_name iter = [] \<or> \<not> equalFold (ph_typ iter) ''Integer'' \<or> \<not> validIterationRelation relation
      then Some ErrInvalidNamedIteration
      else if namedRangeCardinality first last_value = None then Some ErrInvalidNamedIteration
      else case collectBoundPlaceholderTypes p fmempty of Inl err \<Rightarrow> Some err
      | Inr types \<Rightarrow> (case fmlookup types (ph_name iter) of
          Some boundType \<Rightarrow> if boundType \<noteq> [] \<and> \<not> equalFold boundType ''Integer'' then Some ErrInvalidNamedIteration else None
        | None \<Rightarrow> None))"

definition validateUniversalRangePattern :: "pattern \<Rightarrow> placeholder \<Rightarrow> iteration_relation \<Rightarrow> i64 \<Rightarrow> i64 \<Rightarrow> pattern_error option" where
  "validateUniversalRangePattern p ph relation first last_value =
     (if is_nil p \<or> ph_name ph = [] \<or> \<not> equalFold (ph_typ ph) ''Integer'' \<or> \<not> validIterationRelation relation
        \<or> \<not> validUniversalRange first last_value
      then Some ErrInvalidUniversalQualification
      else case collectBoundPlaceholderTypes p fmempty of Inl err \<Rightarrow> Some err
      | Inr types \<Rightarrow> (case fmlookup types (ph_name ph) of
          Some boundType \<Rightarrow> if boundType \<noteq> [] \<and> \<not> equalFold boundType ''Integer'' then Some ErrInvalidUniversalQualification else None
        | None \<Rightarrow> Some ErrInvalidUniversalQualification))"

fun substituteLoop :: "bindings \<Rightarrow> string \<Rightarrow> i64 \<Rightarrow> pattern_error + bindings option" where
  \<comment> \<open>the bindings but for the range's placeholder; \<^term>\<open>None\<close> when that has another value\<close>
  "substituteLoop [] name value = Inr (Some [])"
| "substituteLoop ((placeholder, v) # rest) name value =
     (if placeholder \<noteq> name then map_sum id (map_option ((#) (placeholder, v))) (substituteLoop rest name value)
      else case CanonicalValuesEqual v (VInt64 value) of Inl err \<Rightarrow> Inl (ErrValue err)
      | Inr equal \<Rightarrow> if \<not> equal then Inr None else substituteLoop rest name value)"

definition substituteUniversalBinding :: "bindings \<Rightarrow> string \<Rightarrow> i64 \<Rightarrow> pattern_error + bindings option" where
  "substituteUniversalBinding bs name value =
     (case substituteLoop bs name value of Inl err \<Rightarrow> Inl err
      | Inr None \<Rightarrow> Inr None
      | Inr (Some result) \<Rightarrow> if \<not> list_ex (\<lambda>(placeholder, _). placeholder = name) bs then Inr (Some bs) else mergeBindings [] result)"

fun rangeInstances :: "match_result list \<Rightarrow> string \<Rightarrow> i64 \<Rightarrow> pattern_error + match_result list" where
  "rangeInstances [] name value = Inr []"
| "rangeInstances (candidate # rest) name value =
     (case substituteUniversalBinding (mr_bindings candidate) name value of Inl err \<Rightarrow> Inl err
      | Inr None \<Rightarrow> rangeInstances rest name value
      | Inr (Some bs) \<Rightarrow> (case rangeInstances rest name value of Inl err \<Rightarrow> Inl err
          | Inr results \<Rightarrow> Inr (\<lparr>mr_events = mr_events candidate, mr_bindings = bs\<rparr> # results)))"

fun rangeLoop :: "poset_reader \<Rightarrow> string \<Rightarrow> iteration_relation \<Rightarrow> match_result list \<Rightarrow> match_result list option \<Rightarrow> i64 list
    \<Rightarrow> pattern_error + match_result list" where
  \<comment> \<open>over the values of the range; \<open>current\<close> is unset before the first\<close>
  "rangeLoop r name relation inner current [] = Inr (case current of None \<Rightarrow> [] | Some results \<Rightarrow> results)"
| "rangeLoop r name relation inner current (value # rest) =
     (case rangeInstances inner name value of Inl err \<Rightarrow> Inl err
      | Inr instances \<Rightarrow> (case canonicalizeMatchResults instances of Inl err \<Rightarrow> Inl err
        | Inr instances \<Rightarrow> (case current of
            None \<Rightarrow> rangeLoop r name relation inner (Some instances) rest
          | Some current \<Rightarrow> (case combineIterationMatches r relation current instances of Inl err \<Rightarrow> Inl err
              | Inr combined \<Rightarrow> (case canonicalizeMatchResults combined of Inl err \<Rightarrow> Inl err
                | Inr combined \<Rightarrow> rangeLoop r name relation inner (Some combined) rest)))))"

definition rangeValues :: "i64 \<Rightarrow> nat \<Rightarrow> i64 list" where
  "rangeValues first cardinality = map (\<lambda>offset. first + of_nat offset) [0..<cardinality]"

definition rangeInner :: "poset_reader \<Rightarrow> string \<Rightarrow> iteration_relation \<Rightarrow> i64 list \<Rightarrow> match_result list \<Rightarrow> pattern_error + match_result list" where
  \<comment> \<open>both range forms from the matches of the inner pattern on\<close>
  "rangeInner r name relation vals inner =
     (case canonicalizeMatchResults inner of Inl err \<Rightarrow> Inl err
      | Inr inner \<Rightarrow> (case rangeLoop r name relation inner None vals of Inl err \<Rightarrow> Inl err
        | Inr current \<Rightarrow> canonicalizeMatchResults current))"

section \<open>Evaluation\<close>

definition sourceBinding :: "poset_reader \<Rightarrow> basic_pattern \<Rightarrow> event \<Rightarrow> pattern_error + bool \<times> bindings" where
  \<comment> \<open>the binding of the module behind the event's source, and whether there is one\<close>
  "sourceBinding r basic e =
     (case bp_sourceBind basic of None \<Rightarrow> Inr (True, [])
      | Some ph \<Rightarrow> (case rd_ModuleValueForSource r of None \<Rightarrow> Inl ErrInvalidBinding
        | Some resolver \<Rightarrow> (case resolver (ev_source e) (ph_typ ph) of None \<Rightarrow> Inr (False, [])
            | Some identity \<Rightarrow> if identity = [] then Inr (False, []) else Inr (True, [(ph_name ph, VModule identity)]))))"

fun bindLoop :: "event \<Rightarrow> (string \<times> placeholder option) list \<Rightarrow> bindings \<Rightarrow> pattern_error + bindings option" where
  \<comment> \<open>the loop over \<open>parameterBinds\<close>, none of whose placeholders is nil; \<^term>\<open>None\<close> for its break\<close>
  "bindLoop e [] bs = Inr (Some bs)"
| "bindLoop e ((key, None) # rest) bs = Inr None"
| "bindLoop e ((key, Some ph) # rest) bs =
     (case Param e key of (value, ok) \<Rightarrow>
        if \<not> ok then Inr None
        else if ph_typ ph \<noteq> [] \<and> \<not> CanonicalValueMatchesPredefinedType value (ph_typ ph) then Inr None
        else case canonicalBindingValue value of Inl err \<Rightarrow> Inl ErrInvalidBinding
        | Inr canonical \<Rightarrow> (case mergeBindings bs [(ph_name ph, canonical)] of Inl err \<Rightarrow> Inl err
            | Inr None \<Rightarrow> Inr None
            | Inr (Some merged) \<Rightarrow> bindLoop e rest merged))"

fun basicLoop :: "poset_reader \<Rightarrow> basic_pattern \<Rightarrow> event_set \<Rightarrow> pattern_error + match_result list" where
  "basicLoop r basic [] = Inr []"
| "basicLoop r basic (e # rest) =
     (if \<not> basicMatches basic e then basicLoop r basic rest
      else case sourceBinding r basic e of Inl err \<Rightarrow> Inl err
      | Inr (valid, bs) \<Rightarrow> (case bindLoop e (bp_parameterBinds basic) bs of Inl err \<Rightarrow> Inl err
        | Inr bound \<Rightarrow> (case basicLoop r basic rest of Inl err \<Rightarrow> Inl err
          | Inr results \<Rightarrow> (case bound of
              Some bs \<Rightarrow> Inr (if valid then \<lparr>mr_events = [e], mr_bindings = bs\<rparr> # results else results)
            | None \<Rightarrow> Inr results))))"

definition basicCandidates :: "poset_reader \<Rightarrow> basic_pattern \<Rightarrow> event_set" where
  "basicCandidates r basic = (if bp_name basic = [] then rd_All r else rd_ByName r (bp_name basic))"

definition matchBasicWithBindings :: "poset_reader \<Rightarrow> basic_pattern \<Rightarrow> pattern_error + match_result list" where
  "matchBasicWithBindings r basic =
     (if bp_predicates basic \<noteq> [] then Inl ErrOpaquePattern
      else if basicKeyError basic then Inl ErrOpaquePattern
      else case sortMatchEvents (basicCandidates r basic) of Inl err \<Rightarrow> Inl ErrInvalidBinding
      | Inr candidates \<Rightarrow> basicLoop r basic candidates)"

definition matchBinary :: "(event_set \<Rightarrow> event_set \<Rightarrow> bool) \<Rightarrow> pattern_error + match_result list \<Rightarrow> pattern_error + match_result list
    \<Rightarrow> pattern_error + match_result list" where
  \<comment> \<open>\<open>matchBinaryWithBindings\<close> on the evaluated operands\<close>
  "matchBinary relation lefts rights = (case lefts of Inl err \<Rightarrow> Inl err
     | Inr lefts \<Rightarrow> (case rights of Inl err \<Rightarrow> Inl err | Inr rights \<Rightarrow> pairMatches relation mergeEventSets lefts rights))"

fun matchWithBindings :: "poset_reader \<Rightarrow> pattern \<Rightarrow> pattern_error + match_result list"
  and matchAny :: "poset_reader \<Rightarrow> pattern list \<Rightarrow> pattern_error + match_result list"
  and matchEvery :: "poset_reader \<Rightarrow> match_result list \<Rightarrow> pattern list \<Rightarrow> pattern_error + match_result list" where
  "matchWithBindings r NilPattern = matchBasicWithBindings r MatchAny"
| "matchWithBindings r (BasicPattern basic) = matchBasicWithBindings r basic"
| "matchWithBindings r (SeqPattern p1 p2) =
     matchBinary (allCausallyBefore r) (matchWithBindings r p1) (matchWithBindings r p2)"
| "matchWithBindings r (ImmSeqPattern p1 p2) =
     matchBinary (\<lambda>left right. allCausallyBefore r left right \<and> \<not> hasIntervening r left right (rd_All r))
       (matchWithBindings r p1) (matchWithBindings r p2)"
| "matchWithBindings r (IndependentPattern p1 p2) =
     matchBinary (allIndependent r) (matchWithBindings r p1) (matchWithBindings r p2)"
| "matchWithBindings r (DisjointPattern p1 p2) =
     matchBinary eventSetsDisjoint (matchWithBindings r p1) (matchWithBindings r p2)"
| "matchWithBindings r (UnionPattern p1 p2) =
     matchBinary (\<lambda>_ _. True) (matchWithBindings r p1) (matchWithBindings r p2)"
| "matchWithBindings r (OrPattern subs) = matchAny r subs"
| "matchWithBindings r (AndPattern subs) =
     (case subs of [] \<Rightarrow> Inr []
      | sub # rest \<Rightarrow> (case matchWithBindings r sub of Inl err \<Rightarrow> Inl err | Inr current \<Rightarrow> matchEvery r current rest))"
| "matchWithBindings r (IterationPattern p relation minimum maximum) =
     (if is_nil p \<or> \<not> validIteration relation minimum maximum then Inl ErrInvalidIteration
      else case matchWithBindings r p of Inl err \<Rightarrow> Inl err
      | Inr inner \<Rightarrow> iterateInner r relation minimum maximum inner)"
| "matchWithBindings r (NamedRangePattern p iter relation first last_value) =
     (case validateNamedRangeIteration p iter relation first last_value of Some err \<Rightarrow> Inl err
      | None \<Rightarrow> (case namedRangeCardinality first last_value of None \<Rightarrow> Inl ErrInvalidNamedIteration
        | Some cardinality \<Rightarrow>
            if cardinality = 0 then Inr [emptyMatch]
            else case matchWithBindings r p of Inl err \<Rightarrow> Inl err
            | Inr inner \<Rightarrow> rangeInner r (ph_name iter) relation (rangeValues first cardinality) inner))"
| "matchWithBindings r (UniversalRangePattern p ph relation first last_value) =
     (case validateUniversalRangePattern p ph relation first last_value of Some err \<Rightarrow> Inl err
      | None \<Rightarrow> (case matchWithBindings r p of Inl err \<Rightarrow> Inl err
        | Inr inner \<Rightarrow> rangeInner r (ph_name ph) relation (rangeValues first (unat (last_value - first) + 1)) inner))"
| "matchWithBindings r (JoinPattern p1 p2) = Inl ErrOpaquePattern"
| "matchWithBindings r (NotPattern p) = Inl ErrOpaquePattern"
| "matchWithBindings r EmptyPattern = Inl ErrOpaquePattern"
| "matchAny r [] = Inr []"
| "matchAny r (sub # subs) = (case matchWithBindings r sub of Inl err \<Rightarrow> Inl err
     | Inr matches \<Rightarrow> (case matchAny r subs of Inl err \<Rightarrow> Inl err | Inr results \<Rightarrow> Inr (matches @ results)))"
| "matchEvery r current [] = Inr current"
| "matchEvery r current (sub # subs) = (case matchWithBindings r sub of Inl err \<Rightarrow> Inl err
     | Inr again \<Rightarrow> (case pairMatches (\<lambda>left right. eventSetKey left = eventSetKey right) (\<lambda>left right. left) current again of
         Inl err \<Rightarrow> Inl err | Inr combined \<Rightarrow> matchEvery r combined subs))"

definition MatchWithBindings :: "pattern \<Rightarrow> poset_reader \<Rightarrow> pattern_error + match_result list" where
  "MatchWithBindings expression r = (case matchWithBindings r expression of Inl err \<Rightarrow> Inl err
     | Inr results \<Rightarrow> canonicalizeMatchResults results)"

end
