(* ===== verification/Match_Canonical.thy ===== *)
theory Match_Canonical
  imports Pattern_Match
begin

text \<open>
  The canonical form of matches (\<open>pattern/bindings.go\<close>).  A match stands for the set of its occurrences and
  the finite map of its bindings; the key that \<open>sortMatchResults\<close> sorts and drops duplicates by determines
  both, so that \<open>canonicalizeMatchResults\<close> lists every match once and loses none.  \<open>mergeBindings\<close> is the
  union of two environments where they agree.
\<close>

section \<open>The representation of a canonical value determines it\<close>

lemma format_inj [simp]:
  "FormatInt x = FormatInt y \<longleftrightarrow> x = y" "FormatUint u = FormatUint v \<longleftrightarrow> u = v" "FormatHex16 u = FormatHex16 v \<longleftrightarrow> u = v"
  "base64Encode s = base64Encode t \<longleftrightarrow> s = t"
  by (metis Parse_FormatInt option.inject, metis Parse_FormatUint option.inject, metis Parse_FormatHex16(1) option.inject,
      metis base64Decode_encode option.inject)

lemma characters_inj [simp]:
  "map (\<lambda>code. cv_leaf ''character'' (FormatInt code)) xs = map (\<lambda>code. cv_leaf ''character'' (FormatInt code)) ys \<longleftrightarrow> xs = ys"
  by (simp add: inj_def inj_map_eq_map [where f = "\<lambda>code. cv_leaf ''character'' (FormatInt code)"])

lemma to_form:
  assumes w: "canonicalValueCopy w = Inr w" "toCanonicalValue w = Inr c"
  shows "cv_kind c = ''null'' \<Longrightarrow> w = VNil" "cv_kind c = ''bool'' \<Longrightarrow> w = VBool (cv_bool c)" "cv_kind c = ''triv'' \<Longrightarrow> w = VTriv"
    "cv_kind c = ''string'' \<Longrightarrow> w = VString (cv_text c)"
    "cv_kind c = ''character'' \<Longrightarrow> \<exists>code. w = VCharacter code \<and> cv_text c = FormatInt code"
    "cv_kind c = ''string-codes'' \<Longrightarrow>
      \<exists>codes. w = VRapideString codes \<and> cv_items c = map (\<lambda>code. cv_leaf ''character'' (FormatInt code)) codes"
    "cv_kind c = ''module'' \<Longrightarrow> w = VModule (cv_text c)"
    "cv_kind c = ''record'' \<Longrightarrow>
      \<exists>fs. w = VRecord (cv_text c) fs \<and> toFields fs = Inr (cv_fields c) \<and> canonicalRecordFields None fs = Inr fs"
    "cv_kind c = ''integer'' \<Longrightarrow> \<exists>i. w = VInt64 i \<and> cv_text c = FormatInt i"
    "cv_kind c = ''unsigned'' \<Longrightarrow> \<exists>u. w = VUint64 u \<and> cv_text c = FormatUint u"
    "cv_kind c = ''float64'' \<Longrightarrow> \<exists>f. w = VFloat64 f \<and> cv_text c = FormatHex16 f"
    "cv_kind c = ''bytes'' \<Longrightarrow> \<exists>b. w = VBytes b \<and> cv_text c = base64Encode b"
    "cv_kind c = ''list'' \<Longrightarrow> \<exists>items. w = VList items \<and> toItems items = Inr (cv_items c) \<and> canonicalItems items = Inr items"
    "cv_kind c = ''object'' \<Longrightarrow> \<exists>ps. w = VMap ps \<and> toFields ps = Inr (cv_fields c) \<and> canonicalParams ps = Inr ps"
  by (use w in \<open>cases w; auto simp: toCanonicalValue.simps sum_map_Inr split: sum.splits if_splits\<close>)+

lemma to_inj:
  "canonicalValueCopy v = Inr v \<Longrightarrow> canonicalValueCopy w = Inr w \<Longrightarrow> toCanonicalValue v = Inr c \<Longrightarrow> toCanonicalValue w = Inr c \<Longrightarrow> v = w"
  "canonicalItems vs = Inr vs \<Longrightarrow> canonicalItems ws = Inr ws \<Longrightarrow> toItems vs = Inr cs \<Longrightarrow> toItems ws = Inr cs \<Longrightarrow> vs = ws"
  "canonicalParams ps = Inr ps \<Longrightarrow> canonicalParams qs = Inr qs \<Longrightarrow> toFields ps = Inr fs' \<Longrightarrow> toFields qs = Inr fs' \<Longrightarrow> ps = qs"
  "canonicalRecordFields previous fs = Inr fs \<Longrightarrow> canonicalRecordFields previous' gs = Inr gs \<Longrightarrow> toFields fs = Inr gs' \<Longrightarrow> toFields gs = Inr gs'
    \<Longrightarrow> fs = gs"
proof (induction v and vs and ps and previous fs arbitrary: w c and ws cs and qs fs' and gs gs' previous'
    rule: canonicalValueCopy_canonicalItems_canonicalParams_canonicalRecordFields.induct)
  case (8 m fs)
  from "8.prems"(1) have fs: "canonicalRapideModuleValue m = Inr m" "canonicalRecordFields None fs = Inr fs"
    by (auto split: sum.splits)
  from "8.prems"(1,3) obtain cs where cs: "toFields fs = Inr cs" "c = CanonicalValue ''record'' m False [] cs"
    by (auto simp: toCanonicalValue.simps sum_map_Inr)
  obtain gs where gs: "w = VRecord m gs" "toFields gs = Inr cs" "canonicalRecordFields None gs = Inr gs"
    using to_form(8) [OF "8.prems"(2,4)] cs(2) by auto
  show ?case using "8.IH" [OF fs gs(3) cs(1) gs(2)] gs(1) by simp
next
  case (22 items)
  from "22.prems"(1) have items: "canonicalItems items = Inr items" by (auto split: sum.splits)
  from "22.prems"(1,3) obtain cs where cs: "toItems items = Inr cs" "c = CanonicalValue ''list'' [] False cs []"
    by (auto simp: toCanonicalValue.simps sum_map_Inr)
  obtain gs where gs: "w = VList gs" "toItems gs = Inr cs" "canonicalItems gs = Inr gs"
    using to_form(13) [OF "22.prems"(2,4)] cs(2) by auto
  show ?case using "22.IH" [OF items gs(3) cs(1) gs(2)] gs(1) by simp
next
  case (23 ps)
  from "23.prems"(1) have ps: "canonicalParams ps = Inr ps" by (auto split: sum.splits)
  from "23.prems"(1,3) obtain cs where cs: "toFields ps = Inr cs" "c = CanonicalValue ''object'' [] False [] cs"
    by (auto simp: toCanonicalValue.simps sum_map_Inr)
  obtain gs where gs: "w = VMap gs" "toFields gs = Inr cs" "canonicalParams gs = Inr gs"
    using to_form(14) [OF "23.prems"(2,4)] cs(2) by auto
  show ?case using "23.IH" [OF ps gs(3) cs(1) gs(2)] gs(1) by simp
next
  case (25)
  then show ?case by (cases ws) (auto simp: sum_map_Inr split: sum.splits)
next
  case (26 item items)
  from "26.prems"(1) have c: "canonicalValueCopy item = Inr item" "canonicalItems items = Inr items"
    by (auto split: sum.splits)
  from "26.prems"(3) obtain x xs where x: "toCanonicalValue item = Inr x" "toItems items = Inr xs" "cs = x # xs"
    by (auto simp: sum_map_Inr split: sum.splits)
  obtain item' items' where ws: "ws = item' # items'" using "26.prems"(4) x(3) by (cases ws) auto
  have d: "canonicalValueCopy item' = Inr item'" "canonicalItems items' = Inr items'"
    "toCanonicalValue item' = Inr x" "toItems items' = Inr xs"
    using "26.prems"(2,4) x(3) unfolding ws by (auto simp: sum_map_Inr split: sum.splits)
  show ?case using "26.IH"(1) [OF c(1) d(1) x(1) d(3)] "26.IH"(2) [OF c d(2) x(2) d(4)] ws by simp
next
  case (27)
  then show ?case by (cases qs) (auto simp: sum_map_Inr split: sum.splits)
next
  case (28 k v rest)
  from "28.prems"(1) have c: "\<not> \<not> ValidString k" "canonicalValueCopy v = Inr v" "canonicalParams rest = Inr rest"
    by (auto split: sum.splits if_splits)
  from "28.prems"(3) obtain x xs where x: "toCanonicalValue v = Inr x" "toFields rest = Inr xs" "fs' = (k, x) # xs"
    by (auto simp: sum_map_Inr split: sum.splits)
  obtain k' v' rest' where qs: "qs = (k', v') # rest'" using "28.prems"(4) x(3) by (cases qs) auto
  have d: "k' = k" "canonicalValueCopy v' = Inr v'" "canonicalParams rest' = Inr rest'"
    "toCanonicalValue v' = Inr x" "toFields rest' = Inr xs"
    using "28.prems"(2,4) x(3) unfolding qs by (auto simp: sum_map_Inr split: sum.splits if_splits)
  show ?case using "28.IH"(1) [OF c(1,2) d(2) x(1) d(4)] "28.IH"(2) [OF c d(3) x(2) d(5)] qs d(1) by simp
next
  case (29)
  then show ?case by (cases gs) (auto simp: sum_map_Inr split: sum.splits)
next
  case (30 previous k v rest)
  from "30.prems"(1) have c: "\<not> (canonicalRapideIdentifier k \<noteq> Inr k \<or> (case previous of None \<Rightarrow> False | Some p \<Rightarrow> k \<le> p))"
      "canonicalValueCopy v = Inr v" "canonicalRecordFields (Some k) rest = Inr rest"
    by (auto split: sum.splits if_splits)
  from "30.prems"(3) obtain x xs where x: "toCanonicalValue v = Inr x" "toFields rest = Inr xs" "gs' = (k, x) # xs"
    by (auto simp: sum_map_Inr split: sum.splits)
  obtain k' v' rest' where gs: "gs = (k', v') # rest'" using "30.prems"(4) x(3) by (cases gs) auto
  have d: "k' = k" "canonicalValueCopy v' = Inr v'" "canonicalRecordFields (Some k) rest' = Inr rest'"
    "toCanonicalValue v' = Inr x" "toFields rest' = Inr xs"
    using "30.prems"(2,4) x(3) unfolding gs by (auto simp: sum_map_Inr split: sum.splits if_splits)
  show ?case using "30.IH"(1) [OF c(1,2) d(2) x(1) d(4)] "30.IH"(2) [OF c d(3) x(2) d(5)] gs d(1) by simp
qed (case_tac w; auto simp: toCanonicalValue.simps sum_map_Inr split: sum.splits if_splits)+

section \<open>Environments\<close>

lemma canonicalBindingValue_copy [simp]: "canonicalBindingValue v = canonicalValueCopy v"
proof -
  have "ValidString ''value''" by (rule ascii_valid) simp
  then show ?thesis
    by (cases "canonicalValueCopy v") (simp_all add: canonicalBindingValue_def CanonicalizeParams_def params_get_def)
qed

definition binding_ok :: "string \<times> go_value \<Rightarrow> bool" where
  "binding_ok = (\<lambda>(name, v). name \<noteq> [] \<and> ValidString name \<and> canonicalValueCopy v = Inr v)"

definition env_ok :: "bindings \<Rightarrow> bool" where
  \<comment> \<open>distinct names that are not empty, with canonical values\<close>
  "env_ok bs \<longleftrightarrow> distinct (map fst bs) \<and> list_all binding_ok bs"

definition compatible :: "(string \<rightharpoonup> go_value) \<Rightarrow> (string \<rightharpoonup> go_value) \<Rightarrow> bool" where
  "compatible m n \<longleftrightarrow> (\<forall>x \<in> dom m \<inter> dom n. m x = n x)"

lemma compatible_iff: "compatible m n \<longleftrightarrow> (\<forall>x v w. m x = Some v \<longrightarrow> n x = Some w \<longrightarrow> v = w)"
proof
  assume c: "compatible m n"
  show "\<forall>x v w. m x = Some v \<longrightarrow> n x = Some w \<longrightarrow> v = w"
  proof (intro allI impI)
    fix x v w
    assume "m x = Some v" "n x = Some w"
    moreover from this have "x \<in> dom m \<inter> dom n" by auto
    ultimately show "v = w" using c by (simp add: compatible_def)
  qed
next
  assume a: "\<forall>x v w. m x = Some v \<longrightarrow> n x = Some w \<longrightarrow> v = w"
  show "compatible m n"
    unfolding compatible_def
  proof
    fix x
    assume "x \<in> dom m \<inter> dom n"
    then obtain v w where "m x = Some v" "n x = Some w" by auto
    then show "m x = n x" using a by simp
  qed
qed

lemma env_ok_simps [simp]:
  "env_ok []" "env_ok ((name, v) # bs) \<longleftrightarrow> name \<notin> fst ` set bs \<and> binding_ok (name, v) \<and> env_ok bs"
  by (auto simp: env_ok_def)

lemma binding_okD: "binding_ok (name, v) \<Longrightarrow> name \<noteq> [] \<and> ValidString name \<and> canonicalValueCopy v = Inr v"
  by (simp add: binding_ok_def)

lemma env_ok_lookup: "env_ok bs \<Longrightarrow> map_of bs name = Some v \<Longrightarrow> binding_ok (name, v)"
  by (auto simp: env_ok_def list_all_iff dest!: map_of_SomeD)

lemma mergeLoop_append:
  "mergeLoop (xs @ ys) vals = (case mergeLoop xs vals of Inl err \<Rightarrow> Inl err | Inr None \<Rightarrow> Inr None | Inr (Some out) \<Rightarrow> mergeLoop ys out)"
  by (induction xs vals rule: mergeLoop.induct) (auto split: sum.splits option.splits)

lemma lookup_add: "fmlookup (m ++\<^sub>f n) = fmlookup m ++ fmlookup n"
  by (rule ext) (auto simp: map_add_def dest: fmdom_notD split: option.splits)

lemma mergeLoop_env:
  assumes "env_ok bs" "\<And>name v. fmlookup vals name = Some v \<Longrightarrow> canonicalValueCopy v = Inr v"
  shows "mergeLoop bs vals = Inr (if compatible (fmlookup vals) (map_of bs) then Some (vals ++\<^sub>f fmap_of_list bs) else None)"
  using assms
proof (induction bs arbitrary: vals)
  case Nil
  have "vals ++\<^sub>f fmempty = vals" by simp
  then show ?case by (simp add: compatible_def)
next
  case (Cons b bs)
  obtain name v where b: "b = (name, v)" by (cases b)
  have new: "name \<notin> fst ` set bs" "env_ok bs" "name \<noteq> []" "canonicalValueCopy v = Inr v"
    using Cons.prems(1) by (auto simp: b dest: binding_okD)
  have absent: "map_of bs name = None" using new(1) by (simp add: map_of_eq_None_iff)
  have upd: "fmupd name v vals ++\<^sub>f fmap_of_list bs = vals ++\<^sub>f fmap_of_list (b # bs)"
    by (rule fmap_ext) (use absent in \<open>auto simp add: b lookup_add fmlookup_of_list map_add_def del: fmlookup_add split: option.splits\<close>)
  show ?case
  proof (cases "fmlookup vals name")
    case None
    have step: "mergeLoop (b # bs) vals = mergeLoop bs (fmupd name v vals)" using new None by (simp add: b)
    have c: "compatible (fmlookup (fmupd name v vals)) (map_of bs) \<longleftrightarrow> compatible (fmlookup vals) (map_of (b # bs))"
      using None absent by (auto simp: compatible_iff b split: if_splits)
    have "mergeLoop bs (fmupd name v vals) = Inr (if compatible (fmlookup (fmupd name v vals)) (map_of bs)
        then Some (fmupd name v vals ++\<^sub>f fmap_of_list bs) else None)"
      by (rule Cons.IH [OF new(2)]) (use new(4) Cons.prems(2) in \<open>auto split: if_splits\<close>)
    then show ?thesis unfolding step c upd .
  next
    case (Some w)
    have w: "canonicalValueCopy w = Inr w" by (rule Cons.prems(2) [OF Some])
    show ?thesis
    proof (cases "w = v")
      case True
      have step: "mergeLoop (b # bs) vals = mergeLoop bs vals" using new Some w True by (simp add: b CanonicalValuesEqual_def)
      have c: "compatible (fmlookup vals) (map_of bs) \<longleftrightarrow> compatible (fmlookup vals) (map_of (b # bs))"
        using Some True absent by (auto simp: compatible_iff b split: if_splits) (metis option.distinct(1))
      have u: "vals ++\<^sub>f fmap_of_list bs = vals ++\<^sub>f fmap_of_list (b # bs)"
        unfolding upd [symmetric] by (rule fmap_ext) (use Some True in \<open>auto simp: map_add_def split: option.splits\<close>)
      have "mergeLoop bs vals = Inr (if compatible (fmlookup vals) (map_of bs) then Some (vals ++\<^sub>f fmap_of_list bs) else None)"
        by (rule Cons.IH [OF new(2)]) (rule Cons.prems(2))
      then show ?thesis by (simp only: step c u)
    next
      case False
      have step: "mergeLoop (b # bs) vals = Inr None" using new Some w False by (simp add: b CanonicalValuesEqual_def)
      have "\<not> compatible (fmlookup vals) (map_of (b # bs))" using Some False by (auto simp: compatible_iff b intro!: exI [of _ name])
      then show ?thesis using step by (simp only: if_False)
    qed
  qed
qed

definition sorted_env :: "(string, go_value) fmap \<Rightarrow> bindings" where
  "sorted_env vals = map (\<lambda>name. (name, map_get VNil vals name)) (map_keys vals)"

lemma map_fst_sorted_env [simp]: "map fst (sorted_env vals) = map_keys vals"
  by (simp add: sorted_env_def o_def)

lemma map_of_sorted_env [simp]: "map_of (sorted_env vals) = fmlookup vals"
proof
  fix name
  show "map_of (sorted_env vals) name = fmlookup vals name"
  proof (cases "fmlookup vals name")
    case None
    then show ?thesis by (simp add: map_of_eq_None_iff flip: set_map) (simp add: fmdom_notI)
  next
    case (Some v)
    have "(name, v) \<in> set (sorted_env vals)" using Some by (auto simp: sorted_env_def map_get_def intro!: fmdomI)
    then show ?thesis using Some by (simp add: map_of_eq_Some_iff)
  qed
qed

lemma mergeBindings_env:
  assumes "env_ok left" "env_ok right"
  shows "mergeBindings left right =
    Inr (if compatible (map_of left) (map_of right) then Some (sorted_env (fmap_of_list left ++\<^sub>f fmap_of_list right)) else None)"
proof -
  have l: "mergeLoop left fmempty = Inr (Some (fmap_of_list left))"
    by (subst mergeLoop_env [OF assms(1)]) (simp_all add: compatible_def)
  have r: "mergeLoop right (fmap_of_list left) = Inr (if compatible (map_of left) (map_of right)
      then Some (fmap_of_list left ++\<^sub>f fmap_of_list right) else None)"
    by (subst mergeLoop_env [OF assms(2)]) (auto simp: fmlookup_of_list dest: env_ok_lookup [OF assms(1)] binding_okD)
  show ?thesis by (simp add: mergeBindings_def mergeLoop_append l r sorted_env_def)
qed

lemma env_ok_merged:
  assumes "env_ok left" "env_ok right"
  shows "env_ok (sorted_env (fmap_of_list left ++\<^sub>f fmap_of_list right))" (is "env_ok ?e")
proof -
  have "binding_ok (name, v)" if "(name, v) \<in> set ?e" for name v
  proof -
    have "map_of ?e name = Some v" by (rule map_of_is_SomeI [OF _ that]) simp
    then show ?thesis using env_ok_lookup [OF assms(1)] env_ok_lookup [OF assms(2)]
      by (auto simp: lookup_add fmlookup_of_list map_add_def simp del: fmlookup_add split: option.splits)
  qed
  then show ?thesis by (auto simp: env_ok_def list_all_iff)
qed

section \<open>The key of a match\<close>

lemma join_Cons: "strings_join sep (x # xs) @ s = x @ (if xs = [] then s else sep @ strings_join sep xs @ s)"
  by (cases xs) (simp_all add: strings_join_def)

lemma join_prefix:
  assumes "\<And>x y s t. x \<in> set xs \<Longrightarrow> y \<in> set ys \<Longrightarrow> f x @ s = f y @ t \<Longrightarrow> x = y \<and> s = t"
    "\<And>x. x \<in> set xs \<union> set ys \<Longrightarrow> f x \<noteq> [] \<and> hd (f x) \<noteq> CHR '']''"
    "strings_join '','' (map f xs) @ '']'' @ s = strings_join '','' (map f ys) @ '']'' @ t"
  shows "xs = ys \<and> s = t"
  using assms
proof (induction xs arbitrary: ys)
  case Nil
  show ?case
  proof (cases ys)
    case (Cons y zs)
    then show ?thesis using Nil.prems(2) [of y] Nil.prems(3) by (cases "f y") (auto simp: join_Cons strings_join_def)
  qed (use Nil.prems(3) in simp)
next
  case (Cons x xs)
  show ?case
  proof (cases ys)
    case Nil
    then show ?thesis using Cons.prems(2) [of x] Cons.prems(3) by (cases "f x") (auto simp: join_Cons strings_join_def)
  next
    case (Cons y zs)
    from Cons.prems(3) have e: "f x @ (if xs = [] then '']'' @ s else '','' @ strings_join '','' (map f xs) @ '']'' @ s)
        = f y @ (if zs = [] then '']'' @ t else '','' @ strings_join '','' (map f zs) @ '']'' @ t)"
      unfolding Cons list.map join_Cons by simp
    have x: "x = y" "(if xs = [] then '']'' @ s else '','' @ strings_join '','' (map f xs) @ '']'' @ s)
        = (if zs = [] then '']'' @ t else '','' @ strings_join '','' (map f zs) @ '']'' @ t)"
      using Cons.prems(1) [OF _ _ e] by (simp_all add: Cons)
    show ?thesis
    proof (cases "xs = [] \<or> zs = []")
      case True
      then show ?thesis using x by (auto simp: Cons split: if_splits)
    next
      case False
      with x(2) have "strings_join '','' (map f xs) @ '']'' @ s = strings_join '','' (map f zs) @ '']'' @ t" by simp
      then have "xs = zs \<and> s = t"
      proof (rule Cons.IH [rotated 2])
        show "u = w \<and> p = q" if "u \<in> set xs" "w \<in> set zs" "f u @ p = f w @ q" for u w p q
          by (rule Cons.prems(1) [OF _ _ that(3)]) (use that Cons in auto)
        show "f u \<noteq> [] \<and> hd (f u) \<noteq> CHR '']''" if "u \<in> set xs \<union> set zs" for u
          by (rule Cons.prems(2)) (use that Cons in auto)
      qed
      then show ?thesis using x(1) by (simp add: Cons)
    qed
  qed
qed

definition valid_id :: "string \<Rightarrow> bool" where
  "valid_id i \<longleftrightarrow> i \<noteq> [] \<and> ValidString i"

definition event_ok :: "event \<Rightarrow> bool" where
  \<comment> \<open>an identified occurrence with canonical parameters\<close>
  "event_ok e \<longleftrightarrow> valid_id (ev_id e) \<and> (\<exists>parameters. CanonicalizeParameters (ev_params e) = Inr parameters)"

definition match_ok :: "match_result \<Rightarrow> bool" where
  "match_ok m \<longleftrightarrow> list_all event_ok (mr_events m) \<and> distinct (map ev_id (mr_events m)) \<and> env_ok (mr_bindings m)"

type_synonym match_meaning = "event_id set \<times> (string \<rightharpoonup> go_value)"

definition meaning_of :: "match_result \<Rightarrow> match_meaning" where
  \<comment> \<open>the occurrences of a match and its assignment\<close>
  "meaning_of m = (ev_id ` set (mr_events m), map_of (mr_bindings m))"

lemma event_okD: "event_ok e \<Longrightarrow> ev_id e \<noteq> [] \<and> ValidString (ev_id e)"
  by (simp add: event_ok_def valid_id_def)

lemma match_okD:
  assumes "match_ok m"
  shows "\<And>e. e \<in> set (mr_events m) \<Longrightarrow> event_ok e" "distinct (map ev_id (mr_events m))" "env_ok (mr_bindings m)"
  using assms by (auto simp: match_ok_def list_all_iff)

lemma uniqueIDs_run:
  "(\<And>e. e \<in> set es \<Longrightarrow> ev_id e \<noteq> []) \<Longrightarrow>
    \<exists>ids. uniqueIDs seen es = Some ids \<and> distinct ids \<and> set ids = ev_id ` set es - seen"
proof (induction seen es rule: uniqueIDs.induct)
  case (2 seen e es)
  show ?case
  proof (cases "ev_id e \<in> seen")
    case True
    then show ?thesis using 2 by auto
  next
    case False
    then obtain ids where "uniqueIDs (insert (ev_id e) seen) es = Some ids" "distinct ids"
        "set ids = ev_id ` set es - insert (ev_id e) seen"
      using 2 by auto
    then show ?thesis using False "2.prems" by auto
  qed
qed auto

lemma canonical_encoding:
  assumes "canonicalValueCopy v = Inr v"
  obtains c where "toCanonicalValue v = Inr c" "CanonicalizeParameters [(''value'', v)] = Inr [(''value'', c)]" "valid_texts c"
proof -
  obtain c where c: "toCanonicalValue v = Inr c" using from_to(1) [OF assms] by auto
  have "ValidString ''value''" by (rule ascii_valid) simp
  with c assms have "CanonicalizeParameters [(''value'', v)] = Inr [(''value'', c)]" by (simp add: CanonicalizeParameters_def)
  then show thesis using that c to_valid(1) [OF assms c] by simp
qed

definition encoded_env :: "bindings \<Rightarrow> (string \<times> canonical_value) list" where
  "encoded_env bs = map (\<lambda>(name, v). (name, projr (toCanonicalValue v))) bs"

lemma encodeBindings_run: "list_all binding_ok bs \<Longrightarrow> encodeBindings bs = Inr (encoded_env bs)"
proof (induction bs rule: encodeBindings.induct)
  case (2 name v bs)
  then have "canonicalValueCopy v = Inr v" by (simp add: binding_ok_def)
  then obtain c where "toCanonicalValue v = Inr c" "CanonicalizeParameters [(''value'', v)] = Inr [(''value'', c)]"
    by (rule canonical_encoding)
  with 2 show ?case by (simp add: encoded_env_def)
qed (simp add: encoded_env_def)

lemma encoded_env_inj:
  "list_all binding_ok bs \<Longrightarrow> list_all binding_ok cs \<Longrightarrow> encoded_env bs = encoded_env cs \<Longrightarrow> bs = cs"
proof (induction bs arbitrary: cs)
  case (Cons b bs)
  then obtain c cs' where cs: "cs = c # cs'" by (cases cs) (auto simp: encoded_env_def)
  obtain name v where b: "b = (name, v)" by (cases b)
  obtain name' w where c: "c = (name', w)" by (cases c)
  have v: "canonicalValueCopy v = Inr v" using Cons.prems(1) by (simp add: b binding_ok_def)
  have w: "canonicalValueCopy w = Inr w" using Cons.prems(2) by (simp add: cs c binding_ok_def)
  obtain x where x: "toCanonicalValue v = Inr x" using canonical_encoding [OF v] by blast
  obtain y where y: "toCanonicalValue w = Inr y" using canonical_encoding [OF w] by blast
  have e: "name = name'" "x = y" "encoded_env bs = encoded_env cs'"
    using Cons.prems(3) by (simp_all add: cs b c encoded_env_def x y)
  have "v = w" by (rule to_inj(1) [OF v w x]) (simp add: y e(2))
  then show ?case using Cons.IH [of cs'] Cons.prems(1,2) e by (simp add: cs b c)
qed (simp add: encoded_env_def)

lemma jsonBinding_prefix:
  assumes "ValidString n" "valid_texts d" "jsonBinding (m, c) @ s = jsonBinding (n, d) @ t"
  shows "(m, c) = (n, d) \<and> s = t"
proof -
  from assms(3) have "jsonString m @ '',\"value\":'' @ jsonValue c @ ''}'' @ s
      = jsonString n @ '',\"value\":'' @ jsonValue d @ ''}'' @ t"
    by (simp add: jsonBinding_def)
  then have m: "m = n" and r: "jsonValue c @ ''}'' @ s = jsonValue d @ ''}'' @ t"
    unfolding jsonString_prefix [OF assms(1)] by simp_all
  from json_prefix(1) [OF assms(2) r] m show ?thesis by simp
qed

lemma jsonMatch_inj:
  assumes "\<And>i. i \<in> set ids \<Longrightarrow> ValidString i" "\<And>i. i \<in> set ids' \<Longrightarrow> ValidString i"
    "\<And>b. b \<in> set bs \<Longrightarrow> ValidString (fst b) \<and> valid_texts (snd b)"
    "\<And>b. b \<in> set bs' \<Longrightarrow> ValidString (fst b) \<and> valid_texts (snd b)"
    "jsonMatch ids bs = jsonMatch ids' bs'"
  shows "ids = ids' \<and> bs = bs'"
proof -
  from assms(5) have e: "strings_join '','' (map jsonString ids) @ '']'' @ '',\"bindings\":['' @ strings_join '','' (map jsonBinding bs) @ '']'' @ ''}''
      = strings_join '','' (map jsonString ids') @ '']'' @ '',\"bindings\":['' @ strings_join '','' (map jsonBinding bs') @ '']'' @ ''}''"
    by (simp add: jsonMatch_def)
  have ids: "ids = ids' \<and> '',\"bindings\":['' @ strings_join '','' (map jsonBinding bs) @ '']'' @ ''}''
      = '',\"bindings\":['' @ strings_join '','' (map jsonBinding bs') @ '']'' @ ''}''"
  proof (rule join_prefix [OF _ _ e])
    show "x = y \<and> s = t" if "x \<in> set ids" "y \<in> set ids'" "jsonString x @ s = jsonString y @ t" for x y s t
      using that(3) jsonString_prefix [OF assms(2) [OF that(2)]] by simp
    show "jsonString x \<noteq> [] \<and> hd (jsonString x) \<noteq> CHR '']''" for x by (simp add: jsonString_def)
  qed
  have "bs = bs' \<and> ''}'' = ''}''"
  proof (rule join_prefix)
    show "strings_join '','' (map jsonBinding bs) @ '']'' @ ''}'' = strings_join '','' (map jsonBinding bs') @ '']'' @ ''}''"
      using ids by simp
    show "x = y \<and> s = t" if "x \<in> set bs" "y \<in> set bs'" "jsonBinding x @ s = jsonBinding y @ t" for x y s t
      using that assms(4) [OF that(2)] jsonBinding_prefix [of "fst y" "snd y" "fst x" "snd x" s t] by simp
    show "jsonBinding x \<noteq> [] \<and> hd (jsonBinding x) \<noteq> CHR '']''" for x by (simp add: jsonBinding_def case_prod_beta)
  qed
  then show ?thesis using ids by simp
qed

definition match_key :: "match_meaning \<Rightarrow> string" where
  "match_key = (\<lambda>(ids, m). jsonMatch (sorted_list_of_set ids)
     (encoded_env (map (\<lambda>name. (name, the (m name))) (sorted_list_of_set (dom m)))))"

lemma sorted_env_list: "sorted_env vals = map (\<lambda>name. (name, the (fmlookup vals name))) (sorted_list_of_set (dom (fmlookup vals)))"
proof -
  have "map_keys vals = sorted_list_of_set (dom (fmlookup vals))"
    by (simp add: map_keys_def sorted_list_of_fset.rep_eq fmdom.rep_eq)
  then show ?thesis
    by (auto simp: sorted_env_def map_get_def fmlookup_dom'_iff split: option.splits)
qed

lemma matchResultKey_run:
  assumes "match_ok m"
  shows "matchResultKey m = Inr (match_key (meaning_of m))"
proof -
  note ok = match_okD [OF assms]
  have "\<exists>ids. uniqueIDs {} (mr_events m) = Some ids \<and> distinct ids \<and> set ids = ev_id ` set (mr_events m) - {}"
    by (rule uniqueIDs_run) (use ok(1) event_okD in blast)
  then obtain ids where ids: "uniqueIDs {} (mr_events m) = Some ids" "distinct ids" "set ids = ev_id ` set (mr_events m)"
    by auto
  have sorted: "sort_ids ids = sorted_list_of_set (ev_id ` set (mr_events m))"
    by (simp add: sort_ids_def sorted_list_of_set_sort_remdups ids(2) distinct_remdups_id flip: ids(3))
  let ?e = "sorted_env (fmap_of_list (mr_bindings m))"
  have merged: "mergeBindings [] (mr_bindings m) = Inr (Some ?e)"
    using mergeBindings_env [of "[]" "mr_bindings m"] ok(3) by (simp add: compatible_def)
  have "env_ok ?e" using env_ok_merged [of "[]" "mr_bindings m"] ok(3) by simp
  then have enc: "encodeBindings ?e = Inr (encoded_env ?e)" by (simp add: encodeBindings_run env_ok_def)
  have "fmlookup (fmap_of_list (mr_bindings m)) = map_of (mr_bindings m)" by (rule ext) (simp add: fmlookup_of_list)
  then have e: "?e = map (\<lambda>name. (name, the (map_of (mr_bindings m) name))) (sorted_list_of_set (dom (map_of (mr_bindings m))))"
    by (simp add: sorted_env_list)
  show ?thesis
    by (simp add: matchResultKey_def ids(1) merged enc sorted match_key_def meaning_of_def flip: e)
qed

lemma match_key_inj:
  assumes "match_ok a" "match_ok b" "match_key (meaning_of a) = match_key (meaning_of b)"
  shows "meaning_of a = meaning_of b"
proof -
  define names where "names m = sorted_list_of_set (dom (map_of (mr_bindings m)))" for m :: match_result
  define env where "env m = map (\<lambda>name. (name, the (map_of (mr_bindings m) name))) (names m)" for m :: match_result
  have fin: "finite (dom (map_of (mr_bindings m)))" for m :: match_result by (simp add: finite_dom_map_of)
  have env: "list_all binding_ok (env m)" if "match_ok m" for m
    using env_ok_lookup [OF match_okD(3) [OF that]] fin
    by (auto simp: env_def names_def list_all_iff)
  have enc: "ValidString (fst x) \<and> valid_texts (snd x)" if "match_ok m" "x \<in> set (encoded_env (env m))" for m x
  proof -
    from that(2) obtain name v where nv: "(name, v) \<in> set (env m)" "x = (name, projr (toCanonicalValue v))"
      by (auto simp: encoded_env_def)
    then have ok: "ValidString name" "canonicalValueCopy v = Inr v"
      using env [OF that(1)] by (auto simp: list_all_iff dest: binding_okD)
    obtain c where "toCanonicalValue v = Inr c" "valid_texts c" using canonical_encoding [OF ok(2)] by blast
    then show ?thesis using ok(1) nv(2) by simp
  qed
  have valid: "ValidString i" if "match_ok m" "i \<in> set (sorted_list_of_set (ev_id ` set (mr_events m)))" for m i
    using that match_okD(1) [OF that(1)] event_okD by auto
  have e: "jsonMatch (sorted_list_of_set (ev_id ` set (mr_events a))) (encoded_env (env a))
      = jsonMatch (sorted_list_of_set (ev_id ` set (mr_events b))) (encoded_env (env b))"
    using assms(3) by (simp add: match_key_def meaning_of_def env_def names_def)
  have "sorted_list_of_set (ev_id ` set (mr_events a)) = sorted_list_of_set (ev_id ` set (mr_events b))
      \<and> encoded_env (env a) = encoded_env (env b)"
    by (rule jsonMatch_inj [OF valid [OF assms(1)] valid [OF assms(2)] enc [OF assms(1)] enc [OF assms(2)] e])
  then have ids: "ev_id ` set (mr_events a) = ev_id ` set (mr_events b)" and "encoded_env (env a) = encoded_env (env b)"
    by (simp_all add: sorted_list_of_set_inject)
  then have "env a = env b" using encoded_env_inj env assms(1,2) by blast
  have lookup: "map_of (mr_bindings m) = map_of (env m)" for m :: match_result
  proof
    fix name
    show "map_of (mr_bindings m) name = map_of (env m) name"
      by (cases "map_of (mr_bindings m) name")
        (auto simp: env_def names_def fin map_of_map_restrict restrict_map_def simp flip: not_None_eq)
  qed
  show ?thesis unfolding meaning_of_def ids lookup [of a] lookup [of b] \<open>env a = env b\<close> ..
qed

corollary match_key_iff:
  "match_ok a \<Longrightarrow> match_ok b \<Longrightarrow> match_key (meaning_of a) = match_key (meaning_of b) \<longleftrightarrow> meaning_of a = meaning_of b"
  using match_key_inj by auto

section \<open>Canonical result lists\<close>

lemma keyed_run:
  "(\<And>x. x \<in> set xs \<Longrightarrow> key x = Inr (K x)) \<Longrightarrow> keyed key xs = Inr (map (\<lambda>x. (K x, x)) xs)"
  by (induction xs) simp_all

lemma matchEventKey_run: "event_ok e \<Longrightarrow> \<exists>k. matchEventKey e = Inr k"
  by (auto simp: event_ok_def matchEventKey_def)

lemma sortMatchEvents_run:
  assumes "\<And>e. e \<in> set es \<Longrightarrow> event_ok e"
  obtains fs where "sortMatchEvents es = Inr fs" "mset fs = mset es"
proof -
  have "matchEventKey e = Inr (projr (matchEventKey e))" if "e \<in> set es" for e
    using matchEventKey_run [OF assms [OF that]] by auto
  then have "keyed matchEventKey es = Inr (map (\<lambda>e. (projr (matchEventKey e), e)) es)" by (rule keyed_run)
  then have "sortMatchEvents es = Inr (map snd (sort_key fst (map (\<lambda>e. (projr (matchEventKey e), e)) es)))"
    by (simp add: sortMatchEvents_def)
  moreover have "mset (map snd (sort_key fst (map (\<lambda>e. (projr (matchEventKey e), e)) es))) = mset es"
    by (simp add: image_mset.compositionality o_def)
  ultimately show thesis by (rule that)
qed

definition canonical_results :: "match_result list \<Rightarrow> bool" where
  \<comment> \<open>each match once, in the order of the keys\<close>
  "canonical_results ms \<longleftrightarrow> list_all match_ok ms \<and> sorted_wrt (<) (map (\<lambda>m. match_key (meaning_of m)) ms)"

lemma canonical_results_ok: "canonical_results ms \<Longrightarrow> list_all match_ok ms"
  by (simp add: canonical_results_def)

lemma canonical_results_distinct: "canonical_results ms \<Longrightarrow> distinct (map meaning_of ms)"
proof -
  assume "canonical_results ms"
  then have "distinct (map (\<lambda>m. match_key (meaning_of m)) ms)"
    by (simp add: canonical_results_def strict_sorted_iff)
  then have "distinct (map match_key (map meaning_of ms))" by (simp add: o_def)
  then show ?thesis by (simp only: distinct_map [of match_key])
qed

lemma match_ok_permuted:
  assumes "match_ok m" "mset fs = mset (mr_events m)"
  defines "n \<equiv> \<lparr>mr_events = fs, mr_bindings = sort_key fst (mr_bindings m)\<rparr>"
  shows "match_ok n \<and> meaning_of n = meaning_of m"
proof -
  note ok = match_okD [OF assms(1)]
  have s: "set fs = set (mr_events m)" using assms(2) by (rule mset_eq_setD)
  have "mset (map ev_id fs) = mset (map ev_id (mr_events m))" by (simp add: assms(2))
  then have d: "distinct (map ev_id fs)" using ok(2) mset_eq_imp_distinct_iff by blast
  have b: "distinct (map fst (mr_bindings m))" using ok(3) by (simp add: env_ok_def)
  have m: "mset (map fst (sort_key fst (mr_bindings m))) = mset (map fst (mr_bindings m))" by simp
  then have b': "distinct (map fst (sort_key fst (mr_bindings m)))" using b mset_eq_imp_distinct_iff by blast
  have "map_of (sort_key fst (mr_bindings m)) = map_of (mr_bindings m)"
    by (rule map_of_eqI) (use b b' in \<open>auto simp: map_of_eq_Some_iff\<close>)
  moreover have "env_ok (sort_key fst (mr_bindings m))" using b' ok(3) by (simp add: env_ok_def list_all_iff)
  ultimately show ?thesis
    using ok(1) d by (simp add: n_def match_ok_def meaning_of_def s list_all_iff)
qed

lemma sortParts_run:
  "list_all match_ok ms \<Longrightarrow> \<exists>ns. sortParts ms = Inr ns \<and> list_all match_ok ns \<and> map meaning_of ns = map meaning_of ms"
proof (induction ms)
  case (Cons m ms)
  then obtain ns where ns: "sortParts ms = Inr ns" "list_all match_ok ns" "map meaning_of ns = map meaning_of ms" by auto
  have m: "match_ok m" using Cons.prems by simp
  obtain fs where fs: "sortMatchEvents (mr_events m) = Inr fs" "mset fs = mset (mr_events m)"
    using sortMatchEvents_run [OF match_okD(1) [OF m]] .
  from match_ok_permuted [OF m fs(2)] ns show ?case by (simp add: fs(1))
qed simp

lemma dropRepeats_sorted:
  assumes "sorted (map fst ks)" "\<And>k. previous = Some k \<Longrightarrow> \<forall>k' \<in> fst ` set ks. k \<le> k'" "\<And>k x. (k, x) \<in> set ks \<Longrightarrow> k = K x"
  shows "sorted_wrt (<) (map K (dropRepeats previous ks)) \<and> set (dropRepeats previous ks) \<subseteq> snd ` set ks
    \<and> K ` set (dropRepeats previous ks) = fst ` set ks - set_option previous"
  using assms
proof (induction previous ks rule: dropRepeats.induct)
  case (2 previous k x rest)
  have k: "k = K x" using "2.prems"(3) by simp
  show ?case
  proof (cases "previous = Some k")
    case True
    then show ?thesis using 2 by auto
  next
    case False
    have rest: "sorted_wrt (<) (map K (dropRepeats (Some k) rest))" "set (dropRepeats (Some k) rest) \<subseteq> snd ` set rest"
        "K ` set (dropRepeats (Some k) rest) = fst ` set rest - {k}"
      using "2.IH"(2) [OF False] "2.prems" by auto
    have above: "k < K y" if "y \<in> set (dropRepeats (Some k) rest)" for y
    proof -
      have "K y \<in> fst ` set rest - {k}" using that rest(3) by blast
      moreover have "\<forall>k' \<in> fst ` set rest. k \<le> k'" using "2.prems"(1) by auto
      ultimately show ?thesis by force
    qed
    have out: "p \<notin> fst ` set rest" if "previous = Some p" for p
    proof
      assume "p \<in> fst ` set rest"
      then have "k \<le> p" using "2.prems"(1) by auto
      moreover have "p \<le> k" using "2.prems"(2) [OF that] by simp
      ultimately show False using False that by simp
    qed
    have "K ` set (dropRepeats previous ((k, x) # rest)) = insert k (fst ` set rest - {k})"
      using False rest(3) by (simp add: k [symmetric])
    also have "\<dots> = fst ` set ((k, x) # rest) - set_option previous"
      using False out by (cases previous) auto
    finally show ?thesis using False rest(1,2) above by (auto simp: k [symmetric])
  qed
qed simp

lemma sortMatchResults_run:
  assumes "list_all match_ok ms"
  obtains ns where "sortMatchResults ms = Inr ns" "canonical_results ns" "meaning_of ` set ns = meaning_of ` set ms" "set ns \<subseteq> set ms"
proof -
  let ?K = "\<lambda>m. match_key (meaning_of m)"
  let ?ks = "sort_key fst (map (\<lambda>m. (?K m, m)) ms)"
  have "sortMatchResults ms = Inr (dropRepeats None ?ks)"
    using keyed_run [of ms matchResultKey ?K] assms matchResultKey_run
    by (simp add: sortMatchResults_def list_all_iff)
  moreover have d: "sorted_wrt (<) (map ?K (dropRepeats None ?ks)) \<and> set (dropRepeats None ?ks) \<subseteq> snd ` set ?ks
      \<and> ?K ` set (dropRepeats None ?ks) = fst ` set ?ks - set_option None"
    by (rule dropRepeats_sorted) auto
  moreover have sub: "set (dropRepeats None ?ks) \<subseteq> set ms" using d by auto
  moreover have "canonical_results (dropRepeats None ?ks)"
    using d sub assms by (auto simp: canonical_results_def list_all_iff)
  moreover have "meaning_of ` set (dropRepeats None ?ks) = meaning_of ` set ms"
  proof
    show "meaning_of ` set ms \<subseteq> meaning_of ` set (dropRepeats None ?ks)"
    proof
      fix x
      assume "x \<in> meaning_of ` set ms"
      then obtain m where m: "m \<in> set ms" "x = meaning_of m" by auto
      have "?K m \<in> ?K ` set (dropRepeats None ?ks)" using d m(1) by (auto simp: image_image)
      then obtain n where n: "n \<in> set (dropRepeats None ?ks)" "?K m = ?K n" by auto
      have "match_ok m" "match_ok n" using assms m(1) n(1) sub by (auto simp: list_all_iff)
      then have "meaning_of m = meaning_of n" using n(2) match_key_iff by blast
      then show "x \<in> meaning_of ` set (dropRepeats None ?ks)" using m(2) n(1) by auto
    qed
  qed (use sub in auto)
  ultimately show thesis using that by blast
qed

lemma canonicalizeMatchResults_run:
  assumes "list_all match_ok ms"
  obtains ns where "canonicalizeMatchResults ms = Inr ns" "canonical_results ns" "meaning_of ` set ns = meaning_of ` set ms"
proof -
  obtain ps where ps: "sortParts ms = Inr ps" "list_all match_ok ps" "map meaning_of ps = map meaning_of ms"
    using sortParts_run [OF assms] by blast
  obtain ns where ns: "sortMatchResults ps = Inr ns" "canonical_results ns" "meaning_of ` set ns = meaning_of ` set ps"
    using sortMatchResults_run [OF ps(2)] by metis
  have "meaning_of ` set ps = meaning_of ` set ms" using arg_cong [OF ps(3), of set] by simp
  with ps(1) ns show thesis using that by (simp add: canonicalizeMatchResults_def)
qed

lemma sameMatchResults_meaning:
  assumes "list_all match_ok as" "list_all match_ok bs" "sameMatchResults as bs"
  shows "meaning_of ` set as = meaning_of ` set bs"
proof -
  have len: "length as = length bs" using assms(3) by (simp add: sameMatchResults_def)
  have "map meaning_of as = map meaning_of bs"
  proof (rule nth_equalityI)
    fix i
    assume "i < length (map meaning_of as)"
    then have i: "i < length as" "i < length bs" using len by simp_all
    have ok: "match_ok (as ! i)" "match_ok (bs ! i)" using assms(1,2) i by (simp_all add: list_all_length)
    have "(as ! i, bs ! i) \<in> set (zip as bs)" using i by (auto simp: set_zip)
    then have "match_key (meaning_of (bs ! i)) = match_key (meaning_of (as ! i))"
      using assms(3) by (force simp: sameMatchResults_def list_all_iff matchResultKey_run ok)
    then show "map meaning_of as ! i = map meaning_of bs ! i" using match_key_iff ok i by simp
  qed (simp add: len)
  from arg_cong [OF this, of set] show ?thesis by simp
qed

end
