(* ===== verification/Pattern_Meaning.thy ===== *)
theory Pattern_Meaning
  imports Match_Canonical
begin

text \<open>
  What a pattern means, apart from how it is evaluated: a set of matches, each a set of occurrences with an
  assignment to the placeholders.  Binary patterns join the matches of their operands where the causal relation
  holds and the assignments agree; an iteration is the union of the powers of its pattern, without a bound when
  none is given; a range joins one instance of its pattern for each value.  \<open>MatchWithBindings\<close> computes exactly
  this set, although its iterations stop at a ceiling and at a fixed point.
\<close>

section \<open>Relations between sets of occurrences\<close>

definition relates :: "poset_reader \<Rightarrow> iteration_relation \<Rightarrow> event_id set \<Rightarrow> event_id set \<Rightarrow> bool" where
  "relates r relation A B =
     (if relation = ''follows'' then \<forall>a \<in> A. \<forall>b \<in> B. rd_IsCausallyBefore r a b
      else if relation = ''immediate-follows'' then (\<forall>a \<in> A. \<forall>b \<in> B. rd_IsCausallyBefore r a b)
        \<and> \<not> (\<exists>w \<in> reader_ids r. w \<notin> A \<and> w \<notin> B \<and> (\<exists>a \<in> A. rd_IsCausallyBefore r a w) \<and> (\<exists>b \<in> B. rd_IsCausallyBefore r w b))
      else if relation = ''independent'' then \<forall>a \<in> A. \<forall>b \<in> B. rd_IsCausallyIndependent r a b
      else if relation = ''disjoint'' then A \<inter> B = {}
      else if relation = ''and'' then A = B
      else relation = ''union'' \<or> relation = ''or'')"

lemma set_mergeInto [simp]: "ev_id ` set (mergeInto seen es) = ev_id ` set es - seen"
  by (induction seen es rule: mergeInto.induct) auto

lemma mergeInto_sub: "set (mergeInto seen es) \<subseteq> set es"
  by (induction seen es rule: mergeInto.induct) auto

lemma distinct_mergeInto: "distinct (map ev_id (mergeInto seen es))"
proof (induction seen es rule: mergeInto.induct)
  case (2 seen e es)
  then show ?case using set_mergeInto [of "insert (ev_id e) seen" es] by auto
qed simp

lemma mergeEventSets_ids [simp]: "ev_id ` set (mergeEventSets es fs) = ev_id ` set es \<union> ev_id ` set fs"
  by (simp add: mergeEventSets_def image_Un)

lemma relation_ids [simp]:
  "allCausallyBefore r es fs \<longleftrightarrow> (\<forall>a \<in> ev_id ` set es. \<forall>b \<in> ev_id ` set fs. rd_IsCausallyBefore r a b)"
  "allIndependent r es fs \<longleftrightarrow> (\<forall>a \<in> ev_id ` set es. \<forall>b \<in> ev_id ` set fs. rd_IsCausallyIndependent r a b)"
  "hasIntervening r es fs (rd_All r) \<longleftrightarrow> (\<exists>w \<in> reader_ids r. w \<notin> ev_id ` set es \<and> w \<notin> ev_id ` set fs
     \<and> (\<exists>a \<in> ev_id ` set es. rd_IsCausallyBefore r a w) \<and> (\<exists>b \<in> ev_id ` set fs. rd_IsCausallyBefore r w b))"
  by (auto simp: allCausallyBefore_def allIndependent_def hasIntervening_def reader_ids_def list_all_iff list_ex_iff)

lemma disjoint_ids [simp]: "eventSetsDisjoint es fs \<longleftrightarrow> ev_id ` set es \<inter> ev_id ` set fs = {}"
  unfolding eventSetsDisjoint_def list_all_iff disjoint_iff by blast

definition idPart :: "event_id \<Rightarrow> string" where
  "idPart i = decimal (length i) @ CHR '':'' # i"

lemma idPart_prefix: "idPart i @ s = idPart j @ t \<Longrightarrow> i = j \<and> s = t"
  using decimal_prefix [of "length i" "i @ s" "length j" "j @ t"] by (auto simp: idPart_def)

lemma idPart_ne [simp]: "idPart i \<noteq> []"
  by (simp add: idPart_def)

lemma idPart_inj: "inj idPart"
  by (rule injI) (use idPart_prefix [where s = "[]" and t = "[]"] in simp)

lemma join_idPart:
  "strings_join ''|'' (map idPart xs) = strings_join ''|'' (map idPart ys) \<Longrightarrow> xs = ys"
proof (induction xs arbitrary: ys)
  case Nil
  then show ?case by (cases ys) (auto simp: strings_join_def)
next
  case (Cons x xs)
  then obtain y zs where ys: "ys = y # zs" by (cases ys) (auto simp: strings_join_def)
  from Cons.prems have "idPart x @ (if xs = [] then [] else ''|'' @ strings_join ''|'' (map idPart xs))
      = idPart y @ (if zs = [] then [] else ''|'' @ strings_join ''|'' (map idPart zs))"
    using join_Cons [of "''|''" "idPart x" "map idPart xs" "[]"] join_Cons [of "''|''" "idPart y" "map idPart zs" "[]"]
    by (simp add: ys split: if_splits)
  from idPart_prefix [OF this] Cons.IH [of zs] show ?case by (auto simp: ys split: if_splits)
qed

lemma eventSetKey_iff:
  assumes "distinct (map ev_id es)" "distinct (map ev_id fs)"
  shows "eventSetKey es = eventSetKey fs \<longleftrightarrow> ev_id ` set es = ev_id ` set fs"
proof -
  have key: "eventSetKey gs = strings_join ''|'' (sort (map idPart (map ev_id gs)))" for gs
    by (simp add: eventSetKey_def idPart_def o_def)
  show ?thesis
  proof
    assume e: "eventSetKey es = eventSetKey fs"
    have "\<exists>zs. sort (map idPart (map ev_id gs)) = map idPart zs" for gs
      unfolding ex_map_conv by auto
    then obtain xs ys where x: "sort (map idPart (map ev_id es)) = map idPart xs"
        "sort (map idPart (map ev_id fs)) = map idPart ys" by metis
    from e have "xs = ys" unfolding key x by (rule join_idPart)
    then have "set (sort (map idPart (map ev_id es))) = set (sort (map idPart (map ev_id fs)))" using x by simp
    then have "idPart ` (ev_id ` set es) = idPart ` (ev_id ` set fs)" by (simp add: image_image)
    then show "ev_id ` set es = ev_id ` set fs" using idPart_inj by (simp add: inj_image_eq_iff)
  next
    assume "ev_id ` set es = ev_id ` set fs"
    then have "set (map ev_id es) = set (map ev_id fs)" by simp
    then have "mset (map ev_id es) = mset (map ev_id fs)" using set_eq_iff_mset_eq_distinct [OF assms] by blast
    then have "mset (map idPart (map ev_id es)) = mset (map idPart (map ev_id fs))" by (simp only: mset_map)
    then have "sort (map idPart (map ev_id es)) = sort (map idPart (map ev_id fs))"
      by (metis sorted_list_of_multiset_mset)
    then show "eventSetKey es = eventSetKey fs" unfolding key by simp
  qed
qed

lemma iterationRelationHolds_relates:
  assumes "distinct (map ev_id es)" "distinct (map ev_id fs)"
  shows "iterationRelationHolds relation r es fs \<longleftrightarrow> relates r relation (ev_id ` set es) (ev_id ` set fs)"
  unfolding iterationRelationHolds_def relates_def relation_ids disjoint_ids eventSetKey_iff [OF assms] by (simp split: if_splits)

section \<open>The meaning of a pattern\<close>

definition joined :: "(event_id set \<Rightarrow> event_id set \<Rightarrow> bool) \<Rightarrow> match_meaning set \<Rightarrow> match_meaning set \<Rightarrow> match_meaning set" where
  "joined R A B = {(S \<union> T, m ++ n) | S m T n. (S, m) \<in> A \<and> (T, n) \<in> B \<and> R S T \<and> compatible m n}"

definition combined :: "poset_reader \<Rightarrow> iteration_relation \<Rightarrow> match_meaning set \<Rightarrow> match_meaning set \<Rightarrow> match_meaning set" where
  "combined r relation A B = (if relation = ''or'' then A \<union> B else joined (relates r relation) A B)"

primrec powers :: "poset_reader \<Rightarrow> iteration_relation \<Rightarrow> match_meaning set \<Rightarrow> nat \<Rightarrow> match_meaning set" where
  \<comment> \<open>one more repetition than the number\<close>
  "powers r relation A 0 = A"
| "powers r relation A (Suc k) = combined r relation (powers r relation A k) A"

definition iterated :: "poset_reader \<Rightarrow> iteration_relation \<Rightarrow> int \<Rightarrow> int \<Rightarrow> match_meaning set \<Rightarrow> match_meaning set" where
  \<comment> \<open>between the minimum and the maximum of repetitions; a negative maximum is none\<close>
  "iterated r relation minimum maximum A = (if minimum = 0 then {({}, Map.empty)} else {})
     \<union> {x. \<exists>k. x \<in> powers r relation A k \<and> minimum \<le> int (Suc k) \<and> (maximum < 0 \<or> int (Suc k) \<le> maximum)}"

definition instances :: "string \<Rightarrow> match_meaning set \<Rightarrow> i64 \<Rightarrow> match_meaning set" where
  \<comment> \<open>the matches that the range's placeholder allows for a value, without it\<close>
  "instances name A value = {(S, m |` (- {name})) | S m. (S, m) \<in> A \<and> (m name = None \<or> m name = Some (VInt64 value))}"

definition ranged :: "poset_reader \<Rightarrow> string \<Rightarrow> iteration_relation \<Rightarrow> i64 list \<Rightarrow> match_meaning set \<Rightarrow> match_meaning set" where
  "ranged r name relation vals A = (case vals of [] \<Rightarrow> {}
     | value # rest \<Rightarrow> foldl (\<lambda>X v. combined r relation X (instances name A v)) (instances name A value) rest)"

definition binds :: "poset_reader \<Rightarrow> basic_pattern \<Rightarrow> event \<Rightarrow> (string \<rightharpoonup> go_value) \<Rightarrow> bool" where
  \<comment> \<open>the assignment gives each placeholder, and only those, the value of its parameter or its source\<close>
  "binds r basic e m \<longleftrightarrow> dom m = ph_name ` set (basicPlaceholders basic)
   \<and> (\<forall>ph. bp_sourceBind basic = Some ph \<longrightarrow> (\<exists>resolver identity. rd_ModuleValueForSource r = Some resolver
        \<and> resolver (ev_source e) (ph_typ ph) = Some identity \<and> identity \<noteq> [] \<and> m (ph_name ph) = Some (VModule identity)))
   \<and> (\<forall>key ph. (key, Some ph) \<in> set (bp_parameterBinds basic) \<longrightarrow> (\<exists>v w. params_get (ev_params e) key = Some v
        \<and> (ph_typ ph = [] \<or> CanonicalValueMatchesPredefinedType v (ph_typ ph)) \<and> canonicalValueCopy v = Inr w
        \<and> m (ph_name ph) = Some w))"

definition basic_meaning :: "poset_reader \<Rightarrow> basic_pattern \<Rightarrow> match_meaning set" where
  "basic_meaning r basic = {({ev_id e}, m) | e m. e \<in> set (basicCandidates r basic) \<and> basicMatches basic e \<and> binds r basic e m}"

fun meaning :: "poset_reader \<Rightarrow> pattern \<Rightarrow> match_meaning set"
  and any_meaning :: "poset_reader \<Rightarrow> pattern list \<Rightarrow> match_meaning set"
  and every_meaning :: "poset_reader \<Rightarrow> match_meaning set \<Rightarrow> pattern list \<Rightarrow> match_meaning set" where
  "meaning r NilPattern = basic_meaning r MatchAny"
| "meaning r (BasicPattern basic) = basic_meaning r basic"
| "meaning r (SeqPattern p1 p2) = joined (relates r ''follows'') (meaning r p1) (meaning r p2)"
| "meaning r (ImmSeqPattern p1 p2) = joined (relates r ''immediate-follows'') (meaning r p1) (meaning r p2)"
| "meaning r (IndependentPattern p1 p2) = joined (relates r ''independent'') (meaning r p1) (meaning r p2)"
| "meaning r (DisjointPattern p1 p2) = joined (relates r ''disjoint'') (meaning r p1) (meaning r p2)"
| "meaning r (UnionPattern p1 p2) = joined (\<lambda>A B. True) (meaning r p1) (meaning r p2)"
| "meaning r (OrPattern subs) = any_meaning r subs"
| "meaning r (AndPattern subs) = (case subs of [] \<Rightarrow> {} | sub # rest \<Rightarrow> every_meaning r (meaning r sub) rest)"
| "meaning r (IterationPattern p relation minimum maximum) = iterated r relation minimum maximum (meaning r p)"
| "meaning r (NamedRangePattern p iter relation first last_value) =
     (case namedRangeCardinality first last_value of None \<Rightarrow> {}
      | Some cardinality \<Rightarrow> if cardinality = 0 then {({}, Map.empty)}
          else ranged r (ph_name iter) relation (rangeValues first cardinality) (meaning r p))"
| "meaning r (UniversalRangePattern p ph relation first last_value) =
     ranged r (ph_name ph) relation (rangeValues first (unat (last_value - first) + 1)) (meaning r p)"
| "meaning r (JoinPattern p1 p2) = {}"
| "meaning r (NotPattern p) = {}"
| "meaning r EmptyPattern = {}"
| "any_meaning r [] = {}"
| "any_meaning r (sub # subs) = meaning r sub \<union> any_meaning r subs"
| "every_meaning r A [] = A"
| "every_meaning r A (sub # subs) = every_meaning r (joined (=) A (meaning r sub)) subs"

section \<open>Joining computes the joined meaning\<close>

lemma joined_UN:
  "joined R A B = (\<Union>a \<in> A. \<Union>b \<in> B. if R (fst a) (fst b) \<and> compatible (snd a) (snd b) then {(fst a \<union> fst b, snd a ++ snd b)} else {})"
  (is "_ = ?U")
proof (intro set_eqI iffI)
  fix x
  assume "x \<in> joined R A B"
  then obtain S m T n where x: "x = (S \<union> T, m ++ n)" "(S, m) \<in> A" "(T, n) \<in> B" "R S T" "compatible m n"
    unfolding joined_def by blast
  then show "x \<in> ?U" by (intro UN_I [of "(S, m)"] UN_I [of "(T, n)"]) simp_all
next
  fix x
  assume "x \<in> ?U"
  then obtain a b where "a \<in> A" "b \<in> B" "R (fst a) (fst b) \<and> compatible (snd a) (snd b)" "x = (fst a \<union> fst b, snd a ++ snd b)"
    by (auto split: if_splits)
  then show "x \<in> joined R A B"
    unfolding joined_def by (intro CollectI exI [of _ "fst a"] exI [of _ "snd a"] exI [of _ "fst b"] exI [of _ "snd b"]) simp_all
qed

lemma joined_Un: "joined R (A \<union> B) C = joined R A C \<union> joined R B C"
  by (simp add: joined_UN)

lemma joined_UnR: "joined R A (B \<union> C) = joined R A B \<union> joined R A C"
  by (simp only: joined_UN UN_Un UN_Un_distrib)

lemma joined_empty [simp]: "joined R {} A = {}" "joined R A {} = {}"
  by (simp_all add: joined_UN)

lemma joined_insert:
  "joined R {(S, m)} {(T, n)} = (if R S T \<and> compatible m n then {(S \<union> T, m ++ n)} else {})"
  by (simp add: joined_UN)

definition merges_ok :: "(event_set \<Rightarrow> event_set \<Rightarrow> bool) \<Rightarrow> (event_set \<Rightarrow> event_set \<Rightarrow> event_set)
    \<Rightarrow> (event_id set \<Rightarrow> event_id set \<Rightarrow> bool) \<Rightarrow> bool" where
  \<comment> \<open>a relation on lists and the merge of related lists agree with a relation on sets and their union\<close>
  "merges_ok relation merge R \<longleftrightarrow> (\<forall>es fs. distinct (map ev_id es) \<longrightarrow> distinct (map ev_id fs) \<longrightarrow>
     relation es fs = R (ev_id ` set es) (ev_id ` set fs)
     \<and> (relation es fs \<longrightarrow> ev_id ` set (merge es fs) = ev_id ` set es \<union> ev_id ` set fs
        \<and> set (merge es fs) \<subseteq> set es \<union> set fs \<and> distinct (map ev_id (merge es fs))))"

lemma merges_okD:
  assumes "merges_ok relation merge R" "distinct (map ev_id es)" "distinct (map ev_id fs)"
  shows "relation es fs = R (ev_id ` set es) (ev_id ` set fs)"
    "relation es fs \<Longrightarrow> ev_id ` set (merge es fs) = ev_id ` set es \<union> ev_id ` set fs"
    "relation es fs \<Longrightarrow> set (merge es fs) \<subseteq> set es \<union> set fs" "relation es fs \<Longrightarrow> distinct (map ev_id (merge es fs))"
  using assms by (simp_all add: merges_ok_def)

lemma merges_ok_mergeEventSets:
  "(\<And>es fs. distinct (map ev_id es) \<Longrightarrow> distinct (map ev_id fs) \<Longrightarrow> relation es fs = R (ev_id ` set es) (ev_id ` set fs))
    \<Longrightarrow> merges_ok relation mergeEventSets R"
  using mergeInto_sub [of "{}"] distinct_mergeInto [of "{}"] unfolding merges_ok_def mergeEventSets_ids
  by (simp add: mergeEventSets_def) (metis set_append)

lemma merges_ok_left: "merges_ok (\<lambda>left right. eventSetKey left = eventSetKey right) (\<lambda>left right. left) (=)"
  by (simp add: merges_ok_def eventSetKey_iff)

lemma pairRow_run:
  assumes ok: "merges_ok relation merge R" and left: "match_ok left"
  shows "list_all match_ok rights \<Longrightarrow> \<exists>row. pairRow relation merge left rights = Inr row \<and> list_all match_ok row
    \<and> meaning_of ` set row = joined R {meaning_of left} (meaning_of ` set rights)"
proof (induction rights)
  case (Cons right rights)
  then obtain row where row: "pairRow relation merge left rights = Inr row" "list_all match_ok row"
      "meaning_of ` set row = joined R {meaning_of left} (meaning_of ` set rights)" by auto
  have right: "match_ok right" using Cons.prems by simp
  note l = match_okD [OF left] and r = match_okD [OF right]
  note m = merges_okD [OF ok l(2) r(2)]
  let ?e = "sorted_env (fmap_of_list (mr_bindings left) ++\<^sub>f fmap_of_list (mr_bindings right))"
  let ?m = "\<lparr>mr_events = merge (mr_events left) (mr_events right), mr_bindings = ?e\<rparr>"
  have split: "joined R {meaning_of left} (insert (meaning_of right) (meaning_of ` set rights))
      = joined R {meaning_of left} {meaning_of right} \<union> meaning_of ` set row"
    unfolding row(3) joined_UnR [symmetric] by simp
  note one = joined_insert [of R "ev_id ` set (mr_events left)" "map_of (mr_bindings left)"
      "ev_id ` set (mr_events right)" "map_of (mr_bindings right)", folded meaning_of_def]
  show ?case
  proof (cases "relation (mr_events left) (mr_events right) \<and> compatible (map_of (mr_bindings left)) (map_of (mr_bindings right))")
    case True
    have "list_all event_ok (merge (mr_events left) (mr_events right))"
      using m(3) True l(1) r(1) by (auto simp: list_all_iff)
    then have "match_ok ?m" using m(4) True env_ok_merged [OF l(3) r(3)] by (simp add: match_ok_def)
    moreover have "meaning_of ?m = (ev_id ` set (mr_events left) \<union> ev_id ` set (mr_events right),
        map_of (mr_bindings left) ++ map_of (mr_bindings right))"
      using m(2) True by (simp add: meaning_of_def lookup_add fmlookup_of_list fun_eq_iff)
    ultimately show ?thesis
      using True row(1,2) m(1) by (simp add: mergeBindings_env [OF l(3) r(3)] split one)
  next
    case False
    then show ?thesis
      using row m(1) by (auto simp: mergeBindings_env [OF l(3) r(3)] split one)
  qed
qed simp

lemma pairMatches_run:
  assumes ok: "merges_ok relation merge R" and rights: "list_all match_ok rights"
  shows "list_all match_ok lefts \<Longrightarrow> \<exists>rows. pairMatches relation merge lefts rights = Inr rows \<and> list_all match_ok rows
    \<and> meaning_of ` set rows = joined R (meaning_of ` set lefts) (meaning_of ` set rights)"
proof (induction lefts)
  case (Cons left lefts)
  then obtain rows where rows: "pairMatches relation merge lefts rights = Inr rows" "list_all match_ok rows"
      "meaning_of ` set rows = joined R (meaning_of ` set lefts) (meaning_of ` set rights)" by auto
  obtain row where row: "pairRow relation merge left rights = Inr row" "list_all match_ok row"
      "meaning_of ` set row = joined R {meaning_of left} (meaning_of ` set rights)"
    using pairRow_run [OF ok _ rights, of left] Cons.prems by auto
  have "joined R (meaning_of ` set (left # lefts)) (meaning_of ` set rights) = meaning_of ` set row \<union> meaning_of ` set rows"
    unfolding rows(3) row(3) joined_Un [symmetric] by simp
  then show ?case using row rows by (simp add: image_Un)
qed simp

lemma combine_run:
  assumes "list_all match_ok lefts" "list_all match_ok rights"
  obtains rows where "combineIterationMatches r relation lefts rights = Inr rows" "list_all match_ok rows"
    "meaning_of ` set rows = combined r relation (meaning_of ` set lefts) (meaning_of ` set rights)"
proof (cases "relation = ''or''")
  case True
  show thesis by (rule that [of "lefts @ rights"]) (use assms True in \<open>auto simp: combineIterationMatches_def combined_def\<close>)
next
  case False
  let ?merge = "if relation = ''and'' then (\<lambda>left right. left) else mergeEventSets"
  have "merges_ok (iterationRelationHolds relation r) ?merge (relates r relation)"
  proof (cases "relation = ''and''")
    case True
    then have "iterationRelationHolds relation r = (\<lambda>left right. eventSetKey left = eventSetKey right)" "relates r relation = (=)"
      by (auto simp: iterationRelationHolds_def relates_def fun_eq_iff)
    then show ?thesis using merges_ok_left True by simp
  next
    case False
    have "merges_ok (iterationRelationHolds relation r) mergeEventSets (relates r relation)"
      by (rule merges_ok_mergeEventSets) (rule iterationRelationHolds_relates)
    then show ?thesis using False by simp
  qed
  from pairMatches_run [OF this assms(2,1)] show thesis
    using that False by (auto simp: combineIterationMatches_def combined_def)
qed

section \<open>Iterations\<close>

definition grounded :: "poset_reader \<Rightarrow> bool \<Rightarrow> match_meaning set \<Rightarrow> bool" where
  \<comment> \<open>listed occurrences only, and no binding without an occurrence, or none at all\<close>
  "grounded r ground A \<longleftrightarrow> (\<forall>S m. (S, m) \<in> A \<longrightarrow> S \<subseteq> reader_ids r \<and> (S = {} \<or> ground \<longrightarrow> m = Map.empty))"

lemma groundedD: "grounded r ground A \<Longrightarrow> (S, m) \<in> A \<Longrightarrow> S \<subseteq> reader_ids r \<and> (S = {} \<or> ground \<longrightarrow> m = Map.empty)"
  by (simp add: grounded_def)

lemma grounded_simps [simp]:
  "grounded r ground {}" "grounded r ground {({}, Map.empty)}"
  by (auto simp: grounded_def)

lemma grounded_Un [simp]: "grounded r ground (A \<union> B) \<longleftrightarrow> grounded r ground A \<and> grounded r ground B"
  unfolding grounded_def Un_iff by blast

lemma grounded_joined: "grounded r ground A \<Longrightarrow> grounded r ground B \<Longrightarrow> grounded r ground (joined R A B)"
proof -
  assume A: "grounded r ground A" and B: "grounded r ground B"
  have "U \<subseteq> reader_ids r \<and> (U = {} \<or> ground \<longrightarrow> u = Map.empty)" if "(U, u) \<in> joined R A B" for U u
  proof -
    from that obtain S m T n where x: "U = S \<union> T" "u = m ++ n" "(S, m) \<in> A" "(T, n) \<in> B" unfolding joined_def by blast
    show ?thesis using groundedD [OF A x(3)] groundedD [OF B x(4)] x(1,2) by auto
  qed
  then show ?thesis by (simp add: grounded_def)
qed

lemma grounded_combined: "grounded r ground A \<Longrightarrow> grounded r ground B \<Longrightarrow> grounded r ground (combined r relation A B)"
  by (simp add: combined_def grounded_joined)

lemma grounded_powers: "grounded r ground A \<Longrightarrow> grounded r ground (powers r relation A k)"
  by (induction k) (simp_all add: grounded_combined)

lemma powers_or [simp]: "powers r ''or'' A k = A"
  by (induction k) (simp_all add: combined_def)

lemma powers_empty [simp]: "powers r relation {} k = {}"
  by (induction k) (simp_all add: combined_def)

lemma powers_stable: "powers r relation A (Suc k) = powers r relation A k \<Longrightarrow> k \<le> j \<Longrightarrow> powers r relation A j = powers r relation A k"
proof -
  assume s: "powers r relation A (Suc k) = powers r relation A k" and "k \<le> j"
  from \<open>k \<le> j\<close> show ?thesis by (induction j rule: dec_induct) (use s in simp_all)
qed

lemma powers_die: "powers r relation A k = {} \<Longrightarrow> k \<le> j \<Longrightarrow> powers r relation A j = {}"
proof -
  assume e: "powers r relation A k = {}" "k \<le> j"
  have "powers r relation A (Suc k) = powers r relation A k"
    by (cases "relation = ''or''") (use e(1) in \<open>simp_all add: combined_def\<close>)
  from powers_stable [OF this e(2)] e(1) show ?thesis by simp
qed

text \<open>
  A repetition that adds no occurrence adds nothing, so that no match needs more repetitions than it has
  occurrences.
\<close>

lemma idle_repetition:
  assumes "reader_laws r" "relates r relation S T" "T \<subseteq> S" "relation \<noteq> ''or''"
  shows "T = {} \<or> relation = ''union'' \<or> relation = ''and''"
proof (rule ccontr)
  assume n: "\<not> ?thesis"
  then obtain x where x: "x \<in> T" "x \<in> S" using assms(3) by blast
  have "\<not> rd_IsCausallyBefore r x x" "\<not> rd_IsCausallyIndependent r x x"
    using assms(1) unfolding reader_laws_def by blast+
  with x n assms(2,4) show False by (auto simp: relates_def split: if_splits)
qed

lemma powers_short:
  assumes laws: "reader_laws r" and A: "grounded r (relation = ''union'' \<or> relation = ''and'') A"
  shows "x \<in> powers r relation A k \<Longrightarrow> \<exists>j. x \<in> powers r relation A j \<and> Suc j \<le> max 1 (card (fst x))"
proof (induction k arbitrary: x)
  case 0
  then show ?case by (intro exI [of _ 0]) simp
next
  case (Suc k)
  show ?case
  proof (cases "relation = ''or''")
    case True
    then show ?thesis using Suc.prems by (intro exI [of _ 0]) (simp add: combined_def)
  next
    case False
    with Suc.prems have "x \<in> joined (relates r relation) (powers r relation A k) A" by (simp add: combined_def)
    then obtain S m T n where x: "x = (S \<union> T, m ++ n)" "(S, m) \<in> powers r relation A k" "(T, n) \<in> A"
        "relates r relation S T" "compatible m n"
      unfolding joined_def by blast
    from Suc.IH [OF x(2)] obtain j where j: "(S, m) \<in> powers r relation A j" "Suc j \<le> max 1 (card S)" by auto
    note gS = groundedD [OF grounded_powers [OF A] x(2)] and gT = groundedD [OF A x(3)]
    have fin: "finite (S \<union> T)" using gS gT finite_subset [of _ "reader_ids r"] by (auto simp: reader_ids_def)
    show ?thesis
    proof (cases "T \<subseteq> S \<or> S = {}")
      case True
      have "x = (S, m) \<or> x = (T, n)"
      proof (cases "S = {}")
        case False
        with True have "T \<subseteq> S" by simp
        from idle_repetition [OF laws x(4) this \<open>relation \<noteq> ''or''\<close>] have "n = Map.empty" using gT by auto
        with \<open>T \<subseteq> S\<close> show ?thesis by (simp add: x(1) Un_absorb2)
      qed (use x(1) gS in simp)
      then show ?thesis
      proof
        assume "x = (T, n)"
        then show ?thesis using x(3) by (intro exI [of _ 0]) simp
      qed (use j in auto)
    next
      case False
      have "card S < card (S \<union> T)" by (rule psubset_card_mono [OF fin]) (use False in blast)
      moreover have "card S \<noteq> 0" using False fin by simp
      moreover have "x \<in> powers r relation A (Suc j)"
        using x j(1) \<open>relation \<noteq> ''or''\<close> unfolding powers.simps combined_def joined_def by auto
      ultimately show ?thesis using j(2) by (intro exI [of _ "Suc j"]) (simp add: x(1))
    qed
  qed
qed

definition repeated :: "poset_reader \<Rightarrow> iteration_relation \<Rightarrow> int \<Rightarrow> int \<Rightarrow> match_meaning set \<Rightarrow> nat \<Rightarrow> match_meaning set" where
  \<comment> \<open>what the loop adds from a count on\<close>
  "repeated r relation minimum limit A n =
     {x. \<exists>k \<ge> n. x \<in> powers r relation A k \<and> minimum \<le> int (Suc k) \<and> int (Suc k) \<le> limit}"

lemma repeated_step:
  "repeated r relation minimum limit A n =
    (if minimum \<le> int (Suc n) \<and> int (Suc n) \<le> limit then powers r relation A n else {}) \<union> repeated r relation minimum limit A (Suc n)"
  (is "?L = ?R")
proof (intro set_eqI iffI)
  fix x
  assume "x \<in> ?L"
  then obtain k where k: "k \<ge> n" "x \<in> powers r relation A k" "minimum \<le> int (Suc k)" "int (Suc k) \<le> limit"
    by (auto simp: repeated_def)
  show "x \<in> ?R"
  proof (cases "k = n")
    case False
    with k(1) have "k \<ge> Suc n" by simp
    with k show ?thesis unfolding repeated_def by blast
  qed (use k in simp)
next
  fix x
  assume x: "x \<in> ?R"
  show "x \<in> ?L"
  proof (cases "x \<in> repeated r relation minimum limit A (Suc n)")
    case True
    then show ?thesis by (auto simp: repeated_def intro: Suc_leD)
  next
    case False
    with x have "x \<in> powers r relation A n \<and> minimum \<le> int (Suc n) \<and> int (Suc n) \<le> limit" by (simp split: if_splits)
    then show ?thesis unfolding repeated_def by blast
  qed
qed

lemma repeated_stable:
  assumes "powers r relation A (Suc n) = powers r relation A n" "int (Suc n) < limit"
  shows "repeated r relation minimum limit A (Suc n) = (if minimum \<le> limit then powers r relation A n else {})"
proof (intro set_eqI iffI)
  fix x
  assume "x \<in> repeated r relation minimum limit A (Suc n)"
  then obtain k where "k \<ge> Suc n" "x \<in> powers r relation A k" "minimum \<le> int (Suc k)" "int (Suc k) \<le> limit"
    by (auto simp: repeated_def)
  with powers_stable [OF assms(1), of k] show "x \<in> (if minimum \<le> limit then powers r relation A n else {})" by simp
next
  fix x
  assume "x \<in> (if minimum \<le> limit then powers r relation A n else {})"
  then have x: "x \<in> powers r relation A n" "minimum \<le> limit" by (simp_all split: if_splits)
  let ?k = "nat (limit - 1)"
  have k: "?k \<ge> Suc n" "int (Suc ?k) = limit" using assms(2) by simp_all
  have "x \<in> powers r relation A ?k" using powers_stable [OF assms(1), of ?k] k(1) x(1) by simp
  then show "x \<in> repeated r relation minimum limit A (Suc n)" unfolding repeated_def using k x(2) by auto
qed

lemma iterationLoop_run:
  assumes inner: "list_all match_ok inner" "A = meaning_of ` set inner"
    and limit: "if maximum < 0 then minimum \<le> 1 else limit = maximum"
  shows "list_all match_ok current \<Longrightarrow> meaning_of ` set current = powers r relation A n \<Longrightarrow> list_all match_ok results
    \<Longrightarrow> \<exists>res. iterationLoop r relation minimum maximum inner limit (int (Suc n)) current results = Inr res \<and> list_all match_ok res
      \<and> meaning_of ` set res = meaning_of ` set results \<union> repeated r relation minimum limit A n"
proof (induction "nat (limit - int n)" arbitrary: n current results rule: less_induct)
  case less
  note step = iterationLoop.simps [of r relation minimum maximum inner limit "int (Suc n)" current results]
  show ?case
  proof (cases "int (Suc n) > limit")
    case True
    then have "repeated r relation minimum limit A n = {}" by (auto simp: repeated_def)
    then show ?thesis using True less.prems(3) step by simp
  next
    case False
    have added: "int (Suc n) \<ge> minimum \<and> (maximum < 0 \<or> int (Suc n) \<le> maximum) \<longleftrightarrow> minimum \<le> int (Suc n) \<and> int (Suc n) \<le> limit"
      using False limit by (auto split: if_splits)
    let ?res = "if int (Suc n) \<ge> minimum \<and> (maximum < 0 \<or> int (Suc n) \<le> maximum) then results @ current else results"
    have res: "list_all match_ok ?res" "meaning_of ` set ?res = meaning_of ` set results
        \<union> (if minimum \<le> int (Suc n) \<and> int (Suc n) \<le> limit then powers r relation A n else {})"
      using less.prems added by (simp_all add: image_Un)
    show ?thesis
    proof (cases "int (Suc n) = limit \<or> current = []")
      case True
      have "repeated r relation minimum limit A (Suc n) = {}"
        using True powers_die [of r relation A n] less.prems(2) by (auto simp: repeated_def)
      with res have "list_all match_ok ?res \<and> meaning_of ` set ?res = meaning_of ` set results \<union> repeated r relation minimum limit A n"
        by (simp add: repeated_step [of r relation minimum limit A n])
      moreover have "iterationLoop r relation minimum maximum inner limit (int (Suc n)) current results = Inr ?res"
        using True False step by (simp add: Let_def)
      ultimately show ?thesis by blast
    next
      case running: False
      obtain rows where rows: "combineIterationMatches r relation current inner = Inr rows" "list_all match_ok rows"
          "meaning_of ` set rows = combined r relation (meaning_of ` set current) (meaning_of ` set inner)"
        by (rule combine_run [OF less.prems(1) inner(1)])
      obtain again where again: "canonicalizeMatchResults rows = Inr again" "canonical_results again"
          "meaning_of ` set again = meaning_of ` set rows"
        by (rule canonicalizeMatchResults_run [OF rows(2)])
      note ok = canonical_results_ok [OF again(2)]
      have powers: "meaning_of ` set again = powers r relation A (Suc n)"
        using again(3) rows(3) less.prems(2) inner(2) by simp
      let ?stop = "(iterationRelationIsIdempotent relation \<or> matchResultsContainOnlyEmptyComputations current) \<and> sameMatchResults current again"
      have body: "iterationLoop r relation minimum maximum inner limit (int (Suc n)) current results =
          (if ?stop then Inr (if int (Suc n) < minimum \<and> (maximum < 0 \<or> minimum \<le> maximum) then ?res @ again else ?res)
           else iterationLoop r relation minimum maximum inner limit (int (Suc n) + 1) again ?res)"
        using False running rows(1) again(1) step by (simp only: Let_def sum.case if_False simp_thms)
      show ?thesis
      proof (cases ?stop)
        case True
        have "powers r relation A (Suc n) = powers r relation A n"
          using sameMatchResults_meaning [OF less.prems(1) ok] True powers less.prems(2) by simp
        from repeated_stable [OF this] False running
        have rest: "repeated r relation minimum limit A (Suc n) = (if minimum \<le> limit then powers r relation A n else {})" by simp
        let ?out = "if int (Suc n) < minimum \<and> (maximum < 0 \<or> minimum \<le> maximum) then ?res @ again else ?res"
        have "meaning_of ` set ?out = meaning_of ` set ?res
            \<union> (if int (Suc n) < minimum \<and> minimum \<le> limit then powers r relation A n else {})"
          using limit powers \<open>powers r relation A (Suc n) = powers r relation A n\<close> by (auto split: if_splits)
        also have "\<dots> = meaning_of ` set results \<union> repeated r relation minimum limit A n"
          using False unfolding res(2) repeated_step [of r relation minimum limit A n] rest by auto
        finally have "meaning_of ` set ?out = meaning_of ` set results \<union> repeated r relation minimum limit A n" .
        moreover have "list_all match_ok ?out"
          using res(1) ok by (cases "int (Suc n) < minimum \<and> (maximum < 0 \<or> minimum \<le> maximum)")
            (simp_all only: if_True if_False list_all_append simp_thms)
        moreover have "iterationLoop r relation minimum maximum inner limit (int (Suc n)) current results = Inr ?out"
          using True by (simp only: body if_True simp_thms)
        ultimately show ?thesis by blast
      next
        case go: False
        have "\<exists>res. iterationLoop r relation minimum maximum inner limit (int (Suc (Suc n))) again ?res = Inr res \<and> list_all match_ok res
            \<and> meaning_of ` set res = meaning_of ` set ?res \<union> repeated r relation minimum limit A (Suc n)"
          by (rule less.hyps) (use False ok powers res(1) in auto)
        then obtain out where out: "iterationLoop r relation minimum maximum inner limit (int (Suc (Suc n))) again ?res = Inr out"
            "list_all match_ok out" "meaning_of ` set out = meaning_of ` set ?res \<union> repeated r relation minimum limit A (Suc n)"
          by blast
        have n: "int (Suc n) + 1 = int (Suc (Suc n))" by simp
        have "iterationLoop r relation minimum maximum inner limit (int (Suc n)) current results = Inr out"
          unfolding body if_not_P [OF go] n by (rule out(1))
        moreover have "meaning_of ` set out = meaning_of ` set results \<union> repeated r relation minimum limit A n"
          unfolding out(3) res(2) repeated_step [of r relation minimum limit A n] by blast
        ultimately show ?thesis using out(2) by blast
      qed
    qed
  qed
qed

lemma iterated_repeated:
  assumes "maximum \<ge> 0"
  shows "iterated r relation minimum maximum A
    = (if minimum = 0 then {({}, Map.empty)} else {}) \<union> repeated r relation minimum maximum A 0"
  using assms by (auto simp: iterated_def repeated_def)

lemma iterated_ceiling:
  assumes laws: "reader_laws r" and A: "grounded r (relation = ''union'' \<or> relation = ''and'') A"
    and unbounded: "maximum < 0" "minimum \<le> 1"
  shows "iterated r relation minimum maximum A
    = (if minimum = 0 then {({}, Map.empty)} else {}) \<union> repeated r relation minimum (iterationCeiling r maximum) A 0"
proof -
  have "x \<in> repeated r relation minimum (iterationCeiling r maximum) A 0" if x: "x \<in> powers r relation A k" for x k
  proof -
    obtain j where j: "x \<in> powers r relation A j" "Suc j \<le> max 1 (card (fst x))"
      using powers_short [OF laws A x] by blast
    have "fst x \<subseteq> reader_ids r" using groundedD [OF grounded_powers [OF A], of "fst x" "snd x"] x by simp
    then have "card (fst x) \<le> card (reader_ids r)" by (intro card_mono) (simp_all add: reader_ids_def)
    also have "\<dots> \<le> rd_Len r"
      using laws card_length [of "map ev_id (rd_All r)"] by (simp add: reader_laws_def reader_ids_def)
    finally have "Suc j \<le> max 1 (rd_Len r)" using j(2) by (auto simp: le_max_iff_disj)
    then have "int (Suc j) \<le> iterationCeiling r maximum" using unbounded(1) by (auto simp: iterationCeiling_def le_max_iff_disj)
    then show ?thesis using j(1) unbounded(2) unfolding repeated_def by auto
  qed
  moreover have "x \<in> {x. \<exists>k. x \<in> powers r relation A k}" if "x \<in> repeated r relation minimum (iterationCeiling r maximum) A 0" for x
    using that unfolding repeated_def by blast
  ultimately have "{x. \<exists>k. x \<in> powers r relation A k} = repeated r relation minimum (iterationCeiling r maximum) A 0"
    by blast
  moreover have "{x. \<exists>k. x \<in> powers r relation A k \<and> minimum \<le> int (Suc k) \<and> (maximum < 0 \<or> int (Suc k) \<le> maximum)}
      = {x. \<exists>k. x \<in> powers r relation A k}"
    using unbounded by simp
  ultimately show ?thesis unfolding iterated_def by simp
qed

lemma emptyMatch_ok [simp]: "match_ok emptyMatch" "meaning_of emptyMatch = ({}, Map.empty)"
  by (simp_all add: match_ok_def emptyMatch_def meaning_of_def)

lemma iterateInner_run:
  assumes laws: "reader_laws r" and inner: "list_all match_ok inner"
    and A: "maximum < 0 \<longrightarrow> minimum \<le> 1 \<and> grounded r (relation = ''union'' \<or> relation = ''and'') (meaning_of ` set inner)"
  obtains res where "iterateInner r relation minimum maximum inner = Inr res" "list_all match_ok res"
    "meaning_of ` set res = iterated r relation minimum maximum (meaning_of ` set inner)"
proof -
  obtain again where again: "canonicalizeMatchResults inner = Inr again" "canonical_results again"
      "meaning_of ` set again = meaning_of ` set inner"
    by (rule canonicalizeMatchResults_run [OF inner])
  note ok = canonical_results_ok [OF again(2)]
  let ?base = "if minimum = 0 then [emptyMatch] else []"
  let ?limit = "iterationCeiling r maximum"
  have base: "list_all match_ok ?base" "meaning_of ` set ?base = (if minimum = 0 then {({}, Map.empty)} else {})" by simp_all
  show thesis
  proof (cases "again = []")
    case True
    then have "iterated r relation minimum maximum (meaning_of ` set inner) = meaning_of ` set ?base"
      unfolding again(3) [symmetric] by (simp add: iterated_def)
    moreover have "iterateInner r relation minimum maximum inner = Inr ?base" using again(1) True by (simp add: iterateInner_def)
    ultimately show ?thesis using that base(1) by simp
  next
    case False
    have "\<exists>res. iterationLoop r relation minimum maximum again ?limit (int (Suc 0)) again ?base = Inr res \<and> list_all match_ok res
        \<and> meaning_of ` set res = meaning_of ` set ?base \<union> repeated r relation minimum ?limit (meaning_of ` set inner) 0"
      by (rule iterationLoop_run [OF ok _ _ ok]) (use again(3) base A in \<open>simp_all add: iterationCeiling_def\<close>)
    then obtain res where res: "iterationLoop r relation minimum maximum again ?limit 1 again ?base = Inr res" "list_all match_ok res"
        "meaning_of ` set res = meaning_of ` set ?base \<union> repeated r relation minimum ?limit (meaning_of ` set inner) 0"
      by auto
    obtain out where out: "canonicalizeMatchResults res = Inr out" "canonical_results out" "meaning_of ` set out = meaning_of ` set res"
      by (rule canonicalizeMatchResults_run [OF res(2)])
    have "iterated r relation minimum maximum (meaning_of ` set inner) = meaning_of ` set res"
    proof (cases "maximum < 0")
      case True
      with A show ?thesis by (simp add: iterated_ceiling [OF laws] res(3) base(2))
    next
      case False
      then show ?thesis by (simp add: iterated_repeated res(3) base(2) iterationCeiling_def)
    qed
    moreover have "iterateInner r relation minimum maximum inner = Inr out"
      using again(1) False res(1) out(1) by (simp add: iterateInner_def Let_def)
    ultimately show ?thesis using that out canonical_results_ok by simp
  qed
qed

end
