(* ===== verification/Pattern_Exact.thy ===== *)
theory Pattern_Exact
  imports Pattern_Meaning
begin

text \<open>
  \<open>MatchWithBindings\<close> computes the meaning of a pattern: the basic patterns and the ranges, the conditions under
  which the evaluation reports an error, and the theorem over whole patterns.
\<close>

section \<open>Ranges\<close>

lemma substituteLoop_run:
  "env_ok bs \<Longrightarrow> substituteLoop bs name w =
    Inr (if map_of bs name = None \<or> map_of bs name = Some (VInt64 w) then Some (filter (\<lambda>b. fst b \<noteq> name) bs) else None)"
proof (induction bs name w rule: substituteLoop.induct)
  case (2 placeholder v rest name w)
  have ok: "env_ok rest" "canonicalValueCopy v = Inr v" "placeholder \<notin> fst ` set rest"
    using "2.prems" by (auto dest: binding_okD)
  show ?case
  proof (cases "placeholder = name")
    case True
    have none: "map_of rest name = None" using ok(3) True by (simp add: map_of_eq_None_iff)
    show ?thesis
    proof (cases "v = VInt64 w")
      case match: True
      have "substituteLoop rest name w = Inr (Some (filter (\<lambda>b. fst b \<noteq> name) rest))"
        using "2.IH"(2) [of True] ok True none match by (simp add: CanonicalValuesEqual_def)
      then show ?thesis using True match ok(2) by (simp add: CanonicalValuesEqual_def)
    next
      case False
      then show ?thesis using True ok(2) by (simp add: CanonicalValuesEqual_def)
    qed
  next
    case False
    then show ?thesis using "2.IH"(1) ok(1) by simp
  qed
qed simp

lemma map_of_filter_name: "map_of (filter (\<lambda>b. fst b \<noteq> name) bs) = map_of bs |` (- {name})"
  by (induction bs) (auto simp: restrict_map_def fun_eq_iff)

lemma env_ok_filter: "env_ok bs \<Longrightarrow> env_ok (filter P bs)"
  by (auto simp: env_ok_def list_all_iff distinct_map_filter)

lemma substituteUniversalBinding_run:
  assumes "env_ok bs"
  shows "\<exists>cs. substituteUniversalBinding bs name value =
      Inr (if map_of bs name = None \<or> map_of bs name = Some (VInt64 value) then Some cs else None)
    \<and> env_ok cs \<and> map_of cs = map_of bs |` (- {name})"
proof -
  let ?f = "filter (\<lambda>b. fst b \<noteq> name) bs"
  have f: "env_ok ?f" "map_of ?f = map_of bs |` (- {name})"
    using env_ok_filter [OF assms] map_of_filter_name by auto
  have merged: "mergeBindings [] ?f = Inr (Some (sorted_env (fmap_of_list ?f)))"
    using mergeBindings_env [of "[]" ?f] f(1) by (simp add: compatible_def)
  have e: "env_ok (sorted_env (fmap_of_list ?f))" using env_ok_merged [of "[]" ?f] f(1) by simp
  have m: "map_of (sorted_env (fmap_of_list ?f)) = map_of bs |` (- {name})"
    unfolding map_of_sorted_env f(2) [symmetric] by (rule ext) (simp add: fmlookup_of_list)
  show ?thesis
  proof (cases "list_ex (\<lambda>(placeholder, _). placeholder = name) bs")
    case True
    then show ?thesis using e m
      by (intro exI [of _ "sorted_env (fmap_of_list ?f)"]) (simp add: substituteUniversalBinding_def substituteLoop_run [OF assms] merged)
  next
    case False
    then have "map_of bs name = None" by (force simp: map_of_eq_None_iff list_ex_iff)
    moreover from this have "map_of bs |` (- {name}) = map_of bs" by (auto simp: restrict_map_def fun_eq_iff)
    ultimately show ?thesis using False assms
      by (intro exI [of _ bs]) (simp add: substituteUniversalBinding_def substituteLoop_run [OF assms])
  qed
qed

lemma instances_Un: "instances name (A \<union> B) value = instances name A value \<union> instances name B value"
  unfolding instances_def by blast

lemma instances_insert: "instances name {(S, m)} value = (if m name = None \<or> m name = Some (VInt64 value) then {(S, m |` (- {name}))} else {})"
  unfolding instances_def by auto

lemma rangeInstances_run:
  "list_all match_ok ms \<Longrightarrow> \<exists>rows. rangeInstances ms name value = Inr rows \<and> list_all match_ok rows
    \<and> meaning_of ` set rows = instances name (meaning_of ` set ms) value"
proof (induction ms)
  case Nil
  then show ?case by (simp add: instances_def)
next
  case (Cons m ms)
  then obtain rows where rows: "rangeInstances ms name value = Inr rows" "list_all match_ok rows"
      "meaning_of ` set rows = instances name (meaning_of ` set ms) value" by auto
  have m: "match_ok m" using Cons.prems by simp
  obtain cs where cs: "substituteUniversalBinding (mr_bindings m) name value =
      Inr (if map_of (mr_bindings m) name = None \<or> map_of (mr_bindings m) name = Some (VInt64 value) then Some cs else None)"
      "env_ok cs" "map_of cs = map_of (mr_bindings m) |` (- {name})"
    using substituteUniversalBinding_run [OF match_okD(3) [OF m]] by blast
  have split: "instances name (insert (meaning_of m) (meaning_of ` set ms)) value
      = instances name {meaning_of m} value \<union> meaning_of ` set rows"
    unfolding rows(3) instances_Un [symmetric] by simp
  note one = instances_insert [of name "ev_id ` set (mr_events m)" "map_of (mr_bindings m)" "value", folded meaning_of_def]
  have "match_ok \<lparr>mr_events = mr_events m, mr_bindings = cs\<rparr>" using m cs(2) by (simp add: match_ok_def)
  moreover have "meaning_of \<lparr>mr_events = mr_events m, mr_bindings = cs\<rparr> = (ev_id ` set (mr_events m), map_of (mr_bindings m) |` (- {name}))"
    by (simp add: meaning_of_def cs(3))
  ultimately show ?case using rows(1,2) by (auto simp: cs(1) split one)
qed

lemma rangeLoop_run:
  assumes inner: "list_all match_ok inner"
  shows "list_all match_ok current \<Longrightarrow> \<exists>res. rangeLoop r name relation inner (Some current) vals = Inr res \<and> list_all match_ok res
    \<and> meaning_of ` set res = foldl (\<lambda>X v. combined r relation X (instances name (meaning_of ` set inner) v)) (meaning_of ` set current) vals"
proof (induction vals arbitrary: current)
  case (Cons v vals)
  obtain is1 where is1: "rangeInstances inner name v = Inr is1" "list_all match_ok is1"
      "meaning_of ` set is1 = instances name (meaning_of ` set inner) v"
    using rangeInstances_run [OF inner] by blast
  obtain is2 where is2: "canonicalizeMatchResults is1 = Inr is2" "canonical_results is2" "meaning_of ` set is2 = meaning_of ` set is1"
    by (rule canonicalizeMatchResults_run [OF is1(2)])
  obtain c1 where c1: "combineIterationMatches r relation current is2 = Inr c1" "list_all match_ok c1"
      "meaning_of ` set c1 = combined r relation (meaning_of ` set current) (meaning_of ` set is2)"
    by (rule combine_run [OF Cons.prems canonical_results_ok [OF is2(2)]])
  obtain c2 where c2: "canonicalizeMatchResults c1 = Inr c2" "canonical_results c2" "meaning_of ` set c2 = meaning_of ` set c1"
    by (rule canonicalizeMatchResults_run [OF c1(2)])
  from Cons.IH [OF canonical_results_ok [OF c2(2)]] show ?case
    by (simp add: is1(1) is2(1) c1(1) c2(1) c2(3) c1(3) is2(3) is1(3))
qed simp

lemma rangeInner_run:
  assumes inner: "list_all match_ok inner"
  obtains res where "rangeInner r name relation vals inner = Inr res" "list_all match_ok res"
    "meaning_of ` set res = ranged r name relation vals (meaning_of ` set inner)"
proof -
  obtain again where again: "canonicalizeMatchResults inner = Inr again" "canonical_results again"
      "meaning_of ` set again = meaning_of ` set inner"
    by (rule canonicalizeMatchResults_run [OF inner])
  note ok = canonical_results_ok [OF again(2)]
  have "\<exists>res. rangeLoop r name relation again None vals = Inr res \<and> list_all match_ok res
      \<and> meaning_of ` set res = ranged r name relation vals (meaning_of ` set inner)"
  proof (cases vals)
    case Nil
    then show ?thesis by (simp add: ranged_def)
  next
    case (Cons v vs)
    obtain is1 where is1: "rangeInstances again name v = Inr is1" "list_all match_ok is1"
        "meaning_of ` set is1 = instances name (meaning_of ` set again) v"
      using rangeInstances_run [OF ok] by blast
    obtain is2 where is2: "canonicalizeMatchResults is1 = Inr is2" "canonical_results is2" "meaning_of ` set is2 = meaning_of ` set is1"
      by (rule canonicalizeMatchResults_run [OF is1(2)])
    from rangeLoop_run [OF ok canonical_results_ok [OF is2(2)]] show ?thesis
      by (simp add: Cons ranged_def is1(1) is2(1) is2(3) is1(3) again(3))
  qed
  then obtain res where res: "rangeLoop r name relation again None vals = Inr res" "list_all match_ok res"
      "meaning_of ` set res = ranged r name relation vals (meaning_of ` set inner)" by blast
  obtain out where out: "canonicalizeMatchResults res = Inr out" "canonical_results out" "meaning_of ` set out = meaning_of ` set res"
    by (rule canonicalizeMatchResults_run [OF res(2)])
  show thesis
    by (rule that [of out]) (use again(1) res(1,3) out canonical_results_ok in \<open>simp_all add: rangeInner_def\<close>)
qed

section \<open>Basic patterns\<close>

definition reader_ok :: "poset_reader \<Rightarrow> bool" where
  \<comment> \<open>a causal reader whose occurrences are identified, with canonical parameters, and whose modules are too\<close>
  "reader_ok r \<longleftrightarrow> reader_laws r \<and> (\<forall>e \<in> set (rd_All r). event_ok e) \<and> (\<forall>name. \<forall>e \<in> set (rd_ByName r name). event_ok e)
   \<and> (\<forall>resolver source typ identity. rd_ModuleValueForSource r = Some resolver \<longrightarrow> resolver source typ = Some identity
        \<longrightarrow> identity = [] \<or> ParseRapideModuleValue identity = Inr identity)"

definition accepted_basic :: "poset_reader \<Rightarrow> basic_pattern \<Rightarrow> bool" where
  "accepted_basic r basic \<longleftrightarrow> bp_predicates basic = [] \<and> \<not> basicKeyError basic
   \<and> (bp_sourceBind basic = None \<or> rd_ModuleValueForSource r \<noteq> None
      \<or> \<not> (\<exists>e \<in> set (basicCandidates r basic). basicMatches basic e))"

definition names_ok :: "basic_pattern \<Rightarrow> bool" where
  "names_ok basic \<longleftrightarrow> (\<forall>ph \<in> set (basicPlaceholders basic). ValidString (ph_name ph))"

definition required :: "event \<Rightarrow> (string \<times> placeholder option) list \<Rightarrow> (string \<rightharpoonup> go_value) \<Rightarrow> bool" where
  "required e decls m \<longleftrightarrow> (\<forall>key ph. (key, Some ph) \<in> set decls \<longrightarrow> (\<exists>v w. params_get (ev_params e) key = Some v
     \<and> (ph_typ ph = [] \<or> CanonicalValueMatchesPredefinedType v (ph_typ ph)) \<and> canonicalValueCopy v = Inr w \<and> m (ph_name ph) = Some w))"

definition least_env :: "bindings \<Rightarrow> event \<Rightarrow> (string \<times> placeholder option) list \<Rightarrow> bindings \<Rightarrow> bool" where
  \<comment> \<open>an environment that extends another by exactly what the declarations require\<close>
  "least_env bs e decls cs \<longleftrightarrow> env_ok cs \<and> map_of bs \<subseteq>\<^sub>m map_of cs \<and> required e decls (map_of cs)
   \<and> dom (map_of cs) = dom (map_of bs) \<union> ph_name ` set (List.map_filter snd decls)
   \<and> (\<forall>m. map_of bs \<subseteq>\<^sub>m m \<and> required e decls m \<longrightarrow> map_of cs \<subseteq>\<^sub>m m)"

lemma canonicalParams_lookup:
  "canonicalParams ps = Inr qs \<Longrightarrow> params_get ps k = Some v \<Longrightarrow> \<exists>w. canonicalValueCopy v = Inr w"
proof (induction ps arbitrary: qs)
  case (Cons p ps)
  then show ?case by (cases p) (auto simp: params_get_def split: sum.splits if_splits)
qed (simp add: params_get_def)

lemma event_param_copy: "event_ok e \<Longrightarrow> params_get (ev_params e) key = Some v \<Longrightarrow> \<exists>w. canonicalValueCopy v = Inr w"
  by (auto simp: event_ok_def CanonicalizeParameters_def split: sum.splits dest: canonicalParams_lookup)

lemma required_Cons:
  "required e ((key, Some ph) # decls) m \<longleftrightarrow> (\<exists>v w. params_get (ev_params e) key = Some v
     \<and> (ph_typ ph = [] \<or> CanonicalValueMatchesPredefinedType v (ph_typ ph)) \<and> canonicalValueCopy v = Inr w \<and> m (ph_name ph) = Some w)
   \<and> required e decls m"
  unfolding required_def by auto

lemma bindLoop_run:
  assumes e: "event_ok e"
  shows "env_ok bs \<Longrightarrow> \<forall>d \<in> set decls. \<exists>ph. snd d = Some ph \<and> valid_id (ph_name ph) \<Longrightarrow>
    \<exists>out. bindLoop e decls bs = Inr out \<and> (case out of None \<Rightarrow> \<not> (\<exists>m. map_of bs \<subseteq>\<^sub>m m \<and> required e decls m)
      | Some cs \<Rightarrow> least_env bs e decls cs)"
proof (induction decls arbitrary: bs)
  case Nil
  then show ?case by (simp add: least_env_def required_def map_filter_simps)
next
  case (Cons d decls)
  obtain key ph where d: "d = (key, Some ph)" and name: "valid_id (ph_name ph)"
    using Cons.prems(2) by (cases d) auto
  have decls: "\<forall>d \<in> set decls. \<exists>ph. snd d = Some ph \<and> valid_id (ph_name ph)" using Cons.prems(2) by simp
  show ?case
  proof (cases "\<exists>v. params_get (ev_params e) key = Some v \<and> (ph_typ ph = [] \<or> CanonicalValueMatchesPredefinedType v (ph_typ ph))")
    case False
    then have "bindLoop e (d # decls) bs = Inr None" by (auto simp: d Param_def split: option.splits)
    moreover have "\<not> required e (d # decls) m" for m using False unfolding d required_Cons by blast
    ultimately show ?thesis by simp
  next
    case True
    then obtain v where v: "params_get (ev_params e) key = Some v" "ph_typ ph = [] \<or> CanonicalValueMatchesPredefinedType v (ph_typ ph)"
      by blast
    obtain w where w: "canonicalValueCopy v = Inr w" using event_param_copy [OF e v(1)] by blast
    have one: "env_ok [(ph_name ph, w)]" using name canonicalValueCopy_idem(1) [OF w] by (simp add: binding_ok_def valid_id_def)
    have req: "required e (d # decls) m \<longleftrightarrow> m (ph_name ph) = Some w \<and> required e decls m" for m
      unfolding d required_Cons using v w by simp
    let ?bs = "sorted_env (fmap_of_list bs ++\<^sub>f fmap_of_list [(ph_name ph, w)])"
    have merged: "mergeBindings bs [(ph_name ph, w)] = Inr (if compatible (map_of bs) (map_of [(ph_name ph, w)]) then Some ?bs else None)"
      by (rule mergeBindings_env [OF Cons.prems(1) one])
    have loop: "bindLoop e (d # decls) bs = (case mergeBindings bs [(ph_name ph, w)] of Inl err \<Rightarrow> Inl err
        | Inr None \<Rightarrow> Inr None | Inr (Some merged) \<Rightarrow> bindLoop e decls merged)"
      using v w by (auto simp: d Param_def)
    show ?thesis
    proof (cases "compatible (map_of bs) (map_of [(ph_name ph, w)])")
      case False
      then obtain u where u: "map_of bs (ph_name ph) = Some u" "u \<noteq> w" by (auto simp: compatible_iff split: if_splits)
      have "\<not> (map_of bs \<subseteq>\<^sub>m m \<and> required e (d # decls) m)" for m
        using u by (auto simp: req map_le_def dom_def)
      then show ?thesis using False by (simp add: loop merged)
    next
      case True
      have m: "map_of ?bs = (map_of bs)(ph_name ph \<mapsto> w)"
        unfolding map_of_sorted_env by (simp add: lookup_add fmlookup_of_list fun_eq_iff map_add_def split: option.splits)
      have ext: "map_of ?bs \<subseteq>\<^sub>m m \<longleftrightarrow> map_of bs \<subseteq>\<^sub>m m \<and> m (ph_name ph) = Some w" for m
        using True unfolding m by (auto simp: map_le_def dom_def compatible_iff split: if_splits)
      obtain out where out: "bindLoop e decls ?bs = Inr out"
          "case out of None \<Rightarrow> \<not> (\<exists>m. map_of ?bs \<subseteq>\<^sub>m m \<and> required e decls m) | Some cs \<Rightarrow> least_env ?bs e decls cs"
        using Cons.IH [OF env_ok_merged [OF Cons.prems(1) one] decls] by blast
      have run: "bindLoop e (d # decls) bs = Inr out" using True out(1) by (simp add: loop merged)
      show ?thesis
      proof (cases out)
        case None
        then show ?thesis using out(2) run ext req by auto
      next
        case (Some cs)
        with out(2) have cs: "least_env ?bs e decls cs" by simp
        have "dom (map_of cs) = dom (map_of bs) \<union> ph_name ` set (List.map_filter snd (d # decls))"
          using cs unfolding least_env_def m by (auto simp: d map_filter_simps)
        moreover have "map_of bs \<subseteq>\<^sub>m map_of cs" "map_of cs (ph_name ph) = Some w"
          using cs ext [of "map_of cs"] unfolding least_env_def by blast+
        moreover have "map_of cs \<subseteq>\<^sub>m m" if "map_of bs \<subseteq>\<^sub>m m" "required e (d # decls) m" for m
          using cs that ext [of m] req [of m] unfolding least_env_def by blast
        ultimately have "least_env bs e (d # decls) cs" using cs unfolding least_env_def req by blast
        then show ?thesis using run Some by simp
      qed
    qed
  qed
qed

lemma mem_map_filter: "x \<in> set (List.map_filter f xs) \<longleftrightarrow> (\<exists>y \<in> set xs. f y = Some x)"
  by (induction xs) (auto simp: map_filter_simps split: option.splits)

lemma basic_names:
  assumes "\<not> basicKeyError basic" "names_ok basic"
  shows "\<forall>d \<in> set (bp_parameterBinds basic). \<exists>ph. snd d = Some ph \<and> valid_id (ph_name ph)"
    "\<And>ph. bp_sourceBind basic = Some ph \<Longrightarrow> valid_id (ph_name ph)"
proof
  fix d
  assume "d \<in> set (bp_parameterBinds basic)"
  moreover obtain key x where d: "d = (key, x)" by (cases d)
  ultimately have k: "(key, x) \<in> set (bp_parameterBinds basic)" by simp
  then have "\<not> bindError (key, x)" using assms(1) by (auto simp: basicKeyError_def list_ex_iff)
  then obtain ph where ph: "x = Some ph" "ph_name ph \<noteq> []" by (auto simp: bindError_def split: option.splits)
  have "ph \<in> set (List.map_filter snd (bp_parameterBinds basic))"
    using k ph(1) by (force simp: mem_map_filter)
  then have "ValidString (ph_name ph)" using assms(2) by (auto simp: names_ok_def basicPlaceholders_def)
  then show "\<exists>ph. snd d = Some ph \<and> valid_id (ph_name ph)" using ph d by (simp add: valid_id_def)
next
  fix ph
  assume "bp_sourceBind basic = Some ph"
  then show "valid_id (ph_name ph)" using assms by (auto simp: basicKeyError_def names_ok_def basicPlaceholders_def valid_id_def)
qed

lemma binds_required:
  "binds r basic e m \<longleftrightarrow> dom m = ph_name ` set (basicPlaceholders basic)
   \<and> (\<forall>ph. bp_sourceBind basic = Some ph \<longrightarrow> (\<exists>resolver identity. rd_ModuleValueForSource r = Some resolver
        \<and> resolver (ev_source e) (ph_typ ph) = Some identity \<and> identity \<noteq> [] \<and> m (ph_name ph) = Some (VModule identity)))
   \<and> required e (bp_parameterBinds basic) m"
  unfolding binds_def required_def ..

text \<open>The source of an event fixes the start of the environment, or leaves none.\<close>

lemma sourceBinding_run:
  assumes r: "reader_ok r" and basic: "\<not> basicKeyError basic" "names_ok basic"
    and resolver: "bp_sourceBind basic = None \<or> rd_ModuleValueForSource r \<noteq> None"
  obtains valid bs where "sourceBinding r basic e = Inr (valid, bs)" "env_ok bs"
    "valid \<longrightarrow> dom (map_of bs) = (case bp_sourceBind basic of None \<Rightarrow> {} | Some ph \<Rightarrow> {ph_name ph})"
    "\<forall>m. binds r basic e m \<longleftrightarrow> valid \<and> dom m = ph_name ` set (basicPlaceholders basic) \<and> map_of bs \<subseteq>\<^sub>m m
       \<and> required e (bp_parameterBinds basic) m"
proof (cases "bp_sourceBind basic")
  case None
  show thesis by (rule that [of True "[]"]) (simp_all add: sourceBinding_def None binds_required)
next
  case (Some ph)
  obtain res where res: "rd_ModuleValueForSource r = Some res" using resolver Some by auto
  show thesis
  proof (cases "\<exists>identity. res (ev_source e) (ph_typ ph) = Some identity \<and> identity \<noteq> []")
    case True
    then obtain i where i: "res (ev_source e) (ph_typ ph) = Some i" "i \<noteq> []" by blast
    have "ParseRapideModuleValue i = Inr i" using r res i unfolding reader_ok_def by blast
    then have "env_ok [(ph_name ph, VModule i)]"
      using basic_names(2) [OF basic Some] by (simp add: binding_ok_def valid_id_def canonicalRapideModuleValue_eq)
    then show thesis
      by (intro that [of True "[(ph_name ph, VModule i)]"])
        (use res i in \<open>auto simp: sourceBinding_def Some binds_required map_le_def\<close>)
  next
    case False
    show thesis
    proof (rule that [of False "[]"])
      show "sourceBinding r basic e = Inr (False, [])"
        using False by (cases "res (ev_source e) (ph_typ ph)") (simp_all add: sourceBinding_def Some res)
      show "\<forall>m. binds r basic e m \<longleftrightarrow> False \<and> dom m = ph_name ` set (basicPlaceholders basic) \<and> map_of [] \<subseteq>\<^sub>m m
          \<and> required e (bp_parameterBinds basic) m"
        using False res Some unfolding binds_required by auto
    qed simp_all
  qed
qed

lemma basic_event_run:
  assumes r: "reader_ok r" and basic: "\<not> basicKeyError basic" "names_ok basic"
    and resolver: "bp_sourceBind basic = None \<or> rd_ModuleValueForSource r \<noteq> None" and e: "event_ok e"
  obtains valid bs out where "sourceBinding r basic e = Inr (valid, bs)" "bindLoop e (bp_parameterBinds basic) bs = Inr out"
    "\<forall>m. binds r basic e m \<longleftrightarrow> valid \<and> (\<exists>cs. out = Some cs \<and> m = map_of cs)" "\<forall>cs. out = Some cs \<longrightarrow> env_ok cs"
proof -
  obtain valid bs where src: "sourceBinding r basic e = Inr (valid, bs)" "env_ok bs"
      "valid \<longrightarrow> dom (map_of bs) = (case bp_sourceBind basic of None \<Rightarrow> {} | Some ph \<Rightarrow> {ph_name ph})"
      "\<forall>m. binds r basic e m \<longleftrightarrow> valid \<and> dom m = ph_name ` set (basicPlaceholders basic) \<and> map_of bs \<subseteq>\<^sub>m m
         \<and> required e (bp_parameterBinds basic) m"
    by (rule sourceBinding_run [OF r basic resolver, where e = e])
  obtain out where out: "bindLoop e (bp_parameterBinds basic) bs = Inr out"
      "case out of None \<Rightarrow> \<not> (\<exists>m. map_of bs \<subseteq>\<^sub>m m \<and> required e (bp_parameterBinds basic) m)
        | Some cs \<Rightarrow> least_env bs e (bp_parameterBinds basic) cs"
    using bindLoop_run [OF e src(2) basic_names(1) [OF basic]] by blast
  have least: "least_env bs e (bp_parameterBinds basic) cs" if "out = Some cs" for cs using out(2) that by simp
  have names: "dom (map_of cs) = ph_name ` set (basicPlaceholders basic)" if "out = Some cs" valid for cs
    using least [OF that(1)] src(3) that(2)
    by (cases "bp_sourceBind basic") (simp_all add: least_env_def basicPlaceholders_def)
  have "binds r basic e m \<longleftrightarrow> valid \<and> (\<exists>cs. out = Some cs \<and> m = map_of cs)" for m
  proof
    assume b: "binds r basic e m"
    then have m: valid "dom m = ph_name ` set (basicPlaceholders basic)" "map_of bs \<subseteq>\<^sub>m m" "required e (bp_parameterBinds basic) m"
      using src(4) by simp_all
    then obtain cs where cs: "out = Some cs" using out(2) by (cases out) auto
    have "map_of cs \<subseteq>\<^sub>m m" using least [OF cs] m(3,4) by (simp add: least_env_def)
    moreover have "dom m = dom (map_of cs)" using names [OF cs m(1)] m(2) by simp
    ultimately have "m = map_of cs" by (metis map_le_antisym map_le_def)
    then show "valid \<and> (\<exists>cs. out = Some cs \<and> m = map_of cs)" using cs m(1) by simp
  next
    assume "valid \<and> (\<exists>cs. out = Some cs \<and> m = map_of cs)"
    then obtain cs where cs: valid "out = Some cs" "m = map_of cs" by blast
    show "binds r basic e m"
      using src(4) cs names [OF cs(2,1)] least [OF cs(2)] by (simp add: least_env_def)
  qed
  then show thesis using that [OF src(1) out(1)] least by (simp add: least_env_def)
qed

lemma basicLoop_run:
  assumes r: "reader_ok r" and basic: "\<not> basicKeyError basic" "names_ok basic"
  shows "list_all event_ok es \<Longrightarrow> bp_sourceBind basic = None \<or> rd_ModuleValueForSource r \<noteq> None \<or> \<not> (\<exists>e \<in> set es. basicMatches basic e) \<Longrightarrow>
    \<exists>ms. basicLoop r basic es = Inr ms \<and> list_all match_ok ms
      \<and> meaning_of ` set ms = {({ev_id e}, m) | e m. e \<in> set es \<and> basicMatches basic e \<and> binds r basic e m}"
proof (induction es)
  case (Cons e es)
  then obtain ms where ms: "basicLoop r basic es = Inr ms" "list_all match_ok ms"
      "meaning_of ` set ms = {({ev_id e}, m) | e m. e \<in> set es \<and> basicMatches basic e \<and> binds r basic e m}" by auto
  have e: "event_ok e" using Cons.prems(1) by simp
  show ?case
  proof (cases "basicMatches basic e")
    case False
    then have "{({ev_id x}, m) | x m. x \<in> set (e # es) \<and> basicMatches basic x \<and> binds r basic x m} = meaning_of ` set ms"
      unfolding ms(3) by auto
    then show ?thesis using False ms by simp
  next
    case True
    with Cons.prems(2) have resolver: "bp_sourceBind basic = None \<or> rd_ModuleValueForSource r \<noteq> None" by auto
    obtain valid bs out where run: "sourceBinding r basic e = Inr (valid, bs)" "bindLoop e (bp_parameterBinds basic) bs = Inr out"
        "\<forall>m. binds r basic e m \<longleftrightarrow> valid \<and> (\<exists>cs. out = Some cs \<and> m = map_of cs)" "\<forall>cs. out = Some cs \<longrightarrow> env_ok cs"
      by (rule basic_event_run [OF r basic resolver e])
    have split: "{({ev_id x}, m) | x m. x \<in> set (e # es) \<and> basicMatches basic x \<and> binds r basic x m}
        = {({ev_id e}, m) | m. binds r basic e m} \<union> meaning_of ` set ms"
      unfolding ms(3) using True by auto
    show ?thesis
    proof (cases "valid \<and> out \<noteq> None")
      case True
      then obtain cs where cs: "out = Some cs" valid by auto
      have "{({ev_id e}, m) | m. binds r basic e m} = {({ev_id e}, map_of cs)}" using run(3) cs by auto
      moreover have "basicLoop r basic (e # es) = Inr (\<lparr>mr_events = [e], mr_bindings = cs\<rparr> # ms)"
        using \<open>basicMatches basic e\<close> run(1,2) ms(1) cs by simp
      moreover have "match_ok \<lparr>mr_events = [e], mr_bindings = cs\<rparr>" using e run(4) cs(1) by (simp add: match_ok_def)
      ultimately show ?thesis using ms(2) unfolding split by (simp add: meaning_of_def)
    next
      case False
      then have "{({ev_id e}, m) | m. binds r basic e m} = {}" using run(3) by auto
      moreover have "basicLoop r basic (e # es) = Inr ms"
        using \<open>basicMatches basic e\<close> run(1,2) ms(1) False by (cases out) simp_all
      ultimately show ?thesis using ms(2) unfolding split by simp
    qed
  qed
qed simp

lemma basicLoop_error:
  "\<exists>e \<in> set es. basicMatches basic e \<Longrightarrow> bp_sourceBind basic \<noteq> None \<Longrightarrow> rd_ModuleValueForSource r = None
    \<Longrightarrow> \<exists>err. basicLoop r basic es = Inl err"
  by (induction es) (auto simp: sourceBinding_def)

lemma candidates_ok: "reader_ok r \<Longrightarrow> e \<in> set (basicCandidates r basic) \<Longrightarrow> event_ok e \<and> ev_id e \<in> reader_ids r"
proof -
  assume r: "reader_ok r" and e: "e \<in> set (basicCandidates r basic)"
  then have laws: "reader_laws r" by (simp add: reader_ok_def)
  show ?thesis
  proof (cases "bp_name basic = []")
    case True
    then have "e \<in> set (rd_All r)" using e by (simp add: basicCandidates_def)
    then show ?thesis using r by (simp add: reader_ok_def reader_ids_def)
  next
    case False
    then have "e \<in> set (rd_ByName r (bp_name basic))" using e by (simp add: basicCandidates_def)
    moreover from this have "ev_id e \<in> reader_ids r" using laws unfolding reader_laws_def by blast
    ultimately show ?thesis using r unfolding reader_ok_def by blast
  qed
qed

lemma matchBasic_run:
  assumes r: "reader_ok r" and names: "names_ok basic"
  shows "if accepted_basic r basic
    then \<exists>ms. matchBasicWithBindings r basic = Inr ms \<and> list_all match_ok ms \<and> meaning_of ` set ms = basic_meaning r basic
    else \<exists>err. matchBasicWithBindings r basic = Inl err"
proof -
  obtain fs where fs: "sortMatchEvents (basicCandidates r basic) = Inr fs" "mset fs = mset (basicCandidates r basic)"
    using sortMatchEvents_run candidates_ok [OF r] by metis
  have set_fs: "set fs = set (basicCandidates r basic)" using fs(2) by (rule mset_eq_setD)
  show ?thesis
  proof (cases "bp_predicates basic \<noteq> [] \<or> basicKeyError basic")
    case True
    then show ?thesis by (auto simp: accepted_basic_def matchBasicWithBindings_def)
  next
    case False
    have run: "matchBasicWithBindings r basic = basicLoop r basic fs"
      using False fs(1) by (simp add: matchBasicWithBindings_def)
    have ok: "list_all event_ok fs" using candidates_ok [OF r] by (auto simp: list_all_iff set_fs)
    show ?thesis
    proof (cases "accepted_basic r basic")
      case True
      then have "bp_sourceBind basic = None \<or> rd_ModuleValueForSource r \<noteq> None \<or> \<not> (\<exists>e \<in> set fs. basicMatches basic e)"
        by (simp add: accepted_basic_def set_fs)
      from basicLoop_run [OF r _ names ok this] False True show ?thesis
        by (simp add: run basic_meaning_def set_fs)
    next
      case rejected: False
      then have "\<exists>e \<in> set fs. basicMatches basic e" "bp_sourceBind basic \<noteq> None" "rd_ModuleValueForSource r = None"
        using False by (auto simp: accepted_basic_def set_fs)
      from basicLoop_error [OF this] rejected show ?thesis by (simp add: run)
    qed
  qed
qed

section \<open>Whole patterns\<close>

fun patternHasBindings :: "pattern \<Rightarrow> bool" where
  "patternHasBindings (BasicPattern basic) \<longleftrightarrow> bp_sourceBind basic \<noteq> None \<or> length (bp_parameterBinds basic) \<noteq> 0"
| "patternHasBindings (SeqPattern p1 p2) \<longleftrightarrow> patternHasBindings p1 \<or> patternHasBindings p2"
| "patternHasBindings (ImmSeqPattern p1 p2) \<longleftrightarrow> patternHasBindings p1 \<or> patternHasBindings p2"
| "patternHasBindings (IndependentPattern p1 p2) \<longleftrightarrow> patternHasBindings p1 \<or> patternHasBindings p2"
| "patternHasBindings (DisjointPattern p1 p2) \<longleftrightarrow> patternHasBindings p1 \<or> patternHasBindings p2"
| "patternHasBindings (UnionPattern p1 p2) \<longleftrightarrow> patternHasBindings p1 \<or> patternHasBindings p2"
| "patternHasBindings (OrPattern subs) \<longleftrightarrow> list_ex patternHasBindings subs"
| "patternHasBindings (AndPattern subs) \<longleftrightarrow> list_ex patternHasBindings subs"
| "patternHasBindings (IterationPattern p relation minimum maximum) \<longleftrightarrow> patternHasBindings p"
| "patternHasBindings (NamedRangePattern p iter relation first last_value) \<longleftrightarrow> patternHasBindings p"
| "patternHasBindings (UniversalRangePattern p ph relation first last_value) \<longleftrightarrow> patternHasBindings p"
| "patternHasBindings _ \<longleftrightarrow> False"

fun accepted :: "poset_reader \<Rightarrow> pattern \<Rightarrow> bool" where
  \<comment> \<open>the evaluation reports no error\<close>
  "accepted r NilPattern \<longleftrightarrow> accepted_basic r MatchAny"
| "accepted r (BasicPattern basic) \<longleftrightarrow> accepted_basic r basic"
| "accepted r (SeqPattern p1 p2) \<longleftrightarrow> accepted r p1 \<and> accepted r p2"
| "accepted r (ImmSeqPattern p1 p2) \<longleftrightarrow> accepted r p1 \<and> accepted r p2"
| "accepted r (IndependentPattern p1 p2) \<longleftrightarrow> accepted r p1 \<and> accepted r p2"
| "accepted r (DisjointPattern p1 p2) \<longleftrightarrow> accepted r p1 \<and> accepted r p2"
| "accepted r (UnionPattern p1 p2) \<longleftrightarrow> accepted r p1 \<and> accepted r p2"
| "accepted r (OrPattern subs) \<longleftrightarrow> list_all (accepted r) subs"
| "accepted r (AndPattern subs) \<longleftrightarrow> list_all (accepted r) subs"
| "accepted r (IterationPattern p relation minimum maximum) \<longleftrightarrow>
     \<not> is_nil p \<and> validIteration relation minimum maximum \<and> accepted r p"
| "accepted r (NamedRangePattern p iter relation first last_value) \<longleftrightarrow>
     validateNamedRangeIteration p iter relation first last_value = None
   \<and> (namedRangeCardinality first last_value = Some 0 \<or> accepted r p)"
| "accepted r (UniversalRangePattern p ph relation first last_value) \<longleftrightarrow>
     validateUniversalRangePattern p ph relation first last_value = None \<and> accepted r p"
| "accepted r _ \<longleftrightarrow> False"

fun pattern_ok :: "pattern \<Rightarrow> bool" where
  \<comment> \<open>placeholders have valid names; an unbounded union or conjunction repeats a pattern without placeholders\<close>
  "pattern_ok (BasicPattern basic) \<longleftrightarrow> names_ok basic"
| "pattern_ok (SeqPattern p1 p2) \<longleftrightarrow> pattern_ok p1 \<and> pattern_ok p2"
| "pattern_ok (ImmSeqPattern p1 p2) \<longleftrightarrow> pattern_ok p1 \<and> pattern_ok p2"
| "pattern_ok (IndependentPattern p1 p2) \<longleftrightarrow> pattern_ok p1 \<and> pattern_ok p2"
| "pattern_ok (DisjointPattern p1 p2) \<longleftrightarrow> pattern_ok p1 \<and> pattern_ok p2"
| "pattern_ok (UnionPattern p1 p2) \<longleftrightarrow> pattern_ok p1 \<and> pattern_ok p2"
| "pattern_ok (OrPattern subs) \<longleftrightarrow> list_all pattern_ok subs"
| "pattern_ok (AndPattern subs) \<longleftrightarrow> list_all pattern_ok subs"
| "pattern_ok (IterationPattern p relation minimum maximum) \<longleftrightarrow> pattern_ok p
   \<and> (maximum < 0 \<longrightarrow> minimum \<le> 1 \<and> (patternHasBindings p \<longrightarrow> relation \<noteq> ''union'' \<and> relation \<noteq> ''and''))"
| "pattern_ok (NamedRangePattern p iter relation first last_value) \<longleftrightarrow> pattern_ok p"
| "pattern_ok (UniversalRangePattern p ph relation first last_value) \<longleftrightarrow> pattern_ok p"
| "pattern_ok _ \<longleftrightarrow> True"

lemma grounded_mono: "grounded r ground A \<Longrightarrow> (ground' \<longrightarrow> ground) \<Longrightarrow> grounded r ground' A"
  unfolding grounded_def by blast

lemma grounded_basic:
  assumes "reader_ok r" "ground \<longrightarrow> bp_sourceBind basic = None \<and> bp_parameterBinds basic = []"
  shows "grounded r ground (basic_meaning r basic)"
proof -
  have "basicPlaceholders basic = []" if ground using assms(2) that by (simp add: basicPlaceholders_def map_filter_simps)
  then have "m = Map.empty" if ground "binds r basic e m" for e m using that by (simp add: binds_def)
  then show ?thesis using candidates_ok [OF assms(1)] by (auto simp: grounded_def basic_meaning_def)
qed

lemma grounded_iterated: "grounded r ground A \<Longrightarrow> grounded r ground (iterated r relation minimum maximum A)"
proof -
  assume A: "grounded r ground A"
  have "S \<subseteq> reader_ids r \<and> (S = {} \<or> ground \<longrightarrow> m = Map.empty)" if i: "(S, m) \<in> iterated r relation minimum maximum A" for S m
  proof (cases "(S, m) = ({}, Map.empty)")
    case False
    with i obtain k where "(S, m) \<in> powers r relation A k" unfolding iterated_def by (auto split: if_splits)
    then show ?thesis by (rule groundedD [OF grounded_powers [OF A]])
  qed simp
  then show ?thesis by (simp add: grounded_def)
qed

lemma grounded_instances: "grounded r ground A \<Longrightarrow> grounded r ground (instances name A w)"
  by (fastforce simp: grounded_def instances_def)

lemma grounded_ranged: "grounded r ground A \<Longrightarrow> grounded r ground (ranged r name relation vals A)"
proof -
  assume A: "grounded r ground A"
  have "grounded r ground (foldl (\<lambda>X v. combined r relation X (instances name A v)) B vs)" if "grounded r ground B" for B vs
    using that by (induction vs arbitrary: B) (simp_all add: grounded_combined grounded_instances [OF A])
  then show ?thesis by (simp add: ranged_def grounded_instances [OF A] split: list.splits)
qed

lemma grounded_meaning:
  "reader_ok r \<Longrightarrow> (ground \<longrightarrow> \<not> patternHasBindings p) \<Longrightarrow> grounded r ground (meaning r p)"
  "reader_ok r \<Longrightarrow> (ground \<longrightarrow> \<not> list_ex patternHasBindings ps) \<Longrightarrow> grounded r ground (any_meaning r ps)"
  "reader_ok r \<Longrightarrow> (ground \<longrightarrow> \<not> list_ex patternHasBindings ps) \<Longrightarrow> grounded r ground A \<Longrightarrow> grounded r ground (every_meaning r A ps)"
proof (induction r p and r ps and r A ps rule: meaning_any_meaning_every_meaning.induct)
  case (1 r)
  then show ?case by (simp add: grounded_basic MatchAny_def)
next
  case (2 r basic)
  then show ?case by (simp add: grounded_basic)
next
  case (9 r subs)
  then show ?case by (cases subs) simp_all
next
  case (11 r p iter relation first last_value)
  then show ?case by (simp add: grounded_ranged split: option.splits)
qed (simp_all add: grounded_joined grounded_iterated grounded_ranged)

definition evaluates :: "bool \<Rightarrow> pattern_error + match_result list \<Rightarrow> match_meaning set \<Rightarrow> bool" where
  \<comment> \<open>an evaluation yields the meaning, or an error for a pattern that is not accepted\<close>
  "evaluates acceptable result A \<longleftrightarrow> (case result of Inl err \<Rightarrow> \<not> acceptable
     | Inr ms \<Rightarrow> acceptable \<and> list_all match_ok ms \<and> meaning_of ` set ms = A)"

lemma evaluates_simps [simp]:
  "evaluates acceptable (Inl err) A \<longleftrightarrow> \<not> acceptable"
  "evaluates acceptable (Inr ms) A \<longleftrightarrow> acceptable \<and> list_all match_ok ms \<and> meaning_of ` set ms = A"
  by (simp_all add: evaluates_def)

lemma evaluates_basic: "reader_ok r \<Longrightarrow> names_ok basic \<Longrightarrow>
    evaluates (accepted_basic r basic) (matchBasicWithBindings r basic) (basic_meaning r basic)"
  using matchBasic_run [of r basic] by (auto simp: evaluates_def split: if_splits)

lemma evaluates_binary:
  assumes left: "evaluates a lefts A" and right: "evaluates b rights B"
    and R: "\<And>es fs. distinct (map ev_id es) \<Longrightarrow> distinct (map ev_id fs) \<Longrightarrow> relation es fs = R (ev_id ` set es) (ev_id ` set fs)"
  shows "evaluates (a \<and> b) (matchBinary relation lefts rights) (joined R A B)"
proof (cases lefts)
  case (Inr ls)
  show ?thesis
  proof (cases rights)
    case (Inr rs)
    have "merges_ok relation mergeEventSets R" by (rule merges_ok_mergeEventSets) (rule R)
    from pairMatches_run [OF this, of rs ls] show ?thesis
      using left right Inr \<open>lefts = Inr ls\<close> by (auto simp: matchBinary_def)
  qed (use right Inr in \<open>simp_all add: matchBinary_def\<close>)
qed (use left in \<open>simp_all add: matchBinary_def\<close>)

lemma evaluates_iteration:
  assumes r: "reader_ok r" and inner: "evaluates a inner (meaning r p)"
    and ok: "maximum < 0 \<longrightarrow> minimum \<le> 1 \<and> (patternHasBindings p \<longrightarrow> relation \<noteq> ''union'' \<and> relation \<noteq> ''and'')"
  shows "evaluates a (case inner of Inl err \<Rightarrow> Inl err | Inr inner \<Rightarrow> iterateInner r relation minimum maximum inner)
    (iterated r relation minimum maximum (meaning r p))"
proof (cases inner)
  case (Inr ms)
  have laws: "reader_laws r" using r by (simp add: reader_ok_def)
  have g: "grounded r (relation = ''union'' \<or> relation = ''and'') (meaning r p)" if "maximum < 0"
    by (rule grounded_meaning(1) [OF r]) (use ok that in blast)
  have ms: "list_all match_ok ms" "meaning_of ` set ms = meaning r p" a using inner Inr by simp_all
  obtain res where "iterateInner r relation minimum maximum ms = Inr res" "list_all match_ok res"
      "meaning_of ` set res = iterated r relation minimum maximum (meaning_of ` set ms)"
    by (rule iterateInner_run [OF laws ms(1), where maximum = maximum and minimum = minimum and relation = relation])
      (use g ok ms(2) in simp_all)
  then show ?thesis using Inr ms by simp
qed (use inner in simp)

lemma evaluates_range:
  assumes "evaluates a inner A"
  shows "evaluates a (case inner of Inl err \<Rightarrow> Inl err | Inr inner \<Rightarrow> rangeInner r name relation vals inner) (ranged r name relation vals A)"
proof (cases inner)
  case (Inr ms)
  then have ms: "list_all match_ok ms" "meaning_of ` set ms = A" a using assms by simp_all
  obtain res where "rangeInner r name relation vals ms = Inr res" "list_all match_ok res"
      "meaning_of ` set res = ranged r name relation vals (meaning_of ` set ms)"
    by (rule rangeInner_run [OF ms(1)])
  then show ?thesis using Inr ms by simp
qed (use assms in simp)

lemma matchWithBindings_run:
  "reader_ok r \<Longrightarrow> pattern_ok p \<Longrightarrow> evaluates (accepted r p) (matchWithBindings r p) (meaning r p)"
  "reader_ok r \<Longrightarrow> list_all pattern_ok ps \<Longrightarrow> evaluates (list_all (accepted r) ps) (matchAny r ps) (any_meaning r ps)"
  "reader_ok r \<Longrightarrow> list_all pattern_ok ps \<Longrightarrow> list_all match_ok current \<Longrightarrow>
    evaluates (list_all (accepted r) ps) (matchEvery r current ps) (every_meaning r (meaning_of ` set current) ps)"
proof (induction r p and r ps and r current ps rule: matchWithBindings_matchAny_matchEvery.induct)
  case (1 r)
  have "names_ok MatchAny" by (simp add: names_ok_def basicPlaceholders_def MatchAny_def map_filter_simps)
  with 1 show ?case by (simp add: evaluates_basic)
next
  case (2 r basic)
  then show ?case by (simp add: evaluates_basic)
next
  case (3 r p1 p2)
  show ?case unfolding accepted.simps matchWithBindings.simps meaning.simps
    by (rule evaluates_binary) (use 3 in \<open>simp_all add: relates_def\<close>)
next
  case (4 r p1 p2)
  show ?case unfolding accepted.simps matchWithBindings.simps meaning.simps
    by (rule evaluates_binary) (use 4 in \<open>simp_all add: relates_def\<close>)
next
  case (5 r p1 p2)
  show ?case unfolding accepted.simps matchWithBindings.simps meaning.simps
    by (rule evaluates_binary) (use 5 in \<open>simp_all add: relates_def\<close>)
next
  case (6 r p1 p2)
  show ?case unfolding accepted.simps matchWithBindings.simps meaning.simps
    by (rule evaluates_binary) (use 6 in \<open>simp_all add: relates_def\<close>)
next
  case (7 r p1 p2)
  show ?case unfolding accepted.simps matchWithBindings.simps meaning.simps
    by (rule evaluates_binary) (use 7 in simp_all)
next
  case (9 r subs)
  show ?case
  proof (cases subs)
    case (Cons sub rest)
    have e: "evaluates (accepted r sub) (matchWithBindings r sub) (meaning r sub)"
      using "9.IH"(1) [OF Cons] "9.prems" Cons by simp
    show ?thesis
    proof (cases "matchWithBindings r sub")
      case (Inr ms)
      with e have ms: "list_all match_ok ms" "meaning_of ` set ms = meaning r sub" "accepted r sub" by simp_all
      from "9.IH"(2) [OF Cons Inr "9.prems"(1) _ ms(1)] "9.prems"(2) show ?thesis
        using Cons Inr ms by simp
    qed (use e Cons in simp)
  qed simp
next
  case (10 r p relation minimum maximum)
  show ?case
  proof (cases "is_nil p \<or> \<not> validIteration relation minimum maximum")
    case False
    have "evaluates (accepted r p) (matchWithBindings r p) (meaning r p)" using "10.IH" [OF False] "10.prems" by simp
    from evaluates_iteration [OF "10.prems"(1) this, of maximum minimum relation] show ?thesis
      using False "10.prems"(2) by (simp cong: sum.case_cong)
  qed auto
next
  case (11 r p iter relation first last_value)
  show ?case
  proof (cases "validateNamedRangeIteration p iter relation first last_value")
    case valid: None
    show ?thesis
    proof (cases "namedRangeCardinality first last_value")
      case None
      then show ?thesis using valid by (simp add: validateNamedRangeIteration_def split: if_splits)
    next
      case (Some cardinality)
      show ?thesis
      proof (cases "cardinality = 0")
        case False
        have "evaluates (accepted r p) (matchWithBindings r p) (meaning r p)"
          using "11.IH" [OF valid Some False] "11.prems" by simp
        from evaluates_range [OF this] show ?thesis using valid Some False by simp
      qed (use valid Some in simp)
    qed
  qed simp
next
  case (12 r p ph relation first last_value)
  show ?case
  proof (cases "validateUniversalRangePattern p ph relation first last_value")
    case None
    have "evaluates (accepted r p) (matchWithBindings r p) (meaning r p)" using "12.IH" [OF None] "12.prems" by simp
    from evaluates_range [OF this, where r = r and name = "ph_name ph" and relation = relation
        and vals = "rangeValues first (unat (last_value - first) + 1)"]
    show ?thesis using None by simp
  qed simp
next
  case (17 r sub subs)
  have e: "evaluates (accepted r sub) (matchWithBindings r sub) (meaning r sub)" using "17.IH"(1) "17.prems" by simp
  show ?case
  proof (cases "matchWithBindings r sub")
    case (Inr ms)
    with e have ms: "list_all match_ok ms" "meaning_of ` set ms = meaning r sub" "accepted r sub" by simp_all
    have "evaluates (list_all (accepted r) subs) (matchAny r subs) (any_meaning r subs)"
      using "17.IH"(2) [OF Inr] "17.prems" by simp
    then show ?thesis using Inr ms by (cases "matchAny r subs") (simp_all add: image_Un)
  qed (use e in simp)
next
  case (19 r current sub subs)
  have e: "evaluates (accepted r sub) (matchWithBindings r sub) (meaning r sub)" using "19.IH"(1) "19.prems" by simp
  show ?case
  proof (cases "matchWithBindings r sub")
    case (Inr ms)
    with e have ms: "list_all match_ok ms" "meaning_of ` set ms = meaning r sub" "accepted r sub" by simp_all
    obtain rows where rows: "pairMatches (\<lambda>left right. eventSetKey left = eventSetKey right) (\<lambda>left right. left) current ms = Inr rows"
        "list_all match_ok rows" "meaning_of ` set rows = joined (=) (meaning_of ` set current) (meaning_of ` set ms)"
      using pairMatches_run [OF merges_ok_left ms(1) "19.prems"(3)] by blast
    from "19.IH"(2) [OF Inr rows(1) "19.prems"(1) _ rows(2)] "19.prems"(2) show ?thesis
      using Inr ms rows by simp
  qed (use e in simp)
qed (simp_all add: evaluates_def)

lemma matches_run:
  assumes "reader_ok r" "pattern_ok p" "accepted r p"
  shows "\<exists>ms. MatchWithBindings p r = Inr ms \<and> canonical_results ms \<and> meaning_of ` set ms = meaning r p"
proof -
  obtain ms where ms: "matchWithBindings r p = Inr ms" "list_all match_ok ms" "meaning_of ` set ms = meaning r p"
    using matchWithBindings_run(1) [OF assms(1,2)] assms(3) by (cases "matchWithBindings r p") simp_all
  obtain res where "canonicalizeMatchResults ms = Inr res" "canonical_results res" "meaning_of ` set res = meaning_of ` set ms"
    by (rule canonicalizeMatchResults_run [OF ms(2)])
  then show ?thesis using ms by (simp add: MatchWithBindings_def)
qed

text \<open>C15:
  \<open>MatchWithBindings\<close> computes the meaning of a pattern.  Over a causal reader with canonical contents it returns
  either an error, exactly when the pattern is not accepted, or a list that holds every match of the pattern's
  meaning once and nothing else, in the order of the canonical keys: joins respect the causal relation and the
  assignments, iterations without a maximum lose nothing to their ceiling at the number of occurrences or to
  stopping at a fixed point, and ranges join an instance for each value.  Patterns that repeat placeholders
  under an unbounded union or conjunction are excepted; for them it is wrong.\<close>

theorem matches_exact:
  assumes "reader_ok r" "pattern_ok p"
  shows "case MatchWithBindings p r of Inl err \<Rightarrow> \<not> accepted r p
    | Inr ms \<Rightarrow> accepted r p \<and> meaning_of ` set ms = meaning r p \<and> distinct (map meaning_of ms) \<and> canonical_results ms"
proof (cases "accepted r p")
  case True
  from matches_run [OF assms this] True show ?thesis using canonical_results_distinct by auto
next
  case False
  then obtain err where "matchWithBindings r p = Inl err"
    using matchWithBindings_run(1) [OF assms] by (cases "matchWithBindings r p") simp_all
  then show ?thesis using False by (simp add: MatchWithBindings_def)
qed

section \<open>Posets as readers\<close>

definition canonical_params :: "params \<Rightarrow> bool" where
  "canonical_params ps \<longleftrightarrow> (case CanonicalizeParameters ps of Inl err \<Rightarrow> False | Inr parameters \<Rightarrow> True)"

definition canonical_contents :: "poset \<Rightarrow> bool" where
  \<comment> \<open>identified occurrences with canonical parameters in every observation\<close>
  "canonical_contents p \<longleftrightarrow> list_all (\<lambda>i. case fmlookup (events p) i of None \<Rightarrow> True
     | Some e \<Rightarrow> valid_id i \<and> list_all canonical_params (ev_params e # map ob_params (EventObservations e))) (event_ids p)"

lemma event_ok_iff: "event_ok e \<longleftrightarrow> valid_id (ev_id e) \<and> canonical_params (ev_params e)"
  by (auto simp: event_ok_def canonical_params_def split: sum.splits)

lemma reader_of_ok:
  assumes p: "poset_ok p" and c: "canonical_contents p"
  shows "reader_ok (reader_of p)"
proof -
  have ok: "events_ok p" using p by (simp add: poset_ok_def)
  have stored: "event_ok e \<and> (\<forall>ob \<in> set (EventObservations e). event_ok (eventView e ob))"
    if i: "i |\<in>| fmdom (events p)" "fmlookup (events p) i = Some e" for i e
  proof -
    obtain e' where "fmlookup (events p) i = Some e'" "ev_id e' = i" by (rule stored_event [OF ok i(1)])
    then have "ev_id e = i" using i(2) by simp
    moreover have "i \<in> set (event_ids p)" using i(1) by simp
    moreover from this have "case fmlookup (events p) i of None \<Rightarrow> True
        | Some e \<Rightarrow> valid_id i \<and> list_all canonical_params (ev_params e # map ob_params (EventObservations e))"
      using c unfolding canonical_contents_def list_all_iff by blast
    ultimately show ?thesis using i(2) by (simp add: event_ok_iff list_all_iff)
  qed
  have all: "event_ok e" if "e \<in> set (All p)" for e
  proof -
    have "fmlookup (events p) (ev_id e) = Some e"
      using Events_lists [OF ok] that by (simp add: lists_events_def All_def)
    then show ?thesis using stored [of "ev_id e" e] fmdomI [of "events p" "ev_id e" e] by simp
  qed
  have named: "event_ok e" if "e \<in> set (ByName p name)" for e name
  proof -
    from that obtain i where i0: "i \<in> set (event_ids p)" "e \<in> set (map (\<lambda>ob.
          if \<not> ev_deterministic (the (fmlookup (events p) i)) \<and> isPrimaryObservation (the (fmlookup (events p) i)) ob
          then the (fmlookup (events p) i) else eventView (the (fmlookup (events p) i)) ob)
        (observationsNamed (the (fmlookup (events p) i)) name))"
      unfolding ByName_def EventsByName_def Let_def sortEventSet_simps set_concat by auto
    define e' where "e' = the (fmlookup (events p) i)"
    from i0(2) obtain ob where "ob \<in> set (observationsNamed e' name)" "e = e' \<or> e = eventView e' ob"
      by (auto simp: e'_def split: if_splits)
    then have i: "i \<in> set (event_ids p)" "e' = the (fmlookup (events p) i)" "e = e' \<or> e = eventView e' ob"
        "ob \<in> set (EventObservations e')"
      using i0(1) by (simp_all add: observationsNamed_set e'_def)
    obtain e'' where "fmlookup (events p) i = Some e''" by (rule stored_event [OF ok, of i]) (use i(1) in simp)
    then have "fmlookup (events p) i = Some e'" using i(2) by simp
    with stored [of i e'] fmdomI [of "events p" i e'] have "event_ok e'" "event_ok (eventView e' ob)" using i(4) by simp_all
    with i(3) show ?thesis by blast
  qed
  show ?thesis using poset_view.laws [OF p] all named by (simp add: reader_ok_def)
qed

definition some_ticks :: pattern where
  \<comment> \<open>\<open>[+ rel follows] tick\<close>\<close>
  "some_ticks = IterationPattern (BasicPattern (MatchEvent ''tick'')) ''follows'' 1 (-1)"

lemma some_ticks_ok: "pattern_ok some_ticks" "accepted r some_ticks"
proof -
  have "basicPlaceholders (MatchEvent ''tick'') = []" by (simp add: basicPlaceholders_def MatchEvent_def MatchAny_def map_filter_simps)
  then show "pattern_ok some_ticks" by (simp add: some_ticks_def names_ok_def MatchEvent_def MatchAny_def)
  show "accepted r some_ticks"
    by (simp add: some_ticks_def accepted_basic_def basicKeyError_def MatchEvent_def MatchAny_def validIteration_def validIterationRelation_def)
qed

lemma some_ticks_basic: "({i}, m) \<in> basic_meaning r (MatchEvent ''tick'') \<longleftrightarrow> i \<in> ev_id ` set (rd_ByName r ''tick'') \<and> m = Map.empty"
  by (auto simp: basic_meaning_def basicCandidates_def basicMatches_def binds_def basicPlaceholders_def MatchEvent_def MatchAny_def
      map_filter_simps)

lemma joinedI: "(S, m) \<in> A \<Longrightarrow> (T, n) \<in> B \<Longrightarrow> R S T \<Longrightarrow> compatible m n \<Longrightarrow> (S \<union> T, m ++ n) \<in> joined R A B"
  unfolding joined_def by blast

lemma powers_iterated:
  "x \<in> powers r relation A k \<Longrightarrow> minimum \<le> int (Suc k) \<Longrightarrow> maximum < 0 \<or> int (Suc k) \<le> maximum \<Longrightarrow>
    x \<in> iterated r relation minimum maximum A"
  unfolding iterated_def by blast

lemma ordered_events_reader: "reader_ok (reader_of ordered_events)"
proof -
  have "canonical_contents ordered_events" by code_simp
  then show ?thesis by (rule reader_of_ok [OF ordered_events_ok(1)])
qed

lemma ordered_ticks: "ev_id ` set (rd_ByName (reader_of ordered_events) ''tick'') = {''a'', ''b''}"
proof -
  have "map ev_id (rd_ByName (reader_of ordered_events) ''tick'') = [''a'', ''b'']" by code_simp
  then show ?thesis by (metis list.set(1,2) set_map)
qed

lemma some_ticks_ordered:
  "({''a'', ''b''}, Map.empty) \<in> meaning (reader_of ordered_events) some_ticks"
  "({''b''}, Map.empty) \<in> meaning (reader_of ordered_events) some_ticks"
proof -
  let ?r = "reader_of ordered_events"
  let ?A = "basic_meaning ?r (MatchEvent ''tick'')"
  have before: "rd_IsCausallyBefore ?r ''a'' ''b''" by code_simp
  have ab: "({''a''}, Map.empty) \<in> ?A" "({''b''}, Map.empty) \<in> ?A" unfolding some_ticks_basic ordered_ticks by simp_all
  have "({''a''} \<union> {''b''}, Map.empty ++ Map.empty) \<in> joined (relates ?r ''follows'') ?A ?A"
    by (rule joinedI [OF ab]) (use before in \<open>simp_all add: relates_def compatible_def del: reader_simps\<close>)
  then have "({''a'', ''b''}, Map.empty) \<in> powers ?r ''follows'' ?A 1" by (simp add: combined_def insert_commute)
  from powers_iterated [OF this, of 1 "-1"] powers_iterated [of "({''b''}, Map.empty)" ?r "''follows''" ?A 0 1 "-1"] ab
  show "({''a'', ''b''}, Map.empty) \<in> meaning ?r some_ticks" "({''b''}, Map.empty) \<in> meaning ?r some_ticks"
    by (simp_all add: some_ticks_def del: reader_simps)
qed

theorem matches_exact_witness:
  "\<exists>ms. MatchWithBindings some_ticks (reader_of ordered_events) = Inr ms
    \<and> ({''a'', ''b''}, Map.empty) \<in> meaning_of ` set ms \<and> ({''b''}, Map.empty) \<in> meaning_of ` set ms"
  using matches_exact [OF ordered_events_reader some_ticks_ok(1)] some_ticks_ordered some_ticks_ok(2)
  by (cases "MatchWithBindings some_ticks (reader_of ordered_events)") auto

section \<open>The excepted iterations\<close>

text \<open>Over one occurrence an unbounded iteration is evaluated as a single repetition.\<close>

lemma single_repetition:
  assumes r: "reader_ok r" "rd_Len r \<le> 1" and p: "pattern_ok p" "\<not> is_nil p" "accepted r p" "validIterationRelation relation"
  shows "\<exists>ms. MatchWithBindings (IterationPattern p relation 1 (-1)) r = Inr ms \<and> meaning_of ` set ms = meaning r p"
proof -
  from matchWithBindings_run(1) [OF r(1) p(1)] p(3) obtain inner
    where inner: "matchWithBindings r p = Inr inner" "list_all match_ok inner" "meaning_of ` set inner = meaning r p"
    by (cases "matchWithBindings r p") simp_all
  obtain again where again: "canonicalizeMatchResults inner = Inr again" "canonical_results again"
      "meaning_of ` set again = meaning_of ` set inner"
    by (rule canonicalizeMatchResults_run [OF inner(2)])
  note ok = canonical_results_ok [OF again(2)]
  obtain c1 where c1: "canonicalizeMatchResults again = Inr c1" "canonical_results c1" "meaning_of ` set c1 = meaning_of ` set again"
    by (rule canonicalizeMatchResults_run [OF ok])
  obtain c2 where c2: "canonicalizeMatchResults c1 = Inr c2" "canonical_results c2" "meaning_of ` set c2 = meaning_of ` set c1"
    by (rule canonicalizeMatchResults_run [OF canonical_results_ok [OF c1(2)]])
  have limit: "iterationCeiling r (-1) = 1" using r(2) by (simp add: iterationCeiling_def)
  have loop: "iterationLoop r relation 1 (-1) again 1 1 again [] = Inr again"
    by (subst iterationLoop.simps) simp
  have iterate: "iterateInner r relation 1 (-1) inner = Inr (if again = [] then [] else c1)"
    by (simp add: iterateInner_def again(1) limit loop c1(1))
  have "validIteration relation 1 (-1)" using p(4) by (simp add: validIteration_def)
  then have "MatchWithBindings (IterationPattern p relation 1 (-1)) r = canonicalizeMatchResults (if again = [] then [] else c1)"
    using p(2) by (simp add: MatchWithBindings_def inner(1) iterate)
  moreover have "canonicalizeMatchResults (if again = [] then [] else c1) = Inr (if again = [] then [] else c2)"
    using c2(1) by (simp add: canonicalizeMatchResults_def sortMatchResults_def)
  ultimately show ?thesis using again(3) inner(3) c1(3) c2(3) by auto
qed

definition bind_parameter :: "string \<Rightarrow> string \<Rightarrow> pattern" where
  \<comment> \<open>\<open>MatchAny().BindParam(key, Var(name))\<close>\<close>
  "bind_parameter key name = BasicPattern (MatchAny\<lparr>bp_parameterBinds := [(key, Some \<lparr>ph_name = name, ph_typ = ''''\<rparr>)]\<rparr>)"

definition either_parameter :: pattern where
  "either_parameter = OrPattern [bind_parameter ''x'' ''X'', bind_parameter ''y'' ''Y'']"

definition bound_poset :: poset where
  \<comment> \<open>one occurrence with two parameters\<close>
  "bound_poset = fst (AddEvent NewPoset (Some ((sample_event ''a'')\<lparr>ev_params := [(''x'', VInt64 1), (''y'', VInt64 2)]\<rparr>)))"

lemma bound_poset_ok: "reader_ok (reader_of bound_poset)" "rd_Len (reader_of bound_poset) = 1"
proof -
  have "canonical_contents bound_poset" by code_simp
  moreover have "poset_ok bound_poset"
  proof -
    let ?e = "(sample_event ''a'')\<lparr>ev_params := [(''x'', VInt64 1), (''y'', VInt64 2)]\<rparr>"
    have "snd (AddEvent NewPoset (Some ?e)) = None" by code_simp
    moreover have "ev_expectedCauses ?e = []" by (simp add: sample_event_def NewEvent_def Let_def)
    ultimately have run: "addEventLocked NewPoset (Some ?e) = (bound_poset, None)"
      by (simp add: bound_poset_def AddEvent_def prod_eq_iff)
    have "ev_id ?e \<noteq> ''''" by (simp add: sample_event_def)
    from addEventLocked_ok [OF NewPoset_ok(1) this run] show ?thesis by blast
  qed
  ultimately show "reader_ok (reader_of bound_poset)" by (rule reader_of_ok [rotated])
  show "rd_Len (reader_of bound_poset) = 1" by code_simp
qed

lemma bound_meaning:
  assumes "e \<in> set (rd_All r)" "params_get (ev_params e) key = Some (VInt64 v)"
  shows "({ev_id e}, [name \<mapsto> VInt64 v]) \<in> meaning r (bind_parameter key name)"
proof -
  let ?b = "MatchAny\<lparr>bp_parameterBinds := [(key, Some \<lparr>ph_name = name, ph_typ = ''''\<rparr>)]\<rparr>"
  have "e \<in> set (basicCandidates r ?b)" "basicMatches ?b e"
    using assms(1) by (simp_all add: basicCandidates_def basicMatches_def MatchAny_def)
  moreover have "binds r ?b e [name \<mapsto> VInt64 v]"
    using assms(2) by (simp add: binds_def basicPlaceholders_def MatchAny_def map_filter_simps)
  ultimately show ?thesis unfolding bind_parameter_def meaning.simps basic_meaning_def by blast
qed

lemma bound_names: "(S, m) \<in> meaning r (bind_parameter key name) \<Longrightarrow> dom m = {name}"
  by (auto simp: bind_parameter_def basic_meaning_def binds_def basicPlaceholders_def MatchAny_def map_filter_simps)

text \<open>C16:
  An unbounded union is cut at the number of occurrences.  One occurrence with two parameters matches a
  disjunction that binds either, and the union of both matches is a match of \<open>[+ rel union]\<close> and of the same
  iteration with the range one to two; the bounded form reports it, \<open>IterateOneOrMore\<close> does not.\<close>

theorem unbounded_union_is_cut:
  "\<exists>plus twice ms ns. IterateOneOrMore either_parameter ''union'' = Some plus
    \<and> IterateRange either_parameter ''union'' 1 2 = Some twice
    \<and> MatchWithBindings plus (reader_of bound_poset) = Inr ms \<and> MatchWithBindings twice (reader_of bound_poset) = Inr ns
    \<and> (let both = ({''a''}, [''X'' \<mapsto> VInt64 1, ''Y'' \<mapsto> VInt64 2])
       in both \<in> meaning (reader_of bound_poset) plus \<and> both \<in> meaning_of ` set ns \<and> both \<notin> meaning_of ` set ms)"
proof -
  let ?r = "reader_of bound_poset" and ?both = "({''a''}, [''X'' \<mapsto> VInt64 1, ''Y'' \<mapsto> VInt64 2])"
  let ?plus = "IterationPattern either_parameter ''union'' 1 (-1)" and ?twice = "IterationPattern either_parameter ''union'' 1 2"
  let ?A = "meaning ?r either_parameter"
  note r = bound_poset_ok(1)
  have placeholders: "pattern_ok either_parameter"
    by (simp add: either_parameter_def bind_parameter_def names_ok_def basicPlaceholders_def MatchAny_def map_filter_simps ascii_valid)
  have nil: "\<not> is_nil either_parameter" by (simp add: either_parameter_def)
  have accepted: "accepted ?r either_parameter"
    by (simp add: either_parameter_def bind_parameter_def accepted_basic_def basicKeyError_def bindError_def MatchAny_def)
  have valid: "validIterationRelation ''union''" by (simp add: validIterationRelation_def)
  have pats: "IterateOneOrMore either_parameter ''union'' = Some ?plus" "IterateRange either_parameter ''union'' 1 2 = Some ?twice"
    using valid by (simp_all add: IterateOneOrMore_def IterateRange_def either_parameter_def)
  have "list_ex (\<lambda>e. ev_id e = ''a'' \<and> params_get (ev_params e) ''x'' = Some (VInt64 1) \<and> params_get (ev_params e) ''y'' = Some (VInt64 2))
      (rd_All ?r)" by code_simp
  then obtain e where e: "e \<in> set (rd_All ?r)" "ev_id e = ''a''" "params_get (ev_params e) ''x'' = Some (VInt64 1)"
      "params_get (ev_params e) ''y'' = Some (VInt64 2)" by (auto simp: list_ex_iff simp del: reader_simps)
  have one: "({''a''}, [''X'' \<mapsto> VInt64 1]) \<in> ?A" "({''a''}, [''Y'' \<mapsto> VInt64 2]) \<in> ?A"
    using bound_meaning [OF e(1,3)] bound_meaning [OF e(1,4)] e(2) by (simp_all add: either_parameter_def)
  have "({''a''} \<union> {''a''}, [''X'' \<mapsto> VInt64 1] ++ [''Y'' \<mapsto> VInt64 2]) \<in> joined (relates ?r ''union'') ?A ?A"
    by (rule joinedI [OF one]) (simp_all add: relates_def compatible_def)
  then have two: "?both \<in> powers ?r ''union'' ?A 1" by (simp add: combined_def del: reader_simps)
  have meanings: "?both \<in> meaning ?r ?plus" "?both \<in> meaning ?r ?twice"
    using powers_iterated [OF two, of 1 "-1"] powers_iterated [OF two, of 1 2] by (simp_all del: reader_simps)
  have not_inner: "?both \<notin> ?A"
  proof
    assume "?both \<in> ?A"
    then have "?both \<in> meaning ?r (bind_parameter ''x'' ''X'') \<or> ?both \<in> meaning ?r (bind_parameter ''y'' ''Y'')"
      by (simp add: either_parameter_def del: reader_simps)
    then have "dom [''X'' \<mapsto> VInt64 1, ''Y'' \<mapsto> VInt64 2] = {''X''} \<or> dom [''X'' \<mapsto> VInt64 1, ''Y'' \<mapsto> VInt64 2] = {''Y''}"
      using bound_names [of "{''a''}" "snd ?both" ?r] by (simp only: snd_conv) blast
    then show False by (simp add: insert_commute doubleton_eq_iff)
  qed
  have "accepted ?r ?twice" "pattern_ok ?twice"
    using placeholders accepted valid by (simp_all add: validIteration_def either_parameter_def del: reader_simps)
  then obtain ns where ns: "MatchWithBindings ?twice ?r = Inr ns" "meaning_of ` set ns = meaning ?r ?twice"
    using matches_run [OF r] by blast
  obtain ms where ms: "MatchWithBindings ?plus ?r = Inr ms" "meaning_of ` set ms = ?A"
    using single_repetition [OF r _ placeholders nil accepted valid] unfolding bound_poset_ok(2) by blast
  have "?both \<in> meaning_of ` set ns" "?both \<notin> meaning_of ` set ms"
    unfolding ns(2) ms(2) by (rule meanings(2), rule not_inner)
  then show ?thesis unfolding Let_def using pats ns(1) ms(1) meanings(1) by (intro exI conjI) assumption+
qed

end
