(* ===== verification/Pattern_Keys.thy ===== *)
theory Pattern_Keys
  imports Pattern_Exact
begin

text \<open>
  Static facts about patterns (\<open>pattern/pattern.go\<close>): the deterministic key, a JSON text that identifies a
  pattern in digests and alphabets, and the check whether a pattern can match without any occurrence.  Patterns
  with the same key have the same meaning over every causal reader.
\<close>

section \<open>Keys\<close>

definition decimalInt :: "int \<Rightarrow> string" where
  \<comment> \<open>\<open>json.Marshal\<close> of an \<open>int\<close>\<close>
  "decimalInt i = (if i < 0 then CHR ''-'' # decimal (nat (- i)) else decimal (nat i))"

type_synonym bind_descriptor = "string \<times> string \<times> string"

definition jsonBind :: "bind_descriptor \<Rightarrow> string" where
  "jsonBind = (\<lambda>(parameter, placeholder, typ). ''{\"parameter\":'' @ jsonString parameter
     @ '',\"placeholder\":'' @ jsonString placeholder @ '',\"type\":'' @ jsonString typ @ ''}'')"

definition jsonFilter :: "string \<times> canonical_value \<Rightarrow> string" where
  "jsonFilter = (\<lambda>(parameter, value). ''{\"parameter\":'' @ jsonString parameter @ '',\"value\":'' @ jsonValue value @ ''}'')"

definition listPart :: "string \<Rightarrow> ('a \<Rightarrow> string) \<Rightarrow> 'a list \<Rightarrow> string" where
  \<comment> \<open>an array field with \<open>omitempty\<close>\<close>
  "listPart label f xs = (if xs = [] then [] else label @ strings_join '','' (map f xs) @ '']'')"

fun filterDescriptors :: "(string \<times> go_value) list \<Rightarrow> pattern_error + (string \<times> canonical_value) list" where
  "filterDescriptors [] = Inr []"
| "filterDescriptors ((key, value) # rest) =
     (if key = [] then Inl ErrOpaquePattern
      else case CanonicalizeParameters [(''value'', value)] of Inl err \<Rightarrow> Inl ErrOpaquePattern
      | Inr parameters \<Rightarrow> map_sum id ((#) (key, snd (hd parameters))) (filterDescriptors rest))"

fun bindDescriptors :: "(string \<times> placeholder option) list \<Rightarrow> pattern_error + bind_descriptor list" where
  "bindDescriptors [] = Inr []"
| "bindDescriptors ((key, placeholder) # rest) =
     (case placeholder of None \<Rightarrow> Inl ErrOpaquePattern
      | Some ph \<Rightarrow>
          if key = [] \<or> ph_name ph = [] then Inl ErrOpaquePattern
          else if ph_typ ph \<noteq> [] \<and> \<not> IsSupportedPredefinedType (ph_typ ph) then Inl ErrOpaquePattern
          else map_sum id ((#) (key, ph_name ph, ph_typ ph)) (bindDescriptors rest))"

definition sourceDescriptor :: "placeholder option \<Rightarrow> pattern_error + bind_descriptor option" where
  "sourceDescriptor binding = (case binding of None \<Rightarrow> Inr None
     | Some ph \<Rightarrow> if ph_name ph = [] \<or> ph_typ ph = [] \<or> IsSupportedPredefinedType (ph_typ ph) then Inl ErrOpaquePattern
         else Inr (Some ([], ph_name ph, ph_typ ph)))"

definition sourceText :: "bind_descriptor option \<Rightarrow> string" where
  "sourceText descriptor = (case descriptor of None \<Rightarrow> [] | Some d \<Rightarrow> '',\"source_bind\":'' @ jsonBind d)"

definition basicText :: "string \<Rightarrow> string list \<Rightarrow> bind_descriptor option \<Rightarrow> (string \<times> canonical_value) list \<Rightarrow> bind_descriptor list \<Rightarrow> string" where
  "basicText name sources source filters descriptors = ''{\"kind\":'' @ jsonString ''basic'' @ '',\"name\":'' @ jsonString name
     @ listPart '',\"sources\":['' jsonString sources @ sourceText source
     @ listPart '',\"filters\":['' jsonFilter filters @ listPart '',\"binds\":['' jsonBind descriptors @ ''}''"

definition deterministicBasicKey :: "basic_pattern \<Rightarrow> pattern_error + string" where
  "deterministicBasicKey basic =
     (if bp_predicates basic \<noteq> [] then Inl ErrOpaquePattern
      else case filterDescriptors (bp_parameterFilters basic) of Inl err \<Rightarrow> Inl err
      | Inr filters \<Rightarrow> (case sourceDescriptor (bp_sourceBind basic) of Inl err \<Rightarrow> Inl err
        | Inr source \<Rightarrow> (case bindDescriptors (bp_parameterBinds basic) of Inl err \<Rightarrow> Inl err
          | Inr descriptors \<Rightarrow> Inr (basicText (bp_name basic) (sort (bp_sourceFilters basic)) source
              (sort_key fst (sort_key (jsonValue \<circ> snd) filters))
              (sort_key (fst \<circ> snd) (sort_key fst (sort_key (snd \<circ> snd) descriptors)))))))"

definition compositeText :: "string \<Rightarrow> string list \<Rightarrow> string" where
  "compositeText kind operands = ''{\"kind\":'' @ jsonString kind @ '',\"operands\":['' @ strings_join '','' (map jsonString operands) @ '']}''"

definition deterministicCompositeKey :: "string \<Rightarrow> pattern_error + string list \<Rightarrow> bool \<Rightarrow> pattern_error + string" where
  \<comment> \<open>from the keys of the operands\<close>
  "deterministicCompositeKey kind keys commutative = (case keys of Inl err \<Rightarrow> Inl err
     | Inr keys \<Rightarrow> Inr (compositeText kind (if commutative then sort keys else keys)))"

definition both :: "pattern_error + string \<Rightarrow> pattern_error + string \<Rightarrow> pattern_error + string list" where
  "both left right = (case left of Inl err \<Rightarrow> Inl err | Inr k1 \<Rightarrow> (case right of Inl err \<Rightarrow> Inl err | Inr k2 \<Rightarrow> Inr [k1, k2]))"

definition iterationText :: "iteration_relation \<Rightarrow> int \<Rightarrow> int \<Rightarrow> string \<Rightarrow> string" where
  "iterationText relation minimum maximum inner = ''{\"kind\":'' @ jsonString ''iteration'' @ '',\"relation\":'' @ jsonString relation
     @ '',\"minimum\":'' @ decimalInt minimum @ '',\"maximum\":'' @ decimalInt maximum @ '',\"pattern\":'' @ jsonString inner @ ''}''"

definition rangeText :: "string \<Rightarrow> string \<Rightarrow> string \<Rightarrow> i64 \<Rightarrow> i64 \<Rightarrow> iteration_relation \<Rightarrow> string \<Rightarrow> string" where
  "rangeText kind label name first last_value relation inner = ''{\"kind\":'' @ jsonString kind @ '',\"'' @ label @ ''\":'' @ jsonString name
     @ '',\"type\":'' @ jsonString ''Integer'' @ '',\"first\":'' @ FormatInt first @ '',\"last\":'' @ FormatInt last_value
     @ '',\"relation\":'' @ jsonString relation @ '',\"pattern\":'' @ jsonString inner @ ''}''"

fun DeterministicKey :: "pattern \<Rightarrow> pattern_error + string"
  and DeterministicKeys :: "pattern list \<Rightarrow> pattern_error + string list" where
  "DeterministicKey NilPattern = Inr ''{\"kind\":\"basic\",\"name\":\"\"}''"
| "DeterministicKey (BasicPattern basic) = deterministicBasicKey basic"
| "DeterministicKey (SeqPattern p1 p2) =
     deterministicCompositeKey ''follows'' (both (DeterministicKey p1) (DeterministicKey p2)) False"
| "DeterministicKey (ImmSeqPattern p1 p2) =
     deterministicCompositeKey ''immediate-follows'' (both (DeterministicKey p1) (DeterministicKey p2)) False"
| "DeterministicKey (IndependentPattern p1 p2) =
     deterministicCompositeKey ''independent'' (both (DeterministicKey p1) (DeterministicKey p2)) True"
| "DeterministicKey (DisjointPattern p1 p2) =
     deterministicCompositeKey ''disjoint'' (both (DeterministicKey p1) (DeterministicKey p2)) True"
| "DeterministicKey (UnionPattern p1 p2) =
     deterministicCompositeKey ''union'' (both (DeterministicKey p1) (DeterministicKey p2)) True"
| "DeterministicKey (OrPattern subs) = deterministicCompositeKey ''or'' (DeterministicKeys subs) True"
| "DeterministicKey (AndPattern subs) = deterministicCompositeKey ''and'' (DeterministicKeys subs) True"
| "DeterministicKey (IterationPattern p relation minimum maximum) =
     map_sum id (iterationText relation minimum maximum) (DeterministicKey p)"
| "DeterministicKey (NamedRangePattern p iter relation first last_value) =
     (case validateNamedRangeIteration p iter relation first last_value of Some err \<Rightarrow> Inl err
      | None \<Rightarrow> map_sum id (rangeText ''named-integer-range-iteration'' ''iterator'' (ph_name iter) first last_value relation) (DeterministicKey p))"
| "DeterministicKey (UniversalRangePattern p ph relation first last_value) =
     (case validateUniversalRangePattern p ph relation first last_value of Some err \<Rightarrow> Inl err
      | None \<Rightarrow> map_sum id (rangeText ''universal-integer-range'' ''placeholder'' (ph_name ph) first last_value relation) (DeterministicKey p))"
| "DeterministicKey _ = Inl ErrOpaquePattern"
| "DeterministicKeys [] = Inr []"
| "DeterministicKeys (sub # subs) = (case DeterministicKey sub of Inl err \<Rightarrow> Inl err
     | Inr k \<Rightarrow> map_sum id ((#) k) (DeterministicKeys subs))"

section \<open>Matches without occurrences\<close>

definition bothPatternsCanMatchEmpty :: "pattern_error + bool \<Rightarrow> pattern_error + bool \<Rightarrow> pattern_error + bool" where
  \<comment> \<open>from the answers for the operands\<close>
  "bothPatternsCanMatchEmpty left right = (case left of Inl err \<Rightarrow> Inl err
     | Inr possible \<Rightarrow> if \<not> possible then Inr False
         else case right of Inl err \<Rightarrow> Inl err | Inr possible \<Rightarrow> if \<not> possible then Inr False else Inr True)"

fun CanMatchEmpty :: "pattern \<Rightarrow> pattern_error + bool"
  and allPatternsCanMatchEmpty :: "pattern list \<Rightarrow> pattern_error + bool"
  and anyPatternCanMatchEmpty :: "pattern list \<Rightarrow> pattern_error + bool" where
  "CanMatchEmpty NilPattern = Inr False"
| "CanMatchEmpty (BasicPattern basic) = Inr False"
| "CanMatchEmpty (SeqPattern p1 p2) = bothPatternsCanMatchEmpty (CanMatchEmpty p1) (CanMatchEmpty p2)"
| "CanMatchEmpty (ImmSeqPattern p1 p2) = bothPatternsCanMatchEmpty (CanMatchEmpty p1) (CanMatchEmpty p2)"
| "CanMatchEmpty (IndependentPattern p1 p2) = bothPatternsCanMatchEmpty (CanMatchEmpty p1) (CanMatchEmpty p2)"
| "CanMatchEmpty (DisjointPattern p1 p2) = bothPatternsCanMatchEmpty (CanMatchEmpty p1) (CanMatchEmpty p2)"
| "CanMatchEmpty (UnionPattern p1 p2) = bothPatternsCanMatchEmpty (CanMatchEmpty p1) (CanMatchEmpty p2)"
| "CanMatchEmpty (AndPattern subs) = allPatternsCanMatchEmpty subs"
| "CanMatchEmpty (OrPattern subs) = anyPatternCanMatchEmpty subs"
| "CanMatchEmpty (IterationPattern p relation minimum maximum) = (if minimum = 0 then Inr True else CanMatchEmpty p)"
| "CanMatchEmpty (NamedRangePattern p iter relation first last_value) =
     (case namedRangeCardinality first last_value of None \<Rightarrow> Inl ErrInvalidNamedIteration
      | Some cardinality \<Rightarrow> if cardinality = 0 then Inr True else CanMatchEmpty p)"
| "CanMatchEmpty (UniversalRangePattern p ph relation first last_value) =
     (case DeterministicKey (UniversalRangePattern p ph relation first last_value) of Inl err \<Rightarrow> Inl err
      | Inr k \<Rightarrow> CanMatchEmpty p)"
| "CanMatchEmpty _ = Inl ErrOpaquePattern"
| "allPatternsCanMatchEmpty [] = Inr True"
| "allPatternsCanMatchEmpty (p # ps) = (case CanMatchEmpty p of Inl err \<Rightarrow> Inl err
     | Inr possible \<Rightarrow> if \<not> possible then Inr False else allPatternsCanMatchEmpty ps)"
| "anyPatternCanMatchEmpty [] = Inr False"
| "anyPatternCanMatchEmpty (p # ps) = (case CanMatchEmpty p of Inl err \<Rightarrow> Inl err
     | Inr possible \<Rightarrow> if possible then Inr True else anyPatternCanMatchEmpty ps)"

text \<open>Every form of combination yields an empty match only from empty matches.\<close>

definition no_empty :: "match_meaning set \<Rightarrow> bool" where
  "no_empty A \<longleftrightarrow> (\<forall>m. ({}, m) \<notin> A)"

lemma no_empty_simps [simp]: "no_empty {}" "no_empty (A \<union> B) \<longleftrightarrow> no_empty A \<and> no_empty B"
  by (auto simp: no_empty_def)

lemma no_empty_joined: "no_empty A \<or> no_empty B \<Longrightarrow> no_empty (joined R A B)"
  unfolding no_empty_def joined_UN by (auto split: if_splits)

lemma no_empty_powers: "no_empty A \<Longrightarrow> no_empty (powers r relation A k)"
  by (induction k) (simp_all add: combined_def no_empty_joined)

lemma no_empty_iterated: "no_empty A \<Longrightarrow> minimum \<noteq> 0 \<Longrightarrow> no_empty (iterated r relation minimum maximum A)"
  using no_empty_powers [of A r relation] unfolding no_empty_def iterated_def by simp

lemma no_empty_ranged: "no_empty A \<Longrightarrow> no_empty (ranged r name relation vals A)"
proof -
  assume A: "no_empty A"
  then have inst: "no_empty (instances name A v)" for v by (auto simp: no_empty_def instances_def)
  have "no_empty (foldl (\<lambda>X v. combined r relation X (instances name A v)) B vs)" if "no_empty B" for B vs
    using that by (induction vs arbitrary: B) (simp_all add: combined_def no_empty_joined inst)
  then show ?thesis by (simp add: ranged_def inst split: list.splits)
qed

lemma no_empty_basic: "no_empty (basic_meaning r basic)"
  by (simp add: no_empty_def basic_meaning_def)

lemma no_empty_every: "no_empty A \<or> list_ex (\<lambda>p. no_empty (meaning r p)) ps \<Longrightarrow> no_empty (every_meaning r A ps)"
  by (induction ps arbitrary: A) (auto simp: no_empty_joined)

lemma no_empty_any: "no_empty (any_meaning r ps) \<longleftrightarrow> list_all (\<lambda>p. no_empty (meaning r p)) ps"
  by (induction ps) simp_all

lemma CanMatchEmpty_sound:
  "CanMatchEmpty p = Inr False \<Longrightarrow> no_empty (meaning r p)"
  "allPatternsCanMatchEmpty ps = Inr False \<Longrightarrow> list_ex (\<lambda>p. no_empty (meaning r p)) ps"
  "anyPatternCanMatchEmpty qs = Inr False \<Longrightarrow> list_all (\<lambda>p. no_empty (meaning r p)) qs"
proof (induction p and ps and qs rule: CanMatchEmpty_allPatternsCanMatchEmpty_anyPatternCanMatchEmpty.induct)
  case (8 subs)
  then have "list_ex (\<lambda>p. no_empty (meaning r p)) subs" by simp
  then show ?case by (cases subs) (auto intro!: no_empty_every)
next
  case (11 p iter relation first last_value)
  then show ?case by (auto simp: no_empty_ranged split: option.splits if_splits)
qed (auto simp: no_empty_basic no_empty_joined no_empty_iterated no_empty_ranged no_empty_any bothPatternsCanMatchEmpty_def
    split: sum.splits if_splits)

section \<open>Reading keys back\<close>

lemma ValidString_append: "ValidString s \<Longrightarrow> ValidString t \<Longrightarrow> ValidString (s @ t)"
proof -
  assume "ValidString s" "ValidString t"
  then obtain a b where "\<forall>r \<in> set a. scalar_value r" "s = encodeRunes a" "\<forall>r \<in> set b. scalar_value r" "t = encodeRunes b"
    unfolding ValidString_iff by blast
  then have "(\<forall>r \<in> set (a @ b). scalar_value r) \<and> s @ t = encodeRunes (a @ b)" by (auto simp: encodeRunes_def)
  then show ?thesis unfolding ValidString_iff by blast
qed

lemma jsonHex_valid: "r < 65536 \<Longrightarrow> ValidString (jsonHex r)"
proof (rule ascii_valid)
  assume "r < 65536"
  then have "r div 4096 < 16" by linarith
  then show "list_all (\<lambda>c. byte c < 128) (jsonHex r)" by (simp add: jsonHex_def hexDigit_ascii)
qed

lemma encodeRune_valid: "scalar_value r \<Longrightarrow> ValidString (encodeRune r)"
  unfolding ValidString_iff by (intro exI [of _ "[r]"]) simp

lemma jsonUnit_valid: "(\<And>r. u = Some r \<Longrightarrow> scalar_value r) \<Longrightarrow> ValidString (jsonUnit u)"
  by (auto simp: jsonUnit_def jsonRune_def jsonHex_valid encodeRune_valid ascii_valid split: option.splits)

lemma jsonString_valid: "ValidString (jsonString s)"
proof -
  have "ValidString (concat (map jsonUnit us))" if "\<And>r. Some r \<in> set us \<Longrightarrow> scalar_value r" for us
    using that
  proof (induction us)
    case (Cons u us)
    have "ValidString (jsonUnit u)" by (rule jsonUnit_valid) (use Cons.prems in simp)
    moreover have "ValidString (concat (map jsonUnit us))" by (rule Cons.IH) (use Cons.prems in simp)
    ultimately show ?case by (simp add: ValidString_append)
  qed (simp add: ascii_valid)
  from this [of "jsonUnits s"] jsonUnits_scalar have "ValidString (concat (map jsonUnit (jsonUnits s)))" by blast
  then show ?thesis
    unfolding jsonString_def by (intro ValidString_append) (simp_all add: ascii_valid)
qed

lemma join_valid: "(\<And>x. x \<in> set xs \<Longrightarrow> ValidString x) \<Longrightarrow> ValidString (strings_join '','' xs)"
proof (induction xs)
  case (Cons x xs)
  then have "ValidString (strings_join '','' xs)" "ValidString x" by simp_all
  then show ?case
    using join_Cons [of "'',''" x xs "[]"] ValidString_append [of "'',''" "strings_join '','' xs"] by (simp add: ValidString_append ascii_valid)
qed (simp add: strings_join_def ascii_valid)

lemma listPart_valid:
  assumes "ValidString label" "\<And>x. x \<in> set xs \<Longrightarrow> ValidString (f x)"
  shows "ValidString (listPart label f xs)"
proof -
  have "ValidString (strings_join '','' (map f xs))" by (rule join_valid) (use assms(2) in auto)
  then show ?thesis by (simp add: listPart_def ValidString_append assms(1) ascii_valid)
qed

text \<open>An optional array is present on both sides or on neither, when what follows starts differently.\<close>

lemma listPart_prefix:
  assumes eq: "listPart label f xs @ u = listPart label f ys @ v"
    and inj: "\<And>x y s t. x \<in> set xs \<Longrightarrow> y \<in> set ys \<Longrightarrow> f x @ s = f y @ t \<Longrightarrow> x = y \<and> s = t"
    and start: "\<And>x. x \<in> set xs \<union> set ys \<Longrightarrow> f x \<noteq> [] \<and> hd (f x) \<noteq> CHR '']''"
    and other: "\<And>w. u \<noteq> label @ w" "\<And>w. v \<noteq> label @ w"
  shows "xs = ys \<and> u = v"
proof (cases "xs = []")
  case True
  have "ys = []"
  proof (rule ccontr)
    assume "ys \<noteq> []"
    then have "u = label @ (strings_join '','' (map f ys) @ '']'' @ v)" using eq True by (simp add: listPart_def)
    then show False by (rule notE [OF other(1)])
  qed
  then show ?thesis using eq True by (simp add: listPart_def)
next
  case False
  have "ys \<noteq> []"
  proof
    assume "ys = []"
    then have "v = label @ (strings_join '','' (map f xs) @ '']'' @ u)" using eq False by (simp add: listPart_def)
    then show False by (rule notE [OF other(2)])
  qed
  with eq False have e: "strings_join '','' (map f xs) @ '']'' @ u = strings_join '','' (map f ys) @ '']'' @ v"
    by (simp add: listPart_def)
  show ?thesis
  proof (rule join_prefix [where f = f, OF _ _ e])
    show "x = y \<and> s = t" if "x \<in> set xs" "y \<in> set ys" "f x @ s = f y @ t" for x y s t by (rule inj [OF that])
    show "f x \<noteq> [] \<and> hd (f x) \<noteq> CHR '']''" if "x \<in> set xs \<union> set ys" for x by (rule start [OF that])
  qed
qed

lemma digits_prefix:
  assumes "\<not> is_digit c" "decimal n @ c # s = decimal m @ c # t"
  shows "n = m \<and> s = t"
proof -
  have cut: "takeWhile is_digit (decimal k @ c # u) = decimal k" for k u
    using decimal_all_digits [of k] assms(1) by (simp add: takeWhile_append2)
  have "decimal n = decimal m" using arg_cong [OF assms(2), of "takeWhile is_digit"] by (simp only: cut)
  then have "n = m" by (rule decimal_inj)
  then show ?thesis using assms(2) by simp
qed

lemma decimalInt_prefix:
  assumes "\<not> is_digit c" "decimalInt i @ c # s = decimalInt j @ c # t"
  shows "i = j \<and> s = t"
proof -
  have sign: "decimal n @ w \<noteq> CHR ''-'' # x" for n w x using decimal_hd [of n] by (auto simp: is_digit_def)
  show ?thesis
  proof (cases "i < 0"; cases "j < 0")
    assume n: "i < 0" "j < 0"
    then have "decimal (nat (- i)) @ c # s = decimal (nat (- j)) @ c # t" using assms(2) by (simp add: decimalInt_def)
    from digits_prefix [OF assms(1) this] n show ?thesis by linarith
  next
    assume n: "\<not> i < 0" "\<not> j < 0"
    then have "decimal (nat i) @ c # s = decimal (nat j) @ c # t" using assms(2) by (simp add: decimalInt_def)
    from digits_prefix [OF assms(1) this] n show ?thesis by linarith
  qed (use assms(2) sign sign [symmetric] in \<open>simp_all add: decimalInt_def\<close>)
qed

lemma FormatInt_decimal: "FormatInt x = decimalInt (sint x)"
  by (simp add: FormatInt_def decimalInt_def)

lemma FormatInt_prefix: "\<not> is_digit c \<Longrightarrow> FormatInt x @ c # s = FormatInt y @ c # t \<Longrightarrow> x = y \<and> s = t"
  unfolding FormatInt_decimal using decimalInt_prefix [of c "sint x" s "sint y" t] signed_word_eqI [of x y] by blast

lemma decimalInt_valid: "ValidString (decimalInt i)"
  by (rule ascii_valid) (simp add: decimalInt_def decimal_ascii)

section \<open>Keys of basic patterns\<close>

definition valid_bind :: "bind_descriptor \<Rightarrow> bool" where
  "valid_bind = (\<lambda>(parameter, placeholder, typ). ValidString parameter \<and> ValidString placeholder \<and> ValidString typ)"

lemma jsonBind_prefix:
  assumes "valid_bind d" "jsonBind c @ s = jsonBind d @ t"
  shows "c = d \<and> s = t"
proof -
  obtain p n ty p' n' ty' where cd: "c = (p, n, ty)" "d = (p', n', ty')" by (cases c; cases d)
  have v: "ValidString p'" "ValidString n'" "ValidString ty'" using assms(1) by (simp_all add: cd valid_bind_def)
  have "jsonString p @ '',\"placeholder\":'' @ jsonString n @ '',\"type\":'' @ jsonString ty @ ''}'' @ s
      = jsonString p' @ '',\"placeholder\":'' @ jsonString n' @ '',\"type\":'' @ jsonString ty' @ ''}'' @ t"
    using assms(2) by (simp add: cd jsonBind_def)
  then have "p = p'" "jsonString n @ '',\"type\":'' @ jsonString ty @ ''}'' @ s = jsonString n' @ '',\"type\":'' @ jsonString ty' @ ''}'' @ t"
    unfolding jsonString_prefix [OF v(1)] by simp_all
  moreover from this(2) have "n = n'" "jsonString ty @ ''}'' @ s = jsonString ty' @ ''}'' @ t"
    unfolding jsonString_prefix [OF v(2)] by simp_all
  moreover from this(2) have "ty = ty'" "s = t" unfolding jsonString_prefix [OF v(3)] by simp_all
  ultimately show ?thesis by (simp add: cd)
qed

lemma jsonFilter_prefix:
  assumes "ValidString (fst d)" "valid_texts (snd d)" "jsonFilter c @ s = jsonFilter d @ t"
  shows "c = d \<and> s = t"
proof -
  obtain p v q w where cd: "c = (p, v)" "d = (q, w)" by (cases c; cases d)
  have "jsonString p @ '',\"value\":'' @ jsonValue v @ ''}'' @ s = jsonString q @ '',\"value\":'' @ jsonValue w @ ''}'' @ t"
    using assms(3) by (simp add: cd jsonFilter_def)
  then have p: "p = q" and r: "jsonValue v @ ''}'' @ s = jsonValue w @ ''}'' @ t"
    using jsonString_prefix [of q] assms(1) by (simp_all add: cd)
  have "valid_texts w" using assms(2) by (simp add: cd)
  from json_prefix(1) [OF this r] p show ?thesis by (simp add: cd)
qed

lemma jsonBind_start [simp]: "jsonBind d \<noteq> []" "hd (jsonBind d) = CHR ''{''"
  by (simp_all add: jsonBind_def case_prod_beta)

lemma jsonFilter_start [simp]: "jsonFilter d \<noteq> []" "hd (jsonFilter d) = CHR ''{''"
  by (simp_all add: jsonFilter_def case_prod_beta)

lemma jsonString_start [simp]: "jsonString x \<noteq> []" "hd (jsonString x) = CHR 0x22"
  by (simp_all add: jsonString_def)

lemma sourceText_prefix:
  assumes "sourceText a @ u = sourceText b @ v" "\<And>d. b = Some d \<Longrightarrow> valid_bind d"
    "\<And>w. u \<noteq> '',\"source_bind\":'' @ w" "\<And>w. v \<noteq> '',\"source_bind\":'' @ w"
  shows "a = b \<and> u = v"
proof (cases a; cases b)
  fix c d
  assume ab: "a = Some c" "b = Some d"
  then have "jsonBind c @ u = jsonBind d @ v" using assms(1) by (simp add: sourceText_def)
  from jsonBind_prefix [OF assms(2) [OF ab(2)] this] ab show ?thesis by simp
next
  fix d
  assume ab: "a = None" "b = Some d"
  then have "u = '',\"source_bind\":'' @ (jsonBind d @ v)" using assms(1) by (simp add: sourceText_def)
  then show ?thesis by (rule notE [OF assms(3)])
next
  fix c
  assume ab: "a = Some c" "b = None"
  then have "v = '',\"source_bind\":'' @ (jsonBind c @ u)" using assms(1) by (simp add: sourceText_def)
  then show ?thesis by (rule notE [OF assms(4)])
next
  assume "a = None" "b = None"
  then show ?thesis using assms(1) by (simp add: sourceText_def)
qed

lemma basicText_inj:
  assumes eq: "basicText n1 ss1 b1 fs1 ds1 = basicText n2 ss2 b2 fs2 ds2"
    and v: "ValidString n2" "\<And>x. x \<in> set ss2 \<Longrightarrow> ValidString x" "\<And>d. b2 = Some d \<Longrightarrow> valid_bind d"
      "\<And>d. d \<in> set fs2 \<Longrightarrow> ValidString (fst d) \<and> valid_texts (snd d)" "\<And>d. d \<in> set ds2 \<Longrightarrow> valid_bind d"
  shows "n1 = n2 \<and> ss1 = ss2 \<and> b1 = b2 \<and> fs1 = fs2 \<and> ds1 = ds2"
proof -
  let ?d = "\<lambda>ds. listPart '',\"binds\":['' jsonBind ds @ ''}''"
  let ?f = "\<lambda>fs ds. listPart '',\"filters\":['' jsonFilter fs @ ?d ds"
  let ?b = "\<lambda>b fs ds. sourceText b @ ?f fs ds"
  have "jsonString n1 @ listPart '',\"sources\":['' jsonString ss1 @ ?b b1 fs1 ds1
      = jsonString n2 @ listPart '',\"sources\":['' jsonString ss2 @ ?b b2 fs2 ds2"
    using eq by (simp add: basicText_def)
  then have n: "n1 = n2" and e1: "listPart '',\"sources\":['' jsonString ss1 @ ?b b1 fs1 ds1 = listPart '',\"sources\":['' jsonString ss2 @ ?b b2 fs2 ds2"
    unfolding jsonString_prefix [OF v(1)] by simp_all
  have "ss1 = ss2 \<and> ?b b1 fs1 ds1 = ?b b2 fs2 ds2"
  proof (rule listPart_prefix [OF e1])
    show "x = y \<and> s = t" if "x \<in> set ss1" "y \<in> set ss2" "jsonString x @ s = jsonString y @ t" for x y s t
      using that(3) jsonString_prefix [OF v(2) [OF that(2)]] by simp
  qed (auto simp: listPart_def sourceText_def split: option.splits)
  then have ss: "ss1 = ss2" and e2: "?b b1 fs1 ds1 = ?b b2 fs2 ds2" by simp_all
  have "b1 = b2 \<and> ?f fs1 ds1 = ?f fs2 ds2"
    by (rule sourceText_prefix [OF e2 v(3)]) (auto simp: listPart_def)
  then have b: "b1 = b2" and e3: "?f fs1 ds1 = ?f fs2 ds2" by simp_all
  have "fs1 = fs2 \<and> ?d ds1 = ?d ds2"
  proof (rule listPart_prefix [OF e3])
    show "x = y \<and> s = t" if "x \<in> set fs1" "y \<in> set fs2" "jsonFilter x @ s = jsonFilter y @ t" for x y s t
      using that jsonFilter_prefix v(4) by blast
  qed (auto simp: listPart_def)
  then have f: "fs1 = fs2" and e4: "?d ds1 = ?d ds2" by simp_all
  have "ds1 = ds2 \<and> ''}'' = ''}''"
  proof (rule listPart_prefix [OF e4])
    show "x = y \<and> s = t" if "x \<in> set ds1" "y \<in> set ds2" "jsonBind x @ s = jsonBind y @ t" for x y s t
      using that jsonBind_prefix v(5) by blast
  qed auto
  then show ?thesis using n ss b f by simp
qed

definition basic_texts :: "basic_pattern \<Rightarrow> bool" where
  \<comment> \<open>every string of the pattern is valid UTF-8\<close>
  "basic_texts basic \<longleftrightarrow> ValidString (bp_name basic) \<and> list_all ValidString (bp_sourceFilters basic)
   \<and> list_all (ValidString \<circ> fst) (bp_parameterFilters basic) \<and> list_all (ValidString \<circ> fst) (bp_parameterBinds basic)
   \<and> list_all (\<lambda>ph. ValidString (ph_name ph) \<and> ValidString (ph_typ ph)) (basicPlaceholders basic)"

lemma filter_descriptor:
  assumes "CanonicalizeParameters [(''value'', v)] = Inr ps"
  shows "valid_texts (snd (hd ps))" "CanonicalValuesEqual x v = Inr True \<longleftrightarrow> toCanonicalValue x = Inr (snd (hd ps))"
proof -
  obtain w c where w: "canonicalValueCopy v = Inr w" "toCanonicalValue w = Inr c" "ps = [(''value'', c)]"
    using assms by (auto simp: CanonicalizeParameters_def sum_map_Inr split: sum.splits if_splits)
  have ww: "canonicalValueCopy w = Inr w" by (rule canonicalValueCopy_idem(1) [OF w(1)])
  show "valid_texts (snd (hd ps))" using to_valid(1) [OF ww w(2)] w(3) by simp
  show "CanonicalValuesEqual x v = Inr True \<longleftrightarrow> toCanonicalValue x = Inr (snd (hd ps))"
  proof
    assume "CanonicalValuesEqual x v = Inr True"
    then have "canonicalValueCopy x = Inr w" using w(1) by (auto simp: CanonicalValuesEqual_def split: sum.splits)
    then show "toCanonicalValue x = Inr (snd (hd ps))" using to_copy w by simp
  next
    assume x: "toCanonicalValue x = Inr (snd (hd ps))"
    then obtain y where y: "canonicalValueCopy x = Inr y" using to_Inr_copy by blast
    have "toCanonicalValue y = Inr c" using to_copy [OF y] x w(3) by simp
    then have "y = w" using to_inj(1) [OF canonicalValueCopy_idem(1) [OF y] ww] w(2) by blast
    then show "CanonicalValuesEqual x v = Inr True" using y w(1) by (simp add: CanonicalValuesEqual_def)
  qed
qed

definition holds_filter :: "event \<Rightarrow> string \<times> canonical_value \<Rightarrow> bool" where
  "holds_filter e = (\<lambda>(key, c). snd (Param e key) \<and> toCanonicalValue (fst (Param e key)) = Inr c)"

lemma filterDescriptors_meaning:
  "filterDescriptors fs = Inr ds \<Longrightarrow> list_all (\<lambda>(key, filter_value). case Param e key of (value, ok) \<Rightarrow>
     ok \<and> CanonicalValuesEqual value filter_value = Inr True) fs \<longleftrightarrow> (\<forall>d \<in> set ds. holds_filter e d)"
proof (induction fs arbitrary: ds rule: filterDescriptors.induct)
  case (2 key v rest)
  from "2.prems" obtain ps ds' where ps: "key \<noteq> []" "CanonicalizeParameters [(''value'', v)] = Inr ps"
      "filterDescriptors rest = Inr ds'" "ds = (key, snd (hd ps)) # ds'"
    by (auto simp: sum_map_Inr split: if_splits sum.splits)
  show ?case using "2.IH" [OF ps(1,2,3)] filter_descriptor(2) [OF ps(2)]
    by (simp add: ps(4) holds_filter_def case_prod_beta)
qed simp

lemma filterDescriptors_valid:
  "filterDescriptors fs = Inr ds \<Longrightarrow> list_all (ValidString \<circ> fst) fs \<Longrightarrow> d \<in> set ds \<Longrightarrow> ValidString (fst d) \<and> valid_texts (snd d)"
proof (induction fs arbitrary: ds rule: filterDescriptors.induct)
  case (2 key v rest)
  from "2.prems"(1) obtain ps ds' where ps: "key \<noteq> []" "CanonicalizeParameters [(''value'', v)] = Inr ps"
      "filterDescriptors rest = Inr ds'" "ds = (key, snd (hd ps)) # ds'"
    by (auto simp: sum_map_Inr split: if_splits sum.splits)
  show ?case using "2.IH" [OF ps(1,2,3)] "2.prems"(2,3) filter_descriptor(1) [OF ps(2)] by (auto simp: ps(4))
qed simp

lemma bindDescriptors_set:
  "bindDescriptors bs = Inr ds \<Longrightarrow> (key, n, t) \<in> set ds \<longleftrightarrow> (key, Some \<lparr>ph_name = n, ph_typ = t\<rparr>) \<in> set bs"
proof (induction bs arbitrary: ds rule: bindDescriptors.induct)
  case (2 key' placeholder rest)
  from "2.prems" obtain ph ds' where ph: "placeholder = Some ph" "\<not> (key' = [] \<or> ph_name ph = [])"
      "\<not> (ph_typ ph \<noteq> [] \<and> \<not> IsSupportedPredefinedType (ph_typ ph))"
      "bindDescriptors rest = Inr ds'" "ds = (key', ph_name ph, ph_typ ph) # ds'"
    by (auto simp: sum_map_Inr split: if_splits option.splits)
  have "(n = ph_name ph \<and> t = ph_typ ph) \<longleftrightarrow> \<lparr>ph_name = n, ph_typ = t\<rparr> = ph" by (cases ph) auto
  then show ?case using "2.IH" [OF ph(1,2,3,4)] by (auto simp: ph(1,5))
qed simp

lemma bindDescriptors_meaning:
  "bindDescriptors bs = Inr ds \<Longrightarrow> (key, Some ph) \<in> set bs \<longleftrightarrow> (key, ph_name ph, ph_typ ph) \<in> set ds"
  using bindDescriptors_set [of bs ds key "ph_name ph" "ph_typ ph"] by (cases ph) simp

lemma bindDescriptors_names:
  assumes "bindDescriptors bs = Inr ds"
  shows "ph_name ` set (List.map_filter snd bs) = (fst \<circ> snd) ` set ds"
proof (intro set_eqI iffI)
  fix n
  assume "n \<in> ph_name ` set (List.map_filter snd bs)"
  then obtain key ph where "(key, Some ph) \<in> set bs" "n = ph_name ph" by (force simp: mem_map_filter)
  then have "(key, n, ph_typ ph) \<in> set ds" using bindDescriptors_meaning [OF assms] by simp
  then show "n \<in> (fst \<circ> snd) ` set ds" by (rule image_eqI [rotated]) simp
next
  fix n
  assume "n \<in> (fst \<circ> snd) ` set ds"
  then obtain key t where "(key, n, t) \<in> set ds" by auto
  then have "(key, Some \<lparr>ph_name = n, ph_typ = t\<rparr>) \<in> set bs" using bindDescriptors_set [OF assms] by simp
  then have "\<lparr>ph_name = n, ph_typ = t\<rparr> \<in> set (List.map_filter snd bs)" by (force simp: mem_map_filter)
  then show "n \<in> ph_name ` set (List.map_filter snd bs)" by (rule image_eqI [rotated]) simp
qed

definition binds_descriptors :: "poset_reader \<Rightarrow> event \<Rightarrow> bind_descriptor option \<Rightarrow> bind_descriptor set \<Rightarrow> (string \<rightharpoonup> go_value) \<Rightarrow> bool" where
  "binds_descriptors r e source ds m \<longleftrightarrow> dom m = (case source of None \<Rightarrow> {} | Some d \<Rightarrow> {fst (snd d)}) \<union> (fst \<circ> snd) ` ds
   \<and> (\<forall>p n t. source = Some (p, n, t) \<longrightarrow> (\<exists>resolver identity. rd_ModuleValueForSource r = Some resolver
        \<and> resolver (ev_source e) t = Some identity \<and> identity \<noteq> [] \<and> m n = Some (VModule identity)))
   \<and> (\<forall>key n t. (key, n, t) \<in> ds \<longrightarrow> (\<exists>v w. params_get (ev_params e) key = Some v
        \<and> (t = [] \<or> CanonicalValueMatchesPredefinedType v t) \<and> canonicalValueCopy v = Inr w \<and> m n = Some w))"

lemma binds_by_descriptors:
  assumes "sourceDescriptor (bp_sourceBind basic) = Inr source" "bindDescriptors (bp_parameterBinds basic) = Inr ds"
  shows "binds r basic e m \<longleftrightarrow> binds_descriptors r e source (set ds) m"
proof -
  have names: "ph_name ` set (basicPlaceholders basic) = (case source of None \<Rightarrow> {} | Some d \<Rightarrow> {fst (snd d)}) \<union> (fst \<circ> snd) ` set ds"
    using assms(1) bindDescriptors_names [OF assms(2)]
    by (auto simp: basicPlaceholders_def sourceDescriptor_def split: option.splits if_splits)
  have source: "(\<forall>ph. bp_sourceBind basic = Some ph \<longrightarrow> P (ph_typ ph) (ph_name ph)) \<longleftrightarrow> (\<forall>p n t. source = Some (p, n, t) \<longrightarrow> P t n)" for P
    using assms(1) by (auto simp: sourceDescriptor_def split: option.splits if_splits)
  have params: "(\<forall>key ph. (key, Some ph) \<in> set (bp_parameterBinds basic) \<longrightarrow> Q key (ph_typ ph) (ph_name ph))
      \<longleftrightarrow> (\<forall>key n t. (key, n, t) \<in> set ds \<longrightarrow> Q key t n)" for Q
    using bindDescriptors_meaning [OF assms(2)] bindDescriptors_set [OF assms(2)] by (metis placeholder.select_convs(1,2))
  show ?thesis
    unfolding binds_def binds_descriptors_def names
      source [of "\<lambda>t n. \<exists>resolver identity. rd_ModuleValueForSource r = Some resolver
        \<and> resolver (ev_source e) t = Some identity \<and> identity \<noteq> [] \<and> m n = Some (VModule identity)"]
      params [of "\<lambda>key t n. \<exists>v w. params_get (ev_params e) key = Some v
        \<and> (t = [] \<or> CanonicalValueMatchesPredefinedType v t) \<and> canonicalValueCopy v = Inr w \<and> m n = Some w"] ..
qed

definition described :: "poset_reader \<Rightarrow> string \<Rightarrow> string set \<Rightarrow> bind_descriptor option \<Rightarrow> (string \<times> canonical_value) set
    \<Rightarrow> bind_descriptor set \<Rightarrow> match_meaning set" where
  "described r name sources source filters ds = {({ev_id e}, m) | e m. e \<in> set (if name = [] then rd_All r else rd_ByName r name)
     \<and> (\<forall>s \<in> sources. ev_source e = s) \<and> (\<forall>d \<in> filters. holds_filter e d) \<and> binds_descriptors r e source ds m}"

lemma basic_key_parts:
  assumes "deterministicBasicKey basic = Inr k"
  obtains filters source ds where "bp_predicates basic = []" "filterDescriptors (bp_parameterFilters basic) = Inr filters"
    "sourceDescriptor (bp_sourceBind basic) = Inr source" "bindDescriptors (bp_parameterBinds basic) = Inr ds"
    "k = basicText (bp_name basic) (sort (bp_sourceFilters basic)) source
              (sort_key fst (sort_key (jsonValue \<circ> snd) filters))
              (sort_key (fst \<circ> snd) (sort_key fst (sort_key (snd \<circ> snd) ds)))"
    "basic_meaning r basic = described r (bp_name basic) (set (bp_sourceFilters basic)) source (set filters) (set ds)"
proof -
  from assms obtain filters source ds where p: "bp_predicates basic = []" "filterDescriptors (bp_parameterFilters basic) = Inr filters"
    "sourceDescriptor (bp_sourceBind basic) = Inr source" "bindDescriptors (bp_parameterBinds basic) = Inr ds"
    "k = basicText (bp_name basic) (sort (bp_sourceFilters basic)) source
              (sort_key fst (sort_key (jsonValue \<circ> snd) filters))
              (sort_key (fst \<circ> snd) (sort_key fst (sort_key (snd \<circ> snd) ds)))"
    unfolding deterministicBasicKey_def by (auto split: if_splits sum.splits)
  have m: "basicMatches basic e \<longleftrightarrow> (\<forall>s \<in> set (bp_sourceFilters basic). ev_source e = s) \<and> (\<forall>d \<in> set filters. holds_filter e d)" for e
    unfolding basicMatches_def filterDescriptors_meaning [OF p(2)] by (auto simp: p(1) list_all_iff)
  have "basic_meaning r basic = described r (bp_name basic) (set (bp_sourceFilters basic)) source (set filters) (set ds)"
    unfolding basic_meaning_def described_def m binds_by_descriptors [OF p(3,4)] basicCandidates_def by simp
  with p show thesis by (rule that)
qed

lemma basic_key_meaning:
  assumes "deterministicBasicKey b = Inr k" "deterministicBasicKey c = Inr k" "basic_texts c"
  shows "basic_meaning r b = basic_meaning r c"
proof -
  from basic_key_parts [OF assms(1)] obtain fs1 s1 ds1 where b: "k = basicText (bp_name b) (sort (bp_sourceFilters b)) s1
        (sort_key fst (sort_key (jsonValue \<circ> snd) fs1)) (sort_key (fst \<circ> snd) (sort_key fst (sort_key (snd \<circ> snd) ds1)))"
      "basic_meaning r b = described r (bp_name b) (set (bp_sourceFilters b)) s1 (set fs1) (set ds1)" by metis
  from basic_key_parts [OF assms(2)] obtain fs2 s2 ds2 where c: "filterDescriptors (bp_parameterFilters c) = Inr fs2"
      "sourceDescriptor (bp_sourceBind c) = Inr s2" "bindDescriptors (bp_parameterBinds c) = Inr ds2"
      "k = basicText (bp_name c) (sort (bp_sourceFilters c)) s2
        (sort_key fst (sort_key (jsonValue \<circ> snd) fs2)) (sort_key (fst \<circ> snd) (sort_key fst (sort_key (snd \<circ> snd) ds2)))"
      "basic_meaning r c = described r (bp_name c) (set (bp_sourceFilters c)) s2 (set fs2) (set ds2)" by metis
  have empty_valid: "ValidString []" by (rule ascii_valid) simp
  have source: "valid_bind d" if "s2 = Some d" for d
    using that c(2) assms(3) empty_valid
    by (auto simp: sourceDescriptor_def basic_texts_def basicPlaceholders_def valid_bind_def split: option.splits if_splits)
  have ds: "valid_bind d" if d: "d \<in> set ds2" for d
  proof -
    obtain key n t where e: "d = (key, n, t)" by (cases d)
    have mem: "(key, Some \<lparr>ph_name = n, ph_typ = t\<rparr>) \<in> set (bp_parameterBinds c)" using bindDescriptors_set [OF c(3)] d e by simp
    then have "\<lparr>ph_name = n, ph_typ = t\<rparr> \<in> set (basicPlaceholders c)" by (force simp: basicPlaceholders_def mem_map_filter)
    with mem show ?thesis using assms(3) by (auto simp: basic_texts_def list_all_iff valid_bind_def e)
  qed
  have filters: "ValidString (fst d) \<and> valid_texts (snd d)" if "d \<in> set fs2" for d
    using filterDescriptors_valid [OF c(1) _ that] assms(3) by (simp add: basic_texts_def)
  have "bp_name b = bp_name c \<and> sort (bp_sourceFilters b) = sort (bp_sourceFilters c) \<and> s1 = s2
      \<and> sort_key fst (sort_key (jsonValue \<circ> snd) fs1) = sort_key fst (sort_key (jsonValue \<circ> snd) fs2)
      \<and> sort_key (fst \<circ> snd) (sort_key fst (sort_key (snd \<circ> snd) ds1)) = sort_key (fst \<circ> snd) (sort_key fst (sort_key (snd \<circ> snd) ds2))"
  proof (rule basicText_inj)
    show "ValidString (bp_name c)" using assms(3) by (simp add: basic_texts_def)
    show "ValidString x" if "x \<in> set (sort (bp_sourceFilters c))" for x
      using that assms(3) by (simp add: basic_texts_def list_all_iff)
  qed (use b(1) c(4) source ds filters in auto)
  then have "bp_name b = bp_name c" "set (bp_sourceFilters b) = set (bp_sourceFilters c)" "s1 = s2" "set fs1 = set fs2" "set ds1 = set ds2"
    by (metis set_sort)+
  then show ?thesis unfolding b(2) c(5) by simp
qed

section \<open>Keys of composite patterns\<close>

text \<open>The order of operands that may be exchanged does not matter.\<close>

lemma compatible_sym: "compatible m n \<longleftrightarrow> compatible n m"
  unfolding compatible_iff by metis

lemma map_add_compatible: "compatible m n \<Longrightarrow> m ++ n = n ++ m"
  by (rule ext) (auto simp: compatible_iff map_add_def split: option.splits)

lemma compatible_add: "compatible m n \<Longrightarrow> compatible (m ++ n) l \<longleftrightarrow> compatible m l \<and> compatible n l"
proof -
  assume mn: "compatible m n"
  have "(m ++ n) x = Some v \<longleftrightarrow> m x = Some v \<or> n x = Some v" for x v
    using mn unfolding compatible_iff map_add_def by (cases "n x"; cases "m x") auto
  then show ?thesis unfolding compatible_iff by blast
qed

lemma joined_commute:
  assumes "\<And>S T. R S T \<Longrightarrow> R T S"
  shows "joined R A B = joined R B A"
proof -
  have "x \<in> joined R B A" if "x \<in> joined R A B" for x A B
  proof -
    from that obtain S m T n where x: "x = (S \<union> T, m ++ n)" "(S, m) \<in> A" "(T, n) \<in> B" "R S T" "compatible m n"
      unfolding joined_def by blast
    then have "x = (T \<union> S, n ++ m)" using map_add_compatible [OF x(5)] by (simp add: Un_commute)
    moreover have "compatible n m" using x(5) compatible_sym by blast
    ultimately show ?thesis using joinedI [where R = R, OF x(3,2) assms [OF x(4)]] by simp
  qed
  then show ?thesis by blast
qed

lemma joined_same: "x \<in> joined (=) A B \<longleftrightarrow> (\<exists>S m n. x = (S, m ++ n) \<and> (S, m) \<in> A \<and> (S, n) \<in> B \<and> compatible m n)"
  unfolding joined_def by auto

lemma joined_same_left: "x \<in> joined (=) (joined (=) A B) C \<longleftrightarrow>
    (\<exists>S m n l. x = (S, (m ++ n) ++ l) \<and> (S, m) \<in> A \<and> (S, n) \<in> B \<and> (S, l) \<in> C
      \<and> compatible m n \<and> compatible m l \<and> compatible n l)"
proof
  assume "x \<in> joined (=) (joined (=) A B) C"
  then obtain S u l where u: "x = (S, u ++ l)" "(S, u) \<in> joined (=) A B" "(S, l) \<in> C" "compatible u l"
    unfolding joined_same [of x] by blast
  from u(2) obtain m n where m: "u = m ++ n" "(S, m) \<in> A" "(S, n) \<in> B" "compatible m n" unfolding joined_same by blast
  have "compatible m l \<and> compatible n l" using u(4) compatible_add [OF m(4)] by (simp add: m(1))
  then show "\<exists>S m n l. x = (S, (m ++ n) ++ l) \<and> (S, m) \<in> A \<and> (S, n) \<in> B \<and> (S, l) \<in> C
      \<and> compatible m n \<and> compatible m l \<and> compatible n l"
    using u(1,3) m by (intro exI [of _ S] exI [of _ m] exI [of _ n] exI [of _ l]) simp
next
  assume "\<exists>S m n l. x = (S, (m ++ n) ++ l) \<and> (S, m) \<in> A \<and> (S, n) \<in> B \<and> (S, l) \<in> C
      \<and> compatible m n \<and> compatible m l \<and> compatible n l"
  then obtain S m n l where m: "x = (S, (m ++ n) ++ l)" "(S, m) \<in> A" "(S, n) \<in> B" "(S, l) \<in> C"
      "compatible m n" "compatible m l" "compatible n l" by blast
  have "(S, m ++ n) \<in> joined (=) A B" unfolding joined_same using m by blast
  moreover have "compatible (m ++ n) l" using compatible_add [OF m(5)] m by simp
  ultimately show "x \<in> joined (=) (joined (=) A B) C" unfolding joined_same [of x] using m(1,4) by blast
qed

lemma joined_same_exchange: "joined (=) (joined (=) A B) C = joined (=) (joined (=) A C) B"
proof -
  have "x \<in> joined (=) (joined (=) A C) B" if x: "x \<in> joined (=) (joined (=) A B) C" for x A B C
  proof -
    obtain S m n l where m: "x = (S, (m ++ n) ++ l)" "(S, m) \<in> A" "(S, n) \<in> B" "(S, l) \<in> C"
        "compatible m n" "compatible m l" "compatible n l"
      using x unfolding joined_same_left by blast
    have "x = (S, (m ++ l) ++ n)" using m(1) map_add_compatible [OF m(7)] by (simp flip: map_add_assoc)
    then show ?thesis unfolding joined_same_left using m compatible_sym by blast
  qed
  then show ?thesis by blast
qed

definition conjoin :: "match_meaning set \<Rightarrow> match_meaning set option \<Rightarrow> match_meaning set option" where
  "conjoin B A = Some (case A of None \<Rightarrow> B | Some A \<Rightarrow> joined (=) A B)"

lemma every_conjoin: "Some (every_meaning r A ps) = fold conjoin (map (meaning r) ps) (Some A)"
  by (induction ps arbitrary: A) (simp_all add: conjoin_def)

lemma conjoin_exchange: "conjoin B \<circ> conjoin C = conjoin C \<circ> conjoin B"
proof (rule ext)
  fix A
  have "joined (=) B C = joined (=) C B" by (rule joined_commute) simp
  then show "(conjoin B \<circ> conjoin C) A = (conjoin C \<circ> conjoin B) A"
    using joined_same_exchange by (cases A) (auto simp: conjoin_def)
qed

lemma and_meaning: "meaning r (AndPattern ps) = (case fold conjoin (map (meaning r) ps) None of None \<Rightarrow> {} | Some A \<Rightarrow> A)"
  by (cases ps) (simp_all add: conjoin_def flip: every_conjoin)

lemma or_meaning: "meaning r (OrPattern ps) = \<Union> (set (map (meaning r) ps))"
proof -
  have "any_meaning r ps = \<Union> (set (map (meaning r) ps))" by (induction ps) simp_all
  then show ?thesis by simp
qed

lemma commuting_meanings:
  assumes "mset (map (meaning r) ps) = mset (map (meaning r) qs)"
  shows "meaning r (OrPattern ps) = meaning r (OrPattern qs)" "meaning r (AndPattern ps) = meaning r (AndPattern qs)"
proof -
  have "set (map (meaning r) ps) = set (map (meaning r) qs)" using mset_eq_setD [OF assms] .
  then show "meaning r (OrPattern ps) = meaning r (OrPattern qs)" unfolding or_meaning by simp
  have "fold conjoin (map (meaning r) ps) = fold conjoin (map (meaning r) qs)"
    by (rule fold_multiset_equiv [OF conjoin_exchange assms])
  then show "meaning r (AndPattern ps) = meaning r (AndPattern qs)" unfolding and_meaning by simp
qed

text \<open>The kind and the operands can be read back from the key.\<close>

fun kind_of :: "pattern \<Rightarrow> string" where
  "kind_of (SeqPattern p1 p2) = ''follows''"
| "kind_of (ImmSeqPattern p1 p2) = ''immediate-follows''"
| "kind_of (IndependentPattern p1 p2) = ''independent''"
| "kind_of (DisjointPattern p1 p2) = ''disjoint''"
| "kind_of (UnionPattern p1 p2) = ''union''"
| "kind_of (OrPattern subs) = ''or''"
| "kind_of (AndPattern subs) = ''and''"
| "kind_of (IterationPattern p relation minimum maximum) = ''iteration''"
| "kind_of (NamedRangePattern p iter relation first last_value) = ''named-integer-range-iteration''"
| "kind_of (UniversalRangePattern p ph relation first last_value) = ''universal-integer-range''"
| "kind_of _ = ''basic''"

lemma kind_valid: "ValidString (kind_of p)"
  by (rule ascii_valid) (cases p; simp)

lemma key_kind:
  assumes "DeterministicKey p = Inr k"
  obtains rest where "k = ''{\"kind\":'' @ jsonString (kind_of p) @ rest"
proof -
  have basic: "jsonString ''basic'' = ''\"basic\"''" by code_simp
  from assms have "\<exists>rest. k = ''{\"kind\":'' @ jsonString (kind_of p) @ rest"
    by (cases p) (auto simp: deterministicBasicKey_def deterministicCompositeKey_def basicText_def compositeText_def iterationText_def
        rangeText_def basic sum_map_Inr split: if_splits sum.splits option.splits)
  then show thesis using that by blast
qed

lemma same_kind:
  assumes "DeterministicKey p = Inr k" "DeterministicKey q = Inr k"
  shows "kind_of p = kind_of q"
proof -
  obtain u where u: "k = ''{\"kind\":'' @ jsonString (kind_of p) @ u" by (rule key_kind [OF assms(1)])
  obtain v where v: "k = ''{\"kind\":'' @ jsonString (kind_of q) @ v" by (rule key_kind [OF assms(2)])
  from u v have "jsonString (kind_of p) @ u = jsonString (kind_of q) @ v" by simp
  then show ?thesis unfolding jsonString_prefix [OF kind_valid] by simp
qed

lemma compositeText_inj:
  assumes "compositeText kind xs = compositeText kind ys" "list_all ValidString ys"
  shows "xs = ys"
proof -
  have e: "strings_join '','' (map jsonString xs) @ '']'' @ ''}'' = strings_join '','' (map jsonString ys) @ '']'' @ ''}''"
    using assms(1) by (simp add: compositeText_def)
  have "xs = ys \<and> ''}'' = ''}''"
  proof (rule join_prefix [OF _ _ e])
    show "x = y \<and> s = t" if "x \<in> set xs" "y \<in> set ys" "jsonString x @ s = jsonString y @ t" for x y s t
      using that(2,3) assms(2) by (simp add: jsonString_prefix list_all_iff)
  qed simp
  then show ?thesis ..
qed

lemma iterationText_inj:
  assumes "iterationText relation minimum maximum k = iterationText relation' minimum' maximum' k'" "ValidString relation'" "ValidString k'"
  shows "relation = relation' \<and> minimum = minimum' \<and> maximum = maximum' \<and> k = k'"
proof -
  from assms(1) have "jsonString relation @ '',\"minimum\":'' @ decimalInt minimum @ '',\"maximum\":'' @ decimalInt maximum
      @ '',\"pattern\":'' @ jsonString k @ ''}'' = jsonString relation' @ '',\"minimum\":'' @ decimalInt minimum'
      @ '',\"maximum\":'' @ decimalInt maximum' @ '',\"pattern\":'' @ jsonString k' @ ''}''"
    by (simp add: iterationText_def)
  then have r: "relation = relation'" and e: "decimalInt minimum @ CHR '','' # ''\"maximum\":'' @ decimalInt maximum
      @ CHR '','' # ''\"pattern\":'' @ jsonString k @ ''}'' = decimalInt minimum' @ CHR '','' # ''\"maximum\":''
      @ decimalInt maximum' @ CHR '','' # ''\"pattern\":'' @ jsonString k' @ ''}''"
    unfolding jsonString_prefix [OF assms(2)] by simp_all
  have comma: "\<not> is_digit (CHR '','')" by (simp add: is_digit_def)
  from decimalInt_prefix [OF comma e] have m: "minimum = minimum'" and e2: "decimalInt maximum
      @ CHR '','' # ''\"pattern\":'' @ jsonString k @ ''}'' = decimalInt maximum' @ CHR '','' # ''\"pattern\":'' @ jsonString k' @ ''}''"
    by simp_all
  from decimalInt_prefix [OF comma e2] have "maximum = maximum'" "jsonString k @ ''}'' = jsonString k' @ ''}''" by simp_all
  with r m show ?thesis using jsonString_prefix [OF assms(3), of k "''}''" "''}''"] by simp
qed

lemma rangeText_inj:
  assumes "rangeText kind label name first last_value relation k = rangeText kind label name' first' last_value' relation' k'"
    "ValidString name'" "ValidString relation'" "ValidString k'"
  shows "name = name' \<and> first = first' \<and> last_value = last_value' \<and> relation = relation' \<and> k = k'"
proof -
  from assms(1) have "jsonString name @ '',\"type\":'' @ jsonString ''Integer'' @ '',\"first\":'' @ FormatInt first @ '',\"last\":''
      @ FormatInt last_value @ '',\"relation\":'' @ jsonString relation @ '',\"pattern\":'' @ jsonString k @ ''}''
     = jsonString name' @ '',\"type\":'' @ jsonString ''Integer'' @ '',\"first\":'' @ FormatInt first' @ '',\"last\":''
      @ FormatInt last_value' @ '',\"relation\":'' @ jsonString relation' @ '',\"pattern\":'' @ jsonString k' @ ''}''"
    by (simp add: rangeText_def)
  then have n: "name = name'" and e: "FormatInt first @ CHR '','' # ''\"last\":'' @ FormatInt last_value @ CHR '','' # ''\"relation\":''
      @ jsonString relation @ '',\"pattern\":'' @ jsonString k @ ''}'' = FormatInt first' @ CHR '','' # ''\"last\":''
      @ FormatInt last_value' @ CHR '','' # ''\"relation\":'' @ jsonString relation' @ '',\"pattern\":'' @ jsonString k' @ ''}''"
    unfolding jsonString_prefix [OF assms(2)] by simp_all
  have comma: "\<not> is_digit (CHR '','')" by (simp add: is_digit_def)
  from FormatInt_prefix [OF comma e] have f: "first = first'" and e2: "FormatInt last_value @ CHR '','' # ''\"relation\":''
      @ jsonString relation @ '',\"pattern\":'' @ jsonString k @ ''}'' = FormatInt last_value' @ CHR '','' # ''\"relation\":''
      @ jsonString relation' @ '',\"pattern\":'' @ jsonString k' @ ''}''"
    by simp_all
  from FormatInt_prefix [OF comma e2] have l: "last_value = last_value'" and
      e3: "jsonString relation @ '',\"pattern\":'' @ jsonString k @ ''}'' = jsonString relation' @ '',\"pattern\":'' @ jsonString k' @ ''}''"
    by simp_all
  from e3 have "relation = relation'" "jsonString k @ ''}'' = jsonString k' @ ''}''"
    unfolding jsonString_prefix [OF assms(3)] by simp_all
  with n f l show ?thesis using jsonString_prefix [OF assms(4), of k "''}''" "''}''"] by simp
qed

lemma optional_valid: "(\<not> b \<Longrightarrow> ValidString s) \<Longrightarrow> ValidString (if b then [] else s)"
  by (simp add: ascii_valid)

lemma json_valid:
  "ValidString (jsonValue c)" "ValidString (jsonItems cs)" "ValidString (jsonFields fs)"
proof (induction c and cs and fs rule: jsonValue_jsonItems_jsonFields.induct)
  case (1 kind x b items fs)
  then show ?case
    unfolding jsonValue.simps by (intro ValidString_append jsonString_valid optional_valid) (simp_all add: ascii_valid)
next
  case (3 item items)
  then show ?case
    unfolding jsonItems.simps by (intro ValidString_append optional_valid) (simp_all add: ascii_valid)
next
  case (5 name v rest)
  then show ?case
    unfolding jsonFields.simps by (intro ValidString_append jsonString_valid optional_valid) (simp_all add: ascii_valid)
qed (simp_all add: ascii_valid)

lemma sum_parts_valid:
  "ValidString (jsonBind d)" "ValidString (jsonFilter f)" "ValidString (sourceText source)"
proof -
  show bind: "ValidString (jsonBind d)" for d
    unfolding jsonBind_def case_prod_beta by (intro ValidString_append jsonString_valid) (simp_all add: ascii_valid)
  show "ValidString (jsonFilter f)"
    unfolding jsonFilter_def case_prod_beta by (intro ValidString_append jsonString_valid json_valid) (simp_all add: ascii_valid)
  have "ValidString ('',\"source_bind\":'' @ jsonBind d)" for d
    by (intro ValidString_append bind) (simp_all add: ascii_valid)
  then show "ValidString (sourceText source)" by (cases source) (simp_all add: sourceText_def ascii_valid)
qed

lemma key_valid: "DeterministicKey p = Inr k \<Longrightarrow> ValidString k"
proof -
  assume k: "DeterministicKey p = Inr k"
  have basic: "ValidString (basicText n ss b fs ds)" for n ss b fs ds
    unfolding basicText_def
    by (intro ValidString_append jsonString_valid listPart_valid sum_parts_valid) (simp_all add: ascii_valid)
  have composite: "ValidString (compositeText kind xs)" for kind xs
    unfolding compositeText_def
    by (intro ValidString_append jsonString_valid join_valid) (auto simp: ascii_valid jsonString_valid)
  have iteration: "ValidString (iterationText relation minimum maximum l)" for relation minimum maximum l
    unfolding iterationText_def
    by (intro ValidString_append jsonString_valid decimalInt_valid) (simp_all add: ascii_valid)
  have range: "ValidString (rangeText kind label n first last_value relation l)" if "ValidString label" for kind label n first last_value relation l
    unfolding rangeText_def FormatInt_decimal
    by (intro ValidString_append jsonString_valid decimalInt_valid that) (simp_all add: ascii_valid)
  have labels: "ValidString ''iterator''" "ValidString ''placeholder''" "ValidString ''{\"kind\":\"basic\",\"name\":\"\"}''"
    by (simp_all add: ascii_valid)
  from k show ?thesis
    by (cases p) (auto simp: deterministicBasicKey_def deterministicCompositeKey_def basic composite iteration range labels
        sum_map_Inr split: if_splits sum.splits option.splits)
qed

section \<open>Patterns with the same key mean the same\<close>

fun texts_ok :: "pattern \<Rightarrow> bool" where
  \<comment> \<open>every string of the pattern is valid UTF-8\<close>
  "texts_ok (BasicPattern basic) \<longleftrightarrow> basic_texts basic"
| "texts_ok (SeqPattern p1 p2) \<longleftrightarrow> texts_ok p1 \<and> texts_ok p2"
| "texts_ok (ImmSeqPattern p1 p2) \<longleftrightarrow> texts_ok p1 \<and> texts_ok p2"
| "texts_ok (IndependentPattern p1 p2) \<longleftrightarrow> texts_ok p1 \<and> texts_ok p2"
| "texts_ok (DisjointPattern p1 p2) \<longleftrightarrow> texts_ok p1 \<and> texts_ok p2"
| "texts_ok (UnionPattern p1 p2) \<longleftrightarrow> texts_ok p1 \<and> texts_ok p2"
| "texts_ok (OrPattern subs) \<longleftrightarrow> list_all texts_ok subs"
| "texts_ok (AndPattern subs) \<longleftrightarrow> list_all texts_ok subs"
| "texts_ok (IterationPattern p relation minimum maximum) \<longleftrightarrow> ValidString relation \<and> texts_ok p"
| "texts_ok (NamedRangePattern p iter relation first last_value) \<longleftrightarrow> ValidString (ph_name iter) \<and> ValidString relation \<and> texts_ok p"
| "texts_ok (UniversalRangePattern p ph relation first last_value) \<longleftrightarrow> ValidString (ph_name ph) \<and> ValidString relation \<and> texts_ok p"
| "texts_ok _ \<longleftrightarrow> True"

lemma binary_key:
  assumes "deterministicCompositeKey kind (both x y) commutative = Inr k"
  obtains a b where "x = Inr a" "y = Inr b" "k = compositeText kind (if commutative then sort [a, b] else [a, b])"
  using assms that by (auto simp: deterministicCompositeKey_def both_def split: sum.splits)

lemma many_keys:
  assumes "deterministicCompositeKey kind (DeterministicKeys ps) True = Inr k"
  obtains ks where "map DeterministicKey ps = map Inr ks" "k = compositeText kind (sort ks)"
proof -
  have keys: "DeterministicKeys ps = Inr ks \<Longrightarrow> map DeterministicKey ps = map Inr ks" for ks
    by (induction ps arbitrary: ks) (auto simp: sum_map_Inr split: sum.splits)
  from assms show thesis using that keys by (auto simp: deterministicCompositeKey_def split: sum.splits)
qed

text \<open>A function of the key gives the meaning of each operand, so equal collections of keys give equal meanings.\<close>

lemma same_meanings:
  assumes ks: "map DeterministicKey ps = map Inr ks" "map DeterministicKey qs = map Inr ks'" "mset ks = mset ks'"
    and same: "\<forall>p \<in> set ps. \<forall>q \<in> set qs. \<forall>k. DeterministicKey p = Inr k \<longrightarrow> DeterministicKey q = Inr k \<longrightarrow> M p = M q"
  shows "mset (map M ps) = mset (map M qs)"
proof -
  have set: "set ks = set ks'" using mset_eq_setD [OF ks(3)] .
  have left: "\<exists>k \<in> set ks. DeterministicKey p = Inr k" if "p \<in> set ps" for p
  proof -
    have "DeterministicKey p \<in> set (map Inr ks)" using that unfolding ks(1) [symmetric] by simp
    then show ?thesis by auto
  qed
  have right: "\<exists>k \<in> set ks. DeterministicKey q = Inr k" if "q \<in> set qs" for q
  proof -
    have "DeterministicKey q \<in> set (map Inr ks')" using that unfolding ks(2) [symmetric] by simp
    then show ?thesis using set by auto
  qed
  have found: "\<exists>p \<in> set ps. DeterministicKey p = Inr k" "\<exists>q \<in> set qs. DeterministicKey q = Inr k" if "k \<in> set ks" for k
  proof -
    have "Inr k \<in> set (map DeterministicKey ps)" using that unfolding ks(1) by simp
    then show "\<exists>p \<in> set ps. DeterministicKey p = Inr k" by (auto simp: eq_commute)
    have "Inr k \<in> set (map DeterministicKey qs)" using that set unfolding ks(2) by simp
    then show "\<exists>q \<in> set qs. DeterministicKey q = Inr k" by (auto simp: eq_commute)
  qed
  define f where "f k = M (SOME q. q \<in> set qs \<and> DeterministicKey q = Inr k)" for k
  have f: "\<exists>q. q \<in> set qs \<and> DeterministicKey q = Inr k \<and> f k = M q" if "k \<in> set ks" for k
    using someI_ex [of "\<lambda>q. q \<in> set qs \<and> DeterministicKey q = Inr k"] found(2) [OF that] unfolding f_def by blast
  have fp: "M p = f (projr (DeterministicKey p))" if p: "p \<in> set ps" for p
  proof -
    obtain k where k: "k \<in> set ks" "DeterministicKey p = Inr k" using left [OF p] by blast
    obtain q where q: "q \<in> set qs" "DeterministicKey q = Inr k" "f k = M q" using f [OF k(1)] by blast
    have "M p = M q" using same p q(1,2) k(2) by blast
    then show ?thesis using q(3) k(2) by simp
  qed
  have fq: "M q = f (projr (DeterministicKey q))" if q: "q \<in> set qs" for q
  proof -
    obtain k where k: "k \<in> set ks" "DeterministicKey q = Inr k" using right [OF q] by blast
    obtain p where p: "p \<in> set ps" "DeterministicKey p = Inr k" using found(1) [OF k(1)] by blast
    have "M p = M q" using same p q k(2) by blast
    then show ?thesis using fp [OF p(1)] p(2) k(2) by simp
  qed
  have "map M ps = map f (map projr (map DeterministicKey ps))" using fp by simp
  moreover have "map M qs = map f (map projr (map DeterministicKey qs))" using fq by simp
  ultimately show ?thesis unfolding ks(1,2) by (simp add: ks(3) o_def)
qed

definition same_by_key :: "poset_reader \<Rightarrow> pattern \<Rightarrow> pattern \<Rightarrow> bool" where
  "same_by_key r p q \<longleftrightarrow> (\<forall>k. texts_ok q \<longrightarrow> DeterministicKey p = Inr k \<longrightarrow> DeterministicKey q = Inr k \<longrightarrow> meaning r p = meaning r q)"

lemma same_by_keyD:
  "same_by_key r p q \<Longrightarrow> texts_ok q \<Longrightarrow> DeterministicKey p = Inr k \<Longrightarrow> DeterministicKey q = Inr k \<Longrightarrow> meaning r p = meaning r q"
  unfolding same_by_key_def by blast

lemma composite_valid: "map DeterministicKey ps = map Inr ks \<Longrightarrow> list_all ValidString ks"
proof -
  assume ks: "map DeterministicKey ps = map Inr ks"
  have "ValidString k" if "k \<in> set ks" for k
  proof -
    have "Inr k \<in> set (map DeterministicKey ps)" using that unfolding ks by simp
    then obtain p where "DeterministicKey p = Inr k" by auto
    then show ?thesis by (rule key_valid)
  qed
  then show ?thesis by (simp add: list_all_iff)
qed

lemma ordered_pair:
  assumes p: "deterministicCompositeKey kind (both (DeterministicKey p1) (DeterministicKey p2)) False = Inr k"
    and q: "deterministicCompositeKey kind (both (DeterministicKey q1) (DeterministicKey q2)) False = Inr k"
    and ih: "\<And>q. same_by_key r p1 q" "\<And>q. same_by_key r p2 q" and t: "texts_ok q1" "texts_ok q2"
  shows "meaning r p1 = meaning r q1 \<and> meaning r p2 = meaning r q2"
proof -
  obtain a b where a: "DeterministicKey p1 = Inr a" "DeterministicKey p2 = Inr b" "k = compositeText kind [a, b]"
    using p by (rule binary_key) simp
  obtain c d where c: "DeterministicKey q1 = Inr c" "DeterministicKey q2 = Inr d" "k = compositeText kind [c, d]"
    using q by (rule binary_key) simp
  have "[a, b] = [c, d]" by (rule compositeText_inj [of kind]) (use a c key_valid in auto)
  then show ?thesis using same_by_keyD [OF ih(1) t(1) a(1)] same_by_keyD [OF ih(2) t(2) a(2)] c(1,2) by simp
qed

lemma symmetric_pair:
  assumes p: "deterministicCompositeKey kind (both (DeterministicKey p1) (DeterministicKey p2)) True = Inr k"
    and q: "deterministicCompositeKey kind (both (DeterministicKey q1) (DeterministicKey q2)) True = Inr k"
    and ih: "\<And>q. same_by_key r p1 q" "\<And>q. same_by_key r p2 q" and t: "texts_ok q1" "texts_ok q2"
    and sym: "\<And>A B. J A B = J B A"
  shows "J (meaning r p1) (meaning r p2) = J (meaning r q1) (meaning r q2)"
proof -
  obtain a b where a: "DeterministicKey p1 = Inr a" "DeterministicKey p2 = Inr b" "k = compositeText kind (sort [a, b])"
    using p by (rule binary_key) simp
  obtain c d where c: "DeterministicKey q1 = Inr c" "DeterministicKey q2 = Inr d" "k = compositeText kind (sort [c, d])"
    using q by (rule binary_key) simp
  have "list_all ValidString (sort [c, d])" using key_valid c(1,2) by (auto simp: list_all_iff)
  then have "sort [a, b] = sort [c, d]" using compositeText_inj a(3) c(3) by metis
  then have "mset [a, b] = mset [c, d]" by (metis mset_sort)
  then have "a = c \<and> b = d \<or> a = d \<and> b = c" by (auto simp: add_eq_conv_ex)
  then show ?thesis
  proof
    assume e: "a = c \<and> b = d"
    then show ?thesis using same_by_keyD [OF ih(1) t(1) a(1)] same_by_keyD [OF ih(2) t(2) a(2)] c(1,2) by simp
  next
    assume e: "a = d \<and> b = c"
    then have "meaning r p1 = meaning r q2" "meaning r p2 = meaning r q1"
      using same_by_keyD [OF ih(1) t(2) a(1)] same_by_keyD [OF ih(2) t(1) a(2)] c(1,2) by simp_all
    then show ?thesis using sym by simp
  qed
qed

lemma symmetric_list:
  assumes p: "deterministicCompositeKey kind (DeterministicKeys ps) True = Inr k"
    and q: "deterministicCompositeKey kind (DeterministicKeys qs) True = Inr k"
    and ih: "\<And>p q. p \<in> set ps \<Longrightarrow> same_by_key r p q" and t: "list_all texts_ok qs"
  shows "mset (map (meaning r) ps) = mset (map (meaning r) qs)"
proof -
  obtain ks where a: "map DeterministicKey ps = map Inr ks" "k = compositeText kind (sort ks)" by (rule many_keys [OF p])
  obtain ks' where c: "map DeterministicKey qs = map Inr ks'" "k = compositeText kind (sort ks')" by (rule many_keys [OF q])
  from composite_valid [OF c(1)] have "list_all ValidString (sort ks')" by (simp add: list_all_iff)
  then have "sort ks = sort ks'" using compositeText_inj a(2) c(2) by metis
  then have "mset ks = mset ks'" by (metis mset_sort)
  then show ?thesis
  proof (rule same_meanings [OF a(1) c(1)])
    show "\<forall>p \<in> set ps. \<forall>q \<in> set qs. \<forall>k. DeterministicKey p = Inr k \<longrightarrow> DeterministicKey q = Inr k \<longrightarrow> meaning r p = meaning r q"
      using ih t by (auto simp: list_all_iff same_by_key_def)
  qed
qed

lemma any_key: "DeterministicKey NilPattern = deterministicBasicKey MatchAny"
proof -
  have "jsonString ''basic'' = ''\"basic\"''" "jsonString [] = ''\"\"''" by code_simp+
  then show ?thesis
    by (simp add: deterministicBasicKey_def MatchAny_def basicText_def sourceDescriptor_def sourceText_def listPart_def)
qed

lemma any_texts: "basic_texts MatchAny"
  by (simp add: basic_texts_def MatchAny_def basicPlaceholders_def ascii_valid)

lemma same_by_keyI:
  "(\<And>k. texts_ok q \<Longrightarrow> kind_of p = kind_of q \<Longrightarrow> DeterministicKey p = Inr k \<Longrightarrow> DeterministicKey q = Inr k \<Longrightarrow> meaning r p = meaning r q)
    \<Longrightarrow> same_by_key r p q"
  unfolding same_by_key_def using same_kind by blast

lemma same_basic: "same_by_key r (BasicPattern b) q"
proof (rule same_by_keyI)
  fix k
  assume q: "texts_ok q" "kind_of (BasicPattern b) = kind_of q" "DeterministicKey (BasicPattern b) = Inr k" "DeterministicKey q = Inr k"
  show "meaning r (BasicPattern b) = meaning r q"
  proof (cases "q = NilPattern")
    case True
    have "deterministicBasicKey MatchAny = Inr k" using q(4) unfolding True any_key .
    then show ?thesis using basic_key_meaning [of b k MatchAny r] q(3) any_texts by (simp add: True)
  next
    case False
    then show ?thesis using q by (cases q) (auto dest: basic_key_meaning)
  qed
qed

lemma same_nil: "same_by_key r NilPattern q"
  using same_basic [of r MatchAny q] unfolding same_by_key_def any_key by simp

lemma same_seq:
  assumes "\<And>q. same_by_key r p1 q" "\<And>q. same_by_key r p2 q"
  shows "same_by_key r (SeqPattern p1 p2) q"
proof (rule same_by_keyI)
  fix k
  assume k: "texts_ok q" "kind_of (SeqPattern p1 p2) = kind_of q" "DeterministicKey (SeqPattern p1 p2) = Inr k" "DeterministicKey q = Inr k"
  then obtain q1 q2 where q: "q = SeqPattern q1 q2" by (cases q) auto
  show "meaning r (SeqPattern p1 p2) = meaning r q"
    using ordered_pair [OF _ _ assms] k unfolding q by simp
qed

lemma same_immseq:
  assumes "\<And>q. same_by_key r p1 q" "\<And>q. same_by_key r p2 q"
  shows "same_by_key r (ImmSeqPattern p1 p2) q"
proof (rule same_by_keyI)
  fix k
  assume k: "texts_ok q" "kind_of (ImmSeqPattern p1 p2) = kind_of q" "DeterministicKey (ImmSeqPattern p1 p2) = Inr k" "DeterministicKey q = Inr k"
  then obtain q1 q2 where q: "q = ImmSeqPattern q1 q2" by (cases q) auto
  show "meaning r (ImmSeqPattern p1 p2) = meaning r q"
    using ordered_pair [OF _ _ assms] k unfolding q by simp
qed

lemma same_independent:
  assumes "\<And>q. same_by_key r p1 q" "\<And>q. same_by_key r p2 q" "reader_laws r"
  shows "same_by_key r (IndependentPattern p1 p2) q"
proof (rule same_by_keyI)
  fix k
  assume k: "texts_ok q" "kind_of (IndependentPattern p1 p2) = kind_of q" "DeterministicKey (IndependentPattern p1 p2) = Inr k" "DeterministicKey q = Inr k"
  then obtain q1 q2 where q: "q = IndependentPattern q1 q2" by (cases q) auto
  have sym: "joined (relates r ''independent'') A B = joined (relates r ''independent'') B A" for A B :: "match_meaning set"
    by (rule joined_commute) (use assms(3) in \<open>auto simp: relates_def reader_laws_def\<close>)
  show "meaning r (IndependentPattern p1 p2) = meaning r q"
    using symmetric_pair [where J = "joined (relates r ''independent'')", OF _ _ assms(1,2) _ _ sym] k unfolding q by simp
qed

lemma same_disjoint:
  assumes "\<And>q. same_by_key r p1 q" "\<And>q. same_by_key r p2 q"
  shows "same_by_key r (DisjointPattern p1 p2) q"
proof (rule same_by_keyI)
  fix k
  assume k: "texts_ok q" "kind_of (DisjointPattern p1 p2) = kind_of q" "DeterministicKey (DisjointPattern p1 p2) = Inr k" "DeterministicKey q = Inr k"
  then obtain q1 q2 where q: "q = DisjointPattern q1 q2" by (cases q) auto
  have sym: "joined (relates r ''disjoint'') A B = joined (relates r ''disjoint'') B A" for A B :: "match_meaning set"
    by (rule joined_commute) (auto simp: relates_def)
  show "meaning r (DisjointPattern p1 p2) = meaning r q"
    using symmetric_pair [where J = "joined (relates r ''disjoint'')", OF _ _ assms _ _ sym] k unfolding q by simp
qed

lemma same_union:
  assumes "\<And>q. same_by_key r p1 q" "\<And>q. same_by_key r p2 q"
  shows "same_by_key r (UnionPattern p1 p2) q"
proof (rule same_by_keyI)
  fix k
  assume k: "texts_ok q" "kind_of (UnionPattern p1 p2) = kind_of q" "DeterministicKey (UnionPattern p1 p2) = Inr k" "DeterministicKey q = Inr k"
  then obtain q1 q2 where q: "q = UnionPattern q1 q2" by (cases q) auto
  have sym: "joined (\<lambda>A B. True) A B = joined (\<lambda>A B. True) B A" for A B :: "match_meaning set"
    by (rule joined_commute) simp
  show "meaning r (UnionPattern p1 p2) = meaning r q"
    using symmetric_pair [where J = "joined (\<lambda>A B. True)", OF _ _ assms _ _ sym] k unfolding q by simp
qed

lemma same_or:
  assumes "\<And>p q. p \<in> set ps \<Longrightarrow> same_by_key r p q"
  shows "same_by_key r (OrPattern ps) q"
proof (rule same_by_keyI)
  fix k
  assume k: "texts_ok q" "kind_of (OrPattern ps) = kind_of q" "DeterministicKey (OrPattern ps) = Inr k" "DeterministicKey q = Inr k"
  then obtain qs where q: "q = OrPattern qs" by (cases q) auto
  have "mset (map (meaning r) ps) = mset (map (meaning r) qs)"
    using symmetric_list [OF _ _ assms] k unfolding q by simp
  then show "meaning r (OrPattern ps) = meaning r q" unfolding q by (rule commuting_meanings)
qed

lemma same_and:
  assumes "\<And>p q. p \<in> set ps \<Longrightarrow> same_by_key r p q"
  shows "same_by_key r (AndPattern ps) q"
proof (rule same_by_keyI)
  fix k
  assume k: "texts_ok q" "kind_of (AndPattern ps) = kind_of q" "DeterministicKey (AndPattern ps) = Inr k" "DeterministicKey q = Inr k"
  then obtain qs where q: "q = AndPattern qs" by (cases q) auto
  have "mset (map (meaning r) ps) = mset (map (meaning r) qs)"
    using symmetric_list [OF _ _ assms] k unfolding q by simp
  then show "meaning r (AndPattern ps) = meaning r q" unfolding q by (rule commuting_meanings)
qed

lemma same_iteration:
  assumes "\<And>q. same_by_key r p q"
  shows "same_by_key r (IterationPattern p relation minimum maximum) q"
proof (rule same_by_keyI)
  fix k
  assume k: "texts_ok q" "kind_of (IterationPattern p relation minimum maximum) = kind_of q"
    "DeterministicKey (IterationPattern p relation minimum maximum) = Inr k" "DeterministicKey q = Inr k"
  then obtain p' relation' minimum' maximum' where q: "q = IterationPattern p' relation' minimum' maximum'" by (cases q) auto
  obtain a where a: "DeterministicKey p = Inr a" "k = iterationText relation minimum maximum a"
    using k(3) by (auto simp: sum_map_Inr)
  obtain b where b: "DeterministicKey p' = Inr b" "k = iterationText relation' minimum' maximum' b"
    using k(4) by (auto simp: q sum_map_Inr)
  have "relation = relation' \<and> minimum = minimum' \<and> maximum = maximum' \<and> a = b"
    by (rule iterationText_inj) (use a(2) b(2) k(1) key_valid [OF b(1)] in \<open>simp_all add: q\<close>)
  then show "meaning r (IterationPattern p relation minimum maximum) = meaning r q"
    using same_by_keyD [OF assms _ a(1), of p'] b(1) k(1) by (simp add: q)
qed

lemma same_named:
  assumes "\<And>q. same_by_key r p q"
  shows "same_by_key r (NamedRangePattern p ph relation first last_value) q"
proof (rule same_by_keyI)
  fix k
  assume k: "texts_ok q" "kind_of (NamedRangePattern p ph relation first last_value) = kind_of q"
    "DeterministicKey (NamedRangePattern p ph relation first last_value) = Inr k" "DeterministicKey q = Inr k"
  then obtain p' ph' relation' first' last' where q: "q = NamedRangePattern p' ph' relation' first' last'" by (cases q) auto
  obtain a where a: "DeterministicKey p = Inr a" "k = rangeText ''named-integer-range-iteration'' ''iterator'' (ph_name ph) first last_value relation a"
    using k(3) by (auto simp: sum_map_Inr split: option.splits)
  obtain b where b: "DeterministicKey p' = Inr b" "k = rangeText ''named-integer-range-iteration'' ''iterator'' (ph_name ph') first' last' relation' b"
    using k(4) by (auto simp: q sum_map_Inr split: option.splits)
  have "ph_name ph = ph_name ph' \<and> first = first' \<and> last_value = last' \<and> relation = relation' \<and> a = b"
    by (rule rangeText_inj [of "''named-integer-range-iteration''" "''iterator''"]) (use a(2) b(2) k(1) key_valid [OF b(1)] in \<open>simp_all add: q\<close>)
  then show "meaning r (NamedRangePattern p ph relation first last_value) = meaning r q"
    using same_by_keyD [OF assms _ a(1), of p'] b(1) k(1) by (simp add: q split: option.split)
qed

lemma same_universal:
  assumes "\<And>q. same_by_key r p q"
  shows "same_by_key r (UniversalRangePattern p ph relation first last_value) q"
proof (rule same_by_keyI)
  fix k
  assume k: "texts_ok q" "kind_of (UniversalRangePattern p ph relation first last_value) = kind_of q"
    "DeterministicKey (UniversalRangePattern p ph relation first last_value) = Inr k" "DeterministicKey q = Inr k"
  then obtain p' ph' relation' first' last' where q: "q = UniversalRangePattern p' ph' relation' first' last'" by (cases q) auto
  obtain a where a: "DeterministicKey p = Inr a" "k = rangeText ''universal-integer-range'' ''placeholder'' (ph_name ph) first last_value relation a"
    using k(3) by (auto simp: sum_map_Inr split: option.splits)
  obtain b where b: "DeterministicKey p' = Inr b" "k = rangeText ''universal-integer-range'' ''placeholder'' (ph_name ph') first' last' relation' b"
    using k(4) by (auto simp: q sum_map_Inr split: option.splits)
  have "ph_name ph = ph_name ph' \<and> first = first' \<and> last_value = last' \<and> relation = relation' \<and> a = b"
    by (rule rangeText_inj [of "''universal-integer-range''" "''placeholder''"]) (use a(2) b(2) k(1) key_valid [OF b(1)] in \<open>simp_all add: q\<close>)
  then show "meaning r (UniversalRangePattern p ph relation first last_value) = meaning r q"
    using same_by_keyD [OF assms _ a(1), of p'] b(1) k(1) by (simp add: q)
qed

lemma same_key_meaning: "reader_laws r \<Longrightarrow> same_by_key r p q"
proof (induction p arbitrary: q)
  case (IndependentPattern p1 p2)
  then show ?case by (intro same_independent) simp_all
qed (simp_all add: same_nil same_basic same_seq same_immseq same_disjoint same_union same_or same_and same_iteration same_named
    same_universal, simp_all add: same_by_key_def)

text \<open>C18: Two patterns with the same deterministic key have the same matches and bindings over every causal reader, when
  the strings of one of them are valid UTF-8.  The key sorts the operands of the symmetric relations, the filters and
  the bindings, so it identifies more than the syntax; the theorem says that it never identifies patterns that
  differ in meaning, which alphabets and digests rely on.\<close>

theorem equal_keys_equal_meaning:
  assumes "DeterministicKey p = Inr k" "DeterministicKey q = Inr k" "texts_ok q" "reader_laws r"
  shows "meaning r p = meaning r q"
  using same_by_keyD [OF same_key_meaning [OF assms(4)] assms(3,1,2)] .

text \<open>The operands of a union in either order, one of them with its two source filters exchanged.\<close>

definition union_one :: pattern where
  "union_one = UnionPattern (BasicPattern (MatchEvent ''tick'')) (BasicPattern ((MatchEvent ''tock'')\<lparr>bp_sourceFilters := [''b'', ''a'']\<rparr>))"

definition union_two :: pattern where
  "union_two = UnionPattern (BasicPattern ((MatchEvent ''tock'')\<lparr>bp_sourceFilters := [''a'', ''b'']\<rparr>)) (BasicPattern (MatchEvent ''tick''))"

lemma sort_exchange: "sort [x, y] = sort [y, x]"
  using linear [of x y] by (rule disjE) simp_all

lemma union_keys: "\<exists>k. DeterministicKey union_one = Inr k \<and> DeterministicKey union_two = Inr k"
proof -
  have "DeterministicKey union_one = DeterministicKey union_two"
    by (simp add: union_one_def union_two_def deterministicBasicKey_def MatchEvent_def MatchAny_def sourceDescriptor_def
        deterministicCompositeKey_def both_def sort_exchange [of "''b''" "''a''"]) (use linear in blast)
  moreover have "\<exists>k. DeterministicKey union_one = Inr k"
    by (simp add: union_one_def deterministicBasicKey_def MatchEvent_def MatchAny_def sourceDescriptor_def deterministicCompositeKey_def both_def)
  ultimately show ?thesis by simp
qed

lemma union_texts: "texts_ok union_two"
  by (simp add: union_two_def basic_texts_def MatchEvent_def MatchAny_def basicPlaceholders_def ascii_valid)

theorem equal_keys_equal_meaning_witness:
  "(\<exists>k. DeterministicKey union_one = Inr k \<and> DeterministicKey union_two = Inr k) \<and> union_one \<noteq> union_two
    \<and> meaning (reader_of bound_poset) union_one = meaning (reader_of bound_poset) union_two"
proof -
  have differ: "union_one \<noteq> union_two" by (simp add: union_one_def union_two_def MatchEvent_def MatchAny_def)
  obtain k where k: "DeterministicKey union_one = Inr k" "DeterministicKey union_two = Inr k" using union_keys by blast
  have "reader_laws (reader_of bound_poset)" using bound_poset_ok(1) by (simp add: reader_ok_def)
  with k union_texts have "meaning (reader_of bound_poset) union_one = meaning (reader_of bound_poset) union_two"
    by (rule equal_keys_equal_meaning)
  with union_keys differ show ?thesis by blast
qed

section \<open>Triggers that need an occurrence\<close>

lemma matches_of_meaning:
  assumes "reader_ok r" "pattern_ok p" "MatchWithBindings p r = Inr ms"
  shows "meaning_of ` set ms = meaning r p"
proof -
  have "accepted r p"
    using matchWithBindings_run(1) [OF assms(1,2)] assms(3)
    by (cases "matchWithBindings r p") (auto simp: MatchWithBindings_def)
  from matches_run [OF assms(1,2) this] assms(3) show ?thesis by auto
qed

text \<open>C19: When \<open>CanMatchEmpty\<close> answers no, every match that \<open>MatchWithBindings\<close> returns has an occurrence.  The
  engines reject a trigger without this answer, so a rule can only fire for a set of occurrences that is not empty.\<close>

theorem no_match_is_empty:
  assumes "CanMatchEmpty p = Inr False" "reader_ok r" "pattern_ok p" "MatchWithBindings p r = Inr ms"
  shows "\<forall>m \<in> set ms. mr_events m \<noteq> []"
proof
  fix m
  assume "m \<in> set ms"
  then have "meaning_of m \<in> meaning r p" using matches_of_meaning [OF assms(2-4)] by blast
  then show "mr_events m \<noteq> []" using CanMatchEmpty_sound(1) [OF assms(1), of r] by (auto simp: no_empty_def meaning_of_def)
qed

theorem no_match_is_empty_witness:
  "\<exists>ms. MatchWithBindings some_ticks (reader_of ordered_events) = Inr ms \<and> (\<forall>m \<in> set ms. mr_events m \<noteq> [])"
proof -
  note r = ordered_events_reader
  obtain ms where "MatchWithBindings some_ticks (reader_of ordered_events) = Inr ms"
    using matches_run [OF r some_ticks_ok] by blast
  moreover have "CanMatchEmpty some_ticks = Inr False" by (simp add: some_ticks_def)
  ultimately show ?thesis using no_match_is_empty [OF _ r some_ticks_ok(1)] by blast
qed

end
