(* ===== verification/Match_Whole.thy ===== *)
theory Match_Whole
  imports Pattern_Keys
begin

text \<open>
  Exact matches of a whole computation (\<open>pattern/whole.go\<close>).  The occurrences that some basic pattern of an expression
  denotes form its associated computation; \<open>MatchWhole\<close> keeps the matches that consist of all of them.
\<close>

section \<open>Associated occurrences\<close>

fun containsValue :: "go_value \<Rightarrow> i64 list \<Rightarrow> go_error + bool" where
  "containsValue v [] = Inr False"
| "containsValue v (w # ws) = (case CanonicalValuesEqual v (VInt64 w) of Inl err \<Rightarrow> Inl err
     | Inr equal \<Rightarrow> if equal then Inr True else containsValue v ws)"

definition namedRangeContainsBinding :: "i64 \<Rightarrow> i64 \<Rightarrow> go_value \<Rightarrow> pattern_error + bool" where
  "namedRangeContainsBinding first last_value v = (case namedRangeCardinality first last_value of None \<Rightarrow> Inl ErrInvalidNamedIteration
     | Some cardinality \<Rightarrow> map_sum ErrValue id (containsValue v (rangeValues first cardinality)))"

definition universalRangeContainsBinding :: "i64 \<Rightarrow> i64 \<Rightarrow> go_value \<Rightarrow> pattern_error + bool" where
  "universalRangeContainsBinding first last_value v =
     map_sum ErrValue id (containsValue v (rangeValues first (unat (last_value - first + 1))))"

fun removeBinding :: "string \<Rightarrow> bindings \<Rightarrow> bindings" where
  \<comment> \<open>without the first binding of a placeholder\<close>
  "removeBinding name [] = []"
| "removeBinding name ((placeholder, v) # rest) = (if placeholder = name then rest else (placeholder, v) # removeBinding name rest)"

fun associatedInRange :: "string \<Rightarrow> (go_value \<Rightarrow> pattern_error + bool) \<Rightarrow> match_result list \<Rightarrow> pattern_error + match_result list" where
  \<comment> \<open>the loops of both range forms\<close>
  "associatedInRange name test [] = Inr []"
| "associatedInRange name test (m # ms) =
     (case map_of (mr_bindings m) name of
        None \<Rightarrow> map_sum id ((#) m) (associatedInRange name test ms)
      | Some v \<Rightarrow> (case test v of Inl err \<Rightarrow> Inl err
          | Inr inside \<Rightarrow> if \<not> inside then associatedInRange name test ms
              else map_sum id ((#) \<lparr>mr_events = mr_events m, mr_bindings = removeBinding name (mr_bindings m)\<rparr>)
                (associatedInRange name test ms)))"

fun concatMatches :: "(pattern_error + match_result list) list \<Rightarrow> pattern_error + match_result list" where
  "concatMatches [] = Inr []"
| "concatMatches (result # rest) = (case result of Inl err \<Rightarrow> Inl err | Inr ms \<Rightarrow> map_sum id ((@) ms) (concatMatches rest))"

definition mergeAssociatedBasicMatches :: "(pattern_error + match_result list) list \<Rightarrow> pattern_error + match_result list" where
  \<comment> \<open>from the matches of the operands\<close>
  "mergeAssociatedBasicMatches results = (case concatMatches results of Inl err \<Rightarrow> Inl err | Inr ms \<Rightarrow> canonicalizeMatchResults ms)"

definition associatedRange :: "string \<Rightarrow> (go_value \<Rightarrow> pattern_error + bool) \<Rightarrow> pattern_error + match_result list
    \<Rightarrow> pattern_error + match_result list" where
  "associatedRange name test matches = (case matches of Inl err \<Rightarrow> Inl err
     | Inr matches \<Rightarrow> (case associatedInRange name test matches of Inl err \<Rightarrow> Inl err
        | Inr result \<Rightarrow> canonicalizeMatchResults result))"

fun associatedBasicMatches :: "poset_reader \<Rightarrow> pattern \<Rightarrow> pattern_error + match_result list" where
  "associatedBasicMatches r NilPattern = matchBasicWithBindings r MatchAny"
| "associatedBasicMatches r (BasicPattern basic) = matchBasicWithBindings r basic"
| "associatedBasicMatches r (SeqPattern p1 p2) = mergeAssociatedBasicMatches [associatedBasicMatches r p1, associatedBasicMatches r p2]"
| "associatedBasicMatches r (ImmSeqPattern p1 p2) = mergeAssociatedBasicMatches [associatedBasicMatches r p1, associatedBasicMatches r p2]"
| "associatedBasicMatches r (IndependentPattern p1 p2) = mergeAssociatedBasicMatches [associatedBasicMatches r p1, associatedBasicMatches r p2]"
| "associatedBasicMatches r (DisjointPattern p1 p2) = mergeAssociatedBasicMatches [associatedBasicMatches r p1, associatedBasicMatches r p2]"
| "associatedBasicMatches r (UnionPattern p1 p2) = mergeAssociatedBasicMatches [associatedBasicMatches r p1, associatedBasicMatches r p2]"
| "associatedBasicMatches r (OrPattern subs) = mergeAssociatedBasicMatches (map (associatedBasicMatches r) subs)"
| "associatedBasicMatches r (AndPattern subs) = mergeAssociatedBasicMatches (map (associatedBasicMatches r) subs)"
| "associatedBasicMatches r (IterationPattern p relation minimum maximum) = associatedBasicMatches r p"
| "associatedBasicMatches r (NamedRangePattern p iter relation first last_value) =
     associatedRange (ph_name iter) (namedRangeContainsBinding first last_value) (associatedBasicMatches r p)"
| "associatedBasicMatches r (UniversalRangePattern p ph relation first last_value) =
     associatedRange (ph_name ph) (universalRangeContainsBinding first last_value) (associatedBasicMatches r p)"
| "associatedBasicMatches r _ = Inl ErrOpaquePattern"

definition AssociatedEvents :: "pattern \<Rightarrow> poset_reader \<Rightarrow> pattern_error + event_set" where
  \<comment> \<open>the first view of each occurrence, in ID order\<close>
  "AssociatedEvents expression r = (case associatedBasicMatches r expression of Inl err \<Rightarrow> Inl err
     | Inr matches \<Rightarrow> Inr (sort_key ev_id (firstByID {||} (concat (map mr_events matches)))))"

definition MatchWhole :: "pattern \<Rightarrow> poset_reader \<Rightarrow> pattern_error + match_result list" where
  "MatchWhole expression r = (case AssociatedEvents expression r of Inl err \<Rightarrow> Inl err
     | Inr associated \<Rightarrow> (case MatchWithBindings expression r of Inl err \<Rightarrow> Inl err
        | Inr matches \<Rightarrow> Inr (filter (\<lambda>m. eventSetKey (mr_events m) = eventSetKey associated) matches)))"

section \<open>The associated computation of a pattern\<close>

definition in_range :: "string \<Rightarrow> i64 list \<Rightarrow> match_meaning set \<Rightarrow> match_meaning set" where
  \<comment> \<open>the matches whose value for the range's placeholder, if any, lies in the range\<close>
  "in_range name vals A = {(S, m |` (- {name})) | S m. (S, m) \<in> A \<and> (m name = None \<or> (\<exists>w \<in> set vals. m name = Some (VInt64 w)))}"

fun associated :: "poset_reader \<Rightarrow> pattern \<Rightarrow> match_meaning set" where
  "associated r NilPattern = basic_meaning r MatchAny"
| "associated r (BasicPattern basic) = basic_meaning r basic"
| "associated r (SeqPattern p1 p2) = associated r p1 \<union> associated r p2"
| "associated r (ImmSeqPattern p1 p2) = associated r p1 \<union> associated r p2"
| "associated r (IndependentPattern p1 p2) = associated r p1 \<union> associated r p2"
| "associated r (DisjointPattern p1 p2) = associated r p1 \<union> associated r p2"
| "associated r (UnionPattern p1 p2) = associated r p1 \<union> associated r p2"
| "associated r (OrPattern subs) = \<Union> (set (map (associated r) subs))"
| "associated r (AndPattern subs) = \<Union> (set (map (associated r) subs))"
| "associated r (IterationPattern p relation minimum maximum) = associated r p"
| "associated r (NamedRangePattern p iter relation first last_value) =
     in_range (ph_name iter) (rangeValues first (case namedRangeCardinality first last_value of None \<Rightarrow> 0 | Some n \<Rightarrow> n)) (associated r p)"
| "associated r (UniversalRangePattern p ph relation first last_value) =
     in_range (ph_name ph) (rangeValues first (unat (last_value - first + 1))) (associated r p)"
| "associated r _ = {}"

definition associated_ids :: "poset_reader \<Rightarrow> pattern \<Rightarrow> event_id set" where
  "associated_ids r p = \<Union> (fst ` associated r p)"

fun parts_accepted :: "poset_reader \<Rightarrow> pattern \<Rightarrow> bool" where
  \<comment> \<open>the basic patterns are accepted, and no placeholder is compared with a range that is too long\<close>
  "parts_accepted r NilPattern \<longleftrightarrow> accepted_basic r MatchAny"
| "parts_accepted r (BasicPattern basic) \<longleftrightarrow> accepted_basic r basic"
| "parts_accepted r (SeqPattern p1 p2) \<longleftrightarrow> parts_accepted r p1 \<and> parts_accepted r p2"
| "parts_accepted r (ImmSeqPattern p1 p2) \<longleftrightarrow> parts_accepted r p1 \<and> parts_accepted r p2"
| "parts_accepted r (IndependentPattern p1 p2) \<longleftrightarrow> parts_accepted r p1 \<and> parts_accepted r p2"
| "parts_accepted r (DisjointPattern p1 p2) \<longleftrightarrow> parts_accepted r p1 \<and> parts_accepted r p2"
| "parts_accepted r (UnionPattern p1 p2) \<longleftrightarrow> parts_accepted r p1 \<and> parts_accepted r p2"
| "parts_accepted r (OrPattern subs) \<longleftrightarrow> list_all (parts_accepted r) subs"
| "parts_accepted r (AndPattern subs) \<longleftrightarrow> list_all (parts_accepted r) subs"
| "parts_accepted r (IterationPattern p relation minimum maximum) \<longleftrightarrow> parts_accepted r p"
| "parts_accepted r (NamedRangePattern p iter relation first last_value) \<longleftrightarrow> parts_accepted r p
   \<and> (namedRangeCardinality first last_value \<noteq> None \<or> (\<forall>x \<in> associated r p. snd x (ph_name iter) = None))"
| "parts_accepted r (UniversalRangePattern p ph relation first last_value) \<longleftrightarrow> parts_accepted r p"
| "parts_accepted r _ \<longleftrightarrow> False"

lemma containsValue_run: "canonicalValueCopy v = Inr v \<Longrightarrow> containsValue v ws = Inr (\<exists>w \<in> set ws. v = VInt64 w)"
  by (induction ws) (simp_all add: CanonicalValuesEqual_def)

lemma removeBinding_map:
  "distinct (map fst bs) \<Longrightarrow> map_of (removeBinding name bs) = map_of bs |` (- {name})"
  "set (removeBinding name bs) \<subseteq> set bs" "distinct (map fst bs) \<Longrightarrow> distinct (map fst (removeBinding name bs))"
proof (induction bs)
  case (Cons b bs)
  { case 1
    then have "fst b \<notin> fst ` set bs" by simp
    then have "map_of bs (fst b) = None" by (simp add: map_of_eq_None_iff)
    with 1 Cons.IH(1) show ?case by (cases b) (auto simp: restrict_map_def fun_eq_iff) }
  { case 2 with Cons.IH(2) show ?case by (cases b) auto }
  { case 3 with Cons.IH(2,3) show ?case by (cases b) auto }
qed (simp_all add: restrict_map_def)

lemma env_ok_removeBinding: "env_ok bs \<Longrightarrow> env_ok (removeBinding name bs)"
  using removeBinding_map(3) [of bs name] removeBinding_map(2) [of name bs] by (auto simp: env_ok_def list_all_iff)

lemma in_range_Un: "in_range name vals (A \<union> B) = in_range name vals A \<union> in_range name vals B"
  unfolding in_range_def by blast

lemma in_range_one: "in_range name vals {(S, m)} =
    (if m name = None \<or> (\<exists>w \<in> set vals. m name = Some (VInt64 w)) then {(S, m |` (- {name}))} else {})"
  unfolding in_range_def by auto

lemma in_range_empty [simp]: "in_range name vals {} = {}"
  by (simp add: in_range_def)

lemma in_range_insert: "in_range name vals (insert (meaning_of m) A) = in_range name vals {meaning_of m} \<union> in_range name vals A"
  using in_range_Un [of name vals "{meaning_of m}" A] by simp

lemma restrict_absent: "m name = None \<Longrightarrow> m |` (- {name}) = m"
  by (auto simp: restrict_map_def fun_eq_iff)

lemma associatedInRange_run:
  assumes test: "\<And>v. canonicalValueCopy v = Inr v \<Longrightarrow> test v = Inr (\<exists>w \<in> set vals. v = VInt64 w)"
  shows "list_all match_ok ms \<Longrightarrow> \<exists>rows. associatedInRange name test ms = Inr rows \<and> list_all match_ok rows
    \<and> meaning_of ` set rows = in_range name vals (meaning_of ` set ms)"
proof (induction ms)
  case (Cons m ms)
  then obtain rows where rows: "associatedInRange name test ms = Inr rows" "list_all match_ok rows"
      "meaning_of ` set rows = in_range name vals (meaning_of ` set ms)" by auto
  have m: "match_ok m" using Cons.prems by simp
  note env = match_okD(3) [OF m]
  let ?env = "map_of (mr_bindings m)"
  let ?S = "ev_id ` set (mr_events m)"
  have split: "in_range name vals (meaning_of ` set (m # ms))
      = in_range name vals {(?S, ?env)} \<union> meaning_of ` set rows"
    using in_range_insert [of name vals m "meaning_of ` set ms"] rows(3) by (simp add: meaning_of_def)
  show ?case
  proof (cases "?env name")
    case None
    then show ?thesis using rows m unfolding split in_range_one by (simp add: restrict_absent meaning_of_def)
  next
    case (Some v)
    then have "(name, v) \<in> set (mr_bindings m)" by (rule map_of_SomeD)
    then have "binding_ok (name, v)" using env by (simp add: env_ok_def list_all_iff)
    then have v: "canonicalValueCopy v = Inr v" by (simp add: binding_ok_def)
    let ?m = "\<lparr>mr_events = mr_events m, mr_bindings = removeBinding name (mr_bindings m)\<rparr>"
    have "match_ok ?m" using m env_ok_removeBinding [OF env] by (simp add: match_ok_def)
    moreover have "meaning_of ?m = (?S, ?env |` (- {name}))"
      using removeBinding_map(1) [of "mr_bindings m" name] env by (simp add: meaning_of_def env_ok_def)
    ultimately show ?thesis using rows Some test [OF v] unfolding split in_range_one by auto
  qed
qed simp

lemma associatedInRange_error:
  assumes test: "\<And>v. canonicalValueCopy v = Inr v \<Longrightarrow> isl (test v)"
  shows "list_all match_ok ms \<Longrightarrow> if \<forall>m \<in> set ms. map_of (mr_bindings m) name = None then associatedInRange name test ms = Inr ms
    else isl (associatedInRange name test ms)"
proof (induction ms)
  case (Cons m ms)
  have m: "match_ok m" using Cons.prems by simp
  show ?case
  proof (cases "map_of (mr_bindings m) name")
    case None
    then show ?thesis using Cons by (cases "associatedInRange name test ms") (auto split: if_splits)
  next
    case (Some v)
    then have "(name, v) \<in> set (mr_bindings m)" by (rule map_of_SomeD)
    then have "binding_ok (name, v)" using match_okD(3) [OF m] by (simp add: env_ok_def list_all_iff)
    then have "isl (test v)" using test by (simp add: binding_ok_def)
    then show ?thesis using Some by (cases "test v") auto
  qed
qed simp

lemma concatMatches_run:
  assumes "list_all2 (\<lambda>result x. evaluates (fst x) result (snd x)) results xs"
  shows "evaluates (list_all fst xs) (concatMatches results) (\<Union> (snd ` set xs))"
  using assms
proof (induction rule: list_all2_induct)
  case (Cons result results x xs)
  then show ?case by (cases result; cases "concatMatches results") (auto simp: image_Un)
qed simp

lemma mergeAssociated_run:
  assumes "list_all2 (\<lambda>result x. evaluates (fst x) result (snd x)) results xs"
  shows "evaluates (list_all fst xs) (mergeAssociatedBasicMatches results) (\<Union> (snd ` set xs))"
proof (cases "concatMatches results")
  case (Inr ms)
  with concatMatches_run [OF assms] have ms: "list_all match_ok ms" "meaning_of ` set ms = \<Union> (snd ` set xs)" "list_all fst xs" by simp_all
  obtain ns where "canonicalizeMatchResults ms = Inr ns" "canonical_results ns" "meaning_of ` set ns = meaning_of ` set ms"
    by (rule canonicalizeMatchResults_run [OF ms(1)])
  then show ?thesis using Inr ms canonical_results_ok by (simp add: mergeAssociatedBasicMatches_def)
qed (use concatMatches_run [OF assms] in \<open>simp add: mergeAssociatedBasicMatches_def\<close>)

lemma associatedRange_run:
  assumes e: "evaluates a matches A"
    and test: "\<And>v. canonicalValueCopy v = Inr v \<Longrightarrow> test v = Inr (\<exists>w \<in> set vals. v = VInt64 w)"
  shows "evaluates a (associatedRange name test matches) (in_range name vals A)"
proof (cases matches)
  case (Inr ms)
  then have ms: "list_all match_ok ms" "meaning_of ` set ms = A" a using e by simp_all
  obtain rows where rows: "associatedInRange name test ms = Inr rows" "list_all match_ok rows"
      "meaning_of ` set rows = in_range name vals (meaning_of ` set ms)"
    using associatedInRange_run [OF test ms(1)] by blast
  obtain ns where "canonicalizeMatchResults rows = Inr ns" "canonical_results ns" "meaning_of ` set ns = meaning_of ` set rows"
    by (rule canonicalizeMatchResults_run [OF rows(2)])
  then show ?thesis using Inr rows ms canonical_results_ok by (simp add: associatedRange_def)
qed (use e in \<open>simp add: associatedRange_def\<close>)

lemma associatedRange_invalid:
  assumes e: "evaluates a matches A" and test: "\<And>v. canonicalValueCopy v = Inr v \<Longrightarrow> isl (test v)"
  shows "evaluates (a \<and> (\<forall>x \<in> A. snd x name = None)) (associatedRange name test matches) (in_range name [] A)"
proof (cases matches)
  case (Inr ms)
  then have ms: "list_all match_ok ms" "meaning_of ` set ms = A" a using e by simp_all
  have none: "(\<forall>x \<in> A. snd x name = None) \<longleftrightarrow> (\<forall>m \<in> set ms. map_of (mr_bindings m) name = None)"
    unfolding ms(2) [symmetric] by (simp add: meaning_of_def)
  show ?thesis
  proof (cases "\<forall>x \<in> A. snd x name = None")
    case True
    have same: "in_range name [] A = A" using True by (force simp: in_range_def restrict_absent)
    obtain ns where "canonicalizeMatchResults ms = Inr ns" "canonical_results ns" "meaning_of ` set ns = meaning_of ` set ms"
      by (rule canonicalizeMatchResults_run [OF ms(1)])
    moreover have "associatedInRange name test ms = Inr ms"
      using associatedInRange_error [OF test ms(1), where name = name] True unfolding none by simp
    ultimately show ?thesis using Inr ms True same canonical_results_ok by (simp add: associatedRange_def)
  next
    case False
    then have "isl (associatedInRange name test ms)"
      using associatedInRange_error [OF test ms(1), where name = name] unfolding none by simp
    then show ?thesis using Inr False by (cases "associatedInRange name test ms") (simp_all add: associatedRange_def)
  qed
qed (use e in \<open>simp add: associatedRange_def\<close>)

lemma merge_two:
  assumes "evaluates a x A" "evaluates b y B"
  shows "evaluates (a \<and> b) (mergeAssociatedBasicMatches [x, y]) (A \<union> B)"
  using mergeAssociated_run [of "[x, y]" "[(a, A), (b, B)]"] assms by simp

lemma merge_many:
  assumes "\<And>p. p \<in> set ps \<Longrightarrow> evaluates (parts_accepted r p) (associatedBasicMatches r p) (associated r p)"
  shows "evaluates (list_all (parts_accepted r) ps) (mergeAssociatedBasicMatches (map (associatedBasicMatches r) ps))
    (\<Union> (set (map (associated r) ps)))"
proof -
  have "list_all2 (\<lambda>result x. evaluates (fst x) result (snd x)) (map (associatedBasicMatches r) ps)
      (map (\<lambda>p. (parts_accepted r p, associated r p)) ps)"
    using assms by (simp add: list_all2_conv_all_nth)
  from mergeAssociated_run [OF this] show ?thesis by (simp add: image_image list_all_iff)
qed

lemma associatedBasicMatches_run:
  "reader_ok r \<Longrightarrow> pattern_ok p \<Longrightarrow> evaluates (parts_accepted r p) (associatedBasicMatches r p) (associated r p)"
proof (induction p)
  case NilPattern
  have "names_ok MatchAny" by (simp add: names_ok_def basicPlaceholders_def MatchAny_def map_filter_simps)
  then show ?case using NilPattern by (simp add: evaluates_basic)
next
  case (BasicPattern basic)
  then show ?case by (simp add: evaluates_basic)
next
  case (SeqPattern p1 p2)
  then show ?case using merge_two by simp
next
  case (ImmSeqPattern p1 p2)
  then show ?case using merge_two by simp
next
  case (IndependentPattern p1 p2)
  then show ?case using merge_two by simp
next
  case (DisjointPattern p1 p2)
  then show ?case using merge_two by simp
next
  case (UnionPattern p1 p2)
  then show ?case using merge_two by simp
next
  case (OrPattern subs)
  then show ?case using merge_many [of subs r] by (simp add: list_all_iff)
next
  case (AndPattern subs)
  then show ?case using merge_many [of subs r] by (simp add: list_all_iff)
next
  case (IterationPattern p relation minimum maximum)
  then show ?case by simp
next
  case (NamedRangePattern p iter relation first last_value)
  then have e: "evaluates (parts_accepted r p) (associatedBasicMatches r p) (associated r p)" by simp
  show ?case
  proof (cases "namedRangeCardinality first last_value")
    case None
    then show ?thesis
      using associatedRange_invalid [OF e, of "namedRangeContainsBinding first last_value" "ph_name iter"]
      by (simp add: namedRangeContainsBinding_def rangeValues_def)
  next
    case (Some n)
    then show ?thesis
      using associatedRange_run [OF e, of "namedRangeContainsBinding first last_value" "rangeValues first n" "ph_name iter"]
      by (simp add: namedRangeContainsBinding_def containsValue_run)
  qed
next
  case (UniversalRangePattern p ph relation first last_value)
  then have e: "evaluates (parts_accepted r p) (associatedBasicMatches r p) (associated r p)" by simp
  show ?case
    using associatedRange_run [OF e, of "universalRangeContainsBinding first last_value"
        "rangeValues first (unat (last_value - first + 1))" "ph_name ph"]
    by (simp add: universalRangeContainsBinding_def containsValue_run)
qed simp_all

lemma AssociatedEvents_run:
  assumes "reader_ok r" "pattern_ok p"
  shows "case AssociatedEvents p r of Inl err \<Rightarrow> \<not> parts_accepted r p
    | Inr es \<Rightarrow> parts_accepted r p \<and> ev_id ` set es = associated_ids r p \<and> distinct (map ev_id es) \<and> sorted (map ev_id es)"
proof (cases "associatedBasicMatches r p")
  case (Inr ms)
  with associatedBasicMatches_run [OF assms] have ms: "meaning_of ` set ms = associated r p" "parts_accepted r p" by simp_all
  have "ev_id ` set (firstByID {||} (concat (map mr_events ms))) = (\<Union>m \<in> set ms. fst (meaning_of m))"
    using firstByID_ids [of "{||}" "concat (map mr_events ms)"] by (auto simp: meaning_of_def)
  also have "\<dots> = \<Union> (fst ` (meaning_of ` set ms))" by simp
  also have "\<dots> = associated_ids r p" unfolding ms(1) associated_ids_def ..
  finally show ?thesis
    using Inr ms(2) firstByID_ids [of "{||}" "concat (map mr_events ms)"] by (simp add: AssociatedEvents_def distinct_map)
qed (use associatedBasicMatches_run [OF assms] in \<open>simp add: AssociatedEvents_def\<close>)

lemma canonical_results_filter: "canonical_results ms \<Longrightarrow> canonical_results (filter P ms)"
  by (simp add: canonical_results_def list_all_iff sorted_wrt_map sorted_wrt_filter)

lemma MatchWhole_run:
  assumes "reader_ok r" "pattern_ok p"
  shows "case MatchWhole p r of Inl err \<Rightarrow> \<not> (parts_accepted r p \<and> accepted r p)
    | Inr ms \<Rightarrow> parts_accepted r p \<and> accepted r p \<and> canonical_results ms \<and> distinct (map meaning_of ms)
        \<and> meaning_of ` set ms = {(S, m) \<in> meaning r p. S = associated_ids r p}"
proof (cases "AssociatedEvents p r")
  case (Inl err)
  then show ?thesis using AssociatedEvents_run [OF assms] by (simp add: MatchWhole_def)
next
  case (Inr es)
  with AssociatedEvents_run [OF assms] have es: "parts_accepted r p" "ev_id ` set es = associated_ids r p" "distinct (map ev_id es)"
    by simp_all
  show ?thesis
  proof (cases "accepted r p")
    case True
    obtain ms where ms: "MatchWithBindings p r = Inr ms" "canonical_results ms" "meaning_of ` set ms = meaning r p"
      using matches_run [OF assms True] by blast
    let ?whole = "\<lambda>m. eventSetKey (mr_events m) = eventSetKey es"
    have whole: "?whole m \<longleftrightarrow> fst (meaning_of m) = associated_ids r p" if "m \<in> set ms" for m
    proof -
      have "match_ok m" using that canonical_results_ok [OF ms(2)] by (simp add: list_all_iff)
      from eventSetKey_iff [OF match_okD(2) [OF this] es(3)] show ?thesis by (simp add: meaning_of_def es(2))
    qed
    have canonical: "canonical_results (filter ?whole ms)"
      by (rule canonical_results_filter [OF ms(2)])
    have "{m \<in> set ms. ?whole m} = {m \<in> set ms. fst (meaning_of m) = associated_ids r p}" using whole by blast
    then have "meaning_of ` set (filter ?whole ms) = {x \<in> meaning_of ` set ms. fst x = associated_ids r p}"
      unfolding set_filter by auto
    also have "\<dots> = {(S, m) \<in> meaning r p. S = associated_ids r p}"
      unfolding ms(3) by (rule Collect_cong) (simp add: case_prod_beta)
    finally have exact: "meaning_of ` set (filter ?whole ms) = {(S, m) \<in> meaning r p. S = associated_ids r p}" .
    have run: "MatchWhole p r = Inr (filter ?whole ms)" by (simp add: MatchWhole_def Inr ms(1))
    show ?thesis
      unfolding run sum.case using es(1) True canonical canonical_results_distinct [OF canonical] exact by blast
  next
    case False
    then show ?thesis
      using Inr matchWithBindings_run(1) [OF assms] by (cases "matchWithBindings r p") (simp_all add: MatchWhole_def MatchWithBindings_def)
  qed
qed

text \<open>C17: \<open>MatchWhole\<close> returns exactly the matches of the pattern that consist of its whole associated computation: every
  occurrence that one of its basic patterns denotes belongs to the match, and no other.  It reports an error
  exactly when the pattern or one of its parts is not accepted, and lists each match once, in canonical order.
  As for C15, the pattern must satisfy \<open>pattern_ok\<close>: its placeholders have valid names, an iteration without a
  maximum starts at zero or one, and no union or conjunction without a maximum repeats a pattern with placeholders.
  For those C16 shows that matches are lost, whole ones among them.\<close>

theorem match_whole_exact:
  assumes "reader_ok r" "pattern_ok p"
  shows "case MatchWhole p r of Inl err \<Rightarrow> \<not> (parts_accepted r p \<and> accepted r p)
    | Inr ms \<Rightarrow> parts_accepted r p \<and> accepted r p \<and> canonical_results ms \<and> distinct (map meaning_of ms)
        \<and> meaning_of ` set ms = {(S, m) \<in> meaning r p. S = associated_ids r p}"
  by (rule MatchWhole_run [OF assms])

lemma some_ticks_associated: "associated_ids r some_ticks = ev_id ` set (rd_ByName r ''tick'')"
proof -
  have single: "\<exists>i m. x = ({i}, m)" if "x \<in> basic_meaning r (MatchEvent ''tick'')" for x
    using that unfolding basic_meaning_def by blast
  have "\<Union> (fst ` basic_meaning r (MatchEvent ''tick'')) = ev_id ` set (rd_ByName r ''tick'')" (is "?L = ?R")
  proof (intro set_eqI iffI)
    fix i
    assume "i \<in> ?L"
    then obtain x where x: "x \<in> basic_meaning r (MatchEvent ''tick'')" "i \<in> fst x" by blast
    obtain j m where "x = ({j}, m)" using single [OF x(1)] by blast
    then show "i \<in> ?R" using x by (simp add: some_ticks_basic)
  next
    fix i
    assume "i \<in> ?R"
    then have "({i}, Map.empty) \<in> basic_meaning r (MatchEvent ''tick'')" by (simp add: some_ticks_basic)
    then have "i \<in> fst ({i}, Map.empty :: string \<rightharpoonup> go_value) \<and> ({i}, Map.empty) \<in> basic_meaning r (MatchEvent ''tick'')" by simp
    then show "i \<in> ?L" by blast
  qed
  then show ?thesis by (simp add: associated_ids_def some_ticks_def)
qed

lemma some_ticks_parts: "parts_accepted r some_ticks"
  using some_ticks_ok(2) [of r] by (simp add: some_ticks_def)

text \<open>Of the matches of \<open>[+ rel follows] tick\<close> over two ordered occurrences only the one with both is whole.\<close>

theorem match_whole_exact_witness:
  "\<exists>ms. MatchWhole some_ticks (reader_of ordered_events) = Inr ms \<and> ({''a'', ''b''}, Map.empty) \<in> meaning_of ` set ms
    \<and> (\<forall>m \<in> set ms. fst (meaning_of m) = {''a'', ''b''})"
proof (cases "MatchWhole some_ticks (reader_of ordered_events)")
  case (Inl err)
  then show ?thesis using match_whole_exact [OF ordered_events_reader some_ticks_ok(1)] some_ticks_parts some_ticks_ok(2) by simp
next
  case (Inr ms)
  then have ms: "meaning_of ` set ms = {(S, m) \<in> meaning (reader_of ordered_events) some_ticks. S = {''a'', ''b''}}"
    using match_whole_exact [OF ordered_events_reader some_ticks_ok(1)] unfolding some_ticks_associated ordered_ticks by simp
  then have "({''a'', ''b''}, Map.empty) \<in> meaning_of ` set ms" using some_ticks_ordered(1) by simp
  moreover have "\<forall>x \<in> meaning_of ` set ms. fst x = {''a'', ''b''}" unfolding ms by auto
  ultimately show ?thesis using Inr by auto
qed

end
