(* ===== verification/Constraint_Check.thy ===== *)
theory Constraint_Check
  imports Match_Whole Deterministic_Event
begin

text \<open>
  Pattern constraints (\<open>constraint/constraint.go\<close>, \<open>constraint/canonical.go\<close>): the canonical identity of a constraint, the
  view of the poset through its filter or alphabet, and the check of its clauses.  Clauses that read architecture
  state need condition patterns, which are not modelled, so no clause here takes state witnesses.
\<close>

section \<open>Constraints\<close>

datatype constraint_error = ErrConstraintEvaluation | ErrInvalidConstraintModel

definition MustMatch :: int where "MustMatch = 0"
definition MustNotMatch :: int where "MustNotMatch = 1"
definition MustNever :: int where "MustNever = 2"

lemmas kind_defs = MustMatch_def MustNotMatch_def MustNever_def

definition kindString :: "int \<Rightarrow> string" where
  \<comment> \<open>\<open>ConstraintKind.String\<close>\<close>
  "kindString k = (if k = MustMatch then ''MustMatch'' else if k = MustNotMatch then ''MustNotMatch''
     else if k = MustNever then ''MustNever'' else ''ConstraintKind('' @ decimalInt k @ '')'')"

record constraint_clause =
  cl_kind :: int
  cl_name :: string
  cl_pattern :: pattern
  cl_message :: string

record constraint =
  cn_name :: string
  cn_desc :: string
  cn_filter :: pattern
  cn_alphabet :: "pattern list"
  cn_clauses :: "constraint_clause list"
  cn_severity :: string

record violation =
  vi_constraint :: string
  vi_clause :: string
  vi_kind :: int
  vi_message :: string
  vi_events :: event_set
  vi_bindings :: bindings
  vi_severity :: string

section \<open>The builder\<close>

definition NewConstraint :: "string \<Rightarrow> constraint" where
  \<comment> \<open>the builder's fields are those of the constraint that it builds\<close>
  "NewConstraint name = \<lparr>cn_name = name, cn_desc = [], cn_filter = NilPattern, cn_alphabet = [], cn_clauses = [], cn_severity = ''error''\<rparr>"

definition FilterBy :: "pattern \<Rightarrow> constraint \<Rightarrow> constraint" where
  "FilterBy p b = b\<lparr>cn_filter := p\<rparr>"

definition FilterFrom :: "pattern list \<Rightarrow> constraint \<Rightarrow> constraint" where
  "FilterFrom patterns b = b\<lparr>cn_alphabet := patterns\<rparr>"

definition addClause :: "int \<Rightarrow> string \<Rightarrow> pattern \<Rightarrow> string \<Rightarrow> constraint \<Rightarrow> constraint" where
  \<comment> \<open>\<open>Must\<close>, \<open>MustNotMatch\<close> and \<open>MustNever\<close> of the builder\<close>
  "addClause k name p msg b = b\<lparr>cn_clauses := cn_clauses b @ [\<lparr>cl_kind = k, cl_name = name, cl_pattern = p, cl_message = msg\<rparr>]\<rparr>"

section \<open>The canonical model\<close>

fun DeterministicSingleEventKey :: "pattern \<Rightarrow> pattern_error + string" where
  "DeterministicSingleEventKey NilPattern = DeterministicKey NilPattern"
| "DeterministicSingleEventKey (BasicPattern basic) = DeterministicKey (BasicPattern basic)"
| "DeterministicSingleEventKey _ = Inl ErrOpaquePattern"

fun traverse :: "('a \<Rightarrow> 'e + 'b) \<Rightarrow> 'a list \<Rightarrow> 'e + 'b list" where
  "traverse f [] = Inr []"
| "traverse f (x # xs) = (case f x of Inl err \<Rightarrow> Inl err | Inr y \<Rightarrow> map_sum id ((#) y) (traverse f xs))"

record canonical_clause =
  cc_name :: string
  cc_kind :: string
  cc_pattern :: string
  cc_message :: string

definition jsonClause :: "canonical_clause \<Rightarrow> string" where
  "jsonClause cc = ''{\"name\":'' @ jsonString (cc_name cc) @ '',\"kind\":'' @ jsonString (cc_kind cc)
     @ '',\"pattern\":'' @ jsonString (cc_pattern cc) @ '',\"message\":'' @ jsonString (cc_message cc) @ ''}''"

definition jsonAlphabet :: "string list \<Rightarrow> string" where
  "jsonAlphabet keys = ''{\"kind\":'' @ jsonString ''alphabet'' @ '',\"patterns\":['' @ strings_join '','' (map jsonString keys) @ '']}''"

definition jsonModel :: "string \<Rightarrow> string \<Rightarrow> string \<Rightarrow> string \<Rightarrow> canonical_clause list \<Rightarrow> string" where
  \<comment> \<open>no clause is \<open>null\<close>, and an absent filter is omitted\<close>
  "jsonModel name desc severity filterKey clauses = ''{\"format\":'' @ jsonString ''gorapide.constraint-model.v5''
     @ '',\"name\":'' @ jsonString name @ '',\"description\":'' @ jsonString desc @ '',\"severity\":'' @ jsonString severity
     @ (if filterKey = [] then [] else '',\"filter\":'' @ jsonString filterKey)
     @ '',\"clauses\":'' @ (if clauses = [] then ''null'' else ''['' @ strings_join '','' (map jsonClause clauses) @ '']'') @ ''}''"

fun canonicalClauses :: "string set \<Rightarrow> constraint_clause list \<Rightarrow> constraint_error + canonical_clause list" where
  \<comment> \<open>the loop over the clauses, with \<open>seenNames\<close>\<close>
  "canonicalClauses seen [] = Inr []"
| "canonicalClauses seen (clause # rest) =
     (if cl_name clause = [] \<or> cl_name clause \<in> seen then Inl ErrInvalidConstraintModel
      else if cl_kind clause \<noteq> MustMatch \<and> cl_kind clause \<noteq> MustNotMatch \<and> cl_kind clause \<noteq> MustNever then Inl ErrInvalidConstraintModel
      else case DeterministicKey (cl_pattern clause) of Inl err \<Rightarrow> Inl ErrInvalidConstraintModel
      | Inr key \<Rightarrow> map_sum id ((#) \<lparr>cc_name = cl_name clause, cc_kind = kindString (cl_kind clause), cc_pattern = key,
            cc_message = cl_message clause\<rparr>) (canonicalClauses (insert (cl_name clause) seen) rest))"

definition filterModel :: "constraint \<Rightarrow> constraint_error + string" where
  \<comment> \<open>the filter's key, or the alphabet's sorted keys without repetitions\<close>
  "filterModel c =
     (if \<not> is_nil (cn_filter c) \<and> cn_alphabet c \<noteq> [] then Inl ErrInvalidConstraintModel
      else if \<not> is_nil (cn_filter c) then
        (case DeterministicKey (cn_filter c) of Inl err \<Rightarrow> Inl ErrInvalidConstraintModel | Inr key \<Rightarrow> Inr key)
      else if cn_alphabet c \<noteq> [] then
        (case traverse DeterministicSingleEventKey (cn_alphabet c) of Inl err \<Rightarrow> Inl ErrInvalidConstraintModel
         | Inr keys \<Rightarrow> Inr (jsonAlphabet (remdups_adj (sort keys))))
      else Inr [])"

definition constraintModel :: "constraint option \<Rightarrow> constraint_error + string" where
  \<comment> \<open>the text that \<open>DeterministicDigest\<close> hashes\<close>
  "constraintModel constraint = (case constraint of None \<Rightarrow> Inl ErrInvalidConstraintModel
     | Some c \<Rightarrow>
         if cn_name c = [] then Inl ErrInvalidConstraintModel
         else if cn_severity c \<noteq> ''error'' \<and> cn_severity c \<noteq> ''warning'' \<and> cn_severity c \<noteq> ''info'' then Inl ErrInvalidConstraintModel
         else case filterModel c of Inl err \<Rightarrow> Inl err
         | Inr filterKey \<Rightarrow> (case canonicalClauses {} (cn_clauses c) of Inl err \<Rightarrow> Inl err
            | Inr clauses \<Rightarrow> Inr (jsonModel (cn_name c) (cn_desc c) (cn_severity c) filterKey (sort_key jsonClause clauses))))"

definition DeterministicDigest :: "(string \<Rightarrow> string) \<Rightarrow> constraint option \<Rightarrow> constraint_error + string" where
  "DeterministicDigest sha256 constraint = map_sum id (\<lambda>encoded. ''sha256:'' @ hexEncode (sha256 encoded)) (constraintModel constraint)"

section \<open>The view of a constraint\<close>

definition hasEvaluationFilter :: "constraint \<Rightarrow> bool" where
  "hasEvaluationFilter c \<longleftrightarrow> \<not> is_nil (cn_filter c) \<or> length (cn_alphabet c) \<noteq> 0"

fun collectViews :: "(event_id \<times> string \<times> string) set \<Rightarrow> event_set \<Rightarrow> event_set" where
  \<comment> \<open>each matched view once\<close>
  "collectViews seen [] = []"
| "collectViews seen (e # es) =
     (if (ev_id e, ev_source e, ev_name e) \<in> seen then collectViews seen es
      else e # collectViews (insert (ev_id e, ev_source e, ev_name e) seen) es)"

definition viewFilters :: "constraint \<Rightarrow> pattern list" where
  "viewFilters c = (if \<not> is_nil (cn_filter c) then [cn_filter c] else cn_alphabet c)"

definition evaluationView :: "constraint \<Rightarrow> poset_reader \<Rightarrow> constraint_error + poset_reader" where
  "evaluationView c r =
     (if \<not> hasEvaluationFilter c then Inr r
      else case traverse (\<lambda>p. MatchWithBindings p r) (viewFilters c) of Inl err \<Rightarrow> Inl ErrConstraintEvaluation
        | Inr results \<Rightarrow>
            (case NewProjection r (collectViews {} (concat (map mr_events (concat results)))) of Inl err \<Rightarrow> Inl ErrConstraintEvaluation
             | Inr pj \<Rightarrow> Inr (projection_reader pj)))"

section \<open>The check\<close>

definition violationOf :: "constraint \<Rightarrow> constraint_clause \<Rightarrow> int \<Rightarrow> event_set \<Rightarrow> bindings \<Rightarrow> violation" where
  "violationOf c clause k es bs = \<lparr>vi_constraint = cn_name c, vi_clause = cl_name clause, vi_kind = k, vi_message = cl_message clause,
     vi_events = es, vi_bindings = bs, vi_severity = cn_severity c\<rparr>"

definition checkClause :: "constraint \<Rightarrow> poset_reader \<Rightarrow> constraint_clause \<Rightarrow> constraint_error + violation list" where
  \<comment> \<open>the body of the loop in \<open>checkDeterministicView\<close>; the first test is that of \<open>RequiresStateWitnesses\<close>\<close>
  "checkClause c view clause =
     (case DeterministicKey (cl_pattern clause) of Inl err \<Rightarrow> Inl ErrConstraintEvaluation
      | Inr key \<Rightarrow>
          if cl_kind clause = MustMatch then
            (case MatchWhole (cl_pattern clause) view of Inl err \<Rightarrow> Inl ErrConstraintEvaluation
             | Inr matches \<Rightarrow>
                 if length matches = 0 then
                   (case AssociatedEvents (cl_pattern clause) view of Inl err \<Rightarrow> Inl ErrConstraintEvaluation
                    | Inr whole_view \<Rightarrow> Inr [violationOf c clause MustMatch whole_view []])
                 else Inr [])
          else if cl_kind clause = MustNotMatch then
            (case MatchWhole (cl_pattern clause) view of Inl err \<Rightarrow> Inl ErrConstraintEvaluation
             | Inr matches \<Rightarrow> Inr (map (\<lambda>m. violationOf c clause MustNotMatch (mr_events m) (mr_bindings m)) matches))
          else if cl_kind clause = MustNever then
            (case MatchWithBindings (cl_pattern clause) view of Inl err \<Rightarrow> Inl ErrConstraintEvaluation
             | Inr matches \<Rightarrow> Inr (map (\<lambda>m. violationOf c clause MustNever (mr_events m) (mr_bindings m)) matches))
          else Inl ErrConstraintEvaluation)"

definition checkDeterministicView :: "constraint \<Rightarrow> poset_reader \<Rightarrow> constraint_error + violation list" where
  "checkDeterministicView c view = map_sum id concat (traverse (checkClause c view) (cn_clauses c))"

definition CheckDeterministic :: "constraint option \<Rightarrow> poset_reader option \<Rightarrow> constraint_error + violation list" where
  "CheckDeterministic constraint poset = (case constraint of None \<Rightarrow> Inl ErrConstraintEvaluation
     | Some c \<Rightarrow> (case poset of None \<Rightarrow> Inl ErrConstraintEvaluation
        | Some r \<Rightarrow> (case constraintModel constraint of Inl err \<Rightarrow> Inl ErrConstraintEvaluation
            | Inr encoded \<Rightarrow> (case evaluationView c r of Inl err \<Rightarrow> Inl err
                | Inr view \<Rightarrow> checkDeterministicView c view))))"

definition Check :: "(constraint_error \<Rightarrow> string) \<Rightarrow> constraint option \<Rightarrow> poset_reader \<Rightarrow> violation list" where
  \<comment> \<open>an error becomes a violation whose message is the error's text\<close>
  "Check text_of constraint r = (case CheckDeterministic constraint (Some r) of Inr violations \<Rightarrow> violations
     | Inl err \<Rightarrow>
         [\<lparr>vi_constraint = (case constraint of None \<Rightarrow> [] | Some c \<Rightarrow> cn_name c), vi_clause = ''evaluation'', vi_kind = MustMatch,
           vi_message = text_of err, vi_events = [], vi_bindings = [],
           vi_severity = (case constraint of None \<Rightarrow> ''error'' | Some c \<Rightarrow> if cn_severity c \<noteq> [] then cn_severity c else ''error'')\<rparr>])"

section \<open>The view is the visible part of the poset\<close>

lemma traverse_Inr: "traverse f xs = Inr ys \<longleftrightarrow> map f xs = map Inr ys"
  by (induction xs arbitrary: ys) (auto simp: sum_map_Inr split: sum.splits)

lemma traverse_Inl: "traverse f xs = Inl err \<Longrightarrow> \<exists>x \<in> set xs. f x = Inl err"
proof (induction xs)
  case (Cons x xs)
  then show ?case by (cases "f x"; cases "traverse f xs") auto
qed simp

lemma traverse_total: "\<forall>x \<in> set xs. \<exists>y. f x = Inr y \<Longrightarrow> \<exists>ys. traverse f xs = Inr ys"
  by (induction xs) auto

abbreviation view_key :: "event \<Rightarrow> event_id \<times> string \<times> string" where
  "view_key e \<equiv> (ev_id e, ev_source e, ev_name e)"

lemma collectViews_set: "set (collectViews seen es) \<subseteq> set es" "distinct (map view_key (collectViews seen es))"
    "view_key ` set (collectViews seen es) = view_key ` set es - seen"
  by (induction seen es rule: collectViews.induct) auto

lemma collectViews_ids: "ev_id ` set (collectViews {} es) = ev_id ` set es"
proof -
  have "ev_id ` set fs = fst ` view_key ` set fs" for fs by (simp add: image_image)
  then show ?thesis using collectViews_set(3) [of "{}" es] by simp
qed

lemma projectionViews_total:
  "(\<And>e. e \<in> set es \<Longrightarrow> ev_id e \<noteq> [] \<and> ev_id e \<in> ids \<and> seen (projectionViewKey e) = None) \<Longrightarrow> distinct (map view_key es)
    \<Longrightarrow> \<exists>views. projectionViews ids es seen = Inr views"
proof (induction es arbitrary: seen)
  case (Cons e es)
  have "projectionViewKey f \<noteq> projectionViewKey e" if "f \<in> set es" for f
  proof -
    have "view_key f \<in> view_key ` set es" using that by (rule imageI)
    moreover have "view_key e \<notin> view_key ` set es" using Cons.prems(2) by simp
    ultimately have "view_key f \<noteq> view_key e" by metis
    then show ?thesis by (auto simp: projectionViewKey_iff)
  qed
  then have "\<exists>views. projectionViews ids es (seen(projectionViewKey e \<mapsto> snapshotEvent e)) = Inr views"
  proof (intro Cons.IH)
    show "ev_id f \<noteq> [] \<and> ev_id f \<in> ids \<and> (seen(projectionViewKey e \<mapsto> snapshotEvent e)) (projectionViewKey f) = None"
      if "f \<in> set es" "\<And>f. f \<in> set es \<Longrightarrow> projectionViewKey f \<noteq> projectionViewKey e" for f
      using Cons.prems(1) [of f] that by simp
    show "distinct (map view_key es)" using Cons.prems(2) by simp
  qed
  then obtain views where "projectionViews ids es (seen(projectionViewKey e \<mapsto> snapshotEvent e)) = Inr views" ..
  then show ?case using Cons.prems(1) [of e] by simp
qed simp

lemma NewProjection_total:
  assumes "\<And>e. e \<in> set es \<Longrightarrow> ev_id e \<noteq> [] \<and> ev_id e \<in> reader_ids r" "distinct (map view_key es)"
  shows "\<exists>pj. NewProjection r es = Inr pj"
proof -
  have "ev_id e \<in> ev_id ` {e \<in> set (rd_All r). ev_id e \<noteq> []}" if "e \<in> set es" for e
    using assms(1) [OF that] by (auto simp: reader_ids_def)
  then obtain views where "projectionViews (ev_id ` {e \<in> set (rd_All r). ev_id e \<noteq> []}) es Map.empty = Inr views"
    using projectionViews_total [of es _ Map.empty] assms by fastforce
  then show ?thesis by (simp add: NewProjection_def Let_def)
qed

lemma projection_reader_ok:
  assumes src: "reader_laws r" and pj: "NewProjection r es = Inr pj" and ok: "\<And>e. e \<in> set es \<Longrightarrow> event_ok e"
  shows "reader_ok (projection_reader pj)" "reader_ids (projection_reader pj) = ev_id ` set es"
    "rd_IsCausallyBefore (projection_reader pj) a b \<longleftrightarrow> a \<in> ev_id ` set es \<and> b \<in> ev_id ` set es \<and> rd_IsCausallyBefore r a b"
proof -
  note facts = NewProjection_Inr [OF src pj]
  have laws: "reader_laws (projection_reader pj)" by (rule projection_view.laws [OF facts(1)])
  have all: "\<forall>e \<in> set (rd_All (projection_reader pj)). event_ok e" using facts(6) ok by (auto simp: projectionAll_def)
  have named: "\<forall>e \<in> set (rd_ByName (projection_reader pj) name). event_ok e" for name
    using facts(4) ok by (auto simp: projectionByName_def)
  show "reader_ok (projection_reader pj)" using laws all named by (simp add: reader_ok_def)
  show "reader_ids (projection_reader pj) = ev_id ` set es" using projection_reader_ids [OF facts(1)] facts(3) by simp
  show "rd_IsCausallyBefore (projection_reader pj) a b \<longleftrightarrow> a \<in> ev_id ` set es \<and> b \<in> ev_id ` set es \<and> rd_IsCausallyBefore r a b"
    using facts(2) by (simp add: projectionBefore_def facts(3) [symmetric])
qed

lemma matches_events_ok:
  assumes "reader_ok r" "meaning_of ` set ms = meaning r p" "canonical_results ms" "m \<in> set ms" "e \<in> set (mr_events m)"
  shows "event_ok e \<and> ev_id e \<in> reader_ids r"
proof
  have "match_ok m" using canonical_results_ok [OF assms(3)] assms(4) by (simp add: list_all_iff)
  then show "event_ok e" using match_okD(1) assms(5) by blast
  have "meaning_of m \<in> meaning r p" using assms(2,4) by blast
  then have "(ev_id ` set (mr_events m), map_of (mr_bindings m)) \<in> meaning r p" by (simp add: meaning_of_def)
  moreover have "grounded r False (meaning r p)" by (rule grounded_meaning(1) [OF assms(1)]) simp
  ultimately have "ev_id ` set (mr_events m) \<subseteq> reader_ids r" using groundedD by blast
  then show "ev_id e \<in> reader_ids r" using assms(5) by blast
qed

definition selected_ids :: "constraint \<Rightarrow> poset_reader \<Rightarrow> event_id set" where
  \<comment> \<open>the occurrences of the matches of the filter, or of the patterns of the alphabet\<close>
  "selected_ids c r = (if hasEvaluationFilter c then \<Union>p \<in> set (viewFilters c). \<Union> (fst ` meaning r p) else reader_ids r)"

definition restricts :: "poset_reader \<Rightarrow> event_id set \<Rightarrow> poset_reader \<Rightarrow> bool" where
  \<comment> \<open>a causal reader over some occurrences of another, which it relates as that does\<close>
  "restricts r V view \<longleftrightarrow> reader_ok view \<and> reader_ids view = V
     \<and> (\<forall>a b. rd_IsCausallyBefore view a b \<longleftrightarrow> a \<in> V \<and> b \<in> V \<and> rd_IsCausallyBefore r a b)"

lemma filters_run:
  assumes r: "reader_ok r" and ok: "list_all pattern_ok ps"
  shows "case traverse (\<lambda>p. MatchWithBindings p r) ps of Inl err \<Rightarrow> \<not> list_all (accepted r) ps
    | Inr results \<Rightarrow> list_all (accepted r) ps \<and> list_all2 (\<lambda>p ms. canonical_results ms \<and> meaning_of ` set ms = meaning r p) ps results"
  using ok
proof (induction ps)
  case (Cons p ps)
  show ?case
  proof (cases "accepted r p")
    case True
    have "\<exists>ms. MatchWithBindings p r = Inr ms \<and> canonical_results ms \<and> meaning_of ` set ms = meaning r p"
      by (rule matches_run [OF r _ True]) (use Cons.prems in simp)
    then obtain ms where "MatchWithBindings p r = Inr ms" "canonical_results ms" "meaning_of ` set ms = meaning r p" by blast
    then show ?thesis using Cons True by (cases "traverse (\<lambda>p. MatchWithBindings p r) ps") simp_all
  next
    case False
    have "evaluates (accepted r p) (matchWithBindings r p) (meaning r p)" using matchWithBindings_run(1) [OF r] Cons.prems by simp
    then have "isl (MatchWithBindings p r)" using False by (cases "matchWithBindings r p") (simp_all add: MatchWithBindings_def)
    then show ?thesis using False by (cases "MatchWithBindings p r") simp_all
  qed
qed simp

lemma matched_ids:
  "ev_id ` set (concat (map mr_events (concat results))) = \<Union> ((\<lambda>A. \<Union> (fst ` A)) ` set (map (\<lambda>ms. meaning_of ` set ms) results))"
proof -
  have "ev_id ` set (concat (map mr_events ms)) = \<Union> (fst ` (meaning_of ` set ms))" for ms
    by (induction ms) (simp_all add: meaning_of_def image_Un)
  then show ?thesis by (induction results) (simp_all add: image_Un)
qed

lemma evaluationView_run:
  assumes r: "reader_ok r" and ok: "list_all pattern_ok (viewFilters c)"
  shows "case evaluationView c r of Inl err \<Rightarrow> \<not> list_all (accepted r) (viewFilters c)
    | Inr view \<Rightarrow> list_all (accepted r) (viewFilters c) \<and> restricts r (selected_ids c r) view"
proof (cases "hasEvaluationFilter c")
  case False
  then have "viewFilters c = []" by (simp add: hasEvaluationFilter_def viewFilters_def)
  moreover have "rd_IsCausallyBefore r a b \<Longrightarrow> a \<in> reader_ids r \<and> b \<in> reader_ids r" for a b
    using r readers.before_listed by (simp add: reader_ok_def)
  ultimately have "restricts r (selected_ids c r) r"
    using False r unfolding restricts_def selected_ids_def by auto
  then show ?thesis using False \<open>viewFilters c = []\<close> by (simp add: evaluationView_def)
next
  case filtered: True
  show ?thesis
  proof (cases "traverse (\<lambda>p. MatchWithBindings p r) (viewFilters c)")
    case (Inl err)
    then show ?thesis using filters_run [OF r ok] filtered by (simp add: evaluationView_def)
  next
    case (Inr results)
    with filters_run [OF r ok] have acc: "list_all (accepted r) (viewFilters c)"
      and res: "list_all2 (\<lambda>p ms. canonical_results ms \<and> meaning_of ` set ms = meaning r p) (viewFilters c) results" by simp_all
    let ?es = "concat (map mr_events (concat results))"
    let ?vs = "collectViews {} ?es"
    have "list_all (\<lambda>ms. \<exists>p. canonical_results ms \<and> meaning_of ` set ms = meaning r p) results"
      using res by (induction rule: list_all2_induct) auto
    then have found: "\<exists>p. canonical_results ms \<and> meaning_of ` set ms = meaning r p" if "ms \<in> set results" for ms
      using that by (simp add: list_all_iff)
    have maps: "map (\<lambda>ms. meaning_of ` set ms) results = map (meaning r) (viewFilters c)"
      using res by (induction rule: list_all2_induct) simp_all
    have events: "event_ok e \<and> ev_id e \<in> reader_ids r" if "e \<in> set ?es" for e
    proof -
      from that obtain ms m where m: "ms \<in> set results" "m \<in> set ms" "e \<in> set (mr_events m)" by auto
      obtain p where "canonical_results ms" "meaning_of ` set ms = meaning r p" using found [OF m(1)] by blast
      then show ?thesis using matches_events_ok [OF r _ _ m(2,3)] by blast
    qed
    have "ev_id ` set ?es = \<Union> ((\<lambda>A. \<Union> (fst ` A)) ` set (map (\<lambda>ms. meaning_of ` set ms) results))"
      by (rule matched_ids)
    also have "\<dots> = (\<Union>p \<in> set (viewFilters c). \<Union> (fst ` meaning r p))" unfolding maps by simp
    finally have ids: "ev_id ` set ?vs = selected_ids c r" using filtered by (simp add: collectViews_ids selected_ids_def)
    have vs: "event_ok e \<and> ev_id e \<in> reader_ids r" if "e \<in> set ?vs" for e
      using events collectViews_set(1) [of "{}" ?es] that by blast
    obtain pj where pj: "NewProjection r ?vs = Inr pj"
      using NewProjection_total [of ?vs r] vs event_okD collectViews_set(2) by blast
    have laws: "reader_laws r" using r by (simp add: reader_ok_def)
    have "restricts r (selected_ids c r) (projection_reader pj)"
      using projection_reader_ok [OF laws pj] vs unfolding restricts_def ids by blast
    then show ?thesis using acc filtered Inr pj by (simp add: evaluationView_def)
  qed
qed

section \<open>The verdict of a clause\<close>

definition clause_accepted :: "poset_reader \<Rightarrow> constraint_clause \<Rightarrow> bool" where
  "clause_accepted view clause \<longleftrightarrow> accepted view (cl_pattern clause)
     \<and> (cl_kind clause = MustNever \<or> parts_accepted view (cl_pattern clause))"

definition verdict :: "poset_reader \<Rightarrow> constraint_clause \<Rightarrow> match_meaning set" where
  \<comment> \<open>what the clause reports: occurrences with an assignment\<close>
  "verdict view clause = (let p = cl_pattern clause; whole = {(S, m) \<in> meaning view p. S = associated_ids view p} in
     if cl_kind clause = MustMatch then (if whole = {} then {(associated_ids view p, Map.empty)} else {})
     else if cl_kind clause = MustNotMatch then whole
     else meaning view p)"

definition reported :: "violation \<Rightarrow> match_meaning" where
  "reported v = (ev_id ` set (vi_events v), map_of (vi_bindings v))"

definition describes :: "constraint \<Rightarrow> constraint_clause \<Rightarrow> violation \<Rightarrow> bool" where
  \<comment> \<open>the violation names the constraint and the clause and lists each occurrence once\<close>
  "describes c clause v \<longleftrightarrow> vi_constraint v = cn_name c \<and> vi_severity v = cn_severity c \<and> vi_clause v = cl_name clause
     \<and> vi_kind v = cl_kind clause \<and> vi_message v = cl_message clause \<and> distinct (map ev_id (vi_events v))"

lemma reported_violationOf: "reported (violationOf c clause k (mr_events m) (mr_bindings m)) = meaning_of m"
  by (simp add: reported_def violationOf_def meaning_of_def)

lemma reported_map: "reported ` set (map (\<lambda>m. violationOf c clause k (mr_events m) (mr_bindings m)) ms) = meaning_of ` set ms"
  by (simp add: image_image reported_violationOf)

lemma describes_violationOf:
  "k = cl_kind clause \<Longrightarrow> distinct (map ev_id es) \<Longrightarrow> describes c clause (violationOf c clause k es bs)"
  by (simp add: describes_def violationOf_def)

text \<open>The violations of a list of matches, one each.\<close>

lemma violations_of_matches:
  fixes c :: constraint
  assumes "canonical_results ms" "k = cl_kind clause"
  defines "vs \<equiv> map (\<lambda>m. violationOf c clause k (mr_events m) (mr_bindings m)) ms"
  shows "reported ` set vs = meaning_of ` set ms" "distinct (map reported vs)" "\<forall>v \<in> set vs. describes c clause v"
proof -
  have "map reported vs = map meaning_of ms" by (simp add: vs_def reported_violationOf)
  then show "distinct (map reported vs)" using canonical_results_distinct [OF assms(1)] by simp
  show "reported ` set vs = meaning_of ` set ms" unfolding vs_def by (rule reported_map)
  show "\<forall>v \<in> set vs. describes c clause v"
    using canonical_results_ok [OF assms(1)] assms(2)
    by (auto simp: vs_def list_all_iff match_ok_def intro!: describes_violationOf)
qed

lemma checkClause_run:
  assumes r: "reader_ok view" and p: "pattern_ok (cl_pattern clause)" and key: "DeterministicKey (cl_pattern clause) = Inr key"
    and k: "cl_kind clause \<in> {MustMatch, MustNotMatch, MustNever}"
  shows "case checkClause c view clause of Inl err \<Rightarrow> \<not> clause_accepted view clause
    | Inr vs \<Rightarrow> clause_accepted view clause \<and> reported ` set vs = verdict view clause \<and> distinct (map reported vs)
        \<and> (\<forall>v \<in> set vs. describes c clause v)"
proof (cases "cl_kind clause = MustNever")
  case True
  have other: "cl_kind clause \<noteq> MustMatch" "cl_kind clause \<noteq> MustNotMatch" using True by (simp_all add: kind_defs)
  show ?thesis
  proof (cases "accepted view (cl_pattern clause)")
    case accepted: True
    obtain ms where ms: "MatchWithBindings (cl_pattern clause) view = Inr ms" "canonical_results ms"
        "meaning_of ` set ms = meaning view (cl_pattern clause)"
      using matches_run [OF r p accepted] by blast
    have "checkClause c view clause = Inr (map (\<lambda>m. violationOf c clause MustNever (mr_events m) (mr_bindings m)) ms)"
      using True other key ms(1) by (simp add: checkClause_def)
    moreover have "clause_accepted view clause" "verdict view clause = meaning_of ` set ms"
      using True accepted other ms(3) by (simp_all add: clause_accepted_def verdict_def)
    ultimately show ?thesis using violations_of_matches [OF ms(2) True [symmetric], of c] by simp
  next
    case False
    have "evaluates (accepted view (cl_pattern clause)) (matchWithBindings view (cl_pattern clause)) (meaning view (cl_pattern clause))"
      by (rule matchWithBindings_run(1) [OF r p])
    then have "isl (MatchWithBindings (cl_pattern clause) view)"
      using False by (cases "matchWithBindings view (cl_pattern clause)") (simp_all add: MatchWithBindings_def)
    then show ?thesis using True False other key
      by (cases "MatchWithBindings (cl_pattern clause) view") (simp_all add: checkClause_def clause_accepted_def)
  qed
next
  case False
  then have kind: "cl_kind clause = MustMatch \<or> cl_kind clause = MustNotMatch" using k by auto
  show ?thesis
  proof (cases "MatchWhole (cl_pattern clause) view")
    case (Inl err)
    then have "\<not> clause_accepted view clause" using MatchWhole_run [OF r p] False by (auto simp: clause_accepted_def)
    then show ?thesis using Inl kind key by (auto simp: checkClause_def)
  next
    case (Inr ms)
    with MatchWhole_run [OF r p] have acc: "clause_accepted view clause" and parts: "parts_accepted view (cl_pattern clause)"
      and ms: "meaning_of ` set ms = {(S, m) \<in> meaning view (cl_pattern clause). S = associated_ids view (cl_pattern clause)}"
      and canonical: "canonical_results ms"
      by (simp_all add: clause_accepted_def)
    obtain es where es: "AssociatedEvents (cl_pattern clause) view = Inr es" "ev_id ` set es = associated_ids view (cl_pattern clause)"
        "distinct (map ev_id es)"
      using AssociatedEvents_run [OF r p] parts by (cases "AssociatedEvents (cl_pattern clause) view") simp_all
    have empty: "ms = [] \<longleftrightarrow> {(S, m) \<in> meaning view (cl_pattern clause). S = associated_ids view (cl_pattern clause)} = {}"
      unfolding ms [symmetric] by simp
    show ?thesis
    proof (cases "cl_kind clause = MustMatch")
      case True
      then have v: "verdict view clause = (if ms = [] then {(associated_ids view (cl_pattern clause), Map.empty)} else {})"
        unfolding verdict_def Let_def empty by simp
      have run: "checkClause c view clause = Inr (if ms = [] then [violationOf c clause MustMatch es []] else [])"
        using True Inr key es(1) by (simp add: checkClause_def)
      have "reported (violationOf c clause MustMatch es []) = (associated_ids view (cl_pattern clause), Map.empty)"
        using es(2) by (simp add: reported_def violationOf_def)
      then show ?thesis unfolding run sum.case v using acc True es(3) by (simp add: describes_violationOf)
    next
      case False
      then have k: "cl_kind clause = MustNotMatch" using kind by simp
      then have run: "checkClause c view clause = Inr (map (\<lambda>m. violationOf c clause MustNotMatch (mr_events m) (mr_bindings m)) ms)"
        using key Inr by (simp add: checkClause_def kind_defs)
      have v: "verdict view clause = meaning_of ` set ms" using k unfolding ms verdict_def Let_def by (simp add: kind_defs)
      show ?thesis unfolding run sum.case v using acc violations_of_matches [OF canonical k [symmetric], of c] by simp
    qed
  qed
qed

section \<open>The check\<close>

lemma canonicalClauses_Inr:
  "canonicalClauses seen clauses = Inr ccs \<Longrightarrow> distinct (map cl_name clauses) \<and> cl_name ` set clauses \<inter> seen = {}
    \<and> (\<forall>cl \<in> set clauses. cl_kind cl \<in> {MustMatch, MustNotMatch, MustNever} \<and> (\<exists>key. DeterministicKey (cl_pattern cl) = Inr key))"
proof (induction seen clauses arbitrary: ccs rule: canonicalClauses.induct)
  case (2 seen clause rest)
  have name: "\<not> (cl_name clause = [] \<or> cl_name clause \<in> seen)"
    and kind: "\<not> (cl_kind clause \<noteq> MustMatch \<and> cl_kind clause \<noteq> MustNotMatch \<and> cl_kind clause \<noteq> MustNever)"
    using "2.prems" by (auto split: if_splits)
  obtain key where key: "DeterministicKey (cl_pattern clause) = Inr key"
    using "2.prems" name kind by (cases "DeterministicKey (cl_pattern clause)") simp_all
  then obtain rest' where rest: "canonicalClauses (insert (cl_name clause) seen) rest = Inr rest'"
    using "2.prems" name kind by (cases "canonicalClauses (insert (cl_name clause) seen) rest") simp_all
  show ?case using "2.IH" [OF name kind key rest] name kind key by auto
qed simp

lemma constraintModel_clauses:
  assumes "constraintModel (Some c) = Inr encoded"
  shows "distinct (map cl_name (cn_clauses c))"
    "cl \<in> set (cn_clauses c) \<Longrightarrow> cl_kind cl \<in> {MustMatch, MustNotMatch, MustNever}"
    "cl \<in> set (cn_clauses c) \<Longrightarrow> \<exists>key. DeterministicKey (cl_pattern cl) = Inr key"
proof -
  obtain ccs where "canonicalClauses {} (cn_clauses c) = Inr ccs"
    using assms by (auto simp: constraintModel_def split: if_splits sum.splits)
  note facts = canonicalClauses_Inr [OF this]
  show "distinct (map cl_name (cn_clauses c))" using facts by blast
  show "cl \<in> set (cn_clauses c) \<Longrightarrow> cl_kind cl \<in> {MustMatch, MustNotMatch, MustNever}" using facts by blast
  show "cl \<in> set (cn_clauses c) \<Longrightarrow> \<exists>key. DeterministicKey (cl_pattern cl) = Inr key" using facts by blast
qed

definition reports :: "violation list \<Rightarrow> constraint_clause \<Rightarrow> match_meaning set \<Rightarrow> bool" where
  \<comment> \<open>the violations of the clause are these, each once\<close>
  "reports vs clause found \<longleftrightarrow> (let mine = filter (\<lambda>v. vi_clause v = cl_name clause) vs
     in reported ` set mine = found \<and> distinct (map reported mine))"

lemma clauses_run:
  assumes "\<And>cl. cl \<in> set cls \<Longrightarrow> case f cl of Inl err \<Rightarrow> \<not> P cl
      | Inr vs \<Rightarrow> P cl \<and> reported ` set vs = V cl \<and> distinct (map reported vs) \<and> (\<forall>v \<in> set vs. describes c cl v)"
    and "distinct (map cl_name cls)"
  shows "case traverse f cls of Inl err \<Rightarrow> \<exists>cl \<in> set cls. \<not> P cl
    | Inr rows \<Rightarrow> (\<forall>cl \<in> set cls. P cl \<and> reports (concat rows) cl (V cl))
        \<and> (\<forall>v \<in> set (concat rows). \<exists>cl \<in> set cls. describes c cl v)"
  using assms
proof (induction cls)
  case (Cons cl cls)
  show ?case
  proof (cases "f cl")
    case (Inl err)
    then show ?thesis using Cons.prems(1) [of cl] by simp
  next
    case (Inr vs)
    with Cons.prems(1) [of cl] have cl: "P cl" "reported ` set vs = V cl" "distinct (map reported vs)"
      "\<forall>v \<in> set vs. describes c cl v" by simp_all
    have ih: "case traverse f cls of Inl err \<Rightarrow> \<exists>cl \<in> set cls. \<not> P cl
      | Inr rows \<Rightarrow> (\<forall>cl \<in> set cls. P cl \<and> reports (concat rows) cl (V cl))
        \<and> (\<forall>v \<in> set (concat rows). \<exists>cl \<in> set cls. describes c cl v)"
      using Cons.IH Cons.prems by simp
    show ?thesis
    proof (cases "traverse f cls")
      case rows: (Inr rows)
      have both: "(\<forall>cl \<in> set cls. P cl \<and> reports (concat rows) cl (V cl))
          \<and> (\<forall>v \<in> set (concat rows). \<exists>cl \<in> set cls. describes c cl v)"
        using ih unfolding rows sum.case .
      have named: "v \<in> set vs \<Longrightarrow> vi_clause v = cl_name cl" for v using cl(4) by (simp add: describes_def)
      have others: "v \<in> set (concat rows) \<Longrightarrow> vi_clause v \<noteq> cl_name cl" for v
      proof -
        assume "v \<in> set (concat rows)"
        then obtain d where "d \<in> set cls" "describes c d v" using both by blast
        then have "cl_name d \<in> cl_name ` set cls" "vi_clause v = cl_name d" by (simp_all add: describes_def)
        then show ?thesis using Cons.prems(2) by auto
      qed
      have mine: "filter (\<lambda>v. vi_clause v = cl_name cl) (concat (vs # rows)) = vs"
        using named others by (simp add: filter_empty_conv filter_id_conv)
      have rest: "filter (\<lambda>v. vi_clause v = cl_name d) (concat (vs # rows)) = filter (\<lambda>v. vi_clause v = cl_name d) (concat rows)"
        if "d \<in> set cls" for d using named that Cons.prems(2) by (auto simp: filter_empty_conv)
      have "\<forall>d \<in> set (cl # cls). P d \<and> reports (concat (vs # rows)) d (V d)"
      proof
        fix d
        assume "d \<in> set (cl # cls)"
        then consider "d = cl" | "d \<in> set cls" by auto
        then show "P d \<and> reports (concat (vs # rows)) d (V d)"
        proof cases
          case 1
          show ?thesis using cl(1-3) unfolding 1 reports_def Let_def mine by blast
        next
          case 2
          show ?thesis using both 2 unfolding reports_def Let_def rest [OF 2] by blast
        qed
      qed
      moreover have "\<forall>v \<in> set (concat (vs # rows)). \<exists>d \<in> set (cl # cls). describes c d v" using cl(4) both by auto
      ultimately show ?thesis using Inr rows by simp
    qed (use ih Inr in simp)
  qed
qed simp

definition patterns_ok :: "constraint \<Rightarrow> bool" where
  "patterns_ok c \<longleftrightarrow> list_all pattern_ok (viewFilters c) \<and> list_all (\<lambda>cl. pattern_ok (cl_pattern cl)) (cn_clauses c)"


text \<open>Over two ordered ticks the forbidden exact match of \<open>[+ rel follows] tick\<close> is reported with both.\<close>

definition no_tick_chain :: constraint where
  "no_tick_chain = addClause MustNotMatch ''chain'' some_ticks ''the ticks form a chain'' (NewConstraint ''ticks'')"

lemma no_tick_chain_ok: "patterns_ok no_tick_chain" "\<exists>encoded. constraintModel (Some no_tick_chain) = Inr encoded"
proof -
  have key: "\<exists>key. DeterministicKey some_ticks = Inr key"
    by (simp add: some_ticks_def deterministicBasicKey_def MatchEvent_def MatchAny_def sourceDescriptor_def)
  then obtain key where "DeterministicKey some_ticks = Inr key" ..
  then show "\<exists>encoded. constraintModel (Some no_tick_chain) = Inr encoded"
    by (simp add: constraintModel_def filterModel_def no_tick_chain_def addClause_def NewConstraint_def)
  show "patterns_ok no_tick_chain"
    using some_ticks_ok(1) by (simp add: patterns_ok_def viewFilters_def no_tick_chain_def addClause_def NewConstraint_def)
qed


section \<open>The digest identifies the declaration\<close>

definition valid_clause :: "canonical_clause \<Rightarrow> bool" where
  "valid_clause cc \<longleftrightarrow> ValidString (cc_name cc) \<and> ValidString (cc_kind cc) \<and> ValidString (cc_pattern cc) \<and> ValidString (cc_message cc)"

lemma jsonClause_prefix:
  assumes "valid_clause y" "jsonClause x @ s = jsonClause y @ t"
  shows "x = y \<and> s = t"
proof -
  have v: "ValidString (cc_name y)" "ValidString (cc_kind y)" "ValidString (cc_pattern y)" "ValidString (cc_message y)"
    using assms(1) by (simp_all add: valid_clause_def)
  have "jsonString (cc_name x) @ '',\"kind\":'' @ jsonString (cc_kind x) @ '',\"pattern\":'' @ jsonString (cc_pattern x)
      @ '',\"message\":'' @ jsonString (cc_message x) @ ''}'' @ s
    = jsonString (cc_name y) @ '',\"kind\":'' @ jsonString (cc_kind y) @ '',\"pattern\":'' @ jsonString (cc_pattern y)
      @ '',\"message\":'' @ jsonString (cc_message y) @ ''}'' @ t"
    using assms(2) by (simp add: jsonClause_def)
  then have 1: "cc_name x = cc_name y" and e: "jsonString (cc_kind x) @ '',\"pattern\":'' @ jsonString (cc_pattern x)
      @ '',\"message\":'' @ jsonString (cc_message x) @ ''}'' @ s = jsonString (cc_kind y) @ '',\"pattern\":'' @ jsonString (cc_pattern y)
      @ '',\"message\":'' @ jsonString (cc_message y) @ ''}'' @ t"
    unfolding jsonString_prefix [OF v(1)] by simp_all
  from e have 2: "cc_kind x = cc_kind y" and e: "jsonString (cc_pattern x) @ '',\"message\":'' @ jsonString (cc_message x) @ ''}'' @ s
      = jsonString (cc_pattern y) @ '',\"message\":'' @ jsonString (cc_message y) @ ''}'' @ t"
    unfolding jsonString_prefix [OF v(2)] by simp_all
  from e have 3: "cc_pattern x = cc_pattern y" and e: "jsonString (cc_message x) @ ''}'' @ s = jsonString (cc_message y) @ ''}'' @ t"
    unfolding jsonString_prefix [OF v(3)] by simp_all
  from e have 4: "cc_message x = cc_message y" "s = t" unfolding jsonString_prefix [OF v(4)] by simp_all
  show ?thesis using 1 2 3 4 by simp
qed

definition filterPart :: "string \<Rightarrow> string" where
  "filterPart key = (if key = [] then [] else '',\"filter\":'' @ jsonString key)"

definition clausesPart :: "canonical_clause list \<Rightarrow> string" where
  "clausesPart clauses = (if clauses = [] then ''null'' else ''['' @ strings_join '','' (map jsonClause clauses) @ '']'')"

lemma filterPart_prefix:
  assumes "ValidString l" "filterPart k @ '',\"clauses\":'' @ s = filterPart l @ '',\"clauses\":'' @ t"
  shows "k = l \<and> s = t"
proof (cases "k = []"; cases "l = []")
  assume kl: "k \<noteq> []" "l \<noteq> []"
  then have "jsonString k @ '',\"clauses\":'' @ s = jsonString l @ '',\"clauses\":'' @ t" using assms(2) by (simp add: filterPart_def)
  then show ?thesis unfolding jsonString_prefix [OF assms(1)] by simp
qed (use assms(2) in \<open>simp_all add: filterPart_def\<close>)

lemma clausesPart_inj:
  assumes "list_all valid_clause ys" "clausesPart xs @ ''}'' = clausesPart ys @ ''}''"
  shows "xs = ys"
proof (cases "xs = []"; cases "ys = []")
  assume xy: "xs \<noteq> []" "ys \<noteq> []"
  then have e: "strings_join '','' (map jsonClause xs) @ '']'' @ ''}'' = strings_join '','' (map jsonClause ys) @ '']'' @ ''}''"
    using assms(2) by (simp add: clausesPart_def)
  have "xs = ys \<and> ''}'' = ''}''"
  proof (rule join_prefix [OF _ _ e])
    show "x = y \<and> s = t" if "x \<in> set xs" "y \<in> set ys" "jsonClause x @ s = jsonClause y @ t" for x y s t
      using jsonClause_prefix [OF _ that(3)] assms(1) that(2) by (simp add: list_all_iff)
  qed (simp add: jsonClause_def)
  then show ?thesis ..
qed (use assms(2) in \<open>simp_all add: clausesPart_def\<close>)

lemma jsonModel_inj:
  assumes eq: "jsonModel n1 d1 s1 k1 cs1 = jsonModel n2 d2 s2 k2 cs2"
    and v: "ValidString n2" "ValidString d2" "ValidString s2" "ValidString k2" "list_all valid_clause cs2"
  shows "n1 = n2 \<and> d1 = d2 \<and> s1 = s2 \<and> k1 = k2 \<and> cs1 = cs2"
proof -
  let ?c = "\<lambda>k cs. filterPart k @ '',\"clauses\":'' @ clausesPart cs @ ''}''"
  have "jsonString n1 @ '',\"description\":'' @ jsonString d1 @ '',\"severity\":'' @ jsonString s1 @ ?c k1 cs1
      = jsonString n2 @ '',\"description\":'' @ jsonString d2 @ '',\"severity\":'' @ jsonString s2 @ ?c k2 cs2"
    using eq by (simp add: jsonModel_def filterPart_def clausesPart_def)
  then have n: "n1 = n2" and e: "jsonString d1 @ '',\"severity\":'' @ jsonString s1 @ ?c k1 cs1
      = jsonString d2 @ '',\"severity\":'' @ jsonString s2 @ ?c k2 cs2"
    unfolding jsonString_prefix [OF v(1)] by simp_all
  from e have d: "d1 = d2" and e: "jsonString s1 @ ?c k1 cs1 = jsonString s2 @ ?c k2 cs2"
    unfolding jsonString_prefix [OF v(2)] by simp_all
  from e have s: "s1 = s2" and e: "?c k1 cs1 = ?c k2 cs2" unfolding jsonString_prefix [OF v(3)] by simp_all
  from filterPart_prefix [OF v(4) e] have k: "k1 = k2" and e: "clausesPart cs1 @ ''}'' = clausesPart cs2 @ ''}''" by simp_all
  from clausesPart_inj [OF v(5) e] n d s k show ?thesis by simp
qed

definition declared :: "constraint_clause \<Rightarrow> canonical_clause" where
  "declared cl = \<lparr>cc_name = cl_name cl, cc_kind = kindString (cl_kind cl), cc_pattern = projr (DeterministicKey (cl_pattern cl)),
     cc_message = cl_message cl\<rparr>"

definition same_declaration :: "constraint \<Rightarrow> constraint \<Rightarrow> bool" where
  \<comment> \<open>the same texts, filter and clauses, these in any order and with any pattern of the same key\<close>
  "same_declaration c d \<longleftrightarrow> cn_name c = cn_name d \<and> cn_desc c = cn_desc d \<and> cn_severity c = cn_severity d \<and> filterModel c = filterModel d
     \<and> mset (map declared (cn_clauses c)) = mset (map declared (cn_clauses d))"

definition constraint_texts :: "constraint \<Rightarrow> bool" where
  "constraint_texts c \<longleftrightarrow> ValidString (cn_name c) \<and> ValidString (cn_desc c)
     \<and> list_all (\<lambda>cl. ValidString (cl_name cl) \<and> ValidString (cl_message cl)) (cn_clauses c)"

lemma canonicalClauses_map: "canonicalClauses seen cls = Inr ccs \<Longrightarrow> ccs = map declared cls"
  by (induction seen cls arbitrary: ccs rule: canonicalClauses.induct) (auto simp: declared_def sum_map_Inr split: if_splits sum.splits)

lemma constraintModel_parts:
  assumes "constraintModel (Some c) = Inr encoded"
  obtains key where "filterModel c = Inr key" "cn_severity c \<in> {''error'', ''warning'', ''info''}"
    "encoded = jsonModel (cn_name c) (cn_desc c) (cn_severity c) key (sort_key jsonClause (map declared (cn_clauses c)))"
  using assms that canonicalClauses_map by (auto simp: constraintModel_def split: if_splits sum.splits)

lemma filterModel_valid: "filterModel c = Inr key \<Longrightarrow> ValidString key"
proof -
  assume key: "filterModel c = Inr key"
  have "ValidString (jsonAlphabet keys)" for keys
    unfolding jsonAlphabet_def by (intro ValidString_append jsonString_valid join_valid) (auto simp: ascii_valid jsonString_valid)
  with key key_valid show ?thesis by (auto simp: filterModel_def ascii_valid split: if_splits sum.splits)
qed

lemma declared_valid:
  assumes "constraintModel (Some c) = Inr encoded" "constraint_texts c"
  shows "list_all valid_clause (map declared (cn_clauses c))"
proof -
  have "valid_clause (declared cl)" if cl: "cl \<in> set (cn_clauses c)" for cl
  proof -
    from constraintModel_clauses(3) [OF assms(1) cl] obtain key where "DeterministicKey (cl_pattern cl) = Inr key" by blast
    moreover from this have "ValidString key" by (rule key_valid)
    moreover have "ValidString (kindString (cl_kind cl))"
      by (rule ascii_valid) (use constraintModel_clauses(2) [OF assms(1) cl] in \<open>auto simp: kindString_def kind_defs\<close>)
    moreover have "ValidString (cl_name cl)" "ValidString (cl_message cl)"
      using assms(2) cl by (simp_all add: constraint_texts_def list_all_iff)
    ultimately show ?thesis by (simp add: valid_clause_def declared_def)
  qed
  then show ?thesis by (simp add: list_all_iff)
qed

lemma jsonModel_order: "mset cs = mset ds \<Longrightarrow> jsonModel n e s k (sort_key jsonClause cs) = jsonModel n e s k (sort_key jsonClause ds)"
proof -
  assume m: "mset cs = mset ds"
  have texts: "map jsonClause (sort_key jsonClause xs) = sort (map jsonClause xs)" for xs
    by (rule properties_for_sort [symmetric]) simp_all
  have "mset (map jsonClause cs) = mset (map jsonClause ds)" using m by simp
  then have "sort (map jsonClause cs) = sort (map jsonClause ds)" by (metis sorted_list_of_multiset_mset)
  moreover have "sort_key jsonClause cs = [] \<longleftrightarrow> sort_key jsonClause ds = []" using m by (metis mset_sort mset_zero_iff)
  ultimately show ?thesis unfolding jsonModel_def texts by simp
qed

text \<open>C21: The digest of a constraint is the identity of its declaration.  Two constraints that agree in their texts, in the
  keys of their filters and, up to order, in their clauses have the same digest; and when the strings of one of
  them are valid UTF-8, constraints with the same digest agree in all of this, unless two different inputs of the
  hash collide.\<close>

theorem digest_identifies_declaration:
  assumes c: "DeterministicDigest sha256 (Some c) = Inr k" and d: "DeterministicDigest sha256 (Some d) = Inr l" "constraint_texts d"
  shows "(same_declaration c d \<longrightarrow> k = l) \<and> (k = l \<longrightarrow> same_declaration c d \<or> (\<exists>a b. a \<noteq> b \<and> sha256 a = sha256 b))"
proof -
  obtain a where a: "constraintModel (Some c) = Inr a" "k = ''sha256:'' @ hexEncode (sha256 a)"
    using c by (auto simp: DeterministicDigest_def sum_map_Inr)
  obtain b where b: "constraintModel (Some d) = Inr b" "l = ''sha256:'' @ hexEncode (sha256 b)"
    using d(1) by (auto simp: DeterministicDigest_def sum_map_Inr)
  obtain f where f: "filterModel c = Inr f"
      "a = jsonModel (cn_name c) (cn_desc c) (cn_severity c) f (sort_key jsonClause (map declared (cn_clauses c)))"
    by (rule constraintModel_parts [OF a(1)])
  obtain g where g: "filterModel d = Inr g" "cn_severity d \<in> {''error'', ''warning'', ''info''}"
      "b = jsonModel (cn_name d) (cn_desc d) (cn_severity d) g (sort_key jsonClause (map declared (cn_clauses d)))"
    by (rule constraintModel_parts [OF b(1)])
  have one: "k = l" if "same_declaration c d"
  proof -
    have "a = b" unfolding f(2) g(3) using that f(1) g(1) jsonModel_order unfolding same_declaration_def by simp
    then show ?thesis using a(2) b(2) by simp
  qed
  have two: "same_declaration c d" if "a = b"
  proof -
    have "ValidString (cn_severity d)" by (rule ascii_valid) (use g(2) in auto)
    moreover have "list_all valid_clause (sort_key jsonClause (map declared (cn_clauses d)))"
      using declared_valid [OF b(1) d(2)] by (simp add: list_all_iff)
    ultimately have "cn_name c = cn_name d \<and> cn_desc c = cn_desc d \<and> cn_severity c = cn_severity d \<and> f = g
        \<and> sort_key jsonClause (map declared (cn_clauses c)) = sort_key jsonClause (map declared (cn_clauses d))"
      using jsonModel_inj [OF that [unfolded f(2) g(3)]] d(2) filterModel_valid [OF g(1)] by (simp add: constraint_texts_def)
    then show ?thesis unfolding same_declaration_def f(1) g(1) by (metis mset_sort)
  qed
  have "a = b \<or> (\<exists>a b. a \<noteq> b \<and> sha256 a = sha256 b)" if "k = l"
    using that a(2) b(2) hexEncode_inj by auto
  then show ?thesis using one two by blast
qed

text \<open>Two clauses in either order.\<close>

definition two_clauses :: constraint where
  "two_clauses = addClause MustNever ''b'' some_ticks [] (addClause MustNotMatch ''a'' some_ticks [] (NewConstraint ''ticks''))"

definition two_clauses_swapped :: constraint where
  "two_clauses_swapped = addClause MustNotMatch ''a'' some_ticks [] (addClause MustNever ''b'' some_ticks [] (NewConstraint ''ticks''))"

theorem digest_identifies_declaration_witness:
  "\<exists>k. DeterministicDigest id (Some two_clauses) = Inr k \<and> DeterministicDigest id (Some two_clauses_swapped) = Inr k"
proof -
  note defs = two_clauses_def two_clauses_swapped_def addClause_def NewConstraint_def
  obtain key where "DeterministicKey some_ticks = Inr key"
    by (simp add: some_ticks_def deterministicBasicKey_def MatchEvent_def MatchAny_def sourceDescriptor_def)
  then have "\<exists>k. DeterministicDigest id (Some two_clauses) = Inr k" "\<exists>l. DeterministicDigest id (Some two_clauses_swapped) = Inr l"
    by (simp_all add: DeterministicDigest_def constraintModel_def filterModel_def kind_defs defs)
  then obtain k l where kl: "DeterministicDigest id (Some two_clauses) = Inr k" "DeterministicDigest id (Some two_clauses_swapped) = Inr l"
    by blast
  have "constraint_texts two_clauses_swapped" by (simp add: constraint_texts_def defs ascii_valid)
  moreover have "same_declaration two_clauses two_clauses_swapped" by (simp add: same_declaration_def filterModel_def defs add_mset_commute)
  ultimately have "k = l" using digest_identifies_declaration [OF kl] by blast
  with kl show ?thesis by blast
qed

end
