(* ===== verification/Constraint_Predicates.thy ===== *)
theory Constraint_Predicates
  imports Constraint_Check Poset_Topo
begin

text \<open>
  Predicate constraints over a poset and sets of constraints (\<open>constraint/sequential.go\<close>).  A result is
  \<^term>\<open>None\<close> where a poset that is not well-formed would make the code follow a nil pointer.
\<close>

section \<open>Predicates\<close>

record predicate_constraint =
  pc_name :: string
  pc_desc :: string
  pc_severity :: string
  pc_predicate :: "(poset \<Rightarrow> violation list option) option"

definition predicateCheck :: "predicate_constraint \<Rightarrow> poset \<Rightarrow> violation list option" where
  \<comment> \<open>\<open>PredicateConstraint.Check\<close>\<close>
  "predicateCheck pc p = (case pc_predicate pc of None \<Rightarrow> Some [] | Some predicate \<Rightarrow> predicate p)"

definition simpleViolation :: "string \<Rightarrow> string \<Rightarrow> int \<Rightarrow> string \<Rightarrow> event_set \<Rightarrow> violation" where
  "simpleViolation name clause k msg es = \<lparr>vi_constraint = name, vi_clause = clause, vi_kind = k, vi_message = msg,
     vi_events = es, vi_bindings = [], vi_severity = ''error''\<rparr>"

definition EventCount :: "string \<Rightarrow> int \<Rightarrow> int \<Rightarrow> predicate_constraint" where
  "EventCount eventName minimum maximum = \<lparr>pc_name = ''event_count_'' @ eventName,
     pc_desc = eventName @ '' count must be in ['' @ decimalInt minimum @ '', '' @ decimalInt maximum @ '']'', pc_severity = ''error'',
     pc_predicate = Some (\<lambda>p. let count = int (length (EventsByName p eventName))
       in if count < minimum \<or> count > maximum then
            Some [simpleViolation (''event_count_'' @ eventName) ''count_range'' MustMatch
              (''expected '' @ eventName @ '' count in ['' @ decimalInt minimum @ '', '' @ decimalInt maximum @ ''], got '' @ decimalInt count) []]
          else Some [])\<rparr>"

definition NoUnlinkedEvents :: predicate_constraint where
  "NoUnlinkedEvents = \<lparr>pc_name = ''no_unlinked_events'', pc_desc = ''all events must be causally connected'', pc_severity = ''error'',
     pc_predicate = Some (\<lambda>p. let es = Events p
       in if length es \<le> 1 then Some []
          else let unlinked = filter (\<lambda>e. \<not> list_ex (\<lambda>other. ev_id e \<noteq> ev_id other \<and> \<not> IsCausallyIndependent p (ev_id e) (ev_id other)) es) es
            in if length unlinked > 0 then
                 Some [simpleViolation ''no_unlinked_events'' ''all_linked'' MustNever
                   (decimalInt (int (length unlinked)) @ '' event(s) are causally independent of all others'') unlinked]
               else Some [])\<rparr>"

definition SingleRoot :: predicate_constraint where
  "SingleRoot = \<lparr>pc_name = ''single_root'', pc_desc = ''poset must have exactly one root event'', pc_severity = ''error'',
     pc_predicate = Some (\<lambda>p. let roots = Roots p
       in if length roots \<noteq> 1 then
            Some [simpleViolation ''single_root'' ''root_count'' MustMatch (''expected 1 root, got '' @ decimalInt (int (length roots))) roots]
          else Some [])\<rparr>"

definition relaxEffect :: "event_id \<Rightarrow> event \<Rightarrow> (event_id, int) fmap \<Rightarrow> (event_id, int) fmap" where
  "relaxEffect i effect depth = (let d = map_get 0 depth i + 1
     in if d > map_get 0 depth (ev_id effect) then fmupd (ev_id effect) d depth else depth)"

fun chainLoop :: "poset \<Rightarrow> event list \<Rightarrow> (event_id, int) fmap \<Rightarrow> int \<Rightarrow> ((event_id, int) fmap \<times> int) option" where
  "chainLoop p [] depth maxDepth = Some (depth, maxDepth)"
| "chainLoop p (e # rest) depth maxDepth = (case DirectEffects p (ev_id e) of None \<Rightarrow> None
     | Some effects \<Rightarrow>
         let depth = fold (relaxEffect (ev_id e)) effects depth;
             maxDepth = (if map_get 0 depth (ev_id e) > maxDepth then map_get 0 depth (ev_id e) else maxDepth)
         in chainLoop p rest depth maxDepth)"

definition longestChainLength :: "poset \<Rightarrow> int option" where
  "longestChainLength p = (case those (TopologicalSort p) of None \<Rightarrow> None
     | Some sorted_events \<Rightarrow>
         if length sorted_events = 0 then Some 0
         else case chainLoop p sorted_events (fold (\<lambda>e depth. fmupd (ev_id e) 1 depth) sorted_events fmempty) 1 of None \<Rightarrow> None
         | Some (depth, maxDepth) \<Rightarrow>
             Some (fold (\<lambda>e m. if map_get 0 depth (ev_id e) > m then map_get 0 depth (ev_id e) else m) sorted_events maxDepth))"

definition CompletesWithin :: "int \<Rightarrow> predicate_constraint" where
  "CompletesWithin maxDepth = \<lparr>pc_name = ''completes_within'',
     pc_desc = ''longest causal chain must not exceed '' @ decimalInt maxDepth @ '' events'', pc_severity = ''error'',
     pc_predicate = Some (\<lambda>p. case longestChainLength p of None \<Rightarrow> None
       | Some depth \<Rightarrow> if depth > maxDepth then
            Some [simpleViolation ''completes_within'' ''max_depth'' MustMatch
              (''longest causal chain is '' @ decimalInt depth @ '' events, exceeds limit of '' @ decimalInt maxDepth) []]
          else Some [])\<rparr>"

definition AllComponentsEmit :: "string list \<Rightarrow> predicate_constraint" where
  "AllComponentsEmit components = \<lparr>pc_name = ''all_components_emit'', pc_desc = ''all listed components must emit at least one event'',
     pc_severity = ''error'',
     pc_predicate = Some (\<lambda>p. let sources = ev_source ` set (filter (\<lambda>e. ev_source e \<noteq> []) (Events p));
         missing = filter (\<lambda>comp. comp \<notin> sources) components
       in if length missing > 0 then
            Some [simpleViolation ''all_components_emit'' ''component_activity'' MustMatch
              (''components with no events: '' @ strings_join '', '' missing) []]
          else Some [])\<rparr>"

definition CausalDepthMax :: "int \<Rightarrow> predicate_constraint" where
  "CausalDepthMax maxDepth = (CompletesWithin maxDepth)\<lparr>pc_name := ''causal_depth_max'',
     pc_desc := ''causal depth must not exceed '' @ decimalInt maxDepth\<rparr>"

section \<open>Sets of constraints\<close>

datatype checkable = CheckPattern "constraint option" | CheckPredicate predicate_constraint

record constraint_set =
  cs_name :: string
  cs_checkers :: "checkable list"

definition NewConstraintSet :: "string \<Rightarrow> constraint_set" where
  "NewConstraintSet name = \<lparr>cs_name = name, cs_checkers = []\<rparr>"

definition setAdd :: "constraint_set \<Rightarrow> checkable \<Rightarrow> constraint_set" where
  \<comment> \<open>\<open>ConstraintSet.Add\<close>\<close>
  "setAdd cs c = cs\<lparr>cs_checkers := cs_checkers cs @ [c]\<rparr>"

definition checkOne :: "(constraint_error \<Rightarrow> string) \<Rightarrow> poset \<Rightarrow> checkable \<Rightarrow> violation list option" where
  \<comment> \<open>the interface method \<open>Check\<close>\<close>
  "checkOne text_of p c = (case c of CheckPattern constraint \<Rightarrow> Some (Check text_of constraint (reader_of p))
     | CheckPredicate pc \<Rightarrow> predicateCheck pc p)"

definition setCheck :: "(constraint_error \<Rightarrow> string) \<Rightarrow> constraint_set \<Rightarrow> poset \<Rightarrow> violation list option" where
  \<comment> \<open>\<open>ConstraintSet.Check\<close>\<close>
  "setCheck text_of cs p = map_option concat (those (map (checkOne text_of p) (cs_checkers cs)))"

section \<open>The longest causal chain\<close>

definition class_edge :: "poset \<Rightarrow> event_id \<Rightarrow> event_id \<Rightarrow> bool" where
  "class_edge p i j \<longleftrightarrow> stored p i \<and> stored p j \<and> (rep p i, rep p j) \<in> class_rel p"

inductive chain_to :: "poset \<Rightarrow> event_id \<Rightarrow> nat \<Rightarrow> bool" for p where
  \<comment> \<open>a path of direct effects over a number of occurrences ends here\<close>
  start: "stored p j \<Longrightarrow> chain_to p j 1"
| extend: "chain_to p i n \<Longrightarrow> class_edge p i j \<Longrightarrow> chain_to p j (Suc n)"

inductive_cases chain_toE: "chain_to p j n"

lemma class_edge_before: "class_edge p i j \<Longrightarrow> (i, j) \<in> before p"
  by (auto simp: class_edge_def before_def)

lemma DirectEffects_edges:
  assumes "poset_ok p" "stored p i"
  shows "\<exists>es. DirectEffects p i = Some es \<and> (\<forall>j. j \<in> ev_id ` set es \<longleftrightarrow> class_edge p i j)"
proof -
  note ok = poset_okD [OF assms(1)]
  obtain es where es: "DirectEffects p i = Some es" "lists_events p es (\<lambda>b. (rep p i, rep p b) \<in> class_rel p)"
    using direct_lists(2) [OF assms] by blast
  have "map ev_id es = filter (\<lambda>b. (rep p i, rep p b) \<in> class_rel p) (event_ids p)"
    using es(2) by (simp add: lists_events_def)
  then have "set (map ev_id es) = {b. stored p b \<and> (rep p i, rep p b) \<in> class_rel p}" by (auto simp: map_has_def)
  then show ?thesis using es(1) assms(2) by (auto simp: class_edge_def)
qed

lemma relaxEffects_get:
  assumes "i \<notin> ev_id ` set es"
  shows "map_get 0 (fold (relaxEffect i) es depth) j =
    (if j \<in> ev_id ` set es then max (map_get 0 depth j) (map_get 0 depth i + 1) else map_get 0 depth j)"
  using assms
proof (induction es arbitrary: depth)
  case (Cons e es)
  have i: "map_get 0 (relaxEffect i e depth) i = map_get 0 depth i" using Cons.prems by (simp add: relaxEffect_def Let_def)
  have j: "map_get 0 (relaxEffect i e depth) j = (if j = ev_id e then max (map_get 0 depth j) (map_get 0 depth i + 1) else map_get 0 depth j)"
    by (simp add: relaxEffect_def Let_def)
  show ?case using Cons.IH [of "relaxEffect i e depth"] Cons.prems unfolding i j by simp
qed simp

definition depths_sound :: "poset \<Rightarrow> (event_id, int) fmap \<Rightarrow> int \<Rightarrow> bool" where
  \<comment> \<open>every depth is the length of a chain, and the maximum is not above all of them\<close>
  "depths_sound p depth maxDepth \<longleftrightarrow> (\<forall>j. stored p j \<longrightarrow> (\<exists>n. chain_to p j n \<and> map_get 0 depth j = int n))
     \<and> (\<exists>j. stored p j \<and> maxDepth \<le> map_get 0 depth j)"

definition depths_relaxed :: "poset \<Rightarrow> event_id set \<Rightarrow> (event_id, int) fmap \<Rightarrow> bool" where
  \<comment> \<open>the effects of some occurrences are at least one deeper\<close>
  "depths_relaxed p A depth \<longleftrightarrow> (\<forall>i \<in> A. \<forall>j. class_edge p i j \<longrightarrow> map_get 0 depth i + 1 \<le> map_get 0 depth j)"

lemma relax_step:
  assumes ok: "poset_ok p" and i: "stored p i" and es: "\<And>j. j \<in> ev_id ` set es \<longleftrightarrow> class_edge p i j"
    and inv: "depths_sound p depth maxDepth" "depths_relaxed p A depth" and order: "\<And>j. class_edge p i j \<Longrightarrow> j \<notin> A"
  shows "depths_sound p (fold (relaxEffect i) es depth) (max (map_get 0 (fold (relaxEffect i) es depth) i) maxDepth)"
    "depths_relaxed p (insert i A) (fold (relaxEffect i) es depth)"
proof -
  define d where "d = map_get 0 depth"
  define e where "e = map_get 0 (fold (relaxEffect i) es depth)"
  have self: "\<not> class_edge p i i" using class_edge_before before_irrefl [OF poset_okD(2) [OF ok]] by blast
  then have "i \<notin> ev_id ` set es" using es [of i] by blast
  from relaxEffects_get [OF this, of depth, unfolded es]
  have get: "e j = (if class_edge p i j then max (d j) (d i + 1) else d j)" for j unfolding d_def e_def .
  have i_get: "e i = d i" unfolding get using self by simp
  have grow: "d j \<le> e j" for j unfolding get by simp
  have chains: "\<exists>n. chain_to p j n \<and> d j = int n" if "stored p j" for j
    using inv(1) that unfolding depths_sound_def d_def by simp
  obtain n where n: "chain_to p i n" "d i = int n" using chains [OF i] by blast
  have sound: "\<exists>m. chain_to p j m \<and> e j = int m" if j: "stored p j" for j
  proof (cases "class_edge p i j \<and> d j < d i + 1")
    case True
    then have "e j = int (Suc n)" unfolding get n(2) by simp
    moreover have "chain_to p j (Suc n)" by (rule chain_to.extend [OF n(1)]) (use True in simp)
    ultimately show ?thesis by blast
  next
    case False
    then have "e j = d j" unfolding get by auto
    then show ?thesis using chains [OF j] by simp
  qed
  obtain k where k: "stored p k" "maxDepth \<le> d k" using inv(1) unfolding depths_sound_def d_def by blast
  have "\<exists>j. stored p j \<and> max (e i) maxDepth \<le> e j"
  proof (cases "maxDepth \<le> e i")
    case True
    then show ?thesis using i by (intro exI [of _ i]) simp
  next
    case False
    then show ?thesis using k grow [of k] by (intro exI [of _ k]) simp
  qed
  with sound show "depths_sound p (fold (relaxEffect i) es depth) (max (map_get 0 (fold (relaxEffect i) es depth) i) maxDepth)"
    unfolding depths_sound_def e_def by simp
  have relaxed: "d u + 1 \<le> d j" if "u \<in> A" "class_edge p u j" for u j
    using inv(2) that unfolding depths_relaxed_def d_def by simp
  have "e u + 1 \<le> e j" if u: "u \<in> insert i A" and ue: "class_edge p u j" for u j
  proof (cases "u = i")
    case True
    then show ?thesis using ue i_get get [of j] by simp
  next
    case False
    then have "u \<in> A" using u by simp
    then have "e u = d u" using order [of u] unfolding get by auto
    then show ?thesis using relaxed [OF \<open>u \<in> A\<close> ue] grow [of j] by simp
  qed
  then show "depths_relaxed p (insert i A) (fold (relaxEffect i) es depth)" unfolding depths_relaxed_def e_def by simp
qed

lemma chainLoop_run:
  assumes ok: "poset_ok p"
  shows "idOrder p = us @ map ev_id rest \<Longrightarrow> depths_sound p depth maxDepth \<Longrightarrow> depths_relaxed p (set us) depth \<Longrightarrow>
    \<exists>depth' m. chainLoop p rest depth maxDepth = Some (depth', m) \<and> depths_sound p depth' m \<and> depths_relaxed p (set (idOrder p)) depth'"
proof (induction rest arbitrary: us depth maxDepth)
  case Nil
  then show ?case by simp
next
  case (Cons e rest)
  let ?i = "ev_id e"
  note pok = poset_okD [OF ok]
  have "?i \<in> set (idOrder p)" using Cons.prems(1) by simp
  then have i: "stored p ?i" using idOrder_all [OF pok(1,2)] by simp
  obtain es where es: "DirectEffects p ?i = Some es" "\<forall>j. j \<in> ev_id ` set es \<longleftrightarrow> class_edge p ?i j"
    using DirectEffects_edges [OF ok i] by blast
  have distinct: "distinct (idOrder p)" using topoSort_ids(4) [OF pok(1) edges_okD(6) [OF pok(2)] pok(3)] .
  have order: "j \<notin> set us" if "class_edge p ?i j" for j
  proof
    assume j: "j \<in> set us"
    from idOrder_before [OF pok(1,2) class_edge_before [OF that]]
    obtain vs ws where vw: "idOrder p = vs @ ws" "?i \<in> set vs" "j \<in> set ws" by blast
    from Cons.prems(1) vw(1) have "us @ ?i # map ev_id rest = vs @ ws" by simp
    with j vw(2,3) distinct Cons.prems(1) show False by (auto simp: append_eq_append_conv2 append_eq_Cons_conv Cons_eq_append_conv)
  qed
  note step = relax_step [OF ok i es(2) [rule_format] Cons.prems(2,3) order]
  have relaxed: "depths_relaxed p (set (us @ [?i])) (fold (relaxEffect ?i) es depth)" using step(2) by simp
  from Cons.IH [OF _ step(1) relaxed] Cons.prems(1) show ?case
    by (simp add: es(1) Let_def max_def not_le split: if_splits)
qed

lemma those_map_Some: "those (map Some xs) = Some xs"
  by (induction xs) simp_all

lemma fold_upd_get: "map_get 0 (fold (\<lambda>e depth. fmupd (ev_id e) (1 :: int) depth) es m) j =
    (if j \<in> ev_id ` set es then 1 else map_get 0 m j)"
  by (induction es arbitrary: m) auto

lemma fold_greater: "fold (\<lambda>e m. if f e > m then f e else m) es (m :: int) = Max (insert m (f ` set es))"
proof (induction es arbitrary: m)
  case (Cons e es)
  have "Max (insert m (insert (f e) (f ` set es))) = Max (insert (max m (f e)) (f ` set es))"
    by (cases "f ` set es = {}") (simp_all add: max.assoc)
  then show ?case unfolding fold.simps comp_apply Cons.IH by (simp add: max_def)
qed simp

lemma chain_to_bound: "chain_to p j n \<Longrightarrow> depths_relaxed p {i. stored p i} depth \<Longrightarrow> \<forall>j. stored p j \<longrightarrow> 1 \<le> map_get 0 depth j
    \<Longrightarrow> int n \<le> map_get 0 depth j"
proof (induction rule: chain_to.induct)
  case (extend i n j)
  then have "map_get 0 depth i + 1 \<le> map_get 0 depth j" unfolding depths_relaxed_def class_edge_def by blast
  then show ?case using extend by simp
qed simp

lemma chain_to_pos: "chain_to p j n \<Longrightarrow> 0 < n \<and> stored p j"
  by (induction rule: chain_to.induct) (simp_all add: class_edge_def)

lemma longestChainLength_run:
  assumes ok: "poset_ok p"
  shows "\<exists>n. longestChainLength p = Some (int n) \<and> (if \<exists>j. stored p j then \<exists>j. chain_to p j n else n = 0)
    \<and> (\<forall>j m. chain_to p j m \<longrightarrow> m \<le> n)"
proof -
  note pok = poset_okD [OF ok]
  note ids = topoSort_ids [OF pok(1) edges_okD(6) [OF pok(2)] pok(3)]
  define es where "es = map (\<lambda>i. the (fmlookup (events p) i)) (idOrder p)"
  have es: "TopologicalSort p = map Some es" "map ev_id es = idOrder p"
    using ids(2,3) by (auto simp: es_def intro!: map_idI)
  have all: "ev_id ` set es = {i. stored p i}" using idOrder_all [OF pok(1,2)] es(2) by (metis set_map)
  let ?start = "fold (\<lambda>e depth. fmupd (ev_id e) (1 :: int) depth) es fmempty"
  show ?thesis
  proof (cases "es = []")
    case True
    then have "\<not> stored p j" for j using all by auto
    then have "\<not> chain_to p j m" for j m using chain_to_pos by blast
    then show ?thesis using True \<open>\<And>j. \<not> stored p j\<close> by (simp add: longestChainLength_def es(1) those_map_Some)
  next
    case False
    then obtain k where k: "stored p k" using all by (metis image_is_empty mem_Collect_eq set_empty empty_Collect_eq)
    have "depths_sound p ?start 1"
      using k chain_to.start all by (auto simp: depths_sound_def fold_upd_get intro!: exI [of _ 1] exI [of _ k])
    moreover have "depths_relaxed p (set []) ?start" by (simp add: depths_relaxed_def)
    ultimately obtain depth m where run: "chainLoop p es ?start 1 = Some (depth, m)" "depths_sound p depth m"
        "depths_relaxed p (set (idOrder p)) depth"
      using chainLoop_run [OF ok, of "[]" es ?start 1] es(2) by auto
    let ?d = "map_get 0 depth"
    let ?M = "Max (insert m (?d ` ev_id ` set es))"
    have len: "longestChainLength p = Some ?M"
      using False run(1) by (simp add: longestChainLength_def es(1) those_map_Some fold_greater image_image)
    have fin: "finite (?d ` ev_id ` set es)" by simp
    obtain h where h: "stored p h" "m \<le> ?d h" using run(2) unfolding depths_sound_def by blast
    have "?d h \<in> ?d ` ev_id ` set es" using h(1) all by blast
    then have "?M = Max (?d ` ev_id ` set es)" using h(2) fin by (metis Max_ge Max_insert empty_iff max_def order_trans)
    moreover have "Max (?d ` ev_id ` set es) \<in> ?d ` ev_id ` set es" by (rule Max_in) (use fin False in simp_all)
    ultimately obtain j where j: "stored p j" "?M = ?d j" using all by auto
    then obtain n where n: "chain_to p j n" "?M = int n" using run(2) unfolding depths_sound_def by metis
    have "m' \<le> n" if "chain_to p i m'" for i m'
    proof -
      have pos: "\<forall>j. stored p j \<longrightarrow> 1 \<le> ?d j" using run(2) chain_to_pos unfolding depths_sound_def by fastforce
      have "depths_relaxed p {i. stored p i} depth" using run(3) idOrder_all [OF pok(1,2)] by simp
      then have "int m' \<le> ?d i" using chain_to_bound [OF that] pos by blast
      moreover have "?d i \<le> ?M" using chain_to_pos [OF that] all fin by (intro Max_ge) auto
      ultimately show ?thesis using n(2) by simp
    qed
    then show ?thesis using len n k by (intro exI [of _ n]) auto
  qed
qed


section \<open>Chains are lists of occurrences in causal order\<close>

definition causal_chain :: "poset \<Rightarrow> event_id list \<Rightarrow> bool" where
  "causal_chain p xs \<longleftrightarrow> sorted_wrt (IsCausallyBefore p) xs \<and> (\<forall>x \<in> set xs. stored p x)"

lemma chain_to_list:
  assumes ok: "poset_ok p"
  shows "chain_to p j n \<Longrightarrow> \<exists>xs. causal_chain p (xs @ [j]) \<and> length xs + 1 = n"
proof (induction rule: chain_to.induct)
  case (start j)
  then show ?case by (intro exI [of _ "[]"]) (simp add: causal_chain_def)
next
  case (extend i n j)
  note iff = IsCausallyBefore_iff [OF poset_okD(2) [OF ok]]
  obtain xs where xs: "causal_chain p (xs @ [i])" "length xs + 1 = n" using extend.IH by blast
  have ij: "(i, j) \<in> before p" by (rule class_edge_before [OF extend.hyps(2)])
  have "(x, j) \<in> before p" if "x \<in> set xs" for x
  proof -
    have "(x, i) \<in> before p" using xs(1) that by (simp add: causal_chain_def sorted_wrt_append iff)
    then show ?thesis using ij by (rule before_trans)
  qed
  then have "causal_chain p ((xs @ [i]) @ [j])"
    using xs(1) ij extend.hyps(2) by (auto simp: causal_chain_def sorted_wrt_append iff class_edge_def)
  then show ?case using xs(2) by (intro exI [of _ "xs @ [i]"]) simp
qed

lemma before_chain:
  assumes ok: "poset_ok p" and i: "chain_to p i n" and ij: "(i, j) \<in> before p"
  shows "\<exists>m > n. chain_to p j m"
proof -
  note pok = poset_okD [OF ok]
  have st: "stored p j" "(rep p i, rep p j) \<in> (class_rel p)\<^sup>+" using ij by (auto simp: before_def)
  have "\<exists>m > n. (\<forall>j. stored p j \<longrightarrow> rep p j = c \<longrightarrow> chain_to p j m)" if "(rep p i, c) \<in> (class_rel p)\<^sup>+" for c
    using that
  proof (induction rule: trancl_induct)
    case (base c)
    have "chain_to p j (Suc n)" if "stored p j" "rep p j = c" for j
      using i that base chain_to_pos [OF i] by (intro chain_to.extend [OF i]) (simp add: class_edge_def)
    then show ?case by (intro exI [of _ "Suc n"]) simp
  next
    case (step c d)
    then obtain m where m: "n < m" "\<forall>j. stored p j \<longrightarrow> rep p j = c \<longrightarrow> chain_to p j m" by blast
    have ab: "stored p c" "rep p c = c" using class_rel_stored [OF pok(1,2) step.hyps(2)] by simp_all
    have "chain_to p j (Suc m)" if "stored p j" "rep p j = d" for j
      using m ab that step.hyps(2) by (intro chain_to.extend [of p c]) (simp_all add: class_edge_def)
    then show ?case using m(1) by (intro exI [of _ "Suc m"]) simp
  qed
  from this [OF st(2)] st(1) show ?thesis by blast
qed

lemma list_chain_to:
  assumes ok: "poset_ok p"
  shows "causal_chain p (xs @ [j]) \<Longrightarrow> \<exists>m > length xs. chain_to p j m"
proof (induction xs arbitrary: j rule: rev_induct)
  case Nil
  then show ?case by (intro exI [of _ 1]) (simp add: causal_chain_def chain_to.start [of p j, simplified])
next
  case (snoc i xs)
  note iff = IsCausallyBefore_iff [OF poset_okD(2) [OF ok]]
  have "causal_chain p (xs @ [i])" "(i, j) \<in> before p"
    using snoc.prems by (simp_all add: causal_chain_def sorted_wrt_append iff)
  then obtain m n where "length xs < n" "chain_to p i n" "n < m" "chain_to p j m"
    using snoc.IH before_chain [OF ok] by blast
  then show ?case by (intro exI [of _ m]) simp
qed


lemma longest_chain_run:
  assumes ok: "poset_ok p"
  shows "\<exists>n. longestChainLength p = Some (int n) \<and> (\<exists>xs. causal_chain p xs \<and> length xs = n)
    \<and> (\<forall>xs. causal_chain p xs \<longrightarrow> length xs \<le> n)"
proof -
  obtain n where n: "longestChainLength p = Some (int n)" "if \<exists>j. stored p j then \<exists>j. chain_to p j n else n = 0"
      "\<forall>j m. chain_to p j m \<longrightarrow> m \<le> n"
    using longestChainLength_run [OF ok] by blast
  have "\<exists>xs. causal_chain p xs \<and> length xs = n"
  proof (cases "\<exists>j. stored p j")
    case True
    then obtain j where "chain_to p j n" using n(2) by auto
    from chain_to_list [OF ok this] show ?thesis by auto
  next
    case False
    then show ?thesis using n(2) by (intro exI [of _ "[]"]) (simp add: causal_chain_def)
  qed
  moreover have "length xs \<le> n" if xs: "causal_chain p xs" for xs
  proof (cases xs rule: rev_cases)
    case (snoc ys j)
    then obtain m where "length ys < m" "chain_to p j m" using list_chain_to [OF ok] xs by blast
    then show ?thesis using n(3) snoc by fastforce
  qed simp
  ultimately show ?thesis using n(1) by blast
qed

text \<open>C22:
  \<open>CompletesWithin\<close> measures what it says: on every well-formed poset \<open>longestChainLength\<close> returns the
  greatest number of occurrences that causally follow one another, over all lists of stored occurrences in
  causal order, and the constraint reports its one violation exactly where that number is above the limit.\<close>

theorem completes_within_exact:
  assumes "poset_ok p"
  shows "\<exists>n vs. longestChainLength p = Some (int n) \<and> (\<exists>xs. causal_chain p xs \<and> length xs = n)
    \<and> (\<forall>xs. causal_chain p xs \<longrightarrow> length xs \<le> n)
    \<and> predicateCheck (CompletesWithin limit) p = Some vs \<and> length vs = (if limit < int n then 1 else 0)"
proof -
  obtain n where n: "longestChainLength p = Some (int n)" "\<exists>xs. causal_chain p xs \<and> length xs = n"
      "\<forall>xs. causal_chain p xs \<longrightarrow> length xs \<le> n"
    using longest_chain_run [OF assms] by blast
  have "\<exists>vs. predicateCheck (CompletesWithin limit) p = Some vs \<and> length vs = (if limit < int n then 1 else 0)"
    by (simp add: predicateCheck_def CompletesWithin_def n(1))
  then show ?thesis using n by blast
qed

theorem completes_within_exact_witness:
  "\<exists>vs. predicateCheck (CompletesWithin 1) ordered_events = Some vs \<and> vs \<noteq> []"
proof -
  obtain n vs where n: "\<forall>xs. causal_chain ordered_events xs \<longrightarrow> length xs \<le> n"
      "predicateCheck (CompletesWithin 1) ordered_events = Some vs" "length vs = (if 1 < int n then 1 else 0)"
    using completes_within_exact [OF ordered_events_ok(1), of 1] by blast
  have "IsCausallyBefore ordered_events ''a'' ''b'' \<and> map_has (events ordered_events) ''a'' \<and> map_has (events ordered_events) ''b''"
    by code_simp
  then have "causal_chain ordered_events [''a'', ''b'']" by (simp add: causal_chain_def)
  then have "1 < int n" using n(1) by fastforce
  then show ?thesis using n(2,3) by auto
qed

section \<open>Linked events need not be connected\<close>

definition linked_pairs :: poset where
  \<comment> \<open>two occurrences of two, one edge each\<close>
  "linked_pairs = (let p = fold (\<lambda>i p. fst (AddEvent p (Some (sample_event i)))) [''a'', ''b'', ''c'', ''d''] NewPoset
     in case AddCausal p ''a'' ''b'' of None \<Rightarrow> p
        | Some (p, _) \<Rightarrow> (case AddCausal p ''c'' ''d'' of None \<Rightarrow> p | Some (p, _) \<Rightarrow> p))"

text \<open>\<open>NoUnlinkedEvents\<close> is documented to verify that every pair of events is causally connected and that no
  independent events exist.  It asks each event for one other event it is not independent of: a poset of two
  separate pairs of ordered events has no violation although events of different pairs are independent.\<close>

lemma linked_events_may_be_independent:
  "predicateCheck NoUnlinkedEvents linked_pairs = Some [] \<and> IsCausallyIndependent linked_pairs ''a'' ''c''
     \<and> IsCausallyBefore linked_pairs ''a'' ''b'' \<and> IsCausallyBefore linked_pairs ''c'' ''d''"
proof -
  have "map_option length (predicateCheck NoUnlinkedEvents linked_pairs) = Some 0" by code_simp
  then have "predicateCheck NoUnlinkedEvents linked_pairs = Some []" by auto
  moreover have "IsCausallyIndependent linked_pairs ''a'' ''c''" by code_simp
  moreover have "IsCausallyBefore linked_pairs ''a'' ''b''" by code_simp
  moreover have "IsCausallyBefore linked_pairs ''c'' ''d''" by code_simp
  ultimately show ?thesis by blast
qed


section \<open>Which posets the other predicates accept\<close>

lemma event_count_accepts:
  "predicateCheck (EventCount name minimum maximum) p = Some [] \<longleftrightarrow>
     int (length (EventsByName p name)) \<in> {minimum..maximum}"
  by (auto simp: predicateCheck_def EventCount_def Let_def not_less)

lemma all_components_emit_accepts:
  "predicateCheck (AllComponentsEmit components) p = Some [] \<longleftrightarrow>
     (\<forall>c \<in> set components. c \<noteq> [] \<and> c \<in> ev_source ` set (Events p))"
  by (auto simp: predicateCheck_def AllComponentsEmit_def Let_def filter_empty_conv)

lemma single_root_accepts:
  "predicateCheck SingleRoot p = Some [] \<longleftrightarrow> length (Roots p) = 1"
  by (simp add: predicateCheck_def SingleRoot_def Let_def)

lemma set_check_accepts:
  "setCheck text_of cs p = Some [] \<longleftrightarrow> (\<forall>c \<in> set (cs_checkers cs). checkOne text_of p c = Some [])"
proof -
  have "map_option concat (those (map f xs)) = Some [] \<longleftrightarrow> (\<forall>c \<in> set xs. f c = Some [])"
    for f :: "checkable \<Rightarrow> violation list option" and xs
    by (induction xs) (auto split: option.splits)
  then show ?thesis by (simp add: setCheck_def)
qed

end
