(* ===== verification/Spec2Isabelle.thy ===== *)
theory Spec2Isabelle
  imports Poset_Topo Poset_Runs Canonical_Json Dsync_Coordinator Consistent_Cuts Rapide_Lexer Constraint_Predicates
begin

text \<open>
  A verification development for gorapide, a Go implementation of the Rapide event model.

  The program records event occurrences in a causal poset: a strict order between classes of equivalent
  occurrences.  Everything else reads or exchanges such posets.  Snapshots carry one poset into another,
  a coordinator pushes snapshots over a transport, canonical encodings identify events and values by
  their content, patterns select sets of occurrences, constraints check patterns and causal predicates,
  and augmented computations add the operations on Refs whose state a consistent cut determines.

  \<^bold>\<open>The language.\<close>  \<open>Go_Prelude\<close> fixes the notions the packages share: bytewise ordered
  strings, 64-bit words with wrap-around, maps as finite maps visited in ascending key order (the source
  sorts what it collects from a map, or the result does not depend on the order), \<open>sort.Search\<close>, and errors
  as the sentinel values of the code without their formatted texts.  A mutating operation returns the state
  it leaves and an optional error, so the state after a failure is part of the model; an operation that could
  follow a nil pointer, write to a nil map or run for ever in a corrupted state returns an option, and the
  properties prove that it returns.  \<open>sort.Slice\<close> is a stable sort here; its keys are distinct, or equal keys
  belong to equal elements, wherever a property depends on the order.  \<open>Go_Text\<close> has UTF-8, decimal and
  hexadecimal texts and big-endian numbers, \<open>Go_Json\<close> the strings of \<open>json.Marshal\<close>, \<open>Go_Values\<close> the
  dynamic values of parameters.  Go's \<open>int\<close> is unbounded here where it counts elements in memory.

  \<^bold>\<open>Events and values.\<close>
  \<^item> \<open>Event_Timing\<close>, \<open>Vector_Clock\<close>, \<open>Event_Model\<close>, \<open>Event_Observation\<close>: \<open>event.go\<close>, \<open>event_timing.go\<close>,
    \<open>event_vector.go\<close> and \<open>event_observation.go\<close>.  Intervals have one canonical list; \<open>Before\<close> on vector clocks
    is the strict pointwise order, and a merged or incremented clock obeys the laws of the locale
    \<open>causal_clock\<close>.
  \<^item> \<open>Float_Semantics\<close>: \<open>float_semantics.go\<close> on bit patterns.  \<open>math/big\<close> is modelled by integers; the
    arithmetic returns a float nearest to the exact result.
  \<^item> \<open>Rapide_Values\<close>, \<open>Record_Values\<close>, \<open>Canonical_Encoding\<close>, \<open>Deterministic_Event\<close>: \<open>deterministic_event.go\<close>,
    \<open>rapide_string.go\<close>, \<open>value_semantics.go\<close>, \<open>module_value.go\<close> and \<open>rapide_record_value.go\<close>.  The bytes that
    are hashed are a prefix-free encoding, so equal identities mean equal content or a collision of the hash.
  \<^item> \<open>Canonical_Value\<close>, \<open>Canonical_Json\<close>: the typed representation of \<open>canonical.go\<close> and its JSON text; the
    decoder inverts the encoder and accepts nothing else.

  \<^bold>\<open>The poset.\<close>
  \<^item> \<open>Poset_State\<close> is the struct of \<open>poset.go\<close> with the class index of \<open>causal_equivalence.go\<close>; the breadth-first
    searches share the loops of \<open>Graph_Search\<close> (locales \<open>collect_search\<close> and \<open>target_search\<close>).
  \<^item> \<open>Poset_Inv\<close> states the invariant \<open>poset_ok\<close> (the class index, symmetric acyclic edges between
    representatives, canonical events, uniform positions, no conflicting intervals) and the strict order
    \<open>before\<close>; the operations below are specified over it.
  \<^item> \<open>Poset_Insert\<close>, \<open>Poset_Lamport\<close>, \<open>Poset_Causal\<close>, \<open>Poset_Growth\<close>, \<open>Poset_Equiv\<close>, \<open>Poset_Observation\<close>: one
    theory for each group of mutating operations.  Each has an outcome lemma: which error it returns for
    which input, that an error changes nothing, and by which pairs success extends the order.
    \<open>Antichain_Merge\<close> is the algebra of collapsing unrelated classes.  The Lamport worklist is a
    \<open>partial_function\<close>; that it returns is a property, with a lexicographic measure that also covers a
    position about to wrap.
  \<^item> \<open>Poset_Query\<close>, \<open>Poset_Topo\<close>: the queries of \<open>store.go\<close>, topological layers and causal depths over
    \<open>Kahn\<close> (locale \<open>kahn_graph\<close>).
  \<^item> \<open>Store_Interface\<close>: the contract of the store as the locales \<open>causal_preorder\<close> and \<open>growing_store\<close>;
    \<open>Poset_Runs\<close> interprets the latter by runs of all calls that grow a poset, merges of snapshots included:
    reachable states are well-formed and causal knowledge is never lost, as long as no call adds an event
    with the empty ID, which the class index cannot represent.  \<open>UnmarshalJSON\<close>, which replaces a poset, is
    not one of these calls.  \<open>Poset_Replica\<close> rebuilds a poset from its classes and edges.

  \<^bold>\<open>Snapshots and synchronisation.\<close>
  \<^item> \<open>Snapshot_Model\<close>, \<open>Snapshot_Merge\<close>, \<open>Snapshot_Transfer\<close>: \<open>merge.go\<close> and the exported events of \<open>export.go\<close>.
    The three sections of a merge are instances of the locale \<open>merge_section\<close>; a merge accounts for every
    item, without an issue everything the snapshot says holds with the contents it was exported with, and a
    full snapshot merged into an empty poset reproduces the original.
  \<^item> \<open>Dsync_Transport\<close>: \<open>dsync/mem_transport.go\<close> as a transition system whose actions are the lock regions of
    \<open>Send\<close>, \<open>Receive\<close> and \<open>Close\<close>, in every interleaving, with the inbox capacity 256 of the code.  It refines
    one bounded first-in first-out channel per node.  A call of \<open>Close\<close> sleeps on the condition variable until
    the last active send wakes it; in every run that is weakly fair to the calls it returns, by a measure that
    no action raises and a helpful call lowers.
  \<^item> \<open>Dsync_Coordinator\<close>: \<open>dsync/coordinator.go\<close> over any transport with the laws of \<open>snapshot_transport\<close>,
    interpreted by the in-memory network.  A send alone runs its regions with fuel 5: after its checks it
    has at most four, so the fuel never ends first, as the interpretation proves.  Where several cases of its
    \<open>select\<close> are ready an arbitrary choice function picks one.  The cause of an issue keeps everything its text
    is made of, so that the text, on which issues are deduplicated, is a function of the cause.

  \<^bold>\<open>Patterns and constraints.\<close>
  \<^item> \<open>Visible_Poset\<close>: the reading interface of \<open>pattern/\<close>, a poset or a projection of one, under the locale
    \<open>causal_view\<close>.
  \<^item> \<open>Pattern_Match\<close>: the evaluation of basic patterns, causal relations, disjunction, conjunction, iteration
    and ranges.  An iteration without bound stops after as many repetitions as there are occurrences, the
    code's own ceiling.
  \<^item> \<open>Match_Canonical\<close>, \<open>Pattern_Meaning\<close>, \<open>Pattern_Exact\<close>: a declarative meaning of patterns, as sets of matches,
    and the refinement: the evaluator returns that set once in canonical order.  The ceiling loses nothing
    where it cannot matter (a relation that is not idempotent uses up occurrences; a pattern without
    placeholders repeats its occurrences), and where it does a property shows the match that is missed.
  \<^item> \<open>Pattern_Keys\<close>, \<open>Match_Whole\<close>: deterministic keys, emptiness, and the matches of the whole associated
    computation (\<open>pattern/pattern.go\<close>, \<open>pattern/whole.go\<close>).
  \<^item> \<open>Constraint_Check\<close>, \<open>Constraint_Predicates\<close>: \<open>constraint/constraint.go\<close>, the digest of
    \<open>constraint/canonical.go\<close> and \<open>constraint/sequential.go\<close>.  A check reports exactly the violations that the
    meanings of the clauses dictate over the filtered view; the longest causal chain is the greatest one.

  \<^bold>\<open>Augmented computations and the lexer.\<close>
  \<^item> \<open>Augmented_Computation\<close>, \<open>Consistent_Cuts\<close>: \<open>arch/consistent_cut.go\<close>.  The recursion that enumerates cuts
    runs over the remaining optional occurrences and keeps the two limits of the code; a result lists
    exactly the consistent cuts of the match.
  \<^item> \<open>Rapide_Lexer\<close>: \<open>rapide/lexer.go\<close>, every scanner; the loops end because the offset grows.

  \<^bold>\<open>Parameters.\<close>  Code outside the repository is an argument: \<open>sha256\<close> and the digests of consistent cuts,
  the formatting and parsing of times (a law of \<open>snapshot_transfer\<close> asks that parsing inverts formatting),
  quoting and the texts of errors.

  \<^bold>\<open>Not modelled.\<close>  Locks are represented only where two calls can interleave inside an operation
  (the transport).  Aliasing between copies is outside a model of values: defensive copies are equal to their
  originals.  The Rapide parser, type elaboration and compiler, the execution engine of \<open>arch/\<close>,
  the guards, timing forms and state witnesses of patterns and constraints, canonical reports, the
  background checker, text exports, the studio and the OpenTelemetry exporter are left out: they interpret
  host callbacks, run goroutines around the modelled operations, or print.
\<close>

end
